(* ===== verification/Prelude.thy ===== *)
theory Prelude
  imports Main "HOL-Library.Word" "HOL-Library.Product_Lexorder"
begin

text \<open>
  What every component shares: the machine integers of the Rust source, wrap-around for the
  signed ones, big-endian and little-endian byte codecs, and list lemmas.

  \<^item> \<open>u8\<close>, \<open>u16\<close>, \<open>u32\<close>, \<open>u64\<close> are words of HOL-Library.Word; \<open>usize\<close> positions and
    lengths are \<open>nat\<close>.
  \<^item> \<open>i32\<close> and \<open>i64\<close> values are \<open>int\<close>; the functions \<open>i32\<close> and \<open>i64\<close> wrap a result into
    two's complement, which is what the release build of the source does on overflow.
\<close>

unbundle bit_operations_syntax

type_synonym u8 = "8 word"
type_synonym u16 = "16 word"
type_synonym u32 = "32 word"
type_synonym u64 = "64 word"
type_synonym bytes = "8 word list"

section \<open>Lemma collections\<close>

named_theorems codec_simps \<open>length and decoding equations of the byte codecs\<close>
named_theorems parse_ext \<open>rules that carry a parser from a buffer to a longer one\<close>

section \<open>Signed integers\<close>

definition i32 :: "int \<Rightarrow> int" where
  "i32 n = (n + 2 ^ 31) mod 2 ^ 32 - 2 ^ 31"

definition i64 :: "int \<Rightarrow> int" where
  "i64 n = (n + 2 ^ 63) mod 2 ^ 64 - 2 ^ 63"

definition in_i32 :: "int \<Rightarrow> bool" where
  "in_i32 n \<longleftrightarrow> - (2 ^ 31) \<le> n \<and> n < 2 ^ 31"

lemma i32_id [simp]: "in_i32 n \<Longrightarrow> i32 n = n"
  by (simp add: i32_def in_i32_def)

lemma i32_small: "- 2147483648 \<le> n \<Longrightarrow> n < 2147483648 \<Longrightarrow> i32 n = n"
  by (simp add: i32_def)

lemma i64_small: "- 9223372036854775808 \<le> n \<Longrightarrow> n < 9223372036854775808 \<Longrightarrow> i64 n = n"
  by (simp add: i64_def)

lemma in_i32_i32 [simp]: "in_i32 (i32 n)"
proof -
  have "0 \<le> (n + 2 ^ 31) mod 2 ^ 32" and "(n + 2 ^ 31) mod 2 ^ 32 < (2::int) ^ 32"
    by simp_all
  then show ?thesis by (simp add: i32_def in_i32_def)
qed

section \<open>Unsigned integers\<close>

lemma unat_bounds: "unat (a :: u8) < 256" "unat (b :: u16) < 65536" "unat (c :: u32) < 4294967296"
  by (rule unsigned_less [of a, simplified], rule unsigned_less [of b, simplified], rule unsigned_less [of c, simplified])

lemma unat_ucast32 [simp]: "unat (ucast (a :: u8) :: u32) = unat a" "unat (ucast (b :: u16) :: u32) = unat b"
  using unat_bounds(1) [of a] unat_bounds(2) [of b]
  by (simp_all add: unsigned_ucast_eq take_bit_nat_eq_self)

text \<open>\<open>usize::div_ceil\<close>.\<close>

definition div_ceil :: "nat \<Rightarrow> nat \<Rightarrow> nat" where
  "div_ceil a b = (if a mod b = 0 then a div b else a div b + 1)"

lemma div_ceil_less: "c < div_ceil w n \<longleftrightarrow> n * c < w" if "0 < n" for n w c :: nat
proof -
  obtain q r where q: "w = n * q + r" "r < n"
    by (rule that [OF mult_div_mod_eq [symmetric] mod_less_divisor [OF \<open>0 < n\<close>]])
  have m: "w mod n = r" "w div n = q" using q by simp_all
  have "n * c < n * q + r \<longleftrightarrow> (if r = 0 then c < q else c < q + 1)"
  proof (cases "c < q")
    case True
    then have "n * c < n * q" using \<open>0 < n\<close> by simp
    then have "n * c < n * q + r" by (rule trans_less_add1)
    then show ?thesis using True by simp
  next
    case False
    show ?thesis
    proof (cases "c = q")
      case False
      with \<open>\<not> c < q\<close> have "n * (q + 1) \<le> n * c" by (intro mult_le_mono2) simp
      then show ?thesis using q(2) False \<open>\<not> c < q\<close> by simp
    qed simp
  qed
  then show ?thesis using m q(1) that by (simp add: div_ceil_def)
qed

lemma those_map_Some: "\<forall>x\<in>set xs. f x = Some (g x) \<Longrightarrow> those (map f xs) = Some (map g xs)"
  by (induction xs) simp_all

end
