(* ===== verification/Rects.thy ===== *)
theory Rects
  imports Prelude
begin

text \<open>
  Rectangles and moves of the region crate (\<^verbatim>\<open>crates/alloyvnc-region/src/lib.rs\<close>, \<open>Rect\<close> and
  \<open>Move\<close>). A rectangle is half-open: it covers \<open>x1..x2\<close> by \<open>y1..y2\<close>. Coordinates are \<open>i32\<close>;
  the operations that add or subtract wrap as the release build does. The meaning of a
  rectangle is its set of pixels, \<open>rect_pixels\<close>; the lemmas give each operation's meaning.
\<close>

section \<open>The data\<close>

record rect =
  rx1 :: int
  ry1 :: int
  rx2 :: int
  ry2 :: int

abbreviation mk_rect :: "int \<Rightarrow> int \<Rightarrow> int \<Rightarrow> int \<Rightarrow> rect" where
  "mk_rect a b c d \<equiv> \<lparr>rx1 = a, ry1 = b, rx2 = c, ry2 = d\<rparr>"

definition rect_EMPTY :: rect where
  "rect_EMPTY = mk_rect 0 0 0 0"

definition rect_new :: "int \<Rightarrow> int \<Rightarrow> int \<Rightarrow> int \<Rightarrow> rect" where
  "rect_new x y width height = mk_rect x y (i32 (x + width)) (i32 (y + height))"

definition rect_from_corners :: "int \<Rightarrow> int \<Rightarrow> int \<Rightarrow> int \<Rightarrow> rect" where
  "rect_from_corners a b c d = mk_rect a b c d"

definition rect_width :: "rect \<Rightarrow> int" where
  "rect_width r = (if rx2 r > rx1 r then i32 (rx2 r - rx1 r) else 0)"

definition rect_height :: "rect \<Rightarrow> int" where
  "rect_height r = (if ry2 r > ry1 r then i32 (ry2 r - ry1 r) else 0)"

definition rect_is_empty :: "rect \<Rightarrow> bool" where
  "rect_is_empty r \<longleftrightarrow> rx2 r \<le> rx1 r \<or> ry2 r \<le> ry1 r"

definition rect_area :: "rect \<Rightarrow> int" where
  "rect_area r = i64 (rect_width r * rect_height r)"

definition rect_normalised :: "rect \<Rightarrow> rect" where
  "rect_normalised r = (if rect_is_empty r then rect_EMPTY else r)"

definition rect_intersection :: "rect \<Rightarrow> rect \<Rightarrow> rect" where
  "rect_intersection r other = rect_normalised
     (mk_rect (max (rx1 r) (rx1 other)) (max (ry1 r) (ry1 other))
              (min (rx2 r) (rx2 other)) (min (ry2 r) (ry2 other)))"

definition rect_intersects :: "rect \<Rightarrow> rect \<Rightarrow> bool" where
  "rect_intersects r other \<longleftrightarrow> \<not> rect_is_empty (rect_intersection r other)"

definition rect_contains :: "rect \<Rightarrow> rect \<Rightarrow> bool" where
  "rect_contains r other \<longleftrightarrow> rect_is_empty other \<or>
     (rx1 r \<le> rx1 other \<and> ry1 r \<le> ry1 other \<and> rx2 other \<le> rx2 r \<and> ry2 other \<le> ry2 r)"

definition rect_contains_point :: "rect \<Rightarrow> int \<Rightarrow> int \<Rightarrow> bool" where
  "rect_contains_point r x y \<longleftrightarrow> x \<ge> rx1 r \<and> x < rx2 r \<and> y \<ge> ry1 r \<and> y < ry2 r"

definition rect_union_bounds :: "rect \<Rightarrow> rect \<Rightarrow> rect" where
  "rect_union_bounds r other =
     (if rect_is_empty r then rect_normalised other
      else if rect_is_empty other then rect_normalised r
      else mk_rect (min (rx1 r) (rx1 other)) (min (ry1 r) (ry1 other))
                   (max (rx2 r) (rx2 other)) (max (ry2 r) (ry2 other)))"

definition rect_translate :: "rect \<Rightarrow> int \<Rightarrow> int \<Rightarrow> rect" where
  "rect_translate r dx dy =
     mk_rect (i32 (rx1 r + dx)) (i32 (ry1 r + dy)) (i32 (rx2 r + dx)) (i32 (ry2 r + dy))"

text \<open>A block that moved: \<open>dst\<close> now holds what was at \<open>(src_x, src_y)\<close>.\<close>

record move =
  src_x :: int
  src_y :: int
  dst :: rect

definition move_src :: "move \<Rightarrow> rect" where
  "move_src m = rect_new (src_x m) (src_y m) (rect_width (dst m)) (rect_height (dst m))"

definition move_translate :: "move \<Rightarrow> int \<Rightarrow> int \<Rightarrow> move" where
  "move_translate m dx dy =
     \<lparr>src_x = i32 (src_x m + dx), src_y = i32 (src_y m + dy), dst = rect_translate (dst m) dx dy\<rparr>"

section \<open>What they mean\<close>

definition rect_pixels :: "rect \<Rightarrow> (int \<times> int) set" where
  "rect_pixels r = {(x, y). rx1 r \<le> x \<and> x < rx2 r \<and> ry1 r \<le> y \<and> y < ry2 r}"

lemma in_rect_pixels: "(x, y) \<in> rect_pixels r \<longleftrightarrow> rx1 r \<le> x \<and> x < rx2 r \<and> ry1 r \<le> y \<and> y < ry2 r"
  by (simp add: rect_pixels_def)

lemma rect_pixels_prod: "rect_pixels r = {rx1 r ..< rx2 r} \<times> {ry1 r ..< ry2 r}"
  by (auto simp: rect_pixels_def)

lemma finite_rect_pixels [simp]: "finite (rect_pixels r)"
  by (simp add: rect_pixels_prod)

lemma rect_is_empty_pixels: "rect_is_empty r \<longleftrightarrow> rect_pixels r = {}"
  by (auto simp: rect_is_empty_def rect_pixels_prod)

lemma rect_EMPTY_pixels [simp]: "rect_pixels rect_EMPTY = {}"
  by (simp add: rect_EMPTY_def rect_pixels_prod)

lemma rect_normalised_pixels [simp]: "rect_pixels (rect_normalised r) = rect_pixels r"
  by (simp add: rect_normalised_def rect_is_empty_pixels)

lemma rect_intersection_pixels [simp]:
  "rect_pixels (rect_intersection r s) = rect_pixels r \<inter> rect_pixels s"
  by (simp add: rect_intersection_def) (simp add: rect_pixels_prod Times_Int_Times)

lemma rect_intersects_pixels: "rect_intersects r s \<longleftrightarrow> rect_pixels r \<inter> rect_pixels s \<noteq> {}"
  by (simp add: rect_intersects_def rect_is_empty_pixels)

lemma rect_contains_pixels: "rect_contains r s \<longleftrightarrow> rect_pixels s \<subseteq> rect_pixels r"
proof (cases "rect_is_empty s")
  case True
  then show ?thesis by (simp add: rect_contains_def rect_is_empty_pixels)
next
  case False
  then have lt: "rx1 s < rx2 s" "ry1 s < ry2 s" by (simp_all add: rect_is_empty_def)
  show ?thesis
  proof
    assume "rect_contains r s"
    with False show "rect_pixels s \<subseteq> rect_pixels r"
      by (auto simp: rect_contains_def rect_pixels_def)
  next
    assume sub: "rect_pixels s \<subseteq> rect_pixels r"
    have "(rx1 s, ry1 s) \<in> rect_pixels s" and "(rx2 s - 1, ry2 s - 1) \<in> rect_pixels s"
      using lt by (simp_all add: in_rect_pixels)
    with sub have "(rx1 s, ry1 s) \<in> rect_pixels r" and "(rx2 s - 1, ry2 s - 1) \<in> rect_pixels r"
      by blast+
    then show "rect_contains r s"
      by (simp add: rect_contains_def in_rect_pixels)
  qed
qed

lemma rect_contains_point_pixels: "rect_contains_point r x y \<longleftrightarrow> (x, y) \<in> rect_pixels r"
  by (auto simp: rect_contains_point_def in_rect_pixels)

lemma rect_union_bounds_pixels:
  "rect_pixels r \<union> rect_pixels s \<subseteq> rect_pixels (rect_union_bounds r s)"
  by (auto simp: rect_union_bounds_def rect_is_empty_pixels) (auto simp: rect_pixels_def)

lemma rect_union_bounds_least:
  assumes "rect_pixels r \<subseteq> rect_pixels b" and "rect_pixels s \<subseteq> rect_pixels b"
  shows "rect_pixels (rect_union_bounds r s) \<subseteq> rect_pixels b"
proof (cases "rect_is_empty r \<or> rect_is_empty s")
  case True
  with assms show ?thesis by (auto simp: rect_union_bounds_def)
next
  case False
  then have "rect_contains b r" "rect_contains b s"
    using assms by (simp_all add: rect_contains_pixels)
  with False show ?thesis
    by (auto simp: rect_union_bounds_def rect_contains_def in_rect_pixels)
qed

text \<open>Coordinates a picture has: far from the ends of \<open>i32\<close>, so nothing wraps.\<close>

definition rect_small :: "rect \<Rightarrow> bool" where
  "rect_small r \<longleftrightarrow> - 1073741824 \<le> rx1 r \<and> rx1 r < 1073741824 \<and> - 1073741824 \<le> ry1 r \<and> ry1 r < 1073741824
     \<and> - 1073741824 \<le> rx2 r \<and> rx2 r < 1073741824 \<and> - 1073741824 \<le> ry2 r \<and> ry2 r < 1073741824"

lemma rect_width_small: "rect_small r \<Longrightarrow> rect_width r = max 0 (rx2 r - rx1 r)"
  by (auto simp: rect_small_def rect_width_def i32_small)

lemma rect_height_small: "rect_small r \<Longrightarrow> rect_height r = max 0 (ry2 r - ry1 r)"
  by (auto simp: rect_small_def rect_height_def i32_small)

lemma rect_area_pixels:
  assumes "rect_small r"
  shows "rect_area r = int (card (rect_pixels r))"
proof -
  let ?w = "rx2 r - rx1 r" and ?h = "ry2 r - ry1 r"
  have b: "max 0 ?w \<le> 2147483648" "max 0 ?h \<le> 2147483648"
    using assms by (auto simp: rect_small_def)
  have "max 0 ?w * max 0 ?h \<le> 2147483648 * 2147483648"
    using b by (intro mult_mono) auto
  then have "i64 (max 0 ?w * max 0 ?h) = max 0 ?w * max 0 ?h"
    by (intro i64_small) (auto intro: order_trans [of _ 0])
  moreover have "int (card (rect_pixels r)) = max 0 ?w * max 0 ?h"
    by (auto simp: rect_pixels_prod card_cartesian_product max_def)
  ultimately show ?thesis
    by (simp add: rect_area_def rect_width_small [OF assms] rect_height_small [OF assms])
qed

lemma rect_small_intersection: "rect_small r \<Longrightarrow> rect_small s \<Longrightarrow> rect_small (rect_intersection r s)"
  by (auto simp: rect_small_def rect_intersection_def rect_normalised_def rect_EMPTY_def)

end
