(* ===== verification/Spans.thy ===== *)
theory Spans
  imports Prelude
begin

text \<open>
  Horizontal spans \<open>x1..x2\<close> inside one band, and the three one-dimensional set operations
  on sorted span lists (\<open>union_spans\<close>, \<open>intersect_spans\<close> and \<open>subtract_spans\<close> of
  \<^verbatim>\<open>crates/alloyvnc-region/src/lib.rs\<close>). The source walks two index variables over two
  slices; the model walks the two remaining suffixes and keeps the output list as the
  source does. A span list means the set of its columns, \<open>span_pts\<close>; in normal form
  (\<open>spans_wf\<close>) it is sorted, non-empty span by span, and separated by at least one column.
\<close>

type_synonym span = "int \<times> int"

section \<open>The operations\<close>

text \<open>The body of the union's loop after \<open>next\<close> has been taken from one side.\<close>

definition union_emit :: "span option \<Rightarrow> span \<Rightarrow> span list \<Rightarrow> span option \<times> span list" where
  "union_emit cur nxt out = (case cur of
     Some c \<Rightarrow>
       if fst nxt \<le> snd c then (Some (fst c, max (snd c) (snd nxt)), out)
       else (Some nxt, out @ [c])
   | None \<Rightarrow> (Some nxt, out))"

fun union_loop :: "span list \<Rightarrow> span list \<Rightarrow> span option \<Rightarrow> span list \<Rightarrow> span list" where
  "union_loop (x # a) (y # b) cur out =
     (if fst x \<le> fst y
      then (case union_emit cur x out of (cur', out') \<Rightarrow> union_loop a (y # b) cur' out')
      else (case union_emit cur y out of (cur', out') \<Rightarrow> union_loop (x # a) b cur' out'))"
| "union_loop (x # a) [] cur out =
     (case union_emit cur x out of (cur', out') \<Rightarrow> union_loop a [] cur' out')"
| "union_loop [] (y # b) cur out =
     (case union_emit cur y out of (cur', out') \<Rightarrow> union_loop [] b cur' out')"
| "union_loop [] [] cur out = (case cur of Some c \<Rightarrow> out @ [c] | None \<Rightarrow> out)"

definition union_spans :: "span list \<Rightarrow> span list \<Rightarrow> span list" where
  "union_spans a b = union_loop a b None []"

fun intersect_loop :: "span list \<Rightarrow> span list \<Rightarrow> span list \<Rightarrow> span list" where
  "intersect_loop (x # a) (y # b) out =
     (let x1 = max (fst x) (fst y);
          x2 = min (snd x) (snd y);
          out' = (if x1 < x2 then out @ [(x1, x2)] else out)
      in if snd x < snd y then intersect_loop a (y # b) out'
         else intersect_loop (x # a) b out')"
| "intersect_loop a b out = out"

definition intersect_spans :: "span list \<Rightarrow> span list \<Rightarrow> span list" where
  "intersect_spans a b = intersect_loop a b []"

text \<open>The inner loop of the subtraction: \<open>k\<close> over the holes starting below \<open>ax2\<close>.\<close>

fun subtract_inner :: "int \<Rightarrow> int \<Rightarrow> span list \<Rightarrow> span list \<Rightarrow> int \<times> span list" where
  "subtract_inner ax2 cur (k # ks) out =
     (if fst k < ax2
      then (let out' = (if fst k > cur then out @ [(cur, fst k)] else out);
                cur' = max cur (snd k)
            in if cur' \<ge> ax2 then (cur', out') else subtract_inner ax2 cur' ks out')
      else (cur, out))"
| "subtract_inner ax2 cur [] out = (cur, out)"

fun subtract_loop :: "span list \<Rightarrow> span list \<Rightarrow> span list \<Rightarrow> span list" where
  "subtract_loop (s # a) b out =
     (let b' = dropWhile (\<lambda>t. snd t \<le> fst s) b
      in case subtract_inner (snd s) (fst s) b' out of (cur, out') \<Rightarrow>
           subtract_loop a b' (if cur < snd s then out' @ [(cur, snd s)] else out'))"
| "subtract_loop [] b out = out"

definition subtract_spans :: "span list \<Rightarrow> span list \<Rightarrow> span list" where
  "subtract_spans a b = subtract_loop a b []"

section \<open>What they mean\<close>

definition span_pts :: "span list \<Rightarrow> int set" where
  "span_pts ss = (\<Union>s \<in> set ss. {fst s ..< snd s})"

lemma span_pts_Nil [simp]: "span_pts [] = {}"
  and span_pts_Cons [simp]: "span_pts (s # ss) = {fst s ..< snd s} \<union> span_pts ss"
  and span_pts_append [simp]: "span_pts (xs @ ys) = span_pts xs \<union> span_pts ys"
  by (auto simp: span_pts_def)

definition spans_nonempty :: "span list \<Rightarrow> bool" where
  "spans_nonempty ss \<longleftrightarrow> (\<forall>s \<in> set ss. fst s < snd s)"

definition spans_wf :: "span list \<Rightarrow> bool" where
  "spans_wf ss \<longleftrightarrow> spans_nonempty ss \<and> sorted_wrt (\<lambda>s t. snd s < fst t) ss"

text \<open>What the union needs of its inputs: non-empty spans, sorted by their left edge.\<close>

definition spans_sorted :: "span list \<Rightarrow> bool" where
  "spans_sorted ss \<longleftrightarrow> spans_nonempty ss \<and> sorted_wrt (\<lambda>s t. fst s \<le> fst t) ss"

lemma spans_nonempty_simps [simp]:
  "spans_nonempty []"
  "spans_nonempty (s # ss) \<longleftrightarrow> fst s < snd s \<and> spans_nonempty ss"
  "spans_nonempty (xs @ ys) \<longleftrightarrow> spans_nonempty xs \<and> spans_nonempty ys"
  by (auto simp: spans_nonempty_def)

lemma spans_wf_Nil [simp]: "spans_wf []"
  by (simp add: spans_wf_def)

lemma starts_pts:
  assumes "spans_nonempty ss"
  shows "(\<forall>t \<in> set ss. z < fst t) \<longleftrightarrow> (\<forall>p \<in> span_pts ss. z < p)"
  using assms by (force simp: span_pts_def spans_nonempty_def)

lemma starts_pts_le:
  assumes "spans_nonempty ss"
  shows "(\<forall>t \<in> set ss. z \<le> fst t) \<longleftrightarrow> (\<forall>p \<in> span_pts ss. z \<le> p)"
  using assms by (force simp: span_pts_def spans_nonempty_def)

lemma spans_wf_Cons:
  "spans_wf (s # ss) \<longleftrightarrow> fst s < snd s \<and> spans_wf ss \<and> (\<forall>p \<in> span_pts ss. snd s < p)"
  by (cases "spans_nonempty ss") (simp_all add: spans_wf_def starts_pts, blast)

lemma spans_sorted_Nil [simp]: "spans_sorted []"
  by (simp add: spans_sorted_def)

lemma spans_sorted_Cons:
  "spans_sorted (s # ss) \<longleftrightarrow> fst s < snd s \<and> spans_sorted ss \<and> (\<forall>p \<in> span_pts ss. fst s \<le> p)"
  by (cases "spans_nonempty ss") (simp_all add: spans_sorted_def starts_pts_le, blast)

lemma spans_wf_sorted: "spans_wf ss \<Longrightarrow> spans_sorted ss"
  by (induction ss) (force simp: spans_wf_Cons spans_sorted_Cons)+

lemma spans_wf_append:
  assumes "spans_wf xs" "spans_wf ys" "\<And>p q. p \<in> span_pts xs \<Longrightarrow> q \<in> span_pts ys \<Longrightarrow> p + 1 < q"
  shows "spans_wf (xs @ ys)"
  using assms
proof (induction xs)
  case (Cons s xs)
  have "snd s - 1 \<in> span_pts (s # xs)"
    using Cons.prems(1) by (auto simp: spans_wf_Cons)
  then have "\<forall>q \<in> span_pts ys. snd s < q" using Cons.prems(3) by fastforce
  with Cons show ?case by (auto simp: spans_wf_Cons)
qed simp

section \<open>Union\<close>

lemma union_emit_pre:
  "union_emit cur n (pre @ out) = (fst (union_emit cur n out), pre @ snd (union_emit cur n out))"
  by (auto simp: union_emit_def split: option.splits)

lemma union_loop_pre: "union_loop a b cur (pre @ out) = pre @ union_loop a b cur out"
  by (induction a b cur out rule: union_loop.induct)
     (auto simp: union_emit_pre split: prod.splits option.splits)

lemma union_loop_out: "union_loop a b cur [c] = c # union_loop a b cur []"
  using union_loop_pre [of a b cur "[c]" "[]"] by simp

lemma union_loop_Some:
  assumes "spans_sorted a" "spans_sorted b" "fst c < snd c"
    and "\<And>p. p \<in> span_pts a \<union> span_pts b \<Longrightarrow> fst c \<le> p"
  shows "spans_wf (union_loop a b (Some c) [])
    \<and> span_pts (union_loop a b (Some c) []) = {fst c ..< snd c} \<union> span_pts a \<union> span_pts b"
  using assms
proof (induction "length a + length b" arbitrary: a b c rule: less_induct)
  case less
  have step: "spans_wf (case union_emit (Some c) n [] of (cur, o') \<Rightarrow> union_loop a' b' cur o')
      \<and> span_pts (case union_emit (Some c) n [] of (cur, o') \<Rightarrow> union_loop a' b' cur o')
        = {fst c ..< snd c} \<union> {fst n ..< snd n} \<union> span_pts a' \<union> span_pts b'"
    if sm: "length a' + length b' < length a + length b"
      and ok: "spans_sorted a'" "spans_sorted b'" "fst n < snd n" "fst c \<le> fst n"
      and lb: "\<And>p. p \<in> span_pts a' \<union> span_pts b' \<Longrightarrow> fst n \<le> p" for n a' b'
  proof (cases "fst n \<le> snd c")
    case True
    have lb': "\<And>p. p \<in> span_pts a' \<union> span_pts b' \<Longrightarrow> fst (fst c, max (snd c) (snd n)) \<le> p"
      using lb ok(4) by fastforce
    have "fst (fst c, max (snd c) (snd n)) < snd (fst c, max (snd c) (snd n))"
      using less.prems(3) by auto
    note IH = less.hyps [OF sm ok(1,2) this lb']
    have "{fst c ..< max (snd c) (snd n)} = {fst c ..< snd c} \<union> {fst n ..< snd n}"
      using True ok(4) by (auto simp: max_def)
    with IH True show ?thesis by (simp add: union_emit_def)
  next
    case False
    note IH = less.hyps [OF sm ok(1,2,3) lb]
    have "\<forall>p \<in> span_pts (union_loop a' b' (Some n) []). snd c < p"
    proof
      fix p
      assume "p \<in> span_pts (union_loop a' b' (Some n) [])"
      then have "fst n \<le> p" using IH lb by auto
      with False show "snd c < p" by simp
    qed
    with IH False less.prems(3) show ?thesis
      by (simp add: union_emit_def union_loop_out spans_wf_Cons Un_assoc)
  qed
  consider "a = []" "b = []" | x a' where "a = x # a'" "b = []"
    | y b' where "a = []" "b = y # b'" | x a' y b' where "a = x # a'" "b = y # b'"
    by (cases a; cases b) auto
  then show ?case
  proof cases
    case 1
    with less.prems show ?thesis by (simp add: spans_wf_Cons)
  next
    case (2 x a')
    with less.prems show ?thesis
      using step [of a' "[]" x] by (auto simp: spans_sorted_Cons)
  next
    case (3 y b')
    with less.prems show ?thesis
      using step [of "[]" b' y] by (auto simp: spans_sorted_Cons)
  next
    case (4 x a' y b')
    have xy: "fst x < snd x" "fst y < snd y" "fst c \<le> fst x" "fst c \<le> fst y"
      using less.prems 4 by (auto simp: spans_sorted_Cons)
    show ?thesis
    proof (cases "fst x \<le> fst y")
      case True
      with less.prems 4 xy show ?thesis
        using step [of a' b x] by (fastforce simp: spans_sorted_Cons)
    next
      case False
      with less.prems 4 xy show ?thesis
        using step [of a b' y] by (fastforce simp: spans_sorted_Cons)
    qed
  qed
qed

lemma union_spans_correct:
  assumes "spans_sorted a" "spans_sorted b"
  shows "spans_wf (union_spans a b)" and "span_pts (union_spans a b) = span_pts a \<union> span_pts b"
proof -
  have "spans_wf (union_spans a b) \<and> span_pts (union_spans a b) = span_pts a \<union> span_pts b"
  proof (cases a)
    case Nil
    with assms show ?thesis
      using union_loop_Some [of "[]" "tl b" "hd b"]
      by (cases b) (auto simp: union_spans_def union_emit_def spans_sorted_Cons)
  next
    case (Cons x a')
    show ?thesis
    proof (cases b)
      case Nil
      with Cons assms show ?thesis
        using union_loop_Some [of a' "[]" x]
        by (auto simp: union_spans_def union_emit_def spans_sorted_Cons)
    next
      case (Cons y b')
      have x: "fst x < snd x" "spans_sorted a'" "\<forall>p \<in> span_pts a'. fst x \<le> p"
        and y: "fst y < snd y" "spans_sorted b'" "\<forall>p \<in> span_pts b'. fst y \<le> p"
        using assms \<open>a = x # a'\<close> Cons by (auto simp: spans_sorted_Cons)
      show ?thesis
      proof (cases "fst x \<le> fst y")
        case True
        then have "\<And>p. p \<in> span_pts a' \<union> span_pts b \<Longrightarrow> fst x \<le> p"
          using x y Cons by fastforce
        from union_loop_Some [OF x(2) assms(2) x(1) this] True show ?thesis
          by (simp add: union_spans_def union_emit_def Cons \<open>a = x # a'\<close> Un_assoc)
      next
        case False
        then have "\<And>p. p \<in> span_pts a \<union> span_pts b' \<Longrightarrow> fst y \<le> p"
          using x y \<open>a = x # a'\<close> by fastforce
        from union_loop_Some [OF assms(1) y(2) y(1) this] False show ?thesis
          by (simp add: union_spans_def union_emit_def Cons \<open>a = x # a'\<close> Un_ac)
      qed
    qed
  qed
  then show "spans_wf (union_spans a b)" "span_pts (union_spans a b) = span_pts a \<union> span_pts b"
    by simp_all
qed

section \<open>Intersection\<close>

lemma intersect_loop_pre: "intersect_loop a b (pre @ out) = pre @ intersect_loop a b out"
  by (induction a b out rule: intersect_loop.induct) (auto simp: Let_def)

lemma intersect_loop_out: "intersect_loop a b [c] = c # intersect_loop a b []"
  using intersect_loop_pre [of a b "[c]" "[]"] by simp

lemma intersect_loop_correct:
  assumes "spans_wf a" "spans_wf b"
  shows "spans_wf (intersect_loop a b []) \<and> span_pts (intersect_loop a b []) = span_pts a \<inter> span_pts b"
  using assms
proof (induction "length a + length b" arbitrary: a b rule: less_induct)
  case less
  show ?case
  proof (cases "a = [] \<or> b = []")
    case True
    then show ?thesis by (cases a) auto
  next
    case False
    then obtain x a' y b' where ab: "a = x # a'" "b = y # b'" by (meson neq_Nil_conv)
    have wf: "fst x < snd x" "spans_wf a'" "\<forall>p \<in> span_pts a'. snd x < p"
      "fst y < snd y" "spans_wf b'" "\<forall>p \<in> span_pts b'. snd y < p"
      using less.prems ab by (auto simp: spans_wf_Cons)
    let ?h = "(max (fst x) (fst y), min (snd x) (snd y))"
    let ?o = "if fst ?h < snd ?h then [?h] else []"
    have hd: "spans_wf ?o" "span_pts ?o = {fst x ..< snd x} \<inter> {fst y ..< snd y}"
      by (auto simp: spans_wf_Cons)
    show ?thesis
    proof (cases "snd x < snd y")
      case True
      have eq: "intersect_loop a b [] = ?o @ intersect_loop a' b []"
        using True ab by (simp add: intersect_loop_out Let_def)
      have IH: "spans_wf (intersect_loop a' b [])"
        "span_pts (intersect_loop a' b []) = span_pts a' \<inter> span_pts b"
        using less.hyps [of a' b] less.prems wf ab by simp_all
      have "{fst x ..< snd x} \<inter> span_pts b' = {}"
        using True wf(6) by fastforce
      then have "span_pts (intersect_loop a b []) = span_pts a \<inter> span_pts b"
        unfolding eq span_pts_append hd IH(2) using ab by auto
      moreover have "spans_wf (intersect_loop a b [])"
        unfolding eq using hd IH wf(3) by (intro spans_wf_append) fastforce+
      ultimately show ?thesis by simp
    next
      case False
      have eq: "intersect_loop a b [] = ?o @ intersect_loop a b' []"
        using False ab by (simp add: intersect_loop_out Let_def)
      have IH: "spans_wf (intersect_loop a b' [])"
        "span_pts (intersect_loop a b' []) = span_pts a \<inter> span_pts b'"
        using less.hyps [of a b'] less.prems wf ab by simp_all
      have "{fst y ..< snd y} \<inter> span_pts a' = {}"
        using False wf(3) by fastforce
      then have "span_pts (intersect_loop a b []) = span_pts a \<inter> span_pts b"
        unfolding eq span_pts_append hd IH(2) using ab by auto
      moreover have "spans_wf (intersect_loop a b [])"
        unfolding eq using hd IH wf(6) by (intro spans_wf_append) fastforce+
      ultimately show ?thesis by simp
    qed
  qed
qed

lemma intersect_spans_correct:
  assumes "spans_wf a" "spans_wf b"
  shows "spans_wf (intersect_spans a b)"
    and "span_pts (intersect_spans a b) = span_pts a \<inter> span_pts b"
  using intersect_loop_correct [OF assms] by (simp_all add: intersect_spans_def)

section \<open>Subtraction\<close>

lemma subtract_inner_pre:
  "subtract_inner ax2 cur ks (pre @ out)
   = (fst (subtract_inner ax2 cur ks out), pre @ snd (subtract_inner ax2 cur ks out))"
  by (induction ax2 cur ks out rule: subtract_inner.induct) (auto simp: Let_def)

text \<open>What the inner loop and the push after it emit for one span.\<close>

definition subtract_piece :: "int \<Rightarrow> int \<Rightarrow> span list \<Rightarrow> span list" where
  "subtract_piece ax2 cur ks = (case subtract_inner ax2 cur ks [] of
     (c, out) \<Rightarrow> if c < ax2 then out @ [(c, ax2)] else out)"

lemma subtract_inner_out:
  "subtract_inner ax2 cur ks [c] = (fst (subtract_inner ax2 cur ks []), c # snd (subtract_inner ax2 cur ks []))"
  using subtract_inner_pre [of ax2 cur ks "[c]" "[]"] by simp

lemma subtract_piece_correct:
  assumes "spans_wf ks"
  shows "spans_wf (subtract_piece ax2 cur ks)
    \<and> span_pts (subtract_piece ax2 cur ks) = {cur ..< ax2} - span_pts ks"
  using assms
proof (induction ks arbitrary: cur)
  case Nil
  then show ?case by (auto simp: subtract_piece_def spans_wf_Cons)
next
  case (Cons k ks)
  have wf: "fst k < snd k" "spans_wf ks" "\<forall>p \<in> span_pts ks. snd k < p"
    using Cons.prems by (auto simp: spans_wf_Cons)
  note IH = Cons.IH [OF wf(2), of "max cur (snd k)"]
  show ?case
  proof (cases "fst k < ax2")
    case False
    with wf show ?thesis
      by (auto simp: subtract_piece_def spans_wf_Cons)
  next
    case True
    have eq: "subtract_piece ax2 cur (k # ks) =
        (if fst k > cur then [(cur, fst k)] else [])
        @ (if max cur (snd k) \<ge> ax2 then [] else subtract_piece ax2 (max cur (snd k)) ks)"
      using True by (auto simp: subtract_piece_def subtract_inner_out Let_def split: prod.splits)
    show ?thesis
    proof (cases "max cur (snd k) \<ge> ax2")
      case True
      with \<open>fst k < ax2\<close> wf show ?thesis
        unfolding eq by (auto simp: spans_wf_Cons)
    next
      case False
      have "span_pts (subtract_piece ax2 cur (k # ks)) = {cur ..< ax2} - span_pts (k # ks)"
        unfolding eq using False IH wf by (auto simp: max_def)
      moreover have "spans_wf (subtract_piece ax2 cur (k # ks))"
        unfolding eq using False IH wf(1) by (auto simp: spans_wf_Cons)
      ultimately show ?thesis by simp
    qed
  qed
qed

lemma subtract_loop_pre: "subtract_loop a b (pre @ out) = pre @ subtract_loop a b out"
  by (induction a b out rule: subtract_loop.induct)
     (auto simp: Let_def subtract_inner_pre split: prod.splits)

lemma subtract_loop_Cons:
  "subtract_loop (s # a) b [] =
     subtract_piece (snd s) (fst s) (dropWhile (\<lambda>t. snd t \<le> fst s) b)
     @ subtract_loop a (dropWhile (\<lambda>t. snd t \<le> fst s) b) []"
proof -
  let ?b = "dropWhile (\<lambda>t. snd t \<le> fst s) b"
  obtain c o' where i: "subtract_inner (snd s) (fst s) ?b [] = (c, o')" by fastforce
  show ?thesis
    using subtract_loop_pre [of a ?b "o' @ [(c, snd s)]" "[]"] subtract_loop_pre [of a ?b o' "[]"]
    by (simp add: subtract_piece_def i)
qed

lemma dropWhile_pts:
  assumes "spans_wf b"
  shows "spans_wf (dropWhile (\<lambda>t. snd t \<le> z) b)
    \<and> span_pts (dropWhile (\<lambda>t. snd t \<le> z) b) \<inter> {z ..} = span_pts b \<inter> {z ..}"
  using assms by (induction b) (auto simp: spans_wf_Cons)

lemma subtract_loop_correct:
  assumes "spans_wf a" "spans_wf b"
  shows "spans_wf (subtract_loop a b []) \<and> span_pts (subtract_loop a b []) = span_pts a - span_pts b"
  using assms
proof (induction a arbitrary: b)
  case (Cons s a)
  let ?b = "dropWhile (\<lambda>t. snd t \<le> fst s) b"
  have wf: "fst s < snd s" "spans_wf a" "\<forall>p \<in> span_pts a. snd s < p"
    using Cons.prems(1) by (auto simp: spans_wf_Cons)
  have b: "spans_wf ?b" "\<And>p. fst s \<le> p \<Longrightarrow> p \<in> span_pts ?b \<longleftrightarrow> p \<in> span_pts b"
    using dropWhile_pts [OF Cons.prems(2), of "fst s"] by auto
  note piece = subtract_piece_correct [OF b(1), of "snd s" "fst s"]
  note IH = Cons.IH [OF wf(2) b(1)]
  have "spans_wf (subtract_loop (s # a) b [])"
    unfolding subtract_loop_Cons
    using piece IH wf by (intro spans_wf_append) force+
  moreover have "span_pts (subtract_loop (s # a) b []) = span_pts (s # a) - span_pts b"
    unfolding subtract_loop_Cons using piece IH wf b(2) by force
  ultimately show ?case by simp
qed simp

lemma subtract_spans_correct:
  assumes "spans_wf a" "spans_wf b"
  shows "spans_wf (subtract_spans a b)"
    and "span_pts (subtract_spans a b) = span_pts a - span_pts b"
  using subtract_loop_correct [OF assms] by (simp_all add: subtract_spans_def)

section \<open>The normal form is canonical\<close>

lemma spans_wf_unique:
  assumes "spans_wf a" "spans_wf b" "span_pts a = span_pts b"
  shows "a = b"
  using assms
proof (induction a arbitrary: b)
  case Nil
  then show ?case by (cases b) (auto simp: spans_wf_Cons)
next
  case (Cons s a)
  obtain t b' where b: "b = t # b'"
    using Cons.prems by (cases b) (auto simp: spans_wf_Cons)
  have s: "fst s < snd s" "\<forall>p \<in> span_pts a. snd s < p"
    and t: "fst t < snd t" "\<forall>p \<in> span_pts b'. snd t < p"
    using Cons.prems(1,2) b by (auto simp: spans_wf_Cons)
  have eq: "p \<in> {fst s ..< snd s} \<or> p \<in> span_pts a \<longleftrightarrow> p \<in> {fst t ..< snd t} \<or> p \<in> span_pts b'" for p
    using Cons.prems(3) b by auto
  have "fst s = fst t"
    using eq [of "fst s"] eq [of "fst t"] s t by force
  moreover have "snd s = snd t"
    using eq [of "snd s"] eq [of "snd t"] s t \<open>fst s = fst t\<close> by force
  ultimately have "s = t" by (rule prod_eqI)
  moreover have "span_pts a = span_pts b'"
  proof (rule set_eqI)
    fix p
    show "p \<in> span_pts a \<longleftrightarrow> p \<in> span_pts b'"
      using eq [of p] bspec [OF s(2), of p] bspec [OF t(2), of p] \<open>s = t\<close> by auto
  qed
  ultimately show ?case using Cons b by (auto simp: spans_wf_Cons)
qed

end
