(* ===== verification/Bands.thy ===== *)
theory Bands
  imports Rects Spans
begin

text \<open>
  The banded normal form behind a region, as a mathematical object: a list of bands
  \<open>(y1, y2, spans)\<close>, top to bottom. \<open>band_row\<close> reads the spans a given row has, and the
  normal form (\<open>bands_ok\<close>) is canonical: two normal band lists with the same rows are equal.
  \<open>coalesce\<close> is the merge of consecutive rows that both \<open>op\<close> and \<open>from_rows\<close> of the
  source perform; it keeps every row and establishes the normal form.
\<close>

type_synonym band = "int \<times> int \<times> span list"

definition span_rect :: "int \<Rightarrow> int \<Rightarrow> span \<Rightarrow> rect" where
  "span_rect y1 y2 s = mk_rect (fst s) y1 (snd s) y2"

definition band_rects :: "band \<Rightarrow> rect list" where
  "band_rects b = map (span_rect (fst b) (fst (snd b))) (snd (snd b))"

definition flatten_bands :: "band list \<Rightarrow> rect list" where
  "flatten_bands bs = concat (map band_rects bs)"

lemma flatten_bands_simps [simp]:
  "flatten_bands [] = []"
  "flatten_bands (b # bs) = band_rects b @ flatten_bands bs"
  "flatten_bands (as @ bs) = flatten_bands as @ flatten_bands bs"
  by (simp_all add: flatten_bands_def)

definition band_ok :: "band \<Rightarrow> bool" where
  "band_ok b \<longleftrightarrow> fst b < fst (snd b) \<and> snd (snd b) \<noteq> [] \<and> spans_wf (snd (snd b))"

text \<open>Consecutive bands do not overlap, and touching ones differ (else they had been merged).\<close>

fun bands_ok :: "band list \<Rightarrow> bool" where
  "bands_ok [] = True"
| "bands_ok [b] = band_ok b"
| "bands_ok (b # c # bs) =
     (band_ok b \<and> fst (snd b) \<le> fst c
      \<and> (fst (snd b) = fst c \<longrightarrow> snd (snd b) \<noteq> snd (snd c)) \<and> bands_ok (c # bs))"

lemma bands_ok_Cons:
  "bands_ok (b # bs) \<longleftrightarrow> band_ok b \<and> bands_ok bs
     \<and> (bs \<noteq> [] \<longrightarrow> fst (snd b) \<le> fst (hd bs) \<and> (fst (snd b) = fst (hd bs) \<longrightarrow> snd (snd b) \<noteq> snd (snd (hd bs))))"
  by (cases bs) auto

section \<open>Rows\<close>

fun band_row :: "band list \<Rightarrow> int \<Rightarrow> span list" where
  "band_row [] y = []"
| "band_row ((y1, y2, ss) # bs) y = (if y1 \<le> y \<and> y < y2 then ss else band_row bs y)"

text \<open>Segments: bands in order from \<open>lb\<close> down, not yet merged and possibly empty.\<close>

fun segs_ok :: "int \<Rightarrow> band list \<Rightarrow> bool" where
  "segs_ok lb [] = True"
| "segs_ok lb ((y1, y2, ss) # bs) = (lb \<le> y1 \<and> y1 < y2 \<and> spans_wf ss \<and> segs_ok y2 bs)"

lemma segs_ok_mono: "segs_ok lb bs \<Longrightarrow> lb' \<le> lb \<Longrightarrow> segs_ok lb' bs"
  by (cases bs) auto

lemma band_row_below: "segs_ok lb bs \<Longrightarrow> y < lb \<Longrightarrow> band_row bs y = []"
proof (induction bs arbitrary: lb)
  case (Cons b bs)
  then show ?case by (cases b) fastforce
qed simp

lemma bands_ok_segs: "bands_ok bs \<Longrightarrow> (bs \<noteq> [] \<longrightarrow> lb \<le> fst (hd bs)) \<Longrightarrow> segs_ok lb bs"
  by (induction bs arbitrary: lb) (auto simp: bands_ok_Cons band_ok_def)

lemma spans_wf_band_row: "segs_ok lb bs \<Longrightarrow> spans_wf (band_row bs y)"
  by (induction lb bs rule: segs_ok.induct) auto

lemma bands_row_tail:
  assumes "bands_ok ((y1, y2, ss) # bs)"
  shows "band_row bs y = (if y2 \<le> y then band_row ((y1, y2, ss) # bs) y else [])"
proof -
  have "segs_ok y2 bs"
    using assms by (intro bands_ok_segs) (auto simp: bands_ok_Cons)
  then show ?thesis using band_row_below [of y2 bs y] by auto
qed

section \<open>Merging consecutive rows\<close>

definition opt_band :: "band option \<Rightarrow> band list" where
  "opt_band opn = (case opn of Some b \<Rightarrow> [b] | None \<Rightarrow> [])"

fun coalesce :: "band option \<Rightarrow> band list \<Rightarrow> band list" where
  "coalesce opn [] = opt_band opn"
| "coalesce opn ((y1, y2, ss) # segs) =
     (if ss = [] then opt_band opn @ coalesce None segs
      else (case opn of
              Some (oy1, oy2, os) \<Rightarrow>
                if oy2 = y1 \<and> os = ss then coalesce (Some (oy1, y2, os)) segs
                else (oy1, oy2, os) # coalesce (Some (y1, y2, ss)) segs
            | None \<Rightarrow> coalesce (Some (y1, y2, ss)) segs))"

definition open_ok :: "int \<Rightarrow> band option \<Rightarrow> bool" where
  "open_ok lb opn \<longleftrightarrow> (case opn of Some b \<Rightarrow> band_ok b \<and> fst (snd b) \<le> lb | None \<Rightarrow> True)"

text \<open>Where a merged list starts: with the open band, or at or after the first segment.\<close>

definition head_ok :: "int \<Rightarrow> band option \<Rightarrow> band list \<Rightarrow> bool" where
  "head_ok lb opn bs = (case opn of
     Some o' \<Rightarrow> bs \<noteq> [] \<and> fst (hd bs) = fst o' \<and> snd (snd (hd bs)) = snd (snd o')
   | None \<Rightarrow> bs \<noteq> [] \<longrightarrow> lb \<le> fst (hd bs))"

lemma coalesce_ok:
  assumes "segs_ok lb segs" "open_ok lb opn"
  shows "bands_ok (coalesce opn segs) \<and> head_ok lb opn (coalesce opn segs)
    \<and> (\<forall>y. band_row (coalesce opn segs) y = band_row (opt_band opn @ segs) y)"
  using assms
proof (induction opn segs arbitrary: lb rule: coalesce.induct)
  case (1 opn)
  then show ?case by (auto simp: opt_band_def open_ok_def head_ok_def split: option.splits)
next
  case (2 opn y1 y2 ss segs)
  have seg: "lb \<le> y1" "y1 < y2" "spans_wf ss" "segs_ok y2 segs"
    using "2.prems" by auto
  show ?case
  proof (cases "ss = []")
    case True
    have IH: "bands_ok (coalesce None segs) \<and> head_ok y2 None (coalesce None segs)
        \<and> (\<forall>y. band_row (coalesce None segs) y = band_row (opt_band None @ segs) y)"
      using "2.IH"(1) [OF True seg(4)] by (simp add: open_ok_def)
    then have row: "band_row (coalesce None segs) y = band_row ((y1, y2, ss) # segs) y" for y
      using True band_row_below [OF seg(4), of y] by (simp add: opt_band_def)
    show ?thesis
    proof (cases opn)
      case None
      with True IH row seg show ?thesis by (auto simp: opt_band_def head_ok_def)
    next
      case (Some o')
      obtain oy1 oy2 os where o': "o' = (oy1, oy2, os)" by (cases o')
      with Some True IH row seg "2.prems"(2) show ?thesis
        by (auto simp: opt_band_def head_ok_def open_ok_def bands_ok_Cons)
    qed
  next
    case False
    have new: "band_ok (y1, y2, ss)" using seg False by (simp add: band_ok_def)
    show ?thesis
    proof (cases opn)
      case None
      have "open_ok y2 (Some (y1, y2, ss))" using new by (simp add: open_ok_def)
      from "2.IH"(2) [OF False None seg(4) this] None False seg(1) show ?thesis
        by (simp add: opt_band_def head_ok_def)
    next
      case (Some o')
      obtain oy1 oy2 os where o': "o' = (oy1, oy2, os)" by (cases o')
      have open': "band_ok (oy1, oy2, os)" "oy2 \<le> lb"
        using "2.prems"(2) Some o' by (simp_all add: open_ok_def)
      show ?thesis
      proof (cases "oy2 = y1 \<and> os = ss")
        case True
        have "open_ok y2 (Some (oy1, y2, os))"
          using open' True seg(2) by (auto simp: open_ok_def band_ok_def)
        from "2.IH"(3) [OF False Some [unfolded o'] refl refl True seg(4) this] True False Some o' seg(2) open'
        show ?thesis by (auto simp: opt_band_def head_ok_def band_ok_def)
      next
        case differ: False
        have "open_ok y2 (Some (y1, y2, ss))" using new by (simp add: open_ok_def)
        from "2.IH"(4) [OF False Some [unfolded o'] refl refl differ seg(4) this] differ False Some o' seg(1) open'
        show ?thesis by (auto simp: opt_band_def head_ok_def bands_ok_Cons)
      qed
    qed
  qed
qed

section \<open>The normal form is canonical\<close>

lemma band_row_first: "bands_ok ((y1, y2, ss) # bs) \<Longrightarrow> band_row ((y1, y2, ss) # bs) y1 = ss \<and> ss \<noteq> []"
  by (auto simp: bands_ok_Cons band_ok_def)

lemma band_row_before:
  assumes "bands_ok ((y1, y2, ss) # bs)" "y < y1"
  shows "band_row ((y1, y2, ss) # bs) y = []"
proof -
  have "segs_ok y1 ((y1, y2, ss) # bs)"
    using assms(1) by (rule bands_ok_segs) simp
  then show ?thesis using assms(2) by (rule band_row_below)
qed

lemma band_row_end:
  assumes "bands_ok ((y1, y2, ss) # bs)"
  shows "band_row ((y1, y2, ss) # bs) y2 \<noteq> ss"
proof (cases bs)
  case Nil
  with assms show ?thesis by (auto simp: band_ok_def)
next
  case (Cons c cs)
  obtain z1 z2 tt where c: "c = (z1, z2, tt)" by (cases c)
  show ?thesis
  proof (cases "y2 = z1")
    case True
    with assms Cons c show ?thesis by (auto simp: bands_ok_Cons band_ok_def)
  next
    case False
    moreover have "segs_ok z1 bs"
      using assms Cons c by (intro bands_ok_segs) (simp_all add: bands_ok_Cons)
    ultimately have "band_row bs y2 = []"
      using assms Cons c by (intro band_row_below [of z1]) (simp_all add: bands_ok_Cons)
    with assms show ?thesis by (auto simp: bands_ok_Cons band_ok_def)
  qed
qed

lemma bands_ok_unique:
  assumes "bands_ok A" "bands_ok B" "\<And>y. band_row A y = band_row B y"
  shows "A = B"
  using assms
proof (induction A arbitrary: B)
  case Nil
  then show ?case
  proof (cases B)
    case (Cons c cs)
    obtain z1 z2 tt where "c = (z1, z2, tt)" by (cases c)
    with Cons Nil band_row_first [of z1 z2 tt cs] Nil(3) [of z1] show ?thesis by auto
  qed simp
next
  case (Cons b A)
  obtain y1 y2 ss where b: "b = (y1, y2, ss)" by (cases b)
  note A = Cons.prems(1) [unfolded b]
  show ?case
  proof (cases B)
    case Nil
    with Cons.prems(3) [of y1] band_row_first [OF A] b show ?thesis by auto
  next
    case B: (Cons c B')
    obtain z1 z2 tt where c: "c = (z1, z2, tt)" by (cases c)
    have Bok: "bands_ok ((z1, z2, tt) # B')" using Cons.prems(2) B c by simp
    have row: "band_row ((y1, y2, ss) # A) y = band_row ((z1, z2, tt) # B') y" for y
      using Cons.prems(3) b B c by simp
    have y1z1: "y1 = z1"
      using row [of y1] row [of z1] band_row_first [OF A] band_row_first [OF Bok]
        band_row_before [OF A, of z1] band_row_before [OF Bok, of y1]
      by (metis linorder_neqE)
    then have ss: "ss = tt"
      using row [of y1] band_row_first [OF A] band_row_first [OF Bok] by metis
    have len: "y1 < y2" "z1 < z2"
      using A Bok by (auto simp: bands_ok_Cons band_ok_def)
    have y2z2: "y2 = z2"
    proof (rule ccontr)
      assume "y2 \<noteq> z2"
      then consider "y2 < z2" | "z2 < y2" by linarith
      then show False
      proof cases
        case 1
        with row [of y2] band_row_end [OF A] len y1z1 ss show False by auto
      next
        case 2
        with row [of z2] band_row_end [OF Bok] len y1z1 ss show False by auto
      qed
    qed
    have "band_row A y = band_row B' y" for y
      unfolding bands_row_tail [OF A] bands_row_tail [OF Bok] using row y2z2 by metis
    then have "A = B'"
      using Cons.IH [of B'] A Bok by (auto simp: bands_ok_Cons)
    with b B c y1z1 y2z2 ss show ?thesis by simp
  qed
qed

section \<open>Pixels of a band list\<close>

definition rects_pixels :: "rect list \<Rightarrow> (int \<times> int) set" where
  "rects_pixels rs = (\<Union>r \<in> set rs. rect_pixels r)"

lemma rects_pixels_simps [simp]:
  "rects_pixels [] = {}"
  "rects_pixels (r # rs) = rect_pixels r \<union> rects_pixels rs"
  "rects_pixels (rs @ rs') = rects_pixels rs \<union> rects_pixels rs'"
  by (auto simp: rects_pixels_def)

lemma finite_rects_pixels [simp]: "finite (rects_pixels rs)"
  by (simp add: rects_pixels_def)

lemma band_rects_pixels:
  "rects_pixels (band_rects (y1, y2, ss)) = span_pts ss \<times> {y1 ..< y2}"
  by (auto simp: band_rects_def rects_pixels_def span_rect_def span_pts_def rect_pixels_def)

lemma flatten_pixels:
  assumes "segs_ok lb bs"
  shows "(x, y) \<in> rects_pixels (flatten_bands bs) \<longleftrightarrow> x \<in> span_pts (band_row bs y)"
  using assms
proof (induction lb bs rule: segs_ok.induct)
  case (2 lb y1 y2 ss bs)
  then have "segs_ok y2 bs" by simp
  with 2 band_row_below [of y2 bs y] show ?case
    by (auto simp: band_rects_pixels)
qed simp

end
