(* ===== verification/Regions.thy ===== *)
theory Regions
  imports Bands
begin

text \<open>
  \<open>Region\<close> of \<^verbatim>\<open>crates/alloyvnc-region/src/lib.rs\<close>: a set of pixels kept as rectangles in
  y-x banded form. The struct has one field, its vector of rectangles, so a region is a
  rectangle list. \<open>region_op\<close> is the source's \<open>op\<close>: it cuts the plane at every top and
  bottom edge, computes each band's spans one-dimensionally, and merges equal neighbours.
\<close>

section \<open>The operations\<close>

type_synonym region = "rect list"

datatype op_kind = Op_Union | Op_Intersect | Op_Subtract

definition region_new :: region where
  "region_new = []"

definition region_from_rect :: "rect \<Rightarrow> region" where
  "region_from_rect r = (if rect_is_empty r then region_new else [r])"

definition region_is_empty :: "region \<Rightarrow> bool" where
  "region_is_empty a \<longleftrightarrow> a = []"

definition region_bounds :: "region \<Rightarrow> rect" where
  "region_bounds a = fold (\<lambda>r b. rect_union_bounds b r) a rect_EMPTY"

definition region_area :: "region \<Rightarrow> int" where
  "region_area a = i64 (sum_list (map rect_area a))"

definition region_contains_point :: "region \<Rightarrow> int \<Rightarrow> int \<Rightarrow> bool" where
  "region_contains_point a x y \<longleftrightarrow> list_ex (\<lambda>r. rect_contains_point r x y) a"

definition region_intersects_rect :: "region \<Rightarrow> rect \<Rightarrow> bool" where
  "region_intersects_rect a rect \<longleftrightarrow> list_ex (\<lambda>r. rect_intersects r rect) a"

text \<open>The spans of a region's rectangles covering the band \<open>y1..y2\<close>, sorted.\<close>

definition band_spans :: "rect list \<Rightarrow> int \<Rightarrow> int \<Rightarrow> span list" where
  "band_spans rs y1 y2 =
     sort (map (\<lambda>r. (rx1 r, rx2 r)) (filter (\<lambda>r. ry1 r \<le> y1 \<and> ry2 r \<ge> y2) rs))"

definition flush :: "band option \<Rightarrow> rect list \<Rightarrow> rect list" where
  "flush opn out = (case opn of
     Some (y1, y2, spans) \<Rightarrow> out @ map (\<lambda>s. mk_rect (fst s) y1 (snd s) y2) spans
   | None \<Rightarrow> out)"

definition op_spans :: "op_kind \<Rightarrow> span list \<Rightarrow> span list \<Rightarrow> span list" where
  "op_spans kind sa sb = (case kind of
     Op_Union \<Rightarrow> union_spans sa sb
   | Op_Intersect \<Rightarrow> intersect_spans sa sb
   | Op_Subtract \<Rightarrow> subtract_spans sa sb)"

text \<open>Every top and bottom edge of either side, sorted, each once.\<close>

definition op_edges :: "region \<Rightarrow> region \<Rightarrow> int list" where
  "op_edges a b = remdups_adj (sort (concat (map (\<lambda>r. [ry1 r, ry2 r]) a)
                                   @ concat (map (\<lambda>r. [ry1 r, ry2 r]) b)))"

text \<open>The loop over \<open>edges.windows(2)\<close> with the band being built (\<open>open\<close>) and the output.\<close>

fun op_loop :: "op_kind \<Rightarrow> region \<Rightarrow> region \<Rightarrow> int list \<Rightarrow> band option \<Rightarrow> rect list \<Rightarrow> rect list" where
  "op_loop kind a b (y1 # y2 # es) opn out =
     (let spans = op_spans kind (band_spans a y1 y2) (band_spans b y1 y2)
      in if spans = [] then op_loop kind a b (y2 # es) None (flush opn out)
         else (case opn of
                 Some (oy1, oy2, ospans) \<Rightarrow>
                   if oy2 = y1 \<and> ospans = spans
                   then op_loop kind a b (y2 # es) (Some (oy1, y2, ospans)) out
                   else op_loop kind a b (y2 # es) (Some (y1, y2, spans)) (flush opn out)
               | None \<Rightarrow> op_loop kind a b (y2 # es) (Some (y1, y2, spans)) (flush opn out)))"
| "op_loop kind a b es opn out = flush opn out"

definition region_op :: "region \<Rightarrow> region \<Rightarrow> op_kind \<Rightarrow> region" where
  "region_op a b kind =
     (if kind = Op_Union \<and> a = [] then b
      else if kind = Op_Union \<and> b = [] then a
      else if kind = Op_Intersect \<and> (a = [] \<or> b = []) then region_new
      else if kind = Op_Subtract \<and> a = [] then region_new
      else if kind = Op_Subtract \<and> b = [] then a
      else op_loop kind a b (op_edges a b) None [])"

definition region_union :: "region \<Rightarrow> region \<Rightarrow> region" where
  "region_union a b = region_op a b Op_Union"

definition region_intersect :: "region \<Rightarrow> region \<Rightarrow> region" where
  "region_intersect a b = region_op a b Op_Intersect"

definition region_subtract :: "region \<Rightarrow> region \<Rightarrow> region" where
  "region_subtract a b = region_op a b Op_Subtract"

definition region_intersect_rect :: "region \<Rightarrow> rect \<Rightarrow> region" where
  "region_intersect_rect a rect = region_intersect a (region_from_rect rect)"

definition region_add :: "region \<Rightarrow> rect \<Rightarrow> region" where
  "region_add a rect = (if rect_is_empty rect then a else region_union a (region_from_rect rect))"

definition region_remove :: "region \<Rightarrow> rect \<Rightarrow> region" where
  "region_remove a rect =
     (if rect_is_empty rect \<or> region_is_empty a then a
      else region_subtract a (region_from_rect rect))"

definition region_from_rects :: "rect list \<Rightarrow> region" where
  "region_from_rects rs = fold (\<lambda>r out. region_add out r) rs region_new"

definition region_translate :: "region \<Rightarrow> int \<Rightarrow> int \<Rightarrow> region" where
  "region_translate a dx dy = map (\<lambda>r. rect_translate r dx dy) a"

text \<open>Whether a band's rectangles cover exactly these spans.\<close>

definition same_spans :: "rect list \<Rightarrow> span list \<Rightarrow> bool" where
  "same_spans rs spans \<longleftrightarrow> length rs = length spans
     \<and> list_all (\<lambda>(r, s). (rx1 r, rx2 r) = s) (zip rs spans)"

text \<open>\<open>from_rows\<close>: \<open>band\<close> is where the band being built starts in \<open>out\<close>, and the row after it.\<close>

fun from_rows_loop :: "(int \<times> span list) list \<Rightarrow> (nat \<times> int) option \<Rightarrow> rect list \<Rightarrow> rect list" where
  "from_rows_loop [] bnd out = out"
| "from_rows_loop ((y, spans) # rows) bnd out =
     (if spans = [] then from_rows_loop rows bnd out
      else (case bnd of
              Some (start, nxt) \<Rightarrow>
                if nxt = y \<and> same_spans (drop start out) spans
                then from_rows_loop rows (Some (start, i32 (y + 1)))
                       (take start out @ map (\<lambda>r. r\<lparr>ry2 := i32 (y + 1)\<rparr>) (drop start out))
                else from_rows_loop rows (Some (length out, i32 (y + 1)))
                       (out @ map (\<lambda>s. rect_from_corners (fst s) y (snd s) (i32 (y + 1))) spans)
            | None \<Rightarrow> from_rows_loop rows (Some (length out, i32 (y + 1)))
                       (out @ map (\<lambda>s. rect_from_corners (fst s) y (snd s) (i32 (y + 1))) spans)))"

definition region_from_rows :: "(int \<times> span list) list \<Rightarrow> region" where
  "region_from_rows rows = from_rows_loop rows None []"

section \<open>The normal form, checked on the rectangles\<close>

fun group_rects :: "rect list \<Rightarrow> band list" where
  "group_rects [] = []"
| "group_rects (r # rs) = (case group_rects rs of
     (y1, y2, ss) # bs \<Rightarrow>
       if y1 = ry1 r then (ry1 r, ry2 r, (rx1 r, rx2 r) # ss) # bs
       else (ry1 r, ry2 r, [(rx1 r, rx2 r)]) # (y1, y2, ss) # bs
   | [] \<Rightarrow> [(ry1 r, ry2 r, [(rx1 r, rx2 r)])])"

definition region_wf :: "region \<Rightarrow> bool" where
  "region_wf a \<longleftrightarrow> bands_ok (group_rects a) \<and> flatten_bands (group_rects a) = a"

lemma group_band_rects:
  assumes "ss \<noteq> []" "bs \<noteq> [] \<longrightarrow> y1 \<noteq> fst (hd bs)" "group_rects rs = bs"
  shows "group_rects (band_rects (y1, y2, ss) @ rs) = (y1, y2, ss) # bs"
  using assms(1)
proof (induction ss)
  case (Cons s ss)
  show ?case
  proof (cases "ss = []")
    case True
    with assms(2,3) show ?thesis
      by (auto simp: band_rects_def span_rect_def split: list.splits)
  next
    case False
    with Cons.IH show ?thesis
      by (simp add: band_rects_def span_rect_def)
  qed
qed simp

lemma group_flatten: "bands_ok bs \<Longrightarrow> group_rects (flatten_bands bs) = bs"
proof (induction bs)
  case (Cons b bs)
  obtain y1 y2 ss where b: "b = (y1, y2, ss)" by (cases b)
  from Cons show ?case
    unfolding b flatten_bands_simps
    by (intro group_band_rects) (auto simp: bands_ok_Cons band_ok_def)
qed simp

lemma region_wf_flatten [intro]: "bands_ok bs \<Longrightarrow> region_wf (flatten_bands bs)"
  by (simp add: region_wf_def group_flatten)

lemma region_wfE:
  assumes "region_wf a"
  obtains bs where "bands_ok bs" "a = flatten_bands bs"
  using assms that by (metis region_wf_def)

lemma region_wf_Nil [simp]: "region_wf []"
  by (simp add: region_wf_def)

end
