(* ===== verification/Region_Laws.thy ===== *)
theory Region_Laws
  imports Regions
begin

text \<open>
  What the region operations promise: on normal-form regions every operation is the set
  operation on pixels and returns a normal-form region, the normal form is canonical, and
  \<open>from_rows\<close> builds it directly. The interface the sessions and the compare pass rely on
  is the locale \<open>damage_algebra\<close>, interpreted here on the source's operations.
\<close>

section \<open>Rows of one band\<close>

lemma sorted_spans_wf: "spans_wf ss \<Longrightarrow> sorted ss"
proof (induction ss)
  case (Cons s ss)
  have "s \<le> t" if "t \<in> set ss" for t
  proof -
    have "snd s < fst t" and "fst s < snd s"
      using Cons.prems that by (auto simp: spans_wf_def)
    then show ?thesis by (simp add: less_eq_prod_def)
  qed
  with Cons show ?case by (simp add: spans_wf_Cons)
qed simp

definition edge_free :: "int \<Rightarrow> int \<Rightarrow> int \<Rightarrow> bool" where
  "edge_free y1 y2 e \<longleftrightarrow> \<not> (y1 < e \<and> e < y2)"

lemma band_cover:
  assumes "edge_free y1 y2 b1" "edge_free y1 y2 b2" "y1 \<le> y" "y < y2"
  shows "b1 \<le> y1 \<and> y2 \<le> b2 \<longleftrightarrow> b1 \<le> y \<and> y < b2"
  using assms by (auto simp: edge_free_def)

lemma filter_band_rects:
  "map (\<lambda>r. (rx1 r, rx2 r)) (filter (\<lambda>r. ry1 r \<le> y1 \<and> ry2 r \<ge> y2) (band_rects (b1, b2, ss)))
   = (if b1 \<le> y1 \<and> y2 \<le> b2 then ss else [])"
  by (auto simp: band_rects_def span_rect_def filter_map comp_def)

lemma filter_flatten:
  assumes "segs_ok lb bs" "\<forall>b \<in> set bs. edge_free y1 y2 (fst b) \<and> edge_free y1 y2 (fst (snd b))"
    and "y1 \<le> y" "y < y2"
  shows "map (\<lambda>r. (rx1 r, rx2 r)) (filter (\<lambda>r. ry1 r \<le> y1 \<and> ry2 r \<ge> y2) (flatten_bands bs))
    = band_row bs y"
  using assms
proof (induction lb bs rule: segs_ok.induct)
  case (2 lb b1 b2 ss bs)
  have cover: "b1 \<le> y1 \<and> y2 \<le> b2 \<longleftrightarrow> b1 \<le> y \<and> y < b2"
    using 2 by (intro band_cover) auto
  have "segs_ok b2 bs" using 2 by simp
  then have "y < b2 \<Longrightarrow> band_row bs y = []" by (rule band_row_below)
  moreover have "map (\<lambda>r. (rx1 r, rx2 r)) (filter (\<lambda>r. ry1 r \<le> y1 \<and> ry2 r \<ge> y2) (flatten_bands bs))
      = band_row bs y"
    using 2 by auto
  ultimately show ?case
    by (simp add: filter_band_rects cover)
qed simp

lemma bands_ok_segs_ok: "bands_ok bs \<Longrightarrow> \<exists>lb. segs_ok lb bs"
  using bands_ok_segs [of bs "fst (hd bs)"] by blast

lemma spans_wf_row: "bands_ok bs \<Longrightarrow> spans_wf (band_row bs y)"
  using bands_ok_segs_ok spans_wf_band_row by blast

lemma band_spans_row:
  assumes "bands_ok bs" "\<forall>b \<in> set bs. edge_free y1 y2 (fst b) \<and> edge_free y1 y2 (fst (snd b))"
    and "y1 \<le> y" "y < y2"
  shows "band_spans (flatten_bands bs) y1 y2 = band_row bs y"
proof -
  obtain lb where "segs_ok lb bs" using bands_ok_segs_ok [OF assms(1)] by blast
  from filter_flatten [OF this assms(2-4)] sorted_spans_wf [OF spans_wf_row [OF assms(1)]]
  show ?thesis by (simp add: band_spans_def sorted_sort_id)
qed

section \<open>The loop over the edges\<close>

fun edge_segs :: "op_kind \<Rightarrow> region \<Rightarrow> region \<Rightarrow> int list \<Rightarrow> band list" where
  "edge_segs kind a b (y1 # y2 # es) =
     (y1, y2, op_spans kind (band_spans a y1 y2) (band_spans b y1 y2)) # edge_segs kind a b (y2 # es)"
| "edge_segs kind a b es = []"

lemma flush_bands: "flush opn out = out @ flatten_bands (opt_band opn)"
  by (auto simp: flush_def opt_band_def band_rects_def span_rect_def split: option.splits)

lemma op_loop_coalesce:
  "op_loop kind a b es opn out = out @ flatten_bands (coalesce opn (edge_segs kind a b es))"
  by (induction kind a b es opn out rule: op_loop.induct)
     (auto simp: flush_bands opt_band_def Let_def split: option.splits)

text \<open>The three set operations, pointwise.\<close>

definition op_bool :: "op_kind \<Rightarrow> bool \<Rightarrow> bool \<Rightarrow> bool" where
  "op_bool kind p q = (case kind of
     Op_Union \<Rightarrow> p \<or> q | Op_Intersect \<Rightarrow> p \<and> q | Op_Subtract \<Rightarrow> p \<and> \<not> q)"

definition op_set :: "op_kind \<Rightarrow> 'a set \<Rightarrow> 'a set \<Rightarrow> 'a set" where
  "op_set kind A B = (case kind of
     Op_Union \<Rightarrow> A \<union> B | Op_Intersect \<Rightarrow> A \<inter> B | Op_Subtract \<Rightarrow> A - B)"

lemma in_op_set: "p \<in> op_set kind A B \<longleftrightarrow> op_bool kind (p \<in> A) (p \<in> B)"
  by (cases kind) (auto simp: op_set_def op_bool_def)

lemma op_spans_correct:
  assumes "spans_wf sa" "spans_wf sb"
  shows "spans_wf (op_spans kind sa sb)"
    and "span_pts (op_spans kind sa sb) = op_set kind (span_pts sa) (span_pts sb)"
  using assms union_spans_correct [of sa sb] intersect_spans_correct [of sa sb]
    subtract_spans_correct [of sa sb]
  by (cases kind; simp add: op_spans_def op_set_def spans_wf_sorted)+

definition op_row :: "op_kind \<Rightarrow> band list \<Rightarrow> band list \<Rightarrow> int \<Rightarrow> span list" where
  "op_row kind A B y = op_spans kind (band_row A y) (band_row B y)"

lemma edge_segs_correct:
  assumes "bands_ok A" "bands_ok B" "sorted_wrt (<) es" "es \<noteq> []"
    and edges: "\<And>b e. b \<in> set A \<union> set B \<Longrightarrow> e = fst b \<or> e = fst (snd b) \<Longrightarrow> hd es \<le> e \<Longrightarrow> e \<in> set es"
  shows "segs_ok (hd es) (edge_segs kind (flatten_bands A) (flatten_bands B) es)
    \<and> (\<forall>y. hd es \<le> y \<and> y < last es \<longrightarrow>
          band_row (edge_segs kind (flatten_bands A) (flatten_bands B) es) y = op_row kind A B y)
    \<and> (\<forall>y. last es \<le> y \<longrightarrow> band_row (edge_segs kind (flatten_bands A) (flatten_bands B) es) y = [])"
  using assms(3-)
proof (induction kind "flatten_bands A" "flatten_bands B" es rule: edge_segs.induct)
  case (1 kind y1 y2 es)
  have lt: "y1 < y2" and srt: "sorted_wrt (<) (y2 # es)"
    using "1.prems"(1) by auto
  have free: "\<forall>b \<in> set A \<union> set B. edge_free y1 y2 (fst b) \<and> edge_free y1 y2 (fst (snd b))"
  proof (intro ballI conjI)
    fix b assume b: "b \<in> set A \<union> set B"
    have "edge_free y1 y2 e" if "e = fst b \<or> e = fst (snd b)" for e
    proof (rule ccontr)
      assume "\<not> edge_free y1 y2 e"
      then have e: "y1 < e" "e < y2" by (simp_all add: edge_free_def)
      then have "e \<in> set (y1 # y2 # es)" using "1.prems"(3) [OF b that] by simp
      with e "1.prems"(1) show False by auto
    qed
    then show "edge_free y1 y2 (fst b)" "edge_free y1 y2 (fst (snd b))" by blast+
  qed
  let ?ss = "op_spans kind (band_spans (flatten_bands A) y1 y2) (band_spans (flatten_bands B) y1 y2)"
  have seg: "?ss = op_row kind A B y" if "y1 \<le> y" "y < y2" for y
    using band_spans_row [OF assms(1) _ that] band_spans_row [OF assms(2) _ that] free
    by (simp add: op_row_def)
  have wf: "spans_wf ?ss"
    using seg [of y1] lt op_spans_correct(1) [OF spans_wf_row [OF assms(1)] spans_wf_row [OF assms(2)]]
    by (simp add: op_row_def)
  have IH: "segs_ok y2 (edge_segs kind (flatten_bands A) (flatten_bands B) (y2 # es))
    \<and> (\<forall>y. y2 \<le> y \<and> y < last (y2 # es) \<longrightarrow>
          band_row (edge_segs kind (flatten_bands A) (flatten_bands B) (y2 # es)) y = op_row kind A B y)
    \<and> (\<forall>y. last (y2 # es) \<le> y \<longrightarrow>
          band_row (edge_segs kind (flatten_bands A) (flatten_bands B) (y2 # es)) y = [])"
  proof -
    have "e \<in> set (y2 # es)"
      if "b \<in> set A \<union> set B" "e = fst b \<or> e = fst (snd b)" "y2 \<le> e" for b e
      using "1.prems"(3) [OF that(1,2)] that(3) lt by auto
    with "1.hyps" srt show ?thesis by simp
  qed
  have last: "y2 \<le> last (y2 # es)"
    using srt by (cases es rule: rev_cases) (auto simp: sorted_wrt_append)
  show ?case
    using IH seg wf lt last by (auto simp: not_less)
qed auto

lemma op_row_Nil: "op_spans kind [] [] = []"
  by (cases kind) (simp_all add: op_spans_def union_spans_def intersect_spans_def subtract_spans_def)

lemma band_row_mem: "band_row bs y \<noteq> [] \<Longrightarrow> \<exists>b \<in> set bs. fst b \<le> y \<and> y < fst (snd b)"
  by (induction bs y rule: band_row.induct) (auto split: if_splits)

lemma sorted_remdups_adj_strict: "sorted xs \<Longrightarrow> sorted_wrt (<) (remdups_adj xs)" for xs :: "int list"
  by (induction xs rule: remdups_adj.induct) (auto simp: less_le)

lemma sorted_wrt_op_edges: "sorted_wrt (<) (op_edges a b)"
  by (simp add: op_edges_def sorted_remdups_adj_strict)

lemma set_op_edges:
  "set (op_edges a b) = (\<Union>r \<in> set a \<union> set b. {ry1 r, ry2 r})"
  by (auto simp: op_edges_def)

lemma band_edges_in:
  assumes "bands_ok bs" "b \<in> set bs"
  shows "\<exists>r \<in> set (flatten_bands bs). ry1 r = fst b \<and> ry2 r = fst (snd b)"
proof -
  have "band_ok b" using assms by (induction bs) (auto simp: bands_ok_Cons)
  then have "snd (snd b) \<noteq> []" by (simp add: band_ok_def)
  then obtain s ss where "snd (snd b) = s # ss" by (cases "snd (snd b)") auto
  then have "span_rect (fst b) (fst (snd b)) s \<in> set (band_rects b)"
    by (simp add: band_rects_def)
  then have "span_rect (fst b) (fst (snd b)) s \<in> set (flatten_bands bs)"
    using assms(2) by (auto simp: flatten_bands_def)
  then show ?thesis by (intro bexI) (auto simp: span_rect_def)
qed

lemma sorted_wrt_hd_last:
  fixes es :: "int list"
  assumes "sorted_wrt (<) es" "e \<in> set es"
  shows "hd es \<le> e" "e \<le> last es"
proof -
  show "hd es \<le> e" using assms by (cases es) auto
  show "e \<le> last es"
    using assms by (cases es rule: rev_cases) (auto simp: sorted_wrt_append)
qed

text \<open>The general case of \<open>op\<close>: neither side is empty.\<close>

lemma op_loop_correct:
  assumes A: "bands_ok A" and B: "bands_ok B" and ne: "A \<noteq> []"
  defines "es \<equiv> op_edges (flatten_bands A) (flatten_bands B)"
  shows "\<exists>C. bands_ok C \<and> op_loop kind (flatten_bands A) (flatten_bands B) es None [] = flatten_bands C
    \<and> (\<forall>y. band_row C y = op_row kind A B y)"
proof -
  let ?segs = "edge_segs kind (flatten_bands A) (flatten_bands B) es"
  have srt: "sorted_wrt (<) es" by (simp add: es_def sorted_wrt_op_edges)
  have mem: "e \<in> set es" if "b \<in> set A \<union> set B" "e = fst b \<or> e = fst (snd b)" for b e
  proof -
    note b = that(1) and e = that(2)
    obtain r where r: "r \<in> set (flatten_bands A) \<union> set (flatten_bands B)"
      "ry1 r = fst b" "ry2 r = fst (snd b)"
      using b band_edges_in [OF A, of b] band_edges_in [OF B, of b] by blast
    from r(1) have "ry1 r \<in> set es" "ry2 r \<in> set es"
      unfolding es_def set_op_edges by auto
    with e r(2,3) show ?thesis by auto
  qed
  have nonempty: "es \<noteq> []"
    using mem [of "hd A" "fst (hd A)"] ne by auto
  note segs = edge_segs_correct [OF A B srt nonempty, of kind, OF mem]
  have row: "band_row ?segs y = op_row kind A B y" for y
  proof (cases "hd es \<le> y \<and> y < last es")
    case True
    with segs show ?thesis by simp
  next
    case False
    have "band_row A y = [] \<and> band_row B y = []"
    proof (rule ccontr)
      assume "\<not> ?thesis"
      then obtain b where b: "b \<in> set A \<union> set B" "fst b \<le> y" "y < fst (snd b)"
        using band_row_mem [of A y] band_row_mem [of B y] by blast
      have "hd es \<le> fst b" "fst (snd b) \<le> last es"
        using sorted_wrt_hd_last [OF srt mem [OF b(1)]] by blast+
      with b False show False by linarith
    qed
    moreover have "band_row ?segs y = []"
    proof (cases "y < hd es")
      case True
      with segs show ?thesis by (intro band_row_below [of "hd es"]) auto
    next
      case False
      with \<open>\<not> (hd es \<le> y \<and> y < last es)\<close> segs show ?thesis by auto
    qed
    ultimately show ?thesis by (simp add: op_row_def op_row_Nil)
  qed
  have "open_ok (hd es) None" by (simp add: open_ok_def)
  with coalesce_ok [of "hd es" ?segs None] segs row show ?thesis
    by (intro exI [of _ "coalesce None ?segs"]) (simp add: op_loop_coalesce opt_band_def)
qed

lemma flatten_pixels_ok:
  "bands_ok bs \<Longrightarrow> (x, y) \<in> rects_pixels (flatten_bands bs) \<longleftrightarrow> x \<in> span_pts (band_row bs y)"
  using bands_ok_segs_ok flatten_pixels by blast

lemma flatten_Nil_iff: "bands_ok bs \<Longrightarrow> flatten_bands bs = [] \<longleftrightarrow> bs = []"
  by (cases bs) (auto simp: bands_ok_Cons band_ok_def band_rects_def)

lemma region_op_wf_pixels:
  assumes "region_wf a" "region_wf b"
  shows "region_wf (region_op a b kind)
    \<and> rects_pixels (region_op a b kind) = op_set kind (rects_pixels a) (rects_pixels b)"
proof -
  obtain A where A: "bands_ok A" "a = flatten_bands A" using assms(1) by (rule region_wfE)
  obtain B where B: "bands_ok B" "b = flatten_bands B" using assms(2) by (rule region_wfE)
  consider "a = []" | "b = []" | "a \<noteq> []" "b \<noteq> []" by blast
  then show ?thesis
  proof cases
    case 3
    then have "A \<noteq> []" using A by auto
    then obtain C where C: "bands_ok C" "region_op a b kind = flatten_bands C"
      "\<And>y. band_row C y = op_row kind A B y"
      using op_loop_correct [OF A(1) B(1), of kind] 3 A(2) B(2) by (auto simp: region_op_def)
    have "rects_pixels (flatten_bands C) = op_set kind (rects_pixels a) (rects_pixels b)"
    proof (rule set_eqI)
      fix p :: "int \<times> int"
      obtain x y where p: "p = (x, y)" by (cases p)
      show "p \<in> rects_pixels (flatten_bands C) \<longleftrightarrow> p \<in> op_set kind (rects_pixels a) (rects_pixels b)"
        unfolding p A(2) B(2) in_op_set flatten_pixels_ok [OF A(1)] flatten_pixels_ok [OF B(1)]
          flatten_pixels_ok [OF C(1)] C(3) op_row_def
          op_spans_correct(2) [OF spans_wf_row [OF A(1)] spans_wf_row [OF B(1)]]
        by simp
    qed
    with C show ?thesis by auto
  qed (use assms in \<open>cases kind; simp add: region_op_def op_set_def region_new_def\<close>)+
qed

section \<open>The normal form is canonical\<close>

lemma region_wf_unique:
  assumes "region_wf a" "region_wf b" "rects_pixels a = rects_pixels b"
  shows "a = b"
proof -
  obtain A where A: "bands_ok A" "a = flatten_bands A" using assms(1) by (rule region_wfE)
  obtain B where B: "bands_ok B" "b = flatten_bands B" using assms(2) by (rule region_wfE)
  have "band_row A y = band_row B y" for y
  proof (rule spans_wf_unique)
    show "spans_wf (band_row A y)" "spans_wf (band_row B y)"
      using A(1) B(1) by (simp_all add: spans_wf_row)
    show "span_pts (band_row A y) = span_pts (band_row B y)"
      using assms(3) A B flatten_pixels_ok by blast
  qed
  then have "A = B" by (rule bands_ok_unique [OF A(1) B(1)])
  with A B show ?thesis by simp
qed

section \<open>The other operations\<close>

lemma region_from_rect_wf [simp]: "region_wf (region_from_rect r)"
proof (cases "rect_is_empty r")
  case False
  then have "bands_ok [(ry1 r, ry2 r, [(rx1 r, rx2 r)])]"
    by (auto simp: rect_is_empty_def band_ok_def spans_wf_Cons)
  from region_wf_flatten [OF this] False show ?thesis
    by (cases r) (simp add: region_from_rect_def band_rects_def span_rect_def)
qed (simp add: region_from_rect_def region_new_def)

lemma region_from_rect_pixels [simp]: "rects_pixels (region_from_rect r) = rect_pixels r"
  by (auto simp: region_from_rect_def region_new_def rect_is_empty_pixels)

lemma region_new_simps [simp]: "region_wf region_new" "rects_pixels region_new = {}"
  by (simp_all add: region_new_def)

lemma region_union_wf: "region_wf a \<Longrightarrow> region_wf b \<Longrightarrow> region_wf (region_union a b)"
  and region_intersect_wf: "region_wf a \<Longrightarrow> region_wf b \<Longrightarrow> region_wf (region_intersect a b)"
  and region_subtract_wf: "region_wf a \<Longrightarrow> region_wf b \<Longrightarrow> region_wf (region_subtract a b)"
  by (simp_all add: region_union_def region_intersect_def region_subtract_def region_op_wf_pixels)

lemma region_union_pixels:
  "region_wf a \<Longrightarrow> region_wf b \<Longrightarrow> rects_pixels (region_union a b) = rects_pixels a \<union> rects_pixels b"
  and region_intersect_pixels:
  "region_wf a \<Longrightarrow> region_wf b \<Longrightarrow> rects_pixels (region_intersect a b) = rects_pixels a \<inter> rects_pixels b"
  and region_subtract_pixels:
  "region_wf a \<Longrightarrow> region_wf b \<Longrightarrow> rects_pixels (region_subtract a b) = rects_pixels a - rects_pixels b"
  using region_op_wf_pixels [of a b Op_Union] region_op_wf_pixels [of a b Op_Intersect]
    region_op_wf_pixels [of a b Op_Subtract]
  by (simp_all add: region_union_def region_intersect_def region_subtract_def op_set_def)

lemma region_add_wf: "region_wf a \<Longrightarrow> region_wf (region_add a r)"
  by (simp add: region_add_def region_union_wf)

lemma region_add_pixels: "region_wf a \<Longrightarrow> rects_pixels (region_add a r) = rects_pixels a \<union> rect_pixels r"
  by (auto simp: region_add_def region_union_pixels rect_is_empty_pixels)

lemma region_remove_wf: "region_wf a \<Longrightarrow> region_wf (region_remove a r)"
  by (simp add: region_remove_def region_subtract_wf)

lemma region_remove_pixels:
  "region_wf a \<Longrightarrow> rects_pixels (region_remove a r) = rects_pixels a - rect_pixels r"
  by (auto simp: region_remove_def region_subtract_pixels rect_is_empty_pixels region_is_empty_def)

lemma region_intersect_rect_wf: "region_wf a \<Longrightarrow> region_wf (region_intersect_rect a r)"
  by (simp add: region_intersect_rect_def region_intersect_wf)

lemma region_intersect_rect_pixels:
  "region_wf a \<Longrightarrow> rects_pixels (region_intersect_rect a r) = rects_pixels a \<inter> rect_pixels r"
  by (simp add: region_intersect_rect_def region_intersect_pixels)

lemma region_contains_point_pixels: "region_contains_point a x y \<longleftrightarrow> (x, y) \<in> rects_pixels a"
  by (auto simp: region_contains_point_def list_ex_iff rect_contains_point_pixels rects_pixels_def)

lemma region_intersects_rect_pixels: "region_intersects_rect a r \<longleftrightarrow> rects_pixels a \<inter> rect_pixels r \<noteq> {}"
  by (auto simp: region_intersects_rect_def list_ex_iff rect_intersects_pixels rects_pixels_def)

lemma region_is_empty_pixels: "region_wf a \<Longrightarrow> region_is_empty a \<longleftrightarrow> rects_pixels a = {}"
  using region_wf_unique [of a "[]"] by (auto simp: region_is_empty_def)

section \<open>Area and bounds\<close>

lemma card_disjoint_rects:
  assumes "sorted_wrt (\<lambda>r s. rect_pixels r \<inter> rect_pixels s = {}) rs"
  shows "int (card (rects_pixels rs)) = sum_list (map (\<lambda>r. int (card (rect_pixels r))) rs)"
  using assms
proof (induction rs)
  case (Cons r rs)
  then have "rect_pixels r \<inter> rects_pixels rs = {}" by (auto simp: rects_pixels_def)
  with Cons show ?case by (simp add: card_Un_disjoint)
qed simp

lemma band_rects_disjoint:
  "spans_wf ss \<Longrightarrow> sorted_wrt (\<lambda>r s. rect_pixels r \<inter> rect_pixels s = {}) (band_rects (y1, y2, ss))"
  unfolding band_rects_def sorted_wrt_map spans_wf_def
  by (auto simp: span_rect_def rect_pixels_prod elim!: sorted_wrt_mono_rel [rotated])

lemma segs_pixels_below: "segs_ok lb bs \<Longrightarrow> r \<in> set (flatten_bands bs) \<Longrightarrow> lb \<le> ry1 r"
proof (induction lb bs rule: segs_ok.induct)
  case (2 lb y1 y2 ss bs)
  then show ?case by (auto simp: band_rects_def span_rect_def)
qed simp

lemma flatten_disjoint:
  "segs_ok lb bs \<Longrightarrow> sorted_wrt (\<lambda>r s. rect_pixels r \<inter> rect_pixels s = {}) (flatten_bands bs)"
proof (induction lb bs rule: segs_ok.induct)
  case (2 lb y1 y2 ss bs)
  have "rect_pixels r \<inter> rect_pixels s = {}"
    if "r \<in> set (band_rects (y1, y2, ss))" "s \<in> set (flatten_bands bs)" for r s
  proof -
    have "ry2 r = y2" using that(1) by (auto simp: band_rects_def span_rect_def)
    moreover have "y2 \<le> ry1 s" using 2 that(2) by (intro segs_pixels_below [of y2 bs]) auto
    ultimately show ?thesis by (auto simp: rect_pixels_def)
  qed
  with 2 show ?case by (simp add: sorted_wrt_append band_rects_disjoint)
qed simp

lemma region_area_pixels:
  assumes "region_wf a" "\<forall>r \<in> set a. rect_small r" "card (rects_pixels a) < 2 ^ 63"
  shows "region_area a = int (card (rects_pixels a))"
proof -
  obtain bs lb where "a = flatten_bands bs" "segs_ok lb bs"
    using assms(1) bands_ok_segs_ok by (metis region_wfE)
  then have "int (card (rects_pixels a)) = sum_list (map (\<lambda>r. int (card (rect_pixels r))) a)"
    using flatten_disjoint card_disjoint_rects by blast
  also have "map (\<lambda>r. int (card (rect_pixels r))) a = map rect_area a"
    using assms(2) by (simp add: rect_area_pixels)
  finally have eq: "sum_list (map rect_area a) = int (card (rects_pixels a))" by simp
  have "int (card (rects_pixels a)) < 9223372036854775808"
    using assms(3) by simp
  then show ?thesis by (simp add: region_area_def eq i64_small)
qed

lemma fold_union_bounds:
  "rect_pixels b \<union> rects_pixels rs \<subseteq> rect_pixels (fold (\<lambda>r b. rect_union_bounds b r) rs b)
   \<and> (\<forall>c. rect_pixels b \<union> rects_pixels rs \<subseteq> rect_pixels c
        \<longrightarrow> rect_pixels (fold (\<lambda>r b. rect_union_bounds b r) rs b) \<subseteq> rect_pixels c)"
proof (induction rs arbitrary: b)
  case (Cons r rs)
  from Cons.IH [of "rect_union_bounds b r"] rect_union_bounds_pixels [of b r] rect_union_bounds_least [of b _ r]
  show ?case by auto
qed simp

lemma region_bounds_covers: "rects_pixels a \<subseteq> rect_pixels (region_bounds a)"
  using fold_union_bounds [of rect_EMPTY a] by (simp add: region_bounds_def)

lemma region_bounds_least: "rects_pixels a \<subseteq> rect_pixels c \<Longrightarrow> rect_pixels (region_bounds a) \<subseteq> rect_pixels c"
  using fold_union_bounds [of rect_EMPTY a] by (simp add: region_bounds_def)

section \<open>From rows\<close>

fun rows_ok :: "int \<Rightarrow> (int \<times> span list) list \<Rightarrow> bool" where
  "rows_ok lb [] = True"
| "rows_ok lb ((y, ss) # rows) = (lb \<le> y \<and> in_i32 (y + 1) \<and> spans_wf ss \<and> rows_ok (y + 1) rows)"

definition row_segs :: "(int \<times> span list) list \<Rightarrow> band list" where
  "row_segs rows = map (\<lambda>(y, ss). (y, y + 1, ss)) rows"

lemma row_segs_simps [simp]:
  "row_segs [] = []" "row_segs ((y, ss) # rows) = (y, y + 1, ss) # row_segs rows"
  by (simp_all add: row_segs_def)

lemma rows_ok_segs: "rows_ok lb rows \<Longrightarrow> segs_ok lb (row_segs rows)"
  by (induction lb rows rule: rows_ok.induct) auto

lemma rows_ok_mem: "rows_ok lb rows \<Longrightarrow> (y, ss) \<in> set rows \<Longrightarrow> lb \<le> y"
  by (induction lb rows rule: rows_ok.induct) fastforce+

lemma row_segs_row:
  "rows_ok lb rows \<Longrightarrow> x \<in> span_pts (band_row (row_segs rows) y) \<longleftrightarrow> (\<exists>ss. (y, ss) \<in> set rows \<and> x \<in> span_pts ss)"
proof (induction lb rows rule: rows_ok.induct)
  case (2 lb z ss rows)
  then have ok: "rows_ok (z + 1) rows" by simp
  show ?case
  proof (cases "z = y")
    case True
    with rows_ok_mem [OF ok, of y] 2 show ?thesis by auto
  next
    case False
    with 2 show ?thesis by auto
  qed
qed simp

lemma same_spans_band: "same_spans (band_rects (y1, y2, os)) ss \<longleftrightarrow> os = ss"
proof -
  have "list_all (\<lambda>(r, s). (rx1 r, rx2 r) = s) (zip (band_rects (y1, y2, os)) ss) \<longleftrightarrow> os = ss"
    if "length os = length ss"
    using that by (induction os ss rule: list_induct2) (auto simp: band_rects_def span_rect_def)
  then show ?thesis by (auto simp: same_spans_def band_rects_def)
qed

lemma stretch_band: "map (\<lambda>r. r\<lparr>ry2 := z\<rparr>) (band_rects (y1, y2, os)) = band_rects (y1, z, os)"
  by (simp add: band_rects_def span_rect_def)

lemma from_rows_new: "map (\<lambda>s. rect_from_corners (fst s) y (snd s) z) ss = band_rects (y, z, ss)"
  by (simp add: band_rects_def span_rect_def rect_from_corners_def)

text \<open>How \<open>from_rows\<close>'s \<open>band\<close> and \<open>out\<close> stand for the band being merged.\<close>

definition open_band :: "int \<Rightarrow> (nat \<times> int) option \<Rightarrow> rect list \<Rightarrow> band option \<Rightarrow> rect list \<Rightarrow> bool" where
  "open_band lb bnd out opn pre \<longleftrightarrow> (case opn of
     Some (oy1, oy2, os) \<Rightarrow> out = pre @ band_rects (oy1, oy2, os) \<and> bnd = Some (length pre, oy2) \<and> oy2 \<le> lb
   | None \<Rightarrow> out = pre \<and> (\<forall>start nxt. bnd = Some (start, nxt) \<longrightarrow> nxt < lb))"

lemma from_rows_loop_coalesce:
  assumes "rows_ok lb rows" "open_band lb bnd out opn pre"
  shows "from_rows_loop rows bnd out = pre @ flatten_bands (coalesce opn (row_segs rows))"
  using assms
proof (induction rows arbitrary: lb bnd out opn pre)
  case Nil
  then show ?case by (auto simp: open_band_def opt_band_def split: option.splits)
next
  case (Cons row rows)
  obtain y ss where row: "row = (y, ss)" by (cases row)
  have ok: "lb \<le> y" "i32 (y + 1) = y + 1" "rows_ok (y + 1) rows"
    using Cons.prems(1) row by auto
  have new: "from_rows_loop rows (Some (length out, i32 (y + 1)))
      (out @ map (\<lambda>s. rect_from_corners (fst s) y (snd s) (i32 (y + 1))) ss)
    = out @ flatten_bands (coalesce (Some (y, y + 1, ss)) (row_segs rows))"
    using Cons.IH [OF ok(3), of "Some (length out, y + 1)" "out @ band_rects (y, y + 1, ss)"
        "Some (y, y + 1, ss)" out] ok(2)
    by (simp add: open_band_def from_rows_new)
  show ?case
  proof (cases "ss = []")
    case True
    have "open_band (y + 1) bnd out None out"
      using Cons.prems(2) ok(1) by (auto simp: open_band_def split: option.splits)
    from Cons.IH [OF ok(3) this] True row Cons.prems(2) show ?thesis
      by (auto simp: open_band_def opt_band_def split: option.splits)
  next
    case False
    show ?thesis
    proof (cases opn)
      case None
      with Cons.prems(2) ok(1) have "out = pre" "\<forall>start nxt. bnd = Some (start, nxt) \<longrightarrow> nxt \<noteq> y"
        by (auto simp: open_band_def)
      with new False row None show ?thesis by (auto split: option.splits)
    next
      case (Some b)
      obtain oy1 oy2 os where b: "b = (oy1, oy2, os)" by (cases b)
      with Some Cons.prems(2) have out: "out = pre @ band_rects (oy1, oy2, os)"
        and bnd: "bnd = Some (length pre, oy2)"
        by (auto simp: open_band_def)
      show ?thesis
      proof (cases "oy2 = y \<and> os = ss")
        case True
        have "open_band (y + 1) (Some (length pre, y + 1)) (pre @ band_rects (oy1, y + 1, os))
            (Some (oy1, y + 1, os)) pre"
          by (simp add: open_band_def)
        from Cons.IH [OF ok(3) this] True False row Some b out bnd ok(2) show ?thesis
          by (simp add: same_spans_band stretch_band)
      next
        case False
        with \<open>ss \<noteq> []\<close> new row Some b out bnd show ?thesis
          by (auto simp: same_spans_band)
      qed
    qed
  qed
qed

lemma region_from_rows_pixels:
  assumes "rows_ok lb rows"
  shows "region_wf (region_from_rows rows)
    \<and> rects_pixels (region_from_rows rows) = {(x, y). \<exists>ss. (y, ss) \<in> set rows \<and> x \<in> span_pts ss}"
proof -
  have eq: "region_from_rows rows = flatten_bands (coalesce None (row_segs rows))"
    using from_rows_loop_coalesce [OF assms, of None "[]" None "[]"]
    by (simp add: region_from_rows_def open_band_def)
  have co: "bands_ok (coalesce None (row_segs rows))"
    "band_row (coalesce None (row_segs rows)) y = band_row (row_segs rows) y" for y
    using coalesce_ok [OF rows_ok_segs [OF assms], of None] by (simp_all add: open_ok_def opt_band_def)
  show ?thesis
    unfolding eq using co flatten_pixels_ok [OF co(1)] row_segs_row [OF assms] by auto
qed

section \<open>The interface\<close>

text \<open>
  What a session and the compare pass use of a region: a set of pixels with a canonical
  representation, built and cut by rectangles.
\<close>

locale damage_algebra =
  fixes invar :: "'r \<Rightarrow> bool"
    and pix :: "'r \<Rightarrow> (int \<times> int) set"
    and empty :: "'r"
    and of_rect :: "rect \<Rightarrow> 'r"
    and union :: "'r \<Rightarrow> 'r \<Rightarrow> 'r"
    and subtract :: "'r \<Rightarrow> 'r \<Rightarrow> 'r"
    and intersect_rect :: "'r \<Rightarrow> rect \<Rightarrow> 'r"
    and add :: "'r \<Rightarrow> rect \<Rightarrow> 'r"
    and remove :: "'r \<Rightarrow> rect \<Rightarrow> 'r"
  assumes invar_empty: "invar empty" and pix_empty: "pix empty = {}"
    and invar_of_rect: "invar (of_rect r)" and pix_of_rect: "pix (of_rect r) = rect_pixels r"
    and invar_union: "invar a \<Longrightarrow> invar b \<Longrightarrow> invar (union a b)"
    and pix_union: "invar a \<Longrightarrow> invar b \<Longrightarrow> pix (union a b) = pix a \<union> pix b"
    and invar_subtract: "invar a \<Longrightarrow> invar b \<Longrightarrow> invar (subtract a b)"
    and pix_subtract: "invar a \<Longrightarrow> invar b \<Longrightarrow> pix (subtract a b) = pix a - pix b"
    and invar_intersect_rect: "invar a \<Longrightarrow> invar (intersect_rect a r)"
    and pix_intersect_rect: "invar a \<Longrightarrow> pix (intersect_rect a r) = pix a \<inter> rect_pixels r"
    and invar_add: "invar a \<Longrightarrow> invar (add a r)"
    and pix_add: "invar a \<Longrightarrow> pix (add a r) = pix a \<union> rect_pixels r"
    and invar_remove: "invar a \<Longrightarrow> invar (remove a r)"
    and pix_remove: "invar a \<Longrightarrow> pix (remove a r) = pix a - rect_pixels r"
    and canonical: "invar a \<Longrightarrow> invar b \<Longrightarrow> pix a = pix b \<Longrightarrow> a = b"
begin

lemma add_all: "invar a \<Longrightarrow> invar (fold (\<lambda>r a. add a r) rs a)
    \<and> pix (fold (\<lambda>r a. add a r) rs a) = pix a \<union> rects_pixels rs"
  by (induction rs arbitrary: a) (auto simp: invar_add pix_add)

lemma remove_all: "invar a \<Longrightarrow> invar (fold (\<lambda>r a. remove a r) rs a)
    \<and> pix (fold (\<lambda>r a. remove a r) rs a) = pix a - rects_pixels rs"
  by (induction rs arbitrary: a) (auto simp: invar_remove pix_remove)

text \<open>The order rectangles are added in, and how they overlap, leaves no trace.\<close>

lemma add_all_order:
  assumes "rects_pixels rs = rects_pixels rs'"
  shows "fold (\<lambda>r a. add a r) rs empty = fold (\<lambda>r a. add a r) rs' empty"
  using add_all [OF invar_empty, of rs] add_all [OF invar_empty, of rs'] assms
  by (intro canonical) auto

text \<open>Sending the part of a pending set inside an area leaves exactly the rest.\<close>

lemma send_part:
  assumes "invar a"
  shows "subtract a (intersect_rect a r) = remove a r"
  using assms
  by (intro canonical)
     (auto simp: invar_subtract invar_intersect_rect invar_remove pix_subtract pix_intersect_rect pix_remove)

lemma add_absorbs: "invar a \<Longrightarrow> rect_pixels r \<subseteq> pix a \<Longrightarrow> add a r = a"
  by (intro canonical) (auto simp: invar_add pix_add)

lemma remove_add: "invar a \<Longrightarrow> remove (add a r) r = remove a r"
  by (intro canonical) (auto simp: invar_add invar_remove pix_add pix_remove)

end

interpretation region: damage_algebra region_wf rects_pixels region_new region_from_rect
  region_union region_subtract region_intersect_rect region_add region_remove
proof unfold_locales
  show "a = b" if "region_wf a" "region_wf b" "rects_pixels a = rects_pixels b" for a b
    using that by (rule region_wf_unique)
qed (simp_all add: region_union_wf region_union_pixels region_subtract_wf region_subtract_pixels
    region_intersect_rect_wf region_intersect_rect_pixels region_add_wf region_add_pixels
    region_remove_wf region_remove_pixels)

section \<open>Regions a program builds\<close>

lemma bands_rects_nonempty: "bands_ok bs \<Longrightarrow> r \<in> set (flatten_bands bs) \<Longrightarrow> rx1 r < rx2 r \<and> ry1 r < ry2 r"
  by (induction bs) (auto simp: bands_ok_Cons band_ok_def band_rects_def span_rect_def spans_wf_def spans_nonempty_def)

lemma region_rects_nonempty: "region_wf a \<Longrightarrow> r \<in> set a \<Longrightarrow> rx1 r < rx2 r \<and> ry1 r < ry2 r"
  by (metis region_wf_def bands_rects_nonempty)

lemma translate_ok:
  assumes "region_wf a" "\<forall>(x, y)\<in>rects_pixels a. in_i32 (x + dx) \<and> in_i32 (x + dx + 1) \<and> in_i32 (y + dy) \<and> in_i32 (y + dy + 1)"
  shows "region_wf (region_translate a dx dy)" "rects_pixels (region_translate a dx dy) = (\<lambda>(x, y). (x + dx, y + dy)) ` rects_pixels a"
proof -
  let ?moved = "\<lambda>r. mk_rect (rx1 r + dx) (ry1 r + dy) (rx2 r + dx) (ry2 r + dy)"
  let ?shift = "\<lambda>(y1, y2, ss). (y1 + dy, y2 + dy, map (\<lambda>s. (fst s + dx, snd s + dx)) ss)"
  obtain bs where bs: "bands_ok bs" "a = flatten_bands bs" by (rule region_wfE [OF assms(1)])
  have plain: "rect_translate r dx dy = ?moved r" if "r \<in> set a" for r
  proof -
    have ne: "rx1 r < rx2 r" "ry1 r < ry2 r" using region_rects_nonempty [OF assms(1) that] by simp_all
    then have "(rx1 r, ry1 r) \<in> rects_pixels a" "(rx2 r - 1, ry2 r - 1) \<in> rects_pixels a"
      using that by (auto simp: rects_pixels_def in_rect_pixels intro!: bexI [of _ r])
    then have "in_i32 (rx1 r + dx)" "in_i32 (ry1 r + dy)" "in_i32 (rx2 r - 1 + dx + 1)" "in_i32 (ry2 r - 1 + dy + 1)"
      using assms(2) by blast+
    then show ?thesis by (simp add: rect_translate_def i32_id algebra_simps)
  qed
  have map: "region_translate a dx dy = map ?moved a" using plain by (simp add: region_translate_def)
  have "map ?moved (flatten_bands cs) = flatten_bands (map ?shift cs)" for cs
    by (induction cs) (auto simp: band_rects_def span_rect_def)
  then have flat: "region_translate a dx dy = flatten_bands (map ?shift bs)" unfolding map by (simp only: bs(2))
  have inj: "map (\<lambda>s. (fst s + dx, snd s + dx)) ss = map (\<lambda>s. (fst s + dx, snd s + dx)) ss' \<longleftrightarrow> ss = ss'" for ss ss'
    by (rule inj_map_eq_map) (auto simp: inj_def prod_eq_iff)
  have "bands_ok (map ?shift cs)" if "bands_ok cs" for cs
    using that
  proof (induction cs)
    case (Cons b cs)
    then show ?case
      by (cases b; cases cs) (auto simp: bands_ok_Cons band_ok_def inj spans_wf_def spans_nonempty_def sorted_wrt_map split: prod.splits)
  qed simp
  then show "region_wf (region_translate a dx dy)" unfolding flat using bs(1) by blast
  have one: "rect_pixels (?moved r) = (\<lambda>(x, y). (x + dx, y + dy)) ` rect_pixels r" for r
  proof -
    have "(x, y) \<in> (\<lambda>(x, y). (x + dx, y + dy)) ` rect_pixels r" if "(x, y) \<in> rect_pixels (?moved r)" for x y
      using that by (intro image_eqI [of _ _ "(x - dx, y - dy)"]) (auto simp: in_rect_pixels)
    then show ?thesis by (auto simp: in_rect_pixels)
  qed
  show "rects_pixels (region_translate a dx dy) = (\<lambda>(x, y). (x + dx, y + dy)) ` rects_pixels a"
    unfolding map rects_pixels_def by (simp add: one image_UN)
qed

text \<open>What a program can write down with the crate's constructors and operations, the region it gets, and the
  points it means. The arguments of \<open>from_rows\<close> are as its documentation asks, and a translation leaves no
  point outside \<open>i32\<close>.\<close>

datatype building =
    Nothing
  | One_Rect rect
  | All_Rects "rect list"
  | All_Rows "(int \<times> span list) list"
  | Combined op_kind building building
  | Added building rect
  | Removed building rect
  | Clipped building rect
  | Translated building int int

fun built :: "building \<Rightarrow> region" where
  "built Nothing = region_new"
| "built (One_Rect r) = region_from_rect r"
| "built (All_Rects rs) = region_from_rects rs"
| "built (All_Rows rows) = region_from_rows rows"
| "built (Combined kind p q) = region_op (built p) (built q) kind"
| "built (Added p r) = region_add (built p) r"
| "built (Removed p r) = region_remove (built p) r"
| "built (Clipped p r) = region_intersect_rect (built p) r"
| "built (Translated p dx dy) = region_translate (built p) dx dy"

fun meant :: "building \<Rightarrow> (int \<times> int) set" where
  "meant Nothing = {}"
| "meant (One_Rect r) = rect_pixels r"
| "meant (All_Rects rs) = rects_pixels rs"
| "meant (All_Rows rows) = {(x, y). \<exists>ss. (y, ss) \<in> set rows \<and> x \<in> span_pts ss}"
| "meant (Combined kind p q) = op_set kind (meant p) (meant q)"
| "meant (Added p r) = meant p \<union> rect_pixels r"
| "meant (Removed p r) = meant p - rect_pixels r"
| "meant (Clipped p r) = meant p \<inter> rect_pixels r"
| "meant (Translated p dx dy) = (\<lambda>(x, y). (x + dx, y + dy)) ` meant p"

fun sound :: "building \<Rightarrow> bool" where
  "sound (All_Rows rows) = (\<exists>lb. rows_ok lb rows)"
| "sound (Combined kind p q) = (sound p \<and> sound q)"
| "sound (Added p r) = sound p"
| "sound (Removed p r) = sound p"
| "sound (Clipped p r) = sound p"
| "sound (Translated p dx dy) = (sound p \<and> (\<forall>(x, y)\<in>meant p. in_i32 (x + dx) \<and> in_i32 (x + dx + 1) \<and> in_i32 (y + dy) \<and> in_i32 (y + dy + 1)))"
| "sound _ = True"

lemma built_ok: "sound p \<Longrightarrow> region_wf (built p) \<and> rects_pixels (built p) = meant p"
proof (induction p)
  case (All_Rects rs)
  then show ?case using region.add_all [OF region.invar_empty, of rs] by (simp add: region_from_rects_def)
next
  case (All_Rows rows)
  then obtain lb where "rows_ok lb rows" by auto
  from region_from_rows_pixels [OF this] show ?case by simp
next
  case (Translated p dx dy)
  then show ?case using translate_ok [of "built p" dx dy] by simp
qed (simp_all add: region_op_wf_pixels region_add_wf region_add_pixels region_remove_wf region_remove_pixels
    region_intersect_rect_wf region_intersect_rect_pixels)

section \<open>The properties\<close>

text \<open>C12. Union, intersection and subtraction of two regions in banded normal form are the set
  operations on their pixels, and the result is again in banded normal form: no empty
  rectangle, bands in order, spans of a band separated, equal neighbouring bands merged.\<close>

theorem region_op_correct:
  assumes "region_wf a" and "region_wf b"
  shows "region_wf (region_op a b kind)
    \<and> rects_pixels (region_op a b kind) = op_set kind (rects_pixels a) (rects_pixels b)"
  using assms by (rule region_op_wf_pixels)

theorem region_op_correct_witness:
  "region_wf [mk_rect 0 0 30 30] \<and> region_wf [mk_rect 10 10 20 20]
   \<and> region_op [mk_rect 0 0 30 30] [mk_rect 10 10 20 20] Op_Subtract
       = [mk_rect 0 0 30 10, mk_rect 0 10 10 20, mk_rect 20 10 30 20, mk_rect 0 20 30 30]
   \<and> rects_pixels (region_op [mk_rect 0 0 30 30] [mk_rect 10 10 20 20] Op_Subtract)
       = rects_pixels [mk_rect 0 0 30 30] - rects_pixels [mk_rect 10 10 20 20]"
proof -
  have wf: "region_wf [mk_rect 0 0 30 30]" "region_wf [mk_rect 10 10 20 20]"
    by (code_simp, code_simp)
  have ev: "region_op [mk_rect 0 0 30 30] [mk_rect 10 10 20 20] Op_Subtract
      = [mk_rect 0 0 30 10, mk_rect 0 10 10 20, mk_rect 20 10 30 20, mk_rect 0 20 30 30]"
    by code_simp
  show ?thesis using region_op_correct [OF wf, of Op_Subtract] wf ev by (simp add: op_set_def)
qed

text \<open>C30. Regions are canonical: whatever a program builds with the constructors and the operations of the
  crate covers exactly the points it means and is in normal form, so that two regions, however they were
  built, are equal as data (the derived \<open>PartialEq\<close>) exactly when they mean the same points.\<close>

theorem region_canonical:
  assumes "sound p" and "sound q"
  shows "region_wf (built p) \<and> rects_pixels (built p) = meant p \<and> (built p = built q \<longleftrightarrow> meant p = meant q)"
  using built_ok [OF assms(1)] built_ok [OF assms(2)] region.canonical [of "built p" "built q"] by auto

text \<open>Two halves put together, one of them moved into place, and the whole.\<close>

theorem region_canonical_witness:
  "built (Combined Op_Union (One_Rect (mk_rect 0 0 10 10)) (Translated (All_Rows [(0, [(0, 10)]), (1, [(0, 10)])]) 0 10)) = [mk_rect 0 0 10 12]
   \<and> built (One_Rect (mk_rect 0 0 10 12)) = [mk_rect 0 0 10 12]"
proof -
  let ?p = "Combined Op_Union (One_Rect (mk_rect 0 0 10 10)) (Translated (All_Rows [(0, [(0, 10)]), (1, [(0, 10)])]) 0 10)"
  have s: "sound (One_Rect (mk_rect 0 0 10 12))" by simp
  let ?rows = "[(0, [(0, 10)]), (1, [(0, 10)])] :: (int \<times> span list) list"
  have rows: "rows_ok 0 ?rows" by code_simp
  have pts: "meant (All_Rows ?rows) = {0..<10} \<times> {0..<2}" by (auto simp: span_pts_def)
  have "\<forall>(x, y)\<in>{0..<10} \<times> {0..<2}. in_i32 (x + 0) \<and> in_i32 (x + 0 + 1) \<and> in_i32 (y + 10) \<and> in_i32 (y + 10 + 1)"
    by (auto simp: in_i32_def)
  then have "sound ?p" using rows pts by (auto simp del: meant.simps)
  moreover have "meant ?p = meant (One_Rect (mk_rect 0 0 10 12))"
  proof -
    have m: "meant (Translated (All_Rows ?rows) 0 10) = {0..<10} \<times> {10..<12}"
    proof -
      have "(x, y) \<in> (\<lambda>(x, y). (x + 0, y + 10)) ` ({0..<10} \<times> {0..<2}) \<longleftrightarrow> (x, y - 10) \<in> {0..<10} \<times> {0..<2}" for x y :: int
        by (auto intro!: image_eqI [of _ _ "(x, y - 10)"])
      then show ?thesis unfolding meant.simps(9) pts by auto
    qed
    show ?thesis unfolding meant.simps(5) m by (auto simp: op_set_def in_rect_pixels)
  qed
  ultimately have "built ?p = built (One_Rect (mk_rect 0 0 10 12))" using region_canonical [OF _ s] by blast
  moreover have "built (One_Rect (mk_rect 0 0 10 12)) = [mk_rect 0 0 10 12]" by code_simp
  ultimately show ?thesis by simp
qed

text \<open>\<open>from_rows\<close>, given rows in order with separated spans and no row at the end of \<open>i32\<close>,
  returns the normal form of exactly the pixels of those rows.\<close>

theorem region_from_rows_correct:
  assumes "rows_ok lb rows"
  shows "region_wf (region_from_rows rows)
    \<and> rects_pixels (region_from_rows rows) = {(x, y). \<exists>ss. (y, ss) \<in> set rows \<and> x \<in> span_pts ss}"
  using assms by (rule region_from_rows_pixels)

theorem region_from_rows_correct_witness:
  "rows_ok 0 [(0, [(0, 4), (8, 10)]), (1, [(0, 4), (8, 10)]), (3, []), (4, [(0, 4)])]
   \<and> region_wf (region_from_rows [(0, [(0, 4), (8, 10)]), (1, [(0, 4), (8, 10)]), (3, []), (4, [(0, 4)])])
   \<and> region_from_rows [(0, [(0, 4), (8, 10)]), (1, [(0, 4), (8, 10)]), (3, []), (4, [(0, 4)])]
       = [mk_rect 0 0 4 2, mk_rect 8 0 10 2, mk_rect 0 4 4 5]"
proof -
  have ok: "rows_ok 0 [(0, [(0, 4), (8, 10)]), (1, [(0, 4), (8, 10)]), (3, []), (4, [(0, 4)])]"
    by code_simp
  have "region_from_rows [(0, [(0, 4), (8, 10)]), (1, [(0, 4), (8, 10)]), (3, []), (4, [(0, 4)])]
      = [mk_rect 0 0 4 2, mk_rect 8 0 10 2, mk_rect 0 4 4 5]"
    by code_simp
  with region_from_rows_correct [OF ok] ok show ?thesis by simp
qed

text \<open>The area a normal-form region reports is the number of its pixels, as long as its
  corners are far from the ends of \<open>i32\<close> and the count fits the \<open>i64\<close> result.\<close>

theorem region_area_correct:
  assumes "region_wf a" and "\<forall>r \<in> set a. rect_small r" and "card (rects_pixels a) < 2 ^ 63"
  shows "region_area a = int (card (rects_pixels a))"
  using assms by (rule region_area_pixels)

theorem region_area_correct_witness:
  "region_area [mk_rect 0 0 3 2, mk_rect 0 2 1 4] = 8
   \<and> card (rects_pixels [mk_rect 0 0 3 2, mk_rect 0 2 1 4]) = 8"
proof -
  let ?a = "[mk_rect 0 0 3 2, mk_rect 0 2 1 4]"
  have wf: "region_wf ?a" "\<forall>r \<in> set ?a. rect_small r"
    by (code_simp) (simp add: rect_small_def)
  have px: "rects_pixels ?a = {0 ..< 3} \<times> {0 ..< 2} \<union> {0 ..< 1} \<times> {2 ..< 4}"
    by (simp add: rect_pixels_prod)
  have card: "card (rects_pixels ?a) = 8"
    unfolding px by (subst card_Un_disjoint) (auto simp: card_cartesian_product)
  show ?thesis using region_area_correct [OF wf] card by simp
qed

text \<open>\<open>from_rects\<close> forgets how the damage arrived: any two lists of rectangles that cover
  the same pixels, in whatever order and however overlapping, build the same region.\<close>

theorem region_from_rects_order:
  assumes "rects_pixels rs = rects_pixels rs'"
  shows "region_from_rects rs = region_from_rects rs'"
  using region.add_all_order [OF assms] by (simp add: region_from_rects_def)

theorem region_from_rects_order_witness:
  "region_from_rects [mk_rect 0 0 10 20, mk_rect 0 10 20 20]
     = region_from_rects [mk_rect 0 10 20 20, mk_rect 0 0 10 20, mk_rect 5 12 8 15]"
proof (rule region_from_rects_order)
  show "rects_pixels [mk_rect 0 0 10 20, mk_rect 0 10 20 20]
    = rects_pixels [mk_rect 0 10 20 20, mk_rect 0 0 10 20, mk_rect 5 12 8 15]"
    by (auto simp: rect_pixels_def)
qed

end
