(* ===== verification/Bytes.thy ===== *)
theory Bytes
  imports Prelude
begin

text \<open>
  The byte-level part of the standard library the protocol crate leans on: \<open>to_be_bytes\<close> and
  \<open>from_be_bytes\<close> at every width used, \<open>to_le_bytes\<close>, \<open>as_chunks\<close>, UTF-8 strings
  (\<open>as_bytes\<close>, \<open>String::from_utf8_lossy\<close>) and \<open>str::replace\<close>. The locale \<open>fixed_codec\<close> states
  what a fixed-width encoding promises; the list round trips the parsers use are proved in it
  once and interpreted for every wire integer here, and for the composite wire types where they
  are defined.
\<close>

section \<open>Big- and little-endian integers\<close>

definition be16 :: "u16 \<Rightarrow> bytes" where
  "be16 w = [ucast (drop_bit 8 w), ucast w]"

definition be32 :: "u32 \<Rightarrow> bytes" where
  "be32 w = [ucast (drop_bit 24 w), ucast (drop_bit 16 w), ucast (drop_bit 8 w), ucast w]"

definition from_be16 :: "bytes \<Rightarrow> u16" where
  "from_be16 b = push_bit 8 (ucast (b ! 0)) OR ucast (b ! 1)"

definition from_be32 :: "bytes \<Rightarrow> u32" where
  "from_be32 b = push_bit 24 (ucast (b ! 0)) OR push_bit 16 (ucast (b ! 1))
                 OR push_bit 8 (ucast (b ! 2)) OR ucast (b ! 3)"

definition le16 :: "u16 \<Rightarrow> bytes" where
  "le16 w = rev (be16 w)"

definition le32 :: "u32 \<Rightarrow> bytes" where
  "le32 w = rev (be32 w)"

definition from_le16 :: "bytes \<Rightarrow> u16" where
  "from_le16 b = from_be16 [b ! 1, b ! 0]"

definition from_le32 :: "bytes \<Rightarrow> u32" where
  "from_le32 b = from_be32 [b ! 3, b ! 2, b ! 1, b ! 0]"

text \<open>\<open>i32::to_be_bytes\<close> and \<open>i32::from_be_bytes\<close>; an \<open>i32\<close> is an \<open>int\<close> in range.\<close>

definition be_i32 :: "int \<Rightarrow> bytes" where
  "be_i32 n = be32 (word_of_int n)"

definition from_be_i32 :: "bytes \<Rightarrow> int" where
  "from_be_i32 b = sint (from_be32 b)"

definition bool_byte :: "bool \<Rightarrow> u8" where
  "bool_byte b = (if b then 1 else 0)"

lemma bool_byte_nz [simp]: "(bool_byte b \<noteq> 0) = b" "(bool_byte b = 0) = (\<not> b)"
  by (simp_all add: bool_byte_def)

lemma length_be [simp, codec_simps]:
  "length (be16 w) = 2" "length (be32 v) = 4" "length (be_i32 n) = 4"
  "length (le16 w) = 2" "length (le32 v) = 4"
  by (simp_all add: be16_def be32_def be_i32_def le16_def le32_def)

lemma be16_join: "push_bit 8 (ucast (ucast (drop_bit 8 w) :: u8)) OR ucast (ucast w :: u8) = (w :: u16)"
  by (rule bit_word_eqI)
     (auto simp: bit_simps not_less dest: bit_imp_le_length)

lemma be32_join:
  "push_bit 24 (ucast (ucast (drop_bit 24 w) :: u8)) OR push_bit 16 (ucast (ucast (drop_bit 16 w) :: u8))
   OR push_bit 8 (ucast (ucast (drop_bit 8 w) :: u8)) OR ucast (ucast w :: u8) = (w :: u32)"
  (is "?l = w")
proof (rule bit_word_eqI)
  fix n assume "n < LENGTH(32)"
  then consider "n < 8" | "8 \<le> n" "n < 16" | "16 \<le> n" "n < 24" | "24 \<le> n" "n < 32" by fastforce
  then show "bit ?l n = bit w n"
    by cases (auto simp: bit_simps)
qed

lemma from_be16_be16 [simp, codec_simps]: "from_be16 (be16 w @ t) = w" "from_be16 (be16 w) = w"
  by (simp_all add: from_be16_def be16_def be16_join)

lemma from_be32_be32 [simp, codec_simps]: "from_be32 (be32 w @ t) = w" "from_be32 (be32 w) = w"
  by (simp_all add: from_be32_def be32_def be32_join numeral_2_eq_2 numeral_3_eq_3)

lemma sint_word_of_i32: "in_i32 n \<Longrightarrow> sint (word_of_int n :: u32) = n"
  by (simp add: in_i32_def sint_sbintrunc' signed_take_bit_int_eq_self)

lemma from_be_i32_be_i32 [simp, codec_simps]:
  "in_i32 n \<Longrightarrow> from_be_i32 (be_i32 n @ t) = n" "in_i32 n \<Longrightarrow> from_be_i32 (be_i32 n) = n"
  by (simp_all add: from_be_i32_def be_i32_def sint_word_of_i32)

lemma from_le16_le16 [simp, codec_simps]: "from_le16 (le16 w @ t) = w" "from_le16 (le16 w) = w"
  by (simp_all add: from_le16_def le16_def be16_def from_be16_def be16_join)

lemma from_le32_le32 [simp, codec_simps]: "from_le32 (le32 w @ t) = w" "from_le32 (le32 w) = w"
  by (simp_all add: from_le32_def le32_def be32_def from_be32_def be32_join numeral_2_eq_2 numeral_3_eq_3)

section \<open>Chunks and fixed-width lists\<close>

text \<open>\<open>slice::as_chunks::<N>().0\<close>: the whole chunks, the remainder dropped.\<close>

function chunks :: "nat \<Rightarrow> 'a list \<Rightarrow> 'a list list" where
  "chunks n xs = (if n = 0 \<or> length xs < n then [] else take n xs # chunks n (drop n xs))"
  by auto
termination by (relation "measure (\<lambda>(n, xs). length xs)") auto

declare chunks.simps [simp del]

lemma chunks_short: "length xs < n \<Longrightarrow> chunks n xs = []"
  by (simp add: chunks.simps)

lemma chunks_append: "length x = n \<Longrightarrow> 0 < n \<Longrightarrow> chunks n (x @ xs) = x # chunks n xs"
  by (subst chunks.simps) simp

lemma length_concat_map_const: "(\<And>x. length (f x) = n) \<Longrightarrow> length (concat (map f xs)) = length xs * n"
  by (induction xs) auto

lemma take_at:
  "n + 2 \<le> length b \<Longrightarrow> take 2 (drop n b) = [b ! n, b ! (n + 1)]"
  "n + 4 \<le> length b \<Longrightarrow> take 4 (drop n b) = [b ! n, b ! (n + 1), b ! (n + 2), b ! (n + 3)]"
  by (rule nth_equalityI; auto simp: less_Suc_eq numeral_eq_Suc)+

text \<open>What a fixed-width encoding promises: a width, and that reading back what was written gives
  the value, whatever follows it. \<open>ok\<close> is the range the writer accepts.\<close>

locale fixed_codec =
  fixes put :: "'a \<Rightarrow> bytes"
    and get :: "bytes \<Rightarrow> 'a"
    and width :: nat
    and ok :: "'a \<Rightarrow> bool"
  assumes width_pos: "0 < width"
    and put_width: "length (put x) = width"
    and get_put: "ok x \<Longrightarrow> get (put x @ t) = x"
begin

lemma get_put_exact: "ok x \<Longrightarrow> get (put x) = x"
  using get_put [of x "[]"] by simp

lemma put_inj: "ok x \<Longrightarrow> ok y \<Longrightarrow> put x @ s = put y @ t \<Longrightarrow> x = y \<and> s = t"
  using get_put [of x s] get_put [of y t] put_width [of x] put_width [of y]
  by (metis append_eq_append_conv)

lemma list_width: "length (concat (map put xs)) = length xs * width"
  by (rule length_concat_map_const) (rule put_width)

lemma list_chunks: "chunks width (concat (map put xs)) = map put xs"
  by (induction xs) (simp_all add: chunks_short width_pos chunks_append put_width)

lemma list_round_trip: "\<forall>x\<in>set xs. ok x \<Longrightarrow> map get (chunks width (concat (map put xs))) = xs"
  by (simp add: list_chunks comp_def get_put_exact map_idI)

end

interpretation b16: fixed_codec be16 from_be16 2 "\<lambda>_. True"
  by unfold_locales simp_all

interpretation b32: fixed_codec be32 from_be32 4 "\<lambda>_. True"
  by unfold_locales simp_all

interpretation bi32: fixed_codec be_i32 from_be_i32 4 in_i32
  by unfold_locales simp_all

interpretation l16: fixed_codec le16 from_le16 2 "\<lambda>_. True"
  by unfold_locales simp_all

interpretation l32: fixed_codec le32 from_le32 4 "\<lambda>_. True"
  by unfold_locales simp_all

lemma in_i32_from_be_i32 [simp]: "in_i32 (from_be_i32 b)"
  using sint_range_size [of "from_be32 b"]
  by (simp add: from_be_i32_def in_i32_def word_size)

end
