(* ===== verification/Utf8.thy ===== *)
theory Utf8
  imports Bytes
begin

text \<open>
  Strings. A \<open>str\<close> is the list of its Unicode scalar values; \<open>utf8\<close> is \<open>str::as_bytes\<close>,
  \<open>utf8_lossy\<close> is \<open>String::from_utf8_lossy\<close> with the standard library's rule for broken input
  (every maximal broken prefix of a character becomes one U+FFFD), \<open>crlf_to_lf\<close> is
  \<open>replace("\r\n", "\n")\<close>, and the two Latin-1 conversions are those of \<open>msg.rs\<close>.
\<close>

type_synonym str = "nat list"

definition scalar :: "nat \<Rightarrow> bool" where
  "scalar c \<longleftrightarrow> c < 0xD800 \<or> 0xE000 \<le> c \<and> c < 0x110000"

definition str_ok :: "str \<Rightarrow> bool" where
  "str_ok s \<longleftrightarrow> list_all scalar s"

section \<open>Encoding\<close>

definition utf8_char :: "nat \<Rightarrow> bytes" where
  "utf8_char c =
    (if c < 0x80 then [of_nat c]
     else if c < 0x800 then [of_nat (0xC0 + c div 64), of_nat (0x80 + c mod 64)]
     else if c < 0x10000 then
       [of_nat (0xE0 + c div 4096), of_nat (0x80 + c div 64 mod 64), of_nat (0x80 + c mod 64)]
     else
       [of_nat (0xF0 + c div 262144), of_nat (0x80 + c div 4096 mod 64),
        of_nat (0x80 + c div 64 mod 64), of_nat (0x80 + c mod 64)])"

definition utf8 :: "str \<Rightarrow> bytes" where
  "utf8 s = concat (map utf8_char s)"

section \<open>Decoding, broken input included\<close>

text \<open>\<open>safe_get\<close> of the standard library: a byte past the end reads as 0.\<close>

definition byte_at :: "bytes \<Rightarrow> nat \<Rightarrow> nat" where
  "byte_at b i = (if i < length b then unat (b ! i) else 0)"

definition is_cont :: "nat \<Rightarrow> bool" where
  "is_cont n \<longleftrightarrow> 0x80 \<le> n \<and> n < 0xC0"

definition replacement :: nat where
  "replacement = 0xFFFD"

definition second_ok3 :: "nat \<Rightarrow> nat \<Rightarrow> bool" where
  "second_ok3 n m \<longleftrightarrow>
    (if n = 0xE0 then 0xA0 \<le> m \<and> m < 0xC0
     else if n = 0xED then 0x80 \<le> m \<and> m < 0xA0
     else is_cont m)"

definition second_ok4 :: "nat \<Rightarrow> nat \<Rightarrow> bool" where
  "second_ok4 n m \<longleftrightarrow>
    (if n = 0xF0 then 0x90 \<le> m \<and> m < 0xC0
     else if n = 0xF4 then 0x80 \<le> m \<and> m < 0x90
     else is_cont m)"

text \<open>One character: its scalar value, or U+FFFD, and how many bytes after the first it took.\<close>

definition utf8_step :: "nat \<Rightarrow> bytes \<Rightarrow> nat \<times> nat" where
  "utf8_step n rest =
    (if n < 0x80 then (n, 0)
     else if 0xC2 \<le> n \<and> n < 0xE0 then
       (if is_cont (byte_at rest 0) then ((n - 0xC0) * 64 + (byte_at rest 0 - 0x80), 1)
        else (replacement, 0))
     else if 0xE0 \<le> n \<and> n < 0xF0 then
       (if \<not> second_ok3 n (byte_at rest 0) then (replacement, 0)
        else if \<not> is_cont (byte_at rest 1) then (replacement, 1)
        else ((n - 0xE0) * 4096 + (byte_at rest 0 - 0x80) * 64 + (byte_at rest 1 - 0x80), 2))
     else if 0xF0 \<le> n \<and> n < 0xF5 then
       (if \<not> second_ok4 n (byte_at rest 0) then (replacement, 0)
        else if \<not> is_cont (byte_at rest 1) then (replacement, 1)
        else if \<not> is_cont (byte_at rest 2) then (replacement, 2)
        else ((n - 0xF0) * 262144 + (byte_at rest 0 - 0x80) * 4096
              + (byte_at rest 1 - 0x80) * 64 + (byte_at rest 2 - 0x80), 3))
     else (replacement, 0))"

function utf8_lossy :: "bytes \<Rightarrow> str" where
  "utf8_lossy [] = []"
| "utf8_lossy (b # rest) =
    fst (utf8_step (unat b) rest) # utf8_lossy (drop (snd (utf8_step (unat b) rest)) rest)"
  by pat_completeness auto
termination by (relation "measure length") auto

section \<open>Round trip\<close>

lemma byte_at_cons [simp]:
  "byte_at (of_nat k # t) 0 = (k mod 256)"
  "byte_at (x # of_nat k # t) (Suc 0) = (k mod 256)"
  "byte_at (x # y # of_nat k # t) 2 = (k mod 256)"
  by (simp_all add: byte_at_def unat_of_nat)

lemma horner2: "(c::nat) = a * 64 + x \<Longrightarrow> a = b * 64 + y \<Longrightarrow> b * 4096 + y * 64 + x = c"
  by simp

lemma horner3:
  "(c::nat) = a * 64 + x \<Longrightarrow> a = b * 64 + y \<Longrightarrow> b = d * 64 + z \<Longrightarrow> d * 262144 + z * 4096 + y * 64 + x = c"
  by simp

lemma split_char:
  fixes c :: nat
  shows "c div 64 * 64 + c mod 64 = c"
    and "c div 4096 * 4096 + c div 64 mod 64 * 64 + c mod 64 = c"
    and "c div 262144 * 262144 + c div 4096 mod 64 * 4096 + c div 64 mod 64 * 64 + c mod 64 = c"
proof -
  show 1: "c div 64 * 64 + c mod 64 = c" by simp
  have 2: "c div 64 = c div 4096 * 64 + c div 64 mod 64"
    using div_mult_mod_eq [of "c div 64" 64] by (simp add: div_mult2_eq [symmetric])
  have 3: "c div 4096 = c div 262144 * 64 + c div 4096 mod 64"
    using div_mult_mod_eq [of "c div 4096" 64] by (simp add: div_mult2_eq [symmetric])
  show "c div 4096 * 4096 + c div 64 mod 64 * 64 + c mod 64 = c"
    by (rule horner2 [OF 1 [symmetric] 2])
  show "c div 262144 * 262144 + c div 4096 mod 64 * 4096 + c div 64 mod 64 * 64 + c mod 64 = c"
    by (rule horner3 [OF 1 [symmetric] 2 3])
qed

lemma unat_byte [simp]: "k < 256 \<Longrightarrow> unat (of_nat k :: u8) = k"
  by (simp add: unat_of_nat)

lemma lossy_char1: "c < 0x80 \<Longrightarrow> utf8_lossy (utf8_char c @ t) = c # utf8_lossy t"
  by (simp add: utf8_char_def utf8_step_def)

lemma lossy_char2:
  assumes "0x80 \<le> c" "c < 0x800"
  shows "utf8_lossy (utf8_char c @ t) = c # utf8_lossy t"
proof -
  have d: "2 \<le> c div 64" "c div 64 < 32" using assms by (simp_all add: less_mult_imp_div_less)
  have m: "c mod 64 < 64" by simp
  have "utf8_step (0xC0 + c div 64) (of_nat (0x80 + c mod 64) # t) = (c, 1)"
    using d m split_char(1) [of c] by (simp add: utf8_step_def is_cont_def del: of_nat_add)
  then show ?thesis
    using assms d by (simp add: utf8_char_def del: of_nat_add)
qed

lemma lossy_char3:
  assumes "0x800 \<le> c" "c < 0x10000" "scalar c"
  shows "utf8_lossy (utf8_char c @ t) = c # utf8_lossy t"
proof -
  let ?h = "c div 4096" and ?m = "c div 64 mod 64" and ?l = "c mod 64"
  have d: "?h < 16" using assms by (simp add: less_mult_imp_div_less)
  have m: "?m < 64" "?l < 64" by simp_all
  have s: "?h * 4096 + ?m * 64 + ?l = c" by (rule split_char(2))
  have "second_ok3 (0xE0 + ?h) (0x80 + ?m)"
  proof -
    have "?h = 0 \<Longrightarrow> 32 \<le> ?m" using s m assms(1) by linarith
    moreover have "?h = 13 \<Longrightarrow> ?m < 32" using s m assms(3) unfolding scalar_def by linarith
    ultimately show ?thesis using m by (auto simp: second_ok3_def is_cont_def)
  qed
  then have "utf8_step (0xE0 + ?h) (of_nat (0x80 + ?m) # of_nat (0x80 + ?l) # t) = (c, 2)"
    using d m s by (simp add: utf8_step_def is_cont_def del: of_nat_add)
  then show ?thesis
    using assms d by (simp add: utf8_char_def numeral_2_eq_2 del: of_nat_add)
qed

lemma lossy_char4:
  assumes "0x10000 \<le> c" "scalar c"
  shows "utf8_lossy (utf8_char c @ t) = c # utf8_lossy t"
proof -
  let ?g = "c div 262144" and ?h = "c div 4096 mod 64" and ?m = "c div 64 mod 64" and ?l = "c mod 64"
  have c: "c < 0x110000" using assms by (simp add: scalar_def)
  have m: "?h < 64" "?m < 64" "?l < 64" by simp_all
  have s: "?g * 262144 + ?h * 4096 + ?m * 64 + ?l = c" by (rule split_char(3))
  have d: "?g < 5" using c by (simp add: less_mult_imp_div_less)
  have "second_ok4 (0xF0 + ?g) (0x80 + ?h)"
  proof -
    have "?g = 0 \<Longrightarrow> 16 \<le> ?h" using s m assms(1) by linarith
    moreover have "?g = 4 \<Longrightarrow> ?h < 16" using s m c by linarith
    ultimately show ?thesis using m by (auto simp: second_ok4_def is_cont_def)
  qed
  then have "utf8_step (0xF0 + ?g) (of_nat (0x80 + ?h) # of_nat (0x80 + ?m) # of_nat (0x80 + ?l) # t) = (c, 3)"
    using d m s by (simp add: utf8_step_def is_cont_def del: of_nat_add)
  then show ?thesis
    using assms d by (simp add: utf8_char_def numeral_3_eq_3 del: of_nat_add)
qed

lemma lossy_char: "scalar c \<Longrightarrow> utf8_lossy (utf8_char c @ t) = c # utf8_lossy t"
  using lossy_char1 lossy_char2 lossy_char3 lossy_char4 by (meson not_le)

lemma lossy_utf8 [simp]: "str_ok s \<Longrightarrow> utf8_lossy (utf8 s) = s"
  by (induction s) (simp_all add: utf8_def str_ok_def lossy_char)

section \<open>Line ends\<close>

fun crlf_to_lf :: "str \<Rightarrow> str" where
  "crlf_to_lf (c # d # s) = (if c = 13 \<and> d = 10 then 10 # crlf_to_lf s else c # crlf_to_lf (d # s))"
| "crlf_to_lf s = s"

lemma crlf_to_lf_id: "13 \<notin> set s \<Longrightarrow> crlf_to_lf s = s"
  by (induction s rule: crlf_to_lf.induct) auto

lemma str_ok_crlf: "str_ok s \<Longrightarrow> str_ok (crlf_to_lf s)"
  by (induction s rule: crlf_to_lf.induct) (auto simp: str_ok_def)

section \<open>Latin-1\<close>

text \<open>\<open>char::from(u8)\<close> one way; \<open>u8::try_from(u32::from(ch)).unwrap_or(b'?')\<close> the other.\<close>

definition latin1_to_string :: "bytes \<Rightarrow> str" where
  "latin1_to_string raw = map unat raw"

definition string_to_latin1 :: "str \<Rightarrow> bytes" where
  "string_to_latin1 s = map (\<lambda>c. if c < 256 then of_nat c else 63) s"

lemma length_latin1 [simp, codec_simps]:
  "length (string_to_latin1 s) = length s" "length (latin1_to_string b) = length b"
  by (simp_all add: string_to_latin1_def latin1_to_string_def)

lemma latin1_there_and_back: "latin1_to_string (string_to_latin1 s) = map (\<lambda>c. if c < 256 then c else 63) s"
  by (simp add: latin1_to_string_def string_to_latin1_def)

lemma latin1_back_and_there [simp]: "string_to_latin1 (latin1_to_string b) = b"
  by (induction b) (simp_all add: latin1_to_string_def string_to_latin1_def unsigned_less [where ?'b = 8, simplified])

end
