(* ===== verification/Pixel_Formats.thy ===== *)
theory Pixel_Formats
  imports Utf8
begin

text \<open>
  \<open>alloyvnc-proto/src/error.rs\<close> and \<open>pixel_format.rs\<close>: the errors of the wire, the 16-byte
  PIXEL_FORMAT as a record, its parser, writer and validation. The laws show the round trip, and
  that a format passes \<open>pf_validate\<close> exactly when it is true-colour, 8, 16 or 32 bits wide and
  each channel is a mask of \<open>n > 0\<close> ones that fits in the pixel where its shift puts it.
\<close>

section \<open>What the wire can get wrong\<close>

datatype error =
    BadVersion
  | UnsupportedVersion u16 u16
  | UnknownMessageType u8
  | UnknownQemuSubtype u8
  | UnsupportedPixelFormat string
  | TooLong string nat nat
  | Truncated string
  | Clipboard string

section \<open>The pixel format\<close>

record pixel_format =
  bits_per_pixel :: u8
  depth :: u8
  big_endian :: bool
  true_colour :: bool
  red_max :: u16
  green_max :: u16
  blue_max :: u16
  red_shift :: u8
  green_shift :: u8
  blue_shift :: u8

definition PF_WIRE_LEN :: nat where
  "PF_WIRE_LEN = 16"

definition bgrx32 :: pixel_format where
  "bgrx32 = \<lparr>bits_per_pixel = 32, depth = 24, big_endian = False, true_colour = True,
    red_max = 255, green_max = 255, blue_max = 255, red_shift = 16, green_shift = 8, blue_shift = 0\<rparr>"

definition rgb565 :: pixel_format where
  "rgb565 = \<lparr>bits_per_pixel = 16, depth = 16, big_endian = False, true_colour = True,
    red_max = 31, green_max = 63, blue_max = 31, red_shift = 11, green_shift = 5, blue_shift = 0\<rparr>"

definition bgr233 :: pixel_format where
  "bgr233 = \<lparr>bits_per_pixel = 8, depth = 8, big_endian = False, true_colour = True,
    red_max = 7, green_max = 7, blue_max = 3, red_shift = 0, green_shift = 3, blue_shift = 6\<rparr>"

definition bytes_per_pixel :: "pixel_format \<Rightarrow> nat" where
  "bytes_per_pixel pf = unat (bits_per_pixel pf div 8)"

definition pf_parse :: "bytes \<Rightarrow> error + pixel_format" where
  "pf_parse buf =
    (if length buf < PF_WIRE_LEN then Inl (Truncated ''pixel format'')
     else
       let u16_at = \<lambda>i. from_be16 [buf ! i, buf ! (i + 1)] in
       Inr \<lparr>bits_per_pixel = buf ! 0, depth = buf ! 1, big_endian = buf ! 2 \<noteq> 0,
            true_colour = buf ! 3 \<noteq> 0,
            red_max = u16_at 4, green_max = u16_at 6, blue_max = u16_at 8,
            red_shift = buf ! 10, green_shift = buf ! 11, blue_shift = buf ! 12\<rparr>)"

definition pf_write :: "pixel_format \<Rightarrow> bytes" where
  "pf_write pf =
    [bits_per_pixel pf, depth pf, bool_byte (big_endian pf), bool_byte (true_colour pf)]
    @ be16 (red_max pf) @ be16 (green_max pf) @ be16 (blue_max pf)
    @ [red_shift pf, green_shift pf, blue_shift pf] @ [0, 0, 0]"

section \<open>Validation\<close>

text \<open>\<open>u32::trailing_zeros\<close> and \<open>u32::is_power_of_two\<close>, on the small values they are given.\<close>

fun trailing_zeros :: "nat \<Rightarrow> nat" where
  "trailing_zeros n = (if n = 0 then 32 else if even n then Suc (trailing_zeros (n div 2)) else 0)"

declare trailing_zeros.simps [simp del]

definition is_power_of_two :: "nat \<Rightarrow> bool" where
  "is_power_of_two n \<longleftrightarrow> n \<noteq> 0 \<and> n = 2 ^ trailing_zeros n"

fun validate_channels :: "u8 \<Rightarrow> (u16 \<times> u8) list \<Rightarrow> error + unit" where
  "validate_channels bpp [] = Inr ()"
| "validate_channels bpp ((mx, shift) # rest) =
    (let range = unat mx + 1 in
     if mx = 0 \<or> \<not> is_power_of_two range then
       Inl (UnsupportedPixelFormat ''channel max is not 2^n - 1'')
     else if unat shift + trailing_zeros range > unat bpp then
       Inl (UnsupportedPixelFormat ''channel does not fit in the pixel'')
     else validate_channels bpp rest)"

definition pf_validate :: "pixel_format \<Rightarrow> error + unit" where
  "pf_validate pf =
    (if \<not> true_colour pf then Inl (UnsupportedPixelFormat ''colour map'')
     else if bits_per_pixel pf \<notin> {8, 16, 32} then
       Inl (UnsupportedPixelFormat ''bits per pixel must be 8, 16 or 32'')
     else if depth pf > bits_per_pixel pf then
       Inl (UnsupportedPixelFormat ''depth exceeds bits per pixel'')
     else validate_channels (bits_per_pixel pf)
       [(red_max pf, red_shift pf), (green_max pf, green_shift pf), (blue_max pf, blue_shift pf)])"

section \<open>Round trip\<close>

lemma length_pf_write [simp, codec_simps]: "length (pf_write pf) = 16"
  by (simp add: pf_write_def)

lemma from_be16_pair [simp]:
  "from_be16 [be16 w ! 0, be16 w ! Suc 0] = w"
  by (simp add: from_be16_def be16_def be16_join)

lemma pf_parse_write: "pf_parse (pf_write pf @ t) = Inr pf"
  by (cases pf)
     (simp add: pf_parse_def PF_WIRE_LEN_def pf_write_def be16_def from_be16_def be16_join)

lemma pf_parse_write_exact [simp]: "pf_parse (pf_write pf) = Inr pf"
  using pf_parse_write [of pf "[]"] by simp

interpretation pf: fixed_codec pf_write "\<lambda>b. projr (pf_parse b)" 16 "\<lambda>_. True"
  by unfold_locales (simp_all add: pf_parse_write)

lemma pf_parse_total: "length buf = 16 \<Longrightarrow> \<exists>pf. pf_parse buf = Inr pf"
  by (simp add: pf_parse_def PF_WIRE_LEN_def Let_def)

lemma pf_parse_front:
  "16 \<le> length a \<Longrightarrow> 16 \<le> length b \<Longrightarrow> take 16 a = take 16 b \<Longrightarrow> pf_parse a = pf_parse b"
proof -
  assume l: "16 \<le> length a" "16 \<le> length b" and t: "take 16 a = take 16 b"
  have n: "a ! i = b ! i" if "i < 16" for i
    using arg_cong [OF t, of "\<lambda>l. l ! i"] that l by simp
  show ?thesis using l by (simp add: pf_parse_def PF_WIRE_LEN_def Let_def n not_less [symmetric])
qed

section \<open>What validation admits\<close>

lemma trailing_zeros_pow2 [simp]: "trailing_zeros (2 ^ k) = k"
  by (induction k) (simp_all add: trailing_zeros.simps [of "Suc 0"] trailing_zeros.simps [of "2 * _"])

lemma is_power_of_two_iff: "is_power_of_two n \<longleftrightarrow> (\<exists>k. n = 2 ^ k)"
  by (auto simp: is_power_of_two_def)

text \<open>A channel of \<open>k\<close> ones, at least one, that ends inside the pixel.\<close>

definition channel_fits :: "u8 \<Rightarrow> u16 \<times> u8 \<Rightarrow> bool" where
  "channel_fits bpp ch \<longleftrightarrow>
    (\<exists>k>0. unat (fst ch) = 2 ^ k - 1 \<and> unat (snd ch) + k \<le> unat bpp)"

lemma channel_checked:
  "(mx = 0 \<or> \<not> is_power_of_two (unat mx + 1) \<or> unat shift + trailing_zeros (unat mx + 1) > unat bpp)
   \<longleftrightarrow> \<not> channel_fits bpp (mx, shift)"
proof (cases "is_power_of_two (unat mx + 1)")
  case False
  then have "\<not> channel_fits bpp (mx, shift)"
    by (auto simp: channel_fits_def is_power_of_two_iff)
  with False show ?thesis by simp
next
  case True
  then obtain k where k: "unat mx + 1 = 2 ^ k" by (auto simp: is_power_of_two_iff)
  have z: "mx = 0 \<longleftrightarrow> k = 0"
  proof
    assume "mx = 0" with k have "(2::nat) ^ k = 2 ^ 0" by simp
    then show "k = 0" by (simp only: power_inject_exp)
  next
    assume "k = 0" with k show "mx = 0" by (simp add: unat_eq_zero)
  qed
  have u: "unat mx = 2 ^ j - 1 \<longleftrightarrow> j = k" for j :: nat
  proof
    assume "unat mx = 2 ^ j - 1"
    moreover have "(1::nat) \<le> 2 ^ j" by simp
    ultimately have "(2::nat) ^ j = 2 ^ k" using k by linarith
    then show "j = k" by simp
  next
    assume "j = k" with k show "unat mx = 2 ^ j - 1" by simp
  qed
  have t: "trailing_zeros (unat mx + 1) = k" using k by simp
  have "channel_fits bpp (mx, shift) \<longleftrightarrow> k > 0 \<and> unat shift + k \<le> unat bpp"
    unfolding channel_fits_def fst_conv snd_conv u by blast
  then show ?thesis
    unfolding t using True z by auto
qed

lemma validate_channels_ok:
  "validate_channels bpp chs = Inr () \<longleftrightarrow> list_all (channel_fits bpp) chs"
proof (induction bpp chs rule: validate_channels.induct)
  case (2 bpp mx shift rest)
  show ?case
  proof (cases "channel_fits bpp (mx, shift)")
    case True
    then have n: "mx \<noteq> 0" "is_power_of_two (unat mx + 1)" "\<not> unat bpp < unat shift + trailing_zeros (unat mx + 1)"
      using channel_checked [where mx = mx and shift = shift and bpp = bpp] by auto
    then show ?thesis using True 2 by (simp add: Let_def)
  next
    case False
    then have "mx = 0 \<or> \<not> is_power_of_two (unat mx + 1) \<or> unat bpp < unat shift + trailing_zeros (unat mx + 1)"
      using channel_checked [where mx = mx and shift = shift and bpp = bpp] by blast
    then have "validate_channels bpp ((mx, shift) # rest) \<noteq> Inr ()"
      unfolding validate_channels.simps Let_def by (elim disjE) simp_all
    with False show ?thesis by simp
  qed
qed simp

declare validate_channels.simps [simp del]

lemma pf_validate_ok:
  "pf_validate pf = Inr () \<longleftrightarrow>
    true_colour pf \<and> bits_per_pixel pf \<in> {8, 16, 32} \<and> depth pf \<le> bits_per_pixel pf
    \<and> channel_fits (bits_per_pixel pf) (red_max pf, red_shift pf)
    \<and> channel_fits (bits_per_pixel pf) (green_max pf, green_shift pf)
    \<and> channel_fits (bits_per_pixel pf) (blue_max pf, blue_shift pf)"
proof (cases "true_colour pf \<and> bits_per_pixel pf \<in> {8, 16, 32} \<and> \<not> depth pf > bits_per_pixel pf")
  case True
  then have "pf_validate pf = validate_channels (bits_per_pixel pf)
      [(red_max pf, red_shift pf), (green_max pf, green_shift pf), (blue_max pf, blue_shift pf)]"
    by (simp only: pf_validate_def simp_thms if_True if_False)
  with True show ?thesis by (simp add: validate_channels_ok not_less)
next
  case False
  then have "pf_validate pf \<noteq> Inr ()"
    unfolding pf_validate_def by (simp split del: if_split) (simp only: if_True split: if_split, blast)
  with False show ?thesis by (meson not_less)
qed

lemma channel_fits_bound:
  "channel_fits bpp (mx, shift) \<Longrightarrow> v \<le> unat mx \<Longrightarrow> v * 2 ^ unat shift < 2 ^ unat bpp"
proof -
  assume "channel_fits bpp (mx, shift)" and v: "v \<le> unat mx"
  then obtain k where k: "unat mx = 2 ^ k - 1" "unat shift + k \<le> unat bpp"
    by (auto simp: channel_fits_def)
  have "v < 2 ^ k" using v k(1) by (simp add: le_less_trans)
  then have "v * 2 ^ unat shift < 2 ^ k * 2 ^ unat shift" by simp
  also have "\<dots> = 2 ^ (unat shift + k)" by (simp add: power_add mult.commute)
  also have "\<dots> \<le> 2 ^ unat bpp" using k(2) by (simp add: power_increasing)
  finally show ?thesis .
qed

end
