(* ===== verification/Handshake.thy ===== *)
theory Handshake
  imports Pixel_Formats
begin

text \<open>
  \<open>alloyvnc-proto/src/handshake.rs\<close>: the version exchange, the three flows, the security lists and
  results, and ServerInit. A writer \<open>write_x\<close> of the source appends to a \<open>Vec\<close>; here it returns
  the bytes it appends. The locale \<open>stream_parser\<close> states what an incremental parser promises
  (\<open>Ok(None)\<close> for "more bytes needed"): its answers are final, and it uses a positive number of
  the bytes it was given. That a proper prefix of a message is never refused or misread, and that
  the messages read do not depend on how the stream was cut into reads, follow inside it.
\<close>

section \<open>Incremental parsers\<close>

text \<open>Reading every message a buffer holds: what the caller of an incremental parser does after
  each read. The messages, and either the error that ended it or the bytes left over.\<close>

function drain_msgs :: "(bytes \<Rightarrow> error + ('m \<times> nat) option) \<Rightarrow> bytes \<Rightarrow> 'm list \<times> (error + bytes)" where
  "drain_msgs parse buf =
    (case parse buf of
       Inl e \<Rightarrow> ([], Inl e)
     | Inr None \<Rightarrow> ([], Inr buf)
     | Inr (Some (m, n)) \<Rightarrow>
         if n = 0 \<or> n > length buf then ([], Inr buf)
         else (case drain_msgs parse (drop n buf) of (ms, r) \<Rightarrow> (m # ms, r)))"
  by pat_completeness auto
termination by (relation "measure (\<lambda>(_, b). length b)") auto

declare drain_msgs.simps [simp del]

text \<open>Draining after each of a sequence of reads, as long as no error turned up.\<close>

fun drain_reads :: "(bytes \<Rightarrow> error + ('m \<times> nat) option) \<Rightarrow> bytes \<Rightarrow> bytes list \<Rightarrow> 'm list \<times> (error + bytes)" where
  "drain_reads parse buf [] = ([], Inr buf)"
| "drain_reads parse buf (r # rs) =
    (case drain_msgs parse (buf @ r) of
       (ms, Inl e) \<Rightarrow> (ms, Inl e)
     | (ms, Inr rest) \<Rightarrow> (case drain_reads parse rest rs of (ms', q) \<Rightarrow> (ms @ ms', q)))"

text \<open>What an incremental parser promises.\<close>

locale stream_parser =
  fixes parse :: "bytes \<Rightarrow> error + ('m \<times> nat) option"
  assumes front: "parse b = Inr (Some (m, n)) \<Longrightarrow>
      0 < n \<and> n \<le> length b \<and> (\<forall>t. parse (take n b @ t) = Inr (Some (m, n)))"
    and ext_err: "parse b = Inl e \<Longrightarrow> parse (b @ t) = Inl e"
begin

lemma used: "parse b = Inr (Some (m, n)) \<Longrightarrow> 0 < n \<and> n \<le> length b"
  using front by blast

lemma ext_some: "parse b = Inr (Some (m, n)) \<Longrightarrow> parse (b @ t) = Inr (Some (m, n))"
  using front [of b m n] append_take_drop_id [of n b] append_assoc [of "take n b" "drop n b" t]
  by metis

lemma only_the_front: "parse b = Inr (Some (m, n)) \<Longrightarrow> parse (take n b) = Inr (Some (m, n))"
  using front [of b m n] by (metis append_Nil2)

lemma proper_prefix: "parse b = Inr (Some (m, n)) \<Longrightarrow> k < n \<Longrightarrow> parse (take k b) = Inr None"
proof (rule ccontr)
  assume p: "parse b = Inr (Some (m, n))" "k < n" and nn: "parse (take k b) \<noteq> Inr None"
  consider e where "parse (take k b) = Inl e" | m' n' where "parse (take k b) = Inr (Some (m', n'))"
    using nn by (metis not_None_eq prod.exhaust sum.exhaust)
  then show False
  proof cases
    case 1
    from ext_err [OF this, of "drop k b"] p show False by simp
  next
    case 2
    from ext_some [OF 2, of "drop k b"] p have "n' = n" by simp
    with used [OF 2] p show False by simp
  qed
qed

lemma drain_none: "parse b = Inr None \<Longrightarrow> drain_msgs parse b = ([], Inr b)"
  by (simp add: drain_msgs.simps [of parse b])

lemma drain_err: "parse b = Inl e \<Longrightarrow> drain_msgs parse b = ([], Inl e)"
  by (simp add: drain_msgs.simps [of parse b])

lemma drain_some:
  "parse b = Inr (Some (m, n)) \<Longrightarrow>
    drain_msgs parse b = (m # fst (drain_msgs parse (drop n b)), snd (drain_msgs parse (drop n b)))"
  using used [of b m n] by (auto simp: drain_msgs.simps [of parse b] split: prod.split)

lemma drain_induct [case_names none err some]:
  assumes "\<And>b. parse b = Inr None \<Longrightarrow> P b"
    and "\<And>b e. parse b = Inl e \<Longrightarrow> P b"
    and "\<And>b m n. parse b = Inr (Some (m, n)) \<Longrightarrow> 0 < n \<Longrightarrow> n \<le> length b \<Longrightarrow> P (drop n b) \<Longrightarrow> P b"
  shows "P b"
proof (induction b rule: length_induct)
  case (1 b)
  consider "parse b = Inr None" | e where "parse b = Inl e" | m n where "parse b = Inr (Some (m, n))"
    by (metis not_None_eq prod.exhaust sum.exhaust)
  then show ?case
  proof cases
    case (3 m n)
    with used [OF 3] 1 show ?thesis by (intro assms(3) [OF 3]) auto
  qed (fact assms)+
qed

lemma drain_rest: "snd (drain_msgs parse b) = Inr rest \<Longrightarrow> parse rest = Inr None"
  by (induction b rule: drain_induct) (simp_all add: drain_none drain_err drain_some)

lemma drain_append:
  "drain_msgs parse (a @ b) =
    (case drain_msgs parse a of
       (ms, Inl e) \<Rightarrow> (ms, Inl e)
     | (ms, Inr rest) \<Rightarrow> (ms @ fst (drain_msgs parse (rest @ b)), snd (drain_msgs parse (rest @ b))))"
proof (induction a rule: drain_induct)
  case (none a)
  then show ?case by (simp add: drain_none)
next
  case (err a e)
  then show ?case by (simp add: drain_err ext_err)
next
  case (some a m n)
  then show ?case
    by (simp add: drain_some [OF some(1)] drain_some [OF ext_some [OF some(1)]] split: prod.split sum.split)
qed

lemma reads_do_not_matter:
  "parse buf = Inr None \<Longrightarrow> drain_reads parse buf rs = drain_msgs parse (buf @ concat rs)"
proof (induction rs arbitrary: buf)
  case Nil
  then show ?case by (simp add: drain_none)
next
  case (Cons r rs)
  have "drain_msgs parse (buf @ concat (r # rs)) = drain_msgs parse ((buf @ r) @ concat rs)" by simp
  also note drain_append [of "buf @ r" "concat rs"]
  finally show ?case
    using Cons.IH drain_rest [of "buf @ r"]
    by (auto split: prod.splits sum.splits)
qed

end

section \<open>Versions and flows\<close>

definition VERSION_LEN :: nat where
  "VERSION_LEN = 12"

datatype flow = V33 | V37 | V38

definition for_version :: "u16 \<Rightarrow> u16 \<Rightarrow> error + flow" where
  "for_version major minor =
    (if major \<noteq> 3 then Inl (UnsupportedVersion major minor)
     else if minor \<le> 2 then Inl (UnsupportedVersion major minor)
     else if 3 \<le> minor \<and> minor \<le> 6 then Inr V33
     else if minor = 7 then Inr V37
     else Inr V38)"

text \<open>\<open>b"RFB 003.003\n"\<close> and its two successors.\<close>

definition version_bytes :: "flow \<Rightarrow> bytes" where
  "version_bytes f = (case f of
      V33 \<Rightarrow> [82, 70, 66, 32, 48, 48, 51, 46, 48, 48, 51, 10]
    | V37 \<Rightarrow> [82, 70, 66, 32, 48, 48, 51, 46, 48, 48, 55, 10]
    | V38 \<Rightarrow> [82, 70, 66, 32, 48, 48, 51, 46, 48, 48, 56, 10])"

definition is_ascii_digit :: "u8 \<Rightarrow> bool" where
  "is_ascii_digit b \<longleftrightarrow> 48 \<le> b \<and> b \<le> 57"

definition version_num :: "bytes \<Rightarrow> error + u16" where
  "version_num s =
    (if \<not> list_all is_ascii_digit s then Inl BadVersion
     else Inr (fold (\<lambda>d acc. acc * 10 + ucast (d - 48)) s 0))"

definition parse_version :: "bytes \<Rightarrow> error + (u16 \<times> u16)" where
  "parse_version buf =
    (if length buf \<noteq> VERSION_LEN \<or> take 4 buf \<noteq> [82, 70, 66, 32] \<or> buf ! 7 \<noteq> 46 \<or> buf ! 11 \<noteq> 10
     then Inl BadVersion
     else (case version_num (take 3 (drop 4 buf)) of
         Inl e \<Rightarrow> Inl e
       | Inr major \<Rightarrow> (case version_num (take 3 (drop 8 buf)) of
             Inl e \<Rightarrow> Inl e
           | Inr minor \<Rightarrow> Inr (major, minor))))"

section \<open>Security types and results\<close>

definition SEC_INVALID :: u8 where "SEC_INVALID = 0"
definition SEC_NONE :: u8 where "SEC_NONE = 1"
definition SEC_VNC_AUTH :: u8 where "SEC_VNC_AUTH = 2"

definition write_security_types :: "u8 list \<Rightarrow> bytes" where
  "write_security_types types = of_nat (length types) # types"

definition write_security_type_v33 :: "u8 \<Rightarrow> bytes" where
  "write_security_type_v33 security_type = be32 (ucast security_type)"

definition write_reason :: "str \<Rightarrow> bytes" where
  "write_reason reason = be32 (of_nat (length (utf8 reason))) @ utf8 reason"

definition write_security_types_failure :: "flow \<Rightarrow> str \<Rightarrow> bytes" where
  "write_security_types_failure f reason =
    (case f of V33 \<Rightarrow> be32 0 | V37 \<Rightarrow> [0] | V38 \<Rightarrow> [0]) @ write_reason reason"

definition write_security_result :: "flow \<Rightarrow> bool \<Rightarrow> str \<Rightarrow> bytes" where
  "write_security_result f ok reason =
    be32 (if ok then 0 else 1) @ (if \<not> ok \<and> f = V38 then write_reason reason else [])"

section \<open>ServerInit\<close>

record server_init =
  si_width :: u16
  si_height :: u16
  si_pixel_format :: pixel_format
  si_name :: str

definition MAX_NAME :: nat where
  "MAX_NAME = 4096"

definition server_init_write :: "server_init \<Rightarrow> bytes" where
  "server_init_write si =
    be16 (si_width si) @ be16 (si_height si) @ pf_write (si_pixel_format si)
    @ (let name = take MAX_NAME (utf8 (si_name si)) in be32 (of_nat (length name)) @ name)"

definition SI_HEAD :: nat where
  "SI_HEAD = 2 + 2 + PF_WIRE_LEN + 4"

definition server_init_parse :: "bytes \<Rightarrow> error + (server_init \<times> nat) option" where
  "server_init_parse buf =
    (if length buf < SI_HEAD then Inr None
     else
       let width = from_be16 [buf ! 0, buf ! 1];
           height = from_be16 [buf ! 2, buf ! 3] in
       case pf_parse (drop 4 buf) of
         Inl e \<Rightarrow> Inl e
       | Inr pixel_format \<Rightarrow>
           let len = unat (from_be32 [buf ! 20, buf ! 21, buf ! 22, buf ! 23]) in
           if len > MAX_NAME then Inl (TooLong ''desktop name'' len MAX_NAME)
           else if length buf < SI_HEAD + len then Inr None
           else Inr (Some (\<lparr>si_width = width, si_height = height, si_pixel_format = pixel_format,
                            si_name = utf8_lossy (take len (drop SI_HEAD buf))\<rparr>, SI_HEAD + len)))"

section \<open>Laws of the version exchange\<close>

lemma version_num_3:
  assumes "is_ascii_digit a" "is_ascii_digit b" "is_ascii_digit c"
  shows "\<exists>v. version_num [a, b, c] = Inr v
    \<and> unat v = 100 * (unat a - 48) + 10 * (unat b - 48) + (unat c - 48) \<and> unat v < 1000"
proof -
  have u: "unat (d - 48) = unat d - 48 \<and> unat d - 48 < 10" if "is_ascii_digit d" for d
    using that by (auto simp: is_ascii_digit_def unat_sub word_le_nat_alt)
  define x y z where "x = unat a - 48" and "y = unat b - 48" and "z = unat c - 48"
  have d: "unat (a - 48) = x" "unat (b - 48) = y" "unat (c - 48) = z" and s: "x < 10" "y < 10" "z < 10"
    using u assms unfolding x_def y_def z_def by blast+
  have cast: "(ucast e :: u16) = of_nat (unat e)" for e :: u8
    by simp
  have "((0 * 10 + ucast (a - 48)) * 10 + ucast (b - 48)) * 10 + ucast (c - 48)
      = (of_nat (100 * x + 10 * y + z) :: u16)"
    unfolding cast d by (simp add: algebra_simps)
  then have "version_num [a, b, c] = Inr (of_nat (100 * x + 10 * y + z))"
    using assms by (simp add: version_num_def)
  moreover have "unat (of_nat (100 * x + 10 * y + z) :: u16) = 100 * x + 10 * y + z"
    using s by (simp add: unat_of_nat del: of_nat_add of_nat_mult)
  ultimately show ?thesis using s by (simp add: x_def y_def z_def)
qed

lemma version_num_bad: "\<not> list_all is_ascii_digit s \<Longrightarrow> version_num s = Inl BadVersion"
  by (simp add: version_num_def)

lemma version_flow: "\<exists>a b. parse_version (version_bytes f) = Inr (a, b) \<and> for_version a b = Inr f"
  by (cases f) (simp_all add: parse_version_def version_bytes_def VERSION_LEN_def version_num_def
      is_ascii_digit_def for_version_def)

section \<open>Laws of ServerInit\<close>

lemma server_init_front:
  assumes "server_init_parse b = Inr (Some (m, n))"
  shows "0 < n \<and> n \<le> length b \<and> (\<forall>t. server_init_parse (take n b @ t) = Inr (Some (m, n)))"
proof -
  from assms obtain pf len where
    h: "SI_HEAD \<le> length b" and pf: "pf_parse (drop 4 b) = Inr pf"
    and len: "len = unat (from_be32 [b ! 20, b ! 21, b ! 22, b ! 23])" "len \<le> MAX_NAME"
    and n: "n = SI_HEAD + len" "n \<le> length b"
    and m: "m = \<lparr>si_width = from_be16 [b ! 0, b ! 1], si_height = from_be16 [b ! 2, b ! 3],
              si_pixel_format = pf, si_name = utf8_lossy (take len (drop SI_HEAD b))\<rparr>"
    by (auto simp: server_init_parse_def Let_def not_less split: if_splits sum.splits)
  have H: "SI_HEAD = 24" by (simp add: SI_HEAD_def PF_WIRE_LEN_def)
  have "server_init_parse b' = Inr (Some (m, n))" if b': "take n b' = take n b" and lb: "n \<le> length b'" for b'
  proof -
    have i: "b' ! i = b ! i" if "i < 24" for i
      using arg_cong [OF b', of "\<lambda>l. l ! i"] that n H lb by simp
    have "drop 4 (take n b') = drop 4 (take n b)" by (simp only: b')
    then have p: "pf_parse (drop 4 b') = Inr pf"
      unfolding pf [symmetric] using n H lb
      by (intro pf_parse_front) (auto simp: drop_take dest: arg_cong [where f = "take 16"])
    have "drop SI_HEAD (take n b') = drop SI_HEAD (take n b)" by (simp only: b')
    then have d: "take len (drop SI_HEAD b') = take len (drop SI_HEAD b)"
      by (simp add: drop_take n(1))
    have "\<not> length b' < SI_HEAD" "\<not> length b' < SI_HEAD + len" "\<not> MAX_NAME < len" using n lb len(2) by auto
    moreover have "unat (from_be32 [b' ! 20, b' ! 21, b' ! 22, b' ! 23]) = len"
      by (simp add: i len(1))
    ultimately show ?thesis
      unfolding server_init_parse_def Let_def p by (simp add: d i m n(1))
  qed
  from this [of "take n b @ t" for t] show ?thesis using n H by auto
qed

lemma server_init_ext_err:
  assumes "server_init_parse b = Inl e" shows "server_init_parse (b @ t) = Inl e"
proof -
  have H: "SI_HEAD = 24" by (simp add: SI_HEAD_def PF_WIRE_LEN_def)
  from assms have h: "24 \<le> length b"
    by (auto simp: server_init_parse_def H split: if_splits)
  have i: "(b @ t) ! i = b ! i" if "i < 24" for i
    using that h by (simp add: nth_append)
  have p: "pf_parse (drop 4 (b @ t)) = pf_parse (drop 4 b)"
    using h by (intro pf_parse_front) simp_all
  show ?thesis
    using assms h unfolding server_init_parse_def Let_def p
    by (simp add: i H split: sum.splits if_splits)
qed

interpretation si: stream_parser server_init_parse
  by unfold_locales (use server_init_front server_init_ext_err in blast)+

lemma server_init_parse_write:
  "server_init_parse (server_init_write si @ t) =
    Inr (Some (si\<lparr>si_name := utf8_lossy (take MAX_NAME (utf8 (si_name si)))\<rparr>, length (server_init_write si)))"
proof -
  let ?name = "take MAX_NAME (utf8 (si_name si))"
  let ?L = "be32 (of_nat (length ?name))"
  have ln: "length ?name \<le> 4096" by (simp add: MAX_NAME_def)
  then have L: "unat (of_nat (length ?name) :: u32) = length ?name"
    by (simp add: unat_of_nat)
  have w: "server_init_write si @ t = be16 (si_width si) @ be16 (si_height si) @ pf_write (si_pixel_format si) @ ?L @ ?name @ t"
    by (simp add: server_init_write_def)
  have H: "SI_HEAD = 24" by (simp add: SI_HEAD_def PF_WIRE_LEN_def)
  let ?b = "server_init_write si @ t"
  have i0: "?b ! 0 = be16 (si_width si) ! 0" "?b ! 1 = be16 (si_width si) ! Suc 0"
    "?b ! 2 = be16 (si_height si) ! 0" "?b ! 3 = be16 (si_height si) ! Suc 0"
    unfolding w by (simp_all add: nth_append)
  have d4: "drop 4 ?b = pf_write (si_pixel_format si) @ ?L @ ?name @ t"
    unfolding w by simp
  have d20: "drop 20 ?b = ?L @ ?name @ t"
    unfolding w by simp
  have len: "length ?b = 24 + length ?name + length t" unfolding w by simp
  have l4: "[?b ! 20, ?b ! 21, ?b ! 22, ?b ! 23] = take 4 (drop 20 ?b)"
    using take_at(2) [of 20 ?b] len by simp
  have "from_be32 [?b ! 20, ?b ! 21, ?b ! 22, ?b ! 23] = of_nat (length ?name)"
    unfolding l4 d20 by simp
  moreover have "drop 24 ?b = ?name @ t"
    unfolding w by simp
  ultimately show ?thesis
    using len L ln unfolding server_init_parse_def Let_def H i0 d4 pf_parse_write
    by (cases si) (simp add: MAX_NAME_def server_init_write_def min_def)
qed

lemma server_init_round_trip:
  "str_ok (si_name si) \<Longrightarrow> length (utf8 (si_name si)) \<le> MAX_NAME \<Longrightarrow>
    server_init_parse (server_init_write si @ t) = Inr (Some (si, length (server_init_write si)))"
  by (simp add: server_init_parse_write)

end
