(* ===== verification/Messages.thy ===== *)
theory Messages
  imports Handshake Encodings
begin

text \<open>
  \<open>alloyvnc-proto/src/msg.rs\<close>: the client messages and their incremental parser, the Extended
  Clipboard bodies, and the writers of both directions. The macro \<open>need!\<close> is the combinator
  \<open>need\<close>, the reader \<open>Cursor\<close> a record of a buffer and a position. zlib is another crate's: the
  parameter \<open>inflate\<close> gives the bytes a compressed stream yields before it stops and whether
  it stopped on a corrupt block (\<open>read_exact\<close> past them is then the corresponding error), the
  parameter \<open>deflate\<close> the finished stream of some bytes.

  The laws: every answer of the parser is final and depends on the bytes it used only, hence the
  interpretation of \<open>stream_parser\<close>; a message is waited for only below a fixed size and an error
  is found within the first eight bytes; every message written is read back.
\<close>

section \<open>Types and limits\<close>

definition CT_SET_PIXEL_FORMAT :: u8 where "CT_SET_PIXEL_FORMAT = 0"
definition CT_SET_ENCODINGS :: u8 where "CT_SET_ENCODINGS = 2"
definition CT_FRAMEBUFFER_UPDATE_REQUEST :: u8 where "CT_FRAMEBUFFER_UPDATE_REQUEST = 3"
definition CT_KEY_EVENT :: u8 where "CT_KEY_EVENT = 4"
definition CT_POINTER_EVENT :: u8 where "CT_POINTER_EVENT = 5"
definition CT_CLIENT_CUT_TEXT :: u8 where "CT_CLIENT_CUT_TEXT = 6"
definition CT_ENABLE_CONTINUOUS_UPDATES :: u8 where "CT_ENABLE_CONTINUOUS_UPDATES = 150"
definition CT_CLIENT_FENCE :: u8 where "CT_CLIENT_FENCE = 248"
definition CT_SET_DESKTOP_SIZE :: u8 where "CT_SET_DESKTOP_SIZE = 251"
definition CT_QEMU :: u8 where "CT_QEMU = 255"

lemmas client_type_defs = CT_SET_PIXEL_FORMAT_def CT_SET_ENCODINGS_def CT_FRAMEBUFFER_UPDATE_REQUEST_def
  CT_KEY_EVENT_def CT_POINTER_EVENT_def CT_CLIENT_CUT_TEXT_def CT_ENABLE_CONTINUOUS_UPDATES_def
  CT_CLIENT_FENCE_def CT_SET_DESKTOP_SIZE_def CT_QEMU_def

definition ST_FRAMEBUFFER_UPDATE :: u8 where "ST_FRAMEBUFFER_UPDATE = 0"
definition ST_BELL :: u8 where "ST_BELL = 2"
definition ST_SERVER_CUT_TEXT :: u8 where "ST_SERVER_CUT_TEXT = 3"
definition ST_END_OF_CONTINUOUS_UPDATES :: u8 where "ST_END_OF_CONTINUOUS_UPDATES = 150"
definition ST_SERVER_FENCE :: u8 where "ST_SERVER_FENCE = 248"

definition FENCE_BLOCK_BEFORE :: u32 where "FENCE_BLOCK_BEFORE = push_bit 0 1"
definition FENCE_BLOCK_AFTER :: u32 where "FENCE_BLOCK_AFTER = push_bit 1 1"
definition FENCE_SYNC_NEXT :: u32 where "FENCE_SYNC_NEXT = push_bit 2 1"
definition FENCE_REQUEST :: u32 where "FENCE_REQUEST = push_bit 31 1"

definition MAX_CUT_TEXT :: nat where "MAX_CUT_TEXT = 1048576"
definition MAX_ENCODINGS :: nat where "MAX_ENCODINGS = 1024"
definition MAX_FENCE_PAYLOAD :: nat where "MAX_FENCE_PAYLOAD = 64"
definition MAX_SCREENS :: nat where "MAX_SCREENS = 16"

record screen =
  scr_id :: u32
  scr_x :: u16
  scr_y :: u16
  scr_width :: u16
  scr_height :: u16
  scr_flags :: u32

definition ACTION_CAPS :: u32 where "ACTION_CAPS = push_bit 24 1"
definition ACTION_REQUEST :: u32 where "ACTION_REQUEST = push_bit 25 1"
definition ACTION_PEEK :: u32 where "ACTION_PEEK = push_bit 26 1"
definition ACTION_NOTIFY :: u32 where "ACTION_NOTIFY = push_bit 27 1"
definition ACTION_PROVIDE :: u32 where "ACTION_PROVIDE = push_bit 28 1"
definition ACTION_ALL :: u32 where
  "ACTION_ALL = ACTION_CAPS OR ACTION_REQUEST OR ACTION_PEEK OR ACTION_NOTIFY OR ACTION_PROVIDE"
definition FORMAT_TEXT :: u32 where "FORMAT_TEXT = push_bit 0 1"
definition FORMAT_RTF :: u32 where "FORMAT_RTF = push_bit 1 1"
definition FORMAT_HTML :: u32 where "FORMAT_HTML = push_bit 2 1"
definition FORMAT_DIB :: u32 where "FORMAT_DIB = push_bit 3 1"
definition FORMAT_FILES :: u32 where "FORMAT_FILES = push_bit 4 1"
definition FORMAT_ALL :: u32 where
  "FORMAT_ALL = FORMAT_TEXT OR FORMAT_RTF OR FORMAT_HTML OR FORMAT_DIB OR FORMAT_FILES"
definition FORMAT_EVERY :: u32 where "FORMAT_EVERY = 0x00FFFFFF"

lemmas clip_defs = ACTION_CAPS_def ACTION_REQUEST_def ACTION_PEEK_def ACTION_NOTIFY_def
  ACTION_PROVIDE_def ACTION_ALL_def FORMAT_TEXT_def FORMAT_RTF_def FORMAT_HTML_def FORMAT_DIB_def
  FORMAT_FILES_def FORMAT_ALL_def FORMAT_EVERY_def

datatype clipboard_message =
    Caps u32 u32 "u32 list"
  | Request u32
  | Peek u32
  | Notify u32
  | Provide "str option"
  | UnknownClip u32

datatype client_message =
    SetPixelFormat pixel_format
  | SetEncodings "int list"
  | FramebufferUpdateRequest bool u16 u16 u16 u16
  | KeyEvent bool u32
  | PointerEvent u8 u16 u16
  | ClientCutText str
  | ExtendedClipboard clipboard_message
  | UnreadableClipboard u32 error
  | EnableContinuousUpdates bool u16 u16 u16 u16
  | ClientFence u32 bytes
  | SetDesktopSize u16 u16 "screen list"
  | QemuKeyEvent bool u32 u32

text \<open>\<open>ClipboardMessage::answers\<close>.\<close>

definition clip_answers :: "clipboard_message \<Rightarrow> u32 \<Rightarrow> bool" where
  "clip_answers m action = (case m of Caps _ actions _ \<Rightarrow> actions AND action \<noteq> 0 | _ \<Rightarrow> False)"

section \<open>Clipboard bodies\<close>

text \<open>\<open>read_exact\<close> on the inflated stream: what it has left, and whether it ends in corruption.\<close>

definition inflate_trouble :: "bool \<Rightarrow> error" where
  "inflate_trouble corrupt =
    (if \<not> corrupt then Truncated ''extended clipboard provide''
     else Clipboard ''the provide does not inflate'')"

definition read_exact :: "nat \<Rightarrow> bytes \<times> bool \<Rightarrow> error + (bytes \<times> (bytes \<times> bool))" where
  "read_exact n z =
    (if n \<le> length (fst z) then Inr (take n (fst z), (drop n (fst z), snd z))
     else Inl (inflate_trouble (snd z)))"

definition clipboard_text :: "bytes \<Rightarrow> str" where
  "clipboard_text data =
    (let body = (if data \<noteq> [] \<and> last data = 0 then butlast data else data) in
     crlf_to_lf (utf8_lossy body))"

fun provided_loop :: "nat list \<Rightarrow> u32 \<Rightarrow> bytes \<times> bool \<Rightarrow> nat \<Rightarrow> str option \<Rightarrow> error + str option" where
  "provided_loop [] flags z budget text = Inr text"
| "provided_loop (b # bits) flags z budget text =
    (if flags AND push_bit b 1 = 0 then provided_loop bits flags z budget text
     else (case read_exact 4 z of
         Inl e \<Rightarrow> Inl e
       | Inr (head, z1) \<Rightarrow>
           (let len = unat (from_be32 head) in
            if len > budget then Inl (TooLong ''extended clipboard provide'' len MAX_CUT_TEXT)
            else (case read_exact len z1 of
                Inl e \<Rightarrow> Inl e
              | Inr (data, z2) \<Rightarrow>
                  provided_loop bits flags z2 (budget - len)
                    (if push_bit b 1 = FORMAT_TEXT then Some (clipboard_text data) else text)))))"

definition provided_text :: "(bytes \<Rightarrow> bytes \<times> bool) \<Rightarrow> u32 \<Rightarrow> bytes \<Rightarrow> error + str option" where
  "provided_text inflate flags rest = provided_loop [0..<24] flags (inflate rest) MAX_CUT_TEXT None"

text \<open>\<open>u32::count_ones\<close>.\<close>

definition count_ones :: "u32 \<Rightarrow> nat" where
  "count_ones w = length (filter (bit w) [0..<32])"

definition parse_clipboard :: "(bytes \<Rightarrow> bytes \<times> bool) \<Rightarrow> bytes \<Rightarrow> error + clipboard_message" where
  "parse_clipboard inflate body =
    (if length body < 4 then Inl (Truncated ''extended clipboard'')
     else
       let flags = from_be32 (take 4 body);
           rest = drop 4 body;
           formats = flags AND FORMAT_ALL;
           actions = flags AND ACTION_ALL in
       if actions AND ACTION_CAPS \<noteq> 0 then
         (let want = count_ones (flags AND FORMAT_EVERY) * 4 in
          if length rest < want then Inl (Truncated ''extended clipboard caps'')
          else Inr (Caps formats actions (map from_be32 (chunks 4 (take want rest)))))
       else if actions = ACTION_REQUEST then Inr (Request formats)
       else if actions = ACTION_PEEK then Inr (Peek formats)
       else if actions = ACTION_NOTIFY then Inr (Notify formats)
       else if actions = ACTION_PROVIDE then
         (case provided_text inflate flags rest of Inl e \<Rightarrow> Inl e | Inr text \<Rightarrow> Inr (Provide text))
       else Inr (UnknownClip flags))"

definition clipboard_caps :: "u32 \<Rightarrow> u32 \<Rightarrow> u32 list \<Rightarrow> bytes" where
  "clipboard_caps formats actions sizes =
    be32 (formats OR actions OR ACTION_CAPS) @ concat (map be32 sizes)"

definition clipboard_flags :: "u32 \<Rightarrow> u32 \<Rightarrow> bytes" where
  "clipboard_flags action formats = be32 (action OR formats)"

definition provide_block :: "str \<Rightarrow> bytes" where
  "provide_block text =
    (let u = utf8 (crlf_to_lf text) in be32 (of_nat (length u + 1)) @ u @ [0])"

definition clipboard_provide_text :: "(bytes \<Rightarrow> bytes) \<Rightarrow> str \<Rightarrow> bytes" where
  "clipboard_provide_text deflate text =
    be32 (ACTION_PROVIDE OR FORMAT_TEXT) @ deflate (provide_block text)"

section \<open>The cursor\<close>

record cursor =
  cbuf :: bytes
  cpos :: nat

definition cursor_new :: "bytes \<Rightarrow> cursor" where
  "cursor_new buf = \<lparr>cbuf = buf, cpos = 0\<rparr>"

definition cur_take :: "nat \<Rightarrow> cursor \<Rightarrow> (bytes \<times> cursor) option" where
  "cur_take n c =
    (if cpos c + n \<le> length (cbuf c)
     then Some (take n (drop (cpos c) (cbuf c)), c\<lparr>cpos := cpos c + n\<rparr>)
     else None)"

definition cur_skip :: "nat \<Rightarrow> cursor \<Rightarrow> (unit \<times> cursor) option" where
  "cur_skip n c = map_option (\<lambda>(_, c). ((), c)) (cur_take n c)"

definition cur_u8 :: "cursor \<Rightarrow> (u8 \<times> cursor) option" where
  "cur_u8 c = map_option (\<lambda>(s, c). (s ! 0, c)) (cur_take 1 c)"

definition cur_u16 :: "cursor \<Rightarrow> (u16 \<times> cursor) option" where
  "cur_u16 c = map_option (\<lambda>(s, c). (from_be16 [s ! 0, s ! 1], c)) (cur_take 2 c)"

definition cur_u32 :: "cursor \<Rightarrow> (u32 \<times> cursor) option" where
  "cur_u32 c = map_option (\<lambda>(s, c). (from_be32 [s ! 0, s ! 1, s ! 2, s ! 3], c)) (cur_take 4 c)"

section \<open>The client parser\<close>

type_synonym 'm client_parser = "cursor \<Rightarrow> error + ('m \<times> nat) option"

text \<open>\<open>need!\<close>: a missing piece returns \<open>Ok(None)\<close> from the whole parser.\<close>

definition need :: "(cursor \<Rightarrow> ('a \<times> cursor) option) \<Rightarrow> ('a \<Rightarrow> 'm client_parser) \<Rightarrow> 'm client_parser" where
  "need f k c = (case f c of Some (v, c') \<Rightarrow> k v c' | None \<Rightarrow> Inr None)"

definition parsed :: "'m \<Rightarrow> 'm client_parser" where
  "parsed m c = Inr (Some (m, cpos c))"

definition refuse :: "error \<Rightarrow> 'm client_parser" where
  "refuse e c = Inl e"

definition parse_set_pixel_format :: "client_message client_parser" where
  "parse_set_pixel_format =
    need (cur_skip 3) (\<lambda>_. need (cur_take PF_WIRE_LEN) (\<lambda>raw.
      case pf_parse raw of Inl e \<Rightarrow> refuse e | Inr pf \<Rightarrow> parsed (SetPixelFormat pf)))"

definition parse_set_encodings :: "client_message client_parser" where
  "parse_set_encodings =
    need (cur_skip 1) (\<lambda>_. need cur_u16 (\<lambda>w.
      let n = unat w in
      if n > MAX_ENCODINGS then refuse (TooLong ''encoding list'' n MAX_ENCODINGS)
      else need (cur_take (n * 4)) (\<lambda>raw. parsed (SetEncodings (map from_be_i32 (chunks 4 raw))))))"

definition parse_update_request :: "client_message client_parser" where
  "parse_update_request =
    need cur_u8 (\<lambda>inc. need cur_u16 (\<lambda>x. need cur_u16 (\<lambda>y. need cur_u16 (\<lambda>w. need cur_u16 (\<lambda>h.
      parsed (FramebufferUpdateRequest (inc \<noteq> 0) x y w h))))))"

definition parse_key_event :: "client_message client_parser" where
  "parse_key_event =
    need cur_u8 (\<lambda>down. need (cur_skip 2) (\<lambda>_. need cur_u32 (\<lambda>keysym.
      parsed (KeyEvent (down \<noteq> 0) keysym))))"

definition parse_pointer_event :: "client_message client_parser" where
  "parse_pointer_event =
    need cur_u8 (\<lambda>buttons. need cur_u16 (\<lambda>x. need cur_u16 (\<lambda>y. parsed (PointerEvent buttons x y))))"

text \<open>\<open>len as i32\<close>, its sign, and \<open>unsigned_abs\<close>.\<close>

definition parse_cut_text :: "(bytes \<Rightarrow> bytes \<times> bool) \<Rightarrow> client_message client_parser" where
  "parse_cut_text inflate =
    need (cur_skip 3) (\<lambda>_. need cur_u32 (\<lambda>len.
      let extended = sint len < 0;
          n = nat \<bar>sint len\<bar> in
      if n > MAX_CUT_TEXT then refuse (TooLong ''cut text'' n MAX_CUT_TEXT)
      else need (cur_take n) (\<lambda>raw.
        if extended then
          (case parse_clipboard inflate raw of
             Inr message \<Rightarrow> parsed (ExtendedClipboard message)
           | Inl why \<Rightarrow> parsed (UnreadableClipboard
               (if length raw < 4 then 0 else from_be32 (take 4 raw)) why))
        else parsed (ClientCutText (latin1_to_string raw)))))"

definition parse_continuous :: "client_message client_parser" where
  "parse_continuous =
    need cur_u8 (\<lambda>en. need cur_u16 (\<lambda>x. need cur_u16 (\<lambda>y. need cur_u16 (\<lambda>w. need cur_u16 (\<lambda>h.
      parsed (EnableContinuousUpdates (en \<noteq> 0) x y w h))))))"

definition parse_fence :: "client_message client_parser" where
  "parse_fence =
    need (cur_skip 3) (\<lambda>_. need cur_u32 (\<lambda>flags. need cur_u8 (\<lambda>l.
      let n = unat l in
      if n > MAX_FENCE_PAYLOAD then refuse (TooLong ''fence payload'' n MAX_FENCE_PAYLOAD)
      else need (cur_take n) (\<lambda>payload. parsed (ClientFence flags payload)))))"

text \<open>\<open>for _ in 0..n\<close>, pushing a screen each time round.\<close>

fun need_screens :: "nat \<Rightarrow> screen list \<Rightarrow> (screen list \<Rightarrow> 'm client_parser) \<Rightarrow> 'm client_parser" where
  "need_screens 0 screens k = k screens"
| "need_screens (Suc n) screens k =
    need cur_u32 (\<lambda>id. need cur_u16 (\<lambda>x. need cur_u16 (\<lambda>y. need cur_u16 (\<lambda>w. need cur_u16 (\<lambda>h.
      need cur_u32 (\<lambda>flags.
        need_screens n (screens @ [\<lparr>scr_id = id, scr_x = x, scr_y = y, scr_width = w, scr_height = h,
                                   scr_flags = flags\<rparr>]) k))))))"

definition parse_desktop_size :: "client_message client_parser" where
  "parse_desktop_size =
    need (cur_skip 1) (\<lambda>_. need cur_u16 (\<lambda>width. need cur_u16 (\<lambda>height. need cur_u8 (\<lambda>l.
      need (cur_skip 1) (\<lambda>_.
        let n = unat l in
        if n > MAX_SCREENS then refuse (TooLong ''screen list'' n MAX_SCREENS)
        else need_screens n [] (\<lambda>screens. parsed (SetDesktopSize width height screens)))))))"

definition parse_qemu :: "client_message client_parser" where
  "parse_qemu =
    need cur_u8 (\<lambda>subtype.
      if subtype = 0 then
        need cur_u16 (\<lambda>down. need cur_u32 (\<lambda>keysym. need cur_u32 (\<lambda>keycode.
          parsed (QemuKeyEvent (down \<noteq> 0) keysym keycode))))
      else refuse (UnknownQemuSubtype subtype))"

definition parse_kind :: "(bytes \<Rightarrow> bytes \<times> bool) \<Rightarrow> u8 \<Rightarrow> client_message client_parser" where
  "parse_kind inflate kind =
    (if kind = CT_SET_PIXEL_FORMAT then parse_set_pixel_format
     else if kind = CT_SET_ENCODINGS then parse_set_encodings
     else if kind = CT_FRAMEBUFFER_UPDATE_REQUEST then parse_update_request
     else if kind = CT_KEY_EVENT then parse_key_event
     else if kind = CT_POINTER_EVENT then parse_pointer_event
     else if kind = CT_CLIENT_CUT_TEXT then parse_cut_text inflate
     else if kind = CT_ENABLE_CONTINUOUS_UPDATES then parse_continuous
     else if kind = CT_CLIENT_FENCE then parse_fence
     else if kind = CT_SET_DESKTOP_SIZE then parse_desktop_size
     else if kind = CT_QEMU then parse_qemu
     else refuse (UnknownMessageType kind))"

definition parse_client ::
  "(bytes \<Rightarrow> bytes \<times> bool) \<Rightarrow> bytes \<Rightarrow> error + (client_message \<times> nat) option" where
  "parse_client inflate buf = need cur_u8 (parse_kind inflate) (cursor_new buf)"

section \<open>Writers\<close>

definition write_server_clipboard :: "bytes \<Rightarrow> bytes" where
  "write_server_clipboard body =
    [ST_SERVER_CUT_TEXT, 0, 0, 0] @ be_i32 (i32 (- i32 (int (length body)))) @ body"

definition write_client_clipboard :: "bytes \<Rightarrow> bytes" where
  "write_client_clipboard body =
    [CT_CLIENT_CUT_TEXT, 0, 0, 0] @ be_i32 (i32 (- i32 (int (length body)))) @ body"

definition write_set_pixel_format :: "pixel_format \<Rightarrow> bytes" where
  "write_set_pixel_format pf = [CT_SET_PIXEL_FORMAT, 0, 0, 0] @ pf_write pf"

definition write_set_encodings :: "int list \<Rightarrow> bytes" where
  "write_set_encodings es =
    [CT_SET_ENCODINGS, 0] @ be16 (of_nat (length es)) @ concat (map be_i32 es)"

definition write_framebuffer_update_request :: "bool \<Rightarrow> u16 \<Rightarrow> u16 \<Rightarrow> u16 \<Rightarrow> u16 \<Rightarrow> bytes" where
  "write_framebuffer_update_request inc x y w h =
    [CT_FRAMEBUFFER_UPDATE_REQUEST, bool_byte inc] @ be16 x @ be16 y @ be16 w @ be16 h"

definition write_key_event :: "bool \<Rightarrow> u32 \<Rightarrow> bytes" where
  "write_key_event down keysym = [CT_KEY_EVENT, bool_byte down, 0, 0] @ be32 keysym"

definition write_pointer_event :: "u8 \<Rightarrow> u16 \<Rightarrow> u16 \<Rightarrow> bytes" where
  "write_pointer_event buttons x y = [CT_POINTER_EVENT, buttons] @ be16 x @ be16 y"

definition write_client_cut_text :: "str \<Rightarrow> bytes" where
  "write_client_cut_text text =
    (let b = string_to_latin1 text in [CT_CLIENT_CUT_TEXT, 0, 0, 0] @ be32 (of_nat (length b)) @ b)"

definition write_enable_continuous_updates :: "bool \<Rightarrow> u16 \<Rightarrow> u16 \<Rightarrow> u16 \<Rightarrow> u16 \<Rightarrow> bytes" where
  "write_enable_continuous_updates en x y w h =
    [CT_ENABLE_CONTINUOUS_UPDATES, bool_byte en] @ be16 x @ be16 y @ be16 w @ be16 h"

definition write_client_fence :: "u32 \<Rightarrow> bytes \<Rightarrow> bytes" where
  "write_client_fence flags payload =
    [CT_CLIENT_FENCE, 0, 0, 0] @ be32 flags @ [of_nat (length payload)] @ payload"

definition write_qemu_key_event :: "bool \<Rightarrow> u32 \<Rightarrow> u32 \<Rightarrow> bytes" where
  "write_qemu_key_event down keysym keycode =
    [CT_QEMU, 0] @ be16 (if down then 1 else 0) @ be32 keysym @ be32 keycode"

definition write_framebuffer_update_header :: "u16 \<Rightarrow> bytes" where
  "write_framebuffer_update_header n = [ST_FRAMEBUFFER_UPDATE, 0] @ be16 n"

definition write_rect_header :: "u16 \<Rightarrow> u16 \<Rightarrow> u16 \<Rightarrow> u16 \<Rightarrow> int \<Rightarrow> bytes" where
  "write_rect_header x y w h encoding = be16 x @ be16 y @ be16 w @ be16 h @ be_i32 encoding"

definition write_bell :: bytes where
  "write_bell = [ST_BELL]"

definition write_server_cut_text :: "str \<Rightarrow> bytes" where
  "write_server_cut_text text =
    (let b = string_to_latin1 text in [ST_SERVER_CUT_TEXT, 0, 0, 0] @ be32 (of_nat (length b)) @ b)"

definition write_end_of_continuous_updates :: bytes where
  "write_end_of_continuous_updates = [ST_END_OF_CONTINUOUS_UPDATES]"

definition write_server_fence :: "u32 \<Rightarrow> bytes \<Rightarrow> bytes" where
  "write_server_fence flags payload =
    [ST_SERVER_FENCE, 0, 0, 0] @ be32 flags @ [of_nat (length payload)] @ payload"

section \<open>The screen list of an ExtendedDesktopSize rectangle\<close>

definition REASON_SERVER :: u16 where "REASON_SERVER = 0"
definition REASON_THIS_CLIENT :: u16 where "REASON_THIS_CLIENT = 1"
definition REASON_OTHER_CLIENT :: u16 where "REASON_OTHER_CLIENT = 2"
definition STATUS_OK :: u16 where "STATUS_OK = 0"
definition STATUS_PROHIBITED :: u16 where "STATUS_PROHIBITED = 1"
definition STATUS_OUT_OF_RESOURCES :: u16 where "STATUS_OUT_OF_RESOURCES = 2"
definition STATUS_INVALID_LAYOUT :: u16 where "STATUS_INVALID_LAYOUT = 3"

definition screen_bytes :: "screen \<Rightarrow> bytes" where
  "screen_bytes s = be32 (scr_id s) @ be16 (scr_x s) @ be16 (scr_y s) @ be16 (scr_width s)
    @ be16 (scr_height s) @ be32 (scr_flags s)"

definition screen_of_bytes :: "bytes \<Rightarrow> screen" where
  "screen_of_bytes b =
    \<lparr>scr_id = from_be32 [b ! 0, b ! 1, b ! 2, b ! 3], scr_x = from_be16 [b ! 4, b ! 5],
     scr_y = from_be16 [b ! 6, b ! 7], scr_width = from_be16 [b ! 8, b ! 9],
     scr_height = from_be16 [b ! 10, b ! 11],
     scr_flags = from_be32 [b ! 12, b ! 13, b ! 14, b ! 15]\<rparr>"

definition write_extended_desktop_size :: "screen list \<Rightarrow> bytes" where
  "write_extended_desktop_size screens =
    [of_nat (length screens), 0, 0, 0] @ concat (map screen_bytes screens)"

definition parse_extended_desktop_size :: "bytes \<Rightarrow> error + (screen list \<times> nat) option" where
  "parse_extended_desktop_size buf =
    (if length buf < 4 then Inr None
     else
       let n = unat (buf ! 0) in
       if n > MAX_SCREENS then Inl (TooLong ''screen list'' n MAX_SCREENS)
       else
         let total = 4 + n * 16 in
         if length buf < total then Inr None
         else Inr (Some (map screen_of_bytes (chunks 16 (take (total - 4) (drop 4 buf))), total)))"

end
