(* ===== verification/Message_Laws.thy ===== *)
theory Message_Laws
  imports Messages
begin

text \<open>
  The laws of the client parser. Three predicates on a parser given a cursor are closed under
  \<open>need\<close>, choices and returns, so that each holds of \<open>parse_client\<close> by applying the rules of the
  collection \<open>parse_ext\<close>: \<open>final\<close> (an answer stands whatever bytes follow, and depends on the
  bytes used only), \<open>waits\<close> (how many bytes may be outstanding), \<open>fails_by\<close> (how early an error
  shows). The writers' round trips follow by evaluation.
\<close>

section \<open>Final answers\<close>

abbreviation cur :: "bytes \<Rightarrow> nat \<Rightarrow> cursor" where
  "cur b q \<equiv> \<lparr>cbuf = b, cpos = q\<rparr>"

definition final :: "'m client_parser \<Rightarrow> bool" where
  "final p \<longleftrightarrow> (\<forall>b q. q \<le> length b \<longrightarrow>
     (\<forall>e t. p (cur b q) = Inl e \<longrightarrow> p (cur (b @ t) q) = Inl e) \<and>
     (\<forall>m n. p (cur b q) = Inr (Some (m, n)) \<longrightarrow>
        q \<le> n \<and> n \<le> length b \<and>
        (\<forall>b'. n \<le> length b' \<longrightarrow> take n b' = take n b \<longrightarrow> p (cur b' q) = Inr (Some (m, n)))))"

definition waits :: "nat \<Rightarrow> 'm client_parser \<Rightarrow> bool" where
  "waits N p \<longleftrightarrow> (\<forall>b q. q \<le> length b \<longrightarrow> p (cur b q) = Inr None \<longrightarrow> length b < q + N)"

definition fails_by :: "nat \<Rightarrow> 'm client_parser \<Rightarrow> bool" where
  "fails_by N p \<longleftrightarrow> (\<forall>b q e. q \<le> length b \<longrightarrow> p (cur b q) = Inl e \<longrightarrow> p (cur (take (q + N) b) q) = Inl e)"

lemma need_take:
  "need (cur_take n) k (cur b q) =
    (if q + n \<le> length b then k (take n (drop q b)) (cur b (q + n)) else Inr None)"
  by (simp add: need_def cur_take_def)

lemma need_skip: "need (cur_skip n) k = need (cur_take n) (\<lambda>_. k ())"
  by (rule ext) (simp add: need_def cur_skip_def cur_take_def)

lemma need_u8: "need cur_u8 k = need (cur_take 1) (\<lambda>s. k (s ! 0))"
  by (rule ext) (simp add: need_def cur_u8_def cur_take_def)

lemma need_u16: "need cur_u16 k = need (cur_take 2) (\<lambda>s. k (from_be16 [s ! 0, s ! 1]))"
  by (rule ext) (simp add: need_def cur_u16_def cur_take_def)

lemma need_u32: "need cur_u32 k = need (cur_take 4) (\<lambda>s. k (from_be32 [s ! 0, s ! 1, s ! 2, s ! 3]))"
  by (rule ext) (simp add: need_def cur_u32_def cur_take_def)

lemmas needs = need_skip need_u8 need_u16 need_u32

lemma slice_append: "q + n \<le> length b \<Longrightarrow> take n (drop q (b @ t)) = take n (drop q b)"
  by (simp add: le_diff_conv2)

lemma slice_front:
  "take m b' = take m b \<Longrightarrow> q + n \<le> m \<Longrightarrow> take n (drop q b') = take n (drop q b)"
proof -
  assume e: "take m b' = take m b" and l: "q + n \<le> m"
  have "take n (drop q (take m c)) = take n (drop q c)" for c :: "'a list"
    using l by (simp add: drop_take)
  then show ?thesis using e by metis
qed

lemma final_parsed [parse_ext]: "final (parsed m)"
  by (simp add: final_def parsed_def)

lemma final_refuse [parse_ext]: "final (refuse e)"
  by (simp add: final_def refuse_def)

lemma final_err: "final p \<Longrightarrow> q \<le> length b \<Longrightarrow> p (cur b q) = Inl e \<Longrightarrow> p (cur (b @ t) q) = Inl e"
  unfolding final_def by blast

lemma final_pos: "final p \<Longrightarrow> q \<le> length b \<Longrightarrow> p (cur b q) = Inr (Some (m, n)) \<Longrightarrow> q \<le> n \<and> n \<le> length b"
  unfolding final_def by blast

lemma final_same:
  "final p \<Longrightarrow> q \<le> length b \<Longrightarrow> p (cur b q) = Inr (Some (m, n)) \<Longrightarrow> n \<le> length b' \<Longrightarrow>
    take n b' = take n b \<Longrightarrow> p (cur b' q) = Inr (Some (m, n))"
  unfolding final_def by blast

lemma final_need [parse_ext]:
  assumes "\<And>v. length v = n \<Longrightarrow> final (k v)"
  shows "final (need (cur_take n) k)"
  unfolding final_def
proof (intro allI impI conjI)
  fix b :: bytes and q assume q: "q \<le> length b"
  let ?v = "take n (drop q b)"
  have f: "final (k ?v)" if "q + n \<le> length b" using assms that by simp
  {
    fix e t assume "need (cur_take n) k (cur b q) = Inl e"
    then have l: "q + n \<le> length b" and e: "k ?v (cur b (q + n)) = Inl e"
      by (simp_all add: need_take split: if_splits)
    show "need (cur_take n) k (cur (b @ t) q) = Inl e"
      unfolding need_take slice_append [OF l] using final_err [OF f [OF l] l e] l by simp
  }
  fix m n' assume "need (cur_take n) k (cur b q) = Inr (Some (m, n'))"
  then have l: "q + n \<le> length b" and r: "k ?v (cur b (q + n)) = Inr (Some (m, n'))"
    by (simp_all add: need_take split: if_splits)
  from final_pos [OF f [OF l] l r] have n': "q + n \<le> n'" "n' \<le> length b" by simp_all
  then show "q \<le> n'" "n' \<le> length b" by simp_all
  fix b' assume b': "n' \<le> length b'" "take n' b' = take n' b"
  show "need (cur_take n) k (cur b' q) = Inr (Some (m, n'))"
    unfolding need_take slice_front [OF b'(2) n'(1)]
    using final_same [OF f [OF l] l r b'] n' b'(1) by simp
qed

lemma final_if [parse_ext]: "(c \<Longrightarrow> final p) \<Longrightarrow> (\<not> c \<Longrightarrow> final r) \<Longrightarrow> final (if c then p else r)"
  by simp

lemma final_sum [parse_ext]:
  "(\<And>e. s = Inl e \<Longrightarrow> final (f e)) \<Longrightarrow> (\<And>v. s = Inr v \<Longrightarrow> final (g v)) \<Longrightarrow> final (case s of Inl e \<Rightarrow> f e | Inr v \<Rightarrow> g v)"
  by (cases s) simp_all

lemma final_screens [parse_ext]: "(\<And>s. final (k s)) \<Longrightarrow> final (need_screens n acc k)"
  by (induction n acc k rule: need_screens.induct) (auto simp: needs intro!: parse_ext)

lemmas client_parser_defs = parse_set_pixel_format_def parse_set_encodings_def parse_update_request_def
  parse_key_event_def parse_pointer_event_def parse_cut_text_def parse_continuous_def parse_fence_def
  parse_desktop_size_def parse_qemu_def

lemma final_kind: "final (parse_kind inflate kind)"
  unfolding parse_kind_def client_parser_defs needs Let_def
  by (intro parse_ext)

lemma final_client: "final (need cur_u8 (parse_kind inflate))"
  unfolding needs by (intro final_need final_kind)

lemma parse_client_run: "parse_client inflate b = need cur_u8 (parse_kind inflate) (cur b 0)"
  by (simp add: parse_client_def cursor_new_def)

lemma parse_client_used: "parse_client inflate b = Inr (Some (m, n)) \<Longrightarrow> 0 < n"
proof -
  assume "parse_client inflate b = Inr (Some (m, n))"
  then have l: "1 \<le> length b" and r: "parse_kind inflate (b ! 0) (cur b 1) = Inr (Some (m, n))"
    by (auto simp: parse_client_run needs need_take nth_append split: if_splits)
  from final_pos [OF final_kind l r] show "0 < n" by simp
qed

lemma parse_client_front:
  assumes "parse_client inflate b = Inr (Some (m, n))"
  shows "0 < n \<and> n \<le> length b \<and> (\<forall>t. parse_client inflate (take n b @ t) = Inr (Some (m, n)))"
proof -
  have r: "need cur_u8 (parse_kind inflate) (cur b 0) = Inr (Some (m, n))"
    using assms by (simp add: parse_client_run)
  have f: "n \<le> length b \<and> (\<forall>b'. n \<le> length b' \<longrightarrow> take n b' = take n b \<longrightarrow>
      need cur_u8 (parse_kind inflate) (cur b' 0) = Inr (Some (m, n)))"
    using final_client [of inflate] r unfolding final_def by fast
  then show ?thesis
    using parse_client_used [OF assms] by (simp add: parse_client_run)
qed

lemma parse_client_ext_err: "parse_client inflate b = Inl e \<Longrightarrow> parse_client inflate (b @ t) = Inl e"
  using final_client [of inflate] unfolding final_def parse_client_run by blast

interpretation client: stream_parser "parse_client inflate" for inflate
  by unfold_locales (use parse_client_front parse_client_ext_err in blast)+

section \<open>How long it waits, how soon it refuses\<close>

named_theorems wait_rules \<open>bounds on outstanding bytes\<close>
named_theorems fail_rules \<open>bounds on where an error shows\<close>

lemma waits_parsed [wait_rules]: "waits N (parsed m)"
  by (simp add: waits_def parsed_def)

lemma waits_refuse [wait_rules]: "waits N (refuse e)"
  by (simp add: waits_def refuse_def)

lemma waits_need [wait_rules]:
  assumes "n \<le> N" "\<And>v. length v = n \<Longrightarrow> waits (N - n) (k v)"
  shows "waits N (need (cur_take n) k)"
  unfolding waits_def
proof (intro allI impI)
  fix b :: bytes and q assume a: "q \<le> length b" "need (cur_take n) k (cur b q) = Inr None"
  show "length b < q + N"
  proof (cases "q + n \<le> length b")
    case True
    then have "waits (N - n) (k (take n (drop q b)))" by (intro assms) simp
    with True a assms(1) show ?thesis by (fastforce simp: need_take waits_def)
  qed (use assms(1) in simp)
qed

lemma waits_if [wait_rules]: "(c \<Longrightarrow> waits N p) \<Longrightarrow> (\<not> c \<Longrightarrow> waits N r) \<Longrightarrow> waits N (if c then p else r)"
  by simp

lemma waits_sum [wait_rules]:
  "(\<And>e. s = Inl e \<Longrightarrow> waits N (f e)) \<Longrightarrow> (\<And>v. s = Inr v \<Longrightarrow> waits N (g v)) \<Longrightarrow> waits N (case s of Inl e \<Rightarrow> f e | Inr v \<Rightarrow> g v)"
  by (cases s) simp_all

lemma waits_screens [wait_rules]:
  "n * 16 \<le> N \<Longrightarrow> (\<And>s. waits (N - n * 16) (k s)) \<Longrightarrow> waits N (need_screens n acc k)"
proof (induction n acc k arbitrary: N rule: need_screens.induct)
  case (2 n acc k)
  show ?case
    unfolding needs need_screens.simps
    by (intro waits_need 2) (use 2 in \<open>auto simp: diff_diff_left add.commute\<close>)
qed simp

lemma waits_kind: "waits 1048583 (parse_kind inflate kind)"
  unfolding parse_kind_def client_parser_defs needs Let_def
  by (intro wait_rules) (auto simp: MAX_ENCODINGS_def MAX_CUT_TEXT_def MAX_FENCE_PAYLOAD_def MAX_SCREENS_def
      PF_WIRE_LEN_def)

lemma parse_client_waits: "parse_client inflate b = Inr None \<Longrightarrow> length b < 8 + MAX_CUT_TEXT"
proof -
  assume "parse_client inflate b = Inr None"
  moreover have "waits 1048584 (need cur_u8 (parse_kind inflate))"
    unfolding needs by (intro waits_need) (simp_all add: waits_kind)
  ultimately show ?thesis
    unfolding waits_def parse_client_run by (fastforce simp: MAX_CUT_TEXT_def)
qed

definition never_fails :: "'m client_parser \<Rightarrow> bool" where
  "never_fails p \<longleftrightarrow> (\<forall>c e. p c \<noteq> Inl e)"

lemma never_parsed [fail_rules]: "never_fails (parsed m)"
  by (simp add: never_fails_def parsed_def)

lemma never_need [fail_rules]: "(\<And>v. length v = n \<Longrightarrow> never_fails (k v)) \<Longrightarrow> never_fails (need (cur_take n) k)"
  by (auto simp: never_fails_def need_def cur_take_def)

lemma never_if [fail_rules]: "(c \<Longrightarrow> never_fails p) \<Longrightarrow> (\<not> c \<Longrightarrow> never_fails r) \<Longrightarrow> never_fails (if c then p else r)"
  by simp

lemma never_sum [fail_rules]:
  "(\<And>e. s = Inl e \<Longrightarrow> never_fails (f e)) \<Longrightarrow> (\<And>v. s = Inr v \<Longrightarrow> never_fails (g v)) \<Longrightarrow>
    never_fails (case s of Inl e \<Rightarrow> f e | Inr v \<Rightarrow> g v)"
  by (cases s) simp_all

lemma never_screens [fail_rules]: "(\<And>s. never_fails (k s)) \<Longrightarrow> never_fails (need_screens n acc k)"
  by (induction n acc k rule: need_screens.induct) (auto simp: needs intro!: fail_rules)

lemma fails_never: "never_fails p \<Longrightarrow> fails_by N p"
  by (simp add: fails_by_def never_fails_def)

lemma fails_refuse: "fails_by N (refuse e)"
  by (simp add: fails_by_def refuse_def)

lemma fails_if: "(c \<Longrightarrow> fails_by N p) \<Longrightarrow> (\<not> c \<Longrightarrow> fails_by N r) \<Longrightarrow> fails_by N (if c then p else r)"
  by simp

lemma fails_need:
  assumes "n \<le> N" "\<And>v. length v = n \<Longrightarrow> fails_by (N - n) (k v)"
  shows "fails_by N (need (cur_take n) k)"
  unfolding fails_by_def
proof (intro allI impI)
  fix b :: bytes and q e assume a: "q \<le> length b" "need (cur_take n) k (cur b q) = Inl e"
  then have l: "q + n \<le> length b" and e: "k (take n (drop q b)) (cur b (q + n)) = Inl e"
    by (simp_all add: need_take split: if_splits)
  have "fails_by (N - n) (k (take n (drop q b)))" using l by (intro assms) simp
  with e l have "k (take n (drop q b)) (cur (take (q + n + (N - n)) b) (q + n)) = Inl e"
    unfolding fails_by_def by blast
  moreover have "take n (drop q (take (q + N) b)) = take n (drop q b)"
    using assms(1) by (simp add: drop_take)
  ultimately show "need (cur_take n) k (cur (take (q + N) b) q) = Inl e"
    using l assms(1) by (simp add: need_take)
qed

lemma fails_pixel_format: "never_fails parse_set_pixel_format"
  unfolding parse_set_pixel_format_def needs PF_WIRE_LEN_def
  by (intro fail_rules) (use pf_parse_total in fastforce)

lemma fails_kind: "fails_by 8 (parse_kind inflate kind)"
proof -
  have "fails_by 8 parse_set_encodings" "fails_by 8 (parse_cut_text inflate)" "fails_by 8 parse_desktop_size"
    "fails_by 8 parse_qemu" "fails_by 8 parse_fence"
    unfolding client_parser_defs needs Let_def
    by (intro fails_need fails_if fails_refuse fails_never fail_rules; simp)+
  moreover have "never_fails parse_update_request" "never_fails parse_key_event" "never_fails parse_pointer_event"
    "never_fails parse_continuous"
    unfolding client_parser_defs needs Let_def by (intro fail_rules)+
  ultimately show ?thesis
    using fails_pixel_format
    unfolding parse_kind_def by (simp add: fails_never fails_refuse)
qed

lemma parse_client_fails: "parse_client inflate b = Inl e \<Longrightarrow> parse_client inflate (take 9 b) = Inl e"
proof -
  assume a: "parse_client inflate b = Inl e"
  have "fails_by 9 (need cur_u8 (parse_kind inflate))"
    unfolding needs by (intro fails_need) (simp_all add: fails_kind)
  with a show ?thesis
    unfolding fails_by_def parse_client_run by force
qed

section \<open>Round trips\<close>

interpretation scr: fixed_codec screen_bytes screen_of_bytes 16 "\<lambda>_. True"
proof
  show "screen_of_bytes (screen_bytes s @ t) = s" for s t
    by (cases s) (simp add: screen_bytes_def screen_of_bytes_def be32_def be16_def from_be32_def from_be16_def
        be32_join be16_join)
qed (simp_all add: screen_bytes_def)

text \<open>The messages that have a writer of their own, and the bytes it appends.\<close>

fun client_bytes :: "client_message \<Rightarrow> bytes" where
  "client_bytes (SetPixelFormat pf) = write_set_pixel_format pf"
| "client_bytes (SetEncodings es) = write_set_encodings es"
| "client_bytes (FramebufferUpdateRequest inc x y w h) = write_framebuffer_update_request inc x y w h"
| "client_bytes (KeyEvent down keysym) = write_key_event down keysym"
| "client_bytes (PointerEvent buttons x y) = write_pointer_event buttons x y"
| "client_bytes (ClientCutText text) = write_client_cut_text text"
| "client_bytes (EnableContinuousUpdates en x y w h) = write_enable_continuous_updates en x y w h"
| "client_bytes (ClientFence flags payload) = write_client_fence flags payload"
| "client_bytes (QemuKeyEvent down keysym keycode) = write_qemu_key_event down keysym keycode"
| "client_bytes _ = []"

fun writable :: "client_message \<Rightarrow> bool" where
  "writable (SetEncodings es) = (length es \<le> MAX_ENCODINGS \<and> list_all in_i32 es)"
| "writable (ClientCutText text) = (length text \<le> MAX_CUT_TEXT)"
| "writable (ClientFence flags payload) = (length payload \<le> MAX_FENCE_PAYLOAD)"
| "writable (ExtendedClipboard _) = False"
| "writable (UnreadableClipboard _ _) = False"
| "writable (SetDesktopSize _ _ _) = False"
| "writable _ = True"

text \<open>What comes back: the message, with what Latin-1 cannot carry turned into question marks.\<close>

fun as_read :: "client_message \<Rightarrow> client_message" where
  "as_read (ClientCutText text) = ClientCutText (map (\<lambda>c. if c < 256 then c else 63) text)"
| "as_read m = m"

lemma from_be_pair [simp]:
  "from_be16 [be16 w ! 0, be16 w ! 1] = w"
  "from_be32 [be32 v ! 0, be32 v ! Suc 0, be32 v ! 2, be32 v ! 3] = v"
  by (simp_all add: from_be16_def from_be32_def be16_def be32_def be16_join be32_join)

lemma nth_eq_byte: "take (Suc 0) (x # t) ! 0 = x"
  by simp

lemmas run_simps = parse_client_run parse_kind_def client_type_defs client_parser_defs needs need_take
  parsed_def refuse_def

lemma read_set_pixel_format:
  "parse_client inflate (write_set_pixel_format pf @ t)
    = Inr (Some (SetPixelFormat pf, length (write_set_pixel_format pf)))"
  by (simp add: run_simps write_set_pixel_format_def PF_WIRE_LEN_def)

lemma read_fixed:
  "parse_client inflate (write_framebuffer_update_request inc x y w h @ t)
    = Inr (Some (FramebufferUpdateRequest inc x y w h, length (write_framebuffer_update_request inc x y w h)))"
  "parse_client inflate (write_key_event down keysym @ t)
    = Inr (Some (KeyEvent down keysym, length (write_key_event down keysym)))"
  "parse_client inflate (write_pointer_event buttons x y @ t)
    = Inr (Some (PointerEvent buttons x y, length (write_pointer_event buttons x y)))"
  "parse_client inflate (write_enable_continuous_updates inc x y w h @ t)
    = Inr (Some (EnableContinuousUpdates inc x y w h, length (write_enable_continuous_updates inc x y w h)))"
  "parse_client inflate (write_qemu_key_event down keysym keycode @ t)
    = Inr (Some (QemuKeyEvent down keysym keycode, length (write_qemu_key_event down keysym keycode)))"
  by (simp_all add: run_simps write_framebuffer_update_request_def write_key_event_def write_pointer_event_def
      write_enable_continuous_updates_def write_qemu_key_event_def)

lemma unat_of_small: "n < 256 \<Longrightarrow> unat (of_nat n :: u8) = n" "m < 65536 \<Longrightarrow> unat (of_nat m :: u16) = m"
  by (simp_all add: unat_of_nat)

lemma read_set_encodings:
  "length es \<le> MAX_ENCODINGS \<Longrightarrow> list_all in_i32 es \<Longrightarrow>
    parse_client inflate (write_set_encodings es @ t) = Inr (Some (SetEncodings es, length (write_set_encodings es)))"
  using bi32.list_width [of es] bi32.list_round_trip [of es]
  by (simp add: run_simps write_set_encodings_def unat_of_small MAX_ENCODINGS_def list_all_iff)

lemma read_client_fence:
  "length payload \<le> MAX_FENCE_PAYLOAD \<Longrightarrow>
    parse_client inflate (write_client_fence flags payload @ t)
      = Inr (Some (ClientFence flags payload, length (write_client_fence flags payload)))"
  by (simp add: run_simps write_client_fence_def unat_of_small MAX_FENCE_PAYLOAD_def)

lemma sint_of_len: "n \<le> 1048576 \<Longrightarrow> sint (of_nat n :: u32) = int n"
  using sint_word_of_i32 [of "int n"] by (simp add: in_i32_def)

lemma read_cut_text:
  "length text \<le> MAX_CUT_TEXT \<Longrightarrow>
    parse_client inflate (write_client_cut_text text @ t)
      = Inr (Some (as_read (ClientCutText text), length (write_client_cut_text text)))"
  by (simp add: run_simps write_client_cut_text_def sint_of_len MAX_CUT_TEXT_def latin1_there_and_back Let_def)

lemma client_round_trip:
  "writable m \<Longrightarrow> parse_client inflate (client_bytes m @ t) = Inr (Some (as_read m, length (client_bytes m)))"
  by (cases m) (simp_all add: read_set_pixel_format read_fixed read_set_encodings read_client_fence read_cut_text
      del: as_read.simps(1))

section \<open>The Extended Clipboard\<close>

lemma sint_of_neg_len: "0 < n \<Longrightarrow> n \<le> 1048576 \<Longrightarrow> sint (word_of_int (i32 (- i32 (int n))) :: u32) = - int n"
  by (simp add: sint_word_of_i32 i32_small in_i32_def del: of_int_minus)

lemma read_client_clipboard:
  assumes "body \<noteq> []" "length body \<le> MAX_CUT_TEXT"
  shows "parse_client inflate (write_client_clipboard body @ t) =
    Inr (Some (case parse_clipboard inflate body of
        Inr m \<Rightarrow> ExtendedClipboard m
      | Inl why \<Rightarrow> UnreadableClipboard (if length body < 4 then 0 else from_be32 (take 4 body)) why,
      length (write_client_clipboard body)))"
  using assms sint_of_neg_len [of "length body"]
  by (cases "parse_clipboard inflate body")
     (simp_all add: run_simps write_client_clipboard_def MAX_CUT_TEXT_def be_i32_def Let_def)

lemma unat_of_len: "n < 4294967296 \<Longrightarrow> unat (of_nat n :: u32) = n"
  by (simp add: unat_of_nat)

lemma read_exact_append: "read_exact (length a) (a @ b, c) = Inr (a, (b, c))"
  by (simp add: read_exact_def)

text \<open>The loop over the format bits when only the text bit is set.\<close>

lemma text_bits: "b \<in> {1..<24} \<Longrightarrow> (ACTION_PROVIDE OR FORMAT_TEXT) AND push_bit b 1 = (0 :: u32)"
proof -
  have "list_all (\<lambda>b. (ACTION_PROVIDE OR FORMAT_TEXT) AND push_bit b 1 = (0 :: u32)) [1..<24]"
    by code_simp
  then show "b \<in> {1..<24} \<Longrightarrow> (ACTION_PROVIDE OR FORMAT_TEXT) AND push_bit b 1 = (0 :: u32)"
    unfolding list_all_iff set_upt by blast
qed

lemma provided_skip:
  "\<forall>b\<in>set bits. flags AND push_bit b 1 = 0 \<Longrightarrow> provided_loop bits flags z budget text = Inr text"
  by (induction bits) simp_all

lemma clipboard_text_block: "str_ok s \<Longrightarrow> clipboard_text (utf8 s @ [0]) = crlf_to_lf s"
  by (simp add: clipboard_text_def)

lemma provide_round_trip:
  assumes "inflate (deflate (provide_block s)) = (provide_block s, c)"
    and "str_ok s" "length (utf8 (crlf_to_lf s)) < MAX_CUT_TEXT"
  shows "parse_clipboard inflate (clipboard_provide_text deflate s)
      = Inr (Provide (Some (crlf_to_lf (crlf_to_lf s))))"
proof -
  let ?u = "utf8 (crlf_to_lf s)"
  let ?flags = "ACTION_PROVIDE OR FORMAT_TEXT"
  let ?L = "be32 (of_nat (length (?u @ [0])))"
  have block: "provide_block s = ?L @ (?u @ [0])" by (simp add: provide_block_def Let_def)
  have len: "unat (of_nat (length (?u @ [0])) :: u32) = length (?u @ [0])"
    using unat_of_len [of "length (?u @ [0])"] assms(3) by (simp add: MAX_CUT_TEXT_def)
  have bits: "[0..<24] = 0 # [1..<24]" by (simp add: upt_conv_Cons)
  have z: "?flags AND push_bit 0 1 \<noteq> 0" "push_bit 0 1 = FORMAT_TEXT" by (simp_all add: clip_defs)
  have "provided_text inflate ?flags (deflate (provide_block s))
      = provided_loop (0 # [1..<24]) ?flags (?L @ (?u @ [0]), c) MAX_CUT_TEXT None"
    unfolding provided_text_def assms(1) by (simp only: bits block)
  also have "\<dots> = provided_loop [1..<24] ?flags ([], c) (MAX_CUT_TEXT - length (?u @ [0]))
      (Some (clipboard_text (?u @ [0])))"
    using read_exact_append [of ?L "?u @ [0]" c] read_exact_append [of "?u @ [0]" "[]" c] z len assms(3)
    by (simp del: upt.simps)
  also have "\<dots> = Inr (Some (crlf_to_lf (crlf_to_lf s)))"
    by (subst provided_skip) (use text_bits assms(2) in \<open>auto simp: clipboard_text_block str_ok_crlf\<close>)
  finally show ?thesis
    by (simp add: parse_clipboard_def clipboard_provide_text_def Let_def clip_defs)
qed

lemma flags_round_trip:
  "formats AND FORMAT_ALL = formats \<Longrightarrow> parse_clipboard inflate (clipboard_flags ACTION_REQUEST formats) = Inr (Request formats)"
  "formats AND FORMAT_ALL = formats \<Longrightarrow> parse_clipboard inflate (clipboard_flags ACTION_PEEK formats) = Inr (Peek formats)"
  "formats AND FORMAT_ALL = formats \<Longrightarrow> parse_clipboard inflate (clipboard_flags ACTION_NOTIFY formats) = Inr (Notify formats)"
proof -
  have m: "(a OR formats) AND ACTION_ALL = a" "(a OR formats) AND FORMAT_ALL = formats"
    if "formats AND FORMAT_ALL = formats" "a \<in> {ACTION_REQUEST, ACTION_PEEK, ACTION_NOTIFY}" for a
  proof -
    have "FORMAT_ALL AND ACTION_ALL = 0" by (simp add: clip_defs)
    then have "formats AND ACTION_ALL = 0" using that(1) by (metis and.assoc and_zero_eq)
    moreover have "a AND ACTION_ALL = a" "a AND FORMAT_ALL = 0" using that(2) by (auto simp: clip_defs)
    ultimately show "(a OR formats) AND ACTION_ALL = a" "(a OR formats) AND FORMAT_ALL = formats"
      using that(1) by (simp_all add: bit.conj_disj_distrib2)
  qed
  have d: "ACTION_REQUEST AND ACTION_CAPS = 0" "ACTION_PEEK AND ACTION_CAPS = 0" "ACTION_NOTIFY AND ACTION_CAPS = 0"
    "ACTION_PEEK \<noteq> ACTION_REQUEST" "ACTION_NOTIFY \<noteq> ACTION_REQUEST" "ACTION_NOTIFY \<noteq> ACTION_PEEK"
    by (simp_all add: clip_defs)
  show "formats AND FORMAT_ALL = formats \<Longrightarrow> parse_clipboard inflate (clipboard_flags ACTION_REQUEST formats) = Inr (Request formats)"
    "formats AND FORMAT_ALL = formats \<Longrightarrow> parse_clipboard inflate (clipboard_flags ACTION_PEEK formats) = Inr (Peek formats)"
    "formats AND FORMAT_ALL = formats \<Longrightarrow> parse_clipboard inflate (clipboard_flags ACTION_NOTIFY formats) = Inr (Notify formats)"
    by (simp_all add: parse_clipboard_def clipboard_flags_def Let_def m d)
qed

lemma mask_and: "(x :: u32) AND m = x \<Longrightarrow> x AND k = x AND (m AND k)"
  by (simp add: and.assoc [symmetric])

lemma caps_round_trip:
  assumes "formats AND FORMAT_ALL = formats" "actions AND ACTION_ALL = actions"
    and "length sizes = count_ones formats"
  shows "parse_clipboard inflate (clipboard_caps formats actions sizes)
      = Inr (Caps formats (actions OR ACTION_CAPS) sizes)"
proof -
  have z: "FORMAT_ALL AND ACTION_ALL = 0" "ACTION_ALL AND FORMAT_EVERY = 0" "FORMAT_ALL AND FORMAT_EVERY = FORMAT_ALL"
    "ACTION_CAPS AND ACTION_ALL = ACTION_CAPS" "ACTION_CAPS AND FORMAT_ALL = 0" "ACTION_CAPS AND FORMAT_EVERY = 0"
    "ACTION_CAPS \<noteq> 0"
    by (simp_all add: clip_defs)
  have f: "formats AND ACTION_ALL = 0" "formats AND FORMAT_EVERY = formats" and
    a: "actions AND FORMAT_ALL = 0" "actions AND FORMAT_EVERY = 0"
    using mask_and [OF assms(1), of ACTION_ALL] mask_and [OF assms(1), of FORMAT_EVERY]
      mask_and [OF assms(2), of FORMAT_ALL] mask_and [OF assms(2), of FORMAT_EVERY] z assms(1)
    by (simp_all add: and.commute)
  let ?flags = "formats OR actions OR ACTION_CAPS"
  have m: "?flags AND FORMAT_ALL = formats" "?flags AND ACTION_ALL = actions OR ACTION_CAPS"
    "?flags AND FORMAT_EVERY = formats"
    using assms f a z by (simp_all add: bit.conj_disj_distrib2)
  have c: "(actions OR ACTION_CAPS) AND ACTION_CAPS \<noteq> 0"
    using z by (simp add: bit.conj_disj_distrib2 or_eq_0_iff)
  show ?thesis
    using b32.list_round_trip [of sizes] b32.list_width [of sizes] assms(3)
    by (simp add: parse_clipboard_def clipboard_caps_def Let_def m c z)
qed

section \<open>The screen list\<close>

lemma desktop_size_round_trip:
  "length screens \<le> MAX_SCREENS \<Longrightarrow>
    parse_extended_desktop_size (write_extended_desktop_size screens @ t)
      = Inr (Some (screens, length (write_extended_desktop_size screens)))"
  using scr.list_width [of screens] scr.list_round_trip [of screens]
  by (simp add: parse_extended_desktop_size_def write_extended_desktop_size_def unat_of_small MAX_SCREENS_def)

interpretation desk: stream_parser parse_extended_desktop_size
proof
  fix b and m :: "screen list" and n
  assume "parse_extended_desktop_size b = Inr (Some (m, n))"
  then have h: "4 \<le> length b" "\<not> unat (b ! 0) > MAX_SCREENS" "n = 4 + unat (b ! 0) * 16" "n \<le> length b"
    "m = map screen_of_bytes (chunks 16 (take (n - 4) (drop 4 b)))"
    by (auto simp: parse_extended_desktop_size_def Let_def split: if_splits)
  then show "0 < n \<and> n \<le> length b \<and> (\<forall>t. parse_extended_desktop_size (take n b @ t) = Inr (Some (m, n)))"
    by (simp add: parse_extended_desktop_size_def nth_append drop_take Let_def)
next
  fix b e t
  assume "parse_extended_desktop_size b = Inl e"
  then show "parse_extended_desktop_size (b @ t) = Inl e"
    by (auto simp: parse_extended_desktop_size_def Let_def nth_append split: if_splits)
qed

end
