(* ===== verification/Auth.thy ===== *)
theory Auth
  imports Utf8
begin

text \<open>
  \<open>alloyvnc-proto/src/auth.rs\<close>: VNC authentication. The DES block cipher is another crate's, so it
  is the parameter \<open>des key block\<close>; the challenge is sixteen random bytes, an argument wherever it
  is used. The laws show which passwords share a key, and that \<open>verify\<close>, for all its
  constant-time folding, accepts exactly the expected response.
\<close>

definition CHALLENGE_LEN :: nat where "CHALLENGE_LEN = 16"
definition RESPONSE_LEN :: nat where "RESPONSE_LEN = 16"
definition KEY_LEN :: nat where "KEY_LEN = 8"

definition reverse_bits :: "u8 \<Rightarrow> u8" where
  "reverse_bits b = word_reverse b"

definition auth_key :: "str \<Rightarrow> bytes" where
  "auth_key password =
    (let k = map reverse_bits (take KEY_LEN (utf8 password)) in k @ replicate (KEY_LEN - length k) 0)"

definition expected_response :: "(bytes \<Rightarrow> bytes \<Rightarrow> bytes) \<Rightarrow> str \<Rightarrow> bytes \<Rightarrow> bytes" where
  "expected_response des password challenge =
    concat (map (des (auth_key password)) (chunks 8 challenge))"

definition verify :: "(bytes \<Rightarrow> bytes \<Rightarrow> bytes) \<Rightarrow> str \<Rightarrow> bytes \<Rightarrow> bytes \<Rightarrow> bool" where
  "verify des password challenge response =
    (fold (\<lambda>(a, b) acc. acc OR (a XOR b)) (zip (expected_response des password challenge) response) 0 = 0)"

section \<open>Keys\<close>

lemma reverse_bits_twice [simp]: "reverse_bits (reverse_bits b) = b"
  by (simp add: reverse_bits_def)

lemma reverse_bits_inj [simp]: "reverse_bits a = reverse_bits b \<longleftrightarrow> a = b"
  by (metis reverse_bits_twice)

lemma length_auth_key [simp]: "length (auth_key p) = KEY_LEN"
  by (simp add: auth_key_def Let_def)

lemma auth_key_eq_iff:
  assumes "0 \<notin> set (utf8 p)" "0 \<notin> set (utf8 q)"
  shows "auth_key p = auth_key q \<longleftrightarrow> take KEY_LEN (utf8 p) = take KEY_LEN (utf8 q)"
proof
  let ?cut = "\<lambda>p. takeWhile (\<lambda>b. b \<noteq> 0) (map reverse_bits (auth_key p))"
  have cut: "?cut r = take KEY_LEN (utf8 r)" if "0 \<notin> set (utf8 r)" for r
  proof -
    have z: "reverse_bits 0 = 0" by (rule bit_word_eqI) (simp add: reverse_bits_def bit_simps)
    have "\<forall>b\<in>set (take KEY_LEN (utf8 r)). b \<noteq> 0" using that in_set_takeD by metis
    moreover have "map reverse_bits (auth_key r)
        = take KEY_LEN (utf8 r) @ replicate (KEY_LEN - length (take KEY_LEN (utf8 r))) 0"
      by (simp add: auth_key_def Let_def z comp_def)
    ultimately show ?thesis
      by (cases "KEY_LEN - length (take KEY_LEN (utf8 r))") (simp_all add: takeWhile_append)
  qed
  assume "auth_key p = auth_key q"
  then show "take KEY_LEN (utf8 p) = take KEY_LEN (utf8 q)" using cut [of p] cut [of q] assms by simp
next
  assume "take KEY_LEN (utf8 p) = take KEY_LEN (utf8 q)"
  then show "auth_key p = auth_key q" by (simp add: auth_key_def)
qed

section \<open>The check\<close>

lemma or_zero_iff: "(a :: u8) OR b = 0 \<longleftrightarrow> a = 0 \<and> b = 0"
proof
  assume z: "a OR b = 0"
  have "\<not> bit a n \<and> \<not> bit b n" for n
    using arg_cong [OF z, of "\<lambda>w. bit w n"] by (simp add: bit_or_iff)
  then show "a = 0 \<and> b = 0" by (intro conjI bit_word_eqI) simp_all
qed simp

lemma xor_zero_iff: "(a :: u8) XOR b = 0 \<longleftrightarrow> a = b"
proof
  assume z: "a XOR b = 0"
  have "bit a n = bit b n" for n
    using arg_cong [OF z, of "\<lambda>w. bit w n"] by (simp add: bit_xor_iff)
  then show "a = b" by (intro bit_word_eqI) simp
qed simp

lemma fold_or_zero:
  "fold (\<lambda>(a, b) acc. acc OR (a XOR b)) ps acc = (0 :: u8) \<longleftrightarrow> acc = 0 \<and> list_all (\<lambda>(a, b). a = b) ps"
proof (induction ps arbitrary: acc)
  case (Cons p ps)
  show ?case by (cases p) (simp add: Cons.IH or_zero_iff xor_zero_iff conj_ac)
qed simp

lemma zip_all_eq: "length xs = length ys \<Longrightarrow> list_all (\<lambda>(a, b). a = b) (zip xs ys) \<longleftrightarrow> xs = ys"
  by (induction xs ys rule: list_induct2) auto

lemma length_expected_response:
  assumes "length challenge = CHALLENGE_LEN" "\<And>k b. length b = 8 \<Longrightarrow> length (des k b) = 8"
  shows "length (expected_response des p challenge) = RESPONSE_LEN"
proof -
  have "chunks 8 challenge = [take 8 challenge, drop 8 challenge]"
    using assms(1) by (simp add: CHALLENGE_LEN_def chunks.simps [of 8 challenge] chunks.simps [of 8 "drop 8 challenge"]
        chunks_short)
  then show ?thesis using assms by (simp add: expected_response_def CHALLENGE_LEN_def RESPONSE_LEN_def)
qed

lemma verify_iff:
  assumes "length challenge = CHALLENGE_LEN" "length response = RESPONSE_LEN"
    and "\<And>k b. length b = 8 \<Longrightarrow> length (des k b) = 8"
  shows "verify des p challenge response \<longleftrightarrow> response = expected_response des p challenge"
  using zip_all_eq [of "expected_response des p challenge" response] length_expected_response [of challenge des p] assms
  by (auto simp: verify_def fold_or_zero)

end
