(* ===== verification/Protocol.thy ===== *)
theory Protocol
  imports Message_Laws Auth
begin

text \<open>
  What the protocol crate promises the session: properties of the client parser, the clipboard
  extension, ServerInit, pixel formats and the password check, each with an instance.
\<close>

section \<open>The client stream\<close>

text \<open>C13. The messages read from a client do not depend on how the byte stream was cut into
  reads: parsing after each read, keeping what is left over, yields the same messages, the same
  error if any and the same leftover bytes as parsing the whole stream at once.\<close>

theorem client_stream_chunking:
  "drain_reads (parse_client inflate) [] rs = drain_msgs (parse_client inflate) (concat rs)"
  using client.reads_do_not_matter [of inflate "[]" rs] by (simp add: run_simps)

text \<open>An accepted message is final and self-delimiting: it used at least one byte and none
  beyond the buffer, every proper prefix of its bytes asks for more instead of failing or reading
  something else, and whatever bytes follow it are left alone.\<close>

theorem client_message_delimited:
  assumes "parse_client inflate b = Inr (Some (m, n))"
  shows "0 < n \<and> n \<le> length b
    \<and> (\<forall>k < n. parse_client inflate (take k b) = Inr None)
    \<and> (\<forall>t. parse_client inflate (take n b @ t) = Inr (Some (m, n)))"
  using client.front [OF assms] client.proper_prefix [OF assms] by blast

theorem client_message_delimited_witness:
  "parse_client (\<lambda>b. (b, False)) [4, 1, 0, 0, 0, 0, 255, 13, 9, 9] = Inr (Some (KeyEvent True 0xFF0D, 8))
   \<and> parse_client (\<lambda>b. (b, False)) [4, 1, 0, 0, 0, 0, 255] = Inr None"
proof -
  have r: "parse_client (\<lambda>b. (b, False)) [4, 1, 0, 0, 0, 0, 255, 13, 9, 9] = Inr (Some (KeyEvent True 0xFF0D, 8))"
    by code_simp
  from client_message_delimited [OF r]
  have "parse_client (\<lambda>b. (b, False)) (take 7 [4, 1, 0, 0, 0, 0, 255, 13, 9, 9]) = Inr None"
    by (elim conjE allE [of _ 7]) simp
  with r show ?thesis by simp
qed

text \<open>A hostile length cannot make a session buffer for ever: more bytes are asked for only
  while fewer than eight bytes and a mebibyte have arrived, and whatever is wrong with a message
  shows within its first nine bytes.\<close>

theorem client_buffer_bounded:
  "(parse_client inflate b = Inr None \<longrightarrow> length b < 8 + MAX_CUT_TEXT)
   \<and> (\<forall>e. parse_client inflate b = Inl e \<longrightarrow> parse_client inflate (take 9 b) = Inl e)"
  using parse_client_waits parse_client_fails by blast

theorem client_buffer_bounded_witness:
  "parse_client (\<lambda>b. (b, False)) ([6, 0, 0, 0, 0, 16, 0, 1] @ replicate 100 0)
     = Inl (TooLong ''cut text'' 1048577 MAX_CUT_TEXT)
   \<and> parse_client (\<lambda>b. (b, False)) [6, 0, 0, 0, 0, 16, 0, 1] = Inl (TooLong ''cut text'' 1048577 MAX_CUT_TEXT)
   \<and> length [6, 0, 0, 0, 0, 16, 0 :: u8] < 8 + MAX_CUT_TEXT"
proof -
  have r: "parse_client (\<lambda>b. (b, False)) ([6, 0, 0, 0, 0, 16, 0, 1] @ replicate 100 0)
     = Inl (TooLong ''cut text'' 1048577 MAX_CUT_TEXT)"
    by (simp add: run_simps from_be32_def MAX_CUT_TEXT_def)
  moreover have "parse_client (\<lambda>b. (b, False)) (take 9 ([6, 0, 0, 0, 0, 16, 0, 1] @ replicate 100 0))
     = Inl (TooLong ''cut text'' 1048577 MAX_CUT_TEXT)"
    using client_buffer_bounded [of "\<lambda>b. (b, False)" "[6, 0, 0, 0, 0, 16, 0, 1] @ replicate 100 0"] r by blast
  moreover have "parse_client (\<lambda>b. (b, False)) [6, 0, 0, 0, 0, 16, 0, 1]
     = Inl (TooLong ''cut text'' 1048577 MAX_CUT_TEXT)"
    by (simp add: run_simps from_be32_def MAX_CUT_TEXT_def)
  moreover have "parse_client (\<lambda>b. (b, False)) [6, 0, 0, 0, 0, 16, 0] = Inr None"
    by (simp add: run_simps)
  ultimately show ?thesis
    using client_buffer_bounded [of "\<lambda>b. (b, False)" "[6, 0, 0, 0, 0, 16, 0]"] by blast
qed

text \<open>C26. Every client message with a writer is read back as it was written, using exactly the
  bytes written whatever follows them, within the limits on lists and lengths; cut text comes
  back with what Latin-1 cannot carry turned into question marks.\<close>

theorem client_messages_round_trip:
  assumes "writable m"
  shows "parse_client inflate (client_bytes m @ t) = Inr (Some (as_read m, length (client_bytes m)))"
  using assms by (rule client_round_trip)

theorem client_messages_round_trip_witness:
  "parse_client (\<lambda>b. (b, False)) (write_set_encodings [7, 16, 0, - 239, - 313] @ [9, 9, 9])
     = Inr (Some (SetEncodings [7, 16, 0, - 239, - 313], 24))
   \<and> parse_client (\<lambda>b. (b, False)) (write_client_cut_text [104, 233, 10003] @ [1])
     = Inr (Some (ClientCutText [104, 233, 63], 11))"
  using client_messages_round_trip [of "SetEncodings [7, 16, 0, - 239, - 313]" "\<lambda>b. (b, False)" "[9, 9, 9]"]
    client_messages_round_trip [of "ClientCutText [104, 233, 10003]" "\<lambda>b. (b, False)" "[1]"]
  by (simp add: MAX_ENCODINGS_def MAX_CUT_TEXT_def in_i32_def write_set_encodings_def write_client_cut_text_def
      Let_def)

section \<open>The Extended Clipboard\<close>

text \<open>Text sent as an Extended Clipboard provide, wrapped in a cut-text message of negative
  length, arrives as that text with its line ends turned into LF (twice: once by the writer, once
  by the reader), as long as the compressed body and the text stay under the mebibyte limit. That
  inflating gives back what was deflated is zlib's contract.\<close>

theorem clipboard_text_round_trip:
  assumes zlib: "inflate (deflate (provide_block s)) = (provide_block s, c)"
    and "str_ok s" and "length (utf8 (crlf_to_lf s)) < MAX_CUT_TEXT"
    and "length (clipboard_provide_text deflate s) \<le> MAX_CUT_TEXT"
  shows "parse_client inflate (write_client_clipboard (clipboard_provide_text deflate s) @ t)
    = Inr (Some (ExtendedClipboard (Provide (Some (crlf_to_lf (crlf_to_lf s)))),
        length (write_client_clipboard (clipboard_provide_text deflate s))))"
proof -
  have "clipboard_provide_text deflate s \<noteq> []" by (simp add: clipboard_provide_text_def be32_def)
  from read_client_clipboard [OF this assms(4)] show ?thesis
    by (simp add: provide_round_trip [where c = c] assms(1-3))
qed

theorem clipboard_text_round_trip_witness:
  "parse_client (\<lambda>b. (rev b, False)) (write_client_clipboard (clipboard_provide_text rev [104, 10003, 13, 10]) @ [7])
    = Inr (Some (ExtendedClipboard (Provide (Some [104, 10003, 10])), 22))"
proof -
  let ?s = "[104, 10003, 13, 10]"
  have "str_ok ?s" "length (utf8 (crlf_to_lf ?s)) < MAX_CUT_TEXT"
    "length (clipboard_provide_text rev ?s) \<le> MAX_CUT_TEXT" "length (clipboard_provide_text rev ?s) = 14"
    by (simp_all add: str_ok_def scalar_def utf8_def utf8_char_def MAX_CUT_TEXT_def clipboard_provide_text_def
        provide_block_def Let_def)
  with clipboard_text_round_trip [of "\<lambda>b. (rev b, False)" rev ?s False "[7]"]
  show ?thesis by (simp add: write_client_clipboard_def)
qed

section \<open>Opening a session\<close>

text \<open>ServerInit is read back as it was written whatever follows it, when its name fits the
  4096-byte limit; a longer name arrives as what decoding its first 4096 bytes gives.\<close>

theorem server_init_read_back:
  "server_init_parse (server_init_write si @ t)
    = Inr (Some (si\<lparr>si_name := utf8_lossy (take MAX_NAME (utf8 (si_name si)))\<rparr>, length (server_init_write si)))
   \<and> (str_ok (si_name si) \<and> length (utf8 (si_name si)) \<le> MAX_NAME
      \<longrightarrow> utf8_lossy (take MAX_NAME (utf8 (si_name si))) = si_name si)"
  using server_init_parse_write by simp

theorem server_init_read_back_witness:
  "server_init_parse (server_init_write
      \<lparr>si_width = 1280, si_height = 720, si_pixel_format = bgrx32, si_name = [100, 101, 10003]\<rparr> @ [1, 2])
    = Inr (Some (\<lparr>si_width = 1280, si_height = 720, si_pixel_format = bgrx32, si_name = [100, 101, 10003]\<rparr>, 29))"
  using server_init_read_back [of
      "\<lparr>si_width = 1280, si_height = 720, si_pixel_format = bgrx32, si_name = [100, 101, 10003]\<rparr>" "[1, 2]"]
  by (simp add: str_ok_def scalar_def utf8_def utf8_char_def MAX_NAME_def server_init_write_def Let_def)

text \<open>A pixel format is accepted exactly when it is true-colour, 8, 16 or 32 bits wide with a
  depth no larger, and each channel is a non-empty run of ones that ends inside the pixel.\<close>

theorem pixel_format_validated:
  "pf_validate pf = Inr () \<longleftrightarrow>
    true_colour pf \<and> bits_per_pixel pf \<in> {8, 16, 32} \<and> depth pf \<le> bits_per_pixel pf
    \<and> list_all (channel_fits (bits_per_pixel pf))
        [(red_max pf, red_shift pf), (green_max pf, green_shift pf), (blue_max pf, blue_shift pf)]"
  using pf_validate_ok by simp

text \<open>The constant-time comparison accepts exactly the response a client holding the password
  computes, whatever the block cipher, as long as it maps eight-byte blocks to eight-byte blocks;
  and two passwords without a zero byte have the same key exactly when their first eight bytes
  agree.\<close>

theorem password_checked:
  assumes des: "\<And>k b. length b = 8 \<Longrightarrow> length (des k b) = 8"
    and "length challenge = CHALLENGE_LEN" and "length response = RESPONSE_LEN"
    and "0 \<notin> set (utf8 p)" and "0 \<notin> set (utf8 q)"
  shows "(verify des p challenge response \<longleftrightarrow> response = expected_response des p challenge)
    \<and> (auth_key p = auth_key q \<longleftrightarrow> take KEY_LEN (utf8 p) = take KEY_LEN (utf8 q))"
  using verify_iff [where des = des, OF assms(2,3)] des auth_key_eq_iff [OF assms(4,5)] by blast

theorem password_checked_witness:
  "verify (\<lambda>k b. if length k = 8 then map2 (XOR) k b else b) [97] (replicate 16 1)
     [0x87, 1, 1, 1, 1, 1, 1, 1, 0x87, 1, 1, 1, 1, 1, 1, 1]
   \<and> auth_key [97] \<noteq> auth_key [98]"
proof -
  let ?des = "\<lambda>k b :: bytes. if length k = 8 then map2 (XOR) k b else b"
  let ?r = "[0x87, 1, 1, 1, 1, 1, 1, 1, 0x87, 1, 1, 1, 1, 1, 1, 1] :: bytes"
  have d: "\<And>k b. length b = 8 \<Longrightarrow> length (?des k b) = 8" by simp
  have "expected_response ?des [97] (replicate 16 1) = ?r" by code_simp
  moreover have "take KEY_LEN (utf8 [97]) \<noteq> take KEY_LEN (utf8 [98])" "0 \<notin> set (utf8 [97])" "0 \<notin> set (utf8 [98])"
    by (simp_all add: utf8_def utf8_char_def KEY_LEN_def)
  ultimately show ?thesis
    using password_checked [of ?des "replicate 16 1" ?r "[97]" "[98]", OF d]
    by (simp add: CHALLENGE_LEN_def RESPONSE_LEN_def)
qed

end
