(* ===== verification/Flow.thy ===== *)
theory Flow
  imports Prelude
begin

text \<open>
  \<open>alloyvnc/src/flow.rs\<close>: one client's congestion window. A \<open>Duration\<close> and an \<open>Instant\<close> are
  nanoseconds on one clock (\<open>nat\<close>, so that \<open>saturating_sub\<close> and \<open>saturating_duration_since\<close> are the
  subtraction of \<open>nat\<close>); the \<open>u64\<close> counters are \<open>nat\<close> with the wrap-around of the release build
  written out in \<open>add64\<close>.

  The operations, then the step relation of a session driving them: updates only when \<open>may_send\<close>
  allows, round trips only when \<open>ping_due\<close> asks for one, echoes and expiries at any time. The
  invariant of its reachable states gives the properties: the window stays between its two ends,
  at most three round trips are open and they are kept in order, what is acknowledged was written,
  and the bytes in flight never pass the largest window by more than one update.
\<close>

section \<open>State\<close>

definition add64 :: "nat \<Rightarrow> nat \<Rightarrow> nat" where
  "add64 a b = (a + b) mod 2 ^ 64"

definition MINIMUM_WINDOW :: nat where "MINIMUM_WINDOW = 16 * 1024"
definition MAXIMUM_WINDOW :: nat where "MAXIMUM_WINDOW = 4 * 1024 * 1024"

definition millis :: "nat \<Rightarrow> nat" where "millis n = n * 1000000"
definition secs :: "nat \<Rightarrow> nat" where "secs n = n * 1000000000"

definition CLEAR :: nat where "CLEAR = millis 25"
definition QUEUED :: nat where "QUEUED = millis 100"
definition MAX_OUTSTANDING :: nat where "MAX_OUTSTANDING = 3"
definition PING_BYTES :: nat where "PING_BYTES = 16 * 1024"
definition PING_INTERVAL :: nat where "PING_INTERVAL = millis 100"
definition PING_TIMEOUT :: nat where "PING_TIMEOUT = secs 5"
definition BASE_LIFETIME :: nat where "BASE_LIFETIME = secs 60"

record limits =
  initial_window :: nat
  growth :: nat

definition default_limits :: limits where
  "default_limits = \<lparr>initial_window = 64 * 1024, growth = 4 * 1024\<rparr>"

record ping =
  p_seq :: nat
  p_at_bytes :: nat
  p_at :: nat

record congestion =
  c_measured :: bool
  c_limits :: limits
  c_window :: nat
  c_written :: nat
  c_acked :: nat
  c_last_update :: nat
  c_pings :: "ping list"
  c_next_seq :: nat
  c_last_ping :: "nat option"
  c_last_ping_bytes :: nat
  c_base :: "(nat \<times> nat) option"
  c_rtt :: "nat option"
  c_lost :: nat

definition clamp :: "nat \<Rightarrow> nat \<Rightarrow> nat \<Rightarrow> nat" where
  "clamp x lo hi = (if x < lo then lo else if x > hi then hi else x)"

section \<open>Operations\<close>

definition congestion_new :: "limits \<Rightarrow> congestion" where
  "congestion_new limits =
    \<lparr>c_measured = False, c_limits = limits,
     c_window = clamp (initial_window limits) MINIMUM_WINDOW MAXIMUM_WINDOW,
     c_written = 0, c_acked = 0, c_last_update = 0, c_pings = [], c_next_seq = 1,
     c_last_ping = None, c_last_ping_bytes = 0, c_base = None, c_rtt = None, c_lost = 0\<rparr>"

definition measure_link :: "congestion \<Rightarrow> congestion" where
  "measure_link c = c\<lparr>c_measured := True\<rparr>"

definition in_flight :: "congestion \<Rightarrow> nat" where
  "in_flight c = c_written c - c_acked c"

definition base_rtt :: "congestion \<Rightarrow> nat option" where
  "base_rtt c = map_option fst (c_base c)"

definition outstanding :: "congestion \<Rightarrow> nat" where
  "outstanding c = length (c_pings c)"

definition may_send :: "congestion \<Rightarrow> bool" where
  "may_send c =
    (if \<not> c_measured c then True
     else (let flight = in_flight c in flight = 0 \<or> add64 flight (c_last_update c) \<le> c_window c))"

definition wrote :: "nat \<Rightarrow> congestion \<Rightarrow> congestion" where
  "wrote n c = c\<lparr>c_written := add64 (c_written c) n, c_last_update := n\<rparr>"

definition ping_due :: "nat \<Rightarrow> congestion \<Rightarrow> bool" where
  "ping_due now c =
    (if \<not> c_measured c \<or> length (c_pings c) \<ge> MAX_OUTSTANDING then False
     else (c_written c - c_last_ping_bytes c \<ge> PING_BYTES
           \<or> (case c_last_ping c of None \<Rightarrow> True | Some t \<Rightarrow> now - t \<ge> PING_INTERVAL)))"

definition ping_send :: "nat \<Rightarrow> congestion \<Rightarrow> nat \<times> congestion" where
  "ping_send now c =
    (let s = c_next_seq c in
     (s, c\<lparr>c_next_seq := add64 (c_next_seq c) 1,
           c_pings := c_pings c @ [\<lparr>p_seq = s, p_at_bytes = c_written c, p_at = now\<rparr>],
           c_last_ping := Some now,
           c_last_ping_bytes := c_written c\<rparr>))"

text \<open>\<open>resize\<close>: one measurement moves the window a step up, halves it or leaves it alone.\<close>

definition window_resize :: "nat \<Rightarrow> congestion \<Rightarrow> congestion" where
  "window_resize sample c =
    (let base = (case c_base c of None \<Rightarrow> sample | Some (d, _) \<Rightarrow> d);
         over = sample - base;
         w = (if over < CLEAR then add64 (c_window c) (growth (c_limits c))
              else if over > QUEUED then c_window c div 2
              else c_window c) in
     c\<lparr>c_window := clamp w MINIMUM_WINDOW MAXIMUM_WINDOW\<rparr>)"

text \<open>\<open>position\<close> and \<open>drain(..=position).next_back()\<close>: the queue is cut after the first round trip
  with the number echoed.\<close>

fun take_ping :: "nat \<Rightarrow> ping list \<Rightarrow> (ping \<times> ping list) option" where
  "take_ping s [] = None"
| "take_ping s (p # ps) = (if p_seq p = s then Some (p, ps) else take_ping s ps)"

definition pong :: "nat \<Rightarrow> nat \<Rightarrow> congestion \<Rightarrow> bool \<times> congestion" where
  "pong s now c =
    (case take_ping s (c_pings c) of
       None \<Rightarrow> (False, c)
     | Some (p, rest) \<Rightarrow>
         let sample = now - p_at p;
             c1 = c\<lparr>c_pings := rest, c_acked := max (c_acked c) (p_at_bytes p),
                    c_rtt := Some (case c_rtt c of Some old \<Rightarrow> (old * 7 + sample) div 8 | None \<Rightarrow> sample)\<rparr>;
             stale = (case c_base c1 of None \<Rightarrow> True
                      | Some (d, at) \<Rightarrow> sample < d \<or> now - at > BASE_LIFETIME);
             c2 = (if stale then c1\<lparr>c_base := Some (sample, now)\<rparr> else c1) in
         (True, window_resize sample c2))"

fun expire_pings :: "nat \<Rightarrow> ping list \<Rightarrow> nat \<Rightarrow> ping list \<times> nat" where
  "expire_pings now [] lost = ([], lost)"
| "expire_pings now (p # ps) lost =
    (if now - p_at p \<le> PING_TIMEOUT then (p # ps, lost) else expire_pings now ps (add64 lost 1))"

definition expire :: "nat \<Rightarrow> congestion \<Rightarrow> congestion" where
  "expire now c =
    (case expire_pings now (c_pings c) (c_lost c) of (ps, lost) \<Rightarrow> c\<lparr>c_pings := ps, c_lost := lost\<rparr>)"

section \<open>What each operation does\<close>

lemma clamp_range: "lo \<le> hi \<Longrightarrow> lo \<le> clamp x lo hi \<and> clamp x lo hi \<le> hi"
  by (simp add: clamp_def)

lemma window_limits: "MINIMUM_WINDOW \<le> MAXIMUM_WINDOW"
  by (simp add: MINIMUM_WINDOW_def MAXIMUM_WINDOW_def)

lemma add64_small: "a + b < 2 ^ 64 \<Longrightarrow> add64 a b = a + b"
  by (simp add: add64_def)

lemma take_ping_split:
  "take_ping s ps = Some (p, rest) \<longleftrightarrow>
    (\<exists>older. ps = older @ p # rest \<and> p_seq p = s \<and> s \<notin> p_seq ` set older)"
proof (induction ps)
  case (Cons q ps)
  show ?case
  proof (cases "p_seq q = s")
    case True
    then show ?thesis by (auto simp: Cons_eq_append_conv)
  next
    case False
    with Cons.IH show ?thesis by (auto simp: Cons_eq_append_conv)
  qed
qed simp

lemma take_ping_None: "take_ping s ps = None \<longleftrightarrow> s \<notin> p_seq ` set ps"
  by (induction ps) auto

lemma expire_suffix: "\<exists>dropped. ps = dropped @ fst (expire_pings now ps lost)"
proof (induction now ps lost rule: expire_pings.induct)
  case (2 now p ps lost)
  show ?case
  proof (cases "now - p_at p \<le> PING_TIMEOUT")
    case False
    with 2 obtain dropped where "ps = dropped @ fst (expire_pings now ps (add64 lost 1))" by blast
    then have "p # ps = (p # dropped) @ fst (expire_pings now (p # ps) lost)" using False by simp
    then show ?thesis by blast
  qed simp
qed simp

lemma window_resize_keeps [simp]:
  "c_pings (window_resize s c) = c_pings c" "c_acked (window_resize s c) = c_acked c"
  "c_written (window_resize s c) = c_written c" "c_measured (window_resize s c) = c_measured c"
  "c_last_update (window_resize s c) = c_last_update c" "c_next_seq (window_resize s c) = c_next_seq c"
  "c_last_ping_bytes (window_resize s c) = c_last_ping_bytes c"
  "c_limits (window_resize s c) = c_limits c"
  by (simp_all add: window_resize_def Let_def)

lemma window_resize_range:
  "MINIMUM_WINDOW \<le> c_window (window_resize s c) \<and> c_window (window_resize s c) \<le> MAXIMUM_WINDOW"
  using clamp_range [OF window_limits] by (simp add: window_resize_def Let_def)

text \<open>How the window moves, on every branch, with a growth that cannot wrap.\<close>

lemma window_resize_moves:
  assumes "MINIMUM_WINDOW \<le> c_window c" "c_window c \<le> MAXIMUM_WINDOW" "growth (c_limits c) < 2 ^ 63"
    and "over = sample - (case c_base c of None \<Rightarrow> sample | Some (d, _) \<Rightarrow> d)"
  shows "c_window (window_resize sample c) =
    (if over < CLEAR then min (c_window c + growth (c_limits c)) MAXIMUM_WINDOW
     else if over > QUEUED then max (c_window c div 2) MINIMUM_WINDOW
     else c_window c)"
proof -
  have "add64 (c_window c) (growth (c_limits c)) = c_window c + growth (c_limits c)"
    using assms by (intro add64_small) (simp add: MAXIMUM_WINDOW_def)
  then show ?thesis
    using assms unfolding window_resize_def Let_def clamp_def min_def max_def
    by (auto simp: MAXIMUM_WINDOW_def MINIMUM_WINDOW_def)
qed

section \<open>A session driving it\<close>

text \<open>What \<open>send_next\<close> of \<open>session.rs\<close> does with an update of \<open>n\<close> bytes: count it, then start a round
  trip when one is due. This is the only place a round trip is started.\<close>

definition update_sent :: "nat \<Rightarrow> nat \<Rightarrow> congestion \<Rightarrow> congestion" where
  "update_sent n now c =
    (let c1 = wrote n c in if ping_due now c1 then snd (ping_send now c1) else c1)"

text \<open>Every way a session touches the window. A control message is counted whatever the window
  says. No session writes \<open>2 ^ 63\<close> bytes or starts \<open>2 ^ 64\<close> round trips.\<close>

inductive flow_step :: "congestion \<Rightarrow> congestion \<Rightarrow> bool" where
  fs_update: "may_send c \<Longrightarrow> c_written c + n < 2 ^ 63 \<Longrightarrow> c_next_seq c + 1 < 2 ^ 64 \<Longrightarrow>
    flow_step c (update_sent n now c)"
| fs_control: "c_written c + n < 2 ^ 63 \<Longrightarrow> flow_step c (wrote n c)"
| fs_pong: "flow_step c (snd (pong s now c))"
| fs_expire: "flow_step c (expire now c)"
| fs_measure: "flow_step c (measure_link c)"

inductive flow_reach :: "limits \<Rightarrow> congestion \<Rightarrow> bool" for l where
  reach_new: "flow_reach l (congestion_new l)"
| reach_step: "flow_reach l c \<Longrightarrow> flow_step c c' \<Longrightarrow> flow_reach l c'"

inductive_cases flow_stepE: "flow_step c c'"

definition pings_ok :: "nat \<Rightarrow> nat \<Rightarrow> nat \<Rightarrow> ping list \<Rightarrow> bool" where
  "pings_ok acked written next ps \<longleftrightarrow>
    sorted_wrt (\<lambda>p q. p_seq p < p_seq q \<and> p_at_bytes p \<le> p_at_bytes q) ps
    \<and> (\<forall>p\<in>set ps. p_seq p < next \<and> acked \<le> p_at_bytes p \<and> p_at_bytes p \<le> written)"

definition flow_inv :: "congestion \<Rightarrow> bool" where
  "flow_inv c \<longleftrightarrow>
    MINIMUM_WINDOW \<le> c_window c \<and> c_window c \<le> MAXIMUM_WINDOW
    \<and> c_acked c \<le> c_written c \<and> c_written c < 2 ^ 63 \<and> c_last_ping_bytes c \<le> c_written c
    \<and> c_last_update c \<le> c_written c
    \<and> c_next_seq c < 2 ^ 64
    \<and> length (c_pings c) \<le> MAX_OUTSTANDING
    \<and> pings_ok (c_acked c) (c_written c) (c_next_seq c) (c_pings c)"

lemma pings_ok_suffix: "pings_ok a w n (xs @ ys) \<Longrightarrow> pings_ok a w n ys"
  by (auto simp: pings_ok_def sorted_wrt_append)

lemma pings_ok_more: "pings_ok a w n ps \<Longrightarrow> w \<le> w' \<Longrightarrow> n \<le> n' \<Longrightarrow> pings_ok a w' n' ps"
  by (fastforce simp: pings_ok_def)

lemma pings_ok_snoc:
  "pings_ok a w n ps \<Longrightarrow> a \<le> w \<Longrightarrow> pings_ok a w (n + 1) (ps @ [\<lparr>p_seq = n, p_at_bytes = w, p_at = t\<rparr>])"
  by (fastforce simp: pings_ok_def sorted_wrt_append)

lemma pings_ok_ack:
  "pings_ok a w n (older @ p # rest) \<Longrightarrow> max a (p_at_bytes p) = p_at_bytes p \<and> pings_ok (p_at_bytes p) w n rest"
  by (auto simp: pings_ok_def sorted_wrt_append max_def)

lemma flow_inv_new: "flow_inv (congestion_new l)"
  using clamp_range [OF window_limits] by (simp add: flow_inv_def congestion_new_def pings_ok_def)

lemma flow_inv_wrote:
  assumes "flow_inv c" "c_written c + n < 2 ^ 63" shows "flow_inv (wrote n c)"
proof -
  have "add64 (c_written c) n = c_written c + n" using assms(2) by (simp add: add64_small)
  then show ?thesis
    using assms pings_ok_more [of "c_acked c" "c_written c" "c_next_seq c" "c_pings c" "c_written c + n" "c_next_seq c"]
    by (simp add: flow_inv_def wrote_def)
qed

lemma flow_inv_ping:
  assumes "flow_inv c" "ping_due now c" "c_next_seq c + 1 < 2 ^ 64"
  shows "flow_inv (snd (ping_send now c))"
proof -
  have "add64 (c_next_seq c) 1 = c_next_seq c + 1" using assms(3) by (rule add64_small)
  moreover have "length (c_pings c) < MAX_OUTSTANDING" using assms(2) by (simp add: ping_due_def split: if_splits)
  ultimately show ?thesis
    using assms(1,3) pings_ok_snoc [of "c_acked c" "c_written c" "c_next_seq c" "c_pings c" now]
    by (simp add: flow_inv_def ping_send_def Let_def)
qed

lemma flow_inv_update:
  assumes "flow_inv c" "c_written c + n < 2 ^ 63" "c_next_seq c + 1 < 2 ^ 64"
  shows "flow_inv (update_sent n now c)"
proof -
  have w: "flow_inv (wrote n c)" using assms(1,2) by (rule flow_inv_wrote)
  have "c_next_seq (wrote n c) = c_next_seq c" by (simp add: wrote_def)
  with flow_inv_ping [OF w] w assms(3) show ?thesis by (simp add: update_sent_def Let_def)
qed

lemma pong_unknown: "s \<notin> p_seq ` set (c_pings c) \<Longrightarrow> pong s now c = (False, c)"
  by (simp add: pong_def take_ping_None [symmetric])

lemma pong_known:
  assumes "flow_inv c" "c_pings c = older @ p # rest" "p_seq p = s" "s \<notin> p_seq ` set older"
  shows "fst (pong s now c) \<and> c_pings (snd (pong s now c)) = rest
    \<and> c_acked (snd (pong s now c)) = p_at_bytes p
    \<and> c_written (snd (pong s now c)) = c_written c
    \<and> c_measured (snd (pong s now c)) = c_measured c
    \<and> c_next_seq (snd (pong s now c)) = c_next_seq c
    \<and> c_last_ping_bytes (snd (pong s now c)) = c_last_ping_bytes c
    \<and> c_last_update (snd (pong s now c)) = c_last_update c
    \<and> MINIMUM_WINDOW \<le> c_window (snd (pong s now c)) \<and> c_window (snd (pong s now c)) \<le> MAXIMUM_WINDOW"
proof -
  have "take_ping s (c_pings c) = Some (p, rest)"
    using assms take_ping_split by blast
  moreover have "max (c_acked c) (p_at_bytes p) = p_at_bytes p"
    using assms pings_ok_ack unfolding flow_inv_def by metis
  ultimately show ?thesis
    using window_resize_range by (simp add: pong_def Let_def)
qed

lemma first_of_seq:
  "s \<in> p_seq ` set ps \<Longrightarrow> \<exists>older p rest. ps = older @ p # rest \<and> p_seq p = s \<and> s \<notin> p_seq ` set older"
  using split_list_first_prop [of ps "\<lambda>p. p_seq p = s"] by fastforce

lemma flow_inv_pong:
  assumes "flow_inv c" shows "flow_inv (snd (pong s now c))"
proof (cases "s \<in> p_seq ` set (c_pings c)")
  case True
  then obtain older p rest where p: "c_pings c = older @ p # rest" "p_seq p = s" "s \<notin> p_seq ` set older"
    using first_of_seq by blast
  have ok: "pings_ok (c_acked c) (c_written c) (c_next_seq c) (older @ p # rest)"
    and len: "length (older @ p # rest) \<le> MAX_OUTSTANDING"
    using assms p(1) unfolding flow_inv_def by simp_all
  have "pings_ok (p_at_bytes p) (c_written c) (c_next_seq c) rest" using pings_ok_ack [OF ok] ..
  moreover have "p_at_bytes p \<le> c_written c" using ok by (simp add: pings_ok_def)
  ultimately show ?thesis
    using pong_known [OF assms p, of now] assms len by (simp add: flow_inv_def)
qed (use assms pong_unknown in simp)

lemma flow_inv_expire:
  assumes "flow_inv c" shows "flow_inv (expire now c)"
proof -
  obtain dropped where d: "c_pings c = dropped @ fst (expire_pings now (c_pings c) (c_lost c))"
    using expire_suffix by blast
  let ?ps = "fst (expire_pings now (c_pings c) (c_lost c))"
  have "pings_ok (c_acked c) (c_written c) (c_next_seq c) ?ps"
    using assms d pings_ok_suffix unfolding flow_inv_def by metis
  moreover have "length ?ps \<le> length (c_pings c)" using d by (metis length_append le_add2)
  ultimately show ?thesis
    using assms by (cases "expire_pings now (c_pings c) (c_lost c)") (simp add: flow_inv_def expire_def)
qed

lemma flow_inv_step: "flow_step c c' \<Longrightarrow> flow_inv c \<Longrightarrow> flow_inv c'"
  by (induction rule: flow_step.induct)
     (simp_all add: flow_inv_update flow_inv_wrote flow_inv_pong flow_inv_expire, simp add: flow_inv_def measure_link_def)

lemma flow_inv_reach: "flow_reach l c \<Longrightarrow> flow_inv c"
  by (induction rule: flow_reach.induct) (simp_all add: flow_inv_new flow_inv_step)

section \<open>How much may be in flight\<close>

lemma in_flight_wrote:
  "flow_inv c \<Longrightarrow> c_written c + n < 2 ^ 63 \<Longrightarrow> in_flight (wrote n c) = in_flight c + n"
  by (simp add: flow_inv_def in_flight_def wrote_def add64_small)

lemma in_flight_update: "in_flight (update_sent n now c) = in_flight (wrote n c)"
  by (simp add: update_sent_def ping_send_def in_flight_def Let_def)

lemma no_wrap: "flow_inv c \<Longrightarrow> add64 (in_flight c) (c_last_update c) = in_flight c + c_last_update c"
  by (rule add64_small) (auto simp: flow_inv_def in_flight_def)

lemma may_send_room: "flow_inv c \<Longrightarrow> c_measured c \<Longrightarrow> may_send c \<Longrightarrow> in_flight c \<le> MAXIMUM_WINDOW"
  by (auto simp: may_send_def Let_def no_wrap) (simp add: flow_inv_def)

section \<open>The closed window\<close>

text \<open>No round trip open and more than a window in flight: nothing the session does on its own, and
  nothing the client answers, opens it again.\<close>

definition flow_stuck :: "congestion \<Rightarrow> bool" where
  "flow_stuck c \<longleftrightarrow> flow_inv c \<and> c_measured c \<and> c_pings c = [] \<and> c_window c < in_flight c"

lemma stuck_may_not_send: "flow_stuck c \<Longrightarrow> \<not> may_send c"
  by (simp add: flow_stuck_def may_send_def Let_def no_wrap)

lemma stuck_step:
  assumes "flow_step c c'" "flow_stuck c" shows "flow_stuck c'"
proof -
  have i: "flow_inv c'" using flow_inv_step assms unfolding flow_stuck_def by blast
  from assms(1) show ?thesis
  proof cases
    case (fs_update n now)
    then show ?thesis using stuck_may_not_send [OF assms(2)] by blast
  next
    case (fs_control n)
    moreover have "in_flight (wrote n c) = in_flight c + n"
      using assms(2) fs_control in_flight_wrote unfolding flow_stuck_def by blast
    ultimately show ?thesis using assms(2) i by (simp add: flow_stuck_def) (simp add: wrote_def)
  next
    case (fs_pong s now)
    then show ?thesis using assms(2) pong_unknown [of s c now] by (simp add: flow_stuck_def)
  next
    case (fs_expire now)
    then show ?thesis using assms(2) i by (simp add: flow_stuck_def expire_def in_flight_def)
  next
    case fs_measure
    then show ?thesis using assms(2) i by (simp add: flow_stuck_def measure_link_def in_flight_def)
  qed
qed

lemma stuck_for_ever: "flow_step\<^sup>*\<^sup>* c c' \<Longrightarrow> flow_stuck c \<Longrightarrow> flow_stuck c'"
  by (induction rule: rtranclp_induct) (simp_all add: stuck_step)

lemmas flow_eval = update_sent_def ping_send_def wrote_def measure_link_def congestion_new_def expire_def
  ping_due_def MAX_OUTSTANDING_def MINIMUM_WINDOW_def MAXIMUM_WINDOW_def may_send_def in_flight_def
  default_limits_def clamp_def add64_def PING_TIMEOUT_def secs_def Let_def

section \<open>Properties\<close>

text \<open>C17. In every state a session can bring it to, the window lies between sixteen kilobytes and
  four megabytes, at most three round trips are open, their numbers rise in the order they were
  sent, and what is acknowledged was written, before every round trip still open.\<close>

theorem flow_window_invariant:
  assumes "flow_reach l c"
  shows "MINIMUM_WINDOW \<le> c_window c \<and> c_window c \<le> MAXIMUM_WINDOW
    \<and> outstanding c \<le> MAX_OUTSTANDING
    \<and> sorted_wrt (\<lambda>p q. p_seq p < p_seq q \<and> p_at_bytes p \<le> p_at_bytes q) (c_pings c)
    \<and> c_acked c \<le> c_written c
    \<and> (\<forall>p\<in>set (c_pings c). c_acked c \<le> p_at_bytes p \<and> p_at_bytes p \<le> c_written c)"
  using flow_inv_reach [OF assms] by (auto simp: flow_inv_def pings_ok_def outstanding_def)

lemma reach_example:
  "flow_reach default_limits (update_sent 1000000 0 (measure_link (congestion_new default_limits)))"
proof (rule reach_step)
  show "flow_reach default_limits (measure_link (congestion_new default_limits))"
    by (rule reach_step [OF reach_new fs_measure])
  show "flow_step (measure_link (congestion_new default_limits))
      (update_sent 1000000 0 (measure_link (congestion_new default_limits)))"
    by (rule fs_update) (simp_all add: measure_link_def congestion_new_def may_send_def in_flight_def)
qed

theorem flow_window_invariant_witness:
  "flow_reach default_limits (update_sent 1000000 0 (measure_link (congestion_new default_limits)))
   \<and> c_window (update_sent 1000000 0 (measure_link (congestion_new default_limits))) \<le> MAXIMUM_WINDOW
   \<and> outstanding (update_sent 1000000 0 (measure_link (congestion_new default_limits))) = 1"
  using flow_window_invariant [OF reach_example] reach_example
  by (simp add: outstanding_def update_sent_def ping_send_def wrote_def measure_link_def congestion_new_def
      ping_due_def MAX_OUTSTANDING_def Let_def)

text \<open>C24. Back-pressure: when a measured client may be sent an update, then after the update at
  most the largest window and that one update are in flight, whatever was sent before.\<close>

theorem flow_in_flight_bounded:
  assumes "flow_reach l c" and "c_measured c" and "may_send c" and "c_written c + n < 2 ^ 63"
  shows "in_flight (update_sent n now c) \<le> MAXIMUM_WINDOW + n"
  using may_send_room [OF flow_inv_reach [OF assms(1)] assms(2,3)]
    in_flight_wrote [OF flow_inv_reach [OF assms(1)] assms(4)]
  by (simp add: in_flight_update)

theorem flow_in_flight_bounded_witness:
  "in_flight (update_sent 1000000 0 (measure_link (congestion_new default_limits))) \<le> MAXIMUM_WINDOW + 1000000"
  by (rule flow_in_flight_bounded [OF reach_step [OF reach_new fs_measure]])
     (simp_all add: measure_link_def congestion_new_def may_send_def in_flight_def)

text \<open>An echo answers its own fence and every fence before it, and only those: what was written
  before the fence is acknowledged, later round trips stay open, a client that has caught up may
  be sent the next update at once; an echo of anything else changes nothing.\<close>

theorem flow_echo_acknowledges:
  assumes "flow_reach l c" and "c_pings c = older @ p # newer"
  shows "fst (pong (p_seq p) now c)
    \<and> c_pings (snd (pong (p_seq p) now c)) = newer
    \<and> in_flight (snd (pong (p_seq p) now c)) = c_written c - p_at_bytes p
    \<and> (p_at_bytes p = c_written c \<longrightarrow> may_send (snd (pong (p_seq p) now c)))
    \<and> (\<forall>s. s \<notin> p_seq ` set (c_pings c) \<longrightarrow> pong s now c = (False, c))"
proof -
  have i: "flow_inv c" using assms(1) by (rule flow_inv_reach)
  then have "p_seq p \<notin> p_seq ` set older"
    unfolding flow_inv_def pings_ok_def assms(2) sorted_wrt_append by fastforce
  from pong_known [OF i assms(2) refl this, of now] show ?thesis
    using pong_unknown by (auto simp: in_flight_def may_send_def)
qed

theorem flow_echo_acknowledges_witness:
  "may_send (snd (pong 1 7 (update_sent 1000000 0 (measure_link (congestion_new default_limits)))))
   \<and> \<not> may_send (update_sent 1000000 0 (measure_link (congestion_new default_limits)))"
proof -
  let ?c = "update_sent 1000000 0 (measure_link (congestion_new default_limits))"
  have c: "c_pings ?c = [] @ \<lparr>p_seq = 1, p_at_bytes = 1000000, p_at = 0\<rparr> # []" "c_written ?c = 1000000"
    "\<not> may_send ?c"
    by (simp_all add: flow_eval)
  from flow_echo_acknowledges [OF reach_example c(1), of 7] c(2,3) show ?thesis by simp
qed

text \<open>C25. Liveness fails once a round trip has been written off: when no round trip is open and
  more than the window is in flight, no sequence of control messages, echoes (the late one
  included) and expiries ever lets another update out, because only an update starts a round
  trip. One update of a megabyte answered after six seconds gets there.\<close>

theorem flow_written_off_freezes:
  assumes "flow_stuck c" and "flow_step\<^sup>*\<^sup>* c c'"
  shows "\<not> may_send c'"
  using stuck_for_ever [OF assms(2,1)] by (rule stuck_may_not_send)

theorem flow_written_off_freezes_witness:
  "let c = expire (secs 6) (update_sent 1000000 0 (measure_link (congestion_new default_limits))) in
    flow_reach default_limits c \<and> flow_stuck c \<and> \<not> may_send (snd (pong 1 (secs 6) c))"
proof -
  let ?c = "expire (secs 6) (update_sent 1000000 0 (measure_link (congestion_new default_limits)))"
  have r: "flow_reach default_limits ?c"
    by (rule reach_step [OF reach_example fs_expire])
  have "c_measured ?c" "c_pings ?c = []" "c_window ?c < in_flight ?c"
    by (simp_all add: flow_eval)
  then have s: "flow_stuck ?c" using flow_inv_reach [OF r] by (simp add: flow_stuck_def)
  have "flow_step\<^sup>*\<^sup>* ?c (snd (pong 1 (secs 6) ?c))" by (rule r_into_rtranclp) (rule fs_pong)
  from flow_written_off_freezes [OF s this] r s show ?thesis by (simp only: Let_def simp_thms)
qed

end
