(* ===== verification/Framebuffers.thy ===== *)
theory Framebuffers
  imports Rects Bytes
begin

text \<open>
  \<open>alloyvnc-encode/src/framebuffer.rs\<close>: the picture, rows of four-byte BGRX pixels in one byte
  vector. A slice out of range panics in the source; here it is \<open>None\<close>, so a function that can
  panic returns an option, and the lemmas say when it does not. The private fields keep the
  vector's length at \<open>width * height * 4\<close>: \<open>fb_ok\<close>. Positions and sizes are \<open>nat\<close> (\<open>u32\<close> and
  \<open>usize\<close> on a 64-bit target), \<open>u32_of\<close> is the cast \<open>as u32\<close> of an \<open>i32\<close>.

  \<open>fb_px\<close> is the pixel view the laws are stated in: what \<open>fill\<close>, \<open>put_pixel\<close>, \<open>blit\<close> and
  \<open>copy_within\<close> do to each pixel.
\<close>

definition u32_of :: "int \<Rightarrow> nat" where
  "u32_of i = nat (i mod 2 ^ 32)"

text \<open>The values of an \<open>i32\<close> range \<open>a..b\<close>, in order.\<close>

definition irange :: "int \<Rightarrow> int \<Rightarrow> int list" where
  "irange a b = map (\<lambda>i. a + int i) [0 ..< nat (b - a)]"

definition slice :: "nat \<Rightarrow> nat \<Rightarrow> 'a list \<Rightarrow> 'a list option" where
  "slice a n xs = (if a + n \<le> length xs then Some (take n (drop a xs)) else None)"

definition splice :: "nat \<Rightarrow> 'a list \<Rightarrow> 'a list \<Rightarrow> 'a list option" where
  "splice a ys xs =
    (if a + length ys \<le> length xs then Some (take a xs @ ys @ drop (a + length ys) xs) else None)"

record framebuffer =
  fb_width :: nat
  fb_height :: nat
  fb_data :: bytes

definition FB_BPP :: nat where "FB_BPP = 4"

definition fb_new :: "nat \<Rightarrow> nat \<Rightarrow> framebuffer" where
  "fb_new w h = \<lparr>fb_width = w, fb_height = h, fb_data = replicate (w * h * FB_BPP) 0\<rparr>"

definition fb_stride :: "framebuffer \<Rightarrow> nat" where
  "fb_stride fb = fb_width fb * FB_BPP"

definition fb_bounds :: "framebuffer \<Rightarrow> rect" where
  "fb_bounds fb = rect_new 0 0 (i32 (int (fb_width fb))) (i32 (int (fb_height fb)))"

definition fb_resize :: "nat \<Rightarrow> nat \<Rightarrow> framebuffer \<Rightarrow> framebuffer" where
  "fb_resize w h fb = (if w \<noteq> fb_width fb \<or> h \<noteq> fb_height fb then fb_new w h else fb)"

definition fb_row :: "framebuffer \<Rightarrow> nat \<Rightarrow> bytes option" where
  "fb_row fb y = slice (y * fb_stride fb) (fb_stride fb) (fb_data fb)"

definition row_span :: "framebuffer \<Rightarrow> nat \<Rightarrow> nat \<Rightarrow> nat \<Rightarrow> bytes option" where
  "row_span fb y x w = slice (y * fb_stride fb + x * FB_BPP) (w * FB_BPP) (fb_data fb)"

text \<open>\<open>row_span_mut(y, x, w).copy_from_slice(bs)\<close>, where \<open>bs\<close> is that long.\<close>

definition row_write :: "framebuffer \<Rightarrow> nat \<Rightarrow> nat \<Rightarrow> bytes \<Rightarrow> framebuffer option" where
  "row_write fb y x bs =
    map_option (\<lambda>d. fb\<lparr>fb_data := d\<rparr>) (splice (y * fb_stride fb + x * FB_BPP) bs (fb_data fb))"

definition fb_pixel :: "framebuffer \<Rightarrow> nat \<Rightarrow> nat \<Rightarrow> bytes option" where
  "fb_pixel fb x y = row_span fb y x 1"

definition put_pixel :: "framebuffer \<Rightarrow> nat \<Rightarrow> nat \<Rightarrow> bytes \<Rightarrow> framebuffer option" where
  "put_pixel fb x y px = row_write fb y x px"

text \<open>The rows of \<open>fill\<close>, top to bottom.\<close>

fun fill_rows :: "int list \<Rightarrow> nat \<Rightarrow> nat \<Rightarrow> bytes \<Rightarrow> framebuffer \<Rightarrow> framebuffer option" where
  "fill_rows [] x w px fb = Some fb"
| "fill_rows (y # ys) x w px fb =
    (case row_write fb (u32_of y) x (concat (replicate w px)) of
       None \<Rightarrow> None
     | Some fb' \<Rightarrow> fill_rows ys x w px fb')"

definition fb_fill :: "framebuffer \<Rightarrow> rect \<Rightarrow> bytes \<Rightarrow> framebuffer option" where
  "fb_fill fb rect px =
    (let r = rect_intersection rect (fb_bounds fb) in
     if rect_is_empty r then Some fb
     else fill_rows (irange (ry1 r) (ry2 r)) (u32_of (rx1 r)) (u32_of (rect_width r)) px fb)"

fun blit_rows :: "bytes list \<Rightarrow> nat \<Rightarrow> nat \<Rightarrow> framebuffer \<Rightarrow> framebuffer option" where
  "blit_rows [] y x fb = Some fb"
| "blit_rows (row # rows) y x fb =
    (case row_write fb y x row of None \<Rightarrow> None | Some fb' \<Rightarrow> blit_rows rows (Suc y) x fb')"

text \<open>The two assertions of \<open>blit\<close>, and \<open>chunks_exact\<close> refusing rows of no bytes.\<close>

definition fb_blit :: "framebuffer \<Rightarrow> nat \<Rightarrow> nat \<Rightarrow> nat \<Rightarrow> nat \<Rightarrow> bytes \<Rightarrow> framebuffer option" where
  "fb_blit fb x y w h src =
    (let row_bytes = w * FB_BPP in
     if length src < row_bytes * h then None
     else if \<not> (x + w \<le> fb_width fb \<and> y + h \<le> fb_height fb) then None
     else if row_bytes = 0 then None
     else blit_rows (take h (chunks row_bytes src)) y x fb)"

text \<open>\<open>data.copy_within\<close> of one row, then the rows in the order chosen.\<close>

definition copy_row :: "nat \<Rightarrow> nat \<Rightarrow> nat \<Rightarrow> bytes \<Rightarrow> bytes option" where
  "copy_row from n to d = (case slice from n d of None \<Rightarrow> None | Some bs \<Rightarrow> splice to bs d)"

fun copy_rows :: "nat list \<Rightarrow> (nat \<Rightarrow> nat) \<Rightarrow> (nat \<Rightarrow> nat) \<Rightarrow> nat \<Rightarrow> bytes \<Rightarrow> bytes option" where
  "copy_rows [] from to n d = Some d"
| "copy_rows (i # is) from to n d =
    (case copy_row (from i) n (to i) d of None \<Rightarrow> None | Some d' \<Rightarrow> copy_rows is from to n d')"

definition fb_copy_within :: "framebuffer \<Rightarrow> nat \<Rightarrow> nat \<Rightarrow> rect \<Rightarrow> framebuffer option" where
  "fb_copy_within fb sx sy dst0 =
    (let dst = rect_intersection dst0 (fb_bounds fb) in
     if rect_is_empty dst then Some fb
     else
       let src = rect_new (i32 (int sx)) (i32 (int sy)) (rect_width dst) (rect_height dst) in
       if \<not> rect_contains (fb_bounds fb) src then None
       else
         let stride = fb_stride fb;
             row_bytes = u32_of (rect_width dst) * FB_BPP;
             rows = u32_of (rect_height dst);
             order = (if i32 (int sy) < ry1 dst then rev [0 ..< rows] else [0 ..< rows]) in
         map_option (\<lambda>d. fb\<lparr>fb_data := d\<rparr>)
           (copy_rows order
             (\<lambda>i. (sy + i) * stride + sx * FB_BPP)
             (\<lambda>i. (u32_of (ry1 dst) + i) * stride + u32_of (rx1 dst) * FB_BPP)
             row_bytes (fb_data fb)))"

section \<open>Well-formed pictures\<close>

definition fb_ok :: "framebuffer \<Rightarrow> bool" where
  "fb_ok fb \<longleftrightarrow> length (fb_data fb) = fb_width fb * fb_height fb * 4
    \<and> fb_width fb < 65536 \<and> fb_height fb < 65536"

definition fb_px :: "framebuffer \<Rightarrow> nat \<Rightarrow> nat \<Rightarrow> bytes" where
  "fb_px fb x y = take 4 (drop (y * (fb_width fb * 4) + x * 4) (fb_data fb))"

lemma u32_of_small [simp]: "0 \<le> i \<Longrightarrow> i < 4294967296 \<Longrightarrow> u32_of i = nat i"
  by (simp add: u32_of_def)

lemma fb_new_ok: "w < 65536 \<Longrightarrow> h < 65536 \<Longrightarrow> fb_ok (fb_new w h)"
  by (simp add: fb_ok_def fb_new_def FB_BPP_def)

lemma fb_bounds_ok:
  "fb_ok fb \<Longrightarrow> fb_bounds fb = \<lparr>rx1 = 0, ry1 = 0, rx2 = int (fb_width fb), ry2 = int (fb_height fb)\<rparr>"
  by (simp add: fb_ok_def fb_bounds_def rect_new_def i32_small)

lemma slice_Some: "slice a n xs = Some s \<longleftrightarrow> a + n \<le> length xs \<and> s = take n (drop a xs)"
  by (auto simp: slice_def)

lemma splice_Some: "splice a ys xs = Some z \<longleftrightarrow> a + length ys \<le> length xs \<and> z = take a xs @ ys @ drop (a + length ys) xs"
  by (auto simp: splice_def)

lemma pos_bound:
  fixes x y w h :: nat
  assumes "x + n \<le> w" "y < h" shows "y * (w * 4) + x * 4 + n * 4 \<le> w * h * 4"
proof -
  have "y * w + w \<le> h * w" using assms(2) by (metis Suc_leI mult_le_mono1 mult_Suc add.commute)
  with assms(1) show ?thesis by (simp add: algebra_simps)
qed

lemma row_span_ok:
  assumes "fb_ok fb" "x + n \<le> fb_width fb" "y < fb_height fb"
  shows "row_span fb y x n = Some (take (n * 4) (drop (y * (fb_width fb * 4) + x * 4) (fb_data fb)))"
  using assms pos_bound [OF assms(2,3)]
  by (simp add: row_span_def slice_def fb_ok_def fb_stride_def FB_BPP_def)

lemma fb_pixel_ok: "fb_ok fb \<Longrightarrow> x < fb_width fb \<Longrightarrow> y < fb_height fb \<Longrightarrow> fb_pixel fb x y = Some (fb_px fb x y)"
  by (simp add: fb_pixel_def row_span_ok fb_px_def)

text \<open>A row of pixels, as the pixels.\<close>

lemma chunks4_take:
  "n * 4 \<le> length d \<Longrightarrow> chunks 4 (take (n * 4) d) = map (\<lambda>i. take 4 (drop (i * 4) d)) [0 ..< n]"
proof (induction n arbitrary: d)
  case (Suc n)
  have "take (Suc n * 4) d = take 4 d @ take (n * 4) (drop 4 d)"
    using take_add [of 4 "n * 4" d] by simp
  then have "chunks 4 (take (Suc n * 4) d) = take 4 d # chunks 4 (take (n * 4) (drop 4 d))"
    using Suc.prems by (simp add: chunks_append)
  also have "\<dots> = take 4 d # map (\<lambda>i. take 4 (drop (i * 4) (drop 4 d))) [0 ..< n]"
    using Suc by simp
  also have "\<dots> = map (\<lambda>i. take 4 (drop (i * 4) d)) [0 ..< Suc n]"
    by (simp add: upt_conv_Cons map_Suc_upt [symmetric] add.commute del: upt_Suc)
  finally show ?case .
qed (simp add: chunks_short)

lemma row_span_pixels:
  assumes "fb_ok fb" "x + n \<le> fb_width fb" "y < fb_height fb" "row_span fb y x n = Some s"
  shows "chunks 4 s = map (\<lambda>i. fb_px fb (x + i) y) [0 ..< n]"
proof -
  let ?d = "drop (y * (fb_width fb * 4) + x * 4) (fb_data fb)"
  have "n * 4 \<le> length ?d"
    using pos_bound [OF assms(2,3)] assms(1) by (simp add: fb_ok_def)
  then show ?thesis
    using chunks4_take [of n ?d] row_span_ok [OF assms(1-3)] assms(4)
    by (simp add: fb_px_def add_mult_distrib add.assoc add.commute add.left_commute)
qed

section \<open>Writing\<close>

lemma take_drop_splice:
  assumes "a + length ys \<le> length xs" "p + n \<le> length xs"
  shows "take n (drop p (take a xs @ ys @ drop (a + length ys) xs)) =
    (if a \<le> p \<and> p + n \<le> a + length ys then take n (drop (p - a) ys)
     else if p + n \<le> a \<or> a + length ys \<le> p then take n (drop p xs)
     else take n (drop p (take a xs @ ys @ drop (a + length ys) xs)))"
  using assms by (auto simp: min_def drop_take)

lemma row_separate:
  fixes x x' y y' w n :: nat
  assumes "x + n \<le> w" "x' < w" "\<not> (y' = y \<and> x \<le> x' \<and> x' < x + n)"
  shows "y' * (w * 4) + x' * 4 + 4 \<le> y * (w * 4) + x * 4 \<or> y * (w * 4) + x * 4 + n * 4 \<le> y' * (w * 4) + x' * 4"
proof -
  consider "y' < y" | "y < y'" | "y' = y" by linarith
  then show ?thesis
  proof cases
    case 1
    then have "y' * w + w \<le> y * w" by (metis Suc_leI mult_le_mono1 mult_Suc add.commute)
    with assms(2) show ?thesis by (simp add: algebra_simps)
  next
    case 2
    then have "y * w + w \<le> y' * w" by (metis Suc_leI mult_le_mono1 mult_Suc add.commute)
    with assms(1) show ?thesis by (simp add: algebra_simps)
  next
    case 3
    with assms(3) show ?thesis by auto
  qed
qed

lemma row_write_spec:
  assumes "fb_ok fb" "x + n \<le> fb_width fb" "y < fb_height fb" "length bs = n * 4"
  shows "\<exists>fb'. row_write fb y x bs = Some fb' \<and> fb_ok fb'
    \<and> fb_width fb' = fb_width fb \<and> fb_height fb' = fb_height fb
    \<and> (\<forall>x' y'. x' < fb_width fb \<longrightarrow> y' < fb_height fb \<longrightarrow>
        fb_px fb' x' y' = (if y' = y \<and> x \<le> x' \<and> x' < x + n then take 4 (drop ((x' - x) * 4) bs) else fb_px fb x' y'))"
proof -
  let ?w = "fb_width fb" and ?a = "y * (fb_width fb * 4) + x * 4"
  let ?d = "take ?a (fb_data fb) @ bs @ drop (?a + length bs) (fb_data fb)"
  have len: "?a + length bs \<le> length (fb_data fb)"
    using pos_bound [OF assms(2,3)] assms(1,4) by (simp add: fb_ok_def)
  have w: "row_write fb y x bs = Some (fb\<lparr>fb_data := ?d\<rparr>)"
    using len by (simp add: row_write_def splice_def fb_stride_def FB_BPP_def)
  have px: "fb_px (fb\<lparr>fb_data := ?d\<rparr>) x' y' =
      (if y' = y \<and> x \<le> x' \<and> x' < x + n then take 4 (drop ((x' - x) * 4) bs) else fb_px fb x' y')"
    if "x' < ?w" "y' < fb_height fb" for x' y'
  proof -
    have p: "y' * (?w * 4) + x' * 4 + 4 \<le> length (fb_data fb)"
      using pos_bound [of x' 1 ?w y'] that assms(1) by (simp add: fb_ok_def)
    note t = take_drop_splice [OF len p]
    show ?thesis
    proof (cases "y' = y \<and> x \<le> x' \<and> x' < x + n")
      case True
      then have c: "?a \<le> y' * (?w * 4) + x' * 4 \<and> y' * (?w * 4) + x' * 4 + 4 \<le> ?a + length bs"
        using assms(4) by auto
      have "y' * (?w * 4) + x' * 4 - ?a = (x' - x) * 4" using True by (simp add: diff_mult_distrib)
      with t c True show ?thesis by (simp add: fb_px_def)
    next
      case False
      from row_separate [OF assms(2) that(1) False] have
        c: "y' * (?w * 4) + x' * 4 + 4 \<le> ?a \<or> ?a + length bs \<le> y' * (?w * 4) + x' * 4" using assms(4) by simp
      then have "\<not> (?a \<le> y' * (?w * 4) + x' * 4 \<and> y' * (?w * 4) + x' * 4 + 4 \<le> ?a + length bs)" by auto
      with t c show ?thesis unfolding if_not_P [OF False] by (simp add: fb_px_def)
    qed
  qed
  have "fb_ok (fb\<lparr>fb_data := ?d\<rparr>)" using assms(1) len by (simp add: fb_ok_def)
  with w px show ?thesis by auto
qed

text \<open>What a write leaves alone: the size and the invariant.\<close>

definition fb_same :: "framebuffer \<Rightarrow> framebuffer \<Rightarrow> bool" where
  "fb_same fb fb' \<longleftrightarrow> fb_ok fb' \<and> fb_width fb' = fb_width fb \<and> fb_height fb' = fb_height fb"

lemma fb_same_refl: "fb_ok fb \<Longrightarrow> fb_same fb fb"
  by (simp add: fb_same_def)

lemma fb_same_trans: "fb_same a b \<Longrightarrow> fb_same b c \<Longrightarrow> fb_same a c"
  by (simp add: fb_same_def)

lemma put_pixel_spec:
  assumes "fb_ok fb" "x < fb_width fb" "y < fb_height fb" "length px = 4"
  shows "\<exists>fb'. put_pixel fb x y px = Some fb' \<and> fb_same fb fb'
    \<and> (\<forall>x' y'. x' < fb_width fb \<longrightarrow> y' < fb_height fb \<longrightarrow>
        fb_px fb' x' y' = (if (x', y') = (x, y) then px else fb_px fb x' y'))"
proof -
  from row_write_spec [of fb x 1 y px] assms obtain fb' where
    "put_pixel fb x y px = Some fb'" "fb_same fb fb'"
    and p: "\<And>x' y'. x' < fb_width fb \<Longrightarrow> y' < fb_height fb \<Longrightarrow>
      fb_px fb' x' y' = (if y' = y \<and> x \<le> x' \<and> x' < x + 1 then take 4 (drop ((x' - x) * 4) px) else fb_px fb x' y')"
    by (auto simp: put_pixel_def fb_same_def)
  moreover have "fb_px fb' x' y' = (if (x', y') = (x, y) then px else fb_px fb x' y')"
    if "x' < fb_width fb" "y' < fb_height fb" for x' y'
  proof (cases "y' = y \<and> x \<le> x' \<and> x' < x + 1")
    case True
    then show ?thesis using p [OF that] assms(4) by auto
  next
    case False
    then have "(x', y') \<noteq> (x, y)" by auto
    then show ?thesis using p [OF that] False by (simp only: if_False)
  qed
  ultimately show ?thesis by blast
qed

lemma nth_replicate_chunk:
  "length px = 4 \<Longrightarrow> i < n \<Longrightarrow> take 4 (drop (i * 4) (concat (replicate n px))) = px"
proof (induction n arbitrary: i)
  case (Suc n)
  then show ?case by (cases i) simp_all
qed simp

lemma length_concat_replicate: "length px = 4 \<Longrightarrow> length (concat (replicate n px)) = n * 4"
  by (induction n) simp_all

lemma fill_rows_spec:
  assumes "fb_ok fb" "x + n \<le> fb_width fb" "length px = 4" "\<forall>y\<in>set ys. 0 \<le> y \<and> y < int (fb_height fb)"
  shows "\<exists>fb'. fill_rows ys x n px fb = Some fb' \<and> fb_same fb fb'
    \<and> (\<forall>x' y'. x' < fb_width fb \<longrightarrow> y' < fb_height fb \<longrightarrow>
        fb_px fb' x' y' = (if int y' \<in> set ys \<and> x \<le> x' \<and> x' < x + n then px else fb_px fb x' y'))"
  using assms
proof (induction ys arbitrary: fb)
  case Nil
  then show ?case by (auto intro: fb_same_refl)
next
  case (Cons y ys)
  let ?y = "u32_of y"
  have y: "?y = nat y" "nat y < fb_height fb" "0 \<le> y"
    using Cons.prems(1,4) by (auto simp: fb_ok_def)
  let ?bs = "concat (replicate n px)"
  have c: "take 4 (drop ((x' - x) * 4) ?bs) = px" if "x \<le> x'" "x' < x + n" for x'
    using nth_replicate_chunk [OF Cons.prems(3), of "x' - x" n] that by simp
  obtain fb1 where w: "row_write fb ?y x ?bs = Some fb1"
    and s1: "fb_same fb fb1"
    and p0: "\<And>x' y'. x' < fb_width fb \<Longrightarrow> y' < fb_height fb \<Longrightarrow> fb_px fb1 x' y' =
        (if y' = nat y \<and> x \<le> x' \<and> x' < x + n then take 4 (drop ((x' - x) * 4) ?bs) else fb_px fb x' y')"
    using row_write_spec [OF Cons.prems(1,2) y(2) length_concat_replicate [OF Cons.prems(3), of n]] y(1)
    unfolding fb_same_def by auto
  have p1: "fb_px fb1 x' y' = (if y' = nat y \<and> x \<le> x' \<and> x' < x + n then px else fb_px fb x' y')"
    if "x' < fb_width fb" "y' < fb_height fb" for x' y'
    using p0 [OF that] c by auto
  have same: "fb_width fb1 = fb_width fb" "fb_height fb1 = fb_height fb" "fb_ok fb1"
    using s1 by (simp_all add: fb_same_def)
  obtain fb2 where f: "fill_rows ys x n px fb1 = Some fb2" and s2: "fb_same fb1 fb2"
    and p2: "\<And>x' y'. x' < fb_width fb \<Longrightarrow> y' < fb_height fb \<Longrightarrow> fb_px fb2 x' y' =
        (if int y' \<in> set ys \<and> x \<le> x' \<and> x' < x + n then px else fb_px fb1 x' y')"
    using Cons.IH [of fb1] Cons.prems same by auto
  have "fb_px fb2 x' y' = (if int y' \<in> set (y # ys) \<and> x \<le> x' \<and> x' < x + n then px else fb_px fb x' y')"
    if "x' < fb_width fb" "y' < fb_height fb" for x' y'
    using p1 [OF that] p2 [OF that] y(3) by auto
  with w f fb_same_trans [OF s1 s2] show ?case by simp
qed

lemma set_irange: "set (irange a b) = {a ..< b}"
proof -
  have "x \<in> (\<lambda>i. a + int i) ` {0 ..< nat (b - a)}" if "a \<le> x" "x < b" for x
    by (rule image_eqI [of _ _ "nat (x - a)"]) (use that in auto)
  then show ?thesis by (auto simp: irange_def)
qed

lemma rect_corners_in:
  assumes "rx1 c < rx2 c" "ry1 c < ry2 c" "rect_pixels c \<subseteq> {0 ..< W} \<times> {0 ..< H}"
  shows "0 \<le> rx1 c \<and> rx2 c \<le> W \<and> 0 \<le> ry1 c \<and> ry2 c \<le> H"
proof -
  have "(rx1 c, ry1 c) \<in> rect_pixels c" "(rx2 c - 1, ry2 c - 1) \<in> rect_pixels c"
    using assms(1,2) unfolding in_rect_pixels by simp_all
  then have "(rx1 c, ry1 c) \<in> {0 ..< W} \<times> {0 ..< H}" "(rx2 c - 1, ry2 c - 1) \<in> {0 ..< W} \<times> {0 ..< H}"
    using assms(3) by blast+
  then show ?thesis by auto
qed

text \<open>\<open>fill\<close> never panics and paints exactly the pixels of the rectangle inside the picture.\<close>

lemma fb_fill_spec:
  assumes "fb_ok fb" "length px = 4"
  shows "\<exists>fb'. fb_fill fb r px = Some fb' \<and> fb_same fb fb'
    \<and> (\<forall>x' y'. x' < fb_width fb \<longrightarrow> y' < fb_height fb \<longrightarrow>
        fb_px fb' x' y' = (if (int x', int y') \<in> rect_pixels r then px else fb_px fb x' y'))"
proof -
  let ?c = "rect_intersection r (fb_bounds fb)"
  let ?B = "{0 ..< int (fb_width fb)} \<times> {0 ..< int (fb_height fb)}"
  have b: "rect_pixels (fb_bounds fb) = ?B"
    by (simp add: fb_bounds_ok [OF assms(1)] rect_pixels_prod)
  then have c: "rect_pixels ?c = rect_pixels r \<inter> ?B" by simp
  have mem: "(int x', int y') \<in> rect_pixels r \<longleftrightarrow> (int x', int y') \<in> rect_pixels ?c"
    if "x' < fb_width fb" "y' < fb_height fb" for x' y'
    unfolding c using that by simp
  show ?thesis
  proof (cases "rect_is_empty ?c")
    case True
    then have "rect_pixels ?c = {}" by (simp add: rect_is_empty_pixels)
    with mem have "\<not> (int x', int y') \<in> rect_pixels r" if "x' < fb_width fb" "y' < fb_height fb" for x' y'
      using that by blast
    then show ?thesis using True assms by (auto simp: fb_fill_def Let_def intro: fb_same_refl)
  next
    case False
    then have ne: "rx1 ?c < rx2 ?c" "ry1 ?c < ry2 ?c" by (simp_all add: rect_is_empty_def)
    have lim: "0 \<le> rx1 ?c" "rx2 ?c \<le> int (fb_width fb)" "0 \<le> ry1 ?c" "ry2 ?c \<le> int (fb_height fb)"
      using rect_corners_in [OF ne, of "int (fb_width fb)" "int (fb_height fb)"] c by blast+
    have small: "fb_width fb < 65536" "fb_height fb < 65536" using assms(1) by (simp_all add: fb_ok_def)
    have w: "rect_width ?c = rx2 ?c - rx1 ?c"
      using ne lim small by (intro rect_width_small [THEN trans]) (simp_all add: rect_small_def)
    have u: "u32_of (rx1 ?c) = nat (rx1 ?c)" "u32_of (rect_width ?c) = nat (rx2 ?c - rx1 ?c)"
      using ne lim small w by simp_all
    have "nat (rx1 ?c) + nat (rx2 ?c - rx1 ?c) \<le> fb_width fb" using ne lim by simp
    from fill_rows_spec [OF assms(1) this assms(2), of "irange (ry1 ?c) (ry2 ?c)"] lim
    obtain fb' where f: "fill_rows (irange (ry1 ?c) (ry2 ?c)) (nat (rx1 ?c)) (nat (rx2 ?c - rx1 ?c)) px fb = Some fb'"
      "fb_same fb fb'" and p: "\<And>x' y'. x' < fb_width fb \<Longrightarrow> y' < fb_height fb \<Longrightarrow> fb_px fb' x' y' =
        (if int y' \<in> {ry1 ?c ..< ry2 ?c} \<and> nat (rx1 ?c) \<le> x' \<and> x' < nat (rx1 ?c) + nat (rx2 ?c - rx1 ?c)
         then px else fb_px fb x' y')"
      by (auto simp: set_irange)
    have "fb_px fb' x' y' = (if (int x', int y') \<in> rect_pixels r then px else fb_px fb x' y')"
      if "x' < fb_width fb" "y' < fb_height fb" for x' y'
    proof -
      have "(int x', int y') \<in> rect_pixels ?c \<longleftrightarrow>
          int y' \<in> {ry1 ?c ..< ry2 ?c} \<and> nat (rx1 ?c) \<le> x' \<and> x' < nat (rx1 ?c) + nat (rx2 ?c - rx1 ?c)"
        unfolding in_rect_pixels using ne lim by auto
      then show ?thesis using p [OF that] mem [OF that] by (simp only:)
    qed
    with f False u show ?thesis by (auto simp: fb_fill_def Let_def)
  qed
qed

section \<open>Moving a block\<close>

lemma row_pixels_take:
  assumes "i < n" "n * 4 \<le> length d"
  shows "take 4 (drop (i * 4) (take (n * 4) d)) = take 4 (drop (i * 4) d)"
  using assms by (simp add: drop_take min_def)

lemma copy_row_spec:
  assumes "fb_ok fb" "sx + n \<le> fb_width fb" "dx + n \<le> fb_width fb" "y1 < fb_height fb" "y2 < fb_height fb"
  shows "\<exists>d. copy_row (y1 * fb_stride fb + sx * FB_BPP) (n * FB_BPP) (y2 * fb_stride fb + dx * FB_BPP) (fb_data fb) = Some d
    \<and> fb_same fb (fb\<lparr>fb_data := d\<rparr>)
    \<and> (\<forall>x' y'. x' < fb_width fb \<longrightarrow> y' < fb_height fb \<longrightarrow>
        fb_px (fb\<lparr>fb_data := d\<rparr>) x' y' =
          (if y' = y2 \<and> dx \<le> x' \<and> x' < dx + n then fb_px fb (sx + (x' - dx)) y1 else fb_px fb x' y'))"
proof -
  let ?src = "drop (y1 * (fb_width fb * 4) + sx * 4) (fb_data fb)"
  let ?bs = "take (n * 4) ?src"
  have n: "n * 4 \<le> length ?src"
    using pos_bound [OF assms(2,4)] assms(1) by (simp add: fb_ok_def)
  have s: "slice (y1 * fb_stride fb + sx * FB_BPP) (n * FB_BPP) (fb_data fb) = Some ?bs"
    using row_span_ok [OF assms(1,2,4)] by (simp add: row_span_def FB_BPP_def)
  obtain fb' where w: "row_write fb y2 dx ?bs = Some fb'" and same: "fb_same fb fb'"
    and p: "\<And>x' y'. x' < fb_width fb \<Longrightarrow> y' < fb_height fb \<Longrightarrow> fb_px fb' x' y' =
      (if y' = y2 \<and> dx \<le> x' \<and> x' < dx + n then take 4 (drop ((x' - dx) * 4) ?bs) else fb_px fb x' y')"
    using row_write_spec [OF assms(1,3,5), of ?bs] n unfolding fb_same_def by auto
  from w obtain d where d: "splice (y2 * fb_stride fb + dx * FB_BPP) ?bs (fb_data fb) = Some d" "fb' = fb\<lparr>fb_data := d\<rparr>"
    by (auto simp: row_write_def)
  have b: "take 4 (drop ((x' - dx) * 4) ?bs) = fb_px fb (sx + (x' - dx)) y1" if "dx \<le> x'" "x' < dx + n" for x'
  proof -
    have "x' - dx < n" using that by simp
    from row_pixels_take [OF this n] show ?thesis
      by (simp add: fb_px_def add_mult_distrib add.assoc add.commute add.left_commute)
  qed
  have "fb_px fb' x' y' = (if y' = y2 \<and> dx \<le> x' \<and> x' < dx + n then fb_px fb (sx + (x' - dx)) y1 else fb_px fb x' y')"
    if "x' < fb_width fb" "y' < fb_height fb" for x' y'
    using p [OF that] b by auto
  with d s same show ?thesis by (auto simp: copy_row_def)
qed

lemma copy_rows_spec:
  assumes "fb_ok fb" "sx + n \<le> fb_width fb" "dx + n \<le> fb_width fb"
    and "\<forall>i\<in>set is. sy + i < fb_height fb \<and> dy + i < fb_height fb"
    and "sorted_wrt (\<lambda>i j. dy + i \<noteq> sy + j) is" "distinct is"
  shows "\<exists>d. copy_rows is (\<lambda>i. (sy + i) * fb_stride fb + sx * FB_BPP) (\<lambda>i. (dy + i) * fb_stride fb + dx * FB_BPP)
      (n * FB_BPP) (fb_data fb) = Some d
    \<and> fb_same fb (fb\<lparr>fb_data := d\<rparr>)
    \<and> (\<forall>x' y'. x' < fb_width fb \<longrightarrow> y' < fb_height fb \<longrightarrow>
        fb_px (fb\<lparr>fb_data := d\<rparr>) x' y' =
          (if dy \<le> y' \<and> y' - dy \<in> set is \<and> dx \<le> x' \<and> x' < dx + n
           then fb_px fb (sx + (x' - dx)) (sy + (y' - dy)) else fb_px fb x' y'))"
  using assms
proof (induction "is" arbitrary: fb)
  case Nil
  then show ?case by (auto simp: fb_same_refl)
next
  case (Cons i "is")
  obtain d1 where c: "copy_row ((sy + i) * fb_stride fb + sx * FB_BPP) (n * FB_BPP)
      ((dy + i) * fb_stride fb + dx * FB_BPP) (fb_data fb) = Some d1"
    and s1: "fb_same fb (fb\<lparr>fb_data := d1\<rparr>)"
    and p1: "\<And>x' y'. x' < fb_width fb \<Longrightarrow> y' < fb_height fb \<Longrightarrow>
        fb_px (fb\<lparr>fb_data := d1\<rparr>) x' y' =
          (if y' = dy + i \<and> dx \<le> x' \<and> x' < dx + n then fb_px fb (sx + (x' - dx)) (sy + i) else fb_px fb x' y')"
    using copy_row_spec [OF Cons.prems(1-3), of "sy + i" "dy + i"] Cons.prems(4) by auto
  let ?fb1 = "fb\<lparr>fb_data := d1\<rparr>"
  have st: "fb_stride ?fb1 = fb_stride fb" by (simp add: fb_stride_def)
  obtain d2 where r: "copy_rows is (\<lambda>i. (sy + i) * fb_stride fb + sx * FB_BPP)
      (\<lambda>i. (dy + i) * fb_stride fb + dx * FB_BPP) (n * FB_BPP) d1 = Some d2"
    and s2: "fb_same fb (fb\<lparr>fb_data := d2\<rparr>)"
    and p2: "\<And>x' y'. x' < fb_width fb \<Longrightarrow> y' < fb_height fb \<Longrightarrow>
        fb_px (fb\<lparr>fb_data := d2\<rparr>) x' y' =
          (if dy \<le> y' \<and> y' - dy \<in> set is \<and> dx \<le> x' \<and> x' < dx + n
           then fb_px ?fb1 (sx + (x' - dx)) (sy + (y' - dy)) else fb_px ?fb1 x' y')"
    using Cons.IH [of ?fb1] Cons.prems s1 st by (auto simp: fb_same_def)
  have "fb_px (fb\<lparr>fb_data := d2\<rparr>) x' y' =
      (if dy \<le> y' \<and> y' - dy \<in> set (i # is) \<and> dx \<le> x' \<and> x' < dx + n
       then fb_px fb (sx + (x' - dx)) (sy + (y' - dy)) else fb_px fb x' y')"
    if xy: "x' < fb_width fb" "y' < fb_height fb" for x' y'
  proof (cases "dy \<le> y' \<and> y' - dy \<in> set is \<and> dx \<le> x' \<and> x' < dx + n")
    case True
    let ?j = "y' - dy"
    have j: "sy + ?j < fb_height fb" "sx + (x' - dx) < fb_width fb" "sy + ?j \<noteq> dy + i"
      using True Cons.prems(2,4,5) by auto
    show ?thesis using p2 [OF xy] p1 [OF j(2,1)] True j(3) by simp
  next
    case False
    then have b: "fb_px (fb\<lparr>fb_data := d2\<rparr>) x' y' = fb_px ?fb1 x' y'" using p2 [OF xy] by (simp only: if_False)
    show ?thesis
    proof (cases "y' = dy + i \<and> dx \<le> x' \<and> x' < dx + n")
      case True
      then show ?thesis using b p1 [OF xy] by simp
    next
      case nt: False
      then have "\<not> (dy \<le> y' \<and> y' - dy \<in> set (i # is) \<and> dx \<le> x' \<and> x' < dx + n)" using False by auto
      then show ?thesis using b p1 [OF xy] nt by (simp only: if_False)
    qed
  qed
  with c r s2 show ?case by simp
qed

text \<open>\<open>copy_within\<close> on a block inside the picture: every pixel of the destination becomes the pixel the
  source had before, however the two overlap.\<close>

lemma fb_copy_within_spec:
  assumes "fb_ok fb" "\<not> rect_is_empty dr" "rect_contains (fb_bounds fb) dr"
    and "sx + nat (rx2 dr - rx1 dr) \<le> fb_width fb" "sy + nat (ry2 dr - ry1 dr) \<le> fb_height fb"
  shows "\<exists>fb'. fb_copy_within fb sx sy dr = Some fb' \<and> fb_same fb fb'
    \<and> (\<forall>x' y'. x' < fb_width fb \<longrightarrow> y' < fb_height fb \<longrightarrow>
        fb_px fb' x' y' =
          (if (int x', int y') \<in> rect_pixels dr
           then fb_px fb (sx + (x' - nat (rx1 dr))) (sy + (y' - nat (ry1 dr))) else fb_px fb x' y'))"
proof -
  let ?W = "int (fb_width fb)" and ?H = "int (fb_height fb)"
  let ?n = "nat (rx2 dr - rx1 dr)" and ?rows = "nat (ry2 dr - ry1 dr)"
  let ?dx = "nat (rx1 dr)" and ?dy = "nat (ry1 dr)"
  have ne: "rx1 dr < rx2 dr" "ry1 dr < ry2 dr" using assms(2) by (simp_all add: rect_is_empty_def)
  have small: "fb_width fb < 65536" "fb_height fb < 65536" using assms(1) by (simp_all add: fb_ok_def)
  have "rect_pixels dr \<subseteq> {0 ..< ?W} \<times> {0 ..< ?H}"
    using assms(3) by (simp add: rect_contains_pixels fb_bounds_ok [OF assms(1)] rect_pixels_prod)
  from rect_corners_in [OF ne this] have lim: "0 \<le> rx1 dr" "rx2 dr \<le> ?W" "0 \<le> ry1 dr" "ry2 dr \<le> ?H" by simp_all
  have inter: "rect_intersection dr (fb_bounds fb) = dr"
    using ne lim by (cases dr) (simp add: fb_bounds_ok [OF assms(1)] rect_intersection_def rect_normalised_def
        rect_is_empty_def)
  have wh: "rect_width dr = rx2 dr - rx1 dr" "rect_height dr = ry2 dr - ry1 dr"
    using ne lim small by (simp_all add: rect_width_small rect_height_small rect_small_def)
  have u: "u32_of (rect_width dr) = ?n" "u32_of (rect_height dr) = ?rows" "u32_of (rx1 dr) = ?dx" "u32_of (ry1 dr) = ?dy"
    unfolding wh using ne lim small by simp_all
  have si: "i32 (int sx) = int sx" "i32 (int sy) = int sy"
    using assms(4,5) small by (simp_all add: i32_small)
  have li: "int sx + (rx2 dr - rx1 dr) \<le> ?W" "int sy + (ry2 dr - ry1 dr) \<le> ?H"
    using assms(4,5) ne by linarith+
  have src: "rect_contains (fb_bounds fb) (rect_new (i32 (int sx)) (i32 (int sy)) (rect_width dr) (rect_height dr))"
    using li ne lim small unfolding si wh
    by (simp add: rect_contains_def fb_bounds_ok [OF assms(1)] rect_new_def i32_small rect_is_empty_def)
  let ?order = "if i32 (int sy) < ry1 dr then rev [0 ..< ?rows] else [0 ..< ?rows]"
  have set: "set ?order = {0 ..< ?rows}" "distinct ?order" by simp_all
  have sorted: "sorted_wrt (\<lambda>i j. ?dy + i \<noteq> sy + j) ?order"
  proof (cases "i32 (int sy) < ry1 dr")
    case True
    then have lt: "sy < ?dy" using si lim by simp
    have "sorted_wrt (\<lambda>i j. j < i) (rev [0 ..< ?rows])"
      unfolding sorted_wrt_rev by simp
    then have "sorted_wrt (\<lambda>i j. ?dy + i \<noteq> sy + j) (rev [0 ..< ?rows])"
      by (rule sorted_wrt_mono_rel [rotated]) (use lt in auto)
    with True show ?thesis by simp
  next
    case False
    then have ge: "?dy \<le> sy" using si lim by simp
    have "sorted_wrt (\<lambda>i j. i < j) [0 ..< ?rows]" by simp
    then have "sorted_wrt (\<lambda>i j. ?dy + i \<noteq> sy + j) [0 ..< ?rows]"
      by (rule sorted_wrt_mono_rel [rotated]) (use ge in auto)
    with False show ?thesis by simp
  qed
  have rng: "\<forall>i\<in>set ?order. sy + i < fb_height fb \<and> ?dy + i < fb_height fb"
    unfolding set using assms(5) lim ne by auto
  have "?dx + ?n \<le> fb_width fb" using ne lim by simp
  from copy_rows_spec [OF assms(1,4) this rng sorted set(2)] obtain d where
    d: "copy_rows ?order (\<lambda>i. (sy + i) * fb_stride fb + sx * FB_BPP) (\<lambda>i. (?dy + i) * fb_stride fb + ?dx * FB_BPP)
      (?n * FB_BPP) (fb_data fb) = Some d" "fb_same fb (fb\<lparr>fb_data := d\<rparr>)"
    and p: "\<And>x' y'. x' < fb_width fb \<Longrightarrow> y' < fb_height fb \<Longrightarrow> fb_px (fb\<lparr>fb_data := d\<rparr>) x' y' =
        (if ?dy \<le> y' \<and> y' - ?dy \<in> set ?order \<and> ?dx \<le> x' \<and> x' < ?dx + ?n
         then fb_px fb (sx + (x' - ?dx)) (sy + (y' - ?dy)) else fb_px fb x' y')"
    by blast
  have "fb_copy_within fb sx sy dr = Some (fb\<lparr>fb_data := d\<rparr>)"
    using d(1) src assms(2) unfolding fb_copy_within_def Let_def inter u by simp
  moreover have "fb_px (fb\<lparr>fb_data := d\<rparr>) x' y' =
      (if (int x', int y') \<in> rect_pixels dr
       then fb_px fb (sx + (x' - ?dx)) (sy + (y' - ?dy)) else fb_px fb x' y')"
    if "x' < fb_width fb" "y' < fb_height fb" for x' y'
  proof -
    have "(int x', int y') \<in> rect_pixels dr \<longleftrightarrow>
        ?dy \<le> y' \<and> y' - ?dy \<in> set ?order \<and> ?dx \<le> x' \<and> x' < ?dx + ?n"
      unfolding in_rect_pixels set using ne lim by auto
    then show ?thesis using p [OF that] by (simp only:)
  qed
  ultimately show ?thesis using d(2) by auto
qed

end
