(* ===== verification/Convert.thy ===== *)
theory Convert
  imports Framebuffers Pixel_Formats
begin

text \<open>
  \<open>convert.rs\<close> and the \<open>Unpacker\<close> of \<open>decode.rs\<close>: the framebuffer's BGRX pixels into a client's
  format and back. Channel arithmetic is on \<open>u32\<close> words as in the source; a shift by 32 or more
  is masked to five bits, as in the release build.

  The laws: the packed pixel of an accepted format fits its width, and unpacking returns, channel
  by channel, a value that differs from the original by less than one step of the channel, hence
  exactly the original for channels of eight bits or more.
\<close>

section \<open>Packing\<close>

definition is_native :: "pixel_format \<Rightarrow> bool" where
  "is_native pf \<longleftrightarrow> pf = bgrx32"

record packer =
  pk_red_max :: u32
  pk_green_max :: u32
  pk_blue_max :: u32
  pk_red_shift :: u32
  pk_green_shift :: u32
  pk_blue_shift :: u32

definition packer_new :: "pixel_format \<Rightarrow> packer" where
  "packer_new pf =
    \<lparr>pk_red_max = ucast (red_max pf), pk_green_max = ucast (green_max pf), pk_blue_max = ucast (blue_max pf),
     pk_red_shift = ucast (red_shift pf), pk_green_shift = ucast (green_shift pf),
     pk_blue_shift = ucast (blue_shift pf)\<rparr>"

definition shl :: "u32 \<Rightarrow> u32 \<Rightarrow> u32" where
  "shl v s = push_bit (unat s mod 32) v"

definition shr :: "u32 \<Rightarrow> u32 \<Rightarrow> u32" where
  "shr v s = drop_bit (unat s mod 32) v"

definition scale :: "u8 \<Rightarrow> u32 \<Rightarrow> u32" where
  "scale c mx = (if mx = 255 then ucast c else (ucast c * mx + 127) div 255)"

definition pack :: "packer \<Rightarrow> bytes \<Rightarrow> u32" where
  "pack p px =
    shl (scale (px ! 2) (pk_red_max p)) (pk_red_shift p)
    OR shl (scale (px ! 1) (pk_green_max p)) (pk_green_shift p)
    OR shl (scale (px ! 0) (pk_blue_max p)) (pk_blue_shift p)"

text \<open>One pixel in the client's format: the five arms of \<open>convert_row\<close>.\<close>

definition packed_bytes :: "pixel_format \<Rightarrow> u32 \<Rightarrow> bytes" where
  "packed_bytes pf v =
    (if bits_per_pixel pf = 8 then [ucast v]
     else if bits_per_pixel pf = 16 then (if big_endian pf then be16 (ucast v) else le16 (ucast v))
     else (if big_endian pf then be32 v else le32 v))"

definition convert_row :: "bytes \<Rightarrow> pixel_format \<Rightarrow> bytes" where
  "convert_row src pf =
    (if is_native pf then src
     else concat (map (\<lambda>px. packed_bytes pf (pack (packer_new pf) px)) (chunks 4 src)))"

section \<open>Unpacking\<close>

record unpacker =
  un_bytes :: nat
  un_big_endian :: bool
  un_red :: "u32 \<times> u32"
  un_green :: "u32 \<times> u32"
  un_blue :: "u32 \<times> u32"

definition unpacker_new :: "pixel_format \<Rightarrow> unpacker" where
  "unpacker_new pf =
    \<lparr>un_bytes = bytes_per_pixel pf, un_big_endian = big_endian pf,
     un_red = (ucast (red_shift pf), ucast (red_max pf)),
     un_green = (ucast (green_shift pf), ucast (green_max pf)),
     un_blue = (ucast (blue_shift pf), ucast (blue_max pf))\<rparr>"

definition channel :: "u32 \<Rightarrow> u32 \<times> u32 \<Rightarrow> u8" where
  "channel v sm =
    (let shift = fst sm; mx = snd sm in
     if mx = 0 then 0
     else
       let raw = shr v shift AND mx in
       if mx = 255 then ucast raw else ucast ((raw * 255 + mx div 2) div mx))"

text \<open>The word of up to four bytes, the rest zero: \<open>word[..n].copy_from_slice\<close> and
  \<open>u32::from_le_bytes\<close>, the bytes turned round first for a big-endian format.\<close>

definition word_of_bytes :: "bytes \<Rightarrow> u32" where
  "word_of_bytes bs = from_le32 (bs @ replicate (4 - length bs) 0)"

definition unpack :: "unpacker \<Rightarrow> bytes \<Rightarrow> bytes" where
  "unpack u src =
    (let s = take (un_bytes u) src;
         value = word_of_bytes (if un_big_endian u then rev s else s) in
     [channel value (un_blue u), channel value (un_green u), channel value (un_red u), 0])"

section \<open>Bytes and back\<close>

lemma length_packed:
  "bits_per_pixel pf \<in> {8, 16, 32} \<Longrightarrow> length (packed_bytes pf v) = bytes_per_pixel pf"
  by (auto simp: packed_bytes_def bytes_per_pixel_def)

lemma word_of_le32 [simp]: "word_of_bytes (le32 v) = v"
  by (simp add: word_of_bytes_def)

lemma word_of_le16 [simp]: "word_of_bytes (le16 v) = ucast v"
proof (rule bit_word_eqI)
  fix n assume "n < LENGTH(32)"
  then consider "n < 8" | "8 \<le> n" "n < 16" | "16 \<le> n" by fastforce
  then show "bit (word_of_bytes (le16 v)) n = bit (ucast v :: u32) n"
    by cases (auto simp: word_of_bytes_def le16_def be16_def from_le32_def from_be32_def bit_simps
        dest: bit_imp_le_length)
qed

lemma word_of_u8 [simp]: "word_of_bytes [b] = ucast b"
  by (simp add: word_of_bytes_def from_le32_def from_be32_def)

lemma ucast_small:
  "unat (v :: u32) < 2 ^ 16 \<Longrightarrow> ucast (ucast v :: u16) = v"
  "unat (v :: u32) < 2 ^ 8 \<Longrightarrow> ucast (ucast v :: u8) = v"
  by (simp_all add: word_unat_eq_iff unsigned_ucast_eq unsigned_take_bit_eq take_bit_nat_eq_self)

lemma word_of_packed:
  assumes "bits_per_pixel pf \<in> {8, 16, 32}" "unat v < 2 ^ unat (bits_per_pixel pf)"
  shows "word_of_bytes (if big_endian pf then rev (packed_bytes pf v) else packed_bytes pf v) = v"
proof -
  have r: "rev (be16 w) = le16 w" "rev (be32 x) = le32 x" for w x by (simp_all add: le16_def le32_def)
  from assms(1) consider "bits_per_pixel pf = 8" | "bits_per_pixel pf = 16" | "bits_per_pixel pf = 32" by blast
  then show ?thesis
    using assms(2) by cases (simp_all add: packed_bytes_def r ucast_small)
qed

section \<open>One channel\<close>

text \<open>The arithmetic on naturals: down to \<open>0..=m\<close> and back up to a byte.\<close>

definition chan_down :: "nat \<Rightarrow> nat \<Rightarrow> nat" where
  "chan_down c m = (if m = 255 then c else (c * m + 127) div 255)"

definition chan_up :: "nat \<Rightarrow> nat \<Rightarrow> nat" where
  "chan_up a m = (if m = 255 then a else (a * 255 + m div 2) div m)"

lemma chan_down_le: "c \<le> 255 \<Longrightarrow> chan_down c m \<le> m"
proof -
  assume "c \<le> 255"
  then have "c * m + 127 \<le> 255 * m + 127" by simp
  then have "(c * m + 127) div 255 \<le> (255 * m + 127) div 255" by (rule div_le_mono)
  then show ?thesis using \<open>c \<le> 255\<close> by (simp add: chan_down_def)
qed

lemma chan_up_le: "a \<le> m \<Longrightarrow> 0 < m \<Longrightarrow> chan_up a m \<le> 255"
proof -
  assume a: "a \<le> m" "0 < m"
  have "(a * 255 + m div 2) div m < 256"
  proof -
    have "a * 255 + m div 2 < 256 * m" using a by linarith
    then show ?thesis by (simp add: div_less_iff_less_mult a(2))
  qed
  with a show ?thesis by (simp add: chan_up_def)
qed

lemma down_up:
  assumes "0 < m"
  shows "int m * \<bar>int (chan_up (chan_down c m) m) - int c\<bar> \<le> 127 + int m div 2"
proof (cases "m = 255")
  case False
  let ?a = "(c * m + 127) div 255" and ?r = "(c * m + 127) mod 255"
  let ?b = "(?a * 255 + m div 2) div m" and ?s = "(?a * 255 + m div 2) mod m"
  have 1: "?a * 255 + ?r = c * m + 127" and r: "?r < 255" by simp_all
  have 2: "?b * m + ?s = ?a * 255 + m div 2" and s: "?s < m" using assms by simp_all
  have 1: "int ?a * 255 + int ?r = int c * int m + 127"
    using arg_cong [OF 1, of int] by (simp only: of_nat_add of_nat_mult of_nat_numeral)
  have 2: "int ?b * int m + int ?s = int ?a * 255 + int (m div 2)"
    using arg_cong [OF 2, of int] by (simp only: of_nat_add of_nat_mult of_nat_numeral)
  have "int ?s - int (m div 2) \<le> 127 + int (m div 2)" using s by linarith
  then have "\<bar>int ?b * int m - int c * int m\<bar> \<le> 127 + int (m div 2)"
    using 1 2 r s by linarith
  moreover have "int ?b * int m - int c * int m = int m * (int ?b - int c)" by (simp only: algebra_simps)
  ultimately have "int m * \<bar>int ?b - int c\<bar> \<le> 127 + int (m div 2)"
    by (simp only: abs_mult abs_of_nat)
  then show ?thesis using False by (simp only: chan_down_def chan_up_def if_False zdiv_int of_nat_numeral)
qed (simp add: chan_down_def chan_up_def)

lemma down_up_exact: "255 \<le> m \<Longrightarrow> chan_up (chan_down c m) m = c"
proof (rule ccontr)
  assume m: "255 \<le> m" and n: "chan_up (chan_down c m) m \<noteq> c"
  then have "1 \<le> \<bar>int (chan_up (chan_down c m) m) - int c\<bar>" by simp
  then have "int m \<le> int m * \<bar>int (chan_up (chan_down c m) m) - int c\<bar>"
    using mult_left_mono [of 1 "\<bar>int (chan_up (chan_down c m) m) - int c\<bar>" "int m"] by (simp only: mult_1_right of_nat_0_le_iff)
  moreover have "0 < m" using m by simp
  ultimately show False using down_up [of m c] m by linarith
qed

section \<open>Pixels\<close>

lemma unat_scale: "unat (scale c (ucast (m :: u16))) = chan_down (unat c) (unat m)"
proof -
  have c: "unat c \<le> 255" using unat_bounds(1) [of c] by simp
  have m: "unat m \<le> 65535" using unat_bounds(2) [of m] by simp
  have b: "unat c * unat m \<le> 255 * 65535" using c m by (rule mult_le_mono)
  have "unat (ucast c * ucast m :: u32) = unat c * unat m"
    using b by (simp add: unat_word_ariths mod_less)
  then have "unat (ucast c * ucast m + 127 :: u32) = unat c * unat m + 127"
    using b by (simp add: unat_word_ariths(1) mod_less)
  moreover have "(ucast m :: u32) = 255 \<longleftrightarrow> unat m = 255"
    by (simp add: word_unat_eq_iff)
  ultimately show ?thesis
    by (simp add: scale_def chan_down_def unat_div)
qed

lemma small_bits: "unat (x :: u32) < 2 ^ k \<Longrightarrow> bit x n \<Longrightarrow> n < k"
proof -
  assume "unat x < 2 ^ k" and b: "bit x n"
  then have "take_bit k (unat x) = unat x" by (simp add: take_bit_nat_eq_self)
  moreover have "bit (unat x) n" using b by (simp add: bit_unsigned_iff bit_imp_le_length)
  ultimately show "n < k" by (metis bit_take_bit_iff)
qed

lemma mask_bits:
  assumes "unat (m :: u16) = 2 ^ k - 1"
  shows "bit (ucast m :: u32) n \<longleftrightarrow> n < k \<and> n < 16"
proof -
  have "bit m n \<longleftrightarrow> n < 16 \<and> bit (unat m) n" by (auto simp: bit_unsigned_iff dest: bit_imp_le_length)
  also have "bit (unat m) n \<longleftrightarrow> n < k"
    unfolding assms mask_eq_exp_minus_1 [symmetric] by (simp add: bit_mask_iff)
  finally show ?thesis by (auto simp: bit_simps dest: bit_imp_le_length)
qed

text \<open>The bits a channel owns in a packed pixel, and formats whose channels do not share any.\<close>

definition owned :: "u16 \<Rightarrow> u8 \<Rightarrow> u32" where
  "owned m s = shl (ucast m) (ucast s)"

definition channels_apart :: "pixel_format \<Rightarrow> bool" where
  "channels_apart pf \<longleftrightarrow>
    owned (red_max pf) (red_shift pf) AND owned (green_max pf) (green_shift pf) = 0
    \<and> owned (red_max pf) (red_shift pf) AND owned (blue_max pf) (blue_shift pf) = 0
    \<and> owned (green_max pf) (green_shift pf) AND owned (blue_max pf) (blue_shift pf) = 0"

definition channel_at :: "u16 \<Rightarrow> u8 \<Rightarrow> nat \<Rightarrow> bool" where
  "channel_at m s k \<longleftrightarrow> 0 < k \<and> unat m = 2 ^ k - 1 \<and> unat s + k \<le> 32"

lemma channel_atD:
  assumes "channel_at m s k" shows "0 < k" "unat m = 2 ^ k - 1" "unat s + k \<le> 32"
  using assms by (simp_all add: channel_at_def)

lemma k16: assumes ch: "channel_at m s k" shows "k \<le> 16"
proof (rule ccontr)
  assume "\<not> k \<le> 16"
  then have "(2::nat) ^ 17 \<le> 2 ^ k" by (intro power_increasing) simp_all
  with channel_atD(2) [OF ch] unat_bounds(2) [of m] show False by simp
qed

lemma shift_small: "channel_at m s k \<Longrightarrow> unat s mod 32 = unat s"
  by (simp add: channel_at_def)

lemma scale_small: assumes ch: "channel_at m s k" shows "unat (scale c (ucast m)) < 2 ^ k"
proof -
  have "chan_down (unat c) (unat m) \<le> unat m" using unat_bounds(1) [of c] by (intro chan_down_le) simp
  then show ?thesis unfolding unat_scale using channel_atD(2) [OF ch] by (simp add: le_less_trans)
qed

lemma scaled_bits:
  assumes ch: "channel_at m s k"
  shows "bit (shl (scale c (ucast m)) (ucast s)) n \<Longrightarrow> bit (owned m s) n"
  using small_bits [OF scale_small [OF ch], of c "n - unat s"] k16 [OF ch]
  by (auto simp: shl_def owned_def shift_small [OF ch] bit_push_bit_iff mask_bits [OF channel_atD(2) [OF ch]])

lemma channel_extract:
  assumes ch: "channel_at m s k" and y: "\<And>n. bit y n \<Longrightarrow> \<not> bit (owned m s) n"
  shows "shr (shl (scale c (ucast m)) (ucast s) OR y) (ucast s) AND ucast m = scale c (ucast m)"
proof (rule bit_word_eqI)
  fix n assume n: "n < LENGTH(32)"
  let ?x = "scale c (ucast m)"
  note kb = channel_atD [OF ch] k16 [OF ch]
  have x: "bit ?x n \<Longrightarrow> n < k" using small_bits [OF scale_small [OF ch]] .
  have yn: "n < k \<Longrightarrow> \<not> bit y (unat s + n)"
  proof
    assume "n < k" "bit y (unat s + n)"
    moreover have "bit (owned m s) (unat s + n)" if "n < k"
      using that kb by (simp add: owned_def shl_def shift_small [OF ch] bit_push_bit_iff mask_bits [OF kb(2)])
    ultimately show False using y by blast
  qed
  show "bit (shr (shl ?x (ucast s) OR y) (ucast s) AND ucast m) n = bit ?x n"
    using x yn kb
    by (auto simp: shr_def shl_def shift_small [OF ch] bit_and_iff bit_drop_bit_eq bit_or_iff bit_push_bit_iff
        mask_bits [OF kb(2)])
qed

lemma channel_raw:
  "shr v s AND m = x \<Longrightarrow> channel v (s, m) =
    (if m = 0 then 0 else if m = 255 then ucast x else ucast ((x * 255 + m div 2) div m))"
  by (simp add: channel_def)

lemma channel_value:
  assumes ch: "channel_at m s k" and y: "\<And>n. bit y n \<Longrightarrow> \<not> bit (owned m s) n"
  shows "channel (shl (scale c (ucast m)) (ucast s) OR y) (ucast s, ucast m)
    = of_nat (chan_up (chan_down (unat c) (unat m)) (unat m))"
proof -
  let ?a = "chan_down (unat c) (unat m)"
  have m: "0 < unat m"
  proof -
    have "(2::nat) ^ 1 \<le> 2 ^ k" using channel_atD(1) [OF ch] by (intro power_increasing) simp_all
    then show ?thesis using channel_atD(2) [OF ch] by simp
  qed
  then have m0: "(ucast m :: u32) \<noteq> 0" by (auto simp: word_unat_eq_iff)
  have a: "?a \<le> unat m" using unat_bounds(1) [of c] by (intro chan_down_le) simp
  have mb: "unat m \<le> 65535" using unat_bounds(2) [of m] by simp
  have "?a * 255 \<le> 65535 * 255" using a mb by simp
  then have "unat (scale c (ucast m) * 255 + ucast m div 2 :: u32) = ?a * 255 + unat m div 2"
    using mb by (simp add: unat_word_ariths unat_scale unat_div mod_less)
  then have d: "unat ((scale c (ucast m) * 255 + ucast m div 2) div ucast m :: u32) = (?a * 255 + unat m div 2) div unat m"
    by (simp add: unat_div)
  have e: "(ucast m :: u32) = 255 \<longleftrightarrow> unat m = 255" by (simp add: word_unat_eq_iff)
  have u: "(ucast w :: u8) = of_nat (unat w)" for w :: u32 by simp
  have ex: "shr (shl (scale c (ucast m)) (ucast s) OR y) (ucast s) AND ucast m = scale c (ucast m)"
    by (rule channel_extract [OF ch]) (rule y)
  have "channel (shl (scale c (ucast m)) (ucast s) OR y) (ucast s, ucast m) =
      (if (ucast m :: u32) = 0 then 0 else if (ucast m :: u32) = 255 then of_nat (unat (scale c (ucast m)))
       else of_nat (unat ((scale c (ucast m) * 255 + ucast m div 2) div ucast m)))"
    using channel_raw [OF ex] by (simp only: u cong: if_cong)
  then show ?thesis
    using m0 e d by (simp add: chan_up_def unat_scale split: if_splits)
qed

section \<open>A pixel there and back\<close>

lemma channel_fits_at: "channel_fits bpp (m, s) \<Longrightarrow> unat bpp \<le> 32 \<Longrightarrow> \<exists>k. channel_at m s k \<and> unat s + k \<le> unat bpp"
  by (auto simp: channel_fits_def channel_at_def)

definition there_and_back :: "u16 \<Rightarrow> u8 \<Rightarrow> u8" where
  "there_and_back m c = of_nat (chan_up (chan_down (unat c) (unat m)) (unat m))"

lemma there_and_back_near:
  "0 < unat m \<Longrightarrow> int (unat m) * \<bar>int (unat (there_and_back m c)) - int (unat c)\<bar> \<le> 127 + int (unat m) div 2"
proof -
  assume m: "0 < unat m"
  have "chan_up (chan_down (unat c) (unat m)) (unat m) \<le> 255"
    using chan_up_le [OF chan_down_le m] unat_bounds(1) [of c] by simp
  then have "unat (there_and_back m c) = chan_up (chan_down (unat c) (unat m)) (unat m)"
    by (simp add: there_and_back_def unat_of_nat)
  with down_up [OF m, of "unat c"] show ?thesis by simp
qed

lemma there_and_back_exact: "255 \<le> unat m \<Longrightarrow> there_and_back m c = c"
  by (simp add: there_and_back_def down_up_exact)

lemma apart_bits: "x AND y = (0 :: u32) \<Longrightarrow> bit x n \<Longrightarrow> \<not> bit y n"
  by (metis bit_and_iff bit_0_eq bot_apply bot_bool_def)

lemma unpack_value:
  fixes px :: bytes
  assumes "pf_validate pf = Inr ()" "channels_apart pf"
  defines "v \<equiv> pack (packer_new pf) px"
  shows "channel v (un_red (unpacker_new pf)) = there_and_back (red_max pf) (px ! 2)"
    and "channel v (un_green (unpacker_new pf)) = there_and_back (green_max pf) (px ! 1)"
    and "channel v (un_blue (unpacker_new pf)) = there_and_back (blue_max pf) (px ! 0)"
    and "unat v < 2 ^ unat (bits_per_pixel pf)"
proof -
  have bpp: "bits_per_pixel pf \<in> {8, 16, 32}" using assms(1) by (simp add: pf_validate_ok)
  then have b32: "unat (bits_per_pixel pf) \<le> 32" by auto
  obtain kr kg kb where r: "channel_at (red_max pf) (red_shift pf) kr" "unat (red_shift pf) + kr \<le> unat (bits_per_pixel pf)"
    and g: "channel_at (green_max pf) (green_shift pf) kg" "unat (green_shift pf) + kg \<le> unat (bits_per_pixel pf)"
    and b: "channel_at (blue_max pf) (blue_shift pf) kb" "unat (blue_shift pf) + kb \<le> unat (bits_per_pixel pf)"
    using assms(1) channel_fits_at [OF _ b32] unfolding pf_validate_ok by metis
  let ?R = "shl (scale (px ! 2) (ucast (red_max pf))) (ucast (red_shift pf))"
  let ?G = "shl (scale (px ! 1) (ucast (green_max pf))) (ucast (green_shift pf))"
  let ?B = "shl (scale (px ! 0) (ucast (blue_max pf))) (ucast (blue_shift pf))"
  have v: "v = ?R OR (?G OR ?B)" "v = ?G OR (?R OR ?B)" "v = ?B OR (?R OR ?G)"
    by (simp_all add: v_def pack_def packer_new_def ac_simps)
  note R = scaled_bits [OF r(1), of "px ! 2"] and G = scaled_bits [OF g(1), of "px ! 1"] and B = scaled_bits [OF b(1), of "px ! 0"]
  have rg: "bit (owned (red_max pf) (red_shift pf)) n \<Longrightarrow> \<not> bit (owned (green_max pf) (green_shift pf)) n"
    and rb: "bit (owned (red_max pf) (red_shift pf)) n \<Longrightarrow> \<not> bit (owned (blue_max pf) (blue_shift pf)) n"
    and gb: "bit (owned (green_max pf) (green_shift pf)) n \<Longrightarrow> \<not> bit (owned (blue_max pf) (blue_shift pf)) n" for n
    using assms(2) apart_bits unfolding channels_apart_def by blast+
  show "channel v (un_red (unpacker_new pf)) = there_and_back (red_max pf) (px ! 2)"
    unfolding v(1) unpacker_new_def there_and_back_def unpacker.simps
    by (rule channel_value [OF r(1)]) (use G B rg rb in \<open>auto simp: bit_or_iff\<close>)
  show "channel v (un_green (unpacker_new pf)) = there_and_back (green_max pf) (px ! 1)"
    unfolding v(2) unpacker_new_def there_and_back_def unpacker.simps
    by (rule channel_value [OF g(1)]) (use R B rg gb in \<open>auto simp: bit_or_iff\<close>)
  show "channel v (un_blue (unpacker_new pf)) = there_and_back (blue_max pf) (px ! 0)"
    unfolding v(3) unpacker_new_def there_and_back_def unpacker.simps
    by (rule channel_value [OF b(1)]) (use R G rb gb in \<open>auto simp: bit_or_iff\<close>)
  have lim: "bit (owned m s) n \<Longrightarrow> n < unat (bits_per_pixel pf)"
    if "channel_at m s k" "unat s + k \<le> unat (bits_per_pixel pf)" for m s k n
    using that k16 [OF that(1)]
    by (auto simp: owned_def shl_def shift_small [OF that(1)] bit_push_bit_iff mask_bits [OF channel_atD(2) [OF that(1)]])
  have "bit v n \<Longrightarrow> n < unat (bits_per_pixel pf)" for n
    unfolding v(1) bit_or_iff using R G B lim [OF r] lim [OF g] lim [OF b] by blast
  then have "take_bit (unat (bits_per_pixel pf)) v = v"
    by (intro bit_word_eqI) (auto simp: bit_take_bit_iff)
  then have "take_bit (unat (bits_per_pixel pf)) (unat v) = unat v"
    by (metis unsigned_take_bit_eq)
  then show "unat v < 2 ^ unat (bits_per_pixel pf)"
    by (metis take_bit_nat_less_exp)
qed

lemma native_unpack:
  assumes "length px = 4" shows "unpack (unpacker_new bgrx32) px = [px ! 0, px ! 1, px ! 2, 0]"
proof -
  obtain b g r x where px: "px = [b, g, r, x]"
    using assms by (auto simp: length_Suc_conv eval_nat_numeral)
  have m: "(255 :: u32) = mask 8" by (simp add: mask_eq_exp_minus_1)
  have c: "channel v (s, 255) = ucast (shr v s AND mask 8)" for v s
    by (simp add: channel_def m [symmetric])
  have "channel (from_le32 px) (0, 255) = b"
    unfolding c px
    by (rule bit_word_eqI) (auto simp: shr_def from_le32_def from_be32_def bit_simps dest: bit_imp_le_length)
  moreover have "channel (from_le32 px) (8, 255) = g"
    unfolding c px
    by (rule bit_word_eqI) (auto simp: shr_def from_le32_def from_be32_def bit_simps dest: bit_imp_le_length)
  moreover have "channel (from_le32 px) (16, 255) = r"
    unfolding c px
    by (rule bit_word_eqI) (auto simp: shr_def from_le32_def from_be32_def bit_simps dest: bit_imp_le_length)
  ultimately show ?thesis
    by (simp add: unpack_def unpacker_new_def bgrx32_def bytes_per_pixel_def word_of_bytes_def Let_def assms px)
qed

end
