(* ===== verification/Raster.thy ===== *)
theory Raster
  imports Convert Encodings
begin

text \<open>
  The simple encoders: \<open>raw.rs\<close>, \<open>copyrect.rs\<close>, \<open>cursor.rs\<close>, the row reading every encoder
  shares, and the cursor over a payload of \<open>decode.rs\<close>. Encoders return the bytes they append;
  \<open>None\<close> is a panic (a slice out of range, a chunk size of zero).

  \<open>tile_px\<close> lists the pixels of a rectangle in reading order; the laws state what an encoder sends
  in terms of it, and what unpacking those bytes gives with \<open>through\<close>, the picture the client's
  format can hold (named after the tests' own function).
\<close>

section \<open>Reading rows\<close>

text \<open>The loop of \<open>raw::encode\<close>, \<open>Hextile::read\<close> and \<open>Zrle::read\<close>: the rows of a rectangle, converted.\<close>

fun read_rows :: "framebuffer \<Rightarrow> int list \<Rightarrow> nat \<Rightarrow> nat \<Rightarrow> pixel_format \<Rightarrow> bytes option" where
  "read_rows fb [] x w pf = Some []"
| "read_rows fb (y # ys) x w pf =
    (case row_span fb (u32_of y) x w of
       None \<Rightarrow> None
     | Some s \<Rightarrow> (case read_rows fb ys x w pf of None \<Rightarrow> None | Some rest \<Rightarrow> Some (convert_row s pf @ rest)))"

definition read_tile :: "framebuffer \<Rightarrow> rect \<Rightarrow> pixel_format \<Rightarrow> bytes option" where
  "read_tile fb tile pf =
    read_rows fb (irange (ry1 tile) (ry2 tile)) (u32_of (rx1 tile)) (u32_of (rect_width tile)) pf"

definition raw_encode :: "framebuffer \<Rightarrow> rect \<Rightarrow> pixel_format \<Rightarrow> bytes option" where
  "raw_encode fb rect pf =
    (let r = rect_intersection rect (fb_bounds fb) in
     if rect_is_empty r then Some [] else read_tile fb r pf)"

definition copyrect_encode :: "u16 \<Rightarrow> u16 \<Rightarrow> bytes" where
  "copyrect_encode sx sy = be16 sx @ be16 sy"

section \<open>The pointer\<close>

record cursor_shape =
  cs_width :: nat
  cs_height :: nat
  cs_hot_x :: nat
  cs_hot_y :: nat
  cs_rgba :: bytes

definition cursor_shape_new :: "nat \<Rightarrow> nat \<Rightarrow> nat \<Rightarrow> nat \<Rightarrow> bytes \<Rightarrow> cursor_shape option" where
  "cursor_shape_new w h hx hy rgba =
    (if length rgba = w * h * 4
     then Some \<lparr>cs_width = w, cs_height = h, cs_hot_x = hx, cs_hot_y = hy, cs_rgba = rgba\<rparr> else None)"

definition cursor_hidden :: cursor_shape where
  "cursor_hidden = \<lparr>cs_width = 0, cs_height = 0, cs_hot_x = 0, cs_hot_y = 0, cs_rgba = []\<rparr>"

definition cursor_is_hidden :: "cursor_shape \<Rightarrow> bool" where
  "cursor_is_hidden s \<longleftrightarrow> cs_width s = 0 \<or> cs_height s = 0"

definition cursor_line :: "pixel_format \<Rightarrow> bytes \<Rightarrow> bytes" where
  "cursor_line pf line = convert_row (concat (map (\<lambda>px. [px ! 2, px ! 1, px ! 0, 0]) (chunks 4 line))) pf"

text \<open>\<open>out[start + x / 8] |= 0x80 >> (x % 8)\<close> for every opaque enough pixel of the line.\<close>

fun mask_bits_loop :: "nat \<Rightarrow> bytes list \<Rightarrow> bytes \<Rightarrow> bytes" where
  "mask_bits_loop x [] out = out"
| "mask_bits_loop x (px # pxs) out =
    mask_bits_loop (Suc x) pxs
      (if px ! 3 \<ge> 128 then out[x div 8 := out ! (x div 8) OR drop_bit (x mod 8) 0x80] else out)"

definition mask_line :: "nat \<Rightarrow> bytes \<Rightarrow> bytes" where
  "mask_line w line = mask_bits_loop 0 (chunks 4 line) (replicate ((w + 7) div 8) 0)"

text \<open>\<open>chunks_exact\<close> of size zero panics, whatever the slice.\<close>

definition encode_cursor :: "cursor_shape \<Rightarrow> pixel_format \<Rightarrow> bytes option" where
  "encode_cursor s pf =
    (let w = cs_width s in
     if w * 4 = 0 then None
     else
       let ls = chunks (w * 4) (cs_rgba s) in
       Some (concat (map (cursor_line pf) ls) @ concat (map (mask_line w) ls)))"

definition encode_cursor_with_alpha :: "cursor_shape \<Rightarrow> bytes" where
  "encode_cursor_with_alpha s = be_i32 0 @ cs_rgba s"

section \<open>Reading a payload\<close>

text \<open>The decoder's errors; \<open>Panicked\<close> is not one of the source's values: it stands for an index out
  of range unwinding.\<close>

datatype decode_error = Malformed string | EndsEarly nat | Panicked

record reader =
  rd_data :: bytes
  rd_at :: nat

definition reader_new :: "bytes \<Rightarrow> reader" where
  "reader_new data = \<lparr>rd_data = data, rd_at = 0\<rparr>"

definition rd_byte :: "reader \<Rightarrow> decode_error + (u8 \<times> reader)" where
  "rd_byte r =
    (if rd_at r < length (rd_data r) then Inr (rd_data r ! rd_at r, r\<lparr>rd_at := rd_at r + 1\<rparr>)
     else Inl (EndsEarly 1))"

definition rd_take :: "nat \<Rightarrow> reader \<Rightarrow> decode_error + (bytes \<times> reader)" where
  "rd_take n r =
    (let e = rd_at r + n in
     if e \<le> length (rd_data r) then Inr (take n (drop (rd_at r) (rd_data r)), r\<lparr>rd_at := e\<rparr>)
     else Inl (EndsEarly (e - length (rd_data r))))"

section \<open>Pixels of a rectangle\<close>

definition tile_px :: "framebuffer \<Rightarrow> rect \<Rightarrow> bytes list" where
  "tile_px fb r = concat (map (\<lambda>y. map (\<lambda>x. fb_px fb (nat x) (nat y)) (irange (rx1 r) (rx2 r))) (irange (ry1 r) (ry2 r)))"

definition in_picture :: "framebuffer \<Rightarrow> rect \<Rightarrow> bool" where
  "in_picture fb r \<longleftrightarrow> 0 \<le> rx1 r \<and> rx1 r \<le> rx2 r \<and> rx2 r \<le> int (fb_width fb)
    \<and> 0 \<le> ry1 r \<and> ry1 r \<le> ry2 r \<and> ry2 r \<le> int (fb_height fb)"

definition through :: "pixel_format \<Rightarrow> bytes \<Rightarrow> bytes" where
  "through pf px = [there_and_back (blue_max pf) (px ! 0), there_and_back (green_max pf) (px ! 1),
    there_and_back (red_max pf) (px ! 2), 0]"

lemma length_fb_px:
  assumes "fb_ok fb" "x < fb_width fb" "y < fb_height fb" shows "length (fb_px fb x y) = 4"
  using pos_bound [of x 1 "fb_width fb" y "fb_height fb"] assms by (simp add: fb_px_def fb_ok_def)

lemma in_picture_width:
  assumes "fb_ok fb" "in_picture fb r"
  shows "rect_width r = rx2 r - rx1 r" "u32_of (rect_width r) = nat (rx2 r - rx1 r)" "u32_of (rx1 r) = nat (rx1 r)"
    "rect_height r = ry2 r - ry1 r" "u32_of (rect_height r) = nat (ry2 r - ry1 r)" "u32_of (ry1 r) = nat (ry1 r)"
proof -
  have "rect_small r" using assms by (simp add: in_picture_def fb_ok_def rect_small_def)
  then show w: "rect_width r = rx2 r - rx1 r" and h: "rect_height r = ry2 r - ry1 r"
    using assms(2) by (simp_all add: rect_width_small rect_height_small in_picture_def)
  show "u32_of (rect_width r) = nat (rx2 r - rx1 r)" "u32_of (rx1 r) = nat (rx1 r)"
    "u32_of (rect_height r) = nat (ry2 r - ry1 r)" "u32_of (ry1 r) = nat (ry1 r)"
    unfolding w h using assms by (simp_all add: in_picture_def fb_ok_def)
qed

lemma chunks_concat:
  "0 < n \<Longrightarrow> \<forall>x\<in>set xs. length x = n \<Longrightarrow> chunks n (concat xs) = xs"
  by (induction xs) (simp_all add: chunks_short chunks_append)

lemma convert_row_concat:
  assumes "\<forall>px\<in>set pxs. length px = 4"
  shows "convert_row (concat pxs) pf = concat (map (\<lambda>px. convert_row px pf) pxs)"
proof (cases "is_native pf")
  case False
  have one: "convert_row px pf = packed_bytes pf (pack (packer_new pf) px)" if "length px = 4" for px
    using False chunks_append [OF that, of "[]"] by (simp add: convert_row_def that chunks_short)
  have "map (\<lambda>px. convert_row px pf) pxs = map (\<lambda>px. packed_bytes pf (pack (packer_new pf) px)) pxs"
    using assms one by (intro map_cong refl) blast
  moreover have "convert_row (concat pxs) pf = concat (map (\<lambda>px. packed_bytes pf (pack (packer_new pf) px)) pxs)"
    using False chunks_concat [OF _ assms] by (simp add: convert_row_def)
  ultimately show ?thesis by (simp only:)
qed (simp add: convert_row_def)

lemma row_span_concat:
  assumes "fb_ok fb" "x + n \<le> fb_width fb" "y < fb_height fb"
  shows "row_span fb y x n = Some (concat (map (\<lambda>i. fb_px fb (x + i) y) [0 ..< n]))"
proof -
  obtain s where s: "row_span fb y x n = Some s" "length s = n * 4"
    using row_span_ok [OF assms] pos_bound [OF assms(2,3)] assms(1) by (auto simp: fb_ok_def)
  have "concat (chunks 4 t) = t" if "4 dvd length t" for t :: bytes
    using that
  proof (induction "4 :: nat" t rule: chunks.induct)
    case (1 t)
    show ?case
    proof (cases "length t < 4")
      case True
      with 1(2) have "t = []" by (auto dest: dvd_imp_le)
      then show ?thesis by (simp add: chunks_short)
    next
      case False
      moreover have "4 dvd length (drop 4 t)" using 1(2) by simp
      ultimately show ?thesis using 1(1) by (subst chunks.simps) simp
    qed
  qed
  with s(2) have "s = concat (chunks 4 s)" by simp
  with s(1) row_span_pixels [OF assms s(1)] show ?thesis by simp
qed

lemma concat_map_concat: "concat (map f (concat xss)) = concat (map (\<lambda>xs. concat (map f xs)) xss)"
  by (induction xss) simp_all

lemma length_irange [simp]: "length (irange a b) = nat (b - a)"
  by (simp add: irange_def)

lemma irange_shift: "irange a b = map (\<lambda>i. a + int i) [0 ..< nat (b - a)]"
  by (rule irange_def)

lemma read_rows_ok:
  assumes "fb_ok fb" "x + n \<le> fb_width fb" "\<forall>y\<in>set ys. 0 \<le> y \<and> y < int (fb_height fb)"
  shows "read_rows fb ys x n pf =
    Some (concat (map (\<lambda>y. concat (map (\<lambda>i. convert_row (fb_px fb (x + i) (nat y)) pf) [0 ..< n])) ys))"
  using assms(3)
proof (induction ys)
  case (Cons y ys)
  have y: "u32_of y = nat y" "nat y < fb_height fb" using Cons.prems assms(1) by (auto simp: fb_ok_def)
  have "\<forall>px\<in>set (map (\<lambda>i. fb_px fb (x + i) (nat y)) [0 ..< n]). length px = 4"
    using length_fb_px [OF assms(1) _ y(2)] assms(2) by auto
  from convert_row_concat [OF this, of pf] Cons show ?case
    using row_span_concat [OF assms(1,2) y(2)] by (simp add: y(1) comp_def)
qed simp

lemma read_tile_ok:
  assumes "fb_ok fb" "in_picture fb r"
  shows "read_tile fb r pf = Some (concat (map (\<lambda>px. convert_row px pf) (tile_px fb r)))"
proof -
  have x: "nat (rx1 r) + nat (rx2 r - rx1 r) \<le> fb_width fb"
    and ys: "\<forall>y\<in>set (irange (ry1 r) (ry2 r)). 0 \<le> y \<and> y < int (fb_height fb)"
    using assms(2) by (auto simp: in_picture_def set_irange)
  have row: "map (\<lambda>x. fb_px fb (nat x) (nat y)) (irange (rx1 r) (rx2 r))
      = map (\<lambda>i. fb_px fb (nat (rx1 r) + i) (nat y)) [0 ..< nat (rx2 r - rx1 r)]" for y
    using assms(2) by (simp add: irange_shift in_picture_def nat_add_distrib)
  show ?thesis
    using read_rows_ok [OF assms(1) x ys, of pf]
    unfolding read_tile_def in_picture_width(2,3) [OF assms] tile_px_def row concat_map_concat
    by (simp add: comp_def)
qed

lemma length_tile_px:
  "in_picture fb r \<Longrightarrow> length (tile_px fb r) = nat (rx2 r - rx1 r) * nat (ry2 r - ry1 r)"
proof -
  have "length (concat (map f ys)) = length ys * n" if "\<And>y. length (f y) = n" for f :: "'x \<Rightarrow> 'y list" and ys n
    using that by (induction ys) simp_all
  from this [of "\<lambda>y. map (\<lambda>x. fb_px fb (nat x) (nat y)) (irange (rx1 r) (rx2 r))" "nat (rx2 r - rx1 r)"]
  show ?thesis by (simp add: tile_px_def mult.commute)
qed

section \<open>One pixel, sent and received\<close>

lemma length_convert_px:
  "pf_validate pf = Inr () \<Longrightarrow> length px = 4 \<Longrightarrow> length (convert_row px pf) = bytes_per_pixel pf"
  using length_packed [of pf] chunks_append [of px 4 "[]"]
  by (auto simp: convert_row_def pf_validate_ok is_native_def chunks_short bytes_per_pixel_def bgrx32_def)

lemma unpack_sent:
  assumes "pf_validate pf = Inr ()" "channels_apart pf" "length px = 4"
  shows "unpack (unpacker_new pf) (convert_row px pf @ t) = through pf px"
proof -
  have take: "unpack u (s @ t) = unpack u s" if "length s = un_bytes u" for u s
    using that by (simp add: unpack_def)
  have bytes: "un_bytes (unpacker_new pf) = bytes_per_pixel pf" "un_big_endian (unpacker_new pf) = big_endian pf"
    by (simp_all add: unpacker_new_def)
  have "unpack (unpacker_new pf) (convert_row px pf) = through pf px"
  proof (cases "is_native pf")
    case True
    then have n: "pf = bgrx32" by (simp add: is_native_def)
    have "there_and_back 255 c = c" for c by (rule there_and_back_exact) simp
    then show ?thesis using native_unpack [OF assms(3)] True
      by (simp add: n convert_row_def through_def) (simp add: bgrx32_def)
  next
    case False
    let ?v = "pack (packer_new pf) px"
    have c: "convert_row px pf = packed_bytes pf ?v"
      using False chunks_append [OF assms(3), of "[]"] by (simp add: convert_row_def assms(3) chunks_short)
    have bpp: "bits_per_pixel pf \<in> {8, 16, 32}" using assms(1) by (simp add: pf_validate_ok)
    have "word_of_bytes (if big_endian pf then rev (packed_bytes pf ?v) else packed_bytes pf ?v) = ?v"
      using word_of_packed [OF bpp] unpack_value(4) [OF assms(1,2)] by blast
    then show ?thesis
      using unpack_value(1-3) [OF assms(1,2), of px] length_packed [OF bpp, of ?v]
      unfolding c by (simp add: unpack_def bytes through_def Let_def)
  qed
  moreover have "unpack (unpacker_new pf) (convert_row px pf @ t) = unpack (unpacker_new pf) (convert_row px pf)"
    by (rule take) (simp add: bytes length_convert_px [OF assms(1,3)])
  ultimately show ?thesis by simp
qed

end
