(* ===== verification/Hextile.thy ===== *)
theory Hextile
  imports Raster
begin

text \<open>
  \<open>hextile.rs\<close> and the Hextile half of \<open>decode.rs\<close>: a rectangle in tiles of sixteen, each sent as
  one colour, as a background with subrectangles, or as its pixels. The encoder's scratch vectors
  (\<open>bytes\<close>, \<open>keys\<close>, \<open>colours\<close>, \<open>subrects\<close>, \<open>body\<close>) are values passed along; what it carries from
  tile to tile are the two colours. The nested loops over \<open>y\<close> and \<open>x\<close> visit the list \<open>tiles\<close>.

  The laws: the subrectangles cover exactly the pixels that are not the background, each with its
  colour; a tile decodes to the pixels it was read from, with the decoder's two colours following
  the encoder's; hence decoding a rectangle gives the picture the client's format can hold and
  leaves the rest alone, using exactly the bytes sent.
\<close>

section \<open>Tiles\<close>

definition HEX_TILE :: int where "HEX_TILE = 16"
definition TOO_MANY :: nat where "TOO_MANY = 24"
definition MAX_SUBRECTS :: nat where "MAX_SUBRECTS = 255"

definition HF_RAW :: u8 where "HF_RAW = 1"
definition HF_BACKGROUND :: u8 where "HF_BACKGROUND = 2"
definition HF_FOREGROUND :: u8 where "HF_FOREGROUND = 4"
definition HF_ANY_SUBRECTS :: u8 where "HF_ANY_SUBRECTS = 8"
definition HF_SUBRECTS_COLOURED :: u8 where "HF_SUBRECTS_COLOURED = 16"

lemmas hflags = HF_RAW_def HF_BACKGROUND_def HF_FOREGROUND_def HF_ANY_SUBRECTS_def HF_SUBRECTS_COLOURED_def

text \<open>\<open>while x < rect.x2\<close> along one row of tiles, and \<open>while y < rect.y2\<close> down the rows.\<close>

function tiles_across :: "int \<Rightarrow> int \<Rightarrow> int \<Rightarrow> int \<Rightarrow> int \<Rightarrow> rect list" where
  "tiles_across T x x2 y h =
    (if 0 < T \<and> x < x2 then rect_new x y (min T (x2 - x)) h # tiles_across T (x + T) x2 y h else [])"
  by auto
termination by (relation "measure (\<lambda>(T, x, x2, y, h). nat (x2 - x))") auto

function tiles_down :: "int \<Rightarrow> int \<Rightarrow> int \<Rightarrow> int \<Rightarrow> int \<Rightarrow> rect list" where
  "tiles_down T x1 x2 y y2 =
    (if 0 < T \<and> y < y2 then tiles_across T x1 x2 y (min T (y2 - y)) @ tiles_down T x1 x2 (y + T) y2 else [])"
  by auto
termination by (relation "measure (\<lambda>(T, x1, x2, y, y2). nat (y2 - y))") auto

declare tiles_across.simps [simp del] tiles_down.simps [simp del]

definition tiles :: "int \<Rightarrow> rect \<Rightarrow> rect list" where
  "tiles T r = tiles_down T (rx1 r) (rx2 r) (ry1 r) (ry2 r)"

section \<open>Colours of a tile\<close>

fun bump_colour :: "u32 \<Rightarrow> (u32 \<times> nat) list \<Rightarrow> (u32 \<times> nat) list option" where
  "bump_colour k [] = None"
| "bump_colour k ((c, n) # cs) =
    (if c = k then Some ((c, n + 1) # cs) else map_option ((#) (c, n)) (bump_colour k cs))"

fun count_colours :: "u32 list \<Rightarrow> (u32 \<times> nat) list \<Rightarrow> (u32 \<times> nat) list" where
  "count_colours [] cs = cs"
| "count_colours (k # ks) cs =
    (case bump_colour k cs of
       Some cs' \<Rightarrow> count_colours ks cs'
     | None \<Rightarrow> if length cs = TOO_MANY then [] else count_colours ks (cs @ [(k, 1)]))"

text \<open>\<open>max_by_key\<close>: the last of the greatest.\<close>

definition commonest :: "(u32 \<times> nat) list \<Rightarrow> u32" where
  "commonest cs = fst (foldl (\<lambda>b c. if snd b \<le> snd c then c else b) (hd cs) (tl cs))"

section \<open>Subrectangles\<close>

record subrect =
  sr_x :: nat
  sr_y :: nat
  sr_w :: nat
  sr_h :: nat
  sr_colour :: u32

text \<open>\<open>iter_mut().rev().find(..)\<close>: the last subrectangle this run continues downwards grows by a row.\<close>

fun grow :: "nat \<Rightarrow> nat \<Rightarrow> u32 \<Rightarrow> nat \<Rightarrow> subrect list \<Rightarrow> subrect list option" where
  "grow x w c y [] = None"
| "grow x w c y (s # rest) =
    (if sr_x s = x \<and> sr_w s = w \<and> sr_colour s = c \<and> sr_y s + sr_h s = y
     then Some (s\<lparr>sr_h := sr_h s + 1\<rparr> # rest)
     else map_option ((#) s) (grow x w c y rest))"

definition add_run :: "nat \<Rightarrow> nat \<Rightarrow> u32 \<Rightarrow> nat \<Rightarrow> subrect list \<Rightarrow> subrect list" where
  "add_run x w c y subs =
    (case grow x w c y (rev subs) of
       Some r \<Rightarrow> rev r
     | None \<Rightarrow> subs @ [\<lparr>sr_x = x, sr_y = y, sr_w = w, sr_h = 1, sr_colour = c\<rparr>])"

text \<open>One row from column \<open>x\<close> on, given as what is left of it; the inner \<open>while\<close> takes the run.\<close>

function runs_row :: "nat \<Rightarrow> u32 list \<Rightarrow> nat \<Rightarrow> u32 \<Rightarrow> subrect list \<Rightarrow> subrect list" where
  "runs_row x [] y bg subs = subs"
| "runs_row x (c # cs) y bg subs =
    (if c = bg then runs_row (x + 1) cs y bg subs
     else
       let n = length (takeWhile (\<lambda>k. k = c) (c # cs)) in
       runs_row (x + n) (drop n (c # cs)) y bg (add_run x n c y subs))"
  by pat_completeness auto
termination by (relation "measure (\<lambda>(x, row, y, bg, subs). length row)") auto

fun runs_from :: "nat \<Rightarrow> nat \<Rightarrow> u32 list \<Rightarrow> nat \<Rightarrow> u32 \<Rightarrow> subrect list \<Rightarrow> subrect list" where
  "runs_from y 0 keys width bg subs = subs"
| "runs_from y (Suc n) keys width bg subs =
    runs_from (Suc y) n keys width bg (runs_row 0 (take width (drop (y * width) keys)) y bg subs)"

definition runs :: "u32 list \<Rightarrow> nat \<Rightarrow> nat \<Rightarrow> u32 \<Rightarrow> subrect list" where
  "runs keys width height bg = runs_from 0 height keys width bg []"

section \<open>The encoder\<close>

definition push_pixel :: "u32 \<Rightarrow> nat \<Rightarrow> bytes" where
  "push_pixel key bpp = take bpp (le32 key)"

definition tile_keys :: "nat \<Rightarrow> bytes \<Rightarrow> u32 list" where
  "tile_keys bpp bytes = map word_of_bytes (chunks bpp bytes)"

definition hex_raw :: "bytes \<Rightarrow> bytes" where
  "hex_raw bytes = HF_RAW # bytes"

definition sub_bytes :: "bool \<Rightarrow> nat \<Rightarrow> subrect \<Rightarrow> bytes" where
  "sub_bytes coloured bpp s =
    (if coloured then push_pixel (sr_colour s) bpp else [])
    @ [push_bit 4 (of_nat (sr_x s)) OR of_nat (sr_y s),
       push_bit 4 (of_nat (sr_w s - 1)) OR of_nat (sr_h s - 1)]"

definition hex_tile ::
  "nat \<Rightarrow> bytes \<Rightarrow> nat \<Rightarrow> nat \<Rightarrow> u32 option \<Rightarrow> u32 option \<Rightarrow> bytes \<times> u32 option \<times> u32 option" where
  "hex_tile bpp bytes width height background foreground =
    (let keys = tile_keys bpp bytes;
         raw_len = length keys * bpp;
         colours = count_colours keys [] in
     if length colours = 1 then
       (let only = fst (hd colours);
            head = (if background \<noteq> Some only then HF_BACKGROUND else 0) in
        if head AND HF_BACKGROUND \<noteq> 0 then ([head] @ push_pixel only bpp, Some only, foreground)
        else ([head], background, foreground))
     else if colours = [] then (hex_raw bytes, background, foreground)
     else
       let bg = commonest colours;
           coloured = length colours > 2;
           fg = (if coloured then None else find (\<lambda>c. c \<noteq> bg) (map fst colours));
           subrects = runs keys width height bg in
       if length subrects > MAX_SUBRECTS then (hex_raw bytes, background, foreground)
       else
         let new_bg = background \<noteq> Some bg;
             new_fg = (case fg of Some f \<Rightarrow> foreground \<noteq> Some f | None \<Rightarrow> False);
             head = HF_ANY_SUBRECTS OR (if new_bg then HF_BACKGROUND else 0)
               OR (if new_fg then HF_FOREGROUND else 0) OR (if coloured then HF_SUBRECTS_COLOURED else 0);
             body = (if new_bg then push_pixel bg bpp else [])
               @ (case fg of Some f \<Rightarrow> if new_fg then push_pixel f bpp else [] | None \<Rightarrow> [])
               @ [of_nat (length subrects)]
               @ concat (map (sub_bytes coloured bpp) subrects) in
         if length body < raw_len then
           (head # body,
            (if new_bg then Some bg else background),
            (case fg of Some f \<Rightarrow> if new_fg then Some f else foreground | None \<Rightarrow> foreground))
         else (hex_raw bytes, background, foreground))"

fun hex_tiles ::
  "framebuffer \<Rightarrow> pixel_format \<Rightarrow> nat \<Rightarrow> rect list \<Rightarrow> u32 option \<Rightarrow> u32 option \<Rightarrow> bytes option" where
  "hex_tiles fb pf bpp [] bg fg = Some []"
| "hex_tiles fb pf bpp (t # ts) bg fg =
    (case read_tile fb t pf of
       None \<Rightarrow> None
     | Some bytes \<Rightarrow>
         if bpp = 0 \<or> 4 < bpp then None
         else (case hex_tile bpp bytes (u32_of (rect_width t)) (u32_of (rect_height t)) bg fg of
            (out, bg', fg') \<Rightarrow>
              (case hex_tiles fb pf bpp ts bg' fg' of None \<Rightarrow> None | Some rest \<Rightarrow> Some (out @ rest))))"

definition hextile_encode :: "framebuffer \<Rightarrow> rect \<Rightarrow> pixel_format \<Rightarrow> bytes option" where
  "hextile_encode fb rect pf = hex_tiles fb pf (bytes_per_pixel pf) (tiles HEX_TILE rect) None None"

section \<open>The decoder\<close>

text \<open>\<open>fb.put_pixel\<close> of the pixels of a tile in reading order, from index \<open>i\<close>.\<close>

fun put_pixels :: "nat \<Rightarrow> int \<Rightarrow> int \<Rightarrow> int \<Rightarrow> bytes list \<Rightarrow> framebuffer \<Rightarrow> decode_error + framebuffer" where
  "put_pixels i x y width [] fb = Inr fb"
| "put_pixels i x y width (px # pxs) fb =
    (case put_pixel fb (u32_of (x + int i mod width)) (u32_of (y + int i div width)) px of
       None \<Rightarrow> Inl Panicked
     | Some fb' \<Rightarrow> put_pixels (Suc i) x y width pxs fb')"

definition fill_or_panic :: "rect \<Rightarrow> bytes \<Rightarrow> framebuffer \<Rightarrow> decode_error + framebuffer" where
  "fill_or_panic r px fb = (case fb_fill fb r px of None \<Rightarrow> Inl Panicked | Some fb' \<Rightarrow> Inr fb')"

text \<open>The optional colour of a flag bit.\<close>

definition read_colour :: "bool \<Rightarrow> unpacker \<Rightarrow> bytes \<Rightarrow> reader \<Rightarrow> decode_error + (bytes \<times> reader)" where
  "read_colour present u old r =
    (if present then
       (case rd_take (un_bytes u) r of Inl e \<Rightarrow> Inl e | Inr (b, r') \<Rightarrow> Inr (unpack u b, r'))
     else Inr (old, r))"

fun decode_subrects ::
  "nat \<Rightarrow> bool \<Rightarrow> unpacker \<Rightarrow> rect \<Rightarrow> bytes \<Rightarrow> reader \<Rightarrow> framebuffer \<Rightarrow> decode_error + (reader \<times> framebuffer)" where
  "decode_subrects 0 coloured u t foreground r fb = Inr (r, fb)"
| "decode_subrects (Suc n) coloured u t foreground r fb =
    (case read_colour coloured u foreground r of
       Inl e \<Rightarrow> Inl e
     | Inr (colour, r1) \<Rightarrow>
       (case rd_byte r1 of
          Inl e \<Rightarrow> Inl e
        | Inr (position, r2) \<Rightarrow>
          (case rd_byte r2 of
             Inl e \<Rightarrow> Inl e
           | Inr (extent, r3) \<Rightarrow>
             (let sx = int (unat (drop_bit 4 position)); sy = int (unat (position AND 0x0F));
                  sw = int (unat (drop_bit 4 extent)) + 1; sh = int (unat (extent AND 0x0F)) + 1 in
              if sx + sw > rect_width t \<or> sy + sh > rect_height t then Inl (Malformed ''subrect outside a tile'')
              else (case fill_or_panic (rect_new (rx1 t + sx) (ry1 t + sy) sw sh) colour fb of
                      Inl e \<Rightarrow> Inl e
                    | Inr fb' \<Rightarrow> decode_subrects n coloured u t foreground r3 fb')))))"

definition hex_decode_tile ::
  "unpacker \<Rightarrow> rect \<Rightarrow> reader \<times> bytes \<times> bytes \<times> framebuffer \<Rightarrow>
    decode_error + (reader \<times> bytes \<times> bytes \<times> framebuffer)" where
  "hex_decode_tile u t st =
    (case st of (r0, background, foreground, fb) \<Rightarrow>
     case rd_byte r0 of
       Inl e \<Rightarrow> Inl e
     | Inr (head, r1) \<Rightarrow>
       if head AND HF_RAW \<noteq> 0 then
         (case rd_take (u32_of (rect_width t) * u32_of (rect_height t) * un_bytes u) r1 of
            Inl e \<Rightarrow> Inl e
          | Inr (pixels, r2) \<Rightarrow>
            (case put_pixels 0 (rx1 t) (ry1 t) (rect_width t) (map (unpack u) (chunks (un_bytes u) pixels)) fb of
               Inl e \<Rightarrow> Inl e
             | Inr fb' \<Rightarrow> Inr (r2, background, foreground, fb')))
       else
         (case read_colour (head AND HF_BACKGROUND \<noteq> 0) u background r1 of
            Inl e \<Rightarrow> Inl e
          | Inr (bg, r2) \<Rightarrow>
            (case read_colour (head AND HF_FOREGROUND \<noteq> 0) u foreground r2 of
               Inl e \<Rightarrow> Inl e
             | Inr (fg, r3) \<Rightarrow>
               (case fill_or_panic t bg fb of
                  Inl e \<Rightarrow> Inl e
                | Inr fb1 \<Rightarrow>
                  if head AND HF_ANY_SUBRECTS = 0 then Inr (r3, bg, fg, fb1)
                  else
                    (case rd_byte r3 of
                       Inl e \<Rightarrow> Inl e
                     | Inr (count, r4) \<Rightarrow>
                       (case decode_subrects (unat count) (head AND HF_SUBRECTS_COLOURED \<noteq> 0) u t fg r4 fb1 of
                          Inl e \<Rightarrow> Inl e
                        | Inr (r5, fb2) \<Rightarrow> Inr (r5, bg, fg, fb2)))))))"

fun hex_decode_tiles ::
  "unpacker \<Rightarrow> rect list \<Rightarrow> reader \<times> bytes \<times> bytes \<times> framebuffer \<Rightarrow>
    decode_error + (reader \<times> bytes \<times> bytes \<times> framebuffer)" where
  "hex_decode_tiles u [] st = Inr st"
| "hex_decode_tiles u (t # ts) st =
    (case hex_decode_tile u t st of Inl e \<Rightarrow> Inl e | Inr st' \<Rightarrow> hex_decode_tiles u ts st')"

definition hextile_decode ::
  "bytes \<Rightarrow> rect \<Rightarrow> pixel_format \<Rightarrow> framebuffer \<Rightarrow> decode_error + (nat \<times> framebuffer)" where
  "hextile_decode payload rect pf fb =
    (case hex_decode_tiles (unpacker_new pf) (tiles 16 rect) (reader_new payload, [0, 0, 0, 0], [0, 0, 0, 0], fb) of
       Inl e \<Rightarrow> Inl e
     | Inr (r, _, _, fb') \<Rightarrow> Inr (rd_at r, fb'))"

end
