(* ===== verification/Hextile_Laws.thy ===== *)
theory Hextile_Laws
  imports Hextile
begin

text \<open>The round trip of the Hextile encoding, from its parts: tiles, colours, runs, subrectangles.\<close>

section \<open>Tiles cover the rectangle\<close>

lemma rect_new_small:
  "- 1000000 \<le> x \<Longrightarrow> x \<le> 1000000 \<Longrightarrow> - 1000000 \<le> y \<Longrightarrow> y \<le> 1000000 \<Longrightarrow> 0 \<le> w \<Longrightarrow> w \<le> 1000000 \<Longrightarrow> 0 \<le> h \<Longrightarrow>
    h \<le> 1000000 \<Longrightarrow> rect_new x y w h = mk_rect x y (x + w) (y + h)"
  by (simp add: rect_new_def i32_small)

definition tile_of :: "int \<Rightarrow> rect \<Rightarrow> rect \<Rightarrow> bool" where
  "tile_of T r t \<longleftrightarrow> rx1 r \<le> rx1 t \<and> rx1 t < rx2 t \<and> rx2 t \<le> rx2 r \<and> rx2 t - rx1 t \<le> T
    \<and> ry1 r \<le> ry1 t \<and> ry1 t < ry2 t \<and> ry2 t \<le> ry2 r \<and> ry2 t - ry1 t \<le> T"

lemma tiles_across_spec:
  assumes "0 < T" "0 \<le> x" "x2 \<le> 100000" "0 \<le> y" "0 < h" "y + h \<le> 100000"
  shows "(\<forall>t\<in>set (tiles_across T x x2 y h). tile_of (max T h) (mk_rect x y x2 (y + h)) t \<and> rx2 t - rx1 t \<le> T)
    \<and> (\<Union>t\<in>set (tiles_across T x x2 y h). rect_pixels t) = rect_pixels (mk_rect x y x2 (y + h))"
  using assms
proof (induction T x x2 y h rule: tiles_across.induct)
  case (1 T x x2 y h)
  show ?case
  proof (cases "x < x2")
    case True
    let ?w = "min T (x2 - x)"
    have n: "rect_new x y ?w h = mk_rect x y (x + ?w) (y + h)"
      using 1 True by (intro rect_new_small) auto
    have IH: "(\<forall>t\<in>set (tiles_across T (x + T) x2 y h). tile_of (max T h) (mk_rect (x + T) y x2 (y + h)) t \<and> rx2 t - rx1 t \<le> T)
      \<and> (\<Union>t\<in>set (tiles_across T (x + T) x2 y h). rect_pixels t) = rect_pixels (mk_rect (x + T) y x2 (y + h))"
      using 1 True by simp
    have e: "tiles_across T x x2 y h = mk_rect x y (x + ?w) (y + h) # tiles_across T (x + T) x2 y h"
      unfolding n [symmetric] using True 1 by (subst tiles_across.simps) simp
    have "{x ..< x2} = {x ..< x + ?w} \<union> {x + T ..< x2}" using True 1 by auto
    then have p: "rect_pixels (mk_rect x y x2 (y + h)) = rect_pixels (mk_rect x y (x + ?w) (y + h)) \<union> rect_pixels (mk_rect (x + T) y x2 (y + h))"
      by (simp add: rect_pixels_prod Sigma_Un_distrib1)
    have "tile_of (max T h) (mk_rect x y x2 (y + h)) (mk_rect x y (x + ?w) (y + h))"
      using True 1 by (auto simp: tile_of_def)
    moreover have "tile_of (max T h) (mk_rect x y x2 (y + h)) t" if "tile_of (max T h) (mk_rect (x + T) y x2 (y + h)) t" for t
      using that 1 by (simp add: tile_of_def)
    ultimately show ?thesis unfolding e p using IH 1 by simp
  next
    case False
    then have "tiles_across T x x2 y h = []" by (subst tiles_across.simps) simp
    then show ?thesis using False by (simp add: rect_pixels_prod)
  qed
qed

lemma tiles_down_spec:
  assumes "0 < T" "0 \<le> x1" "x2 \<le> 100000" "0 \<le> y" "y2 \<le> 100000"
  shows "(\<forall>t\<in>set (tiles_down T x1 x2 y y2). tile_of T (mk_rect x1 y x2 y2) t)
    \<and> (\<Union>t\<in>set (tiles_down T x1 x2 y y2). rect_pixels t) = rect_pixels (mk_rect x1 y x2 y2)"
  using assms
proof (induction T x1 x2 y y2 rule: tiles_down.induct)
  case (1 T x1 x2 y y2)
  show ?case
  proof (cases "y < y2")
    case True
    let ?h = "min T (y2 - y)"
    have IH: "(\<forall>t\<in>set (tiles_down T x1 x2 (y + T) y2). tile_of T (mk_rect x1 (y + T) x2 y2) t)
      \<and> (\<Union>t\<in>set (tiles_down T x1 x2 (y + T) y2). rect_pixels t) = rect_pixels (mk_rect x1 (y + T) x2 y2)"
      using 1 True by simp
    have e: "tiles_down T x1 x2 y y2 = tiles_across T x1 x2 y ?h @ tiles_down T x1 x2 (y + T) y2"
      using True 1 by (subst tiles_down.simps) simp
    have A: "(\<forall>t\<in>set (tiles_across T x1 x2 y ?h). tile_of (max T ?h) (mk_rect x1 y x2 (y + ?h)) t \<and> rx2 t - rx1 t \<le> T)
      \<and> (\<Union>t\<in>set (tiles_across T x1 x2 y ?h). rect_pixels t) = rect_pixels (mk_rect x1 y x2 (y + ?h))"
      using 1 True by (intro tiles_across_spec) auto
    have "{y ..< y2} = {y ..< y + ?h} \<union> {y + T ..< y2}" using True 1 by auto
    then have p: "rect_pixels (mk_rect x1 y x2 y2) = rect_pixels (mk_rect x1 y x2 (y + ?h)) \<union> rect_pixels (mk_rect x1 (y + T) x2 y2)"
      by (simp add: rect_pixels_prod Sigma_Un_distrib2)
    have "tile_of T (mk_rect x1 y x2 y2) t" if "tile_of T (mk_rect x1 (y + T) x2 y2) t" for t
      using that 1 by (simp add: tile_of_def)
    moreover have "tile_of T (mk_rect x1 y x2 y2) t" if "tile_of (max T ?h) (mk_rect x1 y x2 (y + ?h)) t" for t
      using that True by (auto simp: tile_of_def)
    ultimately have "\<forall>t\<in>set (tiles_across T x1 x2 y ?h) \<union> set (tiles_down T x1 x2 (y + T) y2). tile_of T (mk_rect x1 y x2 y2) t"
      using conjunct1 [OF IH] conjunct1 [OF A] by blast
    then show ?thesis unfolding e p set_append UN_Un conjunct2 [OF IH] conjunct2 [OF A] by simp
  next
    case False
    then have "tiles_down T x1 x2 y y2 = []" by (subst tiles_down.simps) simp
    then show ?thesis using False by (simp add: rect_pixels_prod)
  qed
qed

lemma tiles_spec:
  assumes "0 < T" "fb_ok fb" "in_picture fb r"
  shows "\<forall>t\<in>set (tiles T r). tile_of T r t \<and> in_picture fb t"
    and "(\<Union>t\<in>set (tiles T r). rect_pixels t) = rect_pixels r"
proof -
  have r: "mk_rect (rx1 r) (ry1 r) (rx2 r) (ry2 r) = r" by simp
  have "(\<forall>t\<in>set (tiles T r). tile_of T r t) \<and> (\<Union>t\<in>set (tiles T r). rect_pixels t) = rect_pixels r"
    unfolding tiles_def using tiles_down_spec [of T "rx1 r" "rx2 r" "ry1 r" "ry2 r"] assms r
    by (simp add: in_picture_def fb_ok_def)
  moreover have "in_picture fb t" if "tile_of T r t" for t
    using that assms(3) by (simp add: tile_of_def in_picture_def)
  ultimately show "\<forall>t\<in>set (tiles T r). tile_of T r t \<and> in_picture fb t"
    and "(\<Union>t\<in>set (tiles T r). rect_pixels t) = rect_pixels r" by blast+
qed

section \<open>Runs cover what is not the background\<close>

definition covered :: "subrect list \<Rightarrow> (nat \<times> nat \<times> u32) set" where
  "covered subs = {(x, y, c). \<exists>s\<in>set subs. sr_x s \<le> x \<and> x < sr_x s + sr_w s \<and> sr_y s \<le> y \<and> y < sr_y s + sr_h s \<and> sr_colour s = c}"

definition run_cells :: "nat \<Rightarrow> nat \<Rightarrow> nat \<Rightarrow> u32 \<Rightarrow> (nat \<times> nat \<times> u32) set" where
  "run_cells x w y c = {(x', y', c'). x \<le> x' \<and> x' < x + w \<and> y' = y \<and> c' = c}"

lemma covered_empty: "covered [] = {}"
  by (auto simp: covered_def)

lemma covered_append: "covered (a @ b) = covered a \<union> covered b"
  by (auto simp: covered_def)

lemma covered_Cons: "covered (s # b) = covered [s] \<union> covered b"
  by (auto simp: covered_def)

lemma covered_rev [simp]: "covered (rev a) = covered a"
  by (simp add: covered_def)

lemma grow_covers:
  "grow x w c y subs = Some r \<Longrightarrow> covered r = covered subs \<union> run_cells x w y c"
proof (induction subs arbitrary: r)
  case (Cons s rest)
  show ?case
  proof (cases "sr_x s = x \<and> sr_w s = w \<and> sr_colour s = c \<and> sr_y s + sr_h s = y")
    case True
    then have r: "r = s\<lparr>sr_h := sr_h s + 1\<rparr> # rest" using Cons.prems by simp
    have "covered [s\<lparr>sr_h := sr_h s + 1\<rparr>] = covered [s] \<union> run_cells x w y c"
      using True by (auto simp: covered_def run_cells_def)
    then show ?thesis unfolding r covered_Cons [of _ rest] by blast
  next
    case False
    then obtain r' where r': "grow x w c y rest = Some r'" "r = s # r'"
      using Cons.prems by (auto split: if_splits)
    show ?thesis unfolding r'(2) covered_Cons [of s rest] covered_Cons [of s r'] using Cons.IH [OF r'(1)] by blast
  qed
qed simp

lemma add_run_covers: "covered (add_run x w c y subs) = covered subs \<union> run_cells x w y c"
proof (cases "grow x w c y (rev subs)")
  case None
  have "covered [\<lparr>sr_x = x, sr_y = y, sr_w = w, sr_h = 1, sr_colour = c\<rparr>] = run_cells x w y c"
    by (auto simp: covered_def run_cells_def)
  then show ?thesis using None by (simp add: add_run_def covered_append)
next
  case (Some r)
  then show ?thesis using grow_covers [OF Some] by (simp add: add_run_def)
qed

definition row_cells :: "nat \<Rightarrow> u32 list \<Rightarrow> nat \<Rightarrow> u32 \<Rightarrow> (nat \<times> nat \<times> u32) set" where
  "row_cells x row y bg = {(x + i, y, row ! i) | i. i < length row \<and> row ! i \<noteq> bg}"

lemma row_cells_append:
  "row_cells x (a @ b) y bg = row_cells x a y bg \<union> row_cells (x + length a) b y bg"
proof (intro set_eqI iffI)
  fix p assume "p \<in> row_cells x (a @ b) y bg"
  then obtain i where i: "p = (x + i, y, (a @ b) ! i)" "i < length (a @ b)" "(a @ b) ! i \<noteq> bg"
    by (auto simp: row_cells_def)
  show "p \<in> row_cells x a y bg \<union> row_cells (x + length a) b y bg"
  proof (cases "i < length a")
    case True
    then show ?thesis using i by (auto simp: row_cells_def nth_append)
  next
    case False
    then have "p \<in> row_cells (x + length a) b y bg"
      unfolding row_cells_def using i by (auto simp: nth_append intro!: exI [of _ "i - length a"])
    then show ?thesis by blast
  qed
next
  fix p assume "p \<in> row_cells x a y bg \<union> row_cells (x + length a) b y bg"
  then consider i where "p = (x + i, y, a ! i)" "i < length a" "a ! i \<noteq> bg"
    | i where "p = (x + length a + i, y, b ! i)" "i < length b" "b ! i \<noteq> bg"
    by (auto simp: row_cells_def)
  then show "p \<in> row_cells x (a @ b) y bg"
  proof cases
    case 1
    then show ?thesis unfolding row_cells_def by (auto simp: nth_append intro!: exI [of _ i])
  next
    case (2 i)
    then show ?thesis unfolding row_cells_def by (auto simp: nth_append intro!: exI [of _ "length a + i"])
  qed
qed

lemma row_cells_replicate:
  "c \<noteq> bg \<Longrightarrow> row_cells x (replicate n c) y bg = run_cells x n y c"
proof (intro set_eqI iffI)
  fix p assume "c \<noteq> bg" "p \<in> run_cells x n y c"
  then obtain x' where p: "p = (x', y, c)" "x \<le> x'" "x' < x + n" by (auto simp: run_cells_def)
  then show "p \<in> row_cells x (replicate n c) y bg"
    unfolding row_cells_def using \<open>c \<noteq> bg\<close> by (intro CollectI exI [of _ "x' - x"]) simp
qed (auto simp: row_cells_def run_cells_def)

lemma row_cells_run:
  assumes "c \<noteq> bg"
  shows "row_cells x (takeWhile (\<lambda>k. k = c) row) y bg = run_cells x (length (takeWhile (\<lambda>k. k = c) row)) y c"
proof -
  let ?t = "takeWhile (\<lambda>k. k = c) row"
  have "?t = replicate (length ?t) c" by (induction row) simp_all
  then show ?thesis using row_cells_replicate [OF assms, of x "length ?t" y] by simp
qed

lemma runs_row_covers: "covered (runs_row x row y bg subs) = covered subs \<union> row_cells x row y bg"
proof (induction x row y bg subs rule: runs_row.induct)
  case (1 x y bg subs)
  then show ?case by (simp add: row_cells_def)
next
  case (2 x c cs y bg subs)
  show ?case
  proof (cases "c = bg")
    case True
    have "row_cells x [c] y bg = {}" using True by (simp add: row_cells_def)
    then have "row_cells x (c # cs) y bg = row_cells (x + 1) cs y bg"
      using row_cells_append [of x "[c]" cs y bg] by simp
    with 2(1) True show ?thesis by simp
  next
    case False
    let ?t = "takeWhile (\<lambda>k. k = c) (c # cs)" and ?n = "length (takeWhile (\<lambda>k. k = c) (c # cs))"
    have s: "c # cs = ?t @ drop ?n (c # cs)" by (metis takeWhile_dropWhile_id dropWhile_eq_drop)
    have "row_cells x (c # cs) y bg = run_cells x ?n y c \<union> row_cells (x + ?n) (drop ?n (c # cs)) y bg"
      using row_cells_append [of x ?t "drop ?n (c # cs)" y bg] row_cells_run [OF False, of x "c # cs" y] s by simp
    moreover have "covered (runs_row x (c # cs) y bg subs)
        = covered subs \<union> run_cells x ?n y c \<union> row_cells (x + ?n) (drop ?n (c # cs)) y bg"
      using 2(2) [OF False refl] False by (simp add: add_run_covers Let_def)
    ultimately show ?thesis by blast
  qed
qed

definition grid_cells :: "u32 list \<Rightarrow> nat \<Rightarrow> nat \<Rightarrow> nat \<Rightarrow> u32 \<Rightarrow> (nat \<times> nat \<times> u32) set" where
  "grid_cells keys width y0 n bg =
    {(x, y, keys ! (y * width + x)) | x y. x < width \<and> y0 \<le> y \<and> y < y0 + n \<and> keys ! (y * width + x) \<noteq> bg}"

lemma runs_from_covers:
  "(y + n) * width \<le> length keys \<Longrightarrow>
    covered (runs_from y n keys width bg subs) = covered subs \<union> grid_cells keys width y n bg"
proof (induction y n keys width bg subs rule: runs_from.induct)
  case (1 y keys width bg subs)
  have "grid_cells keys width y 0 bg = {}" by (auto simp: grid_cells_def)
  then show ?case by simp
next
  case (2 y n keys width bg subs)
  let ?row = "take width (drop (y * width) keys)"
  have len: "(y * width) + width \<le> length keys" using 2(2) by (simp add: algebra_simps)
  then have nth: "?row ! i = keys ! (y * width + i)" if "i < width" for i using that by simp
  have l: "length ?row = width" using len by simp
  have row: "row_cells 0 ?row y bg = {(x, y, keys ! (y * width + x)) | x. x < width \<and> keys ! (y * width + x) \<noteq> bg}"
    unfolding row_cells_def l using nth by auto
  have "grid_cells keys width y (Suc n) bg = row_cells 0 ?row y bg \<union> grid_cells keys width (Suc y) n bg"
    unfolding row grid_cells_def by (auto simp: le_eq_less_or_eq Suc_le_eq)
  then show ?case using 2 by (simp add: runs_row_covers Un_assoc)
qed

lemma runs_cover:
  "height * width \<le> length keys \<Longrightarrow> covered (runs keys width height bg) = grid_cells keys width 0 height bg"
  using runs_from_covers [of 0 height width keys bg "[]"] by (simp add: runs_def covered_empty)

text \<open>Every subrectangle has a pixel, so it lies inside the tile.\<close>

definition solid_subs :: "subrect list \<Rightarrow> bool" where
  "solid_subs subs \<longleftrightarrow> (\<forall>s\<in>set subs. 0 < sr_w s \<and> 0 < sr_h s)"

lemma grow_solid: "grow x w c y subs = Some r \<Longrightarrow> solid_subs subs \<Longrightarrow> solid_subs r"
  by (induction subs arbitrary: r) (auto simp: solid_subs_def split: if_splits)

lemma add_run_solid: "0 < w \<Longrightarrow> solid_subs subs \<Longrightarrow> solid_subs (add_run x w c y subs)"
  using grow_solid [of x w c y "rev subs"] by (auto simp: add_run_def solid_subs_def split: option.splits)

lemma runs_row_solid: "solid_subs subs \<Longrightarrow> solid_subs (runs_row x row y bg subs)"
proof (induction x row y bg subs rule: runs_row.induct)
  case (2 x c cs y bg subs)
  then show ?case using add_run_solid [of "length (takeWhile (\<lambda>k. k = c) (c # cs))" subs] by (simp add: Let_def)
qed simp

lemma runs_from_solid: "solid_subs subs \<Longrightarrow> solid_subs (runs_from y n keys width bg subs)"
  by (induction y n keys width bg subs rule: runs_from.induct) (simp_all add: runs_row_solid)

lemma runs_inside:
  assumes "height * width \<le> length keys" "s \<in> set (runs keys width height bg)"
  shows "0 < sr_w s \<and> 0 < sr_h s \<and> sr_x s + sr_w s \<le> width \<and> sr_y s + sr_h s \<le> height"
proof -
  have p: "0 < sr_w s" "0 < sr_h s"
    using runs_from_solid [of "[]" 0 height keys width bg] assms(2) by (auto simp: runs_def solid_subs_def)
  then have "(sr_x s + sr_w s - 1, sr_y s + sr_h s - 1, sr_colour s) \<in> covered (runs keys width height bg)"
    using assms(2) by (auto simp: covered_def intro!: bexI [of _ s])
  then show ?thesis unfolding runs_cover [OF assms(1)] using p by (auto simp: grid_cells_def)
qed

end
