(* ===== verification/Hextile_Round_Trip.thy ===== *)
theory Hextile_Round_Trip
  imports Hextile_Laws
begin

text \<open>
  Decoding what the Hextile encoder sent. A reader is described by what it still has to read
  (\<open>reads\<close>), a picture by what changed in it (\<open>painted\<close>); the colour a key stands for is what the
  decoder unpacks from its bytes (\<open>kp\<close>).
\<close>

section \<open>Reading\<close>

definition reads :: "bytes \<Rightarrow> reader \<Rightarrow> bytes \<Rightarrow> bool" where
  "reads d r s \<longleftrightarrow> rd_data r = d \<and> rd_at r \<le> length d \<and> drop (rd_at r) d = s"

lemma reads_new: "reads d (reader_new d) d"
  by (simp add: reads_def reader_new_def)

lemma reads_at: "reads d r s \<Longrightarrow> rd_at r = length d - length s"
  by (auto simp: reads_def)

lemma rd_byte_reads:
  assumes "reads d r (b # s)" shows "\<exists>r'. rd_byte r = Inr (b, r') \<and> reads d r' s"
proof -
  have r: "rd_data r = d" "drop (rd_at r) d = b # s" using assms by (simp_all add: reads_def)
  then have at: "rd_at r < length d" by (metis drop_eq_Nil2 linorder_not_less list.distinct(1))
  with r have "d ! rd_at r = b" "drop (Suc (rd_at r)) d = s"
    by (metis Cons_nth_drop_Suc list.inject)+
  with r at show ?thesis by (simp add: rd_byte_def reads_def)
qed

lemma rd_take_reads:
  assumes "reads d r (a @ s)" "length a = n" shows "\<exists>r'. rd_take n r = Inr (a, r') \<and> reads d r' s"
proof -
  have r: "rd_data r = d" "rd_at r \<le> length d" "drop (rd_at r) d = a @ s" using assms(1) by (simp_all add: reads_def)
  have "length (drop (rd_at r) d) = length (a @ s)" by (simp only: r(3))
  then have l: "rd_at r + n \<le> length d" using r(2) assms(2) by simp
  have "drop (rd_at r + n) d = drop n (drop (rd_at r) d)" by (simp add: add.commute)
  then have "drop (rd_at r + n) d = s" using r(3) assms(2) by simp
  with r l assms(2) show ?thesis by (simp add: rd_take_def reads_def)
qed

section \<open>Keys and the colours they stand for\<close>

definition kp :: "pixel_format \<Rightarrow> u32 \<Rightarrow> bytes" where
  "kp pf key = unpack (unpacker_new pf) (push_pixel key (bytes_per_pixel pf))"

lemma le32_from_le32:
  assumes "length b = 4" shows "le32 (from_le32 b) = b"
proof -
  obtain b0 b1 b2 b3 where b: "b = [b0, b1, b2, b3]"
    using assms by (auto simp: numeral_eq_Suc length_Suc_conv)
  let ?w = "push_bit 24 (ucast b3) OR push_bit 16 (ucast b2) OR push_bit 8 (ucast b1) OR (ucast b0 :: u32)"
  have "(ucast (drop_bit 24 ?w) :: u8) = b3" "(ucast (drop_bit 16 ?w) :: u8) = b2"
    "(ucast (drop_bit 8 ?w) :: u8) = b1" "(ucast ?w :: u8) = b0"
    by (rule bit_word_eqI; auto simp: bit_simps dest: bit_imp_le_length)+
  then show ?thesis unfolding b by (simp add: le32_def from_le32_def be32_def from_be32_def numeral_2_eq_2 numeral_3_eq_3)
qed

lemma push_pixel_word:
  assumes "length b = n" "n \<le> 4" shows "push_pixel (word_of_bytes b) n = b"
  using assms by (simp add: push_pixel_def word_of_bytes_def le32_from_le32)

lemma length_push_pixel [simp]: "n \<le> 4 \<Longrightarrow> length (push_pixel k n) = n"
  by (simp add: push_pixel_def)

lemma bpp_small: "pf_validate pf = Inr () \<Longrightarrow> 0 < bytes_per_pixel pf \<and> bytes_per_pixel pf \<le> 4"
  by (auto simp: pf_validate_ok bytes_per_pixel_def)

lemma un_bytes_new [simp]: "un_bytes (unpacker_new pf) = bytes_per_pixel pf"
  by (simp add: unpacker_new_def)

lemma length_kp [simp]: "length (kp pf k) = 4"
  by (simp add: kp_def unpack_def Let_def)

lemma kp_sent:
  assumes "pf_validate pf = Inr ()" "channels_apart pf" "length px = 4"
  shows "kp pf (word_of_bytes (convert_row px pf)) = through pf px"
  using unpack_sent [OF assms, of "[]"] bpp_small [OF assms(1)]
  by (simp add: kp_def push_pixel_word length_convert_px [OF assms(1,3)])

lemma tile_keys_sent:
  assumes "pf_validate pf = Inr ()" "\<forall>px\<in>set pxs. length px = 4"
  shows "chunks (bytes_per_pixel pf) (concat (map (\<lambda>px. convert_row px pf) pxs)) = map (\<lambda>px. convert_row px pf) pxs"
    and "tile_keys (bytes_per_pixel pf) (concat (map (\<lambda>px. convert_row px pf) pxs))
      = map (\<lambda>px. word_of_bytes (convert_row px pf)) pxs"
proof -
  show c: "chunks (bytes_per_pixel pf) (concat (map (\<lambda>px. convert_row px pf) pxs)) = map (\<lambda>px. convert_row px pf) pxs"
    using bpp_small [OF assms(1)] assms(2) by (intro chunks_concat) (auto simp: length_convert_px [OF assms(1)])
  show "tile_keys (bytes_per_pixel pf) (concat (map (\<lambda>px. convert_row px pf) pxs))
      = map (\<lambda>px. word_of_bytes (convert_row px pf)) pxs"
    unfolding tile_keys_def c by simp
qed

section \<open>Counting colours\<close>

lemma bump_colour_fst:
  "bump_colour k cs = Some cs' \<Longrightarrow> map fst cs' = map fst cs \<and> k \<in> set (map fst cs)"
  by (induction cs arbitrary: cs') (auto split: if_splits)

lemma count_colours_fst:
  "count_colours ks cs \<noteq> [] \<Longrightarrow> set (map fst (count_colours ks cs)) = set ks \<union> set (map fst cs)"
proof (induction ks cs rule: count_colours.induct)
  case (2 k ks cs)
  show ?case
  proof (cases "bump_colour k cs")
    case None
    with 2(3) have l: "length cs \<noteq> TOO_MANY" by auto
    from None l 2(3) have ne: "count_colours ks (cs @ [(k, 1)]) \<noteq> []" by simp
    show ?thesis using 2(1) [OF None l ne] None l by simp
  next
    case (Some cs')
    from Some 2(3) have ne: "count_colours ks cs' \<noteq> []" by simp
    from 2(2) [OF Some ne] bump_colour_fst [OF Some] Some show ?thesis by (simp add: insert_absorb)
  qed
qed simp

lemma count_colours_set:
  "count_colours ks [] \<noteq> [] \<Longrightarrow> fst ` set (count_colours ks []) = set ks"
  using count_colours_fst [of ks "[]"] by simp

lemma commonest_in:
  assumes "cs \<noteq> []" shows "commonest cs \<in> fst ` set cs"
proof -
  have "foldl (\<lambda>b c. if snd b \<le> snd c then c else b) b xs \<in> set (b # xs)" for b :: "u32 \<times> nat" and xs
  proof (induction xs arbitrary: b)
    case (Cons x xs)
    from Cons [of "if snd b \<le> snd x then x else b"] show ?case by (auto split: if_splits)
  qed simp
  from this [of "hd cs" "tl cs"] assms show ?thesis by (simp add: commonest_def)
qed

lemma two_colours:
  assumes "length cs \<le> 2" "cs \<noteq> []" "find (\<lambda>c. c \<noteq> commonest cs) (map fst cs) = Some f" "k \<in> fst ` set cs" "k \<noteq> commonest cs"
  shows "k = f"
proof -
  have f: "f \<in> fst ` set cs" "f \<noteq> commonest cs" using assms(3) by (auto simp: find_Some_iff)
  obtain a b where "fst ` set cs \<subseteq> {a, b}"
  proof (cases cs)
    case (Cons x xs)
    with assms(1) that [of "fst x" "fst (hd xs)"] show ?thesis by (cases xs) auto
  qed (use assms(2) in simp)
  with f assms(4,5) commonest_in [OF assms(2)] show ?thesis by blast
qed

section \<open>Painting\<close>

text \<open>The pixels \<open>P\<close> chooses have become what \<open>F\<close> says; the others are as they were.\<close>

definition painted :: "framebuffer \<Rightarrow> framebuffer \<Rightarrow> (nat \<Rightarrow> nat \<Rightarrow> bool) \<Rightarrow> (nat \<Rightarrow> nat \<Rightarrow> bytes) \<Rightarrow> bool" where
  "painted fb fb' P F \<longleftrightarrow> fb_same fb fb' \<and>
    (\<forall>x y. x < fb_width fb \<longrightarrow> y < fb_height fb \<longrightarrow> fb_px fb' x y = (if P x y then F x y else fb_px fb x y))"

lemma paintedD:
  assumes "painted fb fb' P F" "fb_ok fb"
  shows "fb_ok fb'" "fb_width fb' = fb_width fb" "fb_height fb' = fb_height fb"
    "\<And>x y. x < fb_width fb \<Longrightarrow> y < fb_height fb \<Longrightarrow> fb_px fb' x y = (if P x y then F x y else fb_px fb x y)"
  using assms by (simp_all add: painted_def fb_same_def)

lemma painted_refl: "fb_ok fb \<Longrightarrow> painted fb fb (\<lambda>_ _. False) F"
  by (simp add: painted_def fb_same_refl)

lemma painted_then:
  assumes "painted a b P F" "painted b c Q G"
  shows "painted a c (\<lambda>x y. P x y \<or> Q x y) (\<lambda>x y. if Q x y then G x y else F x y)"
  using assms unfolding painted_def by (auto simp: fb_same_def)

lemma painted_cong:
  assumes "painted a b P F"
    and "\<And>x y. x < fb_width a \<Longrightarrow> y < fb_height a \<Longrightarrow> P x y = Q x y"
    and "\<And>x y. x < fb_width a \<Longrightarrow> y < fb_height a \<Longrightarrow> Q x y \<Longrightarrow> F x y = G x y"
  shows "painted a b Q G"
  using assms unfolding painted_def by simp

definition inside :: "rect \<Rightarrow> nat \<Rightarrow> nat \<Rightarrow> bool" where
  "inside r x y \<longleftrightarrow> (int x, int y) \<in> rect_pixels r"

lemma inside_iff: "inside r x y \<longleftrightarrow> rx1 r \<le> int x \<and> int x < rx2 r \<and> ry1 r \<le> int y \<and> int y < ry2 r"
  by (simp add: inside_def in_rect_pixels)

lemma fill_painted:
  assumes "fb_ok fb" "length px = 4"
  shows "\<exists>fb'. fill_or_panic r px fb = Inr fb' \<and> painted fb fb' (inside r) (\<lambda>_ _. px)"
  using fb_fill_spec [OF assms, of r] by (auto simp: fill_or_panic_def painted_def inside_def)

lemma put_pixel_painted:
  assumes "fb_ok fb" "x < fb_width fb" "y < fb_height fb" "length px = 4"
  shows "\<exists>fb'. put_pixel fb x y px = Some fb' \<and> painted fb fb' (\<lambda>x' y'. (x', y') = (x, y)) (\<lambda>_ _. px)"
  using put_pixel_spec [OF assms] unfolding painted_def by blast

text \<open>Where a pixel of a tile stands in reading order.\<close>

definition tile_index :: "rect \<Rightarrow> nat \<Rightarrow> nat \<Rightarrow> nat" where
  "tile_index t x y = (y - nat (ry1 t)) * nat (rx2 t - rx1 t) + (x - nat (rx1 t))"

lemma tile_index_less:
  assumes "in_picture fb t" "inside t x y"
  shows "tile_index t x y < nat (rx2 t - rx1 t) * nat (ry2 t - ry1 t)"
proof -
  let ?w = "nat (rx2 t - rx1 t)"
  have "x - nat (rx1 t) < ?w" "y - nat (ry1 t) < nat (ry2 t - ry1 t)"
    using assms by (auto simp: inside_iff in_picture_def)
  then have "(y - nat (ry1 t)) * ?w + (x - nat (rx1 t)) < Suc (y - nat (ry1 t)) * ?w" "Suc (y - nat (ry1 t)) * ?w \<le> nat (ry2 t - ry1 t) * ?w"
    by (simp, intro mult_le_mono1) simp
  then show ?thesis by (simp add: tile_index_def mult.commute)
qed

lemma tile_index_at:
  assumes "in_picture fb t" "inside t x y" "0 < w" "w = nat (rx2 t - rx1 t)"
  shows "tile_index t x y = i \<longleftrightarrow> x = nat (rx1 t) + i mod w \<and> y = nat (ry1 t) + i div w"
proof -
  have x: "x - nat (rx1 t) < w" "nat (rx1 t) \<le> x" "nat (ry1 t) \<le> y"
    using assms by (auto simp: inside_iff in_picture_def)
  have "tile_index t x y = i \<Longrightarrow> i mod w = x - nat (rx1 t) \<and> i div w = y - nat (ry1 t)"
    using x(1) by (auto simp: tile_index_def assms(4) [symmetric])
  moreover have "x = nat (rx1 t) + i mod w \<and> y = nat (ry1 t) + i div w \<Longrightarrow> tile_index t x y = i"
    by (simp add: tile_index_def assms(4) [symmetric])
  ultimately show ?thesis using x(2,3) by fastforce
qed

lemma concat_const_nth:
  "j < length ys \<Longrightarrow> i < n \<Longrightarrow> (\<And>y. length (f y) = n) \<Longrightarrow> concat (map f ys) ! (j * n + i) = f (ys ! j) ! i"
proof (induction ys arbitrary: j)
  case (Cons y ys)
  then show ?case by (cases j) (simp_all add: nth_append)
qed simp

lemma tile_px_nth:
  assumes "in_picture fb t" "inside t x y" shows "tile_px fb t ! tile_index t x y = fb_px fb x y"
proof -
  let ?f = "\<lambda>y. map (\<lambda>x. fb_px fb (nat x) (nat y)) (irange (rx1 t) (rx2 t))"
  have b: "y - nat (ry1 t) < length (irange (ry1 t) (ry2 t))" "x - nat (rx1 t) < nat (rx2 t - rx1 t)"
    "0 \<le> rx1 t" "0 \<le> ry1 t" "nat (rx1 t) \<le> x" "nat (ry1 t) \<le> y"
    using assms by (auto simp: inside_iff in_picture_def)
  then have "tile_px fb t ! tile_index t x y = ?f (irange (ry1 t) (ry2 t) ! (y - nat (ry1 t))) ! (x - nat (rx1 t))"
    unfolding tile_px_def tile_index_def by (intro concat_const_nth) simp_all
  with b show ?thesis by (simp add: irange_shift)
qed

lemma put_pixels_painted:
  assumes "fb_ok fb" "in_picture fb t" "w = rx2 t - rx1 t" "0 < w"
    and "i + length pxs \<le> nat w * nat (ry2 t - ry1 t)" "\<forall>px\<in>set pxs. length px = 4"
  shows "\<exists>fb'. put_pixels i (rx1 t) (ry1 t) w pxs fb = Inr fb'
    \<and> painted fb fb' (\<lambda>x y. inside t x y \<and> i \<le> tile_index t x y \<and> tile_index t x y < i + length pxs)
        (\<lambda>x y. pxs ! (tile_index t x y - i))"
  using assms
proof (induction pxs arbitrary: i fb)
  case Nil
  then show ?case by (auto intro: painted_cong [OF painted_refl [OF Nil(1)]])
next
  case (Cons px pxs)
  let ?x = "nat (rx1 t) + i mod nat w" and ?y = "nat (ry1 t) + i div nat w"
  have lim: "0 \<le> rx1 t" "rx2 t \<le> int (fb_width fb)" "0 \<le> ry1 t" "ry2 t \<le> int (fb_height fb)" "rx1 t < rx2 t" "ry1 t \<le> ry2 t"
    using Cons.prems(2-4) by (simp_all add: in_picture_def)
  have small: "fb_width fb < 65536" "fb_height fb < 65536" using Cons.prems(1) by (simp_all add: fb_ok_def)
  have "i div nat w < nat (ry2 t - ry1 t)"
    using Cons.prems(4,5) by (intro less_mult_imp_div_less) (simp add: mult.commute)
  moreover have "i mod nat w < nat w" using Cons.prems(4) by simp
  ultimately have b: "?x < fb_width fb" "?y < fb_height fb" "int ?x < rx2 t" "int ?y < ry2 t"
    using lim Cons.prems(3) by linarith+
  have u: "u32_of (rx1 t + int i mod w) = ?x" "u32_of (ry1 t + int i div w) = ?y"
  proof -
    have "int i mod w = int (i mod nat w)" "int i div w = int (i div nat w)"
      using Cons.prems(4) by (simp_all add: zmod_int zdiv_int)
    then show "u32_of (rx1 t + int i mod w) = ?x" "u32_of (ry1 t + int i div w) = ?y"
      using b small lim by (simp_all add: nat_add_distrib)
  qed
  obtain fb1 where p1: "put_pixel fb ?x ?y px = Some fb1"
    "painted fb fb1 (\<lambda>x y. (x, y) = (?x, ?y)) (\<lambda>_ _. px)"
    using put_pixel_spec [OF Cons.prems(1) b(1,2), of px] Cons.prems(6) by (auto simp: painted_def)
  note f1 = paintedD [OF p1(2) Cons.prems(1)]
  have in1: "in_picture fb1 t" using Cons.prems(2) f1 by (simp add: in_picture_def)
  obtain fb2 where p2: "put_pixels (Suc i) (rx1 t) (ry1 t) w pxs fb1 = Inr fb2"
    "painted fb1 fb2 (\<lambda>x y. inside t x y \<and> Suc i \<le> tile_index t x y \<and> tile_index t x y < Suc i + length pxs)
      (\<lambda>x y. pxs ! (tile_index t x y - Suc i))"
    using Cons.IH [OF f1(1) in1 Cons.prems(3,4), of "Suc i"] Cons.prems(5,6) by auto
  have here: "(x, y) = (?x, ?y) \<longleftrightarrow> inside t x y \<and> tile_index t x y = i" for x y
    using tile_index_at [OF Cons.prems(2), of x y "nat w" i] Cons.prems(3,4) b lim by (auto simp: inside_iff)
  have "painted fb fb2 (\<lambda>x y. inside t x y \<and> i \<le> tile_index t x y \<and> tile_index t x y < i + length (px # pxs))
      (\<lambda>x y. (px # pxs) ! (tile_index t x y - i))"
  proof (rule painted_cong [OF painted_then [OF p1(2) p2(2)]])
    fix x y
    show "((x, y) = (?x, ?y) \<or> inside t x y \<and> Suc i \<le> tile_index t x y \<and> tile_index t x y < Suc i + length pxs)
        = (inside t x y \<and> i \<le> tile_index t x y \<and> tile_index t x y < i + length (px # pxs))"
      unfolding here by auto
    assume "inside t x y \<and> i \<le> tile_index t x y \<and> tile_index t x y < i + length (px # pxs)"
    then show "(if inside t x y \<and> Suc i \<le> tile_index t x y \<and> tile_index t x y < Suc i + length pxs then pxs ! (tile_index t x y - Suc i) else px)
        = (px # pxs) ! (tile_index t x y - i)"
      by (auto simp: nth_Cons' Suc_le_eq)
  qed
  with p1(1) p2(1) u show ?case by simp
qed

section \<open>Subrectangles\<close>

lemma nibbles_check:
  "list_all (\<lambda>x. list_all (\<lambda>y.
      unat (drop_bit 4 (push_bit 4 (of_nat x :: u8) OR of_nat y)) = x
      \<and> unat ((push_bit 4 (of_nat x :: u8) OR of_nat y) AND 0x0F) = y) [0 ..< 16]) [0 ..< 16]"
  by code_simp

lemma nibbles:
  assumes "x < 16" "y < 16"
  shows "unat (drop_bit 4 (push_bit 4 (of_nat x :: u8) OR of_nat y)) = x"
    and "unat ((push_bit 4 (of_nat x :: u8) OR of_nat y) AND 0x0F) = y"
proof -
  from nibbles_check assms have "list_all (\<lambda>y. unat (drop_bit 4 (push_bit 4 (of_nat x :: u8) OR of_nat y)) = x
      \<and> unat ((push_bit 4 (of_nat x :: u8) OR of_nat y) AND 0x0F) = y) [0 ..< 16]"
    unfolding list_all_iff by (metis atLeastLessThan_iff set_upt zero_le)
  with assms(2) show "unat (drop_bit 4 (push_bit 4 (of_nat x :: u8) OR of_nat y)) = x"
    and "unat ((push_bit 4 (of_nat x :: u8) OR of_nat y) AND 0x0F) = y"
    unfolding list_all_iff by (metis atLeastLessThan_iff set_upt zero_le)+
qed

text \<open>The pixel of the picture is a cell of the tile that a subrectangle covers.\<close>

definition hit :: "rect \<Rightarrow> subrect list \<Rightarrow> nat \<Rightarrow> nat \<Rightarrow> bool" where
  "hit t subs x y \<longleftrightarrow> nat (rx1 t) \<le> x \<and> nat (ry1 t) \<le> y
    \<and> (\<exists>s\<in>set subs. sr_x s \<le> x - nat (rx1 t) \<and> x - nat (rx1 t) < sr_x s + sr_w s
        \<and> sr_y s \<le> y - nat (ry1 t) \<and> y - nat (ry1 t) < sr_y s + sr_h s)"

definition sub_fits :: "rect \<Rightarrow> subrect \<Rightarrow> bool" where
  "sub_fits t s \<longleftrightarrow> 0 < sr_w s \<and> 0 < sr_h s \<and> sr_x s + sr_w s \<le> nat (rx2 t - rx1 t) \<and> sr_y s + sr_h s \<le> nat (ry2 t - ry1 t)"

lemma decode_subrects_painted:
  assumes "fb_ok fb" "in_picture fb t" "tile_of 16 r t" "0 < bytes_per_pixel pf" "bytes_per_pixel pf \<le> 4"
    and "\<forall>s\<in>set subs. sub_fits t s \<and> (\<not> coloured \<longrightarrow> kp pf (sr_colour s) = fg)"
    and "\<forall>(x, y, c)\<in>covered subs. c = K x y"
    and "length fg = 4" "reads d rd (concat (map (sub_bytes coloured (bytes_per_pixel pf)) subs) @ rest)"
  shows "\<exists>rd' fb'. decode_subrects (length subs) coloured (unpacker_new pf) t fg rd fb = Inr (rd', fb')
    \<and> reads d rd' rest \<and> painted fb fb' (hit t subs) (\<lambda>x y. kp pf (K (x - nat (rx1 t)) (y - nat (ry1 t))))"
  using assms
proof (induction subs arbitrary: fb rd)
  case Nil
  have "painted fb fb (hit t []) F" for F
    by (rule painted_cong [OF painted_refl [OF Nil(1)]]) (simp_all add: hit_def)
  with Nil show ?case by simp
next
  case (Cons s subs)
  let ?n = "bytes_per_pixel pf" and ?u = "unpacker_new pf"
  define p where "p = (push_bit 4 (of_nat (sr_x s)) OR of_nat (sr_y s) :: u8)"
  define e where "e = (push_bit 4 (of_nat (sr_w s - 1)) OR of_nat (sr_h s - 1) :: u8)"
  let ?rest = "concat (map (sub_bytes coloured ?n) subs) @ rest"
  let ?F = "\<lambda>x y. kp pf (K (x - nat (rx1 t)) (y - nat (ry1 t)))"
  have fit: "sub_fits t s" and colour: "\<not> coloured \<longrightarrow> kp pf (sr_colour s) = fg" using Cons.prems(6) by simp_all
  have t: "rx1 t < rx2 t" "rx2 t - rx1 t \<le> 16" "ry1 t < ry2 t" "ry2 t - ry1 t \<le> 16"
    using Cons.prems(3) by (simp_all add: tile_of_def)
  have s16: "sr_x s < 16" "sr_y s < 16" "sr_w s - 1 < 16" "sr_h s - 1 < 16" "0 < sr_w s" "0 < sr_h s"
    using fit t by (auto simp: sub_fits_def)
  have nib: "unat (drop_bit 4 p) = sr_x s" "unat (p AND 0x0F) = sr_y s"
    "unat (drop_bit 4 e) = sr_w s - 1" "unat (e AND 0x0F) = sr_h s - 1"
    unfolding p_def e_def using s16 by (simp_all only: nibbles)
  obtain r1 where r1: "read_colour coloured ?u fg rd = Inr (kp pf (sr_colour s), r1)" "reads d r1 (p # e # ?rest)"
  proof (cases coloured)
    case True
    have "reads d rd (push_pixel (sr_colour s) ?n @ p # e # ?rest)"
      using Cons.prems(9) True by (simp add: sub_bytes_def [of True ?n s] p_def e_def)
    from rd_take_reads [OF this length_push_pixel [OF Cons.prems(5)]] True that show ?thesis
      by (auto simp: read_colour_def kp_def)
  next
    case False
    with Cons.prems(9) colour that show ?thesis by (simp add: read_colour_def sub_bytes_def [of False ?n s] p_def e_def)
  qed
  obtain r2 where r2: "rd_byte r1 = Inr (p, r2)" "reads d r2 (e # ?rest)" using rd_byte_reads [OF r1(2)] by blast
  obtain r3 where r3: "rd_byte r2 = Inr (e, r3)" "reads d r3 ?rest" using rd_byte_reads [OF r2(2)] by blast
  have wh: "rect_width t = rx2 t - rx1 t" "rect_height t = ry2 t - ry1 t"
    using in_picture_width [OF Cons.prems(1,2)] by simp_all
  let ?q = "mk_rect (rx1 t + int (sr_x s)) (ry1 t + int (sr_y s)) (rx1 t + int (sr_x s) + int (sr_w s)) (ry1 t + int (sr_y s) + int (sr_h s))"
  have lim: "0 \<le> rx1 t" "rx2 t \<le> 65535" "0 \<le> ry1 t" "ry2 t \<le> 65535"
    using Cons.prems(1,2) by (simp_all add: in_picture_def fb_ok_def)
  have q: "rect_new (rx1 t + int (sr_x s)) (ry1 t + int (sr_y s)) (int (sr_w s)) (int (sr_h s)) = ?q"
    using lim t s16 by (intro rect_new_small) auto
  obtain fb1 where f1: "fill_or_panic ?q (kp pf (sr_colour s)) fb = Inr fb1" "painted fb fb1 (inside ?q) (\<lambda>_ _. kp pf (sr_colour s))"
    using fill_painted [OF Cons.prems(1) length_kp] by blast
  note k1 = paintedD [OF f1(2) Cons.prems(1)]
  have in1: "in_picture fb1 t" using Cons.prems(2) k1 by (simp add: in_picture_def)
  have cov: "\<forall>(x, y, c)\<in>covered subs. c = K x y" "\<forall>(x, y, c)\<in>covered [s]. c = K x y"
    using Cons.prems(7) covered_Cons [of s subs] by auto
  obtain rd' fb2 where ih: "decode_subrects (length subs) coloured ?u t fg r3 fb1 = Inr (rd', fb2)" "reads d rd' rest"
    "painted fb1 fb2 (hit t subs) ?F"
    using Cons.IH [OF k1(1) in1 Cons.prems(3-5) _ cov(1) Cons.prems(8) r3(2)] Cons.prems(6) by auto
  have inq: "inside ?q x y \<longleftrightarrow> hit t [s] x y" for x y
  proof -
    obtain X Y where "rx1 t = int X" "ry1 t = int Y" using lim nonneg_int_cases by metis
    then show ?thesis by (auto simp: inside_iff hit_def)
  qed
  have "painted fb fb2 (hit t (s # subs)) ?F"
  proof (rule painted_cong [OF painted_then [OF f1(2) ih(3)]])
    fix x y
    show "(inside ?q x y \<or> hit t subs x y) = hit t (s # subs) x y" unfolding inq by (auto simp: hit_def)
    assume "hit t (s # subs) x y"
    moreover have "sr_colour s = K (x - nat (rx1 t)) (y - nat (ry1 t))" if "hit t [s] x y"
      using that cov(2) by (auto simp: hit_def covered_def)
    ultimately show "(if hit t subs x y then ?F x y else kp pf (sr_colour s)) = ?F x y"
      by (auto simp: hit_def)
  qed
  moreover have "decode_subrects (length (s # subs)) coloured ?u t fg rd fb = Inr (rd', fb2)"
  proof -
    have ok: "\<not> (int (sr_x s) + (int (sr_w s - 1) + 1) > rx2 t - rx1 t \<or> int (sr_y s) + (int (sr_h s - 1) + 1) > ry2 t - ry1 t)"
      using fit t by (auto simp: sub_fits_def)
    have one: "int (sr_w s - 1) + 1 = int (sr_w s)" "int (sr_h s - 1) + 1 = int (sr_h s)" using s16(5,6) by simp_all
    have ui: "uint (drop_bit 4 e) = int (sr_w s - 1)" "uint (e AND 0x0F) = int (sr_h s - 1)"
      by (simp_all only: uint_nat nib)
    show ?thesis
      using ok [unfolded one] f1(1) ih(1) by (simp add: r1(1) r2(1) r3(1) nib ui [THEN arg_cong [of _ _ "\<lambda>i. i + 1"], unfolded one] wh q Let_def)
  qed
  ultimately show ?case using ih(2) by blast
qed

section \<open>One tile\<close>

definition sending :: "pixel_format \<Rightarrow> framebuffer \<Rightarrow> rect \<Rightarrow> framebuffer \<Rightarrow> bool" where
  "sending pf src t fb \<longleftrightarrow> pf_validate pf = Inr () \<and> channels_apart pf \<and> fb_ok src \<and> in_picture src t
    \<and> fb_ok fb \<and> in_picture fb t \<and> tile_of 16 t t"

definition tile_bytes :: "pixel_format \<Rightarrow> framebuffer \<Rightarrow> rect \<Rightarrow> bytes" where
  "tile_bytes pf src t = concat (map (\<lambda>px. convert_row px pf) (tile_px src t))"

definition keys_of :: "pixel_format \<Rightarrow> framebuffer \<Rightarrow> rect \<Rightarrow> u32 list" where
  "keys_of pf src t = map (\<lambda>px. word_of_bytes (convert_row px pf)) (tile_px src t)"

text \<open>The decoder's colour is the one the encoder remembers having sent.\<close>

definition holds :: "pixel_format \<Rightarrow> u32 option \<Rightarrow> bytes \<Rightarrow> bool" where
  "holds pf k px \<longleftrightarrow> length px = 4 \<and> (\<forall>c. k = Some c \<longrightarrow> px = kp pf c)"

definition decoded :: "pixel_format \<Rightarrow> framebuffer \<Rightarrow> rect \<Rightarrow> framebuffer \<Rightarrow> bytes \<Rightarrow> bytes \<Rightarrow> u32 option \<Rightarrow> u32 option
    \<Rightarrow> decode_error + (reader \<times> bytes \<times> bytes \<times> framebuffer) \<Rightarrow> bool" where
  "decoded pf src t fb d rest bg fg res \<longleftrightarrow> (\<exists>rd dbg dfg fb'. res = Inr (rd, dbg, dfg, fb') \<and> reads d rd rest
    \<and> holds pf bg dbg \<and> holds pf fg dfg \<and> painted fb fb' (inside t) (\<lambda>x y. through pf (fb_px src x y)))"

lemma tile_px_4:
  assumes "fb_ok fb" "in_picture fb t" shows "\<forall>px\<in>set (tile_px fb t). length px = 4"
  using length_fb_px [OF assms(1)] assms(2) by (auto simp: tile_px_def set_irange in_picture_def)

lemma sendingD:
  assumes "sending pf src t fb"
  shows "pf_validate pf = Inr ()" "channels_apart pf" "fb_ok src" "in_picture src t" "fb_ok fb" "in_picture fb t" "tile_of 16 t t"
    "0 < bytes_per_pixel pf" "bytes_per_pixel pf \<le> 4" "rx1 t < rx2 t"
    "rect_width t = rx2 t - rx1 t" "rect_height t = ry2 t - ry1 t"
    "u32_of (rect_width t) = nat (rx2 t - rx1 t)" "u32_of (rect_height t) = nat (ry2 t - ry1 t)"
    "\<forall>px\<in>set (tile_px src t). length px = 4"
    "length (tile_px src t) = nat (rx2 t - rx1 t) * nat (ry2 t - ry1 t)"
  using assms bpp_small [of pf] in_picture_width [of src t] tile_px_4 [of src t] length_tile_px [of src t]
  by (simp_all add: sending_def tile_of_def)

lemma keyed:
  assumes "sending pf src t fb" "inside t x y"
  shows "tile_index t x y < length (keys_of pf src t)"
    and "kp pf (keys_of pf src t ! tile_index t x y) = through pf (fb_px src x y)"
proof -
  note s = sendingD [OF assms(1)]
  show i: "tile_index t x y < length (keys_of pf src t)"
    using tile_index_less [OF s(4) assms(2)] s(16) by (simp add: keys_of_def)
  then have "tile_px src t ! tile_index t x y \<in> set (tile_px src t)" by (simp add: keys_of_def)
  with s(15) have "length (tile_px src t ! tile_index t x y) = 4" by blast
  from kp_sent [OF s(1,2) this] i show "kp pf (keys_of pf src t ! tile_index t x y) = through pf (fb_px src x y)"
    by (simp add: keys_of_def tile_px_nth [OF s(4) assms(2)])
qed

lemma length_tile_bytes:
  assumes "sending pf src t fb"
  shows "length (tile_bytes pf src t) = nat (rx2 t - rx1 t) * nat (ry2 t - ry1 t) * bytes_per_pixel pf"
proof -
  note s = sendingD [OF assms]
  have "length (concat (map (\<lambda>px. convert_row px pf) pxs)) = length pxs * bytes_per_pixel pf"
    if "\<forall>px\<in>set pxs. length px = 4" for pxs
    using that by (induction pxs) (simp_all add: length_convert_px [OF s(1)])
  from this [OF s(15)] show ?thesis by (simp add: tile_bytes_def s(16))
qed

lemma raw_decoded:
  assumes "sending pf src t fb" "holds pf bg dbg" "holds pf fg dfg" "reads d rd (hex_raw (tile_bytes pf src t) @ rest)"
  shows "decoded pf src t fb d rest bg fg (hex_decode_tile (unpacker_new pf) t (rd, dbg, dfg, fb))"
proof -
  note s = sendingD [OF assms(1)]
  let ?n = "bytes_per_pixel pf"
  obtain r1 where r1: "rd_byte rd = Inr (HF_RAW, r1)" "reads d r1 (tile_bytes pf src t @ rest)"
    using rd_byte_reads [of d rd HF_RAW] assms(4) by (auto simp: hex_raw_def)
  obtain r2 where r2: "rd_take (nat (rx2 t - rx1 t) * nat (ry2 t - ry1 t) * ?n) r1 = Inr (tile_bytes pf src t, r2)" "reads d r2 rest"
    using rd_take_reads [OF r1(2) length_tile_bytes [OF assms(1)]] by blast
  let ?pxs = "map (unpack (unpacker_new pf)) (chunks ?n (tile_bytes pf src t))"
  have pxs: "?pxs = map (through pf) (tile_px src t)"
    unfolding tile_bytes_def tile_keys_sent(1) [OF s(1,15)] map_map comp_def
    using s(15) unpack_sent [OF s(1,2), of _ "[]"] by (intro map_cong refl) simp
  have "0 + length ?pxs \<le> nat (rx2 t - rx1 t) * nat (ry2 t - ry1 t)" unfolding pxs by (simp add: s(16))
  moreover have "\<forall>px\<in>set ?pxs. length px = 4" unfolding pxs by (simp add: through_def)
  ultimately obtain fb' where f: "put_pixels 0 (rx1 t) (ry1 t) (rx2 t - rx1 t) ?pxs fb = Inr fb'"
    "painted fb fb' (\<lambda>x y. inside t x y \<and> 0 \<le> tile_index t x y \<and> tile_index t x y < 0 + length ?pxs)
      (\<lambda>x y. ?pxs ! (tile_index t x y - 0))"
    using put_pixels_painted [OF s(5,6) refl] s(10) by fastforce
  have "painted fb fb' (inside t) (\<lambda>x y. through pf (fb_px src x y))"
  proof (rule painted_cong [OF f(2)])
    fix x y
    show "(inside t x y \<and> 0 \<le> tile_index t x y \<and> tile_index t x y < 0 + length ?pxs) = inside t x y"
      using tile_index_less [OF s(4), of x y] unfolding pxs by (auto simp: s(16))
    assume "inside t x y"
    then show "?pxs ! (tile_index t x y - 0) = through pf (fb_px src x y)"
      using tile_index_less [OF s(4), of x y] tile_px_nth [OF s(4), of x y] unfolding pxs by (simp add: s(16))
  qed
  moreover have "hex_decode_tile (unpacker_new pf) t (rd, dbg, dfg, fb) = Inr (r2, dbg, dfg, fb')"
    using f(1) by (simp add: hex_decode_tile_def r1(1) r2(1) s(13,14) [unfolded s(11,12)] s(11,12) HF_RAW_def)
  ultimately show ?thesis using r2(2) assms(2,3) unfolding decoded_def by blast
qed

lemma solid_decoded:
  assumes "sending pf src t fb" "holds pf bg dbg" "holds pf fg dfg" "\<forall>k\<in>set (keys_of pf src t). k = c"
    and "reads d rd ((if bg \<noteq> Some c then HF_BACKGROUND # push_pixel c (bytes_per_pixel pf) else [0]) @ rest)"
  shows "decoded pf src t fb d rest (Some c) fg (hex_decode_tile (unpacker_new pf) t (rd, dbg, dfg, fb))"
proof -
  note s = sendingD [OF assms(1)]
  let ?u = "unpacker_new pf" and ?new = "bg \<noteq> Some c"
  obtain h r1 where r1: "rd_byte rd = Inr (h, r1)" "h = (if ?new then HF_BACKGROUND else 0)"
    "reads d r1 ((if ?new then push_pixel c (bytes_per_pixel pf) else []) @ rest)"
  proof (cases ?new)
    case True
    with rd_byte_reads [of d rd HF_BACKGROUND] assms(5) that [of HF_BACKGROUND] show ?thesis by auto
  next
    case False
    with rd_byte_reads [of d rd 0 rest] assms(5) that [of 0] show ?thesis by auto
  qed
  have h: "h AND HF_RAW = 0" "(h AND HF_BACKGROUND \<noteq> 0) = ?new" "h AND HF_FOREGROUND = 0" "h AND HF_ANY_SUBRECTS = 0"
    unfolding r1(2) by (simp_all add: hflags)
  obtain r2 where r2: "read_colour ?new ?u dbg r1 = Inr (kp pf c, r2)" "reads d r2 rest"
  proof (cases ?new)
    case True
    then have "reads d r1 (push_pixel c (bytes_per_pixel pf) @ rest)" using r1(3) by simp
    from rd_take_reads [OF this length_push_pixel [OF s(9)]] True that show ?thesis by (auto simp: read_colour_def kp_def)
  next
    case False
    then have "dbg = kp pf c" using assms(2) by (simp add: holds_def)
    with False r1(3) that show ?thesis by (simp add: read_colour_def)
  qed
  obtain fb' where f: "fill_or_panic t (kp pf c) fb = Inr fb'" "painted fb fb' (inside t) (\<lambda>_ _. kp pf c)"
    using fill_painted [OF s(5) length_kp] by blast
  have "painted fb fb' (inside t) (\<lambda>x y. through pf (fb_px src x y))"
    by (rule painted_cong [OF f(2)]) (use keyed [OF assms(1)] assms(4) nth_mem in metis)+
  moreover have "hex_decode_tile ?u t (rd, dbg, dfg, fb) = Inr (r2, kp pf c, dfg, fb')"
    using f(1) r2(1) by (simp add: hex_decode_tile_def r1(1) h read_colour_def [of False])
  moreover have "holds pf (Some c) (kp pf c)" by (simp add: holds_def)
  ultimately show ?thesis using r2(2) assms(3) unfolding decoded_def by blast
qed

lemma head_flags:
  fixes a b c :: bool
  defines "h \<equiv> HF_ANY_SUBRECTS OR (if a then HF_BACKGROUND else 0) OR (if b then HF_FOREGROUND else 0)
    OR (if c then HF_SUBRECTS_COLOURED else 0)"
  shows "h AND HF_RAW = 0" "(h AND HF_BACKGROUND = 0) = (\<not> a)" "(h AND HF_FOREGROUND = 0) = (\<not> b)"
    "h AND HF_ANY_SUBRECTS \<noteq> 0" "(h AND HF_SUBRECTS_COLOURED = 0) = (\<not> c)"
  unfolding h_def by (cases a; cases b; cases c; simp add: hflags)+

lemma read_colour_sent:
  assumes "bytes_per_pixel pf \<le> 4" "holds pf old dold"
    and "reads d r ((if new then push_pixel k (bytes_per_pixel pf) else []) @ rest)"
    and "\<not> new \<longrightarrow> want = dold" "new \<longrightarrow> want = kp pf k"
  shows "\<exists>r'. read_colour new (unpacker_new pf) dold r = Inr (want, r') \<and> reads d r' rest"
proof (cases new)
  case True
  then have "reads d r (push_pixel k (bytes_per_pixel pf) @ rest)" using assms(3) by simp
  from rd_take_reads [OF this length_push_pixel [OF assms(1)]] True assms(5) show ?thesis
    by (auto simp: read_colour_def kp_def)
next
  case False
  with assms(3,4) show ?thesis by (simp add: read_colour_def)
qed

text \<open>The subrectangles of a tile: where they paint, and that the rest is background.\<close>

lemma runs_facts:
  assumes "sending pf src t fb"
  defines "W \<equiv> nat (rx2 t - rx1 t)" and "H \<equiv> nat (ry2 t - ry1 t)" and "ks \<equiv> keys_of pf src t"
  shows "s \<in> set (runs ks W H bg) \<Longrightarrow> sub_fits t s \<and> sr_colour s \<in> set ks \<and> sr_colour s \<noteq> bg"
    and "\<forall>(x, y, c)\<in>covered (runs ks W H bg). c = ks ! (y * W + x)"
    and "hit t (runs ks W H bg) x y \<longleftrightarrow> inside t x y \<and> ks ! tile_index t x y \<noteq> bg"
proof -
  note s = sendingD [OF assms(1)]
  have len: "H * W \<le> length ks" using s(16) by (simp add: W_def H_def ks_def keys_of_def)
  note cov = runs_cover [OF len, of bg]
  show c: "\<forall>(x, y, c)\<in>covered (runs ks W H bg). c = ks ! (y * W + x)"
    unfolding cov by (auto simp: grid_cells_def)
  show "sub_fits t s \<and> sr_colour s \<in> set ks \<and> sr_colour s \<noteq> bg" if "s \<in> set (runs ks W H bg)" for s
  proof -
    have i: "0 < sr_w s \<and> 0 < sr_h s \<and> sr_x s + sr_w s \<le> W \<and> sr_y s + sr_h s \<le> H"
      by (rule runs_inside [OF len that])
    with that have "(sr_x s, sr_y s, sr_colour s) \<in> covered (runs ks W H bg)"
      by (auto simp: covered_def intro!: bexI [of _ s])
    then have g: "sr_colour s = ks ! (sr_y s * W + sr_x s)" "sr_colour s \<noteq> bg" unfolding cov by (auto simp: grid_cells_def)
    have "Suc (sr_y s) * W \<le> H * W" using i by (intro mult_le_mono1) simp
    then have "sr_y s * W + sr_x s < length ks" using i len by simp
    with g i show ?thesis by (simp add: sub_fits_def W_def H_def)
  qed
  have t: "0 \<le> rx1 t" "0 \<le> ry1 t" "rx1 t \<le> rx2 t" "ry1 t \<le> ry2 t" using s(4) by (simp_all add: in_picture_def)
  have "hit t (runs ks W H bg) x y \<longleftrightarrow> nat (rx1 t) \<le> x \<and> nat (ry1 t) \<le> y
      \<and> (\<exists>c. (x - nat (rx1 t), y - nat (ry1 t), c) \<in> covered (runs ks W H bg))"
    unfolding hit_def covered_def by blast
  also have "\<dots> \<longleftrightarrow> inside t x y \<and> ks ! tile_index t x y \<noteq> bg"
    unfolding cov using t by (auto simp: grid_cells_def inside_iff tile_index_def W_def H_def)
  finally show "hit t (runs ks W H bg) x y \<longleftrightarrow> inside t x y \<and> ks ! tile_index t x y \<noteq> bg" .
qed

lemma subrects_decoded:
  fixes new_bg new_fg coloured :: bool
  assumes s0: "sending pf src t fb" and hb: "holds pf bg dbg" and hf: "holds pf fg dfg"
    and nb: "new_bg = (bg \<noteq> Some b)"
    and nf: "new_fg = (case fo of Some f \<Rightarrow> fg \<noteq> Some f | None \<Rightarrow> False)"
    and two: "\<not> coloured \<longrightarrow> (\<forall>k\<in>set (keys_of pf src t). k \<noteq> b \<longrightarrow> fo = Some k)"
    and subs: "subs = runs (keys_of pf src t) (nat (rx2 t - rx1 t)) (nat (ry2 t - ry1 t)) b" "length subs \<le> 255"
    and rd: "reads d rd ((HF_ANY_SUBRECTS OR (if new_bg then HF_BACKGROUND else 0) OR (if new_fg then HF_FOREGROUND else 0)
        OR (if coloured then HF_SUBRECTS_COLOURED else 0))
      # (if new_bg then push_pixel b (bytes_per_pixel pf) else [])
      @ (case fo of Some f \<Rightarrow> if new_fg then push_pixel f (bytes_per_pixel pf) else [] | None \<Rightarrow> [])
      @ of_nat (length subs) # concat (map (sub_bytes coloured (bytes_per_pixel pf)) subs) @ rest)"
  shows "decoded pf src t fb d rest (Some b) (case fo of Some f \<Rightarrow> Some f | None \<Rightarrow> fg)
    (hex_decode_tile (unpacker_new pf) t (rd, dbg, dfg, fb))"
proof -
  note s = sendingD [OF s0]
  let ?u = "unpacker_new pf" and ?n = "bytes_per_pixel pf" and ?ks = "keys_of pf src t"
  let ?W = "nat (rx2 t - rx1 t)"
  define h where "h = HF_ANY_SUBRECTS OR (if new_bg then HF_BACKGROUND else 0) OR (if new_fg then HF_FOREGROUND else 0)
        OR (if coloured then HF_SUBRECTS_COLOURED else 0)"
  note flags = head_flags [of new_bg new_fg coloured, folded h_def]
  let ?dfg = "case fo of Some f \<Rightarrow> kp pf f | None \<Rightarrow> dfg"
  let ?tail = "of_nat (length subs) # concat (map (sub_bytes coloured ?n) subs) @ rest"
  obtain r1 where r1: "rd_byte rd = Inr (h, r1)" "reads d r1 ((if new_bg then push_pixel b ?n else [])
      @ (if new_fg then push_pixel (the fo) ?n else []) @ ?tail)"
    using rd_byte_reads [OF rd [folded h_def]] nf by (cases fo) auto
  obtain r2 where r2: "read_colour new_bg ?u dbg r1 = Inr (kp pf b, r2)"
    "reads d r2 ((if new_fg then push_pixel (the fo) ?n else []) @ ?tail)"
    using read_colour_sent [OF s(9) hb r1(2), of "kp pf b"] hb nb by (auto simp: holds_def)
  obtain r3 where r3: "read_colour new_fg ?u dfg r2 = Inr (?dfg, r3)" "reads d r3 ?tail"
    using read_colour_sent [OF s(9) hf r2(2), of ?dfg] hf nf by (cases fo) (auto simp: holds_def)
  obtain r4 where r4: "rd_byte r3 = Inr (of_nat (length subs), r4)"
    "reads d r4 (concat (map (sub_bytes coloured ?n) subs) @ rest)"
    using rd_byte_reads [OF r3(2)] by blast
  have dfg4: "length ?dfg = 4" using hf by (simp add: holds_def split: option.split)
  obtain fb1 where f1: "fill_or_panic t (kp pf b) fb = Inr fb1" "painted fb fb1 (inside t) (\<lambda>_ _. kp pf b)"
    using fill_painted [OF s(5) length_kp] by blast
  note k1 = paintedD [OF f1(2) s(5)]
  have in1: "in_picture fb1 t" using s(6) k1 by (simp add: in_picture_def)
  note rf = runs_facts [OF s0, where bg = b, folded subs(1)]
  have ok: "\<forall>q\<in>set subs. sub_fits t q \<and> (\<not> coloured \<longrightarrow> kp pf (sr_colour q) = ?dfg)"
    using rf(1) two by fastforce
  obtain rd' fb2 where f2: "decode_subrects (length subs) coloured ?u t ?dfg r4 fb1 = Inr (rd', fb2)" "reads d rd' rest"
    "painted fb1 fb2 (hit t subs) (\<lambda>x y. kp pf (?ks ! ((y - nat (ry1 t)) * ?W + (x - nat (rx1 t)))))"
    using decode_subrects_painted [OF k1(1) in1 s(7-9) ok rf(2) dfg4 r4(2)] by blast
  have "painted fb fb2 (inside t) (\<lambda>x y. through pf (fb_px src x y))"
  proof (rule painted_cong [OF painted_then [OF f1(2) f2(3)]])
    fix x y
    show "(inside t x y \<or> hit t subs x y) = inside t x y" using rf(3) by blast
    assume "inside t x y"
    then show "(if hit t subs x y then kp pf (?ks ! ((y - nat (ry1 t)) * ?W + (x - nat (rx1 t)))) else kp pf b)
        = through pf (fb_px src x y)"
      using keyed(2) [OF s0, of x y] rf(3) [of x y] by (auto simp: tile_index_def)
  qed
  moreover have "hex_decode_tile ?u t (rd, dbg, dfg, fb) = Inr (rd', kp pf b, ?dfg, fb2)"
  proof -
    have "length subs < 256" using subs(2) by simp
    then have "unat (of_nat (length subs) :: u8) = length subs" by (simp add: unsigned_of_nat take_bit_nat_eq_self)
    with f1(1) f2(1) show ?thesis
      by (simp add: hex_decode_tile_def r1(1) r2(1) r3(1) r4(1) flags)
  qed
  moreover have "holds pf (Some b) (kp pf b)" by (simp add: holds_def)
  moreover have "holds pf (case fo of Some f \<Rightarrow> Some f | None \<Rightarrow> fg) ?dfg"
    using hf by (simp add: holds_def split: option.split)
  ultimately show ?thesis using f2(2) unfolding decoded_def by blast
qed

lemma keys_sent: "sending pf src t fb \<Longrightarrow> tile_keys (bytes_per_pixel pf) (tile_bytes pf src t) = keys_of pf src t"
  using tile_keys_sent(2) [of pf "tile_px src t"] by (simp add: tile_bytes_def keys_of_def sendingD)

text \<open>The four shapes of a tile, as the encoder chooses between them.\<close>

lemma hex_tile_shapes:
  assumes "hex_tile n bytes W H bg fg = (out, bg', fg')"
  defines "ks \<equiv> tile_keys n bytes"
  defines "cs \<equiv> count_colours ks []"
  obtains (raw) "out = hex_raw bytes" "bg' = bg" "fg' = fg"
    | (solid) c where "cs \<noteq> []" "length cs = 1" "c = fst (hd cs)" "fg' = fg" "bg' = Some c"
        "out = (if bg \<noteq> Some c then HF_BACKGROUND # push_pixel c n else [0])"
    | (subs) b fo coloured new_bg new_fg subs where "cs \<noteq> []" "b = commonest cs" "coloured = (length cs > 2)"
        "fo = (if coloured then None else find (\<lambda>c. c \<noteq> b) (map fst cs))"
        "subs = runs ks W H b" "length subs \<le> 255" "new_bg = (bg \<noteq> Some b)"
        "new_fg = (case fo of Some f \<Rightarrow> fg \<noteq> Some f | None \<Rightarrow> False)"
        "out = (HF_ANY_SUBRECTS OR (if new_bg then HF_BACKGROUND else 0) OR (if new_fg then HF_FOREGROUND else 0)
            OR (if coloured then HF_SUBRECTS_COLOURED else 0))
          # (if new_bg then push_pixel b n else [])
          @ (case fo of Some f \<Rightarrow> if new_fg then push_pixel f n else [] | None \<Rightarrow> [])
          @ of_nat (length subs) # concat (map (sub_bytes coloured n) subs)"
        "bg' = Some b" "fg' = (case fo of Some f \<Rightarrow> Some f | None \<Rightarrow> fg)"
proof -
  note h = assms(1) [unfolded hex_tile_def Let_def, folded ks_def, folded cs_def]
  consider "length cs = 1" | "cs = []" | "length cs \<noteq> 1" "cs \<noteq> []" by blast
  then show thesis
  proof cases
    case 1
    with h show ?thesis by (intro solid [of "fst (hd cs)"]) (auto simp: hflags split: if_splits)
  next
    case 2
    with h show ?thesis by (intro raw) simp_all
  next
    case 3
    define b where "b = commonest cs"
    define coloured where "coloured = (length cs > 2)"
    define fo where "fo = (if coloured then None else find (\<lambda>c. c \<noteq> b) (map fst cs))"
    define rs where "rs = runs ks W H b"
    define new_bg where "new_bg = (bg \<noteq> Some b)"
    define new_fg where "new_fg = (case fo of Some f \<Rightarrow> fg \<noteq> Some f | None \<Rightarrow> False)"
    define body where "body = (if new_bg then push_pixel b n else [])
          @ (case fo of Some f \<Rightarrow> if new_fg then push_pixel f n else [] | None \<Rightarrow> [])
          @ [of_nat (length rs)] @ concat (map (sub_bytes coloured n) rs)"
    note h3 = h [unfolded if_not_P [OF 3(1)] if_not_P [OF 3(2)], folded b_def, folded coloured_def, folded fo_def,
        folded rs_def new_bg_def new_fg_def, folded body_def]
    show ?thesis
    proof (cases "length rs > MAX_SUBRECTS \<or> \<not> length body < length ks * n")
      case True
      then show ?thesis using h3 by (intro raw) (auto split: if_splits)
    next
      case False
      then have "out = (HF_ANY_SUBRECTS OR (if new_bg then HF_BACKGROUND else 0) OR (if new_fg then HF_FOREGROUND else 0)
            OR (if coloured then HF_SUBRECTS_COLOURED else 0)) # body"
        and b': "bg' = (if new_bg then Some b else bg)"
        and f': "fg' = (case fo of Some f \<Rightarrow> if new_fg then Some f else fg | None \<Rightarrow> fg)"
        using h3 by (simp_all split: option.splits)
      then show ?thesis
        by (intro subs [OF 3(2) b_def coloured_def fo_def rs_def _ new_bg_def new_fg_def])
          (use False in \<open>auto simp: body_def MAX_SUBRECTS_def new_bg_def new_fg_def split: option.splits if_splits\<close>)
    qed
  qed
qed

lemma hex_tile_decoded:
  assumes s: "sending pf src t fb" and hb: "holds pf bg dbg" and hf: "holds pf fg dfg"
    and enc: "hex_tile (bytes_per_pixel pf) (tile_bytes pf src t) (nat (rx2 t - rx1 t)) (nat (ry2 t - ry1 t)) bg fg = (out, bg', fg')"
    and rd: "reads d rd (out @ rest)"
  shows "decoded pf src t fb d rest bg' fg' (hex_decode_tile (unpacker_new pf) t (rd, dbg, dfg, fb))"
  using enc
proof (cases rule: hex_tile_shapes)
  case raw
  then show ?thesis using raw_decoded [OF s hb hf] rd by simp
next
  case (solid c)
  note set = count_colours_set [OF solid(1), unfolded keys_sent [OF s]]
  have "\<forall>k\<in>set (keys_of pf src t). k = c"
    using set solid(2,3) unfolding keys_sent [OF s] by (auto simp: length_Suc_conv)
  from solid_decoded [OF s hb hf this] rd solid show ?thesis by simp
next
  case (subs b fo coloured new_bg new_fg rs)
  note set = count_colours_set [OF subs(1), unfolded keys_sent [OF s]]
  have two: "\<not> coloured \<longrightarrow> (\<forall>k\<in>set (keys_of pf src t). k \<noteq> b \<longrightarrow> fo = Some k)"
  proof (intro impI ballI)
    fix k assume c: "\<not> coloured" and k: "k \<in> set (keys_of pf src t)" "k \<noteq> b"
    let ?cs = "count_colours (keys_of pf src t) []"
    have cs: "length ?cs \<le> 2" "?cs \<noteq> []" "k \<in> fst ` set ?cs" "b = commonest ?cs"
      "fo = find (\<lambda>c. c \<noteq> b) (map fst ?cs)"
      using c k set subs(1-4) unfolding keys_sent [OF s] by simp_all
    show "fo = Some k"
    proof (cases fo)
      case None
      with cs(3) cs(5) [symmetric] k(2) show ?thesis by (auto simp: find_None_iff)
    next
      case (Some f)
      with two_colours [OF cs(1,2), of f k] cs k(2) show ?thesis by simp
    qed
  qed
  show ?thesis
    unfolding subs(10,11)
    using subrects_decoded [OF s hb hf subs(7,8) two subs(5) [unfolded keys_sent [OF s]] subs(6), of d rd rest] rd subs(9)
    by simp
qed

section \<open>The whole rectangle\<close>

lemma hex_tiles_decoded:
  assumes "pf_validate pf = Inr ()" "channels_apart pf" "fb_ok src" "fb_ok fb"
    and "\<forall>t\<in>set ts. in_picture src t \<and> in_picture fb t \<and> tile_of 16 t t"
    and "holds pf bg dbg" "holds pf fg dfg"
    and "hex_tiles src pf (bytes_per_pixel pf) ts bg fg = Some out" "reads d rd (out @ rest)"
  shows "\<exists>rd' dbg' dfg' fb'. hex_decode_tiles (unpacker_new pf) ts (rd, dbg, dfg, fb) = Inr (rd', dbg', dfg', fb')
    \<and> reads d rd' rest \<and> painted fb fb' (\<lambda>x y. \<exists>t\<in>set ts. inside t x y) (\<lambda>x y. through pf (fb_px src x y))"
  using assms
proof (induction ts arbitrary: fb bg dbg fg dfg out rd)
  case Nil
  then show ?case by (auto intro: painted_cong [OF painted_refl])
next
  case (Cons t ts)
  have t: "in_picture src t" "in_picture fb t" "tile_of 16 t t" using Cons.prems(5) by simp_all
  have s: "sending pf src t fb" using Cons.prems(1-4) t by (simp add: sending_def)
  have read: "read_tile src t pf = Some (tile_bytes pf src t)"
    using read_tile_ok [OF Cons.prems(3) t(1)] by (simp add: tile_bytes_def)
  obtain out1 bg1 fg1 where e1: "hex_tile (bytes_per_pixel pf) (tile_bytes pf src t) (nat (rx2 t - rx1 t)) (nat (ry2 t - ry1 t)) bg fg
      = (out1, bg1, fg1)"
    using prod_cases3 by blast
  with Cons.prems(8) read sendingD(8,9,13,14) [OF s] obtain out2 where
    e2: "hex_tiles src pf (bytes_per_pixel pf) ts bg1 fg1 = Some out2" "out = out1 @ out2"
    by (auto split: option.splits if_splits)
  have "reads d rd (out1 @ (out2 @ rest))" using Cons.prems(9) e2(2) by simp
  from hex_tile_decoded [OF s Cons.prems(6,7) e1 this] obtain rd1 dbg1 dfg1 fb1 where
    d1: "hex_decode_tile (unpacker_new pf) t (rd, dbg, dfg, fb) = Inr (rd1, dbg1, dfg1, fb1)" "reads d rd1 (out2 @ rest)"
      "holds pf bg1 dbg1" "holds pf fg1 dfg1" "painted fb fb1 (inside t) (\<lambda>x y. through pf (fb_px src x y))"
    unfolding decoded_def by blast
  note k = paintedD [OF d1(5) Cons.prems(4)]
  have ts: "\<forall>t\<in>set ts. in_picture src t \<and> in_picture fb1 t \<and> tile_of 16 t t"
    using Cons.prems(5) k by (simp add: in_picture_def)
  obtain rd' dbg' dfg' fb' where
    d2: "hex_decode_tiles (unpacker_new pf) ts (rd1, dbg1, dfg1, fb1) = Inr (rd', dbg', dfg', fb')" "reads d rd' rest"
      "painted fb1 fb' (\<lambda>x y. \<exists>t\<in>set ts. inside t x y) (\<lambda>x y. through pf (fb_px src x y))"
    using Cons.IH [OF Cons.prems(1-3) k(1) ts d1(3,4) e2(1) d1(2)] by blast
  have "painted fb fb' (\<lambda>x y. \<exists>t\<in>set (t # ts). inside t x y) (\<lambda>x y. through pf (fb_px src x y))"
    by (rule painted_cong [OF painted_then [OF d1(5) d2(3)]]) simp_all
  with d1(1) d2(1,2) show ?case by simp
qed

lemma hex_tiles_total:
  assumes "pf_validate pf = Inr ()" "fb_ok src" "\<forall>t\<in>set ts. in_picture src t"
  shows "\<exists>out. hex_tiles src pf (bytes_per_pixel pf) ts bg fg = Some out"
  using assms(3)
proof (induction ts arbitrary: bg fg)
  case (Cons t ts)
  show ?case
    using Cons bpp_small [OF assms(1)] read_tile_ok [OF assms(2), of t pf]
    by (cases "hex_tile (bytes_per_pixel pf) (concat (map (\<lambda>px. convert_row px pf) (tile_px src t)))
        (u32_of (rect_width t)) (u32_of (rect_height t)) bg fg") (fastforce split: option.split)
qed simp

lemma hextile_round_trip_painted:
  assumes "pf_validate pf = Inr ()" "channels_apart pf" "fb_ok src" "fb_ok fb" "in_picture src r" "in_picture fb r"
  shows "\<exists>out fb'. hextile_encode src r pf = Some out
    \<and> hextile_decode (out @ rest) r pf fb = Inr (length out, fb')
    \<and> painted fb fb' (inside r) (\<lambda>x y. through pf (fb_px src x y))"
proof -
  have T: "(0::int) < 16" by simp
  have ts: "\<forall>t\<in>set (tiles 16 r). in_picture src t \<and> in_picture fb t \<and> tile_of 16 t t"
    using tiles_spec(1) [OF T assms(3,5)] tiles_spec(1) [OF T assms(4,6)] by (auto simp: tile_of_def)
  have all: "(\<exists>t\<in>set (tiles 16 r). inside t x y) = inside r x y" for x y
    unfolding inside_def tiles_spec(2) [OF T assms(3,5), symmetric] by blast
  obtain out where e: "hextile_encode src r pf = Some out"
    "hex_tiles src pf (bytes_per_pixel pf) (tiles 16 r) None None = Some out"
    using hex_tiles_total [OF assms(1,3), of "tiles 16 r" None None] ts by (auto simp: hextile_encode_def HEX_TILE_def)
  have h: "holds pf None [0, 0, 0, 0]" by (simp add: holds_def)
  from hex_tiles_decoded [OF assms(1-4) ts h h e(2) reads_new] obtain rd' dbg' dfg' fb' where
    d: "hex_decode_tiles (unpacker_new pf) (tiles 16 r) (reader_new (out @ rest), [0, 0, 0, 0], [0, 0, 0, 0], fb) = Inr (rd', dbg', dfg', fb')"
      "reads (out @ rest) rd' rest"
      "painted fb fb' (\<lambda>x y. \<exists>t\<in>set (tiles 16 r). inside t x y) (\<lambda>x y. through pf (fb_px src x y))"
    by blast
  have "hextile_decode (out @ rest) r pf fb = Inr (length out, fb')"
    using d(1) reads_at [OF d(2)] by (simp add: hextile_decode_def)
  with e(1) d(3) show ?thesis unfolding all by blast
qed

end
