(* ===== verification/Pictures.thy ===== *)
theory Pictures
  imports Hextile_Round_Trip
begin

text \<open>
  What the framebuffer, the pixel conversion and the simple encoders do, from the operations'
  own lemmas: a moved block, a pixel sent and received, the Raw rectangle, the pointer and the
  Hextile rectangle decoded.
\<close>

section \<open>Chunks by position\<close>

lemma length_chunks: "0 < n \<Longrightarrow> length (chunks n xs) = length xs div n"
proof (induction n xs rule: chunks.induct)
  case (1 n xs)
  show ?case
  proof (cases "length xs < n")
    case False
    with 1 have "length (chunks n xs) = Suc ((length xs - n) div n)" by (subst chunks.simps) simp
    with 1(2) False show ?thesis by (simp add: le_div_geq)
  qed (simp add: chunks_short)
qed

lemma nth_chunks: "i < length (chunks n xs) \<Longrightarrow> chunks n xs ! i = take n (drop (i * n) xs)"
proof (induction n xs arbitrary: i rule: chunks.induct)
  case (1 n xs)
  then have c: "0 < n" "n \<le> length xs" by (auto simp: chunks.simps [of n xs] split: if_splits)
  then have e: "chunks n xs = take n xs # chunks n (drop n xs)" by (subst chunks.simps) simp
  show ?case using 1 c e by (cases i) (auto simp: add.commute)
qed

section \<open>The mask of a pointer\<close>

lemma mask_byte: "bit (drop_bit m (0x80 :: u8)) k \<longleftrightarrow> k + m = 7"
proof -
  have "bit (push_bit 7 1 :: u8) n \<longleftrightarrow> n = 7" for n
    by (simp only: bit_push_bit_iff bit_1_iff possible_bit_word) auto
  moreover have "(0x80 :: u8) = push_bit 7 1" by simp
  ultimately have b: "bit (0x80 :: u8) n \<longleftrightarrow> n = 7" for n by (simp only:)
  show ?thesis by (simp only: bit_drop_bit_eq comp_def b add.commute)
qed

lemma length_mask_bits_loop [simp]: "length (mask_bits_loop x pxs out) = length out"
  by (induction x pxs out rule: mask_bits_loop.induct) simp_all

lemma mask_bits_loop_bit:
  assumes "x + length pxs \<le> length out * 8" "j < length out * 8"
  shows "bit (mask_bits_loop x pxs out ! (j div 8)) (7 - j mod 8) \<longleftrightarrow>
    bit (out ! (j div 8)) (7 - j mod 8) \<or> (x \<le> j \<and> j < x + length pxs \<and> 128 \<le> pxs ! (j - x) ! 3)"
  using assms
proof (induction x pxs out rule: mask_bits_loop.induct)
  case (2 x px pxs out)
  let ?out = "if px ! 3 \<ge> 128 then out[x div 8 := out ! (x div 8) OR drop_bit (x mod 8) 0x80] else out"
  have "x div 8 < length out" using 2(2) by simp
  then have "bit (?out ! (j div 8)) (7 - j mod 8) \<longleftrightarrow> bit (out ! (j div 8)) (7 - j mod 8)
      \<or> (128 \<le> px ! 3 \<and> j div 8 = x div 8 \<and> 7 - j mod 8 + x mod 8 = 7)"
    by (auto simp: nth_list_update bit_or_iff mask_byte)
  moreover have "j div 8 = x div 8 \<and> 7 - j mod 8 + x mod 8 = 7 \<longleftrightarrow> j = x"
  proof
    assume h: "j div 8 = x div 8 \<and> 7 - j mod 8 + x mod 8 = 7"
    have "j mod 8 < 8" "x mod 8 < 8" by simp_all
    with h have "j mod 8 = x mod 8" by linarith
    with h show "j = x" by (metis div_mult_mod_eq)
  next
    have "x mod 8 < 8" by simp
    then show "j = x \<Longrightarrow> j div 8 = x div 8 \<and> 7 - j mod 8 + x mod 8 = 7" by simp
  qed
  ultimately have "bit (?out ! (j div 8)) (7 - j mod 8) \<longleftrightarrow> bit (out ! (j div 8)) (7 - j mod 8) \<or> (128 \<le> px ! 3 \<and> j = x)"
    by blast
  moreover have "bit (mask_bits_loop (Suc x) pxs ?out ! (j div 8)) (7 - j mod 8) \<longleftrightarrow>
      bit (?out ! (j div 8)) (7 - j mod 8) \<or> (Suc x \<le> j \<and> j < Suc x + length pxs \<and> 128 \<le> pxs ! (j - Suc x) ! 3)"
    using 2 by simp
  ultimately show ?case by (auto simp: nth_Cons' Suc_le_eq)
qed auto

lemma padded:
  fixes w :: nat
  shows "w \<le> (w + 7) div 8 * 8" "x < w \<Longrightarrow> x div 8 < (w + 7) div 8"
proof -
  have "(w + 7) div 8 * 8 + (w + 7) mod 8 = w + 7" "(w + 7) mod 8 < 8" by simp_all
  then show w: "w \<le> (w + 7) div 8 * 8" by linarith
  show "x < w \<Longrightarrow> x div 8 < (w + 7) div 8" using w by (intro less_mult_imp_div_less) simp
qed

lemma mask_line_bit:
  assumes "length line = w * 4" "x < w"
  shows "bit (mask_line w line ! (x div 8)) (7 - x mod 8) \<longleftrightarrow> 128 \<le> line ! (x * 4 + 3)"
proof -
  have c: "length (chunks 4 line) = w" using assms(1) by (simp add: length_chunks)
  have "w \<le> (w + 7) div 8 * 8" "x < (w + 7) div 8 * 8" using assms(2) padded(1) [of w] by linarith+
  moreover have "x div 8 < (w + 7) div 8" using assms(2) by (rule padded(2))
  moreover have "chunks 4 line ! x ! 3 = line ! (x * 4 + 3)"
    using nth_chunks [of x 4 line] c assms by simp
  ultimately show ?thesis
    using mask_bits_loop_bit [of 0 "chunks 4 line" "replicate ((w + 7) div 8) 0" x] c assms(2)
    by (simp add: mask_line_def)
qed

lemma length_convert_row:
  assumes "pf_validate pf = Inr ()" "length row = n * 4"
  shows "length (convert_row row pf) = n * bytes_per_pixel pf"
proof -
  have "length (chunks 4 row) = n" using assms(2) by (simp add: length_chunks)
  moreover have "length (concat (map (\<lambda>px. packed_bytes pf (pack (packer_new pf) px)) pxs)) = length pxs * bytes_per_pixel pf" for pxs
    using assms(1) by (intro length_concat_map_const length_packed) (simp add: pf_validate_ok)
  ultimately show ?thesis
    using assms by (auto simp: convert_row_def is_native_def bgrx32_def bytes_per_pixel_def)
qed

lemma length_cursor_line:
  assumes "pf_validate pf = Inr ()" "length line = w * 4"
  shows "length (cursor_line pf line) = w * bytes_per_pixel pf"
proof -
  have "length (chunks 4 line) = w" using assms(2) by (simp add: length_chunks)
  then have "length (concat (map (\<lambda>px. [px ! 2, px ! 1, px ! 0, 0]) (chunks 4 line))) = w * 4"
    by (subst length_concat_map_const [where n = 4]) simp_all
  then show ?thesis unfolding cursor_line_def by (rule length_convert_row [OF assms(1)])
qed

lemma fb_new_dims [simp]: "fb_width (fb_new w h) = w" "fb_height (fb_new w h) = h"
  by (simp_all add: fb_new_def)

lemma channel_fits_pos: "channel_fits bpp (m, s) \<Longrightarrow> 0 < unat m"
proof -
  have "(1::nat) < 2 ^ k" if "0 < k" for k using that by (intro one_less_power) simp_all
  then show "channel_fits bpp (m, s) \<Longrightarrow> 0 < unat m" by (auto simp: channel_fits_def)
qed

section \<open>Properties\<close>

text \<open>C11. A rectangle encoded as Hextile and decoded again, with any bytes after it: the decoder
  accepts it, uses exactly the bytes the encoder wrote, and afterwards the pixels of the
  rectangle are the source's as the client's format can hold them, and no other pixel changed.
  The formats are the ones the server accepts whose channels share no bit.\<close>

theorem hextile_round_trip:
  assumes "pf_validate pf = Inr ()" "channels_apart pf" "fb_ok src" "fb_ok fb" "in_picture src r" "in_picture fb r"
  shows "\<exists>out fb'. hextile_encode src r pf = Some out
    \<and> hextile_decode (out @ rest) r pf fb = Inr (length out, fb')
    \<and> fb_width fb' = fb_width fb \<and> fb_height fb' = fb_height fb
    \<and> (\<forall>x y. x < fb_width fb \<longrightarrow> y < fb_height fb \<longrightarrow>
        fb_px fb' x y = (if (int x, int y) \<in> rect_pixels r then through pf (fb_px src x y) else fb_px fb x y))"
  using hextile_round_trip_painted [OF assms, of rest] unfolding painted_def fb_same_def inside_def by blast

lemma rgb565_ok: "pf_validate rgb565 = Inr ()" "channels_apart rgb565"
  by code_simp+

lemma rgb565_bytes: "bytes_per_pixel rgb565 = 2"
  by code_simp

theorem hextile_round_trip_witness:
  "\<exists>out fb'. hextile_encode (fb_new 20 3) (mk_rect 1 0 19 3) rgb565 = Some out
    \<and> hextile_decode (out @ [7]) (mk_rect 1 0 19 3) rgb565 (fb_new 30 9) = Inr (length out, fb')
    \<and> fb_px fb' 18 2 = through rgb565 (fb_px (fb_new 20 3) 18 2)"
  using hextile_round_trip [OF rgb565_ok, of "fb_new 20 3" "fb_new 30 9" "mk_rect 1 0 19 3" "[7]"]
  by (auto simp: fb_new_ok in_picture_def in_rect_pixels)

text \<open>Moving a block inside the picture: every pixel of the destination becomes what the source
  pixel was before, however the two overlap, and no other pixel changes.\<close>

theorem block_moved:
  assumes "fb_ok fb" "\<not> rect_is_empty dr" "rect_contains (fb_bounds fb) dr"
    and "sx + nat (rx2 dr - rx1 dr) \<le> fb_width fb" "sy + nat (ry2 dr - ry1 dr) \<le> fb_height fb"
  shows "\<exists>fb'. fb_copy_within fb sx sy dr = Some fb'
    \<and> fb_ok fb' \<and> fb_width fb' = fb_width fb \<and> fb_height fb' = fb_height fb
    \<and> (\<forall>x y. x < fb_width fb \<longrightarrow> y < fb_height fb \<longrightarrow>
        fb_px fb' x y =
          (if (int x, int y) \<in> rect_pixels dr
           then fb_px fb (sx + (x - nat (rx1 dr))) (sy + (y - nat (ry1 dr))) else fb_px fb x y))"
  using fb_copy_within_spec [OF assms] unfolding fb_same_def by blast

theorem block_moved_witness:
  "\<exists>fb'. fb_copy_within (fb_new 8 8) 1 1 (mk_rect 2 2 6 6) = Some fb' \<and> fb_ok fb'
    \<and> fb_px fb' 5 5 = fb_px (fb_new 8 8) 4 4"
  using block_moved [of "fb_new 8 8" "mk_rect 2 2 6 6" 1 1]
  by (auto simp: fb_new_ok rect_is_empty_def fb_bounds_ok rect_contains_def in_rect_pixels)

text \<open>One pixel of the picture converted to an accepted format whose channels share no bit, and
  unpacked again: it takes the format's width, every channel is the nearest value the format holds,
  within half a step and the rounding of the packer, and exactly the original for a channel of
  eight bits or more.\<close>

theorem pixel_there_and_back:
  fixes t :: bytes
  assumes "pf_validate pf = Inr ()" "channels_apart pf" "length px = 4"
  defines "q \<equiv> unpack (unpacker_new pf) (convert_row px pf @ t)"
  shows "length (convert_row px pf) = bytes_per_pixel pf \<and> length q = 4 \<and> q ! 3 = 0
    \<and> (\<forall>(i, m)\<in>{(0, blue_max pf), (1, green_max pf), (2, red_max pf)}.
        int (unat m) * \<bar>int (unat (q ! i)) - int (unat (px ! i))\<bar> \<le> 127 + int (unat m) div 2
        \<and> (255 \<le> unat m \<longrightarrow> q ! i = px ! i))"
proof -
  have q: "q = through pf px" unfolding q_def by (rule unpack_sent [OF assms(1-3)])
  have "0 < unat (blue_max pf)" "0 < unat (green_max pf)" "0 < unat (red_max pf)"
    using assms(1) channel_fits_pos unfolding pf_validate_ok by blast+
  note near = this [THEN there_and_back_near]
  show ?thesis
    using near(1) [of "px ! 0"] near(2) [of "px ! 1"] near(3) [of "px ! 2"]
    by (auto simp: q through_def length_convert_px [OF assms(1,3)] there_and_back_exact)
qed

theorem pixel_there_and_back_witness:
  "unpack (unpacker_new rgb565) (convert_row [10, 200, 30, 9] rgb565) ! 3 = 0
   \<and> 31 * \<bar>int (unat (unpack (unpacker_new rgb565) (convert_row [10, 200, 30, 9] rgb565) ! 0)) - 10\<bar> \<le> 142"
  using pixel_there_and_back [OF rgb565_ok, of "[10, 200, 30, 9]" "[]"]
  by (simp add: rgb565_def)

text \<open>A Raw rectangle is the rectangle's part inside the picture, every pixel converted, in
  reading order, and nothing else: its length is the number of those pixels times the pixel's
  width.\<close>

theorem raw_sends_the_pixels:
  fixes r :: rect
  assumes "fb_ok fb" "pf_validate pf = Inr ()"
  defines "c \<equiv> rect_intersection r (fb_bounds fb)"
  shows "raw_encode fb r pf = Some (concat (map (\<lambda>px. convert_row px pf) (tile_px fb c)))
    \<and> length (the (raw_encode fb r pf)) = nat (rx2 c - rx1 c) * nat (ry2 c - ry1 c) * bytes_per_pixel pf"
proof -
  have in_c: "in_picture fb c \<or> c = rect_EMPTY"
  proof (cases "rect_is_empty c")
    case True
    then show ?thesis unfolding c_def rect_intersection_def rect_normalised_def by (auto split: if_splits)
  next
    case False
    then have ne: "rx1 c < rx2 c" "ry1 c < ry2 c" by (simp_all add: rect_is_empty_def)
    have "rect_pixels c \<subseteq> {0 ..< int (fb_width fb)} \<times> {0 ..< int (fb_height fb)}"
      unfolding c_def rect_intersection_pixels by (simp add: fb_bounds_ok [OF assms(1)] rect_pixels_prod)
    from rect_corners_in [OF ne this] ne show ?thesis by (simp add: in_picture_def)
  qed
  then have p: "in_picture fb c" by (auto simp: in_picture_def rect_EMPTY_def)
  have e: "raw_encode fb r pf = Some (concat (map (\<lambda>px. convert_row px pf) (tile_px fb c)))"
  proof (cases "rect_is_empty c")
    case True
    then have "tile_px fb c = []" by (auto simp: tile_px_def rect_is_empty_def irange_def)
    with True show ?thesis by (simp add: raw_encode_def Let_def c_def [symmetric])
  next
    case False
    then show ?thesis using read_tile_ok [OF assms(1) p] by (simp add: raw_encode_def Let_def c_def [symmetric])
  qed
  have "length (concat (map (\<lambda>px. convert_row px pf) pxs)) = length pxs * bytes_per_pixel pf"
    if "\<forall>px\<in>set pxs. length px = 4" for pxs
    using that by (induction pxs) (simp_all add: length_convert_px [OF assms(2)])
  with e show ?thesis using tile_px_4 [OF assms(1) p] length_tile_px [OF p] by simp
qed

theorem raw_sends_the_pixels_witness:
  "length (the (raw_encode (fb_new 8 8) (mk_rect 6 6 100 7) rgb565)) = 4"
  using raw_sends_the_pixels [of "fb_new 8 8" rgb565 "mk_rect 6 6 100 7", OF fb_new_ok rgb565_ok(1), THEN conjunct2]
  by (simp add: fb_new_ok fb_bounds_ok rect_intersection_def rect_normalised_def rect_is_empty_def
      rgb565_bytes)

text \<open>The pointer for a client of the Cursor encoding: the shape's pixels in the client's format,
  then a mask of rows padded to bytes whose bit for a pixel, highest first, says whether its alpha
  is at least half. A shape of no width, which is how a hidden pointer is represented, is not
  encoded at all: the row iterator refuses a row of no bytes and panics.\<close>

theorem cursor_pixels_then_mask:
  assumes "cursor_shape_new w h hx hy rgba = Some s" "pf_validate pf = Inr ()"
  defines "stride \<equiv> (w + 7) div 8"
  shows "(w = 0 \<longrightarrow> encode_cursor s pf = None)
    \<and> (0 < w \<longrightarrow> (\<exists>pixels mask. encode_cursor s pf = Some (pixels @ mask)
        \<and> length pixels = w * h * bytes_per_pixel pf \<and> length mask = h * stride
        \<and> (\<forall>x y. x < w \<longrightarrow> y < h \<longrightarrow>
            bit (mask ! (y * stride + x div 8)) (7 - x mod 8) = (128 \<le> rgba ! ((y * w + x) * 4 + 3)))))"
proof (cases "w = 0")
  case True
  then show ?thesis using assms(1) by (auto simp: cursor_shape_new_def encode_cursor_def split: if_splits)
next
  case False
  have s: "cs_width s = w" "cs_rgba s = rgba" "length rgba = h * (w * 4)"
    using assms(1) by (auto simp: cursor_shape_new_def split: if_splits)
  let ?ls = "chunks (w * 4) rgba"
  have n: "length ?ls = h" using False s(3) by (simp add: length_chunks)
  have line: "y * (w * 4) \<le> length rgba \<and> length (?ls ! y) = w * 4 \<and> ?ls ! y = take (w * 4) (drop (y * (w * 4)) rgba)" if "y < h" for y
  proof -
    have "Suc y * (w * 4) \<le> h * (w * 4)" using that by (intro mult_le_mono1) simp
    with nth_chunks [of y "w * 4" rgba] n that s(3) show ?thesis by simp
  qed
  have l4: "length line = w * 4" if "line \<in> set ?ls" for line
    using that line n by (metis in_set_conv_nth)
  let ?pixels = "concat (map (cursor_line pf) ?ls)" and ?mask = "concat (map (mask_line w) ?ls)"
  have "length (concat (map (cursor_line pf) ls)) = length ls * (w * bytes_per_pixel pf)" if "\<forall>l\<in>set ls. length l = w * 4" for ls
    using that by (induction ls) (simp_all add: length_cursor_line [OF assms(2)])
  then have px: "length ?pixels = w * h * bytes_per_pixel pf" using l4 n by simp
  have stride: "length (mask_line w l) = stride" for l by (simp add: mask_line_def stride_def)
  then have mk: "length ?mask = h * stride" using length_concat_map_const [of "mask_line w" stride ?ls] n by simp
  have "bit (?mask ! (y * stride + x div 8)) (7 - x mod 8) = (128 \<le> rgba ! ((y * w + x) * 4 + 3))" if "x < w" "y < h" for x y
  proof -
    have "x div 8 < stride" using that(1) unfolding stride_def by (rule padded(2))
    then have "?mask ! (y * stride + x div 8) = mask_line w (?ls ! y) ! (x div 8)"
      using that(2) n by (intro concat_const_nth stride) simp_all
    moreover have "?ls ! y ! (x * 4 + 3) = rgba ! ((y * w + x) * 4 + 3)"
      using line [OF that(2)] that(1) by (simp add: algebra_simps)
    moreover have "bit (mask_line w (?ls ! y) ! (x div 8)) (7 - x mod 8) \<longleftrightarrow> 128 \<le> ?ls ! y ! (x * 4 + 3)"
      by (rule mask_line_bit [OF line [OF that(2), THEN conjunct2, THEN conjunct1] that(1)])
    ultimately show ?thesis by (simp only:)
  qed
  moreover have "encode_cursor s pf = Some (?pixels @ ?mask)" using False s(1,2) by (simp add: encode_cursor_def Let_def)
  ultimately show ?thesis using px mk False by blast
qed

theorem cursor_pixels_then_mask_witness:
  "encode_cursor cursor_hidden bgrx32 = None
   \<and> (\<exists>pixels mask. encode_cursor \<lparr>cs_width = 1, cs_height = 1, cs_hot_x = 0, cs_hot_y = 0, cs_rgba = [1, 2, 3, 200]\<rparr> rgb565
        = Some (pixels @ mask) \<and> length mask = 1 \<and> bit (mask ! 0) 7)"
  using cursor_pixels_then_mask [of 0 0 0 0 "[]" cursor_hidden bgrx32]
    cursor_pixels_then_mask [of 1 1 0 0 "[1, 2, 3, 200]" _ rgb565]
  by (auto simp: cursor_shape_new_def cursor_hidden_def encode_cursor_def rgb565_ok)

end
