(* ===== verification/Streams.thy ===== *)
theory Streams
  imports Raster
begin

text \<open>
  The two loops around the zlib streams, \<open>zrle::deflate\<close> and \<open>decode::inflate\<close>. A compressor is a
  parameter \<open>cv\<close>: one call of \<open>Compress::compress_vec\<close> with \<open>FlushCompress::Sync\<close> on a stream and
  the input left gives the stream afterwards, how much input it took, the bytes it appended and
  whether it reported the end of the stream; a decompressor \<open>dv\<close> is the same or an error. Neither
  loop bounds its iterations, so both are partial: \<open>None\<close> is a loop that does not end.

  \<open>zlib_laws\<close> states what the documentation of the two promises about a compressor and the
  decompressor at the other end, through a relation \<open>rel s z w p\<close>: \<open>w\<close> are the bytes the compressor
  has put out and the decompressor has not taken, \<open>p\<close> the bytes the compressor has taken and the
  decompressor has not given back. Under it both loops end, and the second gives back what went
  into the first.
\<close>

type_synonym 'd compress_vec = "'d \<Rightarrow> bytes \<Rightarrow> 'd \<times> nat \<times> bytes \<times> bool"
type_synonym 'i decompress_vec = "'i \<Rightarrow> bytes \<Rightarrow> string + ('i \<times> nat \<times> bytes \<times> bool)"

partial_function (option) deflate :: "'d compress_vec \<Rightarrow> 'd \<Rightarrow> bytes \<Rightarrow> (bytes \<times> 'd) option" where
  "deflate cv s inp =
    (case cv s inp of (s', consumed, produced, ended) \<Rightarrow>
      let rest = drop consumed inp in
      if rest = [] \<and> produced = [] then Some ([], s')
      else if ended then Some (produced, s')
      else Option.bind (deflate cv s' rest) (\<lambda>(rest2, s''). Some (produced @ rest2, s'')))"

partial_function (option) inflate :: "'i decompress_vec \<Rightarrow> 'i \<Rightarrow> bytes \<Rightarrow> (decode_error + (bytes \<times> 'i)) option" where
  "inflate dv z inp =
    (case dv z inp of
       Inl e \<Rightarrow> Some (Inl (Malformed (''inflate: '' @ e)))
     | Inr (z', consumed, produced, ended) \<Rightarrow>
      let rest = drop consumed inp in
      if rest = [] \<and> produced = [] then Some (Inr ([], z'))
      else if ended then Some (Inr (produced, z'))
      else Option.bind (inflate dv z' rest)
        (\<lambda>res. Some (case res of Inl e \<Rightarrow> Inl e | Inr (rest2, z'') \<Rightarrow> Inr (produced @ rest2, z''))))"

section \<open>What the library promises\<close>

definition compress_laws ::
  "'d compress_vec \<Rightarrow> ('d \<Rightarrow> 'i \<Rightarrow> bytes \<Rightarrow> bytes \<Rightarrow> bool) \<Rightarrow> ('d \<Rightarrow> bytes \<Rightarrow> nat) \<Rightarrow> bool" where
  "compress_laws cv rel mu \<longleftrightarrow> (\<forall>s inp. case cv s inp of (s', n, out, ended) \<Rightarrow>
     n \<le> length inp \<and> \<not> ended
     \<and> (\<forall>z w p. rel s z w p \<longrightarrow> rel s' z (w @ out) (p @ take n inp))
     \<and> (drop n inp \<noteq> [] \<or> out \<noteq> [] \<longrightarrow> mu s' (drop n inp) < mu s inp))"

text \<open>\<open>flushed s\<close>: the last call on the stream had nothing to take and nothing to put out.\<close>

definition flush_law :: "'d compress_vec \<Rightarrow> ('d \<Rightarrow> bool) \<Rightarrow> bool" where
  "flush_law cv flushed \<longleftrightarrow> (\<forall>s inp. case cv s inp of (s', n, out, _) \<Rightarrow> drop n inp = [] \<and> out = [] \<longrightarrow> flushed s')"

definition decompress_laws ::
  "'i decompress_vec \<Rightarrow> ('d \<Rightarrow> 'i \<Rightarrow> bytes \<Rightarrow> bytes \<Rightarrow> bool) \<Rightarrow> ('d \<Rightarrow> bool) \<Rightarrow> bool" where
  "decompress_laws dv rel flushed \<longleftrightarrow> (\<forall>s z w p. flushed s \<and> rel s z w p \<longrightarrow>
     (\<exists>z' n out q. dv z w = Inr (z', n, out, False) \<and> n \<le> length w \<and> p = out @ q \<and> rel s z' (drop n w) q
        \<and> (w \<noteq> [] \<longrightarrow> 0 < n \<or> out \<noteq> []) \<and> (drop n w = [] \<and> out = [] \<longrightarrow> q = [])))"

definition zlib_laws ::
  "'d compress_vec \<Rightarrow> 'i decompress_vec \<Rightarrow> ('d \<Rightarrow> 'i \<Rightarrow> bytes \<Rightarrow> bytes \<Rightarrow> bool) \<Rightarrow> ('d \<Rightarrow> bytes \<Rightarrow> nat) \<Rightarrow> ('d \<Rightarrow> bool) \<Rightarrow> bool"
where
  "zlib_laws cv dv rel mu flushed \<longleftrightarrow> compress_laws cv rel mu \<and> flush_law cv flushed \<and> decompress_laws dv rel flushed"

lemma compress_step:
  assumes "compress_laws cv rel mu" "cv s inp = (s', n, out, ended)"
  shows "n \<le> length inp" "\<not> ended" "rel s z w p \<Longrightarrow> rel s' z (w @ out) (p @ take n inp)"
    "drop n inp \<noteq> [] \<or> out \<noteq> [] \<Longrightarrow> mu s' (drop n inp) < mu s inp"
  using assms(1) [unfolded compress_laws_def, rule_format, where s = s and inp = inp] assms(2) by auto

lemma deflate_ok:
  assumes "compress_laws cv rel mu" "flush_law cv flushed"
  shows "\<exists>out s'. deflate cv s inp = Some (out, s') \<and> flushed s' \<and> (\<forall>z w p. rel s z w p \<longrightarrow> rel s' z (w @ out) (p @ inp))"
proof (induction "mu s inp" arbitrary: s inp rule: less_induct)
  case less
  obtain s1 n out ended where c: "cv s inp = (s1, n, out, ended)" using prod_cases4 by blast
  note st = compress_step [OF assms(1) c]
  show ?case
  proof (cases "drop n inp = [] \<and> out = []")
    case True
    moreover have "flushed s1" using assms(2) [unfolded flush_law_def, rule_format, where s = s and inp = inp] c True by simp
    moreover have "take n inp = inp" using True append_take_drop_id [of n inp] by simp
    ultimately show ?thesis using c st(3) by (subst deflate.simps) (auto simp: Let_def)
  next
    case False
    from less [OF st(4)] False obtain rest2 s2 where
      i: "deflate cv s1 (drop n inp) = Some (rest2, s2)" "flushed s2"
        "\<forall>z w p. rel s1 z w p \<longrightarrow> rel s2 z (w @ rest2) (p @ drop n inp)" by blast
    have "rel s2 z (w @ out @ rest2) (p @ inp)" if "rel s z w p" for z w p
      using i(3) [rule_format, OF st(3) [OF that]] by simp
    moreover have "deflate cv s inp = Some (out @ rest2, s2)"
      using i(1) c False st(2) by (subst deflate.simps) (auto simp: Let_def)
    ultimately show ?thesis using i(2) by auto
  qed
qed

lemma inflate_ok:
  assumes "decompress_laws dv rel flushed" "flushed s" "rel s z w p"
  shows "\<exists>z'. inflate dv z w = Some (Inr (p, z')) \<and> rel s z' [] []"
  using assms(3)
proof (induction "length w + length p" arbitrary: z w p rule: less_induct)
  case less
  obtain z1 n out q where d: "dv z w = Inr (z1, n, out, False)" "n \<le> length w" "p = out @ q" "rel s z1 (drop n w) q"
    and progress: "w \<noteq> [] \<longrightarrow> 0 < n \<or> out \<noteq> []" and all: "drop n w = [] \<and> out = [] \<longrightarrow> q = []"
    using assms(1) [unfolded decompress_laws_def, rule_format, OF conjI, OF assms(2) less.prems] by blast
  show ?case
  proof (cases "drop n w = [] \<and> out = []")
    case True
    with d all show ?thesis by (subst inflate.simps) (auto simp: Let_def)
  next
    case False
    then have "length (drop n w) + length q < length w + length p" using d(2,3) progress by (cases out) auto
    from less.hyps [OF this d(4)] obtain z2 where "inflate dv z1 (drop n w) = Some (Inr (q, z2))" "rel s z2 [] []" by blast
    with d False show ?thesis by (subst inflate.simps) (auto simp: Let_def)
  qed
qed

text \<open>One block through both ends of a flushed pair of streams.\<close>

lemma stream_round_trip:
  assumes "zlib_laws cv dv rel mu flushed" "rel s z [] []"
  shows "\<exists>out s' z'. deflate cv s inp = Some (out, s') \<and> inflate dv z out = Some (Inr (inp, z')) \<and> rel s' z' [] []"
proof -
  from assms(1) have l: "compress_laws cv rel mu" "flush_law cv flushed" "decompress_laws dv rel flushed"
    by (simp_all add: zlib_laws_def)
  obtain out s' where d: "deflate cv s inp = Some (out, s')" "flushed s'" "\<forall>z w p. rel s z w p \<longrightarrow> rel s' z (w @ out) (p @ inp)"
    using deflate_ok [OF l(1,2)] by blast
  from d(3) [rule_format, OF assms(2)] have "rel s' z out inp" by simp
  from inflate_ok [OF l(3) d(2) this] d(1) show ?thesis by blast
qed

text \<open>A pair that satisfies the laws: the bytes stored as they are.\<close>

definition store_cv :: "unit compress_vec" where "store_cv s inp = (s, length inp, inp, False)"
definition store_dv :: "unit decompress_vec" where "store_dv z inp = Inr (z, length inp, inp, False)"

lemma store_laws: "zlib_laws store_cv store_dv (\<lambda>_ _ w p. w = p) (\<lambda>_ inp. length inp) (\<lambda>_. True)"
  by (auto simp: zlib_laws_def compress_laws_def flush_law_def decompress_laws_def store_cv_def store_dv_def)

end
