(* ===== verification/Zrle.thy ===== *)
theory Zrle
  imports Hextile Streams
begin

text \<open>
  \<open>zrle.rs\<close> and the ZRLE half of \<open>decode.rs\<close>: tiles of sixty-four, each described in the cheapest
  of five ways, then the rectangle's tiles through the session's one deflate stream. The encoder's
  scratch vectors (\<open>plain\<close>, \<open>keys\<close>, \<open>bytes\<close>, \<open>palette\<close>, \<open>runs\<close>) are values passed along; its state
  is the stream and the level. Encoders are options: \<open>None\<close> is a panic (a colour missing from its
  palette, a slice out of range) or a deflate loop that does not end.
\<close>

definition ZRLE_TILE :: int where "ZRLE_TILE = 64"
definition ZRLE_MAX_PALETTE :: nat where "ZRLE_MAX_PALETTE = 127"

definition SUB_RAW :: u8 where "SUB_RAW = 0"
definition SUB_SOLID :: u8 where "SUB_SOLID = 1"
definition SUB_PACKED_MAX :: u8 where "SUB_PACKED_MAX = 16"
definition SUB_PACKED_REUSE :: u8 where "SUB_PACKED_REUSE = 127"
definition SUB_PLAIN_RLE :: u8 where "SUB_PLAIN_RLE = 128"
definition SUB_RLE_REUSE :: u8 where "SUB_RLE_REUSE = 129"
definition SUB_RLE_BASE :: u8 where "SUB_RLE_BASE = 128"

lemmas subs_defs = SUB_RAW_def SUB_SOLID_def SUB_PACKED_MAX_def SUB_PACKED_REUSE_def SUB_PLAIN_RLE_def
  SUB_RLE_REUSE_def SUB_RLE_BASE_def

section \<open>The compact pixel\<close>

record cpixel =
  cp_bytes :: nat
  cp_offset :: nat
  cp_full :: nat

definition cpixel_colour :: "pixel_format \<Rightarrow> u32" where
  "cpixel_colour pf =
    shl (ucast (red_max pf)) (ucast (red_shift pf)) OR shl (ucast (green_max pf)) (ucast (green_shift pf))
    OR shl (ucast (blue_max pf)) (ucast (blue_shift pf))"

definition cpixel_of :: "pixel_format \<Rightarrow> cpixel" where
  "cpixel_of pf =
    (let full = bytes_per_pixel pf; colour = cpixel_colour pf in
     if bits_per_pixel pf = 32 \<and> depth pf \<le> 24 \<and> colour AND 0xff000000 = 0
     then \<lparr>cp_bytes = 3, cp_offset = (if big_endian pf then 1 else 0), cp_full = full\<rparr>
     else if bits_per_pixel pf = 32 \<and> depth pf \<le> 24 \<and> colour AND 0x000000ff = 0
     then \<lparr>cp_bytes = 3, cp_offset = (if big_endian pf then 0 else 1), cp_full = full\<rparr>
     else \<lparr>cp_bytes = full, cp_offset = 0, cp_full = full\<rparr>)"

definition push_cpixel :: "u32 \<Rightarrow> cpixel \<Rightarrow> bytes" where
  "push_cpixel key cp = take (cp_bytes cp) (le32 key)"

definition zrle_keys :: "cpixel \<Rightarrow> bytes \<Rightarrow> u32 list" where
  "zrle_keys cp bytes = map (\<lambda>px. word_of_bytes (take (cp_bytes cp) (drop (cp_offset cp) px))) (chunks (cp_full cp) bytes)"

section \<open>Palette and runs\<close>

type_synonym run = "u32 \<times> nat"

definition push_run :: "u32 \<Rightarrow> run list \<Rightarrow> run list" where
  "push_run key rs =
    (if rs \<noteq> [] \<and> fst (last rs) = key then butlast rs @ [(key, snd (last rs) + 1)] else rs @ [(key, 1)])"

fun gather_loop :: "u32 list \<Rightarrow> u32 list \<Rightarrow> run list \<Rightarrow> bool \<Rightarrow> u32 list \<times> run list" where
  "gather_loop [] palette rs over = (palette, rs)"
| "gather_loop (key # keys) palette rs over =
    (let rs' = push_run key rs in
     if \<not> over \<and> key \<notin> set palette then
       (if length palette = ZRLE_MAX_PALETTE then gather_loop keys [] rs' True
        else gather_loop keys (palette @ [key]) rs' over)
     else gather_loop keys palette rs' over)"

definition gather :: "u32 list \<Rightarrow> u32 list \<times> run list" where
  "gather keys = gather_loop keys [] [] False"

text \<open>\<open>iter().position(..)\<close>; the \<open>expect\<close> of a colour that is not there is \<open>None\<close>.\<close>

fun position :: "u32 \<Rightarrow> u32 list \<Rightarrow> nat option" where
  "position c [] = None"
| "position c (k # ks) = (if k = c then Some 0 else map_option Suc (position c ks))"

definition index_of :: "u32 list \<Rightarrow> u32 \<Rightarrow> u8 option" where
  "index_of palette c = map_option of_nat (position c palette)"

definition palette_bits :: "nat \<Rightarrow> nat" where
  "palette_bits n = (if n \<le> 2 then 1 else if n \<le> 4 then 2 else 4)"

definition packed_rows :: "nat \<Rightarrow> nat \<Rightarrow> nat \<Rightarrow> nat" where
  "packed_rows width height palette = div_ceil (width * palette_bits palette) 8 * height"

definition length_bytes :: "nat \<Rightarrow> nat" where
  "length_bytes n = (n - 1) div 255 + 1"

function push_left :: "nat \<Rightarrow> bytes" where
  "push_left left = (if left \<ge> 255 then 255 # push_left (left - 255) else [of_nat left])"
  by auto
termination by (relation "measure id") auto

declare push_left.simps [simp del]

definition push_length :: "nat \<Rightarrow> bytes" where
  "push_length n = push_left (n - 1)"

section \<open>The five descriptions of a tile\<close>

text \<open>One packed row: the index pushed in from the right, a byte put out when it is full, and the rest
  of the last one shifted up.\<close>

fun pack_row :: "nat \<Rightarrow> u8 list \<Rightarrow> u8 \<Rightarrow> nat \<Rightarrow> bytes" where
  "pack_row bits [] byte used = (if used > 0 then [push_bit (8 - used) byte] else [])"
| "pack_row bits (i # is) byte used =
    (let byte' = push_bit bits byte OR i; used' = used + bits in
     if used' = 8 then byte' # pack_row bits is 0 0 else pack_row bits is byte' used')"

definition push_palette :: "u32 list \<Rightarrow> cpixel \<Rightarrow> bytes" where
  "push_palette palette cp = concat (map (\<lambda>c. push_cpixel c cp) palette)"

definition packed_row :: "u32 list \<Rightarrow> nat \<Rightarrow> u32 list \<Rightarrow> bytes option" where
  "packed_row palette bits row = map_option (\<lambda>is. pack_row bits is 0 0) (those (map (index_of palette) row))"

definition zrle_packed :: "u32 list \<Rightarrow> u32 list \<Rightarrow> nat \<Rightarrow> nat \<Rightarrow> cpixel \<Rightarrow> bytes option" where
  "zrle_packed keys palette width height cp =
    map_option (\<lambda>rows. of_nat (length palette) # push_palette palette cp @ concat rows)
      (those (map (\<lambda>y. packed_row palette (palette_bits (length palette)) (take width (drop (y * width) keys))) [0 ..< height]))"

definition rle_run :: "u32 list \<Rightarrow> run \<Rightarrow> bytes option" where
  "rle_run palette r =
    map_option (\<lambda>i. if snd r = 1 then [i] else (i OR 0x80) # push_length (snd r)) (index_of palette (fst r))"

definition zrle_palette_rle :: "run list \<Rightarrow> u32 list \<Rightarrow> cpixel \<Rightarrow> bytes option" where
  "zrle_palette_rle rs palette cp =
    map_option (\<lambda>bs. (SUB_RLE_BASE + of_nat (length palette)) # push_palette palette cp @ concat bs)
      (those (map (rle_run palette) rs))"

definition zrle_plain_rle :: "run list \<Rightarrow> cpixel \<Rightarrow> bytes" where
  "zrle_plain_rle rs cp = SUB_PLAIN_RLE # concat (map (\<lambda>r. push_cpixel (fst r) cp @ push_length (snd r)) rs)"

definition zrle_raw :: "u32 list \<Rightarrow> cpixel \<Rightarrow> bytes" where
  "zrle_raw keys cp = SUB_RAW # push_palette keys cp"

text \<open>The four costs in order, the impossible ones left out, and the least pair of a cost and its
  place.\<close>

definition zrle_costs :: "u32 list \<Rightarrow> u32 list \<Rightarrow> run list \<Rightarrow> nat \<Rightarrow> nat \<Rightarrow> cpixel \<Rightarrow> (nat \<times> nat) list" where
  "zrle_costs keys palette rs width height cp =
    (let n = length palette in
     [(width * height * cp_bytes cp, 0)]
     @ (if 2 \<le> n \<and> n \<le> unat SUB_PACKED_MAX then [(n * cp_bytes cp + packed_rows width height n, 1)] else [])
     @ (if 2 \<le> n \<and> n \<le> ZRLE_MAX_PALETTE
        then [(n * cp_bytes cp + sum_list (map (\<lambda>r. 1 + (if snd r > 1 then length_bytes (snd r) else 0)) rs), 2)] else [])
     @ [(sum_list (map (\<lambda>r. cp_bytes cp + length_bytes (snd r)) rs), 3)])"

definition zrle_tile :: "u32 list \<Rightarrow> nat \<Rightarrow> nat \<Rightarrow> cpixel \<Rightarrow> bytes option" where
  "zrle_tile keys width height cp =
    (case gather keys of (palette, rs) \<Rightarrow>
     if length palette = 1 then Some (SUB_SOLID # push_cpixel (hd palette) cp)
     else
       (let costs = zrle_costs keys palette rs width height cp;
            best = snd (fold min (tl costs) (hd costs)) in
        if best = 1 then zrle_packed keys palette width height cp
        else if best = 2 then zrle_palette_rle rs palette cp
        else if best = 3 then Some (zrle_plain_rle rs cp)
        else Some (zrle_raw keys cp)))"

fun zrle_tiles :: "framebuffer \<Rightarrow> pixel_format \<Rightarrow> cpixel \<Rightarrow> rect list \<Rightarrow> bytes option" where
  "zrle_tiles fb pf cp [] = Some []"
| "zrle_tiles fb pf cp (t # ts) =
    (case read_tile fb t pf of
       None \<Rightarrow> None
     | Some bytes \<Rightarrow>
         if cp_full cp = 0 then None
         else (case zrle_tile (zrle_keys cp bytes) (u32_of (rect_width t)) (u32_of (rect_height t)) cp of
                 None \<Rightarrow> None
               | Some out \<Rightarrow> map_option ((@) out) (zrle_tiles fb pf cp ts)))"

section \<open>The encoder\<close>

record 'd zrle =
  zr_stream :: 'd
  zr_level :: u32

text \<open>\<open>mk level\<close> is \<open>Compress::new(Compression::new(level), true)\<close>.\<close>

definition zrle_new :: "(u32 \<Rightarrow> 'd) \<Rightarrow> u32 \<Rightarrow> 'd zrle" where
  "zrle_new mk level = \<lparr>zr_stream = mk level, zr_level = level\<rparr>"

definition zrle_reset :: "(u32 \<Rightarrow> 'd) \<Rightarrow> u32 \<Rightarrow> 'd zrle \<Rightarrow> 'd zrle" where
  "zrle_reset mk level z = z\<lparr>zr_level := level, zr_stream := mk level\<rparr>"

definition zrle_encode ::
  "'d compress_vec \<Rightarrow> 'd zrle \<Rightarrow> framebuffer \<Rightarrow> rect \<Rightarrow> pixel_format \<Rightarrow> (bytes \<times> 'd zrle) option" where
  "zrle_encode cv z fb rect pf =
    (case zrle_tiles fb pf (cpixel_of pf) (tiles ZRLE_TILE rect) of
       None \<Rightarrow> None
     | Some plain \<Rightarrow>
       (case deflate cv (zr_stream z) plain of
          None \<Rightarrow> None
        | Some (packed, s') \<Rightarrow> Some (be32 (of_nat (length packed)) @ packed, z\<lparr>zr_stream := s'\<rparr>)))"

section \<open>The decoder\<close>

definition read_cpixel :: "cpixel \<Rightarrow> unpacker \<Rightarrow> reader \<Rightarrow> decode_error + (bytes \<times> reader)" where
  "read_cpixel cp u r =
    (case rd_take (cp_bytes cp) r of
       Inl e \<Rightarrow> Inl e
     | Inr (b, r') \<Rightarrow>
         Inr (unpack u (take (cp_full cp)
           (replicate (cp_offset cp) 0 @ b @ replicate (4 - cp_offset cp - cp_bytes cp) 0)), r'))"

fun read_palette :: "nat \<Rightarrow> cpixel \<Rightarrow> unpacker \<Rightarrow> reader \<Rightarrow> decode_error + (bytes list \<times> reader)" where
  "read_palette 0 cp u r = Inr ([], r)"
| "read_palette (Suc n) cp u r =
    (case read_cpixel cp u r of
       Inl e \<Rightarrow> Inl e
     | Inr (px, r1) \<Rightarrow>
       (case read_palette n cp u r1 of Inl e \<Rightarrow> Inl e | Inr (pxs, r2) \<Rightarrow> Inr (px # pxs, r2)))"

lemma rd_byte_measure: "rd_byte r = Inr (b, r') \<Longrightarrow> length (rd_data r') - rd_at r' < length (rd_data r) - rd_at r"
  by (auto simp: rd_byte_def split: if_splits)

function read_length :: "nat \<Rightarrow> reader \<Rightarrow> decode_error + (nat \<times> reader)" where
  "read_length sofar r =
    (case rd_byte r of
       Inl e \<Rightarrow> Inl e
     | Inr (b, r') \<Rightarrow> if b \<noteq> 255 then Inr (sofar + unat b, r') else read_length (sofar + unat b) r')"
  by auto
termination
  by (relation "measure (\<lambda>(sofar, r). length (rd_data r) - rd_at r)") (auto simp: rd_byte_measure)

declare read_length.simps [simp del]

lemma read_length_ge: "read_length sofar r = Inr (n, r') \<Longrightarrow> sofar \<le> n"
proof (induction sofar r rule: read_length.induct)
  case (1 sofar r)
  then show ?case by (subst (asm) read_length.simps) (fastforce split: sum.splits prod.splits if_splits)
qed

lemma read_length_pos: "read_length (Suc 0) r = Inr (n, r') \<Longrightarrow> 0 < n"
  using read_length_ge [of "Suc 0" r n r'] by simp

fun zrle_read_raw ::
  "nat \<Rightarrow> nat \<Rightarrow> cpixel \<Rightarrow> unpacker \<Rightarrow> rect \<Rightarrow> reader \<Rightarrow> framebuffer \<Rightarrow> decode_error + (reader \<times> framebuffer)" where
  "zrle_read_raw i 0 cp u t r fb = Inr (r, fb)"
| "zrle_read_raw i (Suc n) cp u t r fb =
    (case read_cpixel cp u r of
       Inl e \<Rightarrow> Inl e
     | Inr (px, r') \<Rightarrow>
       (case put_pixels i (rx1 t) (ry1 t) (rect_width t) [px] fb of
          Inl e \<Rightarrow> Inl e
        | Inr fb' \<Rightarrow> zrle_read_raw (Suc i) n cp u t r' fb'))"

text \<open>The columns of one packed row.\<close>

definition packed_index :: "nat \<Rightarrow> bytes \<Rightarrow> nat \<Rightarrow> nat option" where
  "packed_index bits packed c =
    (let at = c * bits in
     if length packed \<le> at div 8 then None
     else Some (unat (drop_bit (8 - bits - at mod 8) (packed ! (at div 8)) AND of_nat (2 ^ bits - 1))))"

fun unpack_row ::
  "nat list \<Rightarrow> nat \<Rightarrow> bytes \<Rightarrow> bytes list \<Rightarrow> int \<Rightarrow> int \<Rightarrow> framebuffer \<Rightarrow> decode_error + framebuffer" where
  "unpack_row [] bits packed palette x y fb = Inr fb"
| "unpack_row (c # cs) bits packed palette x y fb =
    (case packed_index bits packed c of
       None \<Rightarrow> Inl Panicked
     | Some idx \<Rightarrow>
       if length palette \<le> idx then Inl (Malformed ''palette index'')
       else (case put_pixel fb (u32_of (x + int c)) (u32_of y) (palette ! idx) of
               None \<Rightarrow> Inl Panicked
             | Some fb' \<Rightarrow> unpack_row cs bits packed palette x y fb'))"

fun unpack_rows ::
  "int list \<Rightarrow> nat \<Rightarrow> nat \<Rightarrow> bytes list \<Rightarrow> int \<Rightarrow> reader \<Rightarrow> framebuffer \<Rightarrow> decode_error + (reader \<times> framebuffer)" where
  "unpack_rows [] width bits palette x r fb = Inr (r, fb)"
| "unpack_rows (y # ys) width bits palette x r fb =
    (case rd_take (div_ceil (width * bits) 8) r of
       Inl e \<Rightarrow> Inl e
     | Inr (packed, r') \<Rightarrow>
       (case unpack_row [0 ..< width] bits packed palette x y fb of
          Inl e \<Rightarrow> Inl e
        | Inr fb' \<Rightarrow> unpack_rows ys width bits palette x r' fb'))"

function zrle_read_plain ::
  "nat \<Rightarrow> nat \<Rightarrow> cpixel \<Rightarrow> unpacker \<Rightarrow> rect \<Rightarrow> reader \<Rightarrow> framebuffer \<Rightarrow> decode_error + (reader \<times> framebuffer)" where
  "zrle_read_plain at pixels cp u t r fb =
    (if at < pixels then
       (case read_cpixel cp u r of
          Inl e \<Rightarrow> Inl e
        | Inr (px, r1) \<Rightarrow>
          (case read_length 1 r1 of
             Inl e \<Rightarrow> Inl e
           | Inr (n, r2) \<Rightarrow>
             (case put_pixels at (rx1 t) (ry1 t) (rect_width t) (replicate (min n (pixels - at)) px) fb of
                Inl e \<Rightarrow> Inl e
              | Inr fb' \<Rightarrow> zrle_read_plain (at + min n (pixels - at)) pixels cp u t r2 fb')))
     else Inr (r, fb))"
  by auto
termination
  by (relation "measure (\<lambda>(at, pixels, cp, u, t, r, fb). pixels - at)") (auto dest: read_length_pos)

text \<open>One entry of palette RLE: the index, and the length when its top bit says one follows.\<close>

definition read_run :: "reader \<Rightarrow> decode_error + (u8 \<times> nat \<times> reader)" where
  "read_run r =
    (case rd_byte r of
       Inl e \<Rightarrow> Inl e
     | Inr (index, r1) \<Rightarrow>
         if index AND 0x80 \<noteq> 0 then
           (case read_length 1 r1 of Inl e \<Rightarrow> Inl e | Inr (n, r2) \<Rightarrow> Inr (index, n, r2))
         else Inr (index, 1, r1))"

lemma read_run_pos: "read_run r = Inr (i, n, r') \<Longrightarrow> 0 < n"
  by (auto simp: read_run_def split: sum.splits if_splits dest: read_length_pos)

function zrle_read_indexed ::
  "nat \<Rightarrow> nat \<Rightarrow> bytes list \<Rightarrow> rect \<Rightarrow> reader \<Rightarrow> framebuffer \<Rightarrow> decode_error + (reader \<times> framebuffer)" where
  "zrle_read_indexed at pixels palette t r fb =
    (if at < pixels then
       (case read_run r of
          Inl e \<Rightarrow> Inl e
        | Inr (index, n, r1) \<Rightarrow>
          (let i = unat (index AND 0x7f) in
           if length palette \<le> i then Inl (Malformed ''palette index'')
           else
             (case put_pixels at (rx1 t) (ry1 t) (rect_width t) (replicate (min n (pixels - at)) (palette ! i)) fb of
                Inl e \<Rightarrow> Inl e
              | Inr fb' \<Rightarrow> zrle_read_indexed (at + min n (pixels - at)) pixels palette t r1 fb')))
     else Inr (r, fb))"
  by auto
termination
  by (relation "measure (\<lambda>(at, pixels, palette, t, r, fb). pixels - at)") (auto dest: read_run_pos)

declare zrle_read_plain.simps [simp del] zrle_read_indexed.simps [simp del]

text \<open>The palette is the decoder's, kept from tile to tile.\<close>

type_synonym zrle_dec = "reader \<times> bytes list \<times> framebuffer"

definition zrle_read_packed :: "unpacker \<Rightarrow> cpixel \<Rightarrow> rect \<Rightarrow> u8 \<Rightarrow> zrle_dec \<Rightarrow> decode_error + zrle_dec" where
  "zrle_read_packed u cp t sub st =
    (case st of (r, palette, fb) \<Rightarrow>
     case (if sub \<noteq> SUB_PACKED_REUSE then read_palette (unat sub) cp u r else Inr (palette, r)) of
       Inl e \<Rightarrow> Inl e
     | Inr (pal, r1) \<Rightarrow>
       (case unpack_rows (irange (ry1 t) (ry1 t + rect_height t)) (u32_of (rect_width t)) (palette_bits (length pal)) pal (rx1 t) r1 fb of
          Inl e \<Rightarrow> Inl e
        | Inr (r2, fb') \<Rightarrow> Inr (r2, pal, fb')))"

definition zrle_read_rle :: "unpacker \<Rightarrow> cpixel \<Rightarrow> rect \<Rightarrow> u8 \<Rightarrow> zrle_dec \<Rightarrow> decode_error + zrle_dec" where
  "zrle_read_rle u cp t sub st =
    (case st of (r, palette, fb) \<Rightarrow>
     case (if sub \<noteq> SUB_RLE_REUSE then read_palette (unat (sub - SUB_RLE_BASE)) cp u r else Inr (palette, r)) of
       Inl e \<Rightarrow> Inl e
     | Inr (pal, r1) \<Rightarrow>
       (case zrle_read_indexed 0 (u32_of (rect_width t * rect_height t)) pal t r1 fb of
          Inl e \<Rightarrow> Inl e
        | Inr (r2, fb') \<Rightarrow> Inr (r2, pal, fb')))"

definition zrle_read_tile :: "unpacker \<Rightarrow> cpixel \<Rightarrow> rect \<Rightarrow> zrle_dec \<Rightarrow> decode_error + zrle_dec" where
  "zrle_read_tile u cp t st =
    (case st of (r0, palette, fb) \<Rightarrow>
     let pixels = u32_of (rect_width t * rect_height t) in
     case rd_byte r0 of
       Inl e \<Rightarrow> Inl e
     | Inr (sub, r) \<Rightarrow>
       if sub = SUB_RAW then
         (case zrle_read_raw 0 pixels cp u t r fb of Inl e \<Rightarrow> Inl e | Inr (r', fb') \<Rightarrow> Inr (r', palette, fb'))
       else if sub = SUB_SOLID then
         (case read_cpixel cp u r of
            Inl e \<Rightarrow> Inl e
          | Inr (px, r') \<Rightarrow> (case fill_or_panic t px fb of Inl e \<Rightarrow> Inl e | Inr fb' \<Rightarrow> Inr (r', palette, fb')))
       else if (2 \<le> sub \<and> sub \<le> SUB_PACKED_MAX) \<or> sub = SUB_PACKED_REUSE then zrle_read_packed u cp t sub (r, palette, fb)
       else if sub = SUB_PLAIN_RLE then
         (case zrle_read_plain 0 pixels cp u t r fb of Inl e \<Rightarrow> Inl e | Inr (r', fb') \<Rightarrow> Inr (r', palette, fb'))
       else if sub = SUB_RLE_REUSE \<or> 130 \<le> sub then zrle_read_rle u cp t sub (r, palette, fb)
       else Inl (Malformed ''ZRLE subencoding''))"

fun zrle_read_tiles :: "unpacker \<Rightarrow> cpixel \<Rightarrow> rect list \<Rightarrow> zrle_dec \<Rightarrow> decode_error + zrle_dec" where
  "zrle_read_tiles u cp [] st = Inr st"
| "zrle_read_tiles u cp (t # ts) st =
    (case zrle_read_tile u cp t st of Inl e \<Rightarrow> Inl e | Inr st' \<Rightarrow> zrle_read_tiles u cp ts st')"

record 'i zrle_reader =
  zd_stream :: 'i
  zd_palette :: "bytes list"

definition zrle_reader_new :: "'i \<Rightarrow> 'i zrle_reader" where
  "zrle_reader_new fresh = \<lparr>zd_stream = fresh, zd_palette = []\<rparr>"

definition zrle_reader_reset :: "'i \<Rightarrow> 'i zrle_reader \<Rightarrow> 'i zrle_reader" where
  "zrle_reader_reset fresh z = z\<lparr>zd_stream := fresh\<rparr>"

definition zrle_decode ::
  "'i decompress_vec \<Rightarrow> 'i zrle_reader \<Rightarrow> bytes \<Rightarrow> rect \<Rightarrow> pixel_format \<Rightarrow> framebuffer \<Rightarrow>
    (decode_error + (nat \<times> framebuffer \<times> 'i zrle_reader)) option" where
  "zrle_decode dv z payload rect pf fb =
    (if length payload < 4 then Some (Inl (EndsEarly 4))
     else
       let n = unat (from_be32 payload) in
       if length payload < 4 + n then Some (Inl (EndsEarly (4 + n - length payload)))
       else
         map_option
           (\<lambda>res. case res of
              Inl e \<Rightarrow> Inl e
            | Inr (plain, s) \<Rightarrow>
              (case zrle_read_tiles (unpacker_new pf) (cpixel_of pf) (tiles 64 rect) (reader_new plain, zd_palette z, fb) of
                 Inl e \<Rightarrow> Inl e
               | Inr (_, pal, fb') \<Rightarrow> Inr (4 + n, fb', \<lparr>zd_stream = s, zd_palette = pal\<rparr>)))
           (inflate dv (zd_stream z) (take n (drop 4 payload))))"

end
