(* ===== verification/Packing.thy ===== *)
theory Packing
  imports Zrle
begin

text \<open>
  Palette indices packed into bytes, highest bits first, and run lengths. The bits of a packed row
  are the bits of its indices in order, then zeros up to a whole byte; so an index taken from its
  place in the row is the one that was put there.
\<close>

section \<open>Bits of a word, highest first\<close>

definition bits_of :: "nat \<Rightarrow> u8 \<Rightarrow> bool list" where
  "bits_of n w = map (\<lambda>j. bit w (n - 1 - j)) [0 ..< n]"

lemma length_bits_of [simp]: "length (bits_of n w) = n"
  by (simp add: bits_of_def)

lemma nth_bits_of [simp]: "j < n \<Longrightarrow> bits_of n w ! j = bit w (n - 1 - j)"
  by (simp add: bits_of_def)

definition fits :: "nat \<Rightarrow> u8 \<Rightarrow> bool" where
  "fits n w \<longleftrightarrow> (\<forall>k. bit w k \<longrightarrow> k < n)"

lemma fits_iff: "fits n w \<longleftrightarrow> take_bit n w = w"
proof
  assume "fits n w"
  then show "take_bit n w = w" by (intro bit_word_eqI) (auto simp: fits_def bit_take_bit_iff)
next
  assume "take_bit n w = w"
  then show "fits n w" by (metis fits_def bit_take_bit_iff)
qed

lemma fits_of_nat: "k < 2 ^ n \<Longrightarrow> fits n (of_nat k)"
  unfolding fits_iff by (metis take_bit_nat_eq_self take_bit_of_nat)

lemma bits_of_inj:
  assumes "bits_of n a = bits_of n b" "fits n a" "fits n b" shows "a = b"
proof (rule bit_word_eqI)
  fix k
  show "bit a k = bit b k"
  proof (cases "k < n")
    case True
    then have "bits_of n a ! (n - 1 - k) = bits_of n b ! (n - 1 - k)" by (simp only: assms(1))
    with True show ?thesis by simp
  qed (use assms(2,3) in \<open>auto simp: fits_def\<close>)
qed

lemma bits_push:
  assumes "fits bits i" "used + bits \<le> 8"
  shows "bits_of (used + bits) (push_bit bits byte OR i) = bits_of used byte @ bits_of bits i"
proof (rule nth_equalityI)
  fix j assume "j < length (bits_of (used + bits) (push_bit bits byte OR i))"
  then have j: "j < used + bits" by simp
  have n: "\<not> bit i k" if "bits \<le> k" for k using assms(1) that by (auto simp: fits_def)
  show "bits_of (used + bits) (push_bit bits byte OR i) ! j = (bits_of used byte @ bits_of bits i) ! j"
  proof (cases "j < used")
    case True
    have "used + bits - 1 - j - bits = used - 1 - j" "bits \<le> used + bits - 1 - j" "used + bits - 1 - j < 8"
      using True assms(2) by simp_all
    with True j n [of "used + bits - 1 - j"] show ?thesis
      by (simp add: nth_append bit_or_iff bit_push_bit_iff)
  next
    case False
    then have "used + bits - 1 - j = bits - 1 - (j - used)" "\<not> bits \<le> used + bits - 1 - j" using j by simp_all
    with False j show ?thesis by (simp add: nth_append bit_or_iff bit_push_bit_iff)
  qed
qed simp

lemma bits_pad: "used \<le> 8 \<Longrightarrow> bits_of 8 (push_bit (8 - used) byte) = bits_of used byte @ replicate (8 - used) False"
proof (rule nth_equalityI)
  fix j assume u: "used \<le> 8" and "j < length (bits_of 8 (push_bit (8 - used) byte))"
  then have j: "j < 8" by simp
  show "bits_of 8 (push_bit (8 - used) byte) ! j = (bits_of used byte @ replicate (8 - used) False) ! j"
  proof (cases "j < used")
    case True
    have "8 - used \<le> 7 - j" "7 - j - (8 - used) = used - 1 - j" "7 - j < 8" using True u by arith+
    with True j show ?thesis by (simp add: nth_append bit_push_bit_iff)
  next
    case False
    then have "\<not> 8 - used \<le> 7 - j" using j u by arith
    with False j show ?thesis by (simp add: nth_append bit_push_bit_iff)
  qed
qed simp

definition stream_bits :: "bytes \<Rightarrow> bool list" where
  "stream_bits bs = concat (map (bits_of 8) bs)"

lemma length_stream_bits: "length (stream_bits bs) = length bs * 8"
  by (simp add: stream_bits_def length_concat_map_const)

lemma pack_row_bits:
  assumes "\<forall>i\<in>set is. fits bits i" "0 < bits" "bits dvd 8" "bits dvd used" "used < 8"
  shows "\<exists>pad<8. stream_bits (pack_row bits is byte used)
    = bits_of used byte @ concat (map (bits_of bits) is) @ replicate pad False"
  using assms
proof (induction bits "is" byte used rule: pack_row.induct)
  case (1 bits byte used)
  then show ?case
    using bits_pad [of used byte] by (cases "used = 0") (auto simp: stream_bits_def bits_of_def intro!: exI [of _ "8 - used"])
next
  case (2 bits i "is" byte used)
  let ?b = "push_bit bits byte OR i" and ?u = "used + bits"
  have dv: "bits dvd ?u" using 2(6) by simp
  have le: "?u \<le> 8"
  proof -
    obtain a where "8 = bits * a" using 2(5) by (elim dvdE)
    moreover obtain b where "used = bits * b" using 2(6) by (elim dvdE)
    moreover note 2(7)
    ultimately have "Suc b \<le> a" by (metis mult_less_cancel1 Suc_leI)
    then have "bits * Suc b \<le> bits * a" by (rule mult_le_mono2)
    then show ?thesis by (simp only: \<open>8 = bits * a\<close> \<open>used = bits * b\<close> mult_Suc_right add.commute)
  qed
  have push: "bits_of ?u ?b = bits_of used byte @ bits_of bits i"
    using 2(3) le by (intro bits_push) auto
  show ?case
  proof (cases "?u = 8")
    case True
    from 2(1) [OF refl refl True] 2(3-5) obtain pad where "pad < 8"
      "stream_bits (pack_row bits is 0 0) = bits_of 0 0 @ concat (map (bits_of bits) is) @ replicate pad False" by auto
    then show ?thesis using True push
      by (auto simp: stream_bits_def Let_def bits_of_def [of 0] intro!: exI [of _ pad])
  next
    case False
    from 2(2) [OF refl refl False] 2(3-5) dv le False obtain pad where "pad < 8"
      "stream_bits (pack_row bits is ?b ?u) = bits_of ?u ?b @ concat (map (bits_of bits) is) @ replicate pad False" by auto
    then show ?thesis using False push by (auto simp: Let_def)
  qed
qed

lemma div_ceil_8: "pad < 8 \<Longrightarrow> m * 8 = n + pad \<Longrightarrow> div_ceil n 8 = m"
proof -
  assume p: "pad < 8" "m * 8 = n + pad"
  obtain d k where n: "n = d * 8 + k" "k < 8" using that [of "n div 8" "n mod 8"] by simp
  then have "n div 8 = d" "n mod 8 = k" by simp_all
  moreover have "m = (if k = 0 then d else d + 1)" using p n by (cases "k = 0") arith+
  ultimately show ?thesis by (simp add: div_ceil_def)
qed

lemma length_pack_row:
  assumes "\<forall>i\<in>set is. fits bits i" "0 < bits" "bits dvd 8"
  shows "length (pack_row bits is 0 0) = div_ceil (length is * bits) 8"
proof -
  obtain pad where p: "pad < 8" "stream_bits (pack_row bits is 0 0) = bits_of 0 0 @ concat (map (bits_of bits) is) @ replicate pad False"
    using pack_row_bits [OF assms, of 0 0] by auto
  have "length (pack_row bits is 0 0) * 8 = length is * bits + pad"
    using arg_cong [OF p(2), of length] by (simp add: length_stream_bits length_concat_map_const)
  from div_ceil_8 [OF p(1) this] show ?thesis by simp
qed

lemma stream_bits_byte:
  assumes "n < length bs" "m + k \<le> 8"
  shows "take k (drop (n * 8 + m) (stream_bits bs)) = take k (drop m (bits_of 8 (bs ! n)))"
proof -
  have "bs = take n bs @ bs ! n # drop (Suc n) bs" using assms(1) by (rule id_take_nth_drop)
  then have "stream_bits bs = stream_bits (take n bs) @ bits_of 8 (bs ! n) @ stream_bits (drop (Suc n) bs)"
    by (metis stream_bits_def map_append concat_append list.simps(9) concat.simps(2))
  moreover have "length (stream_bits (take n bs)) = n * 8" using assms(1) by (simp add: length_stream_bits)
  ultimately have "drop (n * 8 + m) (stream_bits bs) = drop m (bits_of 8 (bs ! n) @ stream_bits (drop (Suc n) bs))"
    by simp
  then show ?thesis using assms(2) by simp
qed

lemma bits_field:
  assumes "m + bits \<le> 8"
  shows "bits_of bits (drop_bit (8 - bits - m) b AND of_nat (2 ^ bits - 1)) = take bits (drop m (bits_of 8 b))"
proof (rule nth_equalityI)
  have mask: "(of_nat (2 ^ bits - 1) :: u8) = mask bits"
    by (simp add: mask_eq_exp_minus_1 of_nat_diff)
  fix j assume "j < length (bits_of bits (drop_bit (8 - bits - m) b AND of_nat (2 ^ bits - 1)))"
  then have j: "j < bits" by simp
  have "8 - bits - m + (bits - 1 - j) = 7 - (m + j)" using j assms by simp
  with j assms show "bits_of bits (drop_bit (8 - bits - m) b AND of_nat (2 ^ bits - 1)) ! j = take bits (drop m (bits_of 8 b)) ! j"
    unfolding mask by (auto simp: bit_and_iff bit_drop_bit_eq bit_mask_iff)
qed (use assms in simp)

lemma fits_field: "bits \<le> 8 \<Longrightarrow> fits bits (x AND of_nat (2 ^ bits - 1))"
  by (simp add: fits_def mask_eq_exp_minus_1 [symmetric] of_nat_diff bit_and_iff bit_mask_iff
      flip: mask_eq_exp_minus_1)

lemma field_of_concat:
  assumes "c < length is" "\<And>i. length (f i) = k"
  shows "take k (drop (c * k) (concat (map f is) @ pad)) = f (is ! c)"
  using assms(1)
proof (induction "is" arbitrary: c)
  case (Cons i "is")
  then show ?case by (cases c) (simp_all add: assms(2))
qed simp

text \<open>The decoder's index is the encoder's.\<close>

lemma packed_index_row:
  assumes f: "\<forall>i\<in>set is. fits bits i" and b: "0 < bits" "bits dvd 8" and c: "c < length is"
  shows "packed_index bits (pack_row bits is 0 0) c = Some (unat (is ! c))"
proof -
  let ?out = "pack_row bits is 0 0" and ?at = "c * bits"
  let ?n = "?at div 8" and ?m = "?at mod 8"
  obtain pad where p: "pad < 8" "stream_bits ?out = concat (map (bits_of bits) is) @ replicate pad False"
    using pack_row_bits [OF f b, of 0 0] by (auto simp: bits_of_def [of 0])
  have "bits dvd ?m" using b(2) by (simp add: dvd_mod)
  have m8: "?m + bits \<le> 8"
  proof -
    obtain a where a: "8 = bits * a" using b(2) by (elim dvdE)
    obtain k where k: "?m = bits * k" using \<open>bits dvd ?m\<close> by (elim dvdE)
    have "?m < 8" by simp
    with a k have "Suc k \<le> a" by (metis mult_less_cancel1 Suc_leI)
    then have "bits * Suc k \<le> bits * a" by (rule mult_le_mono2)
    then have "bits + bits * k \<le> bits * a" by (simp only: mult_Suc_right)
    then have "bits + ?m \<le> 8" by (simp only: k [symmetric] a [symmetric])
    then show ?thesis by (simp only: add.commute)
  qed
  have "Suc c * bits \<le> length is * bits" using c by (intro mult_le_mono1) simp
  moreover have "length ?out * 8 = length is * bits + pad"
    using arg_cong [OF p(2), of length] by (simp add: length_stream_bits length_concat_map_const)
  ultimately have "?at < length ?out * 8" using b(1) by simp
  then have n: "?n < length ?out" by (simp add: less_mult_imp_div_less)
  let ?x = "drop_bit (8 - bits - ?m) (?out ! ?n) AND of_nat (2 ^ bits - 1)"
  have "bits_of bits ?x = take bits (drop ?m (bits_of 8 (?out ! ?n)))" by (rule bits_field [OF m8])
  also have "\<dots> = take bits (drop (?n * 8 + ?m) (stream_bits ?out))" using stream_bits_byte [OF n m8] by simp
  also have "\<dots> = bits_of bits (is ! c)"
    unfolding div_mult_mod_eq p(2) by (rule field_of_concat [OF c]) simp
  finally have "bits_of bits ?x = bits_of bits (is ! c)" .
  moreover have "fits bits ?x" using m8 by (intro fits_field) linarith
  moreover have "fits bits (is ! c)" using f c by simp
  ultimately have "?x = is ! c" by (rule bits_of_inj)
  then show ?thesis using n by (simp add: packed_index_def Let_def)
qed

end
