(* ===== verification/Zrle_Laws.thy ===== *)
theory Zrle_Laws
  imports Packing Hextile_Round_Trip
begin

text \<open>
  The round trip of the ZRLE encoding, from its parts: the compact pixel, the palette and the runs
  of a tile, the five descriptions.
\<close>

section \<open>The compact pixel\<close>

text \<open>A channel does not see the bits it does not own.\<close>

lemma channel_mask:
  assumes "\<And>n. bit (shl m s) n \<Longrightarrow> bit M n" shows "channel (v AND M) (s, m) = channel v (s, m)"
proof -
  have "shr (v AND M) s AND m = shr v s AND m"
  proof (rule bit_word_eqI)
    fix n assume n: "n < LENGTH(32)"
    have "bit m n \<Longrightarrow> bit v (unat s mod 32 + n) \<Longrightarrow> bit M (unat s mod 32 + n)"
      using assms [of "unat s mod 32 + n"] bit_imp_le_length [of v "unat s mod 32 + n"]
      by (simp add: shl_def bit_push_bit_iff)
    then show "bit (shr (v AND M) s AND m) n = bit (shr v s AND m) n"
      by (auto simp: shr_def bit_and_iff bit_drop_bit_eq)
  qed
  then show ?thesis by (simp only: channel_def fst_conv snd_conv Let_def)
qed

lemma word_low: "word_of_bytes [a, b, c, 0] = word_of_bytes [a, b, c, d] AND 0x00ffffff"
proof -
  have m: "(0x00ffffff :: u32) = mask 24" by (simp add: mask_eq_exp_minus_1)
  show ?thesis unfolding m
    by (rule bit_word_eqI) (auto simp: word_of_bytes_def from_le32_def from_be32_def bit_simps dest: bit_imp_le_length)
qed

lemma word_high: "word_of_bytes [0, b, c, d] = word_of_bytes [a, b, c, d] AND 0xffffff00"
proof -
  have m: "(0xffffff00 :: u32) = NOT (mask 8)" by (simp add: mask_eq_exp_minus_1)
  show ?thesis unfolding m
    by (rule bit_word_eqI) (auto simp: word_of_bytes_def from_le32_def from_be32_def bit_simps dest: bit_imp_le_length)
qed

definition value_channels :: "pixel_format \<Rightarrow> u32 \<Rightarrow> bytes" where
  "value_channels pf v = [channel v (ucast (blue_shift pf), ucast (blue_max pf)),
     channel v (ucast (green_shift pf), ucast (green_max pf)), channel v (ucast (red_shift pf), ucast (red_max pf)), 0]"

lemma unpack_value_channels:
  "unpack (unpacker_new pf) b = value_channels pf
    (word_of_bytes (if big_endian pf then rev (take (bytes_per_pixel pf) b) else take (bytes_per_pixel pf) b))"
  by (simp add: unpack_def unpacker_new_def value_channels_def Let_def)

lemma value_channels_mask:
  assumes "cpixel_colour pf AND NOT M = 0" shows "value_channels pf (v AND M) = value_channels pf v"
proof -
  have M: "bit M n" if "bit (cpixel_colour pf) n" for n
  proof (rule ccontr)
    assume "\<not> bit M n"
    then have "bit (cpixel_colour pf AND NOT M) n" using that bit_imp_le_length [OF that] by (simp add: bit_and_iff bit_not_iff)
    with assms show False by simp
  qed
  have c: "channel (v AND M) (s, m) = channel v (s, m)" if "\<And>n. bit (shl m s) n \<Longrightarrow> bit (cpixel_colour pf) n" for s m
    by (rule channel_mask) (use that M in blast)
  have "channel (v AND M) (ucast (blue_shift pf), ucast (blue_max pf)) = channel v (ucast (blue_shift pf), ucast (blue_max pf))"
    "channel (v AND M) (ucast (green_shift pf), ucast (green_max pf)) = channel v (ucast (green_shift pf), ucast (green_max pf))"
    "channel (v AND M) (ucast (red_shift pf), ucast (red_max pf)) = channel v (ucast (red_shift pf), ucast (red_max pf))"
    by (rule c; simp add: cpixel_colour_def bit_or_iff)+
  then show ?thesis unfolding value_channels_def by (simp only:)
qed

lemma cpixel_cases:
  assumes "pf_validate pf = Inr ()"
  obtains (full) "cpixel_of pf = \<lparr>cp_bytes = bytes_per_pixel pf, cp_offset = 0, cp_full = bytes_per_pixel pf\<rparr>"
    | (low) "bytes_per_pixel pf = 4" "cpixel_colour pf AND 0xff000000 = 0"
        "cpixel_of pf = \<lparr>cp_bytes = 3, cp_offset = (if big_endian pf then 1 else 0), cp_full = 4\<rparr>"
    | (high) "bytes_per_pixel pf = 4" "cpixel_colour pf AND 0x000000ff = 0"
        "cpixel_of pf = \<lparr>cp_bytes = 3, cp_offset = (if big_endian pf then 0 else 1), cp_full = 4\<rparr>"
proof -
  have b: "bytes_per_pixel pf = 4" if "bits_per_pixel pf = 32" using that by (simp add: bytes_per_pixel_def)
  consider "bits_per_pixel pf = 32 \<and> depth pf \<le> 24 \<and> cpixel_colour pf AND 0xff000000 = 0"
    | "\<not> (bits_per_pixel pf = 32 \<and> depth pf \<le> 24 \<and> cpixel_colour pf AND 0xff000000 = 0)"
      "bits_per_pixel pf = 32 \<and> depth pf \<le> 24 \<and> cpixel_colour pf AND 0x000000ff = 0"
    | "\<not> (bits_per_pixel pf = 32 \<and> depth pf \<le> 24 \<and> cpixel_colour pf AND 0xff000000 = 0)"
      "\<not> (bits_per_pixel pf = 32 \<and> depth pf \<le> 24 \<and> cpixel_colour pf AND 0x000000ff = 0)" by blast
  then show thesis
  proof cases
    case 1
    then show ?thesis using b by (intro low) (simp_all add: cpixel_of_def Let_def)
  next
    case 2
    then show ?thesis using b by (intro high) (simp_all add: cpixel_of_def Let_def)
  next
    case 3
    then show ?thesis by (intro full) (simp only: cpixel_of_def Let_def if_False)
  qed
qed

definition kc :: "pixel_format \<Rightarrow> u32 \<Rightarrow> bytes" where
  "kc pf key = (let cp = cpixel_of pf in
     unpack (unpacker_new pf) (take (cp_full cp)
       (replicate (cp_offset cp) 0 @ push_cpixel key cp @ replicate (4 - cp_offset cp - cp_bytes cp) 0)))"

definition zkey :: "pixel_format \<Rightarrow> bytes \<Rightarrow> u32" where
  "zkey pf px = word_of_bytes (take (cp_bytes (cpixel_of pf)) (drop (cp_offset (cpixel_of pf)) (convert_row px pf)))"

lemma cpixel_small:
  assumes "pf_validate pf = Inr ()"
  shows "0 < cp_bytes (cpixel_of pf) \<and> cp_bytes (cpixel_of pf) \<le> 4 \<and> cp_full (cpixel_of pf) = bytes_per_pixel pf"
  using assms bpp_small [OF assms] by (cases rule: cpixel_cases) simp_all

lemma length_push_cpixel: "pf_validate pf = Inr () \<Longrightarrow> length (push_cpixel k (cpixel_of pf)) = cp_bytes (cpixel_of pf)"
  using cpixel_small [of pf] by (simp add: push_cpixel_def)

lemma length_kc [simp]: "length (kc pf k) = 4"
  by (simp add: kc_def unpack_def Let_def)

lemma push_zkey:
  assumes "pf_validate pf = Inr ()" "length px = 4"
  shows "push_cpixel (zkey pf px) (cpixel_of pf) = take (cp_bytes (cpixel_of pf)) (drop (cp_offset (cpixel_of pf)) (convert_row px pf))"
proof -
  have l: "length (convert_row px pf) = bytes_per_pixel pf" by (rule length_convert_px [OF assms])
  have "length (take (cp_bytes (cpixel_of pf)) (drop (cp_offset (cpixel_of pf)) (convert_row px pf))) = cp_bytes (cpixel_of pf)"
    using assms(1) l bpp_small [OF assms(1)] by (cases rule: cpixel_cases) simp_all
  from push_pixel_word [OF this] cpixel_small [OF assms(1)] show ?thesis
    by (simp add: push_cpixel_def push_pixel_def zkey_def)
qed

lemma kc_sent:
  assumes "pf_validate pf = Inr ()" "channels_apart pf" "length px = 4"
  shows "kc pf (zkey pf px) = through pf px"
proof -
  let ?u = "unpacker_new pf"
  have sent: "unpack ?u (convert_row px pf) = through pf px" using unpack_sent [OF assms, of "[]"] by simp
  have l: "length (convert_row px pf) = bytes_per_pixel pf" by (rule length_convert_px [OF assms(1,3)])
  note k = push_zkey [OF assms(1,3)]
  show ?thesis
    using assms(1)
  proof (cases rule: cpixel_cases)
    case full
    then show ?thesis using k l sent by (simp add: kc_def Let_def)
  next
    case low
    then obtain a b c d where p: "convert_row px pf = [a, b, c, d]"
      using l by (auto simp: numeral_eq_Suc length_Suc_conv)
    have "NOT 0x00ffffff = (0xff000000 :: u32)" by simp
    then have M: "cpixel_colour pf AND NOT 0x00ffffff = 0" using low(2) by (simp only:)
    show ?thesis
    proof (cases "big_endian pf")
      case True
      with low k p have "kc pf (zkey pf px) = unpack ?u [0, b, c, d]" by (simp add: kc_def Let_def)
      also have "\<dots> = value_channels pf (word_of_bytes [d, c, b, a] AND 0x00ffffff)"
        using True low(1) word_low [of d c b a] by (simp add: unpack_value_channels)
      also have "\<dots> = unpack ?u (convert_row px pf)"
        unfolding value_channels_mask [OF M] using True low(1) p by (simp add: unpack_value_channels)
      finally show ?thesis using sent by simp
    next
      case False
      with low k p have "kc pf (zkey pf px) = unpack ?u [a, b, c, 0]" by (simp add: kc_def Let_def)
      also have "\<dots> = value_channels pf (word_of_bytes [a, b, c, d] AND 0x00ffffff)"
        using False low(1) word_low [of a b c d] by (simp add: unpack_value_channels)
      also have "\<dots> = unpack ?u (convert_row px pf)"
        unfolding value_channels_mask [OF M] using False low(1) p by (simp add: unpack_value_channels)
      finally show ?thesis using sent by simp
    qed
  next
    case high
    then obtain a b c d where p: "convert_row px pf = [a, b, c, d]"
      using l by (auto simp: numeral_eq_Suc length_Suc_conv)
    have "NOT 0xffffff00 = (0x000000ff :: u32)" by simp
    then have M: "cpixel_colour pf AND NOT 0xffffff00 = 0" using high(2) by (simp only:)
    show ?thesis
    proof (cases "big_endian pf")
      case True
      with high k p have "kc pf (zkey pf px) = unpack ?u [a, b, c, 0]" by (simp add: kc_def Let_def)
      also have "\<dots> = value_channels pf (word_of_bytes [d, c, b, a] AND 0xffffff00)"
        using True high(1) word_high [of c b a d] by (simp add: unpack_value_channels)
      also have "\<dots> = unpack ?u (convert_row px pf)"
        unfolding value_channels_mask [OF M] using True high(1) p by (simp add: unpack_value_channels)
      finally show ?thesis using sent by simp
    next
      case False
      with high k p have "kc pf (zkey pf px) = unpack ?u [0, b, c, d]" by (simp add: kc_def Let_def)
      also have "\<dots> = value_channels pf (word_of_bytes [a, b, c, d] AND 0xffffff00)"
        using False high(1) word_high [of b c d a] by (simp add: unpack_value_channels)
      also have "\<dots> = unpack ?u (convert_row px pf)"
        unfolding value_channels_mask [OF M] using False high(1) p by (simp add: unpack_value_channels)
      finally show ?thesis using sent by simp
    qed
  qed
qed

lemma read_cpixel_reads:
  assumes "pf_validate pf = Inr ()" "reads d r (push_cpixel k (cpixel_of pf) @ s)"
  shows "\<exists>r'. read_cpixel (cpixel_of pf) (unpacker_new pf) r = Inr (kc pf k, r') \<and> reads d r' s"
  using rd_take_reads [OF assms(2) length_push_cpixel [OF assms(1)]] by (auto simp: read_cpixel_def kc_def Let_def)

lemma read_palette_reads:
  assumes "pf_validate pf = Inr ()"
  shows "reads d r (push_palette ks (cpixel_of pf) @ s) \<Longrightarrow>
    \<exists>r'. read_palette (length ks) (cpixel_of pf) (unpacker_new pf) r = Inr (map (kc pf) ks, r') \<and> reads d r' s"
proof (induction ks arbitrary: r)
  case (Cons k ks)
  then have "reads d r (push_cpixel k (cpixel_of pf) @ (push_palette ks (cpixel_of pf) @ s))" by (simp add: push_palette_def)
  from read_cpixel_reads [OF assms this] Cons.IH show ?case by fastforce
qed (simp add: push_palette_def)

section \<open>Run lengths\<close>

lemma read_length_reads:
  "reads d r (push_left n @ s) \<Longrightarrow> \<exists>r'. read_length acc r = Inr (acc + n, r') \<and> reads d r' s"
proof (induction n arbitrary: acc r rule: push_left.induct)
  case (1 n)
  show ?case
  proof (cases "n \<ge> 255")
    case True
    then have "reads d r (255 # push_left (n - 255) @ s)" using 1(2) by (subst (asm) push_left.simps) simp
    then obtain r1 where r1: "rd_byte r = Inr (255, r1)" "reads d r1 (push_left (n - 255) @ s)" using rd_byte_reads by blast
    from 1(1) [OF True r1(2), of "acc + 255"] True r1(1) show ?thesis by (subst read_length.simps) simp
  next
    case False
    then have "reads d r (of_nat n # s)" using 1(2) by (subst (asm) push_left.simps) simp
    then obtain r1 where r1: "rd_byte r = Inr (of_nat n, r1)" "reads d r1 s" using rd_byte_reads by blast
    have "unat (of_nat n :: u8) = n" using False by (simp add: unsigned_of_nat take_bit_nat_eq_self)
    moreover have "(of_nat n :: u8) \<noteq> 255"
    proof
      assume "(of_nat n :: u8) = 255"
      then have "unat (of_nat n :: u8) = 255" by simp
      with \<open>unat (of_nat n :: u8) = n\<close> False show "False" by simp
    qed
    ultimately show ?thesis using r1 by (subst read_length.simps) simp
  qed
qed

lemma read_push_length:
  "0 < n \<Longrightarrow> reads d r (push_length n @ s) \<Longrightarrow> \<exists>r'. read_length 1 r = Inr (n, r') \<and> reads d r' s"
  using read_length_reads [of d r "n - 1" s 1] by (simp add: push_length_def)

text \<open>The cost the encoder counts is the cost it pays.\<close>

lemma length_push_length: "length (push_length n) = length_bytes n"
proof -
  have "length (push_left m) = m div 255 + 1" for m
  proof (induction m rule: push_left.induct)
    case (1 m)
    show ?case
    proof (cases "m \<ge> 255")
      case True
      then have "length (push_left m) = Suc ((m - 255) div 255 + 1)" using 1 by (subst push_left.simps) simp
      then show ?thesis using True by (simp add: le_div_geq)
    qed (subst push_left.simps, simp)
  qed
  then show ?thesis by (simp add: push_length_def length_bytes_def)
qed

end
