(* ===== verification/Zrle_Round_Trip.thy ===== *)
theory Zrle_Round_Trip
  imports Zrle_Laws
begin

text \<open>
  Decoding what the ZRLE encoder sent: the palette and the runs of a tile describe its keys, each of
  the five descriptions is read back into the tile's pixels, and a rectangle through a pair of
  synchronised streams arrives whole.
\<close>

section \<open>Palette and runs describe the tile\<close>

definition expand :: "run list \<Rightarrow> u32 list" where
  "expand rs = concat (map (\<lambda>r. replicate (snd r) (fst r)) rs)"

definition solid_runs :: "run list \<Rightarrow> bool" where
  "solid_runs rs \<longleftrightarrow> (\<forall>r\<in>set rs. 0 < snd r)"

lemma push_run_expand: "expand (push_run k rs) = expand rs @ [k]"
proof (cases "rs \<noteq> [] \<and> fst (last rs) = k")
  case True
  then have "rs = butlast rs @ [(k, snd (last rs))]" by (metis append_butlast_last_id prod.collapse)
  then have "expand rs = expand (butlast rs) @ replicate (snd (last rs)) k"
    by (metis (no_types, lifting) append_Nil2 concat.simps concat_append expand_def fst_conv list.simps(8,9) map_append snd_conv)
  with True show ?thesis by (simp add: push_run_def expand_def replicate_append_same)
next
  case False
  then have "push_run k rs = rs @ [(k, 1)]" by (auto simp: push_run_def)
  then show ?thesis by (simp add: expand_def)
qed

lemma push_run_solid: "solid_runs rs \<Longrightarrow> solid_runs (push_run k rs)"
  by (auto simp: push_run_def solid_runs_def dest: in_set_butlastD)

lemma gather_loop_runs:
  "solid_runs rs \<Longrightarrow> expand (snd (gather_loop keys pal rs over)) = expand rs @ keys
    \<and> solid_runs (snd (gather_loop keys pal rs over))"
  by (induction keys pal rs over rule: gather_loop.induct) (simp_all add: Let_def push_run_expand push_run_solid)

lemma gather_loop_over: "fst (gather_loop keys [] rs True) = []"
  by (induction keys arbitrary: rs) simp_all

lemma gather_loop_palette:
  "length pal \<le> ZRLE_MAX_PALETTE \<Longrightarrow>
    fst (gather_loop keys pal rs False) = []
    \<or> (set (fst (gather_loop keys pal rs False)) = set pal \<union> set keys \<and> length (fst (gather_loop keys pal rs False)) \<le> ZRLE_MAX_PALETTE)"
proof (induction keys arbitrary: pal rs)
  case (Cons k keys)
  show ?case
  proof (cases "k \<notin> set pal")
    case True
    then show ?thesis
      using Cons.IH [of "pal @ [k]" "push_run k rs"] Cons.prems
      by (cases "length pal = ZRLE_MAX_PALETTE") (auto simp: gather_loop_over Let_def)
  next
    case False
    then have "set pal \<union> set (k # keys) = set pal \<union> set keys" by auto
    then show ?thesis using False Cons.IH [of pal "push_run k rs"] Cons.prems by (simp only: gather_loop.simps Let_def simp_thms if_False)
  qed
qed simp

lemma gather_facts:
  assumes "gather keys = (pal, rs)"
  shows "expand rs = keys" "solid_runs rs" "pal \<noteq> [] \<Longrightarrow> set pal = set keys" "length pal \<le> ZRLE_MAX_PALETTE"
  using gather_loop_runs [of "[]" keys "[]" False] gather_loop_palette [of "[]" keys "[]"] assms
  by (auto simp: gather_def expand_def solid_runs_def)

lemma run_colours: "solid_runs rs \<Longrightarrow> r \<in> set rs \<Longrightarrow> fst r \<in> set (expand rs)"
  by (fastforce simp: expand_def solid_runs_def)

lemma position_in: "c \<in> set ks \<Longrightarrow> \<exists>i<length ks. position c ks = Some i \<and> ks ! i = c"
proof (induction ks)
  case (Cons k ks)
  show ?case
  proof (cases "k = c")
    case False
    with Cons obtain i where "i < length ks" "position c ks = Some i" "ks ! i = c" by auto
    with False show ?thesis by (intro exI [of _ "Suc i"]) simp
  qed (auto intro: exI [of _ 0])
qed simp

section \<open>A tile being read\<close>

definition zsend :: "pixel_format \<Rightarrow> framebuffer \<Rightarrow> rect \<Rightarrow> framebuffer \<Rightarrow> bool" where
  "zsend pf src t fb \<longleftrightarrow> pf_validate pf = Inr () \<and> channels_apart pf \<and> fb_ok src \<and> in_picture src t
    \<and> fb_ok fb \<and> in_picture fb t \<and> tile_of 64 t t"

definition zkeys :: "pixel_format \<Rightarrow> framebuffer \<Rightarrow> rect \<Rightarrow> u32 list" where
  "zkeys pf src t = map (zkey pf) (tile_px src t)"

definition seen :: "pixel_format \<Rightarrow> framebuffer \<Rightarrow> nat \<Rightarrow> nat \<Rightarrow> bytes" where
  "seen pf src x y = through pf (fb_px src x y)"

definition partly :: "rect \<Rightarrow> nat \<Rightarrow> nat \<Rightarrow> nat \<Rightarrow> bool" where
  "partly t i x y \<longleftrightarrow> inside t x y \<and> tile_index t x y < i"

lemma zsendD:
  assumes "zsend pf src t fb"
  shows "pf_validate pf = Inr ()" "channels_apart pf" "fb_ok src" "in_picture src t" "fb_ok fb" "in_picture fb t"
    "rx1 t < rx2 t" "ry1 t < ry2 t" "rect_width t = rx2 t - rx1 t" "rect_height t = ry2 t - ry1 t"
    "u32_of (rx2 t - rx1 t) = nat (rx2 t - rx1 t)" "u32_of (ry2 t - ry1 t) = nat (ry2 t - ry1 t)"
    "\<forall>px\<in>set (tile_px src t). length px = 4"
    "length (zkeys pf src t) = nat (rx2 t - rx1 t) * nat (ry2 t - ry1 t)"
    "u32_of ((rx2 t - rx1 t) * (ry2 t - ry1 t)) = length (zkeys pf src t)"
proof -
  show a: "pf_validate pf = Inr ()" "channels_apart pf" "fb_ok src" "in_picture src t" "fb_ok fb" "in_picture fb t"
    "rx1 t < rx2 t" "ry1 t < ry2 t" using assms by (simp_all add: zsend_def tile_of_def)
  show w: "rect_width t = rx2 t - rx1 t" "rect_height t = ry2 t - ry1 t" using in_picture_width [OF a(3,4)] by simp_all
  show "u32_of (rx2 t - rx1 t) = nat (rx2 t - rx1 t)" "u32_of (ry2 t - ry1 t) = nat (ry2 t - ry1 t)"
    using in_picture_width [OF a(3,4)] by (simp_all only: w)
  show "\<forall>px\<in>set (tile_px src t). length px = 4" by (rule tile_px_4 [OF a(3,4)])
  show l: "length (zkeys pf src t) = nat (rx2 t - rx1 t) * nat (ry2 t - ry1 t)"
    using length_tile_px [OF a(4)] by (simp add: zkeys_def)
  have "rx2 t - rx1 t \<le> 64" "ry2 t - ry1 t \<le> 64" using assms by (simp_all add: zsend_def tile_of_def)
  then have "(rx2 t - rx1 t) * (ry2 t - ry1 t) \<le> 64 * 64" using a(7,8) by (intro mult_mono) simp_all
  then show "u32_of ((rx2 t - rx1 t) * (ry2 t - ry1 t)) = length (zkeys pf src t)"
    using a(7,8) by (simp add: l nat_mult_distrib)
qed

lemma kc_key:
  assumes "zsend pf src t fb" shows "map (kc pf) (zkeys pf src t) = map (through pf) (tile_px src t)"
  using zsendD(13) [OF assms] kc_sent [OF zsendD(1,2) [OF assms]] by (simp add: zkeys_def comp_def)

text \<open>Writing the next pixels of the tile, in reading order.\<close>

lemma put_next:
  assumes z: "zsend pf src t fb" and p: "painted fb fb1 (partly t i) (seen pf src)"
    and pxs: "pxs = map (kc pf) (take n (drop i (zkeys pf src t)))" and n: "i + n \<le> length (zkeys pf src t)"
  shows "\<exists>fb2. put_pixels i (rx1 t) (ry1 t) (rect_width t) pxs fb1 = Inr fb2 \<and> painted fb fb2 (partly t (i + n)) (seen pf src)"
proof -
  note s = zsendD [OF z] and k = paintedD [OF p zsendD(5) [OF z]]
  have in1: "in_picture fb1 t" using s(6) k by (simp add: in_picture_def)
  have l: "length pxs = n" using n by (simp add: pxs)
  have "i + length pxs \<le> nat (rect_width t) * nat (ry2 t - ry1 t)" using n s(14) by (simp add: l s(9))
  moreover have "\<forall>px\<in>set pxs. length px = 4" by (auto simp: pxs)
  ultimately obtain fb2 where f: "put_pixels i (rx1 t) (ry1 t) (rect_width t) pxs fb1 = Inr fb2"
    "painted fb1 fb2 (\<lambda>x y. inside t x y \<and> i \<le> tile_index t x y \<and> tile_index t x y < i + length pxs) (\<lambda>x y. pxs ! (tile_index t x y - i))"
    using put_pixels_painted [OF k(1) in1 s(9)] s(7,9) by fastforce
  have "painted fb fb2 (partly t (i + n)) (seen pf src)"
  proof (rule painted_cong [OF painted_then [OF p f(2)]])
    fix x y
    show "(partly t i x y \<or> inside t x y \<and> i \<le> tile_index t x y \<and> tile_index t x y < i + length pxs) = partly t (i + n) x y"
      by (auto simp: partly_def l)
    assume q: "partly t (i + n) x y"
    show "(if inside t x y \<and> i \<le> tile_index t x y \<and> tile_index t x y < i + length pxs then pxs ! (tile_index t x y - i) else seen pf src x y)
        = seen pf src x y"
    proof (cases "i \<le> tile_index t x y")
      case True
      have len: "tile_index t x y < length (tile_px src t)" using q n by (auto simp: partly_def zkeys_def)
      obtain j where j: "tile_index t x y = i + j" "j < n" using True q by (auto simp: partly_def le_iff_add)
      then have "pxs ! (tile_index t x y - i) = map (kc pf) (zkeys pf src t) ! tile_index t x y"
        using n by (simp add: pxs)
      also have "\<dots> = seen pf src x y"
        unfolding kc_key [OF z] using len q tile_px_nth [OF s(4), of x y] by (simp add: seen_def partly_def)
      finally show ?thesis by simp
    qed simp
  qed
  with f(1) show ?thesis by blast
qed

lemma partly_0: "painted fb fb (partly t 0) F" if "fb_ok fb"
  by (rule painted_cong [OF painted_refl [OF that]]) (simp_all add: partly_def)

lemma partly_all:
  assumes "zsend pf src t fb" "painted fb fb' (partly t (length (zkeys pf src t))) F"
  shows "painted fb fb' (inside t) F"
  using tile_index_less [OF zsendD(4) [OF assms(1)]] zsendD(14) [OF assms(1)]
  by (intro painted_cong [OF assms(2)]) (auto simp: partly_def)

section \<open>The five descriptions\<close>

text \<open>What reading one tile has to give.\<close>

definition tile_read :: "pixel_format \<Rightarrow> framebuffer \<Rightarrow> rect \<Rightarrow> framebuffer \<Rightarrow> bytes \<Rightarrow> bytes \<Rightarrow> decode_error + zrle_dec \<Rightarrow> bool" where
  "tile_read pf src t fb d rest res \<longleftrightarrow>
    (\<exists>rd pal fb'. res = Inr (rd, pal, fb') \<and> reads d rd rest \<and> painted fb fb' (inside t) (seen pf src))"

lemma read_raw_ok:
  assumes z: "zsend pf src t fb"
  shows "painted fb fb1 (partly t i) (seen pf src) \<Longrightarrow> i + length ks = length (zkeys pf src t) \<Longrightarrow> ks = drop i (zkeys pf src t)
    \<Longrightarrow> reads d rd (push_palette ks (cpixel_of pf) @ rest) \<Longrightarrow>
    \<exists>rd' fb2. zrle_read_raw i (length ks) (cpixel_of pf) (unpacker_new pf) t rd fb1 = Inr (rd', fb2) \<and> reads d rd' rest
      \<and> painted fb fb2 (partly t (length (zkeys pf src t))) (seen pf src)"
proof (induction ks arbitrary: i rd fb1)
  case Nil
  then show ?case by (auto simp: push_palette_def)
next
  case (Cons k ks)
  have "reads d rd (push_cpixel k (cpixel_of pf) @ (push_palette ks (cpixel_of pf) @ rest))"
    using Cons.prems(4) by (simp add: push_palette_def)
  from read_cpixel_reads [OF zsendD(1) [OF z] this] obtain r1 where
    r1: "read_cpixel (cpixel_of pf) (unpacker_new pf) rd = Inr (kc pf k, r1)" "reads d r1 (push_palette ks (cpixel_of pf) @ rest)" by blast
  have one: "[kc pf k] = map (kc pf) (take 1 (drop i (zkeys pf src t)))" unfolding Cons.prems(3) [symmetric] by simp
  obtain fb2 where f: "put_pixels i (rx1 t) (ry1 t) (rect_width t) [kc pf k] fb1 = Inr fb2" "painted fb fb2 (partly t (i + 1)) (seen pf src)"
    using put_next [OF z Cons.prems(1) one] Cons.prems(2) by auto
  have "ks = drop (Suc i) (zkeys pf src t)" using Cons.prems(3) by (metis drop_Suc list.sel(3) tl_drop)
  with Cons.IH [OF _ _ _ r1(2), of fb2 "Suc i"] f Cons.prems(2) show ?case using r1(1) by fastforce
qed

lemma expand_Cons: "expand (r # rs) = replicate (snd r) (fst r) @ expand rs"
  by (simp add: expand_def)

text \<open>The keys a run covers are its colour.\<close>

lemma run_next:
  assumes "expand (r # rs) = drop i keys" "i \<le> length keys"
  shows "replicate (snd r) (fst r) = take (snd r) (drop i keys)" "expand rs = drop (i + snd r) keys" "i + snd r \<le> length keys"
proof -
  have e: "replicate (snd r) (fst r) @ expand rs = drop i keys" using assms(1) by (simp add: expand_Cons)
  from arg_cong [OF e, of "take (snd r)"] show "replicate (snd r) (fst r) = take (snd r) (drop i keys)" by simp
  from arg_cong [OF e, of "drop (snd r)"] show "expand rs = drop (i + snd r) keys" by (simp add: add.commute)
  from arg_cong [OF e, of length] assms(2) show "i + snd r \<le> length keys" by simp
qed

lemma read_plain_ok:
  assumes z: "zsend pf src t fb"
  shows "painted fb fb1 (partly t i) (seen pf src) \<Longrightarrow> i \<le> length (zkeys pf src t) \<Longrightarrow> expand rs = drop i (zkeys pf src t)
    \<Longrightarrow> solid_runs rs
    \<Longrightarrow> reads d rd (concat (map (\<lambda>r. push_cpixel (fst r) (cpixel_of pf) @ push_length (snd r)) rs) @ rest) \<Longrightarrow>
    \<exists>rd' fb2. zrle_read_plain i (length (zkeys pf src t)) (cpixel_of pf) (unpacker_new pf) t rd fb1 = Inr (rd', fb2) \<and> reads d rd' rest
      \<and> painted fb fb2 (partly t (length (zkeys pf src t))) (seen pf src)"
proof (induction rs arbitrary: i rd fb1)
  case Nil
  then have "i = length (zkeys pf src t)" by (simp add: expand_def)
  with Nil show ?case by (subst zrle_read_plain.simps) auto
next
  case (Cons r rs)
  let ?N = "length (zkeys pf src t)"
  note nx = run_next [OF Cons.prems(3,2)]
  have pos: "0 < snd r" and solid: "solid_runs rs" using Cons.prems(4) by (simp_all add: solid_runs_def)
  have "reads d rd (push_cpixel (fst r) (cpixel_of pf) @ (push_length (snd r)
      @ (concat (map (\<lambda>r. push_cpixel (fst r) (cpixel_of pf) @ push_length (snd r)) rs) @ rest)))"
    using Cons.prems(5) by simp
  from read_cpixel_reads [OF zsendD(1) [OF z] this] obtain r1 where
    r1: "read_cpixel (cpixel_of pf) (unpacker_new pf) rd = Inr (kc pf (fst r), r1)"
      "reads d r1 (push_length (snd r) @ (concat (map (\<lambda>r. push_cpixel (fst r) (cpixel_of pf) @ push_length (snd r)) rs) @ rest))" by blast
  from read_push_length [OF pos r1(2)] obtain r2 where
    r2: "read_length 1 r1 = Inr (snd r, r2)" "reads d r2 (concat (map (\<lambda>r. push_cpixel (fst r) (cpixel_of pf) @ push_length (snd r)) rs) @ rest)" by blast
  have px: "replicate (snd r) (kc pf (fst r)) = map (kc pf) (take (snd r) (drop i (zkeys pf src t)))"
    unfolding nx(1) [symmetric] by simp
  obtain fb2 where f: "put_pixels i (rx1 t) (ry1 t) (rect_width t) (replicate (snd r) (kc pf (fst r))) fb1 = Inr fb2"
    "painted fb fb2 (partly t (i + snd r)) (seen pf src)"
    using put_next [OF z Cons.prems(1) px nx(3)] by blast
  have m: "min (snd r) (?N - i) = snd r" "i < ?N" using nx(3) pos by auto
  from Cons.IH [OF f(2) nx(3,2) solid r2(2)] r1(1) r2(1) f(1) m show ?case
    by (subst zrle_read_plain.simps) (auto simp del: One_nat_def)
qed

text \<open>An index below 128 leaves the top bit free to say that a length follows.\<close>

lemma index_bits_check:
  "list_all (\<lambda>i. unat ((of_nat i OR 0x80 :: u8) AND 0x7f) = i \<and> (of_nat i OR 0x80 :: u8) AND 0x80 \<noteq> 0
    \<and> unat ((of_nat i :: u8) AND 0x7f) = i \<and> (of_nat i :: u8) AND 0x80 = 0) [0 ..< 128]"
  by code_simp

lemma index_bits:
  assumes "i < 128"
  shows "unat ((of_nat i OR 0x80 :: u8) AND 0x7f) = i" "(of_nat i OR 0x80 :: u8) AND 0x80 \<noteq> 0"
    "unat ((of_nat i :: u8) AND 0x7f) = i" "(of_nat i :: u8) AND 0x80 = 0"
  using index_bits_check assms unfolding list_all_iff by (metis atLeastLessThan_iff set_upt zero_le)+

lemma read_run_sent:
  assumes "fst r \<in> set pal" "length pal \<le> ZRLE_MAX_PALETTE" "0 < snd r"
  shows "\<exists>bs. rle_run pal r = Some bs \<and> (\<forall>d rd s. reads d rd (bs @ s) \<longrightarrow>
    (\<exists>i rd'. read_run rd = Inr (i, snd r, rd') \<and> reads d rd' s \<and> unat (i AND 0x7f) < length pal \<and> pal ! unat (i AND 0x7f) = fst r))"
proof -
  obtain i where i: "i < length pal" "position (fst r) pal = Some i" "pal ! i = fst r" using position_in [OF assms(1)] by blast
  then have "i < 128" using assms(2) by (simp add: ZRLE_MAX_PALETTE_def)
  note b = index_bits [OF this]
  show ?thesis
  proof (cases "snd r = 1")
    case True
    have "\<exists>j rd'. read_run rd = Inr (j, 1, rd') \<and> reads d rd' s \<and> unat (j AND 0x7f) < length pal \<and> pal ! unat (j AND 0x7f) = fst r"
      if "reads d rd (of_nat i # s)" for d rd s
      using rd_byte_reads [OF that] b i by (auto simp: read_run_def)
    with True i(2) show ?thesis by (simp add: rle_run_def index_of_def)
  next
    case False
    have "\<exists>j rd'. read_run rd = Inr (j, snd r, rd') \<and> reads d rd' s \<and> unat (j AND 0x7f) < length pal \<and> pal ! unat (j AND 0x7f) = fst r"
      if rd: "reads d rd ((of_nat i OR 0x80) # push_length (snd r) @ s)" for d rd s
    proof -
      obtain r1 where r1: "rd_byte rd = Inr (of_nat i OR 0x80, r1)" "reads d r1 (push_length (snd r) @ s)"
        using rd_byte_reads [OF rd] by blast
      obtain r2 where "read_length 1 r1 = Inr (snd r, r2)" "reads d r2 s" using read_push_length [OF assms(3) r1(2)] by blast
      with r1(1) b(1,2) i show ?thesis by (auto simp: read_run_def simp del: One_nat_def)
    qed
    with False i(2) show ?thesis by (simp add: rle_run_def index_of_def)
  qed
qed

lemma read_indexed_ok:
  assumes z: "zsend pf src t fb" and pal: "length pal \<le> ZRLE_MAX_PALETTE"
  shows "painted fb fb1 (partly t i) (seen pf src) \<Longrightarrow> i \<le> length (zkeys pf src t) \<Longrightarrow> expand rs = drop i (zkeys pf src t)
    \<Longrightarrow> solid_runs rs \<Longrightarrow> \<forall>r\<in>set rs. fst r \<in> set pal \<Longrightarrow>
    \<exists>bs. those (map (rle_run pal) rs) = Some bs \<and> (\<forall>rd. reads d rd (concat bs @ rest) \<longrightarrow>
    (\<exists>rd' fb2. zrle_read_indexed i (length (zkeys pf src t)) (map (kc pf) pal) t rd fb1 = Inr (rd', fb2) \<and> reads d rd' rest
      \<and> painted fb fb2 (partly t (length (zkeys pf src t))) (seen pf src)))"
proof (induction rs arbitrary: i fb1)
  case Nil
  then have "i = length (zkeys pf src t)" by (simp add: expand_def)
  with Nil show ?case by (subst zrle_read_indexed.simps) auto
next
  case (Cons r rs)
  let ?N = "length (zkeys pf src t)"
  note nx = run_next [OF Cons.prems(3,2)]
  have pos: "0 < snd r" and solid: "solid_runs rs" using Cons.prems(4) by (simp_all add: solid_runs_def)
  obtain b where b: "rle_run pal r = Some b"
    and run: "\<And>d rd s. reads d rd (b @ s) \<Longrightarrow> \<exists>i rd'. read_run rd = Inr (i, snd r, rd') \<and> reads d rd' s
      \<and> unat (i AND 0x7f) < length pal \<and> pal ! unat (i AND 0x7f) = fst r"
    using read_run_sent [OF _ pal pos] Cons.prems(5) by auto
  have px: "replicate (snd r) (kc pf (fst r)) = map (kc pf) (take (snd r) (drop i (zkeys pf src t)))"
    unfolding nx(1) [symmetric] by simp
  obtain fb2 where f: "put_pixels i (rx1 t) (ry1 t) (rect_width t) (replicate (snd r) (kc pf (fst r))) fb1 = Inr fb2"
    "painted fb fb2 (partly t (i + snd r)) (seen pf src)"
    using put_next [OF z Cons.prems(1) px nx(3)] by blast
  obtain bs where bs: "those (map (rle_run pal) rs) = Some bs" and ih: "\<And>rd. reads d rd (concat bs @ rest) \<Longrightarrow>
      \<exists>rd' fb3. zrle_read_indexed (i + snd r) ?N (map (kc pf) pal) t rd fb2 = Inr (rd', fb3) \<and> reads d rd' rest
        \<and> painted fb fb3 (partly t ?N) (seen pf src)"
    using Cons.IH [OF f(2) nx(3,2) solid] Cons.prems(5) by auto
  have m: "min (snd r) (?N - i) = snd r" "i < ?N" using nx(3) pos by auto
  have "\<exists>rd' fb3. zrle_read_indexed i ?N (map (kc pf) pal) t rd fb1 = Inr (rd', fb3) \<and> reads d rd' rest \<and> painted fb fb3 (partly t ?N) (seen pf src)"
    if rd: "reads d rd (concat (b # bs) @ rest)" for rd
  proof -
    obtain j r1 where r1: "read_run rd = Inr (j, snd r, r1)" "reads d r1 (concat bs @ rest)" "unat (j AND 0x7f) < length pal"
      "pal ! unat (j AND 0x7f) = fst r"
      using run [of d rd "concat bs @ rest"] rd by auto
    from ih [OF r1(2)] r1 f(1) m show ?thesis by (subst zrle_read_indexed.simps) (auto simp: Let_def)
  qed
  with b bs show ?case by simp
qed

lemma irange_Cons: "a < b \<Longrightarrow> irange a b = a # irange (a + 1) b"
proof -
  assume "a < b"
  then have "[0 ..< nat (b - a)] = 0 # map Suc [0 ..< nat (b - (a + 1))]"
    by (simp add: map_Suc_upt upt_conv_Cons Suc_nat_eq_nat_zadd1 algebra_simps)
  then show ?thesis by (simp add: irange_def comp_def algebra_simps)
qed

lemma palette_bits_facts:
  assumes "2 \<le> n" "n \<le> 16"
  shows "0 < palette_bits n" "palette_bits n dvd 8" "n \<le> 2 ^ palette_bits n" "palette_bits n \<le> 8"
  using assms by (auto simp: palette_bits_def)

definition pal_index :: "u32 list \<Rightarrow> u32 \<Rightarrow> u8" where
  "pal_index pal k = of_nat (the (position k pal))"

lemma pal_index_facts:
  assumes "k \<in> set pal" "2 \<le> length pal" "length pal \<le> 16"
  shows "index_of pal k = Some (pal_index pal k)" "fits (palette_bits (length pal)) (pal_index pal k)"
    "unat (pal_index pal k) < length pal" "pal ! unat (pal_index pal k) = k"
proof -
  obtain i where i: "i < length pal" "position k pal = Some i" "pal ! i = k" using position_in [OF assms(1)] by blast
  then have p: "pal_index pal k = of_nat i" by (simp add: pal_index_def)
  have u: "unat (of_nat i :: u8) = i" using i(1) assms(3) by (simp add: unsigned_of_nat take_bit_nat_eq_self)
  show "index_of pal k = Some (pal_index pal k)" using i p by (simp add: index_of_def)
  show "fits (palette_bits (length pal)) (pal_index pal k)"
    unfolding p using i(1) palette_bits_facts(3) [OF assms(2,3)] by (intro fits_of_nat) simp
  show "unat (pal_index pal k) < length pal" "pal ! unat (pal_index pal k) = k" using i p u by simp_all
qed

text \<open>The keys of row \<open>j\<close> of a tile.\<close>

definition key_row :: "pixel_format \<Rightarrow> framebuffer \<Rightarrow> rect \<Rightarrow> nat \<Rightarrow> u32 list" where
  "key_row pf src t j = take (nat (rx2 t - rx1 t)) (drop (j * nat (rx2 t - rx1 t)) (zkeys pf src t))"

lemma key_row_facts:
  assumes z: "zsend pf src t fb" and j: "j < nat (ry2 t - ry1 t)"
  shows "length (key_row pf src t j) = nat (rx2 t - rx1 t)" "set (key_row pf src t j) \<subseteq> set (zkeys pf src t)"
    and "c < nat (rx2 t - rx1 t) \<Longrightarrow> kc pf (key_row pf src t j ! c) = seen pf src (nat (rx1 t) + c) (nat (ry1 t) + j)"
proof -
  note s = zsendD [OF z]
  let ?w = "nat (rx2 t - rx1 t)"
  have "Suc j * ?w \<le> nat (ry2 t - ry1 t) * ?w" using j by (intro mult_le_mono1) simp
  then have le: "j * ?w + ?w \<le> length (zkeys pf src t)" by (simp add: s(14) mult.commute)
  show "length (key_row pf src t j) = ?w" using le by (simp add: key_row_def)
  show "set (key_row pf src t j) \<subseteq> set (zkeys pf src t)" unfolding key_row_def by (meson set_drop_subset set_take_subset subset_trans)
  assume c: "c < ?w"
  let ?x = "nat (rx1 t) + c" and ?y = "nat (ry1 t) + j"
  have b: "0 \<le> rx1 t" "0 \<le> ry1 t" using s(4) by (simp_all add: in_picture_def)
  have ins: "inside t ?x ?y" and idx: "tile_index t ?x ?y = j * ?w + c"
    using c j b s(7,8) by (auto simp: inside_iff tile_index_def)
  have lt: "j * ?w + c < length (zkeys pf src t)" using le c by simp
  have "kc pf (key_row pf src t j ! c) = map (kc pf) (zkeys pf src t) ! (j * ?w + c)"
    using c lt by (simp add: key_row_def)
  also have "\<dots> = seen pf src ?x ?y"
    unfolding kc_key [OF z] using tile_px_nth [OF s(4) ins] lt by (simp add: idx seen_def zkeys_def)
  finally show "kc pf (key_row pf src t j ! c) = seen pf src ?x ?y" .
qed

text \<open>A packed row paints what its indices name.\<close>

lemma unpack_row_paints:
  assumes fb: "fb_ok fb" "0 \<le> x0" "0 \<le> y0" "nat y0 < fb_height fb"
  shows "painted fb fb1 P F \<Longrightarrow>
    \<forall>c\<in>set cs. nat x0 + c < fb_width fb \<and> length (F (nat x0 + c) (nat y0)) = 4 \<and>
      (\<exists>idx<length pal. packed_index bits packed c = Some idx \<and> pal ! idx = F (nat x0 + c) (nat y0)) \<Longrightarrow>
    \<exists>fb2. unpack_row cs bits packed pal x0 y0 fb1 = Inr fb2
      \<and> painted fb fb2 (\<lambda>x y. P x y \<or> y = nat y0 \<and> (\<exists>c\<in>set cs. x = nat x0 + c)) F"
proof (induction cs arbitrary: fb1 P)
  case Nil
  then show ?case by simp
next
  case (Cons c cs)
  note k = paintedD [OF Cons.prems(1) fb(1)]
  let ?x = "nat x0 + c" and ?y = "nat y0"
  obtain idx where c: "?x < fb_width fb" "length (F ?x ?y) = 4" "idx < length pal" "packed_index bits packed c = Some idx" "pal ! idx = F ?x ?y"
    using Cons.prems(2) by auto
  have small: "fb_width fb < 65536" "fb_height fb < 65536" using fb(1) by (simp_all add: fb_ok_def)
  have u: "u32_of (x0 + int c) = ?x" "u32_of y0 = ?y" using small c(1) fb by (simp_all add: nat_add_distrib)
  obtain fb2 where f: "put_pixel fb1 ?x ?y (F ?x ?y) = Some fb2" "painted fb1 fb2 (\<lambda>x y. (x, y) = (?x, ?y)) (\<lambda>_ _. F ?x ?y)"
    using put_pixel_painted [OF k(1) _ _ c(2), of ?x ?y] c(1) fb(4) k(2,3) by auto
  have p2: "painted fb fb2 (\<lambda>x y. P x y \<or> (x, y) = (?x, ?y)) F"
    by (rule painted_cong [OF painted_then [OF Cons.prems(1) f(2)]]) auto
  from Cons.IH [OF p2] Cons.prems(2) obtain fb3 where
    g: "unpack_row cs bits packed pal x0 y0 fb2 = Inr fb3"
    "painted fb fb3 (\<lambda>x y. (P x y \<or> (x, y) = (?x, ?y)) \<or> y = ?y \<and> (\<exists>c\<in>set cs. x = nat x0 + c)) F" by auto
  have "painted fb fb3 (\<lambda>x y. P x y \<or> y = ?y \<and> (\<exists>c\<in>set (c # cs). x = nat x0 + c)) F"
    by (rule painted_cong [OF g(2)]) auto
  with g(1) f(1) c(3-5) u show ?case by auto
qed

lemma unpack_row_ok:
  assumes z: "zsend pf src t fb" and j: "j < nat (ry2 t - ry1 t)" and pal: "2 \<le> length pal" "length pal \<le> 16"
    and sub: "set (key_row pf src t j) \<subseteq> set pal"
    and p: "painted fb fb1 P (seen pf src)" and cs: "\<forall>c\<in>set cs. c < nat (rx2 t - rx1 t)"
  shows "\<exists>fb2. unpack_row cs (palette_bits (length pal))
        (pack_row (palette_bits (length pal)) (map (pal_index pal) (key_row pf src t j)) 0 0) (map (kc pf) pal)
        (rx1 t) (ry1 t + int j) fb1 = Inr fb2
      \<and> painted fb fb2 (\<lambda>x y. P x y \<or> y = nat (ry1 t) + j \<and> (\<exists>c\<in>set cs. x = nat (rx1 t) + c)) (seen pf src)"
proof -
  note s = zsendD [OF z] and kr = key_row_facts [OF z j] and pb = palette_bits_facts [OF pal]
  let ?ks = "key_row pf src t j" and ?bits = "palette_bits (length pal)"
  have lim: "0 \<le> rx1 t" "rx2 t \<le> int (fb_width fb)" "0 \<le> ry1 t" "ry2 t \<le> int (fb_height fb)"
    using s(6) by (simp_all add: in_picture_def)
  have y: "nat (ry1 t + int j) = nat (ry1 t) + j" using lim(3) by (simp add: nat_add_distrib)
  have y': "nat (ry1 t) + j < fb_height fb" using lim j by linarith
  have each: "nat (rx1 t) + c < fb_width fb \<and> length (seen pf src (nat (rx1 t) + c) (nat (ry1 t + int j))) = 4 \<and>
      (\<exists>idx<length (map (kc pf) pal). packed_index ?bits (pack_row ?bits (map (pal_index pal) ?ks) 0 0) c = Some idx
        \<and> map (kc pf) pal ! idx = seen pf src (nat (rx1 t) + c) (nat (ry1 t + int j)))" if "c \<in> set cs" for c
  proof -
    have c: "c < nat (rx2 t - rx1 t)" using cs that by blast
    then have key: "?ks ! c \<in> set pal" using sub kr(1) by (metis nth_mem subsetD)
    note pi = pal_index_facts [OF key pal]
    have "\<forall>i\<in>set (map (pal_index pal) ?ks). fits ?bits i" using sub pal_index_facts(2) [OF _ pal] by auto
    from packed_index_row [OF this pb(1,2), of c] c kr(1)
    have "packed_index ?bits (pack_row ?bits (map (pal_index pal) ?ks) 0 0) c = Some (unat (pal_index pal (?ks ! c)))" by simp
    moreover have "map (kc pf) pal ! unat (pal_index pal (?ks ! c)) = seen pf src (nat (rx1 t) + c) (nat (ry1 t + int j))"
      using pi(3,4) kr(3) [OF c] y by simp
    moreover have "nat (rx1 t) + c < fb_width fb" using lim c by linarith
    ultimately show ?thesis using pi(3) by (simp add: seen_def through_def)
  qed
  then show ?thesis using unpack_row_paints [OF s(5) lim(1) _ _ p, of "ry1 t + int j" cs "map (kc pf) pal"] lim(3) y y' by auto
qed

text \<open>One more row of a rectangle.\<close>

lemma row_inside:
  assumes "0 \<le> rx1 t" "0 \<le> ry1 t" "j < nat (ry2 t - ry1 t)"
  shows "(inside t x y \<and> int y < ry1 t + int j \<or> y = nat (ry1 t) + j \<and> (\<exists>c\<in>set [0 ..< nat (rx2 t - rx1 t)]. x = nat (rx1 t) + c))
    \<longleftrightarrow> inside t x y \<and> int y < ry1 t + int (Suc j)"
proof -
  have "(\<exists>c\<in>set [0 ..< nat (rx2 t - rx1 t)]. x = nat (rx1 t) + c) \<longleftrightarrow> rx1 t \<le> int x \<and> int x < rx2 t"
  proof
    assume "rx1 t \<le> int x \<and> int x < rx2 t"
    then show "\<exists>c\<in>set [0 ..< nat (rx2 t - rx1 t)]. x = nat (rx1 t) + c" using assms by (intro bexI [of _ "x - nat (rx1 t)"]) auto
  qed (use assms in auto)
  then show ?thesis using assms by (auto simp: inside_iff)
qed

lemma unpack_rows_ok:
  assumes z: "zsend pf src t fb" and pal: "2 \<le> length pal" "length pal \<le> 16" "set (zkeys pf src t) \<subseteq> set pal"
  shows "j + n = nat (ry2 t - ry1 t) \<Longrightarrow> painted fb fb1 (\<lambda>x y. inside t x y \<and> int y < ry1 t + int j) (seen pf src) \<Longrightarrow>
    reads d rd (concat (map (\<lambda>j. pack_row (palette_bits (length pal)) (map (pal_index pal) (key_row pf src t j)) 0 0) [j ..< j + n]) @ rest) \<Longrightarrow>
    \<exists>rd' fb2. unpack_rows (irange (ry1 t + int j) (ry2 t)) (nat (rx2 t - rx1 t)) (palette_bits (length pal)) (map (kc pf) pal) (rx1 t) rd fb1
        = Inr (rd', fb2) \<and> reads d rd' rest \<and> painted fb fb2 (inside t) (seen pf src)"
proof (induction n arbitrary: j rd fb1)
  case 0
  then have "ry1 t + int j = ry2 t" using zsendD(8) [OF z] by simp
  then have "painted fb fb1 (inside t) (seen pf src)"
    by (intro painted_cong [OF 0(2)]) (auto simp: inside_iff)
  with 0 \<open>ry1 t + int j = ry2 t\<close> show ?case by (auto simp: irange_def)
next
  case (Suc n)
  note s = zsendD [OF z] and pb = palette_bits_facts [OF pal(1,2)]
  let ?bits = "palette_bits (length pal)" and ?W = "nat (rx2 t - rx1 t)"
  let ?row = "\<lambda>j. pack_row ?bits (map (pal_index pal) (key_row pf src t j)) 0 0"
  have j: "j < nat (ry2 t - ry1 t)" using Suc.prems(1) by simp
  note kr = key_row_facts [OF z j]
  have sub: "set (key_row pf src t j) \<subseteq> set pal" using kr(2) pal(3) by blast
  have "\<forall>i\<in>set (map (pal_index pal) (key_row pf src t j)). fits ?bits i"
    using sub pal_index_facts(2) [OF _ pal(1,2)] by auto
  from length_pack_row [OF this pb(1,2)] have len: "length (?row j) = div_ceil (?W * ?bits) 8" using kr(1) by simp
  have "[j ..< j + Suc n] = j # [Suc j ..< Suc j + n]" by (simp add: upt_conv_Cons)
  then have "reads d rd (?row j @ (concat (map ?row [Suc j ..< Suc j + n]) @ rest))" using Suc.prems(3) by simp
  from rd_take_reads [OF this len] obtain r1 where
    r1: "rd_take (div_ceil (?W * ?bits) 8) rd = Inr (?row j, r1)" "reads d r1 (concat (map ?row [Suc j ..< Suc j + n]) @ rest)" by blast
  obtain fb2 where f: "unpack_row [0 ..< ?W] ?bits (?row j) (map (kc pf) pal) (rx1 t) (ry1 t + int j) fb1 = Inr fb2"
    "painted fb fb2 (\<lambda>x y. (inside t x y \<and> int y < ry1 t + int j) \<or> y = nat (ry1 t) + j \<and> (\<exists>c\<in>set [0 ..< ?W]. x = nat (rx1 t) + c)) (seen pf src)"
    using unpack_row_ok [OF z j pal(1,2) sub Suc.prems(2), of "[0 ..< ?W]"] by auto
  have b: "0 \<le> rx1 t" "0 \<le> ry1 t" using s(4) by (simp_all add: in_picture_def)
  have p2: "painted fb fb2 (\<lambda>x y. inside t x y \<and> int y < ry1 t + int (Suc j)) (seen pf src)"
    by (rule painted_cong [OF f(2)]) (use row_inside [OF b j] in auto)
  have "irange (ry1 t + int j) (ry2 t) = (ry1 t + int j) # irange (ry1 t + int (Suc j)) (ry2 t)"
    using j irange_Cons [of "ry1 t + int j" "ry2 t"] by (simp add: algebra_simps)
  with Suc.IH [OF _ p2 r1(2)] Suc.prems(1) r1(1) f(1) show ?case by auto
qed

section \<open>The whole tile\<close>

lemma sub_values_check:
  "list_all (\<lambda>n. (of_nat n :: u8) \<noteq> SUB_RAW \<and> (of_nat n :: u8) \<noteq> SUB_SOLID \<and> 2 \<le> (of_nat n :: u8)
      \<and> (of_nat n :: u8) \<le> SUB_PACKED_MAX \<and> (of_nat n :: u8) \<noteq> SUB_PACKED_REUSE \<and> unat (of_nat n :: u8) = n) [2 ..< 17]
   \<and> list_all (\<lambda>n. (let s = SUB_RLE_BASE + of_nat n :: u8 in s \<noteq> SUB_RAW \<and> s \<noteq> SUB_SOLID \<and> \<not> s \<le> SUB_PACKED_MAX
      \<and> s \<noteq> SUB_PACKED_REUSE \<and> s \<noteq> SUB_PLAIN_RLE \<and> s \<noteq> SUB_RLE_REUSE \<and> 130 \<le> s \<and> unat (s - SUB_RLE_BASE) = n)) [2 ..< 128]"
  by code_simp

lemma sub_packed:
  assumes "2 \<le> n" "n \<le> 16"
  shows "(of_nat n :: u8) \<noteq> SUB_RAW" "(of_nat n :: u8) \<noteq> SUB_SOLID" "2 \<le> (of_nat n :: u8)"
    "(of_nat n :: u8) \<le> SUB_PACKED_MAX" "(of_nat n :: u8) \<noteq> SUB_PACKED_REUSE" "unat (of_nat n :: u8) = n"
proof -
  have "n \<in> set [2 ..< 17]" unfolding set_upt atLeastLessThan_iff using assms by linarith
  with sub_values_check show "(of_nat n :: u8) \<noteq> SUB_RAW" "(of_nat n :: u8) \<noteq> SUB_SOLID" "2 \<le> (of_nat n :: u8)"
    "(of_nat n :: u8) \<le> SUB_PACKED_MAX" "(of_nat n :: u8) \<noteq> SUB_PACKED_REUSE" "unat (of_nat n :: u8) = n"
    unfolding list_all_iff by blast+
qed

lemma sub_rle:
  assumes "2 \<le> n" "n \<le> ZRLE_MAX_PALETTE"
  defines "s \<equiv> SUB_RLE_BASE + of_nat n :: u8"
  shows "s \<noteq> SUB_RAW" "s \<noteq> SUB_SOLID" "\<not> s \<le> SUB_PACKED_MAX" "s \<noteq> SUB_PACKED_REUSE" "s \<noteq> SUB_PLAIN_RLE"
    "s \<noteq> SUB_RLE_REUSE" "130 \<le> s" "unat (s - SUB_RLE_BASE) = n"
proof -
  have "n \<in> set [2 ..< 128]"
    unfolding set_upt atLeastLessThan_iff using assms(1,2) unfolding ZRLE_MAX_PALETTE_def by linarith
  with sub_values_check show "s \<noteq> SUB_RAW" "s \<noteq> SUB_SOLID" "\<not> s \<le> SUB_PACKED_MAX" "s \<noteq> SUB_PACKED_REUSE" "s \<noteq> SUB_PLAIN_RLE"
    "s \<noteq> SUB_RLE_REUSE" "130 \<le> s" "unat (s - SUB_RLE_BASE) = n"
    unfolding list_all_iff s_def Let_def by blast+
qed

lemma fold_min_in: "fold min xs a \<in> set (a # xs)" for a :: "'a :: linorder"
  by (induction xs arbitrary: a) (fastforce simp: min_def split: if_splits)+

lemma best_cost:
  assumes "costs = zrle_costs keys pal rs W H cp" "best = snd (fold min (tl costs) (hd costs))"
  shows "best = 1 \<Longrightarrow> 2 \<le> length pal \<and> length pal \<le> 16" "best = 2 \<Longrightarrow> 2 \<le> length pal"
proof -
  have "costs \<noteq> []" by (simp add: assms(1) zrle_costs_def Let_def)
  then have "fold min (tl costs) (hd costs) \<in> set costs" using fold_min_in [of "tl costs" "hd costs"] by simp
  then obtain c where "(c, best) \<in> set costs" unfolding assms(2) by (metis prod.collapse)
  then show "best = 1 \<Longrightarrow> 2 \<le> length pal \<and> length pal \<le> 16" "best = 2 \<Longrightarrow> 2 \<le> length pal"
    unfolding assms(1) by (auto simp: zrle_costs_def Let_def SUB_PACKED_MAX_def split: if_splits)
qed

lemma byte_then: "reads d rd ((b # x) @ rest) \<Longrightarrow> \<exists>r. rd_byte rd = Inr (b, r) \<and> reads d r (x @ rest)"
  using rd_byte_reads by simp

lemma zrle_tile_ok:
  assumes z: "zsend pf src t fb"
  shows "\<exists>out. zrle_tile (zkeys pf src t) (nat (rx2 t - rx1 t)) (nat (ry2 t - ry1 t)) (cpixel_of pf) = Some out
    \<and> (\<forall>d rd rest pal0. reads d rd (out @ rest) \<longrightarrow>
        tile_read pf src t fb d rest (zrle_read_tile (unpacker_new pf) (cpixel_of pf) t (rd, pal0, fb)))"
proof -
  note s = zsendD [OF z]
  let ?W = "nat (rx2 t - rx1 t)" and ?H = "nat (ry2 t - ry1 t)" and ?ks = "zkeys pf src t" and ?cp = "cpixel_of pf"
  let ?u = "unpacker_new pf" and ?N = "length (zkeys pf src t)"
  let ?tile = "\<lambda>out. \<forall>d rd rest pal0. reads d rd (out @ rest) \<longrightarrow>
      tile_read pf src t fb d rest (zrle_read_tile ?u ?cp t (rd, pal0, fb))"
  obtain pal rs where g: "gather ?ks = (pal, rs)" by (cases "gather ?ks")
  note gf = gather_facts [OF g]
  have N: "u32_of (rect_width t * rect_height t) = ?N" using s(15) by (simp only: s(9,10))
  note p0 = partly_0 [OF s(5), of t "seen pf src"]
  define costs where "costs = zrle_costs ?ks pal rs ?W ?H ?cp"
  define best where "best = snd (fold min (tl costs) (hd costs))"
  note bc = best_cost [OF costs_def best_def]
  have e: "zrle_tile ?ks ?W ?H ?cp =
     (if length pal = 1 then Some (SUB_SOLID # push_cpixel (hd pal) ?cp)
      else if best = 1 then zrle_packed ?ks pal ?W ?H ?cp
      else if best = 2 then zrle_palette_rle rs pal ?cp
      else if best = 3 then Some (zrle_plain_rle rs ?cp)
      else Some (zrle_raw ?ks ?cp))"
    by (simp add: zrle_tile_def g Let_def costs_def best_def)
  have done_i: "tile_read pf src t fb d rest (Inr (r, pl, fb2))"
    if "reads d r rest" "painted fb fb2 (partly t ?N) (seen pf src)" for d rest r pl fb2
    using that partly_all [OF z that(2)] by (auto simp: tile_read_def)
  consider "length pal = 1" | "length pal \<noteq> 1" "best = 1" | "length pal \<noteq> 1" "best \<noteq> 1" "best = 2"
    | "length pal \<noteq> 1" "best \<noteq> 1" "best \<noteq> 2" "best = 3" | "length pal \<noteq> 1" "best \<noteq> 1" "best \<noteq> 2" "best \<noteq> 3" by blast
  then show ?thesis
  proof cases
    case 1
    then have all: "\<forall>k\<in>set ?ks. k = hd pal" using gf(3) by (cases pal) auto
    have "?tile (SUB_SOLID # push_cpixel (hd pal) ?cp)"
    proof (intro allI impI)
      fix d rd rest pal0 assume "reads d rd ((SUB_SOLID # push_cpixel (hd pal) ?cp) @ rest)"
      from byte_then [OF this] obtain r where r: "rd_byte rd = Inr (SUB_SOLID, r)" "reads d r (push_cpixel (hd pal) ?cp @ rest)" by blast
      obtain r2 where r2: "read_cpixel ?cp ?u r = Inr (kc pf (hd pal), r2)" "reads d r2 rest" using read_cpixel_reads [OF s(1) r(2)] by blast
      obtain fb2 where f: "fill_or_panic t (kc pf (hd pal)) fb = Inr fb2" "painted fb fb2 (inside t) (\<lambda>_ _. kc pf (hd pal))"
        using fill_painted [OF s(5) length_kc] by blast
      have "painted fb fb2 (inside t) (seen pf src)"
      proof (rule painted_cong [OF f(2)])
        fix x y assume i: "inside t x y"
        have lt: "tile_index t x y < ?N" using tile_index_less [OF s(4) i] s(14) by simp
        then have "kc pf (?ks ! tile_index t x y) = map (kc pf) ?ks ! tile_index t x y" by simp
        also have "\<dots> = seen pf src x y"
          unfolding kc_key [OF z] using lt tile_px_nth [OF s(4) i] by (simp add: seen_def zkeys_def)
        finally show "kc pf (hd pal) = seen pf src x y" using all lt by (metis nth_mem)
      qed simp
      then show "tile_read pf src t fb d rest (zrle_read_tile ?u ?cp t (rd, pal0, fb))"
        using r(1) r2 f(1) by (auto simp: zrle_read_tile_def tile_read_def Let_def subs_defs)
    qed
    with 1 show ?thesis unfolding e by simp
  next
    case 2
    then have n: "2 \<le> length pal" "length pal \<le> 16" using bc by simp_all
    then have "pal \<noteq> []" by auto
    then have sub: "set ?ks \<subseteq> set pal" using gf(3) by simp
    let ?bits = "palette_bits (length pal)"
    let ?row = "\<lambda>j. pack_row ?bits (map (pal_index pal) (key_row pf src t j)) 0 0"
    have rows: "packed_row pal ?bits (take ?W (drop (j * ?W) ?ks)) = Some (?row j)" if "j \<in> set [0 ..< ?H]" for j
    proof -
      have "\<forall>k\<in>set (key_row pf src t j). index_of pal k = Some (pal_index pal k)"
        using key_row_facts(2) [OF z, of j] that sub pal_index_facts(1) [OF _ n] by auto
      from those_map_Some [OF this] show ?thesis by (simp add: packed_row_def key_row_def)
    qed
    then have out: "zrle_packed ?ks pal ?W ?H ?cp = Some (of_nat (length pal) # push_palette pal ?cp @ concat (map ?row [0 ..< ?H]))"
      using those_map_Some [of "[0 ..< ?H]" _ ?row] by (simp add: zrle_packed_def)
    have "?tile (of_nat (length pal) # push_palette pal ?cp @ concat (map ?row [0 ..< ?H]))"
    proof (intro allI impI)
      fix d rd rest pal0 assume "reads d rd ((of_nat (length pal) # push_palette pal ?cp @ concat (map ?row [0 ..< ?H])) @ rest)"
      from byte_then [OF this] obtain r where r: "rd_byte rd = Inr (of_nat (length pal), r)"
        "reads d r (push_palette pal ?cp @ (concat (map ?row [0 ..< ?H]) @ rest))" by auto
      obtain r2 where r2: "read_palette (length pal) ?cp ?u r = Inr (map (kc pf) pal, r2)" "reads d r2 (concat (map ?row [0 ..< ?H]) @ rest)"
        using read_palette_reads [OF s(1) r(2)] by blast
      have start: "painted fb fb (\<lambda>x y. inside t x y \<and> int y < ry1 t + int 0) (seen pf src)"
        by (rule painted_cong [OF painted_refl [OF s(5)]]) (auto simp: inside_iff)
      obtain r3 fb2 where f: "unpack_rows (irange (ry1 t + int 0) (ry2 t)) ?W ?bits (map (kc pf) pal) (rx1 t) r2 fb = Inr (r3, fb2)"
        "reads d r3 rest" "painted fb fb2 (inside t) (seen pf src)"
        using unpack_rows_ok [OF z n sub, where j = 0 and n = ?H and d = d and rd = r2 and rest = rest, OF _ start] r2(2) by auto
      have rng: "irange (ry1 t) (ry1 t + rect_height t) = irange (ry1 t + int 0) (ry2 t)" by (simp add: s(10))
      have uw: "u32_of (rect_width t) = ?W" by (simp only: s(9,11))
      have "zrle_read_packed ?u ?cp t (of_nat (length pal)) (r, pal0, fb) = Inr (r3, map (kc pf) pal, fb2)"
        using r2(1) f(1) by (simp add: zrle_read_packed_def rng uw sub_packed [OF n] del: of_nat_0)
      then show "tile_read pf src t fb d rest (zrle_read_tile ?u ?cp t (rd, pal0, fb))"
        using r(1) f(2,3) by (simp add: zrle_read_tile_def Let_def sub_packed [OF n] tile_read_def)
    qed
    with 2 out show ?thesis unfolding e by simp
  next
    case 3
    then have n: "2 \<le> length pal" using bc by simp
    note sb = sub_rle [OF n gf(4)]
    have "\<forall>r\<in>set rs. fst r \<in> set pal" using run_colours [OF gf(2)] gf(1,3) n by fastforce
    from read_indexed_ok [OF z gf(4) p0 le0 _ gf(2) this] gf(1) obtain bs where bs: "those (map (rle_run pal) rs) = Some bs"
      by fastforce
    have idx: "\<exists>rd' fb2. zrle_read_indexed 0 ?N (map (kc pf) pal) t r fb = Inr (rd', fb2) \<and> reads d rd' rest
        \<and> painted fb fb2 (partly t ?N) (seen pf src)" if "reads d r (concat bs @ rest)" for d r rest
      using read_indexed_ok [OF z gf(4) p0 le0 _ gf(2) \<open>\<forall>r\<in>set rs. fst r \<in> set pal\<close>, of d rest] gf(1) bs that by auto
    have "?tile ((SUB_RLE_BASE + of_nat (length pal)) # push_palette pal ?cp @ concat bs)"
    proof (intro allI impI)
      fix d rd rest pal0 assume "reads d rd (((SUB_RLE_BASE + of_nat (length pal)) # push_palette pal ?cp @ concat bs) @ rest)"
      from byte_then [OF this] obtain r where r: "rd_byte rd = Inr (SUB_RLE_BASE + of_nat (length pal), r)"
        "reads d r (push_palette pal ?cp @ (concat bs @ rest))" by auto
      obtain r2 where r2: "read_palette (length pal) ?cp ?u r = Inr (map (kc pf) pal, r2)" "reads d r2 (concat bs @ rest)"
        using read_palette_reads [OF s(1) r(2)] by blast
      obtain r3 fb2 where f: "zrle_read_indexed 0 ?N (map (kc pf) pal) t r2 fb = Inr (r3, fb2)" "reads d r3 rest"
        "painted fb fb2 (partly t ?N) (seen pf src)" using idx [OF r2(2)] by blast
      have "zrle_read_rle ?u ?cp t (SUB_RLE_BASE + of_nat (length pal)) (r, pal0, fb) = Inr (r3, map (kc pf) pal, fb2)"
        using r2(1) f(1) by (simp add: zrle_read_rle_def N sb sb(8) [simplified])
      then show "tile_read pf src t fb d rest (zrle_read_tile ?u ?cp t (rd, pal0, fb))"
        using r(1) done_i [OF f(2,3)] by (simp add: zrle_read_tile_def Let_def sb)
    qed
    moreover have "zrle_palette_rle rs pal ?cp = Some ((SUB_RLE_BASE + of_nat (length pal)) # push_palette pal ?cp @ concat bs)"
      by (simp add: zrle_palette_rle_def bs)
    ultimately show ?thesis unfolding e using 3 by simp
  next
    case 4
    have "?tile (zrle_plain_rle rs ?cp)"
    proof (intro allI impI)
      fix d rd rest pal0 assume "reads d rd (zrle_plain_rle rs ?cp @ rest)"
      from byte_then [OF this [unfolded zrle_plain_rle_def]] obtain r where r: "rd_byte rd = Inr (SUB_PLAIN_RLE, r)"
        "reads d r (concat (map (\<lambda>r. push_cpixel (fst r) ?cp @ push_length (snd r)) rs) @ rest)" by blast
      obtain r3 fb2 where f: "zrle_read_plain 0 ?N ?cp ?u t r fb = Inr (r3, fb2)" "reads d r3 rest"
        "painted fb fb2 (partly t ?N) (seen pf src)"
        using read_plain_ok [OF z p0 le0 _ gf(2) r(2)] gf(1) by auto
      then show "tile_read pf src t fb d rest (zrle_read_tile ?u ?cp t (rd, pal0, fb))"
        using r(1) done_i [OF f(2,3)] by (simp add: zrle_read_tile_def Let_def N subs_defs)
    qed
    with 4 show ?thesis unfolding e by simp
  next
    case 5
    have "?tile (zrle_raw ?ks ?cp)"
    proof (intro allI impI)
      fix d rd rest pal0 assume "reads d rd (zrle_raw ?ks ?cp @ rest)"
      from byte_then [OF this [unfolded zrle_raw_def]] obtain r where r: "rd_byte rd = Inr (SUB_RAW, r)"
        "reads d r (push_palette ?ks ?cp @ rest)" by blast
      obtain r3 fb2 where f: "zrle_read_raw 0 ?N ?cp ?u t r fb = Inr (r3, fb2)" "reads d r3 rest"
        "painted fb fb2 (partly t ?N) (seen pf src)"
        using read_raw_ok [OF z p0 _ _ r(2)] by auto
      then show "tile_read pf src t fb d rest (zrle_read_tile ?u ?cp t (rd, pal0, fb))"
        using r(1) done_i [OF f(2,3)] by (simp add: zrle_read_tile_def Let_def N)
    qed
    with 5 show ?thesis unfolding e by simp
  qed
qed

section \<open>The whole rectangle\<close>

lemma zrle_keys_sent:
  assumes "zsend pf src t fb"
  shows "zrle_keys (cpixel_of pf) (tile_bytes pf src t) = zkeys pf src t"
  using tile_keys_sent(1) [OF zsendD(1,13) [OF assms]] cpixel_small [OF zsendD(1) [OF assms]]
  by (simp add: zrle_keys_def tile_bytes_def zkeys_def zkey_def)

lemma zrle_tiles_ok:
  assumes "pf_validate pf = Inr ()" "channels_apart pf" "fb_ok src"
  shows "\<forall>t\<in>set ts. in_picture src t \<and> tile_of 64 t t \<Longrightarrow>
    \<exists>out. zrle_tiles src pf (cpixel_of pf) ts = Some out
    \<and> (\<forall>d rd rest pal0 fb. fb_ok fb \<and> (\<forall>t\<in>set ts. in_picture fb t) \<and> reads d rd (out @ rest) \<longrightarrow>
      (\<exists>rd' pal fb'. zrle_read_tiles (unpacker_new pf) (cpixel_of pf) ts (rd, pal0, fb) = Inr (rd', pal, fb')
        \<and> reads d rd' rest \<and> painted fb fb' (\<lambda>x y. \<exists>t\<in>set ts. inside t x y) (seen pf src)))"
proof (induction ts)
  case Nil
  show ?case by (auto intro: painted_cong [OF painted_refl])
next
  case (Cons t ts)
  have t: "in_picture src t" "tile_of 64 t t" using Cons.prems by simp_all
  have self: "zsend pf src t src" using assms t by (simp add: zsend_def)
  have read: "read_tile src t pf = Some (tile_bytes pf src t)"
    using read_tile_ok [OF assms(3) t(1)] by (simp add: tile_bytes_def)
  have full: "cp_full (cpixel_of pf) \<noteq> 0" using cpixel_small [OF assms(1)] bpp_small [OF assms(1)] by simp
  have w: "u32_of (rect_width t) = nat (rx2 t - rx1 t)" "u32_of (rect_height t) = nat (ry2 t - ry1 t)"
    using zsendD(9-12) [OF self] by (simp_all only:)
  obtain out1 where o1: "zrle_tile (zkeys pf src t) (nat (rx2 t - rx1 t)) (nat (ry2 t - ry1 t)) (cpixel_of pf) = Some out1"
    using zrle_tile_ok [OF self] by blast
  from Cons obtain out2 where o2: "zrle_tiles src pf (cpixel_of pf) ts = Some out2"
    and ih: "\<And>d rd rest pal0 fb. fb_ok fb \<Longrightarrow> \<forall>t\<in>set ts. in_picture fb t \<Longrightarrow> reads d rd (out2 @ rest) \<Longrightarrow>
      \<exists>rd' pal fb'. zrle_read_tiles (unpacker_new pf) (cpixel_of pf) ts (rd, pal0, fb) = Inr (rd', pal, fb')
        \<and> reads d rd' rest \<and> painted fb fb' (\<lambda>x y. \<exists>t\<in>set ts. inside t x y) (seen pf src)" by auto
  have e: "zrle_tiles src pf (cpixel_of pf) (t # ts) = Some (out1 @ out2)"
    using o1 o2 full by (simp add: read zrle_keys_sent [OF self] w)
  have "\<exists>rd' pal fb'. zrle_read_tiles (unpacker_new pf) (cpixel_of pf) (t # ts) (rd, pal0, fb) = Inr (rd', pal, fb')
        \<and> reads d rd' rest \<and> painted fb fb' (\<lambda>x y. \<exists>t\<in>set (t # ts). inside t x y) (seen pf src)"
    if fb: "fb_ok fb" "\<forall>t\<in>set (t # ts). in_picture fb t" "reads d rd ((out1 @ out2) @ rest)" for d rd rest pal0 fb
  proof -
    have z: "zsend pf src t fb" using assms t fb by (simp add: zsend_def)
    have "reads d rd (out1 @ (out2 @ rest))" using fb(3) by simp
    with zrle_tile_ok [OF z] o1 obtain rd1 pal1 fb1 where
      r1: "zrle_read_tile (unpacker_new pf) (cpixel_of pf) t (rd, pal0, fb) = Inr (rd1, pal1, fb1)" "reads d rd1 (out2 @ rest)"
        "painted fb fb1 (inside t) (seen pf src)"
      unfolding tile_read_def by fastforce
    note k = paintedD [OF r1(3) fb(1)]
    have "\<forall>t\<in>set ts. in_picture fb1 t" using fb(2) k by (simp add: in_picture_def)
    from ih [OF k(1) this r1(2)] obtain rd' pal fb' where
      r2: "zrle_read_tiles (unpacker_new pf) (cpixel_of pf) ts (rd1, pal1, fb1) = Inr (rd', pal, fb')" "reads d rd' rest"
        "painted fb1 fb' (\<lambda>x y. \<exists>t\<in>set ts. inside t x y) (seen pf src)" by blast
    have "painted fb fb' (\<lambda>x y. \<exists>t\<in>set (t # ts). inside t x y) (seen pf src)"
      by (rule painted_cong [OF painted_then [OF r1(3) r2(3)]]) simp_all
    with r1(1) r2(1,2) show ?thesis by simp
  qed
  with e show ?case by blast
qed

text \<open>C10. A rectangle encoded as ZRLE and decoded again, through a compressor and the decompressor at
  the other end that agree so far: the encoder returns, and when its output fits the length field
  the decoder takes exactly those bytes, leaves the pixels of the rectangle as the client's format
  holds them and the others alone, and the two streams agree again for the next rectangle.\<close>

theorem zrle_round_trip:
  assumes "pf_validate pf = Inr ()" "channels_apart pf" "fb_ok src" "fb_ok fb" "in_picture src r" "in_picture fb r"
    and "zlib_laws cv dv rel mu flushed" "rel (zr_stream e) (zd_stream z) [] []"
  shows "\<exists>out e'. zrle_encode cv e src r pf = Some (out, e') \<and> (length out < 2 ^ 32 \<longrightarrow>
    (\<exists>fb' z'. zrle_decode dv z (out @ rest) r pf fb = Some (Inr (length out, fb', z'))
      \<and> rel (zr_stream e') (zd_stream z') [] []
      \<and> fb_width fb' = fb_width fb \<and> fb_height fb' = fb_height fb
      \<and> (\<forall>x y. x < fb_width fb \<longrightarrow> y < fb_height fb \<longrightarrow>
          fb_px fb' x y = (if (int x, int y) \<in> rect_pixels r then through pf (fb_px src x y) else fb_px fb x y))))"
proof -
  have T: "(0::int) < 64" by simp
  let ?ts = "tiles 64 r" and ?u = "unpacker_new pf" and ?cp = "cpixel_of pf"
  have ts: "\<forall>t\<in>set ?ts. in_picture src t \<and> tile_of 64 t t" "\<forall>t\<in>set ?ts. in_picture fb t"
    using tiles_spec(1) [OF T assms(3,5)] tiles_spec(1) [OF T assms(4,6)] by (auto simp: tile_of_def)
  obtain plain where p: "zrle_tiles src pf ?cp ?ts = Some plain"
    and dec: "\<And>d rd rest pal0. reads d rd (plain @ rest) \<Longrightarrow>
      \<exists>rd' pal fb'. zrle_read_tiles ?u ?cp ?ts (rd, pal0, fb) = Inr (rd', pal, fb')
        \<and> reads d rd' rest \<and> painted fb fb' (\<lambda>x y. \<exists>t\<in>set ?ts. inside t x y) (seen pf src)"
    using zrle_tiles_ok [OF assms(1-3) ts(1)] assms(4) ts(2) by blast
  obtain packed s' z' where st: "deflate cv (zr_stream e) plain = Some (packed, s')" "inflate dv (zd_stream z) packed = Some (Inr (plain, z'))"
    "rel s' z' [] []" using stream_round_trip [OF assms(7,8)] by blast
  let ?out = "be32 (of_nat (length packed)) @ packed"
  have enc: "zrle_encode cv e src r pf = Some (?out, e\<lparr>zr_stream := s'\<rparr>)"
    using p st(1) by (simp add: zrle_encode_def ZRLE_TILE_def)
  obtain rd' pal fb' where t: "zrle_read_tiles ?u ?cp ?ts (reader_new plain, zd_palette z, fb) = Inr (rd', pal, fb')"
    "painted fb fb' (\<lambda>x y. \<exists>t\<in>set ?ts. inside t x y) (seen pf src)"
    using dec [of plain "reader_new plain" "[]" "zd_palette z"] reads_new [of plain] by auto
  have all: "(\<exists>t\<in>set ?ts. inside t x y) \<longleftrightarrow> (int x, int y) \<in> rect_pixels r" for x y
    unfolding inside_def tiles_spec(2) [OF T assms(3,5), symmetric] by blast
  have "zrle_decode dv z (?out @ rest) r pf fb = Some (Inr (length ?out, fb', \<lparr>zd_stream = z', zd_palette = pal\<rparr>))"
    if l: "length ?out < 2 ^ 32"
  proof -
    have "unat (of_nat (length packed) :: u32) = length packed" using l by (simp add: unsigned_of_nat take_bit_nat_eq_self)
    then show ?thesis using st(2) t(1) by (simp add: zrle_decode_def Let_def)
  qed
  moreover have "fb_width fb' = fb_width fb" "fb_height fb' = fb_height fb"
    "\<And>x y. x < fb_width fb \<Longrightarrow> y < fb_height fb \<Longrightarrow>
      fb_px fb' x y = (if (int x, int y) \<in> rect_pixels r then through pf (fb_px src x y) else fb_px fb x y)"
    using paintedD [OF t(2) assms(4)] unfolding all seen_def by simp_all
  ultimately show ?thesis using enc st(3) by auto
qed

theorem zrle_round_trip_witness:
  "\<exists>out e'. zrle_encode store_cv (zrle_new (\<lambda>_. ()) 1) (fb_new 3 2) (mk_rect 0 0 3 2) bgrx32 = Some (out, e')
    \<and> (length out < 2 ^ 32 \<longrightarrow> (\<exists>fb' z'. zrle_decode store_dv (zrle_reader_new ()) out (mk_rect 0 0 3 2) bgrx32 (fb_new 4 4)
        = Some (Inr (length out, fb', z'))))"
proof -
  have pf: "pf_validate bgrx32 = Inr ()" "channels_apart bgrx32" by code_simp+
  have r: "in_picture (fb_new 3 2) (mk_rect 0 0 3 2)" "in_picture (fb_new 4 4) (mk_rect 0 0 3 2)"
    by (simp_all add: in_picture_def fb_new_def)
  show ?thesis
    using zrle_round_trip [OF pf fb_new_ok fb_new_ok r store_laws, of "zrle_new (\<lambda>_. ()) 1" "zrle_reader_new ()" "[]"]
    by fastforce
qed

end
