(* ===== verification/Tight.thy ===== *)
theory Tight
  imports Zrle
begin

text \<open>
  \<open>tight.rs\<close> and \<open>jpeg.rs\<close>: a rectangle cut into pieces, each sent as one colour, as a palette of
  two (a bit a pixel) or of up to 256 (a byte a pixel), as a JPEG, or as its pixels. The four
  deflate streams, the level, the reset bits still to be sent and the JPEG quality are the
  encoder's state; the scratch vectors (\<open>pixels\<close>, \<open>keys\<close>, \<open>palette\<close>, \<open>body\<close>, \<open>rgb\<close>) are values passed
  along. The compressor is the parameter \<open>cv\<close> of \<open>Streams\<close>; \<open>je\<close> stands for
  \<open>jpeg_encoder::Encoder::encode\<close> at a quality and a sampling factor. \<open>None\<close> is a panic or a
  deflate loop that does not end.
\<close>

definition TIGHT_MAX_WIDTH :: int where "TIGHT_MAX_WIDTH = 2048"
definition TIGHT_MAX_PIXELS :: int where "TIGHT_MAX_PIXELS = 65536"
definition MIN_TO_COMPRESS :: nat where "MIN_TO_COMPRESS = 12"
definition MIN_FOR_JPEG :: int where "MIN_FOR_JPEG = 4096"
definition TIGHT_MAX_PALETTE :: nat where "TIGHT_MAX_PALETTE = 256"

definition CTL_FILL :: u8 where "CTL_FILL = 0x80"
definition CTL_JPEG :: u8 where "CTL_JPEG = 0x90"
definition CTL_EXPLICIT_FILTER :: u8 where "CTL_EXPLICIT_FILTER = 0x40"

definition FILTER_COPY :: u8 where "FILTER_COPY = 0"
definition FILTER_PALETTE :: u8 where "FILTER_PALETTE = 1"

definition STREAM_COPY :: u8 where "STREAM_COPY = 0"
definition STREAM_MONO :: u8 where "STREAM_MONO = 1"
definition STREAM_PALETTE :: u8 where "STREAM_PALETTE = 2"
definition STREAM_COUNT :: nat where "STREAM_COUNT = 4"

lemmas tight_consts = TIGHT_MAX_WIDTH_def TIGHT_MAX_PIXELS_def MIN_TO_COMPRESS_def MIN_FOR_JPEG_def
  TIGHT_MAX_PALETTE_def CTL_FILL_def CTL_JPEG_def CTL_EXPLICIT_FILTER_def FILTER_COPY_def FILTER_PALETTE_def
  STREAM_COPY_def STREAM_MONO_def STREAM_PALETTE_def STREAM_COUNT_def

section \<open>The pixel of a piece\<close>

record tpixel =
  tp_three :: bool
  tp_bytes :: nat

definition tpixel_of :: "pixel_format \<Rightarrow> tpixel" where
  "tpixel_of pf =
    (let full = bytes_per_pixel pf;
         whole = (red_max pf = 255 \<and> green_max pf = 255 \<and> blue_max pf = 255) in
     if bits_per_pixel pf = 32 \<and> depth pf = 24 \<and> whole
     then \<lparr>tp_three = True, tp_bytes = 3\<rparr> else \<lparr>tp_three = False, tp_bytes = full\<rparr>)"

definition tpixel_push :: "tpixel \<Rightarrow> bytes \<Rightarrow> pixel_format \<Rightarrow> bytes" where
  "tpixel_push tp bgrx pf = (if tp_three tp then [bgrx ! 2, bgrx ! 1, bgrx ! 0] else convert_row bgrx pf)"

definition push_key :: "u32 \<Rightarrow> nat \<Rightarrow> bytes" where
  "push_key key n = take (min n 4) (le32 key)"

definition push_compact :: "nat \<Rightarrow> bytes" where
  "push_compact n =
    (of_nat (n AND 0x7f) OR (if n > 0x7f then 0x80 else 0)) #
    (if n > 0x7f then
       let n1 = drop_bit 7 n in
       (of_nat (n1 AND 0x7f) OR (if n1 > 0x7f then 0x80 else 0)) #
       (if n1 > 0x7f then [of_nat (drop_bit 7 n1 AND 0xff)] else [])
     else [])"

section \<open>JPEG\<close>

datatype sampling_factor = F_2_2 | F_2_1 | F_1_1

type_synonym jpeg_enc = "u8 \<Rightarrow> sampling_factor \<Rightarrow> bytes \<Rightarrow> u16 \<Rightarrow> u16 \<Rightarrow> string + bytes"

definition QUALITY :: "u8 list" where
  "QUALITY = [15, 29, 41, 42, 62, 77, 79, 86, 92, 100]"

definition jpeg_sampling :: "u8 \<Rightarrow> sampling_factor" where
  "jpeg_sampling level = (if level \<le> 3 then F_2_2 else if level \<le> 6 then F_2_1 else F_1_1)"

definition jpeg_quality :: "u8 \<Rightarrow> u8" where
  "jpeg_quality level = QUALITY ! unat (min level 9)"

definition jpeg_encode :: "jpeg_enc \<Rightarrow> bytes \<Rightarrow> u16 \<Rightarrow> u16 \<Rightarrow> u8 \<Rightarrow> string + bytes" where
  "jpeg_encode je rgb width height level0 =
    (let level = min level0 9 in
     case je (jpeg_quality level) (jpeg_sampling level) rgb width height of
       Inl e \<Rightarrow> Inl (''jpeg: '' @ e)
     | Inr out \<Rightarrow> Inr out)"

section \<open>What was spent\<close>

record spent =
  sp_fill :: nat
  sp_palette :: nat
  sp_jpeg :: nat
  sp_copy :: nat

definition spent_zero :: spent where
  "spent_zero = \<lparr>sp_fill = 0, sp_palette = 0, sp_jpeg = 0, sp_copy = 0\<rparr>"

definition spent_and :: "spent \<Rightarrow> spent \<Rightarrow> spent" where
  "spent_and a b = \<lparr>sp_fill = sp_fill a + sp_fill b, sp_palette = sp_palette a + sp_palette b,
    sp_jpeg = sp_jpeg a + sp_jpeg b, sp_copy = sp_copy a + sp_copy b\<rparr>"

definition spent_total :: "spent \<Rightarrow> nat" where
  "spent_total s = sp_fill s + sp_palette s + sp_jpeg s + sp_copy s"

section \<open>Pieces\<close>

text \<open>\<open>(MAX_PIXELS / rect.width().clamp(1, MAX_WIDTH)).max(1)\<close>.\<close>

definition piece_height :: "rect \<Rightarrow> int" where
  "piece_height r = max (TIGHT_MAX_PIXELS div (min (max (rect_width r) 1) TIGHT_MAX_WIDTH)) 1"

lemma piece_height_pos: "0 < piece_height r"
  by (simp add: piece_height_def)

function pieces_down :: "rect \<Rightarrow> int \<Rightarrow> int \<Rightarrow> int \<Rightarrow> rect list" where
  "pieces_down r x width y =
    (if y < ry2 r then
       let height = min (piece_height r) (ry2 r - y) in
       rect_new x y width height # pieces_down r x width (y + height)
     else [])"
  by auto
termination
  by (relation "measure (\<lambda>(r, x, width, y). nat (ry2 r - y))") (use piece_height_pos in \<open>auto simp: min_def\<close>)

function pieces_across :: "rect \<Rightarrow> int \<Rightarrow> rect list" where
  "pieces_across r x =
    (if x < rx2 r then
       let width = min TIGHT_MAX_WIDTH (rx2 r - x) in
       pieces_down r x width (ry1 r) @ pieces_across r (x + width)
     else [])"
  by auto
termination
  by (relation "measure (\<lambda>(r, x). nat (rx2 r - x))") (auto simp: min_def TIGHT_MAX_WIDTH_def)

declare pieces_down.simps [simp del] pieces_across.simps [simp del]

definition piece_rects :: "rect \<Rightarrow> rect list" where
  "piece_rects r = pieces_across r (rx1 r)"

definition tight_pieces :: "rect \<Rightarrow> nat" where
  "tight_pieces r =
    (let across = div_ceil (u32_of (max (rect_width r) 1)) (nat TIGHT_MAX_WIDTH);
         down = div_ceil (u32_of (max (rect_height r) 1)) (u32_of (piece_height r)) in
     across * down)"

section \<open>The encoder\<close>

record 'd tight =
  tt_streams :: "'d list"
  tt_level :: u32
  tt_pending_reset :: u8
  tt_quality :: "u8 option"

definition tight_new :: "(u32 \<Rightarrow> 'd) \<Rightarrow> u32 \<Rightarrow> u8 option \<Rightarrow> 'd tight" where
  "tight_new mk level quality =
    \<lparr>tt_streams = replicate STREAM_COUNT (mk level), tt_level = level, tt_pending_reset = 0, tt_quality = quality\<rparr>"

definition tight_reset :: "(u32 \<Rightarrow> 'd) \<Rightarrow> u32 \<Rightarrow> u8 option \<Rightarrow> 'd tight \<Rightarrow> 'd tight" where
  "tight_reset mk level quality t =
    t\<lparr>tt_level := level, tt_quality := quality, tt_streams := map (\<lambda>_. mk level) (tt_streams t), tt_pending_reset := 0x0f\<rparr>"

definition take_reset :: "'d tight \<Rightarrow> u8 \<times> 'd tight" where
  "take_reset t = (tt_pending_reset t, t\<lparr>tt_pending_reset := 0\<rparr>)"

text \<open>The points of a piece in reading order, and the two loops that read them.\<close>

definition points :: "rect \<Rightarrow> (int \<times> int) list" where
  "points r = concat (map (\<lambda>y. map (\<lambda>x. (x, y)) (irange (rx1 r) (rx2 r))) (irange (ry1 r) (ry2 r)))"

fun read_points :: "(bytes \<Rightarrow> bytes) \<Rightarrow> framebuffer \<Rightarrow> (int \<times> int) list \<Rightarrow> bytes option" where
  "read_points push fb [] = Some []"
| "read_points push fb ((x, y) # ps) =
    (case fb_pixel fb (u32_of x) (u32_of y) of
       None \<Rightarrow> None
     | Some px \<Rightarrow> map_option ((@) (push px)) (read_points push fb ps))"

definition tight_keys :: "tpixel \<Rightarrow> bytes \<Rightarrow> u32 list option" where
  "tight_keys tp pixels =
    (if tp_bytes tp = 0 then None
     else Some (map (\<lambda>px. word_of_bytes (take (min (tp_bytes tp) 4) px)) (chunks (tp_bytes tp) pixels)))"

definition tight_read :: "framebuffer \<Rightarrow> rect \<Rightarrow> pixel_format \<Rightarrow> tpixel \<Rightarrow> (bytes \<times> u32 list) option" where
  "tight_read fb piece pf tp =
    (case read_points (\<lambda>px. tpixel_push tp px pf) fb (points piece) of
       None \<Rightarrow> None
     | Some pixels \<Rightarrow> map_option (Pair pixels) (tight_keys tp pixels))"

text \<open>The palette, empty when there are more colours than it holds: \<open>count_colours\<close> returns its
  length.\<close>

fun tight_palette :: "u32 list \<Rightarrow> u32 list \<Rightarrow> u32 list" where
  "tight_palette [] palette = palette"
| "tight_palette (key # keys) palette =
    (if key \<notin> set palette then
       if length palette = TIGHT_MAX_PALETTE then [] else tight_palette keys (palette @ [key])
     else tight_palette keys palette)"

definition tight_compressed :: "'d compress_vec \<Rightarrow> u8 \<Rightarrow> bytes \<Rightarrow> 'd tight \<Rightarrow> (bytes \<times> 'd tight) option" where
  "tight_compressed cv sid body t =
    (if length body < MIN_TO_COMPRESS then Some (body, t)
     else if length (tt_streams t) \<le> unat sid then None
     else
       (case deflate cv (tt_streams t ! unat sid) body of
          None \<Rightarrow> None
        | Some (packed, s') \<Rightarrow>
            Some (push_compact (length packed) @ packed, t\<lparr>tt_streams := (tt_streams t)[unat sid := s']\<rparr>)))"

definition tight_basic ::
  "'d compress_vec \<Rightarrow> u8 \<Rightarrow> u8 option \<Rightarrow> tpixel \<Rightarrow> nat \<Rightarrow> u32 list \<Rightarrow> bytes \<Rightarrow> 'd tight \<Rightarrow> (bytes \<times> 'd tight) option" where
  "tight_basic cv sid filter_id tp n palette body t0 =
    (case take_reset t0 of (reset, t) \<Rightarrow>
     let head = push_bit 4 sid OR reset OR (if filter_id \<noteq> None then CTL_EXPLICIT_FILTER else 0) in
     if filter_id = Some FILTER_PALETTE \<and> length palette < n then None
     else
       let filt = (case filter_id of
             None \<Rightarrow> []
           | Some f \<Rightarrow> f # (if f = FILTER_PALETTE
               then of_nat (n - 1) # concat (map (\<lambda>k. push_key k (tp_bytes tp)) (take n palette)) else [])) in
       map_option (\<lambda>(data, t'). (head # filt @ data, t')) (tight_compressed cv sid body t))"

text \<open>One row of two colours: the bits pushed in from the right. The rows are \<open>chunks\<close> of the keys,
  the last one as short as it comes; a width of zero panics.\<close>

definition mono_row :: "u32 list \<Rightarrow> u32 list \<Rightarrow> bytes" where
  "mono_row palette row = pack_row 1 (map (\<lambda>key. if key = palette ! 1 then 1 else 0) row) 0 0"

function rows_of :: "nat \<Rightarrow> 'a list \<Rightarrow> 'a list list" where
  "rows_of w xs = (if w = 0 \<or> xs = [] then [] else take w xs # rows_of w (drop w xs))"
  by auto
termination by (relation "measure (\<lambda>(w, xs). length xs)") auto

declare rows_of.simps [simp del]

definition tight_mono ::
  "'d compress_vec \<Rightarrow> tpixel \<Rightarrow> rect \<Rightarrow> u32 list \<Rightarrow> u32 list \<Rightarrow> 'd tight \<Rightarrow> (bytes \<times> 'd tight) option" where
  "tight_mono cv tp piece keys palette t =
    (let width = u32_of (rect_width piece) in
     if width = 0 then None
     else tight_basic cv STREAM_MONO (Some FILTER_PALETTE) tp 2 palette
            (concat (map (mono_row palette) (rows_of width keys))) t)"

definition tight_indexed ::
  "'d compress_vec \<Rightarrow> tpixel \<Rightarrow> u32 list \<Rightarrow> u32 list \<Rightarrow> 'd tight \<Rightarrow> (bytes \<times> 'd tight) option" where
  "tight_indexed cv tp keys palette t =
    (case those (map (index_of palette) keys) of
       None \<Rightarrow> None
     | Some body \<Rightarrow>
         tight_basic cv STREAM_PALETTE (Some FILTER_PALETTE) tp (length palette) palette body t)"

definition tight_copy :: "'d compress_vec \<Rightarrow> bytes \<Rightarrow> 'd tight \<Rightarrow> (bytes \<times> 'd tight) option" where
  "tight_copy cv pixels t0 =
    (case take_reset t0 of (reset, t) \<Rightarrow>
     let head = CTL_EXPLICIT_FILTER OR push_bit 4 STREAM_COPY OR reset in
     map_option (\<lambda>(data, t'). (head # FILTER_COPY # data, t')) (tight_compressed cv STREAM_COPY pixels t))"

definition tight_jpeg ::
  "'d compress_vec \<Rightarrow> jpeg_enc \<Rightarrow> framebuffer \<Rightarrow> rect \<Rightarrow> u8 \<Rightarrow> bytes \<Rightarrow> 'd tight \<Rightarrow> (bytes \<times> 'd tight) option" where
  "tight_jpeg cv je fb piece level pixels t =
    (case read_points (\<lambda>px. [px ! 2, px ! 1, px ! 0]) fb (points piece) of
       None \<Rightarrow> None
     | Some rgb \<Rightarrow>
       (case jpeg_encode je rgb (word_of_int (rect_width piece)) (word_of_int (rect_height piece)) level of
          Inr data \<Rightarrow>
            (case take_reset t of (reset, t') \<Rightarrow> Some ((CTL_JPEG OR reset) # push_compact (length data) @ data, t'))
        | Inl e \<Rightarrow> tight_copy cv pixels t))"

definition tight_piece ::
  "'d compress_vec \<Rightarrow> jpeg_enc \<Rightarrow> framebuffer \<Rightarrow> rect \<Rightarrow> pixel_format \<Rightarrow> 'd tight \<Rightarrow> (bytes \<times> spent \<times> 'd tight) option" where
  "tight_piece cv je fb piece pf t =
    (let tp = tpixel_of pf in
     case tight_read fb piece pf tp of
       None \<Rightarrow> None
     | Some (pixels, keys) \<Rightarrow>
       let palette = tight_palette keys []; n = length palette in
       if n = 1 then
         (case take_reset t of (reset, t') \<Rightarrow>
          let out = (CTL_FILL OR reset) # push_key (palette ! 0) (tp_bytes tp) in
          Some (out, spent_zero\<lparr>sp_fill := length out\<rparr>, t'))
       else if n = 2 then
         map_option (\<lambda>(out, t'). (out, spent_zero\<lparr>sp_palette := length out\<rparr>, t')) (tight_mono cv tp piece keys palette t)
       else if n > 0 \<and> n \<le> TIGHT_MAX_PALETTE then
         map_option (\<lambda>(out, t'). (out, spent_zero\<lparr>sp_palette := length out\<rparr>, t')) (tight_indexed cv tp keys palette t)
       else
         (case (if rect_area piece \<ge> MIN_FOR_JPEG then tt_quality t else None) of
            Some level \<Rightarrow>
              map_option (\<lambda>(out, t'). (out, spent_zero\<lparr>sp_jpeg := length out\<rparr>, t')) (tight_jpeg cv je fb piece level pixels t)
          | None \<Rightarrow>
              map_option (\<lambda>(out, t'). (out, spent_zero\<lparr>sp_copy := length out\<rparr>, t')) (tight_copy cv pixels t)))"

fun tight_encode_pieces ::
  "'d compress_vec \<Rightarrow> jpeg_enc \<Rightarrow> framebuffer \<Rightarrow> rect list \<Rightarrow> pixel_format \<Rightarrow> spent \<Rightarrow> 'd tight
    \<Rightarrow> (bytes \<times> spent \<times> 'd tight) option" where
  "tight_encode_pieces cv je fb [] pf spent t = Some ([], spent, t)"
| "tight_encode_pieces cv je fb (p # ps) pf spent t =
    (case tight_piece cv je fb p pf t of
       None \<Rightarrow> None
     | Some (out, s, t') \<Rightarrow>
       (case tight_encode_pieces cv je fb ps pf (spent_and spent s) t' of
          None \<Rightarrow> None
        | Some (out2, s2, t2) \<Rightarrow> Some (out @ out2, s2, t2)))"

text \<open>\<open>Tight::encode\<close> visits the pieces in the order \<open>piece_rects\<close> lists them: the two loops are the
  same.\<close>

definition tight_encode ::
  "'d compress_vec \<Rightarrow> jpeg_enc \<Rightarrow> 'd tight \<Rightarrow> framebuffer \<Rightarrow> rect \<Rightarrow> pixel_format \<Rightarrow> (bytes \<times> spent \<times> 'd tight) option" where
  "tight_encode cv je t fb rect pf = tight_encode_pieces cv je fb (piece_rects rect) pf spent_zero t"

end
