(* ===== verification/Tight_Reader.thy ===== *)
theory Tight_Reader
  imports Tight
begin

text \<open>
  The Tight half of \<open>decode.rs\<close>: one piece per call, with the four inflate streams the session
  keeps. \<open>dv\<close> is the decompressor of \<open>Streams\<close>, \<open>fresh\<close> is \<open>Decompress::new(true)\<close>, and \<open>jd\<close> stands for
  \<open>zune_jpeg::JpegDecoder\<close> on some data: an error of its headers, or the dimensions it has and what
  decoding the pixels gives. An error ends the connection, so the state after one is not kept.
\<close>

definition read_tpixel :: "tpixel \<Rightarrow> unpacker \<Rightarrow> reader \<Rightarrow> decode_error + (bytes \<times> reader)" where
  "read_tpixel tp u r =
    (case rd_take (tp_bytes tp) r of
       Inl e \<Rightarrow> Inl e
     | Inr (b, r') \<Rightarrow> Inr (if tp_three tp then [b ! 2, b ! 1, b ! 0, 0] else unpack u b, r'))"

text \<open>At most three groups of seven bits, low group first.\<close>

fun read_groups :: "nat list \<Rightarrow> nat \<Rightarrow> reader \<Rightarrow> decode_error + (nat \<times> reader)" where
  "read_groups [] n r = Inr (n, r)"
| "read_groups (g # gs) n r =
    (case rd_byte r of
       Inl e \<Rightarrow> Inl e
     | Inr (b, r') \<Rightarrow>
         let n' = n OR push_bit (g * 7) (unat (b AND 0x7f)) in
         if b AND 0x80 = 0 then Inr (n', r') else read_groups gs n' r')"

definition read_compact :: "reader \<Rightarrow> decode_error + (nat \<times> reader)" where
  "read_compact r = read_groups [0, 1, 2] 0 r"

type_synonym jpeg_dec = "bytes \<Rightarrow> string + ((nat \<times> nat) option \<times> (string + bytes))"

definition decode_jpeg :: "jpeg_dec \<Rightarrow> bytes \<Rightarrow> decode_error + (u16 \<times> u16 \<times> bytes)" where
  "decode_jpeg jd data =
    (case jd data of
       Inl e \<Rightarrow> Inl (Malformed (''jpeg headers: '' @ e))
     | Inr (None, _) \<Rightarrow> Inl (Malformed ''a jpeg with no dimensions'')
     | Inr (Some (w, h), res) \<Rightarrow>
         (case res of Inl e \<Rightarrow> Inl (Malformed (''jpeg: '' @ e)) | Inr px \<Rightarrow> Inr (of_nat w, of_nat h, px)))"

record 'i tight_reader =
  td_streams :: "'i list"

definition tight_reader_new :: "'i \<Rightarrow> 'i tight_reader" where
  "tight_reader_new fresh = \<lparr>td_streams = replicate 4 fresh\<rparr>"

definition tight_reader_reset :: "'i \<Rightarrow> 'i tight_reader \<Rightarrow> 'i tight_reader" where
  "tight_reader_reset fresh z = z\<lparr>td_streams := map (\<lambda>_. fresh) (td_streams z)\<rparr>"

section \<open>The length of a piece\<close>

definition payload_basic :: "nat \<Rightarrow> nat \<Rightarrow> tpixel \<Rightarrow> u8 \<Rightarrow> reader \<Rightarrow> decode_error + (nat \<times> reader)" where
  "payload_basic width height tp filter_id r =
    (let pixels = width * height in
     if filter_id = FILTER_PALETTE then
       (case rd_byte r of
          Inl e \<Rightarrow> Inl e
        | Inr (b, r1) \<Rightarrow>
          let n = unat b + 1 in
          (case rd_take (n * tp_bytes tp) r1 of
             Inl e \<Rightarrow> Inl e
           | Inr (_, r2) \<Rightarrow> Inr (if n = 2 then div_ceil width 8 * height else pixels, r2)))
     else if filter_id = FILTER_COPY then Inr (pixels * tp_bytes tp, r)
     else Inl (Malformed ''Tight filter''))"

definition skip_compact :: "reader \<Rightarrow> decode_error + reader" where
  "skip_compact r =
    (case read_compact r of
       Inl e \<Rightarrow> Inl e
     | Inr (n, r') \<Rightarrow> (case rd_take n r' of Inl e \<Rightarrow> Inl e | Inr (_, r'') \<Rightarrow> Inr r''))"

definition explicit_filter :: "u8 \<Rightarrow> reader \<Rightarrow> decode_error + (u8 \<times> reader)" where
  "explicit_filter control r =
    (if control AND CTL_EXPLICIT_FILTER \<noteq> 0 then rd_byte r else Inr (FILTER_COPY, r))"

definition payload_len :: "bytes \<Rightarrow> rect \<Rightarrow> pixel_format \<Rightarrow> decode_error + nat" where
  "payload_len payload rect pf =
    (let tp = tpixel_of pf; width = u32_of (rect_width rect); height = u32_of (rect_height rect) in
     case rd_byte (reader_new payload) of
       Inl e \<Rightarrow> Inl e
     | Inr (control, r) \<Rightarrow>
       if control AND 0xf0 = CTL_FILL then
         (case rd_take (tp_bytes tp) r of Inl e \<Rightarrow> Inl e | Inr (_, r') \<Rightarrow> Inr (rd_at r'))
       else if control AND 0xf0 = CTL_JPEG then
         (case skip_compact r of Inl e \<Rightarrow> Inl e | Inr r' \<Rightarrow> Inr (rd_at r'))
       else
         (case explicit_filter control r of
            Inl e \<Rightarrow> Inl e
          | Inr (filter_id, r1) \<Rightarrow>
            (case payload_basic width height tp filter_id r1 of
               Inl e \<Rightarrow> Inl e
             | Inr (want, r2) \<Rightarrow>
               if want < 12 then (case rd_take want r2 of Inl e \<Rightarrow> Inl e | Inr (_, r3) \<Rightarrow> Inr (rd_at r3))
               else (case skip_compact r2 of Inl e \<Rightarrow> Inl e | Inr r3 \<Rightarrow> Inr (rd_at r3)))))"

section \<open>Decoding a piece\<close>

text \<open>The loop over the four reset bits of the control byte.\<close>

definition reset_streams :: "'i \<Rightarrow> u8 \<Rightarrow> 'i list \<Rightarrow> 'i list" where
  "reset_streams fresh control zs =
    fold (\<lambda>sid zs. if control AND push_bit sid 1 \<noteq> 0 then zs[sid := fresh] else zs) [0, 1, 2, 3] zs"

definition tight_body ::
  "'i decompress_vec \<Rightarrow> nat \<Rightarrow> nat \<Rightarrow> reader \<Rightarrow> 'i list \<Rightarrow> (decode_error + (bytes \<times> reader \<times> 'i list)) option" where
  "tight_body dv sid want r zs =
    (if want < 12 then
       Some (case rd_take want r of Inl e \<Rightarrow> Inl e | Inr (b, r') \<Rightarrow> Inr (b, r', zs))
     else
       (case read_compact r of
          Inl e \<Rightarrow> Some (Inl e)
        | Inr (n, r1) \<Rightarrow>
          (case rd_take n r1 of
             Inl e \<Rightarrow> Some (Inl e)
           | Inr (packed, r2) \<Rightarrow>
               if length zs \<le> sid then Some (Inl Panicked)
               else map_option (\<lambda>res. case res of Inl e \<Rightarrow> Inl e | Inr (out, z') \<Rightarrow> Inr (out, r2, zs[sid := z']))
                 (inflate dv (zs ! sid) packed))))"

fun read_tpixels :: "nat \<Rightarrow> tpixel \<Rightarrow> unpacker \<Rightarrow> reader \<Rightarrow> decode_error + (bytes list \<times> reader)" where
  "read_tpixels 0 tp u r = Inr ([], r)"
| "read_tpixels (Suc n) tp u r =
    (case read_tpixel tp u r of
       Inl e \<Rightarrow> Inl e
     | Inr (px, r1) \<Rightarrow>
       (case read_tpixels n tp u r1 of Inl e \<Rightarrow> Inl e | Inr (pxs, r2) \<Rightarrow> Inr (px # pxs, r2)))"

fun tight_put_copy ::
  "nat \<Rightarrow> nat \<Rightarrow> tpixel \<Rightarrow> unpacker \<Rightarrow> rect \<Rightarrow> reader \<Rightarrow> framebuffer \<Rightarrow> decode_error + framebuffer" where
  "tight_put_copy i 0 tp u rect r fb = Inr fb"
| "tight_put_copy i (Suc n) tp u rect r fb =
    (case read_tpixel tp u r of
       Inl e \<Rightarrow> Inl e
     | Inr (px, r') \<Rightarrow>
       (case put_pixels i (rx1 rect) (ry1 rect) (rect_width rect) [px] fb of
          Inl e \<Rightarrow> Inl e
        | Inr fb' \<Rightarrow> tight_put_copy (Suc i) n tp u rect r' fb'))"

fun tight_put_mono :: "nat list \<Rightarrow> nat \<Rightarrow> bytes \<Rightarrow> bytes list \<Rightarrow> rect \<Rightarrow> framebuffer \<Rightarrow> decode_error + framebuffer" where
  "tight_put_mono [] width data palette rect fb = Inr fb"
| "tight_put_mono (y # ys) width data palette rect fb =
    (let per_row = div_ceil width 8 in
     if length data < y * per_row then Inl (Malformed ''mono rows ran out'')
     else
       (case unpack_row [0 ..< width] 1 (drop (y * per_row) data) palette (rx1 rect) (ry1 rect + int y) fb of
          Inl e \<Rightarrow> Inl e
        | Inr fb' \<Rightarrow> tight_put_mono ys width data palette rect fb'))"

fun tight_put_indexed :: "nat \<Rightarrow> bytes \<Rightarrow> bytes list \<Rightarrow> rect \<Rightarrow> framebuffer \<Rightarrow> decode_error + framebuffer" where
  "tight_put_indexed i [] palette rect fb = Inr fb"
| "tight_put_indexed i (index # is) palette rect fb =
    (if length palette \<le> unat index then Inl (Malformed ''palette index'')
     else
       (case put_pixels i (rx1 rect) (ry1 rect) (rect_width rect) [palette ! unat index] fb of
          Inl e \<Rightarrow> Inl e
        | Inr fb' \<Rightarrow> tight_put_indexed (Suc i) is palette rect fb'))"

definition tight_palette_body ::
  "'i decompress_vec \<Rightarrow> nat \<Rightarrow> tpixel \<Rightarrow> unpacker \<Rightarrow> rect \<Rightarrow> reader \<Rightarrow> framebuffer \<Rightarrow> 'i list
    \<Rightarrow> (decode_error + (reader \<times> framebuffer \<times> 'i list)) option" where
  "tight_palette_body dv sid tp u rect r fb zs =
    (let width = u32_of (rect_width rect); height = u32_of (rect_height rect); pixels = width * height in
     case rd_byte r of
       Inl e \<Rightarrow> Some (Inl e)
     | Inr (b, r1) \<Rightarrow>
       let n = unat b + 1 in
       (case read_tpixels n tp u r1 of
          Inl e \<Rightarrow> Some (Inl e)
        | Inr (palette, r2) \<Rightarrow>
          let want = (if n = 2 then div_ceil width 8 * height else pixels) in
          map_option
            (\<lambda>res. case res of
               Inl e \<Rightarrow> Inl e
             | Inr (data, r3, zs') \<Rightarrow>
               (case (if n = 2 then tight_put_mono [0 ..< height] width data palette rect fb
                      else tight_put_indexed 0 (take pixels data) palette rect fb) of
                  Inl e \<Rightarrow> Inl e
                | Inr fb' \<Rightarrow> Inr (r3, fb', zs')))
            (tight_body dv sid want r2 zs)))"

definition tight_copy_body ::
  "'i decompress_vec \<Rightarrow> nat \<Rightarrow> tpixel \<Rightarrow> unpacker \<Rightarrow> rect \<Rightarrow> reader \<Rightarrow> framebuffer \<Rightarrow> 'i list
    \<Rightarrow> (decode_error + (reader \<times> framebuffer \<times> 'i list)) option" where
  "tight_copy_body dv sid tp u rect r fb zs =
    (let pixels = u32_of (rect_width rect) * u32_of (rect_height rect) in
     map_option
       (\<lambda>res. case res of
          Inl e \<Rightarrow> Inl e
        | Inr (data, r', zs') \<Rightarrow>
          (case tight_put_copy 0 pixels tp u rect (reader_new data) fb of Inl e \<Rightarrow> Inl e | Inr fb' \<Rightarrow> Inr (r', fb', zs')))
       (tight_body dv sid (pixels * tp_bytes tp) r zs))"

definition tight_jpeg_body ::
  "jpeg_dec \<Rightarrow> rect \<Rightarrow> reader \<Rightarrow> framebuffer \<Rightarrow> decode_error + (reader \<times> framebuffer)" where
  "tight_jpeg_body jd rect r fb =
    (case read_compact r of
       Inl e \<Rightarrow> Inl e
     | Inr (n, r1) \<Rightarrow>
       (case rd_take n r1 of
          Inl e \<Rightarrow> Inl e
        | Inr (data, r2) \<Rightarrow>
          (case decode_jpeg jd data of
             Inl e \<Rightarrow> Inl e
           | Inr (w, h, rgb) \<Rightarrow>
               if int (unat w) \<noteq> rect_width rect \<or> int (unat h) \<noteq> rect_height rect then Inl (Malformed ''JPEG dimensions'')
               else
                 (case put_pixels 0 (rx1 rect) (ry1 rect) (rect_width rect)
                     (map (\<lambda>px. [px ! 2, px ! 1, px ! 0, 0]) (chunks 3 rgb)) fb of
                    Inl e \<Rightarrow> Inl e
                  | Inr fb' \<Rightarrow> Inr (r2, fb')))))"

definition tight_read_piece ::
  "'i decompress_vec \<Rightarrow> jpeg_dec \<Rightarrow> u8 \<Rightarrow> pixel_format \<Rightarrow> rect \<Rightarrow> reader \<Rightarrow> framebuffer \<Rightarrow> 'i list
    \<Rightarrow> (decode_error + (reader \<times> framebuffer \<times> 'i list)) option" where
  "tight_read_piece dv jd control pf rect r fb zs =
    (let tp = tpixel_of pf; u = unpacker_new pf in
     if control AND 0xf0 = CTL_FILL then
       Some (case read_tpixel tp u r of
               Inl e \<Rightarrow> Inl e
             | Inr (px, r') \<Rightarrow> (case fill_or_panic rect px fb of Inl e \<Rightarrow> Inl e | Inr fb' \<Rightarrow> Inr (r', fb', zs)))
     else if control AND 0xf0 = CTL_JPEG then
       Some (case tight_jpeg_body jd rect r fb of Inl e \<Rightarrow> Inl e | Inr (r', fb') \<Rightarrow> Inr (r', fb', zs))
     else
       let sid = unat (drop_bit 4 control AND 0x03) in
       (case explicit_filter control r of
          Inl e \<Rightarrow> Some (Inl e)
        | Inr (filter_id, r1) \<Rightarrow>
            if filter_id = FILTER_COPY then tight_copy_body dv sid tp u rect r1 fb zs
            else if filter_id = FILTER_PALETTE then tight_palette_body dv sid tp u rect r1 fb zs
            else Some (Inl (Malformed ''Tight filter''))))"

definition tight_decode ::
  "'i decompress_vec \<Rightarrow> 'i \<Rightarrow> jpeg_dec \<Rightarrow> 'i tight_reader \<Rightarrow> bytes \<Rightarrow> rect \<Rightarrow> pixel_format \<Rightarrow> framebuffer
    \<Rightarrow> (decode_error + (nat \<times> framebuffer \<times> 'i tight_reader)) option" where
  "tight_decode dv fresh jd z payload rect pf fb =
    (case rd_byte (reader_new payload) of
       Inl e \<Rightarrow> Some (Inl e)
     | Inr (control, r) \<Rightarrow>
       map_option (\<lambda>res. case res of Inl e \<Rightarrow> Inl e | Inr (r', fb', zs) \<Rightarrow> Inr (rd_at r', fb', \<lparr>td_streams = zs\<rparr>))
         (tight_read_piece dv jd control pf rect r fb (reset_streams fresh control (td_streams z))))"

end
