(* ===== verification/Tight_Laws.thy ===== *)
theory Tight_Laws
  imports Tight_Reader Packing Zrle_Laws
begin

text \<open>
  What the parts of Tight do: the pieces a rectangle is cut into, the compact length, the pixel of
  a piece, its palette and its keys. The round trip of a piece rests on them.
\<close>

section \<open>Pieces\<close>

text \<open>A piece of \<open>r\<close>: inside it, not empty, and within the two limits.\<close>

definition piece_of :: "rect \<Rightarrow> rect \<Rightarrow> bool" where
  "piece_of r p \<longleftrightarrow> rx1 r \<le> rx1 p \<and> rx1 p < rx2 p \<and> rx2 p \<le> rx2 r \<and> ry1 r \<le> ry1 p \<and> ry1 p < ry2 p \<and> ry2 p \<le> ry2 r
    \<and> rx2 p - rx1 p \<le> TIGHT_MAX_WIDTH \<and> (rx2 p - rx1 p) * (ry2 p - ry1 p) \<le> TIGHT_MAX_PIXELS"

lemma piece_height_bound:
  assumes "0 < w" "w \<le> rect_width r" "w \<le> TIGHT_MAX_WIDTH" "0 < h" "h \<le> piece_height r"
  shows "w * h \<le> TIGHT_MAX_PIXELS"
proof -
  let ?m = "min (max (rect_width r) 1) TIGHT_MAX_WIDTH"
  have m: "w \<le> ?m" "0 < ?m" "?m \<le> 2048" using assms by (auto simp: TIGHT_MAX_WIDTH_def)
  have "65536 div 2048 \<le> 65536 div ?m" using m by (intro zdiv_mono2) auto
  then have "h \<le> TIGHT_MAX_PIXELS div ?m" using assms(5) by (simp add: piece_height_def TIGHT_MAX_PIXELS_def max_def split: if_splits)
  then have "w * h \<le> ?m * (TIGHT_MAX_PIXELS div ?m)" using m assms(1,4) by (intro mult_mono) auto
  also have "\<dots> \<le> TIGHT_MAX_PIXELS" using m(2) by (simp add: TIGHT_MAX_PIXELS_def minus_mod_eq_mult_div [symmetric])
  finally show ?thesis .
qed

lemma rect_new_in:
  "rect_small r \<Longrightarrow> rx1 r \<le> x \<Longrightarrow> ry1 r \<le> y \<Longrightarrow> 0 \<le> w \<Longrightarrow> 0 \<le> h \<Longrightarrow> x + w \<le> rx2 r \<Longrightarrow> y + h \<le> ry2 r
    \<Longrightarrow> rect_new x y w h = mk_rect x y (x + w) (y + h)"
  by (simp add: rect_new_def rect_small_def i32_small)

definition apart :: "rect list \<Rightarrow> bool" where
  "apart ps \<longleftrightarrow> sorted_wrt (\<lambda>a b. rect_pixels a \<inter> rect_pixels b = {}) ps"

lemma pieces_down_spec:
  assumes "rect_small r" "rx1 r \<le> x" "0 < w" "x + w \<le> rx2 r" "w \<le> TIGHT_MAX_WIDTH" "w \<le> rect_width r"
  shows "ry1 r \<le> y \<Longrightarrow> (\<forall>p\<in>set (pieces_down r x w y). piece_of r p) \<and> apart (pieces_down r x w y)
    \<and> (\<Union>p\<in>set (pieces_down r x w y). rect_pixels p) = {x ..< x + w} \<times> {y ..< ry2 r}"
  using assms
proof (induction r x w y rule: pieces_down.induct)
  case (1 r x w y)
  note a = 1(2-8)
  show ?case
  proof (cases "y < ry2 r")
    case False
    then show ?thesis by (subst (1 2 3) pieces_down.simps) (auto simp: apart_def)
  next
    case True
    define h where "h = min (piece_height r) (ry2 r - y)"
    have h: "0 < h" "y + h \<le> ry2 r" "h \<le> piece_height r" using True piece_height_pos [of r] by (auto simp: h_def min_def)
    have new: "rect_new x y w h = mk_rect x y (x + w) (y + h)" using a h by (intro rect_new_in [of r]) auto
    have step: "pieces_down r x w y = mk_rect x y (x + w) (y + h) # pieces_down r x w (y + h)"
      using True new by (subst pieces_down.simps) (simp add: h_def Let_def)
    from 1(1) [OF True h_def _ a(2-7)] a(1) h
    have ih: "(\<forall>p\<in>set (pieces_down r x w (y + h)). piece_of r p) \<and> apart (pieces_down r x w (y + h))
        \<and> (\<Union>p\<in>set (pieces_down r x w (y + h)). rect_pixels p) = {x ..< x + w} \<times> {y + h ..< ry2 r}" by simp
    have "piece_of r (mk_rect x y (x + w) (y + h))"
      using a h piece_height_bound [OF a(4) a(7) a(6) h(1,3)] by (simp add: piece_of_def)
    moreover have "rect_pixels (mk_rect x y (x + w) (y + h)) \<inter> (\<Union>p\<in>set (pieces_down r x w (y + h)). rect_pixels p) = {}"
      using ih by (auto simp: rect_pixels_prod)
    then have "apart (pieces_down r x w y)" using ih unfolding step apart_def by auto
    moreover have "(\<Union>p\<in>set (pieces_down r x w y). rect_pixels p) = {x ..< x + w} \<times> {y ..< ry2 r}"
    proof -
      have "{y ..< ry2 r} = {y ..< y + h} \<union> {y + h ..< ry2 r}" using h by auto
      then show ?thesis using ih unfolding step by (simp add: rect_pixels_prod) blast
    qed
    ultimately show ?thesis using ih unfolding step by simp
  qed
qed

lemma apart_append:
  "apart (ps @ qs) \<longleftrightarrow> apart ps \<and> apart qs \<and> (\<Union>p\<in>set ps. rect_pixels p) \<inter> (\<Union>q\<in>set qs. rect_pixels q) = {}"
  unfolding apart_def sorted_wrt_append by blast

lemma pieces_across_spec:
  assumes "rect_small r"
  shows "rx1 r \<le> x \<Longrightarrow> (\<forall>p\<in>set (pieces_across r x). piece_of r p) \<and> apart (pieces_across r x)
    \<and> (\<Union>p\<in>set (pieces_across r x). rect_pixels p) = {x ..< rx2 r} \<times> {ry1 r ..< ry2 r}"
  using assms
proof (induction r x rule: pieces_across.induct)
  case (1 r x)
  show ?case
  proof (cases "x < rx2 r")
    case False
    then show ?thesis by (subst (1 2 3) pieces_across.simps) (auto simp: apart_def)
  next
    case True
    define w where "w = min TIGHT_MAX_WIDTH (rx2 r - x)"
    have w: "0 < w" "x + w \<le> rx2 r" "w \<le> TIGHT_MAX_WIDTH" "w \<le> rect_width r"
      using True 1(2) rect_width_small [OF 1(3)] by (auto simp: w_def TIGHT_MAX_WIDTH_def min_def)
    have step: "pieces_across r x = pieces_down r x w (ry1 r) @ pieces_across r (x + w)"
      using True by (subst pieces_across.simps) (simp add: w_def Let_def)
    from pieces_down_spec [OF 1(3,2) w, of "ry1 r"]
    have d: "\<forall>p\<in>set (pieces_down r x w (ry1 r)). piece_of r p" "apart (pieces_down r x w (ry1 r))"
      "(\<Union>p\<in>set (pieces_down r x w (ry1 r)). rect_pixels p) = {x ..< x + w} \<times> {ry1 r ..< ry2 r}" by simp_all
    from 1(1) [OF True w_def] 1(2,3) w(1)
    have i: "\<forall>p\<in>set (pieces_across r (x + w)). piece_of r p" "apart (pieces_across r (x + w))"
      "(\<Union>p\<in>set (pieces_across r (x + w)). rect_pixels p) = {x + w ..< rx2 r} \<times> {ry1 r ..< ry2 r}" by simp_all
    have "{x ..< rx2 r} = {x ..< x + w} \<union> {x + w ..< rx2 r}" using w by auto
    then show ?thesis unfolding step apart_append using d i by (simp add: UN_Un Sigma_Un_distrib1 [symmetric]) (auto simp: ball_Un)
  qed
qed

lemma piece_rects_spec:
  assumes "rect_small r"
  shows "\<forall>p\<in>set (piece_rects r). piece_of r p" "apart (piece_rects r)"
    "(\<Union>p\<in>set (piece_rects r). rect_pixels p) = rect_pixels r"
  using pieces_across_spec [OF assms, of "rx1 r"] by (simp_all add: piece_rects_def rect_pixels_prod)

text \<open>A piece is not cut again.\<close>

lemma piece_rects_piece:
  assumes "rect_small r" "piece_of r p" shows "piece_rects p = [p]"
proof -
  have p: "rect_small p" "rx1 p < rx2 p" "ry1 p < ry2 p" "rx2 p - rx1 p \<le> 2048" "(rx2 p - rx1 p) * (ry2 p - ry1 p) \<le> 65536"
    using assms by (auto simp: piece_of_def rect_small_def TIGHT_MAX_WIDTH_def TIGHT_MAX_PIXELS_def)
  have w: "rect_width p = rx2 p - rx1 p" using p by (simp add: rect_width_small)
  have "(rx2 p - rx1 p) * (ry2 p - ry1 p) div (rx2 p - rx1 p) \<le> 65536 div (rx2 p - rx1 p)"
    using p by (intro zdiv_mono1) auto
  then have h: "ry2 p - ry1 p \<le> piece_height p"
    using p by (simp add: piece_height_def w TIGHT_MAX_PIXELS_def TIGHT_MAX_WIDTH_def)
  have "rect_new (rx1 p) (ry1 p) (rx2 p - rx1 p) (ry2 p - ry1 p) = p" using p rect_new_in [of p "rx1 p" "ry1 p"] by simp
  moreover have "pieces_down p (rx1 p) (rx2 p - rx1 p) (ry2 p) = []" "pieces_across p (rx2 p) = []"
    by (subst pieces_down.simps, simp) (subst pieces_across.simps, simp)
  moreover have "min (piece_height p) (ry2 p - ry1 p) = ry2 p - ry1 p" "min TIGHT_MAX_WIDTH (rx2 p - rx1 p) = rx2 p - rx1 p"
    using h p by (simp_all add: TIGHT_MAX_WIDTH_def)
  ultimately show ?thesis
    unfolding piece_rects_def using p by (subst pieces_across.simps) (simp add: Let_def pieces_down.simps [of p "rx1 p"])
qed

text \<open>How many there are.\<close>

lemma div_ceil_small: "0 < a \<Longrightarrow> a \<le> b \<Longrightarrow> div_ceil a b = 1"
  by (cases "a = b") (simp_all add: div_ceil_def)

lemma div_ceil_step: "0 < b \<Longrightarrow> b \<le> a \<Longrightarrow> div_ceil a b = Suc (div_ceil (a - b) b)"
  by (simp add: div_ceil_def le_div_geq le_mod_geq)

lemma div_ceil_0 [simp]: "div_ceil 0 b = 0"
  by (simp add: div_ceil_def)

lemma length_pieces_down: "length (pieces_down r x w y) = div_ceil (nat (ry2 r - y)) (nat (piece_height r))"
proof (induction r x w y rule: pieces_down.induct)
  case (1 r x w y)
  show ?case
  proof (cases "y < ry2 r")
    case False
    then show ?thesis by (subst pieces_down.simps) simp
  next
    case True
    let ?h = "min (piece_height r) (ry2 r - y)"
    from 1 [OF True refl] have ih: "length (pieces_down r x w (y + ?h)) = div_ceil (nat (ry2 r - (y + ?h))) (nat (piece_height r))" .
    have step: "length (pieces_down r x w y) = Suc (length (pieces_down r x w (y + ?h)))"
      using True by (subst pieces_down.simps) (simp add: Let_def)
    show ?thesis
    proof (cases "ry2 r - y \<le> piece_height r")
      case a: True
      then have "y + ?h = ry2 r" by simp
      then have "length (pieces_down r x w y) = 1" unfolding step ih by simp
      then show ?thesis using a True by (simp add: div_ceil_small)
    next
      case b: False
      then have "nat (ry2 r - (y + ?h)) = nat (ry2 r - y) - nat (piece_height r)" using piece_height_pos [of r] by simp
      then show ?thesis unfolding step ih using b piece_height_pos [of r] by (simp add: div_ceil_step)
    qed
  qed
qed

lemma length_pieces_across:
  "length (pieces_across r x) = div_ceil (nat (rx2 r - x)) 2048 * div_ceil (nat (ry2 r - ry1 r)) (nat (piece_height r))"
proof (induction r x rule: pieces_across.induct)
  case (1 r x)
  show ?case
  proof (cases "x < rx2 r")
    case False
    then show ?thesis by (subst pieces_across.simps) simp
  next
    case True
    let ?w = "min TIGHT_MAX_WIDTH (rx2 r - x)" and ?d = "div_ceil (nat (ry2 r - ry1 r)) (nat (piece_height r))"
    from 1 [OF True refl] have ih: "length (pieces_across r (x + ?w)) = div_ceil (nat (rx2 r - (x + ?w))) 2048 * ?d" .
    have step: "length (pieces_across r x) = ?d + length (pieces_across r (x + ?w))"
      using True by (subst pieces_across.simps) (simp add: Let_def length_pieces_down)
    show ?thesis
    proof (cases "rx2 r - x \<le> 2048")
      case a: True
      then have "x + ?w = rx2 r" by (simp add: TIGHT_MAX_WIDTH_def)
      then have "length (pieces_across r x) = ?d" unfolding step ih by simp
      then show ?thesis using a True by (simp add: div_ceil_small)
    next
      case b: False
      then have "nat (rx2 r - (x + ?w)) = nat (rx2 r - x) - 2048" by (simp add: TIGHT_MAX_WIDTH_def)
      moreover have "div_ceil (nat (rx2 r - x)) 2048 = Suc (div_ceil (nat (rx2 r - x) - 2048) 2048)" using b by (intro div_ceil_step) simp_all
      ultimately show ?thesis unfolding step ih by simp
    qed
  qed
qed

lemma length_piece_rects:
  assumes "rect_small r" "\<not> rect_is_empty r" shows "length (piece_rects r) = tight_pieces r"
proof -
  have w: "rect_width r = rx2 r - rx1 r" "rect_height r = ry2 r - ry1 r" "0 < rx2 r - rx1 r" "0 < ry2 r - ry1 r"
    "rx2 r - rx1 r < 2147483649" "ry2 r - ry1 r < 2147483649"
    using assms rect_width_small [of r] rect_height_small [of r] by (auto simp: rect_is_empty_def rect_small_def)
  have "piece_height r \<le> 65536"
  proof -
    have "TIGHT_MAX_PIXELS div min (max (rect_width r) 1) TIGHT_MAX_WIDTH \<le> 65536 div 1"
      unfolding TIGHT_MAX_PIXELS_def by (intro zdiv_mono2) (auto simp: TIGHT_MAX_WIDTH_def)
    then show ?thesis by (simp add: piece_height_def)
  qed
  then have "u32_of (piece_height r) = nat (piece_height r)" using piece_height_pos [of r] by simp
  moreover have "u32_of (max (rect_width r) 1) = nat (rx2 r - rx1 r)" "u32_of (max (rect_height r) 1) = nat (ry2 r - ry1 r)"
  proof -
    have "max (rect_width r) 1 = rx2 r - rx1 r" "max (rect_height r) 1 = ry2 r - ry1 r" using w by linarith+
    then show "u32_of (max (rect_width r) 1) = nat (rx2 r - rx1 r)" "u32_of (max (rect_height r) 1) = nat (ry2 r - ry1 r)"
      using w by simp_all
  qed
  ultimately show ?thesis
    by (simp add: piece_rects_def length_pieces_across tight_pieces_def Let_def TIGHT_MAX_WIDTH_def)
qed

section \<open>The compact length\<close>

lemma compact_bytes_check:
  "list_all (\<lambda>k. (of_nat k :: u8) AND 0x7f = of_nat k \<and> (of_nat k OR 0x80 :: u8) AND 0x7f = of_nat k
      \<and> (of_nat k :: u8) AND 0x80 = 0 \<and> (of_nat k OR 0x80 :: u8) AND 0x80 \<noteq> 0 \<and> unat (of_nat k :: u8) = k) [0 ..< 128]"
  by code_simp

lemma compact_bytes:
  assumes "k < 128"
  shows "(of_nat k :: u8) AND 0x7f = of_nat k" "(of_nat k OR 0x80 :: u8) AND 0x7f = of_nat k"
    "(of_nat k :: u8) AND 0x80 = 0" "(of_nat k OR 0x80 :: u8) AND 0x80 \<noteq> 0" "unat (of_nat k :: u8) = k"
proof -
  have "k \<in> set [0 ..< 128]" unfolding set_upt atLeastLessThan_iff using assms by linarith
  from compact_bytes_check [unfolded list_all_iff, rule_format, OF this]
  show "(of_nat k :: u8) AND 0x7f = of_nat k" "(of_nat k OR 0x80 :: u8) AND 0x7f = of_nat k"
    "(of_nat k :: u8) AND 0x80 = 0" "(of_nat k OR 0x80 :: u8) AND 0x80 \<noteq> 0" "unat (of_nat k :: u8) = k" by blast+
qed

lemma and_127: "(n::nat) AND 127 = take_bit 7 n" "(m::nat) AND 255 = take_bit 8 m"
  by (simp_all add: take_bit_eq_mask mask_eq_exp_minus_1)

lemma groups_join:
  "take_bit 7 n OR push_bit 7 (take_bit 7 (drop_bit 7 n)) OR push_bit 14 (take_bit 7 (drop_bit 14 n)) = take_bit 21 (n::nat)"
proof (rule bit_eqI)
  fix i
  show "bit (take_bit 7 n OR push_bit 7 (take_bit 7 (drop_bit 7 n)) OR push_bit 14 (take_bit 7 (drop_bit 14 n))) i = bit (take_bit 21 n) i"
    by (cases "i < 7"; cases "i < 14"; cases "i < 21") (auto simp: bit_or_iff bit_take_bit_iff bit_push_bit_iff bit_drop_bit_eq)
qed

lemma unat_and_127: "unat ((of_nat k :: u8) AND 0x7f) = take_bit 7 (k::nat)"
proof -
  have "unat (0x7f :: u8) = 127" by simp
  then have "unat ((of_nat k :: u8) AND 0x7f) = take_bit 8 k AND 127" by (simp only: unsigned_and_eq unsigned_of_nat len_num0 len_bit0 len_num1) simp
  also have "\<dots> = take_bit 7 k" by (simp add: and_127)
  finally show ?thesis .
qed

lemma small_take: "n < 128 \<Longrightarrow> take_bit 7 n = (n::nat)" "n < 256 \<Longrightarrow> take_bit 8 n = (n::nat)"
  by (simp_all add: take_bit_nat_eq_self)

text \<open>The writer has room for twenty-two bits, the reader keeps twenty-one of them.\<close>

lemma read_push_compact:
  assumes "n < 2 ^ 22" "reads d r (push_compact n @ s)"
  shows "\<exists>r'. read_compact r = Inr (n mod 2 ^ 21, r') \<and> reads d r' s"
proof -
  let ?a = "take_bit 7 n" and ?b = "take_bit 7 (drop_bit 7 n)" and ?c = "drop_bit 14 n"
  have ab: "?a < 128" "?b < 128" by (simp_all add: take_bit_eq_mod)
  have c: "take_bit 8 ?c = ?c" using assms(1) by (intro small_take) (simp add: drop_bit_eq_div)
  have m: "n mod 2 ^ 21 = take_bit 21 n" by (simp add: take_bit_eq_mod)
  show ?thesis
  proof (cases "n > 127")
    case False
    then have n: "?a = n" "n mod 2 ^ 21 = n" by (simp_all add: small_take)
    then have "reads d r (of_nat n # s)" using assms(2) False by (simp add: push_compact_def and_127)
    with rd_byte_reads obtain r1 where "rd_byte r = Inr (of_nat n, r1)" "reads d r1 s" by blast
    then show ?thesis using False n compact_bytes [of n] by (simp add: read_compact_def)
  next
    case True
    show ?thesis
    proof (cases "drop_bit 7 n > 127")
      case False
      then have n: "?b = drop_bit 7 n" "take_bit 7 ?c = 0" by (auto simp: small_take drop_bit_eq_div take_bit_eq_mod)
      from groups_join [of n] n have j: "?a OR push_bit 7 ?b = n mod 2 ^ 21" unfolding m by simp
      have "reads d r ((of_nat ?a OR 0x80) # of_nat ?b # s)" using assms(2) True False by (simp add: push_compact_def and_127 Let_def)
      with rd_byte_reads obtain r1 where r1: "rd_byte r = Inr (of_nat ?a OR 0x80, r1)" "reads d r1 (of_nat ?b # s)" by blast
      from rd_byte_reads [OF r1(2)] obtain r2 where "rd_byte r1 = Inr (of_nat ?b, r2)" "reads d r2 s" by blast
      then show ?thesis using r1(1) compact_bytes [OF ab(1)] compact_bytes [OF ab(2)] j by (simp add: read_compact_def Let_def)
    next
      case more: True
      have c': "drop_bit 7 (drop_bit 7 n) = ?c" by simp
      have "reads d r ((of_nat ?a OR 0x80) # (of_nat ?b OR 0x80) # of_nat ?c # s)"
        using assms(2) True more by (simp add: push_compact_def and_127 Let_def c' c)
      with rd_byte_reads obtain r1 where r1: "rd_byte r = Inr (of_nat ?a OR 0x80, r1)" "reads d r1 ((of_nat ?b OR 0x80) # of_nat ?c # s)" by blast
      from rd_byte_reads [OF r1(2)] obtain r2 where r2: "rd_byte r1 = Inr (of_nat ?b OR 0x80, r2)" "reads d r2 (of_nat ?c # s)" by blast
      from rd_byte_reads [OF r2(2)] obtain r3 where r3: "rd_byte r2 = Inr (of_nat ?c, r3)" "reads d r3 s" by blast
      have u: "unat ((of_nat ?c :: u8) AND 0x7f) = take_bit 7 ?c" by (rule unat_and_127)
      have "?a OR push_bit 7 ?b OR push_bit 14 (take_bit 7 ?c) = n mod 2 ^ 21" unfolding m by (rule groups_join)
      then show ?thesis using r1(1) r2(1) r3 compact_bytes [OF ab(1)] compact_bytes [OF ab(2)]
        by (simp add: read_compact_def Let_def u or.assoc)
    qed
  qed
qed

section \<open>The pixel of a piece\<close>

text \<open>The key a framebuffer pixel gets, and the framebuffer pixel the decoder makes of a key.\<close>

definition tkey :: "pixel_format \<Rightarrow> bytes \<Rightarrow> u32" where
  "tkey pf px = word_of_bytes (take (min (tp_bytes (tpixel_of pf)) 4) (tpixel_push (tpixel_of pf) px pf))"

definition kt :: "pixel_format \<Rightarrow> u32 \<Rightarrow> bytes" where
  "kt pf key = (let b = push_key key (tp_bytes (tpixel_of pf)) in
     if tp_three (tpixel_of pf) then [b ! 2, b ! 1, b ! 0, 0] else unpack (unpacker_new pf) b)"

lemma tpixel_small:
  "pf_validate pf = Inr () \<Longrightarrow> 0 < tp_bytes (tpixel_of pf) \<and> tp_bytes (tpixel_of pf) \<le> 4"
  using bpp_small [of pf] by (simp add: tpixel_of_def Let_def)

lemma length_tpixel_push:
  "pf_validate pf = Inr () \<Longrightarrow> length px = 4 \<Longrightarrow> length (tpixel_push (tpixel_of pf) px pf) = tp_bytes (tpixel_of pf)"
  by (simp add: tpixel_push_def tpixel_of_def Let_def length_convert_px)

lemma length_push_key: "n \<le> 4 \<Longrightarrow> length (push_key k n) = n"
  by (simp add: push_key_def)

lemma length_kt [simp]: "length (kt pf k) = 4"
  by (simp add: kt_def Let_def unpack_def)

lemma push_tkey:
  assumes "pf_validate pf = Inr ()" "length px = 4"
  shows "push_key (tkey pf px) (tp_bytes (tpixel_of pf)) = tpixel_push (tpixel_of pf) px pf"
proof -
  note l = length_tpixel_push [OF assms]
  have "push_pixel (word_of_bytes (tpixel_push (tpixel_of pf) px pf)) (tp_bytes (tpixel_of pf)) = tpixel_push (tpixel_of pf) px pf"
    using push_pixel_word [OF l] tpixel_small [OF assms(1)] by simp
  then show ?thesis using tpixel_small [OF assms(1)] l by (simp add: push_key_def push_pixel_def tkey_def min_def)
qed

lemma kt_sent:
  assumes "pf_validate pf = Inr ()" "channels_apart pf" "length px = 4"
  shows "kt pf (tkey pf px) = through pf px"
proof (cases "tp_three (tpixel_of pf)")
  case True
  then have m: "unat (red_max pf) = 255" "unat (green_max pf) = 255" "unat (blue_max pf) = 255"
    by (simp_all add: tpixel_of_def Let_def split: if_splits)
  have "kt pf (tkey pf px) = [px ! 0, px ! 1, px ! 2, 0]"
    using True by (simp add: kt_def Let_def push_tkey [OF assms(1,3)] tpixel_push_def)
  then show ?thesis using m by (simp add: through_def there_and_back_exact)
next
  case False
  then show ?thesis using unpack_sent [OF assms, of "[]"]
    by (simp add: kt_def Let_def push_tkey [OF assms(1,3)] tpixel_push_def)
qed

lemma read_tpixel_reads:
  assumes "pf_validate pf = Inr ()" "reads d r (push_key k (tp_bytes (tpixel_of pf)) @ s)"
  shows "\<exists>r'. read_tpixel (tpixel_of pf) (unpacker_new pf) r = Inr (kt pf k, r') \<and> reads d r' s"
  using rd_take_reads [OF assms(2) length_push_key] tpixel_small [OF assms(1)] by (auto simp: read_tpixel_def kt_def Let_def)

definition tpalette_bytes :: "pixel_format \<Rightarrow> u32 list \<Rightarrow> bytes" where
  "tpalette_bytes pf ks = concat (map (\<lambda>k. push_key k (tp_bytes (tpixel_of pf))) ks)"

lemma length_tpalette_bytes:
  "pf_validate pf = Inr () \<Longrightarrow> length (tpalette_bytes pf ks) = length ks * tp_bytes (tpixel_of pf)"
  using tpixel_small [of pf] by (induction ks) (simp_all add: tpalette_bytes_def length_push_key)

lemma read_tpixels_reads:
  assumes "pf_validate pf = Inr ()"
  shows "reads d r (tpalette_bytes pf ks @ s) \<Longrightarrow>
    \<exists>r'. read_tpixels (length ks) (tpixel_of pf) (unpacker_new pf) r = Inr (map (kt pf) ks, r') \<and> reads d r' s"
proof (induction ks arbitrary: r)
  case (Cons k ks)
  then have "reads d r (push_key k (tp_bytes (tpixel_of pf)) @ (tpalette_bytes pf ks @ s))" by (simp add: tpalette_bytes_def)
  from read_tpixel_reads [OF assms this] Cons.IH show ?case by fastforce
qed (simp add: tpalette_bytes_def)

section \<open>Reading a piece and its colours\<close>

lemma points_px: "map (\<lambda>(x, y). fb_px fb (nat x) (nat y)) (points r) = tile_px fb r"
  by (simp add: points_def tile_px_def map_concat comp_def)

lemma read_points_ok:
  assumes "fb_ok fb" "\<forall>(x, y)\<in>set ps. 0 \<le> x \<and> x < int (fb_width fb) \<and> 0 \<le> y \<and> y < int (fb_height fb)"
  shows "read_points push fb ps = Some (concat (map (\<lambda>(x, y). push (fb_px fb (nat x) (nat y))) ps))"
  using assms(2)
proof (induction ps)
  case (Cons p ps)
  obtain x y where p: "p = (x, y)" by force
  have "u32_of x = nat x" "u32_of y = nat y" "nat x < fb_width fb" "nat y < fb_height fb"
    using Cons.prems assms(1) by (auto simp: p fb_ok_def)
  then show ?case using Cons by (simp add: p fb_pixel_ok [OF assms(1)])
qed simp

lemma read_points_tile:
  assumes "fb_ok fb" "in_picture fb r"
  shows "read_points push fb (points r) = Some (concat (map push (tile_px fb r)))"
proof -
  have "\<forall>(x, y)\<in>set (points r). 0 \<le> x \<and> x < int (fb_width fb) \<and> 0 \<le> y \<and> y < int (fb_height fb)"
    using assms(2) by (auto simp: points_def set_irange in_picture_def)
  from read_points_ok [OF assms(1) this, of push] show ?thesis
    by (simp add: points_px [symmetric] comp_def case_prod_unfold)
qed

definition tkeys :: "pixel_format \<Rightarrow> framebuffer \<Rightarrow> rect \<Rightarrow> u32 list" where
  "tkeys pf src t = map (tkey pf) (tile_px src t)"

lemma kt_keys:
  assumes "pf_validate pf = Inr ()" "channels_apart pf" "fb_ok src" "in_picture src t"
  shows "map (kt pf) (tkeys pf src t) = map (through pf) (tile_px src t)"
  using tile_px_4 [OF assms(3,4)] kt_sent [OF assms(1,2)] by (simp add: tkeys_def comp_def)

lemma tight_read_ok:
  assumes "pf_validate pf = Inr ()" "fb_ok src" "in_picture src t"
  shows "tight_read src t pf (tpixel_of pf) = Some (tpalette_bytes pf (tkeys pf src t), tkeys pf src t)"
proof -
  let ?tp = "tpixel_of pf"
  have l4: "\<forall>px\<in>set (tile_px src t). length px = 4" by (rule tile_px_4 [OF assms(2,3)])
  have b: "concat (map (\<lambda>px. tpixel_push ?tp px pf) (tile_px src t)) = tpalette_bytes pf (tkeys pf src t)"
    using l4 push_tkey [OF assms(1)] by (simp add: tpalette_bytes_def tkeys_def comp_def cong: map_cong)
  have "chunks (tp_bytes ?tp) (concat (map (\<lambda>px. tpixel_push ?tp px pf) (tile_px src t))) = map (\<lambda>px. tpixel_push ?tp px pf) (tile_px src t)"
    using l4 tpixel_small [OF assms(1)] length_tpixel_push [OF assms(1)] by (intro chunks_concat) auto
  then have "tight_keys ?tp (concat (map (\<lambda>px. tpixel_push ?tp px pf) (tile_px src t))) = Some (tkeys pf src t)"
    using tpixel_small [OF assms(1)] by (simp add: tight_keys_def tkeys_def tkey_def comp_def)
  then have "tight_keys ?tp (tpalette_bytes pf (tkeys pf src t)) = Some (tkeys pf src t)" by (simp only: b)
  then show ?thesis by (simp add: tight_read_def read_points_tile [OF assms(2,3)] b)
qed

lemma tight_palette_facts:
  assumes "length pal \<le> 256"
  shows "tight_palette keys pal = [] \<or> set (tight_palette keys pal) = set pal \<union> set keys"
    and "length (tight_palette keys pal) \<le> 256"
  using assms by (induction keys pal rule: tight_palette.induct) (auto simp: TIGHT_MAX_PALETTE_def)

end
