(* ===== verification/Tight_Round_Trip.thy ===== *)
theory Tight_Round_Trip
  imports Tight_Laws Zrle_Round_Trip
begin

text \<open>
  A Tight piece encoded and decoded: the picture the client's format holds, the bytes taken, and the
  four pairs of streams in step afterwards, whatever reset bits rode on the piece.
\<close>

section \<open>A piece being read\<close>

definition tsend :: "pixel_format \<Rightarrow> framebuffer \<Rightarrow> rect \<Rightarrow> framebuffer \<Rightarrow> bool" where
  "tsend pf src t fb \<longleftrightarrow> pf_validate pf = Inr () \<and> channels_apart pf \<and> fb_ok src \<and> in_picture src t
    \<and> fb_ok fb \<and> in_picture fb t \<and> piece_of t t"

lemma tsendD:
  assumes "tsend pf src t fb"
  shows "pf_validate pf = Inr ()" "channels_apart pf" "fb_ok src" "in_picture src t" "fb_ok fb" "in_picture fb t"
    "rx1 t < rx2 t" "ry1 t < ry2 t" "rect_width t = rx2 t - rx1 t" "rect_height t = ry2 t - ry1 t"
    "u32_of (rx2 t - rx1 t) = nat (rx2 t - rx1 t)" "u32_of (ry2 t - ry1 t) = nat (ry2 t - ry1 t)"
    "length (tkeys pf src t) = nat (rx2 t - rx1 t) * nat (ry2 t - ry1 t)"
proof -
  show a: "pf_validate pf = Inr ()" "channels_apart pf" "fb_ok src" "in_picture src t" "fb_ok fb" "in_picture fb t"
    "rx1 t < rx2 t" "ry1 t < ry2 t" using assms by (simp_all add: tsend_def piece_of_def)
  show w: "rect_width t = rx2 t - rx1 t" "rect_height t = ry2 t - ry1 t" using in_picture_width [OF a(3,4)] by simp_all
  show "u32_of (rx2 t - rx1 t) = nat (rx2 t - rx1 t)" "u32_of (ry2 t - ry1 t) = nat (ry2 t - ry1 t)"
    using in_picture_width [OF a(3,4)] by (simp_all only: w)
  show l: "length (tkeys pf src t) = nat (rx2 t - rx1 t) * nat (ry2 t - ry1 t)"
    using length_tile_px [OF a(4)] by (simp add: tkeys_def)
qed

lemma seen_at:
  assumes z: "tsend pf src t fb" and "inside t x y"
  shows "tile_index t x y < length (tkeys pf src t)" "kt pf (tkeys pf src t ! tile_index t x y) = seen pf src x y"
proof -
  note s = tsendD [OF z]
  show i: "tile_index t x y < length (tkeys pf src t)" using tile_index_less [OF s(4) assms(2)] s(13) by simp
  then have "kt pf (tkeys pf src t ! tile_index t x y) = map (kt pf) (tkeys pf src t) ! tile_index t x y" by simp
  also have "\<dots> = seen pf src x y"
    unfolding kt_keys [OF s(1-4)] using i tile_px_nth [OF s(4) assms(2)] by (simp add: tkeys_def seen_def)
  finally show "kt pf (tkeys pf src t ! tile_index t x y) = seen pf src x y" .
qed

text \<open>The next pixel, in reading order.\<close>

lemma put_one:
  assumes z: "tsend pf src t fb" and p: "painted fb fb1 (partly t i) (seen pf src)" and i: "i < length (tkeys pf src t)"
    and px: "px = kt pf (tkeys pf src t ! i)"
  shows "\<exists>fb2. put_pixels i (rx1 t) (ry1 t) (rect_width t) [px] fb1 = Inr fb2 \<and> painted fb fb2 (partly t (Suc i)) (seen pf src)"
proof -
  note s = tsendD [OF z] and k = paintedD [OF p tsendD(5) [OF z]]
  have in1: "in_picture fb1 t" using s(6) k by (simp add: in_picture_def)
  have "i + length [px] \<le> nat (rect_width t) * nat (ry2 t - ry1 t)" "\<forall>q\<in>set [px]. length q = 4" "0 < rect_width t"
    using i s(7,9,13) by (simp_all add: px)
  from put_pixels_painted [OF k(1) in1 s(9) this(3,1,2)] obtain fb2 where
    f: "put_pixels i (rx1 t) (ry1 t) (rect_width t) [px] fb1 = Inr fb2"
    "painted fb1 fb2 (\<lambda>x y. inside t x y \<and> i \<le> tile_index t x y \<and> tile_index t x y < i + length [px]) (\<lambda>x y. [px] ! (tile_index t x y - i))"
    by blast
  have "painted fb fb2 (partly t (Suc i)) (seen pf src)"
  proof (rule painted_cong [OF painted_then [OF p f(2)]])
    fix x y
    show "(partly t i x y \<or> inside t x y \<and> i \<le> tile_index t x y \<and> tile_index t x y < i + length [px]) = partly t (Suc i) x y"
      by (auto simp: partly_def)
    assume "partly t (Suc i) x y"
    then show "(if inside t x y \<and> i \<le> tile_index t x y \<and> tile_index t x y < i + length [px] then [px] ! (tile_index t x y - i)
        else seen pf src x y) = seen pf src x y"
      using seen_at(2) [OF z, of x y] by (cases "tile_index t x y = i") (auto simp: partly_def px)
  qed
  with f(1) show ?thesis by blast
qed

lemma tight_all:
  assumes "tsend pf src t fb" "painted fb fb' (partly t (length (tkeys pf src t))) F" shows "painted fb fb' (inside t) F"
  using seen_at(1) [OF assms(1)] by (intro painted_cong [OF assms(2)]) (auto simp: partly_def)

section \<open>The three ways of sending pixels\<close>

lemma put_copy_ok:
  assumes z: "tsend pf src t fb"
  shows "painted fb fb1 (partly t i) (seen pf src) \<Longrightarrow> i + length ks = length (tkeys pf src t) \<Longrightarrow> ks = drop i (tkeys pf src t)
    \<Longrightarrow> reads d rd (tpalette_bytes pf ks) \<Longrightarrow>
    \<exists>fb2. tight_put_copy i (length ks) (tpixel_of pf) (unpacker_new pf) t rd fb1 = Inr fb2 \<and> painted fb fb2 (inside t) (seen pf src)"
proof (induction ks arbitrary: i rd fb1)
  case Nil
  then show ?case using tight_all [OF z] by auto
next
  case (Cons k ks)
  have i: "i < length (tkeys pf src t)" using Cons.prems(2) by simp
  have k: "tkeys pf src t ! i = k" by (rule nth_via_drop [OF Cons.prems(3) [symmetric]])
  have "reads d rd (push_key k (tp_bytes (tpixel_of pf)) @ tpalette_bytes pf ks)" using Cons.prems(4) by (simp add: tpalette_bytes_def)
  from read_tpixel_reads [OF tsendD(1) [OF z] this] obtain r1 where
    r1: "read_tpixel (tpixel_of pf) (unpacker_new pf) rd = Inr (kt pf k, r1)" "reads d r1 (tpalette_bytes pf ks)" by blast
  obtain fb2 where f: "put_pixels i (rx1 t) (ry1 t) (rect_width t) [kt pf k] fb1 = Inr fb2" "painted fb fb2 (partly t (Suc i)) (seen pf src)"
    using put_one [OF z Cons.prems(1) i, of "kt pf k"] k by auto
  have "ks = drop (Suc i) (tkeys pf src t)" using Cons.prems(3) by (metis drop_Suc list.sel(3) tl_drop)
  with Cons.IH [OF f(2) _ _ r1(2)] f(1) Cons.prems(2) r1(1) show ?case by fastforce
qed

lemma put_indexed_ok:
  assumes z: "tsend pf src t fb"
  shows "painted fb fb1 (partly t i) (seen pf src) \<Longrightarrow> i + length is = length (tkeys pf src t)
    \<Longrightarrow> \<forall>j<length is. unat (is ! j) < length pal \<and> pal ! unat (is ! j) = kt pf (tkeys pf src t ! (i + j)) \<Longrightarrow>
    \<exists>fb2. tight_put_indexed i is pal t fb1 = Inr fb2 \<and> painted fb fb2 (inside t) (seen pf src)"
proof (induction "is" arbitrary: i fb1)
  case Nil
  then show ?case using tight_all [OF z] by auto
next
  case (Cons x xs)
  have i: "i < length (tkeys pf src t)" using Cons.prems(2) by simp
  have x: "unat x < length pal" "pal ! unat x = kt pf (tkeys pf src t ! i)" using Cons.prems(3) by (auto dest: spec [of _ 0])
  obtain fb2 where f: "put_pixels i (rx1 t) (ry1 t) (rect_width t) [pal ! unat x] fb1 = Inr fb2" "painted fb fb2 (partly t (Suc i)) (seen pf src)"
    using put_one [OF z Cons.prems(1) i x(2)] by auto
  have "\<forall>j<length xs. unat (xs ! j) < length pal \<and> pal ! unat (xs ! j) = kt pf (tkeys pf src t ! (Suc i + j))"
  proof (intro allI impI)
    fix j assume "j < length xs"
    with Cons.prems(3) [rule_format, of "Suc j"]
    show "unat (xs ! j) < length pal \<and> pal ! unat (xs ! j) = kt pf (tkeys pf src t ! (Suc i + j))" by simp
  qed
  with Cons.IH [OF f(2)] f(1) x(1) Cons.prems(2) show ?case by simp
qed

text \<open>The rows of two colours.\<close>

definition trow :: "pixel_format \<Rightarrow> framebuffer \<Rightarrow> rect \<Rightarrow> nat \<Rightarrow> u32 list" where
  "trow pf src t j = take (nat (rx2 t - rx1 t)) (drop (j * nat (rx2 t - rx1 t)) (tkeys pf src t))"

lemma rows_of_eq: "length xs = h * w \<Longrightarrow> 0 < w \<Longrightarrow> rows_of w xs = map (\<lambda>j. take w (drop (j * w) xs)) [0 ..< h]"
proof (induction h arbitrary: xs)
  case 0
  then show ?case by (subst rows_of.simps) simp
next
  case (Suc h)
  have "[0 ..< Suc h] = 0 # map Suc [0 ..< h]" by (simp add: map_Suc_upt upt_conv_Cons)
  moreover have "rows_of w (drop w xs) = map (\<lambda>j. take w (drop (j * w) (drop w xs))) [0 ..< h]" using Suc.prems by (intro Suc.IH) simp_all
  moreover have "xs \<noteq> []" using Suc.prems by auto
  ultimately show ?case using Suc.prems(2) by (subst rows_of.simps) (simp add: add.commute)
qed

lemma trow_facts:
  assumes z: "tsend pf src t fb" and j: "j < nat (ry2 t - ry1 t)"
  shows "length (trow pf src t j) = nat (rx2 t - rx1 t)" "set (trow pf src t j) \<subseteq> set (tkeys pf src t)"
    and "c < nat (rx2 t - rx1 t) \<Longrightarrow> kt pf (trow pf src t j ! c) = seen pf src (nat (rx1 t) + c) (nat (ry1 t) + j)"
proof -
  note s = tsendD [OF z]
  let ?w = "nat (rx2 t - rx1 t)"
  have "Suc j * ?w \<le> nat (ry2 t - ry1 t) * ?w" using j by (intro mult_le_mono1) simp
  then have le: "j * ?w + ?w \<le> length (tkeys pf src t)" by (simp add: s(13) mult.commute)
  show "length (trow pf src t j) = ?w" using le by (simp add: trow_def)
  show "set (trow pf src t j) \<subseteq> set (tkeys pf src t)" unfolding trow_def by (meson set_drop_subset set_take_subset subset_trans)
  assume c: "c < ?w"
  have b: "0 \<le> rx1 t" "0 \<le> ry1 t" using s(4) by (simp_all add: in_picture_def)
  have ins: "inside t (nat (rx1 t) + c) (nat (ry1 t) + j)" and idx: "tile_index t (nat (rx1 t) + c) (nat (ry1 t) + j) = j * ?w + c"
    using c j b s(7,8) by (auto simp: inside_iff tile_index_def)
  show "kt pf (trow pf src t j ! c) = seen pf src (nat (rx1 t) + c) (nat (ry1 t) + j)"
    using seen_at(2) [OF z ins] c le by (simp add: idx trow_def)
qed

lemma mono_row_facts:
  shows "length (mono_row pal row) = div_ceil (length row) 8"
    and "c < length row \<Longrightarrow> packed_index 1 (mono_row pal row @ rest) c = Some (if row ! c = pal ! 1 then 1 else 0)"
proof -
  let ?is = "map (\<lambda>key. if key = pal ! 1 then 1 else 0 :: u8) row"
  have f: "\<forall>i\<in>set ?is. fits 1 i" by (auto simp: fits_iff)
  show "length (mono_row pal row) = div_ceil (length row) 8"
    using length_pack_row [OF f] by (simp add: mono_row_def)
  assume c: "c < length row"
  have p: "packed_index 1 (mono_row pal row) c = Some (unat (?is ! c))"
    using packed_index_row [OF f, of c] c by (simp add: mono_row_def)
  then have "c div 8 < length (mono_row pal row)" by (simp add: packed_index_def Let_def split: if_splits)
  then have "packed_index 1 (mono_row pal row @ rest) c = packed_index 1 (mono_row pal row) c"
    by (simp add: packed_index_def nth_append)
  then show "packed_index 1 (mono_row pal row @ rest) c = Some (if row ! c = pal ! 1 then 1 else 0)" using p c by simp
qed

lemma drop_concat_rows:
  assumes "\<And>j. length (f j) = p" shows "drop (y * p) (concat (map f [a ..< a + n])) = concat (map f [a + y ..< a + n])"
proof (induction y arbitrary: a n)
  case (Suc y)
  show ?case
  proof (cases n)
    case (Suc m)
    have "[a ..< a + n] = a # [Suc a ..< Suc a + m]" by (simp add: Suc upt_conv_Cons)
    then have "concat (map f [a ..< a + n]) = f a @ concat (map f [Suc a ..< Suc a + m])" by simp
    then have "drop (Suc y * p) (concat (map f [a ..< a + n])) = drop (y * p) (concat (map f [Suc a ..< Suc a + m]))"
      using assms [of a] by simp
    then show ?thesis unfolding Suc.IH by (simp add: Suc)
  qed simp
qed simp

lemma put_mono_ok:
  assumes z: "tsend pf src t fb" and pal: "length pal = 2" "set (tkeys pf src t) \<subseteq> set pal"
    and d: "data = concat (map (mono_row pal) (rows_of (nat (rx2 t - rx1 t)) (tkeys pf src t)))"
  shows "j + n = nat (ry2 t - ry1 t) \<Longrightarrow> painted fb fb1 (\<lambda>x y. inside t x y \<and> int y < ry1 t + int j) (seen pf src) \<Longrightarrow>
    \<exists>fb2. tight_put_mono [j ..< j + n] (nat (rx2 t - rx1 t)) data (map (kt pf) pal) t fb1 = Inr fb2
      \<and> painted fb fb2 (inside t) (seen pf src)"
proof (induction n arbitrary: j fb1)
  case 0
  then have "ry1 t + int j = ry2 t" using tsendD(8) [OF z] by simp
  then have "painted fb fb1 (inside t) (seen pf src)"
    by (intro painted_cong [OF 0(2)]) (auto simp: inside_iff)
  then show ?case by simp
next
  case (Suc n)
  note s = tsendD [OF z]
  let ?W = "nat (rx2 t - rx1 t)" and ?H = "nat (ry2 t - ry1 t)"
  let ?row = "\<lambda>j. mono_row pal (trow pf src t j)"
  have j: "j < ?H" using Suc.prems(1) by simp
  have rows: "data = concat (map ?row [0 ..< ?H])"
    using rows_of_eq [of "tkeys pf src t" ?H ?W] s(7,13) by (simp add: d trow_def comp_def mult.commute)
  have len: "length (?row j) = div_ceil ?W 8" if "j < ?H" for j
    using mono_row_facts(1) [of pal "trow pf src t j"] trow_facts(1) [OF z that] by simp
  have dropped: "drop (j * div_ceil ?W 8) data = ?row j @ concat (map ?row [Suc j ..< ?H])" and long: "\<not> length data < j * div_ceil ?W 8"
  proof -
    define f where "f = (\<lambda>i. if i < ?H then ?row i else replicate (div_ceil ?W 8) 0)"
    have lf: "length (f i) = div_ceil ?W 8" for i using len [of i] by (simp add: f_def)
    have m: "map ?row [a ..< ?H] = map f [a ..< ?H]" for a by (simp add: f_def)
    have "drop (j * div_ceil ?W 8) data = concat (map f [j ..< ?H])"
      using drop_concat_rows [where f = f and y = j and a = 0 and n = ?H, OF lf] by (simp add: rows m)
    moreover have "map f [j ..< ?H] = f j # map f [Suc j ..< ?H]" using j by (simp add: upt_conv_Cons)
    ultimately show "drop (j * div_ceil ?W 8) data = ?row j @ concat (map ?row [Suc j ..< ?H])" using j by (simp add: m f_def)
    have "length data = ?H * div_ceil ?W 8" using lf by (simp add: rows m length_concat comp_def sum_list_triv)
    then show "\<not> length data < j * div_ceil ?W 8" using j by (simp add: not_less)
  qed
  have lim: "0 \<le> rx1 t" "rx2 t \<le> int (fb_width fb)" "0 \<le> ry1 t" "ry2 t \<le> int (fb_height fb)" using s(6) by (simp_all add: in_picture_def)
  have y: "nat (ry1 t + int j) = nat (ry1 t) + j" using lim(3) by (simp add: nat_add_distrib)
  have y': "nat (ry1 t) + j < fb_height fb" using lim j by linarith
  have each: "nat (rx1 t) + c < fb_width fb \<and> length (seen pf src (nat (rx1 t) + c) (nat (ry1 t + int j))) = 4 \<and>
      (\<exists>idx<length (map (kt pf) pal). packed_index 1 (?row j @ concat (map ?row [Suc j ..< ?H])) c = Some idx
        \<and> map (kt pf) pal ! idx = seen pf src (nat (rx1 t) + c) (nat (ry1 t + int j)))" if "c \<in> set [0 ..< ?W]" for c
  proof -
    have c: "c < ?W" using that by simp
    note tr = trow_facts [OF z j]
    have "trow pf src t j ! c \<in> set pal" using tr(1,2) c pal(2) by (metis nth_mem subsetD)
    then have "pal ! (if trow pf src t j ! c = pal ! 1 then 1 else 0) = trow pf src t j ! c"
      using pal(1) by (auto simp: in_set_conv_nth less_2_cases_iff)
    then have "map (kt pf) pal ! (if trow pf src t j ! c = pal ! 1 then 1 else 0) = seen pf src (nat (rx1 t) + c) (nat (ry1 t + int j))"
      using tr(3) [OF c] pal(1) y by (auto split: if_splits)
    moreover have "nat (rx1 t) + c < fb_width fb" using lim c by linarith
    ultimately show ?thesis using mono_row_facts(2) [of c "trow pf src t j" pal] c tr(1) pal(1) by (simp add: seen_def through_def)
  qed
  have yp: "0 \<le> ry1 t + int j" "nat (ry1 t + int j) < fb_height fb" using lim(3) y y' by simp_all
  from unpack_row_paints [OF s(5) lim(1) yp Suc.prems(2) ballI [OF each]]
  obtain fb2 where f: "unpack_row [0 ..< ?W] 1 (?row j @ concat (map ?row [Suc j ..< ?H])) (map (kt pf) pal) (rx1 t) (ry1 t + int j) fb1 = Inr fb2"
    "painted fb fb2 (\<lambda>x y. (inside t x y \<and> int y < ry1 t + int j) \<or> y = nat (ry1 t + int j) \<and> (\<exists>c\<in>set [0 ..< ?W]. x = nat (rx1 t) + c)) (seen pf src)"
    by blast
  have p2: "painted fb fb2 (\<lambda>x y. inside t x y \<and> int y < ry1 t + int (Suc j)) (seen pf src)"
    by (rule painted_cong [OF f(2)]) (use row_inside [OF lim(1,3) j] y in auto)
  have e: "[j ..< j + Suc n] = j # [Suc j ..< Suc j + n]" by (simp add: upt_conv_Cons)
  from Suc.IH [OF _ p2] Suc.prems(1) obtain fb3 where
    "tight_put_mono [Suc j ..< Suc j + n] ?W data (map (kt pf) pal) t fb2 = Inr fb3" "painted fb fb3 (inside t) (seen pf src)" by auto
  then show ?case unfolding e using f(1) dropped long by (simp add: Let_def del: upt_Suc)
qed

section \<open>Control bytes and streams\<close>

lemma control_check:
  "list_all (\<lambda>n. let p = of_nat n :: u8 in
      (CTL_FILL OR p) AND 0xf0 = CTL_FILL \<and> (CTL_JPEG OR p) AND 0xf0 = CTL_JPEG
      \<and> list_all (\<lambda>sid. let c = push_bit 4 sid OR p OR CTL_EXPLICIT_FILTER in
            c AND 0xf0 \<noteq> CTL_FILL \<and> c AND 0xf0 \<noteq> CTL_JPEG \<and> c AND CTL_EXPLICIT_FILTER \<noteq> 0 \<and> drop_bit 4 c AND 0x03 = sid
            \<and> list_all (\<lambda>i. (c AND push_bit i 1 \<noteq> 0) = (p AND push_bit i 1 \<noteq> 0)) [0, 1, 2, 3])
          [STREAM_COPY, STREAM_MONO, STREAM_PALETTE]
      \<and> list_all (\<lambda>i. ((CTL_FILL OR p) AND push_bit i 1 \<noteq> 0) = (p AND push_bit i 1 \<noteq> 0)
            \<and> ((CTL_JPEG OR p) AND push_bit i 1 \<noteq> 0) = (p AND push_bit i 1 \<noteq> 0)) [0, 1, 2, 3]) [0 ..< 16]"
  by code_simp

lemma of_small: "p \<le> (0x0f :: u8) \<Longrightarrow> \<exists>n\<in>set [0 ..< 16]. p = of_nat n"
proof -
  assume "p \<le> 0x0f"
  then have "unat p \<in> set [0 ..< 16]" unfolding set_upt atLeastLessThan_iff by (simp add: word_le_nat_alt)
  then show ?thesis by (intro bexI [of _ "unat p"]) simp_all
qed

lemma reset_streams_cong:
  assumes "list_all (\<lambda>i. (c AND push_bit i 1 \<noteq> 0) = (p AND push_bit i 1 \<noteq> 0)) [0, 1, 2, 3]"
  shows "reset_streams fresh c zs = reset_streams fresh p zs"
  using assms by (simp add: reset_streams_def)

lemma control_fill:
  assumes "p \<le> (0x0f :: u8)"
  shows "(CTL_FILL OR p) AND 0xf0 = CTL_FILL" "reset_streams fresh (CTL_FILL OR p) zs = reset_streams fresh p zs"
proof -
  from of_small [OF assms] obtain n where n: "n \<in> set [0 ..< 16]" "p = of_nat n" by blast
  note c = control_check [unfolded list_all_iff Let_def, rule_format, OF n(1), folded n(2)]
  show "(CTL_FILL OR p) AND 0xf0 = CTL_FILL" using c by blast
  show "reset_streams fresh (CTL_FILL OR p) zs = reset_streams fresh p zs"
    by (rule reset_streams_cong) (use c in \<open>simp only: list_all_iff\<close>, blast)
qed

lemma control_basic:
  assumes "p \<le> (0x0f :: u8)" "sid \<in> {STREAM_COPY, STREAM_MONO, STREAM_PALETTE}"
  defines "c \<equiv> push_bit 4 sid OR p OR CTL_EXPLICIT_FILTER"
  shows "c AND 0xf0 \<noteq> CTL_FILL" "c AND 0xf0 \<noteq> CTL_JPEG" "c AND CTL_EXPLICIT_FILTER \<noteq> 0" "drop_bit 4 c AND 0x03 = sid"
    "reset_streams fresh c zs = reset_streams fresh p zs"
proof -
  from of_small [OF assms(1)] obtain n where n: "n \<in> set [0 ..< 16]" "p = of_nat n" by blast
  have sid: "sid \<in> set [STREAM_COPY, STREAM_MONO, STREAM_PALETTE]" using assms(2) by simp
  from control_check [unfolded list_all_iff Let_def, rule_format, OF n(1), folded n(2), THEN conjunct2, THEN conjunct2,
      THEN conjunct1, rule_format, OF sid, folded c_def]
  have k: "c AND 0xf0 \<noteq> CTL_FILL" "c AND 0xf0 \<noteq> CTL_JPEG" "c AND CTL_EXPLICIT_FILTER \<noteq> 0" "drop_bit 4 c AND 0x03 = sid"
    "\<forall>i\<in>set [0, 1, 2, 3]. (c AND push_bit i 1 \<noteq> 0) = (p AND push_bit i 1 \<noteq> 0)" by blast+
  show "c AND 0xf0 \<noteq> CTL_FILL" "c AND 0xf0 \<noteq> CTL_JPEG" "c AND CTL_EXPLICIT_FILTER \<noteq> 0" "drop_bit 4 c AND 0x03 = sid"
    by (fact k)+
  show "reset_streams fresh c zs = reset_streams fresh p zs"
    by (rule reset_streams_cong) (use k(5) in \<open>simp only: list_all_iff\<close>)
qed

text \<open>The four pairs of streams agree once the reset bits still to be sent are applied at the other
  end.\<close>

definition pairs :: "('d \<Rightarrow> 'i \<Rightarrow> bytes \<Rightarrow> bytes \<Rightarrow> bool) \<Rightarrow> 'd list \<Rightarrow> 'i list \<Rightarrow> bool" where
  "pairs rel ss zs \<longleftrightarrow> length ss = 4 \<and> length zs = 4 \<and> (\<forall>i<4. rel (ss ! i) (zs ! i) [] [])"

definition in_step :: "('d \<Rightarrow> 'i \<Rightarrow> bytes \<Rightarrow> bytes \<Rightarrow> bool) \<Rightarrow> 'i \<Rightarrow> 'd tight \<Rightarrow> 'i tight_reader \<Rightarrow> bool" where
  "in_step rel fresh t z \<longleftrightarrow>
    tt_pending_reset t \<le> 0x0f \<and> pairs rel (tt_streams t) (reset_streams fresh (tt_pending_reset t) (td_streams z))"

lemma reset_streams_0: "reset_streams fresh 0 zs = zs"
  by (simp add: reset_streams_def)

lemma compressed_body:
  assumes "zlib_laws cv dv rel mu flushed" "pairs rel (tt_streams t) zs" "unat sid < 4"
  shows "\<exists>out t'. tight_compressed cv sid body t = Some (out, t')
    \<and> tt_pending_reset t' = tt_pending_reset t \<and> tt_quality t' = tt_quality t \<and> tt_level t' = tt_level t
    \<and> (length out < 2 ^ 21 \<longrightarrow> (\<forall>d r rest. reads d r (out @ rest) \<longrightarrow>
        (\<exists>r' zs'. tight_body dv (unat sid) (length body) r zs = Some (Inr (body, r', zs')) \<and> reads d r' rest \<and> pairs rel (tt_streams t') zs')
      \<and> (\<exists>r'. (if length body < 12 then map_sum id snd (rd_take (length body) r) else skip_compact r) = Inr r' \<and> reads d r' rest)))"
proof (cases "length body < 12")
  case True
  then have "tight_compressed cv sid body t = Some (body, t)" by (simp add: tight_compressed_def MIN_TO_COMPRESS_def)
  moreover have "\<exists>r'. rd_take (length body) r = Inr (body, r') \<and> reads d r' rest" if "reads d r (body @ rest)" for d r rest
    using rd_take_reads [OF that] by simp
  ultimately show ?thesis using True assms(2) by (fastforce simp: tight_body_def)
next
  case False
  have p: "rel (tt_streams t ! unat sid) (zs ! unat sid) [] []" "length (tt_streams t) = 4" "length zs = 4"
    using assms(2,3) by (simp_all add: pairs_def)
  obtain packed s' z' where st: "deflate cv (tt_streams t ! unat sid) body = Some (packed, s')"
    "inflate dv (zs ! unat sid) packed = Some (Inr (body, z'))" "rel s' z' [] []"
    using stream_round_trip [OF assms(1) p(1)] by blast
  let ?out = "push_compact (length packed) @ packed" and ?t = "t\<lparr>tt_streams := (tt_streams t)[unat sid := s']\<rparr>"
  have "tight_compressed cv sid body t = Some (?out, ?t)"
    using False p st(1) assms(3) by (simp add: tight_compressed_def MIN_TO_COMPRESS_def)
  moreover have "pairs rel (tt_streams ?t) (zs[unat sid := z'])"
    using assms(2,3) st(3) by (auto simp: pairs_def nth_list_update)
  moreover have "(\<exists>r' zs'. tight_body dv (unat sid) (length body) r zs = Some (Inr (body, r', zs')) \<and> reads d r' rest \<and> zs' = zs[unat sid := z'])
      \<and> (\<exists>r'. skip_compact r = Inr r' \<and> reads d r' rest)"
    if l: "length ?out < 2 ^ 21" and r: "reads d r (?out @ rest)" for d r rest
  proof -
    have n: "length packed mod 2 ^ 21 = length packed" "length packed < 2 ^ 22" using l by simp_all
    have "reads d r (push_compact (length packed) @ (packed @ rest))" using r by simp
    from read_push_compact [OF n(2) this] n(1) obtain r1 where
      r1: "read_compact r = Inr (length packed, r1)" "reads d r1 (packed @ rest)" by auto
    from rd_take_reads [OF r1(2)] obtain r2 where "rd_take (length packed) r1 = Inr (packed, r2)" "reads d r2 rest" by blast
    then show ?thesis using r1(1) False st(2) p(3) assms(3) by (simp add: tight_body_def skip_compact_def)
  qed
  ultimately show ?thesis using False by fastforce
qed

section \<open>One piece\<close>

text \<open>What is required of the bytes of a piece.\<close>

definition piece_sent ::
  "'i decompress_vec \<Rightarrow> 'i \<Rightarrow> jpeg_dec \<Rightarrow> ('d \<Rightarrow> 'i \<Rightarrow> bytes \<Rightarrow> bytes \<Rightarrow> bool) \<Rightarrow> pixel_format \<Rightarrow> framebuffer \<Rightarrow> rect \<Rightarrow>
    framebuffer \<Rightarrow> 'i tight_reader \<Rightarrow> bytes \<Rightarrow> 'd tight \<Rightarrow> bool" where
  "piece_sent dv fresh jd rel pf src t fb z out e' \<longleftrightarrow> (length out < 2 ^ 21 \<longrightarrow> (\<forall>rest. \<exists>fb' z'.
      tight_decode dv fresh jd z (out @ rest) t pf fb = Some (Inr (length out, fb', z'))
      \<and> painted fb fb' (inside t) (seen pf src) \<and> in_step rel fresh e' z'
      \<and> payload_len (out @ rest) t pf = Inr (length out)))"

lemma first_byte: "\<exists>r. rd_byte (reader_new (b # bs)) = Inr (b, r) \<and> reads (b # bs) r bs"
  using rd_byte_reads [OF reads_new] .

lemma reads_end: "reads (out @ rest) r rest \<Longrightarrow> rd_at r = length out"
  by (drule reads_at) simp

lemma fill_sent:
  assumes z: "tsend pf src t fb" and st: "in_step rel fresh e zr" and one: "tight_palette (tkeys pf src t) [] = [k]"
  shows "piece_sent dv fresh jd rel pf src t fb zr
    ((CTL_FILL OR tt_pending_reset e) # push_key k (tp_bytes (tpixel_of pf))) (e\<lparr>tt_pending_reset := 0\<rparr>)"
  unfolding piece_sent_def
proof (intro impI allI)
  fix rest
  note s = tsendD [OF z]
  let ?p = "tt_pending_reset e" and ?body = "push_key k (tp_bytes (tpixel_of pf))"
  let ?c = "CTL_FILL OR ?p"
  have p: "?p \<le> 0x0f" and zs: "pairs rel (tt_streams e) (reset_streams fresh ?p (td_streams zr))" using st by (simp_all add: in_step_def)
  note c = control_fill [OF p]
  obtain r where r: "rd_byte (reader_new (?c # ?body @ rest)) = Inr (?c, r)" "reads (?c # ?body @ rest) r (?body @ rest)"
    using first_byte by blast
  obtain r1 where r1: "read_tpixel (tpixel_of pf) (unpacker_new pf) r = Inr (kt pf k, r1)" "reads (?c # ?body @ rest) r1 rest"
    using read_tpixel_reads [OF s(1) r(2)] by blast
  obtain r2 where r2: "rd_take (tp_bytes (tpixel_of pf)) r = Inr (?body, r2)" "reads (?c # ?body @ rest) r2 rest"
    using rd_take_reads [OF r(2) length_push_key] tpixel_small [OF s(1)] by blast
  obtain fb' where f: "fill_or_panic t (kt pf k) fb = Inr fb'" "painted fb fb' (inside t) (\<lambda>_ _. kt pf k)"
    using fill_painted [OF s(5) length_kt] by blast
  have keys: "set (tkeys pf src t) \<subseteq> {k}" using tight_palette_facts(1) [of "[]" "tkeys pf src t"] by (auto simp: one)
  have "painted fb fb' (inside t) (seen pf src)"
  proof (rule painted_cong [OF f(2)])
    fix x y assume "inside t x y"
    with seen_at [OF z this] keys show "kt pf k = seen pf src x y" by (metis nth_mem singletonD subsetD)
  qed simp
  moreover have "rd_at r1 = Suc (length ?body)" "rd_at r2 = Suc (length ?body)"
    using r1(2) r2(2) reads_end [of "?c # ?body" rest] by simp_all
  ultimately show "\<exists>fb' z'. tight_decode dv fresh jd zr ((?c # ?body) @ rest) t pf fb = Some (Inr (length (?c # ?body), fb', z'))
      \<and> painted fb fb' (inside t) (seen pf src) \<and> in_step rel fresh (e\<lparr>tt_pending_reset := 0\<rparr>) z'
      \<and> payload_len ((?c # ?body) @ rest) t pf = Inr (length (?c # ?body))"
    using r(1) r1(1) r2(1) f(1) zs
    by (simp add: c tight_decode_def tight_read_piece_def Let_def payload_len_def in_step_def reset_streams_0)
qed

text \<open>The shapes with a filter: the control byte, the filter, what comes before the data, and the data.\<close>

lemma basic_sent:
  assumes z: "tsend pf src t fb" and st: "in_step rel fresh e zr" and laws: "zlib_laws cv dv rel mu flushed"
    and sid: "sid \<in> {STREAM_COPY, STREAM_MONO, STREAM_PALETTE}" and flt: "flt \<in> {FILTER_COPY, FILTER_PALETTE}"
    and enc: "tight_compressed cv sid body (e\<lparr>tt_pending_reset := 0\<rparr>) = Some (data, e')"
    and len: "\<And>d r rest. reads d r (pre @ data @ rest) \<Longrightarrow>
      \<exists>r'. payload_basic (nat (rx2 t - rx1 t)) (nat (ry2 t - ry1 t)) (tpixel_of pf) flt r = Inr (length body, r') \<and> reads d r' (data @ rest)"
    and dec: "\<And>d r r1 r2 rest zs zs'. reads d r (pre @ data @ rest) \<Longrightarrow> reads d r2 rest \<Longrightarrow>
      (\<And>r1. reads d r1 (data @ rest) \<Longrightarrow> tight_body dv (unat sid) (length body) r1 zs = Some (Inr (body, r2, zs'))) \<Longrightarrow>
      \<exists>fb'. (if flt = FILTER_COPY then tight_copy_body dv (unat sid) (tpixel_of pf) (unpacker_new pf) t r fb zs
             else tight_palette_body dv (unat sid) (tpixel_of pf) (unpacker_new pf) t r fb zs) = Some (Inr (r2, fb', zs'))
        \<and> painted fb fb' (inside t) (seen pf src)"
  shows "piece_sent dv fresh jd rel pf src t fb zr
    ((push_bit 4 sid OR tt_pending_reset e OR CTL_EXPLICIT_FILTER) # flt # pre @ data) e'"
  unfolding piece_sent_def
proof (intro impI allI)
  fix rest
  note s = tsendD [OF z]
  let ?p = "tt_pending_reset e"
  let ?c = "push_bit 4 sid OR ?p OR CTL_EXPLICIT_FILTER"
  let ?out = "?c # flt # pre @ data"
  assume "length ?out < 2 ^ 21"
  then have short: "length data < 2 ^ 21" by simp
  define zs where "zs = reset_streams fresh ?p (td_streams zr)"
  have p: "?p \<le> 0x0f" and pr: "pairs rel (tt_streams (e\<lparr>tt_pending_reset := 0\<rparr>)) zs" using st by (simp_all add: in_step_def zs_def)
  have s4: "unat sid < 4" using sid by (auto simp: tight_consts)
  note c = control_basic [OF p sid]
  obtain r where r: "rd_byte (reader_new (?out @ rest)) = Inr (?c, r)" "reads (?out @ rest) r (flt # pre @ data @ rest)"
    using first_byte [of ?c "flt # pre @ data @ rest"] by auto
  obtain r1 where r1: "rd_byte r = Inr (flt, r1)" "reads (?out @ rest) r1 (pre @ data @ rest)"
    using rd_byte_reads [OF r(2)] by blast
  have ex: "explicit_filter ?c r = Inr (flt, r1)" using c(3) r1(1) by (simp add: explicit_filter_def)
  obtain r2 where r2: "payload_basic (nat (rx2 t - rx1 t)) (nat (ry2 t - ry1 t)) (tpixel_of pf) flt r1 = Inr (length body, r2)"
    "reads (?out @ rest) r2 (data @ rest)" using len [OF r1(2)] by blast
  from compressed_body [OF laws pr s4, of body]
  have pend: "tt_pending_reset e' = 0"
    and cb: "\<And>d r rest. length data < 2 ^ 21 \<Longrightarrow> reads d r (data @ rest) \<Longrightarrow>
        (\<exists>r' zs'. tight_body dv (unat sid) (length body) r zs = Some (Inr (body, r', zs')) \<and> reads d r' rest \<and> pairs rel (tt_streams e') zs')
      \<and> (\<exists>r'. (if length body < 12 then map_sum id snd (rd_take (length body) r) else skip_compact r) = Inr r' \<and> reads d r' rest)"
    unfolding enc by auto
  from cb [OF _ r2(2)] short obtain r3 zs' r3' where
    r3: "tight_body dv (unat sid) (length body) r2 zs = Some (Inr (body, r3, zs'))" "reads (?out @ rest) r3 rest" "pairs rel (tt_streams e') zs'"
    "(if length body < 12 then map_sum id snd (rd_take (length body) r2) else skip_compact r2) = Inr r3'" "reads (?out @ rest) r3' rest"
    by auto
  have at: "rd_at r3 = length ?out" "rd_at r3' = length ?out" using reads_end r3(2,5) by blast+
  have same: "r1' = r2" if "reads (?out @ rest) r1' (data @ rest)" for r1'
    using that r2(2) reads_at [OF that] reads_at [OF r2(2)] by (cases r1'; cases r2) (simp add: reads_def)
  obtain fb' where f: "(if flt = FILTER_COPY then tight_copy_body dv (unat sid) (tpixel_of pf) (unpacker_new pf) t r1 fb zs
             else tight_palette_body dv (unat sid) (tpixel_of pf) (unpacker_new pf) t r1 fb zs) = Some (Inr (r3, fb', zs'))"
    "painted fb fb' (inside t) (seen pf src)"
    using dec [OF r1(2) r3(2), of zs zs'] same r3(1) by blast
  obtain c0 where c0: "c0 = ?c" by simp
  have "tight_read_piece dv jd c0 pf t r fb zs = Some (Inr (r3, fb', zs'))"
    using c(1,2) [folded c0] ex [folded c0] f(1) flt
    by (auto simp: tight_read_piece_def Let_def c(4) [folded c0] FILTER_COPY_def FILTER_PALETTE_def)
  then have "tight_read_piece dv jd ?c pf t r fb zs = Some (Inr (r3, fb', zs'))" unfolding c0 .
  then have "tight_decode dv fresh jd zr (?out @ rest) t pf fb = Some (Inr (length ?out, fb', \<lparr>td_streams = zs'\<rparr>))"
    using r(1) at(1) by (simp add: tight_decode_def c(5) zs_def)
  moreover have "payload_len (?out @ rest) t pf = Inr (length ?out)"
    using r(1) c(1,2) ex r2(1) r3(4) at(2)
    by (auto simp: payload_len_def Let_def s(9-12) split: if_splits sum.splits)
  ultimately show "\<exists>fb' z'. tight_decode dv fresh jd zr (?out @ rest) t pf fb = Some (Inr (length ?out, fb', z'))
      \<and> painted fb fb' (inside t) (seen pf src) \<and> in_step rel fresh e' z' \<and> payload_len (?out @ rest) t pf = Inr (length ?out)"
    using f(2) r3(3) pend by (auto simp: in_step_def reset_streams_0)
qed

lemma pixels_of: "tsend pf src t fb \<Longrightarrow> u32_of (rect_width t) * u32_of (rect_height t) = length (tkeys pf src t)"
  using tsendD(9-13) [of pf src t fb] by simp

lemma copy_sent:
  assumes z: "tsend pf src t fb" and st: "in_step rel fresh e zr" and laws: "zlib_laws cv dv rel mu flushed"
  shows "\<exists>out e'. tight_copy cv (tpalette_bytes pf (tkeys pf src t)) e = Some (out, e') \<and> tt_quality e' = tt_quality e
    \<and> piece_sent dv fresh jd rel pf src t fb zr out e'"
proof -
  note s = tsendD [OF z]
  let ?body = "tpalette_bytes pf (tkeys pf src t)" and ?e = "e\<lparr>tt_pending_reset := 0\<rparr>"
  have pr: "pairs rel (tt_streams ?e) (reset_streams fresh (tt_pending_reset e) (td_streams zr))" using st by (simp add: in_step_def)
  have s0: "unat STREAM_COPY < 4" by (simp add: STREAM_COPY_def)
  from compressed_body [OF laws pr s0, of ?body] obtain data e' where
    enc: "tight_compressed cv STREAM_COPY ?body ?e = Some (data, e')" and q: "tt_quality e' = tt_quality e" by auto
  have n: "nat (rx2 t - rx1 t) * nat (ry2 t - ry1 t) * tp_bytes (tpixel_of pf) = length ?body"
    by (simp add: length_tpalette_bytes [OF s(1)] s(13))
  have "piece_sent dv fresh jd rel pf src t fb zr ((push_bit 4 STREAM_COPY OR tt_pending_reset e OR CTL_EXPLICIT_FILTER) # FILTER_COPY # [] @ data) e'"
  proof (rule basic_sent [OF z st laws _ _ enc])
    fix d r rest assume "reads d r ([] @ data @ rest)"
    then show "\<exists>r'. payload_basic (nat (rx2 t - rx1 t)) (nat (ry2 t - ry1 t)) (tpixel_of pf) FILTER_COPY r = Inr (length ?body, r')
        \<and> reads d r' (data @ rest)" by (simp add: payload_basic_def Let_def n FILTER_COPY_def FILTER_PALETTE_def)
  next
    fix d r r2 rest zs zs'
    assume r: "reads d r ([] @ data @ rest)" and b: "\<And>r1. reads d r1 (data @ rest) \<Longrightarrow> tight_body dv (unat STREAM_COPY) (length ?body) r1 zs = Some (Inr (?body, r2, zs'))"
    obtain fb' where f: "tight_put_copy 0 (length (tkeys pf src t)) (tpixel_of pf) (unpacker_new pf) t (reader_new ?body) fb = Inr fb'"
      "painted fb fb' (inside t) (seen pf src)"
      using put_copy_ok [OF z partly_0 [OF s(5)] _ _ reads_new] by auto
    have "length (tkeys pf src t) * tp_bytes (tpixel_of pf) = length ?body" using n s(13) by simp
    with b [of r] r have "tight_copy_body dv (unat STREAM_COPY) (tpixel_of pf) (unpacker_new pf) t r fb zs = Some (Inr (r2, fb', zs'))"
      by (simp add: tight_copy_body_def Let_def pixels_of [OF z] f(1))
    then show "\<exists>fb'. (if FILTER_COPY = FILTER_COPY then tight_copy_body dv (unat STREAM_COPY) (tpixel_of pf) (unpacker_new pf) t r fb zs
           else tight_palette_body dv (unat STREAM_COPY) (tpixel_of pf) (unpacker_new pf) t r fb zs) = Some (Inr (r2, fb', zs'))
        \<and> painted fb fb' (inside t) (seen pf src)" using f(2) by auto
  qed simp_all
  moreover have "tight_copy cv ?body e = Some ((push_bit 4 STREAM_COPY OR tt_pending_reset e OR CTL_EXPLICIT_FILTER) # FILTER_COPY # [] @ data, e')"
    using enc by (simp add: tight_copy_def take_reset_def or.commute or.left_commute or.assoc)
  ultimately show ?thesis using q by blast
qed

lemma palette_sent:
  assumes z: "tsend pf src t fb" and st: "in_step rel fresh e zr" and laws: "zlib_laws cv dv rel mu flushed"
    and sid: "sid \<in> {STREAM_MONO, STREAM_PALETTE}" and pal: "0 < length pal" "length pal \<le> 256"
    and want: "length body = (if length pal = 2 then div_ceil (nat (rx2 t - rx1 t)) 8 * nat (ry2 t - ry1 t) else length (tkeys pf src t))"
    and put: "\<exists>fb'. (if length pal = 2 then tight_put_mono [0 ..< nat (ry2 t - ry1 t)] (nat (rx2 t - rx1 t)) body (map (kt pf) pal) t fb
        else tight_put_indexed 0 (take (length (tkeys pf src t)) body) (map (kt pf) pal) t fb) = Inr fb' \<and> painted fb fb' (inside t) (seen pf src)"
  shows "\<exists>out e'. tight_basic cv sid (Some FILTER_PALETTE) (tpixel_of pf) (length pal) pal body e = Some (out, e') \<and> tt_quality e' = tt_quality e
    \<and> piece_sent dv fresh jd rel pf src t fb zr out e'"
proof -
  note s = tsendD [OF z]
  let ?e = "e\<lparr>tt_pending_reset := 0\<rparr>" and ?tp = "tpixel_of pf" and ?W = "nat (rx2 t - rx1 t)" and ?H = "nat (ry2 t - ry1 t)"
  obtain b0 :: u8 where b0: "b0 = of_nat (length pal - 1)" by simp
  let ?pre = "b0 # tpalette_bytes pf pal"
  have sid': "sid \<in> {STREAM_COPY, STREAM_MONO, STREAM_PALETTE}" using sid by blast
  have pr: "pairs rel (tt_streams ?e) (reset_streams fresh (tt_pending_reset e) (td_streams zr))" using st by (simp add: in_step_def)
  have s4: "unat sid < 4" using sid by (auto simp: tight_consts)
  from compressed_body [OF laws pr s4, of body] obtain data e' where
    enc: "tight_compressed cv sid body ?e = Some (data, e')" and q: "tt_quality e' = tt_quality e" by auto
  have u: "Suc (unat b0) = length pal"
    using pal by (simp add: b0 unsigned_of_nat take_bit_nat_eq_self)
  have f1: "FILTER_PALETTE \<noteq> FILTER_COPY" by (simp add: FILTER_COPY_def FILTER_PALETTE_def)
  obtain fb' where f: "(if length pal = 2 then tight_put_mono [0 ..< ?H] ?W body (map (kt pf) pal) t fb
        else tight_put_indexed 0 (take (length (tkeys pf src t)) body) (map (kt pf) pal) t fb) = Inr fb'" "painted fb fb' (inside t) (seen pf src)"
    using put by blast
  have "piece_sent dv fresh jd rel pf src t fb zr ((push_bit 4 sid OR tt_pending_reset e OR CTL_EXPLICIT_FILTER) # FILTER_PALETTE # ?pre @ data) e'"
  proof (rule basic_sent [OF z st laws sid' _ enc])
    fix d r rest assume r: "reads d r (?pre @ data @ rest)"
    then obtain r1 where r1: "rd_byte r = Inr (b0, r1)" "reads d r1 (tpalette_bytes pf pal @ data @ rest)"
      using rd_byte_reads [of d r] by auto
    from rd_take_reads [OF r1(2) length_tpalette_bytes [OF s(1)]] obtain r2 where
      "rd_take (length pal * tp_bytes ?tp) r1 = Inr (tpalette_bytes pf pal, r2)" "reads d r2 (data @ rest)" by blast
    then show "\<exists>r'. payload_basic ?W ?H ?tp FILTER_PALETTE r = Inr (length body, r') \<and> reads d r' (data @ rest)"
      using r1(1) by (simp add: payload_basic_def Let_def u want s(13) del: mult_Suc)
  next
    fix d r r2 rest zs zs'
    assume r: "reads d r (?pre @ data @ rest)" and b: "\<And>r1. reads d r1 (data @ rest) \<Longrightarrow> tight_body dv (unat sid) (length body) r1 zs = Some (Inr (body, r2, zs'))"
    from r obtain r1 where r1: "rd_byte r = Inr (b0, r1)" "reads d r1 (tpalette_bytes pf pal @ data @ rest)"
      using rd_byte_reads [of d r] by auto
    obtain r1' where r1': "read_tpixels (length pal) ?tp (unpacker_new pf) r1 = Inr (map (kt pf) pal, r1')" "reads d r1' (data @ rest)"
      using read_tpixels_reads [OF s(1) r1(2)] by blast
    have "tight_palette_body dv (unat sid) ?tp (unpacker_new pf) t r fb zs = Some (Inr (r2, fb', zs'))"
      using r1(1) r1'(1) b [OF r1'(2)] f(1)
      by (cases "length pal = 2") (simp_all add: tight_palette_body_def Let_def u want s(9-13) del: mult_Suc read_tpixels.simps)
    then show "\<exists>fb'. (if FILTER_PALETTE = FILTER_COPY then tight_copy_body dv (unat sid) ?tp (unpacker_new pf) t r fb zs
           else tight_palette_body dv (unat sid) ?tp (unpacker_new pf) t r fb zs) = Some (Inr (r2, fb', zs'))
        \<and> painted fb fb' (inside t) (seen pf src)" using f(2) f1 by auto
  qed simp_all
  moreover have "tight_basic cv sid (Some FILTER_PALETTE) ?tp (length pal) pal body e
      = Some ((push_bit 4 sid OR tt_pending_reset e OR CTL_EXPLICIT_FILTER) # FILTER_PALETTE # ?pre @ data, e')"
    using enc by (simp add: tight_basic_def take_reset_def Let_def tpalette_bytes_def b0)
  ultimately show ?thesis using q by blast
qed

lemma mono_sent:
  assumes z: "tsend pf src t fb" and st: "in_step rel fresh e zr" and laws: "zlib_laws cv dv rel mu flushed"
    and pal: "length pal = 2" "set (tkeys pf src t) \<subseteq> set pal"
  shows "\<exists>out e'. tight_mono cv (tpixel_of pf) t (tkeys pf src t) pal e = Some (out, e') \<and> tt_quality e' = tt_quality e
    \<and> piece_sent dv fresh jd rel pf src t fb zr out e'"
proof -
  note s = tsendD [OF z]
  let ?W = "nat (rx2 t - rx1 t)" and ?H = "nat (ry2 t - ry1 t)"
  let ?body = "concat (map (mono_row pal) (rows_of ?W (tkeys pf src t)))"
  have rows: "rows_of ?W (tkeys pf src t) = map (trow pf src t) [0 ..< ?H]"
    using rows_of_eq [of "tkeys pf src t" ?H ?W] s(7,13) by (simp add: trow_def mult.commute)
  have "map (\<lambda>j. length (mono_row pal (trow pf src t j))) [0 ..< ?H] = map (\<lambda>_. div_ceil ?W 8) [0 ..< ?H]"
    by (rule map_cong) (use trow_facts(1) [OF z] mono_row_facts(1) in auto)
  then have "length ?body = sum_list (map (\<lambda>_. div_ceil ?W 8) [0 ..< ?H])"
    unfolding rows length_concat map_map comp_def by (simp only:)
  then have len: "length ?body = div_ceil ?W 8 * ?H" by (simp add: sum_list_triv mult.commute)
  have "painted fb fb (\<lambda>x y. inside t x y \<and> int y < ry1 t + int 0) (seen pf src)"
    by (rule painted_cong [OF painted_refl [OF s(5)]]) (auto simp: inside_iff)
  from put_mono_ok [OF z pal refl _ this, of ?H]
  have "\<exists>fb'. tight_put_mono [0 ..< ?H] ?W ?body (map (kt pf) pal) t fb = Inr fb' \<and> painted fb fb' (inside t) (seen pf src)" by simp
  from palette_sent [OF z st laws, of STREAM_MONO pal ?body] this pal(1) len
  show ?thesis using s(7,9,11) by (simp add: tight_mono_def Let_def)
qed

lemma indexed_sent:
  assumes z: "tsend pf src t fb" and st: "in_step rel fresh e zr" and laws: "zlib_laws cv dv rel mu flushed"
    and pal: "0 < length pal" "length pal \<le> 256" "length pal \<noteq> 2" "set (tkeys pf src t) \<subseteq> set pal"
  shows "\<exists>out e'. tight_indexed cv (tpixel_of pf) (tkeys pf src t) pal e = Some (out, e') \<and> tt_quality e' = tt_quality e
    \<and> piece_sent dv fresh jd rel pf src t fb zr out e'"
proof -
  note s = tsendD [OF z]
  let ?ks = "tkeys pf src t"
  let ?is = "map (pal_index pal) ?ks"
  have ix: "index_of pal k = Some (pal_index pal k) \<and> unat (pal_index pal k) < length pal \<and> pal ! unat (pal_index pal k) = k" if k: "k \<in> set ?ks" for k
  proof -
    have "k \<in> set pal" using k pal(4) by blast
    from position_in [OF this] obtain i where i: "i < length pal" "position k pal = Some i" "pal ! i = k" by blast
    moreover from this have "unat (of_nat i :: u8) = i" using pal(2) by (simp add: unsigned_of_nat take_bit_nat_eq_self)
    ultimately show ?thesis by (simp add: index_of_def pal_index_def)
  qed
  then have those: "those (map (index_of pal) ?ks) = Some ?is" by (intro those_map_Some) simp
  have "\<forall>j<length ?is. unat (?is ! j) < length (map (kt pf) pal) \<and> map (kt pf) pal ! unat (?is ! j) = kt pf (?ks ! (0 + j))"
    using ix by simp
  from put_indexed_ok [OF z partly_0 [OF s(5)] _ this]
  have "\<exists>fb'. tight_put_indexed 0 (take (length ?ks) ?is) (map (kt pf) pal) t fb = Inr fb' \<and> painted fb fb' (inside t) (seen pf src)" by simp
  from palette_sent [OF z st laws, of STREAM_PALETTE pal ?is] this pal(1-3)
  show ?thesis by (simp add: tight_indexed_def those)
qed

text \<open>When nothing about a piece can be lossy: no quality, too small, or an encoder that gives up.\<close>

definition lossless :: "jpeg_enc \<Rightarrow> 'd tight \<Rightarrow> rect \<Rightarrow> bool" where
  "lossless je e t \<longleftrightarrow> tt_quality e = None \<or> rect_area t < MIN_FOR_JPEG \<or> (\<forall>q s rgb w h. \<exists>err. je q s rgb w h = Inl err)"

lemma tight_piece_sent:
  assumes z: "tsend pf src t fb" and st: "in_step rel fresh e zr" and laws: "zlib_laws cv dv rel mu flushed" and ll: "lossless je e t"
  shows "\<exists>out sp e'. tight_piece cv je src t pf e = Some (out, sp, e') \<and> spent_total sp = length out \<and> tt_quality e' = tt_quality e
    \<and> piece_sent dv fresh jd rel pf src t fb zr out e'"
proof -
  note s = tsendD [OF z]
  let ?ks = "tkeys pf src t" and ?tp = "tpixel_of pf"
  define pal where "pal = tight_palette ?ks []"
  have facts: "pal = [] \<or> set pal = set ?ks" "length pal \<le> 256" using tight_palette_facts [of "[]" ?ks] by (simp_all add: pal_def)
  note rd = tight_read_ok [OF s(1,3,4)]
  note unf = tight_piece_def Let_def rd pal_def [symmetric]
  consider (one) k where "pal = [k]" | (two) "length pal = 2" | (more) "length pal \<noteq> 1" "length pal \<noteq> 2" "0 < length pal" | (none) "pal = []"
    by (cases pal; cases "tl pal") auto
  then show ?thesis
  proof cases
    case (one k)
    then have "tight_palette ?ks [] = [k]" by (simp add: pal_def)
    from fill_sent [OF z st this] show ?thesis
      by (simp add: unf one take_reset_def spent_total_def spent_zero_def)
  next
    case two
    then have "set ?ks \<subseteq> set pal" using facts(1) by auto
    from mono_sent [OF z st laws two this] obtain out e' where
      "tight_mono cv ?tp t ?ks pal e = Some (out, e')" "tt_quality e' = tt_quality e" "piece_sent dv fresh jd rel pf src t fb zr out e'" by blast
    then show ?thesis using two by (simp add: unf spent_total_def spent_zero_def)
  next
    case more
    then have "set ?ks \<subseteq> set pal" using facts(1) by auto
    from indexed_sent [OF z st laws more(3) facts(2) more(2) this] obtain out e' where
      "tight_indexed cv ?tp ?ks pal e = Some (out, e')" "tt_quality e' = tt_quality e" "piece_sent dv fresh jd rel pf src t fb zr out e'" by blast
    then show ?thesis using more facts(2) by (simp add: unf spent_total_def spent_zero_def TIGHT_MAX_PALETTE_def)
  next
    case none
    from copy_sent [OF z st laws] obtain out e' where
      c: "tight_copy cv (tpalette_bytes pf ?ks) e = Some (out, e')" "tt_quality e' = tt_quality e" "piece_sent dv fresh jd rel pf src t fb zr out e'" by blast
    have "tight_jpeg cv je src t level (tpalette_bytes pf ?ks) e = Some (out, e')" if "\<forall>q s rgb w h. \<exists>err. je q s rgb w h = Inl err" for level
    proof -
      have "\<exists>err. jpeg_encode je rgb w h level = Inl err" for rgb w h
        using that [rule_format, of "jpeg_quality (min level 9)" "jpeg_sampling (min level 9)" rgb w h]
        by (auto simp: jpeg_encode_def Let_def)
      then obtain err where "jpeg_encode je (concat (map (\<lambda>px. [px ! 2, px ! 1, px ! 0]) (tile_px src t)))
          (word_of_int (rect_width t)) (word_of_int (rect_height t)) level = Inl err" by blast
      then show ?thesis using c(1) by (simp add: tight_jpeg_def read_points_tile [OF s(3,4)])
    qed
    with ll have "(if MIN_FOR_JPEG \<le> rect_area t then tt_quality e else None) = None
        \<or> (\<forall>level. tight_jpeg cv je src t level (tpalette_bytes pf ?ks) e = Some (out, e'))"
      by (auto simp: lossless_def)
    then show ?thesis
    proof
      assume "(if MIN_FOR_JPEG \<le> rect_area t then tt_quality e else None) = None"
      then show ?thesis using c by (simp add: unf none spent_total_def spent_zero_def)
    next
      assume "\<forall>level. tight_jpeg cv je src t level (tpalette_bytes pf ?ks) e = Some (out, e')"
      then show ?thesis using c
        by (cases "if MIN_FOR_JPEG \<le> rect_area t then tt_quality e else None") (simp_all add: unf none spent_total_def spent_zero_def)
    qed
  qed
qed

section \<open>The properties\<close>

text \<open>C9. A piece encoded as Tight and decoded again when nothing about it can be lossy, by streams that
  agree up to the reset bits still to be sent: the encoder returns exactly one piece and accounts for
  every byte; when the data fits a compact length the decoder takes exactly those bytes, as its header
  alone says it will, leaves the pixels of the piece as the client's format holds them and the others
  alone, and the streams agree again for the next piece.\<close>

theorem tight_round_trip:
  assumes "pf_validate pf = Inr ()" "channels_apart pf" "fb_ok src" "fb_ok fb" "in_picture src r" "in_picture fb r"
    and "p \<in> set (piece_rects r)" "zlib_laws cv dv rel mu flushed" "in_step rel fresh e z" "lossless je e p"
  shows "\<exists>out sp e'. tight_encode cv je e src p pf = Some (out, sp, e') \<and> spent_total sp = length out \<and> (length out < 2 ^ 21 \<longrightarrow>
    (\<exists>fb' z'. tight_decode dv fresh jd z (out @ rest) p pf fb = Some (Inr (length out, fb', z'))
      \<and> payload_len (out @ rest) p pf = Inr (length out) \<and> in_step rel fresh e' z'
      \<and> fb_width fb' = fb_width fb \<and> fb_height fb' = fb_height fb
      \<and> (\<forall>x y. x < fb_width fb \<longrightarrow> y < fb_height fb \<longrightarrow>
          fb_px fb' x y = (if (int x, int y) \<in> rect_pixels p then through pf (fb_px src x y) else fb_px fb x y))))"
proof -
  have small: "rect_small r" using assms(3,5) by (simp add: in_picture_def fb_ok_def rect_small_def)
  have p: "piece_of r p" using piece_rects_spec(1) [OF small] assms(7) by blast
  have "tsend pf src p fb" using assms(1-6) p by (simp add: tsend_def piece_of_def in_picture_def)
  from tight_piece_sent [OF this assms(9,8,10)] obtain out sp e' where
    o: "tight_piece cv je src p pf e = Some (out, sp, e')" "spent_total sp = length out" "piece_sent dv fresh jd rel pf src p fb z out e'" by blast
  have "tight_encode cv je e src p pf = Some (out, sp, e')"
    using o(1) by (cases sp) (simp add: tight_encode_def piece_rects_piece [OF small p] spent_and_def spent_zero_def)
  moreover have "\<exists>fb' z'. tight_decode dv fresh jd z (out @ rest) p pf fb = Some (Inr (length out, fb', z'))
      \<and> payload_len (out @ rest) p pf = Inr (length out) \<and> in_step rel fresh e' z'
      \<and> fb_width fb' = fb_width fb \<and> fb_height fb' = fb_height fb
      \<and> (\<forall>x y. x < fb_width fb \<longrightarrow> y < fb_height fb \<longrightarrow>
          fb_px fb' x y = (if (int x, int y) \<in> rect_pixels p then through pf (fb_px src x y) else fb_px fb x y))" if "length out < 2 ^ 21"
  proof -
    from o(3) that obtain fb' z' where d: "tight_decode dv fresh jd z (out @ rest) p pf fb = Some (Inr (length out, fb', z'))"
      "painted fb fb' (inside p) (seen pf src)" "in_step rel fresh e' z'" "payload_len (out @ rest) p pf = Inr (length out)"
      unfolding piece_sent_def by blast
    then show ?thesis using paintedD [OF d(2) assms(4)] unfolding inside_def seen_def by blast
  qed
  ultimately show ?thesis using o(2) by blast
qed

theorem tight_round_trip_witness:
  "\<exists>out sp e'. tight_encode store_cv (\<lambda>_ _ _ _ _. Inl []) (tight_new (\<lambda>_. ()) 1 (Some 9)) (fb_new 3 2) (mk_rect 0 0 3 2) bgrx32 = Some (out, sp, e')
    \<and> (length out < 2 ^ 21 \<longrightarrow> (\<exists>fb' z'. tight_decode store_dv () (\<lambda>_. Inl []) (tight_reader_new ()) out (mk_rect 0 0 3 2) bgrx32 (fb_new 4 4)
        = Some (Inr (length out, fb', z'))))"
proof -
  have pf: "pf_validate bgrx32 = Inr ()" "channels_apart bgrx32" by code_simp+
  have r: "in_picture (fb_new 3 2) (mk_rect 0 0 3 2)" "in_picture (fb_new 4 4) (mk_rect 0 0 3 2)"
    by (simp_all add: in_picture_def fb_new_def)
  have p: "mk_rect 0 0 3 2 \<in> set (piece_rects (mk_rect 0 0 3 2))"
    using piece_rects_piece [of "mk_rect 0 0 3 2" "mk_rect 0 0 3 2"]
    by (simp add: rect_small_def piece_of_def TIGHT_MAX_WIDTH_def TIGHT_MAX_PIXELS_def)
  have fb: "fb_ok (fb_new 3 2)" "fb_ok (fb_new 4 4)" by (simp_all add: fb_new_ok)
  have st: "in_step (\<lambda>_ _ w p. w = p) () (tight_new (\<lambda>_. ()) 1 (Some 9)) (tight_reader_new ())"
    by (simp add: in_step_def tight_new_def tight_reader_new_def pairs_def reset_streams_0 STREAM_COUNT_def)
  have ll: "lossless (\<lambda>_ _ _ _ _. Inl []) (tight_new (\<lambda>_. ()) 1 (Some 9)) (mk_rect 0 0 3 2)" by (simp add: lossless_def)
  show ?thesis
    using tight_round_trip [OF pf fb r p store_laws st ll, where rest = "[]" and jd = "\<lambda>_. Inl []", unfolded append_Nil2] by blast
qed

text \<open>The pieces of a rectangle: each within the two limits and never cut again, no two sharing a
  pixel, together the rectangle, and as many of them as the update's header counts on.\<close>

theorem tight_pieces_partition:
  assumes "rect_small r" "\<not> rect_is_empty r"
  shows "(\<forall>p\<in>set (piece_rects r). \<not> rect_is_empty p \<and> rect_width p \<le> TIGHT_MAX_WIDTH \<and> rect_area p \<le> TIGHT_MAX_PIXELS \<and> piece_rects p = [p])
    \<and> sorted_wrt (\<lambda>a b. rect_pixels a \<inter> rect_pixels b = {}) (piece_rects r)
    \<and> (\<Union>p\<in>set (piece_rects r). rect_pixels p) = rect_pixels r
    \<and> length (piece_rects r) = tight_pieces r"
proof (intro conjI)
  note sp = piece_rects_spec [OF assms(1)]
  show "\<forall>p\<in>set (piece_rects r). \<not> rect_is_empty p \<and> rect_width p \<le> TIGHT_MAX_WIDTH \<and> rect_area p \<le> TIGHT_MAX_PIXELS \<and> piece_rects p = [p]"
  proof
    fix p assume "p \<in> set (piece_rects r)"
    with sp(1) have p: "piece_of r p" by blast
    then have small: "rect_small p" using assms(1) by (auto simp: piece_of_def rect_small_def)
    have w: "rect_width p = rx2 p - rx1 p" "rect_height p = ry2 p - ry1 p"
      using p by (simp_all add: rect_width_small [OF small] rect_height_small [OF small] piece_of_def)
    have "rect_area p = int (nat (rx2 p - rx1 p) * nat (ry2 p - ry1 p))"
      unfolding rect_area_pixels [OF small] by (simp add: rect_pixels_prod card_cartesian_product)
    then have "rect_area p = (rx2 p - rx1 p) * (ry2 p - ry1 p)" using p by (simp add: piece_of_def)
    then show "\<not> rect_is_empty p \<and> rect_width p \<le> TIGHT_MAX_WIDTH \<and> rect_area p \<le> TIGHT_MAX_PIXELS \<and> piece_rects p = [p]"
      using p piece_rects_piece [OF assms(1) p] by (simp add: piece_of_def w rect_is_empty_def)
  qed
  show "sorted_wrt (\<lambda>a b. rect_pixels a \<inter> rect_pixels b = {}) (piece_rects r)" using sp(2) by (simp add: apart_def)
  show "(\<Union>p\<in>set (piece_rects r). rect_pixels p) = rect_pixels r" by (rule sp(3))
  show "length (piece_rects r) = tight_pieces r" by (rule length_piece_rects [OF assms])
qed

theorem tight_pieces_partition_witness:
  "length (piece_rects (mk_rect 0 0 5000 40)) = tight_pieces (mk_rect 0 0 5000 40) \<and> tight_pieces (mk_rect 0 0 5000 40) = 6"
proof -
  have r: "rect_small (mk_rect 0 0 5000 40)" "\<not> rect_is_empty (mk_rect 0 0 5000 40)" by (simp_all add: rect_small_def rect_is_empty_def)
  have "tight_pieces (mk_rect 0 0 5000 40) = 6" by code_simp
  then show ?thesis using tight_pieces_partition [OF r] by simp
qed

text \<open>The compact length: never more than three bytes, and read back as it was written up to
  twenty-one bits; the writer's third byte has room for an eighth bit, which the reader drops.\<close>

theorem compact_there_and_back:
  assumes "n < 2 ^ 22"
  shows "length (push_compact n) \<le> 3
    \<and> (\<exists>r. read_compact (reader_new (push_compact n @ rest)) = Inr (n mod 2 ^ 21, r) \<and> rd_at r = length (push_compact n))"
proof (intro conjI)
  show "length (push_compact n) \<le> 3" by (simp add: push_compact_def Let_def)
  from read_push_compact [OF assms reads_new [of "push_compact n @ rest"]]
  show "\<exists>r. read_compact (reader_new (push_compact n @ rest)) = Inr (n mod 2 ^ 21, r) \<and> rd_at r = length (push_compact n)"
    using reads_end by blast
qed

theorem compact_there_and_back_witness:
  "push_compact 10000 = [0x90, 0x4e] \<and> (\<exists>r. read_compact (reader_new (push_compact 10000 @ [7])) = Inr (10000, r))
    \<and> (\<exists>r. read_compact (reader_new (push_compact 2097157 @ [])) = Inr (5, r))"
proof -
  have "push_compact 10000 = [0x90, 0x4e]" by (simp add: push_compact_def Let_def drop_bit_eq_div)
  moreover have n: "(10000::nat) < 2 ^ 22" "(10000::nat) mod 2 ^ 21 = 10000" "(2097157::nat) < 2 ^ 22" "(2097157::nat) mod 2 ^ 21 = 5"
    by (simp, simp, simp, simp)
  moreover from compact_there_and_back [OF n(1), where rest = "[7]", unfolded n(2)]
  have "\<exists>r. read_compact (reader_new (push_compact 10000 @ [7])) = Inr (10000, r)" by blast
  moreover from compact_there_and_back [OF n(3), where rest = "[]", unfolded n(4)]
  have "\<exists>r. read_compact (reader_new (push_compact 2097157 @ [])) = Inr (5, r)" by blast
  ultimately show ?thesis by blast
qed

end
