(* ===== verification/Stats.thy ===== *)
theory Stats
  imports Flow
begin

text \<open>
  \<open>alloyvnc/src/stats.rs\<close>: the counters a session and the capture thread keep, and the buckets its
  latencies go in. The atomics are \<open>u64\<close> values (\<open>nat\<close> with the wrap-around of \<open>fetch_add\<close> in
  \<open>add64\<close>); each is written by one thread only, so the sequence of its updates is the program's.
  The peer's printed address is a string the session is given.
\<close>

record latency =
  le1 :: nat
  le2 :: nat
  le5 :: nat
  le10 :: nat
  le20 :: nat
  le50 :: nat
  le100 :: nat
  over :: nat

definition latency_new :: latency where
  "latency_new = \<lparr>le1 = 0, le2 = 0, le5 = 0, le10 = 0, le20 = 0, le50 = 0, le100 = 0, over = 0\<rparr>"

text \<open>\<open>Latency::record\<close> of an age in nanoseconds.\<close>

definition latency_record :: "nat \<Rightarrow> latency \<Rightarrow> latency" where
  "latency_record age l =
    (let ms = age div 1000000 in
     if ms \<le> 1 then l\<lparr>le1 := add64 (le1 l) 1\<rparr>
     else if ms = 2 then l\<lparr>le2 := add64 (le2 l) 1\<rparr>
     else if ms \<le> 5 then l\<lparr>le5 := add64 (le5 l) 1\<rparr>
     else if ms \<le> 10 then l\<lparr>le10 := add64 (le10 l) 1\<rparr>
     else if ms \<le> 20 then l\<lparr>le20 := add64 (le20 l) 1\<rparr>
     else if ms \<le> 50 then l\<lparr>le50 := add64 (le50 l) 1\<rparr>
     else if ms \<le> 100 then l\<lparr>le100 := add64 (le100 l) 1\<rparr>
     else l\<lparr>over := add64 (over l) 1\<rparr>)"

record session_stats =
  ss_peer :: string
  ss_updates :: nat
  ss_rects :: nat
  ss_copy_rects :: nat
  ss_cursor_rects :: nat
  ss_bytes :: nat
  ss_in_flight :: nat
  ss_rtt_micros :: nat
  ss_base_rtt_micros :: nat
  ss_window :: nat
  ss_pings_outstanding :: nat
  ss_latency :: latency
  ss_bytes_raw :: nat
  ss_bytes_copy_rect :: nat
  ss_bytes_hextile :: nat
  ss_bytes_zrle :: nat
  ss_bytes_tight :: nat
  ss_tight_fill :: nat
  ss_tight_palette :: nat
  ss_tight_jpeg :: nat
  ss_tight_copy :: nat

definition session_stats_new :: "string \<Rightarrow> session_stats" where
  "session_stats_new peer =
    \<lparr>ss_peer = peer, ss_updates = 0, ss_rects = 0, ss_copy_rects = 0, ss_cursor_rects = 0, ss_bytes = 0,
     ss_in_flight = 0, ss_rtt_micros = 0, ss_base_rtt_micros = 0, ss_window = 0, ss_pings_outstanding = 0,
     ss_latency = latency_new, ss_bytes_raw = 0, ss_bytes_copy_rect = 0, ss_bytes_hextile = 0,
     ss_bytes_zrle = 0, ss_bytes_tight = 0, ss_tight_fill = 0, ss_tight_palette = 0, ss_tight_jpeg = 0,
     ss_tight_copy = 0\<rparr>"

record capture_stats =
  cs_frames :: nat
  cs_empty :: nat
  cs_reported :: nat
  cs_tightened :: nat
  cs_moves :: nat
  cs_micros :: nat

definition capture_stats_new :: capture_stats where
  "capture_stats_new = \<lparr>cs_frames = 0, cs_empty = 0, cs_reported = 0, cs_tightened = 0, cs_moves = 0, cs_micros = 0\<rparr>"

text \<open>How many ages the buckets hold.\<close>

definition latency_total :: "latency \<Rightarrow> nat" where
  "latency_total l = le1 l + le2 l + le5 l + le10 l + le20 l + le50 l + le100 l + over l"

lemma latency_record_total:
  "latency_total l < 2 ^ 64 - 1 \<Longrightarrow> latency_total (latency_record age l) = latency_total l + 1"
  by (auto simp: latency_record_def latency_total_def add64_def Let_def)

end
