(* ===== verification/Shared_State.thy ===== *)
theory Shared_State
  imports Regions Raster Messages Stats
begin

text \<open>
  \<open>alloyvnc/src/shared.rs\<close>: what the capture thread and every session share, one value per lock. The
  \<open>Input\<close> and \<open>Clipboard\<close> trait objects are other crates': what a session does with them is the list of
  calls made, in order. The broadcast channel is not part of the value: an event in it is an argument
  of the step that receives it.
\<close>

datatype input_event = InputKey u32 bool | InputPointer u16 u16 u8

record frame_event =
  fe_seq :: nat
  fe_at :: nat
  fe_damage :: region
  fe_moves :: "move list"
  fe_cursor :: "cursor_shape option"
  fe_resized :: bool

record clip =
  cl_seq :: nat
  cl_text :: str

definition clip_default :: clip where
  "clip_default = \<lparr>cl_seq = 0, cl_text = []\<rparr>"

definition FRAME_BACKLOG :: nat where "FRAME_BACKLOG = 64"

record shared =
  sh_name :: str
  sh_fb :: framebuffer
  sh_screens :: "rect list"
  sh_cursor :: "cursor_shape option"
  sh_seq :: nat
  sh_input :: "input_event list"
  sh_clipboard :: "str list"
  sh_clip :: clip
  sh_sessions :: "nat list"
  sh_capture :: capture_stats

definition shared_new :: "str \<Rightarrow> nat \<Rightarrow> nat \<Rightarrow> shared" where
  "shared_new name width height =
    \<lparr>sh_name = name, sh_fb = fb_new width height,
     sh_screens = [rect_new 0 0 (i32 (int width)) (i32 (int height))],
     sh_cursor = None, sh_seq = 0, sh_input = [], sh_clipboard = [], sh_clip = clip_default,
     sh_sessions = [], sh_capture = capture_stats_new\<rparr>"

text \<open>A session's entry in the registry is the identity of its counters, which is what \<open>Arc::ptr_eq\<close>
  compares.\<close>

definition shared_register :: "nat \<Rightarrow> shared \<Rightarrow> shared" where
  "shared_register h sh = sh\<lparr>sh_sessions := sh_sessions sh @ [h]\<rparr>"

definition shared_unregister :: "nat \<Rightarrow> shared \<Rightarrow> shared" where
  "shared_unregister h sh = sh\<lparr>sh_sessions := filter (\<lambda>s. s \<noteq> h) (sh_sessions sh)\<rparr>"

definition send_key :: "u32 \<Rightarrow> bool \<Rightarrow> shared \<Rightarrow> shared" where
  "send_key keysym down sh = sh\<lparr>sh_input := sh_input sh @ [InputKey keysym down]\<rparr>"

definition send_pointer :: "u16 \<Rightarrow> u16 \<Rightarrow> u8 \<Rightarrow> shared \<Rightarrow> shared" where
  "send_pointer x y buttons sh = sh\<lparr>sh_input := sh_input sh @ [InputPointer x y buttons]\<rparr>"

definition set_clipboard :: "str \<Rightarrow> shared \<Rightarrow> shared" where
  "set_clipboard text sh = sh\<lparr>sh_clipboard := sh_clipboard sh @ [text]\<rparr>"

end
