(* ===== verification/Session.thy ===== *)
theory Session
  imports Shared_State Tight Auth
begin

text \<open>
  \<open>alloyvnc/src/session.rs\<close>: what one client is still owed and how it is told. A step takes the
  session's state and what the server shares (the capture thread's side of it included, as it is at
  that moment) and gives both back; \<open>now\<close> is the clock the step reads. Sent bytes are results, the
  socket and the channels belong to the loop. \<open>Inl\<close> ends the session: an error of the protocol
  crate, a \<open>bail!\<close> or \<open>context\<close>, or a panic (or a deflate loop that does not end).

  The crates behind the encoders and the clipboard are one record of parameters: a fresh deflate
  stream, one call of it, the JPEG encoder, and zlib's finished stream of some bytes.
\<close>

record 'd libs =
  lb_new :: "u32 \<Rightarrow> 'd"
  lb_compress :: "'d compress_vec"
  lb_jpeg :: jpeg_enc
  lb_zip :: "bytes \<Rightarrow> bytes"

datatype session_error = ProtoError error | Failed string | Panicking

definition WRITER_QUEUE :: nat where "WRITER_QUEUE = 8"

record session_config =
  cfg_password :: "str option"
  cfg_max_fps :: u32
  cfg_auth_fail_delay :: nat
  cfg_flow :: limits

definition session_config_default :: session_config where
  "session_config_default = \<lparr>cfg_password = None, cfg_max_fps = 60, cfg_auth_fail_delay = secs 1, cfg_flow = default_limits\<rparr>"

section \<open>The client's choice of an encoder\<close>

datatype 'd coder = CRaw | CHextile | CZrle "'d zrle" | CTight "'d tight"

record choice =
  ch_encoding :: int
  ch_level :: u32
  ch_quality :: "u8 option"

definition DEFAULT_LEVEL :: u32 where "DEFAULT_LEVEL = 1"

fun find_map :: "('a \<Rightarrow> 'b option) \<Rightarrow> 'a list \<Rightarrow> 'b option" where
  "find_map f [] = None"
| "find_map f (x # xs) = (case f x of None \<Rightarrow> find_map f xs | Some y \<Rightarrow> Some y)"

definition clamp_level :: "u8 \<Rightarrow> u32" where
  "clamp_level l = (if ucast l < (1 :: u32) then 1 else if ucast l > (6 :: u32) then 6 else ucast l)"

definition choice_read :: "int list \<Rightarrow> choice" where
  "choice_read encs =
    \<lparr>ch_encoding = (case find (\<lambda>e. e = TIGHT \<or> e = ZRLE \<or> e = HEXTILE \<or> e = RAW) encs of Some e \<Rightarrow> e | None \<Rightarrow> RAW),
     ch_level = (case find_map tight_compression encs of None \<Rightarrow> DEFAULT_LEVEL | Some l \<Rightarrow> clamp_level l),
     ch_quality = find_map tight_quality encs\<rparr>"

definition choice_build :: "'d libs \<Rightarrow> choice \<Rightarrow> 'd coder" where
  "choice_build libs ch =
    (if ch_encoding ch = TIGHT then CTight (tight_new (lb_new libs) (ch_level ch) (ch_quality ch))
     else if ch_encoding ch = ZRLE then CZrle (zrle_new (lb_new libs) (ch_level ch))
     else if ch_encoding ch = HEXTILE then CHextile
     else CRaw)"

section \<open>State\<close>

record clip_peer =
  cp_actions :: u32
  cp_formats :: u32
  cp_text_max :: u32

record 'd session =
  se_pf :: pixel_format
  se_encodings :: "int list"
  se_client_size :: "nat \<times> nat"
  se_pending :: region
  se_copies :: "move list"
  se_cursor_pending :: "cursor_shape option"
  se_layout_pending :: bool
  se_requested :: "rect option"
  se_continuous :: "rect option"
  se_continuous_offered :: bool
  se_last_update :: "nat option"
  se_out :: bytes
  se_flow :: congestion
  se_outbox :: "bytes list"
  se_held_fence :: "bytes option"
  se_reader_paused :: bool
  se_newest_frame :: "nat option"
  se_clip_echo :: "str option"
  se_clip_ext :: "clip_peer option"
  se_clip_held :: "str option"
  se_coder :: "'d coder"
  se_choice :: choice
  se_stats :: session_stats

text \<open>The session \<open>run\<close> starts, after the handshake, for a picture of this size.\<close>

definition session_new :: "session_config \<Rightarrow> string \<Rightarrow> nat \<Rightarrow> nat \<Rightarrow> bytes \<Rightarrow> 'd session" where
  "session_new cfg peer width height out =
    \<lparr>se_pf = bgrx32, se_encodings = [], se_client_size = (width, height),
     se_pending = region_from_rect (rect_new 0 0 (i32 (int width)) (i32 (int height))),
     se_copies = [], se_cursor_pending = None, se_layout_pending = False, se_requested = None,
     se_continuous = None, se_continuous_offered = False, se_last_update = None, se_out = out,
     se_flow = congestion_new (cfg_flow cfg), se_outbox = [], se_held_fence = None,
     se_reader_paused = False, se_newest_frame = None, se_clip_echo = None, se_clip_ext = None,
     se_clip_held = None, se_coder = CRaw,
     se_choice = \<lparr>ch_encoding = RAW, ch_level = DEFAULT_LEVEL, ch_quality = None\<rparr>,
     se_stats = session_stats_new peer\<rparr>"

definition session_bounds :: "shared \<Rightarrow> rect" where
  "session_bounds sh = fb_bounds (sh_fb sh)"

definition supports :: "'d session \<Rightarrow> int \<Rightarrow> bool" where
  "supports s e \<longleftrightarrow> e \<in> set (se_encodings s)"

definition cursor_encoding :: "'d session \<Rightarrow> int option" where
  "cursor_encoding s = find (supports s) [PSEUDO_CURSOR_WITH_ALPHA, PSEUDO_CURSOR]"

definition resize_encoding :: "'d session \<Rightarrow> int option" where
  "resize_encoding s = find (supports s) [PSEUDO_EXTENDED_DESKTOP_SIZE, PSEUDO_DESKTOP_SIZE]"

definition due_area :: "'d session \<Rightarrow> rect option" where
  "due_area s = (case (se_requested s, se_continuous s) of
      (Some r, Some c) \<Rightarrow> Some (rect_union_bounds r c)
    | (Some r, None) \<Rightarrow> Some r
    | (None, Some c) \<Rightarrow> Some c
    | (None, None) \<Rightarrow> None)"

definition has_something_for :: "rect \<Rightarrow> 'd session \<Rightarrow> bool" where
  "has_something_for area s \<longleftrightarrow>
    se_layout_pending s
    \<or> (se_cursor_pending s \<noteq> None \<and> cursor_encoding s \<noteq> None)
    \<or> (\<exists>c\<in>set (se_copies s). rect_intersects (dst c) area)
    \<or> region_intersects_rect (se_pending s) area"

section \<open>Frames\<close>

definition clean_move :: "bool \<Rightarrow> move \<Rightarrow> region \<Rightarrow> move list \<Rightarrow> bool" where
  "clean_move copy_rect m pending copies \<longleftrightarrow>
    copy_rect \<and> \<not> region_intersects_rect pending (move_src m)
    \<and> \<not> (\<exists>c\<in>set copies. rect_intersects (dst c) (move_src m) \<or> rect_intersects (dst c) (dst m)
          \<or> rect_intersects (move_src c) (dst m))"

definition absorb_move :: "bool \<Rightarrow> move \<Rightarrow> region \<times> move list \<Rightarrow> region \<times> move list" where
  "absorb_move copy_rect m st =
    (case st of (pending, copies) \<Rightarrow>
       if clean_move copy_rect m pending copies then (region_remove pending (dst m), copies @ [m])
       else (region_add pending (dst m), copies))"

definition absorb :: "frame_event \<Rightarrow> shared \<Rightarrow> 'd session \<Rightarrow> 'd session" where
  "absorb ev sh s0 =
    (let s1 = (if fe_resized ev
               then s0\<lparr>se_pending := region_from_rect (session_bounds sh), se_copies := [], se_layout_pending := True\<rparr>
               else s0);
         (pending, copies) = fold (absorb_move (supports s1 COPY_RECT)) (fe_moves ev) (se_pending s1, se_copies s1);
         s2 = s1\<lparr>se_pending := region_union pending (fe_damage ev), se_copies := copies\<rparr>;
         s3 = (case fe_cursor ev of Some shape \<Rightarrow> s2\<lparr>se_cursor_pending := Some shape\<rparr> | None \<Rightarrow> s2) in
     s3\<lparr>se_newest_frame := Some (fe_at ev)\<rparr>)"

text \<open>The receiver fell behind the channel: everything is owed again.\<close>

definition lagged :: "nat \<Rightarrow> shared \<Rightarrow> 'd session \<Rightarrow> 'd session" where
  "lagged now sh s =
    s\<lparr>se_pending := region_from_rect (session_bounds sh), se_copies := [], se_newest_frame := Some now\<rparr>"

section \<open>The clipboard\<close>

definition push_outbox :: "bytes \<Rightarrow> 'd session \<Rightarrow> 'd session" where
  "push_outbox buf s = s\<lparr>se_outbox := se_outbox s @ [buf]\<rparr>"

definition clip_moved :: "'d libs \<Rightarrow> clip \<Rightarrow> 'd session \<Rightarrow> 'd session" where
  "clip_moved libs c s =
    (if se_clip_echo s = Some (cl_text c) then s
     else if length (utf8 (cl_text c)) > MAX_CUT_TEXT then s
     else (case se_clip_ext s of
         Some p \<Rightarrow>
           if cp_actions p AND ACTION_NOTIFY \<noteq> 0 \<and> cp_formats p AND FORMAT_TEXT \<noteq> 0
           then push_outbox (write_server_clipboard (clipboard_flags ACTION_NOTIFY FORMAT_TEXT)) (s\<lparr>se_clip_held := Some (cl_text c)\<rparr>)
           else if cp_formats p AND FORMAT_TEXT \<noteq> 0
           then push_outbox (write_server_clipboard (clipboard_provide_text (lb_zip libs) (cl_text c))) s
           else push_outbox (write_server_cut_text (cl_text c)) s
       | None \<Rightarrow> push_outbox (write_server_cut_text (cl_text c)) s))"

definition onto_the_desk :: "str \<Rightarrow> shared \<times> 'd session \<Rightarrow> shared \<times> 'd session" where
  "onto_the_desk text st = (case st of (sh, s) \<Rightarrow> (set_clipboard text sh, s\<lparr>se_clip_echo := Some text\<rparr>))"

definition extended_clipboard :: "'d libs \<Rightarrow> clipboard_message \<Rightarrow> shared \<times> 'd session \<Rightarrow> shared \<times> 'd session" where
  "extended_clipboard libs m st =
    (case st of (sh, s) \<Rightarrow>
     (case m of
        Caps formats actions sizes \<Rightarrow>
          let text_max = (if formats AND FORMAT_TEXT \<noteq> 0 then (case sizes of [] \<Rightarrow> 0 | n # _ \<Rightarrow> n) else 0) in
          (sh, s\<lparr>se_clip_ext := Some \<lparr>cp_actions = actions, cp_formats = formats, cp_text_max = text_max\<rparr>\<rparr>)
      | Request formats \<Rightarrow>
          if formats AND FORMAT_TEXT \<noteq> 0
          then (case se_clip_held s of
                  Some text \<Rightarrow> (sh, push_outbox (write_server_clipboard (clipboard_provide_text (lb_zip libs) text)) s)
                | None \<Rightarrow> (sh, s))
          else (sh, s)
      | Peek _ \<Rightarrow>
          let formats = (if se_clip_held s \<noteq> None then FORMAT_TEXT else 0) in
          (sh, push_outbox (write_server_clipboard (clipboard_flags ACTION_NOTIFY formats)) s)
      | Notify formats \<Rightarrow>
          if formats AND FORMAT_TEXT \<noteq> 0
          then (sh, push_outbox (write_server_clipboard (clipboard_flags ACTION_REQUEST FORMAT_TEXT)) s)
          else (sh, s)
      | Provide (Some text) \<Rightarrow> onto_the_desk text (sh, s)
      | Provide None \<Rightarrow> (sh, s)
      | UnknownClip _ \<Rightarrow> (sh, s)))"

section \<open>The layout\<close>

definition screens_of :: "shared \<Rightarrow> screen list" where
  "screens_of sh = map (\<lambda>(i, r). \<lparr>scr_id = of_nat i + 1, scr_x = word_of_int (rx1 r), scr_y = word_of_int (ry1 r),
      scr_width = word_of_int (rect_width r), scr_height = word_of_int (rect_height r), scr_flags = 0\<rparr>)
    (enumerate 0 (sh_screens sh))"

definition write_layout_rect :: "u16 \<Rightarrow> u16 \<Rightarrow> shared \<Rightarrow> 'd session \<Rightarrow> 'd session" where
  "write_layout_rect reason status sh s =
    s\<lparr>se_out := se_out s
      @ write_rect_header reason status (of_nat (fst (se_client_size s))) (of_nat (snd (se_client_size s))) PSEUDO_EXTENDED_DESKTOP_SIZE
      @ write_extended_desktop_size (screens_of sh)\<rparr>"

end
