(* ===== verification/Session_Handle.thy ===== *)
theory Session_Handle
  imports Session
begin

text \<open>
  \<open>Session::handle\<close> of \<open>session.rs\<close>: what each message of a client does to its session. Sequence
  numbers of the fences are \<open>u64\<close> in eight bytes, \<open>nat\<close> here as in the congestion window.
\<close>

definition seq_bytes :: "nat \<Rightarrow> bytes" where
  "seq_bytes n = map (\<lambda>i. of_nat (n div 256 ^ (7 - i))) [0 ..< 8]"

definition seq_of_bytes :: "bytes \<Rightarrow> nat" where
  "seq_of_bytes bs = foldl (\<lambda>n b. n * 256 + unat b) 0 bs"

definition handle_pixel_format ::
  "'d libs \<Rightarrow> pixel_format \<Rightarrow> 'd session \<Rightarrow> session_error + 'd session" where
  "handle_pixel_format libs pf s =
    (case pf_validate pf of
       Inl e \<Rightarrow> Inl (ProtoError e)
     | Inr _ \<Rightarrow>
         Inr (if pf \<noteq> se_pf s then s\<lparr>se_pf := pf, se_coder := choice_build libs (se_choice s)\<rparr> else s))"

text \<open>The steps of \<open>SetEncodings\<close>, in order: three announcements and the measuring of the link, decided on
  the list before this one; then the list, the choice it makes, and the pointer.\<close>

definition offer_continuous :: "int list \<Rightarrow> 'd session \<Rightarrow> 'd session" where
  "offer_continuous encs s =
    (if PSEUDO_CONTINUOUS_UPDATES \<in> set encs \<and> \<not> se_continuous_offered s
     then (push_outbox write_end_of_continuous_updates s)\<lparr>se_continuous_offered := True\<rparr> else s)"

definition offer_clipboard :: "int list \<Rightarrow> 'd session \<Rightarrow> 'd session" where
  "offer_clipboard encs s =
    (if PSEUDO_EXTENDED_CLIPBOARD \<in> set encs \<and> \<not> supports s PSEUDO_EXTENDED_CLIPBOARD
     then push_outbox (write_server_clipboard (clipboard_caps FORMAT_TEXT
            (ACTION_REQUEST OR ACTION_PEEK OR ACTION_NOTIFY OR ACTION_PROVIDE) [of_nat MAX_CUT_TEXT])) s
     else s)"

definition offer_fence :: "int list \<Rightarrow> 'd session \<Rightarrow> 'd session" where
  "offer_fence encs s = (if PSEUDO_FENCE \<in> set encs then s\<lparr>se_flow := measure_link (se_flow s)\<rparr> else s)"

definition offer_layout :: "int list \<Rightarrow> 'd session \<Rightarrow> 'd session" where
  "offer_layout encs s =
    (if PSEUDO_EXTENDED_DESKTOP_SIZE \<in> set encs \<and> \<not> supports s PSEUDO_EXTENDED_DESKTOP_SIZE
     then s\<lparr>se_layout_pending := True\<rparr> else s)"

definition rechoose :: "'d libs \<Rightarrow> 'd session \<Rightarrow> 'd session" where
  "rechoose libs s =
    (let ch = choice_read (se_encodings s) in
     if ch \<noteq> se_choice s then s\<lparr>se_choice := ch, se_coder := choice_build libs ch\<rparr> else s)"

definition catch_up_cursor :: "shared \<Rightarrow> 'd session \<Rightarrow> 'd session" where
  "catch_up_cursor sh s =
    (if se_cursor_pending s = None \<and> cursor_encoding s \<noteq> None then s\<lparr>se_cursor_pending := sh_cursor sh\<rparr> else s)"

definition handle_set_encodings :: "'d libs \<Rightarrow> shared \<Rightarrow> int list \<Rightarrow> 'd session \<Rightarrow> 'd session" where
  "handle_set_encodings libs sh encs s =
    catch_up_cursor sh (rechoose libs
      ((offer_layout encs (offer_fence encs (offer_clipboard encs (offer_continuous encs s))))\<lparr>se_encodings := encs\<rparr>))"

definition rect_of :: "u16 \<Rightarrow> u16 \<Rightarrow> u16 \<Rightarrow> u16 \<Rightarrow> rect" where
  "rect_of x y w h = rect_new (uint x) (uint y) (uint w) (uint h)"

definition handle_update_request :: "shared \<Rightarrow> bool \<Rightarrow> u16 \<Rightarrow> u16 \<Rightarrow> u16 \<Rightarrow> u16 \<Rightarrow> 'd session \<Rightarrow> 'd session" where
  "handle_update_request sh incremental x y w h s =
    (let r = rect_intersection (rect_of x y w h) (session_bounds sh);
         s1 = (if \<not> incremental then s\<lparr>se_pending := region_add (se_pending s) r\<rparr> else s) in
     s1\<lparr>se_requested := Some (case se_requested s1 of None \<Rightarrow> r | Some q \<Rightarrow> rect_union_bounds q r)\<rparr>)"

definition handle_continuous :: "shared \<Rightarrow> bool \<Rightarrow> u16 \<Rightarrow> u16 \<Rightarrow> u16 \<Rightarrow> u16 \<Rightarrow> 'd session \<Rightarrow> 'd session" where
  "handle_continuous sh enable x y w h s =
    (if enable then s\<lparr>se_continuous := Some (rect_intersection (rect_of x y w h) (session_bounds sh))\<rparr>
     else push_outbox write_end_of_continuous_updates (s\<lparr>se_continuous := None\<rparr>))"

definition handle_fence :: "nat \<Rightarrow> u32 \<Rightarrow> bytes \<Rightarrow> 'd session \<Rightarrow> 'd session" where
  "handle_fence now flags payload s =
    (if flags AND FENCE_REQUEST = 0 then
       (if length payload = 8 then s\<lparr>se_flow := snd (pong (seq_of_bytes payload) now (se_flow s))\<rparr> else s)
     else
       let response = write_server_fence (flags AND NOT FENCE_REQUEST) payload;
           s1 = (if flags AND FENCE_BLOCK_AFTER \<noteq> 0 then s\<lparr>se_reader_paused := True\<rparr> else s) in
       if flags AND FENCE_SYNC_NEXT \<noteq> 0 then s1\<lparr>se_held_fence := Some response\<rparr> else push_outbox response s1)"

definition handle_desktop_size :: "shared \<Rightarrow> 'd session \<Rightarrow> 'd session" where
  "handle_desktop_size sh s =
    (let s1 = write_layout_rect REASON_THIS_CLIENT STATUS_PROHIBITED sh (s\<lparr>se_out := write_framebuffer_update_header 1\<rparr>) in
     push_outbox (se_out s1) (s1\<lparr>se_out := []\<rparr>))"

definition handle ::
  "'d libs \<Rightarrow> nat \<Rightarrow> client_message \<Rightarrow> shared \<times> 'd session \<Rightarrow> session_error + (shared \<times> 'd session)" where
  "handle libs now m st =
    (case st of (sh, s) \<Rightarrow>
     (case m of
        SetPixelFormat pf \<Rightarrow> (case handle_pixel_format libs pf s of Inl e \<Rightarrow> Inl e | Inr s' \<Rightarrow> Inr (sh, s'))
      | SetEncodings encs \<Rightarrow> Inr (sh, handle_set_encodings libs sh encs s)
      | FramebufferUpdateRequest incremental x y w h \<Rightarrow> Inr (sh, handle_update_request sh incremental x y w h s)
      | KeyEvent down keysym \<Rightarrow> Inr (send_key keysym down sh, s)
      | QemuKeyEvent down keysym _ \<Rightarrow> Inr (send_key keysym down sh, s)
      | PointerEvent buttons x y \<Rightarrow> Inr (send_pointer x y buttons sh, s)
      | ClientCutText text \<Rightarrow> Inr (onto_the_desk text (sh, s))
      | ExtendedClipboard c \<Rightarrow> Inr (extended_clipboard libs c (sh, s))
      | UnreadableClipboard _ _ \<Rightarrow> Inr (sh, s)
      | EnableContinuousUpdates enable x y w h \<Rightarrow> Inr (sh, handle_continuous sh enable x y w h s)
      | ClientFence flags payload \<Rightarrow> Inr (sh, handle_fence now flags payload s)
      | SetDesktopSize _ _ _ \<Rightarrow> Inr (sh, handle_desktop_size sh s)))"

end
