(* ===== verification/Session_Update.thy ===== *)
theory Session_Update
  imports Session_Handle
begin

text \<open>
  \<open>Session::build_update\<close> and \<open>Session::send_next\<close> of \<open>session.rs\<close>: one FramebufferUpdate of everything
  owed inside an area, and handing one thing to the writer. The counters of the session are part of
  its state.
\<close>

definition count_update :: "nat \<Rightarrow> session_stats \<Rightarrow> session_stats" where
  "count_update n st = st\<lparr>ss_updates := add64 (ss_updates st) 1, ss_rects := add64 (ss_rects st) n\<rparr>"

text \<open>The picture changed size: a rectangle of its own that says so, everything owed again, and no
  request left.\<close>

definition resize_update :: "shared \<Rightarrow> nat \<times> nat \<Rightarrow> 'd session \<Rightarrow> session_error + (bool \<times> 'd session)" where
  "resize_update sh sz s =
    (case resize_encoding s of
       None \<Rightarrow> Inl (Failed ''the picture changed size and the client cannot follow'')
     | Some enc \<Rightarrow>
       let s1 = s\<lparr>se_client_size := sz, se_out := se_out s @ write_framebuffer_update_header 1\<rparr>;
           s2 = (if enc = PSEUDO_EXTENDED_DESKTOP_SIZE then write_layout_rect REASON_SERVER STATUS_OK sh s1
                 else s1\<lparr>se_out := se_out s1 @ write_rect_header 0 0 (of_nat (fst sz)) (of_nat (snd sz)) PSEUDO_DESKTOP_SIZE\<rparr>) in
       Inr (True, s2\<lparr>se_layout_pending := False, se_pending := region_from_rect (session_bounds sh), se_copies := [],
         se_requested := None, se_stats := count_update 1 (se_stats s2)\<rparr>))"

text \<open>Moves whose destination was not asked for become damage.\<close>

fun split_copies :: "rect \<Rightarrow> move list \<Rightarrow> region \<Rightarrow> move list \<times> region" where
  "split_copies area [] pending = ([], pending)"
| "split_copies area (m # ms) pending =
    (if rect_contains area (dst m) then (case split_copies area ms pending of (keep, p) \<Rightarrow> (m # keep, p))
     else split_copies area ms (region_add pending (dst m)))"

definition damage_rects_of :: "region \<Rightarrow> rect list" where
  "damage_rects_of damage = (if length damage > 60000 then [region_bounds damage] else damage)"

definition encode_rects_of :: "'d coder \<Rightarrow> rect list \<Rightarrow> rect list" where
  "encode_rects_of coder rs = (case coder of CTight _ \<Rightarrow> concat (map piece_rects rs) | _ \<Rightarrow> rs)"

definition write_cursor :: "cursor_shape \<Rightarrow> 'd session \<Rightarrow> 'd session option" where
  "write_cursor shape s =
    (let head = (\<lambda>e. write_rect_header (of_nat (cs_hot_x shape)) (of_nat (cs_hot_y shape)) (of_nat (cs_width shape)) (of_nat (cs_height shape)) e);
         payload = (if cursor_encoding s = Some PSEUDO_CURSOR_WITH_ALPHA
           then Some (head PSEUDO_CURSOR_WITH_ALPHA @ encode_cursor_with_alpha shape)
           else map_option (\<lambda>b. head PSEUDO_CURSOR @ b) (encode_cursor shape (se_pf s))) in
     map_option (\<lambda>b. s\<lparr>se_out := se_out s @ b,
         se_stats := (se_stats s)\<lparr>ss_cursor_rects := add64 (ss_cursor_rects (se_stats s)) 1\<rparr>\<rparr>) payload)"

definition rect_head :: "rect \<Rightarrow> int \<Rightarrow> bytes" where
  "rect_head r e = write_rect_header (word_of_int (rx1 r)) (word_of_int (ry1 r)) (word_of_int (rect_width r)) (word_of_int (rect_height r)) e"

definition copy_rect_bytes :: "move \<Rightarrow> bytes" where
  "copy_rect_bytes m = rect_head (dst m) COPY_RECT @ copyrect_encode (word_of_int (src_x m)) (word_of_int (src_y m))"

definition write_copies :: "move list \<Rightarrow> 'd session \<Rightarrow> 'd session" where
  "write_copies ms s =
    (let b = concat (map copy_rect_bytes ms); st = se_stats s in
     s\<lparr>se_out := se_out s @ b,
       se_stats := st\<lparr>ss_copy_rects := add64 (ss_copy_rects st) (length ms),
                      ss_bytes_copy_rect := add64 (ss_bytes_copy_rect st) (length b)\<rparr>\<rparr>)"

text \<open>One rectangle through the session's encoder: the bytes, what Tight spent, and the encoder after.\<close>

definition encode_one ::
  "'d libs \<Rightarrow> framebuffer \<Rightarrow> rect \<Rightarrow> pixel_format \<Rightarrow> 'd coder \<Rightarrow> (bytes \<times> spent \<times> 'd coder) option" where
  "encode_one libs fb r pf coder =
    (case coder of
       CRaw \<Rightarrow> map_option (\<lambda>b. (b, spent_zero, CRaw)) (raw_encode fb r pf)
     | CHextile \<Rightarrow> map_option (\<lambda>b. (b, spent_zero, CHextile)) (hextile_encode fb r pf)
     | CZrle z \<Rightarrow> map_option (\<lambda>(b, z'). (b, spent_zero, CZrle z')) (zrle_encode (lb_compress libs) z fb r pf)
     | CTight t \<Rightarrow> map_option (\<lambda>(b, sp, t'). (b, sp, CTight t')) (tight_encode (lb_compress libs) (lb_jpeg libs) t fb r pf))"

definition count_bytes :: "int \<Rightarrow> nat \<Rightarrow> session_stats \<Rightarrow> session_stats" where
  "count_bytes e n st =
    (if e = TIGHT then st\<lparr>ss_bytes_tight := add64 (ss_bytes_tight st) n\<rparr>
     else if e = ZRLE then st\<lparr>ss_bytes_zrle := add64 (ss_bytes_zrle st) n\<rparr>
     else if e = HEXTILE then st\<lparr>ss_bytes_hextile := add64 (ss_bytes_hextile st) n\<rparr>
     else st\<lparr>ss_bytes_raw := add64 (ss_bytes_raw st) n\<rparr>)"

fun encode_rects :: "'d libs \<Rightarrow> framebuffer \<Rightarrow> rect list \<Rightarrow> spent \<Rightarrow> 'd session \<Rightarrow> (spent \<times> 'd session) option" where
  "encode_rects libs fb [] spent s = Some (spent, s)"
| "encode_rects libs fb (r # rs) spent s =
    (case encode_one libs fb r (se_pf s) (se_coder s) of
       None \<Rightarrow> None
     | Some (b, piece, coder) \<Rightarrow>
         let bytes = rect_head r (ch_encoding (se_choice s)) @ b in
         encode_rects libs fb rs (spent_and spent piece)
           (s\<lparr>se_out := se_out s @ bytes, se_coder := coder,
              se_stats := count_bytes (ch_encoding (se_choice s)) (length bytes) (se_stats s)\<rparr>))"

definition count_spent :: "spent \<Rightarrow> session_stats \<Rightarrow> session_stats" where
  "count_spent sp st =
    st\<lparr>ss_tight_fill := add64 (ss_tight_fill st) (sp_fill sp), ss_tight_palette := add64 (ss_tight_palette st) (sp_palette sp),
       ss_tight_jpeg := add64 (ss_tight_jpeg st) (sp_jpeg sp), ss_tight_copy := add64 (ss_tight_copy st) (sp_copy sp)\<rparr>"

text \<open>The bytes of an update, once what goes in it is decided.\<close>

definition write_update ::
  "'d libs \<Rightarrow> shared \<Rightarrow> bool \<Rightarrow> cursor_shape option \<Rightarrow> move list \<Rightarrow> rect list \<Rightarrow> 'd session \<Rightarrow> session_error + 'd session" where
  "write_update libs sh layout cursor sendable rects s =
    (let n = (if layout then 1 else 0) + (if cursor \<noteq> None then 1 else 0) + length sendable + length rects in
     if n > 65535 then Inl (Failed ''rectangle count'')
     else
       let s1 = s\<lparr>se_out := se_out s @ write_framebuffer_update_header (of_nat n)\<rparr>;
           s2 = (if layout then (write_layout_rect REASON_SERVER STATUS_OK sh s1)\<lparr>se_layout_pending := False\<rparr> else s1) in
       (case (case cursor of None \<Rightarrow> Some s2 | Some shape \<Rightarrow> write_cursor shape s2) of
          None \<Rightarrow> Inl Panicking
        | Some s3 \<Rightarrow>
          (case encode_rects libs (sh_fb sh) rects spent_zero (write_copies sendable s3) of
             None \<Rightarrow> Inl Panicking
           | Some (spent, s4) \<Rightarrow> Inr (s4\<lparr>se_stats := count_update n (count_spent spent (se_stats s4))\<rparr>))))"

definition build_update :: "'d libs \<Rightarrow> shared \<Rightarrow> rect \<Rightarrow> 'd session \<Rightarrow> session_error + (bool \<times> 'd session)" where
  "build_update libs sh area s0 =
    (let s = s0\<lparr>se_out := []\<rparr>; bounds = session_bounds sh;
         sz = (u32_of (rect_width bounds), u32_of (rect_height bounds)) in
     if sz \<noteq> se_client_size s then resize_update sh sz s
     else
       let (sendable, pending) = split_copies area (se_copies s) (se_pending s);
           damage = region_intersect_rect pending area;
           has_cursor = (cursor_encoding s \<noteq> None);
           cursor = (if has_cursor then se_cursor_pending s else None);
           layout = (se_layout_pending s \<and> supports s PSEUDO_EXTENDED_DESKTOP_SIZE);
           s1 = s\<lparr>se_copies := [], se_pending := pending,
                  se_cursor_pending := (if has_cursor then None else se_cursor_pending s)\<rparr> in
       if sendable = [] \<and> region_is_empty damage \<and> cursor = None \<and> \<not> layout then Inr (False, s1)
       else
         (case write_update libs sh layout cursor sendable (encode_rects_of (se_coder s) (damage_rects_of damage)) s1 of
            Inl e \<Rightarrow> Inl e
          | Inr s2 \<Rightarrow> Inr (True, s2\<lparr>se_pending := region_subtract (se_pending s2) damage, se_requested := None\<rparr>)))"

section \<open>Handing something to the writer\<close>

text \<open>What \<open>send_next\<close> gives the writer, if anything, and the session after.\<close>

definition send_next :: "'d libs \<Rightarrow> nat \<Rightarrow> shared \<Rightarrow> 'd session \<Rightarrow> session_error + (bytes option \<times> 'd session)" where
  "send_next libs now sh s0 =
    (case se_outbox s0 of
       buf # rest \<Rightarrow>
         Inr (Some buf, s0\<lparr>se_outbox := rest, se_flow := wrote (length buf) (se_flow s0), se_reader_paused := False\<rparr>)
     | [] \<Rightarrow>
       (case due_area s0 of
          None \<Rightarrow> Inr (None, s0)
        | Some area \<Rightarrow>
          (case build_update libs sh area s0 of
             Inl e \<Rightarrow> Inl e
           | Inr (False, s) \<Rightarrow> Inr (None, s)
           | Inr (True, s) \<Rightarrow>
             let fence = (case se_held_fence s of Some f \<Rightarrow> f | None \<Rightarrow> []);
                 s1 = (if se_held_fence s \<noteq> None then s\<lparr>se_held_fence := None, se_reader_paused := False\<rparr> else s);
                 buf = fence @ se_out s1;
                 flow = wrote (length buf) (se_flow s1);
                 (ping_msg, flow') = (if ping_due now flow
                   then (case ping_send now flow of (n, f) \<Rightarrow>
                           (write_server_fence (FENCE_REQUEST OR FENCE_BLOCK_BEFORE) (seq_bytes n), f))
                   else ([], flow));
                 stats = (case se_newest_frame s1 of
                   Some at \<Rightarrow> (se_stats s1)\<lparr>ss_latency := latency_record (now - at) (ss_latency (se_stats s1))\<rparr>
                 | None \<Rightarrow> se_stats s1) in
             Inr (Some (buf @ ping_msg),
               s1\<lparr>se_flow := flow', se_stats := stats, se_newest_frame := None, se_last_update := Some now\<rparr>))))"

end
