(* ===== verification/Session_Loop.thy ===== *)
theory Session_Loop
  imports Session_Update Message_Laws
begin

text \<open>
  The rest of \<open>session.rs\<close>: the opening of a connection (\<open>negotiate_version\<close>, \<open>authenticate\<close>, the start
  of \<open>run\<close>) and the turns of \<open>serve_loop\<close>. The socket during the opening is what the client will have
  sent, what has been written to it and how long the server slept. A turn of the loop first handles
  what it has read, then waits for one of the events \<open>select!\<close> has enabled; clocks are arguments, the
  \<open>k\<close>-th message of a drain is handled at \<open>clock k\<close>. Where the loop returns the result says how.
\<close>

section \<open>Opening a connection\<close>

record wire =
  w_in :: bytes
  w_out :: bytes
  w_slept :: nat

definition wire_write :: "bytes \<Rightarrow> wire \<Rightarrow> wire" where
  "wire_write b w = w\<lparr>w_out := w_out w @ b\<rparr>"

definition wire_read :: "nat \<Rightarrow> string \<Rightarrow> wire \<Rightarrow> session_error + (bytes \<times> wire)" where
  "wire_read n what w =
    (if n \<le> length (w_in w) then Inr (take n (w_in w), w\<lparr>w_in := drop n (w_in w)\<rparr>) else Inl (Failed what))"

definition negotiate_version :: "wire \<Rightarrow> session_error + (flow \<times> wire)" where
  "negotiate_version w =
    (case wire_read VERSION_LEN ''protocol version'' (wire_write (version_bytes V38) w) of
       Inl e \<Rightarrow> Inl e
     | Inr (buf, w1) \<Rightarrow>
       (case parse_version buf of
          Inl e \<Rightarrow> Inl (ProtoError e)
        | Inr (major, minor) \<Rightarrow>
          (case for_version major minor of Inl e \<Rightarrow> Inl (ProtoError e) | Inr f \<Rightarrow> Inr (f, w1))))"

text \<open>The type the client chose of those offered; a refusal is written before the connection ends, so
  an error comes with the wire as it is.\<close>

definition choose_security :: "flow \<Rightarrow> u8 list \<Rightarrow> wire \<Rightarrow> (session_error \<times> wire) + (u8 \<times> wire)" where
  "choose_security f offered w =
    (if f = V33 then Inr (hd offered, wire_write (write_security_type_v33 (hd offered)) w)
     else
       let w1 = wire_write (write_security_types offered) w in
       (case wire_read 1 ''security type'' w1 of
          Inl e \<Rightarrow> Inl (e, w1)
        | Inr (b, w2) \<Rightarrow>
            if hd b \<notin> set offered
            then Inl (Failed ''security type not offered'',
                wire_write (write_security_result f False (map of_char ''security type not offered'')) w2)
            else Inr (hd b, w2)))"

definition authenticate ::
  "(bytes \<Rightarrow> bytes \<Rightarrow> bytes) \<Rightarrow> bytes \<Rightarrow> session_config \<Rightarrow> flow \<Rightarrow> wire \<Rightarrow> (session_error \<times> wire) + wire" where
  "authenticate des challenge cfg f w =
    (let offered = (if cfg_password cfg \<noteq> None then [SEC_VNC_AUTH] else [SEC_NONE]) in
     case choose_security f offered w of
       Inl e \<Rightarrow> Inl e
     | Inr (chosen, w1) \<Rightarrow>
         if chosen = SEC_NONE then
           Inr (if f = V38 then wire_write (write_security_result f True []) w1 else w1)
         else if chosen = SEC_VNC_AUTH then
           (let password = (case cfg_password cfg of Some p \<Rightarrow> p | None \<Rightarrow> []);
                w2 = wire_write challenge w1 in
            case wire_read RESPONSE_LEN ''auth response'' w2 of
              Inl e \<Rightarrow> Inl (e, w2)
            | Inr (response, w3) \<Rightarrow>
                if \<not> verify des password challenge response
                then Inl (Failed ''authentication failed'',
                    wire_write (write_security_result f False (map of_char ''authentication failed''))
                      (w3\<lparr>w_slept := w_slept w3 + cfg_auth_fail_delay cfg\<rparr>))
                else Inr (wire_write (write_security_result f True []) w3))
         else Inl (Failed ''security type offered but not implemented'', w1))"

definition open_session ::
  "(bytes \<Rightarrow> bytes \<Rightarrow> bytes) \<Rightarrow> bytes \<Rightarrow> session_config \<Rightarrow> string \<Rightarrow> shared \<Rightarrow> wire \<Rightarrow> (session_error \<times> wire) + ('d session \<times> wire)" where
  "open_session des challenge cfg peer sh w =
    (case negotiate_version w of
       Inl e \<Rightarrow> Inl (e, wire_write (version_bytes V38) w)
     | Inr (f, w1) \<Rightarrow>
       (case authenticate des challenge cfg f w1 of
          Inl e \<Rightarrow> Inl e
        | Inr w2 \<Rightarrow>
          (case wire_read 1 ''client init'' w2 of
             Inl e \<Rightarrow> Inl (e, w2)
           | Inr (_, w3) \<Rightarrow>
               let out = server_init_write \<lparr>si_width = of_nat (fb_width (sh_fb sh)), si_height = of_nat (fb_height (sh_fb sh)),
                 si_pixel_format = bgrx32, si_name = sh_name sh\<rparr> in
               Inr (session_new cfg peer (fb_width (sh_fb sh)) (fb_height (sh_fb sh)) out, wire_write out w3))))"

section \<open>The start of a turn\<close>

text \<open>\<open>while !self.reader_paused\<close>: every whole message in the buffer, unless one of them pauses the reader.\<close>

function drain_client ::
  "'d libs \<Rightarrow> (bytes \<Rightarrow> bytes \<times> bool) \<Rightarrow> (nat \<Rightarrow> nat) \<Rightarrow> nat \<Rightarrow> shared \<times> 'd session \<Rightarrow> bytes
    \<Rightarrow> session_error + ((shared \<times> 'd session) \<times> bytes)" where
  "drain_client libs unz clock k st inbuf =
    (if se_reader_paused (snd st) then Inr (st, inbuf)
     else (case parse_client unz inbuf of
         Inl e \<Rightarrow> Inl (ProtoError e)
       | Inr None \<Rightarrow> Inr (st, inbuf)
       | Inr (Some (m, n)) \<Rightarrow>
         (case handle libs (clock k) m st of
            Inl e \<Rightarrow> Inl e
          | Inr st' \<Rightarrow> drain_client libs unz clock (Suc k) st' (drop n inbuf))))"
  by pat_completeness auto
termination
  by (relation "measure (\<lambda>(libs, unz, clock, k, st, inbuf). length inbuf)") (auto dest: client.used)

declare drain_client.simps [simp del]

text \<open>A held response with no update to wait for is let go.\<close>

definition release_fence :: "'d session \<Rightarrow> 'd session" where
  "release_fence s =
    (case se_held_fence s of
       Some fence \<Rightarrow> if due_area s = None then push_outbox fence (s\<lparr>se_held_fence := None\<rparr>) else s
     | None \<Rightarrow> s)"

definition micros :: "nat option \<Rightarrow> nat" where
  "micros d = (case d of None \<Rightarrow> 0 | Some d \<Rightarrow> d div 1000)"

definition publish :: "nat \<Rightarrow> 'd session \<Rightarrow> 'd session" where
  "publish written s =
    s\<lparr>se_stats := (se_stats s)\<lparr>ss_bytes := written, ss_in_flight := in_flight (se_flow s), ss_window := c_window (se_flow s),
        ss_pings_outstanding := outstanding (se_flow s), ss_rtt_micros := micros (c_rtt (se_flow s)),
        ss_base_rtt_micros := micros (base_rtt (se_flow s))\<rparr>\<rparr>"

definition start_turn ::
  "'d libs \<Rightarrow> (bytes \<Rightarrow> bytes \<times> bool) \<Rightarrow> nat \<Rightarrow> (nat \<Rightarrow> nat) \<Rightarrow> nat \<Rightarrow> shared \<times> 'd session \<Rightarrow> bytes
    \<Rightarrow> session_error + ((shared \<times> 'd session) \<times> bytes)" where
  "start_turn libs unz now clock written st inbuf =
    (case st of (sh, s) \<Rightarrow>
     (case drain_client libs unz clock 0 (sh, s\<lparr>se_flow := expire now (se_flow s)\<rparr>) inbuf of
        Inl e \<Rightarrow> Inl e
      | Inr ((sh', s'), rest) \<Rightarrow> Inr ((sh', publish written (release_fence s')), rest)))"

text \<open>What the turn waits for besides the sources: room in the writer's queue, the end of the pause
  between two updates, or neither.\<close>

datatype readiness = WantSend | Throttled nat | Waiting

definition min_interval :: "session_config \<Rightarrow> nat" where
  "min_interval cfg = (1000000 div unat (max (cfg_max_fps cfg) 1)) * 1000"

definition decide :: "session_config \<Rightarrow> nat \<Rightarrow> 'd session \<Rightarrow> readiness" where
  "decide cfg now s =
    (if se_outbox s \<noteq> [] then WantSend
     else (case due_area s of
         None \<Rightarrow> Waiting
       | Some area \<Rightarrow>
           if has_something_for area s then
             let ready_at = (case se_last_update s of None \<Rightarrow> now | Some t \<Rightarrow> t + min_interval cfg) in
             if ready_at > now then Throttled ready_at
             else if may_send (se_flow s) then WantSend
             else Waiting
           else Waiting))"

section \<open>The end of a turn\<close>

datatype event =
    Permit
  | WriterStopped
  | ReadSome bytes
  | ReadClosed
  | ReadFailed string
  | Frame frame_event
  | FramesLagged
  | FramesClosed
  | ClipChanged
  | ClipClosed
  | TimerFired

text \<open>The guards of \<open>select!\<close>.\<close>

definition enabled :: "readiness \<Rightarrow> 'd session \<Rightarrow> event \<Rightarrow> bool" where
  "enabled ready s ev =
    (case ev of
       Permit \<Rightarrow> ready = WantSend
     | WriterStopped \<Rightarrow> ready = WantSend
     | ReadSome b \<Rightarrow> \<not> se_reader_paused s \<and> b \<noteq> []
     | ReadClosed \<Rightarrow> \<not> se_reader_paused s
     | ReadFailed _ \<Rightarrow> \<not> se_reader_paused s
     | TimerFired \<Rightarrow> (case ready of Throttled _ \<Rightarrow> True | _ \<Rightarrow> False)
     | _ \<Rightarrow> True)"

datatype 'a turn = Ended | Broke session_error | Goes_on 'a

definition end_turn ::
  "'d libs \<Rightarrow> nat \<Rightarrow> shared \<Rightarrow> event \<Rightarrow> 'd session \<Rightarrow> bytes \<Rightarrow> (bytes option \<times> 'd session \<times> bytes) turn" where
  "end_turn libs now sh ev s inbuf =
    (case ev of
       Permit \<Rightarrow> (case send_next libs now sh s of Inl e \<Rightarrow> Broke e | Inr (sent, s') \<Rightarrow> Goes_on (sent, s', inbuf))
     | WriterStopped \<Rightarrow> Broke (Failed ''the writer stopped'')
     | ReadSome b \<Rightarrow> Goes_on (None, s, inbuf @ b)
     | ReadClosed \<Rightarrow> Ended
     | ReadFailed e \<Rightarrow> Broke (Failed (''read: '' @ e))
     | Frame fe \<Rightarrow> Goes_on (None, absorb fe sh s, inbuf)
     | FramesLagged \<Rightarrow> Goes_on (None, lagged now sh s, inbuf)
     | FramesClosed \<Rightarrow> Ended
     | ClipChanged \<Rightarrow> Goes_on (None, clip_moved libs (sh_clip sh) s, inbuf)
     | ClipClosed \<Rightarrow> Ended
     | TimerFired \<Rightarrow> Goes_on (None, s, inbuf))"

text \<open>One turn: the clocks, the bytes the writer has put out and what is shared are as they are when the
  turn looks; \<open>sent\<close> is what the writer was handed.\<close>

inductive turn_step ::
  "'d libs \<Rightarrow> (bytes \<Rightarrow> bytes \<times> bool) \<Rightarrow> session_config \<Rightarrow> 'd session \<times> bytes \<Rightarrow> bytes option \<Rightarrow> 'd session \<times> bytes \<Rightarrow> bool"
  for libs unz cfg where
  turn: "start_turn libs unz now clock written (sh, s) inbuf = Inr ((sh', s1), rest)
    \<Longrightarrow> enabled (decide cfg now s1) s1 ev
    \<Longrightarrow> end_turn libs now2 sh2 ev s1 rest = Goes_on (sent, s2, inbuf2)
    \<Longrightarrow> turn_step libs unz cfg (s, inbuf) sent (s2, inbuf2)"

text \<open>The states of a session that writes fewer than \<open>2 ^ 63\<close> bytes and starts fewer than \<open>2 ^ 64\<close> round
  trips, as in the congestion window's own step relation.\<close>

definition sized :: "'d session \<Rightarrow> bytes option \<Rightarrow> bool" where
  "sized s sent \<longleftrightarrow> c_written (se_flow s) + (case sent of None \<Rightarrow> 0 | Some b \<Rightarrow> length b) < 2 ^ 63
    \<and> c_next_seq (se_flow s) + 1 < 2 ^ 64"

inductive session_reach :: "'d libs \<Rightarrow> (bytes \<Rightarrow> bytes \<times> bool) \<Rightarrow> session_config \<Rightarrow> 'd session \<times> bytes \<Rightarrow> bool"
  for libs unz cfg where
  start: "session_reach libs unz cfg (session_new cfg peer w h out, [])"
| step: "session_reach libs unz cfg st \<Longrightarrow> turn_step libs unz cfg st sent st' \<Longrightarrow> sized (fst st) sent
    \<Longrightarrow> session_reach libs unz cfg st'"

inductive_cases turn_stepE: "turn_step libs unz cfg (s, inbuf) sent st'"

end
