(* ===== verification/Session_View.thy ===== *)
theory Session_View
  imports Session_Loop Region_Laws Tight_Laws
begin

text \<open>
  What a session's pending state means. A picture gives every point a colour; \<open>cl\<close> is the client's,
  \<open>srv\<close> the server's as of the last frame absorbed. The invariant \<open>view\<close>: once the client has made the
  copies it is owed, in order, it differs from the server inside \<open>pending\<close> only. Absorbing a frame
  keeps it, and building an update from a picture no newer than the frames absorbed keeps it and
  leaves nothing of the area different. Colours are those the encoder sends: what a lossy encoder
  makes of them is not in question here.
\<close>

type_synonym 'a picture = "int \<times> int \<Rightarrow> 'a"

section \<open>Moves\<close>

definition apply_move :: "move \<Rightarrow> 'a picture \<Rightarrow> 'a picture" where
  "apply_move m p = (\<lambda>(x, y). if (x, y) \<in> rect_pixels (dst m)
     then p (x - rx1 (dst m) + src_x m, y - ry1 (dst m) + src_y m) else p (x, y))"

definition replay :: "move list \<Rightarrow> 'a picture \<Rightarrow> 'a picture" where
  "replay ms p = fold apply_move ms p"

text \<open>A move inside a picture whose points are \<open>B\<close>, with coordinates a picture has.\<close>

definition move_ok :: "(int \<times> int) set \<Rightarrow> move \<Rightarrow> bool" where
  "move_ok B m \<longleftrightarrow> rect_small (dst m) \<and> 0 \<le> rx1 (dst m) \<and> rx2 (dst m) \<le> 65536 \<and> 0 \<le> ry1 (dst m) \<and> ry2 (dst m) \<le> 65536
    \<and> 0 \<le> src_x m \<and> src_x m \<le> 65536 \<and> 0 \<le> src_y m \<and> src_y m \<le> 65536 \<and> rect_pixels (move_src m) \<subseteq> B"

lemma in_move_src:
  assumes "move_ok B m" "(x, y) \<in> rect_pixels (dst m)"
  shows "(x - rx1 (dst m) + src_x m, y - ry1 (dst m) + src_y m) \<in> rect_pixels (move_src m)"
proof -
  have w: "rect_width (dst m) = rx2 (dst m) - rx1 (dst m)" "rect_height (dst m) = ry2 (dst m) - ry1 (dst m)"
    "rx1 (dst m) \<le> x" "x < rx2 (dst m)" "ry1 (dst m) \<le> y" "y < ry2 (dst m)"
    using assms by (auto simp: move_ok_def rect_width_small rect_height_small in_rect_pixels)
  then show ?thesis
    using assms by (simp add: move_src_def rect_new_def in_rect_pixels i32_small move_ok_def)
qed

text \<open>Two pictures that agree where a move reads agree where it wrote.\<close>

lemma apply_move_agree:
  assumes "move_ok B m" "\<forall>q\<in>rect_pixels (move_src m). p q = p' q" "pt \<in> rect_pixels (dst m) \<or> p pt = p' pt"
  shows "apply_move m p pt = apply_move m p' pt"
  using assms(2,3) in_move_src [OF assms(1)] by (cases pt) (auto simp: apply_move_def)

lemma apply_move_outside: "pt \<notin> rect_pixels (dst m) \<Longrightarrow> apply_move m p pt = p pt"
  by (cases pt) (simp add: apply_move_def)

lemma replay_snoc: "replay (ms @ [m]) p = apply_move m (replay ms p)"
  by (simp add: replay_def)

section \<open>The invariant\<close>

text \<open>A copy does not read what an earlier one wrote, so any of them can be left out.\<close>

definition free_copies :: "move list \<Rightarrow> bool" where
  "free_copies ms \<longleftrightarrow> sorted_wrt (\<lambda>c d. rect_pixels (dst c) \<inter> rect_pixels (move_src d) = {}) ms"

definition owed :: "(int \<times> int) set \<Rightarrow> region \<times> move list \<Rightarrow> 'a picture \<Rightarrow> 'a picture \<Rightarrow> bool" where
  "owed B st cl srv \<longleftrightarrow> (case st of (pending, copies) \<Rightarrow>
     region_wf pending \<and> (\<forall>m\<in>set copies. move_ok B m) \<and> free_copies copies
     \<and> (\<forall>pt\<in>B. pt \<notin> rects_pixels pending \<longrightarrow> replay copies cl pt = srv pt))"

lemma owed_more:
  assumes "owed B (p, cs) cl srv" "region_wf p'" "rects_pixels p \<subseteq> rects_pixels p'"
    "\<And>pt. pt \<in> B \<Longrightarrow> pt \<notin> rects_pixels p' \<Longrightarrow> srv' pt = srv pt"
  shows "owed B (p', cs) cl srv'"
  using assms by (auto simp: owed_def)

lemma owed_all: "region_wf p \<Longrightarrow> B \<subseteq> rects_pixels p \<Longrightarrow> owed B (p, []) cl srv"
  by (auto simp: owed_def free_copies_def)

lemma absorb_move_owed:
  assumes "owed B st cl srv" "move_ok B m"
  shows "owed B (absorb_move cr m st) cl (apply_move m srv)"
proof -
  obtain p cs where st: "st = (p, cs)" by (cases st)
  have o: "region_wf p" "\<forall>m\<in>set cs. move_ok B m" "free_copies cs"
    "\<And>pt. pt \<in> B \<Longrightarrow> pt \<notin> rects_pixels p \<Longrightarrow> replay cs cl pt = srv pt"
    using assms(1) by (simp_all add: owed_def st)
  show ?thesis
  proof (cases "clean_move cr m p cs")
    case True
    then have src: "rects_pixels p \<inter> rect_pixels (move_src m) = {}"
      and fr: "\<forall>c\<in>set cs. rect_pixels (dst c) \<inter> rect_pixels (move_src m) = {}"
      by (simp_all add: clean_move_def region_intersects_rect_pixels rect_intersects_pixels)
    have "replay (cs @ [m]) cl pt = apply_move m srv pt" if pt: "pt \<in> B" "pt \<notin> rects_pixels (region_remove p (dst m))" for pt
      unfolding replay_snoc
    proof (rule apply_move_agree [OF assms(2)])
      show "\<forall>q\<in>rect_pixels (move_src m). replay cs cl q = srv q"
        using o(4) src assms(2) by (auto simp: move_ok_def)
      show "pt \<in> rect_pixels (dst m) \<or> replay cs cl pt = srv pt"
        using o(4) [of pt] pt by (auto simp: region_remove_pixels [OF o(1)])
    qed
    then show ?thesis using True o fr assms(2)
      by (simp add: st absorb_move_def owed_def free_copies_def sorted_wrt_append region_remove_wf)
  next
    case False
    have "replay cs cl pt = apply_move m srv pt" if "pt \<in> B" "pt \<notin> rects_pixels (region_add p (dst m))" for pt
      using that o(4) by (simp add: region_add_pixels [OF o(1)] apply_move_outside)
    then show ?thesis using False o by (simp add: st absorb_move_def owed_def region_add_wf)
  qed
qed

lemma absorb_moves_owed:
  "owed B st cl srv \<Longrightarrow> \<forall>m\<in>set ms. move_ok B m \<Longrightarrow> owed B (fold (absorb_move cr) ms st) cl (replay ms srv)"
proof (induction ms arbitrary: st srv)
  case (Cons m ms)
  then show ?case using absorb_move_owed [of B st cl srv m cr] by (simp add: replay_def)
qed (simp add: replay_def)

text \<open>Leaving copies out.\<close>

lemma split_copies_owed:
  assumes "owed B (pending, copies) cl srv"
  shows "owed B (snd (split_copies area copies pending), fst (split_copies area copies pending)) cl srv"
    and "rects_pixels pending \<subseteq> rects_pixels (snd (split_copies area copies pending))"
proof -
  text \<open>Two replays that so far differ inside \<open>X\<close> only.\<close>
  have gen: "region_wf pending \<Longrightarrow> \<forall>m\<in>set copies. move_ok B m \<Longrightarrow> free_copies copies
      \<Longrightarrow> \<forall>m\<in>set copies. X \<inter> rect_pixels (move_src m) = {} \<Longrightarrow> X \<subseteq> rects_pixels pending \<Longrightarrow> \<forall>pt\<in>- X. p pt = q pt
      \<Longrightarrow> (case split_copies area copies pending of (keep, pend) \<Rightarrow>
            region_wf pend \<and> rects_pixels pending \<subseteq> rects_pixels pend \<and> set keep \<subseteq> set copies \<and> free_copies keep
            \<and> (\<forall>pt. pt \<notin> rects_pixels pend \<longrightarrow> replay keep p pt = replay copies q pt))" for X and p q :: "'a picture"
  proof (induction area copies pending arbitrary: X p q rule: split_copies.induct)
    case (1 area pending)
    then show ?case by (auto simp: replay_def free_copies_def)
  next
    case (2 area m ms pending)
    have m: "move_ok B m" and ms: "\<forall>m\<in>set ms. move_ok B m" "free_copies ms" using 2(4,5) by (simp_all add: free_copies_def)
    show ?case
    proof (cases "rect_contains area (dst m)")
      case True
      have agree: "\<forall>pt\<in>- X. apply_move m p pt = apply_move m q pt"
      proof
        fix pt assume "pt \<in> - X"
        then show "apply_move m p pt = apply_move m q pt"
          using 2(6,8) by (intro apply_move_agree [OF m]) auto
      qed
      obtain keep pend where sp: "split_copies area ms pending = (keep, pend)" by force
      from 2(1) [OF True 2(3) ms _ 2(7) agree] 2(6) sp
      have "region_wf pend" "rects_pixels pending \<subseteq> rects_pixels pend" "set keep \<subseteq> set ms" "free_copies keep"
        "\<forall>pt. pt \<notin> rects_pixels pend \<longrightarrow> replay keep (apply_move m p) pt = replay ms (apply_move m q) pt" by simp_all
      then show ?thesis using True 2(5) sp by (auto simp: free_copies_def replay_def)
    next
      case False
      let ?X = "X \<union> rect_pixels (dst m)" and ?pend = "region_add pending (dst m)"
      have wf: "region_wf ?pend" using 2(3) by (rule region_add_wf)
      have fr: "\<forall>m'\<in>set ms. ?X \<inter> rect_pixels (move_src m') = {}" using 2(5,6) by (auto simp: free_copies_def)
      have sub: "?X \<subseteq> rects_pixels ?pend" using 2(7) by (auto simp: region_add_pixels [OF 2(3)])
      have agree: "\<forall>pt\<in>- ?X. p pt = apply_move m q pt" using 2(8) by (auto simp: apply_move_outside)
      obtain keep pend where sp: "split_copies area ms ?pend = (keep, pend)" by force
      from 2(2) [OF False wf ms fr sub agree] sp
      have "region_wf pend" "rects_pixels ?pend \<subseteq> rects_pixels pend" "set keep \<subseteq> set ms" "free_copies keep"
        "\<forall>pt. pt \<notin> rects_pixels pend \<longrightarrow> replay keep p pt = replay ms (apply_move m q) pt" by simp_all
      then show ?thesis using False sp by (auto simp: replay_def region_add_pixels [OF 2(3)])
    qed
  qed
  obtain keep pend where sp: "split_copies area copies pending = (keep, pend)" by force
  from gen [of "{}" cl cl] assms sp show "owed B (snd (split_copies area copies pending), fst (split_copies area copies pending)) cl srv"
    and "rects_pixels pending \<subseteq> rects_pixels (snd (split_copies area copies pending))"
    by (auto simp: owed_def)
qed

section \<open>A session\<close>

definition picture_of :: "shared \<Rightarrow> (int \<times> int) set" where
  "picture_of sh = rect_pixels (session_bounds sh)"

definition view :: "shared \<Rightarrow> 'd session \<Rightarrow> 'a picture \<Rightarrow> 'a picture \<Rightarrow> bool" where
  "view sh s cl srv \<longleftrightarrow> owed (picture_of sh) (se_pending s, se_copies s) cl srv"

text \<open>What a frame event says: outside its damage the new picture is the old one with its moves made.\<close>

definition event_ok :: "shared \<Rightarrow> frame_event \<Rightarrow> 'a picture \<Rightarrow> 'a picture \<Rightarrow> bool" where
  "event_ok sh ev srv srv' \<longleftrightarrow> region_wf (fe_damage ev) \<and> (\<forall>m\<in>set (fe_moves ev). move_ok (picture_of sh) m)
    \<and> (\<not> fe_resized ev \<longrightarrow> (\<forall>pt\<in>picture_of sh. pt \<notin> rects_pixels (fe_damage ev) \<longrightarrow> srv' pt = replay (fe_moves ev) srv pt))
    \<and> (fe_resized ev \<longrightarrow> fe_moves ev = [])"

lemma absorb_parts:
  "se_pending (absorb ev sh s) = region_union (fst (fold (absorb_move (supports s COPY_RECT)) (fe_moves ev)
      (if fe_resized ev then (region_from_rect (session_bounds sh), []) else (se_pending s, se_copies s)))) (fe_damage ev)"
  "se_copies (absorb ev sh s) = snd (fold (absorb_move (supports s COPY_RECT)) (fe_moves ev)
      (if fe_resized ev then (region_from_rect (session_bounds sh), []) else (se_pending s, se_copies s)))"
  by (auto simp: absorb_def Let_def supports_def split: option.splits prod.splits)

lemma absorb_event_view:
  assumes "event_ok sh ev srv srv'" "\<not> fe_resized ev \<Longrightarrow> view sh s cl srv"
  shows "view sh (absorb ev sh s) cl srv'"
proof -
  let ?B = "picture_of sh" and ?st = "if fe_resized ev then (region_from_rect (session_bounds sh), []) else (se_pending s, se_copies s)"
  have ev: "region_wf (fe_damage ev)" "\<forall>m\<in>set (fe_moves ev). move_ok ?B m" using assms(1) by (simp_all add: event_ok_def)
  define mid where "mid = (if fe_resized ev then srv' else srv)"
  have "owed ?B ?st cl mid"
    using assms(2) by (auto simp: view_def mid_def picture_of_def intro!: owed_all)
  from absorb_moves_owed [OF this ev(2), of "supports s COPY_RECT"]
  obtain p cs where f: "fold (absorb_move (supports s COPY_RECT)) (fe_moves ev) ?st = (p, cs)" "owed ?B (p, cs) cl (replay (fe_moves ev) mid)"
    by (cases "fold (absorb_move (supports s COPY_RECT)) (fe_moves ev) ?st") auto
  have wf: "region_wf p" using f(2) by (simp add: owed_def)
  have same: "srv' pt = replay (fe_moves ev) mid pt" if "pt \<in> ?B" "pt \<notin> rects_pixels (fe_damage ev)" for pt
    using assms(1) that by (auto simp: event_ok_def mid_def replay_def)
  have "owed ?B (region_union p (fe_damage ev), cs) cl srv'"
    by (rule owed_more [OF f(2) region_union_wf [OF wf ev(1)]])
       (use same in \<open>auto simp: region_union_pixels [OF wf ev(1)]\<close>)
  then show ?thesis by (simp add: view_def absorb_parts f(1))
qed

text \<open>What an update makes of the client's picture: its copies in order, then the rectangles painted.\<close>

definition paint :: "rect list \<Rightarrow> 'a picture \<Rightarrow> 'a picture \<Rightarrow> 'a picture" where
  "paint rs srv p = (\<lambda>pt. if pt \<in> rects_pixels rs then srv pt else p pt)"

lemma encode_rects_cover:
  assumes "\<forall>r\<in>set rs. rect_small r"
  shows "rects_pixels rs \<subseteq> rects_pixels (encode_rects_of coder rs)"
proof (cases coder)
  case (CTight t)
  have "rect_pixels r \<subseteq> rects_pixels (concat (map piece_rects rs))" if "r \<in> set rs" for r
    using piece_rects_spec(3) [of r] assms that by (fastforce simp: rects_pixels_def)
  then show ?thesis using CTight by (auto simp: encode_rects_of_def rects_pixels_def)
qed (simp_all add: encode_rects_of_def)

lemma damage_rects_cover: "rects_pixels a \<subseteq> rects_pixels (damage_rects_of a)"
  using region_bounds_covers [of a] by (auto simp: damage_rects_of_def)

end
