(* ===== verification/Session_Update_Laws.thy ===== *)
theory Session_Update_Laws
  imports Session_View
begin

text \<open>
  What \<open>build_update\<close> sends and what it leaves owed: the parts of the message, the state after, and the
  client's picture once it has made the copies and painted the rectangles of the message.
\<close>

section \<open>Rectangles of a region\<close>

lemma rect_small_within:
  assumes "rect_pixels r \<subseteq> rect_pixels a" "rect_small a" "rx1 r < rx2 r" "ry1 r < ry2 r"
  shows "rect_small r"
proof -
  have "(rx1 r, ry1 r) \<in> rect_pixels r" "(rx2 r - 1, ry2 r - 1) \<in> rect_pixels r"
    using assms(3,4) by (simp_all add: in_rect_pixels)
  then have "(rx1 r, ry1 r) \<in> rect_pixels a" "(rx2 r - 1, ry2 r - 1) \<in> rect_pixels a"
    using assms(1) by blast+
  then show ?thesis using assms(2) by (auto simp: rect_small_def in_rect_pixels)
qed

lemma region_rects_small:
  assumes "region_wf d" "rects_pixels d \<subseteq> rect_pixels a" "rect_small a"
  shows "\<forall>r\<in>set d. rect_small r"
proof
  fix r assume r: "r \<in> set d"
  have "rect_pixels r \<subseteq> rect_pixels a" using assms(2) r by (auto simp: rects_pixels_def)
  then show "rect_small r" using region_rects_nonempty [OF assms(1) r] by (auto intro: rect_small_within assms(3))
qed

lemma region_bounds_nonempty: "rects_pixels d \<noteq> {} \<Longrightarrow> rx1 (region_bounds d) < rx2 (region_bounds d) \<and> ry1 (region_bounds d) < ry2 (region_bounds d)"
  using region_bounds_covers [of d] by (auto simp: rect_pixels_def)

lemma damage_rects_small:
  assumes "region_wf d" "rects_pixels d \<subseteq> rect_pixels a" "rect_small a"
  shows "\<forall>r\<in>set (damage_rects_of d). rect_small r"
proof (cases "length d > 60000")
  case True
  then have "rects_pixels d \<noteq> {}" using region_is_empty_pixels [OF assms(1)] by (auto simp: region_is_empty_def)
  then have "rect_small (region_bounds d)"
    using region_bounds_least [OF assms(2)] region_bounds_nonempty [of d] by (auto intro: rect_small_within assms(3))
  then show ?thesis using True by (simp add: damage_rects_of_def)
next
  case False
  then show ?thesis using region_rects_small [OF assms] by (simp add: damage_rects_of_def)
qed

section \<open>The parts of the message\<close>

text \<open>The encoder over a list of rectangles, apart from the session that counts the bytes.\<close>

fun encode_run :: "'d libs \<Rightarrow> framebuffer \<Rightarrow> pixel_format \<Rightarrow> 'd coder \<Rightarrow> rect list \<Rightarrow> (bytes list \<times> 'd coder) option" where
  "encode_run libs fb pf c [] = Some ([], c)"
| "encode_run libs fb pf c (r # rs) =
    (case encode_one libs fb r pf c of
       None \<Rightarrow> None
     | Some (b, _, c') \<Rightarrow> map_option (\<lambda>(bs, c''). (b # bs, c'')) (encode_run libs fb pf c' rs))"

definition rects_bytes :: "int \<Rightarrow> rect list \<Rightarrow> bytes list \<Rightarrow> bytes" where
  "rects_bytes e rs bs = concat (map2 (\<lambda>r b. rect_head r e @ b) rs bs)"

text \<open>What encoding and the other writers leave alone.\<close>

definition same_debts :: "'d session \<Rightarrow> 'd session \<Rightarrow> bool" where
  "same_debts s t \<longleftrightarrow> se_pf t = se_pf s \<and> se_encodings t = se_encodings s \<and> se_client_size t = se_client_size s
    \<and> se_pending t = se_pending s \<and> se_copies t = se_copies s \<and> se_cursor_pending t = se_cursor_pending s
    \<and> se_continuous t = se_continuous s \<and> se_flow t = se_flow s \<and> se_outbox t = se_outbox s
    \<and> se_held_fence t = se_held_fence s \<and> se_reader_paused t = se_reader_paused s
    \<and> se_requested t = se_requested s \<and> se_choice t = se_choice s \<and> se_newest_frame t = se_newest_frame s
    \<and> se_last_update t = se_last_update s"

lemma same_debts_refl [simp]: "same_debts s s"
  and same_debts_trans: "same_debts s t \<Longrightarrow> same_debts t u \<Longrightarrow> same_debts s u"
  by (simp_all add: same_debts_def)

lemma encode_rects_run:
  "encode_rects libs fb rs sp s = Some (sp', t) \<Longrightarrow>
    \<exists>bs. encode_run libs fb (se_pf s) (se_coder s) rs = Some (bs, se_coder t)
      \<and> se_out t = se_out s @ rects_bytes (ch_encoding (se_choice s)) rs bs
      \<and> same_debts s t \<and> se_layout_pending t = se_layout_pending s"
proof (induction libs fb rs sp s rule: encode_rects.induct)
  case (1 libs fb spent s)
  then show ?case by (auto simp: rects_bytes_def)
next
  case (2 libs fb r rs spent s)
  obtain b piece c where one: "encode_one libs fb r (se_pf s) (se_coder s) = Some (b, piece, c)"
    using 2(2) by (auto split: option.splits)
  let ?bytes = "rect_head r (ch_encoding (se_choice s)) @ b"
  let ?s = "s\<lparr>se_out := se_out s @ ?bytes, se_coder := c,
    se_stats := count_bytes (ch_encoding (se_choice s)) (length ?bytes) (se_stats s)\<rparr>"
  have "encode_rects libs fb rs (spent_and spent piece) ?s = Some (sp', t)" using 2(2) one by (simp add: Let_def)
  from 2(1) [OF one refl refl refl this] obtain bs where
    "encode_run libs fb (se_pf s) c rs = Some (bs, se_coder t)"
    "se_out t = se_out ?s @ rects_bytes (ch_encoding (se_choice s)) rs bs"
    "same_debts ?s t" "se_layout_pending t = se_layout_pending s" by auto
  then show ?case using one by (auto simp: rects_bytes_def same_debts_def)
qed

text \<open>What stands before the copies: the count, the layout, the pointer.\<close>

definition layout_bytes :: "shared \<Rightarrow> 'd session \<Rightarrow> bytes" where
  "layout_bytes sh s =
    write_rect_header REASON_SERVER STATUS_OK (of_nat (fst (se_client_size s))) (of_nat (snd (se_client_size s))) PSEUDO_EXTENDED_DESKTOP_SIZE
    @ write_extended_desktop_size (screens_of sh)"

definition cursor_bytes :: "cursor_shape \<Rightarrow> 'd session \<Rightarrow> bytes option" where
  "cursor_bytes shape s =
    (let head = (\<lambda>e. write_rect_header (of_nat (cs_hot_x shape)) (of_nat (cs_hot_y shape)) (of_nat (cs_width shape)) (of_nat (cs_height shape)) e) in
     if cursor_encoding s = Some PSEUDO_CURSOR_WITH_ALPHA then Some (head PSEUDO_CURSOR_WITH_ALPHA @ encode_cursor_with_alpha shape)
     else map_option (\<lambda>b. head PSEUDO_CURSOR @ b) (encode_cursor shape (se_pf s)))"

lemma write_update_parts:
  assumes "write_update libs sh layout cursor cs rs s = Inr t"
  obtains n cur bs where
    "n = (if layout then 1 else 0) + (if cursor \<noteq> None then 1 else 0) + length cs + length rs" "n \<le> 65535"
    "(case cursor of None \<Rightarrow> Some [] | Some shape \<Rightarrow> cursor_bytes shape s) = Some cur"
    "encode_run libs (sh_fb sh) (se_pf s) (se_coder s) rs = Some (bs, se_coder t)"
    "se_out t = se_out s @ write_framebuffer_update_header (of_nat n) @ (if layout then layout_bytes sh s else [])
       @ cur @ concat (map copy_rect_bytes cs) @ rects_bytes (ch_encoding (se_choice s)) rs bs"
    "same_debts s t" "se_layout_pending t = (if layout then False else se_layout_pending s)"
proof -
  define n where "n = (if layout then 1 else 0) + (if cursor \<noteq> None then 1 else 0) + length cs + length rs"
  define s2 where "s2 = (let s1 = s\<lparr>se_out := se_out s @ write_framebuffer_update_header (of_nat n)\<rparr> in
    if layout then (write_layout_rect REASON_SERVER STATUS_OK sh s1)\<lparr>se_layout_pending := False\<rparr> else s1)"
  obtain s3 s4 sp where n: "n \<le> 65535"
    and s3: "(case cursor of None \<Rightarrow> Some s2 | Some shape \<Rightarrow> write_cursor shape s2) = Some s3"
    and s4: "encode_rects libs (sh_fb sh) rs spent_zero (write_copies cs s3) = Some (sp, s4)"
    and t: "t = s4\<lparr>se_stats := count_update n (count_spent sp (se_stats s4))\<rparr>"
    using assms unfolding write_update_def n_def [symmetric] Let_def s2_def
    by (auto split: if_split_asm option.splits)
  have d2: "same_debts s s2" "se_coder s2 = se_coder s" "se_layout_pending s2 = (if layout then False else se_layout_pending s)"
    "se_out s2 = se_out s @ write_framebuffer_update_header (of_nat n) @ (if layout then layout_bytes sh s else [])"
    by (simp_all add: s2_def Let_def write_layout_rect_def same_debts_def layout_bytes_def)
  obtain cur where cur: "(case cursor of None \<Rightarrow> Some [] | Some shape \<Rightarrow> cursor_bytes shape s) = Some cur"
    and d3: "same_debts s s3" "se_coder s3 = se_coder s" "se_layout_pending s3 = se_layout_pending s2" "se_out s3 = se_out s2 @ cur"
  proof (cases cursor)
    case None
    then show ?thesis using that [of "[]"] s3 d2 by simp
  next
    case (Some shape)
    have same: "cursor_encoding s2 = cursor_encoding s" "se_pf s2 = se_pf s"
      using d2(1) by (simp_all add: same_debts_def cursor_encoding_def supports_def [abs_def])
    obtain b where "cursor_bytes shape s = Some b" "same_debts s2 s3" "se_coder s3 = se_coder s2"
      "se_layout_pending s3 = se_layout_pending s2" "se_out s3 = se_out s2 @ b"
      using s3 Some same by (auto simp: write_cursor_def cursor_bytes_def Let_def same_debts_def split: if_split_asm)
    then show ?thesis using that [of b] d2 Some same_debts_trans by fastforce
  qed
  obtain bs where e: "encode_run libs (sh_fb sh) (se_pf (write_copies cs s3)) (se_coder (write_copies cs s3)) rs = Some (bs, se_coder s4)"
    "se_out s4 = se_out (write_copies cs s3) @ rects_bytes (ch_encoding (se_choice (write_copies cs s3))) rs bs"
    "same_debts (write_copies cs s3) s4" "se_layout_pending s4 = se_layout_pending (write_copies cs s3)"
    using encode_rects_run [OF s4] by blast
  show thesis
    by (rule that [OF n_def n cur, of bs])
       (use e d2 d3 in \<open>simp_all add: t write_copies_def Let_def same_debts_def\<close>)
qed

section \<open>What an update makes of the client's picture\<close>

text \<open>What an update owes besides pixels: the layout, to a client that takes one, and the pointer, to one that draws it.\<close>

definition layout_due :: "'d session \<Rightarrow> bool" where
  "layout_due s \<longleftrightarrow> se_layout_pending s \<and> supports s PSEUDO_EXTENDED_DESKTOP_SIZE"

definition cursor_due :: "'d session \<Rightarrow> cursor_shape option" where
  "cursor_due s = (if cursor_encoding s \<noteq> None then se_cursor_pending s else None)"

lemma encode_run_length: "encode_run libs fb pf c rs = Some (bs, c') \<Longrightarrow> length bs = length rs"
  by (induction rs arbitrary: c bs) (auto split: option.splits)

lemma split_copies_kept: "fst (split_copies area ms pending) = filter (\<lambda>m. rect_contains area (dst m)) ms"
  by (induction area ms pending rule: split_copies.induct) (auto split: prod.splits)

lemma build_update_sends:
  assumes "build_update libs sh area s = Inr (True, s')"
    and "(u32_of (rect_width (session_bounds sh)), u32_of (rect_height (session_bounds sh))) = se_client_size s"
  obtains cur copies pending bs rs d where
    "split_copies area (se_copies s) (se_pending s) = (copies, pending)"
    "d = region_intersect_rect pending area" "rs = encode_rects_of (se_coder s) (damage_rects_of d)"
    "(case cursor_due s of None \<Rightarrow> Some [] | Some shape \<Rightarrow> cursor_bytes shape s) = Some cur"
    "(if layout_due s then 1 else 0) + (if cursor_due s \<noteq> None then 1 else 0) + length copies + length rs \<le> 65535"
    "se_out s' = write_framebuffer_update_header
         (of_nat ((if layout_due s then 1 else 0) + (if cursor_due s \<noteq> None then 1 else 0) + length copies + length rs))
       @ (if layout_due s then layout_bytes sh s else []) @ cur @ concat (map copy_rect_bytes copies)
       @ rects_bytes (ch_encoding (se_choice s)) rs bs"
    "encode_run libs (sh_fb sh) (se_pf s) (se_coder s) rs = Some (bs, se_coder s')"
    "se_pending s' = region_subtract pending d" "se_copies s' = []"
proof -
  obtain copies pending where sp: "split_copies area (se_copies s) (se_pending s) = (copies, pending)" by force
  define d where "d = region_intersect_rect pending area"
  define rs where "rs = encode_rects_of (se_coder s) (damage_rects_of d)"
  define s1 where "s1 = s\<lparr>se_out := [], se_copies := [], se_pending := pending,
    se_cursor_pending := (if cursor_encoding s \<noteq> None then None else se_cursor_pending s)\<rparr>"
  have c: "cursor_encoding (s\<lparr>se_out := []\<rparr>) = cursor_encoding s" "supports (s\<lparr>se_out := []\<rparr>) = supports s"
    "cursor_encoding s1 = cursor_encoding s"
    by (simp_all add: s1_def cursor_encoding_def supports_def [abs_def])
  have s1: "se_out s1 = []" "se_pending s1 = pending" "se_copies s1 = []" "se_pf s1 = se_pf s" "se_coder s1 = se_coder s"
    "se_choice s1 = se_choice s" "layout_bytes sh s1 = layout_bytes sh s"
    by (simp_all add: s1_def layout_bytes_def)
  have cb: "cursor_bytes shape s1 = cursor_bytes shape s" for shape by (simp only: cursor_bytes_def c(3) s1(4))
  obtain s2 where
    w: "write_update libs sh (layout_due s) (cursor_due s) copies rs s1 = Inr s2"
    and s': "s' = s2\<lparr>se_pending := region_subtract (se_pending s2) d, se_requested := None\<rparr>"
    using assms sp by (auto simp: build_update_def Let_def d_def rs_def s1_def layout_due_def cursor_due_def c split: if_split_asm sum.splits)
  obtain n cur bs where e:
    "n = (if layout_due s then 1 else 0) + (if cursor_due s \<noteq> None then 1 else 0) + length copies + length rs" "n \<le> 65535"
    "(case cursor_due s of None \<Rightarrow> Some [] | Some shape \<Rightarrow> cursor_bytes shape s1) = Some cur"
    "encode_run libs (sh_fb sh) (se_pf s1) (se_coder s1) rs = Some (bs, se_coder s2)"
    "se_out s2 = se_out s1 @ write_framebuffer_update_header (of_nat n) @ (if layout_due s then layout_bytes sh s1 else [])
       @ cur @ concat (map copy_rect_bytes copies) @ rects_bytes (ch_encoding (se_choice s1)) rs bs"
    "same_debts s1 s2" "se_layout_pending s2 = (if layout_due s then False else se_layout_pending s1)"
    by (rule write_update_parts [OF w]) (rule that)
  have "(case cursor_due s of None \<Rightarrow> Some [] | Some shape \<Rightarrow> cursor_bytes shape s) = Some cur" using e(3) unfolding cb .
  with e show thesis
    by (intro that [OF sp d_def rs_def, of cur bs])
       (simp_all add: s1 s' same_debts_def)
qed

lemma update_view:
  assumes "view sh s cl srv" "rect_small area" "split_copies area (se_copies s) (se_pending s) = (copies, pending)"
    and "d = region_intersect_rect pending area" "rs = encode_rects_of coder (damage_rects_of d)"
    and "se_pending s' = region_subtract pending d" "se_copies s' = []"
  shows "view sh s' (paint rs srv (replay copies cl)) srv"
    and "\<forall>pt\<in>picture_of sh \<inter> rect_pixels area. paint rs srv (replay copies cl) pt = srv pt"
proof -
  have o: "owed (picture_of sh) (pending, copies) cl srv"
    using split_copies_owed(1) [of "picture_of sh" "se_pending s" "se_copies s" cl srv area] assms(1,3) by (simp add: view_def)
  then have wf: "region_wf pending" and r: "\<And>pt. pt \<in> picture_of sh \<Longrightarrow> pt \<notin> rects_pixels pending \<Longrightarrow> replay copies cl pt = srv pt"
    by (auto simp: owed_def)
  have d: "region_wf d" "rects_pixels d = rects_pixels pending \<inter> rect_pixels area"
    using wf by (simp_all add: assms(4) region_intersect_rect_wf region_intersect_rect_pixels)
  have "\<forall>r\<in>set (damage_rects_of d). rect_small r" using d by (intro damage_rects_small [OF d(1) _ assms(2)]) simp
  then have cover: "rects_pixels d \<subseteq> rects_pixels rs"
    using damage_rects_cover [of d] encode_rects_cover [of "damage_rects_of d" coder] unfolding assms(5) by blast
  show "\<forall>pt\<in>picture_of sh \<inter> rect_pixels area. paint rs srv (replay copies cl) pt = srv pt"
    using r cover d(2) by (auto simp: paint_def)
  show "view sh s' (paint rs srv (replay copies cl)) srv"
    using r cover d wf by (auto simp: view_def owed_def paint_def replay_def free_copies_def assms(6,7) region_subtract_wf region_subtract_pixels)
qed

text \<open>C1. An update of a session that keeps the view pays its area. The message is a header whose count is
  that of the rectangles after it and fits its sixteen bits, the layout if one is due, the pointer if one
  is due, the CopyRects of owed moves inside the area, and the encoder's output, one piece for each of the
  rectangles \<open>rs\<close> on the server's picture. A client that makes those copies in order and paints those
  rectangles then has the server's picture everywhere in the area, and the view holds with what is still
  pending.\<close>

theorem update_pays_area:
  assumes "build_update libs sh area s = Inr (True, s')"
    and "(u32_of (rect_width (session_bounds sh)), u32_of (rect_height (session_bounds sh))) = se_client_size s"
    and "view sh s cl srv" and "rect_small area"
  shows "\<exists>n cur copies rs bs.
    se_out s' = write_framebuffer_update_header (of_nat n) @ (if layout_due s then layout_bytes sh s else []) @ cur
      @ concat (map copy_rect_bytes copies) @ rects_bytes (ch_encoding (se_choice s)) rs bs
    \<and> n = (if layout_due s then 1 else 0) + (if cursor_due s \<noteq> None then 1 else 0) + length copies + length rs \<and> n \<le> 65535
    \<and> (case cursor_due s of None \<Rightarrow> Some [] | Some shape \<Rightarrow> cursor_bytes shape s) = Some cur
    \<and> copies = filter (\<lambda>m. rect_contains area (dst m)) (se_copies s) \<and> length bs = length rs
    \<and> encode_run libs (sh_fb sh) (se_pf s) (se_coder s) rs = Some (bs, se_coder s')
    \<and> view sh s' (paint rs srv (replay copies cl)) srv
    \<and> (\<forall>pt\<in>picture_of sh \<inter> rect_pixels area. paint rs srv (replay copies cl) pt = srv pt)"
proof -
  obtain cur copies pending bs rs d where e:
    "split_copies area (se_copies s) (se_pending s) = (copies, pending)"
    "d = region_intersect_rect pending area" "rs = encode_rects_of (se_coder s) (damage_rects_of d)"
    "se_pending s' = region_subtract pending d" "se_copies s' = []"
    and out: "(case cursor_due s of None \<Rightarrow> Some [] | Some shape \<Rightarrow> cursor_bytes shape s) = Some cur"
    "(if layout_due s then 1 else 0) + (if cursor_due s \<noteq> None then 1 else 0) + length copies + length rs \<le> 65535"
    "se_out s' = write_framebuffer_update_header
         (of_nat ((if layout_due s then 1 else 0) + (if cursor_due s \<noteq> None then 1 else 0) + length copies + length rs))
       @ (if layout_due s then layout_bytes sh s else []) @ cur @ concat (map copy_rect_bytes copies)
       @ rects_bytes (ch_encoding (se_choice s)) rs bs"
    "encode_run libs (sh_fb sh) (se_pf s) (se_coder s) rs = Some (bs, se_coder s')"
    by (rule build_update_sends [OF assms(1,2)]) (rule that)
  have "copies = filter (\<lambda>m. rect_contains area (dst m)) (se_copies s)" using split_copies_kept [of area "se_copies s" "se_pending s"] e(1) by simp
  with out encode_run_length [OF out(4)] update_view [OF assms(3,4) e] show ?thesis
    by (intro exI [of _ "(if layout_due s then 1 else 0) + (if cursor_due s \<noteq> None then 1 else 0) + length copies + length rs"]
      exI [of _ cur] exI [of _ copies] exI [of _ rs] exI [of _ bs]) blast
qed

text \<open>The smallest server and its first session.\<close>

definition plain_libs :: "unit libs" where
  "plain_libs = \<lparr>lb_new = \<lambda>_. (), lb_compress = store_cv, lb_jpeg = \<lambda>_ _ _ _ _. Inl [], lb_zip = id\<rparr>"

definition dot :: framebuffer where "dot = fb_new 1 1"
definition dot_rect :: rect where "dot_rect = rect_new 0 0 1 1"
definition dot_shared :: shared where "dot_shared = (shared_new [] 1 1)\<lparr>sh_fb := dot\<rparr>"
definition dot_session :: "unit session" where "dot_session = session_new session_config_default [] 1 1 []"

lemma dot_facts [simp]:
  "sh_fb dot_shared = dot" "se_cursor_pending dot_session = None" "\<not> se_layout_pending dot_session" "se_coder dot_session = CRaw"
  "se_pf dot_session = bgrx32" "se_client_size dot_session = (1, 1)" "se_encodings dot_session = []"
  "se_pending dot_session = [dot_rect]" "se_copies dot_session = []" "se_outbox dot_session = []"
  "se_held_fence dot_session = None" "\<not> se_reader_paused dot_session" "se_requested dot_session = None" "se_continuous dot_session = None"
  "session_bounds dot_shared = dot_rect" "picture_of dot_shared = rect_pixels dot_rect"
  "(u32_of (rect_width dot_rect), u32_of (rect_height dot_rect)) = (1, 1)" "rect_small dot_rect" "rect_pixels dot_rect = {(0, 0)}"
  "region_wf [dot_rect]"
proof -
  show "region_wf [dot_rect]" by code_simp
  show "rect_pixels dot_rect = {(0, 0)}" by (auto simp: rect_pixels_def dot_rect_def rect_new_def i32_def)
qed (simp_all add: dot_session_def session_new_def dot_shared_def shared_new_def dot_rect_def dot_def fb_new_def picture_of_def
  session_bounds_def fb_bounds_def rect_new_def i32_def rect_width_def rect_height_def u32_of_def rect_small_def
  region_from_rect_def rect_is_empty_def)

lemma dot_encoded: "raw_encode dot dot_rect bgrx32 = Some [0, 0, 0, 0]"
  by code_simp

lemma dot_damage [simp]: "region_intersect_rect [dot_rect] dot_rect = [dot_rect]"
  by code_simp

lemma dot_view: "view dot_shared dot_session cl srv"
  unfolding view_def by (simp add: owed_def free_copies_def)

lemma dot_update: "\<exists>s'. build_update plain_libs dot_shared dot_rect dot_session = Inr (True, s')"
proof -
  have "cursor_encoding (dot_session\<lparr>se_out := []\<rparr>) = None" by (simp add: cursor_encoding_def supports_def)
  then show ?thesis
    using dot_facts(17)
    by (simp add: build_update_def Let_def region_is_empty_def encode_rects_of_def damage_rects_of_def write_update_def
      write_copies_def encode_one_def dot_encoded)
qed

theorem update_pays_area_witness:
  "\<exists>s' rs bs. build_update plain_libs dot_shared dot_rect dot_session = Inr (True, s')
    \<and> se_out s' = write_framebuffer_update_header (of_nat (length rs)) @ rects_bytes (ch_encoding (se_choice dot_session)) rs bs
    \<and> length bs = length rs \<and> paint rs (\<lambda>_. True) (\<lambda>_. False) (0, 0)"
proof -
  obtain s' where s': "build_update plain_libs dot_shared dot_rect dot_session = Inr (True, s')" using dot_update by blast
  have sz: "(u32_of (rect_width (session_bounds dot_shared)), u32_of (rect_height (session_bounds dot_shared))) = se_client_size dot_session"
    using dot_facts(17) by simp
  have d: "\<not> layout_due dot_session" "cursor_due dot_session = None" by (simp_all add: layout_due_def cursor_due_def)
  from update_pays_area [OF s' sz dot_view [where cl = "\<lambda>_. False" and srv = "\<lambda>_. True"] dot_facts(18)] s'
  show ?thesis by (auto simp: d replay_def)
qed

end
