(* ===== verification/Session_Laws.thy ===== *)
theory Session_Laws
  imports Session_Update_Laws
begin

text \<open>
  What holds of a session over the turns of its loop: the encoder it encodes with is the one its
  client's list chooses, a paused reader has an answer to wait for, and its congestion window moves
  only by the steps of the window's own relation.
\<close>

section \<open>The encoder of a session\<close>

text \<open>A coder is of the kind, and with the settings, its choice asks for. No reset is ever pending.\<close>

definition fits :: "choice \<Rightarrow> 'd coder \<Rightarrow> bool" where
  "fits ch coder \<longleftrightarrow> (case coder of
       CRaw \<Rightarrow> ch_encoding ch = RAW
     | CHextile \<Rightarrow> ch_encoding ch = HEXTILE
     | CZrle z \<Rightarrow> ch_encoding ch = ZRLE \<and> zr_level z = ch_level ch
     | CTight t \<Rightarrow> ch_encoding ch = TIGHT \<and> tt_level t = ch_level ch \<and> tt_quality t = ch_quality ch
         \<and> tt_pending_reset t = 0 \<and> length (tt_streams t) = STREAM_COUNT)"

lemma fits_build:
  "ch_encoding ch \<in> {TIGHT, ZRLE, HEXTILE, RAW} \<Longrightarrow> fits ch (choice_build libs ch)"
  by (auto simp: fits_def choice_build_def zrle_new_def tight_new_def)

lemma choice_read_encoding: "ch_encoding (choice_read encs) \<in> {TIGHT, ZRLE, HEXTILE, RAW}"
  by (auto simp: choice_read_def split: option.splits dest: find_Some_iff [THEN iffD1])

lemma choice_read_listed: "ch_encoding (choice_read encs) = RAW \<or> ch_encoding (choice_read encs) \<in> set encs"
  by (auto simp: choice_read_def find_Some_iff split: option.splits) (metis nth_mem)+

text \<open>The settings of a Tight encoder are not its state.\<close>

definition same_settings :: "'d tight \<Rightarrow> 'd tight \<Rightarrow> bool" where
  "same_settings t u \<longleftrightarrow> tt_level u = tt_level t \<and> tt_quality u = tt_quality t
    \<and> (tt_pending_reset t = 0 \<longrightarrow> tt_pending_reset u = 0) \<and> length (tt_streams u) = length (tt_streams t)"

lemma take_reset_settings: "same_settings t (snd (take_reset t))"
  by (simp add: same_settings_def take_reset_def)

lemma same_settings_trans: "same_settings t u \<Longrightarrow> same_settings u v \<Longrightarrow> same_settings t v"
  by (simp add: same_settings_def)

lemma tight_compressed_settings: "tight_compressed cv sid body t = Some (b, t') \<Longrightarrow> same_settings t t'"
  by (auto simp: tight_compressed_def same_settings_def split: if_split_asm option.splits)

lemma tight_basic_settings: "tight_basic cv sid f tp n palette body t = Some (b, t') \<Longrightarrow> same_settings t t'"
  by (auto simp: tight_basic_def take_reset_def Let_def split: if_split_asm option.splits
    dest!: tight_compressed_settings) (auto simp: same_settings_def)

lemma tight_copy_settings: "tight_copy cv pixels t = Some (b, t') \<Longrightarrow> same_settings t t'"
  by (auto simp: tight_copy_def take_reset_def Let_def dest!: tight_compressed_settings) (auto simp: same_settings_def)

lemma tight_piece_settings: "tight_piece cv je fb p pf t = Some (b, sp, t') \<Longrightarrow> same_settings t t'"
  by (auto simp: tight_piece_def tight_mono_def tight_indexed_def tight_jpeg_def take_reset_def Let_def
      split: if_split_asm option.splits sum.splits prod.splits
      dest!: tight_basic_settings tight_copy_settings)
    (auto simp: same_settings_def)

lemma tight_pieces_settings: "tight_encode_pieces cv je fb ps pf sp t = Some (b, sp', t') \<Longrightarrow> same_settings t t'"
proof (induction cv je fb ps pf sp t arbitrary: b sp' t' rule: tight_encode_pieces.induct)
  case (2 cv je fb p ps pf spent t)
  then show ?case
    by (auto split: option.splits prod.splits dest!: tight_piece_settings intro: same_settings_trans)
qed (simp add: same_settings_def)

lemma encode_one_fits: "encode_one libs fb r pf c = Some (b, sp, c') \<Longrightarrow> fits ch c \<Longrightarrow> fits ch c'"
  by (auto simp: encode_one_def fits_def zrle_encode_def tight_encode_def split: coder.splits option.splits
      dest!: tight_pieces_settings) (auto simp: same_settings_def)

lemma encode_run_fits: "encode_run libs fb pf c rs = Some (bs, c') \<Longrightarrow> fits ch c \<Longrightarrow> fits ch c'"
proof (induction libs fb pf c rs arbitrary: bs c' rule: encode_run.induct)
  case (2 libs fb pf c r rs)
  then show ?case by (auto split: option.splits dest: encode_one_fits)
qed simp

section \<open>The invariant of a session\<close>

definition session_inv :: "'d session \<Rightarrow> bool" where
  "session_inv s \<longleftrightarrow> se_choice s = choice_read (se_encodings s) \<and> fits (choice_read (se_encodings s)) (se_coder s)
    \<and> (se_reader_paused s \<longrightarrow> se_outbox s \<noteq> [] \<or> se_held_fence s \<noteq> None)"

text \<open>What the invariant and the window look at; a step that changes nothing of it keeps them.\<close>

definition core :: "'d session \<Rightarrow> int list \<times> choice \<times> 'd coder \<times> bool \<times> bytes option \<times> congestion" where
  "core s = (se_encodings s, se_choice s, se_coder s, se_reader_paused s, se_held_fence s, se_flow s)"

lemma session_inv_core: "core t = core s \<Longrightarrow> (se_outbox s \<noteq> [] \<Longrightarrow> se_outbox t \<noteq> []) \<Longrightarrow> session_inv s \<Longrightarrow> session_inv t"
  by (auto simp: core_def session_inv_def)

lemma session_inv_new: "session_inv (session_new cfg peer w h out)"
  by (simp add: session_inv_def session_new_def choice_read_def fits_def)

lemma session_inv_push [simp]: "session_inv s \<Longrightarrow> session_inv (push_outbox b s)"
  by (simp add: session_inv_def push_outbox_def)

lemma push_outbox_simps [simp]:
  "se_flow (push_outbox b s) = se_flow s" "se_outbox (push_outbox b s) = se_outbox s @ [b]"
  "se_encodings (push_outbox b s) = se_encodings s" "se_choice (push_outbox b s) = se_choice s"
  "se_coder (push_outbox b s) = se_coder s" "se_reader_paused (push_outbox b s) = se_reader_paused s"
  "se_held_fence (push_outbox b s) = se_held_fence s" "se_requested (push_outbox b s) = se_requested s"
  "se_continuous (push_outbox b s) = se_continuous s" "due_area (push_outbox b s) = due_area s"
  by (simp_all add: push_outbox_def due_area_def)

lemma offers_keep:
  "core (offer_continuous encs s) = core s" "core (offer_clipboard encs s) = core s" "core (offer_layout encs s) = core s"
  "se_outbox s \<noteq> [] \<Longrightarrow> se_outbox (offer_continuous encs s) \<noteq> []"
  "se_outbox s \<noteq> [] \<Longrightarrow> se_outbox (offer_clipboard encs s) \<noteq> []"
  "se_outbox (offer_layout encs s) = se_outbox s"
  by (simp_all add: core_def offer_continuous_def offer_clipboard_def offer_layout_def)

lemma offer_fence_inv: "session_inv s \<Longrightarrow> session_inv (offer_fence encs s)"
  by (simp add: offer_fence_def session_inv_def)

lemma rechoose_inv:
  assumes "session_inv s" shows "session_inv (rechoose libs (s\<lparr>se_encodings := encs\<rparr>))"
  using assms fits_build [OF choice_read_encoding, of encs libs] by (auto simp: rechoose_def session_inv_def Let_def)

lemma catch_up_inv: "session_inv s \<Longrightarrow> session_inv (catch_up_cursor sh s)"
  by (simp add: catch_up_cursor_def session_inv_def)

lemma offers_inv:
  assumes "session_inv s"
  shows "session_inv (offer_layout encs (offer_fence encs (offer_clipboard encs (offer_continuous encs s))))"
proof -
  have "session_inv (offer_continuous encs s)" by (rule session_inv_core [OF offers_keep(1) _ assms]) (rule offers_keep(4))
  then have "session_inv (offer_clipboard encs (offer_continuous encs s))"
    by (rule session_inv_core [OF offers_keep(2), rotated]) (rule offers_keep(5))
  then have "session_inv (offer_fence encs (offer_clipboard encs (offer_continuous encs s)))" by (rule offer_fence_inv)
  then show ?thesis by (rule session_inv_core [OF offers_keep(3), rotated]) (simp add: offers_keep)
qed

lemma set_encodings_inv: "session_inv s \<Longrightarrow> session_inv (handle_set_encodings libs sh encs s)"
  unfolding handle_set_encodings_def by (intro catch_up_inv rechoose_inv offers_inv)

lemma pixel_format_inv: "handle_pixel_format libs pf s = Inr t \<Longrightarrow> session_inv s \<Longrightarrow> session_inv t"
  using choice_read_encoding [of "se_encodings s"] fits_build [of "se_choice s" libs]
  by (auto simp: handle_pixel_format_def session_inv_def split: sum.splits if_split_asm)

lemma fence_inv: "session_inv s \<Longrightarrow> session_inv (handle_fence now flags payload s)"
  by (simp add: handle_fence_def session_inv_def Let_def)

lemma clipboard_inv: "session_inv s \<Longrightarrow> session_inv (snd (extended_clipboard libs m (sh, s)))"
  by (cases m rule: clipboard_message.exhaust)
    (auto simp: extended_clipboard_def onto_the_desk_def session_inv_def Let_def split: option.splits)

lemma clip_moved_inv: "session_inv s \<Longrightarrow> session_inv (clip_moved libs c s)"
  by (auto simp: clip_moved_def session_inv_def split: option.splits)

lemma desktop_size_inv: "session_inv s \<Longrightarrow> session_inv (handle_desktop_size sh s)"
  by (simp add: handle_desktop_size_def session_inv_def Let_def write_layout_rect_def)

lemma handle_inv: "handle libs now m (sh, s) = Inr (sh', s') \<Longrightarrow> session_inv s \<Longrightarrow> session_inv s'"
proof (cases m)
  case (ExtendedClipboard c)
  moreover assume "handle libs now m (sh, s) = Inr (sh', s')" "session_inv s"
  ultimately show ?thesis using clipboard_inv [of s libs c sh] by (simp add: handle_def)
next
  case (FramebufferUpdateRequest incremental x y w h)
  moreover assume "handle libs now m (sh, s) = Inr (sh', s')" "session_inv s"
  ultimately show ?thesis by (auto simp: handle_def handle_update_request_def session_inv_def Let_def)
next
  case (EnableContinuousUpdates enable x y w h)
  moreover assume "handle libs now m (sh, s) = Inr (sh', s')" "session_inv s"
  ultimately show ?thesis by (auto simp: handle_def handle_continuous_def session_inv_def split: if_split_asm)
next
  case (ClientCutText x)
  moreover assume "handle libs now m (sh, s) = Inr (sh', s')" "session_inv s"
  ultimately show ?thesis by (auto simp: handle_def onto_the_desk_def session_inv_def)
qed (auto simp: handle_def set_encodings_inv fence_inv desktop_size_inv split: sum.splits dest: pixel_format_inv)

section \<open>Turns\<close>

lemma drain_keeps:
  assumes "\<And>k m sh s sh' s'. handle libs (clock k) m (sh, s) = Inr (sh', s') \<Longrightarrow> P s \<Longrightarrow> P s'"
    and "drain_client libs unz clock k st inbuf = Inr ((sh', s'), rest)" and "P (snd st)"
  shows "P s'"
  using assms(2,3)
proof (induction libs\<equiv>libs unz clock\<equiv>clock k st inbuf rule: drain_client.induct)
  case (1 unz k st inbuf)
  show ?case
  proof (cases "se_reader_paused (snd st)")
    case True
    then show ?thesis using 1(2,3) by (simp add: drain_client.simps [of libs unz clock k st inbuf])
  next
    case False
    show ?thesis
    proof (cases "parse_client unz inbuf")
      case (Inr found)
      show ?thesis
      proof (cases found)
        case (Some mn)
        obtain m n where mn: "mn = (m, n)" by force
        from Inr Some mn False 1(2) obtain sh1 s1 where h: "handle libs (clock k) m st = Inr (sh1, s1)"
          "drain_client libs unz clock (Suc k) (sh1, s1) (drop n inbuf) = Inr ((sh', s'), rest)"
          by (auto simp: drain_client.simps [of libs unz clock k st inbuf] split: sum.splits)
        have "P s1" using assms(1) [of k m "fst st" "snd st" sh1 s1] h(1) 1(3) by simp
        then show ?thesis using 1(1) [OF False Inr Some mn [symmetric] h(1)] h(2) by simp
      qed (use Inr False 1(2,3) in \<open>simp add: drain_client.simps [of libs unz clock k st inbuf]\<close>)
    qed (use False 1(2) in \<open>simp add: drain_client.simps [of libs unz clock k st inbuf]\<close>)
  qed
qed

text \<open>A message takes the window along its own steps, and writes nothing.\<close>

definition flows :: "'d session \<Rightarrow> 'd session \<Rightarrow> bool" where
  "flows s t \<longleftrightarrow> flow_step\<^sup>*\<^sup>* (se_flow s) (se_flow t) \<and> c_written (se_flow t) = c_written (se_flow s)
    \<and> c_next_seq (se_flow t) = c_next_seq (se_flow s)"

lemma flows_same: "se_flow t = se_flow s \<Longrightarrow> flows s t"
  by (simp add: flows_def)

lemma flows_trans: "flows s t \<Longrightarrow> flows t u \<Longrightarrow> flows s u"
  by (auto simp: flows_def)

lemma pong_counters: "c_written (snd (pong n now c)) = c_written c" "c_next_seq (snd (pong n now c)) = c_next_seq c"
  by (auto simp: pong_def window_resize_def Let_def split: option.splits)

lemma offers_flow:
  "se_flow (catch_up_cursor sh s) = se_flow s" "se_flow (rechoose libs s) = se_flow s" "se_flow (offer_layout encs s) = se_flow s"
  "se_flow (offer_clipboard encs s) = se_flow s" "se_flow (offer_continuous encs s) = se_flow s"
  "se_flow (offer_fence encs s) = (if PSEUDO_FENCE \<in> set encs then measure_link (se_flow s) else se_flow s)"
  by (simp_all add: catch_up_cursor_def rechoose_def Let_def offer_layout_def offer_fence_def offer_clipboard_def offer_continuous_def)

lemma handlers_flow:
  "se_flow (handle_update_request sh inc x y w h s) = se_flow s"
  "se_flow (handle_continuous sh enable x y w h s) = se_flow s"
  "se_flow (handle_desktop_size sh s) = se_flow s"
  "se_flow (snd (extended_clipboard libs c (sh, s))) = se_flow s"
  "handle_pixel_format libs pf s = Inr t \<Longrightarrow> se_flow t = se_flow s"
  "se_flow (handle_set_encodings libs sh encs s) = (if PSEUDO_FENCE \<in> set encs then measure_link (se_flow s) else se_flow s)"
proof -
  show "se_flow (snd (extended_clipboard libs c (sh, s))) = se_flow s"
    by (cases c) (simp_all add: extended_clipboard_def onto_the_desk_def Let_def split: option.split)
  show "handle_pixel_format libs pf s = Inr t \<Longrightarrow> se_flow t = se_flow s"
    by (auto simp: handle_pixel_format_def split: sum.splits)
qed (simp_all add: handle_update_request_def handle_continuous_def handle_desktop_size_def write_layout_rect_def Let_def
    handle_set_encodings_def offers_flow)

lemma fence_flow:
  "se_flow (handle_fence now flags payload s) =
    (if flags AND FENCE_REQUEST = 0 \<and> length payload = 8 then snd (pong (seq_of_bytes payload) now (se_flow s)) else se_flow s)"
  by (simp add: handle_fence_def Let_def)

lemma handle_flows:
  assumes "handle libs now m (sh, s) = Inr (sh', s')" shows "flows s s'"
proof (cases "se_flow s' = se_flow s")
  case False
  show ?thesis
  proof (cases m)
    case (ClientFence flags payload)
    then show ?thesis
      using False assms fs_pong [of "se_flow s" "seq_of_bytes payload" now]
      by (auto simp: handle_def fence_flow flows_def pong_counters)
  next
    case (SetEncodings encs)
    then show ?thesis
      using False assms fs_measure [of "se_flow s"]
      by (auto simp: handle_def handlers_flow flows_def measure_link_def)
  next
    case (ExtendedClipboard c)
    then show ?thesis using False assms handlers_flow(4) [of libs c sh s] by (simp add: handle_def)
  next
    case (SetPixelFormat pf)
    then show ?thesis using False assms handlers_flow(5) [of libs pf s] by (auto simp: handle_def split: sum.splits)
  qed (use False assms in \<open>auto simp: handle_def handlers_flow onto_the_desk_def\<close>)
qed (simp add: flows_same)

lemma drain_flows: "drain_client libs unz clock k (sh, s) inbuf = Inr ((sh', s'), rest) \<Longrightarrow> flows s s'"
  by (rule drain_keeps [where P = "flows s"]) (auto intro: handle_flows flows_trans flows_same)

lemma drain_inv: "drain_client libs unz clock k (sh, s) inbuf = Inr ((sh', s'), rest) \<Longrightarrow> session_inv s \<Longrightarrow> session_inv s'"
  by (rule drain_keeps [where P = session_inv]) (auto intro: handle_inv)

lemma release_inv: "session_inv s \<Longrightarrow> session_inv (release_fence s)"
  by (auto simp: release_fence_def session_inv_def split: option.splits)

lemma publish_simps [simp]:
  "session_inv (publish n s) \<longleftrightarrow> session_inv s" "se_flow (publish n s) = se_flow s" "se_outbox (publish n s) = se_outbox s"
  "se_reader_paused (publish n s) = se_reader_paused s" "se_held_fence (publish n s) = se_held_fence s" "due_area (publish n s) = due_area s"
  by (simp_all add: publish_def session_inv_def due_area_def)

lemma release_flow [simp]: "se_flow (release_fence s) = se_flow s"
  by (simp add: release_fence_def split: option.splits)

lemma expire_counters: "c_written (expire now c) = c_written c" "c_next_seq (expire now c) = c_next_seq c"
  by (simp_all add: expire_def split: prod.splits)

lemma start_turn_parts:
  assumes "start_turn libs unz now clock written (sh, s) inbuf = Inr ((sh', s'), rest)"
  shows "flows s s'" and "session_inv s \<Longrightarrow> session_inv s'"
proof -
  let ?e = "s\<lparr>se_flow := expire now (se_flow s)\<rparr>"
  obtain t where d: "drain_client libs unz clock 0 (sh, ?e) inbuf = Inr ((sh', t), rest)" "s' = publish written (release_fence t)"
    using assms by (auto simp: start_turn_def split: sum.splits)
  have "flows s ?e" using fs_expire [of "se_flow s" now] by (auto simp: flows_def expire_counters)
  moreover have "flows ?e t" using d(1) by (rule drain_flows)
  moreover have "flows t s'" by (rule flows_same) (simp add: d(2))
  ultimately show "flows s s'" by (blast intro: flows_trans)
  assume "session_inv s"
  then have "session_inv ?e" by (simp add: session_inv_def)
  then show "session_inv s'" using drain_inv [OF d(1)] d(2) by (simp add: release_inv)
qed

lemma write_update_keeps:
  "write_update libs sh layout cursor cs rs s = Inr t \<Longrightarrow>
    same_debts s t \<and> (\<forall>ch. fits ch (se_coder s) \<longrightarrow> fits ch (se_coder t))"
  by (erule write_update_parts) (simp add: encode_run_fits)

lemma resize_update_keeps:
  "resize_update sh sz s = Inr (b, t) \<Longrightarrow> core t = core s \<and> se_outbox t = se_outbox s \<and> se_continuous t = se_continuous s"
  by (auto simp: resize_update_def write_layout_rect_def core_def Let_def split: option.splits if_split_asm)

lemma build_update_keeps:
  assumes "build_update libs sh area s = Inr (b, t)"
  shows "se_encodings t = se_encodings s \<and> se_choice t = se_choice s \<and> se_reader_paused t = se_reader_paused s
    \<and> se_held_fence t = se_held_fence s \<and> se_outbox t = se_outbox s \<and> se_flow t = se_flow s
    \<and> se_continuous t = se_continuous s \<and> (fits ch (se_coder s) \<longrightarrow> fits ch (se_coder t))"
proof -
  obtain copies pending where sp: "split_copies area (se_copies s) (se_pending s) = (copies, pending)" by force
  show ?thesis
    using assms sp unfolding build_update_def Let_def
    by (simp split: if_split_asm sum.splits)
      (auto simp: same_debts_def core_def dest!: write_update_keeps resize_update_keeps)
qed

lemma frames_keep:
  "core (absorb ev sh s) = core s" "se_outbox (absorb ev sh s) = se_outbox s" "due_area (absorb ev sh s) = due_area s"
  "core (lagged now sh s) = core s" "se_outbox (lagged now sh s) = se_outbox s" "due_area (lagged now sh s) = due_area s"
  by (simp_all add: absorb_def lagged_def core_def due_area_def Let_def split: option.split prod.split)

lemma clip_moved_keeps:
  "core (clip_moved libs c s) = core s" "due_area (clip_moved libs c s) = due_area s"
  "se_outbox s \<noteq> [] \<Longrightarrow> se_outbox (clip_moved libs c s) \<noteq> []"
  by (simp_all add: clip_moved_def core_def due_area_def split: option.split)

text \<open>What \<open>send_next\<close> does to the window and the invariant.\<close>

lemma update_sent_step:
  "may_send c \<Longrightarrow> c_written c + n < 2 ^ 63 \<Longrightarrow> c_next_seq c + 1 < 2 ^ 64 \<Longrightarrow> flow_step\<^sup>*\<^sup>* c (update_sent n now c)"
  by (blast intro: fs_update)

lemma send_next_update:
  assumes "send_next libs now sh s = Inr (sent, t)" "se_outbox s = []"
  obtains (idle) "sent = None" "core t = core s \<or> (\<exists>area. due_area s = Some area \<and> build_update libs sh area s = Inr (False, t))"
  | (update) area u buf where "due_area s = Some area" "build_update libs sh area s = Inr (True, u)"
      "buf = (case se_held_fence s of Some f \<Rightarrow> f | None \<Rightarrow> []) @ se_out u"
      "\<exists>ping. sent = Some (buf @ ping)" "se_flow t = update_sent (length buf) now (se_flow s)"
      "se_held_fence t = None" "se_reader_paused t = (se_reader_paused s \<and> se_held_fence s = None)"
      "se_outbox t = []" "se_encodings t = se_encodings u" "se_choice t = se_choice u" "se_coder t = se_coder u"
proof (cases "due_area s")
  case None
  then show ?thesis using assms idle by (simp add: send_next_def)
next
  case (Some area)
  show ?thesis
  proof (cases "build_update libs sh area s")
    case (Inl e)
    then show ?thesis using assms Some by (simp add: send_next_def)
  next
    case (Inr bu)
    obtain b u where bu: "bu = (b, u)" by force
    show ?thesis
    proof (cases b)
      case False
      then show ?thesis using assms Some Inr bu idle by (simp add: send_next_def)
    next
      case True
      note k = build_update_keeps [OF Inr [unfolded bu]]
      show ?thesis
        by (rule update [OF Some, of u "(case se_held_fence s of Some f \<Rightarrow> f | None \<Rightarrow> []) @ se_out u"])
          (use assms Some Inr bu True k in \<open>auto simp: send_next_def update_sent_def Let_def split: option.splits if_split_asm prod.splits\<close>)
    qed
  qed
qed

lemma send_next_step:
  assumes "send_next libs now sh s = Inr (sent, t)" "session_inv s" "se_outbox s \<noteq> [] \<or> may_send (se_flow s)" "sized s sent"
  shows "session_inv t" and "flow_step\<^sup>*\<^sup>* (se_flow s) (se_flow t)"
proof -
  have "session_inv t \<and> flow_step\<^sup>*\<^sup>* (se_flow s) (se_flow t)"
  proof (cases "se_outbox s")
    case (Cons b rest)
    then have t: "sent = Some b" "t = s\<lparr>se_outbox := rest, se_flow := wrote (length b) (se_flow s), se_reader_paused := False\<rparr>"
      using assms(1) by (simp_all add: send_next_def)
    have "flow_step\<^sup>*\<^sup>* (se_flow s) (wrote (length b) (se_flow s))"
      using assms(4) t(1) by (intro r_into_rtranclp fs_control) (simp add: sized_def)
    then show ?thesis using assms(2) t(2) by (simp add: session_inv_def)
  next
    case Nil
    from assms(1) Nil show ?thesis
    proof (cases rule: send_next_update)
      case idle
      from idle(2) show ?thesis
      proof
        assume c: "core t = core s"
        then have "session_inv t" by (rule session_inv_core [OF _ _ assms(2)]) (simp add: Nil)
        then show ?thesis using c by (simp add: core_def)
      next
        assume "\<exists>area. due_area s = Some area \<and> build_update libs sh area s = Inr (False, t)"
        then show ?thesis using build_update_keeps assms(2) by (fastforce simp: session_inv_def)
      qed
    next
      case (update area u buf)
      have "session_inv t" using build_update_keeps [OF update(2)] assms(2) Nil update(6-) by (auto simp: session_inv_def)
      moreover have "flow_step\<^sup>*\<^sup>* (se_flow s) (se_flow t)"
        using assms(3,4) Nil update(4) unfolding update(5) by (auto simp: sized_def intro!: update_sent_step)
      ultimately show ?thesis ..
    qed
  qed
  then show "session_inv t" and "flow_step\<^sup>*\<^sup>* (se_flow s) (se_flow t)" by simp_all
qed

lemma want_send: "decide cfg now s = WantSend \<Longrightarrow> se_outbox s \<noteq> [] \<or> may_send (se_flow s)"
  by (auto simp: decide_def Let_def split: if_split_asm option.splits)

lemma turn_keeps:
  assumes "turn_step libs unz cfg (s, inbuf) sent (s2, inbuf2)" "session_inv s" "sized s sent"
  shows "session_inv s2 \<and> flow_step\<^sup>*\<^sup>* (se_flow s) (se_flow s2)"
  using assms(1)
proof (rule turn_stepE)
  fix now clock written sh sh' s1 rest ev now2 sh2 sent' s2' inbuf2'
  assume st: "start_turn libs unz now clock written (sh, s) inbuf = Inr ((sh', s1), rest)"
    and en: "enabled (decide cfg now s1) s1 ev" and fin: "end_turn libs now2 sh2 ev s1 rest = Goes_on (sent, s2', inbuf2')"
    and eq: "(s2, inbuf2) = (s2', inbuf2')"
  have i1: "session_inv s1" and f1: "flows s s1" using start_turn_parts [OF st] assms(2) by blast+
  have "session_inv s2 \<and> flow_step\<^sup>*\<^sup>* (se_flow s1) (se_flow s2)"
  proof (cases "ev = Permit")
    case True
    have "sized s1 sent" using assms(3) f1 by (simp add: sized_def flows_def)
    moreover have "send_next libs now2 sh2 s1 = Inr (sent, s2)"
      using fin eq True by (auto simp: end_turn_def split: sum.splits)
    moreover have "se_outbox s1 \<noteq> [] \<or> may_send (se_flow s1)" using en True by (intro want_send) (simp add: enabled_def)
    ultimately show ?thesis using send_next_step [OF _ i1] by blast
  next
    case False
    have "core s2 = core s1 \<and> (se_outbox s1 \<noteq> [] \<longrightarrow> se_outbox s2 \<noteq> [])"
      using False fin eq by (cases ev) (auto simp: end_turn_def frames_keep clip_moved_keeps)
    then show ?thesis using session_inv_core [OF _ _ i1, of s2] by (auto simp: core_def)
  qed
  then show ?thesis using f1 by (auto simp: flows_def)
qed

lemma reach_inv: "session_reach libs unz cfg st \<Longrightarrow> session_inv (fst st) \<and> flow_reach (cfg_flow cfg) (se_flow (fst st))"
proof (induction rule: session_reach.induct)
  case (start peer w h out)
  then show ?case using reach_new by (simp add: session_inv_new) (simp add: session_new_def reach_new)
next
  case (step st sent st')
  have "flow_reach l c'" if "flow_step\<^sup>*\<^sup>* c c'" "flow_reach l c" for l c c'
    using that by (induction rule: rtranclp_induct) (auto intro: reach_step)
  moreover have "session_inv (fst st') \<and> flow_step\<^sup>*\<^sup>* (se_flow (fst st)) (se_flow (fst st'))"
    using turn_keeps [of libs unz cfg "fst st" "snd st" sent "fst st'" "snd st'"] step by simp
  ultimately show ?case using step by blast
qed

end
