(* ===== verification/Session_Properties.thy ===== *)
theory Session_Properties
  imports Session_Laws
begin

text \<open>
  The properties of a session over its whole life: what it encodes with, when its reader is paused,
  how its window moves, what ends it, and where it gets stuck.
\<close>

section \<open>The encoder, the reader and the window\<close>

text \<open>C16. In every reachable state of a session the encoder is the one the client's last list
  chooses: raw when it lists none, otherwise one it lists, with the level and quality it asks for. The
  number in a rectangle's header is the number of the encoder that writes its payload. A Tight
  encoder never has a reset to announce, so that a client is never told that the encoder a new
  pixel format or a new list brings has fresh streams.\<close>

theorem session_encodes_as_listed:
  assumes "session_reach libs unz cfg (s, inbuf)"
  shows "se_choice s = choice_read (se_encodings s)
    \<and> (ch_encoding (se_choice s) = RAW \<or> supports s (ch_encoding (se_choice s)))
    \<and> fits (se_choice s) (se_coder s)"
  using reach_inv [OF assms] choice_read_listed [of "se_encodings s"] by (auto simp: session_inv_def supports_def)

lemma dot_reach: "session_reach plain_libs unz session_config_default (dot_session, [])"
  unfolding dot_session_def by (rule session_reach.start)

theorem session_encodes_as_listed_witness:
  "ch_encoding (se_choice dot_session) = RAW \<and> fits (se_choice dot_session) (se_coder dot_session)"
  using session_encodes_as_listed [OF dot_reach [of "\<lambda>b. (b, False)"]] by (metis choice_read_listed dot_facts(7) empty_iff list.set(1))

text \<open>C18. The window of a session refines the window on its own: whatever the client sends, whatever
  the capture side does and whenever the session writes, the congestion state of a session that can
  be reached is a state the window's own step relation reaches from the configured limits. What is
  proved of the window holds in every session.\<close>

theorem session_window_refines:
  assumes "session_reach libs unz cfg (s, inbuf)"
  shows "flow_reach (cfg_flow cfg) (se_flow s)"
  using reach_inv [OF assms] by simp

theorem session_window_refines_witness: "flow_reach default_limits (se_flow dot_session)"
  using session_window_refines [OF dot_reach [of "\<lambda>b. (b, False)"]] by (simp add: session_config_default_def)

lemma release_settles:
  "session_inv s \<Longrightarrow> se_reader_paused s \<Longrightarrow>
    se_outbox (release_fence s) \<noteq> [] \<or> (se_held_fence (release_fence s) \<noteq> None \<and> due_area (release_fence s) \<noteq> None)"
  by (auto simp: release_fence_def session_inv_def due_area_def split: option.split)

text \<open>C19. A paused reader has something to wait for: when a turn of a reachable session has handled
  its input and the reader is paused, then either a message is waiting to be written, and the turn
  wants to write, or a fence's answer is held for an update of an area the client asked for.\<close>

theorem paused_reader_is_answered:
  assumes "session_reach libs unz cfg (s, inbuf)"
    and "start_turn libs unz now clock written (sh, s) inbuf = Inr ((sh', s1), rest)"
    and "se_reader_paused s1"
  shows "decide cfg now s1 = WantSend \<or> (se_held_fence s1 \<noteq> None \<and> due_area s1 \<noteq> None)"
proof -
  let ?e = "s\<lparr>se_flow := expire now (se_flow s)\<rparr>"
  obtain t where d: "drain_client libs unz clock 0 (sh, ?e) inbuf = Inr ((sh', t), rest)" "s1 = publish written (release_fence t)"
    using assms(2) by (auto simp: start_turn_def split: sum.splits)
  have "session_inv ?e" using reach_inv [OF assms(1)] by (simp add: session_inv_def)
  then have "session_inv t" by (rule drain_inv [OF d(1)])
  moreover have "se_reader_paused t"
    using assms(3) by (simp add: d(2) release_fence_def split: option.splits if_split_asm)
  ultimately show ?thesis using release_settles [of t] by (auto simp: d(2) decide_def)
qed

text \<open>A fence with \<open>BlockAfter\<close>, and one that also has \<open>SyncNext\<close>.\<close>

lemma block_flags:
  "(0x80000002 :: u32) AND FENCE_REQUEST \<noteq> 0" "(0x80000002 :: u32) AND FENCE_BLOCK_AFTER \<noteq> 0"
  "(0x80000002 :: u32) AND FENCE_SYNC_NEXT = 0" "(0x80000002 :: u32) AND NOT FENCE_REQUEST = 2"
  "(0x80000006 :: u32) AND FENCE_REQUEST \<noteq> 0" "(0x80000006 :: u32) AND FENCE_BLOCK_AFTER \<noteq> 0"
  "(0x80000006 :: u32) AND FENCE_SYNC_NEXT \<noteq> 0"
  by code_simp+

lemma fence_turn:
  assumes "\<not> se_reader_paused s" "se_held_fence s = None"
  shows "start_turn libs unz 0 (\<lambda>_. 0) 0 (sh, s) [248, 0, 0, 0, 0x80, 0, 0, 2, 0] =
    Inr ((sh, publish 0 (push_outbox (write_server_fence 2 []) (s\<lparr>se_flow := expire 0 (se_flow s), se_reader_paused := True\<rparr>))), [])"
proof -
  have p: "parse_client unz [248, 0, 0, 0, 0x80, 0, 0, 2, 0] = Inr (Some (ClientFence 0x80000002 [], 9))"
    by code_simp
  let ?s = "s\<lparr>se_flow := expire 0 (se_flow s)\<rparr>"
  let ?t = "push_outbox (write_server_fence 2 []) (?s\<lparr>se_reader_paused := True\<rparr>)"
  have h: "handle libs 0 (ClientFence 0x80000002 []) (sh, ?s) = Inr (sh, ?t)"
    using block_flags(1-4) by (simp add: handle_def handle_fence_def)
  have t: "se_reader_paused ?t" "release_fence ?t = ?t" using assms by (simp_all add: release_fence_def)
  have "drain_client libs unz (\<lambda>_. 0) 0 (sh, ?s) [248, 0, 0, 0, 0x80, 0, 0, 2, 0] = Inr ((sh, ?t), [])"
    using t(1) assms by (subst drain_client.simps) (simp add: p h drain_client.simps [of _ _ _ "Suc 0"])
  then show ?thesis by (simp add: start_turn_def t(2))
qed

text \<open>A first turn that reads some bytes.\<close>

definition dot_running :: "unit session" where
  "dot_running = publish 0 (dot_session\<lparr>se_flow := expire 0 (se_flow dot_session)\<rparr>)"

lemma dot_running_reach:
  assumes "b \<noteq> []" shows "session_reach plain_libs unz session_config_default (dot_running, b)"
proof -
  have p: "parse_client unz [] = Inr None" by code_simp
  have s: "start_turn plain_libs unz 0 (\<lambda>_. 0) 0 (dot_shared, dot_session) [] = Inr ((dot_shared, dot_running), [])"
    by (simp add: start_turn_def drain_client.simps p release_fence_def dot_running_def)
  have "turn_step plain_libs unz session_config_default (dot_session, []) None (dot_running, b)"
    by (rule turn_step.turn [OF s, of _ "ReadSome b" 0 dot_shared])
      (use assms in \<open>simp_all add: enabled_def end_turn_def dot_running_def publish_def\<close>)
  from session_reach.step [OF dot_reach this] show ?thesis
    by (simp add: sized_def dot_session_def session_new_def congestion_new_def)
qed

theorem paused_reader_is_answered_witness:
  "\<exists>s1. start_turn plain_libs (\<lambda>b. (b, False)) 0 (\<lambda>_. 0) 0 (dot_shared, dot_running) [248, 0, 0, 0, 0x80, 0, 0, 2, 0] = Inr ((dot_shared, s1), [])
    \<and> se_reader_paused s1 \<and> decide session_config_default 0 s1 = WantSend"
proof -
  let ?s = "publish 0 (push_outbox (write_server_fence 2 []) (dot_running\<lparr>se_flow := expire 0 (se_flow dot_running), se_reader_paused := True\<rparr>))"
  have n: "\<not> se_reader_paused dot_running" "se_held_fence dot_running = None" by (simp_all add: dot_running_def publish_def)
  have p: "se_reader_paused ?s" "se_held_fence ?s = None" using n by simp_all
  have b: "[248, 0, 0, 0, 0x80, 0, 0, 2, 0] \<noteq> ([] :: bytes)" by simp
  from paused_reader_is_answered [OF dot_running_reach [OF b] fence_turn [OF n] p(1)] p
  have "decide session_config_default 0 ?s = WantSend" by simp
  then show ?thesis using fence_turn [OF n] p(1) by blast
qed

section \<open>What the loop reads\<close>

text \<open>Messages handled one after the other, the reader not paused before any of them, and the bytes each of them
  is, no more and no fewer.\<close>

inductive handled :: "'d libs \<Rightarrow> (nat \<Rightarrow> nat) \<Rightarrow> nat \<Rightarrow> shared \<times> 'd session \<Rightarrow> client_message list \<Rightarrow> shared \<times> 'd session \<Rightarrow> bool"
  for libs clock where
  none: "handled libs clock k st [] st"
| more: "\<not> se_reader_paused (snd st) \<Longrightarrow> handle libs (clock k) m st = Inr st1 \<Longrightarrow> handled libs clock (Suc k) st1 ms st2
    \<Longrightarrow> handled libs clock k st (m # ms) st2"

definition whole :: "(bytes \<Rightarrow> bytes \<times> bool) \<Rightarrow> bytes list \<Rightarrow> client_message list \<Rightarrow> bool" where
  "whole unz bs ms \<longleftrightarrow> list_all2 (\<lambda>b m. parse_client unz b = Inr (Some (m, length b))) bs ms"

text \<open>Bytes that end a session.\<close>

definition unacceptable :: "(bytes \<Rightarrow> bytes \<times> bool) \<Rightarrow> bytes \<Rightarrow> error \<Rightarrow> bool" where
  "unacceptable unz b err \<longleftrightarrow> parse_client unz b = Inl err
    \<or> (\<exists>pf n. parse_client unz b = Inr (Some (SetPixelFormat pf, n)) \<and> pf_validate pf = Inl err)"

lemma handle_fails:
  "handle libs now m st = Inl e \<longleftrightarrow> (\<exists>pf err. m = SetPixelFormat pf \<and> pf_validate pf = Inl err \<and> e = ProtoError err)"
  by (cases st; cases m) (auto simp: handle_def handle_pixel_format_def split: sum.splits)

lemma drain_runs:
  "\<exists>ms bs st' rest. handled libs clock k st ms st' \<and> whole unz bs ms \<and> inbuf = concat bs @ rest
    \<and> (case drain_client libs unz clock k st inbuf of
         Inr (st2, rest2) \<Rightarrow> st2 = st' \<and> rest2 = rest \<and> (se_reader_paused (snd st') \<or> parse_client unz rest = Inr None)
       | Inl e \<Rightarrow> \<not> se_reader_paused (snd st') \<and> (\<exists>err. e = ProtoError err \<and> unacceptable unz rest err))"
proof (induction libs\<equiv>libs unz\<equiv>unz clock\<equiv>clock k st inbuf rule: drain_client.induct)
  case (1 k st inbuf)
  note step = drain_client.simps [of libs unz clock k st inbuf]
  have stop: ?case if "case drain_client libs unz clock k st inbuf of
      Inr (st2, rest2) \<Rightarrow> st2 = st \<and> rest2 = inbuf \<and> (se_reader_paused (snd st) \<or> parse_client unz inbuf = Inr None)
    | Inl e \<Rightarrow> \<not> se_reader_paused (snd st) \<and> (\<exists>err. e = ProtoError err \<and> unacceptable unz inbuf err)"
    using that handled.none [of libs clock k st]
    by (intro exI [of _ "[]"] exI [of _ st] exI [of _ inbuf]) (simp add: whole_def)
  show ?case
  proof (cases "se_reader_paused (snd st) \<or> parse_client unz inbuf = Inr None \<or> (\<exists>e. parse_client unz inbuf = Inl e)")
    case True
    then show ?thesis by (intro stop) (auto simp: step unacceptable_def)
  next
    case False
    then obtain m n where p: "\<not> se_reader_paused (snd st)" "parse_client unz inbuf = Inr (Some (m, n))"
      by (metis not_None_eq prod.exhaust sum.exhaust)
    show ?thesis
    proof (cases "handle libs (clock k) m st")
      case (Inl e)
      then obtain pf err where "m = SetPixelFormat pf" "pf_validate pf = Inl err" "e = ProtoError err" unfolding handle_fails by blast
      then show ?thesis using p Inl by (intro stop) (auto simp: step unacceptable_def)
    next
      case (Inr st1)
      obtain ms bs st' rest where r: "handled libs clock (Suc k) st1 ms st'" "whole unz bs ms" "drop n inbuf = concat bs @ rest"
        "case drain_client libs unz clock (Suc k) st1 (drop n inbuf) of
           Inr (st2, rest2) \<Rightarrow> st2 = st' \<and> rest2 = rest \<and> (se_reader_paused (snd st') \<or> parse_client unz rest = Inr None)
         | Inl e \<Rightarrow> \<not> se_reader_paused (snd st') \<and> (\<exists>err. e = ProtoError err \<and> unacceptable unz rest err)"
        using 1 [OF p refl refl Inr] by blast
      have "whole unz (take n inbuf # bs) (m # ms)"
        using client.only_the_front [OF p(2)] client.used [OF p(2)] r(2) by (simp add: whole_def min_absorb2)
      moreover have "inbuf = concat (take n inbuf # bs) @ rest" using r(3) by (metis append_assoc append_take_drop_id concat.simps(2))
      moreover have "drain_client libs unz clock k st inbuf = drain_client libs unz clock (Suc k) st1 (drop n inbuf)"
        using p Inr by (simp add: step)
      ultimately show ?thesis using handled.more [OF p(1) Inr r(1)] r(4)
        by (intro exI [of _ "m # ms"] exI [of _ "take n inbuf # bs"] exI [of _ st'] exI [of _ rest]) simp
    qed
  qed
qed

text \<open>C28. Reading ends, and in the right place: a turn handles messages one after the other from the front of
  what it has, each of them made of exactly the bytes the parser takes it for, and stops only when a message
  has paused the reader or when what is left, which it leaves as it came, is not yet a whole message.\<close>

theorem drain_stops:
  assumes "drain_client libs unz clock k (sh, s) inbuf = Inr ((sh', s'), rest)"
  shows "\<exists>ms bs. handled libs clock k (sh, s) ms (sh', s') \<and> whole unz bs ms \<and> inbuf = concat bs @ rest
    \<and> (se_reader_paused s' \<or> parse_client unz rest = Inr None)"
  using drain_runs [of libs clock k "(sh, s)" unz inbuf] by (simp add: assms)

text \<open>A key press, and the first byte of a message that has not arrived yet.\<close>

theorem drain_stops_witness:
  "\<exists>sh' ms bs. drain_client plain_libs (\<lambda>b. (b, False)) (\<lambda>_. 0) 0 (dot_shared, dot_session) [4, 1, 0, 0, 0, 0, 0, 97, 4] = Inr ((sh', dot_session), [4])
    \<and> handled plain_libs (\<lambda>_. 0) 0 (dot_shared, dot_session) ms (sh', dot_session) \<and> whole (\<lambda>b. (b, False)) bs ms
    \<and> [4, 1, 0, 0, 0, 0, 0, 97, 4] = concat bs @ [4]"
proof -
  let ?in = "[4, 1, 0, 0, 0, 0, 0, 97, 4] :: bytes"
  have p: "parse_client (\<lambda>b. (b, False)) ?in = Inr (Some (KeyEvent True 97, 8))" "parse_client (\<lambda>b. (b, False)) [4] = Inr None" by code_simp+
  have n: "\<not> se_reader_paused dot_session" by simp
  obtain sh' where h: "handle plain_libs 0 (KeyEvent True 97) (dot_shared, dot_session) = Inr (sh', dot_session)" by (simp add: handle_def)
  have d: "drain_client plain_libs (\<lambda>b. (b, False)) (\<lambda>_. 0) 0 (dot_shared, dot_session) ?in = Inr ((sh', dot_session), [4])"
    using p n h by (simp add: drain_client.simps [of _ _ _ 0] drain_client.simps [of _ _ _ "Suc 0"])
  show ?thesis using drain_stops [OF d] d by blast
qed

text \<open>C29. What a client sends ends its session in two ways only. The messages before it have been handled, each
  made of exactly its own bytes, and none of them has paused the reader; what follows them is either bytes no
  message begins with or a pixel format that is not valid, and the error is the protocol crate's own.\<close>

theorem drain_fails:
  assumes "drain_client libs unz clock k (sh, s) inbuf = Inl e"
  shows "\<exists>ms bs sh' s' rest err. handled libs clock k (sh, s) ms (sh', s') \<and> whole unz bs ms \<and> inbuf = concat bs @ rest
    \<and> \<not> se_reader_paused s' \<and> e = ProtoError err
    \<and> (parse_client unz rest = Inl err \<or> (\<exists>pf n. parse_client unz rest = Inr (Some (SetPixelFormat pf, n)) \<and> pf_validate pf = Inl err))"
  using drain_runs [of libs clock k "(sh, s)" unz inbuf] by (simp add: assms unacceptable_def)

theorem drain_fails_witness:
  "drain_client plain_libs (\<lambda>b. (b, False)) (\<lambda>_. 0) 0 (dot_shared, dot_session) [1] = Inl (ProtoError (UnknownMessageType 1))
   \<and> (\<exists>bs rest. [1] = concat bs @ rest \<and> whole (\<lambda>b. (b, False)) bs [] \<and> parse_client (\<lambda>b. (b, False)) rest = Inl (UnknownMessageType 1))"
proof -
  have p: "parse_client (\<lambda>b. (b, False)) [1] = Inl (UnknownMessageType 1)" by code_simp
  have d: "drain_client plain_libs (\<lambda>b. (b, False)) (\<lambda>_. 0) 0 (dot_shared, dot_session) [1] = Inl (ProtoError (UnknownMessageType 1))"
    by (simp add: drain_client.simps p)
  obtain ms bs sh' s' rest err where r: "handled plain_libs (\<lambda>_. 0) 0 (dot_shared, dot_session) ms (sh', s')" "whole (\<lambda>b. (b, False)) bs ms"
    "[1] = concat bs @ rest" "ProtoError (UnknownMessageType 1) = ProtoError err"
    using drain_fails [OF d] by blast
  have "ms = []"
  proof (rule ccontr)
    assume "ms \<noteq> []"
    then obtain b bs' m where b: "bs = b # bs'" "parse_client (\<lambda>b. (b, False)) b = Inr (Some (m, length b))"
      using r(2) by (cases ms) (auto simp: whole_def list_all2_Cons2)
    from client.ext_some [OF b(2), of "concat bs' @ rest"] r(3) b(1) p show False by simp
  qed
  then show ?thesis using d r p by (auto simp: whole_def)
qed

section \<open>When nothing is sent\<close>

lemma split_copies_found:
  assumes "region_wf pending" "\<forall>c\<in>set ms. \<not> rect_is_empty (dst c)" "split_copies area ms pending = (keep, p)"
  shows "region_wf p \<and> (keep \<noteq> [] \<or> rects_pixels p \<inter> rect_pixels area \<noteq> {}
    \<longleftrightarrow> (\<exists>c\<in>set ms. rect_intersects (dst c) area) \<or> rects_pixels pending \<inter> rect_pixels area \<noteq> {})"
  using assms
proof (induction area ms pending arbitrary: keep p rule: split_copies.induct)
  case (2 area m ms pending)
  show ?case
  proof (cases "rect_contains area (dst m)")
    case True
    then have "rect_intersects (dst m) area"
      using 2(4) by (auto simp: rect_contains_pixels rect_intersects_pixels rect_is_empty_pixels)
    moreover obtain k where "split_copies area ms pending = (k, p)" "keep = m # k"
      using True 2(5) by (auto split: prod.splits)
    ultimately show ?thesis using 2(1) [OF True 2(3)] 2(4) by auto
  next
    case False
    then have "split_copies area ms (region_add pending (dst m)) = (keep, p)" using 2(5) by simp
    from 2(2) [OF False region_add_wf [OF 2(3)] _ this] 2(4) show ?thesis
      by (auto simp: region_add_pixels [OF 2(3)] rect_intersects_pixels)
  qed
qed simp

text \<open>Turns without a wait: \<open>n\<close> times, whatever the clock shows and however much the writer has put out, the turn
  finds nothing to read, wants to send, takes the writer's permit and hands it nothing.\<close>

primrec spins :: "'d libs \<Rightarrow> (bytes \<Rightarrow> bytes \<times> bool) \<Rightarrow> session_config \<Rightarrow> shared \<Rightarrow> nat \<Rightarrow> nat \<Rightarrow> 'd session \<Rightarrow> bool" where
  "spins libs unz cfg sh 0 now s = True"
| "spins libs unz cfg sh (Suc n) now s = (\<forall>t\<ge>now. \<forall>clock written. \<exists>s1 s2.
     start_turn libs unz t clock written (sh, s) [] = Inr ((sh, s1), []) \<and> decide cfg t s1 = WantSend
     \<and> end_turn libs t sh Permit s1 [] = Goes_on (None, s2, []) \<and> spins libs unz cfg sh n t s2)"

text \<open>A session in which a layout is all the loop sees owed, and one the client does not take.\<close>

definition only_layout :: "session_config \<Rightarrow> shared \<Rightarrow> nat \<Rightarrow> 'd session \<Rightarrow> bool" where
  "only_layout cfg sh now s \<longleftrightarrow> se_layout_pending s \<and> se_outbox s = [] \<and> may_send (se_flow s)
    \<and> (u32_of (rect_width (session_bounds sh)), u32_of (rect_height (session_bounds sh))) = se_client_size s
    \<and> region_wf (se_pending s) \<and> (\<forall>c\<in>set (se_copies s). \<not> rect_is_empty (dst c))
    \<and> (case se_last_update s of None \<Rightarrow> True | Some t \<Rightarrow> t + min_interval cfg \<le> now)
    \<and> (\<exists>area. due_area s = Some area \<and> \<not> has_something_for area (s\<lparr>se_layout_pending := layout_due s\<rparr>))"

lemma has_something_parts:
  "has_something_for area (s\<lparr>se_layout_pending := l\<rparr>) \<longleftrightarrow> l \<or> se_cursor_pending s \<noteq> None \<and> cursor_encoding s \<noteq> None
    \<or> (\<exists>c\<in>set (se_copies s). rect_intersects (dst c) area) \<or> rects_pixels (se_pending s) \<inter> rect_pixels area \<noteq> {}"
  by (auto simp: has_something_for_def cursor_encoding_def supports_def region_intersects_rect_pixels)

lemma build_update_answer:
  assumes "(u32_of (rect_width (session_bounds sh)), u32_of (rect_height (session_bounds sh))) = se_client_size s"
    and "region_wf (se_pending s)" and "\<forall>c\<in>set (se_copies s). \<not> rect_is_empty (dst c)"
  shows "has_something_for area (s\<lparr>se_layout_pending := layout_due s\<rparr>) \<Longrightarrow> build_update libs sh area s = Inr (b, s') \<Longrightarrow> b"
    and "\<not> has_something_for area (s\<lparr>se_layout_pending := layout_due s\<rparr>) \<Longrightarrow>
      \<exists>p. region_wf p \<and> rects_pixels p \<inter> rect_pixels area = {}
        \<and> build_update libs sh area s = Inr (False, s\<lparr>se_out := [], se_copies := [], se_pending := p,
         se_cursor_pending := (if cursor_encoding s \<noteq> None then None else se_cursor_pending s)\<rparr>)"
proof -
  obtain keep p where sp: "split_copies area (se_copies s) (se_pending s) = (keep, p)" by force
  from split_copies_found [OF assms(2,3) sp]
  have p: "region_wf p" and found: "keep \<noteq> [] \<or> rects_pixels p \<inter> rect_pixels area \<noteq> {}
    \<longleftrightarrow> (\<exists>c\<in>set (se_copies s). rect_intersects (dst c) area) \<or> rects_pixels (se_pending s) \<inter> rect_pixels area \<noteq> {}" by blast+
  have d: "region_is_empty (region_intersect_rect p area) \<longleftrightarrow> rects_pixels p \<inter> rect_pixels area = {}"
    using p by (simp add: region_is_empty_pixels region_intersect_rect_wf region_intersect_rect_pixels)
  have c: "cursor_encoding (s\<lparr>se_out := []\<rparr>) = cursor_encoding s" "supports (s\<lparr>se_out := []\<rparr>) = supports s"
    by (simp_all add: cursor_encoding_def supports_def [abs_def])
  let ?none = "keep = [] \<and> rects_pixels p \<inter> rect_pixels area = {} \<and> cursor_due s = None \<and> \<not> layout_due s"
  have iff: "has_something_for area (s\<lparr>se_layout_pending := layout_due s\<rparr>) \<longleftrightarrow> \<not> ?none"
    using found unfolding has_something_parts by (auto simp: cursor_due_def)
  show "b" if "has_something_for area (s\<lparr>se_layout_pending := layout_due s\<rparr>)" "build_update libs sh area s = Inr (b, s')"
    using that(2) that(1) [unfolded iff] assms(1) sp c
    by (auto simp: build_update_def Let_def layout_due_def cursor_due_def d split: if_split_asm sum.splits)
  show "\<exists>p. region_wf p \<and> rects_pixels p \<inter> rect_pixels area = {}
      \<and> build_update libs sh area s = Inr (False, s\<lparr>se_out := [], se_copies := [], se_pending := p,
        se_cursor_pending := (if cursor_encoding s \<noteq> None then None else se_cursor_pending s)\<rparr>)"
    if "\<not> has_something_for area (s\<lparr>se_layout_pending := layout_due s\<rparr>)"
  proof -
    have none: ?none using that unfolding iff by blast
    have cu: "(if cursor_encoding s \<noteq> None then se_cursor_pending s else None) = None" "(se_layout_pending s \<and> supports s PSEUDO_EXTENDED_DESKTOP_SIZE) = False"
      using none by (simp_all only: cursor_due_def layout_due_def simp_thms)
    have sp': "split_copies area (se_copies s) (se_pending s) = ([], p)" using sp none by simp
    have sz: "((u32_of (rect_width (session_bounds sh)), u32_of (rect_height (session_bounds sh))) \<noteq> se_client_size (s\<lparr>se_out := []\<rparr>)) = False"
      using assms(1) by simp
    have e: "region_is_empty (region_intersect_rect p area)" using none d by simp
    have sel: "se_copies (s\<lparr>se_out := []\<rparr>) = se_copies s" "se_pending (s\<lparr>se_out := []\<rparr>) = se_pending s"
      "se_layout_pending (s\<lparr>se_out := []\<rparr>) = se_layout_pending s" "se_cursor_pending (s\<lparr>se_out := []\<rparr>) = se_cursor_pending s" by simp_all
    have "build_update libs sh area s = Inr (False, s\<lparr>se_out := [], se_copies := [], se_pending := p,
        se_cursor_pending := (if cursor_encoding s \<noteq> None then None else se_cursor_pending s)\<rparr>)"
      by (simp only: build_update_def Let_def sz c sel if_False sp' prod.case cu e simp_thms if_True)
    with none p show ?thesis by (intro exI [of _ p]) simp
  qed
qed

lemma only_layout_spins: "only_layout cfg sh now s \<Longrightarrow> spins libs unz cfg sh n now s"
proof (induction n arbitrary: now s)
  case (Suc n)
  show ?case
    unfolding spins.simps
  proof (intro allI impI)
    fix t clock written assume t: "now \<le> t"
    obtain area where area: "due_area s = Some area" "\<not> has_something_for area (s\<lparr>se_layout_pending := layout_due s\<rparr>)"
      using Suc.prems by (auto simp: only_layout_def)
    let ?e = "s\<lparr>se_flow := expire t (se_flow s)\<rparr>"
    let ?s1 = "publish written ?e"
    have p: "parse_client unz [] = Inr None" by (simp add: parse_client_run needs need_take)
    have "release_fence ?e = ?e" using area(1) by (auto simp: release_fence_def due_area_def split: option.split)
    then have st: "start_turn libs unz t clock written (sh, s) [] = Inr ((sh, ?s1), [])"
      by (simp add: start_turn_def drain_client.simps p)
    have e: "may_send (expire now c) = may_send c" for now c
      by (simp add: may_send_def in_flight_def expire_def Let_def split: prod.split)
    have same: "layout_due ?s1 = layout_due s" "has_something_for area (?s1\<lparr>se_layout_pending := l\<rparr>) = has_something_for area (s\<lparr>se_layout_pending := l\<rparr>)" for l
      unfolding has_something_parts by (simp_all add: layout_due_def supports_def publish_def cursor_encoding_def)
    have o1: "only_layout cfg sh t ?s1"
      using Suc.prems area t same by (auto simp: only_layout_def e) (auto simp: publish_def due_area_def split: option.splits)
    have w: "decide cfg t ?s1 = WantSend"
      using o1 by (auto simp: only_layout_def decide_def has_something_for_def split: option.splits)
    obtain q where q: "region_wf q" "rects_pixels q \<inter> rect_pixels area = {}"
      "build_update libs sh area ?s1 = Inr (False, ?s1\<lparr>se_out := [], se_copies := [], se_pending := q,
         se_cursor_pending := (if cursor_encoding ?s1 \<noteq> None then None else se_cursor_pending ?s1)\<rparr>)" (is "_ = Inr (False, ?s2)")
      using build_update_answer(2) [of sh ?s1 area libs] o1 area(2) same by (auto simp: only_layout_def)
    have due: "due_area ?s1 = Some area" using area(1) by (simp add: due_area_def publish_def)
    moreover have "se_outbox ?s1 = []" using o1 by (simp add: only_layout_def)
    ultimately have "send_next libs t sh ?s1 = Inr (None, ?s2)" using q(3) by (simp add: send_next_def)
    then have fin: "end_turn libs t sh Permit ?s1 [] = Goes_on (None, ?s2, [])" by (simp add: end_turn_def)
    have l: "layout_due ?s2 = layout_due ?s1" "cursor_encoding ?s2 = cursor_encoding ?s1" "due_area ?s2 = due_area ?s1"
      by (simp_all add: layout_due_def supports_def cursor_encoding_def due_area_def)
    have "\<not> has_something_for area (?s2\<lparr>se_layout_pending := layout_due ?s2\<rparr>)"
      using area(2) same(1) q(2) unfolding l has_something_parts by auto
    then have "only_layout cfg sh t ?s2" using o1 q(1) due l(3) by (auto simp: only_layout_def)
    from Suc.IH [OF this] st w fin
    show "\<exists>s1 s2. start_turn libs unz t clock written (sh, s) [] = Inr ((sh, s1), []) \<and> decide cfg t s1 = WantSend
       \<and> end_turn libs t sh Permit s1 [] = Goes_on (None, s2, []) \<and> spins libs unz cfg sh n t s2" by blast
  qed
qed simp

text \<open>C23. An update is built whenever one is owed: with no resize in the way, \<open>build_update\<close> answers that it has
  nothing exactly when nothing inside the area is pending, no copy reaches into it, the client does not draw a
  new pointer and no layout is owed to a client that takes layouts. The loop asks \<open>has_something_for\<close>, which
  leaves out that last condition: once a layout is all that is owed and the client does not list
  ExtendedDesktopSize, the loop takes turn after turn without a wait, sending nothing, as long as the client
  is silent and no frame comes.\<close>

theorem update_never_idle:
  assumes "(u32_of (rect_width (session_bounds sh)), u32_of (rect_height (session_bounds sh))) = se_client_size s"
    and "region_wf (se_pending s)" and "\<forall>c\<in>set (se_copies s). \<not> rect_is_empty (dst c)" and "due_area s = Some area"
  shows "(\<forall>b s'. build_update libs sh area s = Inr (b, s') \<longrightarrow> b = has_something_for area (s\<lparr>se_layout_pending := layout_due s\<rparr>))
    \<and> (decide cfg now s = WantSend \<and> se_outbox s = [] \<and> \<not> has_something_for area (s\<lparr>se_layout_pending := layout_due s\<rparr>)
        \<longrightarrow> (\<forall>n. spins libs unz cfg sh n now s))"
proof (intro conjI impI allI)
  show "b = has_something_for area (s\<lparr>se_layout_pending := layout_due s\<rparr>)" if "build_update libs sh area s = Inr (b, s')" for b s'
  proof (cases "has_something_for area (s\<lparr>se_layout_pending := layout_due s\<rparr>)")
    case True
    then show ?thesis using build_update_answer(1) [OF assms(1-3) True that] by simp
  next
    case False
    then show ?thesis using build_update_answer(2) [OF assms(1-3) False, of libs] that by auto
  qed
  fix n assume a: "decide cfg now s = WantSend \<and> se_outbox s = [] \<and> \<not> has_something_for area (s\<lparr>se_layout_pending := layout_due s\<rparr>)"
  then have f: "has_something_for area s" "may_send (se_flow s)" "case se_last_update s of None \<Rightarrow> True | Some t \<Rightarrow> t + min_interval cfg \<le> now"
    using assms(4) by (auto simp: decide_def Let_def split: if_split_asm option.splits)
  have "se_layout_pending s"
  proof (rule ccontr)
    assume "\<not> se_layout_pending s"
    then have "s\<lparr>se_layout_pending := layout_due s\<rparr> = s" by (simp add: layout_due_def)
    then show False using a f(1) by simp
  qed
  then show "spins libs unz cfg sh n now s"
    using a f assms by (intro only_layout_spins) (simp add: only_layout_def)
qed

lemma dot_sizes: "(u32_of (rect_width (session_bounds dot_shared)), u32_of (rect_height (session_bounds dot_shared))) = se_client_size dot_session"
  using dot_facts(17) by simp

text \<open>A layout owed to a client that takes none.\<close>

definition dot_spinning :: "unit session" where
  "dot_spinning = dot_session\<lparr>se_pending := [], se_layout_pending := True, se_requested := Some dot_rect\<rparr>"

definition dot_asking :: "unit session" where
  "dot_asking = dot_session\<lparr>se_requested := Some dot_rect\<rparr>"

lemma dot_asks: "\<exists>s'. build_update plain_libs dot_shared dot_rect dot_asking = Inr (True, s')"
proof -
  have "cursor_encoding (dot_asking\<lparr>se_out := []\<rparr>) = None" by (simp add: cursor_encoding_def supports_def dot_asking_def)
  then show ?thesis
    using dot_facts(17)
    by (simp add: dot_asking_def build_update_def Let_def region_is_empty_def encode_rects_of_def damage_rects_of_def write_update_def
      write_copies_def encode_one_def dot_encoded)
qed

theorem update_never_idle_witness:
  "(\<exists>s'. build_update plain_libs dot_shared dot_rect dot_asking = Inr (True, s')) \<and> has_something_for dot_rect (dot_asking\<lparr>se_layout_pending := layout_due dot_asking\<rparr>)
    \<and> (\<forall>n. spins plain_libs (\<lambda>b. (b, False)) session_config_default dot_shared n 0 dot_spinning)"
proof -
  obtain s' where s': "build_update plain_libs dot_shared dot_rect dot_asking = Inr (True, s')" using dot_asks by blast
  have "\<forall>b s'. build_update plain_libs dot_shared dot_rect dot_asking = Inr (b, s') \<longrightarrow> b = has_something_for dot_rect (dot_asking\<lparr>se_layout_pending := layout_due dot_asking\<rparr>)"
    by (rule conjunct1 [OF update_never_idle]) (use dot_facts(17) in \<open>simp_all add: dot_asking_def due_area_def\<close>)
  then have "has_something_for dot_rect (dot_asking\<lparr>se_layout_pending := layout_due dot_asking\<rparr>)" using s' by blast
  moreover have "\<forall>n. spins plain_libs (\<lambda>b. (b, False)) session_config_default dot_shared n 0 dot_spinning"
  proof (rule mp [OF conjunct2 [OF update_never_idle]])
    show "decide session_config_default 0 dot_spinning = WantSend \<and> se_outbox dot_spinning = []
      \<and> \<not> has_something_for dot_rect (dot_spinning\<lparr>se_layout_pending := layout_due dot_spinning\<rparr>)"
      unfolding has_something_parts
      by (simp add: decide_def dot_spinning_def due_area_def has_something_for_def may_send_def dot_session_def session_new_def congestion_new_def
        layout_due_def supports_def rects_pixels_def)
  qed (use dot_facts(17) in \<open>simp_all add: dot_spinning_def due_area_def\<close>)
  ultimately show ?thesis using s' by blast
qed

section \<open>A fence that stops a session\<close>

text \<open>The reader is paused for an answer that goes out with the next update, and the window is shut: the
  echo that would open it is among the bytes not read.\<close>

definition deaf :: "'d session \<Rightarrow> bool" where
  "deaf s \<longleftrightarrow> se_reader_paused s \<and> se_held_fence s \<noteq> None \<and> se_outbox s = [] \<and> due_area s \<noteq> None \<and> \<not> may_send (se_flow s)"

lemma deaf_start:
  assumes "deaf s" "start_turn libs unz now clock written (sh, s) inbuf = Inr ((sh', s1), rest)"
  shows "rest = inbuf \<and> deaf s1"
proof -
  have e: "may_send (expire now c) = may_send c" for c
    by (simp add: may_send_def in_flight_def expire_def Let_def split: prod.split)
  let ?e = "s\<lparr>se_flow := expire now (se_flow s)\<rparr>"
  have "drain_client libs unz clock 0 (sh, ?e) inbuf = Inr ((sh, ?e), inbuf)"
    using assms(1) by (simp add: drain_client.simps deaf_def)
  moreover have "deaf ?e" using assms(1) by (simp add: deaf_def e due_area_def)
  moreover from this have "release_fence ?e = ?e" by (auto simp: release_fence_def deaf_def)
  ultimately show ?thesis using assms(2) by (auto simp: start_turn_def deaf_def)
qed

lemma deaf_turn:
  assumes "turn_step libs unz cfg (s, inbuf) sent (s2, inbuf2)" "deaf s"
  shows "sent = None \<and> inbuf2 = inbuf \<and> (se_outbox s2 = [] \<longrightarrow> deaf s2)"
  using assms(1)
proof (rule turn_stepE)
  fix now clock written sh sh' s1 rest ev now2 sh2 sent' s2' inbuf2'
  assume st: "start_turn libs unz now clock written (sh, s) inbuf = Inr ((sh', s1), rest)"
    and en: "enabled (decide cfg now s1) s1 ev" and fin: "end_turn libs now2 sh2 ev s1 rest = Goes_on (sent, s2', inbuf2')"
    and eq: "(s2, inbuf2) = (s2', inbuf2')"
  have d: "rest = inbuf" "deaf s1" using deaf_start [OF assms(2) st] by blast+
  have "decide cfg now s1 \<noteq> WantSend" using d(2) want_send by (auto simp: deaf_def)
  then have "ev \<noteq> Permit" "\<And>b. ev \<noteq> ReadSome b" using en d(2) by (auto simp: enabled_def deaf_def)
  moreover have "core s2 = core s1 \<and> due_area s2 = due_area s1 \<and> sent = None \<and> inbuf2 = inbuf" if "ev \<noteq> Permit" "\<And>b. ev \<noteq> ReadSome b"
    using that fin eq d(1) by (cases ev) (auto simp: end_turn_def frames_keep clip_moved_keeps)
  ultimately show ?thesis using d(2) by (auto simp: deaf_def core_def)
qed

definition quiet_turn :: "'d libs \<Rightarrow> (bytes \<Rightarrow> bytes \<times> bool) \<Rightarrow> session_config \<Rightarrow> 'd session \<times> bytes \<Rightarrow> 'd session \<times> bytes \<Rightarrow> bool" where
  "quiet_turn libs unz cfg st st' \<longleftrightarrow> (\<exists>sent. turn_step libs unz cfg st sent st') \<and> se_outbox (fst st') = []"

text \<open>C22. A fence can stop a session for good. A client that asks for updates and sends a fence with
  \<open>SyncNext\<close> and \<open>BlockAfter\<close> while the window is shut leaves the reader paused for an answer that waits
  for the next update, which waits for an echo, which the paused reader does not read. Whatever frames
  arrive and whatever timers fire, and until a clipboard change of the desk puts a message in the
  outbox, no turn reads a byte of what the client sends and no turn sends anything.\<close>

theorem fence_stops_session:
  assumes "deaf s" and "(quiet_turn libs unz cfg)\<^sup>*\<^sup>* (s, inbuf) (s', inbuf')"
  shows "deaf s' \<and> inbuf' = inbuf \<and> (\<forall>sent st. turn_step libs unz cfg (s', inbuf') sent st \<longrightarrow> sent = None \<and> snd st = inbuf)"
proof -
  have "deaf (fst st) \<and> snd st = inbuf" if "(quiet_turn libs unz cfg)\<^sup>*\<^sup>* (s, inbuf) st" for st
    using that
  proof (induction rule: rtranclp_induct)
    case (step st1 st2)
    then show ?case
      using deaf_turn [of libs unz cfg "fst st1" "snd st1" _ "fst st2" "snd st2"] by (auto simp: quiet_turn_def)
  qed (simp add: assms(1))
  from this [OF assms(2)] show ?thesis
    using deaf_turn [of libs unz cfg s' inbuf'] by (auto simp: prod.split)
qed

definition dot_full :: "unit session" where
  "dot_full = dot_session\<lparr>se_requested := Some dot_rect,
     se_flow := update_sent 1000000 0 (measure_link (congestion_new default_limits))\<rparr>"

theorem fence_stops_session_witness:
  "\<exists>s'. handle plain_libs 0 (ClientFence 0x80000006 [7]) (dot_shared, dot_full) = Inr (dot_shared, s') \<and> deaf s'
    \<and> (\<forall>sent st. turn_step plain_libs (\<lambda>b. (b, False)) session_config_default (s', [248]) sent st \<longrightarrow> sent = None \<and> snd st = [248])"
proof -
  let ?s = "dot_full\<lparr>se_reader_paused := True, se_held_fence := Some (write_server_fence (0x80000006 AND NOT FENCE_REQUEST) [7])\<rparr>"
  have h: "handle plain_libs 0 (ClientFence 0x80000006 [7]) (dot_shared, dot_full) = Inr (dot_shared, ?s)"
    using block_flags(5-7) by (simp add: handle_def handle_fence_def)
  have "\<not> may_send (se_flow ?s)" by (simp add: dot_full_def flow_eval)
  then have d: "deaf ?s" by (simp add: deaf_def) (simp add: dot_full_def due_area_def)
  from fence_stops_session [OF d rtranclp.rtrancl_refl, where libs = plain_libs and unz = "\<lambda>b. (b, False)"
      and cfg = session_config_default and inbuf = "[248]"] h d
  show ?thesis by blast
qed

section \<open>Opening\<close>

lemma wire_read_parts:
  "wire_read n what w = Inr (b, w') \<Longrightarrow> w_in w = b @ w_in w' \<and> length b = n \<and> w_slept w' = w_slept w \<and> w_out w' = w_out w"
  by (auto simp: wire_read_def split: if_split_asm)

lemma wire_write_simps [simp]:
  "w_in (wire_write b w) = w_in w" "w_slept (wire_write b w) = w_slept w"
  by (simp_all add: wire_write_def)

lemma negotiate_parts:
  "negotiate_version w = Inr (f, w1) \<Longrightarrow> \<exists>v. w_in w = v @ w_in w1 \<and> length v = VERSION_LEN \<and> w_slept w1 = w_slept w"
  by (auto simp: negotiate_version_def split: sum.splits dest!: wire_read_parts)

lemma negotiate_error: "negotiate_version w = Inl e \<Longrightarrow> e \<noteq> Failed ''authentication failed''"
  by (auto simp: negotiate_version_def wire_read_def split: sum.splits if_split_asm)

lemma choose_parts:
  "choose_security f [t] w = Inr (c, w1) \<Longrightarrow> c = t \<and> w_slept w1 = w_slept w \<and> (\<exists>pre. w_in w = pre @ w_in w1 \<and> (pre = [] \<or> pre = [t]))"
  by (auto simp: choose_security_def Let_def length_Suc_conv split: if_split_asm sum.splits dest!: wire_read_parts)

lemma choose_error: "choose_security f ts w = Inl (e, w1) \<Longrightarrow> e \<noteq> Failed ''authentication failed''"
  by (auto simp: choose_security_def wire_read_def Let_def split: if_split_asm sum.splits)

lemma authenticate_parts:
  assumes "authenticate des challenge cfg f w = Inr w'" "cfg_password cfg = Some p"
  shows "\<exists>pre response. w_in w = pre @ response @ w_in w' \<and> (pre = [] \<or> pre = [SEC_VNC_AUTH]) \<and> length response = RESPONSE_LEN
    \<and> verify des p challenge response \<and> w_slept w' = w_slept w"
proof -
  have n: "SEC_VNC_AUTH \<noteq> SEC_NONE" by code_simp
  obtain c w1 where c: "choose_security f [SEC_VNC_AUTH] w = Inr (c, w1)"
    using assms by (auto simp: authenticate_def split: sum.splits)
  obtain pre where pre: "c = SEC_VNC_AUTH" "w_slept w1 = w_slept w" "w_in w = pre @ w_in w1" "pre = [] \<or> pre = [SEC_VNC_AUTH]"
    using choose_parts [OF c] by blast
  obtain r w2 where r: "wire_read RESPONSE_LEN ''auth response'' (wire_write challenge w1) = Inr (r, w2)"
    "verify des p challenge r" "w' = wire_write (write_security_result f True []) w2"
    using assms c n pre(1) by (auto simp: authenticate_def Let_def split: sum.splits if_split_asm)
  have w2: "w_in w1 = r @ w_in w2" "length r = RESPONSE_LEN" "w_slept w2 = w_slept w1" using wire_read_parts [OF r(1)] by simp_all
  show ?thesis by (rule exI [of _ pre], rule exI [of _ r]) (simp add: r w2 pre(2,3) pre(4))
qed

lemma authenticate_fails:
  assumes "authenticate des challenge cfg f w = Inl (Failed ''authentication failed'', w')"
  shows "w_slept w' = w_slept w + cfg_auth_fail_delay cfg"
proof -
  have n: "SEC_VNC_AUTH \<noteq> SEC_NONE" by code_simp
  show ?thesis
  proof (cases "cfg_password cfg")
    case None
    then show ?thesis
      using assms by (cases "choose_security f [SEC_NONE] w") (auto simp: authenticate_def dest!: choose_parts choose_error)
  next
    case (Some p)
    obtain c w1 where c: "choose_security f [SEC_VNC_AUTH] w = Inr (c, w1)"
      using assms Some choose_error [of f "[SEC_VNC_AUTH]" w] by (auto simp: authenticate_def split: sum.splits)
    have s: "c = SEC_VNC_AUTH" "w_slept w1 = w_slept w" using choose_parts [OF c] by simp_all
    show ?thesis
    proof (cases "wire_read RESPONSE_LEN ''auth response'' (wire_write challenge w1)")
      case (Inl e)
      then show ?thesis using assms c s n Some by (simp add: authenticate_def Let_def) (simp add: wire_read_def split: if_split_asm)
    next
      case (Inr rw)
      obtain r w3 where rw: "rw = (r, w3)" by force
      have "w_slept w3 = w_slept w" using wire_read_parts Inr rw s by fastforce
      then show ?thesis using assms c s n Some Inr rw by (auto simp: authenticate_def Let_def split: if_split_asm)
    qed
  qed
qed

text \<open>C15. With a password set no session starts without it: when \<open>open_session\<close> gives a session, the
  client sent its version, the offered type unless the old protocol leaves no choice, and then sixteen
  bytes that are the challenge under the password's key, and one byte more; nothing was read besides.
  A wrong response ends the connection after the configured delay, and a right one costs none.\<close>

theorem session_needs_password:
  assumes "cfg_password cfg = Some p" and "length challenge = CHALLENGE_LEN" and "\<And>k b. length b = 8 \<Longrightarrow> length (des k b) = 8"
  shows "case open_session des challenge cfg peer sh w of
      Inr (s, w') \<Rightarrow> w_slept w' = w_slept w
        \<and> (\<exists>version chosen init. w_in w = version @ chosen @ expected_response des p challenge @ [init] @ w_in w'
            \<and> length version = VERSION_LEN \<and> (chosen = [] \<or> chosen = [SEC_VNC_AUTH]))
    | Inl (e, w') \<Rightarrow> e = Failed ''authentication failed'' \<longrightarrow> w_slept w' = w_slept w + cfg_auth_fail_delay cfg"
proof (cases "negotiate_version w")
  case (Inl e)
  then show ?thesis using negotiate_error by (auto simp: open_session_def)
next
  case (Inr fw)
  obtain f w1 where fw: "fw = (f, w1)" by force
  obtain v where v: "w_in w = v @ w_in w1" "length v = VERSION_LEN" "w_slept w1 = w_slept w" using negotiate_parts Inr fw by blast
  show ?thesis
  proof (cases "authenticate des challenge cfg f w1")
    case (Inl ew)
    then show ?thesis using authenticate_fails [of des challenge cfg f w1 "snd ew"] Inr fw v by (cases ew) (auto simp: open_session_def)
  next
    case r2: (Inr w2)
    obtain pre r where a: "w_in w1 = pre @ r @ w_in w2" "pre = [] \<or> pre = [SEC_VNC_AUTH]" "length r = RESPONSE_LEN"
      "verify des p challenge r" "w_slept w2 = w_slept w1" using authenticate_parts [OF r2 assms(1)] by blast
    have r: "r = expected_response des p challenge" using a(4) verify_iff [where des = des] assms(2,3) a(3) by blast
    show ?thesis
    proof (cases "wire_read 1 ''client init'' w2")
      case (Inl e)
      then show ?thesis using Inr fw r2 by (auto simp: open_session_def wire_read_def split: if_split_asm)
    next
      case r3: (Inr bw)
      obtain b w3 where bw: "bw = (b, w3)" by force
      then obtain i where i: "w_in w2 = [i] @ w_in w3" "w_slept w3 = w_slept w2"
        using wire_read_parts [of 1 "''client init''" w2 b w3] r3 by (auto simp: length_Suc_conv)
      have "w_in w = v @ pre @ expected_response des p challenge @ [i] @ w_in w3" using v(1) a(1) i(1) r by simp
      then have ex: "\<exists>version chosen init. w_in w = version @ chosen @ expected_response des p challenge @ [init] @ w_in w3
          \<and> length version = VERSION_LEN \<and> (chosen = [] \<or> chosen = [SEC_VNC_AUTH])"
        using v(2) a(2) by blast
      have sl: "w_slept w3 = w_slept w" using i(2) a(5) v(3) by simp
      show ?thesis using ex sl by (simp add: open_session_def Inr fw r2 r3 bw Let_def del: One_nat_def)
    qed
  qed
qed

definition locked :: session_config where
  "locked = session_config_default\<lparr>cfg_password := Some [], cfg_auth_fail_delay := 5\<rparr>"

theorem session_needs_password_witness:
  "\<exists>w'. (open_session (\<lambda>k b. b) (replicate 16 0) locked [] dot_shared \<lparr>w_in = version_bytes V33 @ replicate 16 1, w_out = [], w_slept = 0\<rparr>
      :: (session_error \<times> wire) + (unit session \<times> wire)) = Inl (Failed ''authentication failed'', w') \<and> w_slept w' = 5"
proof -
  let ?w = "\<lparr>w_in = version_bytes V33 @ replicate 16 1, w_out = [], w_slept = 0\<rparr> :: wire"
  have p: "cfg_password locked = Some []" "cfg_auth_fail_delay locked = 5" by (simp_all add: locked_def session_config_default_def)
  have "parse_version (version_bytes V33) = Inr (3, 3)" "for_version 3 3 = Inr V33" "length (version_bytes V33) = VERSION_LEN" by code_simp+
  then have "\<exists>w1. negotiate_version ?w = Inr (V33, w1) \<and> w_in w1 = replicate 16 1"
    by (simp add: negotiate_version_def wire_read_def wire_write_def)
  then obtain w1 where w1: "negotiate_version ?w = Inr (V33, w1)" "w_in w1 = replicate 16 1" by blast
  have c: "choose_security V33 [SEC_VNC_AUTH] w1 = Inr (SEC_VNC_AUTH, wire_write (write_security_type_v33 SEC_VNC_AUTH) w1)"
    by (simp add: choose_security_def)
  have v: "\<not> verify (\<lambda>k b. b) [] (replicate 16 0) (replicate 16 1)" "SEC_VNC_AUTH \<noteq> SEC_NONE" by code_simp+
  have r: "\<exists>w3. wire_read RESPONSE_LEN ''auth response'' (wire_write (replicate 16 0) (wire_write (write_security_type_v33 SEC_VNC_AUTH) w1))
      = Inr (replicate 16 1, w3)"
    by (simp add: wire_read_def w1(2) RESPONSE_LEN_def)
  then obtain w' where a: "authenticate (\<lambda>k b. b) (replicate 16 0) locked V33 w1 = Inl (Failed ''authentication failed'', w')"
    using v by (auto simp: authenticate_def p(1) c Let_def)
  have o: "(open_session (\<lambda>k b. b) (replicate 16 0) locked [] dot_shared ?w :: (session_error \<times> wire) + (unit session \<times> wire))
      = Inl (Failed ''authentication failed'', w')"
    by (simp add: open_session_def w1(1) a)
  have "length (replicate 16 (0 :: u8)) = CHALLENGE_LEN" by (simp add: CHALLENGE_LEN_def)
  from session_needs_password [OF p(1) this, where des = "\<lambda>k b. b" and w = ?w and peer = "[]" and sh = dot_shared and 'a = unit] o p(2)
  show ?thesis by simp
qed

section \<open>An update ahead of its frame\<close>

text \<open>The capture thread releases the picture before it announces the frame, so that a session can send
  a picture newer than the frames it has absorbed.\<close>

definition strip :: "u8 list \<Rightarrow> framebuffer" where
  "strip vs = \<lparr>fb_width = 4, fb_height = 1, fb_data = concat (map (\<lambda>v. [v, 0, 0, 0]) vs)\<rparr>"

definition strip_before :: framebuffer where "strip_before = strip [1, 2, 3, 4]"
definition strip_after :: framebuffer where "strip_after = strip [1, 1, 2, 4]"
definition strip_shared :: shared where "strip_shared = (shared_new [] 4 1)\<lparr>sh_fb := strip_after\<rparr>"
definition strip_area :: rect where "strip_area = rect_new 0 0 4 1"
definition strip_patch :: rect where "strip_patch = rect_new 1 0 1 1"
definition strip_move :: move where "strip_move = \<lparr>src_x = 0, src_y = 0, dst = rect_new 1 0 2 1\<rparr>"
definition strip_event :: frame_event where
  "strip_event = \<lparr>fe_seq = 1, fe_at = 0, fe_damage = [], fe_moves = [strip_move], fe_cursor = None, fe_resized = False\<rparr>"
definition strip_session :: "unit session" where
  "strip_session = (session_new session_config_default [] 4 1 [])\<lparr>se_encodings := [COPY_RECT], se_pending := [strip_patch]\<rparr>"

text \<open>The pictures are those of the two framebuffers; the client's differs from the old one at point one.\<close>

definition picture_in :: "framebuffer \<Rightarrow> bytes picture" where "picture_in fb = (\<lambda>(x, y). fb_px fb (nat x) (nat y))"
definition strip_old :: "bytes picture" where "strip_old = picture_in strip_before"
definition strip_new :: "bytes picture" where "strip_new = picture_in strip_after"
definition strip_client :: "bytes picture" where "strip_client = (\<lambda>pt. if pt = (1, 0) then [7, 0, 0, 0] else strip_old pt)"

lemma strip_pixels:
  "strip_old (0, 0) = [1, 0, 0, 0]" "strip_old (1, 0) = [2, 0, 0, 0]" "strip_old (2, 0) = [3, 0, 0, 0]" "strip_old (3, 0) = [4, 0, 0, 0]"
  "strip_new (0, 0) = [1, 0, 0, 0]" "strip_new (1, 0) = [1, 0, 0, 0]" "strip_new (2, 0) = [2, 0, 0, 0]" "strip_new (3, 0) = [4, 0, 0, 0]"
  by code_simp+

lemma strip_facts:
  "session_bounds strip_shared = strip_area" "rect_pixels strip_area = {0..<4} \<times> {0..<1}" "rect_pixels strip_patch = {(1, 0)}"
  "(u32_of (rect_width strip_area), u32_of (rect_height strip_area)) = (4, 1)" "se_client_size strip_session = (4, 1)"
  "se_copies strip_session = []" "se_pending strip_session = [strip_patch]" "se_cursor_pending strip_session = None"
  "\<not> se_layout_pending strip_session" "se_coder strip_session = CRaw" "se_pf strip_session = bgrx32"
  "ch_encoding (se_choice strip_session) = RAW" "sh_fb strip_shared = strip_after" "se_encodings strip_session = [COPY_RECT]"
  "rect_pixels (dst strip_move) = {1..<3} \<times> {0..<1}" "rect_pixels (move_src strip_move) = {0..<2} \<times> {0..<1}"
  by (auto simp: strip_session_def session_new_def strip_shared_def shared_new_def strip_area_def strip_patch_def strip_move_def strip_after_def strip_def
      session_bounds_def fb_bounds_def rect_new_def i32_def rect_width_def rect_height_def u32_of_def rect_pixels_prod move_src_def)

lemma strip_points: "(\<forall>pt\<in>{0..<4} \<times> {0..<1::int}. P pt) \<longleftrightarrow> P (0, 0) \<and> P (1, 0) \<and> P (2, 0) \<and> P (3::int, 0)"
proof -
  have "{0..<4::int} = {0, 1, 2, 3}" "{0..<1::int} = {0}" by auto
  then show ?thesis by simp
qed

text \<open>Two updates: one that sends the patch, and one that sends the copy.\<close>

lemma strip_cursor: "se_encodings s = [COPY_RECT] \<Longrightarrow> cursor_encoding s = None \<and> supports s COPY_RECT"
  by (simp add: cursor_encoding_def supports_def enc_consts)

lemma strip_update:
  "\<exists>s'. build_update plain_libs strip_shared strip_area strip_session = Inr (True, s') \<and> se_pending s' = [] \<and> se_copies s' = []
    \<and> se_encodings s' = [COPY_RECT] \<and> se_client_size s' = (4, 1) \<and> \<not> se_layout_pending s' \<and> se_coder s' = CRaw
    \<and> se_out s' = write_framebuffer_update_header 1 @ rect_head strip_patch RAW @ [1, 0, 0, 0]"
proof -
  have c: "cursor_encoding (strip_session\<lparr>se_out := []\<rparr>) = None" by (rule conjunct1 [OF strip_cursor]) (simp add: strip_facts)
  have d: "region_intersect_rect [strip_patch] strip_area = [strip_patch]" "region_subtract [strip_patch] [strip_patch] = []" by code_simp+
  have e: "raw_encode strip_after strip_patch bgrx32 = Some [1, 0, 0, 0]" by code_simp
  show ?thesis
    using c strip_facts(4) by (simp add: build_update_def Let_def strip_facts d region_is_empty_def encode_rects_of_def damage_rects_of_def
      write_update_def write_copies_def encode_one_def e)
qed

lemma strip_copy:
  assumes "se_pending s = []" "se_copies s = [strip_move]" "se_encodings s = [COPY_RECT]" "se_client_size s = (4, 1)" "\<not> se_layout_pending s" "se_coder s = CRaw"
  shows "\<exists>s'. build_update plain_libs strip_shared strip_area s = Inr (True, s') \<and> se_pending s' = [] \<and> se_copies s' = []
    \<and> se_out s' = write_framebuffer_update_header 1 @ copy_rect_bytes strip_move"
proof -
  have c: "cursor_encoding (s\<lparr>se_out := []\<rparr>) = None" by (rule conjunct1 [OF strip_cursor]) (simp add: assms)
  have d: "region_intersect_rect [] strip_area = []" "region_subtract [] [] = []" "rect_contains strip_area (dst strip_move)" by code_simp+
  show ?thesis
    using c strip_facts(4) by (simp add: build_update_def Let_def strip_facts assms d region_is_empty_def encode_rects_of_def damage_rects_of_def
      write_update_def write_copies_def)
qed

lemma strip_kept:
  "view strip_shared strip_session strip_client strip_old \<and> event_ok strip_shared strip_event strip_old strip_new"
proof
  have wf: "region_wf [strip_patch]" "region_wf []" by code_simp+
  show "view strip_shared strip_session strip_client strip_old"
    using wf strip_facts(3) by (simp add: view_def owed_def strip_facts free_copies_def replay_def strip_client_def rects_pixels_def)
  have "move_ok (picture_of strip_shared) strip_move"
    by (auto simp: move_ok_def picture_of_def strip_facts) (simp_all add: strip_move_def rect_new_def i32_def rect_small_def)
  moreover have "\<forall>pt\<in>picture_of strip_shared. strip_new pt = replay [strip_move] strip_old pt"
    unfolding picture_of_def strip_facts strip_points
    by (simp add: strip_pixels replay_def apply_move_def strip_facts) (simp add: strip_move_def rect_new_def i32_def strip_pixels)
  ultimately show "event_ok strip_shared strip_event strip_old strip_new"
    using wf by (simp add: event_ok_def strip_event_def)
qed

text \<open>C7. Absorbing a frame keeps the view: when the client would have the old picture outside what is
  pending, once it had made the copies it is owed, then after the frame's moves and damage are taken
  in, moves as copies where nothing stands in the way and as damage elsewhere, it would have the new
  one. A frame that resizes asks for no view before it.\<close>

theorem absorb_view:
  assumes "event_ok sh ev srv srv'" "\<not> fe_resized ev \<Longrightarrow> view sh s cl srv"
  shows "view sh (absorb ev sh s) cl srv'"
  by (rule absorb_event_view [OF assms])

theorem absorb_view_witness:
  "view strip_shared (absorb strip_event strip_shared strip_session) strip_client strip_new"
  using absorb_view [where s = strip_session] strip_kept by blast

text \<open>C20. An update built from a picture newer than the frames absorbed can leave the client wrong for
  good. On a strip of four points the client is owed point one only; the screen scrolls two points to the right
  by one; the update reads the scrolled picture before the event arrives and sends point one as it is now. The
  event then finds nothing pending where the block was, so that the move goes out as a CopyRect with the next
  update, which copies the new point one onto point two. Nothing is owed any more, and point two is wrong.\<close>

theorem early_update_ghosts:
  "view strip_shared strip_session strip_client (picture_in strip_before) \<and> sh_fb strip_shared = strip_after
    \<and> event_ok strip_shared strip_event (picture_in strip_before) (picture_in strip_after)
    \<and> (\<exists>s1 s2. build_update plain_libs strip_shared strip_area strip_session = Inr (True, s1)
        \<and> se_out s1 = write_framebuffer_update_header 1 @ rect_head strip_patch RAW @ fb_px strip_after 1 0
        \<and> build_update plain_libs strip_shared strip_area (absorb strip_event strip_shared s1) = Inr (True, s2)
        \<and> se_out s2 = write_framebuffer_update_header 1 @ copy_rect_bytes strip_move
        \<and> se_pending s2 = [] \<and> se_copies s2 = []
        \<and> replay [strip_move] (paint [strip_patch] (picture_in strip_after) strip_client) (2, 0) = [1, 0, 0, 0]
        \<and> picture_in strip_after (2, 0) = [2, 0, 0, 0])"
proof -
  obtain s1 where s1: "build_update plain_libs strip_shared strip_area strip_session = Inr (True, s1)"
    "se_pending s1 = []" "se_copies s1 = []" "se_encodings s1 = [COPY_RECT]" "se_client_size s1 = (4, 1)" "\<not> se_layout_pending s1" "se_coder s1 = CRaw"
    "se_out s1 = write_framebuffer_update_header 1 @ rect_head strip_patch RAW @ [1, 0, 0, 0]" using strip_update by blast
  have d: "region_remove [] (dst strip_move) = []" "region_union [] [] = []" by code_simp+
  let ?a = "absorb strip_event strip_shared s1"
  have a: "se_pending ?a = []" "se_copies ?a = [strip_move]"
    using d s1(2,3) strip_cursor [OF s1(4)] by (simp_all add: absorb_parts strip_event_def absorb_move_def clean_move_def region_intersects_rect_def)
  have k: "se_encodings ?a = [COPY_RECT]" "se_client_size ?a = (4, 1)" "\<not> se_layout_pending ?a" "se_coder ?a = CRaw"
    using s1(4-7) by (simp_all add: absorb_def strip_event_def Let_def split: prod.split)
  obtain s2 where s2: "build_update plain_libs strip_shared strip_area ?a = Inr (True, s2)" "se_pending s2 = []" "se_copies s2 = []"
    "se_out s2 = write_framebuffer_update_header 1 @ copy_rect_bytes strip_move"
    using strip_copy [OF a k] by blast
  have px: "fb_px strip_after 1 0 = [1, 0, 0, 0]" by code_simp
  have g: "replay [strip_move] (paint [strip_patch] strip_new strip_client) (2, 0) = [1, 0, 0, 0]"
    by (simp add: replay_def apply_move_def paint_def strip_facts rects_pixels_def)
      (simp add: strip_move_def rect_new_def i32_def strip_pixels)
  have e: "build_update plain_libs strip_shared strip_area strip_session = Inr (True, s1)
        \<and> se_out s1 = write_framebuffer_update_header 1 @ rect_head strip_patch RAW @ fb_px strip_after 1 0
        \<and> build_update plain_libs strip_shared strip_area ?a = Inr (True, s2)
        \<and> se_out s2 = write_framebuffer_update_header 1 @ copy_rect_bytes strip_move
        \<and> se_pending s2 = [] \<and> se_copies s2 = []
        \<and> replay [strip_move] (paint [strip_patch] strip_new strip_client) (2, 0) = [1, 0, 0, 0]
        \<and> strip_new (2, 0) = [2, 0, 0, 0]"
    unfolding px using s1(1,8) s2 g strip_pixels(7) by simp
  show ?thesis
    unfolding strip_old_def [symmetric] strip_new_def [symmetric] using strip_kept strip_facts(13) e by blast
qed

end
