(* ===== verification/Compare.thy ===== *)
theory Compare
  imports Raster Regions
begin

text \<open>
  \<open>alloyvnc-encode/src/compare.rs\<close>: the pass between a backend and the sessions that narrows damage to
  what differs and finds a vertical scroll in it. A cell is one row of one column of 64 pixels; the
  tightener keeps a hash of every cell. The hash function (another crate's) is the parameter \<open>h\<close>; the
  iteration order of the \<open>HashMap\<close> of votes is the parameter \<open>ord\<close>. A read out of range panics: \<open>None\<close>.
\<close>

definition SEGMENT :: int where "SEGMENT = 64"
definition MIN_RUN :: int where "MIN_RUN = 8"
definition MIN_VOTES :: nat where "MIN_VOTES = 8"
definition PROBES :: nat where "PROBES = 16"
definition UNKNOWN :: u64 where "UNKNOWN = - 1"

record tightened =
  td_damage :: region
  td_moves :: "move list"

record tightener =
  tg_size :: "nat \<times> nat"
  tg_cols :: nat
  tg_hashes :: "u64 list"
  tg_changed :: "u64 list"
  tg_before :: "u64 list"

definition tightener_new :: tightener where
  "tightener_new = \<lparr>tg_size = (0, 0), tg_cols = 0, tg_hashes = [], tg_changed = [], tg_before = []\<rparr>"

definition tightener_reset :: "nat \<times> nat \<Rightarrow> tightener \<Rightarrow> tightener" where
  "tightener_reset sz t =
    (let cols = div_ceil (fst sz) (nat SEGMENT); cells = cols * snd sz in
     t\<lparr>tg_size := sz, tg_cols := cols, tg_hashes := replicate cells UNKNOWN,
       tg_changed := replicate (div_ceil cells 64) 0, tg_before := []\<rparr>)"

text \<open>\<open>as usize\<close> of an \<open>i32\<close>, and its division, which cuts towards zero.\<close>

definition usize_of :: "int \<Rightarrow> nat" where
  "usize_of i = nat (i mod 2 ^ 64)"

definition tdiv :: "int \<Rightarrow> int \<Rightarrow> int" where
  "tdiv a b = sgn a * sgn b * (\<bar>a\<bar> div \<bar>b\<bar>)"

text \<open>The hash cells one rectangle touches, as the ends of a range.\<close>

definition columns :: "tightener \<Rightarrow> rect \<Rightarrow> nat \<times> nat" where
  "columns t r =
    (if rect_is_empty r then (0, 0)
     else
       let first = usize_of (max (tdiv (rx1 r) SEGMENT) 0);
           last = min (usize_of (tdiv (i32 (rx2 r + SEGMENT - 1)) SEGMENT)) (tg_cols t) in
       (first, max last first))"

definition range_of :: "nat \<times> nat \<Rightarrow> nat list" where
  "range_of span = [fst span ..< snd span]"

definition cell_at :: "tightener \<Rightarrow> int \<Rightarrow> nat \<Rightarrow> nat" where
  "cell_at t y c = usize_of y * tg_cols t + c"

text \<open>Hash one cell and store it; whether it moved.\<close>

definition rehash :: "(bytes \<Rightarrow> u64) \<Rightarrow> framebuffer \<Rightarrow> int \<Rightarrow> nat \<Rightarrow> tightener \<Rightarrow> (bool \<times> tightener) option" where
  "rehash h fb y c t =
    (let x = i32 (i32 (int c) * SEGMENT);
         width = min SEGMENT (i32 (i32 (int (fst (tg_size t))) - x)) in
     if width \<le> 0 then Some (False, t)
     else
       (case row_span fb (u32_of y) (u32_of x) (u32_of width) of
          None \<Rightarrow> None
        | Some bs \<Rightarrow>
          let hash = h bs; cell = cell_at t y c in
          if cell < length (tg_hashes t)
          then Some (tg_hashes t ! cell \<noteq> hash, t\<lparr>tg_hashes := (tg_hashes t)[cell := hash]\<rparr>)
          else None))"

definition cells_of :: "tightener \<Rightarrow> rect \<Rightarrow> (int \<times> nat) list" where
  "cells_of t r = concat (map (\<lambda>y. map (Pair y) (range_of (columns t r))) (irange (ry1 r) (ry2 r)))"

fun rehash_cells :: "(bytes \<Rightarrow> u64) \<Rightarrow> framebuffer \<Rightarrow> (int \<times> nat) list \<Rightarrow> tightener \<Rightarrow> tightener option" where
  "rehash_cells h fb [] t = Some t"
| "rehash_cells h fb ((y, c) # cs) t =
    (case rehash h fb y c t of None \<Rightarrow> None | Some (_, t') \<Rightarrow> rehash_cells h fb cs t')"

definition tg_follow :: "(bytes \<Rightarrow> u64) \<Rightarrow> framebuffer \<Rightarrow> move \<Rightarrow> tightener \<Rightarrow> tightener option" where
  "tg_follow h fb m t =
    (let d = rect_intersection (dst m) (fb_bounds fb) in
     if rect_is_empty d then Some t else rehash_cells h fb (cells_of t d) t)"

fun follow_all :: "(bytes \<Rightarrow> u64) \<Rightarrow> framebuffer \<Rightarrow> move list \<Rightarrow> tightener \<Rightarrow> tightener option" where
  "follow_all h fb [] t = Some t"
| "follow_all h fb (m # ms) t = (case tg_follow h fb m t of None \<Rightarrow> None | Some t' \<Rightarrow> follow_all h fb ms t')"

text \<open>The bit of a cell.\<close>

definition mark :: "nat \<Rightarrow> tightener \<Rightarrow> tightener option" where
  "mark cell t =
    (if cell div 64 < length (tg_changed t)
     then Some (t\<lparr>tg_changed := (tg_changed t)[cell div 64 := tg_changed t ! (cell div 64) OR push_bit (cell mod 64) 1]\<rparr>)
     else None)"

definition changed_at :: "tightener \<Rightarrow> int \<Rightarrow> nat \<Rightarrow> bool option" where
  "changed_at t y c =
    (let cell = cell_at t y c in
     if cell div 64 < length (tg_changed t) then Some (drop_bit (cell mod 64) (tg_changed t ! (cell div 64)) AND 1 \<noteq> 0)
     else None)"

fun mark_cells :: "(bytes \<Rightarrow> u64) \<Rightarrow> framebuffer \<Rightarrow> (int \<times> nat) list \<Rightarrow> tightener \<Rightarrow> tightener option" where
  "mark_cells h fb [] t = Some t"
| "mark_cells h fb ((y, c) # cs) t =
    (case rehash h fb y c t of
       None \<Rightarrow> None
     | Some (moved, t') \<Rightarrow>
       (case (if moved then mark (cell_at t' y c) t' else Some t') of
          None \<Rightarrow> None
        | Some t'' \<Rightarrow> mark_cells h fb cs t''))"

fun mark_rects :: "(bytes \<Rightarrow> u64) \<Rightarrow> framebuffer \<Rightarrow> rect list \<Rightarrow> tightener \<Rightarrow> tightener option" where
  "mark_rects h fb [] t = Some t"
| "mark_rects h fb (r # rs) t =
    (let r' = rect_intersection r (fb_bounds fb) in
     if rect_is_empty r' then mark_rects h fb rs t
     else (case mark_cells h fb (cells_of t r') t of None \<Rightarrow> None | Some t' \<Rightarrow> mark_rects h fb rs t'))"

section \<open>Rows before and after\<close>

text \<open>\<open>&self.hashes[base + span.start..base + span.end]\<close>.\<close>

definition tg_now :: "tightener \<Rightarrow> nat \<times> nat \<Rightarrow> int \<Rightarrow> u64 list option" where
  "tg_now t span row = slice (cell_at t row (fst span)) (snd span - fst span) (tg_hashes t)"

definition tg_was :: "tightener \<Rightarrow> rect \<Rightarrow> nat \<times> nat \<Rightarrow> int \<Rightarrow> u64 list option" where
  "tg_was t bounds span row =
    (let width = snd span - fst span in slice (usize_of (i32 (row - ry1 bounds)) * width) width (tg_before t))"

definition snapshot :: "rect \<Rightarrow> nat \<times> nat \<Rightarrow> tightener \<Rightarrow> tightener option" where
  "snapshot bounds span t =
    map_option (\<lambda>rows. t\<lparr>tg_before := concat rows\<rparr>) (those (map (tg_now t span) (irange (ry1 bounds) (ry2 bounds))))"

text \<open>\<open>any\<close> and \<open>filter\<close> with a test that may panic.\<close>

fun any_of :: "('a \<Rightarrow> bool option) \<Rightarrow> 'a list \<Rightarrow> bool option" where
  "any_of f [] = Some False"
| "any_of f (x # xs) = (case f x of None \<Rightarrow> None | Some True \<Rightarrow> Some True | Some False \<Rightarrow> any_of f xs)"

fun filter_of :: "('a \<Rightarrow> bool option) \<Rightarrow> 'a list \<Rightarrow> 'a list option" where
  "filter_of f [] = Some []"
| "filter_of f (x # xs) = (case f x of None \<Rightarrow> None | Some b \<Rightarrow> map_option (\<lambda>ys. if b then x # ys else ys) (filter_of f xs))"

definition row_changed :: "tightener \<Rightarrow> nat \<times> nat \<Rightarrow> int \<Rightarrow> bool option" where
  "row_changed t span row = any_of (changed_at t row) (range_of span)"

text \<open>The spans of a row of cells: \<open>open\<close> is where the span being read began.\<close>

fun cell_spans :: "int \<Rightarrow> nat \<Rightarrow> (nat \<times> bool) list \<Rightarrow> int option \<Rightarrow> span list" where
  "cell_spans width stop [] (Some x1) = [(x1, min (i32 (i32 (int stop) * SEGMENT)) width)]"
| "cell_spans width stop [] None = []"
| "cell_spans width stop ((c, True) # cs) None = cell_spans width stop cs (Some (i32 (i32 (int c) * SEGMENT)))"
| "cell_spans width stop ((c, False) # cs) (Some x1) = (x1, min (i32 (i32 (int c) * SEGMENT)) width) # cell_spans width stop cs None"
| "cell_spans width stop ((c, True) # cs) (Some x1) = cell_spans width stop cs (Some x1)"
| "cell_spans width stop ((c, False) # cs) None = cell_spans width stop cs None"

section \<open>The scroll detector\<close>

fun step_by :: "nat \<Rightarrow> 'a list \<Rightarrow> 'a list" where
  "step_by n [] = []"
| "step_by n (x # xs) = x # step_by n (drop (n - 1) xs)"

fun vote :: "int \<Rightarrow> nat \<Rightarrow> (int \<times> nat) list \<Rightarrow> (int \<times> nat) list" where
  "vote d n [] = [(d, n)]"
| "vote d n ((e, k) # vs) = (if d = e then (e, k + n) # vs else (e, k) # vote d n vs)"

definition agreement :: "u64 list \<Rightarrow> u64 list \<Rightarrow> nat" where
  "agreement a b = length (filter (\<lambda>(p, q). p = q) (zip a b))"

fun vote_row :: "int \<Rightarrow> u64 list \<Rightarrow> (int \<times> u64 list) list \<Rightarrow> (int \<times> nat) list \<Rightarrow> (int \<times> nat) list" where
  "vote_row y was [] vs = vs"
| "vote_row y was ((row, cells) # ps) vs =
    vote_row y was ps
      (if y = row then vs
       else let agree = agreement was cells in if agree > 0 then vote (i32 (y - row)) agree vs else vs)"

fun vote_rows :: "(int \<times> u64 list) list \<Rightarrow> (int \<times> u64 list) list \<Rightarrow> (int \<times> nat) list \<Rightarrow> (int \<times> nat) list" where
  "vote_rows [] ps vs = vs"
| "vote_rows ((y, was) # rows) ps vs = vote_rows rows ps (vote_row y was ps vs)"

text \<open>\<open>max_by_key\<close>: the last of the greatest.\<close>

fun most_votes :: "(int \<times> nat) list \<Rightarrow> (int \<times> nat) option" where
  "most_votes [] = None"
| "most_votes (v # vs) = (case most_votes vs of Some w \<Rightarrow> if snd w \<ge> snd v then Some w else Some v | None \<Rightarrow> Some v)"

definition held_row :: "tightener \<Rightarrow> rect \<Rightarrow> nat \<times> nat \<Rightarrow> int \<Rightarrow> int \<Rightarrow> (int \<times> span list) option option" where
  "held_row t bounds span dy y =
    (let source = i32 (y + dy) in
     if source < ry1 bounds \<or> source \<ge> ry2 bounds then Some None
     else (case (tg_now t span y, tg_was t bounds span source) of
         (Some now, Some was) \<Rightarrow>
           let spans = cell_spans (i32 (int (fst (tg_size t)))) (snd span)
                 (zip (range_of span) (map (\<lambda>(p, q). p = q) (zip now was))) None in
           Some (if spans = [] then None else Some (y, spans))
       | _ \<Rightarrow> None))"

definition holds_change :: "tightener \<Rightarrow> nat \<times> nat \<Rightarrow> rect \<Rightarrow> bool option" where
  "holds_change t span r =
    (let first = usize_of (max (tdiv (rx1 r) SEGMENT) 0);
         last = usize_of (tdiv (i32 (rx2 r + SEGMENT - 1)) SEGMENT) in
     any_of (\<lambda>y. any_of (changed_at t y) [max first (fst span) ..< min last (snd span)]) (irange (ry1 r) (ry2 r)))"

definition worth_copying :: "tightener \<Rightarrow> nat \<times> nat \<Rightarrow> rect \<Rightarrow> bool option" where
  "worth_copying t span r = (if rect_height r \<ge> MIN_RUN then holds_change t span r else Some False)"

definition scroll_moves :: "tightener \<Rightarrow> rect \<Rightarrow> nat \<times> nat \<Rightarrow> int \<Rightarrow> move list option" where
  "scroll_moves t bounds span dy =
    (case those (map (held_row t bounds span dy) (irange (ry1 bounds) (ry2 bounds))) of
       None \<Rightarrow> None
     | Some rows \<Rightarrow>
       map_option
         (\<lambda>rs. let ms = map (\<lambda>r. \<lparr>src_x = rx1 r, src_y = i32 (ry1 r + dy), dst = r\<rparr>) rs in if dy < 0 then rev ms else ms)
         (filter_of (worth_copying t span) (region_from_rows (List.map_filter (\<lambda>x. x) rows))))"

definition tally :: "tightener \<Rightarrow> rect \<Rightarrow> nat \<times> nat \<Rightarrow> int list \<Rightarrow> (int \<times> nat) list option" where
  "tally t bounds span changed =
    (let step = max (div_ceil (length changed) PROBES) 1;
         probes = take PROBES (step_by step changed);
         ys = irange (ry1 bounds) (ry2 bounds) in
     (case (those (map (tg_now t span) probes), those (map (tg_was t bounds span) ys)) of
        (Some cells, Some was) \<Rightarrow> Some (vote_rows (zip ys was) (zip probes cells) [])
      | _ \<Rightarrow> None))"

definition detect ::
  "((int \<times> nat) list \<Rightarrow> (int \<times> nat) list) \<Rightarrow> tightener \<Rightarrow> rect \<Rightarrow> nat \<times> nat \<Rightarrow> move list option" where
  "detect ord t bounds span =
    (case filter_of (row_changed t span) (irange (ry1 bounds) (ry2 bounds)) of
       None \<Rightarrow> None
     | Some changed \<Rightarrow>
       if length changed < nat MIN_RUN then Some []
       else
         (case tally t bounds span changed of
            None \<Rightarrow> None
          | Some votes \<Rightarrow>
            (case most_votes (ord votes) of
               None \<Rightarrow> Some []
             | Some (dy, count) \<Rightarrow> if count < MIN_VOTES then Some [] else scroll_moves t bounds span dy)))"

section \<open>The pass\<close>

definition changed_row :: "tightener \<Rightarrow> nat \<times> nat \<Rightarrow> int \<Rightarrow> (int \<times> span list) option option" where
  "changed_row t span y =
    (case those (map (changed_at t y) (range_of span)) of
       None \<Rightarrow> None
     | Some on \<Rightarrow>
       let spans = cell_spans (i32 (int (fst (tg_size t)))) (snd span) (zip (range_of span) on) None in
       Some (if spans = [] then None else Some (y, spans)))"

definition tg_region :: "tightener \<Rightarrow> rect \<Rightarrow> nat \<times> nat \<Rightarrow> region option" where
  "tg_region t bounds span =
    map_option (\<lambda>rows. region_from_rows (List.map_filter (\<lambda>x. x) rows))
      (those (map (changed_row t span) (irange (ry1 bounds) (ry2 bounds))))"

definition tighten ::
  "(bytes \<Rightarrow> u64) \<Rightarrow> ((int \<times> nat) list \<Rightarrow> (int \<times> nat) list) \<Rightarrow> framebuffer \<Rightarrow> region \<Rightarrow> move list \<Rightarrow> tightener
    \<Rightarrow> (tightened \<times> tightener) option" where
  "tighten h ord fb damage moves t0 =
    (let t1 = (if (fb_width fb, fb_height fb) \<noteq> tg_size t0 then tightener_reset (fb_width fb, fb_height fb) t0 else t0) in
     if tg_hashes t1 = [] then Some (\<lparr>td_damage = region_new, td_moves = []\<rparr>, t1)
     else
       Option.bind (follow_all h fb moves t1) (\<lambda>t2.
       let bounds = rect_intersection (region_bounds damage) (fb_bounds fb);
           span = columns t2 bounds;
           detecting = (moves = [] \<and> rect_height bounds > MIN_RUN \<and> fst span < snd span) in
       Option.bind (if detecting then snapshot bounds span t2 else Some t2) (\<lambda>t3.
       Option.bind (mark_rects h fb damage (t3\<lparr>tg_changed := map (\<lambda>_. 0) (tg_changed t3)\<rparr>)) (\<lambda>t4.
       Option.bind (if detecting then detect ord t4 bounds span else Some []) (\<lambda>found.
       let moves' = (if found = [] then moves else found) in
       Option.bind (tg_region t4 bounds span) (\<lambda>d.
       Some (\<lparr>td_damage = fold (\<lambda>m d. region_remove d (dst m)) moves' d, td_moves = moves'\<rparr>, t4)))))))"

end
