(* ===== verification/Capture.thy ===== *)
theory Capture
  imports Session Compare
begin

text \<open>
  \<open>alloyvnc/src/capture.rs\<close>, the capture thread, and the frame of \<open>alloyvnc-screen/src/lib.rs\<close>. A backend
  is a parameter: what \<open>wait\<close>, \<open>apply\<close> and \<open>screens\<close> answer, and its state after. A turn of the loop is
  one function of the thread's state and what is shared; the frame event it sends, if any, is a result.
  The clocks a turn reads are arguments, and so is what the platform's clipboard answers. A panic in the
  comparing pass is \<open>None\<close>.
\<close>

datatype capture_error = Lost str | CaptureFailed str

record frame =
  fm_damage :: region
  fm_moves :: "move list"
  fm_cursor :: "cursor_shape option"
  fm_resized :: bool

definition frame_is_empty :: "frame \<Rightarrow> bool" where
  "frame_is_empty f \<longleftrightarrow> region_is_empty (fm_damage f) \<and> fm_moves f = [] \<and> fm_cursor f = None \<and> \<not> fm_resized f"

record 'c backend =
  bk_wait :: "'c \<Rightarrow> (capture_error + bool) \<times> 'c"
  bk_apply :: "framebuffer \<Rightarrow> 'c \<Rightarrow> (capture_error + frame) \<times> framebuffer \<times> 'c"
  bk_screens :: "'c \<Rightarrow> rect list"

text \<open>The monitors a backend reports that does not say: one, the whole picture.\<close>

definition screens_default :: "nat \<times> nat \<Rightarrow> rect list" where
  "screens_default sz = [rect_new 0 0 (i32 (int (fst sz))) (i32 (int (snd sz)))]"

definition TOTALS_EVERY :: nat where "TOTALS_EVERY = secs 5"

record totals =
  tt_frames :: nat
  tt_empty :: nat
  tt_reported :: int
  tt_tightened :: int
  tt_moves :: nat
  tt_micros :: nat

definition totals_new :: totals where
  "totals_new = \<lparr>tt_frames = 0, tt_empty = 0, tt_reported = 0, tt_tightened = 0, tt_moves = 0, tt_micros = 0\<rparr>"

record 'c capture_thread =
  ct_backend :: 'c
  ct_tightener :: tightener
  ct_totals :: totals
  ct_totals_at :: nat

definition capture_start :: "'c backend \<Rightarrow> 'c \<Rightarrow> nat \<Rightarrow> shared \<Rightarrow> 'c capture_thread \<times> shared" where
  "capture_start bk be now sh =
    (\<lparr>ct_backend = be, ct_tightener = tightener_new, ct_totals = totals_new, ct_totals_at = now\<rparr>,
     sh\<lparr>sh_screens := bk_screens bk be\<rparr>)"

text \<open>What somebody copied at the desk, for every session to see.\<close>

definition desk_copied :: "str option \<Rightarrow> shared \<Rightarrow> shared" where
  "desk_copied copied sh = (case copied of None \<Rightarrow> sh
    | Some text \<Rightarrow> sh\<lparr>sh_clip := \<lparr>cl_seq = add64 (cl_seq (sh_clip sh)) 1, cl_text = text\<rparr>\<rparr>)"

text \<open>The counters one pass moves: the reported area, the tightened one, the moves and the time.\<close>

definition count_pass :: "int \<Rightarrow> int \<Rightarrow> nat \<Rightarrow> nat \<Rightarrow> capture_stats \<Rightarrow> capture_stats" where
  "count_pass reported tightened moves us c =
    c\<lparr>cs_frames := add64 (cs_frames c) 1, cs_reported := add64 (cs_reported c) (usize_of reported),
      cs_tightened := add64 (cs_tightened c) (usize_of tightened), cs_moves := add64 (cs_moves c) moves,
      cs_micros := add64 (cs_micros c) us\<rparr>"

definition total_pass :: "int \<Rightarrow> int \<Rightarrow> nat \<Rightarrow> nat \<Rightarrow> totals \<Rightarrow> totals" where
  "total_pass reported tightened moves us c =
    c\<lparr>tt_frames := add64 (tt_frames c) 1, tt_reported := i64 (tt_reported c + reported),
      tt_tightened := i64 (tt_tightened c + tightened), tt_moves := add64 (tt_moves c) moves, tt_micros := add64 (tt_micros c) us\<rparr>"

text \<open>The numbers of a pass, counted and logged: \<open>logged\<close> is the clock the log line looks at.\<close>

definition after_pass :: "int \<Rightarrow> tightened \<Rightarrow> nat \<Rightarrow> nat \<Rightarrow> 'c capture_thread \<times> shared \<Rightarrow> 'c capture_thread \<times> shared" where
  "after_pass reported out us logged = (\<lambda>(t, sh).
    let tightened = region_area (td_damage out); moves = length (td_moves out);
        tot = total_pass reported tightened moves us (ct_totals t);
        t' = (if logged - ct_totals_at t \<ge> TOTALS_EVERY then t\<lparr>ct_totals := totals_new, ct_totals_at := logged\<rparr> else t\<lparr>ct_totals := tot\<rparr>)
    in (t', sh\<lparr>sh_capture := count_pass reported tightened moves us (sh_capture sh)\<rparr>))"

text \<open>A frame in which something differs is told to every session.\<close>

definition send_frame :: "'c backend \<Rightarrow> nat \<Rightarrow> frame \<Rightarrow> 'c capture_thread \<times> shared \<Rightarrow> ('c capture_thread \<times> shared) \<times> frame_event option" where
  "send_frame bk now f = (\<lambda>(t, sh).
    if frame_is_empty f
    then ((t\<lparr>ct_totals := (ct_totals t)\<lparr>tt_empty := add64 (tt_empty (ct_totals t)) 1\<rparr>\<rparr>,
           sh\<lparr>sh_capture := (sh_capture sh)\<lparr>cs_empty := add64 (cs_empty (sh_capture sh)) 1\<rparr>\<rparr>), None)
    else
      let sh1 = (if fm_resized f then sh\<lparr>sh_screens := bk_screens bk (ct_backend t)\<rparr> else sh);
          sh2 = (case fm_cursor f of Some shape \<Rightarrow> sh1\<lparr>sh_cursor := Some shape\<rparr> | None \<Rightarrow> sh1);
          seq = add64 (sh_seq sh2) 1
      in ((t, sh2\<lparr>sh_seq := seq\<rparr>),
          Some \<lparr>fe_seq = seq, fe_at = now, fe_damage = fm_damage f, fe_moves = fm_moves f,
                fe_cursor = fm_cursor f, fe_resized = fm_resized f\<rparr>))"

text \<open>One turn of the thread's loop: \<open>us\<close> is how long the pass took, \<open>logged\<close> and \<open>now\<close> the clocks read after.\<close>

definition capture_turn ::
  "(bytes \<Rightarrow> u64) \<Rightarrow> ((int \<times> nat) list \<Rightarrow> (int \<times> nat) list) \<Rightarrow> 'c backend \<Rightarrow> str option \<Rightarrow> nat \<Rightarrow> nat \<Rightarrow> nat
    \<Rightarrow> 'c capture_thread \<times> shared \<Rightarrow> (('c capture_thread \<times> shared) \<times> frame_event option) option" where
  "capture_turn h ord bk copied us logged now = (\<lambda>(t, sh).
    case bk_wait bk (ct_backend t) of
      (Inl e, be) \<Rightarrow> Some ((t\<lparr>ct_backend := be\<rparr>, sh), None)
    | (Inr ready, be) \<Rightarrow>
      let t1 = t\<lparr>ct_backend := be\<rparr>; sh1 = desk_copied copied sh in
      if \<not> ready then Some ((t1, sh1), None)
      else
        (case bk_apply bk (sh_fb sh1) be of
           (Inl e, fb, be') \<Rightarrow> Some ((t1\<lparr>ct_backend := be'\<rparr>, sh1\<lparr>sh_fb := fb\<rparr>), None)
         | (Inr f, fb, be') \<Rightarrow>
           (case tighten h ord fb (fm_damage f) (fm_moves f) (ct_tightener t1) of
              None \<Rightarrow> None
            | Some (out, tg) \<Rightarrow>
              Some (send_frame bk now (f\<lparr>fm_damage := td_damage out, fm_moves := td_moves out\<rparr>)
                (after_pass (region_area (fm_damage f)) out us logged
                  (t1\<lparr>ct_backend := be', ct_tightener := tg\<rparr>, sh1\<lparr>sh_fb := fb\<rparr>))))))"

end
