(* ===== verification/Compare_Cells.thy ===== *)
theory Compare_Cells
  imports Compare Region_Laws Session_View
begin

text \<open>
  The cells of the comparing pass: where a cell's bytes and hash are, that hashing and marking a
  picture's cells never panics and what it leaves, and what rows of cells mean as regions of pixels.
\<close>

section \<open>Cells\<close>

definition cell_bytes :: "framebuffer \<Rightarrow> nat \<Rightarrow> nat \<Rightarrow> bytes" where
  "cell_bytes fb y c = take (min 64 (fb_width fb - 64 * c) * 4) (drop (y * (fb_width fb * 4) + 64 * c * 4) (fb_data fb))"

definition tg_ok :: "tightener \<Rightarrow> framebuffer \<Rightarrow> bool" where
  "tg_ok t fb \<longleftrightarrow> tg_size t = (fb_width fb, fb_height fb) \<and> tg_cols t = div_ceil (fb_width fb) 64
    \<and> length (tg_hashes t) = tg_cols t * fb_height fb \<and> length (tg_changed t) = div_ceil (tg_cols t * fb_height fb) 64"

definition known :: "tightener \<Rightarrow> nat \<Rightarrow> nat \<Rightarrow> u64" where
  "known t y c = tg_hashes t ! (y * tg_cols t + c)"

definition flagged :: "tightener \<Rightarrow> nat \<Rightarrow> nat \<Rightarrow> bool" where
  "flagged t y c = bit (tg_changed t ! ((y * tg_cols t + c) div 64)) ((y * tg_cols t + c) mod 64)"

lemma div_ceil_64: "c < div_ceil w 64 \<longleftrightarrow> 64 * c < w"
  by (rule div_ceil_less) simp

lemma cell_index: "y < h \<Longrightarrow> c < n \<Longrightarrow> y * n + c < n * h" for y h c n :: nat
proof -
  assume "y < h" "c < n"
  then have "y * n + c < Suc y * n" by simp
  also have "\<dots> \<le> h * n" using \<open>y < h\<close> by (intro mult_le_mono1) simp
  finally show ?thesis by (simp add: mult.commute)
qed

lemma cell_index_inj: "c < n \<Longrightarrow> c' < n \<Longrightarrow> y * n + c = y' * n + c' \<longleftrightarrow> y = y' \<and> c = c'" for y y' c c' n :: nat
  by (metis add.commute div_mult_self3 div_less mod_less mod_mult_self3 add_cancel_right_left nat_neq_iff not_less_zero)

lemma usize_of_int [simp]: "y < 65536 \<Longrightarrow> usize_of (int y) = y"
  by (simp add: usize_of_def)

lemma cols_small: "fb_ok fb \<Longrightarrow> tg_ok t fb \<Longrightarrow> c < tg_cols t \<Longrightarrow> 64 * c < fb_width fb \<and> c < 65536"
  using div_ceil_64 [of c "fb_width fb"] by (auto simp: tg_ok_def fb_ok_def)

lemma cell_at_int: "fb_ok fb \<Longrightarrow> y < fb_height fb \<Longrightarrow> cell_at t (int y) c = y * tg_cols t + c"
  by (simp add: cell_at_def fb_ok_def)

lemma rehash_ok:
  assumes "fb_ok fb" "tg_ok t fb" "y < fb_height fb" "c < tg_cols t"
  shows "rehash h fb (int y) c t = Some (known t y c \<noteq> h (cell_bytes fb y c),
    t\<lparr>tg_hashes := (tg_hashes t)[y * tg_cols t + c := h (cell_bytes fb y c)]\<rparr>)"
proof -
  have c: "64 * c < fb_width fb" "c < 65536" using cols_small assms by blast+
  have w: "fb_width fb < 65536" "fb_height fb < 65536" using assms(1) by (simp_all add: fb_ok_def)
  have s: "fst (tg_size t) = fb_width fb" using assms(2) by (simp add: tg_ok_def)
  have x: "i32 (i32 (int c) * SEGMENT) = int (64 * c)" using c w by (simp add: i32_small SEGMENT_def)
  have n: "min SEGMENT (i32 (i32 (int (fb_width fb)) - int (64 * c))) = int (min 64 (fb_width fb - 64 * c))"
  proof -
    have "i32 (i32 (int (fb_width fb)) - int (64 * c)) = int (fb_width fb - 64 * c)"
      using c w by (simp add: i32_small of_nat_diff)
    then show ?thesis by (simp add: SEGMENT_def min_def)
  qed
  have r: "row_span fb y (64 * c) (min 64 (fb_width fb - 64 * c)) = Some (cell_bytes fb y c)"
    using row_span_ok [OF assms(1), of "64 * c" "min 64 (fb_width fb - 64 * c)" y] c assms(3) by (simp add: cell_bytes_def)
  have i: "y * tg_cols t + c < length (tg_hashes t)" using cell_index [OF assms(3,4)] assms(2) by (simp add: tg_ok_def)
  obtain k where k: "k = min 64 (fb_width fb - 64 * c)" "k \<noteq> 0" "k \<le> 64" using c by simp
  show ?thesis
    using c w assms(3) k(2,3) r [folded k(1)] i cell_at_int [OF assms(1,3), of t c]
    by (simp add: rehash_def s x n [folded k(1)] Let_def known_def u32_of_def del: of_nat_mult)
qed

section \<open>Marking\<close>

text \<open>The state after the cells of \<open>T\<close> have been hashed again, from \<open>t0\<close> with no bit set.\<close>

definition marked :: "(bytes \<Rightarrow> u64) \<Rightarrow> framebuffer \<Rightarrow> (nat \<times> nat) set \<Rightarrow> tightener \<Rightarrow> tightener \<Rightarrow> bool" where
  "marked h fb T t0 t \<longleftrightarrow> tg_ok t fb \<and> tg_before t = tg_before t0
    \<and> (\<forall>y<fb_height fb. \<forall>c<tg_cols t. known t y c = (if (y, c) \<in> T then h (cell_bytes fb y c) else known t0 y c)
        \<and> (flagged t y c \<longleftrightarrow> (y, c) \<in> T \<and> known t0 y c \<noteq> h (cell_bytes fb y c)))"

lemma or_push_bit: "n < 64 \<Longrightarrow> bit ((w :: u64) OR 2 ^ n) m \<longleftrightarrow> bit w m \<or> m = n"
  by (auto simp: bit_or_iff bit_exp_iff)

lemma mark_ok:
  assumes "tg_ok t fb" "y < fb_height fb" "c < tg_cols t"
  obtains t' where "mark (y * tg_cols t + c) t = Some t'" "tg_ok t' fb" "tg_hashes t' = tg_hashes t" "tg_cols t' = tg_cols t"
    "tg_before t' = tg_before t"
    "\<And>y' c'. y' < fb_height fb \<Longrightarrow> c' < tg_cols t \<Longrightarrow> flagged t' y' c' \<longleftrightarrow> flagged t y' c' \<or> (y', c') = (y, c)"
proof -
  let ?i = "y * tg_cols t + c"
  have i: "?i < tg_cols t * fb_height fb" by (rule cell_index [OF assms(2,3)])
  moreover have "64 * (?i div 64) \<le> ?i" by simp
  ultimately have l: "?i div 64 < length (tg_changed t)" using assms(1) by (simp add: tg_ok_def div_ceil_64 del: times_div_less_eq_dividend)
  have fl: "flagged (t\<lparr>tg_changed := (tg_changed t)[?i div 64 := tg_changed t ! (?i div 64) OR push_bit (?i mod 64) 1]\<rparr>) y' c'
      \<longleftrightarrow> flagged t y' c' \<or> (y', c') = (y, c)" if "y' < fb_height fb" "c' < tg_cols t" for y' c'
  proof -
    obtain i j where ij: "i = y * tg_cols t + c" "j = y' * tg_cols t + c'" by simp
    have e: "j = i \<longleftrightarrow> y' = y \<and> c' = c" unfolding ij using that assms(3) cell_index_inj by blast
    have "j = i \<longleftrightarrow> j div 64 = i div 64 \<and> j mod 64 = i mod 64" by (metis div_mult_mod_eq)
    then show ?thesis
      using l e unfolding flagged_def ij [symmetric]
      by (cases "j div 64 = i div 64") (auto simp add: or_push_bit simp flip: ij)
  qed
  show thesis
    by (rule that [OF _ _ _ _ _ fl]) (use l assms(1) in \<open>simp_all add: mark_def tg_ok_def\<close>)
qed

lemma mark_cells_ok:
  assumes "fb_ok fb" "marked h fb T t0 t" "\<forall>(y, c)\<in>set cs. 0 \<le> y \<and> y < int (fb_height fb) \<and> c < tg_cols t"
  shows "\<exists>t'. mark_cells h fb cs t = Some t' \<and> marked h fb (T \<union> (\<lambda>(y, c). (nat y, c)) ` set cs) t0 t' \<and> tg_cols t' = tg_cols t"
  using assms(2,3)
proof (induction cs arbitrary: T t)
  case (Cons yc cs)
  obtain y c where yc: "yc = (int y, c)" and y: "y < fb_height fb" "c < tg_cols t"
    using Cons.prems(2) by (cases yc) (auto simp: zero_le_imp_eq_int elim!: nonneg_int_cases)
  have ok: "tg_ok t fb" using Cons.prems(1) by (simp add: marked_def)
  let ?h = "h (cell_bytes fb y c)"
  define t1 where "t1 = t\<lparr>tg_hashes := (tg_hashes t)[y * tg_cols t + c := ?h]\<rparr>"
  have r: "rehash h fb (int y) c t = Some (known t y c \<noteq> ?h, t1)" using rehash_ok [OF assms(1) ok y] by (simp add: t1_def)
  have i: "y * tg_cols t + c < length (tg_hashes t)" using cell_index [OF y] ok by (simp add: tg_ok_def)
  have t1: "tg_ok t1 fb" "tg_cols t1 = tg_cols t" "tg_before t1 = tg_before t" using ok by (simp_all add: t1_def tg_ok_def)
  have k1: "known t1 y' c' = (if (y', c') = (y, c) then ?h else known t y' c')" "flagged t1 y' c' = flagged t y' c'"
    if "c' < tg_cols t" for y' c'
    using cell_index_inj [OF that y(2), of y' y] i by (auto simp: known_def flagged_def t1_def nth_list_update)
  obtain t2 where t2: "(if known t y c \<noteq> ?h then mark (cell_at t1 (int y) c) t1 else Some t1) = Some t2" "tg_ok t2 fb"
    "tg_hashes t2 = tg_hashes t1" "tg_cols t2 = tg_cols t" "tg_before t2 = tg_before t"
    "\<And>y' c'. y' < fb_height fb \<Longrightarrow> c' < tg_cols t \<Longrightarrow> flagged t2 y' c' \<longleftrightarrow> flagged t y' c' \<or> ((y', c') = (y, c) \<and> known t y c \<noteq> ?h)"
  proof (cases "known t y c \<noteq> ?h")
    case True
    obtain t' where "mark (y * tg_cols t1 + c) t1 = Some t'" "tg_ok t' fb" "tg_hashes t' = tg_hashes t1" "tg_cols t' = tg_cols t1"
      "tg_before t' = tg_before t1"
      "\<And>y' c'. y' < fb_height fb \<Longrightarrow> c' < tg_cols t1 \<Longrightarrow> flagged t' y' c' \<longleftrightarrow> flagged t1 y' c' \<or> (y', c') = (y, c)"
      using mark_ok [OF t1(1) y(1), of c] y(2) t1(2) by auto
    then show ?thesis using that [of t'] True t1 k1(2) cell_at_int [OF assms(1) y(1), of t1 c] by auto
  next
    case False
    then show ?thesis using that [of t1] t1 k1(2) by auto
  qed
  have k2: "known t2 y' c' = known t1 y' c'" for y' c' using t2(3,4) t1(2) by (simp add: known_def)
  have "marked h fb (insert (y, c) T) t0 t2"
    unfolding marked_def
  proof (intro conjI allI impI)
    fix y' c' assume yc': "y' < fb_height fb" "c' < tg_cols t2"
    then have c': "c' < tg_cols t" using t2(4) by simp
    have old: "known t y' c' = (if (y', c') \<in> T then h (cell_bytes fb y' c') else known t0 y' c')"
      "flagged t y' c' \<longleftrightarrow> (y', c') \<in> T \<and> known t0 y' c' \<noteq> h (cell_bytes fb y' c')"
      using Cons.prems(1) yc'(1) c' by (auto simp: marked_def)
    show "known t2 y' c' = (if (y', c') \<in> insert (y, c) T then h (cell_bytes fb y' c') else known t0 y' c')"
      using k2 k1(1) [OF c'] old(1) by auto
    show "flagged t2 y' c' \<longleftrightarrow> (y', c') \<in> insert (y, c) T \<and> known t0 y' c' \<noteq> h (cell_bytes fb y' c')"
      using t2(6) [OF yc'(1) c'] old by (auto split: if_splits)
  qed (use t2(2,5) Cons.prems(1) in \<open>simp_all add: marked_def\<close>)
  from Cons.IH [OF this] Cons.prems(2) t2(4) obtain t' where
    "mark_cells h fb cs t2 = Some t'" "marked h fb (insert (y, c) T \<union> (\<lambda>(y, c). (nat y, c)) ` set cs) t0 t'" "tg_cols t' = tg_cols t"
    by auto
  then show ?case using r t2(1) by (simp add: yc)
qed simp

section \<open>The cells of a rectangle\<close>

definition picture_pts :: "framebuffer \<Rightarrow> (int \<times> int) set" where
  "picture_pts fb = rect_pixels (fb_bounds fb)"

definition lies_in :: "framebuffer \<Rightarrow> rect \<Rightarrow> bool" where
  "lies_in fb r \<longleftrightarrow> 0 \<le> rx1 r \<and> rx1 r < rx2 r \<and> rx2 r \<le> int (fb_width fb) \<and> 0 \<le> ry1 r \<and> ry1 r < ry2 r \<and> ry2 r \<le> int (fb_height fb)"

lemma lies_in_clip:
  assumes "fb_ok fb" "\<not> rect_is_empty (rect_intersection r (fb_bounds fb))"
  shows "lies_in fb (rect_intersection r (fb_bounds fb))"
proof -
  let ?c = "rect_intersection r (fb_bounds fb)"
  have c: "rx1 ?c < rx2 ?c" "ry1 ?c < ry2 ?c" using assms(2) by (simp_all add: rect_is_empty_def)
  have "rect_pixels ?c \<subseteq> {0..<int (fb_width fb)} \<times> {0..<int (fb_height fb)}"
    unfolding rect_intersection_pixels using assms(1) by (auto simp: fb_bounds_ok rect_pixels_prod)
  from rect_corners_in [OF c this] show ?thesis using c by (simp add: lies_in_def)
qed

lemma in_picture_pts: "fb_ok fb \<Longrightarrow> (x, y) \<in> picture_pts fb \<longleftrightarrow> 0 \<le> x \<and> x < int (fb_width fb) \<and> 0 \<le> y \<and> y < int (fb_height fb)"
  by (simp add: picture_pts_def fb_bounds_ok in_rect_pixels)

lemma columns_ok:
  assumes "fb_ok fb" "tg_ok t fb" "lies_in fb r"
  shows "c \<in> set (range_of (columns t r)) \<longleftrightarrow> (\<exists>x. rx1 r \<le> x \<and> x < rx2 r \<and> nat x div 64 = c)"
    and "snd (columns t r) \<le> tg_cols t" and "fst (columns t r) < snd (columns t r)"
proof -
  obtain a b where ab: "rx1 r = int a" "rx2 r = int b" "a < b" "b \<le> fb_width fb" "b < 65536"
    by (rule that [of "nat (rx1 r)" "nat (rx2 r)"]) (use assms in \<open>auto simp: lies_in_def fb_ok_def\<close>)
  have ne: "\<not> rect_is_empty r" using assms(3) by (simp add: lies_in_def rect_is_empty_def)
  have k: "tdiv (int n) 64 = int (n div 64)" for n by (cases "n = 0") (simp_all add: tdiv_def zdiv_int)
  have i: "i32 (int b + 63) = int (b + 63)" using ab by (simp add: i32_small)
  have w: "tg_cols t = div_ceil (fb_width fb) 64" using assms(2) by (simp add: tg_ok_def)
  have le: "(b + 63) div 64 \<le> tg_cols t"
  proof -
    have "\<not> tg_cols t < (b + 63) div 64"
    proof
      assume l: "tg_cols t < (b + 63) div 64"
      then have "tg_cols t * 64 + 64 \<le> b + 63" using less_eq_div_iff_mult_less_eq [of 64 "Suc (tg_cols t)" "b + 63"] by simp
      then have "64 * tg_cols t < fb_width fb" using ab(4) by simp
      then show False using div_ceil_64 [of "tg_cols t" "fb_width fb"] w by simp
    qed
    then show ?thesis by simp
  qed
  have lt: "a div 64 < (b + 63) div 64"
    using less_eq_div_iff_mult_less_eq [of 64 "Suc (a div 64)" "b + 63"] ab(3) by simp
  have "max (tdiv (rx1 r) SEGMENT) 0 = int (a div 64)" unfolding ab(1) SEGMENT_def k by simp
  then have f: "usize_of (max (tdiv (rx1 r) SEGMENT) 0) = a div 64" using ab by simp
  have "i32 (rx2 r + SEGMENT - 1) = int (b + 63)" using i by (simp add: ab(2) SEGMENT_def add.commute)
  then have l: "usize_of (tdiv (i32 (rx2 r + SEGMENT - 1)) SEGMENT) = (b + 63) div 64"
    using ab(5) unfolding SEGMENT_def by (simp only: k) simp
  have c: "columns t r = (a div 64, (b + 63) div 64)"
    using ne le lt by (simp add: columns_def f l Let_def min_absorb1 max_absorb1)
  show "snd (columns t r) \<le> tg_cols t" "fst (columns t r) < snd (columns t r)" using le lt by (simp_all add: c)
  have "c < (b + 63) div 64 \<longleftrightarrow> 64 * c < b" for c
    using less_eq_div_iff_mult_less_eq [of 64 "Suc c" "b + 63"] by auto
  moreover have "a div 64 \<le> c \<longleftrightarrow> a < 64 * c + 64" for c
    using div_less_iff_less_mult [of 64 a "Suc c"] by auto
  ultimately have "c \<in> set (range_of (columns t r)) \<longleftrightarrow> 64 * c < b \<and> a < 64 * c + 64" for c
    by (auto simp: c range_of_def)
  also have "64 * c < b \<and> a < 64 * c + 64 \<longleftrightarrow> (\<exists>x. rx1 r \<le> x \<and> x < rx2 r \<and> nat x div 64 = c)"
  proof
    assume "64 * c < b \<and> a < 64 * c + 64"
    moreover have "nat (int (max a (64 * c))) div 64 = c" if "a < 64 * c + 64"
      using that by (intro div_nat_eqI) auto
    ultimately show "\<exists>x. rx1 r \<le> x \<and> x < rx2 r \<and> nat x div 64 = c"
      using ab by (intro exI [of _ "int (max a (64 * c))"]) auto
  next
    assume "\<exists>x. rx1 r \<le> x \<and> x < rx2 r \<and> nat x div 64 = c"
    then obtain x where x: "int a \<le> x" "x < int b" "nat x div 64 = c" using ab by auto
    obtain n where n: "a \<le> n" "n < b" "n div 64 = c" by (rule that [of "nat x"]) (use x in simp_all)
    then have "64 * c \<le> n" "n < 64 * c + 64" by auto
    then show "64 * c < b \<and> a < 64 * c + 64" using n by simp
  qed
  finally show "c \<in> set (range_of (columns t r)) \<longleftrightarrow> (\<exists>x. rx1 r \<le> x \<and> x < rx2 r \<and> nat x div 64 = c)" .
qed

text \<open>The cells some points of a set lie in.\<close>

definition cells_in :: "(int \<times> int) set \<Rightarrow> (nat \<times> nat) set" where
  "cells_in P = {(y, c). \<exists>x. (x, int y) \<in> P \<and> nat x div 64 = c}"

lemma cells_in_Un [simp]: "cells_in (P \<union> Q) = cells_in P \<union> cells_in Q" "cells_in {} = {}"
  by (auto simp: cells_in_def)

lemma cells_of_ok:
  assumes "fb_ok fb" "tg_ok t fb" "lies_in fb r"
  shows "(\<lambda>(y, c). (nat y, c)) ` set (cells_of t r) = cells_in (rect_pixels r)"
    and "\<forall>(y, c)\<in>set (cells_of t r). 0 \<le> y \<and> y < int (fb_height fb) \<and> c < tg_cols t"
proof -
  have s: "set (cells_of t r) = {(y, c). ry1 r \<le> y \<and> y < ry2 r \<and> c \<in> set (range_of (columns t r))}"
    by (auto simp: cells_of_def set_irange)
  have r: "0 \<le> ry1 r" "ry2 r \<le> int (fb_height fb)" using assms(3) by (simp_all add: lies_in_def)
  show "\<forall>(y, c)\<in>set (cells_of t r). 0 \<le> y \<and> y < int (fb_height fb) \<and> c < tg_cols t"
    using r columns_ok(2) [OF assms] by (auto simp: s range_of_def)
  show "(\<lambda>(y, c). (nat y, c)) ` set (cells_of t r) = cells_in (rect_pixels r)"
  proof (intro set_eqI iffI)
    fix p assume "p \<in> (\<lambda>(y, c). (nat y, c)) ` set (cells_of t r)"
    then obtain y c x where "p = (nat y, c)" "ry1 r \<le> y" "y < ry2 r" "rx1 r \<le> x" "x < rx2 r" "nat x div 64 = c"
      by (auto simp: s columns_ok(1) [OF assms])
    then show "p \<in> cells_in (rect_pixels r)" using r by (auto simp: cells_in_def in_rect_pixels intro!: exI [of _ x])
  next
    fix p assume "p \<in> cells_in (rect_pixels r)"
    then obtain y c x where "p = (y, c)" "(int y, c) \<in> set (cells_of t r)"
      by (auto simp: cells_in_def in_rect_pixels s columns_ok(1) [OF assms])
    then show "p \<in> (\<lambda>(y, c). (nat y, c)) ` set (cells_of t r)" by force
  qed
qed

lemma mark_rects_ok:
  assumes "fb_ok fb" "marked h fb T t0 t"
  shows "\<exists>t'. mark_rects h fb rs t = Some t' \<and> marked h fb (T \<union> cells_in (rects_pixels rs \<inter> picture_pts fb)) t0 t' \<and> tg_cols t' = tg_cols t"
  using assms(2)
proof (induction rs arbitrary: T t)
  case (Cons r rs)
  let ?c = "rect_intersection r (fb_bounds fb)"
  have px: "rect_pixels ?c = rect_pixels r \<inter> picture_pts fb" by (simp add: picture_pts_def)
  have un: "rects_pixels (r # rs) \<inter> picture_pts fb = rect_pixels ?c \<union> rects_pixels rs \<inter> picture_pts fb"
    unfolding px by auto
  show ?case
  proof (cases "rect_is_empty ?c")
    case True
    then have "rect_pixels ?c = {}" by (simp add: rect_is_empty_pixels)
    then show ?thesis unfolding un using Cons.IH [OF Cons.prems] True by simp
  next
    case False
    have ok: "tg_ok t fb" using Cons.prems by (simp add: marked_def)
    note c = cells_of_ok [OF assms(1) ok lies_in_clip [OF assms(1) False]]
    obtain t1 where t1: "mark_cells h fb (cells_of t ?c) t = Some t1" "marked h fb (T \<union> cells_in (rect_pixels ?c)) t0 t1" "tg_cols t1 = tg_cols t"
      using mark_cells_ok [OF assms(1) Cons.prems c(2)] c(1) by auto
    from Cons.IH [OF t1(2)] t1 False show ?thesis unfolding un by (auto simp: Un_assoc)
  qed
qed (simp add: rects_pixels_def)

section \<open>Spans of cells\<close>

definition block :: "nat \<Rightarrow> nat \<Rightarrow> int set" where
  "block w c = {64 * int c ..< min (64 * int (Suc c)) (int w)}"

lemma in_block: "x \<in> block w c \<longleftrightarrow> 0 \<le> x \<and> x < int w \<and> nat x div 64 = c"
proof (cases "0 \<le> x")
  case True
  then obtain n where n: "x = int n" using nonneg_int_cases by blast
  have "n div 64 = c \<longleftrightarrow> 64 * c \<le> n \<and> n < 64 * c + 64" by auto
  then show ?thesis by (auto simp: block_def n)
qed (auto simp: block_def)

definition blocks :: "nat \<Rightarrow> (nat \<times> bool) list \<Rightarrow> int set" where
  "blocks w cs = (\<Union>c\<in>{c. (c, True) \<in> set cs}. block w c)"

lemma blocks_simps [simp]: "blocks w [] = {}" "blocks w ((c, True) # cs) = block w c \<union> blocks w cs" "blocks w ((c, False) # cs) = blocks w cs"
  by (auto simp: blocks_def)

lemma in_blocks: "x \<in> blocks w cs \<longleftrightarrow> 0 \<le> x \<and> x < int w \<and> (nat x div 64, True) \<in> set cs"
  by (auto simp: blocks_def in_block)

lemma cell_edge: "c < 65536 \<Longrightarrow> i32 (i32 (int c) * SEGMENT) = 64 * int c"
  by (simp add: i32_small SEGMENT_def)

lemma spans_wf_step: "spans_wf (s # ss) \<longleftrightarrow> fst s < snd s \<and> (\<forall>t\<in>set ss. snd s < fst t) \<and> spans_wf ss"
  by (auto simp: spans_wf_def)

lemma cell_spans_ok:
  assumes "w < 65536" "64 * stop < w + 64" "map fst cs = [a ..< stop]" "a \<le> stop"
  shows "spans_wf (cell_spans (int w) stop cs None) \<and> (\<forall>s\<in>set (cell_spans (int w) stop cs None). 64 * int a \<le> fst s)
      \<and> span_pts (cell_spans (int w) stop cs None) = blocks w cs"
    and "0 \<le> x1 \<Longrightarrow> x1 < min (64 * int a) (int w) \<Longrightarrow> spans_wf (cell_spans (int w) stop cs (Some x1))
      \<and> (\<forall>s\<in>set (cell_spans (int w) stop cs (Some x1)). x1 \<le> fst s)
      \<and> span_pts (cell_spans (int w) stop cs (Some x1)) = {x1 ..< min (64 * int a) (int w)} \<union> blocks w cs"
  using assms(3,4)
proof (induction cs arbitrary: a x1)
  case Nil
  { case 1 show ?case by simp }
  { case 2 then have "a = stop" by (simp add: upt_eq_Nil_conv eq_commute [of "[]"])
    then show ?case using 2 assms(1,2) by (simp add: cell_edge spans_wf_step) }
next
  case (Cons cb cs)
  { case 1
    then have a: "a < stop" by (cases "a < stop") auto
    obtain b where cb: "cb = (a, b)" using 1 a by (cases cb) (simp add: upt_conv_Cons)
    have cs: "map fst cs = [Suc a ..< stop]" "Suc a \<le> stop" using 1 a by (simp_all add: upt_conv_Cons)
    have e: "i32 (i32 (int a) * SEGMENT) = 64 * int a" "64 * int a < int w" "a < 65536" using a assms(1,2) by (simp_all add: cell_edge)
    show ?case
    proof (cases b)
      case True
      have "64 * int a < min (64 * int (Suc a)) (int w)" using e by simp
      from Cons.IH(2) [OF _ this cs] True show ?thesis by (auto simp: cb e block_def)
    next
      case False
      from Cons.IH(1) [OF cs] False show ?thesis by (fastforce simp: cb)
    qed }
  { case 2
    then have a: "a < stop" by (cases "a < stop") auto
    obtain b where cb: "cb = (a, b)" using 2 a by (cases cb) (simp add: upt_conv_Cons)
    have cs: "map fst cs = [Suc a ..< stop]" "Suc a \<le> stop" using 2 a by (simp_all add: upt_conv_Cons)
    have e: "i32 (i32 (int a) * SEGMENT) = 64 * int a" "64 * int a < int w" using a assms(1,2) by (simp_all add: cell_edge)
    show ?case
    proof (cases b)
      case True
      have "x1 < min (64 * int (Suc a)) (int w)" using 2(2) by simp
      from Cons.IH(2) [OF 2(1) this cs] True 2(2) e show ?thesis by (auto simp: cb block_def)
    next
      case False
      from Cons.IH(1) [OF cs] False 2(2) e show ?thesis by (fastforce simp: cb spans_wf_step)
    qed }
qed

section \<open>Rows\<close>

text \<open>What \<open>region\<close> and \<open>detect\<close> make of their cells: the spans of each row, as a region.\<close>

definition row_of :: "nat \<Rightarrow> nat \<times> nat \<Rightarrow> (int \<Rightarrow> nat \<Rightarrow> bool) \<Rightarrow> int \<Rightarrow> (int \<times> span list) option" where
  "row_of w span P y =
    (let spans = cell_spans (int w) (snd span) (map (\<lambda>c. (c, P y c)) (range_of span)) None in
     if spans = [] then None else Some (y, spans))"

lemma zip_map_same: "zip xs (map f xs) = map (\<lambda>x. (x, f x)) xs"
  by (induction xs) simp_all

lemma row_of_pts:
  assumes "w < 65536" "64 * snd span < w + 64" "fst span \<le> snd span"
  shows "row_of w span P y = None \<Longrightarrow> \<not> (0 \<le> x \<and> x < int w \<and> nat x div 64 \<in> set (range_of span) \<and> P y (nat x div 64))"
    and "row_of w span P y = Some r \<Longrightarrow> fst r = y \<and> spans_wf (snd r)
      \<and> span_pts (snd r) = {x. 0 \<le> x \<and> x < int w \<and> nat x div 64 \<in> set (range_of span) \<and> P y (nat x div 64)}"
proof -
  let ?cs = "map (\<lambda>c. (c, P y c)) (range_of span)"
  have "map fst ?cs = [fst span ..< snd span]" by (simp add: range_of_def comp_def)
  from cell_spans_ok(1) [OF assms(1,2) this assms(3)]
  obtain S where S: "S = cell_spans (int w) (snd span) ?cs None" "spans_wf S" "span_pts S = blocks w ?cs" by blast
  have b: "x \<in> blocks w ?cs \<longleftrightarrow> 0 \<le> x \<and> x < int w \<and> nat x div 64 \<in> set (range_of span) \<and> P y (nat x div 64)" for x
    by (auto simp: in_blocks)
  have r: "row_of w span P y = (if S = [] then None else Some (y, S))" by (simp add: row_of_def S(1))
  show "row_of w span P y = None \<Longrightarrow> \<not> (0 \<le> x \<and> x < int w \<and> nat x div 64 \<in> set (range_of span) \<and> P y (nat x div 64))"
    unfolding r using S(3) b [of x] by (cases "S = []") simp_all
  have p: "span_pts S = {x. 0 \<le> x \<and> x < int w \<and> nat x div 64 \<in> set (range_of span) \<and> P y (nat x div 64)}"
    unfolding S(3) using b by blast
  assume "row_of w span P y = Some r"
  then have "r = (y, S)" unfolding r by (cases "S = []") simp_all
  then show "fst r = y \<and> spans_wf (snd r)
      \<and> span_pts (snd r) = {x. 0 \<le> x \<and> x < int w \<and> nat x div 64 \<in> set (range_of span) \<and> P y (nat x div 64)}"
    using S(2) p by simp
qed

lemma rows_ok_filter:
  assumes "sorted_wrt (<) ys" "\<forall>y\<in>set ys. lb \<le> y \<and> in_i32 (y + 1)"
    "\<And>y r. f y = Some r \<Longrightarrow> fst r = y \<and> spans_wf (snd r)"
  shows "rows_ok lb (List.map_filter f ys)"
  using assms(1,2)
proof (induction ys arbitrary: lb)
  case (Cons y ys)
  have "rows_ok (y + 1) (List.map_filter f ys)" "rows_ok lb (List.map_filter f ys)"
    using Cons by force+
  then show ?case
    using Cons.prems assms(3) [of y] by (cases "f y") (auto simp: map_filter_simps)
qed (simp add: map_filter_simps)

lemma sorted_irange: "sorted_wrt (<) (irange a b)"
  by (simp add: irange_def sorted_wrt_map)

lemma set_map_filter: "set (List.map_filter f xs) = {y. \<exists>x\<in>set xs. f x = Some y}"
  by (induction xs) (auto simp: map_filter_simps split: option.splits)

lemma rows_region:
  assumes "w < 65536" "64 * snd span < w + 64" "fst span \<le> snd span" "0 \<le> y1" "y2 < 65536"
  shows "region_wf (region_from_rows (List.map_filter (\<lambda>y. if Q y then row_of w span P y else None) (irange y1 y2)))"
    and "rects_pixels (region_from_rows (List.map_filter (\<lambda>y. if Q y then row_of w span P y else None) (irange y1 y2)))
      = {(x, y). y1 \<le> y \<and> y < y2 \<and> Q y \<and> 0 \<le> x \<and> x < int w \<and> nat x div 64 \<in> set (range_of span) \<and> P y (nat x div 64)}"
proof -
  let ?f = "\<lambda>y. if Q y then row_of w span P y else None"
  let ?r = "List.map_filter ?f (irange y1 y2)"
  have f: "?f y = Some r \<Longrightarrow> fst r = y \<and> spans_wf (snd r)" for y r
    using row_of_pts(2) [OF assms(1-3)] by (auto split: if_splits)
  have ok: "rows_ok y1 ?r"
    by (rule rows_ok_filter [OF sorted_irange _ f]) (use assms(4,5) in \<open>auto simp: set_irange in_i32_def\<close>)
  note r = region_from_rows_pixels [OF ok]
  show "region_wf (region_from_rows ?r)" using r by blast
  have "(\<exists>ss. (y, ss) \<in> set ?r \<and> x \<in> span_pts ss)
      \<longleftrightarrow> y1 \<le> y \<and> y < y2 \<and> Q y \<and> 0 \<le> x \<and> x < int w \<and> nat x div 64 \<in> set (range_of span) \<and> P y (nat x div 64)" (is "?L \<longleftrightarrow> ?R") for x y
  proof
    assume ?L
    then obtain z ss where "y1 \<le> z" "z < y2" "Q z" "row_of w span P z = Some (y, ss)" "x \<in> span_pts ss"
      by (auto simp: set_map_filter set_irange split: if_splits)
    then show ?R using row_of_pts(2) [OF assms(1-3), of P z "(y, ss)"] by auto
  next
    assume R: ?R
    then obtain r where r: "row_of w span P y = Some r" using row_of_pts(1) [OF assms(1-3), of P y x] by blast
    then have "fst r = y" "x \<in> span_pts (snd r)" using row_of_pts(2) [OF assms(1-3) r] R by auto
    then show ?L using r R by (intro exI [of _ "snd r"]) (force simp: set_map_filter set_irange)
  qed
  then show "rects_pixels (region_from_rows ?r) = {(x, y). y1 \<le> y \<and> y < y2 \<and> Q y \<and> 0 \<le> x \<and> x < int w \<and> nat x div 64 \<in> set (range_of span) \<and> P y (nat x div 64)}"
    using r by auto
qed

section \<open>The changed cells\<close>

lemma drop_bit_one: "(drop_bit n w AND 1 \<noteq> 0) \<longleftrightarrow> bit (w :: u64) n"
  by (simp add: bit_iff_odd_drop_bit and_one_eq odd_iff_mod_2_eq_one)

lemma changed_at_ok:
  assumes "fb_ok fb" "tg_ok t fb" "0 \<le> y" "y < int (fb_height fb)" "c < tg_cols t"
  shows "changed_at t y c = Some (flagged t (nat y) c)"
proof -
  obtain n where n: "y = int n" "n < fb_height fb" using assms(3,4) by (auto elim!: nonneg_int_cases)
  have i: "n * tg_cols t + c < tg_cols t * fb_height fb" by (rule cell_index [OF n(2) assms(5)])
  obtain k where k: "k = n * tg_cols t + c" by simp
  have "k div 64 < length (tg_changed t)" using i assms(2) div_ceil_64 [of "k div 64" "tg_cols t * fb_height fb"]
    by (auto simp: tg_ok_def k [symmetric] intro: le_less_trans [OF times_div_less_eq_dividend])
  then show ?thesis
    by (simp add: changed_at_def n cell_at_int [OF assms(1) n(2)] flagged_def drop_bit_one k [symmetric])
qed

definition clip_ok :: "framebuffer \<Rightarrow> tightener \<Rightarrow> rect \<Rightarrow> nat \<times> nat \<Rightarrow> bool" where
  "clip_ok fb t bounds span \<longleftrightarrow> 0 \<le> ry1 bounds \<and> ry2 bounds \<le> int (fb_height fb) \<and> snd span \<le> tg_cols t \<and> fst span \<le> snd span"

lemma clip_ok_width: "tg_ok t fb \<Longrightarrow> clip_ok fb t bounds span \<Longrightarrow> 64 * snd span < fb_width fb + 64"
proof -
  assume a: "tg_ok t fb" "clip_ok fb t bounds span"
  then have "snd span = 0 \<or> snd span - 1 < div_ceil (fb_width fb) 64" by (auto simp: tg_ok_def clip_ok_def)
  then show ?thesis unfolding div_ceil_64 by (cases "snd span") auto
qed

lemma map_filter_id: "List.map_filter (\<lambda>x. x) (map f xs) = List.map_filter f xs"
  by (induction xs) (auto simp: map_filter_simps split: option.splits)

lemma width_i32: "fb_ok fb \<Longrightarrow> tg_ok t fb \<Longrightarrow> i32 (int (fst (tg_size t))) = int (fb_width fb)"
  by (simp add: tg_ok_def fb_ok_def i32_small)

lemma tg_region_ok:
  assumes "fb_ok fb" "tg_ok t fb" "clip_ok fb t bounds span"
  obtains d where "tg_region t bounds span = Some d" "region_wf d"
    "rects_pixels d = {(x, y). ry1 bounds \<le> y \<and> y < ry2 bounds \<and> 0 \<le> x \<and> x < int (fb_width fb) \<and> nat x div 64 \<in> set (range_of span) \<and> flagged t (nat y) (nat x div 64)}"
proof -
  let ?P = "\<lambda>y c. flagged t (nat y) c"
  have "changed_row t span y = Some (row_of (fb_width fb) span ?P y)" if "y \<in> set (irange (ry1 bounds) (ry2 bounds))" for y
  proof -
    have y: "0 \<le> y" "y < int (fb_height fb)" using that assms(3) by (auto simp: set_irange clip_ok_def)
    have "those (map (changed_at t y) (range_of span)) = Some (map (?P y) (range_of span))"
      by (rule those_map_Some) (use assms(3) changed_at_ok [OF assms(1,2) y] in \<open>auto simp: range_of_def clip_ok_def\<close>)
    then show ?thesis by (simp add: changed_row_def row_of_def zip_map_same width_i32 [OF assms(1,2)] Let_def)
  qed
  then have "those (map (changed_row t span) (irange (ry1 bounds) (ry2 bounds)))
      = Some (map (row_of (fb_width fb) span ?P) (irange (ry1 bounds) (ry2 bounds)))"
    by (intro those_map_Some) blast
  then have "tg_region t bounds span = Some (region_from_rows (List.map_filter (\<lambda>y. if True then row_of (fb_width fb) span ?P y else None) (irange (ry1 bounds) (ry2 bounds))))"
    by (simp add: tg_region_def map_filter_id)
  moreover have "fb_width fb < 65536" "ry2 bounds < 65536" using assms(1,3) by (simp_all add: fb_ok_def clip_ok_def)
  moreover have "64 * snd span < fb_width fb + 64" by (rule clip_ok_width [OF assms(2,3)])
  moreover have "0 \<le> ry1 bounds" "fst span \<le> snd span" using assms(3) by (simp_all add: clip_ok_def)
  ultimately show thesis using that rows_region [of "fb_width fb" span "ry1 bounds" "ry2 bounds" "\<lambda>y. True" ?P] by auto
qed

section \<open>Rows before and after\<close>

lemma take_drop_nth: "a + n \<le> length xs \<Longrightarrow> take n (drop a xs) = map (\<lambda>i. xs ! (a + i)) [0 ..< n]"
  by (rule nth_equalityI) auto

lemma tg_now_ok:
  assumes "fb_ok fb" "tg_ok t fb" "0 \<le> y" "y < int (fb_height fb)" "fst span \<le> snd span" "snd span \<le> tg_cols t"
  shows "tg_now t span y = Some (map (known t (nat y)) (range_of span))"
proof -
  obtain n where n: "y = int n" "n < fb_height fb" using assms(3,4) by (auto elim!: nonneg_int_cases)
  have "Suc n * tg_cols t \<le> fb_height fb * tg_cols t" by (rule mult_le_mono1) (use n in simp)
  then have l: "n * tg_cols t + snd span \<le> length (tg_hashes t)" using assms(2,6) by (simp add: tg_ok_def mult.commute)
  have "map (\<lambda>i. tg_hashes t ! (n * tg_cols t + fst span + i)) [0 ..< snd span - fst span] = map (known t n) (range_of span)"
    by (rule nth_equalityI) (auto simp: range_of_def known_def add.assoc)
  then show ?thesis
    using l assms(5) by (simp add: tg_now_def slice_def n cell_at_int [OF assms(1) n(2)] take_drop_nth)
qed

lemma slice_concat:
  "\<forall>xs\<in>set xss. length xs = n \<Longrightarrow> i < length xss \<Longrightarrow> slice (i * n) n (concat xss) = Some (xss ! i)"
proof (induction xss arbitrary: i)
  case (Cons xs xss)
  show ?case
  proof (cases i)
    case (Suc j)
    from Cons.IH [of j] Cons.prems Suc show ?thesis by (auto simp: slice_def split: if_splits)
  qed (use Cons.prems in \<open>simp add: slice_def\<close>)
qed simp

definition rows_before :: "tightener \<Rightarrow> rect \<Rightarrow> nat \<times> nat \<Rightarrow> u64 list" where
  "rows_before t bounds span = concat (map (\<lambda>y. map (known t (nat y)) (range_of span)) (irange (ry1 bounds) (ry2 bounds)))"

lemma snapshot_ok:
  assumes "fb_ok fb" "tg_ok t fb" "clip_ok fb t bounds span"
  shows "snapshot bounds span t = Some (t\<lparr>tg_before := rows_before t bounds span\<rparr>)"
proof -
  have "those (map (tg_now t span) (irange (ry1 bounds) (ry2 bounds)))
      = Some (map (\<lambda>y. map (known t (nat y)) (range_of span)) (irange (ry1 bounds) (ry2 bounds)))"
    by (rule those_map_Some) (use assms tg_now_ok [OF assms(1,2)] in \<open>auto simp: set_irange clip_ok_def\<close>)
  then show ?thesis by (simp add: snapshot_def rows_before_def)
qed

lemma tg_was_ok:
  assumes "tg_before t = rows_before t0 bounds span" "ry1 bounds \<le> y" "y < ry2 bounds" "0 \<le> ry1 bounds" "ry2 bounds < 65536"
  shows "tg_was t bounds span y = Some (map (known t0 (nat y)) (range_of span))"
proof -
  obtain i where i: "y = ry1 bounds + int i" "i < nat (ry2 bounds - ry1 bounds)"
    by (rule that [of "nat (y - ry1 bounds)"]) (use assms in auto)
  have u: "usize_of (i32 (y - ry1 bounds)) = i" using i assms by (simp add: i32_small)
  let ?xss = "map (\<lambda>y. map (known t0 (nat y)) (range_of span)) (irange (ry1 bounds) (ry2 bounds))"
  have "slice (i * (snd span - fst span)) (snd span - fst span) (concat ?xss) = Some (?xss ! i)"
    by (rule slice_concat) (use i in \<open>auto simp: range_of_def\<close>)
  moreover have "irange (ry1 bounds) (ry2 bounds) ! i = y" using i by (simp add: irange_def)
  ultimately show ?thesis using i(2) by (simp add: tg_was_def u assms(1) rows_before_def)
qed

end
