(* ===== verification/Compare_Laws.thy ===== *)
theory Compare_Laws
  imports Compare_Cells
begin

text \<open>
  What the comparing pass promises: it never panics on a picture of its size, afterwards it knows the
  picture, and what it reports is what changed: outside the damage it returns, the new picture is the
  old one with the moves it returns made in order. The hash is trusted to tell the cells of the two
  pictures apart (\<open>tells_apart\<close>). With moves reported by the backend the promise does not hold.
\<close>

section \<open>Copies in order\<close>

text \<open>The order of a region's rectangles, which is the order a scroll's copies are made in.\<close>

definition reading :: "rect \<Rightarrow> rect \<Rightarrow> bool" where
  "reading r s \<longleftrightarrow> ry2 r \<le> ry1 s \<or> rx2 r \<le> rx1 s"

lemma segs_reading: "segs_ok lb bs \<Longrightarrow> sorted_wrt reading (flatten_bands bs)"
proof (induction lb bs rule: segs_ok.induct)
  case (2 lb y1 y2 ss bs)
  have "spans_wf ss" using 2(2) by simp
  then have "sorted_wrt reading (band_rects (y1, y2, ss))"
    unfolding band_rects_def sorted_wrt_map spans_wf_def
    by (auto simp: span_rect_def reading_def elim!: sorted_wrt_mono_rel [rotated])
  moreover have "reading r s" if "r \<in> set (band_rects (y1, y2, ss))" "s \<in> set (flatten_bands bs)" for r s
    using segs_pixels_below [of y2 bs s] 2(2) that by (auto simp: band_rects_def span_rect_def reading_def)
  ultimately show ?case using 2 by (simp add: sorted_wrt_append)
qed simp

lemma region_reading: "region_wf a \<Longrightarrow> sorted_wrt reading a"
  by (metis region_wfE bands_ok_segs_ok segs_reading)

lemma region_rect_nonempty:
  assumes "region_wf a" "r \<in> set a" shows "rx1 r < rx2 r \<and> ry1 r < ry2 r"
proof -
  obtain bs where bs: "bands_ok bs" "a = flatten_bands bs" by (rule region_wfE [OF assms(1)])
  have "\<forall>b\<in>set bs. band_ok b" using bs(1) by (induction bs rule: bands_ok.induct) auto
  then show ?thesis using assms(2) bs(2)
    by (fastforce simp: flatten_bands_def band_rects_def span_rect_def band_ok_def spans_wf_def spans_nonempty_def)
qed

definition scroll_move :: "int \<Rightarrow> rect \<Rightarrow> move" where
  "scroll_move dy r = \<lparr>src_x = rx1 r, src_y = i32 (ry1 r + dy), dst = r\<rparr>"

definition in_frame :: "rect \<Rightarrow> bool" where
  "in_frame r \<longleftrightarrow> 0 \<le> rx1 r \<and> rx1 r < rx2 r \<and> rx2 r < 65536 \<and> 0 \<le> ry1 r \<and> ry1 r < ry2 r \<and> ry2 r < 65536"

lemma scroll_src:
  assumes "in_frame r" "0 \<le> ry1 r + dy" "ry2 r + dy < 65536"
  shows "src_y (scroll_move dy r) = ry1 r + dy" "(x, y) \<in> rect_pixels (move_src (scroll_move dy r)) \<longleftrightarrow> (x, y - dy) \<in> rect_pixels r"
proof -
  have s: "rect_small r" using assms(1) by (simp add: in_frame_def rect_small_def)
  show y: "src_y (scroll_move dy r) = ry1 r + dy" using assms by (simp add: scroll_move_def i32_small in_frame_def)
  have "rect_width r = rx2 r - rx1 r" "rect_height r = ry2 r - ry1 r"
    using assms(1) by (simp_all add: rect_width_small [OF s] rect_height_small [OF s] in_frame_def)
  then show "(x, y) \<in> rect_pixels (move_src (scroll_move dy r)) \<longleftrightarrow> (x, y - dy) \<in> rect_pixels r"
    using assms y by (auto simp: move_src_def rect_new_def in_rect_pixels in_frame_def scroll_move_def i32_small)
qed

definition scroll_list :: "int \<Rightarrow> rect list \<Rightarrow> move list" where
  "scroll_list dy rs = (let ms = map (scroll_move dy) rs in if dy < 0 then rev ms else ms)"

lemma set_scroll_list [simp]: "set (scroll_list dy rs) = scroll_move dy ` set rs"
  by (simp add: scroll_list_def Let_def)

lemma dst_scroll_move [simp]: "dst (scroll_move dy r) = r" "src_x (scroll_move dy r) = rx1 r"
  by (simp_all add: scroll_move_def)

lemma scroll_list_free:
  assumes "sorted_wrt reading rs" "dy \<noteq> 0" "\<forall>r\<in>set rs. in_frame r \<and> 0 \<le> ry1 r + dy \<and> ry2 r + dy < 65536"
  shows "free_copies (scroll_list dy rs)"
    and "sorted_wrt (\<lambda>c d. rect_pixels (dst c) \<inter> rect_pixels (dst d) = {}) (scroll_list dy rs)"
proof -
  let ?src = "\<lambda>r. rect_pixels (move_src (scroll_move dy r))"
  have src: "?src r = {(x, y). (x, y - dy) \<in> rect_pixels r}" if "r \<in> set rs" for r
    using scroll_src(2) assms(3) that by auto
  have fwd: "sorted_wrt (\<lambda>r s. rect_pixels r \<inter> ?src s = {}) rs" if "0 < dy"
    by (rule sorted_wrt_mono_rel [OF _ assms(1)]) (use that in \<open>auto simp: src reading_def in_rect_pixels\<close>)
  have bwd: "sorted_wrt (\<lambda>r s. rect_pixels s \<inter> ?src r = {}) rs" if "dy < 0"
    by (rule sorted_wrt_mono_rel [OF _ assms(1)]) (use that in \<open>auto simp: src reading_def in_rect_pixels\<close>)
  show "free_copies (scroll_list dy rs)"
    using fwd bwd assms(2) by (auto simp: free_copies_def scroll_list_def Let_def sorted_wrt_map sorted_wrt_rev)
  have "sorted_wrt (\<lambda>r s. rect_pixels r \<inter> rect_pixels s = {}) rs"
    by (rule sorted_wrt_mono_rel [OF _ assms(1)]) (auto simp: reading_def in_rect_pixels)
  then show "sorted_wrt (\<lambda>c d. rect_pixels (dst c) \<inter> rect_pixels (dst d) = {}) (scroll_list dy rs)"
    by (simp add: scroll_list_def Let_def sorted_wrt_map sorted_wrt_rev Int_commute)
qed

text \<open>Free copies onto disjoint places read the picture as it was.\<close>

lemma replay_free:
  assumes "free_copies ms" "sorted_wrt (\<lambda>c d. rect_pixels (dst c) \<inter> rect_pixels (dst d) = {}) ms" "\<forall>m\<in>set ms. move_ok B m"
  shows "(\<forall>m\<in>set ms. pt \<notin> rect_pixels (dst m)) \<Longrightarrow> replay ms p pt = p pt"
    and "m \<in> set ms \<Longrightarrow> pt \<in> rect_pixels (dst m) \<Longrightarrow> replay ms p pt = apply_move m p pt"
  using assms
proof (induction ms arbitrary: pt m rule: rev_induct)
  case Nil
  { case 1 then show ?case by (simp add: replay_def) next case 2 then show ?case by simp }
next
  case (snoc n ms)
  have ms: "free_copies ms" "sorted_wrt (\<lambda>c d. rect_pixels (dst c) \<inter> rect_pixels (dst d) = {}) ms" "\<forall>m\<in>set ms. move_ok B m"
    if "free_copies (ms @ [n])" "sorted_wrt (\<lambda>c d. rect_pixels (dst c) \<inter> rect_pixels (dst d) = {}) (ms @ [n])" "\<forall>m\<in>set (ms @ [n]). move_ok B m"
    using that by (auto simp: free_copies_def sorted_wrt_append)
  { case 1
    then show ?case using snoc.IH(1) [OF _ ms] by (simp add: replay_snoc apply_move_outside)
  next
    case 2
    note ih = snoc.IH(1) [OF _ ms [OF 2(3-5)]] snoc.IH(2) [OF _ _ ms [OF 2(3-5)]]
    show ?case
    proof (cases "pt \<in> rect_pixels (dst n)")
      case True
      then have "m \<notin> set ms" using 2 by (auto simp: sorted_wrt_append)
      then have mn: "m = n" using 2(1) by simp
      have "\<forall>q\<in>rect_pixels (move_src n). replay ms p q = p q"
        using 2(3) ih(1) by (fastforce simp: free_copies_def sorted_wrt_append)
      then show ?thesis unfolding mn replay_snoc using 2(5) True by (intro apply_move_agree [of B]) auto
    next
      case False
      then have "m \<in> set ms" using 2(1,2) by auto
      with ih(2) [OF this 2(2)] False show ?thesis by (simp add: replay_snoc apply_move_outside)
    qed }
qed

section \<open>The scroll detector\<close>

lemma any_of_ok: "\<forall>x\<in>set xs. f x \<noteq> None \<Longrightarrow> any_of f xs \<noteq> None"
  by (induction xs) (auto split: option.splits bool.splits)

lemma filter_of_ok: "\<forall>x\<in>set xs. f x \<noteq> None \<Longrightarrow> filter_of f xs = Some (filter (\<lambda>x. the (f x)) xs)"
  by (induction xs) auto

lemma set_step_by: "set (step_by n xs) \<subseteq> set xs"
proof (induction n xs rule: step_by.induct)
  case (2 n x xs)
  then show ?case using set_drop_subset [of "n - 1" xs] by auto
qed simp

lemma vote_keys: "fst ` set (vote d n vs) \<subseteq> insert d (fst ` set vs)"
  by (induction d n vs rule: vote.induct) auto

definition distances :: "int list \<Rightarrow> int list \<Rightarrow> int set" where
  "distances ys rows = {d. \<exists>y\<in>set ys. \<exists>row\<in>set rows. y \<noteq> row \<and> d = i32 (y - row)}"

lemma vote_row_keys: "fst ` set (vote_row y was ps vs) \<subseteq> distances [y] (map fst ps) \<union> fst ` set vs"
proof (induction y was ps vs rule: vote_row.induct)
  case (2 y was row cells ps vs)
  define vs' where "vs' = (if y = row then vs else let agree = agreement was cells in if agree > 0 then vote (i32 (y - row)) agree vs else vs)"
  have a: "fst ` set vs' \<subseteq> distances [y] [row] \<union> fst ` set vs"
    using vote_keys [of "i32 (y - row)" "agreement was cells" vs] by (auto simp: vs'_def distances_def Let_def)
  have b: "fst ` set (vote_row y was ps vs') \<subseteq> distances [y] (map fst ps) \<union> fst ` set vs'"
    using 2 by (simp add: vs'_def)
  have c: "distances [y] (map fst ((row, cells) # ps)) = distances [y] [row] \<union> distances [y] (map fst ps)" by (auto simp: distances_def)
  have "vote_row y was ((row, cells) # ps) vs = vote_row y was ps vs'" by (simp add: vs'_def)
  then show ?case unfolding c using a b by (simp only:) blast
qed simp

lemma vote_rows_keys: "fst ` set (vote_rows rows ps vs) \<subseteq> distances (map fst rows) (map fst ps) \<union> fst ` set vs"
proof (induction rows ps vs rule: vote_rows.induct)
  case (2 y was rows ps vs)
  have "distances (map fst ((y, was) # rows)) (map fst ps) = distances [y] (map fst ps) \<union> distances (map fst rows) (map fst ps)"
    by (auto simp: distances_def)
  then show ?case using 2 vote_row_keys [of y was ps vs] by auto
qed simp

lemma most_votes_in: "most_votes vs = Some v \<Longrightarrow> v \<in> set vs"
  by (induction vs arbitrary: v) (auto split: option.splits if_splits)

text \<open>What a list of copies found in the picture is.\<close>

definition held :: "framebuffer \<Rightarrow> tightener \<Rightarrow> tightener \<Rightarrow> move list \<Rightarrow> bool" where
  "held fb t0 t ms \<longleftrightarrow> (\<forall>m\<in>set ms. move_ok (picture_pts fb) m) \<and> free_copies ms
    \<and> sorted_wrt (\<lambda>c d. rect_pixels (dst c) \<inter> rect_pixels (dst d) = {}) ms
    \<and> (\<forall>m\<in>set ms. rect_pixels (dst m) \<noteq> {} \<and> src_x m = rx1 (dst m) \<and> (\<forall>(x, y)\<in>rect_pixels (dst m).
        (x, y) \<in> picture_pts fb \<and> (x, y - ry1 (dst m) + src_y m) \<in> picture_pts fb
        \<and> known t (nat y) (nat x div 64) = known t0 (nat (y - ry1 (dst m) + src_y m)) (nat x div 64)))"

lemma held_Nil [simp]: "held fb t0 t []"
  by (simp add: held_def free_copies_def)

lemma scroll_moves_ok:
  assumes "fb_ok fb" "tg_ok t fb" "clip_ok fb t bounds span" "tg_before t = rows_before t0 bounds span" "dy \<noteq> 0" "\<bar>dy\<bar> < 65536"
  shows "\<exists>ms. scroll_moves t bounds span dy = Some ms \<and> held fb t0 t ms"
proof -
  let ?P = "\<lambda>y c. known t (nat y) c = known t0 (nat (y + dy)) c"
  let ?Q = "\<lambda>y. ry1 bounds \<le> y + dy \<and> y + dy < ry2 bounds"
  let ?f = "\<lambda>y. if ?Q y then row_of (fb_width fb) span ?P y else None"
  let ?ys = "irange (ry1 bounds) (ry2 bounds)"
  have b: "0 \<le> ry1 bounds" "ry2 bounds < 65536" "ry2 bounds \<le> int (fb_height fb)" "fb_width fb < 65536" "fst span \<le> snd span" "snd span \<le> tg_cols t"
    using assms(1,3) by (simp_all add: fb_ok_def clip_ok_def)
  have "held_row t bounds span dy y = Some (?f y)" if "y \<in> set ?ys" for y
  proof -
    have y: "0 \<le> y" "y < int (fb_height fb)" "ry1 bounds \<le> y" "y < ry2 bounds" using that b by (auto simp: set_irange)
    have s: "i32 (y + dy) = y + dy" using y b assms(6) by (simp add: i32_small)
    show ?thesis
    proof (cases "?Q y")
      case True
      have now: "tg_now t span y = Some (map (known t (nat y)) (range_of span))" by (rule tg_now_ok [OF assms(1,2) y(1,2) b(5,6)])
      have was: "tg_was t bounds span (y + dy) = Some (map (known t0 (nat (y + dy))) (range_of span))"
        by (rule tg_was_ok [OF assms(4)]) (use True b in auto)
      have "map (\<lambda>(p, q). p = q) (zip (map (known t (nat y)) (range_of span)) (map (known t0 (nat (y + dy))) (range_of span))) = map (?P y) (range_of span)"
        by (rule nth_equalityI) auto
      then show ?thesis using True
        by (simp add: held_row_def s now was Let_def row_of_def zip_map_same width_i32 [OF assms(1,2)])
    next
      case False
      then show ?thesis by (auto simp: held_row_def s Let_def)
    qed
  qed
  then have rows: "those (map (held_row t bounds span dy) ?ys) = Some (map ?f ?ys)" by (intro those_map_Some) blast
  define R where "R = region_from_rows (List.map_filter ?f ?ys)"
  note rr = rows_region [OF b(4) clip_ok_width [OF assms(2,3)] b(5,1,2), of ?Q ?P]
  have R: "region_wf R" unfolding R_def by (rule rr(1))
  have px: "rect_pixels r \<subseteq> rects_pixels R" if "r \<in> set R" for r using that by (auto simp: rects_pixels_def)
  have pR: "ry1 bounds \<le> y" "y < ry2 bounds" "?Q y" "0 \<le> x" "x < int (fb_width fb)" "nat x div 64 \<in> set (range_of span)" "?P y (nat x div 64)"
    if "(x, y) \<in> rects_pixels R" for x y
    using that unfolding R_def rr(2) by blast+
  have fr: "in_frame r \<and> ry1 bounds \<le> ry1 r + dy \<and> ry2 r + dy \<le> ry2 bounds \<and> ry1 bounds \<le> ry1 r \<and> ry2 r \<le> ry2 bounds" if r: "r \<in> set R" for r
  proof -
    note ne = region_rect_nonempty [OF R r]
    have "(rx1 r, ry1 r) \<in> rects_pixels R" "(rx2 r - 1, ry2 r - 1) \<in> rects_pixels R"
      using px [OF r] ne by (auto simp: in_rect_pixels subset_iff)
    from pR [OF this(1)] pR [OF this(2)] show ?thesis using ne b by (auto simp: in_frame_def)
  qed
  have wc: "worth_copying t span r \<noteq> None" if r: "r \<in> set R" for r
  proof -
    have "\<exists>v. changed_at t y c = Some v" if "y \<in> set (irange (ry1 r) (ry2 r))" "c < snd span" for y c
      using changed_at_ok [OF assms(1,2), of y c] that fr [OF r] b by (auto simp: set_irange)
    then show ?thesis unfolding worth_copying_def holds_change_def Let_def
      by (cases "rect_height r \<ge> MIN_RUN") (auto intro!: any_of_ok [unfolded not_None_eq])
  qed
  define rs where "rs = filter (\<lambda>r. the (worth_copying t span r)) R"
  have res: "scroll_moves t bounds span dy = Some (scroll_list dy rs)"
    using filter_of_ok [of R "worth_copying t span"] wc
    by (simp add: scroll_moves_def rows map_filter_id R_def [symmetric] rs_def scroll_list_def scroll_move_def [abs_def])
  have rs: "r \<in> set R" "in_frame r" "0 \<le> ry1 r + dy" "ry2 r + dy < 65536" if "r \<in> set rs" for r
    using that fr [of r] b by (auto simp: rs_def)
  have srt: "sorted_wrt reading rs" unfolding rs_def by (rule sorted_wrt_filter [OF region_reading [OF R]])
  have all: "\<forall>r\<in>set rs. in_frame r \<and> 0 \<le> ry1 r + dy \<and> ry2 r + dy < 65536" using rs by blast
  note fl = scroll_list_free [OF srt assms(5) all]
  have pts: "(x, y) \<in> picture_pts fb \<and> (x, y + dy) \<in> picture_pts fb \<and> ?P y (nat x div 64)"
    if r: "r \<in> set rs" and xy: "(x, y) \<in> rect_pixels r" for r x y
  proof -
    have "(x, y) \<in> rects_pixels R" using px [OF rs(1) [OF r]] xy by blast
    from pR [OF this] show ?thesis using b by (simp add: in_picture_pts [OF assms(1)])
  qed
  have one: "move_ok (picture_pts fb) (scroll_move dy r) \<and> src_y (scroll_move dy r) = ry1 r + dy" if r: "r \<in> set rs" for r
  proof -
    note src = scroll_src [OF rs(2-4) [OF r]]
    have "rect_pixels (move_src (scroll_move dy r)) \<subseteq> picture_pts fb"
    proof
      fix p assume "p \<in> rect_pixels (move_src (scroll_move dy r))"
      then obtain x y where "p = (x, y)" "(x, y - dy) \<in> rect_pixels r" using src(2) by (cases p) blast
      then show "p \<in> picture_pts fb" using pts [OF r] by force
    qed
    then show ?thesis using src(1) rs(2-4) [OF r] by (auto simp: move_ok_def in_frame_def rect_small_def)
  qed
  have ne: "rect_pixels r \<noteq> {}" if "r \<in> set rs" for r
    using rs(2) [OF that] by (auto simp: in_frame_def rect_pixels_prod)
  have "held fb t0 t (scroll_list dy rs)"
    unfolding held_def using fl one pts ne by (auto simp: algebra_simps)
  then show ?thesis using res by blast
qed

lemma detect_ok:
  assumes "fb_ok fb" "tg_ok t fb" "clip_ok fb t bounds span" "tg_before t = rows_before t0 bounds span" "\<And>vs. set (ord vs) = set vs"
  shows "\<exists>ms. detect ord t bounds span = Some ms \<and> held fb t0 t ms"
proof -
  let ?ys = "irange (ry1 bounds) (ry2 bounds)"
  have b: "0 \<le> ry1 bounds" "ry2 bounds < 65536" "ry2 bounds \<le> int (fb_height fb)" "fst span \<le> snd span" "snd span \<le> tg_cols t"
    using assms(1,3) by (simp_all add: fb_ok_def clip_ok_def)
  have "row_changed t span y \<noteq> None" if "y \<in> set ?ys" for y
    unfolding row_changed_def using that b changed_at_ok [OF assms(1,2), of y]
    by (intro any_of_ok) (auto simp: set_irange range_of_def)
  then obtain ch where ch: "filter_of (row_changed t span) ?ys = Some ch" "set ch \<subseteq> set ?ys"
    using filter_of_ok [of ?ys "row_changed t span"] by auto
  define probes where "probes = take PROBES (step_by (max (div_ceil (length ch) PROBES) (Suc 0)) ch)"
  have probes: "set probes \<subseteq> set ?ys" unfolding probes_def using ch(2) set_take_subset set_step_by by fast
  have now: "those (map (tg_now t span) probes) = Some (map (\<lambda>y. map (known t (nat y)) (range_of span)) probes)"
  proof (intro those_map_Some ballI)
    fix y assume "y \<in> set probes"
    then have "0 \<le> y" "y < int (fb_height fb)" using probes b by (auto simp: set_irange subset_iff)
    then show "tg_now t span y = Some (map (known t (nat y)) (range_of span))" by (rule tg_now_ok [OF assms(1,2) _ _ b(4,5)])
  qed
  have was: "those (map (tg_was t bounds span) ?ys) = Some (map (\<lambda>y. map (known t0 (nat y)) (range_of span)) ?ys)"
    by (rule those_map_Some) (use b tg_was_ok [OF assms(4)] in \<open>auto simp: set_irange\<close>)
  let ?vs = "vote_rows (zip ?ys (map (\<lambda>y. map (known t0 (nat y)) (range_of span)) ?ys)) (zip probes (map (\<lambda>y. map (known t (nat y)) (range_of span)) probes)) []"
  have tally: "tally t bounds span ch = Some ?vs" by (simp add: tally_def probes_def [symmetric] now was Let_def)
  have keys: "dy \<noteq> 0 \<and> \<bar>dy\<bar> < 65536" if "(dy, n) \<in> set ?vs" for dy n
  proof -
    have "dy \<in> fst ` set ?vs" using that by force
    then obtain y row where "dy = i32 (y - row)" "y \<in> set ?ys" "row \<in> set probes" "y \<noteq> row"
      using vote_rows_keys [of "zip ?ys (map (\<lambda>y. map (known t0 (nat y)) (range_of span)) ?ys)"
          "zip probes (map (\<lambda>y. map (known t (nat y)) (range_of span)) probes)" "[]"]
      by (auto simp: distances_def)
    then show ?thesis using probes b by (auto simp: set_irange subset_iff i32_small)
  qed
  show ?thesis
  proof (cases "length ch < nat MIN_RUN")
    case False
    show ?thesis
    proof (cases "most_votes (ord ?vs)")
      case (Some v)
      obtain dy n where v: "v = (dy, n)" by (cases v)
      have "dy \<noteq> 0" "\<bar>dy\<bar> < 65536" using keys [of dy n] most_votes_in [OF Some] v assms(5) by auto
      from scroll_moves_ok [OF assms(1-4) this] False Some v ch(1) tally show ?thesis by (auto simp: detect_def)
    qed (use False ch(1) tally in \<open>auto simp: detect_def\<close>)
  qed (use ch(1) in \<open>auto simp: detect_def\<close>)
qed

section \<open>The pass\<close>

definition clear_changed :: "tightener \<Rightarrow> tightener" where
  "clear_changed t = t\<lparr>tg_changed := map (\<lambda>_. 0) (tg_changed t)\<rparr>"

lemma flagged_clear:
  assumes "tg_ok t fb" "y < fb_height fb" "c < tg_cols t" shows "\<not> flagged (clear_changed t) y c"
proof -
  obtain k where k: "k = y * tg_cols t + c" by simp
  have "k < tg_cols t * fb_height fb" unfolding k by (rule cell_index [OF assms(2,3)])
  then have "k div 64 < length (tg_changed t)" using assms(1) div_ceil_64 [of "k div 64" "tg_cols t * fb_height fb"]
    by (auto simp: tg_ok_def intro: le_less_trans [OF times_div_less_eq_dividend])
  then show ?thesis by (simp add: flagged_def clear_changed_def k [symmetric])
qed

lemma marked_start:
  assumes "tg_ok t fb" shows "marked h fb {} (clear_changed t) (clear_changed t)"
  using assms flagged_clear [OF assms] by (auto simp: marked_def tg_ok_def clear_changed_def)

lemma known_update [simp]:
  "known (clear_changed t) = known t" "known (t\<lparr>tg_before := b\<rparr>) = known t"
  by (simp_all add: known_def [abs_def] clear_changed_def)

text \<open>The cells the pass looks at, and what it then reports, whatever the picture was before.\<close>

definition touched :: "framebuffer \<Rightarrow> region \<Rightarrow> (nat \<times> nat) set" where
  "touched fb damage = cells_in (rects_pixels damage \<inter> picture_pts fb)"

definition started :: "framebuffer \<Rightarrow> tightener \<Rightarrow> tightener" where
  "started fb t = (if (fb_width fb, fb_height fb) \<noteq> tg_size t then tightener_reset (fb_width fb, fb_height fb) t else t)"

lemma bounds_clip:
  assumes "fb_ok fb" "tg_ok t fb"
  shows "clip_ok fb t (rect_intersection r (fb_bounds fb)) (columns t (rect_intersection r (fb_bounds fb)))"
proof (cases "rect_is_empty (rect_intersection r (fb_bounds fb))")
  case True
  then show ?thesis using assms(1)
    by (auto simp: clip_ok_def columns_def rect_intersection_def rect_normalised_def rect_EMPTY_def fb_bounds_ok split: if_splits)
next
  case False
  note i = lies_in_clip [OF assms(1) False]
  show ?thesis using i columns_ok(2,3) [OF assms i] by (auto simp: clip_ok_def lies_in_def)
qed

lemma touched_clip:
  assumes "fb_ok fb" "tg_ok t fb" "(y, c) \<in> touched fb damage"
  defines "b \<equiv> rect_intersection (region_bounds damage) (fb_bounds fb)"
  shows "ry1 b \<le> int y \<and> int y < ry2 b \<and> c \<in> set (range_of (columns t b)) \<and> y < fb_height fb \<and> c < tg_cols t"
proof -
  obtain x where x: "(x, int y) \<in> rects_pixels damage" "(x, int y) \<in> picture_pts fb" "nat x div 64 = c"
    using assms(3) by (auto simp: touched_def cells_in_def)
  then have b: "(x, int y) \<in> rect_pixels b"
    using region_bounds_covers [of damage] by (auto simp: b_def picture_pts_def)
  then have "\<not> rect_is_empty b" by (auto simp: rect_is_empty_pixels)
  note i = lies_in_clip [OF assms(1) this [unfolded b_def], folded b_def]
  have c: "c \<in> set (range_of (columns t b))" using columns_ok(1) [OF assms(1,2) i] b x(3) by (auto simp: in_rect_pixels)
  then have "c < tg_cols t" using columns_ok(2) [OF assms(1,2) i] by (simp add: range_of_def)
  then show ?thesis using b i c by (auto simp: in_rect_pixels lies_in_def)
qed

lemma tighten_steps:
  assumes "fb_ok fb" "tg_ok (started fb t) fb" "tg_hashes (started fb t) \<noteq> []" "\<And>vs. set (ord vs) = set vs"
  obtains d ms t' where "tighten h ord fb damage [] t = Some (\<lparr>td_damage = fold (\<lambda>m d. region_remove d (dst m)) ms d, td_moves = ms\<rparr>, t')"
    "tg_ok t' fb" "tg_cols t' = tg_cols (started fb t)" "held fb (started fb t) t' ms" "region_wf d"
    "\<And>y c. y < fb_height fb \<Longrightarrow> c < tg_cols t' \<Longrightarrow>
       known t' y c = (if (y, c) \<in> touched fb damage then h (cell_bytes fb y c) else known (started fb t) y c)"
    "rects_pixels d = {(x, y) \<in> picture_pts fb. (nat y, nat x div 64) \<in> touched fb damage
       \<and> known (started fb t) (nat y) (nat x div 64) \<noteq> h (cell_bytes fb (nat y) (nat x div 64))}"
proof -
  define t1 where "t1 = started fb t"
  define b where "b = rect_intersection (region_bounds damage) (fb_bounds fb)"
  define span where "span = columns t1 b"
  define det where "det \<longleftrightarrow> rect_height b > MIN_RUN \<and> fst span < snd span"
  have ok1: "tg_ok t1 fb" using assms(2) by (simp add: t1_def)
  have cl1: "clip_ok fb t1 b span" unfolding b_def span_def by (rule bounds_clip [OF assms(1) ok1])
  define t3 where "t3 = (if det then t1\<lparr>tg_before := rows_before t1 b span\<rparr> else t1)"
  have s3: "(if det then snapshot b span t1 else Some t1) = Some t3"
    using snapshot_ok [OF assms(1) ok1 cl1] by (simp add: t3_def)
  have ok3: "tg_ok t3 fb" "known t3 = known t1" "tg_cols t3 = tg_cols t1" using ok1 by (simp_all add: t3_def tg_ok_def)
  obtain t4 where t4: "mark_rects h fb damage (clear_changed t3) = Some t4"
    "marked h fb (touched fb damage) (clear_changed t3) t4" "tg_cols t4 = tg_cols t1"
    using mark_rects_ok [OF assms(1) marked_start [OF ok3(1)], of h damage] ok3(3) by (auto simp: touched_def clear_changed_def)
  have ok4: "tg_ok t4 fb" "tg_before t4 = tg_before t3" using t4(2) by (simp_all add: marked_def clear_changed_def)
  have k4: "known t4 y c = (if (y, c) \<in> touched fb damage then h (cell_bytes fb y c) else known t1 y c)"
    "flagged t4 y c \<longleftrightarrow> (y, c) \<in> touched fb damage \<and> known t1 y c \<noteq> h (cell_bytes fb y c)"
    if "y < fb_height fb" "c < tg_cols t4" for y c
    using t4(2) that by (auto simp: marked_def ok3(2))
  have cl4: "clip_ok fb t4 b span" using cl1 t4(3) by (simp add: clip_ok_def)
  obtain ms where ms: "(if det then detect ord t4 b span else Some []) = Some ms" "held fb t1 t4 ms"
  proof (cases det)
    case True
    then have "tg_before t4 = rows_before t1 b span" using ok4(2) by (simp add: t3_def)
    from detect_ok [OF assms(1) ok4(1) cl4 this assms(4)] True that show thesis by auto
  qed (use that [of "[]"] in simp)
  obtain d where d: "tg_region t4 b span = Some d" "region_wf d"
    "rects_pixels d = {(x, y). ry1 b \<le> y \<and> y < ry2 b \<and> 0 \<le> x \<and> x < int (fb_width fb) \<and> nat x div 64 \<in> set (range_of span) \<and> flagged t4 (nat y) (nat x div 64)}"
    by (rule tg_region_ok [OF assms(1) ok4(1) cl4])
  have px: "(x, y) \<in> rects_pixels d \<longleftrightarrow> (x, y) \<in> picture_pts fb \<and> (nat y, nat x div 64) \<in> touched fb damage
       \<and> known t1 (nat y) (nat x div 64) \<noteq> h (cell_bytes fb (nat y) (nat x div 64))" (is "?L \<longleftrightarrow> ?R") for x y
  proof
    assume ?L
    then have L: "ry1 b \<le> y" "y < ry2 b" "0 \<le> x" "x < int (fb_width fb)" "nat x div 64 \<in> set (range_of span)" "flagged t4 (nat y) (nat x div 64)"
      unfolding d(3) by auto
    then have "0 \<le> y" "y < int (fb_height fb)" "nat x div 64 < tg_cols t4" using cl4 by (auto simp: clip_ok_def range_of_def)
    then show ?R using L k4(2) [of "nat y" "nat x div 64"] by (simp add: in_picture_pts [OF assms(1)] nat_less_iff)
  next
    assume R: ?R
    then have xy: "0 \<le> x" "x < int (fb_width fb)" "0 \<le> y" by (simp_all add: in_picture_pts [OF assms(1)])
    from R have "(nat y, nat x div 64) \<in> touched fb damage" by blast
    from touched_clip [OF assms(1) ok1 this] xy
    have "ry1 b \<le> y" "y < ry2 b" "nat x div 64 \<in> set (range_of span)" "nat y < fb_height fb" "nat x div 64 < tg_cols t4"
      by (simp_all add: b_def span_def t4(3))
    then show ?L unfolding d(3) using R xy k4(2) [of "nat y" "nat x div 64"] by simp
  qed
  have T0: "tighten h ord fb damage [] t = Option.bind (if det then snapshot b span t1 else Some t1) (\<lambda>t3.
      Option.bind (mark_rects h fb damage (clear_changed t3)) (\<lambda>t4.
      Option.bind (if det then detect ord t4 b span else Some []) (\<lambda>found.
      Option.bind (tg_region t4 b span) (\<lambda>d.
      Some (\<lparr>td_damage = fold (\<lambda>m d. region_remove d (dst m)) found d, td_moves = found\<rparr>, t4)))))"
    using assms(3) by (simp add: tighten_def started_def [symmetric] t1_def [symmetric] b_def [symmetric] span_def [symmetric]
        det_def [symmetric] clear_changed_def [symmetric] Let_def)
  have T: "tighten h ord fb damage [] t = Some (\<lparr>td_damage = fold (\<lambda>m d. region_remove d (dst m)) ms d, td_moves = ms\<rparr>, t4)"
    by (simp only: T0 s3 t4(1) ms(1) d(1) Option.bind.bind_lunit)
  show thesis
    by (rule that [OF T ok4(1) _ _ d(2)]) (use t4(3) ms(2) k4(1) px in \<open>auto simp: t1_def\<close>)
qed

section \<open>Pictures\<close>

definition px_of :: "framebuffer \<Rightarrow> bytes picture" where
  "px_of fb = (\<lambda>(x, y). fb_px fb (nat x) (nat y))"

lemma cell_bytes_px:
  assumes "fb_ok fb" "y < fb_height fb" "64 * c < fb_width fb"
  shows "cell_bytes fb y c = concat (map (\<lambda>i. fb_px fb (64 * c + i) y) [0 ..< min 64 (fb_width fb - 64 * c)])"
proof -
  have "64 * c + min 64 (fb_width fb - 64 * c) \<le> fb_width fb" using assms(3) by simp
  from row_span_ok [OF assms(1) this assms(2)] row_span_concat [OF assms(1) this assms(2)]
  show ?thesis by (simp add: cell_bytes_def)
qed

lemma cell_px:
  assumes "x < fb_width fb" shows "fb_px fb x y = take 4 (drop (x mod 64 * 4) (cell_bytes fb y (x div 64)))"
proof -
  have m: "x = 64 * (x div 64) + x mod 64" "x mod 64 < 64" by simp_all
  obtain c i where ci: "x = 64 * c + i" "i < 64" "c = x div 64" "i = x mod 64" using m by blast
  have "64 * c + i < fb_width fb" using assms ci(1) by simp
  then have "Suc i \<le> min 64 (fb_width fb - 64 * c)" using ci(2) by simp
  from mult_le_mono1 [OF this, of 4] have l: "i * 4 + 4 \<le> min 64 (fb_width fb - 64 * c) * 4"
    by (simp only: mult_Suc add.commute)
  show ?thesis
    unfolding cell_bytes_def ci(3,4) [symmetric] drop_take take_take using l
    by (simp add: fb_px_def ci(1) add_mult_distrib add.assoc add.commute add.left_commute)
qed

lemma same_cell_same_px:
  assumes "cell_bytes a y (x div 64) = cell_bytes b y' (x div 64)" "x < fb_width a" "fb_width b = fb_width a"
  shows "fb_px a x y = fb_px b x y'"
  using assms cell_px [of x a y] cell_px [of x b y'] by simp

lemma same_px_same_cell:
  assumes "fb_ok a" "fb_ok b" "fb_width b = fb_width a" "fb_height b = fb_height a" "y < fb_height a" "64 * c < fb_width a"
    "\<And>x. x < fb_width a \<Longrightarrow> x div 64 = c \<Longrightarrow> fb_px a x y = fb_px b x y"
  shows "cell_bytes a y c = cell_bytes b y c"
proof -
  have "fb_px a (64 * c + i) y = fb_px b (64 * c + i) y" if "i < min 64 (fb_width a - 64 * c)" for i
    using that assms(6) by (intro assms(7)) auto
  then have "map (\<lambda>i. fb_px a (64 * c + i) y) [0 ..< min 64 (fb_width a - 64 * c)] = map (\<lambda>i. fb_px b (64 * c + i) y) [0 ..< min 64 (fb_width a - 64 * c)]"
    by (intro map_cong refl) (simp only: set_upt atLeastLessThan_iff)
  moreover have "cell_bytes b y c = concat (map (\<lambda>i. fb_px b (64 * c + i) y) [0 ..< min 64 (fb_width a - 64 * c)])"
    using assms(3-6) cell_bytes_px [OF assms(2), of y c] by simp
  ultimately show ?thesis unfolding cell_bytes_px [OF assms(1,5,6)] by (simp only:)
qed

definition fb_cells :: "framebuffer \<Rightarrow> bytes set" where
  "fb_cells fb = {cell_bytes fb y c | y c. y < fb_height fb \<and> 64 * c < fb_width fb}"

text \<open>The hash tells the cells of a set apart, and none of them hashes to the mark of the unknown.\<close>

definition tells_apart :: "(bytes \<Rightarrow> u64) \<Rightarrow> bytes set \<Rightarrow> bool" where
  "tells_apart h A \<longleftrightarrow> inj_on h A \<and> UNKNOWN \<notin> h ` A"

text \<open>The tightener has a picture's hashes.\<close>

definition knows :: "(bytes \<Rightarrow> u64) \<Rightarrow> tightener \<Rightarrow> framebuffer \<Rightarrow> bool" where
  "knows h t fb \<longleftrightarrow> tg_ok t fb \<and> (\<forall>y<fb_height fb. \<forall>c<tg_cols t. known t y c = h (cell_bytes fb y c))"

text \<open>Outside a backend's damage nothing changed.\<close>

definition honest :: "framebuffer \<Rightarrow> framebuffer \<Rightarrow> region \<Rightarrow> bool" where
  "honest old new damage \<longleftrightarrow> (\<forall>pt\<in>picture_pts new. pt \<notin> rects_pixels damage \<longrightarrow> px_of new pt = px_of old pt)"

text \<open>What one pass promises of what it returns.\<close>

definition true_to :: "framebuffer \<Rightarrow> framebuffer \<Rightarrow> tightened \<Rightarrow> bool" where
  "true_to old new out \<longleftrightarrow> region_wf (td_damage out) \<and> (\<forall>m\<in>set (td_moves out). move_ok (picture_pts new) m)
    \<and> (\<forall>pt\<in>picture_pts new. pt \<notin> rects_pixels (td_damage out) \<longrightarrow> px_of new pt = replay (td_moves out) (px_of old) pt)"

definition cells_apart :: "framebuffer \<Rightarrow> framebuffer \<Rightarrow> (int \<times> int) set" where
  "cells_apart old new = {(x, y) \<in> picture_pts new. cell_bytes old (nat y) (nat x div 64) \<noteq> cell_bytes new (nat y) (nat x div 64)}"

lemma remove_dsts:
  assumes "region_wf d"
  shows "region_wf (fold (\<lambda>m d. region_remove d (dst m)) ms d)"
    and "rects_pixels (fold (\<lambda>m d. region_remove d (dst m)) ms d) = rects_pixels d - (\<Union>m\<in>set ms. rect_pixels (dst m))"
proof -
  have "region_wf (fold (\<lambda>m d. region_remove d (dst m)) ms d) \<and>
      rects_pixels (fold (\<lambda>m d. region_remove d (dst m)) ms d) = rects_pixels d - (\<Union>m\<in>set ms. rect_pixels (dst m))"
    using assms
  proof (induction ms arbitrary: d)
    case (Cons m ms)
    from Cons.IH [OF region_remove_wf [OF Cons.prems]] show ?case
      by (auto simp: region_remove_pixels [OF Cons.prems])
  qed simp
  then show "region_wf (fold (\<lambda>m d. region_remove d (dst m)) ms d)"
    "rects_pixels (fold (\<lambda>m d. region_remove d (dst m)) ms d) = rects_pixels d - (\<Union>m\<in>set ms. rect_pixels (dst m))" by blast+
qed

lemma started_knows: "knows h t old \<Longrightarrow> fb_width new = fb_width old \<Longrightarrow> fb_height new = fb_height old \<Longrightarrow> started new t = t \<and> tg_ok t new"
  by (simp add: knows_def started_def tg_ok_def)

lemma tighten_known:
  assumes "fb_ok old" "fb_ok new" "fb_width new = fb_width old" "fb_height new = fb_height old"
    "knows h t old" "tells_apart h (fb_cells old \<union> fb_cells new)" "honest old new damage" "\<And>vs. set (ord vs) = set vs"
  shows "\<exists>out t'. tighten h ord new damage [] t = Some (out, t') \<and> knows h t' new \<and> true_to old new out
    \<and> rects_pixels (td_damage out) = cells_apart old new - (\<Union>m\<in>set (td_moves out). rect_pixels (dst m))"
proof -
  have st: "started new t = t" "tg_ok t new" using started_knows [OF assms(5,3,4)] by simp_all
  have kn: "known t y c = h (cell_bytes old y c)" if "y < fb_height new" "c < tg_cols t" for y c
    using assms(4,5) that by (simp add: knows_def)
  show ?thesis
  proof (cases "tg_hashes t = []")
    case True
    then have e: "tg_cols t = 0 \<or> fb_height new = 0" using st(2) by (auto simp: tg_ok_def)
    have "fb_width new = 0 \<or> fb_height new = 0" using e st(2) div_ceil_64 [of 0 "fb_width new"] by (metis tg_ok_def mult_0_right neq0_conv)
    then have no: "picture_pts new = {}" by (auto simp: in_picture_pts [OF assms(2)])
    have "tighten h ord new damage [] t = Some (\<lparr>td_damage = region_new, td_moves = []\<rparr>, t)"
      using True st(1) by (simp add: tighten_def started_def [symmetric])
    moreover have "knows h t new" using e st(2) by (auto simp: knows_def)
    ultimately show ?thesis by (simp add: true_to_def cells_apart_def no)
  next
    case False
    obtain d ms t' where T: "tighten h ord new damage [] t = Some (\<lparr>td_damage = fold (\<lambda>m d. region_remove d (dst m)) ms d, td_moves = ms\<rparr>, t')"
      and t': "tg_ok t' new" "tg_cols t' = tg_cols t" "held new t t' ms" and d: "region_wf d"
      and k': "\<And>y c. y < fb_height new \<Longrightarrow> c < tg_cols t' \<Longrightarrow>
         known t' y c = (if (y, c) \<in> touched new damage then h (cell_bytes new y c) else known t y c)"
      and px: "rects_pixels d = {(x, y) \<in> picture_pts new. (nat y, nat x div 64) \<in> touched new damage
         \<and> known t (nat y) (nat x div 64) \<noteq> h (cell_bytes new (nat y) (nat x div 64))}"
      by (rule tighten_steps [of new t ord h damage, unfolded st(1), OF assms(2) st(2) False assms(8)]) (rule that)
    have in_pic: "nat y < fb_height new \<and> nat x < fb_width new \<and> nat x div 64 < tg_cols t \<and> 64 * (nat x div 64) < fb_width new \<and> 0 \<le> x \<and> 0 \<le> y"
      if "(x, y) \<in> picture_pts new" for x y
    proof -
      have xy: "0 \<le> x" "0 \<le> y" "nat x < fb_width new" "nat y < fb_height new"
        using that by (auto simp: in_picture_pts [OF assms(2)] nat_less_iff)
      moreover have "64 * (nat x div 64) < fb_width new" by (rule le_less_trans [OF times_div_less_eq_dividend xy(3)])
      ultimately show ?thesis using st(2) by (simp add: tg_ok_def div_ceil_64)
    qed
    have cold: "cell_bytes old y c \<in> fb_cells old \<union> fb_cells new" "cell_bytes new y c \<in> fb_cells old \<union> fb_cells new"
      if "y < fb_height new" "64 * c < fb_width new" for y c
      using that assms(3,4) by (auto simp: fb_cells_def)
    have inj: "h a = h b \<longleftrightarrow> a = b" if "a \<in> fb_cells old \<union> fb_cells new" "b \<in> fb_cells old \<union> fb_cells new" for a b
      using assms(6) that by (auto simp: tells_apart_def dest: inj_onD)
    have untouched: "cell_bytes old y c = cell_bytes new y c" if yc: "y < fb_height new" "64 * c < fb_width new" "(y, c) \<notin> touched new damage" for y c
    proof (rule same_px_same_cell [OF assms(1,2,3,4)])
      show "y < fb_height old" "64 * c < fb_width old" using yc assms(3,4) by simp_all
      fix x assume x: "x < fb_width old" "x div 64 = c"
      then have "(int x, int y) \<in> picture_pts new" using yc assms(3) by (simp add: in_picture_pts [OF assms(2)])
      moreover have "(int x, int y) \<notin> rects_pixels damage" using yc(3) x(2) calculation by (auto simp: touched_def cells_in_def)
      ultimately have "px_of new (int x, int y) = px_of old (int x, int y)" using assms(7) unfolding honest_def by blast
      then show "fb_px old x y = fb_px new x y" by (simp add: px_of_def)
    qed
    have dpx: "rects_pixels d = cells_apart old new"
    proof (intro set_eqI iffI; clarify)
      fix x y assume "(x, y) \<in> rects_pixels d"
      then have "(x, y) \<in> picture_pts new" "known t (nat y) (nat x div 64) \<noteq> h (cell_bytes new (nat y) (nat x div 64))" unfolding px by auto
      then show "(x, y) \<in> cells_apart old new" using in_pic [of x y] kn by (auto simp: cells_apart_def)
    next
      fix x y assume "(x, y) \<in> cells_apart old new"
      then have p: "(x, y) \<in> picture_pts new" "cell_bytes old (nat y) (nat x div 64) \<noteq> cell_bytes new (nat y) (nat x div 64)" by (auto simp: cells_apart_def)
      note i = in_pic [OF p(1)]
      have "(nat y, nat x div 64) \<in> touched new damage" using untouched p(2) i by blast
      moreover have "known t (nat y) (nat x div 64) \<noteq> h (cell_bytes new (nat y) (nat x div 64))"
        using kn i inj cold p(2) by metis
      ultimately show "(x, y) \<in> rects_pixels d" unfolding px using p(1) by simp
    qed
    have kn': "known t' y c = h (cell_bytes new y c)" if "y < fb_height new" "c < tg_cols t" for y c
    proof -
      have "64 * c < fb_width new" using that(2) st(2) by (simp add: tg_ok_def div_ceil_64)
      then show ?thesis using k' [of y c] t'(2) that untouched kn by auto
    qed
    then have "knows h t' new" using t'(1,2) by (simp add: knows_def)
    moreover have "true_to old new \<lparr>td_damage = fold (\<lambda>m d. region_remove d (dst m)) ms d, td_moves = ms\<rparr>"
      unfolding true_to_def tightened.simps
    proof (intro conjI ballI impI)
      have fr3: "free_copies ms" "sorted_wrt (\<lambda>c d. rect_pixels (dst c) \<inter> rect_pixels (dst d) = {}) ms" "\<forall>m\<in>set ms. move_ok (picture_pts new) m"
        using t'(3) unfolding held_def by blast+
      show "region_wf (fold (\<lambda>m d. region_remove d (dst m)) ms d)" by (rule remove_dsts(1) [OF d])
      show "move_ok (picture_pts new) m" if "m \<in> set ms" for m using t'(3) that by (simp add: held_def)
      fix pt assume pt: "pt \<in> picture_pts new" "pt \<notin> rects_pixels (fold (\<lambda>m d. region_remove d (dst m)) ms d)"
      obtain x y where xy: "pt = (x, y)" by (cases pt)
      note i = in_pic [OF pt(1) [unfolded xy]]
      note fr = t'(3) [unfolded held_def]
      show "px_of new pt = replay ms (px_of old) pt"
      proof (cases "\<exists>m\<in>set ms. pt \<in> rect_pixels (dst m)")
        case True
        then obtain m where m: "m \<in> set ms" "(x, y) \<in> rect_pixels (dst m)" using xy by blast
        let ?y = "y - ry1 (dst m) + src_y m"
        have s: "(x, ?y) \<in> picture_pts new" "src_x m = rx1 (dst m)"
          "known t' (nat y) (nat x div 64) = known t (nat ?y) (nat x div 64)" using fr m by blast+
        note i' = in_pic [OF s(1)]
        have "h (cell_bytes new (nat y) (nat x div 64)) = h (cell_bytes old (nat ?y) (nat x div 64))"
          using s(3) kn' kn i i' by metis
        then have "cell_bytes new (nat y) (nat x div 64) = cell_bytes old (nat ?y) (nat x div 64)"
          using inj cold i i' by metis
        then have "fb_px new (nat x) (nat y) = fb_px old (nat x) (nat ?y)" using same_cell_same_px i assms(3) by metis
        moreover have "replay ms (px_of old) pt = apply_move m (px_of old) pt" 
          using m unfolding xy by (intro replay_free(2) [OF fr3])
        ultimately show ?thesis using m(2) s(2) by (simp add: xy apply_move_def px_of_def)
      next
        case False
        then have "pt \<notin> cells_apart old new" using pt(2) by (auto simp: remove_dsts(2) [OF d] dpx)
        then have "cell_bytes old (nat y) (nat x div 64) = cell_bytes new (nat y) (nat x div 64)" using pt(1) by (simp add: cells_apart_def xy)
        then have "fb_px old (nat x) (nat y) = fb_px new (nat x) (nat y)" using same_cell_same_px i assms(3) by metis
        moreover have "replay ms (px_of old) pt = px_of old pt" 
          by (rule replay_free(1) [OF fr3]) (use False in blast)
        ultimately show ?thesis by (simp add: xy px_of_def)
      qed
    qed
    ultimately show ?thesis
      by (intro exI conjI) (rule T, assumption, assumption, simp only: tightened.simps remove_dsts(2) [OF d] dpx)
  qed
qed

section \<open>The first frame\<close>

lemma reset_ok:
  "tg_ok (tightener_reset (fb_width fb, fb_height fb) t) fb"
  "y < fb_height fb \<Longrightarrow> c < div_ceil (fb_width fb) 64 \<Longrightarrow> known (tightener_reset (fb_width fb, fb_height fb) t) y c = UNKNOWN"
  using cell_index [of y "fb_height fb" c "div_ceil (fb_width fb) 64"]
  by (auto simp: tightener_reset_def tg_ok_def known_def SEGMENT_def Let_def)

text \<open>A picture of a size the tightener does not know is reported whole, with no moves.\<close>

lemma tighten_first:
  assumes "fb_ok fb" "tg_size t \<noteq> (fb_width fb, fb_height fb)" "picture_pts fb \<subseteq> rects_pixels damage"
    "UNKNOWN \<notin> h ` fb_cells fb" "\<And>vs. set (ord vs) = set vs"
  shows "\<exists>d t'. tighten h ord fb damage [] t = Some (\<lparr>td_damage = d, td_moves = []\<rparr>, t') \<and> knows h t' fb
    \<and> region_wf d \<and> rects_pixels d = picture_pts fb"
proof -
  define t1 where "t1 = tightener_reset (fb_width fb, fb_height fb) t"
  have st: "started fb t = t1" using assms(2) by (simp add: started_def t1_def)
  have ok: "tg_ok t1 fb" unfolding t1_def by (rule reset_ok(1))
  have cols: "tg_cols t1 = div_ceil (fb_width fb) 64" using ok by (simp add: tg_ok_def)
  have un: "known t1 y c = UNKNOWN" if "y < fb_height fb" "c < tg_cols t1" for y c
  proof -
    have "c < div_ceil (fb_width fb) 64" using that(2) cols by simp
    then show ?thesis unfolding t1_def by (rule reset_ok(2) [OF that(1)])
  qed
  have cell: "h (cell_bytes fb y c) \<noteq> UNKNOWN" if "y < fb_height fb" "c < tg_cols t1" for y c
  proof -
    have "cell_bytes fb y c \<in> fb_cells fb" using that unfolding cols div_ceil_64 fb_cells_def by blast
    then show ?thesis using assms(4) by (metis imageI)
  qed
  show ?thesis
  proof (cases "tg_hashes t1 = []")
    case True
    then have e: "tg_cols t1 = 0 \<or> fb_height fb = 0" using ok by (auto simp: tg_ok_def)
    have "fb_width fb = 0 \<or> fb_height fb = 0" using e cols div_ceil_64 [of 0 "fb_width fb"] by (metis mult_0_right neq0_conv)
    then have no: "picture_pts fb = {}" by (auto simp: in_picture_pts [OF assms(1)])
    have "tighten h ord fb damage [] t = Some (\<lparr>td_damage = region_new, td_moves = []\<rparr>, t1)"
      using True st by (simp add: tighten_def started_def [symmetric])
    moreover have "knows h t1 fb" using e ok by (auto simp: knows_def)
    ultimately show ?thesis by (auto simp: no)
  next
    case False
    obtain d ms t' where T: "tighten h ord fb damage [] t = Some (\<lparr>td_damage = fold (\<lambda>m d. region_remove d (dst m)) ms d, td_moves = ms\<rparr>, t')"
      and t': "tg_ok t' fb" "tg_cols t' = tg_cols t1" "held fb t1 t' ms" and d: "region_wf d"
      and k': "\<And>y c. y < fb_height fb \<Longrightarrow> c < tg_cols t' \<Longrightarrow>
         known t' y c = (if (y, c) \<in> touched fb damage then h (cell_bytes fb y c) else known t1 y c)"
      and px: "rects_pixels d = {(x, y) \<in> picture_pts fb. (nat y, nat x div 64) \<in> touched fb damage
         \<and> known t1 (nat y) (nat x div 64) \<noteq> h (cell_bytes fb (nat y) (nat x div 64))}"
      by (rule tighten_steps [of fb t ord h damage, unfolded st, OF assms(1) ok False assms(5)]) (rule that)
    have touch: "(y, c) \<in> touched fb damage" if "y < fb_height fb" "c < tg_cols t1" for y c
    proof -
      have "64 * c < fb_width fb" using that(2) unfolding cols div_ceil_64 .
      then have "(int (64 * c), int y) \<in> picture_pts fb" using that(1) by (simp add: in_picture_pts [OF assms(1)])
      then show ?thesis using assms(3) by (auto simp: touched_def cells_in_def intro!: exI [of _ "int (64 * c)"])
    qed
    have in_pic: "0 \<le> y \<and> nat y < fb_height fb \<and> nat x div 64 < tg_cols t1" if "(x, y) \<in> picture_pts fb" for x y
    proof -
      have xy: "0 \<le> y" "nat x < fb_width fb" "nat y < fb_height fb"
        using that by (auto simp: in_picture_pts [OF assms(1)] nat_less_iff)
      moreover have "64 * (nat x div 64) < fb_width fb" by (rule le_less_trans [OF times_div_less_eq_dividend xy(2)])
      ultimately show ?thesis by (simp add: cols div_ceil_64)
    qed
    have kn': "known t' y c = h (cell_bytes fb y c)" if "y < fb_height fb" "c < tg_cols t1" for y c
      using k' [of y c] touch that t'(2) by simp
    have none: "ms = []"
    proof (rule ccontr)
      assume "ms \<noteq> []"
      then obtain m where m: "m \<in> set ms" by (cases ms) auto
      obtain x y where xy: "(x, y) \<in> rect_pixels (dst m)" using t'(3) m by (fastforce simp: held_def)
      let ?y = "y - ry1 (dst m) + src_y m"
      have s: "(x, y) \<in> picture_pts fb" "(x, ?y) \<in> picture_pts fb" "known t' (nat y) (nat x div 64) = known t1 (nat ?y) (nat x div 64)"
        using t'(3) m xy unfolding held_def by blast+
      have "h (cell_bytes fb (nat y) (nat x div 64)) = UNKNOWN"
        using s(3) kn' [of "nat y" "nat x div 64"] un [of "nat ?y" "nat x div 64"] in_pic [OF s(1)] in_pic [OF s(2)] by simp
      then show False using cell in_pic [OF s(1)] by blast
    qed
    have "rects_pixels d = picture_pts fb"
    proof (intro set_eqI iffI; clarify)
      fix x y assume "(x, y) \<in> rects_pixels d" then show "(x, y) \<in> picture_pts fb" unfolding px by auto
    next
      fix x y assume p: "(x, y) \<in> picture_pts fb"
      note i = in_pic [OF p]
      have "known t1 (nat y) (nat x div 64) \<noteq> h (cell_bytes fb (nat y) (nat x div 64))" using un cell i by metis
      then show "(x, y) \<in> rects_pixels d" unfolding px using p touch i by auto
    qed
    moreover have "knows h t' fb" using t'(1,2) kn' by (simp add: knows_def)
    ultimately show ?thesis using T d none by auto
  qed
qed

section \<open>Two pictures\<close>

text \<open>A line of four points: its second and third were drawn over with its first two, then its last two
  painted.\<close>

definition line_old :: framebuffer where
  "line_old = \<lparr>fb_width = 4, fb_height = 1, fb_data = [1, 1, 1, 0, 2, 2, 2, 0, 3, 3, 3, 0, 4, 4, 4, 0]\<rparr>"

definition line_new :: framebuffer where
  "line_new = \<lparr>fb_width = 4, fb_height = 1, fb_data = [1, 1, 1, 0, 1, 1, 1, 0, 9, 9, 9, 0, 9, 9, 9, 0]\<rparr>"

definition line_move :: move where
  "line_move = \<lparr>src_x = 0, src_y = 0, dst = rect_new 1 0 2 1\<rparr>"

definition line_damage :: region where
  "line_damage = region_from_rect (rect_new 1 0 3 1)"

definition line_known :: "(bytes \<Rightarrow> u64) \<Rightarrow> tightener" where
  "line_known h = \<lparr>tg_size = (4, 1), tg_cols = 1, tg_hashes = [h (cell_bytes line_old 0 0)], tg_changed = [0], tg_before = []\<rparr>"

text \<open>A column of sixteen points, scrolled up by four with four new ones below.\<close>

definition column :: "nat \<Rightarrow> framebuffer" where
  "column n = \<lparr>fb_width = 1, fb_height = 16, fb_data = concat (map (\<lambda>i. [of_nat (n + i), 0, 0, 0]) [0 ..< 16])\<rparr>"

definition column_known :: "nat \<Rightarrow> tightener" where
  "column_known n = \<lparr>tg_size = (1, 16), tg_cols = 1, tg_hashes = map (\<lambda>i. of_nat (n + i)) [0 ..< 16], tg_changed = [0], tg_before = []\<rparr>"

definition head_hash :: "bytes \<Rightarrow> u64" where
  "head_hash bs = ucast (hd bs)"

definition column_told :: tightened where
  "column_told = \<lparr>td_damage = [mk_rect 0 12 1 16], td_moves = [\<lparr>src_x = 0, src_y = 4, dst = mk_rect 0 0 1 12\<rparr>]\<rparr>"

lemma column_cell:
  assumes "n \<in> {1, 5}" "y < 16" shows "cell_bytes (column n) y 0 = [of_nat (n + y), 0, 0, 0]"
proof -
  have "list_all (\<lambda>y. cell_bytes (column 1) y 0 = [of_nat (1 + y), 0, 0, 0] \<and> cell_bytes (column 5) y 0 = [of_nat (5 + y), 0, 0, 0]) [0 ..< 16]"
    by code_simp
  then show ?thesis using assms by (auto simp: list_all_iff)
qed

lemma column_facts:
  "fb_ok (column n)" "fb_width (column n) = 1" "fb_height (column n) = 16"
  "n \<in> {1, 5} \<Longrightarrow> knows head_hash (column_known n) (column n)"
  "tells_apart head_hash (fb_cells (column 1) \<union> fb_cells (column 5))"
  "honest (column 1) (column 5) [mk_rect 0 0 1 16]"
  "map_option fst (tighten head_hash id (column 5) [mk_rect 0 0 1 16] [] (column_known 1)) = Some column_told"
proof -
  show ok: "fb_ok (column n)" "fb_width (column n) = 1" "fb_height (column n) = 16" for n
    by (simp_all add: fb_ok_def column_def length_concat comp_def sum_list_triv)
  show "knows head_hash (column_known n) (column n)" if "n \<in> {1, 5}"
  proof -
    have "known (column_known n) y 0 = of_nat (n + y)" if "y < 16" for y
      using that by (simp add: known_def column_known_def)
    moreover have "head_hash (cell_bytes (column n) y 0) = of_nat (n + y)" if "y < 16" for y
    proof -
      have "list_all (\<lambda>y. head_hash (cell_bytes (column 1) y 0) = of_nat (1 + y) \<and> head_hash (cell_bytes (column 5) y 0) = of_nat (5 + y)) [0 ..< 16]"
        by code_simp
      then show ?thesis using that \<open>n \<in> {1, 5}\<close> by (auto simp: list_all_iff)
    qed
    ultimately show ?thesis
      by (simp add: knows_def tg_ok_def ok column_known_def div_ceil_def less_Suc_eq)
  qed
  have "fb_cells (column n) = {[of_nat (n + y), 0, 0, 0] | y. y < 16}" if "n \<in> {1, 5}" for n
    using column_cell [OF that] by (force simp: fb_cells_def ok)
  then have "fb_cells (column 1) \<union> fb_cells (column 5) = {[of_nat (1 + y), 0, 0, 0] | y. y < 16} \<union> {[of_nat (5 + y), 0, 0, 0] | y. y < 16}"
    by simp
  moreover have "[of_nat (n + y), 0, 0, 0] \<in> set (map (\<lambda>i. [of_nat i, 0, 0, 0]) [1 ..< 21])" if "1 \<le> n" "n \<le> 5" "y < 16" for n y :: nat
    unfolding set_map using that by (intro image_eqI [of _ _ "n + y"]) simp_all
  ultimately have "fb_cells (column 1) \<union> fb_cells (column 5) \<subseteq> set (map (\<lambda>i. [of_nat i, 0, 0, 0]) [1 ..< 21])"
    by force
  moreover have "inj_on head_hash (set (map (\<lambda>i. [of_nat i, 0, 0, 0]) [1 ..< 21]))"
  proof -
    have "distinct (map head_hash (map (\<lambda>i. [of_nat i, 0, 0, 0]) [1 ..< 21]))" by code_simp
    then show ?thesis by (simp only: distinct_map)
  qed
  moreover have "UNKNOWN \<notin> head_hash ` set (map (\<lambda>i. [of_nat i, 0, 0, 0]) [1 ..< 21])" by code_simp
  ultimately show "tells_apart head_hash (fb_cells (column 1) \<union> fb_cells (column 5))"
    unfolding tells_apart_def by (meson image_mono inj_on_subset subsetD)
  show "honest (column 1) (column 5) [mk_rect 0 0 1 16]"
    by (auto simp: honest_def in_picture_pts [OF ok(1)] ok in_rect_pixels)
  show "map_option fst (tighten head_hash id (column 5) [mk_rect 0 0 1 16] [] (column_known 1)) = Some column_told"
    by code_simp
qed

section \<open>The properties\<close>

text \<open>C8. The pass narrows damage to exactly the cells whose bytes changed, less what it reports as moved,
  and what it reports is enough: it never panics, afterwards it has the new picture's hashes, its moves
  lie in the picture, and outside its damage the new picture is the old one with its moves made in
  order. Whatever the votes elect, in whatever order the map of votes is walked.\<close>

theorem pass_reports_the_change:
  assumes "fb_ok old" "fb_ok new" "fb_width new = fb_width old" "fb_height new = fb_height old"
    "knows h t old" "tells_apart h (fb_cells old \<union> fb_cells new)" "honest old new damage" "\<And>vs. set (ord vs) = set vs"
  shows "\<exists>out t'. tighten h ord new damage [] t = Some (out, t') \<and> knows h t' new \<and> true_to old new out
    \<and> rects_pixels (td_damage out) = cells_apart old new - (\<Union>m\<in>set (td_moves out). rect_pixels (dst m))"
  by (rule tighten_known [OF assms])

theorem pass_reports_the_change_witness:
  "true_to (column 1) (column 5) column_told"
proof -
  have "fb_width (column 5) = fb_width (column 1)" "fb_height (column 5) = fb_height (column 1)" by (simp_all add: column_facts)
  from pass_reports_the_change [OF column_facts(1) column_facts(1) this column_facts(4-6), of id] column_facts(7)
  show ?thesis by auto
qed

text \<open>C21. With a move the backend reports, damage is lost: the pass hashes the whole cells under the
  destination before it compares, so that what changed beside the destination in the same cell is no
  longer seen, and what was painted over the destination after the move is taken out of the damage. On
  the line both happen: the two last points are neither damage nor what the move made of them, whatever
  the hash.\<close>

theorem reported_move_loses_damage:
  "knows h (line_known h) line_old \<and> honest line_old line_new line_damage
    \<and> map_option fst (tighten h ord line_new line_damage [line_move] (line_known h)) = Some \<lparr>td_damage = [], td_moves = [line_move]\<rparr>
    \<and> px_of line_new (2, 0) \<noteq> replay [line_move] (px_of line_old) (2, 0)
    \<and> px_of line_new (3, 0) \<noteq> replay [line_move] (px_of line_old) (3, 0)"
proof (intro conjI)
  show "knows h (line_known h) line_old"
    by (simp add: knows_def tg_ok_def line_known_def line_old_def div_ceil_def known_def less_Suc_eq)
  have ok: "fb_ok line_new" by (simp add: fb_ok_def line_new_def)
  have sz: "fb_width line_new = 4" "fb_height line_new = 1" by (simp_all add: line_new_def)
  have "x = 0" if "(x, y) \<in> picture_pts line_new" "(x, y) \<notin> rects_pixels line_damage" for x y
    using that by (auto simp: in_picture_pts [OF ok] sz line_damage_def in_rect_pixels rect_new_def i32_small)
  moreover have "y = 0" if "(x, y) \<in> picture_pts line_new" for x y
    using that by (auto simp: in_picture_pts [OF ok] sz)
  moreover have "px_of line_new (0, 0) = px_of line_old (0, 0)" by code_simp
  ultimately have "px_of line_new (x, y) = px_of line_old (x, y)"
    if "(x, y) \<in> picture_pts line_new" "(x, y) \<notin> rects_pixels line_damage" for x y
    using that by metis
  then show "honest line_old line_new line_damage" unfolding honest_def by (metis surj_pair)
  show "map_option fst (tighten h ord line_new line_damage [line_move] (line_known h)) = Some \<lparr>td_damage = [], td_moves = [line_move]\<rparr>"
    by code_simp
  have "replay [line_move] (px_of line_old) (2, 0) = px_of line_old (1, 0)" "replay [line_move] (px_of line_old) (3, 0) = px_of line_old (3, 0)"
    by (simp_all add: replay_def apply_move_def in_rect_pixels line_move_def rect_new_def i32_small)
  moreover have "px_of line_new (2, 0) \<noteq> px_of line_old (1, 0)" "px_of line_new (3, 0) \<noteq> px_of line_old (3, 0)" by code_simp+
  ultimately show "px_of line_new (2, 0) \<noteq> replay [line_move] (px_of line_old) (2, 0)" "px_of line_new (3, 0) \<noteq> replay [line_move] (px_of line_old) (3, 0)"
    by simp_all
qed

end
