(* ===== verification/Capture_Laws.thy ===== *)
theory Capture_Laws
  imports Capture Compare_Laws Session_Update_Laws
begin

text \<open>
  The capture thread between a backend and the sessions: when the backend tells the truth about its
  frame, the event a turn sends is true, and what every session owes its client is right again once it
  has absorbed it.
\<close>

text \<open>What a backend's frame promises: nothing changed outside its damage, a new size is announced, and a
  picture the thread has not seen is damaged whole. Moves are the scroll detector's here.\<close>

definition frame_true :: "tightener \<Rightarrow> framebuffer \<Rightarrow> framebuffer \<Rightarrow> frame \<Rightarrow> bool" where
  "frame_true tg old new f \<longleftrightarrow> fb_ok new \<and> fm_moves f = []
    \<and> (fm_resized f \<longleftrightarrow> (fb_width new, fb_height new) \<noteq> (fb_width old, fb_height old))
    \<and> (if tg_size tg = (fb_width new, fb_height new) then honest old new (fm_damage f)
       else picture_pts new \<subseteq> rects_pixels (fm_damage f))"

definition thread_ok :: "(bytes \<Rightarrow> u64) \<Rightarrow> 'c capture_thread \<times> shared \<Rightarrow> bool" where
  "thread_ok h = (\<lambda>(t, sh). fb_ok (sh_fb sh)
    \<and> (tg_size (ct_tightener t) = (fb_width (sh_fb sh), fb_height (sh_fb sh)) \<longrightarrow> knows h (ct_tightener t) (sh_fb sh))
    \<and> (tg_size (ct_tightener t) = (fb_width (sh_fb sh), fb_height (sh_fb sh)) \<or> ct_tightener t = tightener_new))"

lemma picture_of_pts: "picture_of sh = picture_pts (sh_fb sh)"
  by (simp add: picture_of_def picture_pts_def session_bounds_def)

lemma knows_size: "knows h t fb \<Longrightarrow> tg_size t = (fb_width fb, fb_height fb)"
  by (simp add: knows_def tg_ok_def)

text \<open>The pass on a true frame.\<close>

lemma tighten_true:
  assumes "thread_ok h (t, sh)" "frame_true (ct_tightener t) (sh_fb sh) new f"
    "tells_apart h (fb_cells (sh_fb sh) \<union> fb_cells new)" "\<And>vs. set (ord vs) = set vs"
  shows "\<exists>out tg. tighten h ord new (fm_damage f) (fm_moves f) (ct_tightener t) = Some (out, tg) \<and> knows h tg new
    \<and> region_wf (td_damage out) \<and> (\<forall>m\<in>set (td_moves out). move_ok (picture_pts new) m)
    \<and> (\<not> fm_resized f \<longrightarrow> (\<forall>pt\<in>picture_pts new. pt \<notin> rects_pixels (td_damage out) \<longrightarrow> px_of new pt = replay (td_moves out) (px_of (sh_fb sh)) pt))
    \<and> (fm_resized f \<longrightarrow> td_moves out = [])"
proof -
  have f: "fb_ok new" "fm_moves f = []" "fm_resized f \<longleftrightarrow> (fb_width new, fb_height new) \<noteq> (fb_width (sh_fb sh), fb_height (sh_fb sh))"
    using assms(2) by (auto simp: frame_true_def)
  have un: "UNKNOWN \<notin> h ` fb_cells new" using assms(3) by (auto simp: tells_apart_def)
  show ?thesis
  proof (cases "tg_size (ct_tightener t) = (fb_width new, fb_height new)")
    case False
    then have "picture_pts new \<subseteq> rects_pixels (fm_damage f)" using assms(2) by (simp add: frame_true_def)
    from tighten_first [OF f(1) False this un assms(4)] obtain d tg where
      "tighten h ord new (fm_damage f) [] (ct_tightener t) = Some (\<lparr>td_damage = d, td_moves = []\<rparr>, tg)" "knows h tg new" "region_wf d"
      "rects_pixels d = picture_pts new" by blast
    then show ?thesis by (auto simp: f(2))
  next
    case True
    then have hon: "honest (sh_fb sh) new (fm_damage f)" using assms(2) by (simp add: frame_true_def)
    show ?thesis
    proof (cases "tg_size (ct_tightener t) = (fb_width (sh_fb sh), fb_height (sh_fb sh))")
      case same: True
      have k: "knows h (ct_tightener t) (sh_fb sh)" "fb_ok (sh_fb sh)" using assms(1) same by (simp_all add: thread_ok_def)
      have wh: "fb_width new = fb_width (sh_fb sh)" "fb_height new = fb_height (sh_fb sh)" using True same by simp_all
      from tighten_known [OF k(2) f(1) wh k(1) assms(3) hon assms(4)] obtain out tg where
        "tighten h ord new (fm_damage f) [] (ct_tightener t) = Some (out, tg)" "knows h tg new" "true_to (sh_fb sh) new out" by blast
      moreover have "\<not> fm_resized f" using f(3) wh by simp
      ultimately show ?thesis by (auto simp: f(2) true_to_def)
    next
      case False
      then have n: "ct_tightener t = tightener_new" using assms(1) by (simp add: thread_ok_def)
      then have z: "fb_width new = 0" "fb_height new = 0" using True by (simp_all add: tightener_new_def)
      have "tighten h ord new (fm_damage f) [] (ct_tightener t) = Some (\<lparr>td_damage = region_new, td_moves = []\<rparr>, tightener_new)"
        using z by (simp add: tighten_def n tightener_new_def)
      moreover have "knows h tightener_new new" using z by (simp add: knows_def tg_ok_def tightener_new_def div_ceil_def)
      moreover have "picture_pts new = {}" using z by (auto simp: in_picture_pts [OF f(1)])
      ultimately show ?thesis by (auto simp: f(2))
    qed
  qed
qed

lemma send_frame_parts:
  obtains t' sh' ev where "send_frame bk now f (t, sh) = ((t', sh'), ev)" "sh_fb sh' = sh_fb sh" "ct_tightener t' = ct_tightener t \<and> ct_backend t' = ct_backend t"
    "ev = None \<longleftrightarrow> frame_is_empty f"
    "\<And>e. ev = Some e \<Longrightarrow> fe_damage e = fm_damage f \<and> fe_moves e = fm_moves f \<and> fe_resized e = fm_resized f"
  by (cases "send_frame bk now f (t, sh)"; cases "fst (send_frame bk now f (t, sh))")
    (auto simp: send_frame_def Let_def split: if_splits option.splits)

text \<open>The event is true, and no event means nothing changed.\<close>

lemma capture_turn_true:
  assumes "thread_ok h (t, sh)" "bk_wait bk (ct_backend t) = (Inr True, be)" "bk_apply bk (sh_fb sh) be = (Inr f, new, be')"
    "frame_true (ct_tightener t) (sh_fb sh) new f" "tells_apart h (fb_cells (sh_fb sh) \<union> fb_cells new)" "\<And>vs. set (ord vs) = set vs"
  obtains t' sh' ev where "capture_turn h ord bk copied us logged now (t, sh) = Some ((t', sh'), ev)" "sh_fb sh' = new"
    "knows h (ct_tightener t') new \<and> ct_backend t' = be'"
    "case ev of Some e \<Rightarrow> event_ok sh' e (px_of (sh_fb sh)) (px_of new) \<and> fe_resized e = fm_resized f
      | None \<Rightarrow> \<not> fm_resized f \<and> (\<forall>pt\<in>picture_pts new. px_of new pt = px_of (sh_fb sh) pt)"
proof -
  obtain out tg where out: "tighten h ord new (fm_damage f) (fm_moves f) (ct_tightener t) = Some (out, tg)" "knows h tg new"
    "region_wf (td_damage out)" "\<forall>m\<in>set (td_moves out). move_ok (picture_pts new) m"
    "\<not> fm_resized f \<Longrightarrow> \<forall>pt\<in>picture_pts new. pt \<notin> rects_pixels (td_damage out) \<longrightarrow> px_of new pt = replay (td_moves out) (px_of (sh_fb sh)) pt"
    "fm_resized f \<Longrightarrow> td_moves out = []"
    using tighten_true [OF assms(1,4,5,6)] by blast
  have fb: "sh_fb (desk_copied copied sh) = sh_fb sh" by (simp add: desk_copied_def split: option.split)
  let ?f = "f\<lparr>fm_damage := td_damage out, fm_moves := td_moves out\<rparr>"
  obtain t2 sh2 where mid: "after_pass (region_area (fm_damage f)) out us logged
      (t\<lparr>ct_backend := be', ct_tightener := tg\<rparr>, (desk_copied copied sh)\<lparr>sh_fb := new\<rparr>) = (t2, sh2)"
    "sh_fb sh2 = new" "ct_tightener t2 = tg \<and> ct_backend t2 = be'" by (simp add: after_pass_def Let_def)
  obtain t' sh' ev where s: "send_frame bk now ?f (t2, sh2) = ((t', sh'), ev)" "sh_fb sh' = sh_fb sh2" "ct_tightener t' = ct_tightener t2 \<and> ct_backend t' = ct_backend t2"
    "ev = None \<longleftrightarrow> frame_is_empty ?f" "\<And>e. ev = Some e \<Longrightarrow> fe_damage e = fm_damage ?f \<and> fe_moves e = fm_moves ?f \<and> fe_resized e = fm_resized ?f"
    by (rule send_frame_parts [of bk now ?f t2 sh2]) (rule that)
  have T: "capture_turn h ord bk copied us logged now (t, sh) = Some ((t', sh'), ev)"
    using s(1) by (simp add: capture_turn_def assms(2,3) out(1) fb mid(1))
  have "case ev of Some e \<Rightarrow> event_ok sh' e (px_of (sh_fb sh)) (px_of new) \<and> fe_resized e = fm_resized f
      | None \<Rightarrow> \<not> fm_resized f \<and> (\<forall>pt\<in>picture_pts new. px_of new pt = px_of (sh_fb sh) pt)"
  proof (cases ev)
    case None
    then have "region_is_empty (td_damage out)" "td_moves out = []" "\<not> fm_resized f" using s(4) by (simp_all add: frame_is_empty_def)
    then show ?thesis using None out(5) region_is_empty_pixels [OF out(3)] by (auto simp: replay_def)
  next
    case (Some e)
    then show ?thesis using s(2) s(5) [OF Some] mid(2) out(3-6) by (simp add: event_ok_def picture_of_pts)
  qed
  then show thesis using that T s(2,3) mid(2,3) out(2) by simp
qed

text \<open>Every session that was right about the old picture is right about the new one once it has the event.\<close>

lemma turn_reaches:
  assumes "thread_ok h (t, sh)" "bk_wait bk (ct_backend t) = (Inr True, be)" "bk_apply bk (sh_fb sh) be = (Inr f, new, be')"
    "frame_true (ct_tightener t) (sh_fb sh) new f" "tells_apart h (fb_cells (sh_fb sh) \<union> fb_cells new)"
    "\<And>vs. set (ord vs) = set vs" "view sh s cl (px_of (sh_fb sh))"
  shows "\<exists>t' sh' ev. capture_turn h ord bk copied us logged now (t, sh) = Some ((t', sh'), ev) \<and> sh_fb sh' = new
    \<and> knows h (ct_tightener t') new \<and> ct_backend t' = be' \<and> thread_ok h (t', sh') \<and> view sh' (case ev of Some e \<Rightarrow> absorb e sh' s | None \<Rightarrow> s) cl (px_of new)"
proof -
  obtain t' sh' ev where T: "capture_turn h ord bk copied us logged now (t, sh) = Some ((t', sh'), ev)" "sh_fb sh' = new"
    "knows h (ct_tightener t') new \<and> ct_backend t' = be'"
    "case ev of Some e \<Rightarrow> event_ok sh' e (px_of (sh_fb sh)) (px_of new) \<and> fe_resized e = fm_resized f
      | None \<Rightarrow> \<not> fm_resized f \<and> (\<forall>pt\<in>picture_pts new. px_of new pt = px_of (sh_fb sh) pt)"
    by (rule capture_turn_true [OF assms(1-6)]) (rule that)
  have f: "fb_ok (sh_fb sh)" "fb_ok new" "\<not> fm_resized f \<Longrightarrow> fb_width new = fb_width (sh_fb sh) \<and> fb_height new = fb_height (sh_fb sh)"
    using assms(1,4) by (auto simp: thread_ok_def frame_true_def)
  have same: "view sh' s cl (px_of (sh_fb sh))" if "\<not> fm_resized f"
  proof -
    have "picture_pts new = picture_pts (sh_fb sh)"
      using f(3) [OF that] by (auto simp: in_picture_pts [OF f(1)] in_picture_pts [OF f(2)])
    then show ?thesis using assms(7) by (simp add: view_def picture_of_pts T(2))
  qed
  have "view sh' (case ev of Some e \<Rightarrow> absorb e sh' s | None \<Rightarrow> s) cl (px_of new)"
  proof (cases ev)
    case None
    then have "\<not> fm_resized f" "\<forall>pt\<in>picture_pts new. px_of new pt = px_of (sh_fb sh) pt" using T(4) by simp_all
    then show ?thesis using same None by (auto simp: view_def owed_def picture_of_pts T(2))
  next
    case (Some e)
    then have "event_ok sh' e (px_of (sh_fb sh)) (px_of new)" "fe_resized e = fm_resized f" using T(4) by simp_all
    then show ?thesis using same Some by (auto intro: absorb_event_view)
  qed
  moreover have "thread_ok h (t', sh')" using T(2,3) f(2) knows_size [OF conjunct1 [OF T(3)]] by (simp add: thread_ok_def)
  ultimately show ?thesis using T(1-3) by blast
qed

section \<open>The property\<close>

text \<open>A picture of one point, and a backend that paints it another colour.\<close>

definition point :: "u8 \<Rightarrow> framebuffer" where
  "point v = \<lparr>fb_width = 1, fb_height = 1, fb_data = [v, 0, 0, 0]\<rparr>"

definition point_frame :: frame where
  "point_frame = \<lparr>fm_damage = [mk_rect 0 0 1 1], fm_moves = [], fm_cursor = None, fm_resized = False\<rparr>"

definition point_backend :: "unit backend" where
  "point_backend = \<lparr>bk_wait = \<lambda>c. (Inr True, c), bk_apply = \<lambda>fb c. (Inr point_frame, point 2, c), bk_screens = \<lambda>c. []\<rparr>"

definition point_thread :: "unit capture_thread" where
  "point_thread = \<lparr>ct_backend = (), ct_tightener = \<lparr>tg_size = (1, 1), tg_cols = 1, tg_hashes = [1], tg_changed = [0], tg_before = []\<rparr>,
     ct_totals = totals_new, ct_totals_at = 0\<rparr>"

definition point_shared :: shared where
  "point_shared = (shared_new [] 1 1)\<lparr>sh_fb := point 1\<rparr>"

lemma point_facts:
  "thread_ok head_hash (point_thread, point_shared)" "frame_true (ct_tightener point_thread) (point 1) (point 2) point_frame"
  "tells_apart head_hash (fb_cells (point 1) \<union> fb_cells (point 2))" "sh_fb point_shared = point 1"
  "view point_shared dot_session cl (px_of (point 1))"
proof -
  have p: "fb_ok (point v)" "fb_width (point v) = 1" "fb_height (point v) = 1" for v by (simp_all add: point_def fb_ok_def)
  have c: "cell_bytes (point v) 0 0 = [v, 0, 0, 0]" for v by (simp add: cell_bytes_def point_def)
  have pts: "picture_pts (point v) = {(0, 0)}" for v
    by (auto simp: in_picture_pts [OF p(1)] p)
  show fb: "sh_fb point_shared = point 1" by (simp add: point_shared_def)
  show "thread_ok head_hash (point_thread, point_shared)"
    by (simp add: thread_ok_def fb p knows_def tg_ok_def point_thread_def div_ceil_def known_def c head_hash_def)
  show "frame_true (ct_tightener point_thread) (point 1) (point 2) point_frame"
    by (simp add: frame_true_def p point_frame_def point_thread_def honest_def pts in_rect_pixels)
  have "fb_cells (point v) = {[v, 0, 0, 0]}" for v using c [of v] by (auto simp: fb_cells_def p)
  then show "tells_apart head_hash (fb_cells (point 1) \<union> fb_cells (point 2))"
    by (simp add: tells_apart_def head_hash_def UNKNOWN_def)
  have "region_wf [mk_rect 0 0 1 1]" by code_simp
  then show "view point_shared dot_session cl (px_of (point 1))"
    using pts [of 1] by (auto simp: view_def picture_of_pts fb dot_rect_def rect_new_def i32_small in_rect_pixels intro!: owed_all)
qed

text \<open>C2. From the backend to a client: on a frame that reports no move and whose backend tells the truth, a turn
  of the capture thread does not panic, keeps what the comparing pass knows, and every session that was right about the
  old picture is right about the new one after it absorbed the event that was sent, or at once where none
  was sent.\<close>

theorem frame_reaches_sessions:
  assumes "thread_ok h (t, sh)" "bk_wait bk (ct_backend t) = (Inr True, be)" "bk_apply bk (sh_fb sh) be = (Inr f, new, be')"
    "frame_true (ct_tightener t) (sh_fb sh) new f" "tells_apart h (fb_cells (sh_fb sh) \<union> fb_cells new)"
    "\<And>vs. set (ord vs) = set vs" "view sh s cl (px_of (sh_fb sh))"
  shows "\<exists>t' sh' ev. capture_turn h ord bk copied us logged now (t, sh) = Some ((t', sh'), ev) \<and> sh_fb sh' = new
    \<and> thread_ok h (t', sh') \<and> view sh' (case ev of Some e \<Rightarrow> absorb e sh' s | None \<Rightarrow> s) cl (px_of new)"
  using turn_reaches [OF assms(1-7), where copied = copied and us = us and logged = logged and now = now] by blast

theorem frame_reaches_sessions_witness:
  "\<exists>t' sh' ev. capture_turn head_hash id point_backend None 0 0 0 (point_thread, point_shared) = Some ((t', sh'), ev) \<and> sh_fb sh' = point 2
    \<and> thread_ok head_hash (t', sh') \<and> view sh' (case ev of Some e \<Rightarrow> absorb e sh' dot_session | None \<Rightarrow> dot_session) (\<lambda>_. []) (px_of (point 2))"
  by (rule frame_reaches_sessions [where be = "()" and be' = "()" and f = point_frame])
    (simp_all add: point_facts point_backend_def)

end
