(* ===== verification/X11_Input.thy ===== *)
theory X11_Input
  imports Prelude
begin

unbundle bit_operations_syntax

text \<open>
  \<open>alloyvnc-screen-x11/src/keymap.rs\<close> and \<open>input.rs\<close>: the keyboard mapping turned round, keycodes lent to
  keysyms the layout has no key for, and a client's keys and pointer as XTEST events. The connection is
  the list of requests it accepted, in order; \<open>up n\<close> says whether it accepts the \<open>n\<close>-th call made on it.
  What the server answers at the start (its mapping and its modifiers) are arguments.
\<close>

section \<open>The keyboard mapping\<close>

record x11_key =
  xk_code :: u8
  xk_shift :: bool

definition NO_SYMBOL :: u32 where "NO_SYMBOL = 0"

datatype shift = Leave | Press | Let_Go

definition shift_for :: "bool \<Rightarrow> bool \<Rightarrow> shift" where
  "shift_for wants_shift held =
    (case (wants_shift, held) of (True, False) \<Rightarrow> Press | (False, True) \<Rightarrow> Let_Go | _ \<Rightarrow> Leave)"

text \<open>\<open>chunks(n)\<close>: the last piece may be short.\<close>

function pieces :: "nat \<Rightarrow> 'a list \<Rightarrow> 'a list list" where
  "pieces n xs = (if n = 0 \<or> xs = [] then [] else take n xs # pieces n (drop n xs))"
  by auto
termination by (relation "measure (length \<circ> snd)") (auto simp: neq_Nil_conv)

declare pieces.simps [simp del]

text \<open>\<open>u8::try_from(min + i)\<close>, and \<open>min.checked_add(i as u8)\<close>.\<close>

definition code_from :: "u8 \<Rightarrow> nat \<Rightarrow> u8 option" where
  "code_from min_keycode i = (if unat min_keycode + i < 256 then Some (of_nat (unat min_keycode + i)) else None)"

definition checked_code :: "u8 \<Rightarrow> nat \<Rightarrow> u8 option" where
  "checked_code min_keycode i = code_from min_keycode (i mod 256)"

definition spare_codes :: "u32 list \<Rightarrow> nat \<Rightarrow> u8 \<Rightarrow> u8 list" where
  "spare_codes keysyms per_keycode min_keycode =
    (if per_keycode = 0 then []
     else List.map_filter (\<lambda>(i, level). if list_all (\<lambda>sym. sym = NO_SYMBOL) level then code_from min_keycode i else None)
       (enumerate 0 (pieces per_keycode keysyms)))"

definition upper_case :: "u32 \<Rightarrow> u32 option" where
  "upper_case keysym =
    (if 0x61 \<le> keysym \<and> keysym \<le> 0x7a \<or> 0xe0 \<le> keysym \<and> keysym \<le> 0xf6 \<or> 0xf8 \<le> keysym \<and> keysym \<le> 0xfe
     then Some (keysym - 0x20) else None)"

definition or_insert :: "'k \<Rightarrow> 'v \<Rightarrow> ('k \<rightharpoonup> 'v) \<Rightarrow> ('k \<rightharpoonup> 'v)" where
  "or_insert k v m = (case m k of None \<Rightarrow> m(k \<mapsto> v) | Some _ \<Rightarrow> m)"

text \<open>One column of the mapping; a keycode past 255 ends it.\<close>

fun fill_column :: "u32 list \<Rightarrow> nat \<Rightarrow> u8 \<Rightarrow> bool \<Rightarrow> nat list \<Rightarrow> (u32 \<rightharpoonup> x11_key) \<Rightarrow> (u32 \<rightharpoonup> x11_key)" where
  "fill_column keysyms per_keycode min_keycode shift [] m = m"
| "fill_column keysyms per_keycode min_keycode shift (i # is) m =
    (case checked_code min_keycode i of
       None \<Rightarrow> m
     | Some code \<Rightarrow>
       let keysym = keysyms ! (i * per_keycode + (if shift then 1 else 0)) in
       fill_column keysyms per_keycode min_keycode shift is
         (if keysym = NO_SYMBOL then m else or_insert keysym \<lparr>xk_code = code, xk_shift = shift\<rparr> m))"

text \<open>X11's case rule: the capital a lower-case key has with Shift, where the second column is empty.\<close>

fun fill_implied :: "u32 list \<Rightarrow> nat \<Rightarrow> u8 \<Rightarrow> nat list \<Rightarrow> (u32 \<rightharpoonup> x11_key) \<Rightarrow> (u32 \<rightharpoonup> x11_key)" where
  "fill_implied keysyms per_keycode min_keycode [] m = m"
| "fill_implied keysyms per_keycode min_keycode (i # is) m =
    (if per_keycode > 1 \<and> keysyms ! (i * per_keycode + 1) \<noteq> NO_SYMBOL then fill_implied keysyms per_keycode min_keycode is m
     else
       (case checked_code min_keycode i of
          None \<Rightarrow> m
        | Some code \<Rightarrow>
          fill_implied keysyms per_keycode min_keycode is
            (case upper_case (keysyms ! (i * per_keycode)) of
               Some upper \<Rightarrow> or_insert upper \<lparr>xk_code = code, xk_shift = True\<rparr> m
             | None \<Rightarrow> m)))"

definition keymap_build :: "u32 list \<Rightarrow> nat \<Rightarrow> u8 \<Rightarrow> (u32 \<rightharpoonup> x11_key)" where
  "keymap_build keysyms per_keycode min_keycode =
    (if per_keycode = 0 then Map.empty
     else
       let is = [0 ..< length keysyms div per_keycode];
           plain = fill_column keysyms per_keycode min_keycode False is Map.empty;
           both = (if 1 \<ge> per_keycode then plain else fill_column keysyms per_keycode min_keycode True is plain)
       in fill_implied keysyms per_keycode min_keycode is both)"

section \<open>The connection\<close>

datatype x_kind = KeyPress | KeyRelease | ButtonPress | ButtonRelease | MotionNotify

datatype x_request =
    XFake x_kind u8 "16 word" "16 word"
  | XMapping u8 u8 u8 "u32 list"
  | XSync
  | XFlush

record x_conn =
  xc_sent :: "x_request list"
  xc_tried :: nat

definition x_request :: "(nat \<Rightarrow> bool) \<Rightarrow> x_request \<Rightarrow> x_conn \<Rightarrow> bool \<times> x_conn" where
  "x_request up r c =
    (let ok = up (xc_tried c) in (ok, c\<lparr>xc_sent := (if ok then xc_sent c @ [r] else xc_sent c), xc_tried := Suc (xc_tried c)\<rparr>))"

section \<open>The input\<close>

definition SHIFT_KEYSYMS :: "u32 list" where "SHIFT_KEYSYMS = [0xffe1, 0xffe2]"

record x11_input =
  xi_conn :: x_conn
  xi_keys :: "u32 \<rightharpoonup> x11_key"
  xi_shift :: "u8 option"
  xi_held :: bool
  xi_per_keycode :: u8
  xi_spares :: "u8 list"
  xi_lent :: "u32 \<rightharpoonup> u8"
  xi_order :: "u32 list"
  xi_buttons :: u8
  xi_reported :: bool

text \<open>What \<open>X11Input::new\<close> makes of the server's two answers.\<close>

definition x11_input_new :: "u32 list \<Rightarrow> u8 \<Rightarrow> u8 \<Rightarrow> u8 list \<Rightarrow> x11_input" where
  "x11_input_new keysyms per_keycode min_keycode modifiers =
    \<lparr>xi_conn = \<lparr>xc_sent = [], xc_tried = 0\<rparr>, xi_keys = keymap_build keysyms (unat per_keycode) min_keycode,
     xi_shift = find (\<lambda>k. k \<noteq> 0) (take (length modifiers div 8) modifiers), xi_held = False, xi_per_keycode = per_keycode,
     xi_spares = spare_codes keysyms (unat per_keycode) min_keycode, xi_lent = Map.empty, xi_order = [],
     xi_buttons = 0, xi_reported = False\<rparr>"

definition x11_call :: "(nat \<Rightarrow> bool) \<Rightarrow> x_request \<Rightarrow> x11_input \<Rightarrow> bool \<times> x11_input" where
  "x11_call up r s = (case x_request up r (xi_conn s) of (ok, c) \<Rightarrow>
    (ok, if ok then s\<lparr>xi_conn := c\<rparr> else s\<lparr>xi_conn := c, xi_reported := True\<rparr>))"

definition x11_fake :: "(nat \<Rightarrow> bool) \<Rightarrow> x_kind \<Rightarrow> u8 \<Rightarrow> 16 word \<Rightarrow> 16 word \<Rightarrow> x11_input \<Rightarrow> x11_input" where
  "x11_fake up kind detail x y s = snd (x11_call up (XFake kind detail x y) s)"

definition x11_flush :: "(nat \<Rightarrow> bool) \<Rightarrow> x11_input \<Rightarrow> x11_input" where
  "x11_flush up s = snd (x11_call up XFlush s)"

text \<open>A keycode to lend: a spare, or the one lent longest ago.\<close>

definition take_code :: "x11_input \<Rightarrow> u8 option \<times> x11_input" where
  "take_code s =
    (if xi_spares s \<noteq> [] then (Some (last (xi_spares s)), s\<lparr>xi_spares := butlast (xi_spares s)\<rparr>)
     else
       (case xi_order s of
          [] \<Rightarrow> (None, s)
        | oldest # order \<Rightarrow> (xi_lent s oldest, s\<lparr>xi_order := order, xi_lent := (xi_lent s)(oldest := None)\<rparr>)))"

definition filled_levels :: "u8 \<Rightarrow> u32 \<Rightarrow> u32 list" where
  "filled_levels per_keycode keysym =
    replicate (min 2 (unat per_keycode)) keysym @ replicate (unat per_keycode - 2) NO_SYMBOL"

definition lend :: "(nat \<Rightarrow> bool) \<Rightarrow> u32 \<Rightarrow> x11_input \<Rightarrow> u8 option \<times> x11_input" where
  "lend up keysym s =
    (case xi_lent s keysym of
       Some code \<Rightarrow> (Some code, s\<lparr>xi_order := filter (\<lambda>k. k \<noteq> keysym) (xi_order s) @ [keysym]\<rparr>)
     | None \<Rightarrow>
       (case take_code s of
          (None, s1) \<Rightarrow> (None, s1)
        | (Some code, s1) \<Rightarrow>
          (case x11_call up (XMapping 1 code (xi_per_keycode s1) (filled_levels (xi_per_keycode s1) keysym)) s1 of
             (False, s2) \<Rightarrow> (None, s2\<lparr>xi_spares := xi_spares s2 @ [code]\<rparr>)
           | (True, s2) \<Rightarrow>
             let s3 = snd (x11_call up XSync s2) in
             (Some code, s3\<lparr>xi_lent := (xi_lent s3)(keysym \<mapsto> code), xi_order := xi_order s3 @ [keysym]\<rparr>))))"

text \<open>The key a keysym is typed with: the layout's, or a lent one.\<close>

definition key_for :: "(nat \<Rightarrow> bool) \<Rightarrow> u32 \<Rightarrow> bool \<Rightarrow> x11_input \<Rightarrow> x11_key option \<times> x11_input" where
  "key_for up keysym down s =
    (case xi_keys s keysym of
       Some key \<Rightarrow> (Some key, s)
     | None \<Rightarrow>
       (case (if down then lend up keysym s else (xi_lent s keysym, s)) of
          (code, s1) \<Rightarrow> (map_option (\<lambda>c. \<lparr>xk_code = c, xk_shift = False\<rparr>) code, s1)))"

definition key_kind :: "bool \<Rightarrow> x_kind" where
  "key_kind down = (if down then KeyPress else KeyRelease)"

definition strike :: "(nat \<Rightarrow> bool) \<Rightarrow> x11_key \<Rightarrow> bool \<Rightarrow> x11_input \<Rightarrow> x11_input" where
  "strike up key down s =
    (let kind = key_kind down in
     (case (down, xi_shift s, shift_for (xk_shift key) (xi_held s)) of
        (True, Some shift, Press) \<Rightarrow>
          x11_fake up KeyRelease shift 0 0 (x11_fake up kind (xk_code key) 0 0 (x11_fake up KeyPress shift 0 0 s))
      | (True, Some shift, Let_Go) \<Rightarrow>
          x11_fake up KeyPress shift 0 0 (x11_fake up kind (xk_code key) 0 0 (x11_fake up KeyRelease shift 0 0 s))
      | _ \<Rightarrow> x11_fake up kind (xk_code key) 0 0 s))"

definition x11_press :: "(nat \<Rightarrow> bool) \<Rightarrow> u32 \<Rightarrow> bool \<Rightarrow> x11_input \<Rightarrow> x11_input" where
  "x11_press up keysym down s =
    (let s0 = (if keysym \<in> set SHIFT_KEYSYMS then s\<lparr>xi_held := down\<rparr> else s) in
     (case key_for up keysym down s0 of
        (None, s1) \<Rightarrow> s1
      | (Some key, s1) \<Rightarrow> x11_flush up (strike up key down s1)))"

text \<open>Buttons are a level in RFB and an edge in X11.\<close>

fun button_edges :: "(nat \<Rightarrow> bool) \<Rightarrow> u8 \<Rightarrow> u8 \<Rightarrow> nat list \<Rightarrow> x11_input \<Rightarrow> x11_input" where
  "button_edges up changed buttons [] s = s"
| "button_edges up changed buttons (b # bs) s =
    button_edges up changed buttons bs
      (if changed AND push_bit b 1 = 0 then s
       else x11_fake up (if buttons AND push_bit b 1 \<noteq> 0 then ButtonPress else ButtonRelease) (of_nat b + 1) 0 0 s)"

definition x11_pointer :: "(nat \<Rightarrow> bool) \<Rightarrow> u16 \<Rightarrow> u16 \<Rightarrow> u8 \<Rightarrow> x11_input \<Rightarrow> x11_input" where
  "x11_pointer up x y buttons s =
    (let s1 = x11_fake up MotionNotify 0 x y s;
         s2 = button_edges up (buttons XOR xi_buttons s) buttons [0 ..< 7] s1
     in x11_flush up (s2\<lparr>xi_buttons := buttons\<rparr>))"

text \<open>\<open>Drop\<close> gives the borrowed keycodes back; \<open>values\<close> is the order the map of loans is walked in.\<close>

fun give_back :: "(nat \<Rightarrow> bool) \<Rightarrow> u8 list \<Rightarrow> x11_input \<Rightarrow> x11_input" where
  "give_back up [] s = s"
| "give_back up (code # codes) s =
    give_back up codes (s\<lparr>xi_conn := snd (x_request up (XMapping 1 code 1 [NO_SYMBOL]) (xi_conn s))\<rparr>)"

definition x11_drop :: "(nat \<Rightarrow> bool) \<Rightarrow> ((u32 \<rightharpoonup> u8) \<Rightarrow> u8 list) \<Rightarrow> x11_input \<Rightarrow> x11_input" where
  "x11_drop up values s = give_back up (values (xi_lent s)) s"

end
