(* ===== verification/X11_Laws.thy ===== *)
theory X11_Laws
  imports X11_Input Shared_State
begin

text \<open>
  What the X11 input backend keeps true: loans of keycodes never collide and are given back (\<open>loans_ok\<close>,
  \<open>mapped_lent\<close>), the keyboard mapping turned round agrees with the layout (\<open>keymap_build_types\<close>), and a
  keystroke types the keysym asked for with Shift back where the client left it, while one Shift key is
  used (\<open>shift_known\<close>, \<open>press_types\<close>).
\<close>

section \<open>Requests\<close>

text \<open>What the last mapping of a keycode set it to.\<close>

definition bound :: "x_request list \<Rightarrow> u8 \<Rightarrow> u32 list option" where
  "bound rs code = fold (\<lambda>r b. case r of XMapping n c per syms \<Rightarrow> if c = code then Some syms else b | _ \<Rightarrow> b) rs None"

text \<open>Whether a keycode is down after some requests.\<close>

definition holds :: "u8 \<Rightarrow> x_request list \<Rightarrow> bool" where
  "holds code rs = fold (\<lambda>r b. case r of XFake KeyPress c x y \<Rightarrow> b \<or> c = code | XFake KeyRelease c x y \<Rightarrow> b \<and> c \<noteq> code | _ \<Rightarrow> b) rs False"

lemma bound_snoc [simp]:
  "bound [] code = None"
  "bound (rs @ [XMapping n c per syms]) code = (if c = code then Some syms else bound rs code)"
  "bound (rs @ [XFake k d x y]) code = bound rs code" "bound (rs @ [XSync]) code = bound rs code" "bound (rs @ [XFlush]) code = bound rs code"
  by (simp_all add: bound_def)

lemma holds_snoc [simp]:
  "\<not> holds code []"
  "holds code (rs @ [XFake k d x y]) \<longleftrightarrow> (case k of KeyPress \<Rightarrow> holds code rs \<or> d = code | KeyRelease \<Rightarrow> holds code rs \<and> d \<noteq> code | _ \<Rightarrow> holds code rs)"
  "holds code (rs @ [XMapping n c per syms]) = holds code rs" "holds code (rs @ [XSync]) = holds code rs" "holds code (rs @ [XFlush]) = holds code rs"
  by (simp_all add: holds_def split: x_kind.split)

lemma holds_three:
  "holds code (rs @ [r1, r2, r3]) = holds code (((rs @ [r1]) @ [r2]) @ [r3])"
  by simp

text \<open>A call changes nothing but the connection and the report.\<close>

lemma x11_call_parts:
  "fst (x11_call up r s) = up (xc_tried (xi_conn s))"
  "xc_sent (xi_conn (snd (x11_call up r s))) = (if up (xc_tried (xi_conn s)) then xc_sent (xi_conn s) @ [r] else xc_sent (xi_conn s))"
  "xi_keys (snd (x11_call up r s)) = xi_keys s" "xi_shift (snd (x11_call up r s)) = xi_shift s" "xi_held (snd (x11_call up r s)) = xi_held s"
  "xi_per_keycode (snd (x11_call up r s)) = xi_per_keycode s" "xi_spares (snd (x11_call up r s)) = xi_spares s"
  "xi_lent (snd (x11_call up r s)) = xi_lent s" "xi_order (snd (x11_call up r s)) = xi_order s" "xi_buttons (snd (x11_call up r s)) = xi_buttons s"
  by (simp_all add: x11_call_def x_request_def Let_def)

section \<open>Loans\<close>

definition loans_ok :: "u8 set \<Rightarrow> x11_input \<Rightarrow> bool" where
  "loans_ok pool s \<longleftrightarrow> distinct (xi_order s) \<and> set (xi_order s) = dom (xi_lent s) \<and> inj_on (xi_lent s) (dom (xi_lent s))
    \<and> distinct (xi_spares s) \<and> ran (xi_lent s) \<inter> set (xi_spares s) = {} \<and> ran (xi_lent s) \<union> set (xi_spares s) = pool
    \<and> (\<forall>k c. xi_lent s k = Some c \<longrightarrow> bound (xc_sent (xi_conn s)) c = Some (filled_levels (xi_per_keycode s) k))"

text \<open>The parts of the state the loans are about.\<close>

definition same_loans :: "x11_input \<Rightarrow> x11_input \<Rightarrow> bool" where
  "same_loans s s' \<longleftrightarrow> xi_lent s' = xi_lent s \<and> xi_order s' = xi_order s \<and> xi_spares s' = xi_spares s \<and> xi_per_keycode s' = xi_per_keycode s
    \<and> xi_keys s' = xi_keys s \<and> xi_shift s' = xi_shift s \<and> bound (xc_sent (xi_conn s')) = bound (xc_sent (xi_conn s))"

lemma same_loans_refl [simp]: "same_loans s s"
  by (simp add: same_loans_def)

lemma same_loans_trans: "same_loans a b \<Longrightarrow> same_loans b c \<Longrightarrow> same_loans a c"
  by (simp add: same_loans_def)

lemma same_loans_ok: "same_loans s s' \<Longrightarrow> loans_ok pool s \<Longrightarrow> loans_ok pool s'"
  by (simp add: same_loans_def loans_ok_def)

lemma same_loans_call: "(\<forall>code n per syms. r \<noteq> XMapping n code per syms) \<Longrightarrow> same_loans s (snd (x11_call up r s))"
  by (cases r) (auto simp: same_loans_def x11_call_parts)

lemma same_loans_fake: "same_loans s (x11_fake up kind d x y s)"
  unfolding x11_fake_def by (rule same_loans_call) simp

lemma same_loans_flush: "same_loans s (x11_flush up s)"
  unfolding x11_flush_def by (rule same_loans_call) simp

lemma same_loans_strike: "same_loans s (strike up key down s)"
  unfolding strike_def Let_def
  by (auto split: bool.split option.split shift.split intro: same_loans_trans [OF same_loans_trans [OF same_loans_fake same_loans_fake] same_loans_fake] same_loans_fake)

lemma same_loans_edges: "same_loans s (button_edges up changed buttons bs s)"
proof (induction bs arbitrary: s)
  case (Cons b bs)
  show ?case
    by (simp only: button_edges.simps) (rule same_loans_trans [OF _ Cons.IH], simp add: same_loans_fake)
qed simp

lemma take_code_ok:
  assumes "loans_ok pool s" "take_code s = (Some code, s1)"
  shows "loans_ok (pool - {code}) s1" "code \<in> pool" "xi_lent s1 k = Some c \<Longrightarrow> xi_lent s k = Some c"
    "xi_conn s1 = xi_conn s" "xi_per_keycode s1 = xi_per_keycode s"
proof -
  have o: "distinct (xi_order s)" "set (xi_order s) = dom (xi_lent s)" "inj_on (xi_lent s) (dom (xi_lent s))" "distinct (xi_spares s)"
    "ran (xi_lent s) \<inter> set (xi_spares s) = {}" "ran (xi_lent s) \<union> set (xi_spares s) = pool"
    "\<And>k c. xi_lent s k = Some c \<Longrightarrow> bound (xc_sent (xi_conn s)) c = Some (filled_levels (xi_per_keycode s) k)"
    using assms(1) by (auto simp: loans_ok_def)
  have "loans_ok (pool - {code}) s1 \<and> code \<in> pool \<and> (xi_lent s1 k = Some c \<longrightarrow> xi_lent s k = Some c)
      \<and> xi_conn s1 = xi_conn s \<and> xi_per_keycode s1 = xi_per_keycode s"
  proof (cases "xi_spares s = []")
    case False
    have e: "last (xi_spares s) = code" "s1 = s\<lparr>xi_spares := butlast (xi_spares s)\<rparr>" using assms(2) False by (simp_all add: take_code_def)
    obtain ss where ss: "xi_spares s = ss @ [code]" "s1 = s\<lparr>xi_spares := ss\<rparr>"
      using append_butlast_last_id [OF False] e by metis
    have r: "ran (xi_lent s) \<union> set ss = pool - {code}" "distinct ss" "ran (xi_lent s) \<inter> set ss = {}" "code \<in> pool"
      using o(4-6) ss(1) by auto
    have "loans_ok (pool - {code}) s1"
      unfolding loans_ok_def ss(2) using o(1-3,7) r(1-3) by simp
    then show ?thesis
      using r(4) ss(2) by simp
  next
    case True
    obtain k0 ks where order: "xi_order s = k0 # ks" using assms(2) True by (cases "xi_order s") (simp_all add: take_code_def)
    then have ks: "xi_order s = k0 # ks" "xi_lent s k0 = Some code" "s1 = s\<lparr>xi_order := ks, xi_lent := (xi_lent s)(k0 := None)\<rparr>"
      using assms(2) True by (simp_all add: take_code_def)
    have dom: "set ks = dom ((xi_lent s)(k0 := None))" using o(1,2) ks(1) by auto
    have inj: "inj_on ((xi_lent s)(k0 := None)) (dom ((xi_lent s)(k0 := None)))" using o(3) by (auto simp: inj_on_def dom_def)
    have ran: "ran ((xi_lent s)(k0 := None)) = ran (xi_lent s) - {code}"
    proof -
      have one: "k = k0" if "xi_lent s k = Some code" for k using o(3) that ks(2) by (auto simp: inj_on_def dom_def)
      have "b \<in> ran ((xi_lent s)(k0 := None)) \<longleftrightarrow> (\<exists>k. k \<noteq> k0 \<and> xi_lent s k = Some b)" for b by (auto simp: ran_def)
      moreover have "(\<exists>k. k \<noteq> k0 \<and> xi_lent s k = Some b) \<longleftrightarrow> b \<in> ran (xi_lent s) \<and> b \<noteq> code" for b
        unfolding ran_def mem_Collect_eq using one ks(2) by (metis option.inject)
      ultimately show ?thesis by blast
    qed
    show ?thesis
    proof -
      have "loans_ok (pool - {code}) s1"
        unfolding loans_ok_def ks(3) using o(1,6,7) ks(1) True dom inj ran by (auto split: if_splits)
      then show ?thesis using ks(2,3) o(6) by (auto simp: ran_def split: if_splits)
    qed
  qed
  then show "loans_ok (pool - {code}) s1" "code \<in> pool" "xi_lent s1 k = Some c \<Longrightarrow> xi_lent s k = Some c"
    "xi_conn s1 = xi_conn s" "xi_per_keycode s1 = xi_per_keycode s" by blast+
qed

lemma lend_ok:
  assumes "loans_ok pool s"
  shows "loans_ok pool (snd (lend up keysym s))"
    and "fst (lend up keysym s) = Some code \<Longrightarrow> xi_lent (snd (lend up keysym s)) keysym = Some code"
proof -
  have "loans_ok pool (snd (lend up keysym s)) \<and> (fst (lend up keysym s) = Some code \<longrightarrow> xi_lent (snd (lend up keysym s)) keysym = Some code)"
  proof (cases "xi_lent s keysym")
    case (Some c)
    then have "keysym \<in> set (xi_order s)" using assms by (auto simp: loans_ok_def)
    then show ?thesis using assms Some by (auto simp: lend_def loans_ok_def)
  next
    case new: None
    show ?thesis
    proof (cases "fst (take_code s)")
      case None
      have "loans_ok pool (snd (take_code s))"
      proof (cases "xi_order s")
        case (Cons k ks)
        then have "xi_lent s k \<noteq> None" using assms by (auto simp: loans_ok_def)
        then show ?thesis using None Cons by (auto simp: take_code_def split: if_splits)
      qed (use None assms in \<open>auto simp: take_code_def split: if_splits\<close>)
      then show ?thesis using None new by (cases "take_code s") (auto simp: lend_def)
    next
      case (Some c)
      obtain s1 where s1: "take_code s = (Some c, s1)" using Some by (cases "take_code s") auto
      note t = take_code_ok [OF assms s1]
      have out: "xi_lent s1 keysym = None" using t(3) [of keysym] new by (cases "xi_lent s1 keysym") auto
      let ?m = "XMapping 1 c (xi_per_keycode s1) (filled_levels (xi_per_keycode s1) keysym)"
      define s2 where "s2 = snd (x11_call up ?m s1)"
      have other: "c' \<noteq> c" if "xi_lent s1 k = Some c'" for k c'
        using t(1) that by (auto simp: loans_ok_def ran_def)
      note p = x11_call_parts [of up ?m s1, folded s2_def]
      have o1: "distinct (xi_order s1)" "set (xi_order s1) = dom (xi_lent s1)" "inj_on (xi_lent s1) (dom (xi_lent s1))" "distinct (xi_spares s1)"
        "ran (xi_lent s1) \<inter> set (xi_spares s1) = {}" "ran (xi_lent s1) \<union> set (xi_spares s1) = pool - {c}"
        "\<And>k c. xi_lent s1 k = Some c \<Longrightarrow> bound (xc_sent (xi_conn s1)) c = Some (filled_levels (xi_per_keycode s1) k)"
        using t(1) by (auto simp: loans_ok_def)
      show ?thesis
      proof (cases "up (xc_tried (xi_conn s1))")
        case False
        have "lend up keysym s = (None, s2\<lparr>xi_spares := xi_spares s1 @ [c]\<rparr>)"
          using new s1 False p(1,7) by (simp add: lend_def s2_def prod.case_eq_if)
        moreover have "loans_ok pool (s2\<lparr>xi_spares := xi_spares s1 @ [c]\<rparr>)"
          using o1 t(2) p False by (auto simp: loans_ok_def)
        ultimately show ?thesis by simp
      next
        case True
        define s3 where "s3 = snd (x11_call up XSync s2)"
        have same: "same_loans s2 s3" unfolding s3_def by (rule same_loans_call) simp
        have L: "lend up keysym s = (Some c, s3\<lparr>xi_lent := (xi_lent s3)(keysym \<mapsto> c), xi_order := xi_order s3 @ [keysym]\<rparr>)"
          using new s1 True p(1) by (simp add: lend_def s2_def s3_def prod.case_eq_if Let_def)
        have f: "xi_lent s3 = xi_lent s1" "xi_order s3 = xi_order s1" "xi_spares s3 = xi_spares s1" "xi_per_keycode s3 = xi_per_keycode s1"
          "bound (xc_sent (xi_conn s3)) c' = (if c = c' then Some (filled_levels (xi_per_keycode s1) keysym) else bound (xc_sent (xi_conn s1)) c')" for c'
          using same p True by (auto simp: same_loans_def)
        have "c \<notin> ran (xi_lent s1)" "c \<notin> set (xi_spares s1)" using o1(6) by auto
        then have "inj_on ((xi_lent s1)(keysym \<mapsto> c)) (insert keysym (dom (xi_lent s1)))"
          using o1(3) by (auto simp: inj_on_def ran_def dom_def)
        moreover have "ran ((xi_lent s1)(keysym \<mapsto> c)) = insert c (ran (xi_lent s1))" by (rule ran_map_upd) (rule out)
        ultimately show ?thesis
          unfolding L using o1 out t(2) f other \<open>c \<notin> set (xi_spares s1)\<close> by (auto simp: loans_ok_def) blast+
      qed
    qed
  qed
  then show "loans_ok pool (snd (lend up keysym s))"
    "fst (lend up keysym s) = Some code \<Longrightarrow> xi_lent (snd (lend up keysym s)) keysym = Some code" by blast+
qed

definition x11_take :: "(nat \<Rightarrow> bool) \<Rightarrow> input_event \<Rightarrow> x11_input \<Rightarrow> x11_input" where
  "x11_take up e s = (case e of InputKey keysym down \<Rightarrow> x11_press up keysym down s | InputPointer x y buttons \<Rightarrow> x11_pointer up x y buttons s)"

lemma loans_press:
  assumes "loans_ok pool s" shows "loans_ok pool (x11_press up keysym down s)"
proof -
  define s0 where "s0 = (if keysym \<in> set SHIFT_KEYSYMS then s\<lparr>xi_held := down\<rparr> else s)"
  have s0: "loans_ok pool s0" using assms by (simp add: s0_def loans_ok_def)
  have "loans_ok pool (snd (key_for up keysym down s0))"
    using s0 lend_ok(1) [OF s0, of up keysym] by (auto simp: key_for_def prod.case_eq_if split: option.split)
  then show ?thesis
    unfolding x11_press_def s0_def [symmetric] Let_def
    by (cases "key_for up keysym down s0") (auto split: option.split intro: same_loans_ok [OF same_loans_trans [OF same_loans_strike same_loans_flush]])
qed

lemma loans_pointer:
  assumes "loans_ok pool s" shows "loans_ok pool (x11_pointer up x y buttons s)"
proof -
  define s2 where "s2 = button_edges up (buttons XOR xi_buttons s) buttons [0 ..< 7] (x11_fake up MotionNotify 0 x y s)"
  have "same_loans s s2" unfolding s2_def by (rule same_loans_trans [OF same_loans_fake same_loans_edges])
  then have "loans_ok pool s2" by (rule same_loans_ok [OF _ assms])
  then have "loans_ok pool (s2\<lparr>xi_buttons := buttons\<rparr>)" by (simp add: loans_ok_def)
  then show ?thesis
    by (simp add: x11_pointer_def Let_def s2_def [symmetric] same_loans_ok [OF same_loans_flush])
qed

lemma loans_take: "loans_ok pool s \<Longrightarrow> loans_ok pool (fold (x11_take up) es s)"
  by (induction es arbitrary: s) (auto simp: x11_take_def loans_press loans_pointer split: input_event.split)

lemma code_from_unat: "code_from m i = Some c \<Longrightarrow> unat c = unat m + i"
proof -
  assume a: "code_from m i = Some c"
  obtain n where n: "n = unat m + i" by simp
  have "n < 256" "c = of_nat n" using a unfolding code_from_def n [symmetric] by (auto split: if_splits)
  then show ?thesis by (simp add: unat_of_nat take_bit_eq_mod n [symmetric])
qed

lemma code_from_inj: "code_from m i = Some c \<Longrightarrow> code_from m j = Some c \<Longrightarrow> i = j"
  using code_from_unat [of m i c] code_from_unat [of m j c] by simp

lemma distinct_spares: "distinct (spare_codes keysyms per m)"
proof -
  have "distinct (List.map_filter (\<lambda>(i, level). if list_all (\<lambda>sym. sym = NO_SYMBOL) level then code_from m i else None) (enumerate k xs))" for k and xs :: "u32 list list"
  proof (induction xs arbitrary: k)
    case (Cons x xs)
    have "c \<notin> set (List.map_filter (\<lambda>(i, level). if list_all (\<lambda>sym. sym = NO_SYMBOL) level then code_from m i else None) (enumerate (Suc k) xs))"
      if c: "code_from m k = Some c" for c
    proof
      assume "c \<in> set (List.map_filter (\<lambda>(i, level). if list_all (\<lambda>sym. sym = NO_SYMBOL) level then code_from m i else None) (enumerate (Suc k) xs))"
      then obtain i level where "(i, level) \<in> set (enumerate (Suc k) xs)" "code_from m i = Some c"
        by (auto simp: map_filter_def split: if_splits)
      then show False using code_from_inj [OF c] by (auto simp: in_set_enumerate_eq)
    qed
    then show ?case using Cons.IH [of "Suc k"] by (auto simp: map_filter_simps split: option.split)
  qed (simp add: map_filter_simps)
  then show ?thesis by (simp add: spare_codes_def)
qed

lemma loans_new: "loans_ok (set (spare_codes keysyms (unat per) m)) (x11_input_new keysyms per m mods)"
  by (simp add: loans_ok_def x11_input_new_def distinct_spares)

text \<open>Given back: with every call accepted, only keycodes on loan are bound.\<close>

definition mapped_lent :: "x11_input \<Rightarrow> bool" where
  "mapped_lent s \<longleftrightarrow> (\<forall>c. bound (xc_sent (xi_conn s)) c \<noteq> None \<longrightarrow> c \<in> ran (xi_lent s))"

abbreviation (input) always :: "nat \<Rightarrow> bool" where
  "always \<equiv> \<lambda>_. True"

lemma same_loans_mapped: "same_loans s s' \<Longrightarrow> mapped_lent s \<Longrightarrow> mapped_lent s'"
  by (simp add: same_loans_def mapped_lent_def)

lemma lend_mapped:
  assumes "loans_ok pool s" "mapped_lent s" shows "mapped_lent (snd (lend always keysym s))"
proof (cases "xi_lent s keysym")
  case (Some c)
  then show ?thesis using assms(2) by (simp add: lend_def mapped_lent_def)
next
  case new: None
  show ?thesis
  proof (cases "fst (take_code s)")
    case None
    have "xi_order s = []"
    proof (cases "xi_order s")
      case (Cons k ks)
      then have "xi_lent s k \<noteq> None" using assms(1) by (auto simp: loans_ok_def)
      then show ?thesis using None Cons by (auto simp: take_code_def split: if_splits)
    qed
    then have "take_code s = (None, s)" using None by (auto simp: take_code_def split: if_splits)
    then show ?thesis using new assms(2) by (simp add: lend_def)
  next
    case (Some c)
    obtain s1 where s1: "take_code s = (Some c, s1)" using Some by (cases "take_code s") auto
    note t = take_code_ok [OF assms(1) s1]
    have keep: "c' \<in> ran (xi_lent s1)" if c': "c' \<in> ran (xi_lent s)" "c' \<noteq> c" for c'
    proof -
      obtain k where k: "xi_lent s k = Some c'" using c'(1) by (auto simp: ran_def)
      have "xi_lent s1 k = Some c'"
        using s1 k c'(2) by (auto simp: take_code_def split: if_splits list.splits)
      then show ?thesis by (auto simp: ran_def)
    qed
    let ?m = "XMapping 1 c (xi_per_keycode s1) (filled_levels (xi_per_keycode s1) keysym)"
    define s2 where "s2 = snd (x11_call always ?m s1)"
    define s3 where "s3 = snd (x11_call always XSync s2)"
    note p = x11_call_parts [of always ?m s1, folded s2_def]
    have same: "same_loans s2 s3" unfolding s3_def by (rule same_loans_call) simp
    have f: "bound (xc_sent (xi_conn s3)) c' = (if c = c' then Some (filled_levels (xi_per_keycode s1) keysym) else bound (xc_sent (xi_conn s)) c')"
      "xi_lent s3 = xi_lent s1" for c'
      using same p t(4) by (simp_all add: same_loans_def)
    have out: "xi_lent s1 keysym = None" using t(3) [of keysym] new by (cases "xi_lent s1 keysym") auto
    have ran: "ran ((xi_lent s1)(keysym \<mapsto> c)) = insert c (ran (xi_lent s1))" by (rule ran_map_upd) (rule out)
    have L: "snd (lend always keysym s) = s3\<lparr>xi_lent := (xi_lent s1)(keysym \<mapsto> c), xi_order := xi_order s3 @ [keysym]\<rparr>"
      using new s1 p(1) f(2) by (simp add: lend_def s2_def s3_def prod.case_eq_if Let_def)
    show ?thesis
      unfolding L mapped_lent_def using assms(2) keep ran f(1) by (auto simp: mapped_lent_def split: if_splits)
  qed
qed

lemma mapped_take:
  assumes "loans_ok pool s" "mapped_lent s" shows "mapped_lent (x11_take always e s)"
proof (cases e)
  case (InputKey keysym down)
  define s0 where "s0 = (if keysym \<in> set SHIFT_KEYSYMS then s\<lparr>xi_held := down\<rparr> else s)"
  have s0: "loans_ok pool s0" "mapped_lent s0" using assms by (simp_all add: s0_def loans_ok_def mapped_lent_def)
  have "mapped_lent (snd (key_for always keysym down s0))"
    using s0 lend_mapped [OF s0] by (auto simp: key_for_def prod.case_eq_if split: option.split)
  moreover have "x11_take always e s = (case key_for always keysym down s0 of
      (None, s1) \<Rightarrow> s1 | (Some key, s1) \<Rightarrow> x11_flush always (strike always key down s1))"
    by (simp add: InputKey x11_take_def x11_press_def s0_def)
  ultimately show ?thesis
    by (cases "key_for always keysym down s0")
      (auto split: option.split intro: same_loans_mapped [OF same_loans_trans [OF same_loans_strike same_loans_flush]])
next
  case (InputPointer x y buttons)
  define s2 where "s2 = button_edges always (buttons XOR xi_buttons s) buttons [0 ..< 7] (x11_fake always MotionNotify 0 x y s)"
  have "same_loans s s2" unfolding s2_def by (rule same_loans_trans [OF same_loans_fake same_loans_edges])
  then have "mapped_lent s2" by (rule same_loans_mapped [OF _ assms(2)])
  then have "mapped_lent (s2\<lparr>xi_buttons := buttons\<rparr>)" by (simp add: mapped_lent_def)
  then show ?thesis
    by (simp add: InputPointer x11_take_def x11_pointer_def Let_def s2_def [symmetric] same_loans_mapped [OF same_loans_flush])
qed

lemma mapped_takes: "loans_ok pool s \<Longrightarrow> mapped_lent s \<Longrightarrow> mapped_lent (fold (x11_take always) es s)"
proof (induction es arbitrary: s)
  case (Cons e es)
  then show ?case using mapped_take loans_take [of pool s always "[e]"] by simp
qed simp

lemma give_back_bound:
  "bound (xc_sent (xi_conn (give_back always codes s))) c = (if c \<in> set codes then Some [NO_SYMBOL] else bound (xc_sent (xi_conn s)) c)"
proof (induction codes arbitrary: s)
  case (Cons code codes)
  let ?s = "s\<lparr>xi_conn := snd (x_request always (XMapping 1 code 1 [NO_SYMBOL]) (xi_conn s))\<rparr>"
  have "bound (xc_sent (xi_conn ?s)) c = (if c = code then Some [NO_SYMBOL] else bound (xc_sent (xi_conn s)) c)"
    by (simp add: x_request_def)
  with Cons.IH [of ?s] show ?case by (cases "c = code") simp_all
qed simp

section \<open>The layout\<close>

text \<open>What a key of the layout types: its first column, with Shift its second, and where that is empty the
  capital of the first.\<close>

definition layout_types :: "u32 list \<Rightarrow> nat \<Rightarrow> u8 \<Rightarrow> u8 \<Rightarrow> bool \<Rightarrow> u32 option" where
  "layout_types keysyms per min_keycode code shifted =
    (let i = unat code - unat min_keycode; lower = keysyms ! (i * per); upper = (if per > 1 then keysyms ! (i * per + 1) else NO_SYMBOL) in
     if unat code < unat min_keycode \<or> i \<ge> length keysyms div per then None
     else if shifted then (if upper \<noteq> NO_SYMBOL then Some upper else upper_case lower)
     else if lower \<noteq> NO_SYMBOL then Some lower else None)"

definition nth_code :: "u8 \<Rightarrow> nat \<Rightarrow> u8" where
  "nth_code min_keycode i = of_nat (unat min_keycode + i)"

lemma checked_code_ok: "unat m + i < 256 \<Longrightarrow> checked_code m i = Some (nth_code m i)"
  by (simp add: checked_code_def code_from_def nth_code_def)

lemma unat_nth_code: "unat m + i < 256 \<Longrightarrow> unat (nth_code m i) = unat m + i"
  using code_from_unat [of m i "nth_code m i"] by (simp add: code_from_def nth_code_def)

lemma fill_column_ok:
  assumes "\<forall>i\<in>set is. unat m + i < 256"
  shows "fill_column ks per m sh is mp k = (case mp k of Some v \<Rightarrow> Some v | None \<Rightarrow>
    map_option (\<lambda>i. \<lparr>xk_code = nth_code m i, xk_shift = sh\<rparr>) (find (\<lambda>i. ks ! (i * per + (if sh then 1 else 0)) = k \<and> k \<noteq> NO_SYMBOL) is))"
  using assms
proof (induction "is" arbitrary: mp)
  case (Cons i "is")
  then show ?case by (simp add: checked_code_ok or_insert_def Let_def split: option.split)
qed (simp split: option.split)

lemma fill_implied_ok:
  assumes "\<forall>i\<in>set is. unat m + i < 256"
  shows "fill_implied ks per m is mp k = (case mp k of Some v \<Rightarrow> Some v | None \<Rightarrow>
    map_option (\<lambda>i. \<lparr>xk_code = nth_code m i, xk_shift = True\<rparr>)
      (find (\<lambda>i. \<not> (per > 1 \<and> ks ! (i * per + 1) \<noteq> NO_SYMBOL) \<and> upper_case (ks ! (i * per)) = Some k) is))"
  using assms
proof (induction "is" arbitrary: mp)
  case (Cons i "is")
  then show ?case by (auto simp: checked_code_ok or_insert_def split: option.split)
qed (simp split: option.split)

text \<open>Every keysym of the layout has a key, and its key types it.\<close>

lemma keymap_build_types:
  assumes "0 < per" "unat m + length ks div per \<le> 256"
  shows "keymap_build ks per m k = Some key \<Longrightarrow> layout_types ks per m (xk_code key) (xk_shift key) = Some k"
    and "layout_types ks per m code sh = Some k \<Longrightarrow> keymap_build ks per m k \<noteq> None"
proof -
  let ?is = "[0 ..< length ks div per]"
  have rng: "\<forall>i\<in>set ?is. unat m + i < 256" using assms(2) by auto
  define lower where "lower i = ks ! (i * per)" for i
  define upper where "upper i = (if per > 1 then ks ! (i * per + 1) else NO_SYMBOL)" for i
  define A where "A = find (\<lambda>i. lower i = k \<and> k \<noteq> NO_SYMBOL) ?is"
  define B where "B = find (\<lambda>i. upper i = k \<and> k \<noteq> NO_SYMBOL) ?is"
  define C where "C = find (\<lambda>i. upper i = NO_SYMBOL \<and> upper_case (lower i) = Some k) ?is"
  have b: "keymap_build ks per m k = (case A of Some i \<Rightarrow> Some \<lparr>xk_code = nth_code m i, xk_shift = False\<rparr>
     | None \<Rightarrow> (case B of Some i \<Rightarrow> Some \<lparr>xk_code = nth_code m i, xk_shift = True\<rparr>
     | None \<Rightarrow> map_option (\<lambda>i. \<lparr>xk_code = nth_code m i, xk_shift = True\<rparr>) C))"
  proof -
    have c: "find (\<lambda>i. \<not> (per > 1 \<and> ks ! (i * per + 1) \<noteq> NO_SYMBOL) \<and> upper_case (ks ! (i * per)) = Some k) ?is = C"
      unfolding C_def by (rule find_cong) (auto simp: upper_def lower_def)
    have bb: "find (\<lambda>i. ks ! (i * per + 1) = k \<and> k \<noteq> NO_SYMBOL) ?is = B" if "per > 1"
      unfolding B_def by (rule find_cong) (use that in \<open>auto simp: upper_def\<close>)
    have n: "B = None" if "\<not> per > 1" using that by (auto simp: B_def upper_def find_None_iff)
    have a: "find (\<lambda>i. ks ! (i * per) = k \<and> k \<noteq> NO_SYMBOL) ?is = A" by (simp add: A_def lower_def)
    show ?thesis
    proof (cases "per > 1")
      case True
      then have e: "(per = 0) = False" "(1 \<ge> per) = False" by auto
      show ?thesis
        by (simp only: keymap_build_def Let_def fill_implied_ok [OF rng] fill_column_ok [OF rng] e if_False if_True add_0_right a bb [OF True] c)
          (simp split: option.split)
    next
      case False
      then have e: "(per = 0) = False" "(1 \<ge> per) = True" using assms(1) by auto
      show ?thesis
        by (simp only: keymap_build_def Let_def fill_implied_ok [OF rng] fill_column_ok [OF rng] e if_False if_True add_0_right a c n [OF False])
          (simp split: option.split)
    qed
  qed
  have lt: "layout_types ks per m code sh = (if unat code < unat m \<or> unat code - unat m \<ge> length ks div per then None
      else if sh then (if upper (unat code - unat m) \<noteq> NO_SYMBOL then Some (upper (unat code - unat m)) else upper_case (lower (unat code - unat m)))
      else if lower (unat code - unat m) \<noteq> NO_SYMBOL then Some (lower (unat code - unat m)) else None)" for code sh
    by (simp add: layout_types_def Let_def lower_def upper_def)
  have nth: "layout_types ks per m (nth_code m i) sh = (if sh then (if upper i \<noteq> NO_SYMBOL then Some (upper i) else upper_case (lower i))
      else if lower i \<noteq> NO_SYMBOL then Some (lower i) else None)" if "i < length ks div per" for i sh
    using that rng by (simp add: lt unat_nth_code)
  show "layout_types ks per m (xk_code key) (xk_shift key) = Some k" if K: "keymap_build ks per m k = Some key"
  proof (cases A)
    case (Some i)
    then have "i < length ks div per" "lower i = k" "k \<noteq> NO_SYMBOL" by (auto simp: A_def find_Some_iff)
    then show ?thesis using K Some nth [of i] by (auto simp: b)
  next
    case noA: None
    show ?thesis
    proof (cases B)
      case (Some i)
      then have "i < length ks div per" "upper i = k" "k \<noteq> NO_SYMBOL" by (auto simp: B_def find_Some_iff)
      then show ?thesis using K Some noA nth [of i] by (auto simp: b)
    next
      case None
      then obtain i where i: "C = Some i" "key = \<lparr>xk_code = nth_code m i, xk_shift = True\<rparr>" using K noA by (auto simp: b)
      then have "i < length ks div per" "upper i = NO_SYMBOL" "upper_case (lower i) = Some k" by (auto simp: C_def find_Some_iff)
      then show ?thesis using i(2) nth [of i] by simp
    qed
  qed
  show "keymap_build ks per m k \<noteq> None" if T: "layout_types ks per m code sh = Some k"
  proof -
    obtain i where i: "i < length ks div per" "if sh then (if upper i \<noteq> NO_SYMBOL then upper i = k else upper_case (lower i) = Some k)
        else lower i \<noteq> NO_SYMBOL \<and> lower i = k"
      by (rule that [of "unat code - unat m"]) (use T in \<open>auto simp: lt split: if_splits\<close>)
    then have "A \<noteq> None \<or> B \<noteq> None \<or> C \<noteq> None"
      by (auto simp: A_def B_def C_def find_None_iff split: if_splits)
    then show ?thesis by (auto simp: b split: option.splits)
  qed
qed

section \<open>A keystroke\<close>

lemma fake_sent:
  "xc_sent (xi_conn (x11_fake always kind d x y s)) = xc_sent (xi_conn s) @ [XFake kind d x y]"
  "xi_shift (x11_fake up kind d x y s) = xi_shift s" "xi_held (x11_fake up kind d x y s) = xi_held s"
  "xi_buttons (x11_fake up kind d x y s) = xi_buttons s"
  by (simp_all add: x11_fake_def x11_call_parts)

lemma flush_sent:
  "xc_sent (xi_conn (x11_flush always s)) = xc_sent (xi_conn s) @ [XFlush]"
  "xi_held (x11_flush up s) = xi_held s" "xi_buttons (x11_flush up s) = xi_buttons s"
  by (simp_all add: x11_flush_def x11_call_parts)

lemma bound_fake: "bound (rs @ [XFake k d x y]) = bound rs"
  by (rule ext) simp

lemma strike_holds:
  assumes "xi_shift s = Some sh" "xk_code key \<noteq> sh" "holds sh (xc_sent (xi_conn s)) = xi_held s"
  obtains pre post where "xc_sent (xi_conn (strike always key True s)) = xc_sent (xi_conn s) @ pre @ [XFake KeyPress (xk_code key) 0 0] @ post"
    "holds sh (xc_sent (xi_conn s) @ pre) = xk_shift key" "holds sh (xc_sent (xi_conn (strike always key True s))) = xi_held s"
    "bound (xc_sent (xi_conn s) @ pre) = bound (xc_sent (xi_conn s))"
proof -
  let ?k = "[XFake KeyPress (xk_code key) 0 0]"
  let ?down = "XFake KeyPress sh 0 0" and ?up = "XFake KeyRelease sh 0 0"
  consider (press) "shift_for (xk_shift key) (xi_held s) = Press" "xk_shift key" "\<not> xi_held s"
    | (let_go) "shift_for (xk_shift key) (xi_held s) = Let_Go" "\<not> xk_shift key" "xi_held s"
    | (leave) "shift_for (xk_shift key) (xi_held s) = Leave" "xk_shift key = xi_held s"
    by (cases "xk_shift key"; cases "xi_held s") (auto simp: shift_for_def)
  then show thesis
  proof cases
    case press
    have h: "holds sh (xc_sent (xi_conn s) @ [?down])" "\<not> holds sh (((xc_sent (xi_conn s) @ [?down]) @ ?k) @ [?up])"
      by (simp_all only: holds_snoc x_kind.case HOL.simp_thms)
    have st: "xc_sent (xi_conn (strike always key True s)) = ((xc_sent (xi_conn s) @ [?down]) @ ?k) @ [?up]"
      "xi_held (strike always key True s) = xi_held s"
      using press assms(1) by (simp_all add: strike_def key_kind_def fake_sent)
    show thesis
      by (rule that [of "[?down]" "[?up]"]) (use press h in \<open>simp_all only: st append_assoc bound_fake HOL.simp_thms\<close>)
  next
    case let_go
    have h: "\<not> holds sh (xc_sent (xi_conn s) @ [?up])" "holds sh (((xc_sent (xi_conn s) @ [?up]) @ ?k) @ [?down])"
      by (simp_all only: holds_snoc x_kind.case HOL.simp_thms)
    have st: "xc_sent (xi_conn (strike always key True s)) = ((xc_sent (xi_conn s) @ [?up]) @ ?k) @ [?down]"
      "xi_held (strike always key True s) = xi_held s"
      using let_go assms(1) by (simp_all add: strike_def key_kind_def fake_sent)
    show thesis
      by (rule that [of "[?up]" "[?down]"]) (use let_go h in \<open>simp_all only: st append_assoc bound_fake HOL.simp_thms\<close>)
  next
    case leave
    show thesis
      by (rule that [of "[]" "[]"]) (use leave assms in \<open>simp_all add: strike_def key_kind_def fake_sent\<close>)
  qed
qed

text \<open>A keycode the layout has a key on is never a spare.\<close>

lemma pieces_nth:
  "i < length xs div n \<Longrightarrow> i < length (pieces n xs) \<and> pieces n xs ! i = take n (drop (i * n) xs)"
proof (induction i arbitrary: xs)
  case 0
  then have "n \<noteq> 0" by (intro notI) simp
  moreover have "xs \<noteq> []" using 0 by auto
  ultimately show ?case by (subst (1 2) pieces.simps) simp
next
  case (Suc i)
  then have "n \<noteq> 0" by (intro notI) simp
  moreover have "xs \<noteq> []" using Suc.prems by auto
  moreover have "n \<le> length xs"
    using Suc.prems by (metis div_less le_less_linear not_less_zero)
  moreover have "i < length (drop n xs) div n"
    using Suc.prems le_div_geq [of n "length xs"] calculation by simp
  ultimately show ?case
    using Suc.IH [of "drop n xs"] by (subst (1 2) pieces.simps) (simp add: add.commute)
qed

lemma key_not_spare:
  assumes "0 < per" "unat m + length ks div per \<le> 256" "keymap_build ks per m k = Some key"
  shows "xk_code key \<notin> set (spare_codes ks per m)"
proof
  define i where "i = unat (xk_code key) - unat m"
  have t: "layout_types ks per m (xk_code key) (xk_shift key) = Some k" by (rule keymap_build_types(1) [OF assms])
  then have i: "i < length ks div per" "ks ! (i * per) \<noteq> NO_SYMBOL \<or> per > 1 \<and> ks ! (i * per + 1) \<noteq> NO_SYMBOL"
    by (auto simp: layout_types_def Let_def i_def NO_SYMBOL_def upper_case_def split: if_splits)
  have p: "i < length (pieces per ks)" "pieces per ks ! i = take per (drop (i * per) ks)" using pieces_nth [OF i(1)] by auto
  have room: "i * per + per \<le> length ks"
    using i(1) assms(1) by (metis Suc_leI add.commute div_times_less_eq_dividend le_trans mult_Suc mult_le_mono1)
  assume "xk_code key \<in> set (spare_codes ks per m)"
  then obtain j level where j: "(j, level) \<in> set (enumerate 0 (pieces per ks))" "list_all (\<lambda>sym. sym = NO_SYMBOL) level" "code_from m j = Some (xk_code key)"
    using assms(1) by (auto simp: spare_codes_def map_filter_def split: if_splits)
  have "j = i" using code_from_unat [OF j(3)] by (simp add: i_def)
  then have "level = take per (drop (i * per) ks)" using j(1) p by (auto simp: in_set_enumerate_eq)
  then have "\<forall>n<per. ks ! (i * per + n) = NO_SYMBOL" using j(2) room by (auto simp: list_all_length)
  then show False using i(2) assms(1) by fastforce
qed

text \<open>What a keycode types once some requests have been made.\<close>

definition types_after :: "u32 list \<Rightarrow> nat \<Rightarrow> u8 \<Rightarrow> x_request list \<Rightarrow> u8 \<Rightarrow> bool \<Rightarrow> u32 option" where
  "types_after keysyms per min_keycode rs code shifted =
    (case bound rs code of
       None \<Rightarrow> layout_types keysyms per min_keycode code shifted
     | Some syms \<Rightarrow> layout_types syms per code code shifted)"

lemma types_lent:
  assumes "0 < per" "bound rs code = Some (filled_levels per k)" "k \<noteq> NO_SYMBOL"
  shows "types_after ks (unat per) m rs code False = Some k"
proof -
  have "0 < unat per" using assms(1) by (simp add: unat_gt_0 word_gt_0)
  moreover have "length (filled_levels per k) = unat per" unfolding filled_levels_def length_append length_replicate by arith
  ultimately have "length (filled_levels per k) div unat per = 1" "filled_levels per k ! 0 = k"
    by (simp_all add: filled_levels_def nth_append)
  then show ?thesis using assms by (simp add: types_after_def layout_types_def)
qed

text \<open>The keyboard's parts, and what lending leaves of them.\<close>

definition same_keys :: "x11_input \<Rightarrow> x11_input \<Rightarrow> bool" where
  "same_keys s s' \<longleftrightarrow> xi_keys s' = xi_keys s \<and> xi_shift s' = xi_shift s \<and> xi_held s' = xi_held s \<and> xi_per_keycode s' = xi_per_keycode s"

lemma take_code_keys: "same_keys s (snd (take_code s))" "xi_conn (snd (take_code s)) = xi_conn s"
  by (auto simp: take_code_def same_keys_def split: list.split)

lemma lend_keys:
  obtains q where "same_keys s (snd (lend always k s))" "xc_sent (xi_conn (snd (lend always k s))) = xc_sent (xi_conn s) @ q"
    "q = [] \<or> (\<exists>c syms. q = [XMapping 1 c (xi_per_keycode s) syms, XSync])"
proof (cases "xi_lent s k")
  case (Some c)
  then show thesis by (intro that [of "[]"]) (simp_all add: lend_def same_keys_def)
next
  case new: None
  obtain code s1 where t: "take_code s = (code, s1)" by fastforce
  then have s1: "same_keys s s1" "xi_conn s1 = xi_conn s" using take_code_keys [of s] by simp_all
  show thesis
  proof (cases code)
    case None
    then show thesis using new t s1 by (intro that [of "[]"]) (simp_all add: lend_def)
  next
    case (Some c)
    let ?m = "XMapping 1 c (xi_per_keycode s1) (filled_levels (xi_per_keycode s1) k)"
    obtain s2 where m: "x11_call always ?m s1 = (True, s2)" using x11_call_parts(1) [of always ?m s1] by (metis prod.collapse)
    obtain s3 where y: "x11_call always XSync s2 = (True, s3)" using x11_call_parts(1) [of always XSync s2] by (metis prod.collapse)
    have s3: "same_keys s s3" "xc_sent (xi_conn s3) = xc_sent (xi_conn s) @ [?m, XSync]"
      using x11_call_parts [of always ?m s1] x11_call_parts [of always XSync s2] s1 m y by (simp_all add: same_keys_def)
    have "xi_per_keycode s1 = xi_per_keycode s" using s1(1) by (simp add: same_keys_def)
    then show thesis using s3 new t Some m y by (intro that [of "[?m, XSync]"]) (simp_all add: lend_def same_keys_def)
  qed
qed

lemma lend_total:
  assumes "loans_ok pool s" "pool \<noteq> {}" shows "fst (lend always k s) \<noteq> None"
proof (cases "xi_lent s k")
  case None
  have "fst (take_code s) \<noteq> None"
  proof (cases "xi_spares s = []")
    case True
    then have "dom (xi_lent s) \<noteq> {}" using assms by (auto simp: loans_ok_def)
    then obtain k0 ks where o: "xi_order s = k0 # ks" using assms(1) by (cases "xi_order s") (auto simp: loans_ok_def)
    then have "k0 \<in> dom (xi_lent s)" using assms(1) by (auto simp: loans_ok_def)
    then show ?thesis using o True by (auto simp: take_code_def)
  qed (simp add: take_code_def)
  then obtain c s1 where t: "take_code s = (Some c, s1)" by (cases "take_code s") auto
  show ?thesis using None x11_call_parts(1) [of always "XMapping 1 c (xi_per_keycode s1) (filled_levels (xi_per_keycode s1) k)" s1]
    by (simp add: lend_def t prod.case_eq_if Let_def)
qed (simp add: lend_def)

text \<open>A layout with one Shift key in use: the first keycode of the Shift modifier is Shift_L's, and types nothing else.\<close>

definition one_shift :: "u32 list \<Rightarrow> u8 \<Rightarrow> u8 \<Rightarrow> u8 list \<Rightarrow> u8 \<Rightarrow> bool" where
  "one_shift keysyms per min_keycode modifiers sh \<longleftrightarrow> 0 < per \<and> unat min_keycode + length keysyms div unat per \<le> 256
    \<and> find (\<lambda>k. k \<noteq> 0) (take (length modifiers div 8) modifiers) = Some sh
    \<and> keymap_build keysyms (unat per) min_keycode 0xffe1 = Some \<lparr>xk_code = sh, xk_shift = False\<rparr>
    \<and> (\<forall>k key. keymap_build keysyms (unat per) min_keycode k = Some key \<longrightarrow> xk_code key = sh \<longrightarrow> k = 0xffe1)"

definition no_right_shift :: "input_event \<Rightarrow> bool" where
  "no_right_shift e = (case e of InputKey k down \<Rightarrow> k \<noteq> 0xffe2 | InputPointer x y b \<Rightarrow> True)"

text \<open>What is true of the backend while only one Shift key is used.\<close>

definition shift_known :: "u32 list \<Rightarrow> u8 \<Rightarrow> u8 \<Rightarrow> u8 \<Rightarrow> x11_input \<Rightarrow> bool" where
  "shift_known keysyms per m sh s \<longleftrightarrow> loans_ok (set (spare_codes keysyms (unat per) m)) s \<and> mapped_lent s
    \<and> xi_keys s = keymap_build keysyms (unat per) m \<and> xi_shift s = Some sh \<and> xi_per_keycode s = per
    \<and> holds sh (xc_sent (xi_conn s)) = xi_held s"

lemma holds_quiet: "q = [] \<or> (\<exists>c syms. q = [XMapping 1 c per syms, XSync]) \<Longrightarrow> holds sh (rs @ q) = holds sh rs"
proof -
  have "rs @ [XMapping 1 c per syms, XSync] = (rs @ [XMapping 1 c per syms]) @ [XSync]" for c syms by simp
  then show "q = [] \<or> (\<exists>c syms. q = [XMapping 1 c per syms, XSync]) \<Longrightarrow> holds sh (rs @ q) = holds sh rs"
    by (elim disjE exE) (simp_all only: holds_snoc append_Nil2)
qed

text \<open>The key a press is typed with.\<close>

lemma key_for_press:
  assumes "one_shift ks per m mods sh" "loans_ok (set (spare_codes ks (unat per) m)) s" "mapped_lent s"
    "xi_keys s = keymap_build ks (unat per) m" "xi_per_keycode s = per" "key_for always k True s = (Some key, s1)" "k \<noteq> 0xffe1"
  obtains q where "xc_sent (xi_conn s1) = xc_sent (xi_conn s) @ q" "holds sh (xc_sent (xi_conn s1)) = holds sh (xc_sent (xi_conn s))"
    "same_keys s s1" "xk_code key \<noteq> sh" "k \<noteq> NO_SYMBOL \<Longrightarrow> types_after ks (unat per) m (xc_sent (xi_conn s1)) (xk_code key) (xk_shift key) = Some k"
proof -
  have o: "0 < per" "unat m + length ks div unat per \<le> 256" "0 < unat per" "keymap_build ks (unat per) m 0xffe1 = Some \<lparr>xk_code = sh, xk_shift = False\<rparr>"
    "\<And>k key. keymap_build ks (unat per) m k = Some key \<Longrightarrow> xk_code key = sh \<Longrightarrow> k = 0xffe1"
    using assms(1) by (auto simp: one_shift_def unat_gt_0 word_gt_0)
  show thesis
  proof (cases "xi_keys s k")
    case (Some key')
    then have e: "key' = key" "s1 = s" using assms(6) by (simp_all add: key_for_def)
    have kb: "keymap_build ks (unat per) m k = Some key" using Some assms(4) e by simp
    have "xk_code key \<notin> ran (xi_lent s)" using key_not_spare [OF o(3,2) kb] assms(2) by (auto simp: loans_ok_def)
    then have "bound (xc_sent (xi_conn s)) (xk_code key) = None" using assms(3) by (auto simp: mapped_lent_def)
    then show thesis
      using e o(5) [OF kb] assms(7) keymap_build_types(1) [OF o(3,2) kb]
      by (intro that [of "[]"]) (auto simp: types_after_def same_keys_def)
  next
    case None
    obtain c where c: "lend always k s = (Some c, s1)" "key = \<lparr>xk_code = c, xk_shift = False\<rparr>"
      using assms(6) None by (auto simp: key_for_def prod.case_eq_if split: option.splits) (metis prod.collapse)
    obtain q where q: "same_keys s s1" "xc_sent (xi_conn s1) = xc_sent (xi_conn s) @ q" "q = [] \<or> (\<exists>c syms. q = [XMapping 1 c (xi_per_keycode s) syms, XSync])"
      using lend_keys [of s k] c(1) by (metis snd_conv)
    have ok: "loans_ok (set (spare_codes ks (unat per) m)) s1" "xi_lent s1 k = Some c"
      using lend_ok(1) [OF assms(2), of always k] lend_ok(2) [OF assms(2), of always k c] c(1) by simp_all
    have per: "xi_per_keycode s1 = per" using q(1) assms(5) by (simp add: same_keys_def)
    have b: "bound (xc_sent (xi_conn s1)) c = Some (filled_levels per k)" "c \<in> set (spare_codes ks (unat per) m)"
      using ok per by (auto simp: loans_ok_def ran_def)
    have "c \<noteq> sh" using key_not_spare [OF o(3,2,4)] b(2) by auto
    then show thesis
      using q holds_quiet [OF q(3)] types_lent [OF o(1) b(1)] c(2) by (intro that [of q]) simp_all
  qed
qed

lemma strike_up:
  "xc_sent (xi_conn (strike always key False s)) = xc_sent (xi_conn s) @ [XFake KeyRelease (xk_code key) 0 0]"
  "xi_held (strike always key False s) = xi_held s"
  by (simp_all add: strike_def key_kind_def fake_sent)

lemma same_keys_refl [simp]: "same_keys s s"
  by (simp add: same_keys_def)

lemma same_keys_trans: "same_keys a b \<Longrightarrow> same_keys b c \<Longrightarrow> same_keys a c"
  by (simp add: same_keys_def)

lemma same_keys_fake: "same_keys s (x11_fake up kind d x y s)"
  by (simp add: same_keys_def x11_fake_def x11_call_parts)

lemma same_keys_flush: "same_keys s (x11_flush up s)"
  by (simp add: same_keys_def x11_flush_def x11_call_parts)

lemma same_keys_strike: "same_keys s (strike up key down s)"
  unfolding strike_def Let_def
  by (auto split: bool.split option.split shift.split intro: same_keys_trans [OF same_keys_trans [OF same_keys_fake same_keys_fake] same_keys_fake] same_keys_fake)

lemma same_keys_edges: "same_keys s (button_edges up changed buttons bs s)"
proof (induction bs arbitrary: s)
  case (Cons b bs)
  show ?case
    by (simp only: button_edges.simps) (rule same_keys_trans [OF _ Cons.IH], simp add: same_keys_fake)
qed simp

text \<open>A keystroke, with the key it is typed on.\<close>

lemma press_types:
  assumes O: "one_shift ks per m mods sh" and K: "shift_known ks per m sh s" and k: "k \<noteq> 0xffe1" "k \<noteq> 0xffe2"
    and key: "key_for always k True s = (Some key, s1)"
  obtains pre post where "xc_sent (xi_conn (x11_press always k True s)) = xc_sent (xi_conn s) @ pre @ [XFake KeyPress (xk_code key) 0 0] @ post"
    "k \<noteq> NO_SYMBOL \<Longrightarrow> types_after ks (unat per) m (xc_sent (xi_conn s) @ pre) (xk_code key) (holds sh (xc_sent (xi_conn s) @ pre)) = Some k"
    "holds sh (xc_sent (xi_conn (x11_press always k True s))) = xi_held s"
proof -
  have sk: "loans_ok (set (spare_codes ks (unat per) m)) s" "mapped_lent s" "xi_keys s = keymap_build ks (unat per) m" "xi_shift s = Some sh"
    "xi_per_keycode s = per" "holds sh (xc_sent (xi_conn s)) = xi_held s" using K by (simp_all add: shift_known_def)
  obtain q where q: "xc_sent (xi_conn s1) = xc_sent (xi_conn s) @ q" "holds sh (xc_sent (xi_conn s1)) = holds sh (xc_sent (xi_conn s))"
    "same_keys s s1" "xk_code key \<noteq> sh" "k \<noteq> NO_SYMBOL \<Longrightarrow> types_after ks (unat per) m (xc_sent (xi_conn s1)) (xk_code key) (xk_shift key) = Some k"
    by (rule key_for_press [OF O sk(1,2,3,5) key k(1)]) blast
  have h: "xi_shift s1 = Some sh" "holds sh (xc_sent (xi_conn s1)) = xi_held s1" "xi_held s1 = xi_held s"
    using q(2,3) sk(4,6) by (simp_all add: same_keys_def)
  obtain pre post where p: "xc_sent (xi_conn (strike always key True s1)) = xc_sent (xi_conn s1) @ pre @ [XFake KeyPress (xk_code key) 0 0] @ post"
    "holds sh (xc_sent (xi_conn s1) @ pre) = xk_shift key" "holds sh (xc_sent (xi_conn (strike always key True s1))) = xi_held s1" "bound (xc_sent (xi_conn s1) @ pre) = bound (xc_sent (xi_conn s1))"
    by (rule strike_holds [OF h(1) q(4) h(2)]) blast
  have press: "x11_press always k True s = x11_flush always (strike always key True s1)"
    using k key by (simp add: x11_press_def SHIFT_KEYSYMS_def)
  show thesis
  proof (rule that [of "q @ pre" "post @ [XFlush]"])
    show "xc_sent (xi_conn (x11_press always k True s)) = xc_sent (xi_conn s) @ (q @ pre) @ [XFake KeyPress (xk_code key) 0 0] @ post @ [XFlush]"
      unfolding press flush_sent p(1) q(1) by simp
    show "types_after ks (unat per) m (xc_sent (xi_conn s) @ q @ pre) (xk_code key) (holds sh (xc_sent (xi_conn s) @ q @ pre)) = Some k" if "k \<noteq> NO_SYMBOL"
      using q(5) [OF that] p(2,4) q(1) by (simp add: types_after_def)
    show "holds sh (xc_sent (xi_conn (x11_press always k True s))) = xi_held s"
      unfolding press flush_sent holds_snoc p(3) h(3) by (rule refl)
  qed
qed

lemma press_keys:
  assumes "k \<noteq> 0xffe1" "k \<noteq> 0xffe2" shows "same_keys s (x11_press always k down s)"
proof -
  have kf: "same_keys s (snd (key_for always k down s))"
    using lend_keys [of s k] by (auto simp: key_for_def prod.case_eq_if split: option.split)
  have e: "x11_press always k down s = (case key_for always k down s of (None, s1) \<Rightarrow> s1 | (Some key, s1) \<Rightarrow> x11_flush always (strike always key down s1))"
    using assms by (simp add: x11_press_def SHIFT_KEYSYMS_def)
  show ?thesis
    unfolding e using kf by (cases "key_for always k down s")
      (auto split: option.split intro: same_keys_trans [OF same_keys_trans [OF _ same_keys_strike] same_keys_flush])
qed

lemma press_held:
  assumes O: "one_shift ks per m mods sh" and K: "shift_known ks per m sh s" and k: "k \<noteq> 0xffe2"
  shows "holds sh (xc_sent (xi_conn (x11_press always k down s))) = xi_held (x11_press always k down s)
    \<and> xi_keys (x11_press always k down s) = xi_keys s \<and> xi_shift (x11_press always k down s) = xi_shift s
    \<and> xi_per_keycode (x11_press always k down s) = xi_per_keycode s"
proof -
  have o: "0 < unat per" "unat m + length ks div unat per \<le> 256" "keymap_build ks (unat per) m 0xffe1 = Some \<lparr>xk_code = sh, xk_shift = False\<rparr>"
    "\<And>k key. keymap_build ks (unat per) m k = Some key \<Longrightarrow> xk_code key = sh \<Longrightarrow> k = 0xffe1"
    using O by (auto simp: one_shift_def unat_gt_0 word_gt_0)
  have sk: "loans_ok (set (spare_codes ks (unat per) m)) s" "mapped_lent s" "xi_keys s = keymap_build ks (unat per) m" "xi_shift s = Some sh"
    "xi_per_keycode s = per" "holds sh (xc_sent (xi_conn s)) = xi_held s" using K by (simp_all add: shift_known_def)
  show ?thesis
  proof (cases "k = 0xffe1")
    case True
    define s0 where "s0 = s\<lparr>xi_held := down\<rparr>"
    define key where "key = \<lparr>xk_code = sh, xk_shift = False\<rparr>"
    have e: "x11_press always k down s = x11_flush always (strike always key down s0)"
      using True o(3) sk(3) by (simp add: x11_press_def SHIFT_KEYSYMS_def key_for_def s0_def key_def)
    have s0: "xi_shift s0 = Some sh" "xi_held s0 = down" "xi_keys s0 = xi_keys s" "xi_per_keycode s0 = xi_per_keycode s" using sk(4) by (simp_all add: s0_def)
    have keys: "same_keys s0 (x11_flush always (strike always key down s0))"
      by (rule same_keys_trans [OF same_keys_strike same_keys_flush])
    have "holds sh (xc_sent (xi_conn (strike always key down s0))) = down"
    proof (cases down)
      case True
      have "xc_sent (xi_conn (strike always key True s0))
          = ((xc_sent (xi_conn s0) @ [XFake KeyRelease sh 0 0]) @ [XFake KeyPress sh 0 0]) @ [XFake KeyPress sh 0 0]"
        using s0 True by (simp add: strike_def key_kind_def fake_sent shift_for_def key_def)
      then have "holds sh (xc_sent (xi_conn (strike always key True s0)))" by (simp only: holds_snoc x_kind.case HOL.simp_thms)
      with True show ?thesis by simp
    next
      case False
      then show ?thesis by (simp add: strike_up key_def)
    qed
    then have "holds sh (xc_sent (xi_conn (x11_flush always (strike always key down s0)))) = down"
      by (simp only: flush_sent holds_snoc)
    then show ?thesis using keys s0 sk(4) unfolding e by (simp add: same_keys_def)
  next
    case False
    have keys: "same_keys s (x11_press always k down s)" by (rule press_keys [OF False k])
    have e: "x11_press always k down s = (case key_for always k down s of (None, s1) \<Rightarrow> s1 | (Some key, s1) \<Rightarrow> x11_flush always (strike always key down s1))"
      using False k by (simp add: x11_press_def SHIFT_KEYSYMS_def)
    obtain r s1 where r: "key_for always k down s = (r, s1)" by fastforce
    have "holds sh (xc_sent (xi_conn (x11_press always k down s))) = xi_held s"
    proof (cases r)
      case None
      have "s1 = s \<or> s1 = snd (lend always k s)"
        using r None by (auto simp: key_for_def prod.case_eq_if split: option.splits if_splits)
      then have "holds sh (xc_sent (xi_conn s1)) = holds sh (xc_sent (xi_conn s))"
        using lend_keys [of s k] holds_quiet by metis
      then show ?thesis using e r None sk(6) by simp
    next
      case (Some key)
      show ?thesis
      proof (cases down)
        case True
        then show ?thesis using press_types [OF O K False k] r Some by metis
      next
        case up: False
        have code: "s1 = s \<and> xk_code key \<noteq> sh"
        proof (cases "xi_keys s k")
          case (Some key')
          then show ?thesis using r \<open>r = Some key\<close> o(4) [of k key'] sk(3) False up by (auto simp: key_for_def)
        next
          case None
          have "(map_option (\<lambda>c. \<lparr>xk_code = c, xk_shift = False\<rparr>) (xi_lent s k), s) = (Some key, s1)"
            using r None up unfolding \<open>r = Some key\<close> key_for_def by (simp only: option.case if_False prod.case)
          then have e: "map_option (\<lambda>c. \<lparr>xk_code = c, xk_shift = False\<rparr>) (xi_lent s k) = Some key" "s = s1" by blast+
          obtain c where c: "xi_lent s k = Some c" using e(1) by (cases "xi_lent s k") simp_all
          have "c \<in> set (spare_codes ks (unat per) m)" using sk(1) c by (auto simp: loans_ok_def ran_def)
          then have "c \<noteq> sh" using key_not_spare [OF o(1,2,3)] by auto
          moreover have "xk_code key = c" using e(1) c by (metis option.map(2) option.inject x11_key.select_convs(1))
          moreover note e(2) [symmetric]
          ultimately show ?thesis by simp
        qed
        have "xc_sent (xi_conn (x11_press always k down s)) = (xc_sent (xi_conn s) @ [XFake KeyRelease (xk_code key) 0 0]) @ [XFlush]"
          using e r Some up code by (simp add: flush_sent strike_up)
        then show ?thesis using code sk(6) by (simp only: holds_snoc x_kind.case) auto
      qed
    qed
    then show ?thesis using keys by (simp add: same_keys_def)
  qed
qed

lemma shift_known_new: "one_shift ks per m mods sh \<Longrightarrow> shift_known ks per m sh (x11_input_new ks per m mods)"
  using loans_new [of ks per m mods]
  by (simp add: shift_known_def one_shift_def x11_input_new_def mapped_lent_def)

lemma holds_pointer:
  "holds sh (xc_sent (xi_conn (x11_pointer always x y b s))) = holds sh (xc_sent (xi_conn s)) \<and> same_keys s (x11_pointer always x y b s)"
proof -
  have edges: "holds sh (xc_sent (xi_conn (button_edges always c d bs t))) = holds sh (xc_sent (xi_conn t))" for c d bs t
    by (induction bs arbitrary: t) (simp_all add: fake_sent)
  have upd: "same_keys t (t\<lparr>xi_buttons := b\<rparr>)" for t by (simp add: same_keys_def)
  show ?thesis
    unfolding x11_pointer_def Let_def
    by (intro conjI same_keys_trans [OF same_keys_trans [OF same_keys_trans [OF same_keys_fake same_keys_edges] upd] same_keys_flush])
      (simp add: flush_sent edges fake_sent)
qed

lemma shift_known_take:
  assumes O: "one_shift ks per m mods sh" and K: "shift_known ks per m sh s" and e: "no_right_shift e"
  shows "shift_known ks per m sh (x11_take always e s)"
proof -
  have l: "loans_ok (set (spare_codes ks (unat per) m)) (x11_take always e s)" "mapped_lent (x11_take always e s)"
    using K loans_take [of _ s always "[e]"] mapped_take [of _ s e] by (auto simp: shift_known_def)
  have "xi_keys (x11_take always e s) = xi_keys s \<and> xi_shift (x11_take always e s) = xi_shift s \<and> xi_per_keycode (x11_take always e s) = xi_per_keycode s
    \<and> holds sh (xc_sent (xi_conn (x11_take always e s))) = xi_held (x11_take always e s)"
  proof (cases e)
    case (InputKey k down)
    then show ?thesis using press_held [OF O K, of k down] e by (simp add: x11_take_def no_right_shift_def)
  next
    case (InputPointer x y b)
    then show ?thesis using holds_pointer [of sh x y b s] K by (simp add: x11_take_def same_keys_def shift_known_def)
  qed
  then show ?thesis using l K by (simp add: shift_known_def)
qed

lemma shift_known_takes:
  "one_shift ks per m mods sh \<Longrightarrow> shift_known ks per m sh s \<Longrightarrow> list_all no_right_shift es \<Longrightarrow> shift_known ks per m sh (fold (x11_take always) es s)"
  by (induction es arbitrary: s) (auto intro: shift_known_take)

end
