(* ===== verification/Windows_Clipboard.thy ===== *)
theory Windows_Clipboard
  imports Utf8
begin

text \<open>
  \<open>alloyvnc-screen-dxgi/src/clipboard.rs\<close>: the Windows clipboard, polled by its sequence number. The system's
  clipboard is a state of its own: the number, the CF_UNICODETEXT units on it up to the terminator, and how
  many attempts at opening it were made. Which attempts succeed, and what writing does, are parameters.
\<close>

section \<open>UTF-16\<close>

definition utf16_char :: "nat \<Rightarrow> u16 list" where
  "utf16_char c =
    (if c < 0x10000 then [of_nat c]
     else [of_nat (0xd800 + (c - 0x10000) div 0x400), of_nat (0xdc00 + (c - 0x10000) mod 0x400)])"

definition utf16 :: "str \<Rightarrow> u16 list" where
  "utf16 s = concat (map utf16_char s)"

text \<open>\<open>String::from_utf16_lossy\<close>: a surrogate without its partner becomes U+FFFD.\<close>

fun utf16_lossy :: "u16 list \<Rightarrow> str" where
  "utf16_lossy [] = []"
| "utf16_lossy [u] = [if 0xd800 \<le> unat u \<and> unat u < 0xe000 then replacement else unat u]"
| "utf16_lossy (u # v # us) =
    (if unat u < 0xd800 \<or> 0xe000 \<le> unat u then unat u # utf16_lossy (v # us)
     else if unat u < 0xdc00 \<and> 0xdc00 \<le> unat v \<and> unat v < 0xe000
       then (0x10000 + (unat u - 0xd800) * 0x400 + (unat v - 0xdc00)) # utf16_lossy us
     else replacement # utf16_lossy (v # us))"

text \<open>\<open>replace('\n', "\r\n")\<close>.\<close>

definition lf_to_crlf :: "str \<Rightarrow> str" where
  "lf_to_crlf s = concat (map (\<lambda>c. if c = 10 then [13, 10] else [c]) s)"

section \<open>The clipboard\<close>

definition TRIES :: nat where "TRIES = 8"

record win_desk =
  wd_seq :: u32
  wd_units :: "u16 list option"
  wd_opens :: nat

record win_clipboard =
  wc_seen :: u32
  wc_reported :: bool

text \<open>What the system does: whether the \<open>n\<close>-th attempt opens the clipboard, and whether it can be emptied, has
  room, gives a pointer and takes the text.\<close>

record win_clip_os =
  wo_opens :: "nat \<Rightarrow> bool"
  wo_empties :: bool
  wo_allocates :: bool
  wo_locks :: bool
  wo_accepts :: bool

definition win_clipboard_new :: "win_desk \<Rightarrow> win_clipboard" where
  "win_clipboard_new d = \<lparr>wc_seen = wd_seq d, wc_reported = False\<rparr>"

fun open_tries :: "win_clip_os \<Rightarrow> nat \<Rightarrow> win_desk \<Rightarrow> bool \<times> win_desk" where
  "open_tries os 0 d = (False, d)"
| "open_tries os (Suc n) d =
    (if wo_opens os (wd_opens d) then (True, d\<lparr>wd_opens := Suc (wd_opens d)\<rparr>)
     else open_tries os n (d\<lparr>wd_opens := Suc (wd_opens d)\<rparr>))"

definition wc_open :: "win_clip_os \<Rightarrow> win_clipboard \<Rightarrow> win_desk \<Rightarrow> bool \<times> win_clipboard \<times> win_desk" where
  "wc_open os s d =
    (case open_tries os TRIES d of (opened, d1) \<Rightarrow>
      (opened, if opened then s\<lparr>wc_reported := False\<rparr> else s\<lparr>wc_reported := True\<rparr>, d1))"

definition read_text :: "win_clip_os \<Rightarrow> win_desk \<Rightarrow> str option" where
  "read_text os d = (case wd_units d of None \<Rightarrow> None | Some units \<Rightarrow> if wo_locks os then Some (utf16_lossy units) else None)"

definition wc_changed :: "win_clip_os \<Rightarrow> win_clipboard \<times> win_desk \<Rightarrow> str option \<times> win_clipboard \<times> win_desk" where
  "wc_changed os = (\<lambda>(s, d).
    if wd_seq d = wc_seen s then (None, s, d)
    else
      (case wc_open os (s\<lparr>wc_seen := wd_seq d\<rparr>) d of
         (False, s1, d1) \<Rightarrow> (None, s1, d1)
       | (True, s1, d1) \<Rightarrow> (map_option crlf_to_lf (read_text os d1), s1, d1)))"

text \<open>The clipboard closed after it was emptied, or after it took a text: the number moves on.\<close>

definition desk_holds :: "u16 list option \<Rightarrow> win_desk \<Rightarrow> win_desk" where
  "desk_holds units d = d\<lparr>wd_units := units, wd_seq := wd_seq d + 1\<rparr>"

text \<open>The block is read up to its terminator.\<close>

definition before_nul :: "u16 list \<Rightarrow> u16 list" where
  "before_nul = takeWhile (\<lambda>u. u \<noteq> 0)"

definition wc_set :: "win_clip_os \<Rightarrow> str \<Rightarrow> win_clipboard \<times> win_desk \<Rightarrow> win_clipboard \<times> win_desk" where
  "wc_set os text = (\<lambda>(s, d).
    let wide = utf16 (lf_to_crlf (crlf_to_lf text)) @ [0] in
    (case wc_open os s d of
       (False, s1, d1) \<Rightarrow> (s1, d1)
     | (True, s1, d1) \<Rightarrow>
       if \<not> wo_empties os then (s1, d1)
       else if \<not> wo_allocates os \<or> \<not> wo_locks os \<or> \<not> wo_accepts os then (s1, desk_holds None d1)
       else (let d2 = desk_holds (Some (before_nul wide)) d1 in (s1\<lparr>wc_seen := wd_seq d2\<rparr>, d2))))"

end
