(* ===== verification/Windows_Input.thy ===== *)
theory Windows_Input
  imports X11_Input Compare Windows_Clipboard
begin

text \<open>
  \<open>alloyvnc-screen-dxgi/src/keysym.rs\<close>, \<open>input.rs\<close>, \<open>geom.rs\<close>: keysyms as Windows virtual keys and characters,
  a client's keys and pointer as batches of SendInput, and DXGI's moves in picture coordinates. The
  system's answers are parameters: the scancode of a virtual key, what the layout says of a character,
  how many events of a batch it takes, and the virtual desktop's place and size.
\<close>

section \<open>Keysyms\<close>

record win_key =
  wk_vk :: u16
  wk_extended :: bool

definition key_plain :: "u16 \<Rightarrow> win_key" where
  "key_plain vk = \<lparr>wk_vk = vk, wk_extended = False\<rparr>"

definition key_ext :: "u16 \<Rightarrow> win_key" where
  "key_ext vk = \<lparr>wk_vk = vk, wk_extended = True\<rparr>"

datatype modifier = Shift_Key | Control_Key | Alt_Key | Super_Key

definition modifier_of :: "u32 \<Rightarrow> modifier option" where
  "modifier_of keysym =
    (if keysym \<in> {0xffe1, 0xffe2} then Some Shift_Key
     else if keysym \<in> {0xffe3, 0xffe4} then Some Control_Key
     else if keysym \<in> {0xffe9, 0xffea} then Some Alt_Key
     else if keysym \<in> {0xffe7, 0xffe8, 0xffeb, 0xffec} then Some Super_Key
     else None)"

definition special_table :: "(u32 \<times> win_key) list" where
  "special_table = [
    (0xff08, key_plain 0x08), (0xff09, key_plain 0x09), (0xff0b, key_plain 0x0c), (0xff0d, key_plain 0x0d), (0xff13,
    key_plain 0x13), (0xff14, key_plain 0x91), (0xff1b, key_plain 0x1b), (0xff50, key_ext 0x24), (0xff51, key_ext 0x25),
    (0xff52, key_ext 0x26), (0xff53, key_ext 0x27), (0xff54, key_ext 0x28), (0xff55, key_ext 0x21), (0xff56, key_ext 0x22),
    (0xff57, key_ext 0x23), (0xff58, key_ext 0x24), (0xff61, key_ext 0x2c), (0xff63, key_ext 0x2d), (0xff67, key_ext 0x5d),
    (0xff7f, key_ext 0x90), (0xff80, key_plain 0x20), (0xff89, key_plain 0x09), (0xff8d, key_ext 0x0d), (0xff95, key_plain
    0x24), (0xff96, key_plain 0x25), (0xff97, key_plain 0x26), (0xff98, key_plain 0x27), (0xff99, key_plain 0x28), (0xff9a,
    key_plain 0x21), (0xff9b, key_plain 0x22), (0xff9c, key_plain 0x23), (0xff9d, key_plain 0x0c), (0xff9e, key_plain 0x2d),
    (0xff9f, key_plain 0x2e), (0xffaa, key_plain 0x6a), (0xffab, key_plain 0x6b), (0xffac, key_plain 0x6c), (0xffad,
    key_plain 0x6d), (0xffae, key_plain 0x6e), (0xffaf, key_ext 0x6f), (0xffe1, key_plain 0xa0), (0xffe2, key_plain 0xa1),
    (0xffe3, key_plain 0xa2), (0xffe4, key_ext 0xa3), (0xffe5, key_plain 0x14), (0xffe6, key_plain 0x14), (0xffe7, key_ext
    0x5b), (0xffeb, key_ext 0x5b), (0xffe8, key_ext 0x5c), (0xffec, key_ext 0x5c), (0xffe9, key_plain 0xa4), (0xffea,
    key_ext 0xa5), (0xffff, key_ext 0x2e)]"

definition special_key :: "u32 \<Rightarrow> win_key option" where
  "special_key keysym =
    (if 0xffbe \<le> keysym \<and> keysym \<le> 0xffd5 then Some (key_plain (0x70 + ucast (keysym - 0xffbe)))
     else if 0xffb0 \<le> keysym \<and> keysym \<le> 0xffb9 then Some (key_plain (0x60 + ucast (keysym - 0xffb0)))
     else if 0xff91 \<le> keysym \<and> keysym \<le> 0xff94 then Some (key_plain (0x70 + ucast (keysym - 0xff91)))
     else map_of special_table keysym)"

text \<open>\<open>char::from_u32\<close>, and the character of a keysym.\<close>

definition char_from :: "nat \<Rightarrow> nat option" where
  "char_from n = (if n < 0xd800 \<or> 0xe000 \<le> n \<and> n < 0x110000 then Some n else None)"

definition character_of :: "u32 \<Rightarrow> nat option" where
  "character_of keysym =
    (if 0x20 \<le> keysym \<and> keysym \<le> 0xff then char_from (unat keysym)
     else if keysym AND 0xff000000 = 0x01000000 then char_from (unat (keysym AND 0x00ffffff))
     else None)"

section \<open>Events\<close>

definition NOTCH :: int where "NOTCH = 120"
definition VK_LSHIFT :: u16 where "VK_LSHIFT = 0xa0"
definition VK_RSHIFT :: u16 where "VK_RSHIFT = 0xa1"

datatype mouse_flag = Absolute | Move_To | Virtual_Desk | Left_Down | Left_Up | Middle_Down | Middle_Up | Right_Down | Right_Up
  | Wheel | H_Wheel

record win_keybd =
  wb_vk :: u16
  wb_scan :: u16
  wb_extended :: bool
  wb_unicode :: bool
  wb_up :: bool

datatype win_event = WinKey win_keybd | WinMouse int int u32 "mouse_flag list"

record win_os =
  wo_scancode :: "u16 \<Rightarrow> u16"
  wo_layout :: "u16 \<Rightarrow> 16 word"
  wo_takes :: "nat \<Rightarrow> win_event list \<Rightarrow> nat"

definition mod_bit :: "modifier \<Rightarrow> u8" where
  "mod_bit m = (case m of Shift_Key \<Rightarrow> 1 | Control_Key \<Rightarrow> 2 | Alt_Key \<Rightarrow> 4 | Super_Key \<Rightarrow> 8)"

record win_input =
  wi_batches :: "win_event list list"
  wi_origin :: "int \<times> int"
  wi_mods :: u8
  wi_shift_down :: u8
  wi_buttons :: u8
  wi_reported :: bool

definition win_input_new :: "int \<times> int \<Rightarrow> win_input" where
  "win_input_new origin = \<lparr>wi_batches = [], wi_origin = origin, wi_mods = 0, wi_shift_down = 0, wi_buttons = 0, wi_reported = False\<rparr>"

text \<open>One SendInput: the events the system took are what was typed.\<close>

definition win_send :: "win_os \<Rightarrow> win_event list \<Rightarrow> win_input \<Rightarrow> win_input" where
  "win_send os events s =
    (if events = [] then s
     else
       let n = min (wo_takes os (length (wi_batches s)) events) (length events);
           s1 = s\<lparr>wi_batches := wi_batches s @ [take n events]\<rparr>
       in if n \<noteq> length events then s1\<lparr>wi_reported := True\<rparr> else s1)"

definition key_event :: "win_os \<Rightarrow> u16 \<Rightarrow> bool \<Rightarrow> bool \<Rightarrow> win_event" where
  "key_event os vk extended down =
    WinKey \<lparr>wb_vk = vk, wb_scan = wo_scancode os vk, wb_extended = extended, wb_unicode = False, wb_up = (\<not> down)\<rparr>"

definition unicode_event :: "u16 \<Rightarrow> bool \<Rightarrow> win_event" where
  "unicode_event unit down = WinKey \<lparr>wb_vk = 0, wb_scan = unit, wb_extended = False, wb_unicode = True, wb_up = (\<not> down)\<rparr>"

definition shift_keys :: "win_input \<Rightarrow> u16 list" where
  "shift_keys s =
    (let keys = (if wi_shift_down s AND 1 \<noteq> 0 then [VK_LSHIFT] else []) @ (if wi_shift_down s AND 2 \<noteq> 0 then [VK_RSHIFT] else [])
     in if keys = [] then [VK_LSHIFT] else keys)"

definition mouse_event :: "int \<Rightarrow> int \<Rightarrow> int \<Rightarrow> mouse_flag list \<Rightarrow> win_event" where
  "mouse_event dx dy data flags = WinMouse dx dy (of_int data) flags"

section \<open>Keys\<close>

text \<open>A character the layout types without Control or Alt, with Shift made to fit around the press.\<close>

definition win_layout_key :: "win_os \<Rightarrow> u16 \<Rightarrow> bool \<Rightarrow> bool \<Rightarrow> win_input \<Rightarrow> win_input" where
  "win_layout_key os vk wants_shift down s =
    (let event = key_event os vk False down; held = (wi_mods s AND mod_bit Shift_Key \<noteq> 0) in
     (case (down, shift_for wants_shift held) of
        (True, Press) \<Rightarrow> win_send os [key_event os VK_LSHIFT False True, event, key_event os VK_LSHIFT False False] s
      | (True, Let_Go) \<Rightarrow>
          win_send os (map (\<lambda>vk. key_event os vk False False) (shift_keys s) @ [event]
            @ map (\<lambda>vk. key_event os vk False True) (shift_keys s)) s
      | _ \<Rightarrow> win_send os [event] s))"

definition win_character :: "win_os \<Rightarrow> nat \<Rightarrow> bool \<Rightarrow> win_input \<Rightarrow> win_input" where
  "win_character os ch down s =
    (let units = utf16_char ch; scan = wo_layout os (hd units); wants = drop_bit 8 scan AND 0xff in
     if length units = 1 \<and> scan \<noteq> - 1 \<and> wants AND 6 = 0
     then win_layout_key os (scan AND 0xff) (wants AND 1 \<noteq> 0) down s
     else win_send os (map (\<lambda>u. unicode_event u down) units) s)"

text \<open>The modifiers the client holds, and which Shift.\<close>

definition track_modifier :: "u32 \<Rightarrow> bool \<Rightarrow> win_input \<Rightarrow> win_input" where
  "track_modifier keysym down s =
    (case modifier_of keysym of
       None \<Rightarrow> s
     | Some m \<Rightarrow>
       let s1 = s\<lparr>wi_mods := (if down then wi_mods s OR mod_bit m else wi_mods s AND NOT (mod_bit m))\<rparr>;
           side = (if keysym = 0xffe1 then 1 else 2)
       in if m = Shift_Key
          then s1\<lparr>wi_shift_down := (if down then wi_shift_down s OR side else wi_shift_down s AND NOT side)\<rparr>
          else s1)"

definition win_press :: "win_os \<Rightarrow> u32 \<Rightarrow> bool \<Rightarrow> win_input \<Rightarrow> win_input" where
  "win_press os keysym down s =
    (let s1 = track_modifier keysym down s in
     (case special_key keysym of
        Some key \<Rightarrow> win_send os [key_event os (wk_vk key) (wk_extended key) down] s1
      | None \<Rightarrow> (case character_of keysym of Some ch \<Rightarrow> win_character os ch down s1 | None \<Rightarrow> s1)))"

section \<open>The pointer\<close>

definition absolute :: "int \<Rightarrow> int \<Rightarrow> int \<Rightarrow> int" where
  "absolute pos min_pos size_px = i32 (tdiv (i64 (i32 (pos - min_pos) * 65535)) (max (i32 (size_px - 1)) 1))"

definition win_buttons :: "u8 \<Rightarrow> u8 \<Rightarrow> win_event list" where
  "win_buttons changed buttons =
    concat (map (\<lambda>(b, press, release).
        if changed AND push_bit b 1 \<noteq> 0
        then [mouse_event 0 0 0 [if buttons AND push_bit b 1 \<noteq> 0 then press else release]] else [])
      [(0, Left_Down, Left_Up), (1, Middle_Down, Middle_Up), (2, Right_Down, Right_Up)])"

definition win_wheels :: "u8 \<Rightarrow> u8 \<Rightarrow> win_event list" where
  "win_wheels changed buttons =
    concat (map (\<lambda>(b, delta, flag).
        if changed AND buttons AND push_bit b 1 \<noteq> 0 then [mouse_event 0 0 delta [flag]] else [])
      [(3, NOTCH, Wheel), (4, - NOTCH, Wheel), (5, - NOTCH, H_Wheel), (6, NOTCH, H_Wheel)])"

text \<open>\<open>vx\<close>, \<open>vy\<close>, \<open>vw\<close> and \<open>vh\<close> are the virtual desktop as the system says it is at this event.\<close>

definition win_pointer :: "win_os \<Rightarrow> int \<times> int \<times> int \<times> int \<Rightarrow> u16 \<Rightarrow> u16 \<Rightarrow> u8 \<Rightarrow> win_input \<Rightarrow> win_input" where
  "win_pointer os desk x y buttons s =
    (case desk of (vx, vy, vw, vh) \<Rightarrow>
     let move = mouse_event (absolute (i32 (int (unat x) + fst (wi_origin s))) vx vw)
                  (absolute (i32 (int (unat y) + snd (wi_origin s))) vy vh) 0 [Move_To, Absolute, Virtual_Desk];
         changed = buttons XOR wi_buttons s
     in win_send os (move # win_buttons changed buttons @ win_wheels changed buttons) (s\<lparr>wi_buttons := buttons\<rparr>))"

section \<open>Moves\<close>

definition clip_move :: "int \<times> int \<Rightarrow> rect \<Rightarrow> rect \<Rightarrow> int \<times> int \<Rightarrow> move option" where
  "clip_move src d reach off =
    (let clipped = rect_intersection d reach in
     if rect_is_empty clipped then None
     else Some \<lparr>src_x = i32 (i32 (fst src + i32 (rx1 clipped - rx1 d)) + fst off),
                src_y = i32 (i32 (snd src + i32 (ry1 clipped - ry1 d)) + snd off),
                dst = rect_translate clipped (fst off) (snd off)\<rparr>)"

end
