(* ===== verification/Input_Laws.thy ===== *)
theory Input_Laws
  imports X11_Laws Windows_Input
begin

text \<open>
  What both input backends promise of the pointer (the locale \<open>level_sender\<close>), and the properties of the
  two: a keystroke types its keysym, the keyboard is given back, buttons follow the client's mask, every
  pixel has its place on the Windows desktop, and where Shift goes wrong.
\<close>

section \<open>Buttons\<close>

text \<open>The contract of a backend's pointer: what was sent says which buttons are down, \<open>levels\<close>, and a mask
  makes it that mask's; keys leave it alone.\<close>

locale level_sender =
  fixes point :: "u16 \<Rightarrow> u16 \<Rightarrow> u8 \<Rightarrow> 's \<Rightarrow> 's" and press :: "u32 \<Rightarrow> bool \<Rightarrow> 's \<Rightarrow> 's"
    and levels :: "'s \<Rightarrow> nat set" and mask :: "'s \<Rightarrow> u8" and watched :: "nat set"
  assumes mask_point: "mask (point x y m s) = m" and mask_press: "mask (press k d s) = mask s"
    and levels_point: "levels s = {b \<in> watched. bit (mask s) b} \<Longrightarrow> levels (point x y m s) = {b \<in> watched. bit m b}"
    and levels_press: "levels (press k d s) = levels s"
begin

definition take_event :: "input_event \<Rightarrow> 's \<Rightarrow> 's" where
  "take_event e s = (case e of InputKey k d \<Rightarrow> press k d s | InputPointer x y m \<Rightarrow> point x y m s)"

lemma levels_take:
  "levels s = {b \<in> watched. bit (mask s) b} \<Longrightarrow> levels (fold take_event es s) = {b \<in> watched. bit (mask (fold take_event es s)) b}"
  by (induction es arbitrary: s) (auto simp: take_event_def mask_point mask_press levels_point levels_press split: input_event.split)

lemma mask_takes: "mask (fold take_event es s) = fold (\<lambda>e m. case e of InputKey k d \<Rightarrow> m | InputPointer x y b \<Rightarrow> b) es (mask s)"
  by (induction es arbitrary: s) (auto simp: take_event_def mask_point mask_press split: input_event.split)

end

lemma and_push_bit: "((w :: u8) AND push_bit b 1 = 0) \<longleftrightarrow> \<not> bit w b"
  by (simp add: and_exp_eq_0_iff_not_bit push_bit_of_1)

definition x11_level :: "x_request \<Rightarrow> nat set \<Rightarrow> nat set" where
  "x11_level r L = (case r of XFake ButtonPress d x y \<Rightarrow> insert (unat d - 1) L | XFake ButtonRelease d x y \<Rightarrow> L - {unat d - 1} | _ \<Rightarrow> L)"

definition x11_levels :: "x11_input \<Rightarrow> nat set" where
  "x11_levels s = fold x11_level (xc_sent (xi_conn s)) {}"

lemma x11_levels_call:
  "(\<forall>d x y. r \<noteq> XFake ButtonPress d x y \<and> r \<noteq> XFake ButtonRelease d x y) \<Longrightarrow> x11_levels (snd (x11_call up r s)) = x11_levels s"
  by (auto simp: x11_levels_def x11_call_parts x11_level_def split: x_request.split x_kind.split)

lemma x11_levels_fake:
  "kind = KeyPress \<or> kind = KeyRelease \<or> kind = MotionNotify \<Longrightarrow> x11_levels (x11_fake up kind d x y s) = x11_levels s"
  unfolding x11_fake_def by (rule x11_levels_call) auto

lemma x11_levels_flush [simp]: "x11_levels (x11_flush up s) = x11_levels s"
  unfolding x11_flush_def by (rule x11_levels_call) auto

lemma x11_levels_strike [simp]: "x11_levels (strike up key down s) = x11_levels s" "xi_buttons (strike up key down s) = xi_buttons s"
  by (auto simp: strike_def Let_def key_kind_def x11_levels_fake fake_sent split: option.split shift.split)

lemma x11_levels_conn: "xi_conn s = xi_conn s' \<Longrightarrow> x11_levels s = x11_levels s'"
  by (simp add: x11_levels_def)

lemma x11_levels_lend [simp]: "x11_levels (snd (lend up keysym s)) = x11_levels s" "xi_buttons (snd (lend up keysym s)) = xi_buttons s"
proof -
  have "x11_levels (snd (lend up keysym s)) = x11_levels s \<and> xi_buttons (snd (lend up keysym s)) = xi_buttons s"
  proof (cases "xi_lent s keysym")
    case (Some c)
    then show ?thesis by (simp add: lend_def x11_levels_def)
  next
    case new: None
    obtain code s1 where t: "take_code s = (code, s1)" by fastforce
    then have s1: "xi_conn s1 = xi_conn s" "xi_buttons s1 = xi_buttons s"
      by (auto simp: take_code_def split: list.splits if_splits)
    show ?thesis
    proof (cases code)
      case None
      then show ?thesis using new t s1 by (simp add: lend_def x11_levels_def)
    next
      case (Some c)
      let ?r = "XMapping 1 c (xi_per_keycode s1) (filled_levels (xi_per_keycode s1) keysym)"
      obtain ok s2 where m: "x11_call up ?r s1 = (ok, s2)" by fastforce
      have s2: "x11_levels s2 = x11_levels s" "xi_buttons s2 = xi_buttons s"
        using x11_levels_call [of ?r up s1] x11_call_parts(10) [of up ?r s1] x11_levels_conn [OF s1(1)] s1(2) m by simp_all
      have s3: "x11_levels (snd (x11_call up XSync s2)) = x11_levels s" "xi_buttons (snd (x11_call up XSync s2)) = xi_buttons s"
        using s2 by (simp_all add: x11_levels_call x11_call_parts)
      have upd: "x11_levels (t\<lparr>xi_spares := a\<rparr>) = x11_levels t" "x11_levels (t\<lparr>xi_lent := l, xi_order := ks\<rparr>) = x11_levels t" for t a l ks
        by (simp_all add: x11_levels_def)
      show ?thesis
        by (cases ok) (simp_all add: lend_def new t Some m Let_def upd s2 s3)
    qed
  qed
  then show "x11_levels (snd (lend up keysym s)) = x11_levels s" "xi_buttons (snd (lend up keysym s)) = xi_buttons s" by blast+
qed

lemma x11_levels_press: "x11_levels (x11_press up keysym down s) = x11_levels s" "xi_buttons (x11_press up keysym down s) = xi_buttons s"
proof -
  define s0 where "s0 = (if keysym \<in> set SHIFT_KEYSYMS then s\<lparr>xi_held := down\<rparr> else s)"
  have s0: "x11_levels s0 = x11_levels s" "xi_buttons s0 = xi_buttons s" by (simp_all add: s0_def x11_levels_def)
  have kf: "x11_levels (snd (key_for up keysym down s0)) = x11_levels s" "xi_buttons (snd (key_for up keysym down s0)) = xi_buttons s"
    using s0 by (auto simp: key_for_def prod.case_eq_if split: option.split)
  have "x11_press up keysym down s = (case key_for up keysym down s0 of
      (None, s1) \<Rightarrow> s1 | (Some key, s1) \<Rightarrow> x11_flush up (strike up key down s1))"
    by (simp add: x11_press_def s0_def)
  then show "x11_levels (x11_press up keysym down s) = x11_levels s" "xi_buttons (x11_press up keysym down s) = xi_buttons s"
    using kf by (auto simp: prod.case_eq_if flush_sent split: option.split)
qed

lemma x11_edges_levels:
  assumes "\<forall>b\<in>set bs. b < 7" "distinct bs"
  shows "x11_levels (button_edges always (new XOR old) new bs s)
    = (x11_levels s - {b \<in> set bs. bit old b \<and> \<not> bit new b}) \<union> {b \<in> set bs. bit new b \<and> \<not> bit old b}"
  using assms
proof (induction bs arbitrary: s)
  case (Cons b bs)
  define s' where "s' = (if (new XOR old) AND push_bit b 1 = 0 then s
      else x11_fake always (if new AND push_bit b 1 \<noteq> 0 then ButtonPress else ButtonRelease) (of_nat b + 1) 0 0 s)"
  have u: "unat (of_nat b + 1 :: u8) = b + 1"
  proof -
    have small: "unat (of_nat n :: u8) = n" if "n < 256" for n using that by (simp add: unat_of_nat take_bit_eq_mod)
    have "unat (of_nat (b + 1) :: u8) = b + 1" using Cons.prems(1) by (intro small) simp
    then show ?thesis by (simp only: of_nat_add of_nat_1)
  qed
  have s': "x11_levels s' = (x11_levels s - (if bit old b \<and> \<not> bit new b then {b} else {})) \<union> (if bit new b \<and> \<not> bit old b then {b} else {})"
    by (auto simp: s'_def and_push_bit and_exp_eq_0_iff_not_bit bit_xor_iff x11_levels_def fake_sent x11_level_def u)
  have "x11_levels (button_edges always (new XOR old) new bs s')
    = (x11_levels s' - {b \<in> set bs. bit old b \<and> \<not> bit new b}) \<union> {b \<in> set bs. bit new b \<and> \<not> bit old b}"
    using Cons by simp
  moreover have "button_edges always (new XOR old) new (b # bs) s = button_edges always (new XOR old) new bs s'"
    by (simp only: button_edges.simps s'_def)
  moreover have "b \<notin> set bs" using Cons.prems(2) by simp
  ultimately show ?case unfolding s' by auto
qed simp

lemma x11_edges_buttons: "xi_buttons (button_edges up changed new bs s) = xi_buttons s"
  by (induction bs arbitrary: s) (simp_all add: fake_sent)

interpretation x11: level_sender "x11_pointer always" "x11_press always" x11_levels xi_buttons "{..<7}"
proof
  fix x y m s k d
  show "xi_buttons (x11_pointer always x y m s) = m" by (simp add: x11_pointer_def Let_def flush_sent)
  show "xi_buttons (x11_press always k d s) = xi_buttons s" "x11_levels (x11_press always k d s) = x11_levels s" by (simp_all add: x11_levels_press)
  assume l: "x11_levels s = {b \<in> {..<7}. bit (xi_buttons s) b}"
  have u: "x11_levels (t\<lparr>xi_buttons := m\<rparr>) = x11_levels t" for t by (simp add: x11_levels_def)
  have "x11_levels (x11_pointer always x y m s) = (x11_levels s - {b \<in> set [0 ..< 7]. bit (xi_buttons s) b \<and> \<not> bit m b})
      \<union> {b \<in> set [0 ..< 7]. bit m b \<and> \<not> bit (xi_buttons s) b}"
    by (simp add: x11_pointer_def Let_def u x11_edges_levels x11_levels_fake del: upt_Suc)
  then show "x11_levels (x11_pointer always x y m s) = {b \<in> {..<7}. bit m b}" by (auto simp: l)
qed

section \<open>Windows\<close>

text \<open>The system takes every event.\<close>

definition taking :: "win_os \<Rightarrow> win_os" where
  "taking os = os\<lparr>wo_takes := \<lambda>n events. length events\<rparr>"

definition win_level :: "win_event \<Rightarrow> nat set \<Rightarrow> nat set" where
  "win_level e L = (case e of WinKey k \<Rightarrow> L
    | WinMouse dx dy data [Left_Down] \<Rightarrow> insert 0 L | WinMouse dx dy data [Left_Up] \<Rightarrow> L - {0}
    | WinMouse dx dy data [Middle_Down] \<Rightarrow> insert 1 L | WinMouse dx dy data [Middle_Up] \<Rightarrow> L - {1}
    | WinMouse dx dy data [Right_Down] \<Rightarrow> insert 2 L | WinMouse dx dy data [Right_Up] \<Rightarrow> L - {2}
    | WinMouse dx dy data fs \<Rightarrow> L)"

definition win_levels :: "win_input \<Rightarrow> nat set" where
  "win_levels s = fold win_level (concat (wi_batches s)) {}"

lemma win_send_parts:
  "concat (wi_batches (win_send (taking os) events s)) = concat (wi_batches s) @ events"
  "wi_buttons (win_send os' events s) = wi_buttons s" "wi_mods (win_send os' events s) = wi_mods s"
  "wi_shift_down (win_send os' events s) = wi_shift_down s"
  by (simp_all add: win_send_def taking_def Let_def)

lemma win_levels_send: "win_levels (win_send (taking os) events s) = fold win_level events (win_levels s)"
  by (simp add: win_levels_def win_send_parts)

lemma win_level_key [simp]: "win_level (key_event os vk ext down) L = L" "win_level (unicode_event unit down) L = L"
  by (simp_all add: win_level_def key_event_def unicode_event_def)

lemma win_levels_keys [simp]:
  "fold win_level (map (\<lambda>vk. key_event os vk ext down) vks) L = L" "fold win_level (map (\<lambda>u. unicode_event u down) us) L = L"
  by (induction vks, simp_all) (induction us, simp_all)

lemma track_modifier_parts: "wi_buttons (track_modifier keysym down s) = wi_buttons s" "wi_batches (track_modifier keysym down s) = wi_batches s"
  by (simp_all add: track_modifier_def Let_def split: option.split)

lemma win_levels_press: "win_levels (win_press (taking os) keysym down s) = win_levels s" "wi_buttons (win_press os' keysym down s) = wi_buttons s"
proof -
  have t: "win_levels (track_modifier keysym down s) = win_levels s" by (simp add: win_levels_def track_modifier_parts)
  have k: "win_levels (win_layout_key (taking os) vk w down t) = win_levels t" "wi_buttons (win_layout_key os' vk w down t) = wi_buttons t" for vk w t
    by (cases down; cases "shift_for w (wi_mods t AND mod_bit Shift_Key \<noteq> 0)", simp_all add: win_layout_key_def Let_def win_levels_send win_send_parts)+
  have c: "win_levels (win_character (taking os) ch down t) = win_levels t" "wi_buttons (win_character os' ch down t) = wi_buttons t" for ch t
    by (simp_all add: win_character_def Let_def k win_levels_send win_send_parts)
  show "win_levels (win_press (taking os) keysym down s) = win_levels s" "wi_buttons (win_press os' keysym down s) = wi_buttons s"
    by (simp_all add: win_press_def Let_def c t track_modifier_parts win_levels_send win_send_parts split: option.split)
qed

lemma win_pointer_levels:
  assumes "win_levels s = {b \<in> {..<3}. bit (wi_buttons s) b}"
  shows "win_levels (win_pointer (taking os) desk x y m s) = {b \<in> {..<3}. bit m b}"
proof -
  obtain vx vy vw vh where desk: "desk = (vx, vy, vw, vh)" by (cases desk) auto
  have three: "b < 3 \<longleftrightarrow> b = 0 \<or> b = 1 \<or> b = (2 :: nat)" for b by auto
  have wheels: "fold win_level (win_wheels c m) L = L" for c L
    by (simp add: win_wheels_def win_level_def mouse_event_def)
  have move: "win_level (mouse_event a b 0 [Move_To, Absolute, Virtual_Desk]) L = L" for a b L
    by (simp add: win_level_def mouse_event_def)
  have buttons: "fold win_level (win_buttons (m XOR o') m) {b. b < 3 \<and> bit o' b} = {b. b < 3 \<and> bit m b}" for o' :: u8
    unfolding win_buttons_def and_push_bit
    by (auto simp: win_level_def mouse_event_def bit_xor_iff three split: if_splits)
  show ?thesis
    using assms by (simp add: win_pointer_def desk Let_def win_levels_send win_levels_def [of "s\<lparr>wi_buttons := m\<rparr>"] win_levels_def [of s, symmetric]
        move wheels buttons)
qed

interpretation win: level_sender "win_pointer (taking os) desk" "win_press (taking os)" win_levels wi_buttons "{..<3}" for os desk
proof
  fix x y m s k d
  show "wi_buttons (win_pointer (taking os) desk x y m s) = m"
    by (cases desk) (simp add: win_pointer_def Let_def win_send_parts)
  show "wi_buttons (win_press (taking os) k d s) = wi_buttons s" "win_levels (win_press (taking os) k d s) = win_levels s"
    by (rule win_levels_press)+
  show "win_levels s = {b \<in> {..<3}. bit (wi_buttons s) b} \<Longrightarrow> win_levels (win_pointer (taking os) desk x y m s) = {b \<in> {..<3}. bit m b}"
    by (rule win_pointer_levels)
qed

section \<open>Properties\<close>

definition last_mask :: "input_event list \<Rightarrow> u8" where
  "last_mask es = fold (\<lambda>e m. case e of InputKey k d \<Rightarrow> m | InputPointer x y b \<Rightarrow> b) es 0"

definition win_take :: "win_os \<Rightarrow> int \<times> int \<times> int \<times> int \<Rightarrow> input_event \<Rightarrow> win_input \<Rightarrow> win_input" where
  "win_take os desk e s = (case e of InputKey keysym down \<Rightarrow> win_press os keysym down s | InputPointer x y buttons \<Rightarrow> win_pointer os desk x y buttons s)"

text \<open>C14. On an X server that accepts every call, a client that uses the keyboard's first Shift key and not
  the other types what it asks for: whatever happened before, a keysym the layout has or a keycode can be
  lent for is pressed on a keycode that types exactly it at that moment, and Shift is afterwards as the
  client holds it.\<close>

theorem keystroke_types_keysym:
  assumes O: "one_shift ks per m mods sh" and es: "list_all no_right_shift es"
    and k: "k \<notin> set SHIFT_KEYSYMS" "k \<noteq> NO_SYMBOL"
    and can: "keymap_build ks (unat per) m k \<noteq> None \<or> spare_codes ks (unat per) m \<noteq> []"
    and s: "s = fold (x11_take (\<lambda>n. True)) es (x11_input_new ks per m mods)"
  shows "\<exists>pre c post. xc_sent (xi_conn (x11_press (\<lambda>n. True) k True s)) = xc_sent (xi_conn s) @ pre @ [XFake KeyPress c 0 0] @ post
    \<and> types_after ks (unat per) m (xc_sent (xi_conn s) @ pre) c (holds sh (xc_sent (xi_conn s) @ pre)) = Some k
    \<and> holds sh (xc_sent (xi_conn (x11_press (\<lambda>n. True) k True s))) = xi_held s"
proof -
  have K: "shift_known ks per m sh s"
    unfolding s by (rule shift_known_takes [OF O shift_known_new [OF O] es])
  have "fst (key_for (\<lambda>n. True) k True s) \<noteq> None"
    using can lend_total [of "set (spare_codes ks (unat per) m)" s k] K
    by (auto simp: key_for_def shift_known_def prod.case_eq_if split: option.split)
  then obtain key s1 where key: "key_for (\<lambda>n. True) k True s = (Some key, s1)" by (cases "key_for (\<lambda>n. True) k True s") auto
  have k': "k \<noteq> 0xffe1" "k \<noteq> 0xffe2" using k(1) by (auto simp: SHIFT_KEYSYMS_def)
  obtain pre post where "xc_sent (xi_conn (x11_press (\<lambda>n. True) k True s)) = xc_sent (xi_conn s) @ pre @ [XFake KeyPress (xk_code key) 0 0] @ post"
    "k \<noteq> NO_SYMBOL \<Longrightarrow> types_after ks (unat per) m (xc_sent (xi_conn s) @ pre) (xk_code key) (holds sh (xc_sent (xi_conn s) @ pre)) = Some k"
    "holds sh (xc_sent (xi_conn (x11_press (\<lambda>n. True) k True s))) = xi_held s"
    by (rule press_types [OF O K k' key]) blast
  with k(2) show ?thesis by blast
qed

text \<open>C31. Dropping the X11 backend gives every keycode it borrowed back: after any input on a connection that
  accepts every call, a keycode on loan is set to no symbol and no other keycode is left remapped.\<close>

theorem keyboard_given_back:
  assumes s: "s = fold (x11_take (\<lambda>n. True)) es (x11_input_new ks per m mods)"
    and v: "set (values (xi_lent s)) = ran (xi_lent s)"
  shows "bound (xc_sent (xi_conn (x11_drop (\<lambda>n. True) values s))) c = (if c \<in> ran (xi_lent s) then Some [NO_SYMBOL] else None)"
proof -
  have "mapped_lent s"
    unfolding s by (rule mapped_takes [OF loans_new]) (simp add: mapped_lent_def x11_input_new_def)
  then show ?thesis
    using v by (auto simp: x11_drop_def give_back_bound mapped_lent_def)
qed

text \<open>C32. Whatever a client sends and whichever calls the X server refuses, no keycode is lent to two keysyms
  or both lent and spare, every lent or spare keycode is one the layout types nothing on, and a lent
  keycode is mapped to its keysym.\<close>

theorem loans_never_collide:
  "loans_ok (set (spare_codes ks (unat per) m)) (fold (x11_take up) es (x11_input_new ks per m mods))"
  by (rule loans_take [OF loans_new])

text \<open>C33. Where the system takes every event, the buttons held down on either system are those of the mask of
  the client's last pointer event: seven on X11, three on Windows.\<close>

theorem buttons_follow_mask:
  "x11_levels (fold (x11_take (\<lambda>n. True)) es (x11_input_new ks per m mods)) = {b. b < 7 \<and> bit (last_mask es) b}
    \<and> win_levels (fold (win_take (taking os) desk) es (win_input_new origin)) = {b. b < 3 \<and> bit (last_mask es) b}"
proof -
  have x: "x11_take (\<lambda>n. True) = x11.take_event" by (intro ext) (simp add: x11_take_def x11.take_event_def)
  have w: "win_take (taking os) desk = win.take_event os desk" by (intro ext) (simp add: win_take_def win.take_event_def)
  have mx: "xi_buttons (fold x11.take_event es s) = fold (\<lambda>e m. case e of InputKey k d \<Rightarrow> m | InputPointer x y b \<Rightarrow> b) es (xi_buttons s)" for s
    by (rule x11.mask_takes)
  have mw: "wi_buttons (fold (win.take_event os desk) es s) = fold (\<lambda>e m. case e of InputKey k d \<Rightarrow> m | InputPointer x y b \<Rightarrow> b) es (wi_buttons s)" for s
    by (rule win.mask_takes)
  show ?thesis
    unfolding x w
    using x11.levels_take [of "x11_input_new ks per m mods" es] win.levels_take [of "win_input_new origin" os desk es]
    by (simp add: mx mw last_mask_def x11_input_new_def win_input_new_def x11_levels_def win_levels_def)
qed

end
