(* ===== verification/Input_Runs.thy ===== *)
theory Input_Runs
  imports Input_Laws
begin

text \<open>
  Runs of the input backends on a small keyboard, the places of the pointer on Windows, and where Shift goes
  wrong: the witnesses and the counterexamples of the input properties.
\<close>

section \<open>The pointer's place\<close>

lemma place_bounds:
  fixes n w :: int
  assumes "0 \<le> n" "n \<le> w" "1 \<le> w"
  shows "0 \<le> n * 65535 div w" "n * 65535 div w \<le> 65535"
proof -
  have "n * 65535 div w \<le> w * 65535 div w" using assms by (intro zdiv_mono1) auto
  also have "w * 65535 div w = 65535" using assms by simp
  finally show "n * 65535 div w \<le> 65535" .
  show "0 \<le> n * 65535 div w" using assms by (simp add: pos_imp_zdiv_nonneg_iff)
qed

lemma place_of:
  assumes "0 \<le> n" "n \<le> w" "1 \<le> w" "w \<le> 65535"
  shows "absolute (min_pos + n) min_pos (w + 1) = n * 65535 div w"
proof -
  have "0 \<le> n * 65535" "n * 65535 \<le> 65535 * 65535" using assms by auto
  then have "tdiv (i64 (i32 n * 65535)) (max (i32 w) 1) = n * 65535 div w"
    using assms by (auto simp: i32_small i64_small tdiv_def sgn_if)
  then show ?thesis
    using place_bounds [OF assms(1-3)] by (simp add: absolute_def i32_small)
qed

text \<open>C34. Windows is told a place between 0 and 65535 for every pixel of a virtual desktop up to 65536 pixels
  wide, 0 for the first pixel and 65535 for the last, and a later one for each later pixel.\<close>

theorem pointer_on_desktop:
  assumes "min_pos \<le> p" "p < q" "q < min_pos + size_px" "size_px \<le> 65536"
  shows "0 \<le> absolute p min_pos size_px \<and> absolute p min_pos size_px < absolute q min_pos size_px \<and> absolute q min_pos size_px \<le> 65535
    \<and> absolute min_pos min_pos size_px = 0 \<and> absolute (min_pos + size_px - 1) min_pos size_px = 65535"
proof -
  define w a b where "w = size_px - 1" and "a = p - min_pos" and "b = q - min_pos"
  have n: "0 \<le> a" "a < b" "b \<le> w" "1 \<le> w" "w \<le> 65535" using assms by (simp_all add: a_def b_def w_def)
  have at: "absolute p min_pos size_px = a * 65535 div w" "absolute q min_pos size_px = b * 65535 div w"
    "absolute min_pos min_pos size_px = 0" "absolute (min_pos + size_px - 1) min_pos size_px = 65535"
  proof -
    have e: "w + 1 = size_px" "min_pos + a = p" "min_pos + b = q" "min_pos + size_px - 1 = min_pos + w" by (simp_all add: w_def a_def b_def)
    show "absolute p min_pos size_px = a * 65535 div w" "absolute q min_pos size_px = b * 65535 div w"
      "absolute min_pos min_pos size_px = 0" "absolute (min_pos + size_px - 1) min_pos size_px = 65535"
      using place_of [of a w min_pos, unfolded e] place_of [of b w min_pos, unfolded e] place_of [of 0 w min_pos, unfolded e]
        place_of [of w w min_pos, unfolded e(1)] n by (simp_all add: e(4))
  qed
  have "(a * 65535 + w) div w \<le> b * 65535 div w" using n by (intro zdiv_mono1) linarith+
  then have "a * 65535 div w < b * 65535 div w" using n div_add_self2 [of w "a * 65535"] by simp
  then show ?thesis
    unfolding at using place_bounds [of a w] place_bounds [of b w] n by simp
qed

theorem pointer_on_desktop_witness:
  "0 \<le> absolute (- 5) (- 1920) 3840 \<and> absolute (- 5) (- 1920) 3840 < absolute 7 (- 1920) 3840 \<and> absolute 7 (- 1920) 3840 \<le> 65535
    \<and> absolute (- 1920) (- 1920) 3840 = 0 \<and> absolute (- 1920 + 3840 - 1) (- 1920) 3840 = 65535"
  by (rule pointer_on_desktop) simp_all

section \<open>A small keyboard\<close>

text \<open>Keycodes 8, 9 and 10: the digit 1, the left Shift, and nothing.\<close>

definition desk_keys :: "u32 list" where
  "desk_keys = [0x31, 0x21, 0xffe1, 0, 0, 0]"

definition desk_mods :: "u8 list" where
  "desk_mods = [9, 0, 0, 0, 0, 0, 0, 0]"

lemma desk_spares: "spare_codes desk_keys 2 8 = [10]"
  by (simp add: spare_codes_def desk_keys_def pieces.simps map_filter_simps NO_SYMBOL_def code_from_def)

lemma desk_map: "keymap_build desk_keys 2 8 = Map.empty(0x31 \<mapsto> \<lparr>xk_code = 8, xk_shift = False\<rparr>, 0xffe1 \<mapsto> \<lparr>xk_code = 9, xk_shift = False\<rparr>,
    0x21 \<mapsto> \<lparr>xk_code = 8, xk_shift = True\<rparr>)"
  by (simp add: keymap_build_def desk_keys_def upt_rec NO_SYMBOL_def checked_code_def code_from_def or_insert_def upper_case_def)

lemma desk_one_shift: "one_shift desk_keys 2 8 desk_mods 9"
proof -
  have "unat (8 :: u8) + length desk_keys div unat (2 :: u8) \<le> 256" by (simp add: desk_keys_def)
  moreover have "find (\<lambda>k. k \<noteq> 0) (take (length desk_mods div 8) desk_mods) = Some 9" by (simp add: desk_mods_def)
  ultimately show ?thesis
    by (auto simp: one_shift_def desk_map split: if_splits)
qed

text \<open>Holding Shift, the client asks for 1: Shift is let go of around it.\<close>

theorem keystroke_types_keysym_witness:
  "\<exists>pre c post. xc_sent (xi_conn (x11_press (\<lambda>n. True) 0x31 True (fold (x11_take (\<lambda>n. True)) [InputKey 0xffe1 True] (x11_input_new desk_keys 2 8 desk_mods))))
      = xc_sent (xi_conn (fold (x11_take (\<lambda>n. True)) [InputKey 0xffe1 True] (x11_input_new desk_keys 2 8 desk_mods))) @ pre @ [XFake KeyPress c 0 0] @ post
    \<and> types_after desk_keys (unat (2 :: u8)) 8 (xc_sent (xi_conn (fold (x11_take (\<lambda>n. True)) [InputKey 0xffe1 True] (x11_input_new desk_keys 2 8 desk_mods))) @ pre) c
      (holds 9 (xc_sent (xi_conn (fold (x11_take (\<lambda>n. True)) [InputKey 0xffe1 True] (x11_input_new desk_keys 2 8 desk_mods))) @ pre)) = Some 0x31
    \<and> holds 9 (xc_sent (xi_conn (x11_press (\<lambda>n. True) 0x31 True (fold (x11_take (\<lambda>n. True)) [InputKey 0xffe1 True] (x11_input_new desk_keys 2 8 desk_mods)))))
      = xi_held (fold (x11_take (\<lambda>n. True)) [InputKey 0xffe1 True] (x11_input_new desk_keys 2 8 desk_mods))"
  by (rule keystroke_types_keysym [OF desk_one_shift _ _ _ _ refl]) (simp_all add: no_right_shift_def SHIFT_KEYSYMS_def NO_SYMBOL_def desk_map)

text \<open>A letter the keyboard has no key for is typed on the one spare keycode, and the keycode given back.\<close>

theorem keyboard_given_back_witness:
  "bound (xc_sent (xi_conn (x11_drop (\<lambda>n. True) (\<lambda>m. [10]) (fold (x11_take (\<lambda>n. True)) [InputKey 0x61 True] (x11_input_new desk_keys 2 8 desk_mods))))) 10
    = Some [NO_SYMBOL]"
proof -
  define s where "s = fold (x11_take (\<lambda>n. True)) [InputKey 0x61 True] (x11_input_new desk_keys 2 8 desk_mods)"
  have none: "keymap_build desk_keys (unat (2 :: u8)) 8 0x61 = None" "spare_codes desk_keys (unat (2 :: u8)) 8 = [10]"
    by (simp_all add: desk_map desk_spares)
  have l: "xi_lent s = [0x61 \<mapsto> 10]"
    using none by (simp add: s_def x11_take_def x11_press_def SHIFT_KEYSYMS_def key_for_def x11_input_new_def lend_def take_code_def
      x11_call_def x_request_def Let_def x11_flush_def strike_def shift_for_def desk_mods_def x11_fake_def)
  show ?thesis
    using keyboard_given_back [of s "[InputKey 0x61 True]" desk_keys 2 8 desk_mods "\<lambda>m. [10]" 10] l by (simp add: s_def)
qed

section \<open>Where Shift goes wrong\<close>

text \<open>On X11, a client that presses and lets go of the other Shift key leaves Shift down: the key put back
  after a press is always the first Shift keycode, whether or not it was the one held.\<close>

theorem other_shift_sticks:
  assumes "xi_shift s = Some sh" "xi_keys s 0xffe2 = Some key" "\<not> xk_shift key" "xk_code key \<noteq> sh"
    and s': "s' = fold (x11_take (\<lambda>n. True)) [InputKey 0xffe2 True, InputKey 0xffe2 False] s"
  shows "\<not> xi_held s' \<and> holds sh (xc_sent (xi_conn s'))"
proof -
  define s1 where "s1 = x11_flush (\<lambda>n. True) (strike (\<lambda>n. True) key True (s\<lparr>xi_held := True\<rparr>))"
  have s1: "x11_take (\<lambda>n. True) (InputKey 0xffe2 True) s = s1" "xi_keys s1 = xi_keys s"
  proof -
    have "same_keys (s\<lparr>xi_held := True\<rparr>) s1" unfolding s1_def by (rule same_keys_trans [OF same_keys_strike same_keys_flush])
    then show "x11_take (\<lambda>n. True) (InputKey 0xffe2 True) s = s1" "xi_keys s1 = xi_keys s"
      using assms(2) by (simp_all add: x11_take_def x11_press_def SHIFT_KEYSYMS_def key_for_def s1_def same_keys_def)
  qed
  have "xc_sent (xi_conn s1) = (((xc_sent (xi_conn s) @ [XFake KeyRelease sh 0 0]) @ [XFake KeyPress (xk_code key) 0 0]) @ [XFake KeyPress sh 0 0]) @ [XFlush]"
    using assms(1,3) by (simp add: s1_def flush_sent strike_def key_kind_def fake_sent shift_for_def)
  then have h: "holds sh (xc_sent (xi_conn s1))" by (simp only: holds_snoc x_kind.case HOL.simp_thms)
  have "s' = x11_flush (\<lambda>n. True) (strike (\<lambda>n. True) key False (s1\<lparr>xi_held := False\<rparr>))"
    using assms(2) s1 by (simp add: s' x11_take_def x11_press_def SHIFT_KEYSYMS_def key_for_def)
  moreover have "holds sh ((xc_sent (xi_conn s1) @ [XFake KeyRelease (xk_code key) 0 0]) @ [XFlush])"
    using h assms(4) by (simp only: holds_snoc x_kind.case) auto
  ultimately show ?thesis by (simp add: flush_sent strike_up)
qed

text \<open>Keycode 10 is the right Shift.\<close>

theorem other_shift_sticks_witness:
  "\<not> xi_held (fold (x11_take (\<lambda>n. True)) [InputKey 0xffe2 True, InputKey 0xffe2 False] (x11_input_new [0x31, 0x21, 0xffe1, 0, 0xffe2, 0] 2 8 desk_mods))
    \<and> holds 9 (xc_sent (xi_conn (fold (x11_take (\<lambda>n. True)) [InputKey 0xffe2 True, InputKey 0xffe2 False] (x11_input_new [0x31, 0x21, 0xffe1, 0, 0xffe2, 0] 2 8 desk_mods))))"
proof -
  have "keymap_build [0x31, 0x21, 0xffe1, 0, 0xffe2, 0] (unat (2 :: u8)) 8 0xffe2 = Some \<lparr>xk_code = 10, xk_shift = False\<rparr>"
    by (simp add: keymap_build_def upt_rec NO_SYMBOL_def checked_code_def code_from_def or_insert_def upper_case_def)
  then show ?thesis
    by (intro other_shift_sticks [OF _ _ _ _ refl, where key = "\<lparr>xk_code = 10, xk_shift = False\<rparr>"])
      (simp_all add: x11_input_new_def desk_mods_def)
qed

text \<open>On X11, a client holding Shift gets every unshifted key of the layout without it, an arrow no less than a
  character: Shift is let go of around the press whatever the key is.\<close>

theorem held_shift_taken_away:
  assumes "xi_shift s = Some sh" "xi_held s" "xi_keys s k = Some key" "\<not> xk_shift key" "k \<notin> set SHIFT_KEYSYMS"
  shows "xc_sent (xi_conn (x11_press (\<lambda>n. True) k True s))
    = xc_sent (xi_conn s) @ [XFake KeyRelease sh 0 0, XFake KeyPress (xk_code key) 0 0, XFake KeyPress sh 0 0, XFlush]"
  using assms by (simp add: x11_press_def key_for_def flush_sent strike_def key_kind_def fake_sent shift_for_def)

text \<open>Which virtual keys the system has down after some events.\<close>

definition vk_down :: "u16 \<Rightarrow> win_event list \<Rightarrow> bool" where
  "vk_down vk events = fold (\<lambda>e b. case e of WinKey k \<Rightarrow> (if wb_vk k = vk \<and> \<not> wb_unicode k then \<not> wb_up k else b) | _ \<Rightarrow> b) events False"

text \<open>On Windows, a client that holds both Shift keys and lets go of the right one gets the next character
  with the left still down: the one bit of the modifier is cleared, and Shift is no longer let go of.\<close>

theorem one_of_two_shifts:
  assumes "wo_layout os 0x31 = 0x31" "wi_mods s = 0" "wi_shift_down s = 0"
    and s': "s' = fold (win_take (taking os) desk) [InputKey 0xffe1 True, InputKey 0xffe2 True, InputKey 0xffe2 False] s"
  shows "wi_shift_down s' = 1 \<and> vk_down VK_LSHIFT (concat (wi_batches s'))
    \<and> concat (wi_batches (win_take (taking os) desk (InputKey 0x31 True) s')) = concat (wi_batches s') @ [key_event (taking os) 0x31 False True]"
proof -
  have special: "special_key 0xffe1 = Some (key_plain 0xa0)" "special_key 0xffe2 = Some (key_plain 0xa1)" "special_key 0x31 = None"
    "modifier_of 0x31 = None" "modifier_of 0xffe1 = Some Shift_Key" "modifier_of 0xffe2 = Some Shift_Key" "character_of 0x31 = Some 0x31"
    by (simp_all add: special_key_def special_table_def modifier_of_def character_of_def char_from_def)
  have s'_is: "wi_mods s' = 0" "wi_shift_down s' = 1"
    "concat (wi_batches s') = concat (wi_batches s) @ [key_event (taking os) 0xa0 False True, key_event (taking os) 0xa1 False True, key_event (taking os) 0xa1 False False]"
    using assms(2,3) by (simp_all add: s' win_take_def win_press_def special key_plain_def win_send_parts track_modifier_def mod_bit_def Let_def track_modifier_parts)
  have "win_take (taking os) desk (InputKey 0x31 True) s' = win_send (taking os) [key_event (taking os) 0x31 False True] s'"
    using s'_is(1) assms(1)
    by (simp add: win_take_def win_press_def special track_modifier_def win_character_def utf16_char_def win_layout_key_def Let_def taking_def mod_bit_def shift_for_def)
  then show ?thesis
    using s'_is by (simp add: win_send_parts vk_down_def key_event_def VK_LSHIFT_def)
qed

end
