(* ===== verification/X11_Clipboard.thy ===== *)
theory X11_Clipboard
  imports Utf8
begin

text \<open>
  \<open>alloyvnc-screen-x11/src/clipboard.rs\<close>: the desk's clipboard as X11's selections. The connection is the
  list of requests it accepted; the server is a parameter: whether it accepts the \<open>n\<close>-th call made on the
  connection and what it answers to that call where it is a GetProperty. A poll is given the events that are
  waiting, and whether reading them ends in an error.
\<close>

section \<open>State\<close>

text \<open>The atoms X11 names from the start, and no atom.\<close>

definition NONE_ATOM :: u32 where "NONE_ATOM = 0"
definition STRING_ATOM :: u32 where "STRING_ATOM = 31"

definition WAIT_POLLS :: nat where "WAIT_POLLS = 20"
definition MAX_WORDS :: nat where "MAX_WORDS = 2 ^ 20 div 4"

record atoms =
  at_clipboard :: u32
  at_utf8 :: u32
  at_targets :: u32
  at_text :: u32
  at_incr :: u32
  at_ours :: u32

datatype clip_request =
    Convert u32 u32 u32 u32
  | GetProperty u32 u32 nat
  | ChangeAtoms u32 u32 "u32 list"
  | ChangeBytes u32 u32 u32 bytes
  | SendNotify u32 u32 u32 u32 u32
  | SetOwner u32 u32
  | DestroyWindow u32
  | FlushClip

text \<open>What wakes a poll: a new owner, an answer to a conversion, somebody asking (with the time, requestor,
  selection, target and property named), the selection lost, or something else.\<close>

datatype clip_event =
    OwnerChanged u32
  | Converted u32 u32
  | Requested u32 u32 u32 u32 u32
  | Cleared
  | OtherEvent

record x_server =
  xs_up :: "nat \<Rightarrow> bool"
  xs_reply :: "nat \<Rightarrow> clip_request \<Rightarrow> u32 \<times> bytes"

record x11_clipboard =
  cb_sent :: "clip_request list"
  cb_tried :: nat
  cb_window :: u32
  cb_atoms :: atoms
  cb_ours :: "str option"
  cb_seen :: "str option"
  cb_asking :: nat
  cb_reported :: bool

definition x11_clipboard_new :: "u32 \<Rightarrow> atoms \<Rightarrow> x11_clipboard" where
  "x11_clipboard_new window atoms =
    \<lparr>cb_sent = [], cb_tried = 0, cb_window = window, cb_atoms = atoms, cb_ours = None, cb_seen = None, cb_asking = 0, cb_reported = False\<rparr>"

definition cb_trouble :: "x11_clipboard \<Rightarrow> x11_clipboard" where
  "cb_trouble s = s\<lparr>cb_reported := True\<rparr>"

text \<open>One call on the connection.\<close>

definition cb_call :: "x_server \<Rightarrow> clip_request \<Rightarrow> x11_clipboard \<Rightarrow> bool \<times> x11_clipboard" where
  "cb_call xs r s =
    (if xs_up xs (cb_tried s) then (True, s\<lparr>cb_sent := cb_sent s @ [r], cb_tried := Suc (cb_tried s)\<rparr>)
     else (False, s\<lparr>cb_tried := Suc (cb_tried s)\<rparr>))"

text \<open>A call whose failure is only reported.\<close>

definition cb_try :: "x_server \<Rightarrow> clip_request \<Rightarrow> x11_clipboard \<Rightarrow> x11_clipboard" where
  "cb_try xs r s = (case cb_call xs r s of (True, s1) \<Rightarrow> s1 | (False, s1) \<Rightarrow> cb_trouble s1)"

section \<open>Reading the desk\<close>

definition cb_ask :: "x_server \<Rightarrow> x11_clipboard \<Rightarrow> x11_clipboard" where
  "cb_ask xs s =
    (if cb_asking s > 0 then s
     else
       (case cb_call xs (Convert (cb_window s) (at_clipboard (cb_atoms s)) (at_utf8 (cb_atoms s)) (at_ours (cb_atoms s))) s of
          (True, s1) \<Rightarrow> s1\<lparr>cb_asking := WAIT_POLLS\<rparr>
        | (False, s1) \<Rightarrow> cb_trouble s1))"

definition cb_collect :: "x_server \<Rightarrow> u32 \<Rightarrow> x11_clipboard \<Rightarrow> str option \<times> x11_clipboard" where
  "cb_collect xs property s =
    (let s0 = s\<lparr>cb_asking := 0\<rparr> in
     if property = NONE_ATOM then (None, s0)
     else
       (case cb_call xs (GetProperty (cb_window s) property MAX_WORDS) s0 of
          (False, s1) \<Rightarrow> (None, cb_trouble s1)
        | (True, s1) \<Rightarrow>
          let (typ, data) = xs_reply xs (cb_tried s0) (GetProperty (cb_window s) property MAX_WORDS) in
          if typ = at_incr (cb_atoms s) then (None, s1)
          else if data = [] then (None, s1)
          else (Some (utf8_lossy data), s1)))"

section \<open>Answering for what is owned\<close>

definition cb_tell :: "x_server \<Rightarrow> u32 \<Rightarrow> u32 \<Rightarrow> u32 \<Rightarrow> u32 \<Rightarrow> u32 \<Rightarrow> x11_clipboard \<Rightarrow> x11_clipboard" where
  "cb_tell xs time requestor selection target property s = cb_try xs (SendNotify time requestor selection target property) s"

text \<open>The property a request gets written, or nothing where the target is not one this owner can produce.\<close>

definition cb_write :: "atoms \<Rightarrow> str \<Rightarrow> u32 \<Rightarrow> u32 \<Rightarrow> u32 \<Rightarrow> clip_request option" where
  "cb_write at text requestor target property =
    (if target = at_targets at then Some (ChangeAtoms requestor property [at_targets at, at_utf8 at, STRING_ATOM, at_text at])
     else if target = at_utf8 at then Some (ChangeBytes requestor property (at_utf8 at) (utf8 text))
     else if target = STRING_ATOM \<or> target = at_text at then Some (ChangeBytes requestor property STRING_ATOM (string_to_latin1 text))
     else None)"

definition cb_answer :: "x_server \<Rightarrow> u32 \<Rightarrow> u32 \<Rightarrow> u32 \<Rightarrow> u32 \<Rightarrow> u32 \<Rightarrow> x11_clipboard \<Rightarrow> x11_clipboard" where
  "cb_answer xs time requestor selection target prop s =
    (case cb_ours s of
       None \<Rightarrow> cb_tell xs time requestor selection target NONE_ATOM s
     | Some text \<Rightarrow>
       let property = (if prop = NONE_ATOM then target else prop) in
       (case cb_write (cb_atoms s) text requestor target property of
          None \<Rightarrow> cb_tell xs time requestor selection target NONE_ATOM s
        | Some r \<Rightarrow>
          (case cb_call xs r s of
             (False, s1) \<Rightarrow> cb_trouble s1
           | (True, s1) \<Rightarrow> cb_tell xs time requestor selection target property s1)))"

section \<open>A poll\<close>

definition cb_event :: "x_server \<Rightarrow> clip_event \<Rightarrow> str option \<times> x11_clipboard \<Rightarrow> str option \<times> x11_clipboard" where
  "cb_event xs ev = (\<lambda>(text, s).
    case ev of
      OwnerChanged owner \<Rightarrow> if owner = cb_window s \<or> owner = NONE_ATOM then (text, s) else (text, cb_ask xs s)
    | Converted requestor property \<Rightarrow>
        if requestor = cb_window s
        then (case cb_collect xs property s of (Some got, s1) \<Rightarrow> (Some got, s1) | (None, s1) \<Rightarrow> (text, s1))
        else (text, s)
    | Requested time requestor selection target property \<Rightarrow> (text, cb_answer xs time requestor selection target property s)
    | Cleared \<Rightarrow> (text, s\<lparr>cb_ours := None\<rparr>)
    | OtherEvent \<Rightarrow> (text, s))"

definition cb_drain :: "x_server \<Rightarrow> clip_event list \<Rightarrow> bool \<Rightarrow> x11_clipboard \<Rightarrow> str option \<times> x11_clipboard" where
  "cb_drain xs evs failed s =
    (let (text, s1) = fold (cb_event xs) evs (None, s);
         s2 = (if failed then cb_trouble s1 else s1);
         s3 = cb_try xs FlushClip s2
     in (text, s3\<lparr>cb_asking := cb_asking s3 - 1\<rparr>))"

definition cb_changed :: "x_server \<Rightarrow> clip_event list \<Rightarrow> bool \<Rightarrow> x11_clipboard \<Rightarrow> str option \<times> x11_clipboard" where
  "cb_changed xs evs failed s =
    (case cb_drain xs evs failed s of
       (None, s1) \<Rightarrow> (None, s1)
     | (Some text, s1) \<Rightarrow>
       if cb_seen s1 = Some text then (None, s1)
       else if cb_ours s1 = Some text then (None, s1\<lparr>cb_seen := Some text\<rparr>)
       else (Some text, s1\<lparr>cb_seen := Some text\<rparr>))"

section \<open>A client's text\<close>

definition cb_set :: "x_server \<Rightarrow> str \<Rightarrow> x11_clipboard \<Rightarrow> x11_clipboard" where
  "cb_set xs text s =
    (let s0 = s\<lparr>cb_ours := Some text\<rparr> in
     (case cb_call xs (SetOwner (cb_window s0) (at_clipboard (cb_atoms s0))) s0 of
        (False, s1) \<Rightarrow> cb_trouble s1
      | (True, s1) \<Rightarrow> cb_try xs FlushClip s1))"

definition cb_drop :: "x_server \<Rightarrow> x11_clipboard \<Rightarrow> x11_clipboard" where
  "cb_drop xs s = snd (cb_call xs FlushClip (snd (cb_call xs (DestroyWindow (cb_window s)) s)))"

end
