(* ===== verification/Clipboard_Laws.thy ===== *)
theory Clipboard_Laws
  imports X11_Clipboard Windows_Clipboard
begin

text \<open>
  What the clipboard backends promise: a client's text reaches whoever pastes at the desk, every request for
  a selection is answered once, and a text is news once. Four theorems say where they lose a text.
\<close>

section \<open>The X11 connection\<close>

definition accepts :: "x_server \<Rightarrow> bool" where
  "accepts xs \<longleftrightarrow> (\<forall>n. xs_up xs n)"

lemma cb_call_accepts: "accepts xs \<Longrightarrow> cb_call xs r s = (True, s\<lparr>cb_sent := cb_sent s @ [r], cb_tried := Suc (cb_tried s)\<rparr>)"
  by (simp add: cb_call_def accepts_def)

lemma cb_try_accepts: "accepts xs \<Longrightarrow> cb_try xs r s = s\<lparr>cb_sent := cb_sent s @ [r], cb_tried := Suc (cb_tried s)\<rparr>"
  by (simp add: cb_try_def cb_call_accepts)

text \<open>What a call leaves alone.\<close>

lemma cb_call_keeps:
  "cb_ours (snd (cb_call xs r s)) = cb_ours s" "cb_seen (snd (cb_call xs r s)) = cb_seen s" "cb_window (snd (cb_call xs r s)) = cb_window s"
  "cb_atoms (snd (cb_call xs r s)) = cb_atoms s" "cb_asking (snd (cb_call xs r s)) = cb_asking s"
  by (simp_all add: cb_call_def)

lemma cb_trouble_keeps [simp]:
  "cb_ours (cb_trouble s) = cb_ours s" "cb_seen (cb_trouble s) = cb_seen s" "cb_window (cb_trouble s) = cb_window s"
  "cb_atoms (cb_trouble s) = cb_atoms s" "cb_asking (cb_trouble s) = cb_asking s" "cb_sent (cb_trouble s) = cb_sent s"
  by (simp_all add: cb_trouble_def)

lemma cb_try_keeps:
  "cb_ours (cb_try xs r s) = cb_ours s" "cb_seen (cb_try xs r s) = cb_seen s" "cb_window (cb_try xs r s) = cb_window s"
  "cb_atoms (cb_try xs r s) = cb_atoms s" "cb_asking (cb_try xs r s) = cb_asking s"
  by (simp_all add: cb_try_def cb_call_def)

lemma cb_ask_keeps: "cb_ours (cb_ask xs s) = cb_ours s" "cb_seen (cb_ask xs s) = cb_seen s" "cb_window (cb_ask xs s) = cb_window s" "cb_atoms (cb_ask xs s) = cb_atoms s"
  by (simp_all add: cb_ask_def cb_call_def)

lemma cb_collect_keeps: "cb_ours (snd (cb_collect xs p s)) = cb_ours s" "cb_seen (snd (cb_collect xs p s)) = cb_seen s"
  "cb_window (snd (cb_collect xs p s)) = cb_window s" "cb_atoms (snd (cb_collect xs p s)) = cb_atoms s"
  by (simp_all add: cb_collect_def cb_call_def Let_def split: prod.split)

lemma cb_answer_keeps: "cb_ours (cb_answer xs t r sel tgt p s) = cb_ours s" "cb_seen (cb_answer xs t r sel tgt p s) = cb_seen s"
  "cb_window (cb_answer xs t r sel tgt p s) = cb_window s" "cb_atoms (cb_answer xs t r sel tgt p s) = cb_atoms s"
  "cb_asking (cb_answer xs t r sel tgt p s) = cb_asking s"
  by (simp_all add: cb_answer_def cb_tell_def cb_call_def cb_try_def Let_def split: option.split)

text \<open>No event touches what was seen.\<close>

lemma cb_event_keeps:
  "cb_seen (snd (cb_event xs ev ts)) = cb_seen (snd ts)" "cb_window (snd (cb_event xs ev ts)) = cb_window (snd ts)"
  "cb_atoms (snd (cb_event xs ev ts)) = cb_atoms (snd ts)"
  using cb_collect_keeps
  by (cases ev; cases ts; simp add: cb_event_def cb_ask_keeps cb_answer_keeps prod.case_eq_if split: option.split)+

lemma cb_events_keep:
  "cb_seen (snd (fold (cb_event xs) evs ts)) = cb_seen (snd ts)" "cb_window (snd (fold (cb_event xs) evs ts)) = cb_window (snd ts)"
  "cb_atoms (snd (fold (cb_event xs) evs ts)) = cb_atoms (snd ts)"
  by (induction evs arbitrary: ts) (simp_all add: cb_event_keeps)

lemma cb_drain_eq:
  "cb_drain xs evs failed s = (let r = fold (cb_event xs) evs (None, s); s3 = cb_try xs FlushClip (if failed then cb_trouble (snd r) else snd r)
    in (fst r, s3\<lparr>cb_asking := cb_asking s3 - 1\<rparr>))"
  by (simp add: cb_drain_def Let_def prod.case_eq_if)

lemma cb_drain_seen: "cb_seen (snd (cb_drain xs evs failed s)) = cb_seen s"
  by (simp add: cb_drain_eq Let_def cb_try_keeps cb_events_keep)

section \<open>Properties\<close>

text \<open>What a poll reports is news: not the text reported or recognised last, and not the text this process owns.\<close>

lemma clipboard_news:
  "cb_changed xs evs failed s = (Some t, s1) \<Longrightarrow> cb_seen s \<noteq> Some t \<and> cb_ours s1 \<noteq> Some t \<and> cb_seen s1 = Some t"
  using cb_drain_seen [of xs evs failed s]
  by (cases "cb_drain xs evs failed s") (auto simp: cb_changed_def split: option.splits if_splits)

text \<open>Who was answered by some requests, and who was asking in some events.\<close>

definition answered :: "clip_request list \<Rightarrow> (u32 \<times> u32 \<times> u32 \<times> u32) list" where
  "answered rs = List.map_filter (\<lambda>r. case r of SendNotify t w sel tgt p \<Rightarrow> Some (t, w, sel, tgt) | _ \<Rightarrow> None) rs"

definition asked :: "clip_event list \<Rightarrow> (u32 \<times> u32 \<times> u32 \<times> u32) list" where
  "asked evs = List.map_filter (\<lambda>e. case e of Requested t w sel tgt p \<Rightarrow> Some (t, w, sel, tgt) | _ \<Rightarrow> None) evs"

lemma answered_simps [simp]:
  "answered [] = []" "answered (rs @ qs) = answered rs @ answered qs" "answered [SendNotify t w sel tgt p] = [(t, w, sel, tgt)]"
  "answered [Convert a b c d] = []" "answered [GetProperty a b n] = []" "answered [ChangeAtoms a b ts] = []" "answered [ChangeBytes a b c bs] = []"
  "answered [SetOwner a b] = []" "answered [DestroyWindow a] = []" "answered [FlushClip] = []"
  by (simp_all add: answered_def map_filter_def)

lemma asked_simps [simp]:
  "asked [] = []" "asked (Requested t w sel tgt p # evs) = (t, w, sel, tgt) # asked evs" "asked (OwnerChanged a # evs) = asked evs"
  "asked (Converted a b # evs) = asked evs" "asked (Cleared # evs) = asked evs" "asked (OtherEvent # evs) = asked evs"
  by (simp_all add: asked_def map_filter_simps)

lemma cb_write_answers: "cb_write at text w tgt p = Some r \<Longrightarrow> answered [r, SendNotify t w' sel tgt' p'] = [(t, w', sel, tgt')]"
  by (auto simp: cb_write_def answered_def map_filter_simps split: if_splits)

lemma answered_event:
  assumes "accepts xs"
  shows "answered (cb_sent (snd (cb_event xs ev ts))) = answered (cb_sent (snd ts)) @ asked [ev]"
proof (cases ev)
  case (Requested t w sel tgt p)
  then show ?thesis
    by (cases ts) (auto simp: cb_event_def cb_answer_def cb_tell_def cb_try_accepts [OF assms] cb_call_accepts [OF assms] cb_write_answers Let_def split: option.split)
next
  case (Converted w p)
  then show ?thesis
    by (cases ts) (simp add: cb_event_def cb_collect_def cb_call_accepts [OF assms] Let_def prod.case_eq_if split: option.split)
qed (cases ts; simp add: cb_event_def cb_ask_def cb_call_accepts [OF assms])+

text \<open>C36. On a connection that accepts every call, a poll of the X11 clipboard answers everybody who asked for
  the selection, once each and in order, whatever else happened and whether or not this process owns it.\<close>

theorem requests_answered:
  assumes "accepts xs"
  shows "answered (cb_sent (snd (cb_changed xs evs failed s))) = answered (cb_sent s) @ asked evs"
proof -
  have "answered (cb_sent (snd (fold (cb_event xs) evs ts))) = answered (cb_sent (snd ts)) @ asked evs" for ts
  proof (induction evs arbitrary: ts)
    case (Cons ev evs)
    have "asked (ev # evs) = asked [ev] @ asked evs" by (cases ev) simp_all
    then show ?case using Cons answered_event [OF assms, of ev ts] by simp
  qed simp
  then have "answered (cb_sent (snd (cb_drain xs evs failed s))) = answered (cb_sent s) @ asked evs"
    by (simp add: cb_drain_eq Let_def cb_try_accepts [OF assms])
  then show ?thesis
    by (cases "cb_drain xs evs failed s") (auto simp: cb_changed_def split: option.split)
qed

theorem requests_answered_witness:
  "answered (cb_sent (snd (cb_changed \<lparr>xs_up = \<lambda>n. True, xs_reply = \<lambda>n r. (0, [])\<rparr> [Cleared, Requested 7 9 100 31 0] False
      (x11_clipboard_new 5 \<lparr>at_clipboard = 100, at_utf8 = 101, at_targets = 102, at_text = 103, at_incr = 104, at_ours = 105\<rparr>))))
    = answered [] @ asked [Cleared, Requested 7 9 100 31 0]"
  using requests_answered [of "\<lparr>xs_up = \<lambda>n. True, xs_reply = \<lambda>n r. (0, [])\<rparr>" "[Cleared, Requested 7 9 100 31 0]" False
      "x11_clipboard_new 5 \<lparr>at_clipboard = 100, at_utf8 = 101, at_targets = 102, at_text = 103, at_incr = 104, at_ours = 105\<rparr>"]
  by (simp add: accepts_def x11_clipboard_new_def)

text \<open>What the X server makes of one client's requests for another: a conversion asks the owner, a notification
  reaches the requestor, and a property is read back as it was last written, up to as many words of four bytes
  as the GetProperty asks for.\<close>

definition deliver :: "clip_request \<Rightarrow> clip_event list" where
  "deliver r = (case r of Convert w sel tgt prop \<Rightarrow> [Requested 0 w sel tgt prop] | SendNotify t w sel tgt prop \<Rightarrow> [Converted w prop] | _ \<Rightarrow> [])"

definition last_written :: "u32 \<Rightarrow> u32 \<Rightarrow> clip_request list \<Rightarrow> u32 \<times> bytes" where
  "last_written w prop rs = fold (\<lambda>r x. case r of ChangeBytes w' prop' typ data \<Rightarrow> if w' = w \<and> prop' = prop then (typ, data) else x | _ \<Rightarrow> x) rs (0, [])"

definition property_read :: "clip_request list \<Rightarrow> clip_request \<Rightarrow> u32 \<times> bytes" where
  "property_read rs r = (case r of
     GetProperty w prop words \<Rightarrow> (case last_written w prop rs of (typ, data) \<Rightarrow> (typ, take (4 * words) data))
   | _ \<Rightarrow> (0, []))"

definition atoms_ok :: "atoms \<Rightarrow> bool" where
  "atoms_ok at \<longleftrightarrow> at_utf8 at \<noteq> at_targets at \<and> at_utf8 at \<noteq> at_incr at \<and> at_ours at \<noteq> NONE_ATOM"

text \<open>C35. A client's text reaches the desk: once one process has set it, another watching the clipboard asks for
  it at the next poll, is answered, and reports what the first megabyte of its UTF-8 says, which is exactly the
  text where it is no longer than that, unless it is what it knows already. The server takes every request.\<close>

theorem pasted_text_arrives:
  assumes xs: "accepts xs" and at: "cb_atoms a = cb_atoms b" "atoms_ok (cb_atoms b)"
    and w: "cb_window a \<noteq> cb_window b" "cb_window a \<noteq> NONE_ATOM"
    and tx: "str_ok text" "text \<noteq> []" and b: "cb_asking b = 0" "cb_ours b = None" "cb_seen b \<noteq> Some (utf8_lossy (take (2 ^ 20) (utf8 text)))"
    and a1: "a1 = cb_set xs text a"
    and b1: "b1 = snd (cb_changed xs [OwnerChanged (cb_window a)] False b)"
    and a2: "a2 = snd (cb_changed xs (concat (map deliver (drop (length (cb_sent b)) (cb_sent b1)))) False a1)"
    and q: "q = drop (length (cb_sent a1)) (cb_sent a2)"
    and reply: "xs_reply xs' = (\<lambda>n. property_read q)" "accepts xs'"
  shows "fst (cb_changed xs' (concat (map deliver q)) False b1) = Some (utf8_lossy (take (2 ^ 20) (utf8 text)))
    \<and> (length (utf8 text) \<le> 2 ^ 20 \<longrightarrow> fst (cb_changed xs' (concat (map deliver q)) False b1) = Some text)"
proof -
  have one: "cb_changed xs [OwnerChanged (cb_window a)] False b = (None, b1)"
    "cb_sent b1 = cb_sent b @ [Convert (cb_window b) (at_clipboard (cb_atoms b)) (at_utf8 (cb_atoms b)) (at_ours (cb_atoms b)), FlushClip]"
    "cb_window b1 = cb_window b" "cb_atoms b1 = cb_atoms b" "cb_ours b1 = None" "cb_seen b1 = cb_seen b"
    using b w by (simp_all add: b1 cb_changed_def cb_drain_def cb_event_def cb_ask_def cb_call_accepts [OF xs] cb_try_accepts [OF xs])
  have s1: "cb_ours a1 = Some text" "cb_atoms a1 = cb_atoms b"
    using at by (simp_all add: a1 cb_set_def cb_call_accepts [OF xs] cb_try_accepts [OF xs])
  have "a2 = snd (cb_changed xs [Requested 0 (cb_window b) (at_clipboard (cb_atoms b)) (at_utf8 (cb_atoms b)) (at_ours (cb_atoms b))] False a1)"
    by (simp add: a2 one(2) deliver_def)
  then have q': "q = [ChangeBytes (cb_window b) (at_ours (cb_atoms b)) (at_utf8 (cb_atoms b)) (utf8 text),
      SendNotify 0 (cb_window b) (at_clipboard (cb_atoms b)) (at_utf8 (cb_atoms b)) (at_ours (cb_atoms b)), FlushClip]"
    using at(2) by (simp add: q cb_changed_def cb_drain_def cb_event_def cb_answer_def cb_write_def s1 cb_tell_def atoms_ok_def
      cb_call_accepts [OF xs] cb_try_accepts [OF xs] Let_def)
  have "utf8 text \<noteq> []" using tx lossy_utf8 [OF tx(1)] by (metis utf8_lossy.simps)
  then have "take (2 ^ 20) (utf8 text) \<noteq> []" by simp
  moreover have "xs_reply xs' n (GetProperty (cb_window b) (at_ours (cb_atoms b)) MAX_WORDS) = (at_utf8 (cb_atoms b), take (2 ^ 20) (utf8 text))" for n
    by (simp add: reply(1) property_read_def last_written_def q' MAX_WORDS_def)
  ultimately have "fst (cb_changed xs' (concat (map deliver q)) False b1) = Some (utf8_lossy (take (2 ^ 20) (utf8 text)))"
    using at(2) b(3)
    by (simp add: q' deliver_def cb_changed_def cb_drain_def cb_event_def cb_collect_def one cb_call_accepts [OF reply(2)] cb_try_accepts [OF reply(2)]
      atoms_ok_def Let_def)
  then show ?thesis using tx(1) by (simp add: lossy_utf8)
qed

definition few_atoms :: atoms where
  "few_atoms = \<lparr>at_clipboard = 100, at_utf8 = 101, at_targets = 102, at_text = 103, at_incr = 104, at_ours = 105\<rparr>"

definition yes_server :: "clip_request list \<Rightarrow> x_server" where
  "yes_server written = \<lparr>xs_up = \<lambda>n. True, xs_reply = \<lambda>n. property_read written\<rparr>"

text \<open>Windows 5 and 6; a client pastes the letter h with an acute vowel.\<close>

theorem pasted_text_arrives_witness:
  "fst (cb_changed (yes_server [ChangeBytes 6 105 101 (utf8 [104, 233]), SendNotify 0 6 100 101 105, FlushClip]) [Converted 6 105] False
      (snd (cb_changed (yes_server []) [OwnerChanged 5] False (x11_clipboard_new 6 few_atoms)))) = Some [104, 233]"
proof -
  define a1 where "a1 = cb_set (yes_server []) [104, 233] (x11_clipboard_new 5 few_atoms)"
  define b1 where "b1 = snd (cb_changed (yes_server []) [OwnerChanged (cb_window (x11_clipboard_new 5 few_atoms))] False (x11_clipboard_new 6 few_atoms))"
  define a2 where "a2 = snd (cb_changed (yes_server []) (concat (map deliver (drop 0 (cb_sent b1)))) False a1)"
  define q where "q = drop (length (cb_sent a1)) (cb_sent a2)"
  have ok: "accepts (yes_server r)" for r by (simp add: accepts_def yes_server_def)
  have b: "cb_sent b1 = [Convert 6 100 101 105, FlushClip]"
    by (simp add: b1_def cb_changed_def cb_drain_def cb_event_def cb_ask_def cb_call_accepts [OF ok] cb_try_accepts [OF ok] x11_clipboard_new_def few_atoms_def NONE_ATOM_def)
  have q': "q = [ChangeBytes 6 105 101 (utf8 [104, 233]), SendNotify 0 6 100 101 105, FlushClip]"
    by (simp add: q_def a2_def b a1_def deliver_def cb_changed_def cb_drain_def cb_event_def cb_answer_def cb_write_def cb_tell_def cb_set_def
      cb_call_accepts [OF ok] cb_try_accepts [OF ok] Let_def x11_clipboard_new_def few_atoms_def NONE_ATOM_def STRING_ATOM_def)
  have short: "length (utf8 [104, 233]) \<le> 2 ^ 20" by (simp add: utf8_def utf8_char_def)
  have both: "fst (cb_changed (yes_server q) (concat (map deliver q)) False b1) = Some (utf8_lossy (take (2 ^ 20) (utf8 [104, 233])))
    \<and> (length (utf8 [104, 233]) \<le> 2 ^ 20 \<longrightarrow> fst (cb_changed (yes_server q) (concat (map deliver q)) False b1) = Some [104, 233])"
  proof (rule pasted_text_arrives [OF ok _ _ _ _ _ _ _ _ _ a1_def b1_def])
    show "a2 = snd (cb_changed (yes_server []) (concat (map deliver (drop (length (cb_sent (x11_clipboard_new 6 few_atoms))) (cb_sent b1)))) False a1)"
      by (simp add: a2_def x11_clipboard_new_def)
    show "xs_reply (yes_server q) = (\<lambda>n. property_read q)" by (simp add: yes_server_def)
  qed (simp_all add: q_def ok x11_clipboard_new_def few_atoms_def atoms_ok_def NONE_ATOM_def str_ok_def scalar_def)
  have d: "concat (map deliver q) = [Converted 6 105]" by (simp add: q' deliver_def)
  have "fst (cb_changed (yes_server q) [Converted 6 105] False b1) = Some [104, 233]" using mp [OF conjunct2 [OF both] short] unfolding d .
  then show ?thesis unfolding q' b1_def by (simp add: x11_clipboard_new_def [of 5])
qed

section \<open>The Windows clipboard\<close>

lemma unat_u16: "k < 65536 \<Longrightarrow> unat (of_nat k :: u16) = k"
  by (simp add: unat_of_nat take_bit_eq_mod)

lemma utf16_lossy_char: "scalar c \<Longrightarrow> utf16_lossy (utf16_char c @ us) = c # utf16_lossy us"
proof (cases "c < 0x10000")
  case True
  moreover assume "scalar c"
  ultimately show ?thesis
    by (cases us) (auto simp: utf16_char_def scalar_def unat_u16)
next
  case False
  assume "scalar c"
  then have c: "c < 0x110000" by (auto simp: scalar_def)
  define a b where "a = 0xd800 + (c - 0x10000) div 0x400" and "b = 0xdc00 + (c - 0x10000) mod 0x400"
  have ab: "0xd800 \<le> a" "a < 0xdc00" "0xdc00 \<le> b" "b < 0xe000" using c False by (auto simp: a_def b_def)
  have "utf16_char c @ us = of_nat a # of_nat b # us" using False by (simp add: utf16_char_def a_def b_def)
  moreover have "0x10000 + (a - 0xd800) * 0x400 + (b - 0xdc00) = c" using False by (simp add: a_def b_def)
  ultimately show ?thesis using ab by (simp add: unat_u16)
qed

lemma lossy_utf16 [simp]: "str_ok s \<Longrightarrow> utf16_lossy (utf16 s) = s"
  by (induction s) (simp_all add: utf16_def str_ok_def utf16_lossy_char)

lemma before_nul_utf16: "str_ok s \<Longrightarrow> 0 \<notin> set s \<Longrightarrow> before_nul (utf16 s @ [0]) = utf16 s"
proof -
  assume s: "str_ok s" "0 \<notin> set s"
  have ne: "(of_nat k :: u16) \<noteq> 0" if "0 < k" "k < 65536" for k using that unat_u16 [of k] by auto
  have "u \<noteq> 0" if "c \<in> set s" "u \<in> set (utf16_char c)" for c u
  proof -
    have "c \<noteq> 0" using s(2) that(1) by metis
    have "scalar c" using s(1) that(1) by (auto simp: str_ok_def list_all_iff)
    then have small: "(c - 0x10000) div 0x400 < 0x400" by (auto simp: scalar_def)
    have hi: "(of_nat (0xd800 + (c - 0x10000) div 0x400) :: u16) \<noteq> 0" using small by (intro ne) linarith+
    have "(c - 0x10000) mod 0x400 < 0x400" by simp
    then have lo: "(of_nat (0xdc00 + (c - 0x10000) mod 0x400) :: u16) \<noteq> 0" by (intro ne) linarith+
    have "u = of_nat c \<and> c < 0x10000 \<or> u = of_nat (0xd800 + (c - 0x10000) div 0x400) \<or> u = of_nat (0xdc00 + (c - 0x10000) mod 0x400)"
      using that(2) by (auto simp: utf16_char_def simp del: of_nat_add split: if_splits)
    then show ?thesis using hi lo ne [of c] \<open>c \<noteq> 0\<close> by (elim disjE) auto
  qed
  then have "\<forall>u\<in>set (utf16 s). u \<noteq> 0" by (auto simp: utf16_def)
  then show ?thesis by (simp add: before_nul_def takeWhile_append)
qed

lemma lf_to_crlf_simps [simp]: "lf_to_crlf [] = []" "lf_to_crlf (c # s) = (if c = 10 then 13 # 10 # lf_to_crlf s else c # lf_to_crlf s)"
  by (simp_all add: lf_to_crlf_def)

lemma crlf_there_and_back: "crlf_to_lf (lf_to_crlf s) = s"
proof (induction s)
  case (Cons c s)
  have "lf_to_crlf s = [] \<or> (\<exists>d ds. lf_to_crlf s = d # ds \<and> d \<noteq> 10)"
    by (cases s) auto
  then show ?case using Cons by auto
qed simp

lemma str_ok_lf: "str_ok s \<Longrightarrow> str_ok (lf_to_crlf s)"
  by (induction s) (auto simp: str_ok_def scalar_def)

lemma crlf_to_lf_subset: "set (crlf_to_lf s) \<subseteq> set s"
  by (induction s rule: crlf_to_lf.induct) auto

lemma lf_to_crlf_subset: "set (lf_to_crlf s) \<subseteq> insert 13 (set s)"
  by (induction s) auto

text \<open>A system that does what it is asked, once the clipboard has been opened.\<close>

definition willing :: "win_clip_os \<Rightarrow> bool" where
  "willing os \<longleftrightarrow> (\<forall>n. wo_opens os n) \<and> wo_empties os \<and> wo_allocates os \<and> wo_locks os \<and> wo_accepts os"

lemma wc_open_willing: "willing os \<Longrightarrow> wc_open os s d = (True, s\<lparr>wc_reported := False\<rparr>, d\<lparr>wd_opens := Suc (wd_opens d)\<rparr>)"
  by (simp add: wc_open_def willing_def TRIES_def eval_nat_numeral)

text \<open>C37. A client's text without NUL, set on the Windows clipboard of a system that obliges (the clipboard opens,
  memory is found and the data taken), is read back by everybody else with its line ends as the wire has them,
  and is no news to the process that set it.\<close>

theorem windows_clipboard_round_trip:
  assumes os: "willing os" and u: "str_ok u" "0 \<notin> set u"
    and set: "(s', d') = wc_set os u (s, d)" and other: "wc_seen r \<noteq> wd_seq d'"
  shows "fst (wc_changed os (s', d')) = None \<and> fst (wc_changed os (r, d')) = Some (crlf_to_lf u)"
proof -
  define w where "w = lf_to_crlf (crlf_to_lf u)"
  have ok: "str_ok w" unfolding w_def by (intro str_ok_lf str_ok_crlf u(1))
  have "set w \<subseteq> insert 13 (set u)" unfolding w_def using lf_to_crlf_subset crlf_to_lf_subset by blast
  then have nul: "0 \<notin> set w" using u(2) by auto
  have "wc_set os u (s, d) = (s\<lparr>wc_reported := False, wc_seen := wd_seq d + 1\<rparr>, desk_holds (Some (utf16 w)) (d\<lparr>wd_opens := Suc (wd_opens d)\<rparr>))"
    using os by (simp add: wc_set_def wc_open_willing w_def [symmetric] before_nul_utf16 [OF ok nul] Let_def desk_holds_def)
      (simp add: willing_def)
  then have d': "wd_units d' = Some (utf16 w)" "wc_seen s' = wd_seq d'"
    using set by (simp_all add: desk_holds_def)
  show ?thesis
    using d' other os ok by (simp add: wc_changed_def wc_open_willing read_text_def willing_def w_def crlf_there_and_back)
qed

definition willing_os :: win_clip_os where
  "willing_os = \<lparr>wo_opens = \<lambda>n. True, wo_empties = True, wo_allocates = True, wo_locks = True, wo_accepts = True\<rparr>"

definition empty_desk :: win_desk where
  "empty_desk = \<lparr>wd_seq = 3, wd_units = None, wd_opens = 0\<rparr>"

theorem windows_clipboard_round_trip_witness:
  "fst (wc_changed willing_os (wc_set willing_os [104, 10, 128512] (win_clipboard_new empty_desk, empty_desk))) = None
    \<and> fst (wc_changed willing_os (\<lparr>wc_seen = 3, wc_reported = False\<rparr>, snd (wc_set willing_os [104, 10, 128512] (win_clipboard_new empty_desk, empty_desk))))
      = Some (crlf_to_lf [104, 10, 128512])"
proof -
  obtain s' d' where set: "(s', d') = wc_set willing_os [104, 10, 128512] (win_clipboard_new empty_desk, empty_desk)"
    by (cases "wc_set willing_os [104, 10, 128512] (win_clipboard_new empty_desk, empty_desk)") auto
  have "wd_seq d' = 4"
    using set by (simp add: wc_set_def wc_open_willing willing_def willing_os_def Let_def desk_holds_def empty_desk_def)
  then have "fst (wc_changed willing_os (s', d')) = None \<and> fst (wc_changed willing_os (\<lparr>wc_seen = 3, wc_reported = False\<rparr>, d')) = Some (crlf_to_lf [104, 10, 128512])"
    by (intro windows_clipboard_round_trip [OF _ _ _ set]) (simp_all add: willing_def willing_os_def str_ok_def scalar_def)
  then show ?thesis by (simp add: set [symmetric])
qed

section \<open>Where a text is lost\<close>

text \<open>A text the desk copies a second time, after a client has pasted another in between, is not reported:
  what was seen is not forgotten when the clipboard is taken over.\<close>

theorem copied_again_is_missed:
  assumes xs: "accepts xs" "xs_reply xs = (\<lambda>n r. (at_utf8 (cb_atoms s), utf8 t))" and t: "str_ok t" "cb_seen s = Some t"
    and p: "p \<noteq> NONE_ATOM"
  shows "fst (cb_changed xs [Cleared, Converted (cb_window s) p] False (cb_set xs u s)) = None"
proof -
  have "cb_seen (cb_set xs u s) = Some t" "cb_window (cb_set xs u s) = cb_window s" "cb_atoms (cb_set xs u s) = cb_atoms s"
    using t(2) by (simp_all add: cb_set_def cb_call_accepts [OF xs(1)] cb_try_accepts [OF xs(1)])
  then show ?thesis
    using t(1) p by (auto simp: cb_changed_def cb_drain_def cb_event_def cb_collect_def cb_call_accepts [OF xs(1)] cb_try_accepts [OF xs(1)] xs(2) Let_def
      split: option.splits if_splits)
qed

text \<open>A text longer than a megabyte is cut there, and what is read of it is reported as if it were all.\<close>

theorem long_text_is_cut:
  assumes "accepts xs" "xs_reply xs = (\<lambda>n. property_read [ChangeBytes (cb_window s) p (at_utf8 (cb_atoms s)) (utf8 (replicate (2 ^ 20 + k) 97))])"
    "p \<noteq> NONE_ATOM" "at_utf8 (cb_atoms s) \<noteq> at_incr (cb_atoms s)"
  shows "fst (cb_collect xs p s) = Some (replicate (2 ^ 20) 97)"
proof -
  have u: "utf8 (replicate n 97) = replicate n 97" for n by (induction n) (simp_all add: utf8_def utf8_char_def)
  have "utf8_lossy (replicate (2 ^ 20) 97) = replicate (2 ^ 20) 97"
    using lossy_utf8 [of "replicate (2 ^ 20) 97"] unfolding u by (simp add: str_ok_def scalar_def list_all_iff)
  then show ?thesis
    using assms(3,4) by (simp add: cb_collect_def cb_call_accepts [OF assms(1)] assms(2) property_read_def last_written_def MAX_WORDS_def u
      take_replicate Let_def)
qed

text \<open>A text copied while the answer for an earlier one is awaited is never asked for: no conversion is sent in
  that poll or in any after it, until the clipboard changes hands again.\<close>

definition conversions :: "clip_request list \<Rightarrow> clip_request list" where
  "conversions rs = filter (\<lambda>r. case r of Convert a b c d \<Rightarrow> True | _ \<Rightarrow> False) rs"

definition no_owner :: "clip_event \<Rightarrow> bool" where
  "no_owner ev = (case ev of OwnerChanged w \<Rightarrow> False | _ \<Rightarrow> True)"

lemma cb_call_conversions: "conversions [r] = [] \<Longrightarrow> conversions (cb_sent (snd (cb_call xs r s))) = conversions (cb_sent s)"
  by (simp add: cb_call_def conversions_def)

lemma cb_try_conversions: "conversions [r] = [] \<Longrightarrow> conversions (cb_sent (cb_try xs r s)) = conversions (cb_sent s)"
  by (simp add: cb_try_def cb_call_def conversions_def)

lemma cb_flush_conversions [simp]: "conversions (cb_sent (cb_try xs FlushClip s)) = conversions (cb_sent s)"
  by (rule cb_try_conversions) (simp add: conversions_def)

lemma cb_write_conversions: "cb_write at text w tgt p = Some r \<Longrightarrow> conversions [r] = []"
  by (auto simp: cb_write_def conversions_def split: if_splits)

lemma cb_event_conversions:
  assumes "no_owner ev" shows "conversions (cb_sent (snd (cb_event xs ev ts))) = conversions (cb_sent (snd ts))"
proof (cases ev)
  case (Requested t w sel tgt p)
  have tell: "conversions (cb_sent (cb_tell xs t w sel tgt q s)) = conversions (cb_sent s)" for q s
    unfolding cb_tell_def by (rule cb_try_conversions) (simp add: conversions_def)
  have "conversions (cb_sent (cb_answer xs t w sel tgt p s)) = conversions (cb_sent s)" for s
  proof (cases "cb_ours s")
    case (Some u)
    define pr where "pr = (if p = NONE_ATOM then tgt else p)"
    show ?thesis
    proof (cases "cb_write (cb_atoms s) u w tgt pr")
      case (Some r)
      obtain ok s1 where c: "cb_call xs r s = (ok, s1)" by fastforce
      then have "conversions (cb_sent s1) = conversions (cb_sent s)"
        using cb_call_conversions [OF cb_write_conversions [OF Some], of xs s] by simp
      then show ?thesis using c Some \<open>cb_ours s = Some u\<close> by (cases ok) (simp_all add: cb_answer_def pr_def [symmetric] tell)
    qed (use Some in \<open>simp add: cb_answer_def pr_def [symmetric] tell\<close>)
  qed (simp add: cb_answer_def tell)
  then show ?thesis using Requested by (cases ts) (simp add: cb_event_def)
next
  case (Converted w p)
  have "conversions (cb_sent (snd (cb_collect xs p s))) = conversions (cb_sent s)" for s
    by (simp add: cb_collect_def cb_call_def Let_def conversions_def prod.case_eq_if)
  then show ?thesis using Converted by (cases ts) (simp add: cb_event_def prod.case_eq_if split: option.split)
qed (use assms in \<open>cases ts; simp add: cb_event_def no_owner_def\<close>)+

lemma cb_changed_conversions:
  assumes "\<forall>ts. conversions (cb_sent (snd (fold (cb_event xs) evs ts))) = conversions (cb_sent (snd ts))"
  shows "conversions (cb_sent (snd (cb_changed xs evs failed s))) = conversions (cb_sent s)"
proof -
  have "conversions (cb_sent (snd (cb_drain xs evs failed s))) = conversions (cb_sent s)"
    using assms [rule_format, of "(None, s)"] by (simp add: cb_drain_eq Let_def)
  then show ?thesis by (cases "cb_drain xs evs failed s") (auto simp: cb_changed_def split: option.split)
qed

theorem copied_while_asking_is_lost:
  assumes "0 < cb_asking s" "\<forall>(xs, evs, failed)\<in>set polls. list_all no_owner evs"
  shows "conversions (cb_sent (fold (\<lambda>(xs, evs, failed) s. snd (cb_changed xs evs failed s)) polls (snd (cb_changed xs [OwnerChanged w] failed s))))
    = conversions (cb_sent s)"
proof -
  have "conversions (cb_sent (snd (cb_drain xs [OwnerChanged w] failed s))) = conversions (cb_sent s)"
    using assms(1) by (simp add: cb_drain_eq Let_def cb_event_def cb_ask_def)
  then have first: "conversions (cb_sent (snd (cb_changed xs [OwnerChanged w] failed s))) = conversions (cb_sent s)"
    by (cases "cb_drain xs [OwnerChanged w] failed s") (auto simp: cb_changed_def split: option.split)
  have "conversions (cb_sent (fold (\<lambda>(xs, evs, failed) s. snd (cb_changed xs evs failed s)) polls s')) = conversions (cb_sent s')" for s'
    using assms(2)
  proof (induction polls arbitrary: s')
    case (Cons poll polls)
    obtain xs evs failed where poll: "poll = (xs, evs, failed)" by (cases poll) auto
    have "list_all no_owner evs" using Cons.prems poll by simp
    then have "conversions (cb_sent (snd (fold (cb_event xs) evs ts))) = conversions (cb_sent (snd ts))" for ts
      by (induction evs arbitrary: ts) (simp_all add: cb_event_conversions)
    then have "conversions (cb_sent (snd (cb_changed xs evs failed s'))) = conversions (cb_sent s')"
      by (intro cb_changed_conversions) blast
    then show ?case using Cons poll by simp
  qed simp
  then show ?thesis using first by simp
qed

text \<open>News that the clipboard was lost, still unread when a client pastes, makes the process forget that text
  although it owns the clipboard again: everybody who asks for it is refused.\<close>

theorem late_news_disowns:
  assumes "accepts xs"
  shows "\<exists>rs. cb_sent (snd (cb_changed xs [Requested t w sel tgt p] False (snd (cb_changed xs [Cleared] False (cb_set xs u s)))))
    = rs @ [SendNotify t w sel tgt NONE_ATOM, FlushClip]"
  by (simp add: cb_changed_def cb_drain_def cb_event_def cb_answer_def cb_tell_def cb_set_def cb_call_accepts [OF assms] cb_try_accepts [OF assms])

text \<open>On Windows a text copied while another program keeps the clipboard open past the eight attempts is never
  read: its number is counted as seen before the clipboard is opened.\<close>

lemma open_tries_fail: "\<forall>n. \<not> wo_opens os n \<Longrightarrow> fst (open_tries os k d) = False \<and> wd_seq (snd (open_tries os k d)) = wd_seq d"
  by (induction k arbitrary: d) simp_all

theorem refused_copy_is_lost:
  assumes "\<forall>n. \<not> wo_opens os n"
  shows "fst (wc_changed os (s, d)) = None \<and> fst (wc_changed os' (snd (wc_changed os (s, d)))) = None"
proof (cases "wd_seq d = wc_seen s")
  case True
  then show ?thesis by (simp add: wc_changed_def)
next
  case False
  obtain d1 where "open_tries os TRIES d = (False, d1)" "wd_seq d1 = wd_seq d"
    using open_tries_fail [OF assms, of TRIES d] by (metis prod.collapse)
  with False show ?thesis by (simp add: wc_changed_def wc_open_def)
qed

end
