(* ===== verification/Cursors.thy ===== *)
theory Cursors
  imports Raster
begin

text \<open>
  \<open>alloyvnc-screen-x11/src/cursor.rs\<close> and \<open>alloyvnc-screen-dxgi/src/cursor.rs\<close>: the pointer images of XFixes
  (premultiplied words) and of DXGI (colour, masked colour, two one-bit planes) as straight RGBA. Making the
  shape panics where the bytes do not fit its size; that is \<open>None\<close>, and does not happen.
\<close>

section \<open>XFixes\<close>

definition straighten :: "u8 \<Rightarrow> u8 \<Rightarrow> u8" where
  "straighten value alpha =
    (if alpha = 0 then 0
     else if alpha = 255 then value
     else of_nat (min ((unat value * 255 + unat alpha div 2) div unat alpha) 255))"

definition xfixes_pixel :: "u32 \<Rightarrow> bytes" where
  "xfixes_pixel px =
    (let a = ucast (drop_bit 24 px); r = ucast (drop_bit 16 px); g = ucast (drop_bit 8 px); b = ucast px
     in [straighten r a, straighten g a, straighten b a, a])"

definition xfixes_convert :: "nat \<Rightarrow> nat \<Rightarrow> nat \<times> nat \<Rightarrow> u32 list \<Rightarrow> cursor_shape option" where
  "xfixes_convert width height hot argb =
    (if width = 0 \<or> height = 0 then Some cursor_hidden
     else cursor_shape_new width height (fst hot) (snd hot)
       (concat (map (\<lambda>i. xfixes_pixel (if i < length argb then argb ! i else 0)) [0 ..< width * height])))"

section \<open>DXGI\<close>

definition MONOCHROME :: nat where "MONOCHROME = 1"
definition COLOR :: nat where "COLOR = 2"
definition MASKED_COLOR :: nat where "MASKED_COLOR = 4"

definition byte_or_0 :: "bytes \<Rightarrow> nat \<Rightarrow> u8" where
  "byte_or_0 data i = (if i < length data then data ! i else 0)"

definition color_pixel :: "nat \<Rightarrow> bytes \<Rightarrow> nat \<Rightarrow> bytes" where
  "color_pixel kind data i =
    (let b = byte_or_0 data i; g = byte_or_0 data (i + 1); r = byte_or_0 data (i + 2); a = byte_or_0 data (i + 3);
         alpha = (if kind = COLOR then a
                  else if a = 0 then 255
                  else if r = 0 \<and> g = 0 \<and> b = 0 then 0
                  else 255)
     in [r, g, b, alpha])"

definition mono_pixel :: "bytes \<Rightarrow> nat \<Rightarrow> nat \<Rightarrow> nat \<Rightarrow> nat \<Rightarrow> bytes" where
  "mono_pixel data pitch h x y =
    (let m = drop_bit (x mod 8) 0x80;
         and_bit = (byte_or_0 data (y * pitch + x div 8) AND m \<noteq> 0);
         xor_bit = (byte_or_0 data ((y + h) * pitch + x div 8) AND m \<noteq> 0)
     in (if \<not> and_bit \<and> \<not> xor_bit then [0, 0, 0, 255]
         else if \<not> and_bit \<and> xor_bit then [255, 255, 255, 255]
         else if and_bit \<and> \<not> xor_bit then [0, 0, 0, 0]
         else [255, 255, 255, 255]))"

definition dxgi_convert :: "nat \<Rightarrow> nat \<Rightarrow> nat \<Rightarrow> nat \<Rightarrow> nat \<times> nat \<Rightarrow> bytes \<Rightarrow> cursor_shape option" where
  "dxgi_convert kind width height pitch hot data =
    (if kind = COLOR \<or> kind = MASKED_COLOR
     then cursor_shape_new width height (fst hot) (snd hot)
       (concat (map (\<lambda>y. concat (map (\<lambda>x. color_pixel kind data (y * pitch + x * 4)) [0 ..< width])) [0 ..< height]))
     else if kind = MONOCHROME
     then cursor_shape_new width (height div 2) (fst hot) (snd hot)
       (concat (map (\<lambda>y. concat (map (\<lambda>x. mono_pixel data pitch (height div 2) x y) [0 ..< width])) [0 ..< height div 2]))
     else Some cursor_hidden)"

end
