(* ===== verification/X11_Capture.thy ===== *)
theory X11_Capture
  imports Capture Cursors
begin

text \<open>
  \<open>alloyvnc-screen-x11/src/capture.rs\<close>: the X11 desktop as a backend of the capture thread. The state is what
  \<open>X11Capture\<close> keeps, with the shared segment as bytes. What the server answers during one \<open>wait\<close> is an
  argument, \<open>x_says\<close>: the events found each time the queue is drained, the new connection, the geometry, the
  damage, the pixels of a rectangle and the pointer; no answer is an error of that request. A slice out of
  range in \<open>apply\<close> is \<open>None\<close>. Errors carry no text here.
\<close>

section \<open>Opening a display\<close>

definition MAX_FETCHES :: nat where "MAX_FETCHES = 64"

definition WANTED :: "u32 \<times> u32 \<times> u32" where "WANTED = (0x00ff0000, 0x0000ff00, 0x000000ff)"

definition bytes_for :: "nat \<times> nat \<Rightarrow> nat" where
  "bytes_for sz = fst sz * snd sz * FB_BPP"

text \<open>The part of the connection's setup that is read: the root's depth, visual and size, every depth's visuals
  with their masks, every format's depth and bits per pixel, and the byte order.\<close>

record x_setup =
  su_size :: "nat \<times> nat"
  su_depth :: nat
  su_visual :: nat
  su_depths :: "(nat \<times> (nat \<times> u32 \<times> u32 \<times> u32) list) list"
  su_formats :: "(nat \<times> nat) list"
  su_lsb_first :: bool

definition check_format :: "x_setup \<Rightarrow> capture_error + unit" where
  "check_format su =
    (case map_option snd (find (\<lambda>d. fst d = su_depth su) (su_depths su)) of
       None \<Rightarrow> Inl (CaptureFailed [])
     | Some visuals \<Rightarrow>
       (case find (\<lambda>v. fst v = su_visual su) visuals of
          None \<Rightarrow> Inl (CaptureFailed [])
        | Some (v, masks) \<Rightarrow>
          let bits = (case find (\<lambda>f. fst f = su_depth su) (su_formats su) of Some f \<Rightarrow> snd f | None \<Rightarrow> 0) in
          if su_depth su \<noteq> 24 \<or> bits \<noteq> 32 \<or> masks \<noteq> WANTED \<or> \<not> su_lsb_first su then Inl (CaptureFailed [])
          else Inr ()))"

text \<open>The answers to the requests of opening: the setup, the versions, and whether the damage, region and watch
  requests and the segment were granted.\<close>

record x_greeting =
  gr_setup :: "x_setup option"
  gr_damage :: bool
  gr_xfixes :: "nat option"
  gr_shm :: "(nat \<times> nat) option"
  gr_randr :: "(nat \<times> nat) option"
  gr_watches :: bool
  gr_segment :: bool

record live =
  lv_size :: "nat \<times> nat"
  lv_shm :: bytes
  lv_monitors :: bool

definition shared_segment :: "nat \<Rightarrow> bytes" where
  "shared_segment len = replicate len 0"

definition version_at_least :: "nat \<times> nat \<Rightarrow> nat \<times> nat \<Rightarrow> bool" where
  "version_at_least v w \<longleftrightarrow> fst w < fst v \<or> fst w = fst v \<and> snd w \<le> snd v"

definition live_open :: "x_greeting \<Rightarrow> capture_error + live" where
  "live_open g =
    (case gr_setup g of None \<Rightarrow> Inl (CaptureFailed [])
     | Some su \<Rightarrow>
       (case check_format su of Inl e \<Rightarrow> Inl e
        | Inr _ \<Rightarrow>
          if \<not> gr_damage g then Inl (CaptureFailed [])
          else (case gr_xfixes g of None \<Rightarrow> Inl (CaptureFailed [])
          | Some major \<Rightarrow>
            if major < 4 then Inl (CaptureFailed [])
            else (case gr_shm g of None \<Rightarrow> Inl (CaptureFailed [])
            | Some shm \<Rightarrow>
              if \<not> version_at_least shm (1, 2) then Inl (CaptureFailed [])
              else (case gr_randr g of None \<Rightarrow> Inl (CaptureFailed [])
              | Some randr \<Rightarrow>
                if \<not> gr_watches g \<or> \<not> gr_segment g then Inl (CaptureFailed [])
                else Inr \<lparr>lv_size = su_size su, lv_shm = shared_segment (bytes_for (su_size su)), lv_monitors = version_at_least randr (1, 5)\<rparr>)))))"

section \<open>State\<close>

datatype x_event = DamageNotify | CursorNotify | ScreenChange | ErrorEvent | OtherX

record x11_capture =
  xg_live :: live
  xg_reopen :: bool
  xg_refresh :: bool
  xg_drawn :: bool
  xg_pointer :: bool
  xg_resized :: bool
  xg_fetched :: "(rect \<times> nat) list"
  xg_cursor :: "cursor_shape option"

definition x11_capture_new :: "x_greeting \<Rightarrow> capture_error + x11_capture" where
  "x11_capture_new g =
    (case live_open g of Inl e \<Rightarrow> Inl e
     | Inr l \<Rightarrow> Inr \<lparr>xg_live = l, xg_reopen = False, xg_refresh = True, xg_drawn = False, xg_pointer = True, xg_resized = False,
         xg_fetched = [], xg_cursor = None\<rparr>)"

definition xg_size :: "x11_capture \<Rightarrow> nat \<times> nat" where
  "xg_size s = lv_size (xg_live s)"

definition xg_bounds :: "x11_capture \<Rightarrow> rect" where
  "xg_bounds s = rect_new 0 0 (int (fst (xg_size s))) (int (snd (xg_size s)))"

definition xg_ready :: "x11_capture \<Rightarrow> bool" where
  "xg_ready s \<longleftrightarrow> xg_fetched s \<noteq> [] \<or> xg_cursor s \<noteq> None \<or> xg_resized s"

definition xg_outstanding :: "x11_capture \<Rightarrow> bool" where
  "xg_outstanding s \<longleftrightarrow> xg_drawn s \<or> xg_refresh s \<or> xg_pointer s \<or> xg_resized s"

text \<open>How reading the queue ended, and where nothing is outstanding, how waiting for more did.\<close>

datatype round_end = Readable | TimedOut | PollFailed | Broken

record x_says =
  xy_open :: x_greeting
  xy_rounds :: "(x_event list \<times> round_end) list"
  xy_geometry :: "(nat \<times> nat) option"
  xy_segment :: bool
  xy_region :: "(int \<times> int \<times> int \<times> int) list option"
  xy_sent :: bool
  xy_image :: "int \<Rightarrow> int \<Rightarrow> nat \<Rightarrow> nat \<Rightarrow> bytes option"
  xy_cursor :: "(nat \<times> nat \<times> (nat \<times> nat) \<times> u32 list) option"
  xy_monitors :: "(int \<times> int \<times> int \<times> int) list option"

section \<open>Waiting\<close>

definition xg_handle :: "x_event \<Rightarrow> x11_capture \<Rightarrow> x11_capture" where
  "xg_handle e s = (case e of DamageNotify \<Rightarrow> s\<lparr>xg_drawn := True\<rparr> | CursorNotify \<Rightarrow> s\<lparr>xg_pointer := True\<rparr>
    | ScreenChange \<Rightarrow> s\<lparr>xg_resized := True\<rparr> | _ \<Rightarrow> s)"

text \<open>The loop of \<open>wait\<close>: once the rounds are used up, the deadline has passed.\<close>

fun xg_gather :: "(x_event list \<times> round_end) list \<Rightarrow> x11_capture \<Rightarrow> (capture_error + bool) \<times> x11_capture" where
  "xg_gather [] s = (Inr False, s)"
| "xg_gather ((evs, ending) # rounds) s =
    (let s1 = fold xg_handle evs s in
     if ending = Broken then (Inl (Lost []), s1\<lparr>xg_reopen := True\<rparr>)
     else if xg_outstanding s1 then (Inr True, s1)
     else (case ending of PollFailed \<Rightarrow> (Inl (CaptureFailed []), s1)
       | TimedOut \<Rightarrow> (Inr False, s1)
       | _ \<Rightarrow> xg_gather rounds s1))"

definition xg_regeometry :: "x_says \<Rightarrow> x11_capture \<Rightarrow> (capture_error + unit) \<times> x11_capture" where
  "xg_regeometry a s =
    (case xy_geometry a of None \<Rightarrow> (Inl (Lost []), s)
     | Some sz \<Rightarrow>
       if sz = xg_size s then (Inr (), s)
       else if \<not> xy_segment a then (Inl (CaptureFailed []), s)
       else (Inr (), s\<lparr>xg_live := (xg_live s)\<lparr>lv_size := sz, lv_shm := shared_segment (bytes_for sz)\<rparr>, xg_refresh := True\<rparr>))"

definition xg_take_damage :: "x_says \<Rightarrow> x11_capture \<Rightarrow> rect list option" where
  "xg_take_damage a s =
    map_option (\<lambda>rs. filter (\<lambda>r. \<not> rect_is_empty r) (map (\<lambda>(x, y, w, h). rect_intersection (rect_new x y w h) (xg_bounds s)) rs)) (xy_region a)"

text \<open>Where each rectangle goes in the segment; one that does not fit ends the list.\<close>

fun xg_layout :: "nat \<Rightarrow> nat \<Rightarrow> rect list \<Rightarrow> (rect \<times> nat) list" where
  "xg_layout len offset [] = []"
| "xg_layout len offset (r # rs) =
    (let bytes = nat (rect_area r) * FB_BPP in
     if offset + bytes > len then [] else (r, offset) # xg_layout len (offset + bytes) rs)"

definition wrap16 :: "int \<Rightarrow> int" where
  "wrap16 n = (n + 2 ^ 15) mod 2 ^ 16 - 2 ^ 15"

text \<open>The replies in order: the server has written a rectangle's pixels at its offset.\<close>

fun xg_replies :: "x_says \<Rightarrow> (rect \<times> nat) list \<Rightarrow> bytes \<Rightarrow> bool \<times> bytes" where
  "xg_replies a [] shm = (True, shm)"
| "xg_replies a ((r, offset) # rest) shm =
    (case xy_image a (wrap16 (rx1 r)) (wrap16 (ry1 r)) (nat (rect_width r mod 2 ^ 16)) (nat (rect_height r mod 2 ^ 16)) of
       None \<Rightarrow> (False, shm)
     | Some data \<Rightarrow> xg_replies a rest (take offset shm @ data @ drop (offset + length data) shm))"

definition xg_fetch :: "x_says \<Rightarrow> rect list \<Rightarrow> x11_capture \<Rightarrow> (capture_error + unit) \<times> x11_capture" where
  "xg_fetch a rects s =
    (if rects = [] then (Inr (), s)
     else
       let rects' = (if length rects > MAX_FETCHES then [fold (\<lambda>r acc. rect_union_bounds acc r) rects rect_EMPTY] else rects);
           cookies = xg_layout (length (lv_shm (xg_live s))) 0 rects' in
       if \<not> xy_sent a then (Inl (Lost []), s)
       else
         (case xg_replies a cookies (lv_shm (xg_live s)) of (ok, shm) \<Rightarrow>
            let s1 = s\<lparr>xg_live := (xg_live s)\<lparr>lv_shm := shm\<rparr>\<rparr> in
            if ok then (Inr (), s1\<lparr>xg_fetched := xg_fetched s1 @ cookies\<rparr>) else (Inl (Lost []), s1)))"

text \<open>A pointer image that does not fit its size would panic; \<open>xfixes_convert\<close> always fits.\<close>

definition xg_read_cursor :: "x_says \<Rightarrow> x11_capture \<Rightarrow> (capture_error + unit) \<times> x11_capture" where
  "xg_read_cursor a s =
    (case xy_cursor a of None \<Rightarrow> (Inl (Lost []), s)
     | Some (w, h, hot, argb) \<Rightarrow> (Inr (), s\<lparr>xg_cursor := xfixes_convert w h hot argb\<rparr>))"

text \<open>What follows the loop, once something is outstanding.\<close>

definition xg_collect :: "x_says \<Rightarrow> x11_capture \<Rightarrow> (capture_error + bool) \<times> x11_capture" where
  "xg_collect a s =
    (case (if xg_resized s then xg_regeometry a s else (Inr (), s)) of
       (Inl e, s1) \<Rightarrow> (Inl e, s1)
     | (Inr _, s1) \<Rightarrow>
       (case (if xg_drawn s1 then (xg_take_damage a s1, s1\<lparr>xg_drawn := False\<rparr>) else (Some [], s1)) of
          (None, s2) \<Rightarrow> (Inl (Lost []), s2)
        | (Some rects, s2) \<Rightarrow>
          let rects' = (if xg_refresh s2 then [xg_bounds s2] else rects) in
          (case xg_fetch a rects' (s2\<lparr>xg_refresh := False\<rparr>) of
             (Inl e, s3) \<Rightarrow> (Inl e, s3)
           | (Inr _, s3) \<Rightarrow>
             (case (if xg_pointer s3 then xg_read_cursor a (s3\<lparr>xg_pointer := False\<rparr>) else (Inr (), s3)) of
                (Inl e, s4) \<Rightarrow> (Inl e, s4)
              | (Inr _, s4) \<Rightarrow> (Inr (xg_ready s4), s4)))))"

definition xg_wait :: "x_says \<Rightarrow> x11_capture \<Rightarrow> (capture_error + bool) \<times> x11_capture" where
  "xg_wait a s =
    (case (if xg_reopen s then
             (case live_open (xy_open a) of Inl e \<Rightarrow> (False, s)
              | Inr l \<Rightarrow> (True, s\<lparr>xg_live := l, xg_reopen := False, xg_refresh := True, xg_pointer := True\<rparr>))
           else (True, s)) of
       (False, s1) \<Rightarrow> (Inl (Lost []), s1)
     | (True, s1) \<Rightarrow>
       if xg_ready s1 then (Inr True, s1)
       else (case xg_gather (xy_rounds a) s1 of
               (Inr True, s2) \<Rightarrow> xg_collect a s2
             | other \<Rightarrow> other))"

section \<open>Applying\<close>

text \<open>One fetched rectangle's rows, copied into the picture.\<close>

fun xg_rows :: "bytes \<Rightarrow> rect \<Rightarrow> nat \<Rightarrow> nat \<Rightarrow> int list \<Rightarrow> framebuffer \<Rightarrow> framebuffer option" where
  "xg_rows data r offset i [] fb = Some fb"
| "xg_rows data r offset i (y # ys) fb =
    (let row_bytes = u32_of (rect_width r) * FB_BPP in
     (case slice (offset + i * row_bytes) row_bytes data of
        None \<Rightarrow> None
      | Some row \<Rightarrow>
        (case row_write fb (u32_of y) (u32_of (rx1 r)) row of
           None \<Rightarrow> None
         | Some fb' \<Rightarrow> xg_rows data r offset (Suc i) ys fb')))"

fun xg_copy :: "bytes \<Rightarrow> (rect \<times> nat) list \<Rightarrow> framebuffer \<Rightarrow> framebuffer option" where
  "xg_copy data [] fb = Some fb"
| "xg_copy data ((r, offset) # rest) fb =
    (case xg_rows data r offset 0 (irange (ry1 r) (ry2 r)) fb of None \<Rightarrow> None | Some fb' \<Rightarrow> xg_copy data rest fb')"

definition xg_apply :: "framebuffer \<Rightarrow> x11_capture \<Rightarrow> (frame \<times> framebuffer \<times> x11_capture) option" where
  "xg_apply fb s =
    (let (width, height) = xg_size s;
         resized = (fb_width fb \<noteq> width \<or> fb_height fb \<noteq> height);
         fb1 = (if resized then fb_resize width height fb else fb);
         damage = map fst (xg_fetched s) in
     map_option (\<lambda>fb2.
        (\<lparr>fm_damage = (if damage = [] then region_new else region_from_rects damage), fm_moves = [], fm_cursor = xg_cursor s, fm_resized = resized\<rparr>,
         fb2, s\<lparr>xg_resized := False, xg_cursor := None, xg_fetched := []\<rparr>))
       (xg_copy (lv_shm (xg_live s)) (xg_fetched s) fb1))"

definition xg_screens :: "x_says \<Rightarrow> x11_capture \<Rightarrow> rect list" where
  "xg_screens a s =
    (let whole = [rect_new 0 0 (i32 (int (fst (xg_size s)))) (i32 (int (snd (xg_size s))))] in
     if \<not> lv_monitors (xg_live s) then whole
     else
       (case xy_monitors a of None \<Rightarrow> whole
        | Some ms \<Rightarrow>
          let rects = filter (\<lambda>r. \<not> rect_is_empty r) (map (\<lambda>(x, y, w, h). rect_new x y w h) ms) in
          if rects = [] then whole else rects))"

text \<open>The backend the capture thread drives; a panic in \<open>apply\<close>, which does not happen, has no value here.\<close>

definition x11_backend :: "x_says \<Rightarrow> x11_capture backend" where
  "x11_backend a = \<lparr>bk_wait = xg_wait a,
     bk_apply = \<lambda>fb s. (case xg_apply fb s of Some (f, fb', s') \<Rightarrow> (Inr f, fb', s') | None \<Rightarrow> (Inl (CaptureFailed []), fb, s)),
     bk_screens = xg_screens a\<rparr>"

end
