(* ===== verification/Cursor_Laws.thy ===== *)
theory Cursor_Laws
  imports Cursors
begin

text \<open>
  The conversions of pointer images: the shape always has the bytes its size asks for, every pixel is the
  image's, and dividing the alpha out of a premultiplied pixel loses nothing.
\<close>

lemma length_blocks: "(\<And>x. x \<in> set xs \<Longrightarrow> length (f x) = k) \<Longrightarrow> length (concat (map f xs)) = length xs * k"
  by (induction xs) simp_all

lemma nth_block:
  "(\<And>x. x \<in> set xs \<Longrightarrow> length (f x) = k) \<Longrightarrow> i < length xs \<Longrightarrow> take k (drop (i * k) (concat (map f xs))) = f (xs ! i)"
proof (induction xs arbitrary: i)
  case (Cons x xs)
  then show ?case by (cases i) simp_all
qed simp

definition shape_pixel :: "cursor_shape \<Rightarrow> nat \<Rightarrow> nat \<Rightarrow> bytes" where
  "shape_pixel s x y = take 4 (drop ((y * cs_width s + x) * 4) (cs_rgba s))"

lemma length_pixels: "length (xfixes_pixel px) = 4" "length (color_pixel kind data i) = 4" "length (mono_pixel data pitch h x y) = 4"
  by (simp_all add: xfixes_pixel_def color_pixel_def mono_pixel_def Let_def)

text \<open>A picture made row by row.\<close>

lemma rows_pixels:
  fixes w h :: nat and f :: "nat \<Rightarrow> nat \<Rightarrow> bytes"
  assumes "\<And>x y. length (f x y) = 4"
  defines "rgba \<equiv> concat (map (\<lambda>y. concat (map (\<lambda>x. f x y) [0 ..< w])) [0 ..< h])"
  shows "length rgba = w * h * 4" and "x < w \<Longrightarrow> y < h \<Longrightarrow> take 4 (drop ((y * w + x) * 4) rgba) = f x y"
proof -
  have row: "length (concat (map (\<lambda>x. f x y) [0 ..< w])) = w * 4" for y
    using length_blocks [of "[0 ..< w]" "\<lambda>x. f x y" 4] assms(1) by simp
  then show "length rgba = w * h * 4"
    using length_blocks [of "[0 ..< h]" "\<lambda>y. concat (map (\<lambda>x. f x y) [0 ..< w])" "w * 4"] by (simp add: rgba_def)
  assume xy: "x < w" "y < h"
  have "take (w * 4) (drop (y * (w * 4)) rgba) = concat (map (\<lambda>x. f x y) [0 ..< w])"
    using nth_block [of "[0 ..< h]" "\<lambda>y. concat (map (\<lambda>x. f x y) [0 ..< w])" "w * 4" y] row xy(2) by (simp add: rgba_def)
  then have "take 4 (drop (x * 4) (take (w * 4) (drop (y * (w * 4)) rgba))) = f x y"
    using nth_block [of "[0 ..< w]" "\<lambda>x. f x y" 4 x] assms(1) xy(1) by simp
  moreover have "min 4 (w * 4 - x * 4) = 4" using xy(1) by simp
  ultimately show "take 4 (drop ((y * w + x) * 4) rgba) = f x y"
    by (simp add: drop_take take_take add_mult_distrib mult.assoc add.commute)
qed

text \<open>DXGI's shapes, pixel by pixel, whatever the length of the data.\<close>

lemma dxgi_convert_pixels:
  obtains s where "dxgi_convert kind w h pitch hot data = Some s"
    "kind \<in> {COLOR, MASKED_COLOR} \<Longrightarrow> x < w \<Longrightarrow> y < h \<Longrightarrow> shape_pixel s x y = color_pixel kind data (y * pitch + x * 4)"
    "kind = MONOCHROME \<Longrightarrow> x < w \<Longrightarrow> y < h div 2 \<Longrightarrow> shape_pixel s x y = mono_pixel data pitch (h div 2) x y"
proof (cases "kind \<in> {COLOR, MASKED_COLOR}")
  case True
  note r = rows_pixels [of "\<lambda>x y. color_pixel kind data (y * pitch + x * 4)", OF length_pixels(2)]
  show thesis
  proof (rule that)
    show "dxgi_convert kind w h pitch hot data = Some \<lparr>cs_width = w, cs_height = h, cs_hot_x = fst hot, cs_hot_y = snd hot,
        cs_rgba = concat (map (\<lambda>y. concat (map (\<lambda>x. color_pixel kind data (y * pitch + x * 4)) [0 ..< w])) [0 ..< h])\<rparr>"
      using True r(1) by (simp add: dxgi_convert_def cursor_shape_new_def)
  qed (use True r(2) in \<open>auto simp only: shape_pixel_def cursor_shape.simps COLOR_def MASKED_COLOR_def MONOCHROME_def\<close>)
next
  case False
  show thesis
  proof (cases "kind = MONOCHROME")
    case True
    note r = rows_pixels [of "\<lambda>x y. mono_pixel data pitch (h div 2) x y", OF length_pixels(3)]
    show thesis
    proof (rule that)
      show "dxgi_convert kind w h pitch hot data = Some \<lparr>cs_width = w, cs_height = h div 2, cs_hot_x = fst hot, cs_hot_y = snd hot,
          cs_rgba = concat (map (\<lambda>y. concat (map (\<lambda>x. mono_pixel data pitch (h div 2) x y) [0 ..< w])) [0 ..< h div 2])\<rparr>"
        using False True r(1) by (simp add: dxgi_convert_def cursor_shape_new_def)
    qed (use False r(2) in \<open>auto simp only: shape_pixel_def cursor_shape.simps\<close>)
  next
    case False
    with \<open>kind \<notin> {COLOR, MASKED_COLOR}\<close> show thesis by (intro that [of cursor_hidden]) (simp_all add: dxgi_convert_def)
  qed
qed

text \<open>Alpha multiplied in, rounded, and divided out again.\<close>

definition premultiplied :: "u8 \<Rightarrow> u8 \<Rightarrow> nat" where
  "premultiplied value alpha = (2 * unat value * unat alpha + 255) div 510"

lemma straighten_exact:
  assumes "v \<le> a" shows "premultiplied (straighten v a) a = unat v"
proof -
  have v: "unat v \<le> unat a" "unat a < 256" using assms word_le_nat_alt [of v a] unsigned_less [of a] by simp_all
  consider "a = 0" | "a = 255" | "a \<noteq> 0" "a \<noteq> 255" by blast
  then show ?thesis
  proof cases
    case 1
    then have "v = 0" using assms by simp
    with 1 show ?thesis by (simp add: premultiplied_def straighten_def)
  next
    case 2
    then show ?thesis by (simp add: premultiplied_def straighten_def)
  next
    case 3
    define k where "k = unat a"
    define n where "n = unat v"
    define q where "q = (n * 255 + k div 2) div k"
    have "unat a \<noteq> 255"
    proof
      assume "unat a = 255"
      then have "unat a = unat (255 :: u8)" by simp
      then have "a = 255" by (rule unsigned_word_eqI)
      with 3(2) show False by simp
    qed
    moreover have "unat a \<noteq> 0" using 3(1) by (simp add: unat_eq_0)
    ultimately have k: "0 < k" "k < 255" "n \<le> k" using v by (auto simp: k_def n_def)
    have d: "q * k + (n * 255 + k div 2) mod k = n * 255 + k div 2" by (simp add: q_def)
    have m: "(n * 255 + k div 2) mod k < k" using k by simp
    have "n * 255 + k div 2 < 256 * k" using k by linarith
    then have "q < 256" using k(1) by (simp add: q_def less_mult_imp_div_less)
    then have s: "unat (straighten v a) = q"
      using 3 by (simp add: straighten_def k_def [symmetric] n_def [symmetric] q_def [symmetric] unat_of_nat take_bit_eq_mod min_def)
    have "510 * n \<le> 2 * (q * k) + 255" "2 * (q * k) + 255 < 510 * n + 510" using d m k by linarith+
    then have "(2 * (q * k) + 255) div 510 = n" by (intro div_nat_eqI) simp_all
    then show ?thesis by (simp add: premultiplied_def s k_def [symmetric] n_def mult.assoc)
  qed
qed

section \<open>Properties\<close>

text \<open>What XFixes sends: no colour brighter than its alpha.\<close>

definition premultiplied_word :: "u32 \<Rightarrow> bool" where
  "premultiplied_word px \<longleftrightarrow> (\<forall>n\<in>{0, 8, 16}. (ucast (drop_bit n px) :: u8) \<le> ucast (drop_bit 24 px))"

text \<open>C38. An X11 pointer becomes a shape of the same size whose bytes fit it, whatever the length of the reply,
  and every pixel keeps its alpha and gives back exactly the server's colours when the alpha is multiplied
  in again.\<close>

theorem pointer_kept:
  assumes "0 < w" "0 < h" "x < w" "y < h" "y * w + x < length argb" "premultiplied_word (argb ! (y * w + x))"
  shows "\<exists>s r g b a. xfixes_convert w h hot argb = Some s \<and> cs_width s = w \<and> cs_height s = h \<and> shape_pixel s x y = [r, g, b, a]
    \<and> a = ucast (drop_bit 24 (argb ! (y * w + x))) \<and> premultiplied r a = unat (ucast (drop_bit 16 (argb ! (y * w + x))) :: u8)
    \<and> premultiplied g a = unat (ucast (drop_bit 8 (argb ! (y * w + x))) :: u8) \<and> premultiplied b a = unat (ucast (argb ! (y * w + x)) :: u8)"
proof -
  define f where "f i = xfixes_pixel (if i < length argb then argb ! i else 0)" for i
  define rgba where "rgba = concat (map f [0 ..< w * h])"
  have len: "length (f i) = 4" for i by (simp add: f_def length_pixels)
  have L: "length rgba = w * h * 4" using length_blocks [of "[0 ..< w * h]" f 4] len by (simp add: rgba_def)
  have "y * w + x < w * h" using assms(3,4) by (metis add.commute add_less_le_mono less_le_trans mult.commute mult_Suc mult_le_mono2 Suc_leI nat_add_left_cancel_less)
  then have P: "take 4 (drop ((y * w + x) * 4) rgba) = f (y * w + x)"
    using nth_block [of "[0 ..< w * h]" f 4 "y * w + x"] len by (simp add: rgba_def)
  define s where "s = \<lparr>cs_width = w, cs_height = h, cs_hot_x = fst hot, cs_hot_y = snd hot, cs_rgba = rgba\<rparr>"
  have c: "xfixes_convert w h hot argb = Some s"
    using assms(1,2) L by (simp add: xfixes_convert_def cursor_shape_new_def s_def rgba_def f_def [abs_def])
  have px: "shape_pixel s x y = xfixes_pixel (argb ! (y * w + x))" using P assms(5) by (simp add: shape_pixel_def s_def f_def)
  have "(ucast (drop_bit 16 (argb ! (y * w + x))) :: u8) \<le> ucast (drop_bit 24 (argb ! (y * w + x)))"
    "(ucast (drop_bit 8 (argb ! (y * w + x))) :: u8) \<le> ucast (drop_bit 24 (argb ! (y * w + x)))"
    "(ucast (argb ! (y * w + x)) :: u8) \<le> ucast (drop_bit 24 (argb ! (y * w + x)))"
    using assms(6) by (simp_all add: premultiplied_word_def)
  then show ?thesis
    using c px by (simp add: s_def xfixes_pixel_def Let_def straighten_exact)
qed

theorem pointer_kept_witness:
  "\<exists>s r g b a. xfixes_convert 1 1 (0, 0) [0x80402000] = Some s \<and> cs_width s = 1 \<and> cs_height s = 1 \<and> shape_pixel s 0 0 = [r, g, b, a]
    \<and> a = ucast (drop_bit 24 (0x80402000 :: u32)) \<and> premultiplied r a = unat (ucast (drop_bit 16 (0x80402000 :: u32)) :: u8)
    \<and> premultiplied g a = unat (ucast (drop_bit 8 (0x80402000 :: u32)) :: u8) \<and> premultiplied b a = unat (ucast (0x80402000 :: u32) :: u8)"
  using pointer_kept [of 1 1 0 0 "[0x80402000]" "(0, 0)"] by (simp add: premultiplied_word_def)

end
