(* ===== verification/X11_Capture_Laws.thy ===== *)
theory X11_Capture_Laws
  imports X11_Capture Capture_Laws Cursor_Laws
begin

text \<open>
  The X11 backend keeps its promises to the capture thread: what it fetched fits the segment and the
  picture, so that applying it does not panic, and its frame is true; and with an honest display behind it
  the picture is the display's, outside what the display has recorded as drawn since.
\<close>

section \<open>Rectangles in the segment\<close>

definition within :: "nat \<times> nat \<Rightarrow> rect \<Rightarrow> bool" where
  "within sz r \<longleftrightarrow> 0 \<le> rx1 r \<and> rx1 r < rx2 r \<and> rx2 r \<le> int (fst sz) \<and> 0 \<le> ry1 r \<and> ry1 r < ry2 r \<and> ry2 r \<le> int (snd sz)"

definition rw :: "rect \<Rightarrow> nat" where "rw r = nat (rx2 r - rx1 r)"
definition rh :: "rect \<Rightarrow> nat" where "rh r = nat (ry2 r - ry1 r)"

definition small_size :: "nat \<times> nat \<Rightarrow> bool" where
  "small_size sz \<longleftrightarrow> fst sz < 65536 \<and> snd sz < 65536"

lemma within_parts:
  assumes "within sz r" "small_size sz"
  shows "rect_width r = int (rw r)" "rect_height r = int (rh r)" "rect_area r = int (rw r * rh r)" "0 < rw r" "0 < rh r"
    "nat (rx1 r) + rw r \<le> fst sz" "nat (ry1 r) + rh r \<le> snd sz" "\<not> rect_is_empty r" "rect_small r" "rw r < 65536" "rh r < 65536"
proof -
  have r: "0 \<le> rx1 r" "rx1 r < rx2 r" "rx2 r \<le> int (fst sz)" "0 \<le> ry1 r" "ry1 r < ry2 r" "ry2 r \<le> int (snd sz)" "fst sz < 65536" "snd sz < 65536"
    using assms by (auto simp: within_def small_size_def)
  show w: "rect_width r = int (rw r)" and h: "rect_height r = int (rh r)"
    using r by (simp_all add: rect_width_def rect_height_def rw_def rh_def i32_small)
  show s: "rw r < 65536" "rh r < 65536" using r by (simp_all add: rw_def rh_def)
  have "int (rw r) * int (rh r) \<le> 65536 * 65536" using s by (intro mult_mono) auto
  then show "rect_area r = int (rw r * rh r)"
    using i64_small [of "int (rw r) * int (rh r)"] by (simp add: rect_area_def w h order.trans [OF _ mult_nonneg_nonneg])
  show "0 < rw r" "0 < rh r" "nat (rx1 r) + rw r \<le> fst sz" "nat (ry1 r) + rh r \<le> snd sz" "\<not> rect_is_empty r" "rect_small r"
    using r by (auto simp: rw_def rh_def rect_is_empty_def rect_small_def)
qed

definition real_size :: "nat \<times> nat \<Rightarrow> bool" where
  "real_size sz \<longleftrightarrow> small_size sz \<and> 0 < fst sz \<and> 0 < snd sz"

text \<open>A fetched rectangle's pixel in the segment.\<close>

definition seg_px :: "bytes \<Rightarrow> rect \<Rightarrow> nat \<Rightarrow> int \<Rightarrow> int \<Rightarrow> bytes" where
  "seg_px data r offset x y = take 4 (drop (offset + (nat (y - ry1 r) * rw r + nat (x - rx1 r)) * 4) data)"

definition fits :: "nat \<Rightarrow> nat \<times> nat \<Rightarrow> rect \<times> nat \<Rightarrow> bool" where
  "fits len sz ro \<longleftrightarrow> within sz (fst ro) \<and> snd ro + rw (fst ro) * rh (fst ro) * 4 \<le> len"

lemma take_in_take: "k + n \<le> m \<Longrightarrow> take n (drop k (take m (drop a data))) = take n (drop (a + k) data)"
  by (simp add: drop_take take_take min_def add.commute)

lemma xg_rows_ok:
  assumes "fb_ok fb" "fits (length data) (fb_width fb, fb_height fb) (r, o')" "i \<le> rh r"
  shows "\<exists>fb'. xg_rows data r o' i (map (\<lambda>k. ry1 r + int k) [i ..< rh r]) fb = Some fb' \<and> fb_same fb fb'
    \<and> (\<forall>x y. x < fb_width fb \<longrightarrow> y < fb_height fb \<longrightarrow> fb_px fb' x y =
        (if (int x, int y) \<in> rect_pixels r \<and> ry1 r + int i \<le> int y then seg_px data r o' (int x) (int y) else fb_px fb x y))"
  using assms
proof (induction "rh r - i" arbitrary: i fb)
  case 0
  then have "i = rh r" by simp
  then show ?case using 0 by (auto simp: fb_same_refl in_rect_pixels rh_def)
next
  case (Suc n)
  have sz: "small_size (fb_width fb, fb_height fb)" using Suc.prems(1) by (simp add: fb_ok_def small_size_def)
  have wi: "within (fb_width fb, fb_height fb) r" "o' + rw r * rh r * 4 \<le> length data" using Suc.prems(2) by (simp_all add: fits_def)
  note w = within_parts [OF wi(1) sz]
  have i: "i < rh r" using Suc.hyps(2) by simp
  define row where "row = take (rw r * 4) (drop (o' + i * (rw r * 4)) data)"
  have "i * (rw r * 4) + rw r * 4 \<le> rw r * rh r * 4"
    using mult_le_mono1 [of "Suc i" "rh r" "rw r * 4"] i by (simp add: algebra_simps)
  then have in_data: "o' + i * (rw r * 4) + rw r * 4 \<le> length data" using wi(2) by simp
  then have len: "length row = rw r * 4" by (simp add: row_def)
  have uw: "u32_of (rect_width r) = rw r" "u32_of (rx1 r) = nat (rx1 r)" "u32_of (ry1 r + int i) = nat (ry1 r) + i"
    using w wi(1) sz i by (auto simp: within_def small_size_def nat_add_distrib)
  have sl: "slice (o' + i * (u32_of (rect_width r) * FB_BPP)) (u32_of (rect_width r) * FB_BPP) data = Some row"
    using in_data by (simp add: slice_def uw FB_BPP_def row_def)
  have rg: "nat (rx1 r) + rw r \<le> fb_width fb" "nat (ry1 r) + i < fb_height fb" using w(6,7) i by simp_all
  obtain fb1 where fb1: "row_write fb (nat (ry1 r) + i) (nat (rx1 r)) row = Some fb1" "fb_ok fb1" "fb_width fb1 = fb_width fb" "fb_height fb1 = fb_height fb"
    "\<And>x y. x < fb_width fb \<Longrightarrow> y < fb_height fb \<Longrightarrow> fb_px fb1 x y =
      (if y = nat (ry1 r) + i \<and> nat (rx1 r) \<le> x \<and> x < nat (rx1 r) + rw r then take 4 (drop ((x - nat (rx1 r)) * 4) row) else fb_px fb x y)"
    using row_write_spec [OF Suc.prems(1) rg len] by blast
  have "\<exists>fb'. xg_rows data r o' (Suc i) (map (\<lambda>k. ry1 r + int k) [Suc i ..< rh r]) fb1 = Some fb' \<and> fb_same fb1 fb'
    \<and> (\<forall>x y. x < fb_width fb1 \<longrightarrow> y < fb_height fb1 \<longrightarrow> fb_px fb' x y =
        (if (int x, int y) \<in> rect_pixels r \<and> ry1 r + int (Suc i) \<le> int y then seg_px data r o' (int x) (int y) else fb_px fb1 x y))"
    by (rule Suc.hyps(1)) (use Suc.hyps(2) Suc.prems(2) i fb1(2-4) in auto)
  then obtain fb' where fb': "xg_rows data r o' (Suc i) (map (\<lambda>k. ry1 r + int k) [Suc i ..< rh r]) fb1 = Some fb'" "fb_same fb1 fb'"
    "\<And>x y. x < fb_width fb \<Longrightarrow> y < fb_height fb \<Longrightarrow> fb_px fb' x y =
        (if (int x, int y) \<in> rect_pixels r \<and> ry1 r + int (Suc i) \<le> int y then seg_px data r o' (int x) (int y) else fb_px fb1 x y)"
    using fb1(3,4) by auto
  have "[i ..< rh r] = i # [Suc i ..< rh r]" using i by (rule upt_conv_Cons)
  then have R: "xg_rows data r o' i (map (\<lambda>k. ry1 r + int k) [i ..< rh r]) fb = Some fb'"
    using sl fb1(1) fb'(1) by (simp add: uw)
  have px: "fb_px fb' x y = (if (int x, int y) \<in> rect_pixels r \<and> ry1 r + int i \<le> int y then seg_px data r o' (int x) (int y) else fb_px fb x y)"
    if "x < fb_width fb" "y < fb_height fb" for x y
  proof (cases "int y = ry1 r + int i \<and> rx1 r \<le> int x \<and> int x < rx2 r")
    case True
    then have y: "y = nat (ry1 r) + i" "nat (rx1 r) \<le> x" "x < nat (rx1 r) + rw r" "\<not> ry1 r + int (Suc i) \<le> int y" "(int x, int y) \<in> rect_pixels r"
      "nat (int y - ry1 r) = i" "nat (int x - rx1 r) = x - nat (rx1 r)"
      using wi(1) i by (auto simp: within_def in_rect_pixels rw_def rh_def)
    have "(x - nat (rx1 r)) * 4 + 4 \<le> rw r * 4" using y(2,3) by simp
    then have "take 4 (drop ((x - nat (rx1 r)) * 4) row) = take 4 (drop (o' + i * (rw r * 4) + (x - nat (rx1 r)) * 4) data)"
      unfolding row_def by (rule take_in_take)
    also have "\<dots> = seg_px data r o' (int x) (int y)"
      unfolding seg_px_def y(6) y(7) by (simp only: add_mult_distrib mult.assoc add.assoc)
    finally show ?thesis using that fb'(3) fb1(5) y True by simp
  next
    case False
    have n: "\<not> (y = nat (ry1 r) + i \<and> nat (rx1 r) \<le> x \<and> x < nat (rx1 r) + rw r)"
      using False wi(1) by (auto simp: within_def rw_def)
    have f1: "fb_px fb1 x y = fb_px fb x y" unfolding fb1(5) [OF that] by (rule if_not_P [OF n])
    have c: "((int x, int y) \<in> rect_pixels r \<and> ry1 r + int (Suc i) \<le> int y) = ((int x, int y) \<in> rect_pixels r \<and> ry1 r + int i \<le> int y)"
      using False by (auto simp: in_rect_pixels)
    show ?thesis unfolding fb'(3) [OF that] f1 c by (rule refl)
  qed
  have "fb_same fb fb'" using fb'(2) fb1(3,4) by (simp add: fb_same_def)
  then show ?case using R px by blast
qed

lemma xg_copy_ok:
  assumes "fb_ok fb" "\<forall>ro\<in>set fetched. fits (length data) (fb_width fb, fb_height fb) ro"
  shows "\<exists>fb'. xg_copy data fetched fb = Some fb' \<and> fb_same fb fb'
    \<and> (\<forall>x y. x < fb_width fb \<longrightarrow> y < fb_height fb \<longrightarrow> (int x, int y) \<notin> rects_pixels (map fst fetched) \<longrightarrow> fb_px fb' x y = fb_px fb x y)
    \<and> (\<forall>x y v. x < fb_width fb \<longrightarrow> y < fb_height fb \<longrightarrow> (int x, int y) \<in> rects_pixels (map fst fetched) \<longrightarrow>
        (\<forall>(r, o')\<in>set fetched. (int x, int y) \<in> rect_pixels r \<longrightarrow> seg_px data r o' (int x) (int y) = v) \<longrightarrow> fb_px fb' x y = v)"
  using assms
proof (induction fetched arbitrary: fb)
  case Nil
  then show ?case by (auto simp: fb_same_refl)
next
  case (Cons ro fetched)
  obtain r o' where ro: "ro = (r, o')" by (cases ro)
  have f: "fits (length data) (fb_width fb, fb_height fb) (r, o')" using Cons.prems(2) ro by simp
  then have y: "irange (ry1 r) (ry2 r) = map (\<lambda>k. ry1 r + int k) [0 ..< rh r]" by (simp add: irange_def rh_def)
  obtain fb1 where fb1: "xg_rows data r o' 0 (irange (ry1 r) (ry2 r)) fb = Some fb1" "fb_same fb fb1"
    "\<And>x y. x < fb_width fb \<Longrightarrow> y < fb_height fb \<Longrightarrow> fb_px fb1 x y = (if (int x, int y) \<in> rect_pixels r then seg_px data r o' (int x) (int y) else fb_px fb x y)"
    using xg_rows_ok [OF Cons.prems(1) f, of 0] y by (auto simp: in_rect_pixels)
  obtain fb' where fb': "xg_copy data fetched fb1 = Some fb'" "fb_same fb1 fb'"
    "\<And>x y. x < fb_width fb \<Longrightarrow> y < fb_height fb \<Longrightarrow> (int x, int y) \<notin> rects_pixels (map fst fetched) \<Longrightarrow> fb_px fb' x y = fb_px fb1 x y"
    "\<And>x y v. x < fb_width fb \<Longrightarrow> y < fb_height fb \<Longrightarrow> (int x, int y) \<in> rects_pixels (map fst fetched)
      \<Longrightarrow> \<forall>(r, o')\<in>set fetched. (int x, int y) \<in> rect_pixels r \<longrightarrow> seg_px data r o' (int x) (int y) = v \<Longrightarrow> fb_px fb' x y = v"
    using Cons.IH [of fb1] Cons.prems fb1(2) by (auto simp: fb_same_def)
  have "xg_copy data (ro # fetched) fb = Some fb'" using fb1(1) fb'(1) by (simp add: ro)
  moreover have "fb_same fb fb'" using fb1(2) fb'(2) by (rule fb_same_trans)
  moreover have "fb_px fb' x y = fb_px fb x y"
    if "x < fb_width fb" "y < fb_height fb" "(int x, int y) \<notin> rects_pixels (map fst (ro # fetched))" for x y
    using fb1(3) fb'(3) that by (simp add: ro)
  moreover have "fb_px fb' x y = v"
    if P: "\<forall>(r, o')\<in>set (ro # fetched). (int x, int y) \<in> rect_pixels r \<longrightarrow> seg_px data r o' (int x) (int y) = v"
      and "x < fb_width fb" "y < fb_height fb" "(int x, int y) \<in> rects_pixels (map fst (ro # fetched))" for x y v
  proof (cases "(int x, int y) \<in> rects_pixels (map fst fetched)")
    case True
    then show ?thesis using fb'(4) [of x y v] that by simp
  next
    case False
    then have "(int x, int y) \<in> rect_pixels r" using that(4) by (simp add: ro)
    then show ?thesis using P fb1(3) fb'(3) that(2,3) False by (auto simp: ro)
  qed
  ultimately show ?case by blast
qed

section \<open>Fetching\<close>

lemma layout_fits:
  assumes "small_size sz" "\<forall>r\<in>set rs. within sz r"
  shows "\<forall>ro\<in>set (xg_layout len off rs). fits len sz ro \<and> fst ro \<in> set rs"
  using assms(2)
proof (induction rs arbitrary: off)
  case (Cons r rs)
  have "nat (rect_area r) = rw r * rh r" using within_parts(3) [OF _ assms(1)] Cons.prems by (simp del: of_nat_mult)
  then show ?case using Cons by (auto simp: Let_def fits_def FB_BPP_def)
qed simp

lemma layout_full:
  assumes "small_size sz" "\<forall>r\<in>set rs. within sz r" "off + sum_list (map (\<lambda>r. rw r * rh r) rs) * 4 \<le> len"
  shows "map fst (xg_layout len off rs) = rs"
  using assms(2,3)
proof (induction rs arbitrary: off)
  case (Cons r rs)
  have "nat (rect_area r) = rw r * rh r" using within_parts(3) [OF _ assms(1)] Cons.prems by (simp del: of_nat_mult)
  then show ?case using Cons by (auto simp: Let_def FB_BPP_def add_mult_distrib)
qed simp

definition image_of :: "x_says \<Rightarrow> rect \<Rightarrow> bytes option" where
  "image_of a r = xy_image a (wrap16 (rx1 r)) (wrap16 (ry1 r)) (nat (rect_width r mod 2 ^ 16)) (nat (rect_height r mod 2 ^ 16))"

text \<open>Answers of the right shape: as many bytes as asked for, and sizes a display can have.\<close>

definition says_ok :: "x_says \<Rightarrow> bool" where
  "says_ok a \<longleftrightarrow> (\<forall>x y w h d. xy_image a x y w h = Some d \<longrightarrow> length d = w * h * 4)
    \<and> (\<forall>sz. xy_geometry a = Some sz \<longrightarrow> real_size sz) \<and> (\<forall>su. gr_setup (xy_open a) = Some su \<longrightarrow> real_size (su_size su))"

lemma image_length:
  assumes "says_ok a" "small_size sz" "within sz r" "image_of a r = Some d" shows "length d = rw r * rh r * 4"
proof -
  note w = within_parts [OF assms(3,2)]
  have "nat (rect_width r mod 2 ^ 16) = rw r" "nat (rect_height r mod 2 ^ 16) = rh r" using w(1,2,10,11) by simp_all
  then show ?thesis using assms(1,4) by (auto simp: says_ok_def image_of_def)
qed

text \<open>What the replies leave in the segment.\<close>

lemma replies_content:
  assumes "says_ok a" "small_size sz" "\<forall>r\<in>set rs. within sz r"
    "xg_replies a (xg_layout (length shm) off rs) shm = (ok, shm')" "off \<le> length shm"
  shows "length shm' = length shm \<and> take off shm' = take off shm
    \<and> (ok \<longrightarrow> (\<forall>(r, o')\<in>set (xg_layout (length shm) off rs). \<exists>d. image_of a r = Some d \<and> take (length d) (drop o' shm') = d))"
  using assms(3-5)
proof (induction rs arbitrary: off shm)
  case (Cons r rs)
  have w: "within sz r" using Cons.prems by simp
  have area: "nat (rect_area r) * FB_BPP = rw r * rh r * 4" using within_parts(3) [OF w assms(2)] by (simp add: FB_BPP_def del: of_nat_mult)
  show ?case
  proof (cases "off + rw r * rh r * 4 \<le> length shm")
    case False
    then show ?thesis using Cons.prems area by auto
  next
    case True
    then have lay: "xg_layout (length shm) off (r # rs) = (r, off) # xg_layout (length shm) (off + rw r * rh r * 4) rs"
      using area by (simp add: Let_def)
    show ?thesis
    proof (cases "image_of a r")
      case None
      then show ?thesis using Cons.prems lay by (simp add: image_of_def)
    next
      case (Some d)
      have len: "length d = rw r * rh r * 4" by (rule image_length [OF assms(1,2) w Some])
      define shm1 where "shm1 = take off shm @ d @ drop (off + length d) shm"
      have l1: "length shm1 = length shm" using True len by (simp add: shm1_def)
      have rep: "xg_replies a (xg_layout (length shm1) (off + length d) rs) shm1 = (ok, shm')"
        using Cons.prems(2) lay Some len l1 by (simp add: image_of_def shm1_def)
      have IH: "length shm' = length shm1" "take (off + length d) shm' = take (off + length d) shm1"
        "ok \<Longrightarrow> \<forall>(r, o')\<in>set (xg_layout (length shm1) (off + length d) rs). \<exists>d. image_of a r = Some d \<and> take (length d) (drop o' shm') = d"
        using Cons.IH [OF _ rep] Cons.prems(1) True len l1 by auto
      have "take off shm' = take off (take (off + length d) shm')" by simp
      also have "\<dots> = take off shm" using IH(2) Cons.prems(3) by (simp add: shm1_def)
      finally have t: "take off shm' = take off shm" .
      have "take (length d) (drop off shm') = drop off (take (off + length d) shm')" by (simp add: drop_take)
      also have "\<dots> = d" using IH(2) Cons.prems(3) by (simp add: shm1_def)
      finally have "take (length d) (drop off shm') = d" .
      then show ?thesis using t IH(1,3) l1 lay Some len by auto
    qed
  qed
qed simp

definition reduced :: "rect list \<Rightarrow> rect list" where
  "reduced rects = (if length rects > MAX_FETCHES then [fold (\<lambda>r acc. rect_union_bounds acc r) rects rect_EMPTY] else rects)"

lemma union_fold_within:
  assumes "small_size sz" "\<forall>r\<in>set rs. within sz r" "acc = rect_EMPTY \<or> within sz acc" "rs \<noteq> [] \<or> acc \<noteq> rect_EMPTY"
  shows "within sz (fold (\<lambda>r acc. rect_union_bounds acc r) rs acc)
    \<and> rect_pixels acc \<union> rects_pixels rs \<subseteq> rect_pixels (fold (\<lambda>r acc. rect_union_bounds acc r) rs acc)"
  using assms(2-4)
proof (induction rs arbitrary: acc)
  case (Cons r rs)
  have ne: "\<not> rect_is_empty r" using within_parts(8) [OF _ assms(1)] Cons.prems by simp
  have u: "within sz (rect_union_bounds acc r) \<and> rect_pixels acc \<union> rect_pixels r \<subseteq> rect_pixels (rect_union_bounds acc r)"
  proof (cases "acc = rect_EMPTY")
    case True
    then have "rect_union_bounds acc r = r" using ne by (simp add: rect_union_bounds_def rect_EMPTY_def rect_is_empty_def rect_normalised_def)
    then show ?thesis using Cons.prems True by simp
  next
    case False
    then have a: "within sz acc" "\<not> rect_is_empty acc" using Cons.prems within_parts(8) [OF _ assms(1)] by auto
    have "within sz r" using Cons.prems by simp
    then show ?thesis using a ne by (auto simp: rect_union_bounds_def within_def in_rect_pixels)
  qed
  then have "within sz (fold (\<lambda>r acc. rect_union_bounds acc r) rs (rect_union_bounds acc r))
      \<and> rect_pixels (rect_union_bounds acc r) \<union> rects_pixels rs \<subseteq> rect_pixels (fold (\<lambda>r acc. rect_union_bounds acc r) rs (rect_union_bounds acc r))"
    using Cons.prems(1) within_parts(8) [OF _ assms(1)]
    by (intro Cons.IH) (auto simp: rect_EMPTY_def rect_is_empty_def within_def)
  then show ?case using u by auto
qed auto

lemma reduced_within:
  assumes "small_size sz" "\<forall>r\<in>set rs. within sz r"
  shows "(\<forall>r\<in>set (reduced rs). within sz r) \<and> rects_pixels rs \<subseteq> rects_pixels (reduced rs)"
proof (cases "length rs > MAX_FETCHES")
  case True
  then have "rs \<noteq> []" by auto
  then show ?thesis using union_fold_within [OF assms, of rect_EMPTY] True by (auto simp: reduced_def)
qed (use assms in \<open>simp add: reduced_def\<close>)

section \<open>A wait\<close>

definition seg_ok :: "x11_capture \<Rightarrow> bool" where
  "seg_ok s \<longleftrightarrow> real_size (xg_size s) \<and> length (lv_shm (xg_live s)) = bytes_for (xg_size s)"

lemma seg_ok_cong: "xg_live s = xg_live s' \<Longrightarrow> seg_ok s = seg_ok s'"
  by (simp add: seg_ok_def xg_size_def)

lemma bounds_within:
  assumes "real_size (xg_size s)"
  shows "within (xg_size s) (xg_bounds s)" "rw (xg_bounds s) = fst (xg_size s)" "rh (xg_bounds s) = snd (xg_size s)"
    "(x, y) \<in> rect_pixels (xg_bounds s) \<longleftrightarrow> 0 \<le> x \<and> x < int (fst (xg_size s)) \<and> 0 \<le> y \<and> y < int (snd (xg_size s))"
  using assms by (auto simp: within_def xg_bounds_def rect_new_def real_size_def small_size_def i32_small rw_def rh_def in_rect_pixels)

text \<open>What a collection fetches: everything where the picture is to be refreshed, else the damage taken.\<close>

definition wanted :: "x_says \<Rightarrow> x11_capture \<Rightarrow> rect list" where
  "wanted a s = (if xg_refresh s then [xg_bounds s] else if xg_drawn s then (case xg_take_damage a s of Some rs \<Rightarrow> rs | None \<Rightarrow> []) else [])"

lemma collect_cases:
  assumes "xg_collect a s = (Inr b, s')" "xg_fetched s = []"
  obtains s1 shm where "s1 = s \<or> xg_resized s \<and> xg_refresh s1 \<and> xy_geometry a = Some (xg_size s1) \<and> length (lv_shm (xg_live s1)) = bytes_for (xg_size s1)
        \<and> xg_reopen s1 = xg_reopen s \<and> xg_drawn s1 = xg_drawn s \<and> xg_resized s1 = xg_resized s \<and> xg_fetched s1 = []"
    "xg_resized s \<Longrightarrow> xy_geometry a = Some (xg_size s1)"
    "xg_fetched s' = xg_layout (length (lv_shm (xg_live s1))) 0 (reduced (wanted a s1))"
    "xg_replies a (xg_fetched s') (lv_shm (xg_live s1)) = (True, shm)" "lv_shm (xg_live s') = shm" "xg_size s' = xg_size s1"
    "\<not> xg_refresh s'" "xg_reopen s' = xg_reopen s" "\<not> xg_refresh s1 \<Longrightarrow> xg_drawn s \<Longrightarrow> xg_take_damage a s1 \<noteq> None"
    "b = xg_ready s'"
proof -
  obtain s1 where s1: "(if xg_resized s then xg_regeometry a s else (Inr (), s)) = (Inr (), s1)"
    using assms(1) by (cases "if xg_resized s then xg_regeometry a s else (Inr (), s)") (auto simp: xg_collect_def split: sum.splits)
  then have g: "s1 = s \<or> xg_resized s \<and> xg_refresh s1 \<and> xy_geometry a = Some (xg_size s1) \<and> length (lv_shm (xg_live s1)) = bytes_for (xg_size s1)
        \<and> xg_reopen s1 = xg_reopen s \<and> xg_drawn s1 = xg_drawn s \<and> xg_resized s1 = xg_resized s \<and> xg_fetched s1 = []"
    and gs: "xg_resized s \<Longrightarrow> xy_geometry a = Some (xg_size s1)"
    using assms(2) by (auto simp: xg_regeometry_def xg_size_def shared_segment_def split: if_splits option.splits)
  then have f1: "xg_fetched s1 = []" "xg_drawn s1 = xg_drawn s" "xg_reopen s1 = xg_reopen s" using assms(2) by auto
  obtain rects s2 where s2: "(if xg_drawn s1 then (xg_take_damage a s1, s1\<lparr>xg_drawn := False\<rparr>) else (Some [], s1)) = (Some rects, s2)"
    using assms(1) s1 by (cases "if xg_drawn s1 then (xg_take_damage a s1, s1\<lparr>xg_drawn := False\<rparr>) else (Some [], s1)") (auto simp: xg_collect_def split: option.splits)
  then have t: "xg_live s2 = xg_live s1" "xg_refresh s2 = xg_refresh s1" "xg_reopen s2 = xg_reopen s1" "xg_fetched s2 = []" "xg_resized s2 = xg_resized s1"
    "xg_drawn s1 \<Longrightarrow> xg_take_damage a s1 = Some rects" "\<not> xg_drawn s1 \<Longrightarrow> rects = []"
    using f1 by (auto split: if_splits)
  define rects' where "rects' = (if xg_refresh s2 then [xg_bounds s2] else rects)"
  have w: "rects' = wanted a s1" using t by (auto simp: rects'_def wanted_def xg_bounds_def xg_size_def)
  obtain s3 where s3: "xg_fetch a rects' (s2\<lparr>xg_refresh := False\<rparr>) = (Inr (), s3)"
    using assms(1) s1 s2 by (cases "xg_fetch a rects' (s2\<lparr>xg_refresh := False\<rparr>)") (auto simp: xg_collect_def rects'_def Let_def split: sum.splits)
  obtain s4 where s4: "(if xg_pointer s3 then xg_read_cursor a (s3\<lparr>xg_pointer := False\<rparr>) else (Inr (), s3)) = (Inr (), s4)" "s' = s4" "b = xg_ready s4"
    using assms(1) s1 s2 s3 by (cases "if xg_pointer s3 then xg_read_cursor a (s3\<lparr>xg_pointer := False\<rparr>) else (Inr (), s3)")
      (auto simp: xg_collect_def rects'_def [symmetric] Let_def split: sum.splits)
  have c: "xg_live s4 = xg_live s3" "xg_refresh s4 = xg_refresh s3" "xg_reopen s4 = xg_reopen s3" "xg_fetched s4 = xg_fetched s3"
    using s4(1) by (auto simp: xg_read_cursor_def split: if_splits option.splits)
  have r: "xg_fetched s3 = xg_layout (length (lv_shm (xg_live s1))) 0 (reduced rects')"
    "xg_replies a (xg_fetched s3) (lv_shm (xg_live s1)) = (True, lv_shm (xg_live s3))" "lv_size (xg_live s3) = lv_size (xg_live s1)"
    "\<not> xg_refresh s3" "xg_reopen s3 = xg_reopen s1"
  proof -
    have e: "reduced [] = []" by (simp add: reduced_def)
    show "xg_fetched s3 = xg_layout (length (lv_shm (xg_live s1))) 0 (reduced rects')"
      "xg_replies a (xg_fetched s3) (lv_shm (xg_live s1)) = (True, lv_shm (xg_live s3))" "lv_size (xg_live s3) = lv_size (xg_live s1)"
      "\<not> xg_refresh s3" "xg_reopen s3 = xg_reopen s1"
      using s3 t by (auto simp: xg_fetch_def reduced_def [symmetric] e Let_def split: if_splits prod.splits)
  qed
  show thesis
    by (rule that [of s1 "lv_shm (xg_live s4)"])
      (use g gs r c t f1 s4(2,3) w in \<open>auto simp: xg_size_def\<close>)
qed

text \<open>Between a frame applied and the next wait: the segment is as large as the screen, nothing is waiting to be
  applied, and a picture of another size than the screen's, or one the comparing pass has not seen, is to be
  fetched whole.\<close>

definition x11_ok :: "x11_capture \<Rightarrow> framebuffer \<Rightarrow> nat \<times> nat \<Rightarrow> bool" where
  "x11_ok s fb seen \<longleftrightarrow> seg_ok s \<and> fb_ok fb \<and> \<not> xg_ready s
    \<and> (xg_reopen s \<or> xg_refresh s \<or> (fb_width fb, fb_height fb) = xg_size s \<and> seen = xg_size s)"

lemma handle_keeps:
  "xg_live (fold xg_handle evs s) = xg_live s \<and> xg_reopen (fold xg_handle evs s) = xg_reopen s \<and> xg_refresh (fold xg_handle evs s) = xg_refresh s
    \<and> xg_fetched (fold xg_handle evs s) = xg_fetched s \<and> xg_cursor (fold xg_handle evs s) = xg_cursor s"
proof (induction evs arbitrary: s)
  case (Cons e evs)
  have "xg_live (xg_handle e s) = xg_live s \<and> xg_reopen (xg_handle e s) = xg_reopen s \<and> xg_refresh (xg_handle e s) = xg_refresh s
    \<and> xg_fetched (xg_handle e s) = xg_fetched s \<and> xg_cursor (xg_handle e s) = xg_cursor s"
    by (cases e) (simp_all add: xg_handle_def)
  then show ?case using Cons [of "xg_handle e s"] by simp
qed simp

lemma gather_keeps:
  assumes "xg_gather rounds s = (Inr b, s')"
  shows "xg_live s' = xg_live s \<and> xg_reopen s' = xg_reopen s \<and> xg_refresh s' = xg_refresh s \<and> xg_fetched s' = xg_fetched s
    \<and> xg_cursor s' = xg_cursor s \<and> (\<not> b \<longrightarrow> \<not> xg_resized s \<longrightarrow> \<not> xg_resized s')"
  using assms
proof (induction rounds s rule: xg_gather.induct)
  case (2 evs ending rounds s)
  note k = handle_keeps [of evs s]
  show ?case
  proof (cases "ending = Broken")
    case True
    then show ?thesis using 2 by (simp add: Let_def)
  next
    case nb: False
    show ?thesis
    proof (cases "xg_outstanding (fold xg_handle evs s)")
      case True
      then show ?thesis using 2 nb k by (auto simp: Let_def)
    next
      case False
      then have nr: "\<not> xg_resized (fold xg_handle evs s)" by (simp add: xg_outstanding_def)
      show ?thesis
      proof (cases ending)
        case Readable
        then show ?thesis using 2 nb False k nr by (auto simp: Let_def)
      qed (use 2 nb False k nr in \<open>auto simp: Let_def\<close>)
    qed
  qed
qed simp

lemma live_open_size:
  assumes "live_open g = Inr l" "\<forall>su. gr_setup g = Some su \<longrightarrow> real_size (su_size su)"
  shows "real_size (lv_size l) \<and> length (lv_shm l) = bytes_for (lv_size l)"
  using assms by (auto simp: live_open_def shared_segment_def split: option.splits sum.splits if_splits)

text \<open>What a wait that did not fail has left for \<open>apply\<close>.\<close>

lemma take_damage_within:
  assumes "real_size (xg_size s)" "xg_take_damage a s = Some rs"
  shows "\<forall>r\<in>set rs. within (xg_size s) r"
proof -
  have b: "rx1 (xg_bounds s) = 0" "ry1 (xg_bounds s) = 0" "rx2 (xg_bounds s) = int (fst (xg_size s))" "ry2 (xg_bounds s) = int (snd (xg_size s))"
    using assms(1) by (simp_all add: xg_bounds_def rect_new_def real_size_def small_size_def i32_small)
  have "within (xg_size s) (rect_intersection q (xg_bounds s))" if "\<not> rect_is_empty (rect_intersection q (xg_bounds s))" for q
  proof -
    have e: "rect_is_empty rect_EMPTY" by (simp add: rect_EMPTY_def rect_is_empty_def)
    define m where "m = mk_rect (max (rx1 q) 0) (max (ry1 q) 0) (min (rx2 q) (int (fst (xg_size s)))) (min (ry2 q) (int (snd (xg_size s))))"
    have i: "rect_intersection q (xg_bounds s) = rect_normalised m" by (simp add: rect_intersection_def b m_def)
    then have "\<not> rect_is_empty m" "rect_normalised m = m" using that e by (auto simp: rect_normalised_def split: if_splits)
    then show ?thesis unfolding i by (simp add: within_def rect_is_empty_def) (simp add: m_def)
  qed
  then show ?thesis using assms(2) by (auto simp: xg_take_damage_def)
qed

lemma wanted_within:
  assumes "real_size (xg_size s)"
  shows "\<forall>r\<in>set (wanted a s). within (xg_size s) r"
proof (cases "xg_take_damage a s")
  case None
  then have "wanted a s = [xg_bounds s] \<or> wanted a s = []" by (simp add: wanted_def)
  then show ?thesis using bounds_within(1) [OF assms] by (elim disjE) simp_all
next
  case (Some rs)
  then have "wanted a s = [xg_bounds s] \<or> wanted a s = [] \<or> wanted a s = rs" by (simp add: wanted_def)
  then show ?thesis using bounds_within(1) [OF assms] take_damage_within [OF assms Some] by (elim disjE) simp_all
qed

lemma says_geometry: "says_ok a \<Longrightarrow> xy_geometry a = Some sz \<Longrightarrow> real_size sz"
  unfolding says_ok_def by blast

lemma collect_ok:
  assumes "xg_collect a s = (Inr b, s')" "seg_ok s" "says_ok a" "xg_fetched s = []"
  shows "seg_ok s' \<and> (\<forall>ro\<in>set (xg_fetched s'). fits (length (lv_shm (xg_live s'))) (xg_size s') ro) \<and> \<not> xg_refresh s'
    \<and> xg_reopen s' = xg_reopen s \<and> b = xg_ready s' \<and> (map fst (xg_fetched s') = [xg_bounds s'] \<or> xg_size s' = xg_size s \<and> \<not> xg_refresh s)"
proof -
  obtain s1 shm where c: "s1 = s \<or> xg_resized s \<and> xg_refresh s1 \<and> xy_geometry a = Some (xg_size s1) \<and> length (lv_shm (xg_live s1)) = bytes_for (xg_size s1)
        \<and> xg_reopen s1 = xg_reopen s \<and> xg_drawn s1 = xg_drawn s \<and> xg_resized s1 = xg_resized s \<and> xg_fetched s1 = []"
    "xg_fetched s' = xg_layout (length (lv_shm (xg_live s1))) 0 (reduced (wanted a s1))"
    "xg_replies a (xg_fetched s') (lv_shm (xg_live s1)) = (True, shm)" "lv_shm (xg_live s') = shm" "xg_size s' = xg_size s1"
    "\<not> xg_refresh s'" "xg_reopen s' = xg_reopen s" "b = xg_ready s'"
    by (rule collect_cases [OF assms(1,4)]) (rule that)
  have s1: "real_size (xg_size s1)" "length (lv_shm (xg_live s1)) = bytes_for (xg_size s1)"
    using c(1) assms(2) says_geometry [OF assms(3), of "xg_size s1"] by (auto simp: seg_ok_def)
  then have sm: "small_size (xg_size s1)" by (simp add: real_size_def)
  have w: "\<forall>r\<in>set (reduced (wanted a s1)). within (xg_size s1) r" using reduced_within [OF sm wanted_within [OF s1(1)]] by blast
  have len: "length shm = length (lv_shm (xg_live s1))" using replies_content [OF assms(3) sm w c(3) [unfolded c(2)]] by simp
  have "map fst (xg_fetched s') = [xg_bounds s'] \<or> xg_size s' = xg_size s \<and> \<not> xg_refresh s"
  proof (cases "xg_refresh s1")
    case True
    then have r: "reduced (wanted a s1) = [xg_bounds s1]" by (simp add: wanted_def reduced_def MAX_FETCHES_def)
    have "map fst (xg_fetched s') = [xg_bounds s1]"
      unfolding c(2) r by (rule layout_full [OF sm]) (use bounds_within(1-3) [OF s1(1)] s1(2) in \<open>simp_all add: bytes_for_def FB_BPP_def\<close>)
    then show ?thesis using c(5) by (simp add: xg_bounds_def)
  qed (use c(1,5) in auto)
  moreover have "\<forall>ro\<in>set (xg_fetched s'). fits (length (lv_shm (xg_live s'))) (xg_size s') ro"
    using layout_fits [OF sm w] len by (simp add: c(2,4,5))
  moreover have "seg_ok s'" using s1 len c(4,5) by (simp add: seg_ok_def)
  ultimately show ?thesis using c(6-8) by blast
qed

lemma wait_cases:
  assumes "xg_wait a s = (Inr b, s')" "x11_ok s fb seen" "says_ok a"
  obtains s1 g s2 where "\<not> xg_reopen s \<and> s1 = s \<or> xg_reopen s \<and> xg_refresh s1"
    "seg_ok s1" "\<not> xg_reopen s1" "xg_fetched s1 = []" "xg_cursor s1 = None" "\<not> xg_resized s1"
    "xg_gather (xy_rounds a) s1 = (Inr g, s2)" "\<not> g \<Longrightarrow> \<not> b \<and> s' = s2" "g \<Longrightarrow> xg_collect a s2 = (Inr b, s')"
    "seg_ok s2" "xg_fetched s2 = []" "xg_size s2 = xg_size s1" "xg_refresh s2 = xg_refresh s1"
proof -
  have nr: "xg_fetched s = []" "xg_cursor s = None" "\<not> xg_resized s" using assms(2) by (auto simp: x11_ok_def xg_ready_def)
  obtain s1 where s1: "xg_wait a s = (case xg_gather (xy_rounds a) s1 of (Inr True, s2) \<Rightarrow> xg_collect a s2 | other \<Rightarrow> other)"
    "\<not> xg_reopen s \<and> s1 = s \<or> xg_reopen s \<and> xg_refresh s1"
    "seg_ok s1" "\<not> xg_reopen s1" "xg_fetched s1 = []" "xg_cursor s1 = None" "\<not> xg_resized s1"
  proof (cases "xg_reopen s")
    case False
    show thesis by (rule that [of s]) (use False assms(2) nr in \<open>auto simp: xg_wait_def x11_ok_def\<close>)
  next
    case True
    then obtain l where l: "live_open (xy_open a) = Inr l" using assms(1) by (cases "live_open (xy_open a)") (simp_all add: xg_wait_def)
    show thesis
      by (rule that [of "s\<lparr>xg_live := l, xg_reopen := False, xg_refresh := True, xg_pointer := True\<rparr>"])
        (use True l nr live_open_size [OF l] assms(3) in \<open>auto simp: xg_wait_def xg_ready_def seg_ok_def says_ok_def xg_size_def\<close>)
  qed
  obtain g s2 where g: "xg_gather (xy_rounds a) s1 = (Inr g, s2)"
    using assms(1) s1(1) by (cases "xg_gather (xy_rounds a) s1"; cases "fst (xg_gather (xy_rounds a) s1)") auto
  note k = gather_keeps [OF g]
  show thesis
    by (rule that [OF s1(2-7) g]) (use assms(1) s1 g k seg_ok_cong [of s2 s1] in \<open>auto simp: xg_size_def\<close>)
qed

lemma wait_ok:
  assumes "xg_wait a s = (Inr b, s')" "x11_ok s fb seen" "says_ok a"
  shows "seg_ok s' \<and> \<not> xg_reopen s' \<and> (\<forall>ro\<in>set (xg_fetched s'). fits (length (lv_shm (xg_live s'))) (xg_size s') ro)
    \<and> (b \<longrightarrow> \<not> xg_refresh s' \<and> (map fst (xg_fetched s') = [xg_bounds s'] \<or> (fb_width fb, fb_height fb) = xg_size s' \<and> seen = xg_size s'))
    \<and> (\<not> b \<longrightarrow> x11_ok s' fb seen)"
proof -
  have fb: "fb_ok fb" using assms(2) by (simp add: x11_ok_def)
  obtain s1 g s2 where s1: "\<not> xg_reopen s \<and> s1 = s \<or> xg_reopen s \<and> xg_refresh s1"
    "seg_ok s1" "\<not> xg_reopen s1" "xg_fetched s1 = []" "xg_cursor s1 = None" "\<not> xg_resized s1"
    and g: "xg_gather (xy_rounds a) s1 = (Inr g, s2)" "\<not> g \<Longrightarrow> \<not> b \<and> s' = s2" "g \<Longrightarrow> xg_collect a s2 = (Inr b, s')"
    and s2: "seg_ok s2" "xg_fetched s2 = []" "xg_size s2 = xg_size s1"
    by (rule wait_cases [OF assms]) (rule that)
  note k = gather_keeps [OF g(1)]
  have known: "xg_refresh s1 \<or> (fb_width fb, fb_height fb) = xg_size s1 \<and> seen = xg_size s1" using s1(1) assms(2) by (auto simp: x11_ok_def)
  show ?thesis
  proof (cases g)
    case False
    then show ?thesis using s2 k s1 known g(2) fb by (auto simp: x11_ok_def xg_ready_def)
  next
    case True
    note d = collect_ok [OF g(3) [OF True] s2(1) assms(3) s2(2)]
    have sz': "map fst (xg_fetched s') = [xg_bounds s'] \<or> (fb_width fb, fb_height fb) = xg_size s' \<and> seen = xg_size s'"
      using d k known s2(3) by auto
    show ?thesis
    proof (cases b)
      case True
      then show ?thesis using d k s1(3) sz' by simp
    next
      case False
      then have "\<not> xg_ready s'" using d by simp
      moreover from this have "xg_fetched s' = []" by (simp add: xg_ready_def)
      ultimately show ?thesis using d k s1(3) sz' False fb by (auto simp: x11_ok_def)
    qed
  qed
qed

section \<open>Applying\<close>

lemma from_rects_pixels: "region_wf (region_from_rects rs) \<and> rects_pixels (region_from_rects rs) = rects_pixels rs"
  using region.add_all [OF region.invar_empty, of rs] by (simp add: region_from_rects_def region.pix_empty)

lemma apply_ok:
  assumes "seg_ok s" "\<forall>ro\<in>set (xg_fetched s). fits (length (lv_shm (xg_live s))) (xg_size s) ro" "fb_ok fb"
  obtains f fb' where "xg_apply fb s = Some (f, fb', s\<lparr>xg_resized := False, xg_cursor := None, xg_fetched := []\<rparr>)"
    "fb_ok fb' \<and> (fb_width fb', fb_height fb') = xg_size s" "fm_moves f = [] \<and> fm_cursor f = xg_cursor s"
    "fm_resized f \<longleftrightarrow> (fb_width fb, fb_height fb) \<noteq> xg_size s"
    "region_wf (fm_damage f) \<and> rects_pixels (fm_damage f) = rects_pixels (map fst (xg_fetched s))"
    "(fb_width fb, fb_height fb) = xg_size s \<Longrightarrow> honest fb fb' (fm_damage f)"
    "\<And>x y. (fb_width fb, fb_height fb) = xg_size s \<Longrightarrow> x < fst (xg_size s) \<Longrightarrow> y < snd (xg_size s) \<Longrightarrow>
       (int x, int y) \<notin> rects_pixels (map fst (xg_fetched s)) \<Longrightarrow> fb_px fb' x y = fb_px fb x y"
    "\<And>x y v. x < fst (xg_size s) \<Longrightarrow> y < snd (xg_size s) \<Longrightarrow> (int x, int y) \<in> rects_pixels (map fst (xg_fetched s)) \<Longrightarrow>
       \<forall>(r, o')\<in>set (xg_fetched s). (int x, int y) \<in> rect_pixels r \<longrightarrow> seg_px (lv_shm (xg_live s)) r o' (int x) (int y) = v \<Longrightarrow> fb_px fb' x y = v"
proof -
  obtain w h where wh: "xg_size s = (w, h)" by (cases "xg_size s")
  then have sm: "w < 65536" "h < 65536" using assms(1) by (simp_all add: seg_ok_def real_size_def small_size_def)
  define fb1 where "fb1 = (if fb_width fb \<noteq> w \<or> fb_height fb \<noteq> h then fb_resize w h fb else fb)"
  have fb1: "fb_ok fb1" "fb_width fb1 = w" "fb_height fb1 = h"
    using assms(3) sm by (auto simp: fb1_def fb_resize_def fb_new_def fb_ok_def FB_BPP_def)
  have "\<forall>ro\<in>set (xg_fetched s). fits (length (lv_shm (xg_live s))) (fb_width fb1, fb_height fb1) ro" using assms(2) by (simp add: fb1 wh)
  from xg_copy_ok [OF fb1(1) this] obtain fb' where c: "xg_copy (lv_shm (xg_live s)) (xg_fetched s) fb1 = Some fb'" "fb_same fb1 fb'"
    "\<And>x y. x < w \<Longrightarrow> y < h \<Longrightarrow> (int x, int y) \<notin> rects_pixels (map fst (xg_fetched s)) \<Longrightarrow> fb_px fb' x y = fb_px fb1 x y"
    "\<And>x y v. x < w \<Longrightarrow> y < h \<Longrightarrow> (int x, int y) \<in> rects_pixels (map fst (xg_fetched s)) \<Longrightarrow>
       \<forall>(r, o')\<in>set (xg_fetched s). (int x, int y) \<in> rect_pixels r \<longrightarrow> seg_px (lv_shm (xg_live s)) r o' (int x) (int y) = v \<Longrightarrow> fb_px fb' x y = v"
    unfolding fb1 by blast
  let ?d = "if map fst (xg_fetched s) = [] then region_new else region_from_rects (map fst (xg_fetched s))"
  have d: "region_wf ?d \<and> rects_pixels ?d = rects_pixels (map fst (xg_fetched s))"
    using from_rects_pixels region.invar_empty region.pix_empty by simp
  have ok: "fb_ok fb'" "fb_width fb' = w" "fb_height fb' = h" using c(2) fb1 by (simp_all add: fb_same_def)
  show thesis
  proof (rule that)
    show "xg_apply fb s = Some (\<lparr>fm_damage = ?d, fm_moves = [], fm_cursor = xg_cursor s, fm_resized = (fb_width fb \<noteq> w \<or> fb_height fb \<noteq> h)\<rparr>,
        fb', s\<lparr>xg_resized := False, xg_cursor := None, xg_fetched := []\<rparr>)"
      unfolding xg_apply_def wh Let_def prod.case fb1_def [symmetric] c(1) by simp
    show "honest fb fb' (fm_damage \<lparr>fm_damage = ?d, fm_moves = [], fm_cursor = xg_cursor s, fm_resized = (fb_width fb \<noteq> w \<or> fb_height fb \<noteq> h)\<rparr>)"
      if "(fb_width fb, fb_height fb) = xg_size s"
    proof -
      have "fb1 = fb" using that by (simp add: fb1_def wh)
      then show ?thesis using c(3) d by (auto simp: honest_def px_of_def in_picture_pts [OF ok(1)] ok(2,3))
    qed
    show "fb_px fb' x y = fb_px fb x y"
      if "(fb_width fb, fb_height fb) = xg_size s" "x < fst (xg_size s)" "y < snd (xg_size s)" "(int x, int y) \<notin> rects_pixels (map fst (xg_fetched s))" for x y
    proof -
      have "fb1 = fb" using that(1) by (simp add: fb1_def wh)
      then show ?thesis using c(3) [of x y] that(2-4) wh by simp
    qed
    show "fb_px fb' x y = v"
      if "x < fst (xg_size s)" "y < snd (xg_size s)" "(int x, int y) \<in> rects_pixels (map fst (xg_fetched s))"
        "\<forall>(r, o')\<in>set (xg_fetched s). (int x, int y) \<in> rect_pixels r \<longrightarrow> seg_px (lv_shm (xg_live s)) r o' (int x) (int y) = v" for x y v
      by (rule c(4)) (use that wh in auto)
  qed (use d ok wh in auto)
qed

lemma apply_true:
  assumes "seg_ok s" "\<forall>ro\<in>set (xg_fetched s). fits (length (lv_shm (xg_live s))) (xg_size s) ro" "fb_ok fb" "\<not> xg_reopen s"
    "\<not> xg_refresh s \<and> (map fst (xg_fetched s) = [xg_bounds s] \<or> (fb_width fb, fb_height fb) = xg_size s \<and> tg_size tg = xg_size s)"
  obtains f fb' s' where "xg_apply fb s = Some (f, fb', s')" "frame_true tg fb fb' f" "fm_cursor f = xg_cursor s" "x11_ok s' fb' (fb_width fb', fb_height fb')"
proof -
  obtain f fb' where a: "xg_apply fb s = Some (f, fb', s\<lparr>xg_resized := False, xg_cursor := None, xg_fetched := []\<rparr>)"
    "fb_ok fb' \<and> (fb_width fb', fb_height fb') = xg_size s" "fm_moves f = [] \<and> fm_cursor f = xg_cursor s"
    "fm_resized f \<longleftrightarrow> (fb_width fb, fb_height fb) \<noteq> xg_size s"
    "region_wf (fm_damage f) \<and> rects_pixels (fm_damage f) = rects_pixels (map fst (xg_fetched s))"
    "(fb_width fb, fb_height fb) = xg_size s \<Longrightarrow> honest fb fb' (fm_damage f)"
    by (rule apply_ok [OF assms(1-3)]) (rule that)
  have rs: "real_size (xg_size s)" using assms(1) by (simp add: seg_ok_def)
  have wh: "fst (xg_size s) = fb_width fb'" "snd (xg_size s) = fb_height fb'" using conjunct2 [OF a(2)] by (metis fst_conv, metis snd_conv)
  have whole: "picture_pts fb' \<subseteq> rects_pixels (fm_damage f)" if "map fst (xg_fetched s) = [xg_bounds s]"
    using wh a(2,5) that bounds_within(4) [OF rs] by (auto simp: in_picture_pts)
  have "frame_true tg fb fb' f"
  proof (cases "map fst (xg_fetched s) = [xg_bounds s]")
    case True
    then have "honest fb fb' (fm_damage f)" using whole by (auto simp: honest_def)
    then show ?thesis using a(2-4) whole [OF True] by (auto simp: frame_true_def)
  next
    case False
    then show ?thesis using a(2-4,6) assms(5) by (auto simp: frame_true_def)
  qed
  moreover have "x11_ok (s\<lparr>xg_resized := False, xg_cursor := None, xg_fetched := []\<rparr>) fb' (fb_width fb', fb_height fb')"
    using assms(1,5) a(2) by (auto simp: x11_ok_def xg_ready_def seg_ok_def xg_size_def)
  ultimately show thesis using that a(1,3) by blast
qed

end
