(* ===== verification/X11_Turns.thy ===== *)
theory X11_Turns
  imports X11_Capture_Laws
begin

text \<open>
  Turns of the capture thread over the X11 backend: every one of them keeps the sessions right, and with
  the account the server gives of its drawing the picture is the display's. What a refused request loses.
\<close>

section \<open>From the backend to the sessions\<close>

text \<open>C4. The X11 backend and the capture thread: from a state the backend is left in between frames, a wait
  that does not fail is followed by a turn that does not panic, keeps the state of the backend and of the
  comparing pass, and leaves every session that was right about the picture right about the new one.\<close>

theorem x11_turn_reaches_sessions:
  assumes "thread_ok h (t, sh)" "x11_ok (ct_backend t) (sh_fb sh) (tg_size (ct_tightener t))" "says_ok a"
    "xg_wait a (ct_backend t) = (Inr b, be)"
    "\<And>f fb s. xg_apply (sh_fb sh) be = Some (f, fb, s) \<Longrightarrow> tells_apart h (fb_cells (sh_fb sh) \<union> fb_cells fb)"
    "\<And>vs. set (ord vs) = set vs" "view sh s cl (px_of (sh_fb sh))"
  shows "\<exists>t' sh' ev. capture_turn h ord (x11_backend a) copied us logged now (t, sh) = Some ((t', sh'), ev)
    \<and> thread_ok h (t', sh') \<and> x11_ok (ct_backend t') (sh_fb sh') (tg_size (ct_tightener t'))
    \<and> view sh' (case ev of Some e \<Rightarrow> absorb e sh' s | None \<Rightarrow> s) cl (px_of (sh_fb sh'))"
proof (cases b)
  case False
  have fb: "sh_fb (desk_copied copied sh) = sh_fb sh" by (simp add: desk_copied_def split: option.split)
  have "capture_turn h ord (x11_backend a) copied us logged now (t, sh) = Some ((t\<lparr>ct_backend := be\<rparr>, desk_copied copied sh), None)"
    using assms(4) False by (simp add: capture_turn_def x11_backend_def)
  then show ?thesis using wait_ok [OF assms(4,2,3)] assms(1,7) False
    by (auto simp: thread_ok_def fb view_def picture_of_pts)
next
  case True
  note w = wait_ok [OF assms(4,2,3)]
  have ok: "fb_ok (sh_fb sh)" using assms(2) by (simp add: x11_ok_def)
  obtain f fb' be' where ap: "xg_apply (sh_fb sh) be = Some (f, fb', be')" "frame_true (ct_tightener t) (sh_fb sh) fb' f"
    "fm_cursor f = xg_cursor be" "x11_ok be' fb' (fb_width fb', fb_height fb')"
    by (rule apply_true [of be "sh_fb sh" "ct_tightener t"]) (use w ok True in auto)
  have wa: "bk_wait (x11_backend a) (ct_backend t) = (Inr True, be)" "bk_apply (x11_backend a) (sh_fb sh) be = (Inr f, fb', be')"
    using assms(4) True ap(1) by (simp_all add: x11_backend_def)
  obtain t' sh' ev where T: "capture_turn h ord (x11_backend a) copied us logged now (t, sh) = Some ((t', sh'), ev)" "sh_fb sh' = fb'"
    "knows h (ct_tightener t') fb'" "ct_backend t' = be'" "thread_ok h (t', sh')" "view sh' (case ev of Some e \<Rightarrow> absorb e sh' s | None \<Rightarrow> s) cl (px_of fb')"
    using turn_reaches [OF assms(1) wa ap(2) assms(5) [OF ap(1)] assms(6,7), where copied = copied and us = us and logged = logged and now = now] by blast
  then show ?thesis using ap(4) knows_size [OF T(3)] by auto
qed

section \<open>A screen of one point\<close>

definition point_live :: "bytes \<Rightarrow> live" where
  "point_live shm = \<lparr>lv_size = (1, 1), lv_shm = shm, lv_monitors = False\<rparr>"

definition point_x11 :: "bytes \<Rightarrow> (rect \<times> nat) list \<Rightarrow> x11_capture" where
  "point_x11 shm fetched = \<lparr>xg_live = point_live shm, xg_reopen = False, xg_refresh = False, xg_drawn = False, xg_pointer = False,
     xg_resized = False, xg_fetched = fetched, xg_cursor = None\<rparr>"

text \<open>It was drawn into, and is now of another colour.\<close>

definition point_says :: x_says where
  "point_says = \<lparr>xy_open = \<lparr>gr_setup = None, gr_damage = False, gr_xfixes = None, gr_shm = None, gr_randr = None, gr_watches = False, gr_segment = False\<rparr>,
     xy_rounds = [([OtherX], Readable), ([DamageNotify], Readable)], xy_geometry = None, xy_segment = False, xy_region = Some [(0, 0, 1, 1)], xy_sent = True,
     xy_image = \<lambda>x y w h. Some (concat (map (\<lambda>j. concat (map (\<lambda>i. [2, 0, 0, 0]) [0 ..< w])) [0 ..< h])), xy_cursor = None, xy_monitors = None\<rparr>"

lemma point_wait: "xg_wait point_says (point_x11 [0, 0, 0, 0] []) = (Inr True, point_x11 [2, 0, 0, 0] [(mk_rect 0 0 1 1, 0)])"
  by code_simp

lemma point_apply: "xg_apply (point 1) (point_x11 [2, 0, 0, 0] [(mk_rect 0 0 1 1, 0)]) = Some (point_frame, point 2, point_x11 [2, 0, 0, 0] [])"
  by code_simp

lemma point_x11_ok: "x11_ok (point_x11 [0, 0, 0, 0] []) (point 1) (1, 1)"
  by (simp add: x11_ok_def seg_ok_def real_size_def small_size_def xg_ready_def xg_size_def point_x11_def point_live_def bytes_for_def
      FB_BPP_def point_def fb_ok_def)

lemma point_says_ok: "says_ok point_says"
  using rows_pixels(1) [of "\<lambda>x y. [2, 0, 0, 0]"] by (simp add: says_ok_def point_says_def)

definition point_desk :: "x11_capture capture_thread" where
  "point_desk = \<lparr>ct_backend = point_x11 [0, 0, 0, 0] [], ct_tightener = ct_tightener point_thread, ct_totals = totals_new, ct_totals_at = 0\<rparr>"

theorem x11_turn_reaches_sessions_witness:
  "\<exists>t' sh' ev. capture_turn head_hash id (x11_backend point_says) None 0 0 0 (point_desk, point_shared) = Some ((t', sh'), ev)
    \<and> thread_ok head_hash (t', sh') \<and> x11_ok (ct_backend t') (sh_fb sh') (tg_size (ct_tightener t'))
    \<and> view sh' (case ev of Some e \<Rightarrow> absorb e sh' dot_session | None \<Rightarrow> dot_session) (\<lambda>_. []) (px_of (sh_fb sh'))"
proof (rule x11_turn_reaches_sessions [where b = True and be = "point_x11 [2, 0, 0, 0] [(mk_rect 0 0 1 1, 0)]"])
  show "thread_ok head_hash (point_desk, point_shared)" using point_facts(1) by (simp add: thread_ok_def point_desk_def)
  show "x11_ok (ct_backend point_desk) (sh_fb point_shared) (tg_size (ct_tightener point_desk))"
    using point_x11_ok by (simp add: point_desk_def point_facts(4)) (simp add: point_thread_def)
  show "tells_apart head_hash (fb_cells (sh_fb point_shared) \<union> fb_cells fb)"
    if "xg_apply (sh_fb point_shared) (point_x11 [2, 0, 0, 0] [(mk_rect 0 0 1 1, 0)]) = Some (f, fb, s)" for f fb s
    using that point_facts(3) by (simp add: point_facts(4) point_apply)
  show "view point_shared dot_session (\<lambda>_. []) (px_of (sh_fb point_shared))" using point_facts(5) by (simp add: point_facts(4))
qed (simp_all add: point_says_ok point_wait point_desk_def)

section \<open>The display behind it\<close>

text \<open>A display: its size, its pixels, and what has been drawn since its damage was last taken.\<close>

record display =
  dp_size :: "nat \<times> nat"
  dp_px :: "int \<times> int \<Rightarrow> bytes"
  dp_drawn :: "(int \<times> int) set"

definition desktop_pts :: "nat \<times> nat \<Rightarrow> (int \<times> int) set" where
  "desktop_pts sz = {(x, y). 0 \<le> x \<and> x < int (fst sz) \<and> 0 \<le> y \<and> y < int (snd sz)}"

definition raw_rects :: "(int \<times> int \<times> int \<times> int) list \<Rightarrow> rect list" where
  "raw_rects rs = map (\<lambda>(x, y, w, h). rect_new x y w h) rs"

text \<open>The pixels whose record the wait takes, where it asks for it.\<close>

definition asks :: "x_says \<Rightarrow> x11_capture \<Rightarrow> bool" where
  "asks a s \<longleftrightarrow> (case xg_gather (xy_rounds a) s of (Inr True, s2) \<Rightarrow> xg_drawn s2 | _ \<Rightarrow> False)"

definition taken :: "x_says \<Rightarrow> x11_capture \<Rightarrow> (int \<times> int) set" where
  "taken a s = (if asks a s then rects_pixels (raw_rects (case xy_region a of Some rs \<Rightarrow> rs | None \<Rightarrow> [])) else {})"

text \<open>An account of a wait in which the display went from \<open>d0\<close> to \<open>d1\<close>: what was recorded before and what
  was drawn meanwhile is taken or still recorded, a region's rectangles do not overlap, and the pixels sent
  are the display's, except where its record says that they may have changed since.\<close>

definition account :: "x_says \<Rightarrow> x11_capture \<Rightarrow> display \<Rightarrow> display \<Rightarrow> bool" where
  "account a s d0 d1 \<longleftrightarrow> fst (dp_size d1) \<le> 32768 \<and> snd (dp_size d1) \<le> 32768
    \<and> (\<not> xg_reopen s \<and> dp_size d0 = dp_size d1 \<longrightarrow>
        (\<forall>pt\<in>desktop_pts (dp_size d1). pt \<in> dp_drawn d0 \<or> dp_px d1 pt \<noteq> dp_px d0 pt \<longrightarrow> pt \<in> taken a s \<or> pt \<in> dp_drawn d1))
    \<and> (\<forall>rs. xy_region a = Some rs \<longrightarrow> sorted_wrt (\<lambda>r s. rect_pixels r \<inter> rect_pixels s = {}) (raw_rects rs))
    \<and> (\<forall>x y w h data i j. xy_image a x y w h = Some data \<longrightarrow> i < w \<longrightarrow> j < h \<longrightarrow> (x + int i, y + int j) \<notin> dp_drawn d1 \<longrightarrow>
        take 4 (drop ((j * w + i) * 4) data) = dp_px d1 (x + int i, y + int j))"

text \<open>The picture is the display's, outside its record, unless it is to be fetched whole.\<close>

definition mirrors :: "x11_capture \<Rightarrow> framebuffer \<Rightarrow> display \<Rightarrow> bool" where
  "mirrors s fb d \<longleftrightarrow> xg_reopen s \<or> xg_refresh s
    \<or> (xg_size s = dp_size d \<and> (\<forall>(x, y)\<in>desktop_pts (dp_size d). (x, y) \<notin> dp_drawn d \<longrightarrow> fb_px fb (nat x) (nat y) = dp_px d (x, y)))"

lemma within_pts: "within sz r \<Longrightarrow> rect_pixels r \<subseteq> desktop_pts sz"
  by (auto simp: within_def in_rect_pixels desktop_pts_def)

lemma wrap16_small: "0 \<le> n \<Longrightarrow> n < 32768 \<Longrightarrow> wrap16 n = n"
  by (simp add: wrap16_def)

text \<open>The damage asked for, cut to the screen.\<close>

lemma take_damage_parts:
  assumes "real_size (xg_size s)" "xg_take_damage a s = Some rects" "xy_region a = Some rs"
    "sorted_wrt (\<lambda>r s. rect_pixels r \<inter> rect_pixels s = {}) (raw_rects rs)"
  shows "rects_pixels rects = rects_pixels (raw_rects rs) \<inter> desktop_pts (xg_size s)"
    "sorted_wrt (\<lambda>r s. rect_pixels r \<inter> rect_pixels s = {}) rects"
proof -
  let ?b = "xg_bounds s"
  have b: "rect_pixels ?b = desktop_pts (xg_size s)" using bounds_within(4) [OF assms(1)] by (auto simp: desktop_pts_def)
  have r: "rects = filter (\<lambda>r. \<not> rect_is_empty r) (map (\<lambda>r. rect_intersection r ?b) (raw_rects rs))"
    using assms(2,3) by (auto simp: xg_take_damage_def raw_rects_def comp_def split_def)
  have "rects_pixels (filter (\<lambda>r. \<not> rect_is_empty r) (map (\<lambda>r. rect_intersection r ?b) qs)) = rects_pixels qs \<inter> rect_pixels ?b" for qs
    by (induction qs) (auto simp: rect_is_empty_pixels)
  then show "rects_pixels rects = rects_pixels (raw_rects rs) \<inter> desktop_pts (xg_size s)" unfolding r b .
  have "sorted_wrt (\<lambda>r s. rect_pixels r \<inter> rect_pixels s = {}) (map (\<lambda>r. rect_intersection r ?b) (raw_rects rs))"
    unfolding sorted_wrt_map by (rule sorted_wrt_mono_rel [OF _ assms(4)]) auto
  then show "sorted_wrt (\<lambda>r s. rect_pixels r \<inter> rect_pixels s = {}) rects" unfolding r by (rule sorted_wrt_filter)
qed

lemma rect_card: "card (rect_pixels r) = rw r * rh r"
  by (simp add: rect_pixels_prod rw_def rh_def card_cartesian_product)

lemma desktop_card: "card (desktop_pts sz) = fst sz * snd sz" "finite (desktop_pts sz)"
proof -
  have e: "desktop_pts sz = {0 ..< int (fst sz)} \<times> {0 ..< int (snd sz)}" by (auto simp: desktop_pts_def)
  show "card (desktop_pts sz) = fst sz * snd sz" "finite (desktop_pts sz)" unfolding e by (simp_all add: card_cartesian_product)
qed

text \<open>Rectangles that do not overlap fit the segment.\<close>

lemma disjoint_fit:
  assumes "small_size sz" "\<forall>r\<in>set rs. within sz r" "sorted_wrt (\<lambda>r s. rect_pixels r \<inter> rect_pixels s = {}) rs"
  shows "map fst (xg_layout (bytes_for sz) 0 rs) = rs"
proof (rule layout_full [OF assms(1,2)])
  have "rects_pixels rs \<subseteq> desktop_pts sz" using assms(2) by (auto simp: rects_pixels_def dest: subsetD [OF within_pts])
  then have "card (rects_pixels rs) \<le> fst sz * snd sz" using card_mono [OF desktop_card(2)] desktop_card(1) by metis
  moreover have "int (card (rects_pixels rs)) = int (sum_list (map (\<lambda>r. rw r * rh r) rs))"
    unfolding card_disjoint_rects [OF assms(3)] by (induction rs) (use assms(2) in \<open>simp_all add: rect_card\<close>)
  ultimately show "0 + sum_list (map (\<lambda>r. rw r * rh r) rs) * 4 \<le> bytes_for sz" by (simp add: bytes_for_def FB_BPP_def)
qed


text \<open>What a collection leaves in the segment: the display's pixels.\<close>

lemma image_pixel:
  assumes "account a s0 d0 d1" "within (dp_size d1) r" "real_size (dp_size d1)" "image_of a r = Some data"
    "(x, y) \<in> rect_pixels r" "(x, y) \<notin> dp_drawn d1"
  shows "take 4 (drop ((nat (y - ry1 r) * rw r + nat (x - rx1 r)) * 4) data) = dp_px d1 (x, y)"
proof -
  have sm: "small_size (dp_size d1)" using assms(3) by (simp add: real_size_def)
  note w = within_parts [OF assms(2) sm]
  have le: "fst (dp_size d1) \<le> 32768" "snd (dp_size d1) \<le> 32768" using assms(1) by (simp_all add: account_def)
  have wd: "0 \<le> rx1 r" "rx1 r < rx2 r" "rx2 r \<le> int (fst (dp_size d1))" "0 \<le> ry1 r" "ry1 r < ry2 r" "ry2 r \<le> int (snd (dp_size d1))"
    using assms(2) by (simp_all add: within_def)
  have i: "wrap16 (rx1 r) = rx1 r" "wrap16 (ry1 r) = ry1 r" using wd le by (intro wrap16_small; linarith)+
  have wh: "nat (rect_width r mod 2 ^ 16) = rw r" "nat (rect_height r mod 2 ^ 16) = rh r" using w(1,2,10,11) by simp_all
  have im: "xy_image a (rx1 r) (ry1 r) (rw r) (rh r) = Some data" using assms(4) by (simp only: image_of_def i wh)
  have "nat (x - rx1 r) < rw r" "nat (y - ry1 r) < rh r" "rx1 r + int (nat (x - rx1 r)) = x" "ry1 r + int (nat (y - ry1 r)) = y"
    using assms(5) by (auto simp: in_rect_pixels rw_def rh_def)
  then show ?thesis using assms(1,6) im by (simp add: account_def)
qed

lemma fetched_pixel:
  assumes "account a s0 d0 d1" "says_ok a" "real_size (dp_size d1)" "\<forall>r\<in>set rs. within (dp_size d1) r"
    "xg_replies a (xg_layout (length shm) 0 rs) shm = (True, shm')" "(r, o') \<in> set (xg_layout (length shm) 0 rs)"
    "(x, y) \<in> rect_pixels r" "(x, y) \<notin> dp_drawn d1"
  shows "seg_px shm' r o' x y = dp_px d1 (x, y)"
proof -
  have sm: "small_size (dp_size d1)" using assms(3) by (simp add: real_size_def)
  have w: "within (dp_size d1) r" using layout_fits [OF sm assms(4), of "length shm" 0] assms(6) assms(4) by fastforce
  obtain data where d: "image_of a r = Some data" "take (length data) (drop o' shm') = data"
    using replies_content [OF assms(2) sm assms(4,5)] assms(6) by fastforce
  have len: "length data = rw r * rh r * 4" by (rule image_length [OF assms(2) sm w d(1)])
  let ?i = "nat (y - ry1 r) * rw r + nat (x - rx1 r)"
  have xy: "nat (x - rx1 r) < rw r" "nat (y - ry1 r) < rh r" using assms(7) by (auto simp: in_rect_pixels rw_def rh_def)
  have "?i * 4 + 4 \<le> length data"
    unfolding len using pos_bound [of "nat (x - rx1 r)" 1 "rw r" "nat (y - ry1 r)" "rh r"] xy by (simp add: algebra_simps)
  then have "take 4 (drop (?i * 4) (take (length data) (drop o' shm'))) = seg_px shm' r o' x y"
    unfolding seg_px_def by (rule take_in_take)
  then show ?thesis using image_pixel [OF assms(1) w assms(3) d(1) assms(7,8)] d(2) by simp
qed


text \<open>Every pixel of the screen is in what was fetched, or need not be.\<close>

lemma reduced_fits:
  assumes "real_size sz" "\<forall>r\<in>set rs. within sz r" "sorted_wrt (\<lambda>r s. rect_pixels r \<inter> rect_pixels s = {}) rs"
  shows "map fst (xg_layout (bytes_for sz) 0 (reduced rs)) = reduced rs"
proof -
  have sm: "small_size sz" using assms(1) by (simp add: real_size_def)
  have "sorted_wrt (\<lambda>r s. rect_pixels r \<inter> rect_pixels s = {}) (reduced rs)" using assms(3) by (simp add: reduced_def)
  then show ?thesis using disjoint_fit [OF sm conjunct1 [OF reduced_within [OF sm assms(2)]]] by blast
qed

lemma collect_covers:
  assumes "xg_collect a s = (Inr b, be)" "xg_fetched s = []" "seg_ok s" "says_ok a" "account a s0 d0 d1" "xg_size be = dp_size d1"
    "(x, y) \<in> desktop_pts (dp_size d1)" "(x, y) \<notin> dp_drawn d1"
  shows "(x, y) \<in> rects_pixels (map fst (xg_fetched be))
        \<and> (\<forall>(r, o')\<in>set (xg_fetched be). (x, y) \<in> rect_pixels r \<longrightarrow> seg_px (lv_shm (xg_live be)) r o' x y = dp_px d1 (x, y))
    \<or> (x, y) \<notin> rects_pixels (map fst (xg_fetched be)) \<and> \<not> xg_refresh s \<and> xg_size be = xg_size s
        \<and> (xg_drawn s \<longrightarrow> (x, y) \<notin> rects_pixels (raw_rects (case xy_region a of Some rs \<Rightarrow> rs | None \<Rightarrow> [])))"
proof -
  obtain s1 shm where c: "s1 = s \<or> xg_resized s \<and> xg_refresh s1 \<and> xy_geometry a = Some (xg_size s1) \<and> length (lv_shm (xg_live s1)) = bytes_for (xg_size s1)
        \<and> xg_reopen s1 = xg_reopen s \<and> xg_drawn s1 = xg_drawn s \<and> xg_resized s1 = xg_resized s \<and> xg_fetched s1 = []"
    "xg_fetched be = xg_layout (length (lv_shm (xg_live s1))) 0 (reduced (wanted a s1))"
    "xg_replies a (xg_fetched be) (lv_shm (xg_live s1)) = (True, shm)" "lv_shm (xg_live be) = shm" "xg_size be = xg_size s1"
    "\<not> xg_refresh s1 \<Longrightarrow> xg_drawn s \<Longrightarrow> xg_take_damage a s1 \<noteq> None"
    by (rule collect_cases [OF assms(1,2)]) (rule that)
  have len: "length (lv_shm (xg_live s1)) = bytes_for (dp_size d1)" using c(1,5) assms(3,6) by (auto simp: seg_ok_def)
  have "real_size (xg_size s1)" using c(1) assms(3) says_geometry [OF assms(4), of "xg_size s1"] by (auto simp: seg_ok_def)
  then have rs: "real_size (dp_size d1)" "real_size (xg_size s1)" "xg_size s1 = dp_size d1" using c(5) assms(6) by simp_all
  then have sm: "small_size (dp_size d1)" by (simp add: real_size_def)
  have win: "\<forall>r\<in>set (wanted a s1). within (dp_size d1) r" using wanted_within [OF rs(2)] rs(3) by simp
  have red: "\<forall>r\<in>set (reduced (wanted a s1)). within (dp_size d1) r" "rects_pixels (wanted a s1) \<subseteq> rects_pixels (reduced (wanted a s1))"
    using reduced_within [OF sm win] by blast+
  have cont: "seg_px shm r o' x y = dp_px d1 (x, y)" if "(r, o') \<in> set (xg_fetched be)" "(x, y) \<in> rect_pixels r" for r o'
    by (rule fetched_pixel [OF assms(5,4) rs(1) red(1) c(3) [unfolded c(2)] that(1) [unfolded c(2)] that(2) assms(8)])
  show ?thesis
  proof (cases "(x, y) \<in> rects_pixels (map fst (xg_fetched be))")
    case True
    then show ?thesis using cont c(4) by blast
  next
    case False
    have dis: "sorted_wrt (\<lambda>r s. rect_pixels r \<inter> rect_pixels s = {}) (wanted a s1)
      \<and> (xg_refresh s1 \<longrightarrow> (x, y) \<in> rects_pixels (wanted a s1))
      \<and> (\<not> xg_refresh s1 \<and> xg_drawn s \<longrightarrow> rects_pixels (wanted a s1) = rects_pixels (raw_rects (case xy_region a of Some rs \<Rightarrow> rs | None \<Rightarrow> [])) \<inter> desktop_pts (dp_size d1))"
    proof (cases "xg_refresh s1")
      case True
      then have "wanted a s1 = [xg_bounds s1]" by (simp add: wanted_def)
      then show ?thesis using bounds_within(4) [OF rs(2)] assms(7) rs(3) True by (simp add: desktop_pts_def)
    next
      case nr: False
      then have e: "s1 = s" using c(1) by blast
      show ?thesis
      proof (cases "xg_drawn s")
        case False
        then show ?thesis using nr e by (simp add: wanted_def)
      next
        case True
        then obtain rects where t: "xg_take_damage a s = Some rects" using c(6) nr e by auto
        then obtain raw where raw: "xy_region a = Some raw" by (auto simp: xg_take_damage_def)
        have srt: "sorted_wrt (\<lambda>r s. rect_pixels r \<inter> rect_pixels s = {}) (raw_rects raw)" using assms(5) raw by (simp add: account_def)
        have "wanted a s1 = rects" using nr e True t by (simp add: wanted_def)
        then show ?thesis using take_damage_parts [OF _ t raw srt] rs e raw nr by simp
      qed
    qed
    have "map fst (xg_fetched be) = reduced (wanted a s1)"
      unfolding c(2) len by (rule reduced_fits [OF rs(1) win conjunct1 [OF dis]])
    then have nw: "(x, y) \<notin> rects_pixels (wanted a s1)" using False red(2) by auto
    then have "\<not> xg_refresh s1" "s1 = s" using dis c(1) by auto
    moreover have "xg_drawn s \<longrightarrow> (x, y) \<notin> rects_pixels (raw_rects (case xy_region a of Some rs \<Rightarrow> rs | None \<Rightarrow> []))"
      using dis nw \<open>\<not> xg_refresh s1\<close> assms(7) by blast
    ultimately show ?thesis using False c(5) by simp
  qed
qed


text \<open>C3. Pixel for pixel: where the picture is the display's outside what the display has recorded as drawn, it
  is again after any wait that does not fail and leaves the backend with the display's size (a resize was
  noticed), applied if it reports a frame, whatever was drawn meanwhile.\<close>

theorem x11_turn_mirrors:
  assumes "x11_ok s fb seen" "says_ok a" "xg_wait a s = (Inr b, be)" "mirrors s fb d0" "account a s d0 d1" "xg_size be = dp_size d1"
  shows "if b then \<exists>f fb' s'. xg_apply fb be = Some (f, fb', s') \<and> mirrors s' fb' d1 else mirrors be fb d1"
proof -
  obtain s1 g s2 where s1: "\<not> xg_reopen s \<and> s1 = s \<or> xg_reopen s \<and> xg_refresh s1"
    and g: "xg_gather (xy_rounds a) s1 = (Inr g, s2)" "\<not> g \<Longrightarrow> \<not> b \<and> be = s2" "g \<Longrightarrow> xg_collect a s2 = (Inr b, be)"
    and s2: "seg_ok s2" "xg_fetched s2 = []" "xg_size s2 = xg_size s1" "xg_refresh s2 = xg_refresh s1"
    by (rule wait_cases [OF assms(3,1,2)]) (rule that)
  have same: "\<not> xg_reopen s \<and> s1 = s \<and> xg_size s = dp_size d0 \<and> (fb_width fb, fb_height fb) = xg_size s" if "\<not> xg_refresh s1"
    using s1 that assms(1,4) by (auto simp: mirrors_def x11_ok_def)
  have keep: "fb_px fb (nat x) (nat y) = dp_px d1 (x, y)"
    if "\<not> xg_refresh s1" "dp_size d0 = dp_size d1" "(x, y) \<in> desktop_pts (dp_size d1)" "(x, y) \<notin> dp_drawn d1" "(x, y) \<notin> taken a s" for x y
  proof -
    have "\<not> xg_reopen s" "s1 = s" using same that(1) by blast+
    then have "(x, y) \<notin> dp_drawn d0" "dp_px d1 (x, y) = dp_px d0 (x, y)"
      using assms(5) that(2-5) by (auto simp: account_def)
    then show ?thesis using assms(4) that(1-3) \<open>s1 = s\<close> \<open>\<not> xg_reopen s\<close> by (auto simp: mirrors_def)
  qed
  show ?thesis
  proof (cases g)
    case False
    then have b: "\<not> b" "be = s2" using g(2) by simp_all
    have "mirrors s2 fb d1"
    proof (cases "xg_refresh s1")
      case nr: False
      have "\<not> asks a s" using g(1) False same [OF nr] by (simp add: asks_def)
      then have "taken a s = {}" by (simp add: taken_def)
      then show ?thesis using keep [OF nr] same [OF nr] s2(3) assms(6) b by (auto simp: mirrors_def)
    qed (simp add: mirrors_def s2(4))
    then show ?thesis using b by simp
  next
    case True
    note col = g(3) [OF True]
    note cov = collect_covers [OF col s2(2,1) assms(2,5,6)]
    note ok = collect_ok [OF col s2(1) assms(2) s2(2)]
    have tk: "(x, y) \<notin> taken a s"
      if "\<not> xg_refresh s2" "xg_drawn s2 \<longrightarrow> (x, y) \<notin> rects_pixels (raw_rects (case xy_region a of Some rs \<Rightarrow> rs | None \<Rightarrow> []))" for x y
      using that g(1) True same s2(4) by (auto simp: taken_def asks_def)
    have kept: "fb_px fb (nat x) (nat y) = dp_px d1 (x, y) \<and> (fb_width fb, fb_height fb) = xg_size be"
      if "(x, y) \<in> desktop_pts (dp_size d1)" "(x, y) \<notin> dp_drawn d1" "(x, y) \<notin> rects_pixels (map fst (xg_fetched be))" for x y
    proof -
      have c: "\<not> xg_refresh s2" "xg_size be = xg_size s2" "(x, y) \<notin> taken a s" using cov [OF that(1,2)] that(3) tk by blast+
      then have nr: "\<not> xg_refresh s1" "dp_size d0 = dp_size d1" using s2(3,4) same assms(6) by auto
      show ?thesis using keep [OF nr that(1,2) c(3)] same [OF nr(1)] c(2) s2(3) by simp
    qed
    show ?thesis
    proof (cases b)
      case False
      then have "xg_fetched be = []" using ok by (simp add: xg_ready_def)
      then have "mirrors be fb d1" using kept assms(6) by (auto simp: mirrors_def)
      then show ?thesis using False by simp
    next
      case b: True
      have fbo: "fb_ok fb" using assms(1) by (simp add: x11_ok_def)
      obtain f fb' where ap: "xg_apply fb be = Some (f, fb', be\<lparr>xg_resized := False, xg_cursor := None, xg_fetched := []\<rparr>)"
        "\<And>x y. (fb_width fb, fb_height fb) = xg_size be \<Longrightarrow> x < fst (xg_size be) \<Longrightarrow> y < snd (xg_size be) \<Longrightarrow>
           (int x, int y) \<notin> rects_pixels (map fst (xg_fetched be)) \<Longrightarrow> fb_px fb' x y = fb_px fb x y"
        "\<And>x y v. x < fst (xg_size be) \<Longrightarrow> y < snd (xg_size be) \<Longrightarrow> (int x, int y) \<in> rects_pixels (map fst (xg_fetched be)) \<Longrightarrow>
           \<forall>(r, o')\<in>set (xg_fetched be). (int x, int y) \<in> rect_pixels r \<longrightarrow> seg_px (lv_shm (xg_live be)) r o' (int x) (int y) = v \<Longrightarrow> fb_px fb' x y = v"
        by (rule apply_ok [of be fb]) (use ok fbo that in auto)
      have px: "fb_px fb' (nat x) (nat y) = dp_px d1 (x, y)" if p: "(x, y) \<in> desktop_pts (dp_size d1)" "(x, y) \<notin> dp_drawn d1" for x y
      proof -
        have n: "int (nat x) = x" "int (nat y) = y" "nat x < fst (xg_size be)" "nat y < snd (xg_size be)"
          using p(1) assms(6) by (auto simp: desktop_pts_def)
        show ?thesis
        proof (cases "(x, y) \<in> rects_pixels (map fst (xg_fetched be))")
          case True
          then have "\<forall>(r, o')\<in>set (xg_fetched be). (x, y) \<in> rect_pixels r \<longrightarrow> seg_px (lv_shm (xg_live be)) r o' x y = dp_px d1 (x, y)"
            using cov [OF p] by blast
          then show ?thesis using ap(3) [OF n(3,4)] True n(1,2) by simp
        next
          case False
          then show ?thesis using ap(2) [OF _ n(3,4)] kept [OF p False] n(1,2) by simp
        qed
      qed
      have "mirrors (be\<lparr>xg_resized := False, xg_cursor := None, xg_fetched := []\<rparr>) fb' d1"
        using px assms(6) by (auto simp: mirrors_def xg_size_def)
      then show ?thesis using b ap(1) by auto
    qed
  qed
qed

text \<open>The point again: it was drawn into before the wait.\<close>

definition point_display :: "u8 \<Rightarrow> (int \<times> int) set \<Rightarrow> display" where
  "point_display v drawn = \<lparr>dp_size = (1, 1), dp_px = \<lambda>_. [v, 0, 0, 0], dp_drawn = drawn\<rparr>"

theorem x11_turn_mirrors_witness:
  "\<exists>f fb' s'. xg_apply (point 1) (point_x11 [2, 0, 0, 0] [(mk_rect 0 0 1 1, 0)]) = Some (f, fb', s') \<and> mirrors s' fb' (point_display 2 {})"
proof -
  have m: "mirrors (point_x11 [0, 0, 0, 0] []) (point 1) (point_display 1 {(0, 0)})"
    by (simp add: mirrors_def point_x11_def point_live_def xg_size_def point_display_def desktop_pts_def)
  have "xy_region point_says = Some [(0, 0, 1, 1)]" by (simp add: point_says_def)
  moreover have "asks point_says (point_x11 [0, 0, 0, 0] [])" by code_simp
  moreover have "raw_rects [(0, 0, 1, 1)] = [mk_rect 0 0 1 1]" by code_simp
  moreover have "take 4 (drop ((j * w + i) * 4) data) = [2, 0, 0, 0]" if "xy_image point_says x y w h = Some data" "i < w" "j < h" for x y w h data i j
    using that rows_pixels(2) [of "\<lambda>x y. [2, 0, 0, 0]" i w j h] by (simp add: point_says_def)
  ultimately have a: "account point_says (point_x11 [0, 0, 0, 0] []) (point_display 1 {(0, 0)}) (point_display 2 {})"
    by (auto simp: account_def taken_def point_display_def desktop_pts_def in_rect_pixels)
  show ?thesis
    using x11_turn_mirrors [OF point_x11_ok point_says_ok point_wait m a]
    by (simp add: point_x11_def point_live_def xg_size_def point_display_def)
qed

section \<open>What a refusal loses\<close>

lemma xfixes_converts: "xfixes_convert w h hot argb \<noteq> None"
proof -
  have "length (concat (map (\<lambda>i. xfixes_pixel (if i < length argb then argb ! i else 0)) [0 ..< w * h])) = w * h * 4"
    by (simp add: length_concat comp_def length_pixels(1) sum_list_triv)
  then show ?thesis by (simp add: xfixes_convert_def cursor_shape_new_def cursor_hidden_def Let_def)
qed

lemma x11_new_ok:
  assumes "x11_capture_new g = Inr s" "\<forall>su. gr_setup g = Some su \<longrightarrow> real_size (su_size su)" "fb_ok fb"
  shows "x11_ok s fb seen"
  using assms live_open_size [of g "xg_live s"]
  by (auto simp: x11_capture_new_def x11_ok_def seg_ok_def xg_size_def xg_ready_def split: sum.splits)

text \<open>C39. A picture the server refuses is not asked for again: the wait that fails has taken the damage and
  cleared the refresh, and has not asked for the connection to be opened anew; the next one collects the
  pointer alone, and its frame has the picture at its new size, black, with no damage at all.\<close>

theorem refused_pixels_are_lost:
  assumes "x11_capture_new g = Inr s" "real_size (xg_size s)"
    "xy_rounds a = [([], Readable)]" "xy_sent a" "xy_image a = (\<lambda>x y w h. None)"
    "xy_rounds a' = [([], Readable)]" "xy_cursor a' = Some (cw, ch, hot, argb)"
  shows "\<exists>s1 s2 f s3. xg_wait a s = (Inl (Lost []), s1) \<and> xg_wait a' s1 = (Inr True, s2)
    \<and> xg_apply (fb_new 0 0) s2 = Some (f, fb_new (fst (xg_size s)) (snd (xg_size s)), s3) \<and> fm_resized f \<and> fm_damage f = []
    \<and> \<not> xg_outstanding s3 \<and> \<not> xg_reopen s3"
proof -
  obtain l where s: "s = \<lparr>xg_live = l, xg_reopen = False, xg_refresh = True, xg_drawn = False, xg_pointer = True, xg_resized = False,
      xg_fetched = [], xg_cursor = None\<rparr>" and l: "live_open g = Inr l"
    using assms(1) by (auto simp: x11_capture_new_def split: sum.splits)
  then have len: "length (lv_shm l) = bytes_for (lv_size l)"
    by (auto simp: live_open_def shared_segment_def split: option.splits sum.splits if_splits)
  have rs: "real_size (lv_size l)" using assms(2) by (simp add: s xg_size_def)
  have lay: "xg_layout (length (lv_shm l)) 0 [xg_bounds s] = [(xg_bounds s, 0)]"
    using layout_full [of "lv_size l" "[xg_bounds s]" 0 "length (lv_shm l)"] bounds_within(1-3) [OF assms(2)] rs len
    by (auto simp: s xg_size_def real_size_def bytes_for_def FB_BPP_def Let_def split: if_splits)
  define s1 where "s1 = s\<lparr>xg_refresh := False\<rparr>"
  have "xg_fetch a [xg_bounds s] (s\<lparr>xg_refresh := False\<rparr>) = (Inl (Lost []), s1)"
    using lay assms(4,5) by (simp add: xg_fetch_def Let_def MAX_FETCHES_def s s1_def)
  then have w1: "xg_wait a s = (Inl (Lost []), s1)"
    using assms(3) by (simp add: xg_wait_def xg_ready_def xg_outstanding_def xg_collect_def Let_def s)
  define s2 where "s2 = s1\<lparr>xg_pointer := False, xg_cursor := xfixes_convert cw ch hot argb\<rparr>"
  have cur: "xfixes_convert cw ch hot argb \<noteq> None" by (rule xfixes_converts)
  have w2: "xg_wait a' s1 = (Inr True, s2)"
    using assms(6,7) cur by (simp add: xg_wait_def xg_ready_def xg_outstanding_def xg_collect_def xg_fetch_def xg_read_cursor_def Let_def s s1_def s2_def)
  have "xg_size s2 = xg_size s" by (simp add: xg_size_def s2_def s1_def)
  moreover have "fst (xg_size s) \<noteq> 0" using assms(2) by (simp add: real_size_def)
  ultimately have "xg_apply (fb_new 0 0) s2 = Some (\<lparr>fm_damage = region_new, fm_moves = [], fm_cursor = xg_cursor s2, fm_resized = True\<rparr>,
      fb_new (fst (xg_size s)) (snd (xg_size s)), s2\<lparr>xg_resized := False, xg_cursor := None, xg_fetched := []\<rparr>)"
    by (simp add: xg_apply_def split_def Let_def s2_def s1_def s fb_resize_def fb_new_def)
  then show ?thesis using w1 w2
    by (auto simp: region_new_def xg_outstanding_def s2_def s1_def s)
qed

definition point_greeting :: x_greeting where
  "point_greeting = \<lparr>gr_setup = Some \<lparr>su_size = (1, 1), su_depth = 24, su_visual = 33, su_depths = [(1, []), (24, [(33, 0xff0000, 0xff00, 0xff)])],
       su_formats = [(1, 1), (24, 32)], su_lsb_first = True\<rparr>,
     gr_damage = True, gr_xfixes = Some 5, gr_shm = Some (1, 2), gr_randr = Some (1, 5), gr_watches = True, gr_segment = True\<rparr>"

definition point_new :: x11_capture where
  "point_new = \<lparr>xg_live = \<lparr>lv_size = (1, 1), lv_shm = [0, 0, 0, 0], lv_monitors = True\<rparr>, xg_reopen = False, xg_refresh = True, xg_drawn = False,
     xg_pointer = True, xg_resized = False, xg_fetched = [], xg_cursor = None\<rparr>"

theorem refused_pixels_are_lost_witness:
  "\<exists>s1 s2 f s3. xg_wait (point_says\<lparr>xy_rounds := [([], Readable)], xy_image := \<lambda>x y w h. None\<rparr>) point_new = (Inl (Lost []), s1)
    \<and> xg_wait (point_says\<lparr>xy_rounds := [([], Readable)], xy_cursor := Some (1, 1, (0, 0), [0])\<rparr>) s1 = (Inr True, s2)
    \<and> xg_apply (fb_new 0 0) s2 = Some (f, fb_new (fst (xg_size point_new)) (snd (xg_size point_new)), s3) \<and> fm_resized f \<and> fm_damage f = []
    \<and> \<not> xg_outstanding s3 \<and> \<not> xg_reopen s3"
proof (rule refused_pixels_are_lost)
  show "x11_capture_new point_greeting = Inr point_new" by code_simp
  show "real_size (xg_size point_new)" by (simp add: real_size_def small_size_def xg_size_def point_new_def)
qed (simp_all add: point_says_def)

text \<open>A resize whose new segment the server refuses is forgotten: the wait fails, the next one has a frame at
  once, whatever it would be told, and applying it clears the news that the screen has another size.\<close>

theorem refused_resize_is_forgotten:
  assumes "x11_ok s fb seen" "\<not> xg_reopen s" "\<not> xg_refresh s" "xy_rounds a = [([ScreenChange], Readable)]"
    "xy_geometry a = Some sz" "sz \<noteq> xg_size s" "\<not> xy_segment a"
  shows "\<exists>s1 f s2. xg_wait a s = (Inl (CaptureFailed []), s1) \<and> xg_wait a' s1 = (Inr True, s1)
    \<and> xg_apply fb s1 = Some (f, fb, s2) \<and> \<not> fm_resized f \<and> s2 = s"
proof -
  have n: "xg_fetched s = []" "xg_cursor s = None" "\<not> xg_resized s" "(fb_width fb, fb_height fb) = xg_size s"
    using assms(1-3) by (auto simp: x11_ok_def xg_ready_def)
  define s1 where "s1 = s\<lparr>xg_resized := True\<rparr>"
  have "xg_size s1 = xg_size s" by (simp add: xg_size_def s1_def)
  then have "xg_wait a s = (Inl (CaptureFailed []), s1)"
    using n assms(2,4-7) by (simp add: xg_wait_def xg_ready_def xg_outstanding_def xg_handle_def xg_collect_def xg_regeometry_def s1_def)
  moreover have "xg_wait a' s1 = (Inr True, s1)" using assms(2) by (simp add: xg_wait_def xg_ready_def s1_def)
  moreover have "\<exists>f. xg_apply fb s1 = Some (f, fb, s) \<and> \<not> fm_resized f"
  proof -
    have e: "s1\<lparr>xg_resized := False, xg_cursor := None, xg_fetched := []\<rparr> = s" using n by (cases s) (simp add: s1_def)
    show ?thesis unfolding xg_apply_def e using n(1,4) [symmetric] \<open>xg_size s1 = xg_size s\<close> by (simp add: Let_def s1_def)
  qed
  ultimately show ?thesis by blast
qed

end
