(* ===== verification/Windows_Capture.thy ===== *)
theory Windows_Capture
  imports Capture Cursors Windows_Input
begin

text \<open>
  \<open>alloyvnc-screen-dxgi/src/capture.rs\<close>: the Windows desktop, one duplication per monitor, as a backend of the
  capture thread. What DXGI answers is an argument: the monitors found when the desktop is enumerated, what
  each AcquireNextFrame returns, and with a frame that was acquired what the calls made on it answer. The
  buffers that only save allocations are left out, and so are the times to block and the log. A slice out of range is
  \<open>None\<close>; errors carry no text here.
\<close>

section \<open>Errors\<close>

datatype hresult = ACCESS_LOST | ACCESS_DENIED | SESSION_DISCONNECTED | WAIT_TIMEOUT | OTHER_FAILURE

definition is_lost :: "hresult \<Rightarrow> bool" where
  "is_lost code \<longleftrightarrow> code = ACCESS_LOST \<or> code = ACCESS_DENIED \<or> code = SESSION_DISCONNECTED"

definition classify :: "hresult \<Rightarrow> capture_error" where
  "classify e = (if is_lost e then Lost [] else CaptureFailed [])"

text \<open>A call whose failure is returned as it is classified.\<close>

definition called :: "hresult + 'a \<Rightarrow> capture_error + 'a" where
  "called r = (case r of Inl e \<Rightarrow> Inl (classify e) | Inr v \<Rightarrow> Inr v)"

type_synonym win_rect = "int \<times> int \<times> int \<times> int"

definition win_from_rect :: "win_rect \<Rightarrow> rect" where
  "win_from_rect = (\<lambda>(left, top, right, bottom). rect_from_corners left top right bottom)"

section \<open>Frames\<close>

record frame_info =
  fi_present :: int
  fi_metadata :: nat
  fi_shape :: nat
  fi_mouse :: int
  fi_visible :: bool

text \<open>A frame acquired and not yet released, with what the calls on it answer: the pointer's shape (its kind,
  size, pitch, hot spot and bytes), the cast to a texture, the moves (where from, and where to), the dirty
  rectangles, the mapped staging texture (its pitch and bytes) and the release.\<close>

record held =
  hd_info :: frame_info
  hd_shape :: "hresult + (nat \<times> nat \<times> nat \<times> nat \<times> (int \<times> int) \<times> bytes)"
  hd_texture :: "hresult + unit"
  hd_moves :: "hresult + ((int \<times> int) \<times> win_rect) list"
  hd_dirty :: "hresult + win_rect list"
  hd_map :: "hresult + (nat \<times> bytes)"
  hd_release :: "hresult + unit"

section \<open>The pointer\<close>

record win_pointer =
  wp_bytes :: bytes
  wp_shape :: "cursor_shape option"
  wp_visible :: bool
  wp_shown :: bool
  wp_at :: int

definition win_pointer_new :: win_pointer where
  "win_pointer_new = \<lparr>wp_bytes = [], wp_shape = None, wp_visible = False, wp_shown = False, wp_at = 0\<rparr>"

text \<open>A new shape is read into the buffer, of which DXGI may write less than it said.\<close>

definition wp_read :: "held \<Rightarrow> win_pointer \<Rightarrow> (capture_error + unit) \<times> win_pointer" where
  "wp_read h p =
    (let sz = fi_shape (hd_info h);
         p1 = (if length (wp_bytes p) < sz then p\<lparr>wp_bytes := wp_bytes p @ replicate (sz - length (wp_bytes p)) 0\<rparr> else p) in
     case called (hd_shape h) of
       Inl e \<Rightarrow> (Inl e, p1)
     | Inr (kind, w, ht, pitch, hot, data) \<Rightarrow>
       let bs = data @ drop (length data) (wp_bytes p1) in
       (Inr (), p1\<lparr>wp_bytes := bs, wp_shape := dxgi_convert kind w ht pitch (nat (max (fst hot) 0), nat (max (snd hot) 0)) (take sz bs)\<rparr>))"

text \<open>The newest report says whether it is on screen.\<close>

definition wp_report :: "frame_info \<Rightarrow> win_pointer \<Rightarrow> win_pointer" where
  "wp_report i p = (if fi_mouse i \<noteq> 0 \<and> fi_mouse i \<ge> wp_at p then p\<lparr>wp_at := fi_mouse i, wp_visible := fi_visible i\<rparr> else p)"

definition wp_tell :: "bool \<Rightarrow> win_pointer \<Rightarrow> frame \<Rightarrow> win_pointer \<times> frame" where
  "wp_tell fresh p f =
    (if wp_visible p then
       (case wp_shape p of
          Some s \<Rightarrow> if fresh \<or> \<not> wp_shown p then (p\<lparr>wp_shown := True\<rparr>, f\<lparr>fm_cursor := Some s\<rparr>) else (p, f)
        | None \<Rightarrow> (p, f))
     else if wp_shown p then (p\<lparr>wp_shown := False\<rparr>, f\<lparr>fm_cursor := Some cursor_hidden\<rparr>)
     else (p, f))"

definition wp_update :: "held \<Rightarrow> win_pointer \<Rightarrow> frame \<Rightarrow> (capture_error + bool) \<times> win_pointer \<times> frame" where
  "wp_update h p f =
    (let fresh = fi_shape (hd_info h) > 0 in
     case (if fresh then wp_read h p else (Inr (), p)) of
       (Inl e, p1) \<Rightarrow> (Inl e, p1, f)
     | (Inr _, p1) \<Rightarrow>
       (case wp_tell fresh (wp_report (hd_info h) p1) f of (p2, f') \<Rightarrow> (Inr (fm_cursor f' \<noteq> None), p2, f')))"

section \<open>A monitor\<close>

record win_output =
  wo_tex :: "nat \<times> nat"
  wo_off :: "int \<times> int"
  wo_rect :: rect
  wo_desktop :: win_rect
  wo_held :: "held option"
  wo_first :: bool

text \<open>Which part of it lies in the picture, in its own coordinates.\<close>

definition wo_reach :: "win_output \<Rightarrow> framebuffer \<Rightarrow> rect" where
  "wo_reach o' fb = rect_translate
    (rect_intersection
      (rect_translate (rect_new 0 0 (i32 (int (fst (wo_tex o')))) (i32 (int (snd (wo_tex o'))))) (fst (wo_off o')) (snd (wo_off o')))
      (fb_bounds fb))
    (i32 (- fst (wo_off o'))) (i32 (- snd (wo_off o')))"

fun wo_moves :: "rect \<Rightarrow> int \<times> int \<Rightarrow> ((int \<times> int) \<times> win_rect) list \<Rightarrow> rect list \<times> move list \<Rightarrow> rect list \<times> move list" where
  "wo_moves reach off [] acc = acc"
| "wo_moves reach off ((src, r) # rest) (rects, ms) =
    (case clip_move src (win_from_rect r) reach off of
       None \<Rightarrow> wo_moves reach off rest (rects, ms)
     | Some m \<Rightarrow> wo_moves reach off rest (rects @ [rect_translate (dst m) (i32 (- fst off)) (i32 (- snd off))], ms @ [m]))"

text \<open>The moves and dirty rectangles of a frame: the rectangles to copy, and the frame with its moves.\<close>

definition wo_metadata :: "win_output \<Rightarrow> held \<Rightarrow> rect \<Rightarrow> frame \<Rightarrow> (capture_error + nat) \<times> rect list \<times> frame" where
  "wo_metadata o' h reach f =
    (case called (hd_moves h) of Inl e \<Rightarrow> (Inl e, [], f)
     | Inr reported \<Rightarrow>
       (case wo_moves reach (wo_off o') reported ([], fm_moves f) of
          (rects, ms) \<Rightarrow>
            let f' = f\<lparr>fm_moves := ms\<rparr> in
            (case called (hd_dirty h) of Inl e \<Rightarrow> (Inl e, rects, f')
             | Inr dirty \<Rightarrow>
               (Inr (length reported),
                rects @ filter (\<lambda>r. \<not> rect_is_empty r) (map (\<lambda>r. rect_intersection (win_from_rect r) reach) dirty), f'))))"

text \<open>One rectangle's rows out of the mapped texture.\<close>

fun wo_rows :: "bytes \<Rightarrow> nat \<Rightarrow> int \<times> int \<Rightarrow> rect \<Rightarrow> int list \<Rightarrow> framebuffer \<Rightarrow> framebuffer option" where
  "wo_rows src pitch off r [] fb = Some fb"
| "wo_rows src pitch off r (y # ys) fb =
    (let row_bytes = u32_of (rect_width r) * FB_BPP in
     case slice (usize_of y * pitch + usize_of (rx1 r) * FB_BPP) row_bytes src of
       None \<Rightarrow> None
     | Some row \<Rightarrow>
       (case row_write fb (u32_of (i32 (y + snd off))) (u32_of (i32 (rx1 r + fst off))) row of
          None \<Rightarrow> None
        | Some fb' \<Rightarrow> wo_rows src pitch off r ys fb'))"

fun wo_rects :: "bytes \<Rightarrow> nat \<Rightarrow> int \<times> int \<Rightarrow> rect list \<Rightarrow> framebuffer \<Rightarrow> framebuffer option" where
  "wo_rects src pitch off [] fb = Some fb"
| "wo_rects src pitch off (r # rs) fb =
    (case wo_rows src pitch off r (irange (ry1 r) (ry2 r)) fb of None \<Rightarrow> None | Some fb' \<Rightarrow> wo_rects src pitch off rs fb')"

definition wo_copy :: "win_output \<Rightarrow> held \<Rightarrow> rect list \<Rightarrow> framebuffer \<Rightarrow> ((capture_error + unit) \<times> framebuffer) option" where
  "wo_copy o' h rects fb =
    (if rects = [] then Some (Inr (), fb)
     else (case called (hd_map h) of Inl e \<Rightarrow> Some (Inl e, fb)
       | Inr (pitch, mapped) \<Rightarrow>
         map_option (\<lambda>fb'. (Inr (), fb')) (wo_rects (take (pitch * snd (wo_tex o')) mapped) pitch (wo_off o') rects fb)))"

text \<open>What \<open>write\<close> and the frames around it change: the monitor, the picture, the damage so far, the pointer
  and the frame.\<close>

record win_pass =
  ps_fb :: framebuffer
  ps_damage :: "rect list"
  ps_pointer :: win_pointer
  ps_frame :: frame

text \<open>The whole of a monitor of which the picture has nothing yet, else what the frame reports.\<close>

definition wo_wanted :: "held \<Rightarrow> win_output \<Rightarrow> framebuffer \<Rightarrow> frame \<Rightarrow> (capture_error + nat) \<times> rect list \<times> frame" where
  "wo_wanted h o' fb f =
    (if wo_first o' then (Inr 0, [wo_reach o' fb], f)
     else if fi_metadata (hd_info h) > 0 then wo_metadata o' h (wo_reach o' fb) f
     else (Inr 0, [], f))"

definition wo_write :: "held \<Rightarrow> win_output \<Rightarrow> win_pass \<Rightarrow> ((capture_error + unit) \<times> win_output \<times> win_pass) option" where
  "wo_write h o' p =
    (case wp_update h (ps_pointer p) (ps_frame p) of
       (Inl e, wp, f) \<Rightarrow> Some (Inl e, o', p\<lparr>ps_pointer := wp, ps_frame := f\<rparr>)
     | (Inr _, wp, f) \<Rightarrow>
       let p1 = p\<lparr>ps_pointer := wp, ps_frame := f\<rparr> in
       if fi_present (hd_info h) = 0 then Some (Inr (), o', p1)
       else (case called (hd_texture h) of Inl e \<Rightarrow> Some (Inl e, o', p1)
         | Inr _ \<Rightarrow>
           (case wo_wanted h o' (ps_fb p1) f of
              (Inl e, _, f') \<Rightarrow> Some (Inl e, o'\<lparr>wo_first := False\<rparr>, p1\<lparr>ps_frame := f'\<rparr>)
            | (Inr _, rects, f') \<Rightarrow>
              let p2 = p1\<lparr>ps_frame := f', ps_damage := ps_damage p1 @ map (\<lambda>r. rect_translate r (fst (wo_off o')) (snd (wo_off o'))) rects\<rparr> in
              map_option (\<lambda>(res, fb'). (res, o'\<lparr>wo_first := False\<rparr>, p2\<lparr>ps_fb := fb'\<rparr>)) (wo_copy o' h rects (ps_fb p2)))))"

text \<open>The frame is released either way; its own failure counts where writing had none.\<close>

definition wo_apply :: "win_output \<Rightarrow> win_pass \<Rightarrow> ((capture_error + unit) \<times> win_output \<times> win_pass) option" where
  "wo_apply o' p =
    (case wo_held o' of None \<Rightarrow> Some (Inr (), o', p)
     | Some h \<Rightarrow>
       map_option (\<lambda>(applied, o1, p1). ((case applied of Inl e \<Rightarrow> Inl e | Inr _ \<Rightarrow> called (hd_release h)), o1, p1))
         (wo_write h (o'\<lparr>wo_held := None\<rparr>) p))"

section \<open>The desktop\<close>

record win_capture =
  wk_outputs :: "win_output list"
  wk_bounds :: rect
  wk_rebuild :: bool
  wk_refresh :: bool
  wk_pointer :: win_pointer

text \<open>What enumerating the desktop finds: of a monitor its description (whether it is attached, and where), the
  newer interface, the duplication with its size, and the staging texture, which may succeed and be none; of an
  adapter its device, likewise, and its monitors.\<close>

record win_monitor =
  mn_desc :: "hresult + (bool \<times> win_rect)"
  mn_output1 :: "hresult + unit"
  mn_dup :: "hresult + (nat \<times> nat)"
  mn_staging :: "hresult + bool"

record win_adapter =
  ad_device :: "hresult + bool"
  ad_monitors :: "win_monitor list"

definition create_device :: "win_adapter \<Rightarrow> capture_error + unit" where
  "create_device a = (case called (ad_device a) of Inl e \<Rightarrow> Inl e | Inr there \<Rightarrow> if there then Inr () else Inl (CaptureFailed []))"

definition staging_texture :: "win_monitor \<Rightarrow> capture_error + unit" where
  "staging_texture m = (case called (mn_staging m) of Inl e \<Rightarrow> Inl e | Inr there \<Rightarrow> if there then Inr () else Inl (CaptureFailed []))"

text \<open>The monitors of one adapter; making its device again would answer the same.\<close>

fun build_monitors :: "win_adapter \<Rightarrow> win_monitor list \<Rightarrow> win_output list \<times> rect \<Rightarrow> capture_error + (win_output list \<times> rect)" where
  "build_monitors a [] acc = Inr acc"
| "build_monitors a (m # ms) (outputs, bounds) =
    (case called (mn_desc m) of Inl e \<Rightarrow> Inl e
     | Inr (attached, desktop) \<Rightarrow>
       if \<not> attached then build_monitors a ms (outputs, bounds)
       else (case create_device a of Inl e \<Rightarrow> Inl e
       | Inr _ \<Rightarrow>
         (case called (mn_output1 m) of Inl e \<Rightarrow> Inl e
          | Inr _ \<Rightarrow>
            (case called (mn_dup m) of Inl e \<Rightarrow> Inl e
             | Inr tex \<Rightarrow>
               (case staging_texture m of Inl e \<Rightarrow> Inl e
                | Inr _ \<Rightarrow>
                  build_monitors a ms
                    (outputs @ [\<lparr>wo_tex = tex, wo_off = (0, 0), wo_rect = rect_EMPTY, wo_desktop = desktop, wo_held = None, wo_first = True\<rparr>],
                     rect_union_bounds bounds (win_from_rect desktop)))))))"

fun build_adapters :: "win_adapter list \<Rightarrow> win_output list \<times> rect \<Rightarrow> capture_error + (win_output list \<times> rect)" where
  "build_adapters [] acc = Inr acc"
| "build_adapters (a # rest) acc = (case build_monitors a (ad_monitors a) acc of Inl e \<Rightarrow> Inl e | Inr acc' \<Rightarrow> build_adapters rest acc')"

text \<open>Where a monitor lies once the union of all is known.\<close>

definition place_output :: "rect \<Rightarrow> win_output \<Rightarrow> win_output" where
  "place_output bounds o' =
    (let (left, top, _) = wo_desktop o' in
     o'\<lparr>wo_off := (i32 (left - rx1 bounds), i32 (top - ry1 bounds)),
        wo_rect := rect_translate (win_from_rect (wo_desktop o')) (i32 (- rx1 bounds)) (i32 (- ry1 bounds))\<rparr>)"

definition wk_build :: "hresult + win_adapter list \<Rightarrow> win_capture \<Rightarrow> (capture_error + unit) \<times> win_capture" where
  "wk_build found s =
    (let s1 = s\<lparr>wk_outputs := []\<rparr> in
     case found of Inl _ \<Rightarrow> (Inl (CaptureFailed []), s1)
     | Inr adapters \<Rightarrow>
       (case build_adapters adapters ([], rect_EMPTY) of
          Inl e \<Rightarrow> (Inl e, s1)
        | Inr (outputs, bounds) \<Rightarrow>
          if outputs = [] then (Inl (Lost []), s1)
          else (Inr (), s1\<lparr>wk_outputs := map (place_output bounds) outputs, wk_bounds := bounds, wk_refresh := True\<rparr>)))"

definition win_capture_new :: "hresult + win_adapter list \<Rightarrow> capture_error + win_capture" where
  "win_capture_new found =
    (case wk_build found \<lparr>wk_outputs = [], wk_bounds = rect_EMPTY, wk_rebuild = False, wk_refresh = True, wk_pointer = win_pointer_new\<rparr> of
       (Inl e, _) \<Rightarrow> Inl e | (Inr _, s) \<Rightarrow> Inr s)"

definition wk_origin :: "win_capture \<Rightarrow> int \<times> int" where
  "wk_origin s = (rx1 (wk_bounds s), ry1 (wk_bounds s))"

definition wk_size :: "win_capture \<Rightarrow> nat \<times> nat" where
  "wk_size s = (u32_of (rect_width (wk_bounds s)), u32_of (rect_height (wk_bounds s)))"

definition wk_screens :: "win_capture \<Rightarrow> rect list" where
  "wk_screens s =
    (if wk_outputs s = [] then [rect_new 0 0 (i32 (int (fst (wk_size s)))) (i32 (int (snd (wk_size s))))]
     else map wo_rect (wk_outputs s))"

section \<open>Waiting\<close>

text \<open>One AcquireNextFrame: a frame may come without a resource, and is given back.\<close>

definition wk_acquire :: "nat \<Rightarrow> hresult + held option \<Rightarrow> win_capture \<Rightarrow> (capture_error + bool) \<times> win_capture" where
  "wk_acquire i answer s =
    (case answer of
       Inr (Some h) \<Rightarrow> (Inr True, s\<lparr>wk_outputs := (wk_outputs s)[i := (wk_outputs s ! i)\<lparr>wo_held := Some h\<rparr>]\<rparr>)
     | Inr None \<Rightarrow> (Inr False, s)
     | Inl e \<Rightarrow>
       if e = WAIT_TIMEOUT then (Inr False, s)
       else (Inl (classify e), if is_lost e then s\<lparr>wk_outputs := [], wk_rebuild := True\<rparr> else s))"

text \<open>The monitors in turn, with whether the time was up before each; \<open>None\<close> gives up.\<close>

fun wk_round :: "(bool \<times> (hresult + held option)) list \<Rightarrow> nat \<Rightarrow> bool \<Rightarrow> win_capture \<Rightarrow> (capture_error + bool option) \<times> win_capture" where
  "wk_round [] i ready s = (Inr (Some ready), s)"
| "wk_round ((expired, answer) # rest) i ready s =
    (if expired \<and> \<not> ready then (Inr None, s)
     else (case wk_acquire i answer s of
             (Inl e, s') \<Rightarrow> (Inl e, s')
           | (Inr got, s') \<Rightarrow> wk_round rest (Suc i) (ready \<or> got) s'))"

text \<open>Rounds until one has a frame or the deadline has passed, as it has when no round is left.\<close>

fun wk_rounds :: "((bool \<times> (hresult + held option)) list \<times> bool) list \<Rightarrow> win_capture \<Rightarrow> (capture_error + bool) \<times> win_capture" where
  "wk_rounds [] s = (Inr False, s)"
| "wk_rounds ((polls, late) # rest) s =
    (case wk_round (take (length (wk_outputs s)) polls) 0 False s of
       (Inl e, s') \<Rightarrow> (Inl e, s')
     | (Inr None, s') \<Rightarrow> (Inr False, s')
     | (Inr (Some ready), s') \<Rightarrow> if ready then (Inr True, s') else if late then (Inr False, s') else wk_rounds rest s')"

record win_says =
  wy_found :: "hresult + win_adapter list"
  wy_first :: "hresult + held option"
  wy_rounds :: "((bool \<times> (hresult + held option)) list \<times> bool) list"

definition wk_wait :: "win_says \<Rightarrow> win_capture \<Rightarrow> (capture_error + bool) \<times> win_capture" where
  "wk_wait a s =
    (case (if wk_rebuild s then (case wk_build (wy_found a) s of (Inr _, s') \<Rightarrow> (Inr (), s'\<lparr>wk_rebuild := False\<rparr>) | (Inl e, s') \<Rightarrow> (Inl e, s'))
           else (Inr (), s)) of
       (Inl e, s1) \<Rightarrow> (Inl e, s1)
     | (Inr _, s1) \<Rightarrow>
       if wk_outputs s1 = [] then (Inr False, s1)
       else if list_ex (\<lambda>o'. wo_held o' \<noteq> None) (wk_outputs s1) then (Inr True, s1)
       else if length (wk_outputs s1) = 1 then wk_acquire 0 (wy_first a) s1
       else wk_rounds (wy_rounds a) s1)"

section \<open>Applying\<close>

text \<open>The monitors that hold a frame, until one fails.\<close>

fun wk_outputs_apply :: "win_output list \<Rightarrow> win_pass \<Rightarrow> ((capture_error + unit) \<times> win_output list \<times> win_pass) option" where
  "wk_outputs_apply [] p = Some (Inr (), [], p)"
| "wk_outputs_apply (o' # os) p =
    (case wo_apply o' p of None \<Rightarrow> None
     | Some (Inl e, o1, p1) \<Rightarrow> Some (Inl e, o1 # os, p1)
     | Some (Inr _, o1, p1) \<Rightarrow> map_option (\<lambda>(res, os', p2). (res, o1 # os', p2)) (wk_outputs_apply os p1))"

definition wk_apply :: "framebuffer \<Rightarrow> win_capture \<Rightarrow> ((capture_error + frame) \<times> framebuffer \<times> win_capture) option" where
  "wk_apply fb s =
    (let (width, height) = wk_size s;
         resized = (fb_width fb \<noteq> width \<or> fb_height fb \<noteq> height);
         fb1 = (if resized then fb_resize width height fb else fb);
         outs = (if resized then map (\<lambda>o'. o'\<lparr>wo_first := True\<rparr>) (wk_outputs s) else wk_outputs s);
         refresh = (resized \<or> wk_refresh s);
         f = \<lparr>fm_damage = (if refresh then region_from_rect (fb_bounds fb1) else region_new), fm_moves = [], fm_cursor = None, fm_resized = resized\<rparr> in
     map_option (\<lambda>(outcome, outs', p).
        let f1 = (if ps_damage p \<noteq> [] then (ps_frame p)\<lparr>fm_damage := region_union (fm_damage (ps_frame p)) (region_from_rects (ps_damage p))\<rparr> else ps_frame p);
            s' = s\<lparr>wk_outputs := outs', wk_refresh := False, wk_pointer := ps_pointer p,
                   wk_rebuild := (wk_rebuild s \<or> (case outcome of Inl (Lost _) \<Rightarrow> True | _ \<Rightarrow> False))\<rparr>
        in ((case outcome of Inl e \<Rightarrow> Inl e | Inr _ \<Rightarrow> Inr f1), ps_fb p, s'))
       (wk_outputs_apply outs \<lparr>ps_fb = fb1, ps_damage = [], ps_pointer = wk_pointer s, ps_frame = f\<rparr>))"

definition win_backend :: "win_says \<Rightarrow> win_capture backend" where
  "win_backend a = \<lparr>bk_wait = wk_wait a,
     bk_apply = \<lambda>fb s. (case wk_apply fb s of Some r \<Rightarrow> r | None \<Rightarrow> (Inl (CaptureFailed []), fb, s)), bk_screens = wk_screens\<rparr>"

end
