(* ===== verification/Windows_Capture_Laws.thy ===== *)
theory Windows_Capture_Laws
  imports Windows_Capture Capture_Laws Cursor_Laws
begin

text \<open>
  The Windows backend: whatever rectangles DXGI reports, nothing is copied outside a monitor's texture or the
  picture, and nothing changes outside the damage of a frame.
\<close>

section \<open>Copying\<close>

definition output_ok :: "win_output \<Rightarrow> bool" where
  "output_ok o' \<longleftrightarrow> fst (wo_tex o') < 65536 \<and> snd (wo_tex o') < 65536 \<and> 0 \<le> fst (wo_off o') \<and> fst (wo_off o') < 65536
    \<and> 0 \<le> snd (wo_off o') \<and> snd (wo_off o') < 65536"

text \<open>A rectangle of the texture whose place is in the picture, and none at all.\<close>

definition copies :: "nat \<times> nat \<Rightarrow> int \<times> int \<Rightarrow> framebuffer \<Rightarrow> rect \<Rightarrow> bool" where
  "copies tex off fb r \<longleftrightarrow> rx1 r = rx2 r \<and> ry1 r = ry2 r
    \<or> (0 \<le> rx1 r \<and> rx1 r < rx2 r \<and> rx2 r \<le> int (fst tex) \<and> 0 \<le> rx1 r + fst off \<and> rx2 r + fst off \<le> int (fb_width fb)
      \<and> 0 \<le> ry1 r \<and> ry1 r < ry2 r \<and> ry2 r \<le> int (snd tex) \<and> 0 \<le> ry1 r + snd off \<and> ry2 r + snd off \<le> int (fb_height fb))"

definition map_px :: "bytes \<Rightarrow> nat \<Rightarrow> int \<Rightarrow> int \<Rightarrow> bytes" where
  "map_px src pitch x y = take 4 (drop (nat y * pitch + nat x * 4) src)"

definition mapped_ok :: "nat \<times> nat \<Rightarrow> nat \<Rightarrow> bytes \<Rightarrow> bool" where
  "mapped_ok tex pitch src \<longleftrightarrow> fst tex * 4 \<le> pitch \<and> length src = pitch * snd tex"

lemma usize_of_small: "0 \<le> i \<Longrightarrow> i < 4294967296 \<Longrightarrow> usize_of i = nat i"
  by (simp add: usize_of_def)

lemma wo_rows_ok:
  assumes "fb_ok fb" "copies tex off fb r" "mapped_ok tex pitch src" "fst tex < 65536" "snd tex < 65536" "i \<le> nat (ry2 r - ry1 r)"
    "\<bar>fst off\<bar> < 65536" "\<bar>snd off\<bar> < 65536"
  shows "\<exists>fb'. wo_rows src pitch off r (map (\<lambda>k. ry1 r + int k) [i ..< nat (ry2 r - ry1 r)]) fb = Some fb' \<and> fb_same fb fb'
    \<and> (\<forall>x y. x < fb_width fb \<longrightarrow> y < fb_height fb \<longrightarrow> fb_px fb' x y =
        (if (int x - fst off, int y - snd off) \<in> rect_pixels r \<and> ry1 r + int i \<le> int y - snd off
         then map_px src pitch (int x - fst off) (int y - snd off) else fb_px fb x y))"
  using assms
proof (induction "nat (ry2 r - ry1 r) - i" arbitrary: i fb)
  case 0
  then have "i = nat (ry2 r - ry1 r)" by simp
  then show ?case using 0 by (auto simp: fb_same_refl in_rect_pixels)
next
  case (Suc n)
  have i: "i < nat (ry2 r - ry1 r)" using Suc.hyps(2) by simp
  then have r: "0 \<le> rx1 r" "rx1 r < rx2 r" "rx2 r \<le> int (fst tex)" "0 \<le> rx1 r + fst off" "rx2 r + fst off \<le> int (fb_width fb)"
    "0 \<le> ry1 r" "ry2 r \<le> int (snd tex)" "0 \<le> ry1 r + snd off" "ry2 r + snd off \<le> int (fb_height fb)"
    using Suc.prems(2) by (auto simp: copies_def)
  define w where "w = nat (rx2 r - rx1 r)"
  define y where "y = ry1 r + int i"
  have y: "0 \<le> y" "y < ry2 r" "ry1 r \<le> y" using i r(6) by (auto simp: y_def)
  have ww: "rect_width r = int w" using r Suc.prems(4) by (simp add: rect_width_def w_def i32_small)
  have uw: "u32_of (rect_width r) = w" using r Suc.prems(4) by (simp add: ww w_def)
  have ux: "usize_of (rx1 r) = nat (rx1 r)" "usize_of y = nat y" using r y Suc.prems(4,5) by (auto intro!: usize_of_small)
  have fbs: "fb_width fb < 65536" "fb_height fb < 65536" using Suc.prems(1) by (simp_all add: fb_ok_def)
  have dx: "u32_of (i32 (rx1 r + fst off)) = nat (rx1 r + fst off)" "u32_of (i32 (y + snd off)) = nat (y + snd off)"
    using r y fbs by (simp_all add: i32_small)
  have nx: "nat (rx1 r) + w \<le> fst tex" "nat y < snd tex" using r y by (auto simp: w_def)
  have "(nat (rx1 r) + w) * 4 \<le> pitch" using nx(1) Suc.prems(3) by (simp add: mapped_ok_def)
  moreover have "nat y * pitch + pitch \<le> pitch * snd tex" using mult_le_mono1 [of "Suc (nat y)" "snd tex" pitch] nx(2) by (simp add: mult.commute)
  ultimately have in_src: "nat y * pitch + nat (rx1 r) * 4 + w * 4 \<le> length src" using Suc.prems(3) by (simp add: mapped_ok_def algebra_simps)
  define row where "row = take (w * 4) (drop (nat y * pitch + nat (rx1 r) * 4) src)"
  have sl: "slice (usize_of y * pitch + usize_of (rx1 r) * FB_BPP) (u32_of (rect_width r) * FB_BPP) src = Some row"
    using in_src by (simp add: slice_def ux uw FB_BPP_def row_def)
  have len: "length row = w * 4" using in_src by (simp add: row_def)
  have rg: "nat (rx1 r + fst off) + w \<le> fb_width fb" "nat (y + snd off) < fb_height fb" using r y by (auto simp: w_def)
  obtain fb1 where fb1: "row_write fb (nat (y + snd off)) (nat (rx1 r + fst off)) row = Some fb1" "fb_ok fb1" "fb_width fb1 = fb_width fb" "fb_height fb1 = fb_height fb"
    "\<And>x' y'. x' < fb_width fb \<Longrightarrow> y' < fb_height fb \<Longrightarrow> fb_px fb1 x' y' =
      (if y' = nat (y + snd off) \<and> nat (rx1 r + fst off) \<le> x' \<and> x' < nat (rx1 r + fst off) + w
       then take 4 (drop ((x' - nat (rx1 r + fst off)) * 4) row) else fb_px fb x' y')"
    using row_write_spec [OF Suc.prems(1) rg len] by blast
  have "\<exists>fb'. wo_rows src pitch off r (map (\<lambda>k. ry1 r + int k) [Suc i ..< nat (ry2 r - ry1 r)]) fb1 = Some fb' \<and> fb_same fb1 fb'
    \<and> (\<forall>x y. x < fb_width fb1 \<longrightarrow> y < fb_height fb1 \<longrightarrow> fb_px fb' x y =
        (if (int x - fst off, int y - snd off) \<in> rect_pixels r \<and> ry1 r + int (Suc i) \<le> int y - snd off
         then map_px src pitch (int x - fst off) (int y - snd off) else fb_px fb1 x y))"
    by (rule Suc.hyps(1)) (use Suc.hyps(2) Suc.prems i fb1(2-4) in \<open>auto simp: copies_def\<close>)
  then obtain fb' where fb': "wo_rows src pitch off r (map (\<lambda>k. ry1 r + int k) [Suc i ..< nat (ry2 r - ry1 r)]) fb1 = Some fb'" "fb_same fb1 fb'"
    "\<And>x y. x < fb_width fb \<Longrightarrow> y < fb_height fb \<Longrightarrow> fb_px fb' x y =
        (if (int x - fst off, int y - snd off) \<in> rect_pixels r \<and> ry1 r + int (Suc i) \<le> int y - snd off
         then map_px src pitch (int x - fst off) (int y - snd off) else fb_px fb1 x y)"
    using fb1(3,4) by auto
  have "[i ..< nat (ry2 r - ry1 r)] = i # [Suc i ..< nat (ry2 r - ry1 r)]" using i by (rule upt_conv_Cons)
  then have R: "wo_rows src pitch off r (map (\<lambda>k. ry1 r + int k) [i ..< nat (ry2 r - ry1 r)]) fb = Some fb'"
    using sl fb1(1) fb'(1) by (simp add: y_def [symmetric] dx Let_def)
  have px: "fb_px fb' x' y' = (if (int x' - fst off, int y' - snd off) \<in> rect_pixels r \<and> ry1 r + int i \<le> int y' - snd off
      then map_px src pitch (int x' - fst off) (int y' - snd off) else fb_px fb x' y')"
    if "x' < fb_width fb" "y' < fb_height fb" for x' y'
  proof (cases "int y' - snd off = y \<and> rx1 r \<le> int x' - fst off \<and> int x' - fst off < rx2 r")
    case True
    then have t: "y' = nat (y + snd off)" "nat (rx1 r + fst off) \<le> x'" "x' < nat (rx1 r + fst off) + w" "\<not> ry1 r + int (Suc i) \<le> int y' - snd off"
      "(int x' - fst off, int y' - snd off) \<in> rect_pixels r" "ry1 r + int i \<le> int y' - snd off"
      "nat (int y' - snd off) = nat y" "nat (int x' - fst off) = nat (rx1 r) + (x' - nat (rx1 r + fst off))"
      using r y by (auto simp: in_rect_pixels w_def y_def)
    have "(x' - nat (rx1 r + fst off)) * 4 + 4 \<le> w * 4" using t(2,3) by simp
    then have "take 4 (drop ((x' - nat (rx1 r + fst off)) * 4) row) = take 4 (drop (nat y * pitch + nat (rx1 r) * 4 + (x' - nat (rx1 r + fst off)) * 4) src)"
      unfolding row_def by (simp add: drop_take take_take min_def add.commute)
    also have "\<dots> = map_px src pitch (int x' - fst off) (int y' - snd off)"
      unfolding map_px_def t(7) t(8) by (simp only: add_mult_distrib add.assoc)
    finally show ?thesis using that fb'(3) fb1(5) t(1-6) by simp
  next
    case False
    have n: "\<not> (y' = nat (y + snd off) \<and> nat (rx1 r + fst off) \<le> x' \<and> x' < nat (rx1 r + fst off) + w)"
      using False r y by (auto simp: w_def)
    have f1: "fb_px fb1 x' y' = fb_px fb x' y'" unfolding fb1(5) [OF that] by (rule if_not_P [OF n])
    have c: "((int x' - fst off, int y' - snd off) \<in> rect_pixels r \<and> ry1 r + int (Suc i) \<le> int y' - snd off)
        = ((int x' - fst off, int y' - snd off) \<in> rect_pixels r \<and> ry1 r + int i \<le> int y' - snd off)"
      using False by (auto simp: in_rect_pixels y_def)
    show ?thesis unfolding fb'(3) [OF that] f1 c by (rule refl)
  qed
  have "fb_same fb fb'" using fb'(2) fb1(3,4) by (simp add: fb_same_def)
  then show ?case using R px by blast
qed

lemma wo_rects_ok:
  assumes "fb_ok fb" "\<forall>r\<in>set rs. copies tex off fb r" "mapped_ok tex pitch src" "fst tex < 65536" "snd tex < 65536"
    "\<bar>fst off\<bar> < 65536" "\<bar>snd off\<bar> < 65536"
  shows "\<exists>fb'. wo_rects src pitch off rs fb = Some fb' \<and> fb_same fb fb'
    \<and> (\<forall>x y. x < fb_width fb \<longrightarrow> y < fb_height fb \<longrightarrow> fb_px fb' x y =
        (if (int x - fst off, int y - snd off) \<in> rects_pixels rs then map_px src pitch (int x - fst off) (int y - snd off) else fb_px fb x y))"
  using assms(1,2)
proof (induction rs arbitrary: fb)
  case Nil
  then show ?case by (auto simp: fb_same_refl)
next
  case (Cons r rs)
  have c: "copies tex off fb r" using Cons.prems(2) by simp
  obtain fb1 where fb1: "wo_rows src pitch off r (irange (ry1 r) (ry2 r)) fb = Some fb1" "fb_same fb fb1"
    "\<And>x y. x < fb_width fb \<Longrightarrow> y < fb_height fb \<Longrightarrow> fb_px fb1 x y =
        (if (int x - fst off, int y - snd off) \<in> rect_pixels r then map_px src pitch (int x - fst off) (int y - snd off) else fb_px fb x y)"
    using wo_rows_ok [OF Cons.prems(1) c assms(3-5), of 0] assms(6,7) by (auto simp: irange_def in_rect_pixels)
  have same: "fb_ok fb1" "fb_width fb1 = fb_width fb" "fb_height fb1 = fb_height fb" using fb1(2) by (simp_all add: fb_same_def)
  have "\<forall>r\<in>set rs. copies tex off fb1 r" using Cons.prems(2) same(2,3) by (auto simp: copies_def)
  then obtain fb' where fb': "wo_rects src pitch off rs fb1 = Some fb'" "fb_same fb1 fb'"
    "\<And>x y. x < fb_width fb \<Longrightarrow> y < fb_height fb \<Longrightarrow> fb_px fb' x y =
        (if (int x - fst off, int y - snd off) \<in> rects_pixels rs then map_px src pitch (int x - fst off) (int y - snd off) else fb_px fb1 x y)"
    using Cons.IH [OF same(1)] same(2,3) by auto
  have "wo_rects src pitch off (r # rs) fb = Some fb'" using fb1(1) fb'(1) by simp
  moreover have "fb_same fb fb'" using fb1(2) fb'(2) by (rule fb_same_trans)
  ultimately show ?case using fb1(3) fb'(3) by auto
qed

section \<open>What is to be copied\<close>

definition tex_ok :: "nat \<times> nat \<Rightarrow> int \<times> int \<Rightarrow> bool" where
  "tex_ok tex off \<longleftrightarrow> fst tex < 65536 \<and> snd tex < 65536 \<and> 0 \<le> fst off \<and> fst off < 65536 \<and> 0 \<le> snd off \<and> snd off < 65536"

lemma output_tex_ok: "output_ok o' = tex_ok (wo_tex o') (wo_off o')"
  by (simp add: output_ok_def tex_ok_def)

text \<open>The pixels of a monitor that lie in the picture.\<close>

definition reach_pts :: "win_output \<Rightarrow> framebuffer \<Rightarrow> (int \<times> int) set" where
  "reach_pts o' fb = {(x, y). 0 \<le> x \<and> x < int (fst (wo_tex o')) \<and> x + fst (wo_off o') < int (fb_width fb)
    \<and> 0 \<le> y \<and> y < int (snd (wo_tex o')) \<and> y + snd (wo_off o') < int (fb_height fb)}"

lemma reach_parts:
  assumes "output_ok o'" "fb_ok fb"
  shows "rect_pixels (wo_reach o' fb) = reach_pts o' fb" "copies (wo_tex o') (wo_off o') fb (wo_reach o' fb)"
    "\<not> rect_is_empty (wo_reach o' fb) \<Longrightarrow> rect_small (wo_reach o' fb)"
proof -
  obtain w h ox oy where t: "wo_tex o' = (w, h)" "wo_off o' = (ox, oy)" by (cases "wo_tex o'"; cases "wo_off o'")
  have b: "w < 65536" "h < 65536" "0 \<le> ox" "ox < 65536" "0 \<le> oy" "oy < 65536" "fb_width fb < 65536" "fb_height fb < 65536"
    using assms by (simp_all add: output_ok_def t fb_ok_def)
  let ?x = "min (int w + ox) (int (fb_width fb))" and ?y = "min (int h + oy) (int (fb_height fb))"
  have t1: "rect_translate (rect_new 0 0 (i32 (int w)) (i32 (int h))) ox oy = mk_rect ox oy (int w + ox) (int h + oy)"
    using b by (simp add: rect_translate_def rect_new_def i32_small)
  have i: "rect_intersection (mk_rect ox oy (int w + ox) (int h + oy)) (fb_bounds fb) = rect_normalised (mk_rect ox oy ?x ?y)"
    using b by (simp add: rect_intersection_def fb_bounds_ok [OF assms(2)])
  have neg: "i32 (- ox) = - ox" "i32 (- oy) = - oy" using b by (simp_all add: i32_small)
  have R: "wo_reach o' fb = (if ?x \<le> ox \<or> ?y \<le> oy then mk_rect (- ox) (- oy) (- ox) (- oy) else mk_rect 0 0 (?x - ox) (?y - oy))"
    unfolding wo_reach_def t fst_conv snd_conv t1 i neg
    using b by (simp add: rect_normalised_def rect_is_empty_def rect_EMPTY_def rect_translate_def i32_small)
  show "rect_pixels (wo_reach o' fb) = reach_pts o' fb"
    unfolding R reach_pts_def t by (auto simp: rect_pixels_def)
  show "copies (wo_tex o') (wo_off o') fb (wo_reach o' fb)" unfolding R t using b by (auto simp: copies_def)
  show "\<not> rect_is_empty (wo_reach o' fb) \<Longrightarrow> rect_small (wo_reach o' fb)" unfolding R using b by (auto simp: rect_small_def rect_is_empty_def)
qed

text \<open>A rectangle clipped to the reach can be copied.\<close>

lemma clipped_copies:
  assumes "output_ok o'" "fb_ok fb" "\<not> rect_is_empty (rect_intersection r (wo_reach o' fb))"
  shows "copies (wo_tex o') (wo_off o') fb (rect_intersection r (wo_reach o' fb))" "rect_small (rect_intersection r (wo_reach o' fb))"
proof -
  let ?q = "wo_reach o' fb"
  have ne: "\<not> rect_is_empty ?q" using assms(3) by (auto simp: rect_is_empty_pixels)
  then have q: "0 \<le> rx1 ?q" "rx2 ?q \<le> int (fst (wo_tex o'))" "rx2 ?q + fst (wo_off o') \<le> int (fb_width fb)" "0 \<le> rx1 ?q + fst (wo_off o')"
    "0 \<le> ry1 ?q" "ry2 ?q \<le> int (snd (wo_tex o'))" "ry2 ?q + snd (wo_off o') \<le> int (fb_height fb)" "0 \<le> ry1 ?q + snd (wo_off o')"
    using reach_parts(2) [OF assms(1,2)] by (auto simp: copies_def rect_is_empty_def)
  define m where "m = mk_rect (max (rx1 r) (rx1 ?q)) (max (ry1 r) (ry1 ?q)) (min (rx2 r) (rx2 ?q)) (min (ry2 r) (ry2 ?q))"
  have i: "rect_intersection r ?q = rect_normalised m" by (simp add: rect_intersection_def m_def)
  have "\<not> rect_is_empty m" using assms(3) by (auto simp: i rect_normalised_def rect_EMPTY_def rect_is_empty_def split: if_splits)
  then have e: "rect_intersection r ?q = m" and n: "rx1 m < rx2 m" "ry1 m < ry2 m" by (simp_all add: i rect_normalised_def rect_is_empty_def)
  have b: "rx1 ?q \<le> rx1 m" "rx2 m \<le> rx2 ?q" "ry1 ?q \<le> ry1 m" "ry2 m \<le> ry2 ?q" by (simp_all add: m_def)
  show "copies (wo_tex o') (wo_off o') fb (rect_intersection r ?q)" unfolding e copies_def using n b q by auto
  show "rect_small (rect_intersection r ?q)" unfolding e using n b q assms(1) by (auto simp: rect_small_def output_ok_def)
qed

text \<open>A frame's rectangles: where a block moved to, and what is dirty.\<close>

definition touched :: "held \<Rightarrow> (int \<times> int) set" where
  "touched h = rects_pixels (map (\<lambda>m. win_from_rect (snd m)) (case hd_moves h of Inr ms \<Rightarrow> ms | Inl _ \<Rightarrow> []))
    \<union> rects_pixels (map win_from_rect (case hd_dirty h of Inr ds \<Rightarrow> ds | Inl _ \<Rightarrow> []))"

lemma translate_back:
  assumes "rect_small r" "0 \<le> fst off" "fst off < 65536" "0 \<le> snd off" "snd off < 65536"
  shows "rect_translate (rect_translate r (fst off) (snd off)) (i32 (- fst off)) (i32 (- snd off)) = r"
  using assms by (cases r) (simp add: rect_translate_def rect_small_def i32_small)

lemma moves_ok:
  assumes "output_ok o'" "fb_ok fb"
  shows "\<exists>rects ms'. wo_moves (wo_reach o' fb) (wo_off o') reported (rects0, ms) = (rects0 @ rects, ms @ ms')
    \<and> (\<forall>r\<in>set rects. copies (wo_tex o') (wo_off o') fb r)
    \<and> rects_pixels rects = rects_pixels (map (\<lambda>m. win_from_rect (snd m)) reported) \<inter> reach_pts o' fb"
proof (induction reported arbitrary: rects0 ms)
  case (Cons m reported)
  obtain src r where m: "m = (src, r)" by (cases m)
  let ?c = "rect_intersection (win_from_rect r) (wo_reach o' fb)"
  have pc: "rect_pixels ?c = rect_pixels (win_from_rect r) \<inter> reach_pts o' fb" by (simp add: reach_parts(1) [OF assms])
  show ?case
  proof (cases "rect_is_empty ?c")
    case True
    then have "clip_move src (win_from_rect r) (wo_reach o' fb) (wo_off o') = None" by (simp add: clip_move_def)
    moreover have "rect_pixels (win_from_rect r) \<inter> reach_pts o' fb = {}" using True pc by (simp add: rect_is_empty_pixels)
    ultimately show ?thesis using Cons.IH [of rects0 ms] by (auto simp: m)
  next
    case False
    note c = clipped_copies [OF assms False]
    obtain mv where mv: "clip_move src (win_from_rect r) (wo_reach o' fb) (wo_off o') = Some mv"
      "dst mv = rect_translate ?c (fst (wo_off o')) (snd (wo_off o'))" using False by (simp add: clip_move_def Let_def)
    have bk: "rect_translate (dst mv) (i32 (- fst (wo_off o'))) (i32 (- snd (wo_off o'))) = ?c"
      unfolding mv(2) by (rule translate_back) (use c(2) assms(1) in \<open>simp_all add: output_ok_def\<close>)
    obtain rects ms' where ih: "wo_moves (wo_reach o' fb) (wo_off o') reported (rects0 @ [?c], ms @ [mv]) = ((rects0 @ [?c]) @ rects, (ms @ [mv]) @ ms')"
      "\<forall>r\<in>set rects. copies (wo_tex o') (wo_off o') fb r"
      "rects_pixels rects = rects_pixels (map (\<lambda>m. win_from_rect (snd m)) reported) \<inter> reach_pts o' fb" using Cons.IH by blast
    have "wo_moves (wo_reach o' fb) (wo_off o') (m # reported) (rects0, ms) = (rects0 @ (?c # rects), ms @ (mv # ms'))"
      using ih(1) by (simp add: m mv(1) bk)
    moreover have "rects_pixels (?c # rects) = rects_pixels (map (\<lambda>m. win_from_rect (snd m)) (m # reported)) \<inter> reach_pts o' fb"
      using ih(3) pc by (auto simp: m)
    ultimately show ?thesis using ih(2) c(1) by (intro exI [of _ "?c # rects"] exI [of _ "mv # ms'"]) simp
  qed
qed simp

lemma metadata_ok:
  assumes "output_ok o'" "fb_ok fb"
  obtains res rects ms where "wo_metadata o' h (wo_reach o' fb) f = (res, rects, f\<lparr>fm_moves := fm_moves f @ ms\<rparr>)"
    "\<forall>r\<in>set rects. copies (wo_tex o') (wo_off o') fb r" "\<And>n. res = Inr n \<Longrightarrow> rects_pixels rects = touched h \<inter> reach_pts o' fb"
proof (cases "hd_moves h")
  case (Inl e)
  have "wo_metadata o' h (wo_reach o' fb) f = (Inl (classify e), [], f\<lparr>fm_moves := fm_moves f @ []\<rparr>)"
    by (simp add: wo_metadata_def called_def Inl)
  then show thesis by (rule that) simp_all
next
  case (Inr reported)
  obtain rects ms where m: "wo_moves (wo_reach o' fb) (wo_off o') reported ([], fm_moves f) = (rects, fm_moves f @ ms)"
    "\<forall>r\<in>set rects. copies (wo_tex o') (wo_off o') fb r"
    "rects_pixels rects = rects_pixels (map (\<lambda>m. win_from_rect (snd m)) reported) \<inter> reach_pts o' fb"
    using moves_ok [OF assms, of reported "[]" "fm_moves f"] by auto
  show thesis
  proof (cases "hd_dirty h")
    case (Inl e)
    have "wo_metadata o' h (wo_reach o' fb) f = (Inl (classify e), rects, f\<lparr>fm_moves := fm_moves f @ ms\<rparr>)"
      by (simp add: wo_metadata_def called_def Inl Inr m(1))
    then show thesis by (rule that) (use m(2) in simp_all)
  next
    case d: (Inr dirty)
    let ?d = "filter (\<lambda>r. \<not> rect_is_empty r) (map (\<lambda>r. rect_intersection (win_from_rect r) (wo_reach o' fb)) dirty)"
    have dp: "rects_pixels ?d = rects_pixels (map win_from_rect dirty) \<inter> reach_pts o' fb"
      by (induction dirty) (auto simp: rect_is_empty_pixels reach_parts(1) [OF assms])
    have "wo_metadata o' h (wo_reach o' fb) f = (Inr (length reported), rects @ ?d, f\<lparr>fm_moves := fm_moves f @ ms\<rparr>)"
      by (simp add: wo_metadata_def called_def Inr d m(1))
    then show thesis
    proof (rule that)
      show "\<forall>r\<in>set (rects @ ?d). copies (wo_tex o') (wo_off o') fb r" using m(2) clipped_copies(1) [OF assms] by auto
      show "rects_pixels (rects @ ?d) = touched h \<inter> reach_pts o' fb" using m(3) dp by (auto simp: touched_def Inr d)
    qed
  qed
qed

section \<open>A monitor's frame\<close>

text \<open>What the mapping promises: rows as wide as the texture, all of them.\<close>

definition held_ok :: "nat \<times> nat \<Rightarrow> held \<Rightarrow> bool" where
  "held_ok tex h \<longleftrightarrow> (\<forall>pitch mapped. hd_map h = Inr (pitch, mapped) \<longrightarrow> fst tex * 4 \<le> pitch \<and> pitch * snd tex \<le> length mapped)"

definition frame_px :: "nat \<times> nat \<Rightarrow> held \<Rightarrow> int \<Rightarrow> int \<Rightarrow> bytes" where
  "frame_px tex h x y = (case hd_map h of Inr (pitch, mapped) \<Rightarrow> map_px (take (pitch * snd tex) mapped) pitch x y | Inl _ \<Rightarrow> [])"

lemma copy_ok:
  assumes "output_ok o'" "held_ok (wo_tex o') h" "fb_ok fb" "\<forall>r\<in>set rs. copies (wo_tex o') (wo_off o') fb r"
  obtains res fb' where "wo_copy o' h rs fb = Some (res, fb')" "fb_same fb fb'"
    "\<And>x y. x < fb_width fb \<Longrightarrow> y < fb_height fb \<Longrightarrow> fb_px fb' x y \<noteq> fb_px fb x y \<Longrightarrow> (int x - fst (wo_off o'), int y - snd (wo_off o')) \<in> rects_pixels rs"
    "\<And>x y. res = Inr () \<Longrightarrow> x < fb_width fb \<Longrightarrow> y < fb_height fb \<Longrightarrow> (int x - fst (wo_off o'), int y - snd (wo_off o')) \<in> rects_pixels rs \<Longrightarrow>
      fb_px fb' x y = frame_px (wo_tex o') h (int x - fst (wo_off o')) (int y - snd (wo_off o'))"
proof (cases "rs = []")
  case True
  then have "wo_copy o' h rs fb = Some (Inr (), fb)" by (simp add: wo_copy_def)
  then show thesis by (rule that) (use True assms(3) in \<open>auto simp: fb_same_refl\<close>)
next
  case ne: False
  show thesis
  proof (cases "hd_map h")
    case (Inl e)
    then have "wo_copy o' h rs fb = Some (Inl (classify e), fb)" using ne by (simp add: wo_copy_def called_def)
    then show thesis by (rule that) (use assms(3) in \<open>auto simp: fb_same_refl\<close>)
  next
    case (Inr pm)
    obtain pitch mapped where pm: "hd_map h = Inr (pitch, mapped)" using Inr by (cases pm) simp
    let ?src = "take (pitch * snd (wo_tex o')) mapped"
    have m: "mapped_ok (wo_tex o') pitch ?src" using assms(2) pm by (auto simp: held_ok_def mapped_ok_def)
    obtain fb' where fb': "wo_rects ?src pitch (wo_off o') rs fb = Some fb'" "fb_same fb fb'"
      "\<And>x y. x < fb_width fb \<Longrightarrow> y < fb_height fb \<Longrightarrow> fb_px fb' x y =
        (if (int x - fst (wo_off o'), int y - snd (wo_off o')) \<in> rects_pixels rs
         then map_px ?src pitch (int x - fst (wo_off o')) (int y - snd (wo_off o')) else fb_px fb x y)"
      using wo_rects_ok [OF assms(3,4) m] assms(1) by (auto simp: output_ok_def)
    have "wo_copy o' h rs fb = Some (Inr (), fb')" using ne pm fb'(1) by (simp add: wo_copy_def called_def)
    then show thesis by (rule that) (use fb'(2,3) pm in \<open>auto simp: frame_px_def split: if_splits\<close>)
  qed
qed

text \<open>A rectangle's place in the picture.\<close>

lemma placed_pixels:
  assumes "output_ok o'" "fb_ok fb" "copies (wo_tex o') (wo_off o') fb r"
  shows "(x, y) \<in> rect_pixels (rect_translate r (fst (wo_off o')) (snd (wo_off o'))) \<longleftrightarrow> (x - fst (wo_off o'), y - snd (wo_off o')) \<in> rect_pixels r"
proof (cases "rx1 r = rx2 r \<and> ry1 r = ry2 r")
  case True
  then show ?thesis by (auto simp: in_rect_pixels rect_translate_def)
next
  case False
  then have "0 \<le> rx1 r" "rx2 r < 65536" "rx1 r < rx2 r" "0 \<le> ry1 r" "ry2 r < 65536" "ry1 r < ry2 r"
    using assms(1,3) by (auto simp: copies_def output_ok_def)
  then show ?thesis using assms(1) by (auto simp: in_rect_pixels rect_translate_def output_ok_def i32_small)
qed

lemma placed_all:
  assumes "output_ok o'" "fb_ok fb" "\<forall>r\<in>set rs. copies (wo_tex o') (wo_off o') fb r"
  shows "(x, y) \<in> rects_pixels (map (\<lambda>r. rect_translate r (fst (wo_off o')) (snd (wo_off o'))) rs)
    \<longleftrightarrow> (x - fst (wo_off o'), y - snd (wo_off o')) \<in> rects_pixels rs"
  using assms(3) by (induction rs) (simp_all add: placed_pixels [OF assms(1,2)])

lemma update_frame:
  obtains res wp c where "wp_update h wp0 f = (res, wp, f\<lparr>fm_cursor := c\<rparr>)"
proof -
  have k: "fm_damage f' = fm_damage f \<and> fm_moves f' = fm_moves f \<and> fm_resized f' = fm_resized f" if "wp_update h wp0 f = (res, wp, f')" for res wp f'
    using that by (auto simp: wp_update_def wp_tell_def Let_def split: prod.splits sum.splits if_splits option.splits)
  obtain res wp f' where u: "wp_update h wp0 f = (res, wp, f')" by (cases "wp_update h wp0 f") auto
  have "f' = f\<lparr>fm_cursor := fm_cursor f'\<rparr>" using k [OF u] by (cases f; cases f') simp
  then show thesis using that u by metis
qed

text \<open>The parts of a pass that later ones build on, and what a frame's pass did to the picture.\<close>

definition extends :: "frame \<Rightarrow> frame \<Rightarrow> bool" where
  "extends f f' \<longleftrightarrow> fm_damage f' = fm_damage f \<and> fm_resized f' = fm_resized f \<and> (\<exists>ms. fm_moves f' = fm_moves f @ ms)"

definition pass_step :: "win_pass \<Rightarrow> rect list \<Rightarrow> win_pass \<Rightarrow> bool" where
  "pass_step p D p' \<longleftrightarrow> fb_same (ps_fb p) (ps_fb p') \<and> extends (ps_frame p) (ps_frame p') \<and> ps_damage p' = ps_damage p @ D
    \<and> (\<forall>x y. x < fb_width (ps_fb p) \<longrightarrow> y < fb_height (ps_fb p) \<longrightarrow> (int x, int y) \<notin> rects_pixels D \<longrightarrow> fb_px (ps_fb p') x y = fb_px (ps_fb p) x y)"

lemma pass_step_refl: "fb_ok (ps_fb p) \<Longrightarrow> extends (ps_frame p) (ps_frame p') \<Longrightarrow> ps_fb p' = ps_fb p \<Longrightarrow> ps_damage p' = ps_damage p \<Longrightarrow> pass_step p [] p'"
  by (simp add: pass_step_def fb_same_refl)

lemma pass_step_trans:
  assumes "pass_step p D p'" "pass_step p' E p''"
  shows "pass_step p (D @ E) p''"
proof -
  have w: "fb_width (ps_fb p') = fb_width (ps_fb p)" "fb_height (ps_fb p') = fb_height (ps_fb p)" using assms(1) by (simp_all add: pass_step_def fb_same_def)
  have "extends (ps_frame p) (ps_frame p'')" using assms by (auto simp: pass_step_def extends_def)
  then show ?thesis using assms w fb_same_trans by (auto simp: pass_step_def)
qed

lemma write_ok:
  assumes "output_ok o'" "held_ok (wo_tex o') h" "fb_ok (ps_fb p)"
  obtains res o1 p1 D where "wo_write h o' p = Some (res, o1, p1)" "pass_step p D p1"
    "o1 = o' \<or> o1 = o'\<lparr>wo_first := False\<rparr>"
    "\<And>x y. (x, y) \<in> rects_pixels D \<Longrightarrow> (x - fst (wo_off o'), y - snd (wo_off o')) \<in> reach_pts o' (ps_fb p)"
    "res = Inr () \<Longrightarrow> fi_present (hd_info h) = 0 \<Longrightarrow> o1 = o' \<and> ps_fb p1 = ps_fb p"
    "res = Inr () \<Longrightarrow> fi_present (hd_info h) \<noteq> 0 \<Longrightarrow> o1 = o'\<lparr>wo_first := False\<rparr> \<and>
      (\<forall>(x, y)\<in>reach_pts o' (ps_fb p). fb_px (ps_fb p1) (nat (x + fst (wo_off o'))) (nat (y + snd (wo_off o'))) =
        (if wo_first o' \<or> 0 < fi_metadata (hd_info h) \<and> (x, y) \<in> touched h then frame_px (wo_tex o') h x y
         else fb_px (ps_fb p) (nat (x + fst (wo_off o'))) (nat (y + snd (wo_off o')))))"
proof -
  obtain ru wp c where u: "wp_update h (ps_pointer p) (ps_frame p) = (ru, wp, (ps_frame p)\<lparr>fm_cursor := c\<rparr>)" by (rule update_frame)
  let ?f = "(ps_frame p)\<lparr>fm_cursor := c\<rparr>"
  let ?p1 = "p\<lparr>ps_pointer := wp, ps_frame := ?f\<rparr>"
  have ex: "extends (ps_frame p) ?f" by (simp add: extends_def)
  have st: "pass_step p [] ?p1" using assms(3) ex by (intro pass_step_refl) simp_all
  show thesis
  proof (cases ru)
    case (Inl e)
    then have "wo_write h o' p = Some (Inl e, o', ?p1)" by (simp add: wo_write_def u)
    then show thesis using st by (rule that) simp_all
  next
    case ru: (Inr b)
    show thesis
    proof (cases "fi_present (hd_info h) = 0")
      case True
      then have "wo_write h o' p = Some (Inr (), o', ?p1)" by (simp add: wo_write_def u ru)
      then show thesis using st by (rule that) (use True in simp_all)
    next
      case pres: False
      show thesis
      proof (cases "hd_texture h")
        case (Inl e)
        then have "wo_write h o' p = Some (Inl (classify e), o', ?p1)" using pres by (simp add: wo_write_def u ru called_def)
        then show thesis using st by (rule that) simp_all
      next
        case tex: (Inr v)
        let ?q = "wo_reach o' (ps_fb p)"
        obtain rm rects ms where rm: "wo_wanted h o' (ps_fb p) ?f = (rm, rects, ?f\<lparr>fm_moves := fm_moves ?f @ ms\<rparr>)"
          "\<forall>r\<in>set rects. copies (wo_tex o') (wo_off o') (ps_fb p) r"
          "\<And>n. rm = Inr n \<Longrightarrow> rects_pixels rects = {pt \<in> reach_pts o' (ps_fb p). wo_first o' \<or> 0 < fi_metadata (hd_info h) \<and> pt \<in> touched h}"
        proof (cases "\<not> wo_first o' \<and> fi_metadata (hd_info h) > 0")
          case True
          obtain res rects ms where m: "wo_metadata o' h ?q ?f = (res, rects, ?f\<lparr>fm_moves := fm_moves ?f @ ms\<rparr>)"
            "\<forall>r\<in>set rects. copies (wo_tex o') (wo_off o') (ps_fb p) r" "\<And>n. res = Inr n \<Longrightarrow> rects_pixels rects = touched h \<inter> reach_pts o' (ps_fb p)"
            by (rule metadata_ok [OF assms(1,3), of h ?f]) (rule that)
          show thesis by (rule that [of res rects ms]) (use m True in \<open>auto simp: wo_wanted_def\<close>)
        next
          case False
          show thesis
            by (rule that [of "Inr 0" "if wo_first o' then [?q] else []" "[]"])
              (use False reach_parts(1,2) [OF assms(1,3)] in \<open>auto simp: wo_wanted_def\<close>)
        qed
        let ?f' = "?f\<lparr>fm_moves := fm_moves ?f @ ms\<rparr>"
        have ex': "extends (ps_frame p) ?f'" by (simp add: extends_def)
        show thesis
        proof (cases rm)
          case (Inl e)
          then have "wo_write h o' p = Some (Inl e, o'\<lparr>wo_first := False\<rparr>, ?p1\<lparr>ps_frame := ?f'\<rparr>)"
            using pres tex rm(1) by (simp add: wo_write_def u ru called_def Let_def)
          moreover have "pass_step p [] (?p1\<lparr>ps_frame := ?f'\<rparr>)" using assms(3) ex' by (intro pass_step_refl) simp_all
          ultimately show thesis by (rule that) simp_all
        next
          case (Inr n)
          note rp = rm(3) [OF Inr]
          let ?D = "map (\<lambda>r. rect_translate r (fst (wo_off o')) (snd (wo_off o'))) rects"
          obtain res fb' where c: "wo_copy o' h rects (ps_fb p) = Some (res, fb')" "fb_same (ps_fb p) fb'"
            "\<And>x y. x < fb_width (ps_fb p) \<Longrightarrow> y < fb_height (ps_fb p) \<Longrightarrow> fb_px fb' x y \<noteq> fb_px (ps_fb p) x y \<Longrightarrow>
              (int x - fst (wo_off o'), int y - snd (wo_off o')) \<in> rects_pixels rects"
            "\<And>x y. res = Inr () \<Longrightarrow> x < fb_width (ps_fb p) \<Longrightarrow> y < fb_height (ps_fb p) \<Longrightarrow>
              (int x - fst (wo_off o'), int y - snd (wo_off o')) \<in> rects_pixels rects \<Longrightarrow>
              fb_px fb' x y = frame_px (wo_tex o') h (int x - fst (wo_off o')) (int y - snd (wo_off o'))"
            by (rule copy_ok [OF assms(1,2,3) rm(2)]) (rule that)
          note pl = placed_all [OF assms(1,3) rm(2)]
          let ?p2 = "?p1\<lparr>ps_frame := ?f', ps_damage := ps_damage p @ ?D, ps_fb := fb'\<rparr>"
          have W: "wo_write h o' p = Some (res, o'\<lparr>wo_first := False\<rparr>, ?p2)"
            using pres tex rm(1) Inr c(1) by (simp add: wo_write_def u ru called_def Let_def)
          have S: "pass_step p ?D ?p2" using c(2,3) ex' pl by (auto simp: pass_step_def)
          show thesis
          proof (rule that [OF W S])
            fix x y assume "(x, y) \<in> rects_pixels ?D"
            then show "(x - fst (wo_off o'), y - snd (wo_off o')) \<in> reach_pts o' (ps_fb p)" using pl rp by auto
          next
            assume r: "res = Inr ()"
            have "fb_px fb' (nat (x + fst (wo_off o'))) (nat (y + snd (wo_off o'))) =
                (if wo_first o' \<or> 0 < fi_metadata (hd_info h) \<and> (x, y) \<in> touched h then frame_px (wo_tex o') h x y
                 else fb_px (ps_fb p) (nat (x + fst (wo_off o'))) (nat (y + snd (wo_off o'))))"
              if xy: "(x, y) \<in> reach_pts o' (ps_fb p)" for x y
            proof -
              let ?X = "nat (x + fst (wo_off o'))" and ?Y = "nat (y + snd (wo_off o'))"
              have b: "?X < fb_width (ps_fb p)" "?Y < fb_height (ps_fb p)" "int ?X - fst (wo_off o') = x" "int ?Y - snd (wo_off o') = y"
                using xy assms(1) by (auto simp: reach_pts_def output_ok_def)
              have "(x, y) \<in> rects_pixels rects \<longleftrightarrow> wo_first o' \<or> 0 < fi_metadata (hd_info h) \<and> (x, y) \<in> touched h" using rp xy by auto
              then show ?thesis using c(3) [OF b(1,2)] c(4) [OF r b(1,2)] b(3,4) by auto
            qed
            then show "o'\<lparr>wo_first := False\<rparr> = o'\<lparr>wo_first := False\<rparr> \<and> (\<forall>(x, y)\<in>reach_pts o' (ps_fb p).
                fb_px (ps_fb ?p2) (nat (x + fst (wo_off o'))) (nat (y + snd (wo_off o'))) =
                (if wo_first o' \<or> 0 < fi_metadata (hd_info h) \<and> (x, y) \<in> touched h then frame_px (wo_tex o') h x y
                 else fb_px (ps_fb p) (nat (x + fst (wo_off o'))) (nat (y + snd (wo_off o')))))" by auto
          qed (use pres in auto)
        qed
      qed
    qed
  qed
qed

section \<open>The monitors in turn\<close>

definition mon_pts :: "nat \<times> nat \<Rightarrow> (int \<times> int) set" where
  "mon_pts tex = {(x, y). 0 \<le> x \<and> x < int (fst tex) \<and> 0 \<le> y \<and> y < int (snd tex)}"

definition place_pts :: "win_output \<Rightarrow> (int \<times> int) set" where
  "place_pts o' = {(x, y). (x - fst (wo_off o'), y - snd (wo_off o')) \<in> mon_pts (wo_tex o')}"

definition apart :: "win_output list \<Rightarrow> bool" where
  "apart os \<longleftrightarrow> sorted_wrt (\<lambda>a b. place_pts a \<inter> place_pts b = {}) os"

text \<open>The picture shows a monitor's texture, unless none of it has been copied yet.\<close>

definition shown :: "win_output \<Rightarrow> framebuffer \<Rightarrow> (int \<times> int \<Rightarrow> bytes) \<Rightarrow> bool" where
  "shown o' fb T \<longleftrightarrow> wo_first o' \<or>
    (\<forall>(x, y)\<in>reach_pts o' fb. fb_px fb (nat (x + fst (wo_off o'))) (nat (y + snd (wo_off o'))) = T (x, y))"

text \<open>DXGI's word about a frame in which the texture went from \<open>T\<close> to \<open>T'\<close>: where nothing was presented, and
  outside what the frame reports, it is the same, and what is to be copied is mapped as it is.\<close>

definition told :: "win_output \<Rightarrow> (int \<times> int \<Rightarrow> bytes) \<Rightarrow> (int \<times> int \<Rightarrow> bytes) \<Rightarrow> bool" where
  "told o' T T' \<longleftrightarrow> (case wo_held o' of None \<Rightarrow> T' = T
    | Some h \<Rightarrow>
      if fi_present (hd_info h) = 0 then T' = T
      else (\<forall>pt\<in>mon_pts (wo_tex o'). let reported = (0 < fi_metadata (hd_info h) \<and> pt \<in> touched h) in
        (wo_first o' \<or> reported \<longrightarrow> frame_px (wo_tex o') h (fst pt) (snd pt) = T' pt) \<and> (\<not> reported \<longrightarrow> T' pt = T pt)))"

definition maps_ok :: "win_output \<Rightarrow> bool" where
  "maps_ok o' \<longleftrightarrow> (\<forall>h. wo_held o' = Some h \<longrightarrow> held_ok (wo_tex o') h)"

text \<open>What applying a monitor's frame leaves of it.\<close>

definition applied :: "win_output \<Rightarrow> win_output \<Rightarrow> bool" where
  "applied o' o1 \<longleftrightarrow> wo_tex o1 = wo_tex o' \<and> wo_off o1 = wo_off o' \<and> wo_rect o1 = wo_rect o' \<and> wo_held o1 = None"

lemma applied_same: "applied o' o1 \<Longrightarrow> output_ok o1 = output_ok o' \<and> reach_pts o1 fb = reach_pts o' fb \<and> place_pts o1 = place_pts o'"
  by (simp add: applied_def output_ok_def reach_pts_def place_pts_def)

lemma reach_place: "(x, y) \<in> reach_pts o' fb \<Longrightarrow> (x, y) \<in> mon_pts (wo_tex o') \<and> (x + fst (wo_off o'), y + snd (wo_off o')) \<in> place_pts o'"
  by (simp add: reach_pts_def place_pts_def mon_pts_def)

lemma output_apply_ok:
  assumes "output_ok o'" "maps_ok o'" "fb_ok (ps_fb p)"
  obtains res o1 p1 D where "wo_apply o' p = Some (res, o1, p1)" "pass_step p D p1" "applied o' o1" "rects_pixels D \<subseteq> place_pts o'"
    "\<And>T T'. res = Inr () \<Longrightarrow> shown o' (ps_fb p) T \<Longrightarrow> told o' T T' \<Longrightarrow> shown o1 (ps_fb p1) T'"
proof (cases "wo_held o'")
  case None
  have "pass_step p [] p" using assms(3) by (intro pass_step_refl) (simp_all add: extends_def)
  moreover have "wo_apply o' p = Some (Inr (), o', p)" by (simp add: wo_apply_def None)
  ultimately show thesis by (intro that) (use None in \<open>auto simp: applied_def told_def\<close>)
next
  case (Some h)
  let ?o = "o'\<lparr>wo_held := None\<rparr>"
  have ok: "output_ok ?o" "held_ok (wo_tex ?o) h" "reach_pts ?o fb = reach_pts o' fb" for fb
    using assms(1,2) Some by (simp_all add: output_ok_def maps_ok_def reach_pts_def)
  obtain res o1 p1 D where w: "wo_write h ?o p = Some (res, o1, p1)" "pass_step p D p1" "o1 = ?o \<or> o1 = ?o\<lparr>wo_first := False\<rparr>"
    "\<And>x y. (x, y) \<in> rects_pixels D \<Longrightarrow> (x - fst (wo_off ?o), y - snd (wo_off ?o)) \<in> reach_pts ?o (ps_fb p)"
    "res = Inr () \<Longrightarrow> fi_present (hd_info h) = 0 \<Longrightarrow> o1 = ?o \<and> ps_fb p1 = ps_fb p"
    "res = Inr () \<Longrightarrow> fi_present (hd_info h) \<noteq> 0 \<Longrightarrow> o1 = ?o\<lparr>wo_first := False\<rparr> \<and>
      (\<forall>(x, y)\<in>reach_pts ?o (ps_fb p). fb_px (ps_fb p1) (nat (x + fst (wo_off ?o))) (nat (y + snd (wo_off ?o))) =
        (if wo_first ?o \<or> 0 < fi_metadata (hd_info h) \<and> (x, y) \<in> touched h then frame_px (wo_tex ?o) h x y
         else fb_px (ps_fb p) (nat (x + fst (wo_off ?o))) (nat (y + snd (wo_off ?o)))))"
    by (rule write_ok [OF ok(1,2) assms(3)]) (rule that)
  define res' where "res' = (case res of Inl e \<Rightarrow> Inl e | Inr _ \<Rightarrow> called (hd_release h))"
  have A: "wo_apply o' p = Some (res', o1, p1)" by (simp add: wo_apply_def Some w(1) res'_def)
  have ap: "applied o' o1" using w(3) by (auto simp: applied_def)
  have D: "rects_pixels D \<subseteq> place_pts o'"
    using w(4) by (auto simp: reach_pts_def place_pts_def mon_pts_def)
  have same: "fb_width (ps_fb p1) = fb_width (ps_fb p)" "fb_height (ps_fb p1) = fb_height (ps_fb p)" using w(2) by (simp_all add: pass_step_def fb_same_def)
  show thesis
  proof (rule that [OF A w(2) ap D])
    fix T T' assume r: "res' = Inr ()" and sh: "shown o' (ps_fb p) T" and t: "told o' T T'"
    have res: "res = Inr ()" using r by (cases res) (auto simp: res'_def)
    show "shown o1 (ps_fb p1) T'"
    proof (cases "fi_present (hd_info h) = 0")
      case True
      then have "T' = T" "o1 = ?o" "ps_fb p1 = ps_fb p" using t Some w(5) [OF res] by (simp_all add: told_def)
      then show ?thesis using sh by (simp add: shown_def reach_pts_def)
    next
      case False
      note c = w(6) [OF res False]
      have "fb_px (ps_fb p1) (nat (x + fst (wo_off o'))) (nat (y + snd (wo_off o'))) = T' (x, y)" if xy: "(x, y) \<in> reach_pts o' (ps_fb p)" for x y
      proof -
        have "(x, y) \<in> mon_pts (wo_tex o')" using reach_place [OF xy] by simp
        then have "(wo_first o' \<or> 0 < fi_metadata (hd_info h) \<and> (x, y) \<in> touched h \<longrightarrow> frame_px (wo_tex o') h x y = T' (x, y))
            \<and> (\<not> (0 < fi_metadata (hd_info h) \<and> (x, y) \<in> touched h) \<longrightarrow> T' (x, y) = T (x, y))"
          using t Some False by (auto simp: told_def Let_def)
        moreover have "fb_px (ps_fb p1) (nat (x + fst (wo_off o'))) (nat (y + snd (wo_off o'))) =
            (if wo_first o' \<or> 0 < fi_metadata (hd_info h) \<and> (x, y) \<in> touched h then frame_px (wo_tex o') h x y
             else fb_px (ps_fb p) (nat (x + fst (wo_off o'))) (nat (y + snd (wo_off o'))))"
          using c xy ok(3) by auto
        ultimately show ?thesis using sh xy by (auto simp: shown_def)
      qed
      then show ?thesis using c same by (auto simp: shown_def reach_pts_def)
    qed
  qed
qed

text \<open>A pass over another monitor leaves one as it was.\<close>

lemma shown_apart:
  assumes "pass_step p D p1" "rects_pixels D \<inter> place_pts o' = {}" "shown o' (ps_fb p) T" "output_ok o'"
  shows "shown o' (ps_fb p1) T"
proof (cases "wo_first o'")
  case False
  have same: "fb_width (ps_fb p1) = fb_width (ps_fb p)" "fb_height (ps_fb p1) = fb_height (ps_fb p)" using assms(1) by (simp_all add: pass_step_def fb_same_def)
  have "fb_px (ps_fb p1) (nat (x + fst (wo_off o'))) (nat (y + snd (wo_off o'))) = T (x, y)" if xy: "(x, y) \<in> reach_pts o' (ps_fb p)" for x y
  proof -
    have b: "nat (x + fst (wo_off o')) < fb_width (ps_fb p)" "nat (y + snd (wo_off o')) < fb_height (ps_fb p)"
      "int (nat (x + fst (wo_off o'))) = x + fst (wo_off o')" "int (nat (y + snd (wo_off o'))) = y + snd (wo_off o')"
      using xy assms(4) by (auto simp: reach_pts_def output_ok_def)
    have "(x + fst (wo_off o'), y + snd (wo_off o')) \<notin> rects_pixels D" using reach_place [OF xy] assms(2) by blast
    then have "fb_px (ps_fb p1) (nat (x + fst (wo_off o'))) (nat (y + snd (wo_off o'))) = fb_px (ps_fb p) (nat (x + fst (wo_off o'))) (nat (y + snd (wo_off o')))"
      using assms(1) b unfolding pass_step_def by metis
    then show ?thesis using assms(3) False xy by (auto simp: shown_def)
  qed
  then show ?thesis using same by (auto simp: shown_def reach_pts_def)
qed (simp add: shown_def)

definition all_shown :: "win_output list \<Rightarrow> framebuffer \<Rightarrow> (nat \<Rightarrow> int \<times> int \<Rightarrow> bytes) \<Rightarrow> bool" where
  "all_shown os fb T \<longleftrightarrow> (\<forall>i<length os. shown (os ! i) fb (T i))"

definition all_told :: "win_output list \<Rightarrow> (nat \<Rightarrow> int \<times> int \<Rightarrow> bytes) \<Rightarrow> (nat \<Rightarrow> int \<times> int \<Rightarrow> bytes) \<Rightarrow> bool" where
  "all_told os T T' \<longleftrightarrow> (\<forall>i<length os. told (os ! i) (T i) (T' i))"

lemma all_Cons:
  "all_shown (o' # os) fb T \<longleftrightarrow> shown o' fb (T 0) \<and> all_shown os fb (\<lambda>i. T (Suc i))"
  "all_told (o' # os) T T' \<longleftrightarrow> told o' (T 0) (T' 0) \<and> all_told os (\<lambda>i. T (Suc i)) (\<lambda>i. T' (Suc i))"
  by (auto simp: all_shown_def all_told_def less_Suc_eq_0_disj)

lemma outputs_apply_ok:
  assumes "\<forall>o'\<in>set os. output_ok o' \<and> maps_ok o'" "fb_ok (ps_fb p)"
  shows "\<exists>res os' p' D. wk_outputs_apply os p = Some (res, os', p') \<and> pass_step p D p' \<and> rects_pixels D \<subseteq> (\<Union>o'\<in>set os. place_pts o')
    \<and> length os' = length os \<and> map place_pts os' = map place_pts os \<and> (\<forall>o'\<in>set os'. output_ok o' \<and> maps_ok o')
    \<and> (res = Inr () \<longrightarrow> (\<forall>o'\<in>set os'. wo_held o' = None)
        \<and> (apart os \<longrightarrow> (\<forall>T T'. all_shown os (ps_fb p) T \<longrightarrow> all_told os T T' \<longrightarrow> all_shown os' (ps_fb p') T')))"
  using assms
proof (induction os arbitrary: p)
  case Nil
  have "pass_step p [] p" using Nil.prems(2) by (intro pass_step_refl) (simp_all add: extends_def)
  then show ?case by (intro exI [of _ "Inr ()"] exI [of _ "[]"] exI [of _ p]) (simp add: all_shown_def)
next
  case (Cons o' os)
  have o: "output_ok o'" "maps_ok o'" "\<forall>o'\<in>set os. output_ok o' \<and> maps_ok o'" using Cons.prems(1) by simp_all
  obtain res o1 p1 D where a: "wo_apply o' p = Some (res, o1, p1)" "pass_step p D p1" "applied o' o1" "rects_pixels D \<subseteq> place_pts o'"
    "\<And>T T'. res = Inr () \<Longrightarrow> shown o' (ps_fb p) T \<Longrightarrow> told o' T T' \<Longrightarrow> shown o1 (ps_fb p1) T'"
    using output_apply_ok [OF o(1,2) Cons.prems(2)] by metis
  have o1: "output_ok o1" "maps_ok o1" "place_pts o1 = place_pts o'" "wo_held o1 = None"
    using a(3) applied_same [OF a(3)] o(1) by (simp_all add: applied_def maps_ok_def)
  show ?case
  proof (cases res)
    case (Inl e)
    then have "wk_outputs_apply (o' # os) p = Some (Inl e, o1 # os, p1)" by (simp add: a(1))
    then show ?thesis using a(2,4) o1 o(3) by (intro exI [of _ "Inl e"] exI [of _ "o1 # os"] exI [of _ p1] exI [of _ D]) auto
  next
    case (Inr v)
    then have ok: "res = Inr ()" by simp
    have fb1: "fb_ok (ps_fb p1)" using a(2) by (simp add: pass_step_def fb_same_def)
    obtain res2 os' p' E where i: "wk_outputs_apply os p1 = Some (res2, os', p')" "pass_step p1 E p'" "rects_pixels E \<subseteq> (\<Union>o'\<in>set os. place_pts o')"
      "length os' = length os" "map place_pts os' = map place_pts os" "\<forall>o'\<in>set os'. output_ok o' \<and> maps_ok o'"
      "res2 = Inr () \<Longrightarrow> \<forall>o'\<in>set os'. wo_held o' = None"
      "\<And>T T'. res2 = Inr () \<Longrightarrow> apart os \<Longrightarrow> all_shown os (ps_fb p1) T \<Longrightarrow> all_told os T T' \<Longrightarrow> all_shown os' (ps_fb p') T'"
      using Cons.IH [OF o(3) fb1] by metis
    have W: "wk_outputs_apply (o' # os) p = Some (res2, o1 # os', p')" by (simp add: a(1) Inr i(1))
    have S: "pass_step p (D @ E) p'" using a(2) i(2) by (rule pass_step_trans)
    have sh: "all_shown (o1 # os') (ps_fb p') T'"
      if r: "res2 = Inr ()" and ap: "apart (o' # os)" and s: "all_shown (o' # os) (ps_fb p) T" and t: "all_told (o' # os) T T'" for T T'
    proof -
      have ds: "\<forall>b\<in>set os. place_pts o' \<inter> place_pts b = {}" "apart os" using ap by (simp_all add: apart_def)
      have "shown o1 (ps_fb p1) (T' 0)" using a(5) [OF ok] s t by (auto simp: all_Cons)
      moreover have "rects_pixels E \<inter> place_pts o1 = {}" using i(3) ds(1) o1(3) by blast
      ultimately have 1: "shown o1 (ps_fb p') (T' 0)" using shown_apart [OF i(2)] o1(1) by blast
      have "all_shown os (ps_fb p1) (\<lambda>i. T (Suc i))"
        unfolding all_shown_def
      proof (intro allI impI)
        fix j assume j: "j < length os"
        then have m: "os ! j \<in> set os" by simp
        have "rects_pixels D \<inter> place_pts (os ! j) = {}" using a(4) ds(1) m by blast
        moreover have "shown (os ! j) (ps_fb p) (T (Suc j))" using s j unfolding all_Cons(1) by (simp add: all_shown_def)
        ultimately show "shown (os ! j) (ps_fb p1) (T (Suc j))" using shown_apart [OF a(2)] o(3) m by blast
      qed
      then have "all_shown os' (ps_fb p') (\<lambda>i. T' (Suc i))" using i(8) [OF r ds(2)] t by (auto simp: all_Cons)
      then show ?thesis using 1 by (simp add: all_Cons)
    qed
    have D: "rects_pixels (D @ E) \<subseteq> (\<Union>o'\<in>set (o' # os). place_pts o')" using a(4) i(3) by auto
    show ?thesis
      by (intro exI [of _ res2] exI [of _ "o1 # os'"] exI [of _ p'] exI [of _ "D @ E"] conjI impI allI)
        (use W S D i(4-7) o1 sh in auto)
  qed
qed

section \<open>A frame of the desktop\<close>

text \<open>Between frames: a picture of another size than the desktop's, or one the comparing pass has not seen, is to
  be reported whole.\<close>

definition win_ok :: "win_capture \<Rightarrow> framebuffer \<Rightarrow> nat \<times> nat \<Rightarrow> bool" where
  "win_ok s fb seen \<longleftrightarrow> fb_ok fb \<and> fst (wk_size s) < 65536 \<and> snd (wk_size s) < 65536 \<and> (\<forall>o'\<in>set (wk_outputs s). output_ok o')
    \<and> (wk_refresh s \<or> (fb_width fb, fb_height fb) = wk_size s \<and> seen = wk_size s)"

lemma fresh_outputs:
  "all_shown (map (\<lambda>o'. o'\<lparr>wo_first := True\<rparr>) os) fb T" "length (map (\<lambda>o'. o'\<lparr>wo_first := True\<rparr>) os) = length os"
  by (simp_all add: all_shown_def shown_def)

text \<open>What \<open>apply\<close> starts with.\<close>

definition wk_starts :: "framebuffer \<Rightarrow> win_capture \<Rightarrow> win_output list" where
  "wk_starts fb s = (if (fb_width fb, fb_height fb) \<noteq> wk_size s then map (\<lambda>o'. o'\<lparr>wo_first := True\<rparr>) (wk_outputs s) else wk_outputs s)"

lemma wk_apply_ok:
  assumes "win_ok s fb seen" "\<forall>o'\<in>set (wk_outputs s). maps_ok o'"
  obtains r fb' s' where "wk_apply fb s = Some (r, fb', s')" "fb_ok fb'" "(fb_width fb', fb_height fb') = wk_size s"
    "wk_size s' = wk_size s" "\<forall>o'\<in>set (wk_outputs s'). output_ok o' \<and> maps_ok o'" "map place_pts (wk_outputs s') = map place_pts (wk_outputs s)"
    "\<not> wk_refresh s'"
    "\<And>f. r = Inr f \<Longrightarrow> (fm_resized f \<longleftrightarrow> (fb_width fb, fb_height fb) \<noteq> wk_size s) \<and> region_wf (fm_damage f)
      \<and> (wk_refresh s \<or> (fb_width fb, fb_height fb) \<noteq> wk_size s \<longrightarrow> picture_pts fb' \<subseteq> rects_pixels (fm_damage f))
      \<and> ((fb_width fb, fb_height fb) = wk_size s \<longrightarrow> honest fb fb' (fm_damage f))
      \<and> (\<forall>o'\<in>set (wk_outputs s'). wo_held o' = None)"
    "\<And>f T T'. r = Inr f \<Longrightarrow> apart (wk_outputs s) \<Longrightarrow> all_shown (wk_outputs s) fb T \<Longrightarrow> all_told (wk_starts fb s) T T' \<Longrightarrow> all_shown (wk_outputs s') fb' T'"
proof -
  obtain w h where wh: "wk_size s = (w, h)" by (cases "wk_size s")
  have sm: "w < 65536" "h < 65536" "fb_ok fb" using assms(1) by (simp_all add: win_ok_def wh)
  define rsz where "rsz \<longleftrightarrow> fb_width fb \<noteq> w \<or> fb_height fb \<noteq> h"
  define fb1 where "fb1 = (if rsz then fb_resize w h fb else fb)"
  define outs where "outs = (if rsz then map (\<lambda>o'. o'\<lparr>wo_first := True\<rparr>) (wk_outputs s) else wk_outputs s)"
  define f0 where "f0 = \<lparr>fm_damage = (if rsz \<or> wk_refresh s then region_from_rect (fb_bounds fb1) else region_new), fm_moves = [], fm_cursor = None, fm_resized = rsz\<rparr>"
  define p0 where "p0 = \<lparr>ps_fb = fb1, ps_damage = [], ps_pointer = wk_pointer s, ps_frame = f0\<rparr>"
  have fb1: "fb_ok fb1" "fb_width fb1 = w" "fb_height fb1 = h"
    using sm by (auto simp: fb1_def rsz_def fb_resize_def fb_new_def fb_ok_def FB_BPP_def)
  have so: "output_ok (o'\<lparr>wo_first := True\<rparr>) = output_ok o'" "maps_ok (o'\<lparr>wo_first := True\<rparr>) = maps_ok o'" "place_pts (o'\<lparr>wo_first := True\<rparr>) = place_pts o'" for o'
    by (simp_all add: output_ok_def maps_ok_def place_pts_def)
  have outs: "\<forall>o'\<in>set outs. output_ok o' \<and> maps_ok o'" "map place_pts outs = map place_pts (wk_outputs s)"
    using assms by (auto simp: outs_def win_ok_def so)
  have apart_outs: "apart outs = apart (wk_outputs s)"
    by (simp add: apart_def outs_def sorted_wrt_map so)
  have "fb_ok (ps_fb p0)" using fb1(1) by (simp add: p0_def)
  from outputs_apply_ok [OF outs(1) this] obtain res os' p D where a: "wk_outputs_apply outs p0 = Some (res, os', p)" "pass_step p0 D p"
    "map place_pts os' = map place_pts outs" "\<forall>o'\<in>set os'. output_ok o' \<and> maps_ok o'" "res = Inr () \<Longrightarrow> \<forall>o'\<in>set os'. wo_held o' = None"
    "\<And>T T'. res = Inr () \<Longrightarrow> apart outs \<Longrightarrow> all_shown outs (ps_fb p0) T \<Longrightarrow> all_told outs T T' \<Longrightarrow> all_shown os' (ps_fb p) T'"
    by metis
  define f1 where "f1 = (if ps_damage p \<noteq> [] then (ps_frame p)\<lparr>fm_damage := region_union (fm_damage (ps_frame p)) (region_from_rects (ps_damage p))\<rparr> else ps_frame p)"
  define s' where "s' = s\<lparr>wk_outputs := os', wk_refresh := False, wk_pointer := ps_pointer p,
      wk_rebuild := (wk_rebuild s \<or> (case res of Inl (Lost _) \<Rightarrow> True | _ \<Rightarrow> False))\<rparr>"
  have A: "wk_apply fb s = Some ((case res of Inl e \<Rightarrow> Inl e | Inr _ \<Rightarrow> Inr f1), ps_fb p, s')"
    unfolding wk_apply_def wh Let_def prod.case rsz_def [symmetric] fb1_def [symmetric] outs_def [symmetric] f0_def [symmetric] p0_def [symmetric] a(1)
    by (cases res; cases "ps_damage p = []") (simp_all add: f1_def s'_def)
  have ok: "fb_ok (ps_fb p)" "fb_width (ps_fb p) = w" "fb_height (ps_fb p) = h" using a(2) fb1 by (simp_all add: pass_step_def fb_same_def p0_def)
  have pd: "ps_damage p = D" "extends f0 (ps_frame p)" using a(2) by (simp_all add: pass_step_def p0_def)
  have f0: "region_wf (fm_damage f0)" "rects_pixels (fm_damage f0) = (if rsz \<or> wk_refresh s then picture_pts fb1 else {})"
    by (simp_all add: f0_def picture_pts_def)
  have d: "region_wf (fm_damage f1) \<and> rects_pixels (fm_damage f1) = rects_pixels (fm_damage f0) \<union> rects_pixels D"
  proof -
    have "region_wf (region_from_rects D)" "rects_pixels (region_from_rects D) = rects_pixels D"
      using region.add_all [OF region.invar_empty, of D] by (simp_all add: region_from_rects_def region.pix_empty)
    then show ?thesis using pd f0(1) by (simp add: f1_def extends_def region_union_wf region_union_pixels)
  qed
  have pts: "picture_pts (ps_fb p) = picture_pts fb1" by (simp add: picture_pts_def fb_bounds_ok [OF ok(1)] fb_bounds_ok [OF fb1(1)] ok fb1)
  show thesis
  proof (rule that [OF A])
    show "(fb_width (ps_fb p), fb_height (ps_fb p)) = wk_size s" by (simp add: ok wh)
    show "wk_size s' = wk_size s" by (simp add: s'_def wk_size_def)
    show "\<forall>o'\<in>set (wk_outputs s'). output_ok o' \<and> maps_ok o'" using a(4) by (simp add: s'_def)
    show "map place_pts (wk_outputs s') = map place_pts (wk_outputs s)" using a(3) outs(2) by (simp add: s'_def)
    show "(fm_resized f \<longleftrightarrow> (fb_width fb, fb_height fb) \<noteq> wk_size s) \<and> region_wf (fm_damage f)
      \<and> (wk_refresh s \<or> (fb_width fb, fb_height fb) \<noteq> wk_size s \<longrightarrow> picture_pts (ps_fb p) \<subseteq> rects_pixels (fm_damage f))
      \<and> ((fb_width fb, fb_height fb) = wk_size s \<longrightarrow> honest fb (ps_fb p) (fm_damage f)) \<and> (\<forall>o'\<in>set (wk_outputs s'). wo_held o' = None)"
      if r: "(case res of Inl e \<Rightarrow> Inl e | Inr _ \<Rightarrow> Inr f1) = Inr f" for f
    proof -
      have f: "f = f1" "res = Inr ()" using r by (cases res; simp)+
      have "fm_resized f1 = rsz" using pd(2) by (simp add: f1_def extends_def f0_def)
      moreover have "honest fb (ps_fb p) (fm_damage f1)" if "(fb_width fb, fb_height fb) = (w, h)"
      proof -
        have e: "fb1 = fb" "fb_width fb = w" "fb_height fb = h" using that by (simp_all add: fb1_def rsz_def)
        have "fb_px (ps_fb p) (nat x) (nat y) = fb_px fb (nat x) (nat y)"
          if "0 \<le> x" "x < int w" "0 \<le> y" "y < int h" "(x, y) \<notin> rects_pixels D" for x y
          using a(2) that unfolding pass_step_def by (simp add: p0_def e)
        then show ?thesis using d by (auto simp: honest_def px_of_def in_picture_pts [OF ok(1)] ok)
      qed
      ultimately show ?thesis using d f0(2) pts a(5) f by (auto simp: wh rsz_def s'_def)
    qed
    show "all_shown (wk_outputs s') (ps_fb p) T'"
      if r: "(case res of Inl e \<Rightarrow> Inl e | Inr _ \<Rightarrow> Inr f1) = Inr f" and ap: "apart (wk_outputs s)" and sh: "all_shown (wk_outputs s) fb T"
        and t: "all_told (wk_starts fb s) T T'" for f T T'
    proof -
      have ok: "res = Inr ()" using r by (cases res) simp_all
      have st: "wk_starts fb s = outs" by (simp add: wk_starts_def outs_def rsz_def wh)
      have "all_shown outs (ps_fb p0) T"
        using sh fresh_outputs(1) by (auto simp: outs_def p0_def fb1_def rsz_def)
      then show ?thesis using a(6) [OF ok] ap apart_outs t st by (simp add: s'_def)
    qed
  qed (use ok in \<open>auto simp: s'_def\<close>)
qed

end
