(* ===== verification/Windows_Turns.thy ===== *)
theory Windows_Turns
  imports Windows_Capture_Laws
begin

text \<open>
  Turns of the capture thread over the Windows backend: where its monitors lie, what its frames keep true of
  the sessions and of the picture, and what a failure loses.
\<close>

section \<open>Where the monitors lie\<close>

text \<open>Monitors a desktop can have.\<close>

definition monitor_ok :: "win_monitor \<Rightarrow> bool" where
  "monitor_ok m \<longleftrightarrow> (\<forall>there l t r b. mn_desc m = Inr (there, l, t, r, b) \<longrightarrow>
      - 32768 \<le> l \<and> l < r \<and> r \<le> 32767 \<and> - 32768 \<le> t \<and> t < b \<and> b \<le> 32767)
    \<and> (\<forall>w h. mn_dup m = Inr (w, h) \<longrightarrow> w < 65536 \<and> h < 65536)"

definition found_ok :: "hresult + win_adapter list \<Rightarrow> bool" where
  "found_ok found \<longleftrightarrow> (\<forall>as. found = Inr as \<longrightarrow> (\<forall>a\<in>set as. \<forall>m\<in>set (ad_monitors a). monitor_ok m))"

definition in_bounds :: "rect \<Rightarrow> win_rect \<Rightarrow> bool" where
  "in_bounds q = (\<lambda>(l, t, r, b). rx1 q \<le> l \<and> l < r \<and> r \<le> rx2 q \<and> ry1 q \<le> t \<and> t < b \<and> b \<le> ry2 q)"

text \<open>The union so far is the smallest rectangle around the monitors.\<close>

definition union_of :: "win_output list \<Rightarrow> rect \<Rightarrow> bool" where
  "union_of os q \<longleftrightarrow> (\<forall>o'\<in>set os. fst (wo_tex o') < 65536 \<and> snd (wo_tex o') < 65536 \<and> in_bounds q (wo_desktop o') \<and> wo_first o' \<and> wo_held o' = None)
    \<and> (if os = [] then q = rect_EMPTY
       else - 32768 \<le> rx1 q \<and> rx1 q < rx2 q \<and> rx2 q \<le> 32767 \<and> - 32768 \<le> ry1 q \<and> ry1 q < ry2 q \<and> ry2 q \<le> 32767
         \<and> (\<exists>o'\<in>set os. fst (wo_desktop o') = rx1 q) \<and> (\<exists>o'\<in>set os. fst (snd (wo_desktop o')) = ry1 q)
         \<and> (\<exists>o'\<in>set os. fst (snd (snd (wo_desktop o'))) = rx2 q) \<and> (\<exists>o'\<in>set os. snd (snd (snd (wo_desktop o'))) = ry2 q))"

lemma union_add:
  assumes "union_of os q" "- 32768 \<le> l" "l < r" "r \<le> 32767" "- 32768 \<le> t" "t < b" "b \<le> 32767"
    "fst (wo_tex o') < 65536" "snd (wo_tex o') < 65536" "wo_desktop o' = (l, t, r, b)" "wo_first o'" "wo_held o' = None"
  shows "union_of (os @ [o']) (rect_union_bounds q (win_from_rect (l, t, r, b)))"
proof (cases "os = []")
  case True
  then have "rect_union_bounds q (win_from_rect (l, t, r, b)) = mk_rect l t r b"
    using assms by (simp add: union_of_def rect_union_bounds_def rect_EMPTY_def rect_is_empty_def win_from_rect_def rect_from_corners_def rect_normalised_def)
  then show ?thesis using assms True by (auto simp: union_of_def in_bounds_def)
next
  case False
  then have q: "- 32768 \<le> rx1 q" "rx1 q < rx2 q" "rx2 q \<le> 32767" "- 32768 \<le> ry1 q" "ry1 q < ry2 q" "ry2 q \<le> 32767"
    "\<exists>o'\<in>set os. fst (wo_desktop o') = rx1 q" "\<exists>o'\<in>set os. fst (snd (wo_desktop o')) = ry1 q"
    "\<exists>o'\<in>set os. fst (snd (snd (wo_desktop o'))) = rx2 q" "\<exists>o'\<in>set os. snd (snd (snd (wo_desktop o'))) = ry2 q"
    "\<forall>o'\<in>set os. fst (wo_tex o') < 65536 \<and> snd (wo_tex o') < 65536 \<and> in_bounds q (wo_desktop o') \<and> wo_first o' \<and> wo_held o' = None"
    using assms(1) by (simp_all add: union_of_def)
  let ?u = "mk_rect (min (rx1 q) l) (min (ry1 q) t) (max (rx2 q) r) (max (ry2 q) b)"
  have u: "rect_union_bounds q (win_from_rect (l, t, r, b)) = ?u"
    using assms q by (simp add: rect_union_bounds_def rect_is_empty_def win_from_rect_def rect_from_corners_def)
  have grow: "in_bounds ?u d" if "in_bounds q d" for d using that by (cases d) (auto simp: in_bounds_def)
  have edge: "\<exists>p\<in>set (os @ [o']). f (wo_desktop p) = m"
    if "\<exists>p\<in>set os. f (wo_desktop p) = c" "m = c \<or> m = f (l, t, r, b)" for f :: "win_rect \<Rightarrow> int" and m c
    using that assms(10) by auto
  have "\<exists>p\<in>set (os @ [o']). fst (wo_desktop p) = rx1 ?u" by (rule edge [OF q(7)]) (simp add: min_def)
  moreover have "\<exists>p\<in>set (os @ [o']). fst (snd (wo_desktop p)) = ry1 ?u" by (rule edge [OF q(8)]) (simp add: min_def)
  moreover have "\<exists>p\<in>set (os @ [o']). fst (snd (snd (wo_desktop p))) = rx2 ?u" by (rule edge [OF q(9)]) (simp add: max_def)
  moreover have "\<exists>p\<in>set (os @ [o']). snd (snd (snd (wo_desktop p))) = ry2 ?u" by (rule edge [OF q(10)]) (simp add: max_def)
  moreover have "\<forall>p\<in>set (os @ [o']). fst (wo_tex p) < 65536 \<and> snd (wo_tex p) < 65536 \<and> in_bounds ?u (wo_desktop p) \<and> wo_first p \<and> wo_held p = None"
    using q(11) grow assms by (auto simp: in_bounds_def)
  moreover have "min (rx1 q) l < max (rx2 q) r" "min (ry1 q) t < max (ry2 q) b" using assms(3,6) by (auto simp: min_def max_def)
  ultimately show ?thesis using assms(2-7) q(1-6) by (simp add: union_of_def u)
qed

lemma build_monitors_union:
  assumes "build_monitors a ms (os, q) = Inr (os', q')" "union_of os q" "\<forall>m\<in>set ms. monitor_ok m"
  shows "union_of os' q'"
  using assms
proof (induction ms arbitrary: os q)
  case (Cons m ms)
  obtain there l t r b where d: "mn_desc m = Inr (there, l, t, r, b)"
    using Cons.prems(1) by (cases "mn_desc m") (auto simp: called_def)
  show ?case
  proof (cases there)
    case False
    then show ?thesis using Cons d by (simp add: called_def)
  next
    case True
    have cr: "create_device a = Inr ()" using Cons.prems(1) d True by (cases "create_device a") (auto simp: called_def)
    have o1: "mn_output1 m = Inr ()" using Cons.prems(1) d True cr by (cases "mn_output1 m") (auto simp: called_def)
    obtain w h where dup: "mn_dup m = Inr (w, h)" using Cons.prems(1) d True cr o1 by (cases "mn_dup m") (auto simp: called_def)
    have st: "staging_texture m = Inr ()" using Cons.prems(1) d True cr o1 dup by (cases "staging_texture m") (auto simp: called_def)
    have m: "- 32768 \<le> l" "l < r" "r \<le> 32767" "- 32768 \<le> t" "t < b" "b \<le> 32767" "w < 65536" "h < 65536"
      using Cons.prems(3) d dup by (auto simp: monitor_ok_def)
    let ?o = "\<lparr>wo_tex = (w, h), wo_off = (0, 0), wo_rect = rect_EMPTY, wo_desktop = (l, t, r, b), wo_held = None, wo_first = True\<rparr>"
    have "build_monitors a ms (os @ [?o], rect_union_bounds q (win_from_rect (l, t, r, b))) = Inr (os', q')"
      using Cons.prems(1) d True cr o1 dup st by (simp add: called_def)
    then show ?thesis
      by (rule Cons.IH) (use union_add [OF Cons.prems(2) m(1-6), of ?o] m(7,8) Cons.prems(3) in simp_all)
  qed
qed simp

lemma build_adapters_union:
  assumes "build_adapters as (os, q) = Inr (os', q')" "union_of os q" "\<forall>a\<in>set as. \<forall>m\<in>set (ad_monitors a). monitor_ok m"
  shows "union_of os' q'"
  using assms
proof (induction as arbitrary: os q)
  case (Cons a as)
  obtain os1 q1 where b: "build_monitors a (ad_monitors a) (os, q) = Inr (os1, q1)"
    using Cons.prems(1) by (cases "build_monitors a (ad_monitors a) (os, q)") auto
  then have "union_of os1 q1" using build_monitors_union [OF b Cons.prems(2)] Cons.prems(3) by simp
  then show ?case using Cons.IH [of os1 q1] Cons.prems b by simp
qed simp

lemma build_result:
  assumes "wk_build found s = (r, s')" "found_ok found"
  obtains e where "r = Inl e" "s' = s\<lparr>wk_outputs := []\<rparr>"
  | os q where "r = Inr ()" "s' = s\<lparr>wk_outputs := map (place_output q) os, wk_bounds := q, wk_refresh := True\<rparr>" "os \<noteq> []" "union_of os q"
proof (cases found)
  case (Inl e)
  then show thesis using assms(1) that(1) by (auto simp: wk_build_def Let_def)
next
  case (Inr as)
  show thesis
  proof (cases "build_adapters as ([], rect_EMPTY)")
    case (Inl e)
    then show thesis using assms(1) that(1) by (auto simp: wk_build_def Let_def \<open>found = Inr as\<close>)
  next
    case i: (Inr oq)
    obtain os q where oq: "oq = (os, q)" by (cases oq)
    have "union_of [] rect_EMPTY" by (simp add: union_of_def)
    then have u: "union_of os q" using build_adapters_union [OF i [unfolded oq]] assms(2) Inr by (simp add: found_ok_def)
    show thesis
    proof (cases "os = []")
      case True
      then show thesis using assms(1) that(1) i by (auto simp: wk_build_def Let_def Inr oq)
    next
      case False
      then show thesis using assms(1) that(2) i u by (auto simp: wk_build_def Let_def Inr oq)
    qed
  qed
qed

lemma placed_parts:
  assumes "union_of os q" "o' \<in> set os"
  shows "wo_off (place_output q o') = (rx1 (wo_rect (place_output q o')), ry1 (wo_rect (place_output q o')))"
    "wo_desktop o' = (rx1 (wo_rect (place_output q o')) + rx1 q, ry1 (wo_rect (place_output q o')) + ry1 q,
       rx2 (wo_rect (place_output q o')) + rx1 q, ry2 (wo_rect (place_output q o')) + ry1 q)"
    "0 \<le> rx1 (wo_rect (place_output q o'))" "rx1 (wo_rect (place_output q o')) < rx2 (wo_rect (place_output q o'))"
    "rx2 (wo_rect (place_output q o')) \<le> rx2 q - rx1 q"
    "0 \<le> ry1 (wo_rect (place_output q o'))" "ry1 (wo_rect (place_output q o')) < ry2 (wo_rect (place_output q o'))"
    "ry2 (wo_rect (place_output q o')) \<le> ry2 q - ry1 q"
    "output_ok (place_output q o')"
proof -
  obtain l t r b where d: "wo_desktop o' = (l, t, r, b)" by (cases "wo_desktop o'") auto
  have ne: "os \<noteq> []" using assms(2) by auto
  have q: "- 32768 \<le> rx1 q" "rx1 q < rx2 q" "rx2 q \<le> 32767" "- 32768 \<le> ry1 q" "ry1 q < ry2 q" "ry2 q \<le> 32767"
    using assms(1) ne by (simp_all add: union_of_def)
  have o: "rx1 q \<le> l" "l < r" "r \<le> rx2 q" "ry1 q \<le> t" "t < b" "b \<le> ry2 q" "fst (wo_tex o') < 65536" "snd (wo_tex o') < 65536"
    using assms by (auto simp: union_of_def in_bounds_def d)
  have p: "place_output q o' = o'\<lparr>wo_off := (l - rx1 q, t - ry1 q), wo_rect := mk_rect (l - rx1 q) (t - ry1 q) (r - rx1 q) (b - ry1 q)\<rparr>"
    using q o by (simp add: place_output_def d win_from_rect_def rect_from_corners_def rect_translate_def i32_small)
  show "wo_off (place_output q o') = (rx1 (wo_rect (place_output q o')), ry1 (wo_rect (place_output q o')))"
    "wo_desktop o' = (rx1 (wo_rect (place_output q o')) + rx1 q, ry1 (wo_rect (place_output q o')) + ry1 q,
       rx2 (wo_rect (place_output q o')) + rx1 q, ry2 (wo_rect (place_output q o')) + ry1 q)"
    "0 \<le> rx1 (wo_rect (place_output q o'))" "rx1 (wo_rect (place_output q o')) < rx2 (wo_rect (place_output q o'))"
    "rx2 (wo_rect (place_output q o')) \<le> rx2 q - rx1 q"
    "0 \<le> ry1 (wo_rect (place_output q o'))" "ry1 (wo_rect (place_output q o')) < ry2 (wo_rect (place_output q o'))"
    "ry2 (wo_rect (place_output q o')) \<le> ry2 q - ry1 q"
    "output_ok (place_output q o')"
    unfolding p using q o by (simp_all add: d output_ok_def)
qed

lemma union_size:
  assumes "union_of os q" "os \<noteq> []"
  shows "u32_of (rect_width q) = nat (rx2 q - rx1 q)" "u32_of (rect_height q) = nat (ry2 q - ry1 q)"
    "u32_of (rect_width q) < 65536" "u32_of (rect_height q) < 65536"
proof -
  have q: "- 32768 \<le> rx1 q" "rx1 q < rx2 q" "rx2 q \<le> 32767" "- 32768 \<le> ry1 q" "ry1 q < ry2 q" "ry2 q \<le> 32767"
    using assms by (simp_all add: union_of_def)
  then show s: "u32_of (rect_width q) = nat (rx2 q - rx1 q)" "u32_of (rect_height q) = nat (ry2 q - ry1 q)"
    by (simp_all add: rect_width_def rect_height_def i32_small)
  show "u32_of (rect_width q) < 65536" "u32_of (rect_height q) < 65536" unfolding s using q by linarith+
qed

section \<open>Waiting\<close>

lemma acquire_keeps:
  assumes "win_ok s fb seen" "wk_acquire i answer s = (r, s')"
  shows "win_ok s' fb seen"
proof -
  have "\<forall>o'\<in>set ((wk_outputs s)[i := (wk_outputs s ! i)\<lparr>wo_held := Some h\<rparr>]). output_ok o'" for h
  proof
    fix o' assume "o' \<in> set ((wk_outputs s)[i := (wk_outputs s ! i)\<lparr>wo_held := Some h\<rparr>])"
    then obtain j where j: "j < length (wk_outputs s)" "o' = (wk_outputs s)[i := (wk_outputs s ! i)\<lparr>wo_held := Some h\<rparr>] ! j" by (auto simp: in_set_conv_nth)
    then show "output_ok o'" using assms(1) by (cases "i = j") (auto simp: win_ok_def output_ok_def)
  qed
  then show ?thesis using assms by (auto simp: wk_acquire_def win_ok_def wk_size_def split: sum.splits option.splits if_splits)
qed

lemma round_keeps:
  "win_ok s fb seen \<Longrightarrow> wk_round polls i ready s = (r, s') \<Longrightarrow> win_ok s' fb seen"
proof (induction polls i ready s rule: wk_round.induct)
  case (2 expired answer rest i ready s)
  show ?case
  proof (cases "expired \<and> \<not> ready")
    case False
    obtain q s1 where a: "wk_acquire i answer s = (q, s1)" by (cases "wk_acquire i answer s")
    note k = acquire_keeps [OF 2(2) a]
    show ?thesis
    proof (cases q)
      case (Inl e)
      then show ?thesis using 2(3) a False k by auto
    next
      case (Inr got)
      then show ?thesis using 2 a False k by auto
    qed
  qed (use 2 in auto)
qed simp

lemma rounds_keep:
  "win_ok s fb seen \<Longrightarrow> wk_rounds rs s = (r, s') \<Longrightarrow> win_ok s' fb seen"
proof (induction rs s rule: wk_rounds.induct)
  case (2 polls late rest s)
  obtain q s1 where a: "wk_round (take (length (wk_outputs s)) polls) 0 False s = (q, s1)" by (cases "wk_round (take (length (wk_outputs s)) polls) 0 False s")
  note k = round_keeps [OF 2(2) a]
  show ?case
  proof (cases q)
    case (Inl e)
    then show ?thesis using 2(3) a k by auto
  next
    case (Inr got)
    then show ?thesis using 2 a k by (cases got) (auto split: if_splits)
  qed
qed simp

lemma build_keeps:
  assumes "win_ok s fb seen" "found_ok found" "wk_build found s = (r, s')"
  shows "win_ok s' fb seen"
proof (rule build_result [OF assms(3,2)])
  fix e assume "r = Inl e" "s' = s\<lparr>wk_outputs := []\<rparr>"
  then show ?thesis using assms(1) by (simp add: win_ok_def wk_size_def)
next
  fix os q assume "r = Inr ()" and sb: "s' = s\<lparr>wk_outputs := map (place_output q) os, wk_bounds := q, wk_refresh := True\<rparr>"
    and os: "os \<noteq> []" and u: "union_of os q"
  have "\<forall>o'\<in>set (map (place_output q) os). output_ok o'" using placed_parts(9) [OF u] by simp
  then show ?thesis using assms(1) union_size(3,4) [OF u os] by (simp add: win_ok_def wk_size_def sb)
qed

definition wk_rebuilt :: "win_says \<Rightarrow> win_capture \<Rightarrow> (capture_error + unit) \<times> win_capture" where
  "wk_rebuilt a s = (if wk_rebuild s then (case wk_build (wy_found a) s of (Inr _, s') \<Rightarrow> (Inr (), s'\<lparr>wk_rebuild := False\<rparr>) | (Inl e, s') \<Rightarrow> (Inl e, s'))
      else (Inr (), s))"

lemma rebuilt_keeps:
  assumes "win_ok s fb seen" "found_ok (wy_found a)" "wk_rebuilt a s = (r, s')"
  shows "win_ok s' fb seen"
proof (cases "wk_rebuild s")
  case True
  obtain rb sb where bb: "wk_build (wy_found a) s = (rb, sb)" by (cases "wk_build (wy_found a) s")
  have k: "win_ok sb fb seen" by (rule build_keeps [OF assms(1,2) bb])
  have "s' = sb \<or> s' = sb\<lparr>wk_rebuild := False\<rparr>" using assms(3) True bb by (cases rb) (auto simp: wk_rebuilt_def)
  then show ?thesis using k by (auto simp: win_ok_def wk_size_def)
qed (use assms in \<open>simp add: wk_rebuilt_def\<close>)

lemma wait_keeps:
  assumes "win_ok s fb seen" "found_ok (wy_found a)" "wk_wait a s = (r, s')"
  shows "win_ok s' fb seen"
proof -
  obtain r1 s1 where b: "wk_rebuilt a s = (r1, s1)" by (cases "wk_rebuilt a s")
  note k = rebuilt_keeps [OF assms(1,2) b]
  show ?thesis
  proof (cases r1)
    case (Inl e)
    then show ?thesis using assms(3) k by (simp add: wk_wait_def wk_rebuilt_def [symmetric] b)
  next
    case (Inr v)
    then have w: "(if wk_outputs s1 = [] then (Inr False, s1)
       else if list_ex (\<lambda>o'. wo_held o' \<noteq> None) (wk_outputs s1) then (Inr True, s1)
       else if length (wk_outputs s1) = 1 then wk_acquire 0 (wy_first a) s1 else wk_rounds (wy_rounds a) s1) = (r, s')"
      using assms(3) by (simp add: wk_wait_def wk_rebuilt_def [symmetric] b)
    then consider "s' = s1" | "wk_acquire 0 (wy_first a) s1 = (r, s')" | "wk_rounds (wy_rounds a) s1 = (r, s')"
      by (simp split: if_splits)
    then show ?thesis using k acquire_keeps [OF k] rounds_keep [OF k] by cases auto
  qed
qed

section \<open>The properties\<close>

text \<open>C6. From Windows to the sessions: with a frame that reports no move, a turn of the capture thread over the
  Windows backend does not panic, keeps the state of the backend and of the comparing pass, and leaves every
  session that was right about the picture right about the new one.\<close>

theorem windows_turn_reaches_sessions:
  assumes "thread_ok h (t, sh)" "win_ok (ct_backend t) (sh_fb sh) (tg_size (ct_tightener t))" "found_ok (wy_found a)"
    "wk_wait a (ct_backend t) = (Inr True, be)" "\<forall>o'\<in>set (wk_outputs be). maps_ok o'"
    "wk_apply (sh_fb sh) be = Some (Inr f, new, be')" "fm_moves f = []" "tells_apart h (fb_cells (sh_fb sh) \<union> fb_cells new)"
    "\<And>vs. set (ord vs) = set vs" "view sh s cl (px_of (sh_fb sh))"
  shows "\<exists>t' sh' ev. capture_turn h ord (win_backend a) copied us logged now (t, sh) = Some ((t', sh'), ev)
    \<and> thread_ok h (t', sh') \<and> win_ok (ct_backend t') (sh_fb sh') (tg_size (ct_tightener t'))
    \<and> view sh' (case ev of Some e \<Rightarrow> absorb e sh' s | None \<Rightarrow> s) cl (px_of (sh_fb sh'))"
proof -
  have w: "win_ok be (sh_fb sh) (tg_size (ct_tightener t))" by (rule wait_keeps [OF assms(2,3,4)])
  obtain r fb' s' where ap: "wk_apply (sh_fb sh) be = Some (r, fb', s')" "fb_ok fb'" "(fb_width fb', fb_height fb') = wk_size be" "wk_size s' = wk_size be"
    "\<forall>o'\<in>set (wk_outputs s'). output_ok o' \<and> maps_ok o'"
    "\<And>f. r = Inr f \<Longrightarrow> (fm_resized f \<longleftrightarrow> (fb_width (sh_fb sh), fb_height (sh_fb sh)) \<noteq> wk_size be) \<and> region_wf (fm_damage f)
      \<and> (wk_refresh be \<or> (fb_width (sh_fb sh), fb_height (sh_fb sh)) \<noteq> wk_size be \<longrightarrow> picture_pts fb' \<subseteq> rects_pixels (fm_damage f))
      \<and> ((fb_width (sh_fb sh), fb_height (sh_fb sh)) = wk_size be \<longrightarrow> honest (sh_fb sh) fb' (fm_damage f))
      \<and> (\<forall>o'\<in>set (wk_outputs s'). wo_held o' = None)"
    by (rule wk_apply_ok [OF w assms(5)]) (rule that)
  have e: "r = Inr f" "fb' = new" "s' = be'" using ap(1) assms(6) by simp_all
  note fr = ap(6) [OF e(1), unfolded e(2)]
  have sz: "(fb_width new, fb_height new) = wk_size be" using ap(3) e(2) by simp
  have nw: "fb_ok new" using ap(2) e(2) by simp
  have "frame_true (ct_tightener t) (sh_fb sh) new f"
  proof (cases "wk_refresh be \<or> (fb_width (sh_fb sh), fb_height (sh_fb sh)) \<noteq> wk_size be")
    case True
    then have p: "picture_pts new \<subseteq> rects_pixels (fm_damage f)" using fr by blast
    then have "honest (sh_fb sh) new (fm_damage f)" by (auto simp: honest_def)
    then show ?thesis using nw sz p fr assms(7) by (auto simp: frame_true_def)
  next
    case False
    then have "tg_size (ct_tightener t) = wk_size be" using w by (simp add: win_ok_def)
    then show ?thesis using nw sz fr assms(7) False by (auto simp: frame_true_def)
  qed
  moreover have "bk_wait (win_backend a) (ct_backend t) = (Inr True, be)" "bk_apply (win_backend a) (sh_fb sh) be = (Inr f, new, be')"
    using assms(4,6) by (simp_all add: win_backend_def)
  ultimately obtain t' sh' ev where T: "capture_turn h ord (win_backend a) copied us logged now (t, sh) = Some ((t', sh'), ev)" "sh_fb sh' = new"
    "knows h (ct_tightener t') new" "ct_backend t' = be'" "thread_ok h (t', sh')" "view sh' (case ev of Some e \<Rightarrow> absorb e sh' s | None \<Rightarrow> s) cl (px_of new)"
    using turn_reaches [OF assms(1) _ _ _ assms(8-10), where copied = copied and us = us and logged = logged and now = now] by blast
  have "win_ok be' new (tg_size (ct_tightener t'))"
    using w ap(2,4,5) e sz knows_size [OF T(3)] by (simp add: win_ok_def)
  then show ?thesis using T by auto
qed

text \<open>C5. The picture is the desktop: applying what the monitors hold never panics, whatever DXGI reports, and
  where it does not fail the picture shows every monitor, in its place, as its frame left it, a new size is
  announced, and nothing has changed outside the damage.\<close>

theorem windows_picture_kept:
  assumes "win_ok s fb seen" "\<forall>o'\<in>set (wk_outputs s). maps_ok o'" "apart (wk_outputs s)" "all_shown (wk_outputs s) fb T"
    "all_told (wk_starts fb s) T T'"
  shows "\<exists>r fb' s'. wk_apply fb s = Some (r, fb', s') \<and> (fb_width fb', fb_height fb') = wk_size s
    \<and> (\<forall>f. r = Inr f \<longrightarrow> all_shown (wk_outputs s') fb' T' \<and> (\<forall>o'\<in>set (wk_outputs s'). wo_held o' = None)
        \<and> (if (fb_width fb, fb_height fb) = wk_size s then honest fb fb' (fm_damage f) else fm_resized f \<and> picture_pts fb' \<subseteq> rects_pixels (fm_damage f)))"
proof -
  obtain r fb' s' where "wk_apply fb s = Some (r, fb', s')" "(fb_width fb', fb_height fb') = wk_size s"
    "\<And>f. r = Inr f \<Longrightarrow> (fm_resized f \<longleftrightarrow> (fb_width fb, fb_height fb) \<noteq> wk_size s) \<and> region_wf (fm_damage f)
      \<and> (wk_refresh s \<or> (fb_width fb, fb_height fb) \<noteq> wk_size s \<longrightarrow> picture_pts fb' \<subseteq> rects_pixels (fm_damage f))
      \<and> ((fb_width fb, fb_height fb) = wk_size s \<longrightarrow> honest fb fb' (fm_damage f)) \<and> (\<forall>o'\<in>set (wk_outputs s'). wo_held o' = None)"
    "\<And>f T T'. r = Inr f \<Longrightarrow> apart (wk_outputs s) \<Longrightarrow> all_shown (wk_outputs s) fb T \<Longrightarrow> all_told (wk_starts fb s) T T' \<Longrightarrow> all_shown (wk_outputs s') fb' T'"
    by (rule wk_apply_ok [OF assms(1,2)]) (rule that)
  then show ?thesis using assms(3-5) by (intro exI [of _ r] exI [of _ fb'] exI [of _ s']) auto
qed

lemma screens_placed:
  assumes "win_capture_new found = Inr s" "found_ok found"
  shows "\<forall>o'\<in>set (wk_outputs s). wo_rect o' \<in> set (wk_screens s) \<and> (rx1 (wo_rect o'), ry1 (wo_rect o')) = wo_off o'
      \<and> 0 \<le> rx1 (wo_rect o') \<and> rx1 (wo_rect o') < rx2 (wo_rect o') \<and> rx2 (wo_rect o') \<le> int (fst (wk_size s))
      \<and> 0 \<le> ry1 (wo_rect o') \<and> ry1 (wo_rect o') < ry2 (wo_rect o') \<and> ry2 (wo_rect o') \<le> int (snd (wk_size s))
      \<and> wo_desktop o' = (rx1 (wo_rect o') + fst (wk_origin s), ry1 (wo_rect o') + snd (wk_origin s),
          rx2 (wo_rect o') + fst (wk_origin s), ry2 (wo_rect o') + snd (wk_origin s))"
    "\<exists>o'\<in>set (wk_outputs s). rx1 (wo_rect o') = 0" "\<exists>o'\<in>set (wk_outputs s). ry1 (wo_rect o') = 0"
    "\<exists>o'\<in>set (wk_outputs s). rx2 (wo_rect o') = int (fst (wk_size s))" "\<exists>o'\<in>set (wk_outputs s). ry2 (wo_rect o') = int (snd (wk_size s))"
proof -
  let ?s0 = "\<lparr>wk_outputs = [], wk_bounds = rect_EMPTY, wk_rebuild = False, wk_refresh = True, wk_pointer = win_pointer_new\<rparr>"
  have b: "wk_build found ?s0 = (Inr (), s)"
    using assms(1) by (cases "wk_build found ?s0") (auto simp: win_capture_new_def split: sum.splits)
  obtain os q where s: "s = ?s0\<lparr>wk_outputs := map (place_output q) os, wk_bounds := q, wk_refresh := True\<rparr>" and os: "os \<noteq> []" and u: "union_of os q"
    by (rule build_result [OF b assms(2)]) auto
  have q: "rx1 q < rx2 q" "ry1 q < ry2 q" "\<exists>o'\<in>set os. fst (wo_desktop o') = rx1 q" "\<exists>o'\<in>set os. fst (snd (wo_desktop o')) = ry1 q"
    "\<exists>o'\<in>set os. fst (snd (snd (wo_desktop o'))) = rx2 q" "\<exists>o'\<in>set os. snd (snd (snd (wo_desktop o'))) = ry2 q"
    using u os by (simp_all add: union_of_def)
  have sz: "int (fst (wk_size s)) = rx2 q - rx1 q" "int (snd (wk_size s)) = ry2 q - ry1 q"
    using union_size(1,2) [OF u os] q(1,2) by (simp_all add: wk_size_def s)
  have or: "wk_origin s = (rx1 q, ry1 q)" by (simp add: wk_origin_def s)
  have outs: "wk_outputs s = map (place_output q) os" "wk_screens s = map wo_rect (wk_outputs s)" using os by (simp_all add: s wk_screens_def)
  note p = placed_parts [OF u]
  show "\<forall>o'\<in>set (wk_outputs s). wo_rect o' \<in> set (wk_screens s) \<and> (rx1 (wo_rect o'), ry1 (wo_rect o')) = wo_off o'
      \<and> 0 \<le> rx1 (wo_rect o') \<and> rx1 (wo_rect o') < rx2 (wo_rect o') \<and> rx2 (wo_rect o') \<le> int (fst (wk_size s))
      \<and> 0 \<le> ry1 (wo_rect o') \<and> ry1 (wo_rect o') < ry2 (wo_rect o') \<and> ry2 (wo_rect o') \<le> int (snd (wk_size s))
      \<and> wo_desktop o' = (rx1 (wo_rect o') + fst (wk_origin s), ry1 (wo_rect o') + snd (wk_origin s),
          rx2 (wo_rect o') + fst (wk_origin s), ry2 (wo_rect o') + snd (wk_origin s))"
  proof
    fix o' assume "o' \<in> set (wk_outputs s)"
    then obtain o1 where o1: "o1 \<in> set os" "o' = place_output q o1" by (auto simp: outs)
    have d: "wo_desktop o' = wo_desktop o1" by (simp add: o1 place_output_def split: prod.split)
    show "wo_rect o' \<in> set (wk_screens s) \<and> (rx1 (wo_rect o'), ry1 (wo_rect o')) = wo_off o'
      \<and> 0 \<le> rx1 (wo_rect o') \<and> rx1 (wo_rect o') < rx2 (wo_rect o') \<and> rx2 (wo_rect o') \<le> int (fst (wk_size s))
      \<and> 0 \<le> ry1 (wo_rect o') \<and> ry1 (wo_rect o') < ry2 (wo_rect o') \<and> ry2 (wo_rect o') \<le> int (snd (wk_size s))
      \<and> wo_desktop o' = (rx1 (wo_rect o') + fst (wk_origin s), ry1 (wo_rect o') + snd (wk_origin s),
          rx2 (wo_rect o') + fst (wk_origin s), ry2 (wo_rect o') + snd (wk_origin s))"
      using p [OF o1(1)] \<open>o' \<in> set (wk_outputs s)\<close> unfolding d unfolding o1(2) sz or outs(2) by simp
  qed
  have edge: "\<exists>o'\<in>set (wk_outputs s). P o'" if "\<exists>o'\<in>set os. Q o'" "\<And>o'. o' \<in> set os \<Longrightarrow> Q o' \<Longrightarrow> P (place_output q o')" for P Q
    using that by (auto simp: outs(1))
  show "\<exists>o'\<in>set (wk_outputs s). rx1 (wo_rect o') = 0" by (rule edge [OF q(3)]) (use p(2) in simp)
  show "\<exists>o'\<in>set (wk_outputs s). ry1 (wo_rect o') = 0" by (rule edge [OF q(4)]) (use p(2) in simp)
  show "\<exists>o'\<in>set (wk_outputs s). rx2 (wo_rect o') = int (fst (wk_size s))" unfolding sz by (rule edge [OF q(5)]) (use p(2) in simp)
  show "\<exists>o'\<in>set (wk_outputs s). ry2 (wo_rect o') = int (snd (wk_size s))" unfolding sz by (rule edge [OF q(6)]) (use p(2) in simp)
qed

text \<open>Where the monitors are: after the desktop was enumerated every monitor a client is told of is a part
  of the picture, lies where its duplication is copied to, and is the desktop's once moved by the origin the
  input side uses; and the picture is no larger than they are.\<close>

theorem windows_screens_in_picture:
  assumes "win_capture_new found = Inr s" "found_ok found"
  shows "(\<forall>o'\<in>set (wk_outputs s). wo_rect o' \<in> set (wk_screens s) \<and> (rx1 (wo_rect o'), ry1 (wo_rect o')) = wo_off o'
      \<and> 0 \<le> rx1 (wo_rect o') \<and> rx1 (wo_rect o') < rx2 (wo_rect o') \<and> rx2 (wo_rect o') \<le> int (fst (wk_size s))
      \<and> 0 \<le> ry1 (wo_rect o') \<and> ry1 (wo_rect o') < ry2 (wo_rect o') \<and> ry2 (wo_rect o') \<le> int (snd (wk_size s))
      \<and> wo_desktop o' = (rx1 (wo_rect o') + fst (wk_origin s), ry1 (wo_rect o') + snd (wk_origin s),
          rx2 (wo_rect o') + fst (wk_origin s), ry2 (wo_rect o') + snd (wk_origin s)))
    \<and> (\<exists>o'\<in>set (wk_outputs s). rx1 (wo_rect o') = 0) \<and> (\<exists>o'\<in>set (wk_outputs s). ry1 (wo_rect o') = 0)
    \<and> (\<exists>o'\<in>set (wk_outputs s). rx2 (wo_rect o') = int (fst (wk_size s)))
    \<and> (\<exists>o'\<in>set (wk_outputs s). ry2 (wo_rect o') = int (snd (wk_size s)))"
  using screens_placed [OF assms] by blast

section \<open>One monitor of one point\<close>

definition point_output :: "held option \<Rightarrow> win_output" where
  "point_output h = \<lparr>wo_tex = (1, 1), wo_off = (0, 0), wo_rect = mk_rect 0 0 1 1, wo_desktop = (0, 0, 1, 1), wo_held = h, wo_first = False\<rparr>"

definition point_win :: "win_output list \<Rightarrow> win_capture" where
  "point_win os = \<lparr>wk_outputs = os, wk_bounds = mk_rect 0 0 (int (length os)) 1, wk_rebuild = False, wk_refresh = False, wk_pointer = win_pointer_new\<rparr>"

definition point_held :: held where
  "point_held = \<lparr>hd_info = \<lparr>fi_present = 1, fi_metadata = 16, fi_shape = 0, fi_mouse = 0, fi_visible = False\<rparr>, hd_shape = Inl OTHER_FAILURE,
     hd_texture = Inr (), hd_moves = Inr [], hd_dirty = Inr [(0, 0, 1, 1)], hd_map = Inr (4, [2, 0, 0, 0]), hd_release = Inr ()\<rparr>"

definition point_win_says :: win_says where
  "point_win_says = \<lparr>wy_found = Inr [], wy_first = Inr (Some point_held), wy_rounds = []\<rparr>"

definition point_win_desk :: "win_capture capture_thread" where
  "point_win_desk = \<lparr>ct_backend = point_win [point_output None], ct_tightener = ct_tightener point_thread, ct_totals = totals_new, ct_totals_at = 0\<rparr>"

lemma point_win_wait: "wk_wait point_win_says (point_win [point_output None]) = (Inr True, point_win [point_output (Some point_held)])"
  by (simp add: wk_wait_def point_win_def point_output_def point_win_says_def wk_acquire_def)

lemma point_win_apply: "wk_apply (point 1) (point_win [point_output (Some point_held)]) = Some (Inr point_frame, point 2, point_win [point_output None])"
  by code_simp

lemma point_win_ok: "win_ok (point_win [point_output h]) (point 1) (1, 1)" "\<forall>o'\<in>set (wk_outputs (point_win [point_output (Some point_held)])). maps_ok o'"
  by (simp_all add: win_ok_def wk_size_def point_win_def point_output_def output_ok_def rect_width_def rect_height_def i32_small point_def fb_ok_def
      maps_ok_def held_ok_def point_held_def)

theorem windows_turn_reaches_sessions_witness:
  "\<exists>t' sh' ev. capture_turn head_hash id (win_backend point_win_says) None 0 0 0 (point_win_desk, point_shared) = Some ((t', sh'), ev)
    \<and> thread_ok head_hash (t', sh') \<and> win_ok (ct_backend t') (sh_fb sh') (tg_size (ct_tightener t'))
    \<and> view sh' (case ev of Some e \<Rightarrow> absorb e sh' dot_session | None \<Rightarrow> dot_session) (\<lambda>_. []) (px_of (sh_fb sh'))"
proof (rule windows_turn_reaches_sessions [where be = "point_win [point_output (Some point_held)]" and be' = "point_win [point_output None]"
      and f = point_frame and new = "point 2"])
  show "thread_ok head_hash (point_win_desk, point_shared)" using point_facts(1) by (simp add: thread_ok_def point_win_desk_def)
  show "win_ok (ct_backend point_win_desk) (sh_fb point_shared) (tg_size (ct_tightener point_win_desk))"
    using point_win_ok(1) by (simp add: point_win_desk_def point_facts(4)) (simp add: point_thread_def)
  show "tells_apart head_hash (fb_cells (sh_fb point_shared) \<union> fb_cells (point 2))" using point_facts(3) by (simp add: point_facts(4))
  show "view point_shared dot_session (\<lambda>_. []) (px_of (sh_fb point_shared))" using point_facts(5) by (simp add: point_facts(4))
  show "found_ok (wy_found point_win_says)" by (simp add: found_ok_def point_win_says_def)
  show "wk_wait point_win_says (ct_backend point_win_desk) = (Inr True, point_win [point_output (Some point_held)])"
    using point_win_wait by (simp add: point_win_desk_def)
  show "wk_apply (sh_fb point_shared) (point_win [point_output (Some point_held)]) = Some (Inr point_frame, point 2, point_win [point_output None])"
    using point_win_apply by (simp add: point_facts(4))
qed (simp_all add: point_win_ok(2) point_frame_def)

theorem windows_picture_kept_witness:
  "\<exists>r fb' s'. wk_apply (point 1) (point_win [point_output (Some point_held)]) = Some (r, fb', s')
    \<and> (fb_width fb', fb_height fb') = wk_size (point_win [point_output (Some point_held)])
    \<and> (\<forall>f. r = Inr f \<longrightarrow> all_shown (wk_outputs s') fb' (\<lambda>i pt. [2, 0, 0, 0]) \<and> (\<forall>o'\<in>set (wk_outputs s'). wo_held o' = None)
        \<and> (if (fb_width (point 1), fb_height (point 1)) = wk_size (point_win [point_output (Some point_held)]) then honest (point 1) fb' (fm_damage f)
           else fm_resized f \<and> picture_pts fb' \<subseteq> rects_pixels (fm_damage f)))"
proof (rule windows_picture_kept [where seen = "(1, 1)" and T = "\<lambda>i pt. [1, 0, 0, 0]"])
  show "apart (wk_outputs (point_win [point_output (Some point_held)]))" by (simp add: apart_def point_win_def)
  show "all_shown (wk_outputs (point_win [point_output (Some point_held)])) (point 1) (\<lambda>i pt. [1, 0, 0, 0])"
    by (simp add: all_shown_def shown_def point_win_def point_output_def reach_pts_def point_def fb_px_def)
  have "wk_starts (point 1) (point_win [point_output (Some point_held)]) = [point_output (Some point_held)]"
    by (simp add: wk_starts_def point_def point_win_def wk_size_def rect_width_def rect_height_def i32_small)
  moreover have "(x, y) \<in> touched point_held \<longleftrightarrow> x = 0 \<and> y = 0" for x y
    by (auto simp: touched_def point_held_def win_from_rect_def rect_from_corners_def in_rect_pixels)
  ultimately show "all_told (wk_starts (point 1) (point_win [point_output (Some point_held)])) (\<lambda>i pt. [1, 0, 0, 0]) (\<lambda>i pt. [2, 0, 0, 0])"
    by (simp add: all_told_def told_def point_output_def mon_pts_def) (simp add: point_held_def frame_px_def map_px_def)
qed (use point_win_ok in simp_all)

definition point_found :: "hresult + win_adapter list" where
  "point_found = Inr [\<lparr>ad_device = Inr True, ad_monitors =
     [\<lparr>mn_desc = Inr (True, 0, 0, 2, 1), mn_output1 = Inr (), mn_dup = Inr (2, 1), mn_staging = Inr True\<rparr>,
      \<lparr>mn_desc = Inr (True, -1, 0, 0, 1), mn_output1 = Inr (), mn_dup = Inr (1, 1), mn_staging = Inr True\<rparr>]\<rparr>]"

definition point_built :: win_capture where
  "point_built = (case win_capture_new point_found of Inr s \<Rightarrow> s | Inl _ \<Rightarrow> point_win [])"

theorem windows_screens_in_picture_witness:
  "wk_screens point_built = [mk_rect 1 0 3 1, mk_rect 0 0 1 1] \<and> (\<exists>o'\<in>set (wk_outputs point_built). rx1 (wo_rect o') = 0)"
proof -
  have n: "win_capture_new point_found = Inr point_built" by code_simp
  have "found_ok point_found" by (simp add: found_ok_def point_found_def monitor_ok_def)
  from windows_screens_in_picture [OF n this] have "\<exists>o'\<in>set (wk_outputs point_built). rx1 (wo_rect o') = 0" by blast
  moreover have "wk_screens point_built = [mk_rect 1 0 3 1, mk_rect 0 0 1 1]" by code_simp
  ultimately show ?thesis by blast
qed

section \<open>The pointer\<close>

text \<open>The pointer a client has after a frame.\<close>

definition sees :: "cursor_shape option \<Rightarrow> frame \<Rightarrow> cursor_shape option" where
  "sees c f = (case fm_cursor f of Some s \<Rightarrow> Some s | None \<Rightarrow> c)"

definition pointer_ok :: "win_pointer \<Rightarrow> cursor_shape option \<Rightarrow> bool" where
  "pointer_ok p c \<longleftrightarrow> (if wp_shown p then c = wp_shape p \<and> c \<noteq> None else c = None \<or> c = Some cursor_hidden)"

lemma dxgi_converts: "dxgi_convert kind w h pitch hot data \<noteq> None"
  by (rule dxgi_convert_pixels [of kind w h pitch hot data 0 0]) simp

text \<open>C40. After any report of any monitor, in any order, a client has the last shape where the newest report says
  that the pointer is on screen, and none or a hidden one where it says that it is not.\<close>

theorem windows_pointer_told:
  assumes "pointer_ok p (sees c f)" "wp_update h p f = (Inr b, p', f')"
  shows "pointer_ok p' (sees c f') \<and> (wp_visible p' \<and> wp_shape p' \<noteq> None \<longrightarrow> sees c f' = wp_shape p')
    \<and> (\<not> wp_visible p' \<longrightarrow> sees c f' = None \<or> sees c f' = Some cursor_hidden)
    \<and> (let i = hd_info h in if fi_mouse i \<noteq> 0 \<and> fi_mouse i \<ge> wp_at p then wp_visible p' = fi_visible i \<and> wp_at p' = fi_mouse i
       else wp_visible p' = wp_visible p \<and> wp_at p' = wp_at p)"
proof -
  define fresh where "fresh \<longleftrightarrow> fi_shape (hd_info h) > 0"
  obtain p1 where p1: "(if fresh then wp_read h p else (Inr (), p)) = (Inr (), p1)"
    using assms(2) by (cases "if fresh then wp_read h p else (Inr (), p)") (auto simp: wp_update_def fresh_def Let_def split: sum.splits)
  then have k: "wp_shown p1 = wp_shown p" "wp_visible p1 = wp_visible p" "wp_at p1 = wp_at p" "\<not> fresh \<Longrightarrow> wp_shape p1 = wp_shape p" "fresh \<Longrightarrow> wp_shape p1 \<noteq> None"
    using dxgi_converts by (auto simp: wp_read_def Let_def split: sum.splits if_splits)
  define p2 where "p2 = wp_report (hd_info h) p1"
  have r: "wp_shown p2 = wp_shown p" "wp_shape p2 = wp_shape p1"
    "if fi_mouse (hd_info h) \<noteq> 0 \<and> fi_mouse (hd_info h) \<ge> wp_at p then wp_visible p2 = fi_visible (hd_info h) \<and> wp_at p2 = fi_mouse (hd_info h)
       else wp_visible p2 = wp_visible p \<and> wp_at p2 = wp_at p"
    using k by (auto simp: p2_def wp_report_def)
  have t: "wp_tell fresh p2 f = (p', f')"
    using assms(2) p1 by (cases "wp_tell fresh p2 f") (simp add: wp_update_def fresh_def [symmetric] p2_def Let_def)
  then have v: "wp_visible p' = wp_visible p2" "wp_at p' = wp_at p2" by (auto simp: wp_tell_def split: if_splits option.splits)
  have "pointer_ok p' (sees c f') \<and> (wp_visible p' \<and> wp_shape p' \<noteq> None \<longrightarrow> sees c f' = wp_shape p')
    \<and> (\<not> wp_visible p' \<longrightarrow> sees c f' = None \<or> sees c f' = Some cursor_hidden)"
  proof (cases "wp_visible p2")
    case vis: True
    show ?thesis
    proof (cases "wp_shape p2")
      case None
      then have nf: "\<not> fresh" "wp_shape p = None" using k(4) [symmetric] k(5) r(2) by auto
      have "p' = p2" "f' = f" using t vis None by (simp_all add: wp_tell_def)
      moreover have "\<not> wp_shown p" using assms(1) nf(2) by (auto simp: pointer_ok_def)
      ultimately show ?thesis using assms(1) r(1) None vis by (simp add: pointer_ok_def)
    next
      case (Some s)
      show ?thesis
      proof (cases "fresh \<or> \<not> wp_shown p2")
        case True
        then have "p' = p2\<lparr>wp_shown := True\<rparr>" "f' = f\<lparr>fm_cursor := Some s\<rparr>" using t vis Some by (simp_all add: wp_tell_def)
        then show ?thesis using Some vis by (simp add: pointer_ok_def sees_def)
      next
        case False
        then have e: "p' = p2" "f' = f" using t vis Some by (simp_all add: wp_tell_def)
        have "sees c f = wp_shape p" using assms(1) False r(1) by (simp add: pointer_ok_def)
        moreover have "wp_shape p = Some s" using k(4) False r(2) Some by simp
        ultimately show ?thesis using e Some vis False by (simp add: pointer_ok_def)
      qed
    qed
  next
    case inv: False
    show ?thesis
    proof (cases "wp_shown p2")
      case True
      then have "p' = p2\<lparr>wp_shown := False\<rparr>" "f' = f\<lparr>fm_cursor := Some cursor_hidden\<rparr>" using t inv by (simp_all add: wp_tell_def)
      then show ?thesis using inv by (simp add: pointer_ok_def sees_def)
    next
      case False
      then have "p' = p2" "f' = f" using t inv by (simp_all add: wp_tell_def)
      then show ?thesis using assms(1) False r(1) inv by (simp add: pointer_ok_def)
    qed
  qed
  then show ?thesis using r(3) by (simp add: Let_def v)
qed

definition arrow_held :: held where
  "arrow_held = point_held\<lparr>hd_info := \<lparr>fi_present = 0, fi_metadata = 0, fi_shape = 4, fi_mouse = 7, fi_visible = True\<rparr>,
     hd_shape := Inr (COLOR, 1, 1, 4, (0, 0), [1, 2, 3, 255])\<rparr>"

definition arrow_known :: win_pointer where
  "arrow_known = \<lparr>wp_bytes = [1, 2, 3, 255], wp_shape = Some \<lparr>cs_width = 1, cs_height = 1, cs_hot_x = 0, cs_hot_y = 0, cs_rgba = [3, 2, 1, 255]\<rparr>,
     wp_visible = True, wp_shown = True, wp_at = 7\<rparr>"

lemma arrow_update:
  "wp_update arrow_held win_pointer_new point_frame = (Inr True, arrow_known, point_frame\<lparr>fm_cursor := wp_shape arrow_known\<rparr>)"
  by code_simp

theorem windows_pointer_told_witness:
  "pointer_ok arrow_known (sees None (point_frame\<lparr>fm_cursor := wp_shape arrow_known\<rparr>))"
proof -
  have "pointer_ok win_pointer_new (sees None point_frame)" by (simp add: pointer_ok_def sees_def win_pointer_new_def point_frame_def)
  from windows_pointer_told [OF this arrow_update] show ?thesis by blast
qed

section \<open>What a failure loses\<close>

text \<open>Two monitors, both with a frame: the first one's pixel is copied, then the second one's frame is not a
  texture. No event tells of the pixel: the call fails, and neither a rebuild nor a refresh is left, nor a
  frame held.\<close>

definition two_outputs :: "win_output list" where
  "two_outputs = [point_output (Some point_held),
     (point_output (Some (point_held\<lparr>hd_texture := Inl OTHER_FAILURE\<rparr>)))\<lparr>wo_off := (1, 0), wo_rect := mk_rect 1 0 2 1, wo_desktop := (1, 0, 2, 1)\<rparr>]"

theorem failed_frame_loses_damage:
  "\<exists>fb' s'. wk_apply \<lparr>fb_width = 2, fb_height = 1, fb_data = [1, 0, 0, 0, 1, 0, 0, 0]\<rparr> (point_win two_outputs) = Some (Inl (CaptureFailed []), fb', s')
    \<and> fb_data fb' = [2, 0, 0, 0, 1, 0, 0, 0] \<and> \<not> wk_refresh s' \<and> \<not> wk_rebuild s' \<and> list_all (\<lambda>o'. wo_held o' = None \<and> \<not> wo_first o') (wk_outputs s')"
proof -
  have "wk_apply \<lparr>fb_width = 2, fb_height = 1, fb_data = [1, 0, 0, 0, 1, 0, 0, 0]\<rparr> (point_win two_outputs) =
      Some (Inl (CaptureFailed []), \<lparr>fb_width = 2, fb_height = 1, fb_data = [2, 0, 0, 0, 1, 0, 0, 0]\<rparr>,
        point_win [point_output None, (point_output None)\<lparr>wo_off := (1, 0), wo_rect := mk_rect 1 0 2 1, wo_desktop := (1, 0, 2, 1)\<rparr>])"
    by code_simp
  then show ?thesis by (simp add: point_win_def point_output_def)
qed

end
