(* ===== verification/Synth.thy ===== *)
theory Synth
  imports Capture
begin

text \<open>
  \<open>alloyvnc-screen/src/synth.rs\<close>: the animated screen that tests and measurements run against, as a backend of
  the capture thread. What \<open>Step\<close> hands out is the number of frames its target allows, read once for every
  time the wait looks; the clock readings are arguments, and so is the time between frames, which is
  floating point in the source. A pixel outside the picture is \<open>None\<close>. Last comes the clipboard of the tests.
\<close>

section \<open>The state\<close>

text \<open>\<open>Step\<close>: how many frames may have been drawn.\<close>

definition step_advance :: "nat \<Rightarrow> nat \<Rightarrow> nat" where
  "step_advance n target = add64 target n"

datatype pace = Fps nat | Manual

record synth =
  sy_width :: nat
  sy_height :: nat
  sy_drawn :: nat
  sy_pace :: pace
  sy_next_at :: nat
  sy_ready :: bool
  sy_coarse :: bool

definition BOX_SIZE :: int where "BOX_SIZE = 96"
definition BAR_HEIGHT :: int where "BAR_HEIGHT = 12"
definition BAR_PERIOD :: nat where "BAR_PERIOD = 240"
definition NOISE_START :: int where "NOISE_START = 40"
definition NOISE_END :: int where "NOISE_END = 120"
definition SCROLL :: int where "SCROLL = 4"
definition COUNTER_X :: int where "COUNTER_X = 8"
definition COUNTER_Y :: int where "COUNTER_Y = 8"
definition COUNTER_CELL :: int where "COUNTER_CELL = 8"
definition COUNTER_BITS :: nat where "COUNTER_BITS = 12"
definition CURSOR_SIZE :: nat where "CURSOR_SIZE = 12"
definition CURSOR_PERIOD :: nat where "CURSOR_PERIOD = 30"

definition synth_new :: "nat \<Rightarrow> nat \<Rightarrow> pace \<Rightarrow> nat \<Rightarrow> synth" where
  "synth_new width height pace now = \<lparr>sy_width = width, sy_height = height, sy_drawn = 0, sy_pace = pace, sy_next_at = now,
     sy_ready = False, sy_coarse = False\<rparr>"

definition synth_coarse :: "synth \<Rightarrow> synth" where
  "synth_coarse s = s\<lparr>sy_coarse := True\<rparr>"

section \<open>The scene\<close>

text \<open>A triangle wave.\<close>

definition tri :: "int \<Rightarrow> int \<Rightarrow> int" where
  "tri t span_to =
    (if span_to \<le> 0 then 0
     else let p = t mod i64 (span_to * 2) in if p < span_to then p else i64 (i64 (span_to * 2) - p))"

definition synth_hash :: "u32 \<Rightarrow> u32 \<Rightarrow> u32" where
  "synth_hash x y =
    (let h0 = (x * 0x9E3779B1) XOR (y * 0x85EBCA77);
         h1 = h0 XOR drop_bit 15 h0;
         h2 = h1 * 0x2C1B3C6D
     in h2 XOR drop_bit 12 h2)"

definition base_pixel :: "int \<Rightarrow> int \<Rightarrow> nat \<Rightarrow> bytes" where
  "base_pixel x y frame =
    (if NOISE_START \<le> y \<and> y < NOISE_END then
       (let scrolled = i64 (y + i64 (i64 (int frame) * SCROLL)) in
        if unat (synth_hash (of_int x) (of_int scrolled)) mod 7 = 0 then [235, 235, 235, 0] else [22, 22, 24, 0])
     else if x mod 32 = 0 \<or> y mod 32 = 0 then [58, 58, 60, 0]
     else [28, 28, 30, 0])"

fun paint_row :: "int list \<Rightarrow> int \<Rightarrow> nat \<Rightarrow> framebuffer \<Rightarrow> framebuffer option" where
  "paint_row [] y frame fb = Some fb"
| "paint_row (x # xs) y frame fb =
    (case put_pixel fb (u32_of x) (u32_of y) (base_pixel x y frame) of None \<Rightarrow> None | Some fb' \<Rightarrow> paint_row xs y frame fb')"

fun paint_rows :: "int list \<Rightarrow> int list \<Rightarrow> nat \<Rightarrow> framebuffer \<Rightarrow> framebuffer option" where
  "paint_rows xs [] frame fb = Some fb"
| "paint_rows xs (y # ys) frame fb =
    (case paint_row xs y frame fb of None \<Rightarrow> None | Some fb' \<Rightarrow> paint_rows xs ys frame fb')"

definition paint_base :: "framebuffer \<Rightarrow> rect \<Rightarrow> nat \<Rightarrow> framebuffer option" where
  "paint_base fb rect frame =
    (let r = rect_intersection rect (fb_bounds fb) in paint_rows (irange (rx1 r) (rx2 r)) (irange (ry1 r) (ry2 r)) frame fb)"

definition box_rect :: "synth \<Rightarrow> nat \<Rightarrow> rect" where
  "box_rect s frame =
    (let w = int (sy_width s) - BOX_SIZE;
         h = int (sy_height s) - BOX_SIZE - NOISE_END - BAR_HEIGHT;
         t = i64 (int frame)
     in rect_new (i32 (tri (i64 (t * 3)) w)) (i32 (NOISE_END + i32 (tri (i64 (t * 2)) h))) BOX_SIZE BOX_SIZE)"

definition bar_len :: "synth \<Rightarrow> nat \<Rightarrow> int" where
  "bar_len s frame = i32 (int ((frame mod BAR_PERIOD) * sy_width s div BAR_PERIOD))"

definition noise_band :: "synth \<Rightarrow> rect" where
  "noise_band s = rect_intersection (rect_from_corners 0 NOISE_START (i32 (int (sy_width s))) NOISE_END)
     (rect_new 0 0 (i32 (int (sy_width s))) (i32 (int (sy_height s))))"

text \<open>An arrow whose colour turns with the frame.\<close>

definition arrow_pixel :: "u8 \<Rightarrow> nat \<Rightarrow> nat \<Rightarrow> bytes" where
  "arrow_pixel tint x y =
    (let n = CURSOR_SIZE; within = (x \<le> y \<and> x + y < n); edge = (within \<and> (x = 0 \<or> x = y \<or> x + y + 1 = n)) in
     if edge then [0, 0, 0, 255] else if within then [255, tint, 255 - tint, 255] else [0, 0, 0, 0])"

definition synth_cursor :: "nat \<Rightarrow> cursor_shape option" where
  "synth_cursor frame =
    (let tint = of_nat ((frame div CURSOR_PERIOD * 60) mod 2 ^ 64 mod 256) in
     cursor_shape_new CURSOR_SIZE CURSOR_SIZE 0 0
       (concat (map (\<lambda>y. concat (map (\<lambda>x. arrow_pixel tint x y) [0 ..< CURSOR_SIZE])) [0 ..< CURSOR_SIZE])))"

section \<open>Drawing\<close>

text \<open>The band scrolls up: a move of most of it, then fresh rows at the bottom.\<close>

definition draw_band :: "synth \<Rightarrow> framebuffer \<Rightarrow> nat \<Rightarrow> (framebuffer \<times> rect list \<times> move list) option" where
  "draw_band s fb frame =
    (let band = noise_band s in
     if rect_height band > SCROLL then
       (let to = rect_from_corners (rx1 band) (ry1 band) (rx2 band) (ry2 band - SCROLL);
            fresh = rect_from_corners (rx1 band) (ry2 band - SCROLL) (rx2 band) (ry2 band) in
        Option.bind (fb_copy_within fb (u32_of (rx1 band)) (u32_of (ry1 band + SCROLL)) to)
          (\<lambda>fb1. map_option (\<lambda>fb2. (fb2, [fresh], [\<lparr>src_x = rx1 band, src_y = ry1 band + SCROLL, dst = to\<rparr>]))
            (paint_base fb1 fresh frame)))
     else Some (fb, [], []))"

definition draw_under :: "synth \<Rightarrow> framebuffer \<Rightarrow> nat \<Rightarrow> nat option \<Rightarrow> (framebuffer \<times> rect list \<times> move list) option" where
  "draw_under s fb frame prev =
    (case prev of
       None \<Rightarrow> map_option (\<lambda>fb1. (fb1, [fb_bounds fb], [])) (paint_base fb (fb_bounds fb) frame)
     | Some p \<Rightarrow>
       Option.bind (draw_band s fb frame) (\<lambda>(fb1, damage, moves).
         map_option (\<lambda>fb2. (fb2, damage @ [box_rect s p], moves)) (paint_base fb1 (box_rect s p) frame)))"

text \<open>The bar along the bottom.\<close>

definition draw_bar :: "synth \<Rightarrow> framebuffer \<Rightarrow> nat \<Rightarrow> nat option \<Rightarrow> (framebuffer \<times> rect list) option" where
  "draw_bar s fb frame prev =
    (let y1 = i32 (i32 (int (sy_height s)) - BAR_HEIGHT); y2 = i32 (int (sy_height s));
         new_len = bar_len s frame; old_len = (case prev of None \<Rightarrow> 0 | Some p \<Rightarrow> bar_len s p);
         gone = rect_from_corners 0 y1 old_len y2 in
     Option.bind (if new_len < old_len then paint_base fb gone frame else Some fb) (\<lambda>fb1.
       map_option (\<lambda>fb2. (fb2, (if new_len < old_len then [gone] else []) @ (if new_len > old_len then [rect_from_corners old_len y1 new_len y2] else [])))
         (fb_fill fb1 (rect_from_corners 0 y1 new_len y2) [90, 200, 60, 0])))"

definition counter_cell :: "nat \<Rightarrow> rect" where
  "counter_cell b = rect_new (COUNTER_X + int b * COUNTER_CELL) COUNTER_Y (COUNTER_CELL - 1) (COUNTER_CELL - 1)"

definition cell_pixel :: "nat \<Rightarrow> nat \<Rightarrow> bytes" where
  "cell_pixel frame b = (if (frame div 2 ^ b) mod 2 = 1 then [250, 250, 250, 0] else [40, 40, 40, 0])"

fun draw_counter :: "nat list \<Rightarrow> nat \<Rightarrow> framebuffer \<Rightarrow> framebuffer option" where
  "draw_counter [] frame fb = Some fb"
| "draw_counter (b # bs) frame fb =
    (case fb_fill fb (counter_cell b) (cell_pixel frame b) of None \<Rightarrow> None | Some fb' \<Rightarrow> draw_counter bs frame fb')"

definition counter_rect :: rect where
  "counter_rect = rect_new COUNTER_X COUNTER_Y (int COUNTER_BITS * COUNTER_CELL) COUNTER_CELL"

definition synth_draw :: "synth \<Rightarrow> framebuffer \<Rightarrow> nat \<Rightarrow> nat option \<Rightarrow> (frame \<times> framebuffer) option" where
  "synth_draw s fb frame prev =
    Option.bind (draw_under s fb frame prev) (\<lambda>(fb1, damage1, moves).
    Option.bind (fb_fill fb1 (box_rect s frame) [of_nat (frame * 7 mod 2 ^ 64 mod 256), 120, 210, 0]) (\<lambda>fb2.
    Option.bind (draw_bar s fb2 frame prev) (\<lambda>(fb3, damage3).
    map_option (\<lambda>fb4.
      (\<lparr>fm_damage = region_from_rects (map (\<lambda>r. rect_intersection r (fb_bounds fb4)) (damage1 @ [box_rect s frame] @ damage3 @ [counter_rect])),
        fm_moves = moves,
        fm_cursor = (if prev = None \<or> frame mod CURSOR_PERIOD = 0 then synth_cursor frame else None),
        fm_resized = False\<rparr>, fb4))
      (draw_counter [0 ..< COUNTER_BITS] frame fb3))))"

section \<open>The backend\<close>

text \<open>What a wait sees: with \<open>Fps\<close> the clock after sleeping, with \<open>Manual\<close> the target each time it is looked at
  and whether the deadline has passed; once no look is left it has.\<close>

record synth_says =
  ss_now :: nat
  ss_looks :: "(nat \<times> bool) list"
  ss_after :: nat

fun synth_looks :: "(nat \<times> bool) list \<Rightarrow> nat \<Rightarrow> bool" where
  "synth_looks [] drawn = False"
| "synth_looks ((target, late) # rest) drawn = (if target > drawn then True else if late then False else synth_looks rest drawn)"

definition synth_wait :: "synth_says \<Rightarrow> synth \<Rightarrow> (capture_error + bool) \<times> synth" where
  "synth_wait a s =
    (if sy_ready s then (Inr True, s)
     else (case sy_pace s of
             Fps _ \<Rightarrow> let ready = (ss_now a \<ge> sy_next_at s) in (Inr ready, s\<lparr>sy_ready := ready\<rparr>)
           | Manual \<Rightarrow> if synth_looks (ss_looks a) (sy_drawn s) then (Inr True, s\<lparr>sy_ready := True\<rparr>) else (Inr False, s)))"

text \<open>What a real backend would report: one rectangle around all of it, and no move.\<close>

definition coarse_frame :: "frame \<Rightarrow> frame" where
  "coarse_frame f =
    (let bounds = fold (\<lambda>m b. rect_union_bounds b (dst m)) (fm_moves f) (region_bounds (fm_damage f))
     in f\<lparr>fm_damage := region_from_rect bounds, fm_moves := []\<rparr>)"

definition synth_apply :: "(nat \<Rightarrow> nat) \<Rightarrow> synth_says \<Rightarrow> framebuffer \<Rightarrow> synth \<Rightarrow> (frame \<times> framebuffer \<times> synth) option" where
  "synth_apply frame_time a fb s =
    (let resized = (fb_width fb \<noteq> sy_width s \<or> fb_height fb \<noteq> sy_height s);
         fb1 = (if resized then fb_resize (sy_width s) (sy_height s) fb else fb);
         prev = (if resized then None else if sy_drawn s > 0 then Some (sy_drawn s) else None);
         frame = add64 (sy_drawn s) 1
     in map_option (\<lambda>(f, fb2).
          let out = (if sy_coarse s then coarse_frame f else f);
              next = (case sy_pace s of Fps fps \<Rightarrow> max (sy_next_at s + frame_time (max fps 1)) (ss_after a) | Manual \<Rightarrow> sy_next_at s)
          in (out\<lparr>fm_resized := resized\<rparr>, fb2, s\<lparr>sy_ready := False, sy_drawn := frame, sy_next_at := next\<rparr>))
        (synth_draw s fb1 frame prev))"

definition synth_backend :: "(nat \<Rightarrow> nat) \<Rightarrow> synth_says \<Rightarrow> synth backend" where
  "synth_backend frame_time a = \<lparr>bk_wait = synth_wait a,
     bk_apply = \<lambda>fb s. (case synth_apply frame_time a fb s of Some (f, fb', s') \<Rightarrow> (Inr f, fb', s') | None \<Rightarrow> (Inl (CaptureFailed []), fb, s)),
     bk_screens = \<lambda>s. screens_default (sy_width s, sy_height s)\<rparr>"

section \<open>The clipboard of tests\<close>

record fake_clipboard =
  fk_fresh :: "str option"
  fk_written :: "str list"

definition fake_new :: fake_clipboard where
  "fake_new = \<lparr>fk_fresh = None, fk_written = []\<rparr>"

definition fake_copy :: "str \<Rightarrow> fake_clipboard \<Rightarrow> fake_clipboard" where
  "fake_copy text c = c\<lparr>fk_fresh := Some text\<rparr>"

definition fake_changed :: "fake_clipboard \<Rightarrow> str option \<times> fake_clipboard" where
  "fake_changed c = (fk_fresh c, c\<lparr>fk_fresh := None\<rparr>)"

definition fake_set :: "str \<Rightarrow> fake_clipboard \<Rightarrow> fake_clipboard" where
  "fake_set text c = c\<lparr>fk_written := fk_written c @ [text]\<rparr>"

end
