(* ===== verification/Synth_Laws.thy ===== *)
theory Synth_Laws
  imports Synth Capture_Laws Cursor_Laws
begin

text \<open>
  The synthetic screen draws the scene of its frame number: drawn on top of the frame before it, with the
  band moved and only what differs painted, the picture is the same as drawn from nothing; and what it
  reports is what it did.
\<close>

section \<open>Painting\<close>

lemma length_base: "length (base_pixel x y n) = 4"
  by (simp add: base_pixel_def Let_def)

lemma paint_row_ok:
  assumes "fb_ok fb" "0 \<le> y" "y < int (fb_height fb)" "set xs \<subseteq> {0 ..< int (fb_width fb)}"
  shows "\<exists>fb'. paint_row xs y n fb = Some fb' \<and> fb_same fb fb'
    \<and> (\<forall>x' y'. x' < fb_width fb \<longrightarrow> y' < fb_height fb \<longrightarrow>
        fb_px fb' x' y' = (if int y' = y \<and> int x' \<in> set xs then base_pixel (int x') y n else fb_px fb x' y'))"
  using assms
proof (induction xs arbitrary: fb)
  case Nil
  then show ?case by (auto simp: fb_same_refl)
next
  case (Cons x xs)
  have b: "fb_width fb < 65536" "fb_height fb < 65536" using Cons.prems(1) by (simp_all add: fb_ok_def)
  have x: "0 \<le> x" "x < int (fb_width fb)" using Cons.prems(4) by auto
  have u: "u32_of x = nat x" "u32_of y = nat y" using x Cons.prems(2,3) b by simp_all
  have lt: "nat x < fb_width fb" "nat y < fb_height fb" using x Cons.prems(2,3) by auto
  obtain fb1 where fb1: "put_pixel fb (nat x) (nat y) (base_pixel x y n) = Some fb1" "fb_same fb fb1"
    "\<And>x' y'. x' < fb_width fb \<Longrightarrow> y' < fb_height fb \<Longrightarrow> fb_px fb1 x' y' = (if (x', y') = (nat x, nat y) then base_pixel x y n else fb_px fb x' y')"
    using put_pixel_spec [OF Cons.prems(1) lt length_base] by blast
  have sm: "fb_ok fb1" "fb_width fb1 = fb_width fb" "fb_height fb1 = fb_height fb" using fb1(2) by (simp_all add: fb_same_def)
  obtain fb' where fb': "paint_row xs y n fb1 = Some fb'" "fb_same fb1 fb'"
    "\<And>x' y'. x' < fb_width fb \<Longrightarrow> y' < fb_height fb \<Longrightarrow> fb_px fb' x' y' = (if int y' = y \<and> int x' \<in> set xs then base_pixel (int x') y n else fb_px fb1 x' y')"
    using Cons.IH [OF sm(1)] Cons.prems sm(2,3) by auto
  have "paint_row (x # xs) y n fb = Some fb'" using fb1(1) fb'(1) by (simp add: u)
  moreover have "fb_px fb' x' y' = (if int y' = y \<and> int x' \<in> set (x # xs) then base_pixel (int x') y n else fb_px fb x' y')"
    if "x' < fb_width fb" "y' < fb_height fb" for x' y'
    using fb'(3) [OF that] fb1(3) [OF that] x Cons.prems(2) by (auto simp: nat_eq_iff2)
  ultimately show ?case using fb1(2) fb'(2) fb_same_trans by blast
qed

lemma paint_rows_ok:
  assumes "fb_ok fb" "set ys \<subseteq> {0 ..< int (fb_height fb)}" "set xs \<subseteq> {0 ..< int (fb_width fb)}"
  shows "\<exists>fb'. paint_rows xs ys n fb = Some fb' \<and> fb_same fb fb'
    \<and> (\<forall>x' y'. x' < fb_width fb \<longrightarrow> y' < fb_height fb \<longrightarrow>
        fb_px fb' x' y' = (if int y' \<in> set ys \<and> int x' \<in> set xs then base_pixel (int x') (int y') n else fb_px fb x' y'))"
  using assms
proof (induction ys arbitrary: fb)
  case Nil
  then show ?case by (auto simp: fb_same_refl)
next
  case (Cons y ys)
  have y: "0 \<le> y" "y < int (fb_height fb)" using Cons.prems(2) by auto
  obtain fb1 where fb1: "paint_row xs y n fb = Some fb1" "fb_same fb fb1"
    "\<And>x' y'. x' < fb_width fb \<Longrightarrow> y' < fb_height fb \<Longrightarrow> fb_px fb1 x' y' = (if int y' = y \<and> int x' \<in> set xs then base_pixel (int x') y n else fb_px fb x' y')"
    using paint_row_ok [OF Cons.prems(1) y Cons.prems(3)] by blast
  have sm: "fb_ok fb1" "fb_width fb1 = fb_width fb" "fb_height fb1 = fb_height fb" using fb1(2) by (simp_all add: fb_same_def)
  obtain fb' where fb': "paint_rows xs ys n fb1 = Some fb'" "fb_same fb1 fb'"
    "\<And>x' y'. x' < fb_width fb \<Longrightarrow> y' < fb_height fb \<Longrightarrow> fb_px fb' x' y' = (if int y' \<in> set ys \<and> int x' \<in> set xs then base_pixel (int x') (int y') n else fb_px fb1 x' y')"
    using Cons.IH [OF sm(1)] Cons.prems sm(2,3) by auto
  have "paint_rows xs (y # ys) n fb = Some fb'" using fb1(1) fb'(1) by simp
  moreover have "fb_px fb' x' y' = (if int y' \<in> set (y # ys) \<and> int x' \<in> set xs then base_pixel (int x') (int y') n else fb_px fb x' y')"
    if "x' < fb_width fb" "y' < fb_height fb" for x' y'
    using fb'(3) [OF that] fb1(3) [OF that] by auto
  ultimately show ?case using fb1(2) fb'(2) fb_same_trans by blast
qed

lemma paint_base_ok:
  assumes "fb_ok fb"
  obtains fb' where "paint_base fb r n = Some fb'" "fb_same fb fb'"
    "\<And>x y. x < fb_width fb \<Longrightarrow> y < fb_height fb \<Longrightarrow> fb_px fb' x y = (if (int x, int y) \<in> rect_pixels r then base_pixel (int x) (int y) n else fb_px fb x y)"
proof -
  let ?c = "rect_intersection r (fb_bounds fb)"
  have c: "rect_pixels ?c = rect_pixels r \<inter> ({0 ..< int (fb_width fb)} \<times> {0 ..< int (fb_height fb)})"
  proof -
    have "rect_pixels (fb_bounds fb) = {0 ..< int (fb_width fb)} \<times> {0 ..< int (fb_height fb)}"
      by (simp add: fb_bounds_ok [OF assms] rect_pixels_prod)
    then show ?thesis by simp
  qed
  have i: "set (irange a b) = {a ..< b}" for a b :: int by (rule set_irange)
  have pr: "rect_pixels ?c = set (irange (rx1 ?c) (rx2 ?c)) \<times> set (irange (ry1 ?c) (ry2 ?c))" by (simp add: i rect_pixels_prod)
  show thesis
  proof (cases "rect_is_empty ?c")
    case True
    then have "?c = rect_EMPTY" by (auto simp: rect_intersection_def rect_normalised_def rect_is_empty_def split: if_splits)
    then have "paint_base fb r n = Some fb" by (simp add: paint_base_def rect_EMPTY_def irange_def)
    moreover have "(int x, int y) \<notin> rect_pixels r" if "x < fb_width fb" "y < fb_height fb" for x y
      using True c that by (auto simp: rect_is_empty_pixels)
    then show thesis using that [OF calculation fb_same_refl [OF assms]] by simp
  next
    case False
    then have ne: "set (irange (rx1 ?c) (rx2 ?c)) \<noteq> {}" "set (irange (ry1 ?c) (ry2 ?c)) \<noteq> {}"
      by (auto simp: i rect_is_empty_def)
    have "set (irange (rx1 ?c) (rx2 ?c)) \<times> set (irange (ry1 ?c) (ry2 ?c)) \<subseteq> {0 ..< int (fb_width fb)} \<times> {0 ..< int (fb_height fb)}"
      unfolding pr [symmetric] c by (rule Int_lower2)
    then have sub: "set (irange (ry1 ?c) (ry2 ?c)) \<subseteq> {0 ..< int (fb_height fb)}" "set (irange (rx1 ?c) (rx2 ?c)) \<subseteq> {0 ..< int (fb_width fb)}"
      using ne by (simp_all only: times_subset_iff) simp_all
    obtain fb' where f: "paint_rows (irange (rx1 ?c) (rx2 ?c)) (irange (ry1 ?c) (ry2 ?c)) n fb = Some fb'" "fb_same fb fb'"
      "\<And>x' y'. x' < fb_width fb \<Longrightarrow> y' < fb_height fb \<Longrightarrow> fb_px fb' x' y' =
        (if int y' \<in> set (irange (ry1 ?c) (ry2 ?c)) \<and> int x' \<in> set (irange (rx1 ?c) (rx2 ?c)) then base_pixel (int x') (int y') n else fb_px fb x' y')"
      using paint_rows_ok [OF assms sub] by blast
    have m: "int y \<in> set (irange (ry1 ?c) (ry2 ?c)) \<and> int x \<in> set (irange (rx1 ?c) (rx2 ?c)) \<longleftrightarrow> (int x, int y) \<in> rect_pixels r"
      if "x < fb_width fb" "y < fb_height fb" for x y
    proof -
      have "int y \<in> set (irange (ry1 ?c) (ry2 ?c)) \<and> int x \<in> set (irange (rx1 ?c) (rx2 ?c)) \<longleftrightarrow> (int x, int y) \<in> rect_pixels ?c" unfolding pr by auto
      then show ?thesis unfolding c using that by auto
    qed
    have "paint_base fb r n = Some fb'" using f(1) by (simp only: paint_base_def Let_def)
    moreover have "fb_px fb' x y = (if (int x, int y) \<in> rect_pixels r then base_pixel (int x) (int y) n else fb_px fb x y)"
      if "x < fb_width fb" "y < fb_height fb" for x y
      unfolding f(3) [OF that] m [OF that] by (rule refl)
    ultimately show thesis using that f(2) by blast
  qed
qed

lemma counter_ok:
  assumes "fb_ok fb" "distinct bs"
  shows "\<exists>fb'. draw_counter bs n fb = Some fb' \<and> fb_same fb fb'
    \<and> (\<forall>x y. x < fb_width fb \<longrightarrow> y < fb_height fb \<longrightarrow>
        (\<forall>b\<in>set bs. (int x, int y) \<in> rect_pixels (counter_cell b) \<longrightarrow> b < 4096 \<longrightarrow> (\<forall>c\<in>set bs. c < 4096) \<longrightarrow> fb_px fb' x y = cell_pixel n b)
        \<and> ((\<forall>b\<in>set bs. (int x, int y) \<notin> rect_pixels (counter_cell b)) \<longrightarrow> fb_px fb' x y = fb_px fb x y))"
  using assms
proof (induction bs arbitrary: fb)
  case Nil
  then show ?case by (auto simp: fb_same_refl)
next
  case (Cons b bs)
  have "length (cell_pixel n b) = 4" by (simp add: cell_pixel_def)
  then obtain fb1 where fb1: "fb_fill fb (counter_cell b) (cell_pixel n b) = Some fb1" "fb_same fb fb1"
    "\<And>x' y'. x' < fb_width fb \<Longrightarrow> y' < fb_height fb \<Longrightarrow> fb_px fb1 x' y' = (if (int x', int y') \<in> rect_pixels (counter_cell b) then cell_pixel n b else fb_px fb x' y')"
    using fb_fill_spec [OF Cons.prems(1)] by blast
  have sm: "fb_ok fb1" "fb_width fb1 = fb_width fb" "fb_height fb1 = fb_height fb" using fb1(2) by (simp_all add: fb_same_def)
  have "distinct bs" using Cons.prems(2) by simp
  from Cons.IH [OF sm(1) this] obtain fb' where fb': "draw_counter bs n fb1 = Some fb'" "fb_same fb1 fb'"
    "\<And>x y c. x < fb_width fb \<Longrightarrow> y < fb_height fb \<Longrightarrow> c \<in> set bs \<Longrightarrow> (int x, int y) \<in> rect_pixels (counter_cell c) \<Longrightarrow> c < 4096 \<Longrightarrow> \<forall>c\<in>set bs. c < 4096 \<Longrightarrow> fb_px fb' x y = cell_pixel n c"
    "\<And>x y. x < fb_width fb \<Longrightarrow> y < fb_height fb \<Longrightarrow> \<forall>c\<in>set bs. (int x, int y) \<notin> rect_pixels (counter_cell c) \<Longrightarrow> fb_px fb' x y = fb_px fb1 x y"
    unfolding sm(2,3) by blast
  have other: "(x, y) \<notin> rect_pixels (counter_cell c)" if "(x, y) \<in> rect_pixels (counter_cell b)" "b < 4096" "c < 4096" "c \<noteq> b" for x y c
    using that by (auto simp: counter_cell_def rect_new_def COUNTER_X_def COUNTER_CELL_def COUNTER_Y_def in_rect_pixels i32_small)
  have "fb_px fb' x y = cell_pixel n c"
    if xy: "x < fb_width fb" "y < fb_height fb" and c: "c \<in> set (b # bs)" "(int x, int y) \<in> rect_pixels (counter_cell c)" "c < 4096" "\<forall>c\<in>set (b # bs). c < 4096" for x y c
  proof (cases "c \<in> set bs")
    case True
    then show ?thesis using fb'(3) [OF xy True c(2,3)] c(4) by simp
  next
    case False
    then have cb: "c = b" using c(1) by simp
    have "\<forall>d\<in>set bs. (int x, int y) \<notin> rect_pixels (counter_cell d)"
    proof
      fix d assume d: "d \<in> set bs"
      then have "d \<noteq> b" using False cb by auto
      then show "(int x, int y) \<notin> rect_pixels (counter_cell d)" using other c cb d by auto
    qed
    then show ?thesis using fb'(4) [OF xy] fb1(3) [OF xy] c(2) cb by simp
  qed
  moreover have "fb_px fb' x y = fb_px fb x y"
    if xy: "x < fb_width fb" "y < fb_height fb" and "\<forall>c\<in>set (b # bs). (int x, int y) \<notin> rect_pixels (counter_cell c)" for x y
    using fb'(4) [OF xy] fb1(3) [OF xy] that by simp
  moreover have "draw_counter (b # bs) n fb = Some fb'" using fb1(1) fb'(1) by simp
  ultimately show ?case using fb1(2) fb'(2) fb_same_trans by blast
qed

section \<open>The scene of a frame\<close>

text \<open>What is where: the counter over the bar over the box over the grid and the band.\<close>

definition scene :: "synth \<Rightarrow> nat \<Rightarrow> int \<Rightarrow> int \<Rightarrow> bytes" where
  "scene s n x y =
    (case find (\<lambda>b. rect_contains_point (counter_cell b) x y) [0 ..< COUNTER_BITS] of
       Some b \<Rightarrow> cell_pixel n b
     | None \<Rightarrow>
       if int (sy_height s) - BAR_HEIGHT \<le> y \<and> x < bar_len s n then [90, 200, 60, 0]
       else if rect_contains_point (box_rect s n) x y then [of_nat (n * 7 mod 2 ^ 64 mod 256), 120, 210, 0]
       else base_pixel x y n)"

text \<open>Sizes at which the box and the bar keep apart.\<close>

definition synth_ok :: "synth \<Rightarrow> bool" where
  "synth_ok s \<longleftrightarrow> 0 < sy_width s \<and> sy_width s < 65536 \<and> 228 \<le> sy_height s \<and> sy_height s < 65536"

lemma i64_mod: "i64 n mod 2 ^ 64 = n mod 2 ^ 64"
  by (simp add: i64_def mod_simps)

lemma i64_cong: "a mod 2 ^ 64 = b mod 2 ^ 64 \<Longrightarrow> i64 a = i64 b"
  by (metis i64_def mod_add_left_eq)

lemma i64_add_right: "i64 (a + i64 b) = i64 (a + b)"
  by (rule i64_cong) (metis i64_mod mod_add_right_eq)

lemma i64_mult_left: "i64 (i64 a * b) = i64 (a * b)"
  by (rule i64_cong) (metis i64_mod mod_mult_left_eq)

lemma base_scrolls:
  assumes "40 \<le> y" "y < 116"
  shows "base_pixel x (y + 4) p = base_pixel x y (add64 p 1)"
proof -
  have "i64 (int (add64 p 1)) = i64 (int p + 1)"
    by (rule i64_cong) (simp add: add64_def zmod_int add.commute)
  then have "i64 (y + i64 (i64 (int (add64 p 1)) * 4)) = i64 (y + i64 (i64 (int p + 1) * 4))" by simp
  also have "\<dots> = i64 (y + (int p + 1) * 4)" by (simp only: i64_mult_left i64_add_right)
  also have "\<dots> = i64 (y + 4 + int p * 4)" by (simp add: algebra_simps)
  also have "\<dots> = i64 (y + 4 + i64 (i64 (int p) * 4))" by (simp only: i64_mult_left i64_add_right)
  finally show ?thesis using assms by (simp add: base_pixel_def NOISE_START_def NOISE_END_def SCROLL_def Let_def)
qed

lemma base_still: "\<not> (40 \<le> y \<and> y < 120) \<Longrightarrow> base_pixel x y p = base_pixel x y n"
proof -
  assume "\<not> (40 \<le> y \<and> y < 120)"
  then show ?thesis unfolding base_pixel_def NOISE_START_def NOISE_END_def by (simp only: if_False)
qed

lemma tri_range:
  assumes "0 < m" "m < 65536"
  shows "0 \<le> tri t m" "tri t m \<le> m"
proof -
  have i: "i64 (m * 2) = m * 2" using assms by (simp add: i64_small)
  have p: "0 \<le> t mod (m * 2)" "t mod (m * 2) < m * 2" using assms by simp_all
  have "i64 (m * 2 - t mod (m * 2)) = m * 2 - t mod (m * 2)" using p assms by (intro i64_small) linarith+
  then have "tri t m = (if t mod (m * 2) < m then t mod (m * 2) else m * 2 - t mod (m * 2))"
    using assms i by (simp add: tri_def Let_def)
  then show "0 \<le> tri t m" "tri t m \<le> m" using p by auto
qed

lemma box_between:
  assumes "synth_ok s" "(x, y) \<in> rect_pixels (box_rect s n)"
  shows "120 \<le> y" "y < int (sy_height s) - 12"
proof -
  define m where "m = int (sy_height s) - 228"
  define t where "t = i64 (i64 (int n) * 2)"
  have m: "0 \<le> m" "m < 65536" using assms(1) by (simp_all add: synth_ok_def m_def)
  have r: "0 \<le> tri t m" "tri t m \<le> m" using tri_range [of m t] m by (cases "m = 0"; simp add: tri_def)+
  have "ry1 (box_rect s n) = 120 + tri t m" "ry2 (box_rect s n) = 216 + tri t m"
    using r m by (simp_all add: box_rect_def rect_new_def Let_def BOX_SIZE_def NOISE_END_def BAR_HEIGHT_def m_def [symmetric] t_def [symmetric]
        diff_diff_eq i32_small)
  then show "120 \<le> y" "y < int (sy_height s) - 12" using r assms(2) by (auto simp: in_rect_pixels m_def)
qed

lemma bar_range:
  assumes "synth_ok s"
  shows "0 \<le> bar_len s n" "bar_len s n \<le> int (sy_width s)"
proof -
  have "(n mod 240) * sy_width s div 240 \<le> sy_width s"
    by (metis div_le_mono mult.commute mod_less_divisor less_imp_le nonzero_mult_div_cancel_left mult_le_mono1 zero_less_numeral rel_simps(76))
  then show "0 \<le> bar_len s n" "bar_len s n \<le> int (sy_width s)"
    using assms by (simp_all add: bar_len_def BAR_PERIOD_def synth_ok_def i32_small)
qed

lemma cells_low:
  assumes "b \<in> set [0 ..< COUNTER_BITS]" "(x, y) \<in> rect_pixels (counter_cell b)"
  shows "(x, y) \<in> rect_pixels counter_rect" "8 \<le> y" "y < 16"
  using assms by (auto simp: counter_cell_def counter_rect_def rect_new_def COUNTER_X_def COUNTER_CELL_def COUNTER_Y_def COUNTER_BITS_def in_rect_pixels i32_small)

lemma band_is:
  assumes "synth_ok s"
  shows "noise_band s = mk_rect 0 40 (int (sy_width s)) 120"
  using assms by (simp add: noise_band_def synth_ok_def rect_from_corners_def rect_new_def NOISE_START_def NOISE_END_def rect_intersection_def
      rect_normalised_def rect_is_empty_def i32_small)

lemma counter_cells_apart:
  assumes "(x, y) \<in> rect_pixels (counter_cell b)" "(x, y) \<in> rect_pixels (counter_cell c)" "b < 4096" "c < 4096"
  shows "b = c"
  using assms by (auto simp: counter_cell_def rect_new_def COUNTER_X_def COUNTER_CELL_def COUNTER_Y_def in_rect_pixels i32_small)

lemma scene_cases:
  "b \<in> set [0 ..< COUNTER_BITS] \<Longrightarrow> (x, y) \<in> rect_pixels (counter_cell b) \<Longrightarrow> scene s n x y = cell_pixel n b"
  "\<forall>b\<in>set [0 ..< COUNTER_BITS]. (x, y) \<notin> rect_pixels (counter_cell b) \<Longrightarrow> scene s n x y =
    (if int (sy_height s) - 12 \<le> y \<and> x < bar_len s n then [90, 200, 60, 0]
     else if (x, y) \<in> rect_pixels (box_rect s n) then [of_nat (n * 7 mod 2 ^ 64 mod 256), 120, 210, 0] else base_pixel x y n)"
proof -
  assume b: "b \<in> set [0 ..< COUNTER_BITS]" "(x, y) \<in> rect_pixels (counter_cell b)"
  obtain c where c: "find (\<lambda>b. rect_contains_point (counter_cell b) x y) [0 ..< COUNTER_BITS] = Some c"
    using b by (cases "find (\<lambda>b. rect_contains_point (counter_cell b) x y) [0 ..< COUNTER_BITS]")
      (auto simp: find_None_iff rect_contains_point_pixels)
  then have "(x, y) \<in> rect_pixels (counter_cell c)" "c < COUNTER_BITS" by (auto simp: find_Some_iff rect_contains_point_pixels)
  then have "c = b" using counter_cells_apart [OF _ b(2)] b(1) by (simp add: COUNTER_BITS_def)
  then show "scene s n x y = cell_pixel n b" using c by (simp add: scene_def)
next
  assume n: "\<forall>b\<in>set [0 ..< COUNTER_BITS]. (x, y) \<notin> rect_pixels (counter_cell b)"
  have "find (\<lambda>b. rect_contains_point (counter_cell b) x y) [0 ..< COUNTER_BITS] = None"
    unfolding find_None_iff rect_contains_point_pixels using n by blast
  then show "scene s n x y =
    (if int (sy_height s) - 12 \<le> y \<and> x < bar_len s n then [90, 200, 60, 0]
     else if (x, y) \<in> rect_pixels (box_rect s n) then [of_nat (n * 7 mod 2 ^ 64 mod 256), 120, 210, 0] else base_pixel x y n)"
    by (simp add: scene_def BAR_HEIGHT_def rect_contains_point_pixels)
qed

text \<open>In the band the scene is the base.\<close>

lemma scene_band:
  assumes "synth_ok s" "40 \<le> y" "y < 120"
  shows "scene s n x y = base_pixel x y n"
proof -
  have nc: "\<forall>b\<in>set [0 ..< COUNTER_BITS]. (x, y) \<notin> rect_pixels (counter_cell b)"
  proof
    fix b assume "b \<in> set [0 ..< COUNTER_BITS]"
    then show "(x, y) \<notin> rect_pixels (counter_cell b)" using cells_low(3) [of b x y] assms(2) by auto
  qed
  have nb: "(x, y) \<notin> rect_pixels (box_rect s n)" using box_between(1) [OF assms(1), of x y n] assms(3) by auto
  have "\<not> int (sy_height s) - 12 \<le> y" using assms by (simp add: synth_ok_def)
  then show ?thesis unfolding scene_cases(2) [OF nc] using nb by simp
qed

section \<open>A frame drawn\<close>

definition band_move :: "synth \<Rightarrow> move" where
  "band_move s = \<lparr>src_x = 0, src_y = 44, dst = mk_rect 0 40 (int (sy_width s)) 116\<rparr>"

definition fresh_rows :: "synth \<Rightarrow> rect" where
  "fresh_rows s = mk_rect 0 116 (int (sy_width s)) 120"

definition fits_screen :: "synth \<Rightarrow> framebuffer \<Rightarrow> bool" where
  "fits_screen s fb \<longleftrightarrow> fb_ok fb \<and> fb_width fb = sy_width s \<and> fb_height fb = sy_height s"

definition shows_scene :: "synth \<Rightarrow> nat \<Rightarrow> framebuffer \<Rightarrow> bool" where
  "shows_scene s n fb \<longleftrightarrow> fits_screen s fb \<and> (\<forall>x < sy_width s. \<forall>y < sy_height s. fb_px fb x y = scene s n (int x) (int y))"

lemma under_ok:
  assumes "synth_ok s" "fits_screen s fb" "prev = None \<or> prev = Some p \<and> n = add64 p 1 \<and> shows_scene s p fb"
  obtains fb1 where "draw_under s fb n prev = Some (fb1, (if prev = None then [fb_bounds fb] else [fresh_rows s, box_rect s p]), (if prev = None then [] else [band_move s]))"
    "fits_screen s fb1"
    "\<And>x y. x < sy_width s \<Longrightarrow> y < sy_height s \<Longrightarrow> fb_px fb1 x y =
      (if prev = None \<or> (int x, int y) \<in> rect_pixels (box_rect s p) \<or> 40 \<le> y \<and> y < 120 then base_pixel (int x) (int y) n else scene s p (int x) (int y))"
proof (cases "prev = None")
  case True
  have ok: "fb_ok fb" using assms(2) by (simp add: fits_screen_def)
  obtain fb1 where f: "paint_base fb (fb_bounds fb) n = Some fb1" "fb_same fb fb1"
    "\<And>x y. x < fb_width fb \<Longrightarrow> y < fb_height fb \<Longrightarrow> fb_px fb1 x y = (if (int x, int y) \<in> rect_pixels (fb_bounds fb) then base_pixel (int x) (int y) n else fb_px fb x y)"
    by (rule paint_base_ok [OF ok, of "fb_bounds fb" n]) (rule that)
  have d: "draw_under s fb n prev = Some (fb1, (if prev = None then [fb_bounds fb] else [fresh_rows s, box_rect s p]), (if prev = None then [] else [band_move s]))"
    using f(1) True by (simp add: draw_under_def)
  have z: "fits_screen s fb1" using f(2) assms(2) by (simp add: fits_screen_def fb_same_def)
  show thesis
    by (rule that [OF d z]) (use f(3) assms(2) True in \<open>simp add: fits_screen_def fb_bounds_ok in_rect_pixels\<close>)
next
  case False
  then have p: "prev = Some p" "n = add64 p 1" "shows_scene s p fb" using assms(3) by auto
  have ok: "fb_ok fb" "fb_width fb = sy_width s" "fb_height fb = sy_height s" using assms(2) by (simp_all add: fits_screen_def)
  have sz: "0 < sy_width s" "sy_width s < 65536" "228 \<le> sy_height s" "sy_height s < 65536" using assms(1) by (simp_all add: synth_ok_def)
  let ?to = "mk_rect 0 40 (int (sy_width s)) 116"
  have "\<exists>fb'. fb_copy_within fb 0 44 ?to = Some fb' \<and> fb_same fb fb'
    \<and> (\<forall>x' y'. x' < fb_width fb \<longrightarrow> y' < fb_height fb \<longrightarrow> fb_px fb' x' y' =
          (if (int x', int y') \<in> rect_pixels ?to then fb_px fb (0 + (x' - nat (rx1 ?to))) (44 + (y' - nat (ry1 ?to))) else fb_px fb x' y'))"
    by (rule fb_copy_within_spec [OF ok(1)]) (use sz ok in \<open>simp_all add: rect_is_empty_def rect_contains_def fb_bounds_ok [OF ok(1)]\<close>)
  then obtain fa where fa1: "fb_copy_within fb 0 44 ?to = Some fa" "fb_same fb fa"
    "\<And>x' y'. x' < fb_width fb \<Longrightarrow> y' < fb_height fb \<Longrightarrow> fb_px fa x' y' =
       (if (int x', int y') \<in> rect_pixels ?to then fb_px fb (0 + (x' - nat (rx1 ?to))) (44 + (y' - nat (ry1 ?to))) else fb_px fb x' y')" by blast
  have to: "nat (rx1 ?to) = 0" "nat (ry1 ?to) = 40" by simp_all
  have fa3: "fb_px fa x y = (if 40 \<le> y \<and> y < 116 then fb_px fb x (y + 4) else fb_px fb x y)" if xy: "x < sy_width s" "y < sy_height s" for x y
  proof (cases "40 \<le> y \<and> y < 116")
    case True
    then have "44 + (y - 40) = y + 4" "(int x, int y) \<in> rect_pixels ?to" using xy by (auto simp: in_rect_pixels)
    then show ?thesis using fa1(3) [of x y] xy ok True unfolding to by (simp add: add.commute)
  next
    case False
    then have "(int x, int y) \<notin> rect_pixels ?to" by (auto simp: in_rect_pixels)
    then show ?thesis using fa1(3) [of x y] xy ok unfolding if_not_P [OF False] by simp
  qed
  note fa = fa1(1,2) fa3
  have oka: "fb_ok fa" "fb_width fa = sy_width s" "fb_height fa = sy_height s" using fa(2) ok by (simp_all add: fb_same_def)
  obtain fc where fc: "paint_base fa (fresh_rows s) n = Some fc" "fb_same fa fc"
    "\<And>x y. x < fb_width fa \<Longrightarrow> y < fb_height fa \<Longrightarrow> fb_px fc x y = (if (int x, int y) \<in> rect_pixels (fresh_rows s) then base_pixel (int x) (int y) n else fb_px fa x y)"
    by (rule paint_base_ok [OF oka(1), of "fresh_rows s" n]) (rule that)
  have okc: "fb_ok fc" "fb_width fc = sy_width s" "fb_height fc = sy_height s" using fc(2) oka by (simp_all add: fb_same_def)
  obtain fd where fd: "paint_base fc (box_rect s p) n = Some fd" "fb_same fc fd"
    "\<And>x y. x < fb_width fc \<Longrightarrow> y < fb_height fc \<Longrightarrow> fb_px fd x y = (if (int x, int y) \<in> rect_pixels (box_rect s p) then base_pixel (int x) (int y) n else fb_px fc x y)"
    by (rule paint_base_ok [OF okc(1), of "box_rect s p" n]) (rule that)
  have h: "rect_height (noise_band s) = 80" by (simp add: band_is [OF assms(1)] rect_height_def i32_small)
  have band: "draw_band s fb n = Some (fc, [fresh_rows s], [band_move s])"
    unfolding draw_band_def Let_def h unfolding band_is [OF assms(1)] using fa(1) fc(1)
    by (simp add: SCROLL_def rect_from_corners_def band_move_def fresh_rows_def)
  have d: "draw_under s fb n prev = Some (fd, (if prev = None then [fb_bounds fb] else [fresh_rows s, box_rect s p]), (if prev = None then [] else [band_move s]))"
    using band fd(1) by (simp add: draw_under_def p(1))
  have z: "fits_screen s fd" using fd(2) okc by (simp add: fits_screen_def fb_same_def)
  have px: "fb_px fd x y = (if (int x, int y) \<in> rect_pixels (box_rect s p) \<or> 40 \<le> y \<and> y < 120 then base_pixel (int x) (int y) n else scene s p (int x) (int y))"
    if xy: "x < sy_width s" "y < sy_height s" for x y
  proof -
    have sc: "fb_px fb x y' = scene s p (int x) (int y')" if "y' < sy_height s" for y' using p(3) xy(1) that by (simp add: shows_scene_def)
    have fr: "(int x, int y) \<in> rect_pixels (fresh_rows s) \<longleftrightarrow> 116 \<le> y \<and> y < 120" using xy by (auto simp: fresh_rows_def in_rect_pixels)
    have 1: "fb_px fc x y = (if 116 \<le> y \<and> y < 120 then base_pixel (int x) (int y) n else if 40 \<le> y \<and> y < 116 then fb_px fb x (y + 4) else fb_px fb x y)"
      using fc(3) [of x y] fa(3) [OF xy] xy oka(2,3) fr by simp
    have 2: "fb_px fb x (y + 4) = base_pixel (int x) (int y) n" if "40 \<le> y" "y < 116"
    proof -
      have "fb_px fb x (y + 4) = scene s p (int x) (int y + 4)" using sc [of "y + 4"] that sz by (simp add: add.commute)
      also have "\<dots> = base_pixel (int x) (int y + 4) p" by (rule scene_band [OF assms(1)]) (use that in simp_all)
      also have "\<dots> = base_pixel (int x) (int y) n" unfolding p(2) by (rule base_scrolls) (use that in simp_all)
      finally show ?thesis .
    qed
    have 3: "fb_px fd x y = (if (int x, int y) \<in> rect_pixels (box_rect s p) then base_pixel (int x) (int y) n else fb_px fc x y)"
      using fd(3) [of x y] xy okc(2,3) by simp
    consider "(int x, int y) \<in> rect_pixels (box_rect s p)" | "(int x, int y) \<notin> rect_pixels (box_rect s p)" "116 \<le> y" "y < 120"
      | "(int x, int y) \<notin> rect_pixels (box_rect s p)" "40 \<le> y" "y < 116" | "(int x, int y) \<notin> rect_pixels (box_rect s p)" "y < 40"
      | "(int x, int y) \<notin> rect_pixels (box_rect s p)" "120 \<le> y" by linarith
    then show ?thesis using 1 2 3 sc [OF xy(2)] by cases simp_all
  qed
  show thesis by (rule that [OF d z]) (use px p(1) in simp)
qed

text \<open>The bar: what it was before, and what it is.\<close>

definition bar_before :: "synth \<Rightarrow> nat option \<Rightarrow> int" where
  "bar_before s prev = (case prev of None \<Rightarrow> 0 | Some p \<Rightarrow> bar_len s p)"

lemma bar_ok:
  assumes "synth_ok s" "fits_screen s fb"
  obtains fb2 damage where "draw_bar s fb n prev = Some (fb2, damage)" "fits_screen s fb2"
    "\<And>x y. x < sy_width s \<Longrightarrow> y < sy_height s \<Longrightarrow> fb_px fb2 x y =
      (if int (sy_height s) - 12 \<le> int y \<and> int x < bar_len s n then [90, 200, 60, 0]
       else if int (sy_height s) - 12 \<le> int y \<and> bar_len s n < bar_before s prev \<and> int x < bar_before s prev then base_pixel (int x) (int y) n
       else fb_px fb x y)"
    "\<And>x y. x < sy_width s \<Longrightarrow> y < sy_height s \<Longrightarrow> (int x, int y) \<in> rects_pixels damage \<longleftrightarrow> int (sy_height s) - 12 \<le> int y
      \<and> (bar_len s n < bar_before s prev \<and> int x < bar_before s prev \<or> bar_before s prev \<le> int x \<and> int x < bar_len s n)"
proof -
  let ?new = "bar_len s n" and ?old = "bar_before s prev" and ?h = "int (sy_height s)"
  have sz: "0 < sy_width s" "sy_width s < 65536" "228 \<le> sy_height s" "sy_height s < 65536" using assms(1) by (simp_all add: synth_ok_def)
  have ok: "fb_ok fb" "fb_width fb = sy_width s" "fb_height fb = sy_height s" using assms(2) by (simp_all add: fits_screen_def)
  have y: "i32 ?h = ?h" "i32 (?h - BAR_HEIGHT) = ?h - 12" using sz by (simp_all add: BAR_HEIGHT_def i32_small)
  let ?gone = "mk_rect 0 (?h - 12) ?old ?h"
  obtain fa where fa: "(if ?new < ?old then paint_base fb ?gone n else Some fb) = Some fa" "fb_same fb fa"
    "\<And>x y. x < fb_width fb \<Longrightarrow> y < fb_height fb \<Longrightarrow> fb_px fa x y = (if ?new < ?old \<and> (int x, int y) \<in> rect_pixels ?gone then base_pixel (int x) (int y) n else fb_px fb x y)"
  proof (cases "?new < ?old")
    case True
    obtain f1 where f1: "paint_base fb ?gone n = Some f1" "fb_same fb f1"
      "\<And>x y. x < fb_width fb \<Longrightarrow> y < fb_height fb \<Longrightarrow> fb_px f1 x y = (if (int x, int y) \<in> rect_pixels ?gone then base_pixel (int x) (int y) n else fb_px fb x y)"
      by (rule paint_base_ok [OF ok(1), of ?gone n]) (rule that)
    show thesis by (rule that [of f1]) (use f1 True in simp_all)
  next
    case False
    show thesis by (rule that [of fb]) (use False ok(1) fb_same_refl in simp_all)
  qed
  have oka: "fb_ok fa" "fb_width fa = sy_width s" "fb_height fa = sy_height s" using fa(2) ok by (simp_all add: fb_same_def)
  let ?bar = "mk_rect 0 (?h - 12) ?new ?h"
  obtain fc where fc: "fb_fill fa ?bar [90, 200, 60, 0] = Some fc" "fb_same fa fc"
    "\<And>x y. x < fb_width fa \<Longrightarrow> y < fb_height fa \<Longrightarrow> fb_px fc x y = (if (int x, int y) \<in> rect_pixels ?bar then [90, 200, 60, 0] else fb_px fa x y)"
    using fb_fill_spec [OF oka(1), of "[90, 200, 60, 0]" ?bar] by auto
  let ?d = "(if ?new < ?old then [?gone] else []) @ (if ?new > ?old then [mk_rect ?old (?h - 12) ?new ?h] else [])"
  have d: "draw_bar s fb n prev = Some (fc, ?d)"
    unfolding draw_bar_def bar_before_def [symmetric] Let_def y(1) y(2) rect_from_corners_def fa(1) Option.bind.simps fc(1) option.map ..
  have z: "fits_screen s fc" using fc(2) oka by (simp add: fits_screen_def fb_same_def)
  show thesis
  proof (rule that [OF d z])
    fix x y assume xy: "x < sy_width s" "y < sy_height s"
    have b: "(int x, int y) \<in> rect_pixels ?bar \<longleftrightarrow> ?h - 12 \<le> int y \<and> int x < ?new"
      "(int x, int y) \<in> rect_pixels ?gone \<longleftrightarrow> ?h - 12 \<le> int y \<and> int x < ?old" using xy by (auto simp: in_rect_pixels)
    have 1: "fb_px fc x y = (if ?h - 12 \<le> int y \<and> int x < ?new then [90, 200, 60, 0] else fb_px fa x y)"
      using fc(3) [of x y] xy oka(2,3) by (simp only: b)
    have 2: "fb_px fa x y = (if ?new < ?old \<and> ?h - 12 \<le> int y \<and> int x < ?old then base_pixel (int x) (int y) n else fb_px fb x y)"
      using fa(3) [of x y] xy ok(2,3) by (simp only: b)
    show "fb_px fc x y =
      (if ?h - 12 \<le> int y \<and> int x < ?new then [90, 200, 60, 0]
       else if ?h - 12 \<le> int y \<and> ?new < ?old \<and> int x < ?old then base_pixel (int x) (int y) n else fb_px fb x y)"
      unfolding 1 2 by (simp only: conj_left_commute)
    show "(int x, int y) \<in> rects_pixels ?d \<longleftrightarrow> ?h - 12 \<le> int y \<and> (?new < ?old \<and> int x < ?old \<or> ?old \<le> int x \<and> int x < ?new)"
      using xy by (auto simp: in_rect_pixels)
  qed
qed

lemma draw_ok:
  assumes "synth_ok s" "fits_screen s fb" "prev = None \<or> prev = Some p \<and> n = add64 p 1 \<and> shows_scene s p fb"
  obtains f fb' where "synth_draw s fb n prev = Some (f, fb')" "shows_scene s n fb'" "\<not> fm_resized f"
    "region_wf (fm_damage f)" "rects_pixels (fm_damage f) \<subseteq> picture_pts fb"
    "prev = None \<Longrightarrow> fm_moves f = [] \<and> picture_pts fb \<subseteq> rects_pixels (fm_damage f)"
    "prev \<noteq> None \<Longrightarrow> fm_moves f = [band_move s]"
    "\<And>x y. prev \<noteq> None \<Longrightarrow> x < sy_width s \<Longrightarrow> y < sy_height s \<Longrightarrow> (int x, int y) \<notin> rects_pixels (fm_damage f) \<Longrightarrow>
       scene s n (int x) (int y) = (if 40 \<le> y \<and> y < 116 then scene s p (int x) (int y + 4) else scene s p (int x) (int y))"
proof -
  let ?h = "int (sy_height s)"
  have sz: "0 < sy_width s" "sy_width s < 65536" "228 \<le> sy_height s" "sy_height s < 65536" using assms(1) by (simp_all add: synth_ok_def)
  have ok: "fb_ok fb" "fb_width fb = sy_width s" "fb_height fb = sy_height s" using assms(2) by (simp_all add: fits_screen_def)
  define D1 where "D1 = (if prev = None then [fb_bounds fb] else [fresh_rows s, box_rect s p])"
  define M where "M = (if prev = None then [] else [band_move s])"
  obtain fb1 where u: "draw_under s fb n prev = Some (fb1, D1, M)" "fits_screen s fb1"
    "\<And>x y. x < sy_width s \<Longrightarrow> y < sy_height s \<Longrightarrow> fb_px fb1 x y =
      (if prev = None \<or> (int x, int y) \<in> rect_pixels (box_rect s p) \<or> 40 \<le> y \<and> y < 120 then base_pixel (int x) (int y) n else scene s p (int x) (int y))"
    by (rule under_ok [OF assms]) (rule that [unfolded D1_def M_def])
  let ?boxc = "[of_nat (n * 7 mod 2 ^ 64 mod 256), 120, 210, 0] :: bytes"
  have ok1: "fb_ok fb1" "fb_width fb1 = sy_width s" "fb_height fb1 = sy_height s" using u(2) by (simp_all add: fits_screen_def)
  obtain fb2 where b: "fb_fill fb1 (box_rect s n) ?boxc = Some fb2" "fb_same fb1 fb2"
    "\<And>x y. x < fb_width fb1 \<Longrightarrow> y < fb_height fb1 \<Longrightarrow> fb_px fb2 x y = (if (int x, int y) \<in> rect_pixels (box_rect s n) then ?boxc else fb_px fb1 x y)"
    using fb_fill_spec [OF ok1(1), of ?boxc "box_rect s n"] by auto
  have z2: "fits_screen s fb2" using b(2) ok1 by (simp add: fits_screen_def fb_same_def)
  obtain fb3 D3 where r: "draw_bar s fb2 n prev = Some (fb3, D3)" "fits_screen s fb3"
    "\<And>x y. x < sy_width s \<Longrightarrow> y < sy_height s \<Longrightarrow> fb_px fb3 x y =
      (if ?h - 12 \<le> int y \<and> int x < bar_len s n then [90, 200, 60, 0]
       else if ?h - 12 \<le> int y \<and> bar_len s n < bar_before s prev \<and> int x < bar_before s prev then base_pixel (int x) (int y) n
       else fb_px fb2 x y)"
    "\<And>x y. x < sy_width s \<Longrightarrow> y < sy_height s \<Longrightarrow> (int x, int y) \<in> rects_pixels D3 \<longleftrightarrow> ?h - 12 \<le> int y
      \<and> (bar_len s n < bar_before s prev \<and> int x < bar_before s prev \<or> bar_before s prev \<le> int x \<and> int x < bar_len s n)"
    by (rule bar_ok [OF assms(1) z2]) (rule that)
  have ok3: "fb_ok fb3" "fb_width fb3 = sy_width s" "fb_height fb3 = sy_height s" using r(2) by (simp_all add: fits_screen_def)
  have c4: "\<forall>c\<in>set [0 ..< COUNTER_BITS]. c < 4096" by (simp add: COUNTER_BITS_def)
  obtain fb4 where c: "draw_counter [0 ..< COUNTER_BITS] n fb3 = Some fb4" "fb_same fb3 fb4"
    "\<And>x y b. x < fb_width fb3 \<Longrightarrow> y < fb_height fb3 \<Longrightarrow> b \<in> set [0 ..< COUNTER_BITS] \<Longrightarrow> (int x, int y) \<in> rect_pixels (counter_cell b) \<Longrightarrow> fb_px fb4 x y = cell_pixel n b"
    "\<And>x y. x < fb_width fb3 \<Longrightarrow> y < fb_height fb3 \<Longrightarrow> \<forall>b\<in>set [0 ..< COUNTER_BITS]. (int x, int y) \<notin> rect_pixels (counter_cell b) \<Longrightarrow> fb_px fb4 x y = fb_px fb3 x y"
    using counter_ok [OF ok3(1) distinct_upt, of 0 COUNTER_BITS n] c4 by blast
  have z4: "fits_screen s fb4" using c(2) ok3 by (simp add: fits_screen_def fb_same_def)
  let ?R = "D1 @ [box_rect s n] @ D3 @ [counter_rect]"
  define f where "f = \<lparr>fm_damage = region_from_rects (map (\<lambda>r. rect_intersection r (fb_bounds fb4)) ?R), fm_moves = M,
      fm_cursor = (if prev = None \<or> n mod CURSOR_PERIOD = 0 then synth_cursor n else None), fm_resized = False\<rparr>"
  have draw: "synth_draw s fb n prev = Some (f, fb4)" 
    unfolding synth_draw_def u(1) Option.bind.simps prod.case b(1) r(1) c(1) option.map f_def ..
  have pts: "rect_pixels (fb_bounds fb4) = picture_pts fb"
    using z4 ok by (simp add: picture_pts_def fits_screen_def fb_bounds_ok)
  have inter: "rects_pixels (map (\<lambda>r. rect_intersection r q) rs) = rects_pixels rs \<inter> rect_pixels q" for rs q by (induction rs) auto
  have dmg: "region_wf (fm_damage f)" "rects_pixels (fm_damage f) = rects_pixels ?R \<inter> picture_pts fb"
    using region.add_all [OF region.invar_empty, of "map (\<lambda>r. rect_intersection r (fb_bounds fb4)) ?R"] inter [of "fb_bounds fb4" ?R] pts
    by (simp_all add: f_def region_from_rects_def region.pix_empty)
  have in_pts: "(int x, int y) \<in> picture_pts fb" if "x < sy_width s" "y < sy_height s" for x y
    using that ok by (simp add: in_picture_pts)
  have bh: "bar_before s prev = (if prev = None then 0 else bar_len s p)" using assms(3) by (auto simp: bar_before_def)
  have sc: "fb_px fb4 x y = scene s n (int x) (int y)" if xy: "x < sy_width s" "y < sy_height s" for x y
  proof (cases "\<exists>b\<in>set [0 ..< COUNTER_BITS]. (int x, int y) \<in> rect_pixels (counter_cell b)")
    case True
    then show ?thesis using c(3) [of x y] xy ok3 scene_cases(1) by metis
  next
    case False
    then have nc: "\<forall>b\<in>set [0 ..< COUNTER_BITS]. (int x, int y) \<notin> rect_pixels (counter_cell b)" by blast
    have p4: "fb_px fb4 x y = fb_px fb3 x y" using c(4) [of x y] xy ok3 nc by simp
    have p2: "fb_px fb2 x y = (if (int x, int y) \<in> rect_pixels (box_rect s n) then ?boxc else fb_px fb1 x y)" using b(3) [of x y] xy ok1 by simp
    have nbox: "\<not> ?h - 12 \<le> int y" if "(int x, int y) \<in> rect_pixels (box_rect s m)" for m using box_between(2) [OF assms(1) that] by simp
    note s1 = scene_cases(2) [OF nc]
    show ?thesis
    proof (cases "?h - 12 \<le> int y")
      case bar: True
      then have ns: "(int x, int y) \<notin> rect_pixels (box_rect s m)" "\<not> (40 \<le> int y \<and> int y < 120)" for m using nbox sz by auto
      show ?thesis
      proof (cases "int x < bar_len s n")
        case True
        then show ?thesis using p4 r(3) [OF xy] bar by (simp add: s1)
      next
        case nx: False
        have e: "scene s n (int x) (int y) = base_pixel (int x) (int y) n" using nx ns(1) by (simp add: s1)
        show ?thesis
        proof (cases "prev = None \<or> int x < bar_before s prev")
          case True
          then show ?thesis using p4 r(3) [OF xy] bar nx p2 ns(1) u(3) [OF xy] e by auto
        next
          case False
          then have "fb_px fb4 x y = scene s p (int x) (int y)" using p4 r(3) [OF xy] bar nx p2 ns u(3) [OF xy] by auto
          also have "\<dots> = base_pixel (int x) (int y) p" using False ns(1) unfolding bh by (simp add: s1 split: if_split_asm)
          also have "\<dots> = base_pixel (int x) (int y) n" by (rule base_still [OF ns(2)])
          finally show ?thesis using e by simp
        qed
      qed
    next
      case nbar: False
      then have p3: "fb_px fb4 x y = fb_px fb2 x y" using p4 r(3) [OF xy] by simp
      have e: "scene s n (int x) (int y) = (if (int x, int y) \<in> rect_pixels (box_rect s n) then ?boxc else base_pixel (int x) (int y) n)"
        using nbar by (simp add: s1)
      show ?thesis
      proof (cases "prev = None \<or> (int x, int y) \<in> rect_pixels (box_rect s p) \<or> 40 \<le> y \<and> y < 120")
        case True
        then show ?thesis using p3 p2 u(3) [OF xy] e by simp
      next
        case False
        have "fb_px fb1 x y = scene s p (int x) (int y)" using u(3) [OF xy] unfolding if_not_P [OF False] .
        also have "\<dots> = base_pixel (int x) (int y) p" using False nbar by (simp add: s1)
        also have "\<dots> = base_pixel (int x) (int y) n" by (rule base_still) (use False in auto)
        finally show ?thesis using p3 p2 e by simp
      qed
    qed
  qed
  have same: "scene s n (int x) (int y) = (if 40 \<le> y \<and> y < 116 then scene s p (int x) (int y + 4) else scene s p (int x) (int y))"
    if pr: "prev \<noteq> None" and xy: "x < sy_width s" "y < sy_height s" and nd: "(int x, int y) \<notin> rects_pixels (fm_damage f)" for x y
  proof -
    have n: "n = add64 p 1" using assms(3) pr by auto
    have nR: "(int x, int y) \<notin> rects_pixels ?R" using nd dmg(2) in_pts [OF xy] by blast
    then have out: "(int x, int y) \<notin> rect_pixels (box_rect s p)" "(int x, int y) \<notin> rect_pixels (box_rect s n)" "(int x, int y) \<notin> rect_pixels counter_rect"
      "\<not> (116 \<le> y \<and> y < 120)" "(int x, int y) \<notin> rects_pixels D3"
      using pr xy by (auto simp: D1_def fresh_rows_def in_rect_pixels)
    show ?thesis
    proof (cases "40 \<le> y \<and> y < 116")
      case True
      have "scene s n (int x) (int y) = base_pixel (int x) (int y) n" by (rule scene_band [OF assms(1)]) (use True in simp_all)
      also have "\<dots> = base_pixel (int x) (int y + 4) p" unfolding n by (rule base_scrolls [symmetric]) (use True in simp_all)
      also have "\<dots> = scene s p (int x) (int y + 4)" by (rule scene_band [OF assms(1), symmetric]) (use True in simp_all)
      finally show ?thesis using True by simp
    next
      case False
      have nc: "\<forall>b\<in>set [0 ..< COUNTER_BITS]. (int x, int y) \<notin> rect_pixels (counter_cell b)" using cells_low(1) out(3) by blast
      have nb: "\<not> (40 \<le> int y \<and> int y < 120)" using False out(4) by auto
      have "int (sy_height s) - 12 \<le> int y \<and> int x < bar_len s n \<longleftrightarrow> int (sy_height s) - 12 \<le> int y \<and> int x < bar_len s p"
        using out(5) r(4) [OF xy] bh pr by auto
      then have "scene s n (int x) (int y) = scene s p (int x) (int y)"
        unfolding scene_cases(2) [OF nc] using out(1,2) base_still [OF nb, of "int x" n p] by auto
      then show ?thesis unfolding if_not_P [OF False] .
    qed
  qed
  show thesis
  proof (rule that [OF draw _ _ dmg(1)])
    show "shows_scene s n fb4" using z4 sc by (simp add: shows_scene_def)
    show "rects_pixels (fm_damage f) \<subseteq> picture_pts fb" using dmg(2) by blast
    show "fm_moves f = [] \<and> picture_pts fb \<subseteq> rects_pixels (fm_damage f)" if "prev = None"
      using that dmg(2) by (auto simp: f_def M_def D1_def picture_pts_def)
  qed (use same in \<open>simp_all add: f_def M_def\<close>)
qed

end
