(* ===== verification/Synth_Turns.thy ===== *)
theory Synth_Turns
  imports Synth_Laws
begin

text \<open>
  The synthetic screen as a backend: each frame applied is the scene of the next number, what is reported is
  what was done, and with coarse reports a turn of the capture thread brings the scene to every session.
\<close>

section \<open>A frame applied\<close>

lemma scene_cong:
  assumes "sy_width s' = sy_width s" "sy_height s' = sy_height s"
  shows "scene s' = scene s" "shows_scene s' = shows_scene s"
proof -
  have b: "box_rect s' = box_rect s" "bar_len s' = bar_len s" by (rule ext, simp add: box_rect_def bar_len_def assms)+
  show a: "scene s' = scene s" by (intro ext) (simp only: scene_def assms b)
  then show "shows_scene s' = shows_scene s" by (intro ext) (simp add: shows_scene_def fits_screen_def a assms)
qed

lemma fits_screen_pts: "fits_screen s fb \<Longrightarrow> pt \<in> picture_pts fb \<longleftrightarrow> (\<exists>x y. pt = (int x, int y) \<and> x < sy_width s \<and> y < sy_height s)"
  by (cases pt) (auto simp: fits_screen_def in_picture_pts elim!: nonneg_int_cases)

lemma coarse_covers:
  "region_wf (fm_damage (coarse_frame f))" "rects_pixels (fm_damage f) \<subseteq> rects_pixels (fm_damage (coarse_frame f))"
  "m \<in> set (fm_moves f) \<Longrightarrow> rect_pixels (dst m) \<subseteq> rects_pixels (fm_damage (coarse_frame f))" "fm_moves (coarse_frame f) = []"
proof -
  have grow: "rect_pixels b \<subseteq> rect_pixels (fold (\<lambda>m b. rect_union_bounds b (dst m)) ms b)
    \<and> (\<forall>m\<in>set ms. rect_pixels (dst m) \<subseteq> rect_pixels (fold (\<lambda>m b. rect_union_bounds b (dst m)) ms b))" for ms b
  proof (induction ms arbitrary: b)
    case (Cons m ms)
    have "rect_pixels b \<subseteq> rect_pixels (rect_union_bounds b (dst m))" "rect_pixels (dst m) \<subseteq> rect_pixels (rect_union_bounds b (dst m))"
      using rect_union_bounds_pixels [of b "dst m"] by simp_all
    then show ?case using Cons [of "rect_union_bounds b (dst m)"] by (simp del: split_paired_All) blast
  qed simp
  note g = grow [of "region_bounds (fm_damage f)" "fm_moves f"]
  show "region_wf (fm_damage (coarse_frame f))" "fm_moves (coarse_frame f) = []" by (simp_all add: coarse_frame_def Let_def)
  show "rects_pixels (fm_damage f) \<subseteq> rects_pixels (fm_damage (coarse_frame f))"
    using g region_bounds_covers [of "fm_damage f"] by (simp add: coarse_frame_def Let_def) blast
  show "rect_pixels (dst m) \<subseteq> rects_pixels (fm_damage (coarse_frame f))" if "m \<in> set (fm_moves f)"
    using g that by (simp add: coarse_frame_def Let_def)
qed

text \<open>The picture is the scene last drawn, at the size the comparing pass knows, or the next frame is drawn whole.\<close>

definition synth_kept :: "synth \<Rightarrow> framebuffer \<Rightarrow> nat \<times> nat \<Rightarrow> bool" where
  "synth_kept s fb seen \<longleftrightarrow> synth_ok s \<and> fb_ok fb
    \<and> (0 < sy_drawn s \<and> (fb_width fb, fb_height fb) = (sy_width s, sy_height s) \<longrightarrow> shows_scene s (sy_drawn s) fb \<and> seen = (sy_width s, sy_height s))"

lemma synth_apply_ok:
  assumes "synth_kept s fb (tg_size tg)" "sy_coarse s"
  obtains f new s' where "synth_apply ft a fb s = Some (f, new, s')" "frame_true tg fb new f"
    "shows_scene s (add64 (sy_drawn s) 1) new" "synth_kept s' new (sy_width s, sy_height s)" "(fb_width new, fb_height new) = (sy_width s, sy_height s)"
proof -
  have s: "synth_ok s" "fb_ok fb" using assms(1) by (simp_all add: synth_kept_def)
  have sz: "sy_width s < 65536" "sy_height s < 65536" using s(1) by (simp_all add: synth_ok_def)
  let ?n = "add64 (sy_drawn s) 1"
  define re where "re = (fb_width fb \<noteq> sy_width s \<or> fb_height fb \<noteq> sy_height s)"
  define fb1 where "fb1 = (if re then fb_resize (sy_width s) (sy_height s) fb else fb)"
  define prev where "prev = (if re then None else if sy_drawn s > 0 then Some (sy_drawn s) else None)"
  have fb1: "fits_screen s fb1"
    using s(2) sz fb_new_ok [of "sy_width s" "sy_height s"] by (auto simp: fb1_def re_def fits_screen_def fb_resize_def fb_new_def)
  have p: "prev = None \<or> prev = Some (sy_drawn s) \<and> ?n = add64 (sy_drawn s) 1 \<and> shows_scene s (sy_drawn s) fb1"
    using assms(1) by (auto simp: prev_def re_def synth_kept_def fb1_def)
  obtain f0 new where d: "synth_draw s fb1 ?n prev = Some (f0, new)" "shows_scene s ?n new" "region_wf (fm_damage f0)"
    "prev = None \<Longrightarrow> fm_moves f0 = [] \<and> picture_pts fb1 \<subseteq> rects_pixels (fm_damage f0)" "prev \<noteq> None \<Longrightarrow> fm_moves f0 = [band_move s]"
    "\<And>x y. prev \<noteq> None \<Longrightarrow> x < sy_width s \<Longrightarrow> y < sy_height s \<Longrightarrow> (int x, int y) \<notin> rects_pixels (fm_damage f0) \<Longrightarrow>
       scene s ?n (int x) (int y) = (if 40 \<le> y \<and> y < 116 then scene s (sy_drawn s) (int x) (int y + 4) else scene s (sy_drawn s) (int x) (int y))"
    by (rule draw_ok [OF s(1) fb1 p]) (rule that)
  define f where "f = (coarse_frame f0)\<lparr>fm_resized := re\<rparr>"
  define s' where "s' = s\<lparr>sy_ready := False, sy_drawn := ?n,
    sy_next_at := (case sy_pace s of Fps fps \<Rightarrow> max (sy_next_at s + ft (max fps 1)) (ss_after a) | Manual \<Rightarrow> sy_next_at s)\<rparr>"
  have A: "synth_apply ft a fb s = Some (f, new, s')"
    unfolding synth_apply_def Let_def re_def [symmetric] fb1_def [symmetric] prev_def [symmetric] d(1) option.map prod.case f_def s'_def
    using assms(2) by simp
  have nw: "fb_ok new" "fb_width new = sy_width s" "fb_height new = sy_height s" using d(2) by (simp_all add: shows_scene_def fits_screen_def)
  have pts: "picture_pts new = picture_pts fb1" using fb1 nw by (auto simp: fits_screen_def in_picture_pts)
  note c = coarse_covers(1,2) [of f0] coarse_covers(3) [of _ f0] coarse_covers(4) [of f0]
  have whole: "picture_pts new \<subseteq> rects_pixels (fm_damage f)" if "prev = None"
    using d(4) [OF that] c(2) unfolding pts by (simp add: f_def) blast
  have hon: "honest fb new (fm_damage f)" if "prev \<noteq> None"
    unfolding honest_def
  proof (intro ballI impI)
    fix pt assume pt: "pt \<in> picture_pts new" "pt \<notin> rects_pixels (fm_damage f)"
    obtain x y where xy: "pt = (int x, int y)" "x < sy_width s" "y < sy_height s"
      using pt(1) nw fits_screen_pts [of s new pt] by (auto simp: fits_screen_def)
    have o1: "(int x, int y) \<notin> rects_pixels (fm_damage f0)" using pt(2) c(2) xy(1) by (simp add: f_def) blast
    have "(int x, int y) \<notin> rect_pixels (dst (band_move s))" using pt(2) c(3) [of "band_move s"] d(5) [OF that] xy(1) by (simp add: f_def) blast
    then have "\<not> (40 \<le> y \<and> y < 116)" using xy by (auto simp: band_move_def in_rect_pixels)
    then have "scene s ?n (int x) (int y) = scene s (sy_drawn s) (int x) (int y)" using d(6) [OF that xy(2,3) o1] by (simp only: if_False)
    moreover have "fb1 = fb" "shows_scene s (sy_drawn s) fb1" using that p by (auto simp: prev_def fb1_def)
    ultimately show "px_of new pt = px_of fb pt" using d(2) xy by (simp add: px_of_def shows_scene_def)
  qed
  have sy: "sy_width s' = sy_width s" "sy_height s' = sy_height s" "sy_drawn s' = ?n" by (simp_all add: s'_def)
  have "frame_true tg fb new f"
  proof (cases "prev = None")
    case True
    then show ?thesis using whole nw c(4) by (auto simp: frame_true_def honest_def f_def re_def)
  next
    case False
    then have "\<not> re" "0 < sy_drawn s" by (auto simp: prev_def split: if_split_asm)
    then have "tg_size tg = (sy_width s, sy_height s)" using assms(1) by (simp add: synth_kept_def re_def)
    then show ?thesis using hon [OF False] nw c(4) by (auto simp: frame_true_def f_def re_def)
  qed
  moreover have "synth_kept s' new (sy_width s, sy_height s)"
    using s(1) nw d(2) by (simp add: synth_kept_def synth_ok_def sy scene_cong(2) [OF sy(1,2)])
  ultimately show thesis using that [OF A] d(2) nw by simp
qed

lemma wait_size:
  "synth_wait a s = (r, s') \<Longrightarrow> \<exists>b. s' = s\<lparr>sy_ready := b\<rparr>"
  by (auto simp: synth_wait_def Let_def split: if_splits pace.splits intro: exI [of _ "sy_ready s"])

section \<open>The properties\<close>

text \<open>C27. A frame is its number: drawn on top of the frame before it, or from nothing, on any screen of at least 228
  rows and fewer than 65536 rows and columns (where the box and the bar keep apart), frame \<open>n\<close> does not panic and
  shows the scene of \<open>n\<close>, whichever way it was drawn; and what it reports is true: the moves stay in the picture, and outside the damage the new picture is the old one with the moves replayed.\<close>

theorem synth_draws_scene:
  assumes "synth_ok s" "fits_screen s fb" "prev = None \<or> prev = Some p \<and> n = add64 p 1 \<and> shows_scene s p fb"
  shows "\<exists>f fb'. synth_draw s fb n prev = Some (f, fb') \<and> shows_scene s n fb' \<and> region_wf (fm_damage f)
    \<and> (\<forall>m\<in>set (fm_moves f). move_ok (picture_pts fb') m)
    \<and> (\<forall>pt\<in>picture_pts fb'. pt \<notin> rects_pixels (fm_damage f) \<longrightarrow> px_of fb' pt = replay (fm_moves f) (px_of fb) pt)"
proof -
  have sz: "sy_width s < 65536" "228 \<le> sy_height s" using assms(1) by (simp_all add: synth_ok_def)
  obtain f fb' where d: "synth_draw s fb n prev = Some (f, fb')" "shows_scene s n fb'" "region_wf (fm_damage f)"
    "prev = None \<Longrightarrow> fm_moves f = [] \<and> picture_pts fb \<subseteq> rects_pixels (fm_damage f)" "prev \<noteq> None \<Longrightarrow> fm_moves f = [band_move s]"
    "\<And>x y. prev \<noteq> None \<Longrightarrow> x < sy_width s \<Longrightarrow> y < sy_height s \<Longrightarrow> (int x, int y) \<notin> rects_pixels (fm_damage f) \<Longrightarrow>
       scene s n (int x) (int y) = (if 40 \<le> y \<and> y < 116 then scene s p (int x) (int y + 4) else scene s p (int x) (int y))"
    by (rule draw_ok [OF assms]) (rule that)
  have pt: "pt \<in> picture_pts fb' \<longleftrightarrow> (\<exists>x y. pt = (int x, int y) \<and> x < sy_width s \<and> y < sy_height s)" "picture_pts fb = picture_pts fb'" for pt
    using fits_screen_pts [of s fb'] fits_screen_pts [OF assms(2)] d(2) by (auto simp: shows_scene_def)
  have mv: "move_ok (picture_pts fb') (band_move s)"
    using sz d(2) by (auto simp: band_move_def move_ok_def move_src_def rect_small_def shows_scene_def fits_screen_def in_picture_pts in_rect_pixels
        rect_new_def rect_width_def rect_height_def i32_small)
  have "px_of fb' pt = replay (fm_moves f) (px_of fb) pt" if "pt \<in> picture_pts fb'" "pt \<notin> rects_pixels (fm_damage f)" for pt
  proof -
    note here = that
    have pr: "prev \<noteq> None" using d(4) here pt(2) by auto
    obtain x y where xy: "pt = (int x, int y)" "x < sy_width s" "y < sy_height s" using here(1) pt(1) by blast
    have fbs: "fb_px fb x y' = scene s p (int x) (int y')" if "y' < sy_height s" for y' using assms(3) pr xy(2) that by (auto simp: shows_scene_def)
    have "px_of fb' pt = (if 40 \<le> y \<and> y < 116 then scene s p (int x) (int y + 4) else scene s p (int x) (int y))"
      using d(2) d(6) [OF pr xy(2,3)] here(2) xy by (simp add: px_of_def shows_scene_def)
    also have "\<dots> = (if 40 \<le> y \<and> y < 116 then fb_px fb x (y + 4) else fb_px fb x y)"
      using fbs [of "y + 4"] fbs [of y] xy(3) sz(2) by (simp add: add.commute)
    also have "\<dots> = replay (fm_moves f) (px_of fb) pt"
      using xy by (auto simp: d(5) [OF pr] replay_def apply_move_def band_move_def px_of_def in_rect_pixels rect_contains_point_pixels nat_add_distrib add.commute)
    finally show ?thesis .
  qed
  then show ?thesis using d(1-5) mv by (cases prev) auto
qed

text \<open>From the synthetic screen to the sessions: with coarse reports, a turn of the capture thread does not
  panic, the picture is the next scene, the state of the screen and of the comparing pass is kept, and every
  session that was right about the picture is right about the new one.\<close>

theorem synth_turn_reaches_sessions:
  assumes "thread_ok h (t, sh)" "synth_kept (ct_backend t) (sh_fb sh) (tg_size (ct_tightener t))" "sy_coarse (ct_backend t)"
    "synth_wait a (ct_backend t) = (Inr True, be)"
    "\<And>f new be'. synth_apply ft a (sh_fb sh) be = Some (f, new, be') \<Longrightarrow> tells_apart h (fb_cells (sh_fb sh) \<union> fb_cells new)"
    "\<And>vs. set (ord vs) = set vs" "view sh s cl (px_of (sh_fb sh))"
  shows "\<exists>t' sh' ev. capture_turn h ord (synth_backend ft a) copied us logged now (t, sh) = Some ((t', sh'), ev)
    \<and> thread_ok h (t', sh') \<and> synth_kept (ct_backend t') (sh_fb sh') (tg_size (ct_tightener t'))
    \<and> shows_scene (ct_backend t) (add64 (sy_drawn (ct_backend t)) 1) (sh_fb sh')
    \<and> view sh' (case ev of Some e \<Rightarrow> absorb e sh' s | None \<Rightarrow> s) cl (px_of (sh_fb sh'))"
proof -
  obtain b where be: "be = (ct_backend t)\<lparr>sy_ready := b\<rparr>" using wait_size [OF assms(4)] by blast
  have same: "sy_width be = sy_width (ct_backend t)" "sy_height be = sy_height (ct_backend t)" "sy_drawn be = sy_drawn (ct_backend t)" by (simp_all add: be)
  have k: "synth_kept be (sh_fb sh) (tg_size (ct_tightener t))" "sy_coarse be"
    using assms(2,3) by (simp_all add: synth_kept_def synth_ok_def same scene_cong(2) [OF same(1,2)]) (simp add: be)
  obtain f new be' where A: "synth_apply ft a (sh_fb sh) be = Some (f, new, be')" "frame_true (ct_tightener t) (sh_fb sh) new f"
    "shows_scene be (add64 (sy_drawn be) 1) new" "synth_kept be' new (sy_width be, sy_height be)" "(fb_width new, fb_height new) = (sy_width be, sy_height be)"
    by (rule synth_apply_ok [OF k]) (rule that)
  have bk: "bk_wait (synth_backend ft a) (ct_backend t) = (Inr True, be)" "bk_apply (synth_backend ft a) (sh_fb sh) be = (Inr f, new, be')"
    using assms(4) A(1) by (simp_all add: synth_backend_def)
  obtain t' sh' ev where T: "capture_turn h ord (synth_backend ft a) copied us logged now (t, sh) = Some ((t', sh'), ev)" "sh_fb sh' = new"
    "knows h (ct_tightener t') new" "ct_backend t' = be'" "thread_ok h (t', sh')" "view sh' (case ev of Some e \<Rightarrow> absorb e sh' s | None \<Rightarrow> s) cl (px_of new)"
    using turn_reaches [OF assms(1) bk A(2) assms(5) [OF A(1)] assms(6,7), where copied = copied and us = us and logged = logged and now = now] by blast
  moreover have "shows_scene (ct_backend t) (add64 (sy_drawn (ct_backend t)) 1) new" using A(3) by (simp add: same scene_cong(2) [OF same(1,2)])
  ultimately show ?thesis using A(4,5) knows_size [OF T(3)] by auto
qed

section \<open>A screen one point wide\<close>

definition thin :: "bool \<Rightarrow> synth" where
  "thin coarse = (if coarse then synth_coarse (synth_new 1 228 Manual 0) else synth_new 1 228 Manual 0)"

lemma thin_simps: "sy_width (thin c) = 1" "sy_height (thin c) = 228" "sy_drawn (thin c) = 0" "synth_ok (thin c)" "sy_coarse (thin True)"
  by (simp_all add: thin_def synth_coarse_def synth_new_def synth_ok_def)

text \<open>Two frames, the first from nothing and the second on top of it.\<close>

theorem synth_draws_scene_witness:
  "\<exists>f1 fb1 f2 fb2. synth_draw (thin False) (fb_new 1 228) 1 None = Some (f1, fb1) \<and> shows_scene (thin False) 1 fb1
    \<and> synth_draw (thin False) fb1 2 (Some 1) = Some (f2, fb2) \<and> shows_scene (thin False) 2 fb2 \<and> (\<forall>m\<in>set (fm_moves f2). move_ok (picture_pts fb2) m)"
proof -
  have "fits_screen (thin False) (fb_new 1 228)" using fb_new_ok [of 1 228] by (simp add: fits_screen_def thin_simps fb_new_def)
  from synth_draws_scene [OF thin_simps(4) this, of None 0 1] obtain f1 fb1 where
    1: "synth_draw (thin False) (fb_new 1 228) 1 None = Some (f1, fb1)" "shows_scene (thin False) 1 fb1" by auto
  have "fits_screen (thin False) fb1" using 1(2) by (simp add: shows_scene_def)
  from synth_draws_scene [OF thin_simps(4) this, of "Some 1" 1 2] 1(2) obtain f2 fb2 where
    "synth_draw (thin False) fb1 2 (Some 1) = Some (f2, fb2)" "shows_scene (thin False) 2 fb2" "\<forall>m\<in>set (fm_moves f2). move_ok (picture_pts fb2) m"
    by (auto simp: add64_def)
  with 1 show ?thesis by blast
qed

definition thin_desk :: "synth capture_thread" where
  "thin_desk = \<lparr>ct_backend = thin True, ct_tightener = ct_tightener point_thread, ct_totals = totals_new, ct_totals_at = 0\<rparr>"

definition thin_says :: synth_says where
  "thin_says = \<lparr>ss_now = 0, ss_looks = [(0, False), (1, False)], ss_after = 0\<rparr>"

lemma apart_subset: "tells_apart h B \<Longrightarrow> A \<subseteq> B \<Longrightarrow> tells_apart h A"
  by (auto simp: tells_apart_def intro: inj_on_subset)

lemma thin_colours:
  assumes "shows_scene (thin True) 1 fb"
  shows "fb_cells fb \<subseteq> {[7, 120, 210, 0], [235, 235, 235, 0], [22, 22, 24, 0], [58, 58, 60, 0]}"
proof
  fix c assume "c \<in> fb_cells fb"
  have fb: "fb_ok fb" "fb_width fb = 1" "fb_height fb = 228" using assms by (simp_all add: shows_scene_def fits_screen_def thin_simps)
  then obtain y where y: "y < 228" "c = cell_bytes fb y 0" using \<open>c \<in> fb_cells fb\<close> by (auto simp: fb_cells_def)
  have "c = fb_px fb 0 y" using cell_bytes_px [OF fb(1), of y 0] y fb by simp
  then have c: "c = scene (thin True) 1 0 (int y)" using assms y by (simp add: shows_scene_def thin_simps)
  have "\<forall>b\<in>set [0 ..< COUNTER_BITS]. (0, int y) \<notin> rect_pixels (counter_cell b)"
  proof (intro ballI notI)
    fix b assume b: "b \<in> set [0 ..< COUNTER_BITS]" "(0, int y) \<in> rect_pixels (counter_cell b)"
    from cells_low(1) [OF b] show False
      by (simp add: counter_rect_def COUNTER_X_def COUNTER_Y_def COUNTER_CELL_def COUNTER_BITS_def rect_new_def i32_small in_rect_pixels)
  qed
  from scene_cases(2) [OF this] show "c \<in> {[7, 120, 210, 0], [235, 235, 235, 0], [22, 22, 24, 0], [58, 58, 60, 0]}"
    by (auto simp: c base_pixel_def Let_def bar_len_def BAR_PERIOD_def thin_simps i32_small)
qed

theorem synth_turn_reaches_sessions_witness:
  "\<exists>t' sh' ev. capture_turn head_hash id (synth_backend (\<lambda>fps. 0) thin_says) None 0 0 0 (thin_desk, point_shared) = Some ((t', sh'), ev)
    \<and> thread_ok head_hash (t', sh') \<and> synth_kept (ct_backend t') (sh_fb sh') (tg_size (ct_tightener t'))
    \<and> shows_scene (ct_backend thin_desk) (add64 (sy_drawn (ct_backend thin_desk)) 1) (sh_fb sh')
    \<and> view sh' (case ev of Some e \<Rightarrow> absorb e sh' dot_session | None \<Rightarrow> dot_session) (\<lambda>_. []) (px_of (sh_fb sh'))"
proof (rule synth_turn_reaches_sessions)
  show "thread_ok head_hash (thin_desk, point_shared)" using point_facts(1) by (simp add: thread_ok_def thin_desk_def)
  have kept: "synth_kept (thin True) (point 1) seen" for seen by (simp add: synth_kept_def thin_simps point_def fb_ok_def)
  then show "synth_kept (ct_backend thin_desk) (sh_fb point_shared) (tg_size (ct_tightener thin_desk))" by (simp add: thin_desk_def point_facts(4))
  show "sy_coarse (ct_backend thin_desk)" by (simp add: thin_desk_def thin_simps)
  let ?be = "(thin True)\<lparr>sy_ready := True\<rparr>"
  show "synth_wait thin_says (ct_backend thin_desk) = (Inr True, ?be)"
    by (simp add: synth_wait_def thin_says_def thin_desk_def thin_def synth_coarse_def synth_new_def)
  show "view point_shared dot_session (\<lambda>_. []) (px_of (sh_fb point_shared))" using point_facts(5) by (simp add: point_facts(4))
  show "tells_apart head_hash (fb_cells (sh_fb point_shared) \<union> fb_cells new)"
    if "synth_apply (\<lambda>fps. 0) thin_says (sh_fb point_shared) ?be = Some (f, new, be')" for f new be'
  proof -
    have same: "sy_width ?be = sy_width (thin True)" "sy_height ?be = sy_height (thin True)" by simp_all
    have "synth_kept ?be (point 1) (tg_size tightener_new)" "sy_coarse ?be"
      using kept by (simp_all add: synth_kept_def synth_ok_def thin_simps point_def)
    then obtain f0 new0 s0 where "synth_apply (\<lambda>fps. 0) thin_says (point 1) ?be = Some (f0, new0, s0)" "shows_scene ?be (add64 (sy_drawn ?be) 1) new0"
      by (rule synth_apply_ok)
    then have "shows_scene (thin True) 1 new" using that by (simp add: point_facts(4) scene_cong(2) [OF same] thin_simps add64_def)
    from thin_colours [OF this] have "fb_cells (sh_fb point_shared) \<union> fb_cells new \<subseteq> insert [1, 0, 0, 0] {[7, 120, 210, 0], [235, 235, 235, 0], [22, 22, 24, 0], [58, 58, 60, 0]}"
      by (auto simp: point_facts(4) fb_cells_def point_def cell_bytes_def)
    moreover have "tells_apart head_hash (insert [1, 0, 0, 0] {[7, 120, 210, 0], [235, 235, 235, 0], [22, 22, 24, 0], [58, 58, 60, 0]})"
      by (simp add: tells_apart_def head_hash_def UNKNOWN_def)
    ultimately show ?thesis by (rule apart_subset [rotated])
  qed
qed simp_all

end
