(* ===== verification/Spec2Isabelle.thy ===== *)
theory Spec2Isabelle
  imports Region_Laws Protocol Flow Pictures Zrle_Round_Trip Tight_Round_Trip Session_Properties Capture_Laws Input_Runs Clipboard_Laws
    X11_Turns Windows_Turns Synth_Turns
begin

text \<open>
  AlloyVNC, a VNC server in Rust: a verification development of its core. The repository is a
  workspace of crates under \<^verbatim>\<open>crates/\<close>. A capture backend paints a framebuffer and reports each frame as damage,
  moves and pointer shapes; one session per client keeps what that client has not seen and sends it,
  encoded as the client asked, no faster than a congestion window measured with fences allows.

  \<^bold>\<open>Theories and sources.\<close>

  \<^item> \<open>Prelude\<close>: the machine integers and shared collections.
  \<^item> \<open>Rects\<close>, \<open>Spans\<close>, \<open>Bands\<close>, \<open>Regions\<close>, \<open>Region_Laws\<close>: \<^verbatim>\<open>alloyvnc-region/src/lib.rs\<close>. A region is the source's
    list of rectangles in bands; its meaning is a set of points, \<open>rects_pixels\<close>. The laws: the set
    operations, \<open>from_rows\<close>, \<open>area\<close> and \<open>bounds\<close> are what they say on points, and regions are canonical
    however a program builds them. The locale \<open>damage_algebra\<close> is what the rest relies on.
  \<^item> \<open>Bytes\<close>, \<open>Utf8\<close>, \<open>Pixel_Formats\<close>, \<open>Encodings\<close>, \<open>Handshake\<close>, \<open>Auth\<close>, \<open>Messages\<close>, \<open>Message_Laws\<close>, \<open>Protocol\<close>:
    \<^verbatim>\<open>alloyvnc-proto/src/\<close>. Parsers and writers of both sides; that reading does not depend on how the stream
    is cut, needs a bounded buffer, and gives back what was written.
  \<^item> \<open>Flow\<close>: \<^verbatim>\<open>alloyvnc/src/flow.rs\<close>, with a step relation and its invariant.
  \<^item> \<open>Framebuffers\<close>, \<open>Convert\<close>, \<open>Raster\<close>, \<open>Pictures\<close>: \<^verbatim>\<open>framebuffer.rs\<close>, \<^verbatim>\<open>convert.rs\<close>, \<^verbatim>\<open>raw.rs\<close>, \<^verbatim>\<open>copyrect.rs\<close>, \<^verbatim>\<open>cursor.rs\<close>
    of \<^verbatim>\<open>alloyvnc-encode\<close>, by pixel. The locale \<open>pixel_decoder\<close> is what the decoders share.
  \<^item> \<open>Hextile\<close>, \<open>Hextile_Laws\<close>, \<open>Hextile_Round_Trip\<close>; \<open>Streams\<close>, \<open>Zrle\<close>, \<open>Packing\<close>, \<open>Zrle_Laws\<close>, \<open>Zrle_Round_Trip\<close>;
    \<open>Tight\<close>, \<open>Tight_Reader\<close>, \<open>Tight_Laws\<close>, \<open>Tight_Round_Trip\<close>: the encoders and, from \<^verbatim>\<open>decode.rs\<close>, their
    decoders. Decoding what an encoder wrote paints the source's pixels, takes the bytes announced and
    leaves both ends in step.
  \<^item> \<open>Stats\<close>, \<open>Shared_State\<close>: the counters of \<^verbatim>\<open>stats.rs\<close> and \<^verbatim>\<open>shared.rs\<close>, one value per lock.
  \<^item> \<open>Session\<close>, \<open>Session_Handle\<close>, \<open>Session_Update\<close>, \<open>Session_Loop\<close>: \<^verbatim>\<open>alloyvnc/src/session.rs\<close>: the state of one client,
    absorbing frames, every message, building an update, the opening and the turns of the loop.
    \<open>Session_View\<close> and \<open>Session_Update_Laws\<close> give what is owed a meaning as pictures; \<open>Session_Laws\<close> has the
    invariant over turns, \<open>Session_Properties\<close> what follows.
  \<^item> \<open>Compare\<close>, \<open>Compare_Cells\<close>, \<open>Compare_Laws\<close>: \<^verbatim>\<open>alloyvnc-encode/src/compare.rs\<close>, the pass that narrows a frame's
    damage to the cells that changed and finds a scroll in it. What it reports is what changed, exactly;
    with moves the backend reports it is not, and the counterexample is a theorem.
  \<^item> \<open>Capture\<close>, \<open>Capture_Laws\<close>: \<^verbatim>\<open>alloyvnc/src/capture.rs\<close> and the frame of \<^verbatim>\<open>alloyvnc-screen/src/lib.rs\<close>. A turn of
    the capture thread carries a true frame from the backend through the pass to every session.
  \<^item> \<open>X11_Input\<close>, \<open>X11_Laws\<close>, \<open>Windows_Input\<close>, \<open>Input_Laws\<close>, \<open>Input_Runs\<close>: \<^verbatim>\<open>keymap.rs\<close>, \<^verbatim>\<open>keysym.rs\<close>, \<^verbatim>\<open>geom.rs\<close> and the
    \<^verbatim>\<open>input.rs\<close> of both platforms, as the key, button and motion calls they make. A keysym types what it names,
    what was borrowed of the keyboard is given back, and the buttons follow the client's mask: the locale
    \<open>level_sender\<close>, interpreted for both platforms.
  \<^item> \<open>X11_Clipboard\<close>, \<open>Windows_Clipboard\<close>, \<open>Clipboard_Laws\<close>: the two \<^verbatim>\<open>clipboard.rs\<close>. Texts arrive as they were set,
    up to the megabyte a GetProperty asks for, everybody who asks is answered; and five ways a text is lost.
  \<^item> \<open>Cursors\<close>, \<open>Cursor_Laws\<close>: the two \<^verbatim>\<open>cursor.rs\<close> of the backends, pointer images as straight RGBA.
  \<^item> \<open>X11_Capture\<close>, \<open>X11_Capture_Laws\<close>, \<open>X11_Turns\<close>: \<^verbatim>\<open>alloyvnc-screen-x11/src/capture.rs\<close>, a backend of the capture
    thread. Its frames are true, so that the sessions stay right; with a display that gives an account of what
    was drawn the picture is the display's; and what a refused request loses.
  \<^item> \<open>Windows_Capture\<close>, \<open>Windows_Capture_Laws\<close>, \<open>Windows_Turns\<close>: \<^verbatim>\<open>alloyvnc-screen-dxgi/src/capture.rs\<close>, the other
    backend: its monitors, frames and pointer. Nothing is copied outside the picture, the picture shows every
    monitor, the sessions stay right with frames that report no move, and what a failure loses.
  \<^item> \<open>Synth\<close>, \<open>Synth_Laws\<close>, \<open>Synth_Turns\<close>: \<^verbatim>\<open>alloyvnc-screen/src/synth.rs\<close>, the animated screen of tests and
    measurements, a backend too. A frame drawn on top of the one before it is the scene of its number, on screens
    where the box and the bar keep apart (at least 228 rows); its report is true, and with coarse reports the
    sessions stay right.

  \<^bold>\<open>Conventions.\<close> A panic, and a loop that does not end, is \<open>None\<close> or an \<open>Inl\<close>; an error result is an \<open>Inl\<close> with the
  source's error. \<open>i32\<close> coordinates are \<open>int\<close> with the wrap-around of the release build in \<open>i32\<close>; \<open>u8\<close> to
  \<open>u32\<close> values are words; \<open>usize\<close> and \<open>u64\<close> are \<open>nat\<close>, with \<open>add64\<close> where a counter may wrap. Instants and
  durations are nanoseconds. Recursion is structural or has a measure; the two deflate loops, which the
  source does not bound, are partial functions, and end under zlib's laws.

  \<^bold>\<open>Parameters.\<close> Other crates are arguments: one call of a zlib compressor or decompressor with its laws
  (\<open>zlib_laws\<close>, which the plain store satisfies), the JPEG encoder and decoder, the DES block cipher, random
  bytes, the clocks, and what the X server and Windows answer to the backends' requests (for a session,
  its input and clipboard calls are recorded); the hash of the
  comparing pass, which is trusted to tell the cells of two pictures apart, the order in which it walks its
  map of votes, and, for the capture thread's own laws, the backend.

  \<^bold>\<open>Interleaving.\<close> A turn of a session is one step: the frame events it receives, the clocks, the bytes
  written and the shared values are what they are when the turn looks, so the properties hold for every
  schedule of capture and writer threads between turns. Inside a turn the shared picture does not
  change: \<open>build_update\<close> takes its lock once for the size and once for the pixels, and a resize between
  the two is not modelled.

  \<^bold>\<open>Not modelled.\<close> Socket, thread and channel code; logging; the JSON of the stats endpoint; the command
  line; the handles, windows and memory mappings of both platforms; the test client and the tests.
\<close>

end
